(* ===== verification/Prelude.thy ===== *)
theory Prelude
  imports Main "HOL-Library.Word" "HOL-Library.Monad_Syntax"
begin

text \<open>
  What the components share.  Go values: a byte is an \<open>8 word\<close>, a sized unsigned
  integer is a word of its width, an \<open>int\<close> is an \<open>int\<close>, a slice of bytes is a list.
  A run-time panic is \<open>None\<close>; a Go \<open>error\<close> is the left side of a sum.
  Indexing and slicing are written with the bounds check the Go run time makes, so that
  a panic is a value of the model and its absence is a theorem.

  Second, the bit strings of the bit stream reader and writer: a byte list as a list of
  bits, most significant bit first, and a list of bits as a word.

  Third, the contract of a prefix code (\<open>prefix_codec\<close>): a decoder that reads back what
  an encoder wrote from the front of any longer input.
\<close>

unbundle bit_operations_syntax

type_synonym byte = "8 word"
type_synonym u16 = "16 word"
type_synonym u32 = "32 word"
type_synonym u64 = "64 word"
type_synonym bytes = "byte list"

named_theorems go_simps \<open>unfolding of the Go run-time operations\<close>
named_theorems bytes_simps \<open>byte order and bit string equations\<close>

section \<open>Slices\<close>

abbreviation glen :: "'a list \<Rightarrow> int" where
  "glen xs \<equiv> int (length xs)"

definition idx :: "'a list \<Rightarrow> int \<Rightarrow> 'a option" where
  "idx xs i = (if 0 \<le> i \<and> i < glen xs then Some (xs ! nat i) else None)"

definition upd :: "'a list \<Rightarrow> int \<Rightarrow> 'a \<Rightarrow> 'a list option" where
  "upd xs i v = (if 0 \<le> i \<and> i < glen xs then Some (xs[nat i := v]) else None)"

text \<open>\<open>xs[lo:hi]\<close>; the bound is the length, which is stricter than Go's capacity.\<close>

definition slice_of :: "'a list \<Rightarrow> int \<Rightarrow> int \<Rightarrow> 'a list option" where
  "slice_of xs lo hi = (if 0 \<le> lo \<and> lo \<le> hi \<and> hi \<le> glen xs
     then Some (take (nat (hi - lo)) (drop (nat lo) xs)) else None)"

definition slice_from :: "'a list \<Rightarrow> int \<Rightarrow> 'a list option" where
  "slice_from xs lo = (if 0 \<le> lo \<and> lo \<le> glen xs then Some (drop (nat lo) xs) else None)"

definition slice_to :: "'a list \<Rightarrow> int \<Rightarrow> 'a list option" where
  "slice_to xs hi = (if 0 \<le> hi \<and> hi \<le> glen xs then Some (take (nat hi) xs) else None)"

text \<open>\<open>make([]byte, n)\<close> panics on a negative length.\<close>

definition make_bytes :: "int \<Rightarrow> bytes option" where
  "make_bytes n = (if 0 \<le> n then Some (replicate (nat n) 0) else None)"

text \<open>\<open>copy(xs[i:], ys)\<close> stops at the shorter of the two.\<close>

definition copy_at :: "'a list \<Rightarrow> int \<Rightarrow> 'a list \<Rightarrow> 'a list option" where
  "copy_at xs i ys = (if 0 \<le> i \<and> i \<le> glen xs
     then Some (take (nat i) xs @ take (length xs - nat i) ys @ drop (nat i + length ys) xs)
     else None)"

text \<open>A store of all of \<open>ys\<close> at \<open>i\<close>, as \<open>binary.BigEndian.PutUint32(xs[i:], v)\<close> does.\<close>

definition put_at :: "'a list \<Rightarrow> int \<Rightarrow> 'a list \<Rightarrow> 'a list option" where
  "put_at xs i ys = (if 0 \<le> i \<and> i + glen ys \<le> glen xs
     then Some (take (nat i) xs @ ys @ drop (nat i + length ys) xs) else None)"

lemmas slice_defs [go_simps] =
  idx_def upd_def slice_of_def slice_from_def slice_to_def make_bytes_def copy_at_def put_at_def

lemma length_upd: "upd xs i v = Some ys \<Longrightarrow> length ys = length xs"
  by (auto simp: upd_def split: if_splits)

lemma length_copy_at: "copy_at xs i ys = Some zs \<Longrightarrow> length zs = length xs"
  by (auto simp: copy_at_def split: if_splits)

lemma length_put_at: "put_at xs i ys = Some zs \<Longrightarrow> length zs = length xs"
  by (auto simp: put_at_def split: if_splits)

lemma slice_of_total: "0 \<le> lo \<Longrightarrow> lo \<le> hi \<Longrightarrow> hi \<le> glen xs \<Longrightarrow>
  slice_of xs lo hi = Some (take (nat (hi - lo)) (drop (nat lo) xs))"
  by (simp add: slice_of_def)

lemma slice_from_int [simp]: "k \<le> length xs \<Longrightarrow> slice_from xs (int k) = Some (drop k xs)"
  by (simp add: slice_from_def)

lemma slice_to_int [simp]: "k \<le> length xs \<Longrightarrow> slice_to xs (int k) = Some (take k xs)"
  by (simp add: slice_to_def)

lemma case_hd: "xs \<noteq> [] \<Longrightarrow> (case xs of [] \<Rightarrow> a | x # _ \<Rightarrow> f x) = f (hd xs)"
  by (cases xs) simp_all

lemma bind_SomeE:
  assumes "Option.bind m f = Some y"
  obtains x where "m = Some x" "f x = Some y"
  using assms by (auto simp: Option.bind_eq_Some_conv)

section \<open>Errors\<close>

text \<open>
  A call that may panic or return a Go \<open>error\<close>: \<open>None\<close>, \<open>Some (Inl e)\<close> or \<open>Some (Inr x)\<close>.
  \<open>rbind\<close> is \<open>if err != nil { return err }\<close>.
\<close>

type_synonym ('e, 'a) result = "('e + 'a) option"

abbreviation ok :: "'a \<Rightarrow> ('e, 'a) result" where
  "ok x \<equiv> Some (Inr x)"

abbreviation err :: "'e \<Rightarrow> ('e, 'a) result" where
  "err e \<equiv> Some (Inl e)"

definition rbind :: "('e, 'a) result \<Rightarrow> ('a \<Rightarrow> ('e, 'b) result) \<Rightarrow> ('e, 'b) result" where
  "rbind m f = (case m of None \<Rightarrow> None | Some (Inl e) \<Rightarrow> Some (Inl e) | Some (Inr x) \<Rightarrow> f x)"

lemma rbind_simps [simp]:
  "rbind (ok x) f = f x" "rbind (err e) f = err e" "rbind None f = None"
  by (simp_all add: rbind_def)

lemma rbind_cong [fundef_cong]:
  "m = m' \<Longrightarrow> (\<And>x. m' = ok x \<Longrightarrow> f x = g x) \<Longrightarrow> rbind m f = rbind m' g"
  by (auto simp: rbind_def split: option.split sum.split)

lemma rbind_eq_ok: "rbind m f = ok y \<longleftrightarrow> (\<exists>x. m = ok x \<and> f x = ok y)"
  by (auto simp: rbind_def split: option.split sum.split)

lemma rbind_total:
  assumes "\<exists>r. m = Some r" and "\<And>x. m = ok x \<Longrightarrow> \<exists>r. f x = Some r"
  shows "\<exists>r. rbind m f = Some r"
  using assms by (auto simp: rbind_def split: option.split sum.split)

section \<open>Integers\<close>

text \<open>A sum of two \<open>int\<close> values as the 64-bit two's complement result Go computes.\<close>

definition wrap64 :: "int \<Rightarrow> int" where
  "wrap64 x = (x + 2 ^ 63) mod 2 ^ 64 - 2 ^ 63"

lemma wrap64_id: "- (2 ^ 63) \<le> x \<Longrightarrow> x < 2 ^ 63 \<Longrightarrow> wrap64 x = x"
  by (simp add: wrap64_def)

text \<open>Go's integer division and remainder truncate towards zero.\<close>

definition go_div :: "int \<Rightarrow> int \<Rightarrow> int" where
  "go_div a b = sgn a * sgn b * (\<bar>a\<bar> div \<bar>b\<bar>)"

lemma go_div_nonneg: "0 \<le> a \<Longrightarrow> 0 < b \<Longrightarrow> go_div a b = a div b"
  by (cases "a = 0") (simp_all add: go_div_def)

text \<open>The position of the leading one of a positive number.\<close>

fun ilog2 :: "nat \<Rightarrow> nat" where
  "ilog2 n = (if n < 2 then 0 else Suc (ilog2 (n div 2)))"

declare ilog2.simps [simp del]

lemma ilog2_bounds: "0 < n \<Longrightarrow> 2 ^ ilog2 n \<le> n \<and> n < 2 ^ Suc (ilog2 n)"
proof (induction n rule: ilog2.induct)
  case (1 n)
  show ?case
  proof (cases "n < 2")
    case True
    then show ?thesis using "1.prems" by (simp add: ilog2.simps [of n])
  next
    case False
    then have "2 ^ ilog2 (n div 2) \<le> n div 2 \<and> n div 2 < 2 ^ Suc (ilog2 (n div 2))"
      using "1.IH" by simp
    moreover have "ilog2 n = Suc (ilog2 (n div 2))" using False by (simp add: ilog2.simps [of n])
    ultimately show ?thesis by (simp only: power_Suc) linarith
  qed
qed

section \<open>Byte order\<close>

definition be16 :: "u16 \<Rightarrow> bytes" where
  "be16 w = [ucast (drop_bit 8 w), ucast w]"

definition be32 :: "u32 \<Rightarrow> bytes" where
  "be32 w = [ucast (drop_bit 24 w), ucast (drop_bit 16 w), ucast (drop_bit 8 w), ucast w]"

definition be64 :: "u64 \<Rightarrow> bytes" where
  "be64 w = [ucast (drop_bit 56 w), ucast (drop_bit 48 w), ucast (drop_bit 40 w),
     ucast (drop_bit 32 w), ucast (drop_bit 24 w), ucast (drop_bit 16 w),
     ucast (drop_bit 8 w), ucast w]"

definition le16 :: "u16 \<Rightarrow> bytes" where
  "le16 w = rev (be16 w)"

definition le32 :: "u32 \<Rightarrow> bytes" where
  "le32 w = rev (be32 w)"

text \<open>The readers panic on a slice that is too short.\<close>

fun get_be16 :: "bytes \<Rightarrow> u16 option" where
  "get_be16 (a # b # r) = Some (push_bit 8 (ucast a) OR ucast b)"
| "get_be16 xs = None"

fun get_be32 :: "bytes \<Rightarrow> u32 option" where
  "get_be32 (a # b # c # d # r) =
     Some (push_bit 24 (ucast a) OR push_bit 16 (ucast b) OR push_bit 8 (ucast c) OR ucast d)"
| "get_be32 xs = None"

fun get_be64 :: "bytes \<Rightarrow> u64 option" where
  "get_be64 (a # b # c # d # e # f # g # h # r) =
     Some (push_bit 56 (ucast a) OR push_bit 48 (ucast b) OR push_bit 40 (ucast c)
       OR push_bit 32 (ucast d) OR push_bit 24 (ucast e) OR push_bit 16 (ucast f)
       OR push_bit 8 (ucast g) OR ucast h)"
| "get_be64 xs = None"

fun get_le32 :: "bytes \<Rightarrow> u32 option" where
  "get_le32 (a # b # c # d # r) =
     Some (push_bit 24 (ucast d) OR push_bit 16 (ucast c) OR push_bit 8 (ucast b) OR ucast a)"
| "get_le32 xs = None"

lemma length_be [simp]: "length (be16 v) = 2" "length (be32 w) = 4" "length (be64 x) = 8"
  "length (le16 v) = 2" "length (le32 w) = 4"
  by (simp_all add: be16_def be32_def be64_def le16_def le32_def)

lemma byte_and_FF [simp]: "(b :: byte) AND 0xFF = b"
proof -
  have "(0xFF :: byte) = - 1" by simp
  then show ?thesis by (simp only: and.right_neutral)
qed

text \<open>One byte of a word, put back at its place.\<close>

lemma bit_byte_at:
  "bit (push_bit k (ucast (ucast (drop_bit k w) :: byte)) :: 'a::len word) n \<longleftrightarrow>
     k \<le> n \<and> n < k + 8 \<and> bit w n" for w :: "'a::len word"
  by (auto simp: bit_simps dest: bit_imp_le_length)

lemma bit_byte_low:
  "bit (ucast (ucast w :: byte) :: 'a::len word) n \<longleftrightarrow> n < 8 \<and> bit w n" for w :: "'a::len word"
  by (auto simp: bit_simps dest: bit_imp_le_length)

lemma bytes_of_u16:
  "push_bit 8 (ucast (ucast (drop_bit 8 w) :: byte)) OR ucast (ucast w :: byte) = (w :: u16)"
  (is "?l = w")
proof (rule bit_word_eqI)
  fix n assume "n < LENGTH(16)"
  then have "n < 8 \<or> 8 \<le> n \<and> n < 8 + 8" by auto
  then show "bit ?l n = bit w n"
    by (auto simp: bit_or_iff bit_byte_at bit_byte_low)
qed

lemma bytes_of_u32:
  "push_bit 24 (ucast (ucast (drop_bit 24 w) :: byte)) OR
   push_bit 16 (ucast (ucast (drop_bit 16 w) :: byte)) OR
   push_bit 8 (ucast (ucast (drop_bit 8 w) :: byte)) OR ucast (ucast w :: byte) = (w :: u32)"
  (is "?l = w")
proof (rule bit_word_eqI)
  fix n assume "n < LENGTH(32)"
  then have "n < 8 \<or> 8 \<le> n \<and> n < 8 + 8 \<or> 16 \<le> n \<and> n < 16 + 8 \<or> 24 \<le> n \<and> n < 24 + 8"
    by auto
  then show "bit ?l n = bit w n"
    by (auto simp: bit_or_iff bit_byte_at bit_byte_low)
qed

lemma bytes_of_u64:
  "push_bit 56 (ucast (ucast (drop_bit 56 w) :: byte)) OR
   push_bit 48 (ucast (ucast (drop_bit 48 w) :: byte)) OR
   push_bit 40 (ucast (ucast (drop_bit 40 w) :: byte)) OR
   push_bit 32 (ucast (ucast (drop_bit 32 w) :: byte)) OR
   push_bit 24 (ucast (ucast (drop_bit 24 w) :: byte)) OR
   push_bit 16 (ucast (ucast (drop_bit 16 w) :: byte)) OR
   push_bit 8 (ucast (ucast (drop_bit 8 w) :: byte)) OR ucast (ucast w :: byte) = (w :: u64)"
  (is "?l = w")
proof (rule bit_word_eqI)
  fix n assume "n < LENGTH(64)"
  then have "n < 8 \<or> 8 \<le> n \<and> n < 8 + 8 \<or> 16 \<le> n \<and> n < 16 + 8 \<or> 24 \<le> n \<and> n < 24 + 8 \<or>
      32 \<le> n \<and> n < 32 + 8 \<or> 40 \<le> n \<and> n < 40 + 8 \<or> 48 \<le> n \<and> n < 48 + 8 \<or>
      56 \<le> n \<and> n < 56 + 8"
    by auto
  then show "bit ?l n = bit w n"
    by (auto simp only: bit_or_iff bit_byte_at bit_byte_low)
qed

lemma get_be16_append [simp, bytes_simps]: "get_be16 (be16 w @ r) = Some w"
  by (simp add: be16_def bytes_of_u16)

lemma get_be32_append [simp, bytes_simps]: "get_be32 (be32 w @ r) = Some w"
  by (simp add: be32_def bytes_of_u32)

lemma get_be64_append [simp, bytes_simps]: "get_be64 (be64 w @ r) = Some w"
  by (simp add: be64_def bytes_of_u64)

lemma get_le32_append [simp, bytes_simps]: "get_le32 (le32 w @ r) = Some w"
  by (simp add: le32_def be32_def bytes_of_u32)

lemma get_be16_be16 [simp]: "get_be16 (be16 w) = Some w"
  using get_be16_append [of w "[]"] by simp

lemma get_be32_be32 [simp]: "get_be32 (be32 w) = Some w"
  using get_be32_append [of w "[]"] by simp

lemma get_be64_be64 [simp]: "get_be64 (be64 w) = Some w"
  using get_be64_append [of w "[]"] by simp

lemma get_be16_total: "2 \<le> length xs \<Longrightarrow> \<exists>w. get_be16 xs = Some w"
  by (cases xs rule: get_be16.cases) auto

lemma get_be32_total: "4 \<le> length xs \<Longrightarrow> \<exists>w. get_be32 xs = Some w"
  by (cases xs rule: get_be32.cases) auto

lemma get_be64_total: "8 \<le> length xs \<Longrightarrow> \<exists>w. get_be64 xs = Some w"
  by (cases xs rule: get_be64.cases) auto

lemma get_le32_total: "4 \<le> length xs \<Longrightarrow> \<exists>w. get_le32 xs = Some w"
  by (cases xs rule: get_le32.cases) auto

text \<open>The bytes of a length, as the encoders write them with shifts and conversions.\<close>

lemma ucast_byte_of_nat: "ucast (word_of_nat n :: 'a::len word) = (word_of_nat n :: byte)" if "8 \<le> LENGTH('a)"
  using that by (simp add: unsigned_of_nat word_of_nat_eq_iff min_def)

lemma drop_bit_word_of_nat: "n < 2 ^ LENGTH('a) \<Longrightarrow>
   drop_bit k (word_of_nat n :: 'a::len word) = word_of_nat (n div 2 ^ k)"
proof -
  assume "n < 2 ^ LENGTH('a)"
  then have "unat (word_of_nat n :: 'a word) = n" by (simp add: unat_of_nat)
  moreover have "n div 2 ^ k < 2 ^ LENGTH('a)"
    using \<open>n < 2 ^ LENGTH('a)\<close> by (meson div_le_dividend le_less_trans)
  then have "unat (word_of_nat (n div 2 ^ k) :: 'a word) = n div 2 ^ k" by (simp add: unat_of_nat)
  ultimately show ?thesis by (metis unat_drop_bit_eq drop_bit_eq_div word_unat_eq_iff)
qed

lemma be16_of_nat: "n < 65536 \<Longrightarrow> be16 (word_of_nat n) = [word_of_nat (n div 256), word_of_nat n]"
  using drop_bit_word_of_nat [where 'a = 16, of n 8] by (simp add: be16_def ucast_byte_of_nat)

lemma be32_of_nat: "n < 2 ^ 32 \<Longrightarrow> be32 (word_of_nat n) =
   [word_of_nat (n div 2 ^ 24), word_of_nat (n div 2 ^ 16), word_of_nat (n div 2 ^ 8), word_of_nat n]"
  using drop_bit_word_of_nat [where 'a = 32, of n 8] drop_bit_word_of_nat [where 'a = 32, of n 16]
   drop_bit_word_of_nat [where 'a = 32, of n 24] by (simp add: be32_def ucast_byte_of_nat)

section \<open>Bit strings\<close>

text \<open>The low \<open>n\<close> bits of a word, most significant first, and the word of a bit string.\<close>

definition bits_msb :: "nat \<Rightarrow> 'a::len word \<Rightarrow> bool list" where
  "bits_msb n w = map (\<lambda>i. bit w (n - 1 - i)) [0..<n]"

definition of_msb :: "bool list \<Rightarrow> 'a::len word" where
  "of_msb bs = foldl (\<lambda>v b. push_bit 1 v OR of_bool b) 0 bs"

definition bits_of_bytes :: "bytes \<Rightarrow> bool list" where
  "bits_of_bytes bs = concat (map (bits_msb 8) bs)"

definition buf_bit :: "bytes \<Rightarrow> nat \<Rightarrow> bool" where
  "buf_bit bs p = bit (bs ! (p div 8)) (7 - p mod 8)"

lemma length_bits_msb [simp]: "length (bits_msb n w) = n"
  by (simp add: bits_msb_def)

lemma bits_msb_eq_Nil [simp]: "bits_msb n w = [] \<longleftrightarrow> n = 0"
  by (simp add: bits_msb_def)

lemma nth_bits_msb [simp]: "i < n \<Longrightarrow> bits_msb n w ! i = bit w (n - 1 - i)"
  by (simp add: bits_msb_def)

lemma length_bits_of_bytes [simp]: "length (bits_of_bytes bs) = 8 * length bs"
  by (induction bs) (simp_all add: bits_of_bytes_def)

lemma bits_of_bytes_Nil [simp]: "bits_of_bytes [] = []"
  by (simp add: bits_of_bytes_def)

lemma bits_of_bytes_append [simp]:
  "bits_of_bytes (xs @ ys) = bits_of_bytes xs @ bits_of_bytes ys"
  by (simp add: bits_of_bytes_def)

lemma bits_of_bytes_Cons: "bits_of_bytes (b # bs) = bits_msb 8 b @ bits_of_bytes bs"
  by (simp add: bits_of_bytes_def)

lemma nth_bits_of_bytes: "p < 8 * length bs \<Longrightarrow> bits_of_bytes bs ! p = buf_bit bs p"
proof (induction bs arbitrary: p)
  case Nil
  then show ?case by simp
next
  case (Cons b bs)
  show ?case
  proof (cases "p < 8")
    case True
    then show ?thesis by (simp add: bits_of_bytes_Cons nth_append buf_bit_def)
  next
    case False
    then obtain q where q: "p = q + 8" by (metis add.commute le_Suc_ex not_less)
    with Cons show ?thesis
      by (simp add: bits_of_bytes_Cons nth_append buf_bit_def div_add_self2)
  qed
qed

lemma bit_of_msb:
  "bit (of_msb bs :: 'a::len word) i \<longleftrightarrow>
     i < length bs \<and> i < LENGTH('a) \<and> bs ! (length bs - 1 - i)"
proof (induction bs arbitrary: i rule: rev_induct)
  case Nil
  then show ?case by (simp add: of_msb_def)
next
  case (snoc b bs)
  have eq: "of_msb (bs @ [b]) = (push_bit 1 (of_msb bs) OR of_bool b :: 'a word)"
    by (simp add: of_msb_def)
  show ?case
  proof (cases i)
    case 0
    then show ?thesis
      by (simp only: eq bit_or_iff bit_push_bit_iff bit_of_bool_iff) simp
  next
    case (Suc j)
    then show ?thesis
      by (simp only: eq bit_or_iff bit_push_bit_iff bit_of_bool_iff snoc)
        (auto simp: nth_append)
  qed
qed

lemma of_msb_bits_msb: "of_msb (bits_msb n (w :: 'a::len word)) = (take_bit n w :: 'a word)"
  by (rule bit_word_eqI) (auto simp: bit_of_msb bit_simps dest: bit_imp_le_length)

lemma of_msb_append:
  "of_msb (xs @ ys) = (push_bit (length ys) (of_msb xs) OR of_msb ys :: 'a::len word)"
  by (rule bit_word_eqI) (auto simp: bit_of_msb bit_simps nth_append)

lemma of_msb_Nil [simp]: "of_msb [] = 0"
  by (simp add: of_msb_def)

lemma unat_of_msb_bound: "unat (of_msb bs :: 'a::len word) < 2 ^ length bs"
proof -
  have "take_bit (length bs) (of_msb bs :: 'a word) = of_msb bs"
    by (rule bit_word_eqI) (auto simp: bit_of_msb bit_simps)
  then have "unat (of_msb bs :: 'a word) = take_bit (length bs) (unat (of_msb bs :: 'a word))"
    by (metis unsigned_take_bit_eq)
  then show ?thesis
    by (metis take_bit_nat_less_exp)
qed

lemma bits_of_bytes_take: "bits_of_bytes (take n bs) = take (8 * n) (bits_of_bytes bs)"
proof (induction bs arbitrary: n)
  case (Cons b bs)
  then show ?case by (cases n) (simp_all add: bits_of_bytes_Cons)
qed simp

lemma bits_of_bytes_drop: "bits_of_bytes (drop n bs) = drop (8 * n) (bits_of_bytes bs)"
proof (induction bs arbitrary: n)
  case (Cons b bs)
  then show ?case by (cases n) (simp_all add: bits_of_bytes_Cons)
qed simp

lemma bits_of_bytes_eq_Nil [simp]: "bits_of_bytes xs = [] \<longleftrightarrow> xs = []"
  using length_bits_of_bytes [of xs] by (cases xs) (auto simp del: length_bits_of_bytes)

lemma bits_msb_8_inject [simp]: "bits_msb 8 a = bits_msb 8 b \<longleftrightarrow> a = b" for a b :: byte
proof
  assume "bits_msb 8 a = bits_msb 8 b"
  then have "(take_bit 8 a :: byte) = take_bit 8 b"
    by (metis of_msb_bits_msb)
  then show "a = b" by (simp add: take_bit_word_eq_self)
qed simp

lemma bits_of_bytes_inject: "bits_of_bytes xs = bits_of_bytes ys \<longleftrightarrow> xs = ys"
proof (induction xs arbitrary: ys)
  case Nil
  then show ?case by (cases ys) (simp_all add: bits_of_bytes_Cons eq_commute [of "[]"])
next
  case (Cons x xs)
  then show ?case
    by (cases ys) (simp_all add: bits_of_bytes_Cons)
qed

lemma bits_of_bytes_drop_nth:
  "B < length bs \<Longrightarrow>
     drop (8 * B) (bits_of_bytes bs) = bits_msb 8 (bs ! B) @ drop (8 * Suc B) (bits_of_bytes bs)"
  by (metis Cons_nth_drop_Suc bits_of_bytes_Cons bits_of_bytes_drop)

section \<open>Bit fields\<close>

text \<open>\<open>w\<close> needs at most \<open>n\<close> bits.\<close>

definition fits :: "nat \<Rightarrow> 'a::len word \<Rightarrow> bool" where
  "fits n w \<longleftrightarrow> drop_bit n w = 0"

lemma fits_bit: "fits n w \<Longrightarrow> n \<le> k \<Longrightarrow> \<not> bit w k"
proof
  assume "fits n w" "n \<le> k" "bit w k"
  then have "bit (drop_bit n w) (k - n)" by (simp add: bit_drop_bit_eq)
  with \<open>fits n w\<close> show False by (simp add: fits_def)
qed

lemma fits_less: "fits n w \<Longrightarrow> unat w < 2 ^ n" for w :: "'a::len word"
proof -
  assume "fits n w"
  then have "take_bit n w = w"
    by (intro bit_word_eqI) (auto simp: bit_take_bit_iff fits_bit not_less dest: fits_bit)
  then have "unat w = take_bit n (unat w)" by (metis unsigned_take_bit_eq)
  then show ?thesis by (metis take_bit_nat_less_exp)
qed

lemma less_fits: "unat w < 2 ^ n \<Longrightarrow> fits n w" for w :: "'a::len word"
proof -
  assume "unat w < 2 ^ n"
  moreover have "unat (drop_bit n w) = unat w div 2 ^ n"
    by (metis unat_drop_bit_eq drop_bit_eq_div)
  ultimately have "unat (drop_bit n w) = 0" by simp
  then show ?thesis by (simp add: fits_def unsigned_eq_0_iff)
qed

lemma small_u16: "n < 65536 \<Longrightarrow> unat (word_of_nat n :: u16) = n" "n < 65536 \<Longrightarrow> uint (word_of_nat n :: u16) = int n"
  by (simp only: unat_of_nat, simp add: take_bit_nat_eq_self, simp add: uint_nat unat_of_nat take_bit_nat_eq_self)

lemma bit_word_double: "bit (w * 2) n \<longleftrightarrow> 0 < n \<and> n < LENGTH('a) \<and> bit w (n - 1)"
  for w :: "'a::len word"
  using bit_double_iff [of w n] by (auto simp: mult.commute)

text \<open>Equality of words bit by bit, with concrete positions that \<open>simp\<close> evaluates.\<close>

lemma byte_eqI:
  assumes "bit a 0 = bit b 0" "bit a 1 = bit b 1" "bit a 2 = bit b 2" "bit a 3 = bit b 3"
    and "bit a 4 = bit b 4" "bit a 5 = bit b 5" "bit a 6 = bit b 6" "bit a 7 = bit b 7"
  shows "a = (b :: byte)"
proof (rule bit_word_eqI)
  fix n assume "n < LENGTH(8)"
  then have "n \<in> {0, 1, 2, 3, 4, 5, 6, 7}" by auto
  then show "bit a n = bit b n" using assms by auto
qed

lemma u16_eqI:
  assumes "bit a 0 = bit b 0" "bit a 1 = bit b 1" "bit a 2 = bit b 2" "bit a 3 = bit b 3"
    and "bit a 4 = bit b 4" "bit a 5 = bit b 5" "bit a 6 = bit b 6" "bit a 7 = bit b 7"
    and "bit a 8 = bit b 8" "bit a 9 = bit b 9" "bit a 10 = bit b 10" "bit a 11 = bit b 11"
    and "bit a 12 = bit b 12" "bit a 13 = bit b 13" "bit a 14 = bit b 14" "bit a 15 = bit b 15"
  shows "a = (b :: u16)"
proof (rule bit_word_eqI)
  fix n assume "n < LENGTH(16)"
  then have "n \<in> {0, 1, 2, 3, 4, 5, 6, 7, 8, 9, 10, 11, 12, 13, 14, 15}" by simp presburger
  then show "bit a n = bit b n" using assms by auto
qed

section \<open>Prefix codes\<close>

text \<open>
  The contract between a serialiser and its parser: \<open>dec\<close> reads from the front of its
  input, returns the value and how many bytes it used, and undoes \<open>enc\<close> whatever
  follows.  \<open>valid\<close> says which values \<open>enc\<close> can represent.
\<close>

locale prefix_codec =
  fixes enc :: "'a \<Rightarrow> byte list"
    and dec :: "byte list \<Rightarrow> ('a \<times> nat) option"
    and valid :: "'a \<Rightarrow> bool"
  assumes dec_enc: "valid x \<Longrightarrow> dec (enc x @ r) = Some (x, length (enc x))"
    and enc_nonempty: "valid x \<Longrightarrow> enc x \<noteq> []"
begin

lemma enc_prefix_free:
  assumes "valid x" and "valid y" and "enc x @ r = enc y @ s"
  shows "x = y \<and> r = s"
proof -
  have "Some (x, length (enc x)) = Some (y, length (enc y))"
    using dec_enc [OF assms(1), of r] dec_enc [OF assms(2), of s] assms(3) by simp
  with assms(3) show ?thesis by simp
qed

lemma enc_inj: "valid x \<Longrightarrow> valid y \<Longrightarrow> enc x = enc y \<Longrightarrow> x = y"
  using enc_prefix_free [of x y "[]" "[]"] by simp

text \<open>A sequence of values written one after the other is uniquely decodable.\<close>

lemma concat_enc_inj:
  assumes "\<forall>x\<in>set xs. valid x" and "\<forall>y\<in>set ys. valid y"
    and "concat (map enc xs) = concat (map enc ys)"
  shows "xs = ys"
  using assms
proof (induction xs arbitrary: ys)
  case Nil
  then show ?case using enc_nonempty by (cases ys) auto
next
  case (Cons x xs)
  have vx: "valid x" and vxs: "\<forall>z\<in>set xs. valid z"
    using Cons.prems(1) by simp_all
  obtain y zs where ys: "ys = y # zs"
    using Cons.prems(3) enc_nonempty [OF vx] by (cases ys) simp_all
  have vy: "valid y" and vzs: "\<forall>z\<in>set zs. valid z"
    using Cons.prems(2) ys by simp_all
  have "x = y \<and> concat (map enc xs) = concat (map enc zs)"
    using enc_prefix_free [OF vx vy] Cons.prems(3) ys by simp
  with Cons.IH [OF vxs vzs] ys show ?case by simp
qed

end

end
