(* ===== verification/BitStream.thy ===== *)
theory BitStream
  imports Prelude
begin

text \<open>
  The bit reader of \<open>go-codec/bitstream.go\<close> (type \<open>BitStream\<close>).  The record has the
  fields of the struct; every method is a function from the state to the returned value and
  the new state, \<open>None\<close> being an index or slice panic.

  The abstract reader is a list of bits still to be read (\<open>rest_bits\<close>): the lemmas show that
  each method takes its bits from the front of that list, that a read that does not fit
  leaves the stream in the sticky error state without consuming anything, and that no
  method panics on a well-formed stream.
\<close>

datatype codec_error = ErrOutOfRange | ErrNotByteAligned | ErrBadBitCount | ErrMsg string

record bitstream =
  bs_bits :: bytes
  bytesOffset :: nat
  bitsOffset :: nat
  bitsmark :: nat
  bytemark :: nat
  bs_err :: "codec_error option"

definition bitMask :: "byte list" where
  "bitMask = [0x01, 0x03, 0x07, 0x0F, 0x1F, 0x3F, 0x7F, 0xFF]"

definition NewBitStream :: "bytes \<Rightarrow> bitstream" where
  "NewBitStream buf = \<lparr>bs_bits = buf, bytesOffset = 0, bitsOffset = 0, bitsmark = 0,
     bytemark = 0, bs_err = None\<rparr>"

definition Err :: "bitstream \<Rightarrow> codec_error option" where
  "Err s = bs_err s"

definition setErr :: "bitstream \<Rightarrow> bitstream" where
  "setErr s = (if bs_err s = None then s\<lparr>bs_err := Some ErrOutOfRange\<rparr> else s)"

definition Fail :: "codec_error \<Rightarrow> bitstream \<Rightarrow> bitstream" where
  "Fail e s = (if bs_err s = None then s\<lparr>bs_err := Some e\<rparr> else s)"

definition RemainBytes :: "bitstream \<Rightarrow> int" where
  "RemainBytes s = (if bitsOffset s > 0 then glen (bs_bits s) - int (bytesOffset s) - 1
     else glen (bs_bits s) - int (bytesOffset s))"

definition RemainBits :: "bitstream \<Rightarrow> int" where
  "RemainBits s = (if bitsOffset s > 0 then RemainBytes s * 8 + 8 - int (bitsOffset s)
     else RemainBytes s * 8)"

section \<open>Reads\<close>

text \<open>
  \<open>GetBytes\<close> adds its argument to the offset in 64-bit arithmetic: the sum is written with
  its wrap-around.
\<close>

definition GetBytes :: "int \<Rightarrow> bitstream \<Rightarrow> (bytes option \<times> bitstream) option" where
  "GetBytes n s =
     (if bs_err s \<noteq> None then Some (None, s)
      else if n < 0 \<or> bitsOffset s \<noteq> 0 \<or> wrap64 (int (bytesOffset s) + n) > glen (bs_bits s)
      then Some (None, setErr s)
      else do {
        data \<leftarrow> slice_of (bs_bits s) (int (bytesOffset s)) (wrap64 (int (bytesOffset s) + n));
        Some (Some data, s\<lparr>bytesOffset := bytesOffset s + nat n\<rparr>)
      })"

fun GetBits_loop :: "u64 \<Rightarrow> nat \<Rightarrow> bitstream \<Rightarrow> (u64 \<times> bitstream) option" where
  "GetBits_loop ret n s =
     (if n = 0 then Some (ret, s)
      else if n \<ge> 8 then do {
        b \<leftarrow> idx (bs_bits s) (int (bytesOffset s));
        GetBits_loop (push_bit 8 ret OR ucast b) (n - 8) (s\<lparr>bytesOffset := bytesOffset s + 1\<rparr>)
      }
      else do {
        b \<leftarrow> idx (bs_bits s) (int (bytesOffset s));
        m \<leftarrow> idx bitMask (int n - 1);
        Some (push_bit n ret OR ucast (drop_bit (8 - n) b AND m), s\<lparr>bitsOffset := n\<rparr>)
      })"

declare GetBits_loop.simps [simp del]

definition GetBits :: "int \<Rightarrow> bitstream \<Rightarrow> (u64 \<times> bitstream) option" where
  "GetBits n s =
     (if bs_err s \<noteq> None then Some (0, s)
      else if n < 0 \<or> n > 64 then Some (0, setErr s)
      else if n = 0 then Some (0, s)
      else if n > RemainBits s then Some (0, setErr s)
      else if 8 - int (bitsOffset s) \<ge> n then do {
        b \<leftarrow> idx (bs_bits s) (int (bytesOffset s));
        m \<leftarrow> idx bitMask (n - 1);
        let ret = ucast (drop_bit (nat (8 - int (bitsOffset s) - n)) b AND m);
        let off = bitsOffset s + nat n;
        Some (ret, if off = 8 then s\<lparr>bytesOffset := bytesOffset s + 1, bitsOffset := 0\<rparr>
          else s\<lparr>bitsOffset := off\<rparr>)
      }
      else do {
        b \<leftarrow> idx (bs_bits s) (int (bytesOffset s));
        m \<leftarrow> idx bitMask (8 - int (bitsOffset s) - 1);
        GetBits_loop (ucast (b AND m)) (nat (n - (8 - int (bitsOffset s))))
          (s\<lparr>bytesOffset := bytesOffset s + 1, bitsOffset := 0\<rparr>)
      })"

definition Uint8 :: "int \<Rightarrow> bitstream \<Rightarrow> (byte \<times> bitstream) option" where
  "Uint8 n s = map_option (\<lambda>(v, s). (ucast v, s)) (GetBits n s)"

definition Uint16 :: "int \<Rightarrow> bitstream \<Rightarrow> (u16 \<times> bitstream) option" where
  "Uint16 n s = map_option (\<lambda>(v, s). (ucast v, s)) (GetBits n s)"

definition Uint32 :: "int \<Rightarrow> bitstream \<Rightarrow> (u32 \<times> bitstream) option" where
  "Uint32 n s = map_option (\<lambda>(v, s). (ucast v, s)) (GetBits n s)"

definition GetBit :: "bitstream \<Rightarrow> (byte \<times> bitstream) option" where
  "GetBit s =
     (if bs_err s \<noteq> None then Some (0, s)
      else if bytesOffset s \<ge> length (bs_bits s) then Some (0, setErr s)
      else do {
        b \<leftarrow> idx (bs_bits s) (int (bytesOffset s));
        let ret = drop_bit (nat (7 - int (bitsOffset s))) b AND 0x01;
        let off = bitsOffset s + 1;
        Some (ret, if off \<ge> 8 then s\<lparr>bytesOffset := bytesOffset s + 1, bitsOffset := 0\<rparr>
          else s\<lparr>bitsOffset := off\<rparr>)
      })"

section \<open>Moving the read position\<close>

definition SkipBits :: "int \<Rightarrow> bitstream \<Rightarrow> bitstream" where
  "SkipBits n s =
     (if bs_err s \<noteq> None then s
      else if n < 0 \<or> n > RemainBits s then setErr s
      else
        let bytecount = nat n div 8; bitscount = nat n mod 8;
          t = s\<lparr>bytesOffset := bytesOffset s + bytecount\<rparr>
        in if bitsOffset t + bitscount < 8 then t\<lparr>bitsOffset := bitsOffset t + bitscount\<rparr>
           else t\<lparr>bytesOffset := bytesOffset t + 1, bitsOffset := bitsOffset t + bitscount - 8\<rparr>)"

definition Markdot :: "bitstream \<Rightarrow> bitstream" where
  "Markdot s = s\<lparr>bitsmark := bitsOffset s, bytemark := bytesOffset s\<rparr>"

definition DistanceFromMarkDot :: "bitstream \<Rightarrow> int" where
  "DistanceFromMarkDot s =
     (let bytecount = int (bytesOffset s) - int (bytemark s) - 1;
          bitscount = int (bitsOffset s) + (8 - int (bitsmark s))
      in bytecount * 8 + bitscount)"

definition Bits :: "bitstream \<Rightarrow> bytes" where
  "Bits s = bs_bits s"

definition RemainData :: "bitstream \<Rightarrow> bytes" where
  "RemainData s = (if bytesOffset s \<ge> length (bs_bits s) then []
     else drop (bytesOffset s) (bs_bits s))"

definition ByteOffset :: "bitstream \<Rightarrow> nat" where
  "ByteOffset s = bytesOffset s"

definition UnRead :: "int \<Rightarrow> bitstream \<Rightarrow> bitstream" where
  "UnRead n s =
     (if n < 0 then setErr s
      else
        let p = int (bytesOffset s) * 8 + int (bitsOffset s);
            t = (if n > p then setErr s else s);
            q = p - (if n > p then p else n)
        in t\<lparr>bytesOffset := nat (q div 8), bitsOffset := nat (q mod 8)\<rparr>)"

definition NextBits :: "int \<Rightarrow> bitstream \<Rightarrow> (u64 \<times> bitstream) option" where
  "NextBits n s =
     (if bs_err s \<noteq> None then Some (0, s)
      else if n < 0 \<or> n > RemainBits s then Some (0, setErr s)
      else do {
        (r, t) \<leftarrow> GetBits n s;
        Some (r, UnRead n t)
      })"

definition EOS :: "bitstream \<Rightarrow> bool" where
  "EOS s \<longleftrightarrow> bs_err s \<noteq> None \<or> (bytesOffset s = length (bs_bits s) \<and> bitsOffset s = 0)"

section \<open>Exp-Golomb codes\<close>

text \<open>
  The prefix loop of \<open>ReadUE\<close> returns the number of leading zero bits, or nothing when the
  method returns 0 early (the stream failed, or the prefix is longer than 63 bits).
\<close>

function ReadUE_loop :: "nat \<Rightarrow> bitstream \<Rightarrow> (nat option \<times> bitstream) option" where
  "ReadUE_loop leadingZeroBits s =
     (if bs_err s \<noteq> None then Some (None, s)
      else do {
        (b, t) \<leftarrow> GetBit s;
        if b \<noteq> 0 then Some (Some leadingZeroBits, t)
        else if leadingZeroBits + 1 > 63 then Some (None, setErr t)
        else ReadUE_loop (leadingZeroBits + 1) t
      })"
  by pat_completeness auto
termination
  by (relation "measure (\<lambda>(k, s). 64 - k)") auto

declare ReadUE_loop.simps [simp del]

definition ReadUE :: "bitstream \<Rightarrow> (u64 \<times> bitstream) option" where
  "ReadUE s = do {
     (r, t) \<leftarrow> ReadUE_loop 0 s;
     (case r of
        None \<Rightarrow> Some (0, t)
      | Some k \<Rightarrow>
          if k = 0 then Some (0, t)
          else do {
            (info, u) \<leftarrow> GetBits (int k) t;
            Some (push_bit k 1 - 1 + info, u)
          })
   }"

text \<open>The signed code: \<open>int64\<close> conversions are \<open>sint\<close>, \<open>/\<close> truncates.\<close>

definition ReadSE :: "bitstream \<Rightarrow> (int \<times> bitstream) option" where
  "ReadSE s = do {
     (v, t) \<leftarrow> ReadUE s;
     Some (if v mod 2 = 0 then - 1 * sint (v div 2) else go_div (sint (v + 1)) 2, t)
   }"

section \<open>The abstract reader\<close>

definition pos :: "bitstream \<Rightarrow> nat" where
  "pos s = 8 * bytesOffset s + bitsOffset s"

definition rest_bits :: "bitstream \<Rightarrow> bool list" where
  "rest_bits s = drop (pos s) (bits_of_bytes (bs_bits s))"

definition bs_ok :: "bitstream \<Rightarrow> bool" where
  "bs_ok s \<longleftrightarrow> bitsOffset s < 8 \<and> pos s \<le> 8 * length (bs_bits s)"

definition ready :: "bitstream \<Rightarrow> bool" where
  "ready s \<longleftrightarrow> bs_ok s \<and> bs_err s = None"

text \<open>The state after \<open>n\<close> more bits.\<close>

definition advance :: "nat \<Rightarrow> bitstream \<Rightarrow> bitstream" where
  "advance n s = s\<lparr>bytesOffset := (pos s + n) div 8, bitsOffset := (pos s + n) mod 8\<rparr>"

lemma advance_sel [simp]:
  "bs_bits (advance n s) = bs_bits s" "bs_err (advance n s) = bs_err s"
  "bitsmark (advance n s) = bitsmark s" "bytemark (advance n s) = bytemark s"
  "bytesOffset (advance n s) = (pos s + n) div 8" "bitsOffset (advance n s) = (pos s + n) mod 8"
  by (simp_all add: advance_def)

lemma div_mod_8: "x = 8 * B + k \<Longrightarrow> k < 8 \<Longrightarrow> x div 8 = B \<and> x mod 8 = (k :: nat)"
  by simp

lemma pos_advance [simp]: "pos (advance n s) = pos s + n"
  unfolding pos_def [of "advance n s"] by simp

lemma pos_update [simp]: "pos (s\<lparr>bs_err := e\<rparr>) = pos s"
  "pos (s\<lparr>bytesOffset := B, bitsOffset := k\<rparr>) = 8 * B + k"
  "pos (s\<lparr>bytesOffset := B\<rparr>) = 8 * B + bitsOffset s"
  "pos (s\<lparr>bitsOffset := k\<rparr>) = 8 * bytesOffset s + k"
  by (simp_all add: pos_def)

lemma advance_advance [simp]: "advance m (advance n s) = advance (n + m) s"
  by (simp add: advance_def add.assoc)

lemma advance_0: "bitsOffset s < 8 \<Longrightarrow> advance 0 s = s"
  by (cases s) (simp add: advance_def pos_def)

lemma rest_bits_advance: "rest_bits (advance n s) = drop n (rest_bits s)"
  by (simp add: rest_bits_def add.commute)

lemma length_rest_bits: "bs_ok s \<Longrightarrow> length (rest_bits s) + pos s = 8 * length (bs_bits s)"
  by (simp add: rest_bits_def bs_ok_def)

lemma bs_ok_advance: "bs_ok s \<Longrightarrow> n \<le> length (rest_bits s) \<Longrightarrow> bs_ok (advance n s)"
  using length_rest_bits [of s] by (simp add: bs_ok_def)

lemma ready_advance [simp]: "ready s \<Longrightarrow> n \<le> length (rest_bits s) \<Longrightarrow> ready (advance n s)"
  by (simp add: ready_def bs_ok_advance)

lemma ready_New [simp]: "ready (NewBitStream buf)"
  by (simp add: ready_def bs_ok_def NewBitStream_def pos_def)

lemma rest_bits_New [simp]: "rest_bits (NewBitStream buf) = bits_of_bytes buf"
  by (simp add: rest_bits_def NewBitStream_def pos_def)

lemma RemainBits_eq: "bs_ok s \<Longrightarrow> RemainBits s = int (length (rest_bits s))"
  using length_rest_bits [of s]
  by (auto simp: RemainBits_def RemainBytes_def bs_ok_def pos_def)

lemma setErr_sel [simp]: "pos (setErr s) = pos s" "bs_bits (setErr s) = bs_bits s"
  "bs_err (setErr s) \<noteq> None" "bytesOffset (setErr s) = bytesOffset s"
  "bitsOffset (setErr s) = bitsOffset s"
  by (simp_all add: setErr_def pos_def)

lemma bs_ok_setErr [simp]: "bs_ok (setErr s) = bs_ok s"
  by (simp add: bs_ok_def)

section \<open>Reads take bits from the front\<close>

lemma bitMask_nth: "i < 8 \<Longrightarrow> bitMask ! i = mask (Suc i)"
  by (auto simp: bitMask_def less_Suc_eq numeral_eq_Suc mask_eq_exp_minus_1)

lemma idx_bitMask [simp]: "0 \<le> i \<Longrightarrow> i < 8 \<Longrightarrow> idx bitMask i = Some (mask (Suc (nat i)))"
  by (simp add: idx_def bitMask_nth) (simp add: bitMask_def)

lemma rest_bits_byte:
  assumes "bytesOffset s < length (bs_bits s)" and "bitsOffset s \<le> 8"
  shows "rest_bits s = drop (bitsOffset s) (bits_msb 8 (bs_bits s ! bytesOffset s)) @
     drop (8 * Suc (bytesOffset s)) (bits_of_bytes (bs_bits s))"
proof -
  have "rest_bits s = drop (bitsOffset s) (drop (8 * bytesOffset s) (bits_of_bytes (bs_bits s)))"
    by (simp add: rest_bits_def pos_def add.commute)
  then show ?thesis
    using assms by (simp add: bits_of_bytes_drop_nth)
qed

lemma field_of_byte:
  assumes "k + n \<le> 8"
  shows "ucast (drop_bit (8 - k - n) b AND mask n) =
    (of_msb (take n (drop k (bits_msb 8 (b :: byte)))) :: u64)"
proof (rule bit_word_eqI)
  let ?f = "take n (drop k (bits_msb 8 b))"
  have len: "length ?f = n" using assms by simp
  have nth: "drop k (bits_msb 8 b) ! (n - Suc i) = bit b (8 - (k + n) + i)" if "i < n" for i
  proof -
    have "7 - (k + (n - Suc i)) = 8 - (k + n) + i" using that assms by linarith
    then show ?thesis using that assms by simp
  qed
  fix i assume "i < LENGTH(64)"
  then show "bit (ucast (drop_bit (8 - k - n) b AND mask n) :: u64) i = bit (of_msb ?f :: u64) i"
    unfolding bit_of_msb len
    using assms by (cases "i < n") (auto simp: nth bit_simps dest: bit_imp_le_length)
qed

lemma inside_byte:
  assumes "bs_ok s" and "0 < n" and "n \<le> length (rest_bits s)"
  shows "bytesOffset s < length (bs_bits s)"
  using assms length_rest_bits [of s] by (auto simp: bs_ok_def pos_def)

lemma take_rest_bits_byte:
  assumes "bytesOffset s < length (bs_bits s)" and "bitsOffset s + n \<le> 8"
  shows "take n (rest_bits s) = take n (drop (bitsOffset s) (bits_msb 8 (bs_bits s ! bytesOffset s)))"
  using assms by (subst rest_bits_byte) simp_all

lemma advance_in_byte:
  "bitsOffset s + n < 8 \<Longrightarrow> advance n s = s\<lparr>bitsOffset := bitsOffset s + n\<rparr>"
  "bitsOffset s + n = 8 \<Longrightarrow> advance n s = s\<lparr>bytesOffset := bytesOffset s + 1, bitsOffset := 0\<rparr>"
proof -
  assume "bitsOffset s + n < 8"
  then show "advance n s = s\<lparr>bitsOffset := bitsOffset s + n\<rparr>"
    by (cases s) (simp add: advance_def pos_def add.assoc)
next
  assume "bitsOffset s + n = 8"
  then have p: "pos s + n = 8 * (bytesOffset s + 1)" by (simp add: pos_def)
  show "advance n s = s\<lparr>bytesOffset := bytesOffset s + 1, bitsOffset := 0\<rparr>"
    unfolding advance_def p by simp
qed

lemma GetBits_loop_spec:
  assumes "bitsOffset s = 0" and "n + 8 * bytesOffset s \<le> 8 * length (bs_bits s)"
  shows "GetBits_loop ret n s =
    Some (push_bit n ret OR of_msb (take n (rest_bits s)), advance n s)"
  using assms
proof (induction ret n s rule: GetBits_loop.induct)
  case (1 ret n s)
  consider "n = 0" | "n \<ge> 8" | "0 < n" "n < 8" by linarith
  then show ?case
  proof cases
    case 1
    then show ?thesis
      using "1.prems" by (simp add: GetBits_loop.simps advance_0)
  next
    case 2
    let ?b = "bs_bits s ! bytesOffset s" and ?t = "s\<lparr>bytesOffset := bytesOffset s + 1\<rparr>"
    have B: "bytesOffset s < length (bs_bits s)" using 2 "1.prems" by linarith
    then have ib: "idx (bs_bits s) (int (bytesOffset s)) = Some ?b" by (simp add: idx_def)
    have t: "?t = advance 8 s" using advance_in_byte(2) [of s 8] "1.prems"(1) by (cases s) simp
    have byte: "of_msb (take 8 (rest_bits s)) = (ucast ?b :: u64)"
      using take_rest_bits_byte [OF B, of 8] field_of_byte [of 0 8 ?b] "1.prems"(1)
      by (simp add: take_bit_word_eq_self flip: take_bit_eq_mask)
    have len: "length (take n (rest_bits s)) = n"
      using "1.prems" by (simp add: rest_bits_def pos_def)
    have split: "take n (rest_bits s) = take 8 (rest_bits s) @ take (n - 8) (rest_bits ?t)"
      unfolding t rest_bits_advance using 2 by (metis le_add_diff_inverse take_add)
    have "GetBits_loop ret n s = GetBits_loop (push_bit 8 ret OR ucast ?b) (n - 8) ?t"
      using 2 ib by (simp add: GetBits_loop.simps [of ret n s])
    also have "\<dots> = Some (push_bit (n - 8) (push_bit 8 ret OR ucast ?b) OR
        of_msb (take (n - 8) (rest_bits ?t)), advance (n - 8) ?t)"
      using "1.IH" 2 ib "1.prems" by simp
    also have "push_bit (n - 8) (push_bit 8 ret OR ucast ?b) OR of_msb (take (n - 8) (rest_bits ?t))
        = push_bit n ret OR of_msb (take n (rest_bits s))"
    proof -
      have l: "length (take (n - 8) (rest_bits ?t)) = n - 8"
        using len 2 unfolding t rest_bits_advance by simp
      show ?thesis
        unfolding split of_msb_append byte l
        by (rule bit_word_eqI) (use 2 in \<open>auto simp: bit_simps\<close>)
    qed
    finally show ?thesis using 2 t by simp
  next
    case 3
    let ?b = "bs_bits s ! bytesOffset s"
    have B: "bytesOffset s < length (bs_bits s)" using 3 "1.prems" by linarith
    have "of_msb (take n (rest_bits s)) = (ucast (drop_bit (8 - n) ?b AND mask n) :: u64)"
      using take_rest_bits_byte [OF B, of n] field_of_byte [of 0 n ?b] "1.prems"(1) 3 by simp
    moreover have "idx (bs_bits s) (int (bytesOffset s)) = Some ?b" using B by (simp add: idx_def)
    moreover have "Suc (nat (int n - 1)) = n" using 3 by linarith
    ultimately show ?thesis
      using 3 "1.prems"(1) advance_in_byte(1) [of s n]
      by (simp add: GetBits_loop.simps [of ret n s])
  qed
qed

lemma idx_inside: "B < length xs \<Longrightarrow> idx xs (int B) = Some (xs ! B)"
  by (simp add: idx_def)

theorem GetBits_ready:
  assumes "ready s" and "n \<le> 64" and "n \<le> length (rest_bits s)"
  shows "GetBits (int n) s = Some (of_msb (take n (rest_bits s)), advance n s)"
proof (cases "n = 0")
  case True
  then show ?thesis using assms by (simp add: GetBits_def ready_def bs_ok_def advance_0)
next
  case False
  let ?k = "bitsOffset s" and ?b = "bs_bits s ! bytesOffset s"
  from assms have ok: "bs_ok s" and err: "bs_err s = None" and k: "?k < 8"
    by (simp_all add: ready_def bs_ok_def)
  from ok False assms(3) have B: "bytesOffset s < length (bs_bits s)"
    by (intro inside_byte [of s n]) auto
  have rem: "\<not> int n > RemainBits s" using ok assms(3) by (simp add: RemainBits_eq)
  show ?thesis
  proof (cases "?k + n \<le> 8")
    case True
    have "Suc (nat (int n - 1)) = n" using False by linarith
    moreover have "nat (8 - int ?k - int n) = 8 - ?k - n" by linarith
    moreover have "of_msb (take n (rest_bits s)) = (ucast (drop_bit (8 - ?k - n) ?b AND mask n) :: u64)"
      using take_rest_bits_byte [OF B True] field_of_byte [OF True, of ?b] by simp
    ultimately show ?thesis
      using True False assms(2) err rem B advance_in_byte [of s n]
      by (auto simp: GetBits_def idx_inside Let_def)
  next
    case wide: False
    let ?m = "8 - ?k" and ?t = "s\<lparr>bytesOffset := bytesOffset s + 1, bitsOffset := 0\<rparr>"
    have t: "?t = advance ?m s" using k advance_in_byte(2) [of s ?m] by simp
    have m: "Suc (nat (8 - int ?k - 1)) = ?m" "nat (int n - (8 - int ?k)) = n - ?m"
      using k wide by linarith+
    have head: "of_msb (take ?m (rest_bits s)) = (ucast (?b AND mask ?m) :: u64)"
      using take_rest_bits_byte [OF B, of ?m] field_of_byte [of ?k ?m ?b] k by simp
    have split: "take n (rest_bits s) = take ?m (rest_bits s) @ take (n - ?m) (rest_bits ?t)"
      unfolding t rest_bits_advance using wide by (metis le_add_diff_inverse nat_le_linear
          not_less_eq_eq take_add add.commute add_leD1 diff_le_self le_diff_conv)
    have len: "length (take (n - ?m) (rest_bits ?t)) = n - ?m"
      unfolding t rest_bits_advance using assms(3) by simp
    have "GetBits (int n) s = GetBits_loop (ucast (?b AND mask ?m)) (n - ?m) ?t"
      using False wide assms(2) err rem B k m by (simp add: GetBits_def idx_inside)
    also have "\<dots> = Some (push_bit (n - ?m) (ucast (?b AND mask ?m)) OR
        of_msb (take (n - ?m) (rest_bits ?t)), advance (n - ?m) ?t)"
    proof (rule GetBits_loop_spec)
      show "n - ?m + 8 * bytesOffset ?t \<le> 8 * length (bs_bits ?t)"
        using assms(3) length_rest_bits [OF ok] wide k by (simp add: pos_def)
    qed simp
    also have "push_bit (n - ?m) (ucast (?b AND mask ?m)) OR of_msb (take (n - ?m) (rest_bits ?t))
        = (of_msb (take n (rest_bits s)) :: u64)"
      by (simp only: split of_msb_append len head)
    also have "advance (n - ?m) ?t = advance n s"
      using t wide by simp
    finally show ?thesis .
  qed
qed

text \<open>A read of more bits than remain fails without consuming anything.\<close>

lemma GetBits_short:
  assumes "ready s" and "0 < n" and "n > int (length (rest_bits s))"
  shows "GetBits n s = Some (0, s\<lparr>bs_err := Some ErrOutOfRange\<rparr>)"
  using assms by (auto simp: GetBits_def ready_def RemainBits_eq setErr_def)

lemma GetBits_failed: "bs_err s \<noteq> None \<Longrightarrow> GetBits n s = Some (0, s)"
  by (simp add: GetBits_def)

lemma GetBits_bad_count: "ready s \<Longrightarrow> n < 0 \<or> n > 64 \<Longrightarrow> GetBits n s = Some (0, setErr s)"
  by (auto simp: GetBits_def ready_def)

lemma GetBit_ready:
  assumes "ready s" and "rest_bits s = b # bs"
  shows "GetBit s = Some (of_bool b, advance 1 s)"
proof -
  from assms have ok: "bs_ok s" and err: "bs_err s = None" and k: "bitsOffset s < 8"
    by (simp_all add: ready_def bs_ok_def)
  have B: "bytesOffset s < length (bs_bits s)"
    using inside_byte [OF ok, of 1] assms(2) by simp
  let ?byte = "bs_bits s ! bytesOffset s"
  have "b = take 1 (rest_bits s) ! 0" using assms(2) by simp
  also have "\<dots> = bit ?byte (7 - bitsOffset s)"
    using take_rest_bits_byte [OF B, of 1] k by simp
  finally have "drop_bit (7 - bitsOffset s) ?byte AND 1 = of_bool b"
    by (intro bit_word_eqI) (auto simp: bit_simps)
  moreover have "nat (7 - int (bitsOffset s)) = 7 - bitsOffset s" by linarith
  ultimately show ?thesis
    using err B k advance_in_byte [of s 1]
    by (auto simp: GetBit_def idx_inside Let_def)
qed

lemma GetBit_short:
  assumes "ready s" and "rest_bits s = []"
  shows "GetBit s = Some (0, s\<lparr>bs_err := Some ErrOutOfRange\<rparr>)"
proof -
  have "bytesOffset s \<ge> length (bs_bits s)"
    using assms length_rest_bits [of s] by (simp add: ready_def bs_ok_def pos_def)
  then show ?thesis using assms by (simp add: GetBit_def ready_def setErr_def)
qed

lemma SkipBits_ready:
  assumes "ready s" and "n \<le> length (rest_bits s)"
  shows "SkipBits (int n) s = advance n s"
proof -
  have ok: "bs_ok s" and k: "bitsOffset s < 8" and e: "bs_err s = None"
    using assms by (simp_all add: ready_def bs_ok_def)
  have d: "pos s + n = 8 * (bytesOffset s + n div 8) + (bitsOffset s + n mod 8)"
    by (simp add: pos_def)
  show ?thesis
  proof (cases "bitsOffset s + n mod 8 < 8")
    case True
    then have "(pos s + n) div 8 = bytesOffset s + n div 8"
      "(pos s + n) mod 8 = bitsOffset s + n mod 8"
      using div_mod_8 [OF d] by simp_all
    then show ?thesis
      using True assms(2) e RemainBits_eq [OF ok]
      by (cases s) (simp add: SkipBits_def Let_def advance_def)
  next
    case False
    then have d': "pos s + n = 8 * (bytesOffset s + n div 8 + 1) + (bitsOffset s + n mod 8 - 8)"
      using d by simp
    have "bitsOffset s + n mod 8 - 8 < 8" using k by (simp add: less_diff_conv2 add_less_mono)
    then have "(pos s + n) div 8 = bytesOffset s + n div 8 + 1"
      "(pos s + n) mod 8 = bitsOffset s + n mod 8 - 8"
      using div_mod_8 [OF d'] by simp_all
    then show ?thesis
      using False assms(2) e RemainBits_eq [OF ok]
      by (cases s) (simp add: SkipBits_def Let_def advance_def)
  qed
qed

lemma SkipBits_short:
  "ready s \<Longrightarrow> n > int (length (rest_bits s)) \<Longrightarrow>
     SkipBits n s = s\<lparr>bs_err := Some ErrOutOfRange\<rparr>"
  by (auto simp: SkipBits_def ready_def RemainBits_eq setErr_def)

lemma UnRead_advance:
  assumes "bs_ok s" shows "UnRead (int n) (advance n s) = s"
proof -
  have "int ((pos s + n) div 8) * 8 + int ((pos s + n) mod 8) = int (pos s + n)"
    by (metis mult.commute mult_div_mod_eq of_nat_add of_nat_mult of_nat_numeral)
  moreover have "nat (int (pos s) div 8) = bytesOffset s" "nat (int (pos s) mod 8) = bitsOffset s"
    using assms by (simp_all add: pos_def bs_ok_def nat_div_distrib nat_mod_distrib)
  ultimately show ?thesis
    by (cases s) (simp add: UnRead_def Let_def advance_def)
qed

text \<open>\<open>NextBits\<close> peeks: the value \<open>GetBits\<close> would return, and the state unchanged.\<close>

lemma NextBits_ready:
  assumes "ready s" and "n \<le> 64" and "n \<le> length (rest_bits s)"
  shows "NextBits (int n) s = Some (of_msb (take n (rest_bits s)), s)"
proof -
  have "\<not> int n > RemainBits s" "bs_err s = None" "bs_ok s"
    using assms by (simp_all add: ready_def RemainBits_eq)
  then show ?thesis
    using GetBits_ready [OF assms] UnRead_advance [of s n] by (simp add: NextBits_def)
qed

section \<open>No method panics on a well-formed stream\<close>

lemma GetBits_total:
  assumes "bs_ok s"
  shows "\<exists>v t. GetBits n s = Some (v, t) \<and> bs_ok t \<and> bs_bits t = bs_bits s"
proof (cases "bs_err s = None \<and> 0 \<le> n \<and> n \<le> 64 \<and> n \<le> RemainBits s")
  case True
  then have "nat n \<le> length (rest_bits s)" using RemainBits_eq [OF assms] by linarith
  moreover have "ready s" using True assms by (simp add: ready_def)
  ultimately show ?thesis
    using True GetBits_ready [of s "nat n"] bs_ok_advance [OF assms, of "nat n"] by auto
next
  case False
  then show ?thesis using assms by (auto simp: GetBits_def)
qed

lemma GetBit_total:
  assumes "bs_ok s"
  shows "\<exists>v t. GetBit s = Some (v, t) \<and> bs_ok t \<and> bs_bits t = bs_bits s"
proof (cases "bs_err s = None")
  case True
  then have r: "ready s" using assms by (simp add: ready_def)
  show ?thesis
  proof (cases "rest_bits s")
    case Nil
    then show ?thesis using GetBit_short [OF r] assms by (simp add: bs_ok_def)
  next
    case (Cons b bs)
    then show ?thesis using GetBit_ready [OF r Cons] bs_ok_advance [OF assms, of 1] by auto
  qed
next
  case False
  then show ?thesis using assms by (auto simp: GetBit_def)
qed

lemma SkipBits_ok:
  assumes "bs_ok s" shows "bs_ok (SkipBits n s) \<and> bs_bits (SkipBits n s) = bs_bits s"
proof (cases "bs_err s = None \<and> 0 \<le> n \<and> n \<le> RemainBits s")
  case True
  then have "nat n \<le> length (rest_bits s)" using RemainBits_eq [OF assms] by linarith
  then show ?thesis
    using True assms SkipBits_ready [of s "nat n"] bs_ok_advance [OF assms, of "nat n"]
    by (simp add: ready_def)
next
  case False
  then show ?thesis using assms by (auto simp: SkipBits_def)
qed

lemma UnRead_ok:
  assumes "bs_ok s" shows "bs_ok (UnRead n s) \<and> bs_bits (UnRead n s) = bs_bits s"
proof (cases "n < 0")
  case True
  then show ?thesis using assms by (simp add: UnRead_def)
next
  case False
  define q where "q = pos s - nat n"
  have p: "int (bytesOffset s) * 8 + int (bitsOffset s) = int (pos s)" by (simp add: pos_def)
  have q: "(if n > int (pos s) then int (pos s) else n) = int (pos s - q)" "q \<le> pos s"
    using False by (auto simp: q_def)
  have "int (pos s) - int (pos s - q) = int q" using q(2) by simp
  then have "UnRead n s = (if n > int (pos s) then setErr s else s)
      \<lparr>bytesOffset := q div 8, bitsOffset := q mod 8\<rparr>"
    using False by (simp only: UnRead_def p q Let_def) (simp add: nat_div_distrib nat_mod_distrib)
  moreover have "8 * (q div 8) + q mod 8 = q" by simp
  ultimately show ?thesis
    using assms q(2) by (simp add: bs_ok_def)
qed

lemma NextBits_total:
  assumes "bs_ok s"
  shows "\<exists>v t. NextBits n s = Some (v, t) \<and> bs_ok t \<and> bs_bits t = bs_bits s"
  using GetBits_total [OF assms, of n] UnRead_ok assms
  by (fastforce simp: NextBits_def)

lemma ReadUE_loop_total:
  assumes "bs_ok s"
  shows "\<exists>r t. ReadUE_loop k s = Some (r, t) \<and> bs_ok t \<and> bs_bits t = bs_bits s"
  using assms
proof (induction k s rule: ReadUE_loop.induct)
  case (1 k s)
  obtain b t where g: "GetBit s = Some (b, t)" "bs_ok t" "bs_bits t = bs_bits s"
    using GetBit_total [OF "1.prems"] by blast
  show ?case
    using 1 g by (cases "bs_err s = None") (auto simp: ReadUE_loop.simps [of k s])
qed

lemma ReadUE_total:
  assumes "bs_ok s"
  shows "\<exists>v t. ReadUE s = Some (v, t) \<and> bs_ok t \<and> bs_bits t = bs_bits s"
proof -
  obtain r t where l: "ReadUE_loop 0 s = Some (r, t)" "bs_ok t" "bs_bits t = bs_bits s"
    using ReadUE_loop_total [OF assms] by blast
  show ?thesis
  proof (cases r)
    case None
    then show ?thesis using l by (simp add: ReadUE_def)
  next
    case (Some k)
    obtain v u where "GetBits (int k) t = Some (v, u)" "bs_ok u" "bs_bits u = bs_bits t"
      using GetBits_total [OF l(2), of "int k"] by blast
    then show ?thesis using l Some by (simp add: ReadUE_def)
  qed
qed

lemma ReadSE_total:
  "bs_ok s \<Longrightarrow> \<exists>v t. ReadSE s = Some (v, t) \<and> bs_ok t \<and> bs_bits t = bs_bits s"
  using ReadUE_total [of s] by (auto simp: ReadSE_def)

section \<open>Exp-Golomb codes\<close>

text \<open>
  The code of \<open>v\<close> in the H.264 and H.265 standards: \<open>v + 1\<close> in binary, after as many zero
  bits as it has bits below its leading one.
\<close>

definition exp_golomb :: "nat \<Rightarrow> bool list" where
  "exp_golomb v = (let k = ilog2 (v + 1)
     in replicate k False @ bits_msb (k + 1) (word_of_nat (v + 1) :: u64))"

lemma ReadUE_loop_zeros:
  assumes "ready s" and "rest_bits s = replicate m False @ True # r" and "k + m \<le> 63"
  shows "ReadUE_loop k s = Some (Some (k + m), advance (m + 1) s)"
  using assms
proof (induction m arbitrary: k s)
  case 0
  then show ?case
    using GetBit_ready [of s True r] by (simp add: ReadUE_loop.simps [of k s] ready_def)
next
  case (Suc m)
  have r: "rest_bits s = False # replicate m False @ True # r" using Suc.prems(2) by simp
  have g: "GetBit s = Some (0, advance 1 s)" using GetBit_ready [OF Suc.prems(1) r] by simp
  have "ReadUE_loop (Suc k) (advance 1 s) = Some (Some (Suc k + m), advance (m + 1) (advance 1 s))"
    using Suc.prems r by (intro Suc.IH) (simp_all add: rest_bits_advance)
  then show ?case
    using g Suc.prems by (simp add: ReadUE_loop.simps [of k s] ready_def)
qed

lemma ReadUE_code:
  assumes "ready s" and "rest_bits s = replicate k False @ True # info @ r"
    and "length info = k" and "k \<le> 63"
  shows "ReadUE s = Some (push_bit k 1 - 1 + of_msb info, advance (2 * k + 1) s)"
proof -
  have l: "ReadUE_loop 0 s = Some (Some k, advance (k + 1) s)"
    using ReadUE_loop_zeros [OF assms(1,2), of 0] assms(4) by simp
  have len: "k + 1 \<le> length (rest_bits s)" using assms(2) by simp
  have rest: "rest_bits (advance (k + 1) s) = info @ r"
    using assms(2) by (simp add: rest_bits_advance)
  have "GetBits (int k) (advance (k + 1) s) = Some (of_msb info, advance k (advance (k + 1) s))"
    using GetBits_ready [of "advance (k + 1) s" k] assms len rest by simp
  moreover have "advance k (advance (k + 1) s) = advance (2 * k + 1) s"
    by (simp add: mult_2)
  ultimately show ?thesis
    using l assms(3) by (cases "k = 0") (simp_all add: ReadUE_def)
qed

lemma exp_golomb_shape:
  assumes "v < 2 ^ 64 - 1"
  obtains info where "exp_golomb v = replicate (ilog2 (v + 1)) False @ True # info"
    "length info = ilog2 (v + 1)" "ilog2 (v + 1) \<le> 63"
    "push_bit (ilog2 (v + 1)) 1 - 1 + of_msb info = (word_of_nat v :: u64)"
proof -
  let ?k = "ilog2 (v + 1)" and ?w = "word_of_nat (v + 1) :: u64"
  have b: "2 ^ ?k \<le> v + 1" "v + 1 < 2 ^ (?k + 1)"
    using ilog2_bounds [of "v + 1"] by simp_all
  have "(2 :: nat) ^ ?k < 2 ^ 64" using b(1) assms by linarith
  then have "?k < 64" using power_strict_increasing_iff [of "2 :: nat" ?k 64] by simp
  then have k: "?k \<le> 63" by simp
  have "v + 1 < 2 ^ LENGTH(64)" using assms by simp
  then have u: "unat ?w = v + 1" by (simp only: unat_of_nat mod_less)
  define info where "info = bits_msb ?k ?w"
  have "bit ?w ?k"
  proof -
    have "(v + 1) div 2 ^ ?k = 1" using b by (intro div_nat_eqI) simp_all
    then have "odd (unat ?w div 2 ^ ?k)" by (simp only: u) simp
    then have "bit (unat ?w) ?k" by (subst bit_iff_odd)
    then show ?thesis by (simp only: bit_unsigned_iff)
  qed
  then have "bits_msb (?k + 1) ?w = True # info"
    by (simp add: info_def bits_msb_def upt_conv_Cons map_Suc_upt [symmetric] del: upt_Suc)
  moreover have "push_bit ?k 1 - 1 + of_msb info = (word_of_nat v :: u64)"
  proof -
    have "unat (take_bit ?k ?w) = (v + 1) mod 2 ^ ?k"
      by (simp only: unsigned_take_bit_eq u) (simp only: take_bit_eq_mod)
    also have "\<dots> = v + 1 - 2 ^ ?k"
      using b by (simp add: mod_if le_mod_geq)
    finally have "take_bit ?k ?w = word_of_nat (v + 1 - 2 ^ ?k)"
      by (metis of_nat_unat ucast_id)
    then have "of_msb info = word_of_nat (v + 1) - (word_of_nat (2 ^ ?k) :: u64)"
      using b(1) by (simp add: info_def of_msb_bits_msb of_nat_diff)
    then show ?thesis by (simp add: push_bit_eq_mult)
  qed
  ultimately show thesis
    using k by (intro that [of info]) (simp_all add: exp_golomb_def Let_def info_def)
qed

theorem ReadUE_exp_golomb:
  assumes "ready s" and "v < 2 ^ 64 - 1" and "rest_bits s = exp_golomb v @ r"
  shows "ReadUE s = Some (word_of_nat v, advance (length (exp_golomb v)) s)"
proof -
  obtain info where i: "exp_golomb v = replicate (ilog2 (v + 1)) False @ True # info"
    "length info = ilog2 (v + 1)" "ilog2 (v + 1) \<le> 63"
    "push_bit (ilog2 (v + 1)) 1 - 1 + of_msb info = (word_of_nat v :: u64)"
    using exp_golomb_shape [OF assms(2)] by blast
  have "rest_bits s = replicate (ilog2 (v + 1)) False @ True # info @ r"
    using assms(3) i(1) by simp
  then have "ReadUE s = Some (push_bit (ilog2 (v + 1)) 1 - 1 + of_msb info,
      advance (2 * ilog2 (v + 1) + 1) s)"
    using assms(1) i(2,3) by (intro ReadUE_code)
  moreover have "length (exp_golomb v) = 2 * ilog2 (v + 1) + 1"
    by (simp add: exp_golomb_def Let_def)
  ultimately show ?thesis using i(4) by simp
qed

text \<open>A prefix of 64 zero bits cannot be represented and sets the error state.\<close>

lemma ReadUE_loop_long:
  assumes "ready s" and "rest_bits s = replicate m False @ r" and "k + m = 64" and "0 < m"
  shows "\<exists>t. ReadUE_loop k s = Some (None, t) \<and> bs_err t = Some ErrOutOfRange"
  using assms
proof (induction m arbitrary: k s)
  case (Suc m)
  have r: "rest_bits s = False # replicate m False @ r" using Suc.prems(2) by simp
  have g: "GetBit s = Some (0, advance 1 s)" using GetBit_ready [OF Suc.prems(1) r] by simp
  show ?case
  proof (cases "m = 0")
    case True
    then show ?thesis
      using g Suc.prems ReadUE_loop.simps [of k s] by (simp add: ready_def setErr_def)
  next
    case False
    then have "\<exists>t. ReadUE_loop (Suc k) (advance 1 s) = Some (None, t) \<and>
        bs_err t = Some ErrOutOfRange"
      using Suc.prems r by (intro Suc.IH) (simp_all add: rest_bits_advance)
    then show ?thesis
      using g Suc.prems False by (simp add: ReadUE_loop.simps [of k s] ready_def)
  qed
qed simp

lemma ReadUE_long_prefix:
  assumes "ready s" and "rest_bits s = replicate 64 False @ r"
  shows "\<exists>t. ReadUE s = Some (0, t) \<and> bs_err t = Some ErrOutOfRange"
  using ReadUE_loop_long [OF assms, of 0] by (auto simp: ReadUE_def)

text \<open>
  The signed code maps \<open>0, 1, 2, 3, 4, \<dots>\<close> to \<open>0, 1, -1, 2, -2, \<dots>\<close>.  The conversion
  to \<open>int64\<close> is made before the halving, so the mapping is the standard's only below
  \<open>2 ^ 63 - 1\<close>: the odd codes from there on come out with the wrong sign.
\<close>

definition se_value :: "nat \<Rightarrow> int" where
  "se_value v = (if even v then - int (v div 2) else int ((v + 1) div 2))"

lemma sint_word_of_nat: "v < 2 ^ 63 \<Longrightarrow> sint (word_of_nat v :: u64) = int v"
  by (simp add: signed_of_nat signed_take_bit_int_eq_self)

lemma word_of_nat_parity: "v < 2 ^ 64 \<Longrightarrow> (word_of_nat v :: u64) mod 2 = 0 \<longleftrightarrow> even v"
  by (simp add: even_iff_mod_2_eq_zero word_arith_nat_mod unat_of_nat
      word_of_nat_eq_0_iff dvd_eq_mod_eq_0 nat_dvd_not_less)

lemma word_of_nat_div2:
  assumes "v < 2 ^ 64" shows "(word_of_nat v :: u64) div 2 = word_of_nat (v div 2)"
  using assms by (simp add: word_arith_nat_div unat_of_nat)

lemma ReadSE_exp_golomb:
  assumes "ready s" and "v < 2 ^ 63 - 1" and "rest_bits s = exp_golomb v @ r"
  shows "ReadSE s = Some (se_value v, advance (length (exp_golomb v)) s)"
proof -
  have ue: "ReadUE s = Some (word_of_nat v, advance (length (exp_golomb v)) s)"
    using assms by (intro ReadUE_exp_golomb) simp_all
  have w: "(word_of_nat v :: u64) + 1 = word_of_nat (v + 1)" by simp
  show ?thesis
  proof (cases "even v")
    case True
    then show ?thesis
      using ue assms(2) word_of_nat_parity [of v] word_of_nat_div2 [of v]
        sint_word_of_nat [of "v div 2"]
      by (simp add: ReadSE_def se_value_def)
  next
    case False
    show ?thesis
    proof -
      have "sint ((word_of_nat v :: u64) + 1) = int (v + 1)"
        unfolding w using assms(2) by (intro sint_word_of_nat) simp
      moreover have "(word_of_nat v :: u64) mod 2 \<noteq> 0"
        using word_of_nat_parity [of v] assms(2) False by simp
      moreover obtain m where "v = 2 * m + 1" using False by (rule oddE)
      ultimately show ?thesis
        using ue by (simp add: ReadSE_def se_value_def go_div_nonneg)
    qed
  qed
qed


section \<open>Properties\<close>

text \<open>
  C5: \<open>GetBits\<close> on every input.  A stream that failed stays as it is; a count outside
  \<open>0..64\<close> or beyond the end records the error and reads nothing; any other count returns
  the next bits of the buffer, most significant first, and moves past exactly those.
\<close>

theorem GetBits_behaviour:
  assumes "bs_ok s"
  shows "GetBits n s = Some
    (if bs_err s \<noteq> None then (0, s)
     else if n < 0 \<or> n > 64 \<or> n > int (length (rest_bits s)) then (0, s\<lparr>bs_err := Some ErrOutOfRange\<rparr>)
     else (of_msb (take (nat n) (rest_bits s)), advance (nat n) s))"
proof (cases "bs_err s = None")
  case True
  then have s: "ready s" using assms by (simp add: ready_def)
  consider "n < 0 \<or> n > 64" | "0 \<le> n" "n > int (length (rest_bits s))"
    | "0 \<le> n" "n \<le> 64" "n \<le> int (length (rest_bits s))" by linarith
  then show ?thesis
  proof cases
    case 1
    then show ?thesis using s True by (auto simp: GetBits_bad_count setErr_def)
  next
    case 2
    then show ?thesis using s True GetBits_short [of s n] by auto
  next
    case 3
    then show ?thesis using s True GetBits_ready [of s "nat n"] by (simp add: nat_le_iff)
  qed
qed (simp add: GetBits_failed)

theorem GetBits_behaviour_witness:
  "GetBits 12 (NewBitStream [0xAB, 0xCD, 0xEF]) = Some (0xABC,
     \<lparr>bs_bits = [0xAB, 0xCD, 0xEF], bytesOffset = 1, bitsOffset = 4, bitsmark = 0, bytemark = 0,
       bs_err = None\<rparr>)" (is "GetBits 12 ?s = _")
proof -
  have "bs_ok ?s" by code_simp
  from GetBits_behaviour [OF this, of 12] show ?thesis by (rule trans) code_simp
qed

text \<open>
  no method of the reader panics, whatever the count and however short the input, and
  each keeps the read position inside the buffer.
\<close>

theorem bit_reader_never_panics:
  assumes "bs_ok s"
  shows "(\<exists>v t. GetBits n s = Some (v, t) \<and> bs_ok t) \<and> (\<exists>v t. GetBit s = Some (v, t) \<and> bs_ok t) \<and>
    (\<exists>v t. NextBits n s = Some (v, t) \<and> bs_ok t) \<and> bs_ok (SkipBits n s) \<and> bs_ok (UnRead n s) \<and>
    (\<exists>v t. ReadUE s = Some (v, t) \<and> bs_ok t) \<and> (\<exists>v t. ReadSE s = Some (v, t) \<and> bs_ok t)"
  using GetBits_total [OF assms] GetBit_total [OF assms] NextBits_total [OF assms] SkipBits_ok [OF assms]
    UnRead_ok [OF assms] ReadUE_total [OF assms] ReadSE_total [OF assms]
  by blast

theorem bit_reader_never_panics_witness:
  "\<exists>v t. ReadUE (NewBitStream [0x00]) = Some (v, t) \<and> bs_ok t"
  using bit_reader_never_panics [of "NewBitStream [0x00]" 0]
  by (simp add: bs_ok_def NewBitStream_def pos_def)

text \<open>
  C6: the exp-Golomb readers return the value whose code is in front of the stream and
  consume exactly the code, for every unsigned value of 64 bits (all but the largest) and
  every signed value below \<open>2^62\<close> in magnitude.
\<close>

theorem exp_golomb_is_read:
  assumes "ready s" and "rest_bits s = exp_golomb v @ r"
  shows "(v < 2 ^ 64 - 1 \<longrightarrow> ReadUE s = Some (word_of_nat v, advance (length (exp_golomb v)) s)) \<and>
    (v < 2 ^ 63 - 1 \<longrightarrow> ReadSE s = Some (se_value v, advance (length (exp_golomb v)) s))"
  using ReadUE_exp_golomb [OF assms(1) _ assms(2)] ReadSE_exp_golomb [OF assms(1) _ assms(2)] by simp

theorem exp_golomb_is_read_witness:
  "ReadUE (NewBitStream [0x11]) = Some (7, \<lparr>bs_bits = [0x11], bytesOffset = 0, bitsOffset = 7,
     bitsmark = 0, bytemark = 0, bs_err = None\<rparr>) \<and>
   map_option fst (ReadSE (NewBitStream [0x11])) = Some 4" (is "ReadUE ?s = Some (7, ?t) \<and> _")
proof -
  have "ready ?s" "rest_bits ?s = exp_golomb 7 @ [True]" by code_simp+
  note r = exp_golomb_is_read [OF this]
  have "advance (length (exp_golomb 7)) ?s = ?t" "se_value 7 = 4" by code_simp+
  with r show ?thesis by simp
qed

end
