(* ===== verification/BitStreamWriter.thy ===== *)
theory BitStreamWriter
  imports BitStream
begin

text \<open>
  The bit writer of \<open>go-codec/bitstream.go\<close> (type \<open>BitStreamWriter\<close>): its record, its
  methods, and what a buffer represents (\<open>holds\<close>): the bits written so far, then zeros.
  Every aligned or bit-field write appends its bits to that list, growing the buffer when
  it has to, and what is written is read back by the reader of \<open>BitStream\<close>.
\<close>

record bitwriter =
  bsw_bits :: bytes
  byteoffset :: nat
  bitsoffset :: nat
  bsw_bitsmark :: nat
  bsw_bytemark :: nat
  bsw_err :: "codec_error option"

definition NewBitStreamWriter :: "int \<Rightarrow> bitwriter option" where
  "NewBitStreamWriter n = do {
     buf \<leftarrow> make_bytes n;
     Some \<lparr>bsw_bits = buf, byteoffset = 0, bitsoffset = 0, bsw_bitsmark = 0,
       bsw_bytemark = 0, bsw_err = None\<rparr>
   }"

definition bsw_Err :: "bitwriter \<Rightarrow> codec_error option" where
  "bsw_Err s = bsw_err s"

definition bsw_Fail :: "codec_error \<Rightarrow> bitwriter \<Rightarrow> bitwriter" where
  "bsw_Fail e s = (if bsw_err s = None then s\<lparr>bsw_err := Some e\<rparr> else s)"

definition expandSpace :: "int \<Rightarrow> bitwriter \<Rightarrow> bitwriter" where
  "expandSpace n s =
     (let len = length (bsw_bits s) in
      if (int len - int (byteoffset s) - 1) * 8 + 8 - int (bitsoffset s) < n
      then let newlen = (if int len * 8 < n then len + nat n div 8 + 1 else len * 2)
           in s\<lparr>bsw_bits := bsw_bits s @ replicate (newlen - len) 0\<rparr>
      else s)"

definition bsw_ByteOffset :: "bitwriter \<Rightarrow> nat" where
  "bsw_ByteOffset s = byteoffset s"

definition bsw_BitOffset :: "bitwriter \<Rightarrow> nat" where
  "bsw_BitOffset s = bitsoffset s"

definition bsw_Markdot :: "bitwriter \<Rightarrow> bitwriter" where
  "bsw_Markdot s = s\<lparr>bsw_bitsmark := bitsoffset s, bsw_bytemark := byteoffset s\<rparr>"

definition bsw_DistanceFromMarkDot :: "bitwriter \<Rightarrow> int" where
  "bsw_DistanceFromMarkDot s =
     (let bytecount = int (byteoffset s) - int (bsw_bytemark s) - 1;
          bitscount = int (bitsoffset s) + (8 - int (bsw_bitsmark s))
      in bytecount * 8 + bitscount)"

section \<open>Writes\<close>

definition PutByte :: "byte \<Rightarrow> bitwriter \<Rightarrow> bitwriter option" where
  "PutByte v s0 =
     (let s = expandSpace 8 s0 in
      if bitsoffset s = 0 then do {
        bits \<leftarrow> upd (bsw_bits s) (int (byteoffset s)) v;
        Some (s\<lparr>bsw_bits := bits, byteoffset := byteoffset s + 1\<rparr>)
      }
      else do {
        b \<leftarrow> idx (bsw_bits s) (int (byteoffset s));
        bits \<leftarrow> upd (bsw_bits s) (int (byteoffset s)) (b OR drop_bit (bitsoffset s) v);
        m \<leftarrow> idx bitMask (int (bitsoffset s) - 1);
        bits' \<leftarrow> upd bits (int (byteoffset s) + 1) (v AND m);
        Some (s\<lparr>bsw_bits := bits', byteoffset := byteoffset s + 1\<rparr>)
      })"

definition PutBytes :: "bytes \<Rightarrow> bitwriter \<Rightarrow> bitwriter option" where
  "PutBytes v s0 =
     (if bsw_err s0 \<noteq> None then Some s0
      else if bitsoffset s0 \<noteq> 0 then Some (s0\<lparr>bsw_err := Some ErrNotByteAligned\<rparr>)
      else let s = expandSpace (8 * glen v) s0 in do {
        bits \<leftarrow> copy_at (bsw_bits s) (int (byteoffset s)) v;
        Some (s\<lparr>bsw_bits := bits, byteoffset := byteoffset s + length v\<rparr>)
      })"

primrec PutRepetValue_loop :: "byte \<Rightarrow> nat \<Rightarrow> bitwriter \<Rightarrow> bitwriter option" where
  "PutRepetValue_loop v 0 s = Some s"
| "PutRepetValue_loop v (Suc n) s = do {
     bits \<leftarrow> upd (bsw_bits s) (int (byteoffset s)) v;
     PutRepetValue_loop v n (s\<lparr>bsw_bits := bits, byteoffset := byteoffset s + 1\<rparr>)
   }"

definition PutRepetValue :: "byte \<Rightarrow> int \<Rightarrow> bitwriter \<Rightarrow> bitwriter option" where
  "PutRepetValue v n s =
     (if bsw_err s \<noteq> None then Some s
      else if bitsoffset s \<noteq> 0 then Some (s\<lparr>bsw_err := Some ErrNotByteAligned\<rparr>)
      else PutRepetValue_loop v (nat n) (expandSpace (8 * n) s))"

text \<open>The byte loop of \<open>PutUint64\<close>; it returns the number of bits left for the last byte.\<close>

fun PutUint64_loop :: "u64 \<Rightarrow> nat \<Rightarrow> bitwriter \<Rightarrow> (nat \<times> bitwriter) option" where
  "PutUint64_loop v n s =
     (if n \<ge> 8 then do {
        bits \<leftarrow> upd (bsw_bits s) (int (byteoffset s)) (ucast (drop_bit (n - 8) v) AND 0xFF);
        PutUint64_loop v (n - 8) (s\<lparr>bsw_bits := bits, byteoffset := byteoffset s + 1\<rparr>)
      }
      else Some (n, s))"

declare PutUint64_loop.simps [simp del]

definition PutUint64 :: "u64 \<Rightarrow> int \<Rightarrow> bitwriter \<Rightarrow> bitwriter option" where
  "PutUint64 v n s0 =
     (if bsw_err s0 \<noteq> None then Some s0
      else if n \<le> 0 \<or> n > 64 then Some (s0\<lparr>bsw_err := Some ErrBadBitCount\<rparr>)
      else let s = expandSpace n s0; k = bitsoffset s in
      if 8 - int k \<ge> n then do {
        b \<leftarrow> idx (bsw_bits s) (int (byteoffset s));
        m \<leftarrow> idx bitMask (n - 1);
        bits \<leftarrow> upd (bsw_bits s) (int (byteoffset s))
          (b OR push_bit (nat (8 - int k - n)) (ucast v AND m));
        let t = s\<lparr>bsw_bits := bits, bitsoffset := k + nat n\<rparr>;
        Some (if bitsoffset t = 8 then t\<lparr>bitsoffset := 0, byteoffset := byteoffset t + 1\<rparr> else t)
      }
      else do {
        b \<leftarrow> idx (bsw_bits s) (int (byteoffset s));
        m \<leftarrow> idx bitMask (8 - int k - 1);
        bits \<leftarrow> upd (bsw_bits s) (int (byteoffset s))
          (b OR (ucast (drop_bit (nat (n - (8 - int k))) v) AND m));
        (n', t) \<leftarrow> PutUint64_loop v (nat (n - (8 - int k)))
          (s\<lparr>bsw_bits := bits, byteoffset := byteoffset s + 1\<rparr>);
        let u = t\<lparr>bitsoffset := n'\<rparr>;
        if n' > 0 then do {
          c \<leftarrow> idx (bsw_bits u) (int (byteoffset u));
          m' \<leftarrow> idx bitMask (int n' - 1);
          bits' \<leftarrow> upd (bsw_bits u) (int (byteoffset u)) (c OR push_bit (8 - n') (ucast v AND m'));
          Some (u\<lparr>bsw_bits := bits'\<rparr>)
        }
        else Some u
      })"

definition PutUint8 :: "byte \<Rightarrow> int \<Rightarrow> bitwriter \<Rightarrow> bitwriter option" where
  "PutUint8 v n s = PutUint64 (ucast v) n s"

definition PutUint16 :: "u16 \<Rightarrow> int \<Rightarrow> bitwriter \<Rightarrow> bitwriter option" where
  "PutUint16 v n s = PutUint64 (ucast v) n s"

definition PutUint32 :: "u32 \<Rightarrow> int \<Rightarrow> bitwriter \<Rightarrow> bitwriter option" where
  "PutUint32 v n s = PutUint64 (ucast v) n s"

section \<open>Patches, output and reset\<close>

definition SetByte :: "byte \<Rightarrow> int \<Rightarrow> bitwriter \<Rightarrow> bitwriter option" where
  "SetByte v i s =
     (if i < 0 \<or> i \<ge> glen (bsw_bits s) then Some (bsw_Fail ErrOutOfRange s)
      else do {
        bits \<leftarrow> upd (bsw_bits s) i v;
        Some (s\<lparr>bsw_bits := bits\<rparr>)
      })"

definition SetUint16 :: "u16 \<Rightarrow> int \<Rightarrow> bitwriter \<Rightarrow> bitwriter option" where
  "SetUint16 v i s =
     (if i < 0 \<or> i + 2 > glen (bsw_bits s) then Some (bsw_Fail ErrOutOfRange s)
      else do {
        bits \<leftarrow> put_at (bsw_bits s) i (be16 v);
        Some (s\<lparr>bsw_bits := bits\<rparr>)
      })"

definition bsw_Bits :: "bitwriter \<Rightarrow> bytes option" where
  "bsw_Bits s =
     (if byteoffset s = length (bsw_bits s) then Some (bsw_bits s)
      else if bitsoffset s > 0 then slice_to (bsw_bits s) (int (byteoffset s) + 1)
      else slice_to (bsw_bits s) (int (byteoffset s)))"

definition FillRemainData :: "byte \<Rightarrow> bitwriter \<Rightarrow> bitwriter option" where
  "FillRemainData v s =
     (let i = byteoffset s; len = length (bsw_bits s);
          fill = (\<lambda>bits j. s\<lparr>bsw_bits := take j bits @ replicate (len - j) v,
             byteoffset := len, bitsoffset := 0\<rparr>) in
      if bitsoffset s > 0 then
        if i \<ge> len then Some s
        else do {
          b \<leftarrow> idx (bsw_bits s) (int i);
          m \<leftarrow> idx bitMask (7 - int (bitsoffset s));
          bits \<leftarrow> upd (bsw_bits s) (int i) (b AND NOT m OR (v AND m));
          Some (fill bits (i + 1))
        }
      else Some (fill (bsw_bits s) i))"

definition bsw_Reset :: "bitwriter \<Rightarrow> bitwriter" where
  "bsw_Reset s = s\<lparr>bsw_err := None, bsw_bits := replicate (length (bsw_bits s)) 0,
     bsw_bitsmark := 0, bsw_bytemark := 0, bitsoffset := 0, byteoffset := 0\<rparr>"

section \<open>What a buffer holds\<close>

text \<open>\<open>w\<close> are the bits written so far; the rest of the buffer is zero.\<close>

definition holds :: "bitwriter \<Rightarrow> bool list \<Rightarrow> bool" where
  "holds s w \<longleftrightarrow> bitsoffset s < 8 \<and> length w = 8 * byteoffset s + bitsoffset s \<and>
     length w \<le> 8 * length (bsw_bits s) \<and>
     bits_of_bytes (bsw_bits s) = w @ replicate (8 * length (bsw_bits s) - length w) False"

definition writable :: "bitwriter \<Rightarrow> bool list \<Rightarrow> bool" where
  "writable s w \<longleftrightarrow> holds s w \<and> bsw_err s = None"

lemma bits_msb_0 [simp]: "bits_msb n 0 = replicate n False"
  by (rule nth_equalityI) simp_all

lemma bits_of_bytes_zeros [simp]: "bits_of_bytes (replicate n 0) = replicate (8 * n) False"
  by (induction n) (simp_all add: bits_of_bytes_Cons flip: replicate_add)

lemma NewBitStreamWriter_holds:
  "0 \<le> n \<Longrightarrow> \<exists>s. NewBitStreamWriter n = Some s \<and> writable s [] \<and> length (bsw_bits s) = nat n"
  by (simp add: NewBitStreamWriter_def make_bytes_def writable_def holds_def)

lemma bsw_Reset_holds: "writable (bsw_Reset s) []"
  by (simp add: bsw_Reset_def writable_def holds_def)

lemma expandSpace_sel [simp]:
  "byteoffset (expandSpace n s) = byteoffset s" "bitsoffset (expandSpace n s) = bitsoffset s"
  "bsw_err (expandSpace n s) = bsw_err s" "bsw_bitsmark (expandSpace n s) = bsw_bitsmark s"
  "bsw_bytemark (expandSpace n s) = bsw_bytemark s"
  by (simp_all add: expandSpace_def Let_def)

lemma holds_grow:
  assumes "holds s w" shows "holds (s\<lparr>bsw_bits := bsw_bits s @ replicate k 0\<rparr>) w"
proof -
  have "replicate (8 * length (bsw_bits s) - length w) False @ replicate (8 * k) False =
      replicate (8 * length (bsw_bits s) + 8 * k - length w) False"
    using assms by (simp add: holds_def flip: replicate_add)
  then show ?thesis using assms by (simp add: holds_def)
qed

lemma expandSpace_holds: "holds s w \<Longrightarrow> holds (expandSpace n s) w"
  by (simp add: expandSpace_def Let_def holds_grow)

text \<open>Growing makes room: one doubling, or one extension, is always enough.\<close>

lemma expandSpace_room:
  assumes "holds s w" shows "int (length w) + n \<le> 8 * glen (bsw_bits (expandSpace n s))"
proof (cases "int (length (bsw_bits s)) * 8 < n")
  case True
  have "nat n < 8 * (nat n div 8 + 1)" by simp
  then have "n \<le> 8 * int (nat n div 8 + 1)" by linarith
  then show ?thesis
    using assms True by (auto simp: expandSpace_def Let_def holds_def)
next
  case False
  then show ?thesis
    using assms by (auto simp: expandSpace_def Let_def holds_def)
qed

section \<open>Writes append bits\<close>

lemma bits_msb_append:
  assumes "m \<le> n"
  shows "bits_msb n w = bits_msb m (drop_bit (n - m) w) @ bits_msb (n - m) (w :: 'a::len word)"
proof (rule nth_equalityI)
  fix i assume "i < length (bits_msb n w)"
  then show "bits_msb n w ! i = (bits_msb m (drop_bit (n - m) w) @ bits_msb (n - m) w) ! i"
    using assms by (auto simp: nth_append bit_drop_bit_eq intro!: arg_cong [where f = "bit w"])
qed (use assms in simp)

lemma bits_msb_ucast: "n \<le> 8 \<Longrightarrow> bits_msb n (ucast w :: byte) = bits_msb n w"
  for w :: "'a::len word"
  by (rule nth_equalityI) (auto simp: bit_ucast_iff dest: bit_imp_le_length)

lemma bits_msb_ucast_u64: "LENGTH('a) \<le> 64 \<Longrightarrow> n \<le> 64 \<Longrightarrow>
    bits_msb n (ucast w :: u64) = bits_msb n w" for w :: "'a::len word"
  by (intro nth_equalityI) (auto simp: bit_ucast_iff dest: bit_imp_le_length)

text \<open>A field put into the zero tail of a byte.\<close>

lemma or_field:
  fixes b x :: byte
  assumes b: "bits_msb 8 b = w @ replicate (8 - k) False" and "length w = k" and "k + n \<le> 8"
  shows "bits_msb 8 (b OR push_bit (8 - k - n) (x AND mask n)) =
    w @ bits_msb n x @ replicate (8 - k - n) False"
proof (rule nth_equalityI)
  have bb: "bit b (7 - i) = (i < k \<and> w ! i)" if "i < 8" for i
  proof -
    have "bit b (7 - i) = bits_msb 8 b ! i" using that by simp
    then show ?thesis using that assms(2) by (simp add: b nth_append)
  qed
  fix i assume "i < length (bits_msb 8 (b OR push_bit (8 - k - n) (x AND mask n)))"
  then have i: "i < 8" by simp
  consider "i < k" | "k \<le> i" "i < k + n" | "k + n \<le> i" by linarith
  then show "bits_msb 8 (b OR push_bit (8 - k - n) (x AND mask n)) ! i =
      (w @ bits_msb n x @ replicate (8 - k - n) False) ! i"
  proof cases
    case 1
    then have "\<not> 7 - i - (8 - k - n) < n" using assms(3) by linarith
    then have "\<not> bit (push_bit (8 - k - n) (x AND mask n)) (7 - i)"
      by (simp only: bit_push_bit_iff bit_and_iff bit_mask_iff) simp
    then show ?thesis using 1 i assms(2) bb [OF i]
      by (simp add: nth_append bit_or_iff)
  next
    case 2
    then have "7 - i - (8 - k - n) = n - 1 - (i - k)" "8 - k - n \<le> 7 - i" using assms(3) by linarith+
    then have "bit (push_bit (8 - k - n) (x AND mask n)) (7 - i) = bit x (n - 1 - (i - k))"
      using 2 i by (auto simp only: bit_push_bit_iff bit_and_iff bit_mask_iff) simp_all
    moreover have "i - k < n" using 2 by linarith
    ultimately show ?thesis using 2 i assms(2) bb [OF i]
      by (simp add: nth_append bit_or_iff)
  next
    case 3
    then have "\<not> 8 - k - n \<le> 7 - i" using i by linarith
    then have "\<not> bit (push_bit (8 - k - n) (x AND mask n)) (7 - i)"
      by (simp only: bit_push_bit_iff) simp
    moreover have "\<not> i - k < n" using 3 by linarith
    ultimately show ?thesis using 3 i assms(2) bb [OF i]
      by (simp add: nth_append bit_or_iff)
  qed
qed (use assms in simp)

text \<open>The byte at the write position: the tail of what was written, then zeros.\<close>

lemma holds_byte:
  assumes "holds s w" and "byteoffset s < length (bsw_bits s)"
  shows "bits_msb 8 (bsw_bits s ! byteoffset s) =
      drop (8 * byteoffset s) w @ replicate (8 - bitsoffset s) False" (is ?byte)
    and "take (8 * byteoffset s) (bits_of_bytes (bsw_bits s)) = take (8 * byteoffset s) w"
    and "drop (8 * Suc (byteoffset s)) (bits_of_bytes (bsw_bits s)) =
      replicate (8 * length (bsw_bits s) - 8 * Suc (byteoffset s)) False" (is ?tail)
proof -
  let ?B = "byteoffset s" and ?k = "bitsoffset s" and ?L = "8 * length (bsw_bits s)"
  from assms(1) have k: "?k < 8" and lw: "length w = 8 * ?B + ?k"
    and eq: "bits_of_bytes (bsw_bits s) = w @ replicate (?L - length w) False"
    by (simp_all add: holds_def)
  have room: "8 * Suc ?B \<le> ?L" using assms(2) by simp
  have d: "drop (8 * ?B) (bits_of_bytes (bsw_bits s)) =
      bits_msb 8 (bsw_bits s ! ?B) @ drop (8 * Suc ?B) (bits_of_bytes (bsw_bits s))"
    using assms(2) by (rule bits_of_bytes_drop_nth)
  have "bits_msb 8 (bsw_bits s ! ?B) = take 8 (drop (8 * ?B) (bits_of_bytes (bsw_bits s)))"
    unfolding d by simp
  also have "\<dots> = drop (8 * ?B) w @ replicate (8 - ?k) False"
    unfolding eq using lw k room by (simp add: min_def)
  finally show ?byte .
  show "take (8 * ?B) (bits_of_bytes (bsw_bits s)) = take (8 * ?B) w"
    unfolding eq using lw by simp
  show ?tail
    unfolding eq using lw k room by simp
qed

lemma bits_of_bytes_update:
  assumes "B < length bs"
  shows "bits_of_bytes (bs[B := b]) =
    take (8 * B) (bits_of_bytes bs) @ bits_msb 8 b @ drop (8 * Suc B) (bits_of_bytes bs)"
  using assms
  by (simp add: upd_conv_take_nth_drop bits_of_bytes_Cons bits_of_bytes_take bits_of_bytes_drop
      del: mult_Suc_right)

text \<open>One field stored inside a byte.\<close>

lemma holds_store:
  assumes h: "holds s w" and room: "byteoffset s < length (bsw_bits s)"
    and n: "bitsoffset s + n \<le> 8"
    and t: "bsw_bits t = (bsw_bits s)[byteoffset s := bsw_bits s ! byteoffset s OR
        push_bit (8 - bitsoffset s - n) (x AND mask n)]"
      "8 * byteoffset t + bitsoffset t = 8 * byteoffset s + bitsoffset s + n"
      "bitsoffset t < 8"
  shows "holds t (w @ bits_msb n x)"
proof -
  let ?B = "byteoffset s" and ?k = "bitsoffset s"
  from h have lw: "length w = 8 * ?B + ?k" by (simp add: holds_def)
  have len: "length (bsw_bits t) = length (bsw_bits s)" using t(1) by simp
  have "bits_of_bytes (bsw_bits t) = take (8 * ?B) w @
      (drop (8 * ?B) w @ bits_msb n x @ replicate (8 - ?k - n) False) @
      replicate (8 * length (bsw_bits s) - 8 * Suc ?B) False"
    unfolding t(1)
    by (subst bits_of_bytes_update [OF room], subst or_field [OF holds_byte(1) [OF h room] _ n])
      (use holds_byte(2,3) [OF h room] lw in simp_all)
  also have "\<dots> = (w @ bits_msb n x) @
      replicate (8 * length (bsw_bits t) - length (w @ bits_msb n x)) False"
  proof -
    have "8 - ?k - n + (8 * length (bsw_bits s) - 8 * Suc ?B) =
        8 * length (bsw_bits t) - length (w @ bits_msb n x)"
      using lw room n len by simp
    then have "replicate (8 - ?k - n) False @ replicate (8 * length (bsw_bits s) - 8 * Suc ?B) False
        = replicate (8 * length (bsw_bits t) - length (w @ bits_msb n x)) False"
      by (simp only: replicate_add [symmetric])
    then show ?thesis by (metis append_assoc append_take_drop_id)
  qed
  finally show ?thesis
    using t(2,3) lw room n len by (simp add: holds_def)
qed

lemma holds_zero_byte:
  assumes "holds s w" and "byteoffset s < length (bsw_bits s)" and "bitsoffset s = 0"
  shows "bsw_bits s ! byteoffset s = 0"
proof -
  have "length w = 8 * byteoffset s" using assms by (simp add: holds_def)
  then have "bits_msb 8 (bsw_bits s ! byteoffset s) = bits_msb 8 (0 :: byte)"
    using holds_byte(1) [OF assms(1,2)] assms(3) by simp
  then show ?thesis by (simp only: bits_msb_8_inject)
qed

text \<open>A whole byte stored on a byte boundary.\<close>

lemma holds_store_byte:
  assumes "holds s w" and "bitsoffset s = 0" and "byteoffset s < length (bsw_bits s)"
  shows "holds (s\<lparr>bsw_bits := (bsw_bits s)[byteoffset s := v], byteoffset := byteoffset s + 1\<rparr>)
    (w @ bits_msb 8 v)"
proof (rule holds_store [OF assms(1,3)])
  show "bsw_bits (s\<lparr>bsw_bits := (bsw_bits s)[byteoffset s := v], byteoffset := byteoffset s + 1\<rparr>) =
      (bsw_bits s)[byteoffset s := bsw_bits s ! byteoffset s OR
        push_bit (8 - bitsoffset s - 8) (v AND mask 8)]"
    using holds_zero_byte [OF assms(1,3,2)] assms(2)
    by (simp add: take_bit_word_eq_self flip: take_bit_eq_mask)
qed (use assms(2) in simp_all)

lemma PutUint64_loop_holds:
  assumes "holds s w" and "bitsoffset s = 0" and "length w + n \<le> 8 * length (bsw_bits s)"
  shows "\<exists>t. PutUint64_loop v n s = Some (n mod 8, t) \<and> bitsoffset t = 0 \<and>
    holds t (w @ bits_msb (n - n mod 8) (drop_bit (n mod 8) v)) \<and>
    bsw_err t = bsw_err s \<and> length (bsw_bits t) = length (bsw_bits s)"
  using assms
proof (induction v n s arbitrary: w rule: PutUint64_loop.induct)
  case (1 v n s)
  show ?case
  proof (cases "n \<ge> 8")
    case True
    let ?x = "ucast (drop_bit (n - 8) v) AND 0xFF :: byte"
    let ?t = "s\<lparr>bsw_bits := (bsw_bits s)[byteoffset s := ?x], byteoffset := byteoffset s + 1\<rparr>"
    have lw: "length w = 8 * byteoffset s" using "1.prems" by (simp add: holds_def)
    then have B: "byteoffset s < length (bsw_bits s)" using "1.prems"(3) True by linarith
    then have up: "upd (bsw_bits s) (int (byteoffset s)) ?x = Some ((bsw_bits s)[byteoffset s := ?x])"
      by (simp add: upd_def)
    have x: "bits_msb 8 ?x = bits_msb 8 (drop_bit (n - 8) v)"
      by (simp only: byte_and_FF bits_msb_ucast order_refl)
    have h: "holds ?t (w @ bits_msb 8 (drop_bit (n - 8) v))"
      using holds_store_byte [OF "1.prems"(1,2) B, of ?x] x by simp
    obtain u where u: "PutUint64_loop v (n - 8) ?t = Some ((n - 8) mod 8, u)" "bitsoffset u = 0"
      "holds u ((w @ bits_msb 8 (drop_bit (n - 8) v)) @
         bits_msb (n - 8 - (n - 8) mod 8) (drop_bit ((n - 8) mod 8) v))"
      "bsw_err u = bsw_err s" "length (bsw_bits u) = length (bsw_bits s)"
      using "1.IH" [OF True up h] "1.prems" True by auto
    have m: "(n - 8) mod 8 = n mod 8" using True by (simp add: le_mod_geq)
    have "bits_msb (n - n mod 8) (drop_bit (n mod 8) v) =
        bits_msb 8 (drop_bit (n - 8) v) @ bits_msb (n - 8 - n mod 8) (drop_bit (n mod 8) v)"
    proof -
      have "n mod 8 + 8 \<le> n" using True by (metis mod_less_divisor m add.commute le_diff_conv2
            mod_less_eq_dividend)
      then show ?thesis
        using bits_msb_append [of 8 "n - n mod 8" "drop_bit (n mod 8) v"]
        by (simp add: drop_bit_drop_bit add.commute)
    qed
    then show ?thesis
      using u True up m by (simp add: PutUint64_loop.simps [of v n s])
  next
    case False
    then show ?thesis using "1.prems" by (simp add: PutUint64_loop.simps [of v n s] bits_msb_def)
  qed
qed

text \<open>The byte loop neither reads nor writes the bit offset.\<close>

lemma PutUint64_loop_bitsoffset:
  "PutUint64_loop v n (s\<lparr>bitsoffset := k\<rparr>) =
     map_option (\<lambda>(m, t). (m, t\<lparr>bitsoffset := k\<rparr>)) (PutUint64_loop v n s)"
proof (induction v n s rule: PutUint64_loop.induct)
  case (1 v n s)
  let ?x = "ucast (drop_bit (n - 8) v) AND 0xFF :: byte"
  show ?case
  proof (cases "8 \<le> n \<and> byteoffset s < length (bsw_bits s)")
    case True
    then have up: "upd (bsw_bits s) (int (byteoffset s)) ?x = Some ((bsw_bits s)[byteoffset s := ?x])"
      by (simp add: upd_def)
    let ?t = "s\<lparr>bsw_bits := (bsw_bits s)[byteoffset s := ?x], byteoffset := byteoffset s + 1\<rparr>"
    have swap: "s\<lparr>bitsoffset := k, bsw_bits := X, byteoffset := Suc (byteoffset s)\<rparr> =
        s\<lparr>bsw_bits := X, byteoffset := Suc (byteoffset s), bitsoffset := k\<rparr>" for X
      by simp
    show ?thesis
      using True up "1.IH" [OF _ up]
      by (simp add: PutUint64_loop.simps [of v n s] swap
          PutUint64_loop.simps [of v n "s\<lparr>bitsoffset := k\<rparr>"] del: byte_and_FF)
  next
    case False
    then show ?thesis
      by (auto simp: PutUint64_loop.simps [of v n s]
          PutUint64_loop.simps [of v n "s\<lparr>bitsoffset := k\<rparr>"] upd_def)
  qed
qed

lemma idx_upd_inside:
  "B < length xs \<Longrightarrow> idx xs (int B) = Some (xs ! B)"
  "B < length xs \<Longrightarrow> upd xs (int B) v = Some (xs[B := v])"
  by (simp_all add: idx_def upd_def)

lemma idx_bitMask_pred: "0 < r \<Longrightarrow> r < 8 \<Longrightarrow> idx bitMask (int r - 1) = Some (mask r)"
  using idx_bitMask [of "int r - 1"] by (cases r) simp_all

lemma PutUint64_writable:
  assumes "writable s w" and "0 < n" and "n \<le> 64"
  shows "\<exists>t. PutUint64 v (int n) s = Some t \<and> writable t (w @ bits_msb n v)"
proof -
  define e where "e = expandSpace (int n) s"
  let ?k = "bitsoffset e" and ?B = "byteoffset e"
  have h: "holds e w" and err: "bsw_err e = None" and err_s: "bsw_err s = None"
    using assms(1) by (simp_all add: e_def writable_def expandSpace_holds)
  have room: "length w + n \<le> 8 * length (bsw_bits e)"
    using expandSpace_room [of s w "int n"] assms(1) by (simp add: e_def writable_def)
  have k: "?k < 8" and lw: "length w = 8 * ?B + ?k" using h by (simp_all add: holds_def)
  have B: "?B < length (bsw_bits e)" using room lw assms(2) by linarith
  note at = idx_upd_inside [OF B]
  show ?thesis
  proof (cases "?k + n \<le> 8")
    case True
    define t where "t = e\<lparr>bsw_bits := (bsw_bits e)[?B := bsw_bits e ! ?B OR
      push_bit (8 - ?k - n) (ucast v AND mask n)], bitsoffset := ?k + n\<rparr>"
    define u where "u = (if bitsoffset t = 8 then t\<lparr>bitsoffset := 0, byteoffset := byteoffset t + 1\<rparr>
      else t)"
    have "holds u (w @ bits_msb n (ucast v :: byte))"
      by (rule holds_store [OF h B True]) (use True in \<open>auto simp: u_def t_def\<close>)
    then have "holds u (w @ bits_msb n v)" using True by (simp add: bits_msb_ucast)
    moreover have "PutUint64 v (int n) s = Some u"
    proof -
      have "nat (8 - int ?k - int n) = 8 - ?k - n" "Suc (nat (int n - 1)) = n"
        using assms(2) True by linarith+
      then show ?thesis
        using True assms(2,3) err_s
        by (simp add: PutUint64_def e_def [symmetric] at Let_def u_def t_def)
    qed
    moreover have "bsw_err u = None" using err by (simp add: u_def t_def)
    ultimately show ?thesis by (auto simp: writable_def)
  next
    case wide: False
    let ?m = "8 - ?k"
    let ?n = "n - ?m"
    define t where "t = e\<lparr>bsw_bits := (bsw_bits e)[?B := bsw_bits e ! ?B OR
      (ucast (drop_bit ?n v) AND mask ?m)], byteoffset := ?B + 1\<rparr>"
    define t0 where "t0 = t\<lparr>bitsoffset := 0\<rparr>"
    have "holds t0 (w @ bits_msb ?m (ucast (drop_bit ?n v) :: byte))"
      by (rule holds_store [OF h B]) (use k in \<open>auto simp: t0_def t_def\<close>)
    then have h0: "holds t0 (w @ bits_msb ?m (drop_bit ?n v))"
      by (simp add: bits_msb_ucast)
    have l0: "length (bsw_bits t0) = length (bsw_bits e)" and e0: "bsw_err t0 = None"
      using err by (simp_all add: t0_def t_def)
    have room0: "length (w @ bits_msb ?m (drop_bit ?n v)) + ?n \<le> 8 * length (bsw_bits t0)"
      using room wide l0 by simp
    obtain t1 where t1: "PutUint64_loop v ?n t0 = Some (?n mod 8, t1)" "bitsoffset t1 = 0"
      "holds t1 ((w @ bits_msb ?m (drop_bit ?n v)) @ bits_msb (?n - ?n mod 8) (drop_bit (?n mod 8) v))"
      "bsw_err t1 = None" "length (bsw_bits t1) = length (bsw_bits t0)"
      using PutUint64_loop_holds [OF h0 _ room0, of v] e0 by (auto simp: t0_def)
    let ?r = "?n mod 8"
    obtain t2 where t2: "PutUint64_loop v ?n t = Some (?r, t2)" "t2\<lparr>bitsoffset := 0\<rparr> = t1"
      using t1(1) PutUint64_loop_bitsoffset [of v ?n 0 t] by (auto simp: t0_def)
    have whole: "bits_msb ?m (drop_bit ?n v) @ bits_msb (?n - ?r) (drop_bit ?r v) @ bits_msb ?r v =
        bits_msb n v"
      using bits_msb_append [of ?m n v] bits_msb_append [of "?n - ?r" ?n v] wide by simp
    define u where "u = t1\<lparr>bitsoffset := ?r\<rparr>"
    have u: "t2\<lparr>bitsoffset := ?r\<rparr> = u" using t2(2) by (auto simp: u_def)
    define z where "z = (if ?r > 0 then u\<lparr>bsw_bits := (bsw_bits u)[byteoffset u :=
      bsw_bits u ! byteoffset u OR push_bit (8 - ?r) (ucast v AND mask ?r)]\<rparr> else u)"
    have B1: "byteoffset t1 < length (bsw_bits t1)" if "?r > 0"
    proof -
      have "length ((w @ bits_msb ?m (drop_bit ?n v)) @ bits_msb (?n - ?r) (drop_bit ?r v)) =
          8 * byteoffset t1"
        using t1(2,3) by (simp only: holds_def)
      then have "length w + ?m + (?n - ?r) = 8 * byteoffset t1"
        by (simp only: length_append length_bits_msb)
      moreover have "?r \<le> ?n" "?n + ?m = n" using wide by simp_all
      ultimately have "8 * byteoffset t1 + ?r = length w + n" by linarith
      then show ?thesis using that room t1(5) l0 by linarith
    qed
    have "holds z (w @ bits_msb n v)"
    proof (cases "?r > 0")
      case True
      have "holds z (((w @ bits_msb ?m (drop_bit ?n v)) @ bits_msb (?n - ?r) (drop_bit ?r v)) @
          bits_msb ?r (ucast v :: byte))"
        by (rule holds_store [OF t1(3) B1 [OF True]]) (use True t1(2) in \<open>simp_all add: z_def u_def\<close>)
      then show ?thesis using whole by (simp add: bits_msb_ucast)
    next
      case False
      then have "z = t1" using t1(2) by (simp add: z_def u_def)
      then show ?thesis using t1(3) whole False by (simp add: bits_msb_def)
    qed
    moreover have "bsw_err z = None" using t1(4) by (simp add: z_def u_def)
    moreover have "PutUint64 v (int n) s = Some z"
    proof -
      let ?K = "\<lambda>(n', t). let u = t\<lparr>bitsoffset := n'\<rparr> in
        if n' > 0 then do {
          c \<leftarrow> idx (bsw_bits u) (int (byteoffset u));
          m' \<leftarrow> idx bitMask (int n' - 1);
          bits' \<leftarrow> upd (bsw_bits u) (int (byteoffset u)) (c OR push_bit (8 - n') (ucast v AND m'));
          Some (u\<lparr>bsw_bits := bits'\<rparr>)
        }
        else Some u"
      have nats: "nat (int n - (8 - int ?k)) = ?n" "nat (8 - int ?k - 1) = ?m - 1"
        "Suc (7 - ?k) = ?m"
        using k wide by linarith+
      have "PutUint64 v (int n) s = Option.bind (PutUint64_loop v ?n t) ?K"
        using wide k assms(2,3) err_s nats
        by (simp add: PutUint64_def e_def [symmetric] at Let_def t_def)
      also have "\<dots> = ?K (?r, t2)" using t2(1) by simp
      also have "\<dots> = Some z"
      proof (cases "?r = 0")
        case True
        then show ?thesis using u by (simp add: z_def)
      next
        case False
        then have "idx (bsw_bits u) (int (byteoffset u)) = Some (bsw_bits u ! byteoffset u)"
          "upd (bsw_bits u) (int (byteoffset u)) x = Some ((bsw_bits u)[byteoffset u := x])" for x
          using B1 by (simp_all add: u_def idx_upd_inside)
        moreover have "idx bitMask (int ?r - 1) = Some (mask ?r)"
          by (rule idx_bitMask_pred) (use False in simp_all)
        moreover have "bsw_bits t2 = bsw_bits u" "byteoffset t2 = byteoffset u"
          by (simp_all flip: u)
        ultimately show ?thesis using False by (simp add: u z_def Let_def)
      qed
      finally show ?thesis .
    qed
    ultimately show ?thesis by (auto simp: writable_def)
  qed
qed

lemma PutUint8_writable: "writable s w \<Longrightarrow> 0 < n \<Longrightarrow> n \<le> 8 \<Longrightarrow>
    \<exists>t. PutUint8 a (int n) s = Some t \<and> writable t (w @ bits_msb n a)"
  unfolding PutUint8_def using PutUint64_writable [of s w n "ucast a"] bits_msb_ucast_u64 [of n a]
  by simp

lemma PutUint16_writable: "writable s w \<Longrightarrow> 0 < n \<Longrightarrow> n \<le> 16 \<Longrightarrow>
    \<exists>t. PutUint16 a (int n) s = Some t \<and> writable t (w @ bits_msb n a)"
  unfolding PutUint16_def using PutUint64_writable [of s w n "ucast a"] bits_msb_ucast_u64 [of n a]
  by simp

lemma PutUint32_writable: "writable s w \<Longrightarrow> 0 < n \<Longrightarrow> n \<le> 32 \<Longrightarrow>
    \<exists>t. PutUint32 a (int n) s = Some t \<and> writable t (w @ bits_msb n a)"
  unfolding PutUint32_def using PutUint64_writable [of s w n "ucast a"] bits_msb_ucast_u64 [of n a]
  by simp

lemma PutUint64_bad_count:
  "writable s w \<Longrightarrow> n \<le> 0 \<or> n > 64 \<Longrightarrow>
     PutUint64 v n s = Some (s\<lparr>bsw_err := Some ErrBadBitCount\<rparr>)"
  by (auto simp: PutUint64_def writable_def)

lemma writable_aligned:
  assumes "writable s w" and "8 dvd length w"
  shows "bitsoffset s = 0" and "length w = 8 * byteoffset s"
  using assms by (auto simp: writable_def holds_def dvd_add_right_iff dest: dvd_imp_le)

lemma PutByte_writable:
  assumes "writable s w" and "8 dvd length w"
  shows "\<exists>t. PutByte v s = Some t \<and> writable t (w @ bits_msb 8 v)"
proof -
  define e where "e = expandSpace 8 s"
  have h: "holds e w" and err: "bsw_err e = None"
    using assms(1) by (simp_all add: e_def writable_def expandSpace_holds)
  have k: "bitsoffset e = 0" using writable_aligned(1) [OF assms] by (simp add: e_def)
  have "int (length w) + 8 \<le> 8 * glen (bsw_bits e)"
    using expandSpace_room [of s w 8] assms(1) by (simp add: e_def writable_def)
  then have B: "byteoffset e < length (bsw_bits e)" using h k by (simp add: holds_def)
  show ?thesis
    using holds_store_byte [OF h k B, of v] idx_upd_inside [OF B] k err
    by (simp add: PutByte_def e_def [symmetric] writable_def Let_def)
qed

text \<open>A run of bytes put on a byte boundary with enough room.\<close>

lemma holds_store_bytes:
  assumes h: "holds s w" and k: "bitsoffset s = 0"
    and room: "byteoffset s + length v \<le> length (bsw_bits s)"
    and t: "bsw_bits t = take (byteoffset s) (bsw_bits s) @ v @ drop (byteoffset s + length v) (bsw_bits s)"
      "byteoffset t = byteoffset s + length v" "bitsoffset t = 0"
  shows "holds t (w @ bits_of_bytes v)"
proof -
  let ?L = "length (bsw_bits s)" and ?B = "byteoffset s"
  have lw: "length w = 8 * ?B" and eq: "bits_of_bytes (bsw_bits s) = w @ replicate (8 * ?L - length w) False"
    using h k by (simp_all add: holds_def)
  have "bits_of_bytes (bsw_bits t) = w @ bits_of_bytes v @ replicate (8 * ?L - 8 * ?B - 8 * length v) False"
    unfolding t(1) by (simp add: bits_of_bytes_take bits_of_bytes_drop eq lw algebra_simps)
  moreover have "length (bsw_bits t) = ?L" unfolding t(1) using room by simp
  moreover have "8 * ?L - 8 * ?B - 8 * length v = 8 * ?L - length (w @ bits_of_bytes v)"
    using lw by simp
  ultimately show ?thesis using t(2,3) lw room by (simp add: holds_def)
qed

lemma PutBytes_writable:
  assumes "writable s w" and "8 dvd length w"
  shows "\<exists>t. PutBytes v s = Some t \<and> writable t (w @ bits_of_bytes v)"
proof -
  define e where "e = expandSpace (8 * glen v) s"
  have h: "holds e w" and err: "bsw_err e = None" and err_s: "bsw_err s = None"
    using assms(1) by (simp_all add: e_def writable_def expandSpace_holds)
  have k: "bitsoffset e = 0" "bitsoffset s = 0"
    using writable_aligned(1) [OF assms] by (simp_all add: e_def)
  have "int (length w) + 8 * glen v \<le> 8 * glen (bsw_bits e)"
    using expandSpace_room [of s w "8 * glen v"] assms(1) by (simp add: e_def writable_def)
  then have room: "byteoffset e + length v \<le> length (bsw_bits e)" using h k by (simp add: holds_def)
  define t where "t = e\<lparr>bsw_bits := take (byteoffset e) (bsw_bits e) @ v @
    drop (byteoffset e + length v) (bsw_bits e), byteoffset := byteoffset e + length v\<rparr>"
  have "PutBytes v s = Some t"
    using room k err_s by (simp add: PutBytes_def e_def [symmetric] copy_at_def t_def Let_def)
  moreover have "holds t (w @ bits_of_bytes v)"
    by (rule holds_store_bytes [OF h k(1) room]) (simp_all add: t_def k)
  ultimately show ?thesis using err by (simp add: writable_def t_def)
qed

lemma PutRepetValue_loop_holds:
  assumes "holds s w" and "bitsoffset s = 0" and "byteoffset s + n \<le> length (bsw_bits s)"
  shows "\<exists>t. PutRepetValue_loop v n s = Some t \<and> holds t (w @ bits_of_bytes (replicate n v)) \<and>
    bsw_err t = bsw_err s"
  using assms
proof (induction n arbitrary: s w)
  case (Suc n)
  let ?t = "s\<lparr>bsw_bits := (bsw_bits s)[byteoffset s := v], byteoffset := byteoffset s + 1\<rparr>"
  have B: "byteoffset s < length (bsw_bits s)" using Suc.prems(3) by simp
  have h: "holds ?t (w @ bits_msb 8 v)" by (rule holds_store_byte [OF Suc.prems(1,2) B])
  show ?case
    using Suc.IH [OF h] Suc.prems idx_upd_inside(2) [OF B] by (simp add: bits_of_bytes_Cons)
qed simp

lemma PutRepetValue_writable:
  assumes "writable s w" and "8 dvd length w" and "0 \<le> n"
  shows "\<exists>t. PutRepetValue v n s = Some t \<and> writable t (w @ bits_of_bytes (replicate (nat n) v))"
proof -
  define e where "e = expandSpace (8 * n) s"
  have h: "holds e w" and err: "bsw_err e = None" and err_s: "bsw_err s = None"
    using assms(1) by (simp_all add: e_def writable_def expandSpace_holds)
  have k: "bitsoffset e = 0" "bitsoffset s = 0"
    using writable_aligned(1) [OF assms(1,2)] by (simp_all add: e_def)
  have "int (length w) + 8 * n \<le> 8 * glen (bsw_bits e)"
    using expandSpace_room [of s w "8 * n"] assms(1) by (simp add: e_def writable_def)
  then have room: "byteoffset e + nat n \<le> length (bsw_bits e)"
    using h k assms(3) by (simp add: holds_def)
  show ?thesis
    using PutRepetValue_loop_holds [OF h k(1) room, of v] k err err_s
    by (auto simp: PutRepetValue_def e_def [symmetric] writable_def)
qed

text \<open>
  \<open>Bits\<close> returns the bytes that hold the written bits, the last one padded with zeros.
\<close>

lemma bsw_Bits_holds:
  assumes "holds s w"
  shows "\<exists>bs. bsw_Bits s = Some bs \<and> bits_of_bytes bs = w @ replicate (8 * length bs - length w) False
    \<and> 8 * length bs < length w + 8"
proof -
  let ?B = "byteoffset s" and ?k = "bitsoffset s" and ?L = "length (bsw_bits s)"
  have k: "?k < 8" and lw: "length w = 8 * ?B + ?k" and le: "length w \<le> 8 * ?L"
    and eq: "bits_of_bytes (bsw_bits s) = w @ replicate (8 * ?L - length w) False"
    using assms by (simp_all add: holds_def)
  define m where "m = (if ?k > 0 then ?B + 1 else ?B)"
  have m: "m \<le> ?L" "length w \<le> 8 * m" "8 * m < length w + 8"
    using k lw le by (auto simp: m_def)
  have "bsw_Bits s = Some (take m (bsw_bits s))"
  proof (cases "?B = ?L")
    case True
    then show ?thesis using lw le by (simp add: bsw_Bits_def m_def)
  next
    case False
    then have "?B < ?L" using lw le k by linarith
    then show ?thesis by (simp add: bsw_Bits_def m_def slice_to_def nat_add_distrib)
  qed
  moreover have "bits_of_bytes (take m (bsw_bits s)) = w @ replicate (8 * m - length w) False"
    using m by (simp add: bits_of_bytes_take eq min_def)
  ultimately show ?thesis using m by (simp add: min_def)
qed

section \<open>Patches keep the other bits\<close>

text \<open>\<open>SetByte\<close> and \<open>SetUint16\<close> overwrite whole bytes that were written before.\<close>

lemma holds_patch:
  assumes h: "holds s w" and i: "i + length v \<le> byteoffset s"
  shows "holds (s\<lparr>bsw_bits := take i (bsw_bits s) @ v @ drop (i + length v) (bsw_bits s)\<rparr>)
    (take (8 * i) w @ bits_of_bytes v @ drop (8 * (i + length v)) w)"
proof -
  let ?L = "length (bsw_bits s)"
  have lw: "length w = 8 * byteoffset s + bitsoffset s" and le: "length w \<le> 8 * ?L"
    and eq: "bits_of_bytes (bsw_bits s) = w @ replicate (8 * ?L - length w) False"
    using h by (simp_all add: holds_def)
  have "8 * (i + length v) \<le> 8 * byteoffset s" by (rule mult_left_mono [OF i]) simp
  then have iw: "8 * (i + length v) \<le> length w" using lw by linarith
  then have "8 * (i + length v) \<le> 8 * ?L" using le by (rule le_trans)
  then have iL: "i + length v \<le> ?L" by simp
  have len: "length (take i (bsw_bits s) @ v @ drop (i + length v) (bsw_bits s)) = ?L"
    using iL by simp
  have "bits_of_bytes (take i (bsw_bits s) @ v @ drop (i + length v) (bsw_bits s)) =
      (take (8 * i) w @ bits_of_bytes v @ drop (8 * (i + length v)) w) @
      replicate (8 * ?L - length w) False"
    using iw iL by (simp add: bits_of_bytes_take bits_of_bytes_drop eq)
  moreover have "length (take (8 * i) w @ bits_of_bytes v @ drop (8 * (i + length v)) w) = length w"
    using iw by simp
  ultimately show ?thesis using h len by (simp only: holds_def) simp
qed

lemma SetByte_writable:
  assumes "writable s w" and "8 * i + 8 \<le> length w"
  shows "\<exists>t. SetByte v (int i) s = Some t \<and>
    writable t (take (8 * i) w @ bits_msb 8 v @ drop (8 * i + 8) w)"
proof -
  have h: "holds s w" and B: "i + length [v] \<le> byteoffset s" "i < length (bsw_bits s)"
    using assms by (auto simp: writable_def holds_def)
  have "(bsw_bits s)[i := v] = take i (bsw_bits s) @ [v] @ drop (i + length [v]) (bsw_bits s)"
    using B(2) by (simp add: upd_conv_take_nth_drop)
  then show ?thesis
    using holds_patch [OF h B(1)] B(2) assms(1)
    by (simp add: SetByte_def upd_def writable_def bits_of_bytes_Cons add.commute)
qed

lemma SetUint16_writable:
  assumes "writable s w" and "8 * i + 16 \<le> length w"
  shows "\<exists>t. SetUint16 v (int i) s = Some t \<and>
    writable t (take (8 * i) w @ bits_of_bytes (be16 v) @ drop (8 * i + 16) w)"
proof -
  have h: "holds s w" and B: "i + length (be16 v) \<le> byteoffset s" "i + 2 \<le> length (bsw_bits s)"
    using assms by (auto simp: writable_def holds_def)
  then show ?thesis
    using holds_patch [OF h B(1)] B(2) assms(1)
    by (simp add: SetUint16_def put_at_def writable_def add.commute)
qed

lemma SetByte_out_of_range:
  "writable s w \<Longrightarrow> i < 0 \<or> i \<ge> glen (bsw_bits s) \<Longrightarrow>
     SetByte v i s = Some (s\<lparr>bsw_err := Some ErrOutOfRange\<rparr>)"
  by (auto simp: SetByte_def bsw_Fail_def writable_def)

section \<open>Reading back\<close>

text \<open>A sequence of fields, each a value and its width, as calls of the two types make it.\<close>

primrec put_fields :: "(u64 \<times> nat) list \<Rightarrow> bitwriter \<Rightarrow> bitwriter option" where
  "put_fields [] s = Some s"
| "put_fields (f # fs) s = do { t \<leftarrow> PutUint64 (fst f) (int (snd f)) s; put_fields fs t }"

primrec get_fields :: "nat list \<Rightarrow> bitstream \<Rightarrow> (u64 list \<times> bitstream) option" where
  "get_fields [] s = Some ([], s)"
| "get_fields (n # ns) s = do {
     (v, t) \<leftarrow> GetBits (int n) s;
     (vs, u) \<leftarrow> get_fields ns t;
     Some (v # vs, u)
   }"

definition field_ok :: "u64 \<times> nat \<Rightarrow> bool" where
  "field_ok f \<longleftrightarrow> 0 < snd f \<and> snd f \<le> 64"

definition fields_bits :: "(u64 \<times> nat) list \<Rightarrow> bool list" where
  "fields_bits fs = concat (map (\<lambda>f. bits_msb (snd f) (fst f)) fs)"

lemma put_fields_writable:
  "writable s w \<Longrightarrow> list_all field_ok fs \<Longrightarrow>
     \<exists>t. put_fields fs s = Some t \<and> writable t (w @ fields_bits fs)"
proof (induction fs arbitrary: s w)
  case (Cons f fs)
  obtain t where t: "PutUint64 (fst f) (int (snd f)) s = Some t"
    "writable t (w @ bits_msb (snd f) (fst f))"
    using PutUint64_writable [OF Cons.prems(1), of "snd f" "fst f"] Cons.prems(2)
    by (auto simp: field_ok_def)
  then show ?case using Cons.IH [OF t(2)] Cons.prems(2) by (simp add: fields_bits_def)
qed (simp add: fields_bits_def)

lemma get_fields_ready:
  "ready s \<Longrightarrow> rest_bits s = fields_bits fs @ r \<Longrightarrow> list_all field_ok fs \<Longrightarrow>
     get_fields (map snd fs) s =
       Some (map (\<lambda>f. take_bit (snd f) (fst f)) fs, advance (length (fields_bits fs)) s)"
proof (induction fs arbitrary: s)
  case Nil
  then show ?case by (simp add: fields_bits_def advance_def pos_def ready_def bs_ok_def)
next
  case (Cons f fs)
  have rest: "rest_bits s = bits_msb (snd f) (fst f) @ fields_bits fs @ r"
    using Cons.prems(2) by (simp add: fields_bits_def)
  have g: "GetBits (int (snd f)) s = Some (take_bit (snd f) (fst f), advance (snd f) s)"
    using GetBits_ready [OF Cons.prems(1), of "snd f"] Cons.prems(3) rest
    by (simp add: field_ok_def of_msb_bits_msb)
  have "ready (advance (snd f) s)" "rest_bits (advance (snd f) s) = fields_bits fs @ r"
    using Cons.prems(1) rest by (simp_all add: ready_advance rest_bits_advance)
  then have "get_fields (map snd fs) (advance (snd f) s) =
      Some (map (\<lambda>f. take_bit (snd f) (fst f)) fs,
        advance (length (fields_bits fs)) (advance (snd f) s))"
    using Cons.IH Cons.prems(3) by simp
  then show ?case using g by (simp add: fields_bits_def)
qed

text \<open>Whatever the capacity, a sequence of fields is read back as it was written.\<close>

lemma fields_round_trip:
  assumes "0 \<le> cap" and "list_all field_ok fs"
  shows "\<exists>s t bs u. NewBitStreamWriter cap = Some s \<and> put_fields fs s = Some t \<and>
    bsw_Bits t = Some bs \<and> 8 * length bs < length (fields_bits fs) + 8 \<and>
    get_fields (map snd fs) (NewBitStream bs) = Some (map (\<lambda>f. take_bit (snd f) (fst f)) fs, u)"
proof -
  obtain s where s: "NewBitStreamWriter cap = Some s" "writable s []"
    using NewBitStreamWriter_holds [OF assms(1)] by blast
  obtain t where t: "put_fields fs s = Some t" "holds t (fields_bits fs)"
    using put_fields_writable [OF s(2) assms(2)] by (auto simp: writable_def)
  obtain bs where bs: "bsw_Bits t = Some bs"
    "rest_bits (NewBitStream bs) = fields_bits fs @ replicate (8 * length bs - length (fields_bits fs)) False"
    "8 * length bs < length (fields_bits fs) + 8"
    using bsw_Bits_holds [OF t(2)] by auto
  then show ?thesis
    using s(1) t(1) get_fields_ready [OF ready_New bs(2) assms(2)] by blast
qed

text \<open>
  Off a byte boundary \<open>PutByte\<close> does not append the byte: the low bits of the value are
  stored at the bottom of the next byte, not at the write position.
\<close>

lemma PutByte_unaligned:
  "(do { s \<leftarrow> NewBitStreamWriter 2; t \<leftarrow> PutUint8 0 4 s; u \<leftarrow> PutByte 0xAB t; bsw_Bits u }) =
     Some [0x0A, 0x0B]"
  "(do { s \<leftarrow> NewBitStreamWriter 2; t \<leftarrow> PutUint8 0 4 s; u \<leftarrow> PutUint8 0xAB 8 t; bsw_Bits u }) =
     Some [0x0A, 0xB0]"
  by code_simp+


section \<open>Properties\<close>

text \<open>
  C4: a sequence of bit fields of any widths from 1 to 64, put into a writer of any initial
  capacity, is read back by the reader from the bytes the writer returns, and the bytes are
  as few as the bits allow.
\<close>

theorem bit_fields_round_trip:
  assumes "0 \<le> cap" and "list_all field_ok fs"
  shows "\<exists>s t bs u. NewBitStreamWriter cap = Some s \<and> put_fields fs s = Some t \<and>
    bsw_Bits t = Some bs \<and> 8 * length bs < length (fields_bits fs) + 8 \<and>
    get_fields (map snd fs) (NewBitStream bs) = Some (map (\<lambda>f. take_bit (snd f) (fst f)) fs, u)"
  using assms by (rule fields_round_trip)

theorem bit_fields_round_trip_witness:
  "\<exists>s t bs u. NewBitStreamWriter 1 = Some s \<and> put_fields [(5, 3), (0x1FF, 9), (1, 1)] s = Some t \<and>
    bsw_Bits t = Some bs \<and> length bs = 2 \<and>
    get_fields [3, 9, 1] (NewBitStream bs) = Some ([5, 0x1FF, 1], u)"
proof -
  let ?fs = "[(5, 3), (0x1FF, 9), (1, 1)] :: (u64 \<times> nat) list"
  have "list_all field_ok ?fs" by (simp add: field_ok_def)
  then obtain s t bs u where r: "NewBitStreamWriter 1 = Some s" "put_fields ?fs s = Some t"
    "bsw_Bits t = Some bs" "get_fields [3, 9, 1] (NewBitStream bs) =
      Some (map (\<lambda>f. take_bit (snd f) (fst f)) ?fs, u)"
    using bit_fields_round_trip [of 1 ?fs] by auto
  have "Option.bind (NewBitStreamWriter 1) (\<lambda>s. Option.bind (put_fields ?fs s) bsw_Bits) = Some [0xBF, 0xF8]"
    by code_simp
  moreover have "map (\<lambda>f. take_bit (snd f) (fst f)) ?fs = [5, 0x1FF, 1]" by code_simp
  ultimately have "bs = [0xBF, 0xF8] \<and> get_fields [3, 9, 1] (NewBitStream bs) = Some ([5, 0x1FF, 1], u)"
    using r by (simp del: put_fields.simps get_fields.simps)
  with r show ?thesis by (intro exI conjI) (auto simp del: put_fields.simps get_fields.simps)
qed

text \<open>
  \<open>PutUint64\<close> appends the low bits of its value to what the writer holds, at any bit
  position and growing the buffer when it must; a count outside \<open>1..64\<close> only records the error.
\<close>

theorem PutUint64_appends:
  assumes "writable s w"
  shows "if 0 < n \<and> n \<le> 64 then \<exists>t. PutUint64 v n s = Some t \<and> writable t (w @ bits_msb (nat n) v)
    else PutUint64 v n s = Some (s\<lparr>bsw_err := Some ErrBadBitCount\<rparr>)"
proof (cases "0 < n \<and> n \<le> 64")
  case True
  then show ?thesis using PutUint64_writable [OF assms, of "nat n" v] by auto
next
  case False
  then show ?thesis using PutUint64_bad_count [OF assms, of n v] by auto
qed

theorem PutUint64_appends_witness:
  "\<exists>t. PutUint64 0x2A5 10 (bsw_Reset \<lparr>bsw_bits = [], byteoffset = 0, bitsoffset = 0, bsw_bitsmark = 0,
     bsw_bytemark = 0, bsw_err = None\<rparr>) = Some t \<and>
     writable t [True, False, True, False, True, False, False, True, False, True]"
proof -
  have "bits_msb 10 (0x2A5 :: u64) = [True, False, True, False, True, False, False, True, False, True]"
    by code_simp
  then show ?thesis using PutUint64_appends [OF bsw_Reset_holds, where n = 10 and v = "0x2A5"] by simp
qed

text \<open>
  \<open>SetUint16\<close> overwrites the two bytes at its index and nothing else, and the writer goes
  on appending where it was: the length field patched after a section is written.
\<close>

theorem SetUint16_patches:
  assumes "writable s w" and "8 * i + 16 \<le> length w"
  shows "\<exists>t. SetUint16 v (int i) s = Some t \<and>
    writable t (take (8 * i) w @ bits_of_bytes (be16 v) @ drop (8 * i + 16) w)"
  using assms by (rule SetUint16_writable)

theorem SetUint16_patches_witness:
  "\<exists>s t. NewBitStreamWriter 0 = Some s \<and> Option.bind (PutBytes [1, 2, 3, 4] s) (SetUint16 0xABCD 1) = Some t \<and>
    writable t (bits_of_bytes [1, 0xAB, 0xCD, 4])"
proof -
  obtain s u where s: "NewBitStreamWriter 0 = Some s" "PutBytes [1, 2, 3, 4] s = Some u"
    "writable u (bits_of_bytes [1, 2, 3, 4])"
    using NewBitStreamWriter_holds [of 0] PutBytes_writable [of _ "[]" "[1, 2, 3, 4]"] by fastforce
  have "take 8 (bits_of_bytes [1, 2, 3, 4]) @ bits_of_bytes (be16 0xABCD) @
      drop 24 (bits_of_bytes [1, 2, 3, 4 :: byte]) = bits_of_bytes [1, 0xAB, 0xCD, 4]"
    by code_simp
  then show ?thesis using SetUint16_patches [OF s(3), of 1 "0xABCD"] s by auto
qed

text \<open>
  \<open>PutByte\<close> on an unaligned writer: after four bits, the byte \<open>AB\<close> leaves \<open>0A 0B\<close>, where
  eight bits of the same value put with \<open>PutUint8\<close> leave \<open>0A B0\<close>.  The low half of the byte
  is not shifted to the top of the next one.
\<close>

theorem PutByte_loses_position:
  "(do { s \<leftarrow> NewBitStreamWriter 2; t \<leftarrow> PutUint8 0 4 s; u \<leftarrow> PutByte 0xAB t; bsw_Bits u }) = Some [0x0A, 0x0B] \<and>
   (do { s \<leftarrow> NewBitStreamWriter 2; t \<leftarrow> PutUint8 0 4 s; u \<leftarrow> PutUint8 0xAB 8 t; bsw_Bits u }) = Some [0x0A, 0xB0]"
  using PutByte_unaligned by blast

end
