(* ===== verification/AnnexB.thy ===== *)
theory AnnexB
  imports BitStream
begin

text \<open>
  Annex B byte streams: the start code search, the splitters and the NAL unit helpers of
  \<open>go-codec/util.go\<close> and the slice header of \<open>go-codec/h264.go\<close>.  A callback is a function
  of the frame and a state of its own; it returns whether to go on and its new state.

  The lemmas: a stream framed with three- and four-byte start codes is split into exactly
  the units it was made of; emulation prevention is undone; nothing here panics.
\<close>

section \<open>Start codes\<close>

datatype START_CODE_TYPE = START_CODE_3 | START_CODE_4

primrec sc_len :: "START_CODE_TYPE \<Rightarrow> nat" where
  "sc_len START_CODE_3 = 3"
| "sc_len START_CODE_4 = 4"

text \<open>\<open>bytes.Index\<close>: the first position of \<open>pat\<close>, if any.\<close>

fun bytes_Index :: "bytes \<Rightarrow> bytes \<Rightarrow> nat option" where
  "bytes_Index pat [] = (if pat = [] then Some 0 else None)"
| "bytes_Index pat (x # xs) =
     (if take (length pat) (x # xs) = pat then Some 0 else map_option Suc (bytes_Index pat xs))"

definition FindStartCode :: "bytes \<Rightarrow> int \<Rightarrow> (int \<times> START_CODE_TYPE) option" where
  "FindStartCode nalu offset =
     (if offset < 0 \<or> offset \<ge> glen nalu then Some (- 1, START_CODE_3)
      else (case bytes_Index [0, 0, 1] (drop (nat offset) nalu) of
          None \<Rightarrow> Some (- 1, START_CODE_3)
        | Some i \<Rightarrow>
            if i > 0 then do {
              b \<leftarrow> idx nalu (offset + int i - 1);
              Some (if b = 0 then (offset + int i - 1, START_CODE_4)
                else (offset + int i, START_CODE_3))
            }
            else Some (offset + int i, START_CODE_3)))"

lemma bytes_Index_bound: "bytes_Index pat xs = Some i \<Longrightarrow> i + length pat \<le> length xs"
proof (induction pat xs arbitrary: i rule: bytes_Index.induct)
  case (2 pat x xs)
  show ?case
  proof (cases "take (length pat) (x # xs) = pat")
    case True
    then have "length pat \<le> length (x # xs)" by (metis length_take min.cobounded1 min.commute)
    then show ?thesis using 2 True by simp
  next
    case False
    then show ?thesis using 2 by auto
  qed
qed (auto split: if_splits)

lemma bytes_Index_at: "bytes_Index pat xs = Some i \<Longrightarrow> take (length pat) (drop i xs) = pat"
  by (induction pat xs arbitrary: i rule: bytes_Index.induct) (auto split: if_splits)

lemma bytes_Index_first:
  "bytes_Index pat xs = Some i \<Longrightarrow> j < i \<Longrightarrow> take (length pat) (drop j xs) \<noteq> pat"
proof (induction pat xs arbitrary: i j rule: bytes_Index.induct)
  case (2 pat x xs)
  then show ?case by (cases j) (auto split: if_splits)
qed (auto split: if_splits)

lemma bytes_Index_None: "bytes_Index pat xs = None \<Longrightarrow> take (length pat) (drop j xs) \<noteq> pat"
proof (induction pat xs arbitrary: j rule: bytes_Index.induct)
  case (2 pat x xs)
  then show ?case by (cases j) (auto split: if_splits)
qed (auto split: if_splits)

text \<open>The search stays inside the buffer and moves forward.\<close>

lemma FindStartCode_range:
  assumes "FindStartCode nalu offset = Some (p, sc)"
  shows "p = - 1 \<or> (0 \<le> offset \<and> offset \<le> p \<and> p + int (sc_len sc) \<le> glen nalu)"
  using assms
  by (auto simp: FindStartCode_def idx_def split: if_splits option.splits
      dest!: bytes_Index_bound)

lemma FindStartCode_total: "\<exists>p sc. FindStartCode nalu offset = Some (p, sc)"
  by (auto simp: FindStartCode_def idx_def split: option.split dest!: bytes_Index_bound)

section \<open>Splitting\<close>

text \<open>
  The loop of \<open>SplitFrame\<close> and \<open>SplitFrameWithStartCode\<close>, which differ only in where a
  delivered frame begins.  A nil callback is \<open>None\<close>.
\<close>

type_synonym 's frame_callback = "bytes \<Rightarrow> 's \<Rightarrow> bool \<times> 's"

function split_loop :: "bool \<Rightarrow> bytes \<Rightarrow> 's frame_callback option \<Rightarrow> int \<Rightarrow> START_CODE_TYPE \<Rightarrow> 's
    \<Rightarrow> 's option" where
  "split_loop keep frames onFrame beg sc st =
     (if beg < 0 then Some st
      else do {
        (end, sc2) \<leftarrow> FindStartCode frames (beg + int (sc_len sc));
        let body = beg + int (sc_len sc);
        let from = (if keep then beg else body);
        if end = - 1 then
          (case onFrame of
             Some f \<Rightarrow>
               if body < glen frames then do {
                 frame \<leftarrow> slice_from frames from;
                 Some (snd (f frame st))
               } else Some st
           | None \<Rightarrow> Some st)
        else
          (case onFrame of
             Some f \<Rightarrow>
               if body < end then do {
                 frame \<leftarrow> slice_of frames from end;
                 let (go_on, st') = f frame st;
                 if go_on then split_loop keep frames onFrame end sc2 st' else Some st'
               } else split_loop keep frames onFrame end sc2 st
           | None \<Rightarrow> split_loop keep frames onFrame end sc2 st)
      })"
  by pat_completeness auto
termination
  apply (relation "measure (\<lambda>(keep, frames, f, beg, sc, st). nat (glen frames - beg))")
     apply simp
    apply (auto dest!: FindStartCode_range, (case_tac sc; simp)+)
  done

declare split_loop.simps [simp del]

definition SplitFrame :: "bytes \<Rightarrow> 's frame_callback option \<Rightarrow> 's \<Rightarrow> 's option" where
  "SplitFrame frames onFrame st = do {
     (beg, sc) \<leftarrow> FindStartCode frames 0;
     split_loop False frames onFrame beg sc st
   }"

definition SplitFrameWithStartCode :: "bytes \<Rightarrow> 's frame_callback option \<Rightarrow> 's \<Rightarrow> 's option" where
  "SplitFrameWithStartCode frames onFrame st = do {
     (beg, sc) \<leftarrow> FindStartCode frames 0;
     split_loop True frames onFrame beg sc st
   }"

section \<open>NAL units\<close>

definition NaluBody :: "bytes \<Rightarrow> bytes option" where
  "NaluBody nalu = do {
     (start, sc) \<leftarrow> FindStartCode nalu 0;
     if start \<ge> 0 then slice_from nalu (start + int (sc_len sc)) else Some nalu
   }"

definition naluOffset :: "bytes \<Rightarrow> int option" where
  "naluOffset buf = do {
     (loc, sc) \<leftarrow> FindStartCode buf 0;
     let off = (if loc < 0 then 0 else loc + int (sc_len sc));
     Some (if off \<ge> glen buf then - 1 else off)
   }"

type_synonym NAL_TYPE = int

definition H264_NAL_RESERVED :: NAL_TYPE where "H264_NAL_RESERVED = 0"
definition H264_NAL_I_SLICE :: NAL_TYPE where "H264_NAL_I_SLICE = 5"
definition H265_NAL_Slice_TRAIL_N :: NAL_TYPE where "H265_NAL_Slice_TRAIL_N = 0"
definition H265_NAL_SLICE_RASL_R :: NAL_TYPE where "H265_NAL_SLICE_RASL_R = 9"
definition H265_NAL_SLICE_BLA_W_LP :: NAL_TYPE where "H265_NAL_SLICE_BLA_W_LP = 16"
definition H265_NAL_SLICE_CRA :: NAL_TYPE where "H265_NAL_SLICE_CRA = 21"

definition H264NaluType :: "bytes \<Rightarrow> NAL_TYPE option" where
  "H264NaluType h264 = do {
     off \<leftarrow> naluOffset h264;
     if off < 0 then Some H264_NAL_RESERVED
     else do { b \<leftarrow> idx h264 off; Some (uint (b AND 0x1F)) }
   }"

definition H264NaluTypeWithoutStartCode :: "bytes \<Rightarrow> NAL_TYPE option" where
  "H264NaluTypeWithoutStartCode h264 =
     (if glen h264 < 1 then Some H264_NAL_RESERVED
      else do { b \<leftarrow> idx h264 0; Some (uint (b AND 0x1F)) })"

definition H265NaluType :: "bytes \<Rightarrow> NAL_TYPE option" where
  "H265NaluType h265 = do {
     off \<leftarrow> naluOffset h265;
     if off < 0 then Some 0
     else do { b \<leftarrow> idx h265 off; Some (uint (drop_bit 1 b AND 0x3F)) }
   }"

definition H265NaluTypeWithoutStartCode :: "bytes \<Rightarrow> NAL_TYPE option" where
  "H265NaluTypeWithoutStartCode h265 =
     (if glen h265 < 1 then Some 0
      else do { b \<leftarrow> idx h265 0; Some (uint (drop_bit 1 b AND 0x3F)) })"

record SliceHeader =
  First_mb_in_slice :: u64
  Slice_type :: u64
  Pic_parameter_set_id :: u64
  Frame_num :: u64

definition SliceHeader_Decode :: "bitstream \<Rightarrow> SliceHeader \<Rightarrow> (SliceHeader \<times> bitstream) option" where
  "SliceHeader_Decode bs sh = do {
     (first, bs) \<leftarrow> ReadUE bs;
     (typ, bs) \<leftarrow> ReadUE bs;
     (pps, bs) \<leftarrow> ReadUE bs;
     Some (sh\<lparr>First_mb_in_slice := first, Slice_type := typ, Pic_parameter_set_id := pps\<rparr>, bs)
   }"

definition zero_SliceHeader :: SliceHeader where
  "zero_SliceHeader = \<lparr>First_mb_in_slice = 0, Slice_type = 0, Pic_parameter_set_id = 0, Frame_num = 0\<rparr>"

definition GetH264FirstMbInSlice :: "bytes \<Rightarrow> u64 option" where
  "GetH264FirstMbInSlice nalu = do {
     off \<leftarrow> naluOffset nalu;
     if off < 0 \<or> off + 1 \<ge> glen nalu then Some 0
     else do {
       buf \<leftarrow> slice_from nalu (off + 1);
       (hdr, bs) \<leftarrow> SliceHeader_Decode (NewBitStream buf) zero_SliceHeader;
       Some (First_mb_in_slice hdr)
     }
   }"

definition GetH265FirstMbInSlice :: "bytes \<Rightarrow> u64 option" where
  "GetH265FirstMbInSlice nalu = do {
     off \<leftarrow> naluOffset nalu;
     if off < 0 \<or> off + 2 \<ge> glen nalu then Some 0
     else do {
       buf \<leftarrow> slice_from nalu (off + 2);
       (hdr, bs) \<leftarrow> SliceHeader_Decode (NewBitStream buf) zero_SliceHeader;
       Some (First_mb_in_slice hdr)
     }
   }"

text \<open>
  The callbacks of \<open>IsH264IDRFrame\<close> and \<open>IsH265IDRFrame\<close>; their state is the result.  The
  two \<open>...WithoutStartCode\<close> functions are inlined: they are called on a non-empty unit.
\<close>

definition h264_idr_callback :: "bool frame_callback" where
  "h264_idr_callback nalu ret =
     (case nalu of
        [] \<Rightarrow> (True, ret)
      | b # _ \<Rightarrow>
          let nal_type = uint (b AND 0x1F) in
          if nal_type < 5 then (False, ret)
          else if nal_type = 5 then (False, True)
          else (True, ret))"

definition IsH264IDRFrame :: "bytes \<Rightarrow> bool option" where
  "IsH264IDRFrame h264 = SplitFrame h264 (Some h264_idr_callback) False"

definition h265_idr_callback :: "bool frame_callback" where
  "h265_idr_callback nalu ret =
     (case nalu of
        [] \<Rightarrow> (True, ret)
      | b # _ \<Rightarrow>
          let nal_type = uint (drop_bit 1 b AND 0x3F) in
          if nal_type \<le> 9 \<and> nal_type \<ge> 0 then (False, ret)
          else if nal_type \<ge> 16 \<and> nal_type \<le> 21 then (False, True)
          else (True, ret))"

definition IsH265IDRFrame :: "bytes \<Rightarrow> bool option" where
  "IsH265IDRFrame h265 = SplitFrame h265 (Some h265_idr_callback) False"

definition IsH264VCLNaluType :: "NAL_TYPE \<Rightarrow> bool" where
  "IsH264VCLNaluType nal_type \<longleftrightarrow> nal_type \<le> H264_NAL_I_SLICE \<and> nal_type > H264_NAL_RESERVED"

definition IsH265VCLNaluType :: "NAL_TYPE \<Rightarrow> bool" where
  "IsH265VCLNaluType nal_type \<longleftrightarrow>
     (nal_type \<le> H265_NAL_SLICE_CRA \<and> nal_type \<ge> H265_NAL_SLICE_BLA_W_LP) \<or>
     (nal_type \<le> H265_NAL_SLICE_RASL_R \<and> nal_type \<ge> H265_NAL_Slice_TRAIL_N)"

section \<open>Emulation prevention\<close>

fun rbsp_loop :: "nat \<Rightarrow> bytes \<Rightarrow> bytes" where
  "rbsp_loop zeros [] = []"
| "rbsp_loop zeros (b # rbsp) =
     (if zeros \<ge> 2 \<and> b = 0x03 then rbsp_loop 0 rbsp
      else b # rbsp_loop (if b = 0x00 then zeros + 1 else 0) rbsp)"

definition CovertRbspToSodb :: "bytes \<Rightarrow> bytes" where
  "CovertRbspToSodb rbsp = rbsp_loop 0 rbsp"

text \<open>
  The encoder of the standard (7.4.1 of H.264): a 03 goes before a byte of at most 3 that
  follows two zeros.  The repository has only the decoder.
\<close>

fun emulate :: "nat \<Rightarrow> bytes \<Rightarrow> bytes" where
  "emulate zeros [] = []"
| "emulate zeros (b # bs) =
     (if zeros \<ge> 2 \<and> b \<le> 3 then 0x03 # b # emulate (if b = 0 then 1 else 0) bs
      else b # emulate (if b = 0 then zeros + 1 else 0) bs)"

lemma rbsp_emulate: "rbsp_loop z (emulate z bs) = bs"
proof (induction z bs rule: emulate.induct)
  case (2 z b bs)
  then show ?case by auto
qed simp

section \<open>A stream made of units is split into them\<close>

primrec start_code :: "START_CODE_TYPE \<Rightarrow> bytes" where
  "start_code START_CODE_3 = [0, 0, 1]"
| "start_code START_CODE_4 = [0, 0, 0, 1]"

definition framed :: "(START_CODE_TYPE \<times> bytes) list \<Rightarrow> bytes" where
  "framed us = concat (map (\<lambda>(sc, u). start_code sc @ u) us)"

text \<open>A unit as the standard has it: not empty, not ending in zero, no start code inside.\<close>

definition nal_clean :: "bytes \<Rightarrow> bool" where
  "nal_clean u \<longleftrightarrow> u \<noteq> [] \<and> last u \<noteq> 0 \<and> bytes_Index [0, 0, 1] u = None"

text \<open>The calls a splitter makes: in order, until the callback says stop.\<close>

primrec deliver :: "'s frame_callback \<Rightarrow> bytes list \<Rightarrow> 's \<Rightarrow> 's" where
  "deliver f [] st = st"
| "deliver f (u # us) st = (let (go_on, st') = f u st in if go_on then deliver f us st' else st')"

lemma length_start_code [simp]: "length (start_code sc) = sc_len sc"
  by (cases sc) simp_all

lemma Index_clean:
  assumes "nal_clean u"
  shows "bytes_Index [0, 0, 1] (u @ start_code sc @ r) =
    Some (length u + (if sc = START_CODE_3 then 0 else 1))"
  using assms
proof (induction u)
  case (Cons x u)
  consider "u = []" | y where "u = [y]" | y z v where "u = y # z # v"
    by (metis list.exhaust)
  then show ?case
  proof cases
    case 3
    then have "nal_clean u" using Cons.prems by (auto simp: nal_clean_def split: if_splits)
    then show ?thesis using Cons.IH Cons.prems 3 by (auto simp: nal_clean_def split: if_splits)
  qed (use Cons.prems in \<open>cases sc; auto simp: nal_clean_def\<close>)+
qed (simp add: nal_clean_def)

text \<open>The next start code after a unit, and the first one of a stream.\<close>

lemma FindStartCode_after:
  assumes "nal_clean u"
  shows "FindStartCode (pre @ u @ start_code sc @ r) (glen pre) = Some (glen pre + glen u, sc)"
proof -
  let ?all = "pre @ u @ start_code sc @ r"
  have u: "u \<noteq> []" "last u \<noteq> 0" using assms by (simp_all add: nal_clean_def)
  have "(pre @ u) ! (length (pre @ u) - 1) = last u" using u last_conv_nth [of "pre @ u"] by simp
  moreover have "?all ! k = (pre @ u) ! k" if "k < length (pre @ u)" for k
    using that by (metis append_assoc nth_append)
  ultimately have "?all ! (length pre + length u - 1) = last u" using u by simp
  moreover have "(pre @ u @ 0 # 0 # 0 # 1 # r) ! (length pre + length u) = 0"
    by (simp add: nth_append)
  moreover have "1 \<le> glen pre + glen u" using u by (cases u) simp_all
  moreover have "nat (glen pre + glen u - 1) = length pre + length u - 1"
    "nat (glen pre + glen u) = length pre + length u" by linarith+
  ultimately show ?thesis
    using u Index_clean [OF assms, of sc r]
    by (cases sc) (auto simp: FindStartCode_def idx_def algebra_simps)
qed

lemma FindStartCode_first:
  "FindStartCode (start_code sc @ r) 0 = Some (0, sc)"
  by (cases sc) (auto simp: FindStartCode_def idx_def)

lemma FindStartCode_last:
  assumes "nal_clean u" shows "FindStartCode (pre @ u) (glen pre) = Some (- 1, START_CODE_3)"
  using assms by (auto simp: FindStartCode_def nal_clean_def)

lemma framed_Cons: "framed ((sc, u) # us) = start_code sc @ u @ framed us" "framed [] = []"
  by (simp_all add: framed_def)

definition piece :: "bool \<Rightarrow> START_CODE_TYPE \<times> bytes \<Rightarrow> bytes" where
  "piece keep u = (if keep then start_code (fst u) @ snd u else snd u)"

lemma split_loop_framed:
  assumes "nal_clean u" and "list_all (\<lambda>u. nal_clean (snd u)) us"
  shows "split_loop keep (pre @ start_code sc @ u @ framed us) (Some f) (glen pre) sc st =
    Some (deliver f (map (piece keep) ((sc, u) # us)) st)"
  using assms
proof (induction us arbitrary: pre sc u st)
  case Nil
  have u: "u \<noteq> []" using Nil.prems by (simp add: nal_clean_def)
  have "FindStartCode ((pre @ start_code sc) @ u) (glen (pre @ start_code sc)) = Some (- 1, START_CODE_3)"
    by (rule FindStartCode_last [OF Nil.prems(1)])
  then show ?case
    using u by (auto simp: split_loop.simps [of keep _ _ "glen pre"] framed_def slice_from_def
        piece_def nat_add_distrib split: prod.split)
next
  case (Cons v us)
  obtain sc2 u2 where v: "v = (sc2, u2)" by (cases v)
  have u: "u \<noteq> []" using Cons.prems by (simp add: nal_clean_def)
  let ?all = "pre @ start_code sc @ u @ start_code sc2 @ u2 @ framed us"
  have after: "FindStartCode ?all (glen pre + int (sc_len sc)) =
      Some (glen pre + int (sc_len sc) + glen u, sc2)"
    using FindStartCode_after [OF Cons.prems(1), of "pre @ start_code sc" sc2 "u2 @ framed us"] by simp
  have rec: "split_loop keep ?all (Some f) (glen pre + int (sc_len sc) + glen u) sc2 st' =
      Some (deliver f (map (piece keep) ((sc2, u2) # us)) st')" for st'
    using Cons.IH [of u2 "pre @ start_code sc @ u" sc2 st'] Cons.prems v by (simp add: algebra_simps)
  have slice: "slice_of ?all (if keep then glen pre else glen pre + int (sc_len sc))
      (glen pre + int (sc_len sc) + glen u) = Some (piece keep (sc, u))"
    by (auto simp: slice_of_def piece_def nat_add_distrib nat_diff_distrib)
  have "split_loop keep ?all (Some f) (glen pre) sc st =
      (let (go_on, st') = f (piece keep (sc, u)) st in
       if go_on then split_loop keep ?all (Some f) (glen pre + int (sc_len sc) + glen u) sc2 st'
       else Some st')"
    using u by (subst split_loop.simps) (auto simp: after slice Let_def)
  then show ?case by (simp add: rec v framed_Cons split: prod.split)
qed

lemma split_framed:
  assumes "us \<noteq> []" and "list_all (\<lambda>u. nal_clean (snd u)) us"
  shows "SplitFrame (framed us) (Some f) st = Some (deliver f (map snd us) st)"
    and "SplitFrameWithStartCode (framed us) (Some f) st =
      Some (deliver f (map (\<lambda>u. start_code (fst u) @ snd u) us) st)"
proof -
  obtain sc u vs where us: "us = (sc, u) # vs" using assms(1) by (metis list.exhaust surj_pair)
  have pieces: "map (piece False) us = map snd us"
    "map (piece True) us = map (\<lambda>u. start_code (fst u) @ snd u) us"
    by (simp_all add: piece_def)
  have "split_loop keep (framed us) (Some f) 0 sc st = Some (deliver f (map (piece keep) us) st)" for keep
    using split_loop_framed [of u vs keep "[]" sc f st] assms(2) by (simp add: us framed_def)
  moreover have "FindStartCode (framed us) 0 = Some (0, sc)"
    using FindStartCode_first [of sc "u @ framed vs"] by (simp add: us framed_def)
  ultimately show "SplitFrame (framed us) (Some f) st = Some (deliver f (map snd us) st)"
    "SplitFrameWithStartCode (framed us) (Some f) st =
      Some (deliver f (map (\<lambda>u. start_code (fst u) @ snd u) us) st)"
    by (simp_all add: SplitFrame_def SplitFrameWithStartCode_def pieces)
qed

section \<open>Totality\<close>

lemma split_loop_total: "\<exists>st'. split_loop keep frames f beg sc st = Some st'"
proof (induction "nat (glen frames - beg)" arbitrary: beg sc st rule: less_induct)
  case less
  obtain e sc2 where F: "FindStartCode frames (beg + int (sc_len sc)) = Some (e, sc2)"
    using FindStartCode_total by blast
  show ?case
  proof (cases "beg < 0 \<or> e = - 1")
    case True
    then show ?thesis
      by (subst split_loop.simps) (auto simp: F slice_from_def Let_def split: option.split)
  next
    case False
    then have r: "beg + int (sc_len sc) \<le> e" "e + int (sc_len sc2) \<le> glen frames" "0 < sc_len sc"
      using FindStartCode_range [OF F] by (cases sc; simp)+
    then have rec: "\<exists>st'. split_loop keep frames f e sc2 st = Some st'" for st
      using False by (intro less) linarith
    show ?thesis
      using False r rec
      by (subst split_loop.simps) (auto simp: F slice_of_def Let_def split: option.split prod.split)
  qed
qed

lemma SplitFrame_total: "\<exists>st'. SplitFrame frames f st = Some st'"
  "\<exists>st'. SplitFrameWithStartCode frames f st = Some st'"
  using FindStartCode_total [of frames 0] split_loop_total
  by (fastforce simp: SplitFrame_def SplitFrameWithStartCode_def)+

section \<open>Escaped payloads survive framing\<close>

lemma Index_001: "bytes_Index [0, 0, 1] (x # xs) = None \<longleftrightarrow>
    take 3 (x # xs) \<noteq> [0, 0, 1] \<and> bytes_Index [0, 0, 1] xs = None"
  by (auto simp: numeral_3_eq_3)

lemma emulate_no_start_code:
  "bytes_Index [0, 0, 1] (replicate (min z 2) 0 @ emulate z bs) = None"
proof (induction z bs rule: emulate.induct)
  case (1 z)
  consider "z = 0" | "z = 1" | "z \<ge> 2" by linarith
  then show ?case by cases (simp_all add: min_def numeral_2_eq_2)
next
  case (2 z b bs)
  have two: "replicate 2 0 = [0, 0 :: byte]" by (simp add: numeral_2_eq_2)
  consider "z = 0" | "z = 1" | "z \<ge> 2" "b \<le> 3" | "z \<ge> 2" "\<not> b \<le> 3" by linarith
  then show ?case
  proof cases
    case 3
    then have "bytes_Index [0, 0, 1] (b # emulate (if b = 0 then 1 else 0) bs) = None"
      using 2(1) by (cases "b = 0") (auto simp: Index_001)
    then show ?thesis using 3 by (simp add: two Index_001)
  next
    case 4
    then have "b \<noteq> 0" "b \<noteq> 1" by auto
    then show ?thesis using 2(2) 4 by (simp add: two Index_001)
  qed (use 2 in \<open>auto simp: Index_001 min_def numeral_2_eq_2 numeral_3_eq_3 split: if_splits\<close>)
qed

lemma last_emulate: "bs \<noteq> [] \<Longrightarrow> emulate z bs \<noteq> [] \<and> last (emulate z bs) = last bs"
proof (induction z bs rule: emulate.induct)
  case (2 z b bs)
  then show ?case by (cases "bs = []") auto
qed simp

lemma emulate_clean: "x \<noteq> [] \<Longrightarrow> last x \<noteq> 0 \<Longrightarrow> nal_clean (emulate 0 x)"
  using emulate_no_start_code [of 0 x] last_emulate [of x 0] by (simp add: nal_clean_def)

definition collect_sodb :: "bytes list frame_callback" where
  "collect_sodb u acc = (True, acc @ [CovertRbspToSodb u])"

lemma deliver_collect: "deliver collect_sodb us acc = acc @ map CovertRbspToSodb us"
  by (induction us arbitrary: acc) (simp_all add: collect_sodb_def)

lemma escape_frame_split:
  assumes "us \<noteq> []" and "list_all (\<lambda>u. snd u \<noteq> [] \<and> last (snd u) \<noteq> 0) us"
  shows "SplitFrame (framed (map (\<lambda>(sc, x). (sc, emulate 0 x)) us)) (Some collect_sodb) [] =
    Some (map snd us)"
proof -
  have "list_all (\<lambda>u. nal_clean (snd u)) (map (\<lambda>(sc, x). (sc, emulate 0 x)) us)"
    using assms(2) by (auto simp: list_all_iff emulate_clean)
  then have "SplitFrame (framed (map (\<lambda>(sc, x). (sc, emulate 0 x)) us)) (Some collect_sodb) [] =
      Some (map CovertRbspToSodb (map snd (map (\<lambda>(sc, x). (sc, emulate 0 x)) us)))"
    using assms(1) by (subst split_framed) (simp_all add: deliver_collect)
  also have "map CovertRbspToSodb (map snd (map (\<lambda>(sc, x). (sc, emulate 0 x)) us)) = map snd us"
    by (simp add: comp_def CovertRbspToSodb_def rbsp_emulate split: prod.split)
  finally show ?thesis .
qed

section \<open>Key frames\<close>

definition h264_type :: "bytes \<Rightarrow> int" where "h264_type u = uint (hd u AND 0x1F)"
definition h265_type :: "bytes \<Rightarrow> int" where "h265_type u = uint (drop_bit 1 (hd u) AND 0x3F)"

text \<open>The first slice decides.\<close>

lemma IsH264IDRFrame_framed:
  assumes "us \<noteq> []" and "list_all (\<lambda>u. nal_clean (snd u)) us"
  shows "IsH264IDRFrame (framed us) =
    Some (find (\<lambda>t. t \<le> 5) (map (h264_type \<circ> snd) us) = Some 5)"
proof -
  have "deliver h264_idr_callback (map snd us) False =
      (find (\<lambda>t. t \<le> 5) (map (h264_type \<circ> snd) us) = Some 5)"
    using assms(2)
    by (induction us)
      (auto simp: h264_idr_callback_def h264_type_def nal_clean_def Let_def neq_Nil_conv
        split: list.split)
  then show ?thesis by (simp add: IsH264IDRFrame_def split_framed(1) [OF assms])
qed

lemma IsH265IDRFrame_framed:
  assumes "us \<noteq> []" and "list_all (\<lambda>u. nal_clean (snd u)) us"
  shows "IsH265IDRFrame (framed us) =
    Some (\<exists>t. find IsH265VCLNaluType (map (h265_type \<circ> snd) us) = Some t \<and> 16 \<le> t)"
proof -
  have "deliver h265_idr_callback (map snd us) False =
      (\<exists>t. find IsH265VCLNaluType (map (h265_type \<circ> snd) us) = Some t \<and> 16 \<le> t)"
    using assms(2)
    by (induction us)
      (auto simp: h265_idr_callback_def h265_type_def nal_clean_def Let_def neq_Nil_conv
        IsH265VCLNaluType_def H265_NAL_SLICE_CRA_def H265_NAL_SLICE_BLA_W_LP_def
        H265_NAL_SLICE_RASL_R_def H265_NAL_Slice_TRAIL_N_def split: list.split)
  then show ?thesis by (simp add: IsH265IDRFrame_def split_framed(1) [OF assms])
qed


section \<open>Properties\<close>

text \<open>
  C3: escape any payloads that do not end in zero, frame them with start codes of either
  length, split the stream and undo the escape in the callback: the payloads come back,
  in order, nothing lost and nothing added.
\<close>

theorem escape_frame_split_unescape:
  assumes "us \<noteq> []" and "list_all (\<lambda>u. snd u \<noteq> [] \<and> last (snd u) \<noteq> 0) us"
  shows "SplitFrame (framed (map (\<lambda>(sc, x). (sc, emulate 0 x)) us)) (Some collect_sodb) [] =
    Some (map snd us)"
  using assms by (rule escape_frame_split)

theorem escape_frame_split_unescape_witness:
  "SplitFrame [0, 0, 1, 0, 0, 3, 1, 0, 0, 0, 1, 0x65, 0, 0, 3, 3] (Some collect_sodb) [] =
     Some [[0, 0, 1], [0x65, 0, 0, 3]]"
proof -
  let ?us = "[(START_CODE_3, [0, 0, 1]), (START_CODE_4, [0x65, 0, 0, 3])] :: (START_CODE_TYPE \<times> bytes) list"
  have "framed (map (\<lambda>(sc, x). (sc, emulate 0 x)) ?us) = [0, 0, 1, 0, 0, 3, 1, 0, 0, 0, 1, 0x65, 0, 0, 3, 3]"
    by code_simp
  then show ?thesis using escape_frame_split_unescape [of ?us] by simp
qed

text \<open>
  C12: both splitters call the callback with the units of the stream in order (with their
  start codes in the second one) until it asks to stop.
\<close>

theorem splitters_deliver_units:
  assumes "us \<noteq> []" and "list_all (\<lambda>u. nal_clean (snd u)) us"
  shows "SplitFrame (framed us) (Some f) st = Some (deliver f (map snd us) st) \<and>
    SplitFrameWithStartCode (framed us) (Some f) st =
      Some (deliver f (map (\<lambda>u. start_code (fst u) @ snd u) us) st)"
  by (intro conjI split_framed [OF assms])

theorem splitters_deliver_units_witness:
  "SplitFrame [0, 0, 0, 1, 0x67, 0x42, 0, 0, 1, 0x68, 0xCE] (Some (\<lambda>u st. (True, st @ [u]))) [] =
     Some [[0x67, 0x42], [0x68, 0xCE]]"
proof -
  let ?us = "[(START_CODE_4, [0x67, 0x42]), (START_CODE_3, [0x68, 0xCE])] :: (START_CODE_TYPE \<times> bytes) list"
  have "list_all (\<lambda>u. nal_clean (snd u)) ?us" "framed ?us = [0, 0, 0, 1, 0x67, 0x42, 0, 0, 1, 0x68, 0xCE]"
    by code_simp+
  then show ?thesis using splitters_deliver_units [of ?us "\<lambda>u st. (True, st @ [u])" "[]"] by simp
qed

text \<open>
  On any bytes whatever the splitters return: the search loop always moves forward and
  no slice is out of range.
\<close>

theorem splitters_always_return:
  "(\<exists>st'. SplitFrame frames f st = Some st') \<and> (\<exists>st'. SplitFrameWithStartCode frames f st = Some st')"
  by (intro conjI SplitFrame_total)

text \<open>
  a framed access unit is an IDR frame exactly when its first VCL unit is an IDR slice
  (H.264: type 5; H.265: an IRAP type), whatever parameter sets stand before it.
\<close>

theorem idr_detection:
  assumes "us \<noteq> []" and "list_all (\<lambda>u. nal_clean (snd u)) us"
  shows "IsH264IDRFrame (framed us) = Some (find (\<lambda>t. t \<le> 5) (map (h264_type \<circ> snd) us) = Some 5) \<and>
    IsH265IDRFrame (framed us) =
      Some (\<exists>t. find IsH265VCLNaluType (map (h265_type \<circ> snd) us) = Some t \<and> 16 \<le> t)"
  using IsH264IDRFrame_framed [OF assms] IsH265IDRFrame_framed [OF assms] by blast

theorem idr_detection_witness:
  "IsH264IDRFrame [0, 0, 1, 0x67, 0x42, 0, 0, 1, 0x68, 0xCE, 0, 0, 1, 0x65, 0x88] = Some True"
proof -
  let ?us = "[(START_CODE_3, [0x67, 0x42]), (START_CODE_3, [0x68, 0xCE]), (START_CODE_3, [0x65, 0x88])]
    :: (START_CODE_TYPE \<times> bytes) list"
  have "list_all (\<lambda>u. nal_clean (snd u)) ?us" "framed ?us = [0, 0, 1, 0x67, 0x42, 0, 0, 1, 0x68, 0xCE, 0, 0, 1, 0x65, 0x88]"
    "find (\<lambda>t. t \<le> 5) (map (h264_type \<circ> snd) ?us) = Some 5"
    by code_simp+
  then show ?thesis using idr_detection [of ?us] by simp
qed

end
