(* ===== verification/Crc32.thy ===== *)
theory Crc32
  imports Prelude
begin

text \<open>
  The CRC of PSI sections (\<open>crc32table\<close>, \<open>CalcCrc32\<close> in \<open>go-codec/util.go\<close>).  The code keeps
  the register byte-swapped, so that the low byte is the next one to leave; the
  reference is the bit-serial CRC-32/MPEG-2 of ISO/IEC 13818-1 Annex A.
\<close>

definition crc32table :: "u32 list" where
  "crc32table =
  [0x00000000, 0xB71DC104, 0x6E3B8209, 0xD926430D, 0xDC760413, 0x6B6BC517,
   0xB24D861A, 0x0550471E, 0xB8ED0826, 0x0FF0C922, 0xD6D68A2F, 0x61CB4B2B,
   0x649B0C35, 0xD386CD31, 0x0AA08E3C, 0xBDBD4F38, 0x70DB114C, 0xC7C6D048,
   0x1EE09345, 0xA9FD5241, 0xACAD155F, 0x1BB0D45B, 0xC2969756, 0x758B5652,
   0xC836196A, 0x7F2BD86E, 0xA60D9B63, 0x11105A67, 0x14401D79, 0xA35DDC7D,
   0x7A7B9F70, 0xCD665E74, 0xE0B62398, 0x57ABE29C, 0x8E8DA191, 0x39906095,
   0x3CC0278B, 0x8BDDE68F, 0x52FBA582, 0xE5E66486, 0x585B2BBE, 0xEF46EABA,
   0x3660A9B7, 0x817D68B3, 0x842D2FAD, 0x3330EEA9, 0xEA16ADA4, 0x5D0B6CA0,
   0x906D32D4, 0x2770F3D0, 0xFE56B0DD, 0x494B71D9, 0x4C1B36C7, 0xFB06F7C3,
   0x2220B4CE, 0x953D75CA, 0x28803AF2, 0x9F9DFBF6, 0x46BBB8FB, 0xF1A679FF,
   0xF4F63EE1, 0x43EBFFE5, 0x9ACDBCE8, 0x2DD07DEC, 0x77708634, 0xC06D4730,
   0x194B043D, 0xAE56C539, 0xAB068227, 0x1C1B4323, 0xC53D002E, 0x7220C12A,
   0xCF9D8E12, 0x78804F16, 0xA1A60C1B, 0x16BBCD1F, 0x13EB8A01, 0xA4F64B05,
   0x7DD00808, 0xCACDC90C, 0x07AB9778, 0xB0B6567C, 0x69901571, 0xDE8DD475,
   0xDBDD936B, 0x6CC0526F, 0xB5E61162, 0x02FBD066, 0xBF469F5E, 0x085B5E5A,
   0xD17D1D57, 0x6660DC53, 0x63309B4D, 0xD42D5A49, 0x0D0B1944, 0xBA16D840,
   0x97C6A5AC, 0x20DB64A8, 0xF9FD27A5, 0x4EE0E6A1, 0x4BB0A1BF, 0xFCAD60BB,
   0x258B23B6, 0x9296E2B2, 0x2F2BAD8A, 0x98366C8E, 0x41102F83, 0xF60DEE87,
   0xF35DA999, 0x4440689D, 0x9D662B90, 0x2A7BEA94, 0xE71DB4E0, 0x500075E4,
   0x892636E9, 0x3E3BF7ED, 0x3B6BB0F3, 0x8C7671F7, 0x555032FA, 0xE24DF3FE,
   0x5FF0BCC6, 0xE8ED7DC2, 0x31CB3ECF, 0x86D6FFCB, 0x8386B8D5, 0x349B79D1,
   0xEDBD3ADC, 0x5AA0FBD8, 0xEEE00C69, 0x59FDCD6D, 0x80DB8E60, 0x37C64F64,
   0x3296087A, 0x858BC97E, 0x5CAD8A73, 0xEBB04B77, 0x560D044F, 0xE110C54B,
   0x38368646, 0x8F2B4742, 0x8A7B005C, 0x3D66C158, 0xE4408255, 0x535D4351,
   0x9E3B1D25, 0x2926DC21, 0xF0009F2C, 0x471D5E28, 0x424D1936, 0xF550D832,
   0x2C769B3F, 0x9B6B5A3B, 0x26D61503, 0x91CBD407, 0x48ED970A, 0xFFF0560E,
   0xFAA01110, 0x4DBDD014, 0x949B9319, 0x2386521D, 0x0E562FF1, 0xB94BEEF5,
   0x606DADF8, 0xD7706CFC, 0xD2202BE2, 0x653DEAE6, 0xBC1BA9EB, 0x0B0668EF,
   0xB6BB27D7, 0x01A6E6D3, 0xD880A5DE, 0x6F9D64DA, 0x6ACD23C4, 0xDDD0E2C0,
   0x04F6A1CD, 0xB3EB60C9, 0x7E8D3EBD, 0xC990FFB9, 0x10B6BCB4, 0xA7AB7DB0,
   0xA2FB3AAE, 0x15E6FBAA, 0xCCC0B8A7, 0x7BDD79A3, 0xC660369B, 0x717DF79F,
   0xA85BB492, 0x1F467596, 0x1A163288, 0xAD0BF38C, 0x742DB081, 0xC3307185,
   0x99908A5D, 0x2E8D4B59, 0xF7AB0854, 0x40B6C950, 0x45E68E4E, 0xF2FB4F4A,
   0x2BDD0C47, 0x9CC0CD43, 0x217D827B, 0x9660437F, 0x4F460072, 0xF85BC176,
   0xFD0B8668, 0x4A16476C, 0x93300461, 0x242DC565, 0xE94B9B11, 0x5E565A15,
   0x87701918, 0x306DD81C, 0x353D9F02, 0x82205E06, 0x5B061D0B, 0xEC1BDC0F,
   0x51A69337, 0xE6BB5233, 0x3F9D113E, 0x8880D03A, 0x8DD09724, 0x3ACD5620,
   0xE3EB152D, 0x54F6D429, 0x7926A9C5, 0xCE3B68C1, 0x171D2BCC, 0xA000EAC8,
   0xA550ADD6, 0x124D6CD2, 0xCB6B2FDF, 0x7C76EEDB, 0xC1CBA1E3, 0x76D660E7,
   0xAFF023EA, 0x18EDE2EE, 0x1DBDA5F0, 0xAAA064F4, 0x738627F9, 0xC49BE6FD,
   0x09FDB889, 0xBEE0798D, 0x67C63A80, 0xD0DBFB84, 0xD58BBC9A, 0x62967D9E,
   0xBBB03E93, 0x0CADFF97, 0xB110B0AF, 0x060D71AB, 0xDF2B32A6, 0x6836F3A2,
   0x6D66B4BC, 0xDA7B75B8, 0x035D36B5, 0xB440F7B1]"

fun CalcCrc32 :: "u32 \<Rightarrow> bytes \<Rightarrow> u32" where
  "CalcCrc32 crc [] = crc"
| "CalcCrc32 crc (b # buffer) =
     CalcCrc32 (crc32table ! unat ((crc XOR ucast b) AND 0xff) XOR drop_bit 8 crc) buffer"

section \<open>The reference\<close>

text \<open>One bit of the division by the generator polynomial, and one byte.\<close>

definition crc_bit :: "u32 \<Rightarrow> u32" where
  "crc_bit c = (if 0x80000000 \<le> c then (2 * c) XOR 0x04C11DB7 else 2 * c)"

definition crc_byte :: "u32 \<Rightarrow> byte \<Rightarrow> u32" where
  "crc_byte c b = (crc_bit ^^ 8) (c XOR push_bit 24 (ucast b))"

definition crc32_mpeg2 :: "u32 \<Rightarrow> bytes \<Rightarrow> u32" where
  "crc32_mpeg2 c bs = foldl crc_byte c bs"

definition swap32 :: "u32 \<Rightarrow> u32" where
  "swap32 w = push_bit 24 (w AND 0xFF) XOR push_bit 8 (w AND 0xFF00)
     XOR (drop_bit 8 w AND 0xFF00) XOR drop_bit 24 w"

section \<open>The table is the reference's byte step\<close>

text \<open>
  Every step is linear over exclusive or, so a table of \<open>2 ^ k\<close> entries is spanned by \<open>k\<close>
  of them: \<open>span\<close> doubles the table once for each generator.
\<close>

definition linear :: "(u32 \<Rightarrow> u32) \<Rightarrow> bool" where
  "linear f \<longleftrightarrow> (\<forall>a b. f (a XOR b) = f a XOR f b)"

primrec span :: "u32 list \<Rightarrow> u32 list" where
  "span [] = [0]"
| "span (g # gs) = (let s = span gs in s @ map (\<lambda>x. x XOR g) s)"

lemma linear_compose: "linear f \<Longrightarrow> linear g \<Longrightarrow> linear (f \<circ> g)"
  by (simp add: linear_def)

lemma linear_0: assumes "linear f" shows "f 0 = 0"
proof -
  have "f (0 XOR 0) = f 0 XOR f 0" using assms unfolding linear_def by blast
  then show ?thesis by simp
qed

lemma top_bit: "0x80000000 \<le> (c :: u32) \<longleftrightarrow> bit c 31"
proof -
  define q where "q = unat c div 2 ^ 31"
  have "unat c < 2 * 2 ^ 31" using unsigned_less [of c] by simp
  then have "q < 2" unfolding q_def by (rule less_mult_imp_div_less)
  then have "0 < q \<longleftrightarrow> odd q" by (auto simp: less_2_cases_iff)
  then have "2 ^ 31 \<le> unat c \<longleftrightarrow> odd (unat c div 2 ^ 31)"
    by (simp add: q_def div_greater_zero_iff)
  moreover have "bit (unat c) 31 \<longleftrightarrow> bit c 31" by (simp add: bit_unsigned_iff)
  ultimately show ?thesis by (simp add: word_le_nat_alt bit_iff_odd [of "unat c"])
qed

lemma linear_crc_bit: "linear crc_bit"
proof -
  have "2 * (a XOR b) = (2 * a XOR 2 * b :: u32)" for a b
    using push_bit_xor [of 1 a b] by (simp add: push_bit_eq_mult mult.commute)
  then show ?thesis
    unfolding linear_def crc_bit_def top_bit
    by (simp add: bit_xor_iff xor.assoc xor.left_commute xor.commute)
qed

lemma linear_push: "linear (push_bit k)"
  by (simp add: linear_def push_bit_xor)

lemma linear_swap32: "linear swap32"
  unfolding linear_def swap32_def
  by (simp add: push_bit_xor drop_bit_xor bit.conj_xor_distrib2 xor.assoc xor.left_commute)

lemma linear_crc_bits: "linear (crc_bit ^^ n)"
  by (induction n) (simp_all add: linear_def linear_crc_bit [unfolded linear_def])

lemma add_power_xor:
  assumes "i < 2 ^ k" and "k < 32"
  shows "word_of_nat (i + 2 ^ k) = (word_of_nat i XOR push_bit k 1 :: u32)"
proof -
  have "\<not> bit i n" if "k \<le> n" for n
    using assms(1) that by (metis (full_types) bit_take_bit_iff leD take_bit_nat_eq_self)
  then have "word_of_nat i AND push_bit k 1 = (0 :: u32)"
    by (intro bit_word_eqI) (auto simp: bit_simps)
  then show ?thesis by (simp add: disjunctive_add_eq_xor push_bit_eq_mult)
qed

lemma span_linear:
  assumes "linear f" and "k \<le> 32"
  shows "map (\<lambda>i. f (word_of_nat i)) [0..<2 ^ k] =
    span (map (\<lambda>j. f (push_bit j 1)) (rev [0..<k]))"
  using assms(2)
proof (induction k)
  case 0
  then show ?case using linear_0 [OF assms(1)] by simp
next
  case (Suc k)
  let ?g = "\<lambda>i. f (word_of_nat i)" and ?s = "map (\<lambda>j. f (push_bit j 1)) (rev [0..<k])"
  have "[0..<2 ^ Suc k] = [0..<2 ^ k] @ map (\<lambda>i. i + 2 ^ k) [0..<2 ^ k]"
    using upt_add_eq_append [of 0 "2 ^ k" "2 ^ k"] map_add_upt [of "2 ^ k" "2 ^ k"]
    by (simp only: power_Suc mult_2 add.commute)
  then have "map ?g [0..<2 ^ Suc k] = map ?g [0..<2 ^ k] @ map (\<lambda>i. ?g (i + 2 ^ k)) [0..<2 ^ k]"
    by (simp only: map_append map_map comp_def)
  moreover have "?g (i + 2 ^ k) = ?g i XOR f (push_bit k 1)" if "i < 2 ^ k" for i
    using Suc.prems assms(1) that by (simp only: add_power_xor linear_def)
  then have "map (\<lambda>i. ?g (i + 2 ^ k)) [0..<2 ^ k] =
      map (\<lambda>x. x XOR f (push_bit k 1)) (map ?g [0..<2 ^ k])"
    by (intro nth_equalityI) (simp_all only: length_map nth_map length_upt nth_upt)
  moreover have "map ?g [0..<2 ^ k] = span ?s" using Suc by simp
  ultimately have "map ?g [0..<2 ^ Suc k] = span ?s @ map (\<lambda>x. x XOR f (push_bit k 1)) (span ?s)"
    by simp
  then show ?case by (simp only: upt_Suc rev_append list.map rev.simps append.simps span.simps
      Let_def le0 if_True)
qed

definition table_step :: "u32 \<Rightarrow> u32" where
  "table_step w = swap32 ((crc_bit ^^ 8) (push_bit 24 w))"

lemma linear_table_step: "linear table_step"
  using linear_compose [OF linear_swap32 linear_compose [OF linear_crc_bits linear_push]]
  by (simp add: comp_def table_step_def [abs_def])

lemma crc_bits_8: "(crc_bit ^^ 8) c =
    crc_bit (crc_bit (crc_bit (crc_bit (crc_bit (crc_bit (crc_bit (crc_bit c)))))))"
  by (simp add: numeral_eq_Suc)

lemma generators:
  shows "(crc_bit ^^ 8) 0x01000000 = 0x04C11DB7"
    and "(crc_bit ^^ 8) 0x02000000 = 0x09823B6E"
    and "(crc_bit ^^ 8) 0x04000000 = 0x130476DC"
    and "(crc_bit ^^ 8) 0x08000000 = 0x2608EDB8"
    and "(crc_bit ^^ 8) 0x10000000 = 0x4C11DB70"
    and "(crc_bit ^^ 8) 0x20000000 = 0x9823B6E0"
    and "(crc_bit ^^ 8) 0x40000000 = 0x34867077"
    and "(crc_bit ^^ 8) 0x80000000 = 0x690CE0EE"
  unfolding crc_bits_8 by (simp_all add: crc_bit_def)

lemma swapped_generators:
  shows "swap32 0x04C11DB7 = 0xB71DC104"
    and "swap32 0x09823B6E = 0x6E3B8209"
    and "swap32 0x130476DC = 0xDC760413"
    and "swap32 0x2608EDB8 = 0xB8ED0826"
    and "swap32 0x4C11DB70 = 0x70DB114C"
    and "swap32 0x9823B6E0 = 0xE0B62398"
    and "swap32 0x34867077 = 0x77708634"
    and "swap32 0x690CE0EE = 0xEEE00C69"
  unfolding swap32_def by simp_all

lemma table_generators: "map (\<lambda>j. table_step (push_bit j 1)) (rev [0..<8]) =
    map (\<lambda>j. crc32table ! (2 ^ j)) (rev [0..<8])"
  by (simp add: table_step_def upt_rec crc32table_def generators swapped_generators)

lemma crc32table_span: "crc32table = span (map (\<lambda>j. crc32table ! (2 ^ j)) (rev [0..<8]))"
  by (simp add: crc32table_def Let_def upt_rec)

lemma crc32table_entry:
  assumes "i < 256" shows "crc32table ! i = table_step (word_of_nat i)"
proof -
  have "map (\<lambda>i. table_step (word_of_nat i)) [0..<2 ^ 8] = crc32table"
    using span_linear [OF linear_table_step, of 8] crc32table_span
    by (simp only: table_generators)
  then have "map (\<lambda>i. table_step (word_of_nat i)) [0..<2 ^ 8] ! i = crc32table ! i" by (rule arg_cong)
  moreover have "map (\<lambda>i. table_step (word_of_nat i)) [0..<2 ^ 8] ! i = table_step (word_of_nat i)"
    using assms by (subst nth_map) simp_all
  ultimately show ?thesis by simp
qed

lemma length_crc32table: "length crc32table = 256"
  by (simp add: crc32table_def)

section \<open>The register is the reference's, byte-swapped\<close>

lemma crc_bits_small:
  assumes "n \<le> 32" and "unat y < 2 ^ (32 - n)" shows "(crc_bit ^^ n) y = push_bit n y"
  using assms
proof (induction n arbitrary: y)
  case (Suc n)
  have "(2 :: nat) ^ (32 - Suc n) \<le> 2 ^ 31" by (rule power_increasing) (use Suc.prems(1) in simp_all)
  then have y: "unat y < 2 ^ 31" using Suc.prems(2) by linarith
  then have small: "\<not> 0x80000000 \<le> y" by (simp add: word_le_nat_alt)
  have "unat (2 * y) = 2 * unat y" using y by (simp add: unat_word_ariths)
  moreover have "2 * unat y < 2 ^ (32 - n)"
  proof -
    have "32 - n = Suc (32 - Suc n)" using Suc.prems(1) by simp
    then show ?thesis using Suc.prems(2) by simp
  qed
  ultimately have "(crc_bit ^^ n) (2 * y) = push_bit n (2 * y)" using Suc by simp
  then show ?case
    using crc_bit_def [of y] small
    by (simp add: funpow_Suc_right push_bit_eq_mult del: funpow.simps)
qed simp

lemma swap32_masks: "swap32 w = push_bit 24 (w AND mask 8) XOR push_bit 8 (w AND push_bit 8 (mask 8))
     XOR (drop_bit 8 w AND push_bit 8 (mask 8)) XOR drop_bit 24 w"
  by (simp add: swap32_def mask_eq_exp_minus_1)

lemmas swap_bits = swap32_masks bit_xor_iff bit_and_iff bit_push_bit_iff bit_drop_bit_eq bit_mask_iff

lemma swap32_low: "swap32 c AND mask 8 = drop_bit 24 c"
  by (rule bit_word_eqI) (auto simp: swap_bits dest: bit_imp_le_length)

lemma swap32_shift: "swap32 (push_bit 8 c) = drop_bit 8 (swap32 c)"
proof (rule bit_word_eqI)
  fix n assume "n < LENGTH(32)"
  then consider "n < 8" | "8 \<le> n" "n < 16" | "16 \<le> n" "n < 24" | "24 \<le> n" "n < 32" by fastforce
  then show "bit (swap32 (push_bit 8 c)) n = bit (drop_bit 8 (swap32 c)) n"
    by cases (auto simp: swap_bits dest: bit_imp_le_length)
qed

lemma swap32_swap32: "swap32 (swap32 c) = c"
proof (rule bit_word_eqI)
  fix n assume "n < LENGTH(32)"
  then consider "n < 8" | "8 \<le> n" "n < 16" | "16 \<le> n" "n < 24" | "24 \<le> n" "n < 32" by fastforce
  then show "bit (swap32 (swap32 c)) n = bit c n"
    by cases (auto simp: swap_bits dest: bit_imp_le_length)
qed

lemma crc_byte_swapped:
  "crc32table ! unat ((swap32 c XOR ucast b) AND 0xff) XOR drop_bit 8 (swap32 c) = swap32 (crc_byte c b)"
proof -
  define x where "x = (swap32 c XOR ucast b) AND mask 8"
  have ff: "(0xff :: u32) = mask 8" by (simp add: mask_eq_exp_minus_1)
  have "x = take_bit 8 x" by (simp add: x_def take_bit_eq_mask)
  then have "unat x = take_bit 8 (unat x)" by (metis unsigned_take_bit_eq)
  then have x8: "unat x < 256" using take_bit_nat_less_exp [of 8 "unat x"] by simp
  have x: "x = drop_bit 24 c XOR ucast b"
    unfolding x_def bit.conj_xor_distrib2 swap32_low
    by (rule bit_word_eqI) (auto simp: bit_simps dest: bit_imp_le_length)
  let ?low = "take_bit 24 c"
  have "c XOR push_bit 24 (ucast b) = push_bit 24 x XOR ?low"
    unfolding x by (rule bit_word_eqI)
      (auto simp: bit_xor_iff bit_push_bit_iff bit_drop_bit_eq bit_take_bit_iff)
  then have "crc_byte c b = (crc_bit ^^ 8) (push_bit 24 x) XOR (crc_bit ^^ 8) ?low"
    using linear_crc_bits [of 8] by (simp only: crc_byte_def linear_def)
  also have "(crc_bit ^^ 8) ?low = push_bit 8 ?low"
    by (rule crc_bits_small) (use take_bit_nat_less_exp [of 24 "unat c"] in
      \<open>simp_all add: unsigned_take_bit_eq\<close>)
  also have "push_bit 8 ?low = push_bit 8 c"
    by (rule bit_word_eqI) (auto simp: bit_push_bit_iff bit_take_bit_iff)
  finally have "swap32 (crc_byte c b) = table_step x XOR drop_bit 8 (swap32 c)"
    using linear_swap32 by (simp only: linear_def table_step_def swap32_shift)
  then show ?thesis
    using x8 by (simp add: crc32table_entry ff x_def [symmetric])
qed

lemma CalcCrc32_swapped: "CalcCrc32 (swap32 c) bs = swap32 (crc32_mpeg2 c bs)"
  by (induction bs arbitrary: c) (simp_all add: crc32_mpeg2_def crc_byte_swapped)

text \<open>A register followed by itself, low byte first, is cleared: the receiver's test.\<close>

lemma CalcCrc32_append: "CalcCrc32 c (xs @ ys) = CalcCrc32 (CalcCrc32 c xs) ys"
  by (induction xs arbitrary: c) simp_all

lemma crc32table_0: "crc32table ! 0 = 0"
  by (simp add: crc32table_def)

lemma self_step:
  "CalcCrc32 w (ucast w # bs) = CalcCrc32 (drop_bit 8 w) bs"
proof -
  have "(w XOR ucast (ucast w :: byte)) AND mask 8 = 0"
    by (rule bit_word_eqI) (auto simp: bit_simps)
  then show ?thesis by (simp add: mask_eq_exp_minus_1 crc32table_0)
qed

lemma CalcCrc32_self: "CalcCrc32 w (le32 w) = 0"
proof -
  have "le32 w = [ucast w, ucast (drop_bit 8 w), ucast (drop_bit 8 (drop_bit 8 w)),
      ucast (drop_bit 8 (drop_bit 8 (drop_bit 8 w)))]"
    by (simp add: le32_def be32_def)
  moreover have "drop_bit 8 (drop_bit 8 (drop_bit 8 (drop_bit 8 w))) = 0"
    by (rule bit_word_eqI) (auto simp: bit_simps dest: bit_imp_le_length)
  ultimately show ?thesis by (simp only: self_step CalcCrc32.simps(1))
qed

section \<open>Properties\<close>

text \<open>
  C10: the table-driven checksum is the bit-by-bit CRC of MPEG-2 (polynomial \<open>04C11DB7\<close>, no
  reflection), with the register kept byte-swapped: for every start value and every input.
\<close>

theorem CalcCrc32_is_mpeg2:
  "CalcCrc32 (swap32 c) bs = swap32 (crc32_mpeg2 c bs)"
  by (rule CalcCrc32_swapped)

text \<open>
  A section followed by its own checksum, low byte first as the multiplexer writes it,
  has checksum zero: what a receiver tests.
\<close>

theorem checksum_of_checked_section:
  "CalcCrc32 c (sec @ le32 (CalcCrc32 c sec)) = 0"
  by (simp add: CalcCrc32_append CalcCrc32_self)

end
