(* ===== verification/Aac.thy ===== *)
theory Aac
  imports AnnexB
begin

text \<open>
  AAC framing, \<open>go-codec/aac.go\<close>: the ADTS header, the AudioSpecificConfig of the MPEG-4
  containers, the conversions between them, and \<open>SplitAACFrame\<close> of \<open>go-codec/util.go\<close>.
\<close>

datatype aac_error = AdtsShort | AscShort | FrameShort | AdtsTruncated | BadFrameLength | FrameTruncated

definition AAC_Sampling_Idx :: "int list" where
  "AAC_Sampling_Idx = [96000, 88200, 64000, 48000, 44100, 32000, 24000, 22050, 16000, 12000,
     11025, 8000, 7350]"

record ADTS_Fix_Header =
  ID :: byte
  Layer :: byte
  Protection_absent :: byte
  Profile :: byte
  Sampling_frequency_index :: byte
  Private_bit :: byte
  Channel_configuration :: byte
  Originalorcopy :: byte
  Home :: byte

record ADTS_Variable_Header =
  Copyright_identification_bit :: byte
  copyright_identification_start :: byte
  Frame_length :: u16
  Adts_buffer_fullness :: u16
  Number_of_raw_data_blocks_in_frame :: byte

record ADTS_Frame_Header =
  Fix_Header :: ADTS_Fix_Header
  Variable_Header :: ADTS_Variable_Header

definition NewAdtsFrameHeader :: ADTS_Frame_Header where
  "NewAdtsFrameHeader =
     \<lparr>Fix_Header = \<lparr>ID = 0, Layer = 0, Protection_absent = 1, Profile = 0,
        Sampling_frequency_index = 4, Private_bit = 0, Channel_configuration = 0,
        Originalorcopy = 0, Home = 0\<rparr>,
      Variable_Header = \<lparr>Copyright_identification_bit = 0, copyright_identification_start = 0,
        Frame_length = 0, Adts_buffer_fullness = 0, Number_of_raw_data_blocks_in_frame = 0\<rparr>\<rparr>"

text \<open>
  \<open>&\<close>, \<open><<\<close> and \<open>>>\<close> have one precedence in Go and associate to the left.  \<open>Decode\<close> sets every
  field, so the old header does not show in the result.
\<close>

definition ADTS_Decode :: "bytes \<Rightarrow> (aac_error + ADTS_Frame_Header) option" where
  "ADTS_Decode aac =
     (if length aac < 7 then Some (Inl AdtsShort)
      else do {
        a1 \<leftarrow> idx aac 1;
        a2 \<leftarrow> idx aac 2;
        a3 \<leftarrow> idx aac 3;
        a4 \<leftarrow> idx aac 4;
        a5 \<leftarrow> idx aac 5;
        a6 \<leftarrow> idx aac 6;
        Some (Inr \<lparr>Fix_Header = \<lparr>
            ID = drop_bit 3 a1,
            Layer = drop_bit 1 a1 AND 0x03,
            Protection_absent = a1 AND 0x01,
            Profile = drop_bit 6 a2 AND 0x03,
            Sampling_frequency_index = drop_bit 2 a2 AND 0x0F,
            Private_bit = drop_bit 1 a2 AND 0x01,
            Channel_configuration = push_bit 2 (a2 AND 0x01) OR drop_bit 6 a3,
            Originalorcopy = drop_bit 5 a3 AND 0x01,
            Home = drop_bit 4 a3 AND 0x01\<rparr>,
          Variable_Header = \<lparr>
            Copyright_identification_bit = drop_bit 3 a3 AND 0x01,
            copyright_identification_start = drop_bit 2 a3 AND 0x01,
            Frame_length = push_bit 11 (ucast (a3 AND 0x03)) OR push_bit 3 (ucast a4) OR
              (ucast (drop_bit 5 a5) AND 0x07),
            Adts_buffer_fullness = push_bit 6 (ucast (a5 AND 0x1F)) OR ucast (drop_bit 2 a6),
            Number_of_raw_data_blocks_in_frame = a6 AND 0x03\<rparr>\<rparr>)
      })"

definition ADTS_Encode :: "ADTS_Frame_Header \<Rightarrow> bytes" where
  "ADTS_Encode frame =
     (let f = Fix_Header frame; v = Variable_Header frame;
          h1 = 0xF0 OR push_bit 3 (ID f) OR push_bit 1 (Layer f) OR Protection_absent f;
          h2 = push_bit 6 (Profile f) OR push_bit 2 (Sampling_frequency_index f)
            OR push_bit 1 (Private_bit f) OR drop_bit 2 (Channel_configuration f);
          h3 = push_bit 6 (Channel_configuration f) OR push_bit 5 (Originalorcopy f)
            OR push_bit 4 (Home f);
          h3' = h3 OR push_bit 3 (Copyright_identification_bit v)
            OR push_bit 2 (copyright_identification_start v)
            OR (ucast (drop_bit 11 (Frame_length v)) AND 0x03);
          h4 = ucast (drop_bit 3 (Frame_length v));
          h5 = ucast (push_bit 5 (Frame_length v AND 0x07))
            OR (ucast (drop_bit 6 (Adts_buffer_fullness v)) AND 0x1F);
          h6 = push_bit 2 (ucast (Adts_buffer_fullness v AND 0x3F))
            OR (Number_of_raw_data_blocks_in_frame v AND 0x03)
      in [0xFF, h1, h2, h3', h4, h5, h6] @ (if Protection_absent f = 1 then [] else [0, 0]))"

fun find_index_from :: "nat \<Rightarrow> int list \<Rightarrow> int \<Rightarrow> int" where
  "find_index_from i [] sampling = - 1"
| "find_index_from i (v # vs) sampling =
     (if v = sampling then int i else find_index_from (i + 1) vs sampling)"

definition SampleToAACSampleIndex :: "int \<Rightarrow> int" where
  "SampleToAACSampleIndex sampling = find_index_from 0 AAC_Sampling_Idx sampling"

definition AACSampleIdxToSample :: "int \<Rightarrow> int option" where
  "AACSampleIdxToSample i =
     (if i < 0 \<or> i \<ge> glen AAC_Sampling_Idx then Some 0 else idx AAC_Sampling_Idx i)"

section \<open>AudioSpecificConfig\<close>

record AudioSpecificConfiguration =
  Audio_object_type :: byte
  Sample_freq_index :: byte
  asc_Channel_configuration :: byte
  GA_framelength_flag :: byte
  GA_depends_on_core_coder :: byte
  GA_extension_flag :: byte

definition NewAudioSpecificConfiguration :: AudioSpecificConfiguration where
  "NewAudioSpecificConfiguration = \<lparr>Audio_object_type = 0, Sample_freq_index = 0,
     asc_Channel_configuration = 0, GA_framelength_flag = 0, GA_depends_on_core_coder = 0,
     GA_extension_flag = 0\<rparr>"

definition ASC_Encode :: "AudioSpecificConfiguration \<Rightarrow> bytes" where
  "ASC_Encode asc =
     [push_bit 3 (Audio_object_type asc AND 0x1f) OR drop_bit 1 (Sample_freq_index asc AND 0x0F),
      push_bit 7 (Sample_freq_index asc AND 0x0F) OR push_bit 3 (asc_Channel_configuration asc AND 0x0F)
        OR push_bit 2 (GA_framelength_flag asc AND 0x01)
        OR push_bit 1 (GA_depends_on_core_coder asc AND 0x01) OR (GA_extension_flag asc AND 0x01)]"

definition ASC_Decode :: "bytes \<Rightarrow> (aac_error + AudioSpecificConfiguration) option" where
  "ASC_Decode buf =
     (if length buf < 2 then Some (Inl AscShort)
      else do {
        b0 \<leftarrow> idx buf 0;
        b1 \<leftarrow> idx buf 1;
        Some (Inr \<lparr>Audio_object_type = drop_bit 3 b0,
          Sample_freq_index = push_bit 1 (b0 AND 0x07) OR drop_bit 7 b1,
          asc_Channel_configuration = drop_bit 3 b1 AND 0x0F,
          GA_framelength_flag = drop_bit 2 b1 AND 0x01,
          GA_depends_on_core_coder = drop_bit 1 b1 AND 0x01,
          GA_extension_flag = b1 AND 0x01\<rparr>)
      })"

definition ConvertADTSToASC :: "bytes \<Rightarrow> (aac_error + AudioSpecificConfiguration) option" where
  "ConvertADTSToASC frame =
     (if length frame < 7 then Some (Inl FrameShort)
      else do {
        r \<leftarrow> ADTS_Decode frame;
        Some (case r of
            Inl e \<Rightarrow> Inl e
          | Inr adts \<Rightarrow> Inr (NewAudioSpecificConfiguration
              \<lparr>Audio_object_type := Profile (Fix_Header adts) + 1,
               asc_Channel_configuration := Channel_configuration (Fix_Header adts),
               Sample_freq_index := Sampling_frequency_index (Fix_Header adts)\<rparr>))
      })"

definition ConvertASCToADTS :: "bytes \<Rightarrow> int \<Rightarrow> (aac_error + ADTS_Frame_Header) option" where
  "ConvertASCToADTS asc aacbytes = do {
     r \<leftarrow> ASC_Decode asc;
     Some (case r of
         Inl e \<Rightarrow> Inl e
       | Inr c \<Rightarrow> Inr (NewAdtsFrameHeader
           \<lparr>Fix_Header := (Fix_Header NewAdtsFrameHeader)
              \<lparr>Profile := Audio_object_type c - 1,
               Channel_configuration := asc_Channel_configuration c,
               Sampling_frequency_index := Sample_freq_index c,
               Protection_absent := 1\<rparr>,
            Variable_Header := (Variable_Header NewAdtsFrameHeader)
              \<lparr>Adts_buffer_fullness := 0x7FF, Frame_length := word_of_int aacbytes\<rparr>\<rparr>))
   }"

section \<open>Headers survive encoding\<close>

text \<open>Every field in its range; the decoder's \<open>ID\<close> is the exception, see below.\<close>

definition adts_ok :: "ADTS_Frame_Header \<Rightarrow> bool" where
  "adts_ok h \<longleftrightarrow>
     (let f = Fix_Header h; v = Variable_Header h in
      fits 1 (ID f) \<and> fits 2 (Layer f) \<and> fits 1 (Protection_absent f) \<and> fits 2 (Profile f) \<and>
      fits 4 (Sampling_frequency_index f) \<and> fits 1 (Private_bit f) \<and>
      fits 3 (Channel_configuration f) \<and> fits 1 (Originalorcopy f) \<and> fits 1 (Home f) \<and>
      fits 1 (Copyright_identification_bit v) \<and> fits 1 (copyright_identification_start v) \<and>
      fits 13 (Frame_length v) \<and> fits 11 (Adts_buffer_fullness v) \<and>
      fits 2 (Number_of_raw_data_blocks_in_frame v))"

definition asc_ok :: "AudioSpecificConfiguration \<Rightarrow> bool" where
  "asc_ok c \<longleftrightarrow> fits 5 (Audio_object_type c) \<and> fits 4 (Sample_freq_index c) \<and>
     fits 4 (asc_Channel_configuration c) \<and> fits 1 (GA_framelength_flag c) \<and>
     fits 1 (GA_depends_on_core_coder c) \<and> fits 1 (GA_extension_flag c)"

lemmas field_bits = bit_or_iff bit_and_iff bit_push_bit_iff bit_drop_bit_eq bit_ucast_iff fits_bit
  bit_word_double numeral_2_eq_2 [symmetric]

lemma ADTS_Decode_Encode:
  assumes "adts_ok h"
  shows "ADTS_Decode (ADTS_Encode h @ r) =
    Some (Inr (h\<lparr>Fix_Header := (Fix_Header h)\<lparr>ID := 0x1E OR ID (Fix_Header h)\<rparr>\<rparr>))"
proof -
  let ?f = "Fix_Header h" and ?v = "Variable_Header h"
  have len: "\<not> length (ADTS_Encode h @ r) < 7" by (simp add: ADTS_Encode_def Let_def)
  show ?thesis
    using assms unfolding adts_ok_def Let_def
    apply (elim conjE)
    apply (simp add: ADTS_Decode_def len)
    apply (simp add: ADTS_Encode_def Let_def idx_def)
    apply (rule ADTS_Frame_Header.equality)
      apply (simp_all)
     apply (rule ADTS_Fix_Header.equality; simp)
            apply (intro byte_eqI; simp add: field_bits)+
    apply (rule ADTS_Variable_Header.equality; simp)
        apply (intro byte_eqI u16_eqI; simp add: field_bits)+
    done
qed

lemma ASC_Decode_Encode:
  assumes "asc_ok c" shows "ASC_Decode (ASC_Encode c @ r) = Some (Inr c)"
  using assms unfolding asc_ok_def
  apply (elim conjE)
  apply (simp add: ASC_Decode_def ASC_Encode_def idx_def)
  apply (rule AudioSpecificConfiguration.equality; simp)
       apply (intro byte_eqI; simp add: field_bits)+
  done

text \<open>A seven-byte header with the syncword is reproduced from what the decoder keeps of it.\<close>

lemma byte_bit_high: "8 \<le> n \<Longrightarrow> \<not> bit b n" for b :: byte
  by (auto dest: bit_imp_le_length)

lemma ADTS_Encode_Decode:
  assumes "length hdr = 7" and "hdr ! 0 = 0xFF" and "hdr ! 1 AND 0xF0 = 0xF0" and "bit (hdr ! 1) 0"
  shows "\<exists>h. ADTS_Decode (hdr @ r) = Some (Inr h) \<and> ADTS_Encode h = hdr"
proof -
  obtain a0 a1 a2 a3 a4 a5 a6 where hdr: "hdr = [a0, a1, a2, a3, a4, a5, a6]"
    using assms(1) by (auto simp: numeral_eq_Suc length_Suc_conv)
  have "bit (a1 AND 0xF0) k = bit (0xF0 :: byte) k" for k using assms(3) hdr by simp
  from this [of 4] this [of 5] this [of 6] this [of 7]
  have high: "bit a1 4" "bit a1 5" "bit a1 6" "bit a1 7" by (simp_all add: bit_and_iff)
  have low: "bit a1 0" "a0 = 0xFF" using assms hdr by simp_all
  have "a1 AND 1 = 1" by (rule byte_eqI) (simp_all add: bit_and_iff low bit_1_iff)
  then show ?thesis
    apply (simp add: hdr ADTS_Decode_def ADTS_Encode_def Let_def idx_def low(2))
    apply (intro conjI byte_eqI; simp add: field_bits high low byte_bit_high)
    done
qed

section \<open>Conversions\<close>

lemma ConvertADTSToASC_Encode:
  assumes "adts_ok h"
  shows "ConvertADTSToASC (ADTS_Encode h @ r) =
    Some (Inr \<lparr>Audio_object_type = Profile (Fix_Header h) + 1,
      Sample_freq_index = Sampling_frequency_index (Fix_Header h),
      asc_Channel_configuration = Channel_configuration (Fix_Header h),
      GA_framelength_flag = 0, GA_depends_on_core_coder = 0, GA_extension_flag = 0\<rparr>)"
proof -
  have "\<not> length (ADTS_Encode h @ r) < 7" by (simp add: ADTS_Encode_def Let_def)
  then show ?thesis
    using ADTS_Decode_Encode [OF assms, of r]
    by (simp add: ConvertADTSToASC_def NewAudioSpecificConfiguration_def)
qed

text \<open>An ADTS header turned into an AudioSpecificConfig and back keeps the stream parameters.\<close>

lemma ADTS_ASC_ADTS:
  assumes "adts_ok h"
  shows "\<exists>c g. ConvertADTSToASC (ADTS_Encode h @ r) = Some (Inr c) \<and>
    ConvertASCToADTS (ASC_Encode c) n = Some (Inr g) \<and>
    Profile (Fix_Header g) = Profile (Fix_Header h) \<and>
    Sampling_frequency_index (Fix_Header g) = Sampling_frequency_index (Fix_Header h) \<and>
    Channel_configuration (Fix_Header g) = Channel_configuration (Fix_Header h) \<and>
    Frame_length (Variable_Header g) = word_of_int n"
proof -
  define c where "c = \<lparr>Audio_object_type = Profile (Fix_Header h) + 1,
      Sample_freq_index = Sampling_frequency_index (Fix_Header h),
      asc_Channel_configuration = Channel_configuration (Fix_Header h),
      GA_framelength_flag = 0, GA_depends_on_core_coder = 0, GA_extension_flag = 0\<rparr>"
  have "fits 2 (Profile (Fix_Header h))" "fits 4 (Sampling_frequency_index (Fix_Header h))"
    "fits 3 (Channel_configuration (Fix_Header h))"
    using assms by (simp_all add: adts_ok_def Let_def)
  then have "unat (Profile (Fix_Header h)) < 4" "unat (Channel_configuration (Fix_Header h)) < 8"
    by (auto dest: fits_less)
  then have "fits 5 (Profile (Fix_Header h) + 1)" "fits 4 (Channel_configuration (Fix_Header h))"
    by (auto intro!: less_fits simp: unat_word_ariths)
  then have "asc_ok c"
    using \<open>fits 4 (Sampling_frequency_index (Fix_Header h))\<close>
    by (simp add: asc_ok_def c_def) (simp add: fits_def)
  then have "ASC_Decode (ASC_Encode c) = Some (Inr c)"
    using ASC_Decode_Encode [of c "[]"] by simp
  then show ?thesis
    using ConvertADTSToASC_Encode [OF assms, of r]
    by (simp add: ConvertASCToADTS_def c_def)
qed

lemma sampling_index_round_trip:
  "AACSampleIdxToSample (SampleToAACSampleIndex f) =
     Some (if f \<in> set AAC_Sampling_Idx then f else 0)"
  by (simp add: AACSampleIdxToSample_def SampleToAACSampleIndex_def AAC_Sampling_Idx_def idx_def)

section \<open>Splitting an ADTS stream\<close>

function FindSyncword :: "bytes \<Rightarrow> int \<Rightarrow> int option" where
  "FindSyncword aac i =
     (if i < glen aac - 1 then do {
        a \<leftarrow> idx aac i;
        b \<leftarrow> idx aac (i + 1);
        if a = 0xFF \<and> b AND 0xF0 = 0xF0 then Some i else FindSyncword aac (i + 1)
      }
      else Some (- 1))"
  by pat_completeness auto
termination
  by (relation "measure (\<lambda>(aac, i). nat (glen aac - i))") auto

declare FindSyncword.simps [simp del]

lemma FindSyncword_range:
  "FindSyncword aac i = Some p \<Longrightarrow> p = - 1 \<or> i \<le> p \<and> p < glen aac - 1"
proof (induction aac i rule: FindSyncword.induct)
  case (1 aac i)
  show ?case
    using "1.prems" "1.IH" unfolding FindSyncword.simps [of aac i]
    by (force simp: Option.bind_eq_Some_conv split: if_splits)
qed

text \<open>The result is the error, if any, and the callback's state.\<close>

function SplitAACFrame_loop :: "bytes \<Rightarrow> (bytes \<Rightarrow> 's \<Rightarrow> 's) option \<Rightarrow> int \<Rightarrow> 's
    \<Rightarrow> (aac_error option \<times> 's) option" where
  "SplitAACFrame_loop frames onFrame start st =
     (if start < 0 then Some (None, st)
      else if start + 7 > glen frames then Some (Some AdtsTruncated, st)
      else do {
        rest \<leftarrow> slice_from frames start;
        r \<leftarrow> ADTS_Decode rest;
        (case r of
           Inl e \<Rightarrow> Some (Some e, st)
         | Inr adts \<Rightarrow>
             let frameLen = uint (Frame_length (Variable_Header adts)) in
             if frameLen < 7 then Some (Some BadFrameLength, st)
             else if start + frameLen > glen frames then Some (Some FrameTruncated, st)
             else do {
               frame \<leftarrow> slice_of frames start (start + frameLen);
               let st' = (case onFrame of Some f \<Rightarrow> f frame st | None \<Rightarrow> st);
               start' \<leftarrow> FindSyncword frames (start + frameLen);
               SplitAACFrame_loop frames onFrame start' st'
             })
      })"
  by pat_completeness auto
termination
  by (relation "measure (\<lambda>(frames, f, start, st).
      if start < 0 then 0 else Suc (nat (glen frames - start)))")
    (auto dest!: FindSyncword_range)

declare SplitAACFrame_loop.simps [simp del]

definition SplitAACFrame :: "bytes \<Rightarrow> (bytes \<Rightarrow> 's \<Rightarrow> 's) option \<Rightarrow> 's
    \<Rightarrow> (aac_error option \<times> 's) option" where
  "SplitAACFrame frames onFrame st = do {
     start \<leftarrow> FindSyncword frames 0;
     SplitAACFrame_loop frames onFrame start st
   }"

text \<open>A frame whose header gives its own length.\<close>

definition aac_frame_ok :: "ADTS_Frame_Header \<times> bytes \<Rightarrow> bool" where
  "aac_frame_ok x \<longleftrightarrow> adts_ok (fst x) \<and>
     uint (Frame_length (Variable_Header (fst x))) = glen (ADTS_Encode (fst x)) + glen (snd x)"

definition aac_frame :: "ADTS_Frame_Header \<times> bytes \<Rightarrow> bytes" where
  "aac_frame x = ADTS_Encode (fst x) @ snd x"

lemma ADTS_Encode_syncword:
  "\<exists>b r. ADTS_Encode h = 0xFF # b # r \<and> b AND 0xF0 = 0xF0 \<and> 5 \<le> length r"
proof -
  have "(0xF0 OR x) AND 0xF0 = (0xF0 :: byte)" for x
    by (rule byte_eqI) (simp_all add: bit_and_iff bit_or_iff)
  then show ?thesis by (simp add: ADTS_Encode_def Let_def or.assoc)
qed

lemma FindSyncword_here:
  "FindSyncword (pre @ aac_frame x @ r) (glen pre) = Some (glen pre)"
proof -
  obtain b q where "ADTS_Encode (fst x) = 0xFF # b # q" "b AND 0xF0 = 0xF0"
    using ADTS_Encode_syncword by blast
  then show ?thesis
    by (subst FindSyncword.simps) (simp add: aac_frame_def idx_def nth_append nat_add_distrib)
qed

lemma FindSyncword_end: "FindSyncword xs (glen xs) = Some (- 1)"
  by (subst FindSyncword.simps) simp

lemma SplitAACFrame_step:
  assumes "aac_frame_ok x"
  shows "SplitAACFrame_loop (pre @ aac_frame x @ r) (Some f) (glen pre) st =
    do { start \<leftarrow> FindSyncword ((pre @ aac_frame x) @ r) (glen (pre @ aac_frame x));
      SplitAACFrame_loop ((pre @ aac_frame x) @ r) (Some f) start (f (aac_frame x) st) }"
proof -
  have "adts_ok (fst x)" using assms by (simp add: aac_frame_ok_def)
  from ADTS_Decode_Encode [OF this, of "snd x @ r"]
  obtain g where g: "ADTS_Decode (aac_frame x @ r) = Some (Inr g)"
    "Variable_Header g = Variable_Header (fst x)"
    by (simp add: aac_frame_def)
  have len: "uint (Frame_length (Variable_Header (fst x))) = glen (aac_frame x)"
    using assms by (simp add: aac_frame_ok_def aac_frame_def)
  have "7 \<le> length (aac_frame x)" by (simp add: aac_frame_def ADTS_Encode_def Let_def)
  then show ?thesis
    by (subst SplitAACFrame_loop.simps)
      (simp add: slice_from_def slice_of_def g len Let_def nat_add_distrib)
qed

lemma SplitAACFrame_loop_frames:
  assumes "aac_frame_ok x" and "list_all aac_frame_ok xs"
  shows "SplitAACFrame_loop (pre @ concat (map aac_frame (x # xs))) (Some f) (glen pre) st =
    Some (None, fold f (map aac_frame (x # xs)) st)"
  using assms
proof (induction xs arbitrary: pre x st)
  case Nil
  then show ?case
    using SplitAACFrame_step [of x pre "[]" f st] FindSyncword_end [of "pre @ aac_frame x"]
    by (simp add: SplitAACFrame_loop.simps [of _ _ "- 1"])
next
  case (Cons y ys)
  then show ?case
    using SplitAACFrame_step [of x pre "concat (map aac_frame (y # ys))" f st]
      Cons.IH [of y "pre @ aac_frame x" "f (aac_frame x) st"]
      FindSyncword_here [of "pre @ aac_frame x" y "concat (map aac_frame ys)"]
    by simp
qed

text \<open>A stream of well-formed frames is split into exactly those frames, without an error.\<close>

lemma SplitAACFrame_frames:
  assumes "xs \<noteq> []" and "list_all aac_frame_ok xs"
  shows "SplitAACFrame (concat (map aac_frame xs)) (Some f) st =
    Some (None, fold f (map aac_frame xs) st)"
proof -
  obtain y ys where xs: "xs = y # ys" using assms(1) by (cases xs) auto
  show ?thesis
    using SplitAACFrame_loop_frames [of y ys "[]" f st] assms(2)
      FindSyncword_here [of "[]" y "concat (map aac_frame ys)"]
    by (simp add: SplitAACFrame_def xs)
qed

lemma FindSyncword_total: "0 \<le> i \<Longrightarrow> \<exists>p. FindSyncword aac i = Some p"
proof (induction aac i rule: FindSyncword.induct)
  case (1 aac i)
  then show ?case by (subst FindSyncword.simps) (auto simp: idx_def)
qed

lemma ADTS_Decode_total: "\<exists>r. ADTS_Decode aac = Some r"
  by (auto simp: ADTS_Decode_def idx_def)

lemma SplitAACFrame_loop_total: "\<exists>r. SplitAACFrame_loop frames f start st = Some r"
proof (induction "if start < 0 then 0 else Suc (nat (glen frames - start))"
    arbitrary: start st rule: less_induct)
  case less
  show ?case
  proof (cases "start < 0 \<or> start + 7 > glen frames")
    case True
    then show ?thesis by (subst SplitAACFrame_loop.simps) auto
  next
    case False
    define rest where "rest = drop (nat start) frames"
    obtain r where d: "slice_from frames start = Some rest" "ADTS_Decode rest = Some r"
      using False ADTS_Decode_total [of rest] by (auto simp: slice_from_def rest_def)
    show ?thesis
    proof (cases r)
      case (Inl e)
      then show ?thesis using False d by (subst SplitAACFrame_loop.simps) simp
    next
      case (Inr adts)
      let ?n = "uint (Frame_length (Variable_Header adts))"
      show ?thesis
      proof (cases "?n < 7 \<or> start + ?n > glen frames")
        case True
        then show ?thesis using False d Inr by (subst SplitAACFrame_loop.simps) (auto simp: Let_def)
      next
        case bounded: False
        then obtain p where p: "FindSyncword frames (start + ?n) = Some p"
          using False FindSyncword_total [of "start + ?n" frames] by auto
        have "\<exists>r. SplitAACFrame_loop frames f p st' = Some r" for st'
          using FindSyncword_range [OF p] False bounded by (intro less) auto
        then show ?thesis
          using False bounded d Inr p
          by (subst SplitAACFrame_loop.simps) (auto simp: Let_def slice_of_def)
      qed
    qed
  qed
qed

lemma SplitAACFrame_total: "\<exists>r. SplitAACFrame frames f st = Some r"
  using FindSyncword_total [of 0 frames] SplitAACFrame_loop_total [of frames f]
  by (auto simp: SplitAACFrame_def)

section \<open>Properties\<close>

text \<open>
  An ADTS header is read back from what is written, whatever follows it, except \<open>ID\<close>:
  the decoder shifts the second byte by three and keeps the four bits of the syncword.
\<close>

theorem ADTS_header_decode_encode:
  assumes "adts_ok h"
  shows "ADTS_Decode (ADTS_Encode h @ r) =
    Some (Inr (h\<lparr>Fix_Header := (Fix_Header h)\<lparr>ID := 0x1E OR ID (Fix_Header h)\<rparr>\<rparr>))"
  using assms by (rule ADTS_Decode_Encode)

definition sample_header :: ADTS_Frame_Header where
  "sample_header = \<lparr>Fix_Header = \<lparr>ID = 0, Layer = 0, Protection_absent = 1, Profile = 1,
       Sampling_frequency_index = 4, Private_bit = 0, Channel_configuration = 2, Originalorcopy = 0,
       Home = 0\<rparr>,
     Variable_Header = \<lparr>Copyright_identification_bit = 0, copyright_identification_start = 0,
       Frame_length = 9, Adts_buffer_fullness = 0x7FF, Number_of_raw_data_blocks_in_frame = 0\<rparr>\<rparr>"

theorem ADTS_header_decode_encode_witness:
  "ADTS_Decode [0xFF, 0xF1, 0x50, 0x80, 0x01, 0x3F, 0xFC] =
     Some (Inr (sample_header\<lparr>Fix_Header := (Fix_Header sample_header)\<lparr>ID := 0x1E\<rparr>\<rparr>))"
proof -
  have "adts_ok sample_header" "ADTS_Encode sample_header = [0xFF, 0xF1, 0x50, 0x80, 0x01, 0x3F, 0xFC]"
    "0x1E OR ID (Fix_Header sample_header) = 0x1E" by code_simp+
  then show ?thesis using ADTS_header_decode_encode [of sample_header "[]"] by simp
qed

text \<open>
  seven bytes with the syncword and no checksum are decoded and written back unchanged:
  no field of the header is lost.
\<close>

theorem ADTS_header_encode_decode:
  assumes "length hdr = 7" and "hdr ! 0 = 0xFF" and "hdr ! 1 AND 0xF0 = 0xF0" and "bit (hdr ! 1) 0"
  shows "\<exists>h. ADTS_Decode (hdr @ r) = Some (Inr h) \<and> ADTS_Encode h = hdr"
  using assms by (rule ADTS_Encode_Decode)

theorem ADTS_header_encode_decode_witness:
  "\<exists>h. ADTS_Decode [0xFF, 0xF1, 0x50, 0x80, 0x01, 0x3F, 0xFC, 0x21] = Some (Inr h) \<and>
     ADTS_Encode h = [0xFF, 0xF1, 0x50, 0x80, 0x01, 0x3F, 0xFC]"
proof -
  have "(0xF1 :: byte) AND 0xF0 = 0xF0" "bit (0xF1 :: byte) 0" by code_simp+
  then show ?thesis
    using ADTS_header_encode_decode [of "[0xFF, 0xF1, 0x50, 0x80, 0x01, 0x3F, 0xFC]" "[0x21]"] by simp
qed

text \<open>An AudioSpecificConfig is read back from what is written.\<close>

theorem ASC_decode_encode:
  assumes "asc_ok c" shows "ASC_Decode (ASC_Encode c @ r) = Some (Inr c)"
  using assms by (rule ASC_Decode_Encode)

theorem ASC_decode_encode_witness:
  "ASC_Decode [0x12, 0x10] = Some (Inr \<lparr>Audio_object_type = 2, Sample_freq_index = 4,
     asc_Channel_configuration = 2, GA_framelength_flag = 0, GA_depends_on_core_coder = 0,
     GA_extension_flag = 0\<rparr>)" (is "_ = Some (Inr ?c)")
proof -
  have "asc_ok ?c" "ASC_Encode ?c = [0x12, 0x10]" by code_simp+
  then show ?thesis using ASC_decode_encode [of ?c "[]"] by simp
qed

text \<open>
  C13: a stream converted from ADTS to MP4 and back keeps profile, sampling rate and channels,
  and the frame length of the new header is the one asked for.
\<close>

theorem ADTS_to_ASC_and_back:
  assumes "adts_ok h"
  shows "\<exists>c g. ConvertADTSToASC (ADTS_Encode h @ r) = Some (Inr c) \<and>
    ConvertASCToADTS (ASC_Encode c) n = Some (Inr g) \<and>
    Profile (Fix_Header g) = Profile (Fix_Header h) \<and>
    Sampling_frequency_index (Fix_Header g) = Sampling_frequency_index (Fix_Header h) \<and>
    Channel_configuration (Fix_Header g) = Channel_configuration (Fix_Header h) \<and>
    Frame_length (Variable_Header g) = word_of_int n"
  using assms by (rule ADTS_ASC_ADTS)

theorem ADTS_to_ASC_and_back_witness:
  "\<exists>c g. ConvertADTSToASC [0xFF, 0xF1, 0x50, 0x80, 0x01, 0x3F, 0xFC] = Some (Inr c) \<and>
    ConvertASCToADTS (ASC_Encode c) 100 = Some (Inr g) \<and> Sampling_frequency_index (Fix_Header g) = 4"
proof -
  have "adts_ok sample_header" "ADTS_Encode sample_header = [0xFF, 0xF1, 0x50, 0x80, 0x01, 0x3F, 0xFC]"
    "Sampling_frequency_index (Fix_Header sample_header) = 4" by code_simp+
  then show ?thesis using ADTS_to_ASC_and_back [of sample_header "[]" 100] by auto
qed

text \<open>
  C11: a stream of ADTS frames whose headers carry their length is split into exactly those
  frames, in order, and any other bytes are split without a panic.
\<close>

theorem ADTS_stream_is_split:
  "(xs \<noteq> [] \<and> list_all aac_frame_ok xs \<longrightarrow>
      SplitAACFrame (concat (map aac_frame xs)) (Some f) st = Some (None, fold f (map aac_frame xs) st)) \<and>
   (\<exists>r. SplitAACFrame frames g st = Some r)"
  by (intro conjI impI SplitAACFrame_frames SplitAACFrame_total) simp_all

theorem ADTS_stream_is_split_witness:
  "SplitAACFrame [0xFF, 0xF1, 0x50, 0x80, 0x01, 0x3F, 0xFC, 0xAA, 0xBB, 0xFF, 0xF1, 0x50, 0x80, 0x01, 0x3F,
     0xFC, 0xCC, 0xDD] (Some (\<lambda>u st. st @ [drop 7 u])) [] = Some (None, [[0xAA, 0xBB], [0xCC, 0xDD]])"
proof -
  let ?xs = "[(sample_header, [0xAA, 0xBB]), (sample_header, [0xCC, 0xDD])] :: (ADTS_Frame_Header \<times> bytes) list"
  have "list_all aac_frame_ok ?xs" "concat (map aac_frame ?xs) = [0xFF, 0xF1, 0x50, 0x80, 0x01, 0x3F, 0xFC,
      0xAA, 0xBB, 0xFF, 0xF1, 0x50, 0x80, 0x01, 0x3F, 0xFC, 0xCC, 0xDD]"
    "fold (\<lambda>u st. st @ [drop 7 u]) (map aac_frame ?xs) [] = [[0xAA, 0xBB], [0xCC, 0xDD]]" by code_simp+
  then show ?thesis
    using ADTS_stream_is_split [of ?xs "\<lambda>u st. st @ [drop 7 u]" "[]"] by simp
qed

end
