(* ===== verification/Amf0.thy ===== *)
theory Amf0
  imports Prelude
begin

text \<open>
  The AMF0 codec of the RTMP commands, \<open>go-rtmp/amf.go\<close>.  A \<open>float64\<close> is its 64 bits
  (\<open>Float64bits\<close> and \<open>Float64frombits\<close> are inverse), a Go string is its bytes, the dynamic
  \<open>value\<close> of an item is a \<open>datatype\<close>.  The skipper of nested values is mutually recursive.

  The lemmas: no input makes a decoder panic and every accepted value lies inside the
  buffer; scalars, objects and whole messages are decoded as they were encoded.
\<close>

datatype amf0_error = Amf0Truncated | Amf0StringTooLong | Amf0BadValue | Amf0CannotEncode
  | Amf0Unsupported

type_synonym AMF0_DATA_TYPE = byte

abbreviation AMF0_NUMBER :: AMF0_DATA_TYPE where "AMF0_NUMBER \<equiv> 0"
abbreviation AMF0_BOOLEAN :: AMF0_DATA_TYPE where "AMF0_BOOLEAN \<equiv> 1"
abbreviation AMF0_STRING :: AMF0_DATA_TYPE where "AMF0_STRING \<equiv> 2"
abbreviation AMF0_OBJECT :: AMF0_DATA_TYPE where "AMF0_OBJECT \<equiv> 3"
abbreviation AMF0_NULL :: AMF0_DATA_TYPE where "AMF0_NULL \<equiv> 5"
abbreviation AMF0_UNDEFINED :: AMF0_DATA_TYPE where "AMF0_UNDEFINED \<equiv> 6"
abbreviation AMF0_REFERENCE :: AMF0_DATA_TYPE where "AMF0_REFERENCE \<equiv> 7"
abbreviation AMF0_ECMA_ARRAY :: AMF0_DATA_TYPE where "AMF0_ECMA_ARRAY \<equiv> 8"
abbreviation AMF0_OBJECT_END :: AMF0_DATA_TYPE where "AMF0_OBJECT_END \<equiv> 9"
abbreviation AMF0_STRICT_ARRAY :: AMF0_DATA_TYPE where "AMF0_STRICT_ARRAY \<equiv> 10"
abbreviation AMF0_DATE :: AMF0_DATA_TYPE where "AMF0_DATE \<equiv> 11"
abbreviation AMF0_LONG_STRING :: AMF0_DATA_TYPE where "AMF0_LONG_STRING \<equiv> 12"
abbreviation AMF0_UNSUPPORTED :: AMF0_DATA_TYPE where "AMF0_UNSUPPORTED \<equiv> 13"
abbreviation AMF0_XML_DOCUMENT :: AMF0_DATA_TYPE where "AMF0_XML_DOCUMENT \<equiv> 15"
abbreviation AMF0_TYPED_OBJECT :: AMF0_DATA_TYPE where "AMF0_TYPED_OBJECT \<equiv> 16"

definition NullItem :: bytes where "NullItem = [AMF0_NULL]"
definition EndObj :: bytes where "EndObj = [0, 0, AMF0_OBJECT_END]"

datatype amf0_value = VNil | VFloat u64 | VBool bool | VString bytes | VBytes bytes

record amf0Item =
  amfType :: AMF0_DATA_TYPE
  amf_length :: nat
  amf_value :: amf0_value

section \<open>Encoding\<close>

text \<open>An error returns the destination as far as it was written.\<close>

definition item_appendTo :: "amf0Item \<Rightarrow> bytes \<Rightarrow> bytes \<times> amf0_error option" where
  "item_appendTo amf dst =
     (if amfType amf = AMF0_NUMBER then
        (case amf_value amf of
           VFloat v \<Rightarrow> (dst @ [AMF0_NUMBER] @ be64 v, None)
         | _ \<Rightarrow> (dst, Some Amf0BadValue))
      else if amfType amf = AMF0_BOOLEAN then
        (case amf_value amf of
           VBool v \<Rightarrow> (if v then dst @ [AMF0_BOOLEAN, 1] else dst @ [AMF0_BOOLEAN, 0], None)
         | _ \<Rightarrow> (dst, Some Amf0BadValue))
      else if amfType amf = AMF0_STRING then
        (case amf_value amf of
           VString v \<Rightarrow>
             if length v > 0xFFFF then (dst, Some Amf0StringTooLong)
             else (dst @ [AMF0_STRING, word_of_nat (length v div 256), word_of_nat (length v)] @ v, None)
         | _ \<Rightarrow> (dst, Some Amf0BadValue))
      else if amfType amf = AMF0_NULL then (dst @ [AMF0_NULL], None)
      else (dst, Some Amf0CannotEncode))"

record amfObjectItem =
  item_name :: bytes
  item_value :: amf0Item

type_synonym amfObject = "amfObjectItem list"

fun object_items_appendTo :: "amfObject \<Rightarrow> bytes \<Rightarrow> bytes \<times> amf0_error option" where
  "object_items_appendTo [] dst = (dst @ EndObj, None)"
| "object_items_appendTo (item # items) dst =
     (if length (item_name item) > 0xFFFF then (dst, Some Amf0StringTooLong)
      else let dst1 = dst @ [word_of_nat (length (item_name item) div 256),
             word_of_nat (length (item_name item))] @ item_name item in
        (case item_appendTo (item_value item) dst1 of
           (dst2, Some e) \<Rightarrow> (dst2, Some e)
         | (dst2, None) \<Rightarrow> object_items_appendTo items dst2))"

definition object_appendTo :: "amfObject \<Rightarrow> bytes \<Rightarrow> bytes \<times> amf0_error option" where
  "object_appendTo object dst = object_items_appendTo object (dst @ [AMF0_OBJECT])"

text \<open>The builder of a message keeps the first error.\<close>

record amf0Buf =
  abuf :: bytes
  abuf_err :: "amf0_error option"

definition amf0Buf_item :: "amf0Item \<Rightarrow> amf0Buf \<Rightarrow> amf0Buf" where
  "amf0Buf_item it b = (if abuf_err b = None then
     (case item_appendTo it (abuf b) of (d, e) \<Rightarrow> b\<lparr>abuf := d, abuf_err := e\<rparr>) else b)"

definition amf0Buf_object :: "amfObject \<Rightarrow> amf0Buf \<Rightarrow> amf0Buf" where
  "amf0Buf_object obj b = (if abuf_err b = None then
     (case object_appendTo obj (abuf b) of (d, e) \<Rightarrow> b\<lparr>abuf := d, abuf_err := e\<rparr>) else b)"

definition amf0Buf_null :: "amf0Buf \<Rightarrow> amf0Buf" where
  "amf0Buf_null b = (if abuf_err b = None then b\<lparr>abuf := abuf b @ NullItem\<rparr> else b)"

definition amf0Buf_bytes :: "amf0Buf \<Rightarrow> amf0_error + bytes" where
  "amf0Buf_bytes b = (case abuf_err b of Some e \<Rightarrow> Inl e | None \<Rightarrow> Inr (abuf b))"

definition makeStringItem :: "bytes \<Rightarrow> amf0Item" where
  "makeStringItem str = \<lparr>amfType = AMF0_STRING, amf_length = length str, amf_value = VString str\<rparr>"

definition makeNumberItem :: "u64 \<Rightarrow> amf0Item" where
  "makeNumberItem num = \<lparr>amfType = AMF0_NUMBER, amf_length = 0, amf_value = VFloat num\<rparr>"

definition makeBoolItem :: "bool \<Rightarrow> amf0Item" where
  "makeBoolItem v = \<lparr>amfType = AMF0_BOOLEAN, amf_length = 0, amf_value = VBool v\<rparr>"

section \<open>Skipping\<close>

text \<open>
  \<open>need n\<close> with the result \<open>n\<close>; the big-endian length fields; the object body with what it
  has used so far; the elements of a strict array, on the slice that starts at \<open>total\<close>.
\<close>

definition amf_need :: "nat \<Rightarrow> bytes \<Rightarrow> (amf0_error, nat) result" where
  "amf_need n data = (if length data < n then err Amf0Truncated else ok n)"

definition amf_u16 :: "bytes \<Rightarrow> nat \<Rightarrow> nat option" where
  "amf_u16 data i = do { d \<leftarrow> slice_from data (int i); w \<leftarrow> get_be16 d; Some (unat w) }"

definition amf_u32 :: "bytes \<Rightarrow> nat \<Rightarrow> nat option" where
  "amf_u32 data i = do { d \<leftarrow> slice_from data (int i); w \<leftarrow> get_be32 d; Some (unat w) }"

function amf0Skip :: "bytes \<Rightarrow> (amf0_error, nat) result"
  and amf0SkipObjectBody :: "bytes \<Rightarrow> nat \<Rightarrow> (amf0_error, nat) result"
  and amf0SkipElems :: "nat \<Rightarrow> bytes \<Rightarrow> nat \<Rightarrow> (amf0_error, nat) result" where
  "amf0Skip data =
     (case data of
        [] \<Rightarrow> err Amf0Truncated
      | t # _ \<Rightarrow>
          if t = AMF0_NUMBER then amf_need 9 data
          else if t = AMF0_BOOLEAN then amf_need 2 data
          else if t = AMF0_STRING then
            rbind (amf_need 3 data) (\<lambda>_. do {
              l \<leftarrow> amf_u16 data 1;
              amf_need (3 + l) data
            })
          else if t = AMF0_OBJECT then do {
            d \<leftarrow> slice_from data 1;
            rbind (amf0SkipObjectBody d 0) (\<lambda>l. ok (1 + l))
          }
          else if t = AMF0_NULL \<or> t = AMF0_UNDEFINED \<or> t = AMF0_UNSUPPORTED then ok 1
          else if t = AMF0_REFERENCE then amf_need 3 data
          else if t = AMF0_ECMA_ARRAY then
            rbind (amf_need 5 data) (\<lambda>_. do {
              d \<leftarrow> slice_from data 5;
              rbind (amf0SkipObjectBody d 0) (\<lambda>l. ok (5 + l))
            })
          else if t = AMF0_OBJECT_END then amf_need 3 data
          else if t = AMF0_STRICT_ARRAY then
            rbind (amf_need 5 data) (\<lambda>_. do {
              count \<leftarrow> amf_u32 data 1;
              d \<leftarrow> slice_from data 5;
              amf0SkipElems count d 5
            })
          else if t = AMF0_DATE then amf_need 11 data
          else if t = AMF0_LONG_STRING \<or> t = AMF0_XML_DOCUMENT then
            rbind (amf_need 5 data) (\<lambda>_. do {
              l \<leftarrow> amf_u32 data 1;
              amf_need (5 + l) data
            })
          else if t = AMF0_TYPED_OBJECT then
            rbind (amf_need 3 data) (\<lambda>_. do {
              nameLen \<leftarrow> amf_u16 data 1;
              rbind (amf_need (3 + nameLen) data) (\<lambda>_. do {
                d \<leftarrow> slice_from data (int (3 + nameLen));
                rbind (amf0SkipObjectBody d 0) (\<lambda>l. ok (3 + nameLen + l))
              })
            })
          else err Amf0Unsupported)"
| "amf0SkipObjectBody data tot =
     (if length data < 3 then err Amf0Truncated
      else if take 3 data = EndObj then ok (tot + 3)
      else do {
        nameLen \<leftarrow> amf_u16 data 0;
        if length data < 2 + nameLen then err Amf0Truncated
        else do {
          v \<leftarrow> slice_from data (int (2 + nameLen));
          rbind (amf0Skip v) (\<lambda>l. do {
            d \<leftarrow> slice_from data (int (2 + nameLen + l));
            amf0SkipObjectBody d (tot + (2 + nameLen + l))
          })
        }
      })"
| "amf0SkipElems count data tot =
     (if count = 0 then ok tot
      else rbind (amf0Skip data) (\<lambda>l. do {
        d \<leftarrow> slice_from data (int l);
        amf0SkipElems (count - 1) d (tot + l)
      }))"
  by pat_completeness auto
termination
  by (relation "inv_image (less_than <*lex*> less_than <*lex*> less_than) (\<lambda>x. case x of
        Inl data \<Rightarrow> (length data, 0, 0)
      | Inr (Inl (data, tot)) \<Rightarrow> (length data, 0, 0)
      | Inr (Inr (count, data, tot)) \<Rightarrow> (length data, 1, count))")
    (auto simp: slice_from_def split: if_splits)

declare amf0Skip.simps [simp del] amf0SkipObjectBody.simps [simp del] amf0SkipElems.simps [simp del]

section \<open>Decoding\<close>

definition decode_string :: "AMF0_DATA_TYPE \<Rightarrow> nat \<Rightarrow> nat \<Rightarrow> bytes
    \<Rightarrow> (amf0_error, amf0Item \<times> nat) result" where
  "decode_string t hd_len len data =
     (if length data < hd_len + len then err Amf0Truncated
      else do {
        str \<leftarrow> slice_of data (int hd_len) (int (hd_len + len));
        ok (\<lparr>amfType = t, amf_length = len, amf_value = VBytes str\<rparr>, hd_len + len)
      })"

definition item_decode :: "bytes \<Rightarrow> (amf0_error, amf0Item \<times> nat) result" where
  "item_decode data =
     (case data of
        [] \<Rightarrow> err Amf0Truncated
      | t # _ \<Rightarrow>
          if t = AMF0_NUMBER then
            if length data < 9 then err Amf0Truncated
            else do {
              d \<leftarrow> slice_from data 1;
              v \<leftarrow> get_be64 d;
              ok (\<lparr>amfType = t, amf_length = 8, amf_value = VFloat v\<rparr>, 9)
            }
          else if t = AMF0_BOOLEAN then
            if length data < 2 then err Amf0Truncated
            else do {
              b \<leftarrow> idx data 1;
              ok (\<lparr>amfType = t, amf_length = 1, amf_value = VBool (b = 1)\<rparr>, 2)
            }
          else if t = AMF0_STRING then
            if length data < 3 then err Amf0Truncated
            else do { l \<leftarrow> amf_u16 data 1; decode_string t 3 l data }
          else if t = AMF0_LONG_STRING then
            if length data < 5 then err Amf0Truncated
            else do { l \<leftarrow> amf_u32 data 1; decode_string t 5 l data }
          else if t = AMF0_NULL \<or> t = AMF0_UNDEFINED \<or> t = AMF0_UNSUPPORTED then
            ok (\<lparr>amfType = t, amf_length = 0, amf_value = VNil\<rparr>, 1)
          else rbind (amf0Skip data) (\<lambda>l.
            ok (\<lparr>amfType = t, amf_length = l, amf_value = VNil\<rparr>, l)))"

text \<open>The body of an object, with the items found so far and what it has used.\<close>

function decodeBody :: "bytes \<Rightarrow> amfObject \<Rightarrow> nat \<Rightarrow> (amf0_error, amfObject \<times> nat) result" where
  "decodeBody data items tot =
     (if length data < 3 then err Amf0Truncated
      else if take 3 data = EndObj then ok (items, tot + 3)
      else do {
        len \<leftarrow> amf_u16 data 0;
        if length data < 2 + len then err Amf0Truncated
        else do {
          name \<leftarrow> slice_of data 2 (int (2 + len));
          v \<leftarrow> slice_from data (int (2 + len));
          rbind (item_decode v) (\<lambda>(item, l). do {
            d \<leftarrow> slice_from data (int (2 + len + l));
            decodeBody d (items @ [\<lparr>item_name = name, item_value = item\<rparr>]) (tot + (2 + len + l))
          })
        }
      })"
  by pat_completeness auto
termination
  by (relation "measure (\<lambda>(data, items, tot). length data)") (auto simp: slice_from_def split: if_splits)

declare decodeBody.simps [simp del]

definition object_decode :: "bytes \<Rightarrow> (amf0_error, amfObject \<times> nat) result" where
  "object_decode data =
     (if length data < 1 then err Amf0Truncated
      else do {
        d \<leftarrow> slice_from data 1;
        rbind (decodeBody d [] 0) (\<lambda>(obj, l). ok (obj, 1 + l))
      })"

text \<open>One step of \<open>decodeAmf0\<close>: an item or an object, and how long it was.\<close>

definition decode_step :: "bytes \<Rightarrow> (amf0_error, (amf0Item + amfObject) \<times> nat) result" where
  "decode_step data = do {
     t \<leftarrow> idx data 0;
     if t = AMF0_ECMA_ARRAY then
       if length data < 5 then err Amf0Truncated
       else do {
         d \<leftarrow> slice_from data 5;
         rbind (decodeBody d [] 0) (\<lambda>(obj, l). ok (Inr obj, l + 5))
       }
     else if t = AMF0_OBJECT then
       rbind (object_decode data) (\<lambda>(obj, l). ok (Inr obj, l))
     else rbind (item_decode data) (\<lambda>(item, l). ok (Inl item, l))
   }"

section \<open>No input panics\<close>

lemma get_be16_get: "2 \<le> length d \<Longrightarrow> get_be16 d = Some (push_bit 8 (ucast (d ! 0)) OR ucast (d ! 1))"
  by (cases d rule: get_be16.cases) auto

lemma amf_u16_total: "i + 2 \<le> length data \<Longrightarrow> \<exists>n. amf_u16 data i = Some n"
  using get_be16_total [of "drop i data"] by (fastforce simp: amf_u16_def)

lemma amf_u32_total: "i + 4 \<le> length data \<Longrightarrow> \<exists>n. amf_u32 data i = Some n"
  using get_be32_total [of "drop i data"] by (fastforce simp: amf_u32_def)

text \<open>A result that is no panic and, when it is a size, is between two bounds.\<close>

definition used_ok :: "nat \<Rightarrow> nat \<Rightarrow> (amf0_error, nat) result \<Rightarrow> bool" where
  "used_ok lo hi r \<longleftrightarrow> (case r of None \<Rightarrow> False | Some (Inl e) \<Rightarrow> True | Some (Inr l) \<Rightarrow> lo \<le> l \<and> l \<le> hi)"

lemma used_ok_err [simp]: "used_ok lo hi (err e)" by (simp add: used_ok_def)
lemma used_ok_ok [simp]: "used_ok lo hi (ok l) \<longleftrightarrow> lo \<le> l \<and> l \<le> hi" by (simp add: used_ok_def)

lemma used_ok_need: "0 < n \<Longrightarrow> used_ok (Suc 0) (length data) (amf_need n data)"
  by (auto simp: used_ok_def amf_need_def)

lemma used_ok_weaken: "used_ok lo hi r \<Longrightarrow> lo' \<le> lo \<Longrightarrow> hi \<le> hi' \<Longrightarrow> used_ok lo' hi' r"
  by (auto simp: used_ok_def split: option.splits sum.splits)

lemma used_ok_rbind:
  assumes "used_ok lo' hi' m" and "\<And>l. lo' \<le> l \<Longrightarrow> l \<le> hi' \<Longrightarrow> used_ok lo hi (f l)"
  shows "used_ok lo hi (rbind m f)"
proof -
  consider e where "m = err e" | l where "m = ok l" "lo' \<le> l" "l \<le> hi'"
    using assms(1) by (auto simp: used_ok_def split: option.splits sum.splits)
  then show ?thesis using assms(2) by cases simp_all
qed

lemma used_ok_need_then:
  assumes "n \<le> length data \<Longrightarrow> used_ok lo hi (f n)" shows "used_ok lo hi (rbind (amf_need n data) f)"
  using assms by (auto simp: amf_need_def)

lemma used_ok_u16: "i + 2 \<le> length data \<Longrightarrow> (\<And>n. used_ok lo hi (f n)) \<Longrightarrow>
    used_ok lo hi (Option.bind (amf_u16 data i) f)"
  using amf_u16_total [of i data] by auto

lemma used_ok_u32: "i + 4 \<le> length data \<Longrightarrow> (\<And>n. used_ok lo hi (f n)) \<Longrightarrow>
    used_ok lo hi (Option.bind (amf_u32 data i) f)"
  using amf_u32_total [of i data] by auto

lemma amf0Skip_total:
  "used_ok 1 (length data) (amf0Skip data) \<and>
   used_ok (tot + 3) (tot + length data) (amf0SkipObjectBody data tot) \<and>
   used_ok tot (tot + length data) (amf0SkipElems count data tot)"
proof (induction "length data" arbitrary: data tot count rule: less_induct)
  case less
  have body: "used_ok 1 (length data) (do { d \<leftarrow> slice_from data (int k);
      rbind (amf0SkipObjectBody d 0) (\<lambda>l. ok (k + l)) })"
    if "0 < k" "k \<le> length data" for k
  proof -
    have "length (drop k data) < length data" using that by simp
    then have "used_ok (0 + 3) (0 + length (drop k data)) (amf0SkipObjectBody (drop k data) 0)"
      using less by blast
    then show ?thesis using that by (auto intro: used_ok_rbind)
  qed
  have elems: "used_ok 1 (length data) (do { d \<leftarrow> slice_from data 5; amf0SkipElems n d 5 })"
    if "5 \<le> length data" for n
  proof -
    have "length (drop 5 data) < length data" using that by simp
    then have "used_ok 5 (5 + length (drop 5 data)) (amf0SkipElems n (drop 5 data) 5)"
      using less by blast
    then show ?thesis
      using that slice_from_int [of 5 data] by (auto elim!: used_ok_weaken)
  qed
  have skip: "used_ok 1 (length data) (amf0Skip data)"
  proof (cases "data = []")
    case False
    note bodies = body [of 1] body [of 5] body [of "3 + n" for n]
    show ?thesis
      by (subst amf0Skip.simps, subst case_hd [OF False])
        (use False in \<open>auto intro!: used_ok_need used_ok_need_then used_ok_u16 used_ok_u32 elems [simplified]
          bodies [simplified] simp: Suc_le_eq simp del: slice_from_int\<close>)
  qed (simp add: amf0Skip.simps)
  moreover have "used_ok (tot + 3) (tot + length data) (amf0SkipObjectBody data tot)"
  proof -
    have step: "used_ok (tot + 3) (tot + length data) (do { v \<leftarrow> slice_from data (int (2 + n));
        rbind (amf0Skip v) (\<lambda>l. do { d \<leftarrow> slice_from data (int (2 + n + l));
          amf0SkipObjectBody d (tot + (2 + n + l)) }) })"
      if "2 + n \<le> length data" for n
    proof -
      let ?v = "drop (2 + n) data"
      have v: "used_ok 1 (length ?v) (amf0Skip ?v)" using less [of ?v] that by simp
      have "used_ok (tot + 3) (tot + length data) (rbind (amf0Skip ?v)
          (\<lambda>l. do { d \<leftarrow> slice_from data (int (2 + n + l)); amf0SkipObjectBody d (tot + (2 + n + l)) }))"
      proof (rule used_ok_rbind [OF v])
        fix l assume l: "1 \<le> l" "l \<le> length ?v"
        let ?d = "drop (2 + n + l) data"
        have "length ?d < length data" using that by simp
        then have "used_ok (tot + (2 + n + l) + 3) (tot + (2 + n + l) + length ?d)
            (amf0SkipObjectBody ?d (tot + (2 + n + l)))"
          using less by blast
        then have "used_ok (tot + 3) (tot + length data) (amf0SkipObjectBody ?d (tot + (2 + n + l)))"
          by (rule used_ok_weaken) (use l that in simp_all)
        moreover have "slice_from data (int (2 + n + l)) = Some ?d"
          by (rule slice_from_int) (use l that in simp)
        ultimately show "used_ok (tot + 3) (tot + length data) (do {
            d \<leftarrow> slice_from data (int (2 + n + l)); amf0SkipObjectBody d (tot + (2 + n + l)) })"
          by simp
      qed
      then show ?thesis by (simp only: slice_from_int [OF that] Option.bind.simps)
    qed
    show ?thesis
      by (subst amf0SkipObjectBody.simps) (auto intro!: used_ok_u16 step [simplified])
  qed
  moreover have "used_ok tot (tot + length data) (amf0SkipElems count data tot)"
  proof -
    have "used_ok tot (tot + length data) (amf0SkipElems (count - 1) (drop l data) (tot + l))"
      if "1 \<le> l" "l \<le> length data" for l
    proof -
      have "length (drop l data) < length data" using that by simp
      then have "used_ok (tot + l) (tot + l + length (drop l data)) (amf0SkipElems (count - 1) (drop l data) (tot + l))"
        using less by blast
      then show ?thesis by (rule used_ok_weaken) (use that in simp_all)
    qed
    then have "used_ok tot (tot + length data) (rbind (amf0Skip data) (\<lambda>l. do {
        d \<leftarrow> slice_from data (int l); amf0SkipElems (count - 1) d (tot + l) }))"
      by (intro used_ok_rbind [OF skip]) simp
    then show ?thesis by (subst amf0SkipElems.simps) auto
  qed
  ultimately show ?case using skip by blast
qed

text \<open>The same for the decoders: no panic, and the size used is positive and inside.\<close>

definition pair_ok :: "nat \<Rightarrow> nat \<Rightarrow> (amf0_error, 'a \<times> nat) result \<Rightarrow> bool" where
  "pair_ok lo hi r \<longleftrightarrow> (case r of None \<Rightarrow> False | Some (Inl e) \<Rightarrow> True
     | Some (Inr (x, l)) \<Rightarrow> lo \<le> l \<and> l \<le> hi)"

lemma pair_ok_simps [simp]: "pair_ok lo hi (err e)" "pair_ok lo hi (ok (x, l)) \<longleftrightarrow> lo \<le> l \<and> l \<le> hi"
  by (simp_all add: pair_ok_def)

lemma pair_okE:
  assumes "pair_ok lo hi r"
  obtains e where "r = err e" | x l where "r = ok (x, l)" "lo \<le> l" "l \<le> hi"
proof -
  consider e where "r = err e" | y where "r = ok y" "case y of (x, l) \<Rightarrow> lo \<le> l \<and> l \<le> hi"
    using assms by (auto simp: pair_ok_def split: option.splits sum.splits)
  then show ?thesis using that by cases (auto split: prod.splits)
qed

lemma item_decode_total: "pair_ok 1 (length data) (item_decode data)"
proof (cases "data = []")
  case False
  have skip: "used_ok 1 (length data) (amf0Skip data)" using amf0Skip_total by blast
  have skipped: "pair_ok 1 (length data) (rbind (amf0Skip data) (\<lambda>l. ok (f l, l)))" for f :: "nat \<Rightarrow> amf0Item"
    using skip by (auto simp: used_ok_def split: option.splits sum.splits)
  have str: "pair_ok 1 (length data) (decode_string t k n data)" if "0 < k" for t k n
    using that by (auto simp: decode_string_def slice_of_def)
  obtain v where "9 \<le> length data \<Longrightarrow> get_be64 (drop 1 data) = Some v"
    using get_be64_total [of "drop 1 data"] by (cases "9 \<le> length data") fastforce+
  moreover obtain n where "3 \<le> length data \<Longrightarrow> amf_u16 data 1 = Some n"
    using amf_u16_total [of 1 data] by (cases "3 \<le> length data") auto
  moreover obtain m where "5 \<le> length data \<Longrightarrow> amf_u32 data 1 = Some m"
    using amf_u32_total [of 1 data] by (cases "5 \<le> length data") auto
  ultimately show ?thesis
    using False slice_from_int [of 1 data]
    by (simp only: item_decode_def case_hd [OF False])
      (auto intro: skipped [simplified] str [simplified] simp: idx_def Suc_le_eq)
qed (simp add: item_decode_def)

lemma decodeBody_total: "pair_ok (tot + 3) (tot + length data) (decodeBody data items tot)"
proof (induction "length data" arbitrary: data items tot rule: less_induct)
  case less
  show ?case
  proof (cases "length data < 3 \<or> take 3 data = EndObj")
    case True
    then show ?thesis by (subst decodeBody.simps) auto
  next
    case False
    then obtain n where n: "amf_u16 data 0 = Some n" using amf_u16_total [of 0 data] by auto
    show ?thesis
    proof (cases "length data < 2 + n")
      case True
      then show ?thesis using False n by (subst decodeBody.simps) auto
    next
      case inside: False
      let ?v = "drop (2 + n) data"
      have v: "slice_from data (int (2 + n)) = Some ?v" by (rule slice_from_int) (use inside in simp)
      have name: "slice_of data 2 (int (2 + n)) = Some (take n (drop 2 data))"
        using inside by (simp add: slice_of_def)
      have "pair_ok 1 (length ?v) (item_decode ?v)" by (rule item_decode_total)
      then show ?thesis
      proof (cases rule: pair_okE)
        case (1 e)
        then show ?thesis
          using False inside n v name by (subst decodeBody.simps) simp
      next
        case (2 item l)
        let ?d = "drop (2 + n + l) data" and ?t = "tot + (2 + n + l)"
        have d: "slice_from data (int (2 + n + l)) = Some ?d"
          by (rule slice_from_int) (use 2 inside in simp)
        have "length ?d < length data" using inside by simp
        then have "pair_ok (?t + 3) (?t + length ?d) (decodeBody ?d items' ?t)" for items'
          using less by blast
        then have "pair_ok (tot + 3) (tot + length data) (decodeBody ?d items' ?t)" for items'
          using 2 inside by (force simp: pair_ok_def split: option.splits sum.splits)
        then show ?thesis
          using False inside n 2 v name d by (subst decodeBody.simps) (simp add: add.assoc)
      qed
    qed
  qed
qed

lemma object_decode_total: "pair_ok 1 (length data) (object_decode data)"
proof (cases "length data < 1")
  case False
  have sl: "slice_from data 1 = Some (drop 1 data)"
    using False slice_from_int [of 1 data] by (cases data) simp_all
  have "pair_ok (0 + 3) (0 + length (drop 1 data)) (decodeBody (drop 1 data) [] 0)"
    by (rule decodeBody_total)
  then show ?thesis
    by (cases rule: pair_okE) (use False sl in \<open>simp_all add: object_decode_def\<close>)
qed (simp add: object_decode_def)

lemma decode_step_total:
  assumes "data \<noteq> []" shows "pair_ok 1 (length data) (decode_step data)"
proof -
  have array: "pair_ok 1 (length data) (do { d \<leftarrow> slice_from data 5;
      rbind (decodeBody d [] 0) (\<lambda>(obj, l). ok (Inr obj :: amf0Item + amfObject, l + 5)) })"
    if "\<not> length data < 5"
  proof -
    have "pair_ok (0 + 3) (0 + length (drop 5 data)) (decodeBody (drop 5 data) [] 0)"
      by (rule decodeBody_total)
    then show ?thesis
      by (cases rule: pair_okE) (use that slice_from_int [of 5 data] in simp_all)
  qed
  have "pair_ok 1 (length data) (rbind (item_decode data) (\<lambda>(x, l). ok (Inl x :: amf0Item + amfObject, l)))"
    using item_decode_total [of data] by (cases rule: pair_okE) simp_all
  moreover have "pair_ok 1 (length data)
      (rbind (object_decode data) (\<lambda>(x, l). ok (Inr x :: amf0Item + amfObject, l)))"
    using object_decode_total [of data] by (cases rule: pair_okE) simp_all
  ultimately show ?thesis
    using assms array by (auto simp: decode_step_def idx_def)
qed

function decodeAmf0_loop :: "bytes \<Rightarrow> amf0Item list \<Rightarrow> amfObject list
    \<Rightarrow> (amf0_error, amf0Item list \<times> amfObject list) result" where
  "decodeAmf0_loop data items objs =
     (if data = [] then ok (items, objs)
      else rbind (decode_step data) (\<lambda>(v, l). do {
        d \<leftarrow> slice_from data (int l);
        (case v of
           Inl item \<Rightarrow> decodeAmf0_loop d (items @ [item]) objs
         | Inr obj \<Rightarrow> decodeAmf0_loop d items (objs @ [obj]))
      }))"
  by pat_completeness auto
termination
proof (relation "measure (\<lambda>(data, items, objs). length data)", goal_cases)
  case (2 data items objs r v l d item)
  then show ?case using decode_step_total [of data] by (auto simp: slice_from_def split: if_splits)
next
  case (3 data items objs r v l d obj)
  then show ?case using decode_step_total [of data] by (auto simp: slice_from_def split: if_splits)
qed simp

declare decodeAmf0_loop.simps [simp del]

definition decodeAmf0 :: "bytes \<Rightarrow> (amf0_error, amf0Item list \<times> amfObject list) result" where
  "decodeAmf0 data = decodeAmf0_loop data [] []"

lemma decodeAmf0_loop_total: "\<exists>r. decodeAmf0_loop data items objs = Some r"
proof (induction "length data" arbitrary: data items objs rule: less_induct)
  case less
  show ?case
  proof (cases "data = []")
    case False
    from decode_step_total [OF this] show ?thesis
    proof (cases rule: pair_okE)
      case (1 e)
      then show ?thesis using False by (subst decodeAmf0_loop.simps) simp
    next
      case (2 v l)
      then have "\<exists>r. decodeAmf0_loop (drop l data) items' objs' = Some r" for items' objs'
        using less False by simp
      then show ?thesis
        using 2 False by (subst decodeAmf0_loop.simps) (simp split: sum.split)
    qed
  qed (simp add: decodeAmf0_loop.simps)
qed

lemma decodeAmf0_total: "\<exists>r. decodeAmf0 data = Some r"
  unfolding decodeAmf0_def by (rule decodeAmf0_loop_total)

section \<open>What is encoded is decoded\<close>

abbreviation enc_item :: "amf0Item \<Rightarrow> bytes" where "enc_item it \<equiv> fst (item_appendTo it [])"
abbreviation enc_object :: "amfObject \<Rightarrow> bytes" where "enc_object ob \<equiv> fst (object_appendTo ob [])"

definition encodable :: "amf0Item \<Rightarrow> bool" where
  "encodable it \<longleftrightarrow> snd (item_appendTo it []) = None"

definition object_encodable :: "amfObject \<Rightarrow> bool" where
  "object_encodable ob \<longleftrightarrow> list_all (\<lambda>i. length (item_name i) \<le> 0xFFFF \<and> encodable (item_value i)) ob"

text \<open>An item as it comes back: with its length, a string as a byte slice.\<close>

definition received :: "amf0Item \<Rightarrow> amf0Item" where
  "received it =
     (if amfType it = AMF0_NULL then \<lparr>amfType = AMF0_NULL, amf_length = 0, amf_value = VNil\<rparr>
      else case amf_value it of
        VFloat v \<Rightarrow> \<lparr>amfType = amfType it, amf_length = 8, amf_value = VFloat v\<rparr>
      | VBool v \<Rightarrow> \<lparr>amfType = amfType it, amf_length = 1, amf_value = VBool v\<rparr>
      | VString v \<Rightarrow> \<lparr>amfType = amfType it, amf_length = length v, amf_value = VBytes v\<rparr>
      | v \<Rightarrow> it)"

definition received_object :: "amfObject \<Rightarrow> amfObject" where
  "received_object ob = map (\<lambda>i. i\<lparr>item_value := received (item_value i)\<rparr>) ob"

lemma item_appendTo_dst: "item_appendTo it dst = (dst @ enc_item it, snd (item_appendTo it []))"
  by (simp add: item_appendTo_def split: amf0_value.split)

lemma item_appendTo_enc:
  assumes "encodable it"
  obtains v where "amfType it = AMF0_NUMBER" "amf_value it = VFloat v" "enc_item it = AMF0_NUMBER # be64 v"
  | v where "amfType it = AMF0_BOOLEAN" "amf_value it = VBool v" "enc_item it = [AMF0_BOOLEAN, of_bool v]"
  | v where "amfType it = AMF0_STRING" "amf_value it = VString v" "length v \<le> 0xFFFF"
      "enc_item it = AMF0_STRING # be16 (word_of_nat (length v)) @ v"
  | "amfType it = AMF0_NULL" "enc_item it = [AMF0_NULL]"
  using assms
  by (auto simp: encodable_def item_appendTo_def be16_of_nat split: amf0_value.splits if_splits)

lemma amf_u16_at: "amf_u16 (xs @ be16 (word_of_nat n) @ r) (length xs) = Some n" if "n \<le> 0xFFFF"
  using that by (simp add: amf_u16_def unat_of_nat)

lemma item_decode_enc:
  assumes "encodable it"
  shows "item_decode (enc_item it @ r) = ok (received it, length (enc_item it))"
  using assms
proof (cases rule: item_appendTo_enc)
  case (1 v)
  then show ?thesis using slice_from_int [of 1 "AMF0_NUMBER # be64 v @ r"]
    by (simp add: item_decode_def received_def)
next
  case (2 v)
  then show ?thesis by (simp add: item_decode_def received_def idx_def)
next
  case (3 v)
  have "amf_u16 ([AMF0_STRING] @ be16 (word_of_nat (length v)) @ v @ r) 1 = Some (length v)"
    using amf_u16_at [OF 3(3), of "[AMF0_STRING]" "v @ r"] by simp
  then show ?thesis using 3
    by (simp add: item_decode_def received_def decode_string_def slice_of_def nat_add_distrib)
next
  case 4
  then show ?thesis by (simp add: item_decode_def received_def)
qed

lemma enc_item_head: "encodable it \<Longrightarrow> \<exists>r. enc_item it = amfType it # r \<and> amfType it \<in> {0, 1, 2, 5}"
  by (erule item_appendTo_enc) auto

text \<open>The body of an encoded object.\<close>

definition enc_pair :: "amfObjectItem \<Rightarrow> bytes" where
  "enc_pair i = be16 (word_of_nat (length (item_name i))) @ item_name i @ enc_item (item_value i)"

lemma object_items_appendTo_enc:
  "object_encodable ob \<Longrightarrow>
     object_items_appendTo ob dst = (dst @ concat (map enc_pair ob) @ EndObj, None)"
proof (induction ob arbitrary: dst)
  case (Cons i ob)
  define e where "e = enc_item (item_value i)"
  have "item_appendTo (item_value i) d = (d @ e, None)" for d
    using Cons.prems unfolding e_def
    by (subst item_appendTo_dst) (simp add: object_encodable_def encodable_def)
  moreover have "enc_pair i = be16 (word_of_nat (length (item_name i))) @ item_name i @ e"
    by (simp add: enc_pair_def e_def)
  ultimately show ?case
    using Cons by (simp add: object_encodable_def be16_of_nat Let_def)
qed simp

lemma object_appendTo_enc:
  "object_encodable ob \<Longrightarrow>
     object_appendTo ob dst = (dst @ AMF0_OBJECT # concat (map enc_pair ob) @ EndObj, None)"
  by (simp add: object_appendTo_def object_items_appendTo_enc)

lemma enc_pair_not_end:
  assumes "length (item_name i) \<le> 0xFFFF" and "encodable (item_value i)"
  shows "take 3 (enc_pair i @ r) \<noteq> EndObj" and "3 \<le> length (enc_pair i)"
proof -
  obtain q where q: "enc_item (item_value i) = amfType (item_value i) # q" "amfType (item_value i) \<in> {0, 1, 2, 5}"
    using enc_item_head [OF assms(2)] by blast
  show "3 \<le> length (enc_pair i)" by (simp add: enc_pair_def q)
  show "take 3 (enc_pair i @ r) \<noteq> EndObj"
  proof (cases "item_name i")
    case Nil
    then show ?thesis using q by (auto simp: enc_pair_def EndObj_def be16_def)
  next
    case (Cons c cs)
    let ?w = "word_of_nat (length (item_name i)) :: u16"
    have "unat ?w = length (item_name i)" using assms(1) by (simp add: unat_of_nat)
    then have "?w \<noteq> 0" using Cons by auto
    then have "be16 ?w \<noteq> be16 0" by (metis get_be16_be16 option.inject)
    then show ?thesis by (auto simp: enc_pair_def EndObj_def be16_def)
  qed
qed

lemma decodeBody_enc:
  "object_encodable ob \<Longrightarrow>
     decodeBody (concat (map enc_pair ob) @ EndObj @ r) items tot =
       ok (items @ received_object ob, tot + length (concat (map enc_pair ob)) + 3)"
proof (induction ob arbitrary: items tot)
  case Nil
  then show ?case by (subst decodeBody.simps) (simp add: EndObj_def received_object_def)
next
  case (Cons i ob)
  let ?rest = "concat (map enc_pair ob) @ EndObj @ r"
  let ?n = "length (item_name i)" and ?e = "enc_item (item_value i)"
  have i: "?n \<le> 0xFFFF" "encodable (item_value i)" "object_encodable ob"
    using Cons.prems by (simp_all add: object_encodable_def)
  define data where "data = enc_pair i @ ?rest"
  have data: "data = be16 (word_of_nat ?n) @ item_name i @ ?e @ ?rest"
    by (simp add: data_def enc_pair_def)
  have "\<not> length data < 3"
    using enc_pair_not_end(2) [OF i(1,2)] by (simp add: data_def)
  moreover have len: "\<not> length data < 2 + ?n" "length (enc_pair i) = 2 + ?n + length ?e"
    "2 + ?n + length ?e \<le> length data"
    by (simp_all add: data_def enc_pair_def)
  moreover have "amf_u16 data 0 = Some ?n" using amf_u16_at [OF i(1), of "[]"] by (simp add: data)
  moreover have "take 3 data \<noteq> EndObj"
    unfolding data_def by (rule enc_pair_not_end(1) [OF i(1,2)])
  moreover have "slice_of data 2 (int (2 + ?n)) = Some (item_name i)"
    by (simp add: data slice_of_def)
  moreover have "slice_from data (int (2 + ?n)) = Some (?e @ ?rest)"
    using len by (simp only: slice_from_int) (simp add: data)
  moreover have "item_decode (?e @ ?rest) = ok (received (item_value i), length ?e)"
    by (rule item_decode_enc [OF i(2)])
  moreover have "slice_from data (int (2 + ?n + length ?e)) = Some ?rest"
    using len by (simp only: slice_from_int) (simp add: data)
  ultimately have "decodeBody data items tot =
      decodeBody ?rest (items @ [\<lparr>item_name = item_name i, item_value = received (item_value i)\<rparr>])
        (tot + (2 + ?n + length ?e))"
    using len by (subst decodeBody.simps) (simp add: add.assoc)
  also have "\<dots> = ok (items @ received_object (i # ob), tot + length (concat (map enc_pair (i # ob))) + 3)"
    using Cons.IH [OF i(3)] len(2) by (simp add: received_object_def)
  finally show ?case by (simp add: data_def)
qed

lemma object_decode_enc:
  assumes "object_encodable ob"
  shows "object_decode (enc_object ob @ r) = ok (received_object ob, length (enc_object ob))"
  using decodeBody_enc [OF assms, of r "[]" 0] slice_from_int [of 1 "enc_object ob @ r"]
  by (simp add: object_decode_def object_appendTo_enc [OF assms] EndObj_def)

section \<open>Messages\<close>

text \<open>A message as the client and the server build it: a sequence of items and objects.\<close>

datatype amf_part = Item amf0Item | Object amfObject

primrec put_part :: "amf_part \<Rightarrow> amf0Buf \<Rightarrow> amf0Buf" where
  "put_part (Item it) b = amf0Buf_item it b"
| "put_part (Object ob) b = amf0Buf_object ob b"

fun part_ok :: "amf_part \<Rightarrow> bool" where
  "part_ok (Item it) = encodable it"
| "part_ok (Object ob) = object_encodable ob"

fun enc_part :: "amf_part \<Rightarrow> bytes" where
  "enc_part (Item it) = enc_item it"
| "enc_part (Object ob) = enc_object ob"

definition part_items :: "amf_part list \<Rightarrow> amf0Item list" where
  "part_items ps = concat (map (\<lambda>p. case p of Item it \<Rightarrow> [received it] | Object _ \<Rightarrow> []) ps)"

definition part_objects :: "amf_part list \<Rightarrow> amfObject list" where
  "part_objects ps = concat (map (\<lambda>p. case p of Item _ \<Rightarrow> [] | Object ob \<Rightarrow> [received_object ob]) ps)"

lemma put_part_ok:
  "part_ok p \<Longrightarrow> put_part p \<lparr>abuf = b, abuf_err = None\<rparr> = \<lparr>abuf = b @ enc_part p, abuf_err = None\<rparr>"
  by (cases p) (simp_all add: amf0Buf_item_def amf0Buf_object_def encodable_def object_appendTo_enc
      item_appendTo_dst [of _ b])

lemma put_parts_ok:
  "list_all part_ok ps \<Longrightarrow> fold put_part ps \<lparr>abuf = b, abuf_err = None\<rparr> =
     \<lparr>abuf = b @ concat (map enc_part ps), abuf_err = None\<rparr>"
  by (induction ps arbitrary: b) (simp_all add: put_part_ok)

lemma decode_step_enc:
  "part_ok p \<Longrightarrow> decode_step (enc_part p @ r) =
     ok (case p of Item it \<Rightarrow> Inl (received it) | Object ob \<Rightarrow> Inr (received_object ob), length (enc_part p))"
proof (cases p)
  case (Item it)
  assume "part_ok p"
  then have it: "encodable it" by (simp add: Item)
  obtain q where q: "enc_item it = amfType it # q" "amfType it \<in> {0, 1, 2, 5}"
    using enc_item_head [OF it] by blast
  then have "idx (enc_item it @ r) 0 = Some (amfType it)" by (simp add: idx_def)
  then show ?thesis using q(2) item_decode_enc [OF it, of r] by (auto simp: Item decode_step_def)
next
  case (Object ob)
  assume "part_ok p"
  then have ob: "object_encodable ob" by (simp add: Object)
  then have "idx (enc_object ob @ r) 0 = Some AMF0_OBJECT"
    by (simp add: idx_def object_appendTo_enc)
  then show ?thesis using object_decode_enc [OF ob, of r] by (auto simp: Object decode_step_def)
qed

lemma enc_part_nonempty: "part_ok p \<Longrightarrow> enc_part p \<noteq> []"
  by (cases p) (auto dest: enc_item_head simp: object_appendTo_enc)

lemma decodeAmf0_loop_enc:
  "list_all part_ok ps \<Longrightarrow> decodeAmf0_loop (concat (map enc_part ps)) items objs =
     ok (items @ part_items ps, objs @ part_objects ps)"
proof (induction ps arbitrary: items objs)
  case Nil
  then show ?case by (simp add: decodeAmf0_loop.simps part_items_def part_objects_def)
next
  case (Cons p ps)
  then show ?case
    using enc_part_nonempty [of p] decode_step_enc [of p "concat (map enc_part ps)"]
    by (subst decodeAmf0_loop.simps) (cases p; simp add: part_items_def part_objects_def)
qed

text \<open>A message is built without an error and decoded into its parts.\<close>

lemma message_round_trip:
  assumes "list_all part_ok ps"
  shows "\<exists>bs. amf0Buf_bytes (fold put_part ps \<lparr>abuf = [], abuf_err = None\<rparr>) = Inr bs \<and>
    decodeAmf0 bs = ok (part_items ps, part_objects ps)"
  using put_parts_ok [OF assms, of "[]"] decodeAmf0_loop_enc [OF assms, of "[]" "[]"]
  by (simp add: amf0Buf_bytes_def decodeAmf0_def)

text \<open>The first error stays and nothing is returned.\<close>

lemma fold_put_part_err: "abuf_err b \<noteq> None \<Longrightarrow> fold put_part ps b = b"
proof (induction ps)
  case (Cons p ps)
  then show ?case by (cases p) (auto simp: amf0Buf_item_def amf0Buf_object_def)
qed simp

section \<open>Scalars and objects as prefix codes\<close>

datatype amf_scalar = SNumber u64 | SBool bool | SString bytes | SNull

primrec item_of :: "amf_scalar \<Rightarrow> amf0Item" where
  "item_of (SNumber v) = makeNumberItem v"
| "item_of (SBool v) = makeBoolItem v"
| "item_of (SString v) = makeStringItem v"
| "item_of SNull = \<lparr>amfType = AMF0_NULL, amf_length = 0, amf_value = VNil\<rparr>"

definition scalar_of :: "amf0Item \<Rightarrow> amf_scalar" where
  "scalar_of it = (case amf_value it of VFloat v \<Rightarrow> SNumber v | VBool v \<Rightarrow> SBool v
     | VBytes v \<Rightarrow> SString v | VString v \<Rightarrow> SString v | VNil \<Rightarrow> SNull)"

definition scalar_ok :: "amf_scalar \<Rightarrow> bool" where
  "scalar_ok s \<longleftrightarrow> (case s of SString v \<Rightarrow> length v \<le> 0xFFFF | _ \<Rightarrow> True)"

definition accepted :: "(amf0_error, 'a) result \<Rightarrow> 'a option" where
  "accepted r = (case r of Some (Inr x) \<Rightarrow> Some x | _ \<Rightarrow> None)"

lemma encodable_item_of: "scalar_ok s \<Longrightarrow> encodable (item_of s)"
  by (cases s) (simp_all add: encodable_def item_appendTo_def scalar_ok_def makeNumberItem_def
      makeBoolItem_def makeStringItem_def)

lemma scalar_of_received: "scalar_of (received (item_of s)) = s"
  by (cases s) (simp_all add: scalar_of_def received_def makeNumberItem_def makeBoolItem_def
      makeStringItem_def)

interpretation amf_scalar: prefix_codec "\<lambda>s. enc_item (item_of s)"
  "\<lambda>bs. map_option (\<lambda>(it, n). (scalar_of it, n)) (accepted (item_decode bs))" scalar_ok
proof
  fix s r assume "scalar_ok s"
  then show "map_option (\<lambda>(it, n). (scalar_of it, n)) (accepted (item_decode (enc_item (item_of s) @ r))) =
      Some (s, length (enc_item (item_of s)))"
    by (simp add: item_decode_enc [OF encodable_item_of] accepted_def scalar_of_received)
next
  fix s assume "scalar_ok s"
  then show "enc_item (item_of s) \<noteq> []" using enc_item_head [OF encodable_item_of] by force
qed

definition object_of :: "(bytes \<times> amf_scalar) list \<Rightarrow> amfObject" where
  "object_of ps = map (\<lambda>(k, s). \<lparr>item_name = k, item_value = item_of s\<rparr>) ps"

definition pairs_of :: "amfObject \<Rightarrow> (bytes \<times> amf_scalar) list" where
  "pairs_of ob = map (\<lambda>i. (item_name i, scalar_of (item_value i))) ob"

definition pairs_ok :: "(bytes \<times> amf_scalar) list \<Rightarrow> bool" where
  "pairs_ok ps \<longleftrightarrow> list_all (\<lambda>(k, s). length k \<le> 0xFFFF \<and> scalar_ok s) ps"

lemma object_encodable_of: "pairs_ok ps \<Longrightarrow> object_encodable (object_of ps)"
  by (auto simp: pairs_ok_def object_encodable_def object_of_def list_all_iff encodable_item_of)

lemma pairs_of_received: "pairs_of (received_object (object_of ps)) = ps"
  by (induction ps) (auto simp: pairs_of_def received_object_def object_of_def scalar_of_received)

interpretation amf_object: prefix_codec "\<lambda>ps. enc_object (object_of ps)"
  "\<lambda>bs. map_option (\<lambda>(ob, n). (pairs_of ob, n)) (accepted (object_decode bs))" pairs_ok
proof
  fix ps r assume "pairs_ok ps"
  then show "map_option (\<lambda>(ob, n). (pairs_of ob, n))
      (accepted (object_decode (enc_object (object_of ps) @ r))) =
      Some (ps, length (enc_object (object_of ps)))"
    by (simp add: object_decode_enc [OF object_encodable_of] accepted_def pairs_of_received)
next
  fix ps assume "pairs_ok ps"
  then show "enc_object (object_of ps) \<noteq> []"
    by (simp add: object_appendTo_enc [OF object_encodable_of])
qed

text \<open>The skipper and the decoder agree on the length of an encoded object.\<close>

lemma amf0Skip_item:
  assumes "encodable it" shows "amf0Skip (enc_item it @ r) = ok (length (enc_item it))"
  using assms
proof (cases rule: item_appendTo_enc)
  case (3 v)
  have "amf_u16 ([AMF0_STRING] @ be16 (word_of_nat (length v)) @ v @ r) 1 = Some (length v)"
    using amf_u16_at [OF 3(3), of "[AMF0_STRING]" "v @ r"] by simp
  then show ?thesis using 3 by (simp add: amf0Skip.simps amf_need_def)
qed (simp_all add: amf0Skip.simps amf_need_def)

section \<open>Properties\<close>

text \<open>
  C8: a command message of any items and objects the encoder accepts is decoded into the
  same items and objects, in order (a string as bytes, every item with its length).
\<close>

theorem amf0_message_round_trip:
  assumes "list_all part_ok ps"
  shows "\<exists>bs. amf0Buf_bytes (fold put_part ps \<lparr>abuf = [], abuf_err = None\<rparr>) = Inr bs \<and>
    decodeAmf0 bs = ok (part_items ps, part_objects ps)"
  using assms by (rule message_round_trip)

theorem amf0_message_round_trip_witness:
  "\<exists>bs. amf0Buf_bytes (fold put_part [Item (makeStringItem [0x70]), Object [\<lparr>item_name = [0x61],
       item_value = makeBoolItem True\<rparr>]] \<lparr>abuf = [], abuf_err = None\<rparr>) = Inr bs \<and>
    map_option (map_sum id (\<lambda>(a, b). (length a, length b))) (decodeAmf0 bs) = ok (1, 1)"
proof -
  let ?ps = "[Item (makeStringItem [0x70]), Object [\<lparr>item_name = [0x61], item_value = makeBoolItem True\<rparr>]]"
  have "list_all part_ok ?ps" "length (part_items ?ps) = 1" "length (part_objects ?ps) = 1"
    by (simp_all add: encodable_def object_encodable_def item_appendTo_def makeStringItem_def
        makeBoolItem_def part_items_def part_objects_def)
  moreover obtain bs where "amf0Buf_bytes (fold put_part ?ps \<lparr>abuf = [], abuf_err = None\<rparr>) = Inr bs"
    "decodeAmf0 bs = ok (part_items ?ps, part_objects ?ps)"
    using amf0_message_round_trip [OF \<open>list_all part_ok ?ps\<close>] by blast
  ultimately show ?thesis by (intro exI [of _ bs]) (simp del: fold_simps)
qed

text \<open>
  C9: no bytes make the decoders or the skipper panic, and the size each reports is positive
  and inside its input: nested arrays and objects included.
\<close>

theorem amf0_decoders_total:
  "(\<exists>r. decodeAmf0 data = Some r) \<and> used_ok 1 (length data) (amf0Skip data) \<and>
   pair_ok 1 (length data) (item_decode data) \<and> pair_ok 1 (length data) (object_decode data)"
  using decodeAmf0_total [of data] amf0Skip_total [of data] item_decode_total [of data]
    object_decode_total [of data] by simp

text \<open>
  objects are uniquely decodable: two sequences of objects with the same bytes are the
  same sequence.
\<close>

theorem amf0_objects_unique:
  assumes "\<forall>x\<in>set xs. pairs_ok x" and "\<forall>y\<in>set ys. pairs_ok y"
    and "concat (map (\<lambda>ps. enc_object (object_of ps)) xs) = concat (map (\<lambda>ps. enc_object (object_of ps)) ys)"
  shows "xs = ys"
  using assms by (rule amf_object.concat_enc_inj)

theorem amf0_objects_unique_witness:
  "[[([0x61], SNull)], []] = [[([0x61], SNull)], [] :: (bytes \<times> amf_scalar) list]"
proof (rule amf0_objects_unique)
qed (simp_all add: pairs_ok_def scalar_ok_def)

end
