(* ===== verification/RtmpChunk.thy ===== *)
theory RtmpChunk
  imports Prelude "HOL-Library.AList"
begin

text \<open>
  The RTMP chunk layer, \<open>go-rtmp/chunk.go\<close>: the chunk headers and the writer that splits a
  message into chunks.  The reader is in \<open>RtmpReader\<close>.

  A header is written into a slice that the caller allocated; \<open>None\<close> is a panic because it is
  too short.  The lemmas: a header occupies exactly the bytes that \<open>headSize\<close> promised and
  is the concatenation of its fields, and \<open>writeData\<close> returns the chunks of the message.
\<close>

unbundle bit_operations_syntax

datatype rtmp_error = ErrInvalidCsid | ErrInvalidChunkFmt | ErrTooManyChunkStreams
  | ErrBufferedTooMuch | ErrMessageLength | ErrParserState

definition ChunkType :: "nat list" where
  "ChunkType = [11, 7, 3, 0]"

definition maxRtmpMessageLen :: int where "maxRtmpMessageLen = 0x00ffffff"
definition maxCsid :: u32 where "maxCsid = 65599"
definition FIX_CHUNK_SIZE :: int where "FIX_CHUNK_SIZE = 128"

section \<open>Headers\<close>

record basicHead =
  bh_fmt :: byte
  bh_csid :: u32

definition bh_size :: "basicHead \<Rightarrow> (rtmp_error, nat) result" where
  "bh_size bh =
     (if bh_csid bh < 64 then ok 1
      else if bh_csid bh < 320 then ok 2
      else if bh_csid bh \<le> maxCsid then ok 3
      else err ErrInvalidCsid)"

definition bh_encodeTo :: "basicHead \<Rightarrow> bytes \<Rightarrow> (rtmp_error, bytes \<times> nat) result" where
  "bh_encodeTo bh dst = do {
     dst \<leftarrow> upd dst 0 (push_bit 6 (bh_fmt bh));
     if bh_csid bh < 64 then do {
       b \<leftarrow> idx dst 0;
       dst \<leftarrow> upd dst 0 (b OR ucast (bh_csid bh));
       ok (dst, 1)
     }
     else if bh_csid bh < 320 then do {
       dst \<leftarrow> upd dst 1 (ucast (bh_csid bh - 64));
       ok (dst, 2)
     }
     else if bh_csid bh \<le> maxCsid then do {
       b \<leftarrow> idx dst 0;
       dst \<leftarrow> upd dst 0 (b OR 1);
       dst \<leftarrow> put_at dst 1 (le16 (ucast (bh_csid bh - 64)));
       ok (dst, 3)
     }
     else err ErrInvalidCsid
   }"

definition bh_encode :: "basicHead \<Rightarrow> (rtmp_error, bytes) result" where
  "bh_encode bh = do {
     hdr \<leftarrow> make_bytes 3;
     rbind (bh_encodeTo bh hdr) (\<lambda>(hdr, n). map_option Inr (slice_to hdr (int n)))
   }"

definition bh_decode :: "bytes \<Rightarrow> basicHead option" where
  "bh_decode data = do {
     d0 \<leftarrow> idx data 0;
     let fmt = drop_bit 6 d0;
     let csid = (ucast (d0 AND 0x3F) :: u32);
     if csid = 0 then do {
       d1 \<leftarrow> idx data 1;
       Some \<lparr>bh_fmt = fmt, bh_csid = ucast d1 + 64\<rparr>
     }
     else if csid = 1 then do {
       d1 \<leftarrow> idx data 1;
       d2 \<leftarrow> idx data 2;
       Some \<lparr>bh_fmt = fmt, bh_csid = ucast d2 * 256 + ucast d1 + 64\<rparr>
     }
     else Some \<lparr>bh_fmt = fmt, bh_csid = csid\<rparr>
   }"

definition clacBasicHeadLen :: "bytes \<Rightarrow> nat option" where
  "clacBasicHeadLen data = do {
     d0 \<leftarrow> idx data 0;
     let csid = d0 AND 0x3F;
     Some (if csid = 0 then 2 else if csid = 1 then 3 else 1)
   }"

record chunkMsgHead =
  mh_timestamp :: u32
  mh_msgLen :: u32
  mh_msgTypeId :: byte
  mh_msgStreamId :: u32

definition hasExtendedTs :: "chunkMsgHead \<Rightarrow> bool" where
  "hasExtendedTs cmh \<longleftrightarrow> mh_timestamp cmh \<ge> 0x00ffffff"

text \<open>The cases of the format fall through: 0 does all three, 1 the last two, 2 the last.\<close>

definition mh_put_stream :: "chunkMsgHead \<Rightarrow> bytes \<Rightarrow> bytes option" where
  "mh_put_stream cmh dst = put_at dst 7 (le32 (mh_msgStreamId cmh))"

definition mh_put_length :: "chunkMsgHead \<Rightarrow> bytes \<Rightarrow> bytes option" where
  "mh_put_length cmh dst = do {
     dst \<leftarrow> upd dst 3 (ucast (drop_bit 16 (mh_msgLen cmh)));
     dst \<leftarrow> upd dst 4 (ucast (drop_bit 8 (mh_msgLen cmh)));
     dst \<leftarrow> upd dst 5 (ucast (mh_msgLen cmh));
     upd dst 6 (mh_msgTypeId cmh)
   }"

definition mh_put_time :: "chunkMsgHead \<Rightarrow> bytes \<Rightarrow> bytes option" where
  "mh_put_time cmh dst =
     (if hasExtendedTs cmh then do {
        dst \<leftarrow> upd dst 0 0xff;
        dst \<leftarrow> upd dst 1 0xff;
        upd dst 2 0xff
      }
      else do {
        dst \<leftarrow> upd dst 0 (ucast (drop_bit 16 (mh_timestamp cmh)));
        dst \<leftarrow> upd dst 1 (ucast (drop_bit 8 (mh_timestamp cmh)));
        upd dst 2 (ucast (mh_timestamp cmh))
      })"

definition mh_encodeTo :: "chunkMsgHead \<Rightarrow> byte \<Rightarrow> bytes \<Rightarrow> (rtmp_error, bytes \<times> nat) result" where
  "mh_encodeTo cmh format dst =
     (if format > 3 then err ErrInvalidChunkFmt
      else do {
        dst \<leftarrow> (if format = 0 then mh_put_stream cmh dst else Some dst);
        dst \<leftarrow> (if format \<le> 1 then mh_put_length cmh dst else Some dst);
        dst \<leftarrow> (if format \<le> 2 then mh_put_time cmh dst else Some dst);
        n \<leftarrow> idx ChunkType (uint format);
        ok (dst, n)
      })"

definition mh_encode :: "chunkMsgHead \<Rightarrow> byte \<Rightarrow> (rtmp_error, bytes) result" where
  "mh_encode cmh format = do {
     hdr \<leftarrow> make_bytes 11;
     rbind (mh_encodeTo cmh format hdr) (\<lambda>(hdr, n). map_option Inr (slice_to hdr (int n)))
   }"

definition mh_decode :: "byte \<Rightarrow> bytes \<Rightarrow> chunkMsgHead \<Rightarrow> (rtmp_error, chunkMsgHead) result" where
  "mh_decode format data cmh =
     (if format > 3 then err ErrInvalidChunkFmt
      else do {
        cmh \<leftarrow> (if format = 0 then do {
            d \<leftarrow> slice_from data 7;
            w \<leftarrow> get_le32 d;
            Some (cmh\<lparr>mh_msgStreamId := w\<rparr>)
          } else Some cmh);
        cmh \<leftarrow> (if format \<le> 1 then do {
            d3 \<leftarrow> idx data 3;
            d4 \<leftarrow> idx data 4;
            d5 \<leftarrow> idx data 5;
            d6 \<leftarrow> idx data 6;
            Some (cmh\<lparr>mh_msgLen := push_bit 16 (ucast d3) OR push_bit 8 (ucast d4) OR ucast d5,
              mh_msgTypeId := d6\<rparr>)
          } else Some cmh);
        cmh \<leftarrow> (if format \<le> 2 then do {
            d0 \<leftarrow> idx data 0;
            d1 \<leftarrow> idx data 1;
            d2 \<leftarrow> idx data 2;
            Some (cmh\<lparr>mh_timestamp := push_bit 16 (ucast d0) OR push_bit 8 (ucast d1) OR ucast d2\<rparr>)
          } else Some cmh);
        ok cmh
      })"

section \<open>Chunks\<close>

record chunkPacket =
  basic :: basicHead
  msgHdr :: chunkMsgHead
  chk_data :: bytes

definition headSize :: "chunkPacket \<Rightarrow> (rtmp_error, nat) result" where
  "headSize chk =
     (if bh_fmt (basic chk) > 3 then err ErrInvalidChunkFmt
      else rbind (bh_size (basic chk)) (\<lambda>basicSize. do {
        n \<leftarrow> idx ChunkType (uint (bh_fmt (basic chk)));
        ok (basicSize + n + (if hasExtendedTs (msgHdr chk) then 4 else 0))
      }))"

definition encodeHeadTo :: "chunkPacket \<Rightarrow> bytes \<Rightarrow> (rtmp_error, bytes \<times> nat) result" where
  "encodeHeadTo chk dst =
     rbind (bh_encodeTo (basic chk) dst) (\<lambda>(dst, n). do {
       tail \<leftarrow> slice_from dst (int n);
       rbind (mh_encodeTo (msgHdr chk) (bh_fmt (basic chk)) tail) (\<lambda>(tail, m).
         let dst = take n dst @ tail; n = n + m in
         if hasExtendedTs (msgHdr chk) then do {
           dst \<leftarrow> put_at dst (int n) (be32 (mh_timestamp (msgHdr chk)));
           ok (dst, n + 4)
         }
         else ok (dst, n))
     })"

definition chunk_encode :: "chunkPacket \<Rightarrow> (rtmp_error, bytes) result" where
  "chunk_encode chk =
     rbind (headSize chk) (\<lambda>size. do {
       pkt \<leftarrow> make_bytes (int (size + length (chk_data chk)));
       rbind (encodeHeadTo chk pkt) (\<lambda>(pkt, n). do {
         pkt \<leftarrow> copy_at pkt (int n) (chk_data chk);
         ok pkt
       })
     })"

section \<open>The writer\<close>

record chunkStreamWriter =
  cw_csid :: u32
  cw_timestamp :: u32
  cw_current :: "chunkPacket option"
  cw_chunkSize :: u32

definition newChunkStreamWriter :: "u32 \<Rightarrow> chunkStreamWriter" where
  "newChunkStreamWriter csid = \<lparr>cw_csid = csid, cw_timestamp = 0, cw_current = None,
     cw_chunkSize = word_of_int FIX_CHUNK_SIZE\<rparr>"

text \<open>
  The loop of \<open>writeData\<close>: the buffer, how much of it is written, what is left of the
  message.  A chunk size of zero is replaced before, which the termination needs.
\<close>

function writeChunks :: "nat \<Rightarrow> chunkPacket \<Rightarrow> bytes \<Rightarrow> nat \<Rightarrow> bytes \<Rightarrow> (rtmp_error, bytes \<times> nat) result" where
  "writeChunks chunkSize chk chks n data =
     (if data = [] then ok (chks, n)
      else if chunkSize = 0 then None
      else do {
        dst \<leftarrow> slice_from chks (int n);
        rbind (encodeHeadTo chk dst) (\<lambda>(dst, written).
          let chks = take n chks @ dst; n = n + written;
              payload = (if length data > chunkSize then take chunkSize data else data) in do {
            room \<leftarrow> slice_from chks (int n);
            chks \<leftarrow> copy_at chks (int n) payload;
            writeChunks chunkSize (chk\<lparr>basic := (basic chk)\<lparr>bh_fmt := 3\<rparr>\<rparr>) chks
              (n + min (length room) (length payload)) (drop (length payload) data)
          })
      })"
  by pat_completeness auto
termination
  by (relation "measure (\<lambda>(cs, chk, chks, n, data). length data)") auto

declare writeChunks.simps [simp del]

text \<open>The header of the first chunk: the format, and the packet as \<open>writeData\<close> updates it.\<close>

definition choose_format :: "chunkStreamWriter \<Rightarrow> bytes \<Rightarrow> int \<Rightarrow> u32 \<Rightarrow> u32 \<Rightarrow> byte \<times> u32" where
  "choose_format cs data msgType streamId ts =
     (case cw_current cs of
        None \<Rightarrow> (0, ts)
      | Some lastChunk \<Rightarrow>
          if streamId = mh_msgStreamId (msgHdr lastChunk) \<and> ts \<ge> cw_timestamp cs then
            let delta = ts - cw_timestamp cs in
            if msgType = uint (mh_msgTypeId (msgHdr lastChunk)) \<and>
               uint (mh_msgLen (msgHdr lastChunk)) = glen data then
              if delta = mh_timestamp (msgHdr lastChunk) then (3, delta) else (2, delta)
            else (1, delta)
          else (0, ts))"

text \<open>The size of all chunks of a message, which \<open>writeData\<close> computes to allocate once.\<close>

definition chunks_size :: "nat \<Rightarrow> chunkPacket \<Rightarrow> bytes \<Rightarrow> (rtmp_error, nat) result" where
  "chunks_size chunkSize chk data =
     (let chunkCount = (length data + chunkSize - 1) div chunkSize in
      rbind (headSize chk) (\<lambda>firstHeadSize.
      rbind (headSize (chk\<lparr>basic := (basic chk)\<lparr>bh_fmt := 3\<rparr>\<rparr>)) (\<lambda>contHeadSize.
      ok (firstHeadSize + (chunkCount - 1) * contHeadSize + length data))))"

definition writeData :: "bytes \<Rightarrow> int \<Rightarrow> u32 \<Rightarrow> u32 \<Rightarrow> chunkStreamWriter
    \<Rightarrow> (rtmp_error, bytes) result \<times> chunkStreamWriter" where
  "writeData data msgType streamId ts cs =
     (if cw_csid cs > maxCsid then (err ErrInvalidCsid, cs)
      else
        let (format, delta) = choose_format cs data msgType streamId ts;
            last = (case cw_current cs of Some c \<Rightarrow> c
              | None \<Rightarrow> \<lparr>basic = \<lparr>bh_fmt = 0, bh_csid = cw_csid cs\<rparr>,
                  msgHdr = \<lparr>mh_timestamp = 0, mh_msgLen = 0, mh_msgTypeId = 0, mh_msgStreamId = 0\<rparr>,
                  chk_data = []\<rparr>);
            chk = \<lparr>basic = (basic last)\<lparr>bh_fmt := format\<rparr>,
              msgHdr = \<lparr>mh_timestamp = delta, mh_msgLen = word_of_int (glen data),
                mh_msgTypeId = word_of_int msgType, mh_msgStreamId = streamId\<rparr>,
              chk_data = []\<rparr>;
            cs1 = cs\<lparr>cw_current := Some chk, cw_timestamp := ts\<rparr>
        in if data = [] then (ok [], cs1)
        else
          let chunkSize = (if cw_chunkSize cs = 0 then nat FIX_CHUNK_SIZE else unat (cw_chunkSize cs));
              out = rbind (chunks_size chunkSize chk data) (\<lambda>total. do {
                chks \<leftarrow> make_bytes (int total);
                rbind (writeChunks chunkSize chk chks 0 data) (\<lambda>(chks, n).
                  map_option Inr (slice_to chks (int n)))
              })
          in (out, cs1\<lparr>cw_current := Some (chk\<lparr>basic := (basic chk)\<lparr>bh_fmt := 3\<rparr>\<rparr>)\<rparr>))"

text \<open>Several messages on several chunk streams, with the first error kept.\<close>

record chunkBatch =
  cb_buf :: bytes
  cb_err :: "rtmp_error option"

definition chunkBatch_write :: "rtmp_error + bytes \<Rightarrow> int \<Rightarrow> u32 \<Rightarrow> u32 \<Rightarrow> chunkStreamWriter \<Rightarrow> chunkBatch
    \<Rightarrow> (chunkStreamWriter \<times> chunkBatch) option" where
  "chunkBatch_write msg msgType streamId ts cs b =
     (if cb_err b \<noteq> None then Some (cs, b)
      else case msg of
        Inl e \<Rightarrow> Some (cs, b\<lparr>cb_err := Some e\<rparr>)
      | Inr m \<Rightarrow>
          (case writeData m msgType streamId ts cs of
             (None, cs) \<Rightarrow> None
           | (Some (Inl e), cs) \<Rightarrow> Some (cs, b\<lparr>cb_err := Some e\<rparr>)
           | (Some (Inr pkt), cs) \<Rightarrow> Some (cs, b\<lparr>cb_buf := cb_buf b @ pkt\<rparr>)))"

definition chunkBatch_bytes :: "chunkBatch \<Rightarrow> rtmp_error + bytes" where
  "chunkBatch_bytes b = (case cb_err b of Some e \<Rightarrow> Inl e | None \<Rightarrow> Inr (cb_buf b))"

section \<open>What a header is on the wire\<close>

definition bh_bytes :: "basicHead \<Rightarrow> bytes" where
  "bh_bytes bh =
     (if bh_csid bh < 64 then [push_bit 6 (bh_fmt bh) OR ucast (bh_csid bh)]
      else if bh_csid bh < 320 then [push_bit 6 (bh_fmt bh), ucast (bh_csid bh - 64)]
      else (push_bit 6 (bh_fmt bh) OR 1) # le16 (ucast (bh_csid bh - 64)))"

definition be24 :: "u32 \<Rightarrow> bytes" where
  "be24 w = [ucast (drop_bit 16 w), ucast (drop_bit 8 w), ucast w]"

definition mh_bytes :: "byte \<Rightarrow> chunkMsgHead \<Rightarrow> bytes" where
  "mh_bytes format h =
     (if format \<le> 2 then (if hasExtendedTs h then [0xff, 0xff, 0xff] else be24 (mh_timestamp h)) else []) @
     (if format \<le> 1 then be24 (mh_msgLen h) @ [mh_msgTypeId h] else []) @
     (if format = 0 then le32 (mh_msgStreamId h) else [])"

definition head_bytes :: "chunkPacket \<Rightarrow> bytes" where
  "head_bytes chk = bh_bytes (basic chk) @ mh_bytes (bh_fmt (basic chk)) (msgHdr chk) @
     (if hasExtendedTs (msgHdr chk) then be32 (mh_timestamp (msgHdr chk)) else [])"

lemma bh_size_bytes: "bh_csid bh \<le> maxCsid \<Longrightarrow> bh_size bh = ok (length (bh_bytes bh))"
  by (simp add: bh_size_def bh_bytes_def)

lemma bh_encodeTo_bytes:
  assumes "bh_csid bh \<le> maxCsid" and "length (bh_bytes bh) \<le> length dst"
  shows "bh_encodeTo bh dst = ok (bh_bytes bh @ drop (length (bh_bytes bh)) dst, length (bh_bytes bh))"
proof -
  obtain a r where dst: "dst = a # r" using assms(2) by (cases dst) (simp_all add: bh_bytes_def split: if_splits)
  consider "bh_csid bh < 64" | "\<not> bh_csid bh < 64" "bh_csid bh < 320"
    | "\<not> bh_csid bh < 64" "\<not> bh_csid bh < 320" by blast
  then show ?thesis
  proof cases
    case 1
    then show ?thesis by (simp add: dst bh_encodeTo_def bh_bytes_def upd_def idx_def)
  next
    case 2
    then obtain b q where "r = b # q" using assms(2) dst by (cases r) (simp_all add: bh_bytes_def)
    then show ?thesis using 2 by (simp add: dst bh_encodeTo_def bh_bytes_def upd_def idx_def)
  next
    case 3
    then have "2 \<le> length r" using assms(2) dst by (simp add: bh_bytes_def)
    then have "put_at (x # r) 1 (le16 w) = Some (x # le16 w @ drop 2 r)" for x w
      by (simp add: put_at_def numeral_2_eq_2)
    then show ?thesis using 3 assms(1)
      by (simp add: dst bh_encodeTo_def bh_bytes_def upd_def idx_def numeral_2_eq_2)
  qed
qed

lemma list_11: "11 \<le> length xs \<Longrightarrow> \<exists>a b c d e f g h i j k r. xs = a # b # c # d # e # f # g # h # i # j # k # r"
  by (auto simp: numeral_eq_Suc Suc_le_length_iff)

lemma list_7: "7 \<le> length xs \<Longrightarrow> \<exists>a b c d e f g r. xs = a # b # c # d # e # f # g # r"
  by (auto simp: numeral_eq_Suc Suc_le_length_iff)

lemma list_3: "3 \<le> length xs \<Longrightarrow> \<exists>a b c r. xs = a # b # c # r"
  by (auto simp: numeral_eq_Suc Suc_le_length_iff)

lemma byte_le_3: "\<not> (f :: byte) > 3 \<Longrightarrow> f = 0 \<or> f = 1 \<or> f = 2 \<or> f = 3"
proof -
  assume "\<not> f > 3"
  then have "unat f \<le> 3" by (simp add: word_le_nat_alt not_less)
  then have "unat f = 0 \<or> unat f = 1 \<or> unat f = 2 \<or> unat f = 3" by linarith
  then show ?thesis by (simp add: word_unat_eq_iff)
qed

lemma byte_le_1 [simp]: "\<not> (2 :: byte) \<le> 1" "\<not> (3 :: byte) \<le> 1"
  by (simp_all add: word_le_nat_alt)

lemma mh_encodeTo_bytes:
  assumes "\<not> format > 3" and "length (mh_bytes format h) \<le> length dst"
  shows "mh_encodeTo h format dst =
    ok (mh_bytes format h @ drop (length (mh_bytes format h)) dst, length (mh_bytes format h))"
  using byte_le_3 [OF assms(1)]
proof (elim disjE)
  assume f: "format = 0"
  then have "11 \<le> length dst" using assms(2) by (simp add: mh_bytes_def be24_def split: if_splits)
  from list_11 [OF this] show ?thesis
    by (auto simp: f mh_encodeTo_def mh_put_stream_def mh_put_length_def mh_put_time_def mh_bytes_def
        be24_def upd_def put_at_def idx_def ChunkType_def)
next
  assume f: "format = 1"
  then have "7 \<le> length dst" using assms(2) by (simp add: mh_bytes_def be24_def split: if_splits)
  from list_7 [OF this] show ?thesis
    by (auto simp: f mh_encodeTo_def mh_put_length_def mh_put_time_def mh_bytes_def
        be24_def upd_def idx_def ChunkType_def)
next
  assume f: "format = 2"
  then have "3 \<le> length dst" using assms(2) by (simp add: mh_bytes_def be24_def split: if_splits)
  from list_3 [OF this] show ?thesis
    by (auto simp: f mh_encodeTo_def mh_put_time_def mh_bytes_def be24_def upd_def idx_def ChunkType_def)
next
  assume f: "format = 3"
  then show ?thesis by (simp add: mh_encodeTo_def mh_bytes_def idx_def ChunkType_def)
qed

lemma mh_bytes_length: "\<not> format > 3 \<Longrightarrow> idx ChunkType (uint format) = Some (length (mh_bytes format h))"
  by (drule byte_le_3) (auto simp: mh_bytes_def be24_def idx_def ChunkType_def)

lemma encodeHeadTo_bytes:
  assumes "bh_csid (basic chk) \<le> maxCsid" and "\<not> bh_fmt (basic chk) > 3"
    and "length (head_bytes chk) \<le> length dst"
  shows "encodeHeadTo chk dst =
    ok (head_bytes chk @ drop (length (head_bytes chk)) dst, length (head_bytes chk))"
proof -
  let ?b = "bh_bytes (basic chk)" and ?m = "mh_bytes (bh_fmt (basic chk)) (msgHdr chk)"
  have len: "length ?b \<le> length dst" "length ?m \<le> length (drop (length ?b) dst)"
    using assms(3) by (simp_all add: head_bytes_def split: if_splits)
  have b: "bh_encodeTo (basic chk) dst = ok (?b @ drop (length ?b) dst, length ?b)"
    by (rule bh_encodeTo_bytes [OF assms(1) len(1)])
  have m: "mh_encodeTo (msgHdr chk) (bh_fmt (basic chk)) (drop (length ?b) dst) =
      ok (?m @ drop (length ?m) (drop (length ?b) dst), length ?m)"
    by (rule mh_encodeTo_bytes [OF assms(2) len(2)])
  have s: "slice_from (?b @ drop (length ?b) dst) (int (length ?b)) = Some (drop (length ?b) dst)"
    using len(1) by (subst slice_from_int) simp_all
  show ?thesis
  proof (cases "hasExtendedTs (msgHdr chk)")
    case True
    then have "length ?b + length ?m + 4 \<le> length dst" using assms(3) by (simp add: head_bytes_def)
    then have "put_at (?b @ ?m @ drop (length ?m + length ?b) dst) (int (length ?b + length ?m))
        (be32 t) = Some (?b @ ?m @ be32 t @ drop (length ?b + length ?m + 4) dst)" for t
      by (simp add: put_at_def add.commute add.left_commute flip: of_nat_add)
    then show ?thesis using True len
      by (simp add: encodeHeadTo_def b m s Let_def head_bytes_def add.commute add.left_commute)
  next
    case False
    then show ?thesis
      by (simp add: encodeHeadTo_def b m s Let_def head_bytes_def add.commute)
  qed
qed

lemma headSize_bytes:
  "bh_csid (basic chk) \<le> maxCsid \<Longrightarrow> \<not> bh_fmt (basic chk) > 3 \<Longrightarrow>
     headSize chk = ok (length (head_bytes chk))"
  by (simp add: headSize_def bh_size_bytes head_bytes_def mh_bytes_length [of _ "msgHdr chk"])

section \<open>What a message is on the wire\<close>

definition next_chunk :: "chunkPacket \<Rightarrow> chunkPacket" where
  "next_chunk chk = chk\<lparr>basic := (basic chk)\<lparr>bh_fmt := 3\<rparr>\<rparr>"

function chunk_wire :: "nat \<Rightarrow> chunkPacket \<Rightarrow> bytes \<Rightarrow> bytes" where
  "chunk_wire k chk data =
     (if data = [] \<or> k = 0 then []
      else head_bytes chk @ take k data @ chunk_wire k (next_chunk chk) (drop k data))"
  by pat_completeness auto
termination
  by (relation "measure (\<lambda>(k, chk, data). length data)") auto

declare chunk_wire.simps [simp del]

lemma chunk_wire_Nil [simp]: "chunk_wire k chk [] = []"
  by (simp add: chunk_wire.simps)

definition chunk_ok :: "chunkPacket \<Rightarrow> bool" where
  "chunk_ok chk \<longleftrightarrow> bh_csid (basic chk) \<le> maxCsid \<and> \<not> bh_fmt (basic chk) > 3"

lemma next_chunk_sel [simp]: "chunk_ok chk \<Longrightarrow> chunk_ok (next_chunk chk)"
  "next_chunk (next_chunk chk) = next_chunk chk"
  by (simp_all add: next_chunk_def chunk_ok_def)

lemma copy_at_append: "length p \<le> length ys \<Longrightarrow>
    copy_at (xs @ ys) (int (length xs)) p = Some (xs @ p @ drop (length p) ys)"
  by (simp add: copy_at_def)

lemma writeChunks_wire:
  "0 < k \<Longrightarrow> chunk_ok chk \<Longrightarrow> length (chunk_wire k chk data) \<le> length room \<Longrightarrow>
     writeChunks k chk (w @ room) (length w) data =
       ok (w @ chunk_wire k chk data @ drop (length (chunk_wire k chk data)) room,
         length w + length (chunk_wire k chk data))"
proof (induction k chk data arbitrary: w room rule: chunk_wire.induct)
  case (1 k chk data)
  show ?case
  proof (cases "data = []")
    case True
    then show ?thesis by (simp add: writeChunks.simps)
  next
    case False
    let ?h = "head_bytes chk" and ?p = "take k data" and ?r = "chunk_wire k (next_chunk chk) (drop k data)"
    have wire: "chunk_wire k chk data = ?h @ ?p @ ?r"
      using False "1.prems" by (subst chunk_wire.simps) simp
    then have len: "length ?h + length ?p + length ?r \<le> length room" using "1.prems" by simp
    have head: "encodeHeadTo chk room = ok (?h @ drop (length ?h) room, length ?h)"
      by (rule encodeHeadTo_bytes) (use "1.prems" len in \<open>simp_all add: chunk_ok_def\<close>)
    have sl: "slice_from (w @ room) (int (length w)) = Some room" by simp
    have sl2: "slice_from (w @ ?h @ drop (length ?h) room) (int (length w + length ?h)) =
        Some (drop (length ?h) room)"
      using len by (subst slice_from_int) simp_all
    have payload: "(if length data > k then take k data else data) = ?p" by simp
    have copy: "copy_at (w @ ?h @ drop (length ?h) room) (int (length w + length ?h)) ?p =
        Some (w @ ?h @ ?p @ drop (length ?h + length ?p) room)"
      using copy_at_append [of ?p "drop (length ?h) room" "w @ ?h"] len by (simp add: add.commute)
    have n: "length ?p \<le> length (drop (length ?h) room)" using len by simp
    have dr: "drop (length ?p) data = drop k data" by (simp add: min_def)
    have "writeChunks k chk (w @ room) (length w) data =
        writeChunks k (next_chunk chk) (w @ ?h @ ?p @ drop (length ?h + length ?p) room)
          (length w + length ?h + length ?p) (drop k data)"
      using False "1.prems"(1)
      by (subst writeChunks.simps,
        simp only: sl head payload sl2 copy dr min_absorb2 [OF n] next_chunk_def Let_def
          Option.bind.simps rbind_simps prod.case take_append take_all order_refl diff_self_eq_0
          take_0 append_Nil2 append_assoc list.simps if_False neq0_conv) simp
    also have "\<dots> = ok (w @ ?h @ ?p @ ?r @ drop (length ?r) (drop (length ?h + length ?p) room),
        length w + length ?h + length ?p + length ?r)"
      using "1.IH" [of "drop (length ?h + length ?p) room" "w @ ?h @ ?p"] False "1.prems" len
      by (simp add: add.assoc)
    finally show ?thesis by (simp add: wire ac_simps)
  qed
qed

text \<open>The size computed up front is the size of what is written.\<close>

lemma length_chunk_wire:
  "0 < k \<Longrightarrow> data \<noteq> [] \<Longrightarrow> length (chunk_wire k chk data) =
     length (head_bytes chk) + ((length data + k - 1) div k - 1) * length (head_bytes (next_chunk chk))
     + length data"
proof (induction k chk data rule: chunk_wire.induct)
  case (1 k chk data)
  note k = "1.prems"(1)
  show ?case
  proof (cases "length data \<le> k")
    case True
    moreover have "(length data + k - 1) div k = 1"
    proof -
      obtain m where "length data = Suc m" using "1.prems"(2) by (cases data) auto
      moreover have "(m + k) div k = Suc (m div k)" using div_add_self2 [of k m] k by simp
      ultimately show ?thesis using True by simp
    qed
    ultimately show ?thesis using "1.prems" by (subst chunk_wire.simps) simp
  next
    case False
    let ?d = "drop k data"
    have d: "?d \<noteq> []" "length data = length ?d + k" using False by simp_all
    have "length data + k - 1 = (length ?d + k - 1) + k" using d k by linarith
    then have "(length data + k - 1) div k = (length ?d + k - 1) div k + 1"
      using k by (simp only: div_add_self2)
    moreover have "1 \<le> (length ?d + k - 1) div k"
      using d(1) k by (cases ?d) (simp_all add: Suc_le_eq div_greater_zero_iff)
    ultimately have m: "(length data + k - 1) div k - 1 = Suc ((length ?d + k - 1) div k - 1)" by linarith
    have "length (chunk_wire k chk data) =
        length (head_bytes chk) + k + length (chunk_wire k (next_chunk chk) ?d)"
      using False k by (subst chunk_wire.simps) auto
    also have "length (chunk_wire k (next_chunk chk) ?d) = length (head_bytes (next_chunk chk)) +
        ((length ?d + k - 1) div k - 1) * length (head_bytes (next_chunk chk)) + length ?d"
      using "1.IH" [OF _ k d(1)] False k "1.prems" by simp
    finally show ?thesis unfolding m using d(2) by (simp only: mult_Suc)
  qed
qed

definition effective_chunk_size :: "chunkStreamWriter \<Rightarrow> nat" where
  "effective_chunk_size cs =
     (if cw_chunkSize cs = 0 then nat FIX_CHUNK_SIZE else unat (cw_chunkSize cs))"

lemma effective_chunk_size_pos: "0 < effective_chunk_size cs"
  by (simp add: effective_chunk_size_def FIX_CHUNK_SIZE_def unat_gt_0)

text \<open>The packet header \<open>writeData\<close> starts the message with.\<close>

definition first_chunk :: "chunkStreamWriter \<Rightarrow> bytes \<Rightarrow> int \<Rightarrow> u32 \<Rightarrow> u32 \<Rightarrow> chunkPacket" where
  "first_chunk cs data msgType streamId ts =
     \<lparr>basic = \<lparr>bh_fmt = fst (choose_format cs data msgType streamId ts),
        bh_csid = (case cw_current cs of Some c \<Rightarrow> bh_csid (basic c) | None \<Rightarrow> cw_csid cs)\<rparr>,
      msgHdr = \<lparr>mh_timestamp = snd (choose_format cs data msgType streamId ts),
        mh_msgLen = word_of_int (glen data), mh_msgTypeId = word_of_int msgType,
        mh_msgStreamId = streamId\<rparr>,
      chk_data = []\<rparr>"

text \<open>A writer's current packet is on its own chunk stream.\<close>

definition writer_ok :: "chunkStreamWriter \<Rightarrow> bool" where
  "writer_ok cs \<longleftrightarrow> cw_csid cs \<le> maxCsid \<and>
     (case cw_current cs of Some c \<Rightarrow> bh_csid (basic c) = cw_csid cs | None \<Rightarrow> True)"

lemma writer_ok_new: "csid \<le> maxCsid \<Longrightarrow> writer_ok (newChunkStreamWriter csid)"
  by (simp add: writer_ok_def newChunkStreamWriter_def)

lemma choose_format_le_3: "fst (choose_format cs data msgType streamId ts) \<in> {0, 1, 2, 3}"
  by (simp add: choose_format_def Let_def split: option.split)

lemma first_chunk_ok:
  assumes "writer_ok cs"
  shows "chunk_ok (first_chunk cs data msgType streamId ts)"
    and "bh_csid (basic (first_chunk cs data msgType streamId ts)) = cw_csid cs"
proof -
  show "bh_csid (basic (first_chunk cs data msgType streamId ts)) = cw_csid cs"
    using assms by (simp add: writer_ok_def first_chunk_def split: option.split_asm)
  then show "chunk_ok (first_chunk cs data msgType streamId ts)"
    using assms choose_format_le_3 [of cs data msgType streamId ts]
    by (auto simp: chunk_ok_def writer_ok_def first_chunk_def)
qed

lemma writeData_wire:
  assumes "writer_ok cs"
  shows "writeData data msgType streamId ts cs =
    (ok (chunk_wire (effective_chunk_size cs) (first_chunk cs data msgType streamId ts) data),
     cs\<lparr>cw_current := Some ((if data = [] then id else next_chunk)
       (first_chunk cs data msgType streamId ts)), cw_timestamp := ts\<rparr>)"
proof -
  let ?chk = "first_chunk cs data msgType streamId ts" and ?k = "effective_chunk_size cs"
  obtain format delta where f: "choose_format cs data msgType streamId ts = (format, delta)"
    by (cases "choose_format cs data msgType streamId ts")
  have csid: "\<not> cw_csid cs > maxCsid" using assms by (simp add: writer_ok_def not_less)
  have chk: "\<lparr>basic = (basic (case cw_current cs of Some c \<Rightarrow> c
      | None \<Rightarrow> \<lparr>basic = \<lparr>bh_fmt = 0, bh_csid = cw_csid cs\<rparr>,
          msgHdr = \<lparr>mh_timestamp = 0, mh_msgLen = 0, mh_msgTypeId = 0, mh_msgStreamId = 0\<rparr>,
          chk_data = []\<rparr>))\<lparr>bh_fmt := format\<rparr>,
      msgHdr = \<lparr>mh_timestamp = delta, mh_msgLen = word_of_int (glen data),
        mh_msgTypeId = word_of_int msgType, mh_msgStreamId = streamId\<rparr>, chk_data = []\<rparr> = ?chk"
    by (simp add: first_chunk_def f split: option.split)
  have ok: "chunk_ok ?chk" "chunk_ok (next_chunk ?chk)"
    using first_chunk_ok(1) [OF assms] by simp_all
  have k: "0 < ?k" by (rule effective_chunk_size_pos)
  show ?thesis
  proof (cases "data = []")
    case True
    show ?thesis
      using csid by (simp only: writeData_def f chk Let_def prod.case if_False) (simp add: True)
  next
    case False
    let ?n = "length (head_bytes ?chk) + ((length data + ?k - 1) div ?k - 1) *
      length (head_bytes (next_chunk ?chk)) + length data"
    have n: "?n = length (chunk_wire ?k ?chk data)" using length_chunk_wire [OF k False] by simp
    have w: "writeChunks ?k ?chk (replicate ?n 0) 0 data = ok (chunk_wire ?k ?chk data, ?n)"
      using writeChunks_wire [OF k ok(1), of data "replicate ?n 0" "[]"] n by simp
    have heads: "headSize ?chk = ok (length (head_bytes ?chk))"
      "headSize (next_chunk ?chk) = ok (length (head_bytes (next_chunk ?chk)))"
      using ok by (simp_all add: headSize_bytes chunk_ok_def)
    have size: "chunks_size ?k ?chk data = ok ?n"
      using heads by (simp add: chunks_size_def next_chunk_def)
    have ks: "(if cw_chunkSize cs = 0 then nat FIX_CHUNK_SIZE else unat (cw_chunkSize cs)) = ?k"
      by (simp add: effective_chunk_size_def)
    have mk: "make_bytes (int ?n) = Some (replicate ?n 0)" by (simp only: make_bytes_def nat_int) simp
    have sl: "slice_to (chunk_wire ?k ?chk data) (int ?n) = Some (chunk_wire ?k ?chk data)"
      by (simp only: n slice_to_def) simp
    have nx: "?chk\<lparr>basic := (basic ?chk)\<lparr>bh_fmt := 3\<rparr>\<rparr> = next_chunk ?chk" by (simp add: next_chunk_def)
    show ?thesis
      using False csid
      by (simp only: writeData_def f chk ks nx size Let_def rbind_simps prod.case mk
          Option.bind.simps w sl option.map if_False) simp
  qed
qed

text \<open>The size that is computed is the size of what is written.\<close>

lemma chunks_size_wire:
  assumes "chunk_ok chk" and "0 < k" and "data \<noteq> []"
  shows "chunks_size k chk data = ok (length (chunk_wire k chk data))"
  using length_chunk_wire [OF assms(2,3), of chk] assms(1)
  by (simp add: chunks_size_def headSize_bytes chunk_ok_def flip: next_chunk_def) (simp add: headSize_bytes next_chunk_def)

section \<open>What a receiver understands\<close>

text \<open>
  The rules of RTMP, chapter 5.3.1.2: a header of type 0 says everything; one of type 1 keeps the stream
  of the message before and says the difference of the times; one of type 2 keeps length and type, too;
  one of type 3 keeps also the difference (or, behind a header of type 0, its time).
\<close>

record announcement =
  an_time :: u32
  an_delta :: u32
  an_length :: int
  an_type :: int
  an_stream :: u32

definition heard :: "nat \<Rightarrow> announcement \<Rightarrow> announcement option \<Rightarrow> announcement option" where
  "heard f w before =
     (if f = 0 then Some (w\<lparr>an_time := an_delta w\<rparr>)
      else map_option (\<lambda>p. let d = (if f = 3 then an_delta p else an_delta w) in
        \<lparr>an_time = an_time p + d, an_delta = d, an_length = (if f = 1 then an_length w else an_length p),
          an_type = (if f = 1 then an_type w else an_type p), an_stream = an_stream p\<rparr>) before)"

text \<open>The message a writer has sent before, and the time field of the next header.\<close>

definition said_before :: "chunkStreamWriter \<Rightarrow> announcement option" where
  "said_before cs = map_option (\<lambda>c. \<lparr>an_time = cw_timestamp cs, an_delta = mh_timestamp (msgHdr c), an_length = uint (mh_msgLen (msgHdr c)),
     an_type = uint (mh_msgTypeId (msgHdr c)), an_stream = mh_msgStreamId (msgHdr c)\<rparr>) (cw_current cs)"

definition time_field :: "chunkStreamWriter \<Rightarrow> u32 \<Rightarrow> nat \<Rightarrow> u32" where
  "time_field cs ts f = (if f = 0 then ts else ts - cw_timestamp cs)"

text \<open>A receiver understands the message from a header of type \<open>f\<close>; times in differences do not go back.\<close>

definition understood :: "chunkStreamWriter \<Rightarrow> bytes \<Rightarrow> int \<Rightarrow> u32 \<Rightarrow> u32 \<Rightarrow> nat \<Rightarrow> bool" where
  "understood cs data msgType streamId ts f \<longleftrightarrow> (f = 0 \<or> cw_timestamp cs \<le> ts) \<and>
     (case heard f \<lparr>an_time = 0, an_delta = time_field cs ts f, an_length = glen data, an_type = msgType, an_stream = streamId\<rparr> (said_before cs) of
        None \<Rightarrow> False
      | Some a \<Rightarrow> an_time a = ts \<and> an_length a = glen data \<and> an_type a = msgType \<and> an_stream a = streamId)"

text \<open>The shortest header that is understood, and the first chunk with it.\<close>

definition shortest_format :: "chunkStreamWriter \<Rightarrow> bytes \<Rightarrow> int \<Rightarrow> u32 \<Rightarrow> u32 \<Rightarrow> nat" where
  "shortest_format cs data msgType streamId ts = last (filter (understood cs data msgType streamId ts) [0, 1, 2, 3])"

definition shortest_chunk :: "chunkStreamWriter \<Rightarrow> bytes \<Rightarrow> int \<Rightarrow> u32 \<Rightarrow> u32 \<Rightarrow> chunkPacket" where
  "shortest_chunk cs data msgType streamId ts = (let f = shortest_format cs data msgType streamId ts in
     \<lparr>basic = \<lparr>bh_fmt = word_of_nat f, bh_csid = cw_csid cs\<rparr>,
      msgHdr = \<lparr>mh_timestamp = time_field cs ts f, mh_msgLen = word_of_int (glen data), mh_msgTypeId = word_of_int msgType,
        mh_msgStreamId = streamId\<rparr>,
      chk_data = []\<rparr>)"

lemma choose_format_shortest:
  "choose_format cs data msgType streamId ts =
    (word_of_nat (shortest_format cs data msgType streamId ts), time_field cs ts (shortest_format cs data msgType streamId ts))"
proof (cases "cw_current cs")
  case None
  then show ?thesis
    by (simp add: choose_format_def shortest_format_def understood_def heard_def said_before_def time_field_def)
next
  case (Some c)
  have eq: "cw_timestamp cs + d = ts \<longleftrightarrow> ts - cw_timestamp cs = d" for d by (auto simp: algebra_simps)
  show ?thesis
    by (simp add: choose_format_def shortest_format_def understood_def heard_def said_before_def time_field_def Some Let_def eq)
qed

lemma first_chunk_shortest: "writer_ok cs \<Longrightarrow> first_chunk cs data msgType streamId ts = shortest_chunk cs data msgType streamId ts"
  by (simp add: first_chunk_def shortest_chunk_def choose_format_shortest Let_def writer_ok_def split: option.splits)

section \<open>Properties\<close>



end
