(* ===== verification/Incremental.thy ===== *)
theory Incremental
  imports Prelude
begin

text \<open>
  The contract of a parser that is fed its input in pieces of any size: what it cannot use
  yet it keeps in its state.  \<open>step\<close> is one turn of the parser's loop, \<open>run\<close> the loop on one
  piece.  From laws about single steps the locale derives that the loop cannot tell how the
  input was cut, and that it never panics.
\<close>

datatype ('e, 's) outcome = Panic | Stop 's | Fail 'e 's | Next 's bytes

text \<open>Feeding the pieces one after the other; the first error ends it.\<close>

primrec feed :: "('s \<Rightarrow> bytes \<Rightarrow> ('e option \<times> 's) option) \<Rightarrow> 's \<Rightarrow> bytes list
    \<Rightarrow> ('e option \<times> 's) option" where
  "feed run s [] = Some (None, s)"
| "feed run s (p # ps) =
     (case run s p of
        Some (None, s') \<Rightarrow> feed run s' ps
      | r \<Rightarrow> r)"

locale incremental =
  fixes step :: "'s \<Rightarrow> bytes \<Rightarrow> ('e, 's) outcome"
    and more :: "'s \<Rightarrow> bytes \<Rightarrow> bool"
    and run :: "'s \<Rightarrow> bytes \<Rightarrow> ('e option \<times> 's) option"
    and weight :: "'s \<Rightarrow> bytes \<Rightarrow> nat"
    and inv :: "'s \<Rightarrow> bool"
  assumes run_eq: "run s d =
      (if more s d then
         (case step s d of
            Panic \<Rightarrow> None
          | Stop s' \<Rightarrow> Some (None, s')
          | Fail e s' \<Rightarrow> Some (Some e, s')
          | Next s' d' \<Rightarrow> run s' d')
       else Some (None, s))"
    and more_input: "d \<noteq> [] \<Longrightarrow> more s d"
    and next_law: "inv s \<Longrightarrow> more s d \<Longrightarrow> step s d = Next s' d' \<Longrightarrow> inv s' \<and> weight s' d' < weight s d"
    and stop_law: "inv s \<Longrightarrow> more s d \<Longrightarrow> step s d = Stop s' \<Longrightarrow> inv s' \<and> \<not> more s' []"
    and no_panic: "inv s \<Longrightarrow> more s d \<Longrightarrow> step s d \<noteq> Panic"
    and append_next: "inv s \<Longrightarrow> more s a \<Longrightarrow> step s a = Next s' a' \<Longrightarrow> step s (a @ b) = Next s' (a' @ b)"
    and append_fail: "inv s \<Longrightarrow> more s a \<Longrightarrow> step s a = Fail e s' \<Longrightarrow> step s (a @ b) = Fail e s'"
    and append_stop: "inv s \<Longrightarrow> more s a \<Longrightarrow> step s a = Stop s' \<Longrightarrow> b \<noteq> [] \<Longrightarrow> step s (a @ b) = step s' b"
begin

lemma run_total: "inv s \<Longrightarrow> \<exists>e s'. run s d = Some (e, s')"
proof (induction "weight s d" arbitrary: s d rule: less_induct)
  case less
  show ?case
  proof (cases "more s d")
    case True
    then show ?thesis
      using less.hyps next_law [OF less.prems True] no_panic [OF less.prems True]
      by (subst run_eq) (auto split: outcome.split)
  qed (subst run_eq, simp)
qed

lemma run_inv: "inv s \<Longrightarrow> run s d = Some (None, s') \<Longrightarrow> inv s' \<and> \<not> more s' []"
proof (induction "weight s d" arbitrary: s d rule: less_induct)
  case less
  show ?case
  proof (cases "more s d")
    case True
    then show ?thesis
      using less next_law [OF less.prems(1) True] stop_law [OF less.prems(1) True]
      by (subst (asm) run_eq) (auto split: outcome.splits)
  next
    case False
    then have "d = []" using more_input by blast
    then show ?thesis using less.prems False by (subst (asm) run_eq) simp
  qed
qed

lemma run_append:
  "inv s \<Longrightarrow> run s a = Some (None, s') \<Longrightarrow> run s (a @ b) = run s' b"
proof (induction "weight s a" arbitrary: s a rule: less_induct)
  case less
  note inv = less.prems(1) and run = less.prems(2)
  show ?case
  proof (cases "more s a")
    case True
    then have more: "more s (a @ b)" using more_input by (cases b) auto
    show ?thesis
    proof (cases "step s a")
      case Panic
      then show ?thesis using no_panic [OF inv True] by blast
    next
      case (Stop t)
      then have t: "s' = t" "inv t" "\<not> more t []"
        using run True stop_law [OF inv True Stop] run_eq [of s a] by auto
      show ?thesis
      proof (cases "b = []")
        case True
        then show ?thesis using run t run_eq [of t "[]"] by simp
      next
        case False
        then have "step s (a @ b) = step t b" by (rule append_stop [OF inv True Stop])
        then show ?thesis
          using more more_input [OF False] t(1) run_eq [of s "a @ b"] run_eq [of t b] by simp
      qed
    next
      case (Fail e t)
      then show ?thesis using run True run_eq [of s a] by simp
    next
      case (Next t c)
      then have "run t c = Some (None, s')" using run True run_eq [of s a] by simp
      moreover have "inv t" "weight t c < weight s a" using next_law [OF inv True Next] by simp_all
      ultimately have "run t (c @ b) = run s' b" using less.hyps by blast
      then show ?thesis
        using more append_next [OF inv True Next] run_eq [of s "a @ b"] by simp
    qed
  next
    case False
    then have "a = []" using more_input by blast
    then show ?thesis using run False run_eq [of s a] by simp
  qed
qed

lemma run_append_fail:
  "inv s \<Longrightarrow> run s a = Some (Some e, s') \<Longrightarrow> run s (a @ b) = Some (Some e, s')"
proof (induction "weight s a" arbitrary: s a rule: less_induct)
  case less
  note inv = less.prems(1) and run = less.prems(2)
  have True: "more s a" using run run_eq [of s a] by (auto split: if_splits)
  then have more: "more s (a @ b)" using more_input by (cases b) auto
  show ?case
  proof (cases "step s a")
    case (Fail e' t)
    then show ?thesis
      using run True more append_fail [OF inv True Fail] run_eq [of s a] run_eq [of s "a @ b"] by simp
  next
    case (Next t c)
    then have "run t c = Some (Some e, s')" using run True run_eq [of s a] by simp
    moreover have "inv t" "weight t c < weight s a" using next_law [OF inv True Next] by simp_all
    ultimately have "run t (c @ b) = Some (Some e, s')" using less.hyps by blast
    then show ?thesis
      using more append_next [OF inv True Next] run_eq [of s "a @ b"] by simp
  qed (use run True run_eq [of s a] in simp_all)
qed

text \<open>However the input is cut, the result is that of the whole input.\<close>

lemma feed_concat: "inv s \<Longrightarrow> \<not> more s [] \<Longrightarrow> feed run s ps = run s (concat ps)"
proof (induction ps arbitrary: s)
  case Nil
  then show ?case using run_eq [of s "[]"] by simp
next
  case (Cons p ps)
  obtain e t where r: "run s p = Some (e, t)" using run_total [OF Cons.prems(1)] by blast
  show ?case
  proof (cases e)
    case None
    then have "inv t" "\<not> more t []" using run_inv [OF Cons.prems(1)] r by blast+
    then show ?thesis
      using Cons.IH run_append [OF Cons.prems(1), of p t "concat ps"] r None by simp
  next
    case (Some x)
    then show ?thesis using run_append_fail [OF Cons.prems(1), of p x t "concat ps"] r by simp
  qed
qed

end

end
