(* ===== verification/RtmpReader.thy ===== *)
theory RtmpReader
  imports RtmpChunk Incremental
begin

text \<open>
  The RTMP chunk reader, \<open>readRtmpMessage\<close> of \<open>go-rtmp/chunk.go\<close>: a state machine over the
  basic header, the message header, the extended timestamp and the payload, with one
  record for each chunk stream.

  The pointer \<open>reader.current\<close> is the key of the chunk stream in the map; it is only
  followed after a basic header has set it.  The callback gets the message and returns an
  error or nothing; it may also set the chunk size, as \<open>handleMessage\<close> of the client and the
  server does on \<open>SET_CHUNK_SIZE\<close>.

  The lemmas: an invariant that bounds what a peer can make the reader buffer, no panic,
  and the laws of \<open>incremental\<close>, so that the messages do not depend on how the bytes arrive.
\<close>

unbundle bit_operations_syntax

datatype ParserState = S_BASIC_HEAD | S_MSG_HEAD | S_EXTEND_TS | S_PAYLOAD

record chunkStream =
  cs_firstChunkFmt :: byte
  cs_timestamp :: u32
  cs_pkt :: chunkPacket
  cs_hdr :: bytes
  cs_message :: bytes
  cs_hasExtTs :: bool
  cs_chunkRead :: int

definition zero_packet :: chunkPacket where
  "zero_packet = \<lparr>basic = \<lparr>bh_fmt = 0, bh_csid = 0\<rparr>,
     msgHdr = \<lparr>mh_timestamp = 0, mh_msgLen = 0, mh_msgTypeId = 0, mh_msgStreamId = 0\<rparr>,
     chk_data = []\<rparr>"

definition newChunkStream :: chunkStream where
  "newChunkStream = \<lparr>cs_firstChunkFmt = 0, cs_timestamp = 0, cs_pkt = zero_packet, cs_hdr = [],
     cs_message = [], cs_hasExtTs = False, cs_chunkRead = 0\<rparr>"

record chunkStreamReader =
  rd_current :: u32
  rd_cks :: "(u32 \<times> chunkStream) list"
  rd_chunkSize :: u32
  rd_state :: ParserState
  rd_headCache :: bytes
  rd_recvBytes :: u64
  rd_maxChunkStreams :: int
  rd_maxBufferedMsgLen :: int
  rd_buffered :: int

definition newChunkStreamReader :: "u32 \<Rightarrow> chunkStreamReader" where
  "newChunkStreamReader chunkSize = \<lparr>rd_current = 0, rd_cks = [], rd_chunkSize = chunkSize,
     rd_state = S_BASIC_HEAD, rd_headCache = [], rd_recvBytes = 0, rd_maxChunkStreams = 64,
     rd_maxBufferedMsgLen = 32 * 2 ^ 20, rd_buffered = 0\<rparr>"

record rtmpMessage =
  rm_timestamp :: u32
  rm_msg :: bytes
  rm_msgtype :: int
  rm_streamid :: u32

section \<open>One turn of the loop\<close>

datatype rstep = RStop chunkStreamReader | RFail rtmp_error chunkStreamReader
  | RNext chunkStreamReader bytes "rtmpMessage option"

definition current :: "chunkStreamReader \<Rightarrow> chunkStream option" where
  "current r = map_of (rd_cks r) (rd_current r)"

definition set_current :: "chunkStream \<Rightarrow> chunkStreamReader \<Rightarrow> chunkStreamReader" where
  "set_current cs r = r\<lparr>rd_cks := AList.update (rd_current r) cs (rd_cks r)\<rparr>"

text \<open>After the basic header is complete: find or make the stream and choose the next state.\<close>

definition enter_stream :: "basicHead \<Rightarrow> chunkStream \<Rightarrow> chunkStreamReader \<Rightarrow> chunkStreamReader" where
  "enter_stream bh stream r =
     (let cs = stream\<lparr>cs_pkt := (cs_pkt stream)\<lparr>basic := bh\<rparr>\<rparr>;
          cs = (if cs_message cs = [] then cs\<lparr>cs_firstChunkFmt := bh_fmt bh\<rparr> else cs);
          st = (if bh_fmt bh = 3 then (if cs_hasExtTs cs then S_EXTEND_TS else S_PAYLOAD)
            else S_MSG_HEAD)
      in set_current cs (r\<lparr>rd_current := bh_csid bh, rd_headCache := [], rd_state := st\<rparr>))"

definition basic_done :: "bytes \<Rightarrow> bytes \<Rightarrow> chunkStreamReader \<Rightarrow> rstep option" where
  "basic_done head data r = do {
     bh \<leftarrow> bh_decode head;
     (case map_of (rd_cks r) (bh_csid bh) of
        None \<Rightarrow>
          if rd_maxChunkStreams r > 0 \<and> glen (rd_cks r) \<ge> rd_maxChunkStreams r then
            Some (RFail ErrTooManyChunkStreams (r\<lparr>rd_headCache := head\<rparr>))
          else Some (RNext (enter_stream bh newChunkStream r) data None)
      | Some stream \<Rightarrow> Some (RNext (enter_stream bh stream r) data None))
   }"

definition basic_step :: "chunkStreamReader \<Rightarrow> bytes \<Rightarrow> rstep option" where
  "basic_step r data = do {
     len \<leftarrow> clacBasicHeadLen (if rd_headCache r \<noteq> [] then rd_headCache r else data);
     if len > length (rd_headCache r) + length data then
       Some (RStop (r\<lparr>rd_headCache := rd_headCache r @ data\<rparr>))
     else do {
       h \<leftarrow> slice_to data (int len - glen (rd_headCache r));
       data \<leftarrow> slice_from data (int len - glen (rd_headCache r));
       basic_done (rd_headCache r @ h) data r
     }
   }"

definition msg_done :: "chunkStream \<Rightarrow> bytes \<Rightarrow> bytes \<Rightarrow> chunkStreamReader \<Rightarrow> rstep option" where
  "msg_done cs hdr data r = do {
     res \<leftarrow> mh_decode (bh_fmt (basic (cs_pkt cs))) hdr (msgHdr (cs_pkt cs));
     (case res of
        Inl e \<Rightarrow> Some (RFail e (set_current (cs\<lparr>cs_hdr := hdr\<rparr>) r))
      | Inr mh \<Rightarrow>
          let ext = (mh_timestamp mh = 0x00ffffff) in
          Some (RNext (set_current (cs\<lparr>cs_pkt := (cs_pkt cs)\<lparr>msgHdr := mh\<rparr>, cs_hasExtTs := ext,
              cs_hdr := []\<rparr>) (r\<lparr>rd_state := (if ext then S_EXTEND_TS else S_PAYLOAD)\<rparr>)) data None))
   }"

definition msg_step :: "chunkStreamReader \<Rightarrow> bytes \<Rightarrow> rstep option" where
  "msg_step r data = do {
     cs \<leftarrow> current r;
     len \<leftarrow> idx ChunkType (uint (bh_fmt (basic (cs_pkt cs))));
     if length data + length (cs_hdr cs) < len then
       Some (RStop (set_current (cs\<lparr>cs_hdr := cs_hdr cs @ data\<rparr>) r))
     else do {
       h \<leftarrow> slice_to data (int len - glen (cs_hdr cs));
       data \<leftarrow> slice_from data (int len - glen (cs_hdr cs));
       msg_done cs (cs_hdr cs @ h) data r
     }
   }"

definition ext_done :: "chunkStream \<Rightarrow> bytes \<Rightarrow> bytes \<Rightarrow> chunkStreamReader \<Rightarrow> rstep option" where
  "ext_done cs hdr data r = do {
     ts \<leftarrow> get_be32 hdr;
     Some (RNext (set_current (cs\<lparr>cs_pkt := (cs_pkt cs)\<lparr>msgHdr :=
         (msgHdr (cs_pkt cs))\<lparr>mh_timestamp := ts\<rparr>\<rparr>, cs_hdr := []\<rparr>) (r\<lparr>rd_state := S_PAYLOAD\<rparr>)) data None)
   }"

definition ext_step :: "chunkStreamReader \<Rightarrow> bytes \<Rightarrow> rstep option" where
  "ext_step r data = do {
     cs \<leftarrow> current r;
     if length data + length (cs_hdr cs) < 4 then
       Some (RStop (set_current (cs\<lparr>cs_hdr := cs_hdr cs @ data\<rparr>) r))
     else do {
       h \<leftarrow> slice_to data (4 - glen (cs_hdr cs));
       data \<leftarrow> slice_from data (4 - glen (cs_hdr cs));
       ext_done cs (cs_hdr cs @ h) data r
     }
   }"

text \<open>\<open>needLen\<close> and \<open>remain\<close> of the payload state, and the end of a chunk.\<close>

definition payload_remain :: "chunkStream \<Rightarrow> chunkStreamReader \<Rightarrow> int" where
  "payload_remain cs r =
     (let needLen = min (uint (mh_msgLen (msgHdr (cs_pkt cs))) - (glen (cs_message cs) - cs_chunkRead cs))
        (uint (rd_chunkSize r))
      in needLen - cs_chunkRead cs)"

definition payload_done :: "chunkStream \<Rightarrow> bytes \<Rightarrow> bytes \<Rightarrow> chunkStreamReader \<Rightarrow> rstep option" where
  "payload_done cs message data r =
     (let mh = msgHdr (cs_pkt cs) in
      if uint (mh_msgLen mh) \<le> glen message then do {
        let ts = (if cs_firstChunkFmt cs = 0 then mh_timestamp mh else cs_timestamp cs + mh_timestamp mh);
        buf \<leftarrow> make_bytes (uint (mh_msgLen mh));
        msg \<leftarrow> copy_at buf 0 message;
        Some (RNext (set_current (cs\<lparr>cs_message := [], cs_chunkRead := 0, cs_timestamp := ts\<rparr>)
            (r\<lparr>rd_buffered := rd_buffered r - glen message\<rparr>)) data
          (Some \<lparr>rm_timestamp = ts, rm_msg = msg, rm_msgtype = uint (mh_msgTypeId mh),
             rm_streamid = mh_msgStreamId mh\<rparr>))
      }
      else Some (RNext (set_current (cs\<lparr>cs_message := message, cs_chunkRead := 0\<rparr>) r) data None))"

definition payload_step :: "chunkStreamReader \<Rightarrow> bytes \<Rightarrow> rstep option" where
  "payload_step r data = do {
     cs \<leftarrow> current r;
     let msgLen = uint (mh_msgLen (msgHdr (cs_pkt cs)));
     let remain = payload_remain cs r;
     if msgLen > maxRtmpMessageLen \<or> glen (cs_message cs) > msgLen then
       Some (RFail ErrMessageLength r)
     else if rd_maxBufferedMsgLen r > 0 \<and> rd_buffered r + remain > rd_maxBufferedMsgLen r then
       Some (RFail ErrBufferedTooMuch r)
     else if glen data < remain then
       Some (RStop (set_current (cs\<lparr>cs_message := cs_message cs @ data,
           cs_chunkRead := cs_chunkRead cs + glen data\<rparr>)
         (r\<lparr>rd_buffered := rd_buffered r + glen data\<rparr>)))
     else do {
       p \<leftarrow> slice_to data remain;
       data \<leftarrow> slice_from data remain;
       payload_done cs (cs_message cs @ p) data
         (r\<lparr>rd_buffered := rd_buffered r + remain, rd_state := S_BASIC_HEAD\<rparr>)
     }
   }"

definition reader_step :: "chunkStreamReader \<Rightarrow> bytes \<Rightarrow> rstep option" where
  "reader_step r data =
     (case rd_state r of
        S_BASIC_HEAD \<Rightarrow> basic_step r data
      | S_MSG_HEAD \<Rightarrow> msg_step r data
      | S_EXTEND_TS \<Rightarrow> ext_step r data
      | S_PAYLOAD \<Rightarrow> payload_step r data)"

section \<open>The loop\<close>

type_synonym ('e, 's) msg_callback = "rtmpMessage \<Rightarrow> u32 \<Rightarrow> 's \<Rightarrow> 'e option \<times> u32 \<times> 's"

definition call_step :: "('e, 's) msg_callback \<Rightarrow> chunkStreamReader \<times> 's \<Rightarrow> bytes
    \<Rightarrow> (rtmp_error + 'e, chunkStreamReader \<times> 's) outcome" where
  "call_step onMsg s data =
     (case reader_step (fst s) data of
        None \<Rightarrow> Panic
      | Some (RStop r) \<Rightarrow> Stop (r, snd s)
      | Some (RFail e r) \<Rightarrow> Fail (Inl e) (r, snd s)
      | Some (RNext r data None) \<Rightarrow> Next (r, snd s) data
      | Some (RNext r data (Some m)) \<Rightarrow>
          (case onMsg m (rd_chunkSize r) (snd s) of
             (Some e, csize, st) \<Rightarrow> Fail (Inr e) (r\<lparr>rd_chunkSize := csize\<rparr>, st)
           | (None, csize, st) \<Rightarrow> Next (r\<lparr>rd_chunkSize := csize\<rparr>, st) data))"

text \<open>A message of length zero is emitted without any input.\<close>

definition empty_payload :: "chunkStreamReader \<Rightarrow> bool" where
  "empty_payload r \<longleftrightarrow> rd_state r = S_PAYLOAD \<and>
     (case current r of Some cs \<Rightarrow> mh_msgLen (msgHdr (cs_pkt cs)) = 0 | None \<Rightarrow> False)"

definition more_input :: "chunkStreamReader \<times> 's \<Rightarrow> bytes \<Rightarrow> bool" where
  "more_input s data \<longleftrightarrow> data \<noteq> [] \<or> empty_payload (fst s)"

primrec state_rank :: "ParserState \<Rightarrow> nat" where
  "state_rank S_BASIC_HEAD = 0"
| "state_rank S_MSG_HEAD = 3"
| "state_rank S_EXTEND_TS = 2"
| "state_rank S_PAYLOAD = 1"

definition reader_weight :: "chunkStreamReader \<times> 's \<Rightarrow> bytes \<Rightarrow> nat" where
  "reader_weight s data = 4 * (length data + length (rd_headCache (fst s))) + state_rank (rd_state (fst s))"

lemma slice_to_Some: "slice_to xs n = Some ys \<longleftrightarrow> 0 \<le> n \<and> n \<le> glen xs \<and> ys = take (nat n) xs"
  by (auto simp: slice_to_def)

lemma slice_from_Some: "slice_from xs n = Some ys \<longleftrightarrow> 0 \<le> n \<and> n \<le> glen xs \<and> ys = drop (nat n) xs"
  by (auto simp: slice_from_def)

lemma set_current_sel [simp]:
  "rd_current (set_current cs r) = rd_current r" "rd_chunkSize (set_current cs r) = rd_chunkSize r"
  "rd_state (set_current cs r) = rd_state r" "rd_headCache (set_current cs r) = rd_headCache r"
  "rd_recvBytes (set_current cs r) = rd_recvBytes r" "rd_buffered (set_current cs r) = rd_buffered r"
  "rd_maxChunkStreams (set_current cs r) = rd_maxChunkStreams r"
  "rd_maxBufferedMsgLen (set_current cs r) = rd_maxBufferedMsgLen r"
  by (simp_all add: set_current_def)

text \<open>What the last part of a step does to the rest of the input, the cache and the state.\<close>

lemma enter_stream_sel [simp]:
  "rd_headCache (enter_stream bh cs r) = []" "rd_current (enter_stream bh cs r) = bh_csid bh"
  "rd_chunkSize (enter_stream bh cs r) = rd_chunkSize r" "rd_buffered (enter_stream bh cs r) = rd_buffered r"
  "rd_maxChunkStreams (enter_stream bh cs r) = rd_maxChunkStreams r"
  "rd_maxBufferedMsgLen (enter_stream bh cs r) = rd_maxBufferedMsgLen r"
  "rd_recvBytes (enter_stream bh cs r) = rd_recvBytes r"
  by (simp_all add: enter_stream_def Let_def)

text \<open>The stream a basic header selects.\<close>

definition stream_for :: "u32 \<Rightarrow> chunkStreamReader \<Rightarrow> chunkStream" where
  "stream_for csid r = (case map_of (rd_cks r) csid of Some cs \<Rightarrow> cs | None \<Rightarrow> newChunkStream)"

definition too_many :: "u32 \<Rightarrow> chunkStreamReader \<Rightarrow> bool" where
  "too_many csid r \<longleftrightarrow> map_of (rd_cks r) csid = None \<and> rd_maxChunkStreams r > 0 \<and>
     glen (rd_cks r) \<ge> rd_maxChunkStreams r"

lemma basic_done_eq:
  "basic_done head data r = (case bh_decode head of
     None \<Rightarrow> None
   | Some bh \<Rightarrow> Some (if too_many (bh_csid bh) r
       then RFail ErrTooManyChunkStreams (r\<lparr>rd_headCache := head\<rparr>)
       else RNext (enter_stream bh (stream_for (bh_csid bh) r) r) data None))"
  by (auto simp: basic_done_def too_many_def stream_for_def split: option.split)

lemma basic_done_next:
  "basic_done head data r = Some (RNext r' data' m) \<Longrightarrow> data' = data \<and> m = None \<and>
     (\<exists>bh. bh_decode head = Some bh \<and> r' = enter_stream bh (stream_for (bh_csid bh) r) r \<and>
       \<not> too_many (bh_csid bh) r)"
  by (auto simp: basic_done_eq split: option.split_asm if_split_asm)

lemma msg_done_next:
  "msg_done cs hdr data r = Some (RNext r' data' m) \<Longrightarrow> data' = data \<and> m = None \<and>
     (\<exists>mh. mh_decode (bh_fmt (basic (cs_pkt cs))) hdr (msgHdr (cs_pkt cs)) = ok mh \<and>
       r' = set_current (cs\<lparr>cs_pkt := (cs_pkt cs)\<lparr>msgHdr := mh\<rparr>, cs_hasExtTs := mh_timestamp mh = 0x00ffffff,
              cs_hdr := []\<rparr>)
          (r\<lparr>rd_state := (if mh_timestamp mh = 0x00ffffff then S_EXTEND_TS else S_PAYLOAD)\<rparr>))"
  by (cases "mh_decode (bh_fmt (basic (cs_pkt cs))) hdr (msgHdr (cs_pkt cs))")
    (auto simp: msg_done_def Let_def split: sum.split_asm)

lemma ext_done_next:
  "ext_done cs hdr data r = Some (RNext r' data' m) \<Longrightarrow> data' = data \<and> m = None \<and>
     (\<exists>ts. r' = set_current (cs\<lparr>cs_pkt := (cs_pkt cs)\<lparr>msgHdr :=
         (msgHdr (cs_pkt cs))\<lparr>mh_timestamp := ts\<rparr>\<rparr>, cs_hdr := []\<rparr>) (r\<lparr>rd_state := S_PAYLOAD\<rparr>))"
  by (auto simp: ext_done_def Option.bind_eq_Some_conv)

lemma payload_done_next:
  "payload_done cs message data r = Some (RNext r' data' m) \<Longrightarrow> data' = data \<and>
     rd_headCache r' = rd_headCache r \<and> rd_state r' = rd_state r"
  by (auto simp: payload_done_def Let_def Option.bind_eq_Some_conv split: if_split_asm)

lemma clacBasicHeadLen_pos: "clacBasicHeadLen xs = Some n \<Longrightarrow> 0 < n \<and> n \<le> 3"
  by (auto simp: clacBasicHeadLen_def Let_def Option.bind_eq_Some_conv split: if_splits)

lemma reader_step_weight:
  assumes "reader_step r data = Some (RNext r' data' m)"
  shows "4 * (length data' + length (rd_headCache r')) + state_rank (rd_state r')
    < 4 * (length data + length (rd_headCache r)) + state_rank (rd_state r)"
proof (cases "rd_state r")
  case S_BASIC_HEAD
  then show ?thesis using assms
    by (cases "rd_state r'")
      (auto simp: reader_step_def basic_step_def Option.bind_eq_Some_conv slice_from_Some
        split: if_split_asm dest!: basic_done_next clacBasicHeadLen_pos)
next
  case S_MSG_HEAD
  then show ?thesis using assms
    by (auto simp: reader_step_def msg_step_def Option.bind_eq_Some_conv slice_from_Some
        split: if_split_asm dest!: msg_done_next)
next
  case S_EXTEND_TS
  then show ?thesis using assms
    by (auto simp: reader_step_def ext_step_def Option.bind_eq_Some_conv slice_from_Some
        split: if_split_asm dest!: ext_done_next)
next
  case S_PAYLOAD
  then show ?thesis using assms
    by (auto simp: reader_step_def payload_step_def Option.bind_eq_Some_conv slice_from_Some Let_def
        split: if_split_asm dest!: payload_done_next)
qed

lemma call_step_weight:
  "call_step f s data = Next s' data' \<Longrightarrow> reader_weight s' data' < reader_weight s data"
  using reader_step_weight [of "fst s" data]
  by (auto simp: call_step_def reader_weight_def split: option.splits rstep.splits prod.splits)

function readLoop :: "('e, 's) msg_callback \<Rightarrow> chunkStreamReader \<times> 's \<Rightarrow> bytes
    \<Rightarrow> ((rtmp_error + 'e) option \<times> chunkStreamReader \<times> 's) option" where
  "readLoop onMsg s data =
     (if more_input s data then
        (case call_step onMsg s data of
           Panic \<Rightarrow> None
         | Stop s' \<Rightarrow> Some (None, s')
         | Fail e s' \<Rightarrow> Some (Some e, s')
         | Next s' data' \<Rightarrow> readLoop onMsg s' data')
      else Some (None, s))"
  by pat_completeness auto
termination
  by (relation "measure (\<lambda>(f, s, data). reader_weight s data)") (auto dest: call_step_weight)

declare readLoop.simps [simp del]

definition readRtmpMessage :: "('e, 's) msg_callback \<Rightarrow> chunkStreamReader \<times> 's \<Rightarrow> bytes
    \<Rightarrow> ((rtmp_error + 'e) option \<times> chunkStreamReader \<times> 's) option" where
  "readRtmpMessage onMsg s data =
     (let r = (fst s)\<lparr>rd_recvBytes := rd_recvBytes (fst s) + word_of_nat (length data)\<rparr>
      in readLoop onMsg (r, snd s) data)"

section \<open>The invariant\<close>

definition buffered_total :: "(u32 \<times> chunkStream) list \<Rightarrow> int" where
  "buffered_total cks = sum_list (map (\<lambda>(k, cs). glen (cs_message cs)) cks)"

definition stream_ok :: "chunkStream \<Rightarrow> bool" where
  "stream_ok cs \<longleftrightarrow> \<not> bh_fmt (basic (cs_pkt cs)) > 3 \<and> 0 \<le> cs_chunkRead cs \<and>
     cs_chunkRead cs \<le> glen (cs_message cs)"

definition at_rest :: "chunkStream \<Rightarrow> bool" where
  "at_rest cs \<longleftrightarrow> cs_hdr cs = [] \<and> cs_chunkRead cs = 0"

text \<open>The current stream in each state.\<close>

primrec in_state :: "ParserState \<Rightarrow> u32 \<Rightarrow> chunkStream \<Rightarrow> bool" where
  "in_state S_BASIC_HEAD csz cs = at_rest cs"
| "in_state S_MSG_HEAD csz cs = (cs_chunkRead cs = 0 \<and> bh_fmt (basic (cs_pkt cs)) \<noteq> 3 \<and>
     length (cs_hdr cs) < ChunkType ! unat (bh_fmt (basic (cs_pkt cs))))"
| "in_state S_EXTEND_TS csz cs = (cs_chunkRead cs = 0 \<and> length (cs_hdr cs) < 4)"
| "in_state S_PAYLOAD csz cs = (cs_hdr cs = [] \<and> cs_chunkRead cs \<le> uint csz)"

definition cache_ok :: "bytes \<Rightarrow> bool" where
  "cache_ok hc \<longleftrightarrow> (hc = [] \<or> (\<exists>n. clacBasicHeadLen hc = Some n \<and> length hc < n))"

definition rd_ok :: "chunkStreamReader \<Rightarrow> bool" where
  "rd_ok r \<longleftrightarrow>
     (\<forall>k cs. map_of (rd_cks r) k = Some cs \<longrightarrow> stream_ok cs \<and>
        (k = rd_current r \<longrightarrow> in_state (rd_state r) (rd_chunkSize r) cs) \<and>
        (k \<noteq> rd_current r \<longrightarrow> at_rest cs)) \<and>
     (if rd_state r = S_BASIC_HEAD then cache_ok (rd_headCache r)
      else rd_headCache r = [] \<and> current r \<noteq> None) \<and>
     rd_buffered r = buffered_total (rd_cks r) \<and>
     (rd_maxChunkStreams r > 0 \<longrightarrow> glen (rd_cks r) \<le> rd_maxChunkStreams r) \<and>
     (rd_maxBufferedMsgLen r > 0 \<longrightarrow> rd_buffered r \<le> rd_maxBufferedMsgLen r)"

text \<open>The part of the invariant that also holds behind an error.\<close>

definition within_limits :: "chunkStreamReader \<Rightarrow> bool" where
  "within_limits r \<longleftrightarrow> rd_buffered r = buffered_total (rd_cks r) \<and>
     (rd_maxChunkStreams r > 0 \<longrightarrow> glen (rd_cks r) \<le> rd_maxChunkStreams r) \<and>
     (rd_maxBufferedMsgLen r > 0 \<longrightarrow> rd_buffered r \<le> rd_maxBufferedMsgLen r)"

lemma rd_ok_within: "rd_ok r \<Longrightarrow> within_limits r"
  unfolding rd_ok_def within_limits_def by blast

lemma within_limits_irrelevant [simp]:
  "within_limits (r\<lparr>rd_headCache := hc\<rparr>) = within_limits r" "within_limits (r\<lparr>rd_chunkSize := c\<rparr>) = within_limits r"
  "within_limits (r\<lparr>rd_recvBytes := n\<rparr>) = within_limits r"
  by (simp_all add: within_limits_def)

lemma rd_ok_new: "rd_ok (newChunkStreamReader csz)"
  by (simp add: rd_ok_def newChunkStreamReader_def cache_ok_def buffered_total_def)

lemma buffered_total_update:
  "buffered_total (AList.update k cs cks) = buffered_total cks + glen (cs_message cs) -
     (case map_of cks k of Some old \<Rightarrow> glen (cs_message old) | None \<Rightarrow> 0)"
  by (induction cks) (auto simp: buffered_total_def)

lemma length_update:
  "length (AList.update k v xs) = length xs + (if map_of xs k = None then 1 else 0)"
  by (induction xs) auto

lemma map_of_set_current:
  "map_of (rd_cks (set_current cs r)) k = (if k = rd_current r then Some cs else map_of (rd_cks r) k)"
  by (simp add: set_current_def update_conv')

text \<open>Replacing the current stream.\<close>

lemma rd_ok_set_current:
  assumes "rd_ok r" and "current r = Some old"
    and "rd_cks r' = rd_cks r" "rd_current r' = rd_current r" "rd_maxChunkStreams r' = rd_maxChunkStreams r"
    and "rd_maxBufferedMsgLen r' = rd_maxBufferedMsgLen r"
    and "stream_ok cs" and "in_state (rd_state r') (rd_chunkSize r') cs"
    and "rd_headCache r' = []"
    and "rd_buffered r' = rd_buffered r + glen (cs_message cs) - glen (cs_message old)"
    and "rd_maxBufferedMsgLen r > 0 \<longrightarrow> rd_buffered r' \<le> rd_maxBufferedMsgLen r"
  shows "rd_ok (set_current cs r')"
proof -
  have old: "map_of (rd_cks r) (rd_current r) = Some old" using assms(2) by (simp add: current_def)
  have "rd_buffered r' = buffered_total (rd_cks (set_current cs r'))"
    using assms(1,3,4,10) old by (simp add: rd_ok_def set_current_def buffered_total_update)
  moreover have "length (rd_cks (set_current cs r')) = length (rd_cks r)"
    using assms(3,4) old by (simp add: set_current_def length_update)
  ultimately show ?thesis
    using assms
    by (auto simp: rd_ok_def map_of_set_current current_def cache_ok_def)
qed

lemma current_ok:
  assumes "rd_ok r" and "rd_state r = st" and "st \<noteq> S_BASIC_HEAD"
  obtains cs where "current r = Some cs" "stream_ok cs" "in_state st (rd_chunkSize r) cs"
    "rd_headCache r = []"
  using assms by (auto simp: rd_ok_def current_def)

lemma limit_ok: "rd_ok r \<Longrightarrow> rd_maxBufferedMsgLen r > 0 \<longrightarrow> rd_buffered r \<le> rd_maxBufferedMsgLen r"
  unfolding rd_ok_def by blast

lemma rd_ok_cache: "rd_ok r \<Longrightarrow> rd_state r = S_BASIC_HEAD \<Longrightarrow> cache_ok hc \<Longrightarrow>
    rd_ok (r\<lparr>rd_headCache := hc\<rparr>)"
  by (cases r) (auto simp: rd_ok_def current_def)

lemma mh_decode_total:
  assumes "\<not> format > 3" and "length hdr = ChunkType ! unat format"
  shows "\<exists>mh'. mh_decode format hdr mh = ok mh'"
  using byte_le_3 [OF assms(1)] assms(2) get_le32_total [of "drop 7 hdr"] slice_from_int [of 7 hdr]
  by (auto simp: mh_decode_def ChunkType_def idx_def)

lemma ucast_byte_u32_inj: "(ucast x = (ucast y :: u32)) = (x = y)" for x y :: byte
proof -
  have "ucast (ucast z :: u32) = z" for z :: byte
    by (rule bit_word_eqI) (auto simp: bit_ucast_iff)
  then show ?thesis by metis
qed

lemma bh_decode_total:
  assumes "clacBasicHeadLen xs = Some n" and "n \<le> length xs"
  obtains bh where "bh_decode xs = Some bh" "\<not> bh_fmt bh > 3"
proof -
  have fmt: "\<not> drop_bit 6 b > (3 :: byte)" for b :: byte
  proof -
    have "unat b < 256" using unsigned_less [of b] by simp
    moreover have "unat (drop_bit 6 b) = unat b div 2 ^ 6" by (metis unat_drop_bit_eq drop_bit_eq_div)
    ultimately have "unat (drop_bit 6 b) \<le> 3" by simp
    then show ?thesis by (simp only: word_less_nat_alt) simp
  qed
  show ?thesis
    using assms fmt that ucast_byte_u32_inj [of "xs ! 0 AND 0x3F" 0] ucast_byte_u32_inj [of "xs ! 0 AND 0x3F" 1]
    by (auto simp: clacBasicHeadLen_def bh_decode_def idx_def Let_def split: if_splits)
qed

section \<open>Every step keeps the invariant and none panics\<close>

definition step_ok :: "rstep option \<Rightarrow> bool" where
  "step_ok x \<longleftrightarrow> (case x of
     None \<Rightarrow> False
   | Some (RStop r) \<Rightarrow> rd_ok r \<and> \<not> empty_payload r
   | Some (RFail e r) \<Rightarrow> within_limits r
   | Some (RNext r d m) \<Rightarrow> rd_ok r \<and> (m \<noteq> None \<longrightarrow> rd_state r = S_BASIC_HEAD))"

lemma clac_append: "hc \<noteq> [] \<Longrightarrow> clacBasicHeadLen (hc @ d) = clacBasicHeadLen hc"
  by (cases hc) (simp_all add: clacBasicHeadLen_def idx_def)

lemma clac_total: "xs \<noteq> [] \<Longrightarrow> \<exists>n. clacBasicHeadLen xs = Some n"
  by (cases xs) (simp_all add: clacBasicHeadLen_def idx_def Let_def)

lemma rd_ok_enter_stream:
  assumes "rd_ok r" and "rd_state r = S_BASIC_HEAD" and "\<not> bh_fmt bh > 3" and "\<not> too_many (bh_csid bh) r"
  shows "rd_ok (enter_stream bh (stream_for (bh_csid bh) r) r)"
proof -
  let ?cs = "stream_for (bh_csid bh) r"
  have cs: "0 \<le> cs_chunkRead ?cs" "at_rest ?cs"
    using assms(1,2) by (auto simp: rd_ok_def stream_for_def stream_ok_def newChunkStream_def at_rest_def
        split: option.split if_split_asm)
  have fmt: "bh_fmt bh \<noteq> 3 \<Longrightarrow> 0 < ChunkType ! unat (bh_fmt bh)"
    using byte_le_3 [OF assms(3)] by (auto simp: ChunkType_def)
  define cs' where "cs' = (let c = ?cs\<lparr>cs_pkt := (cs_pkt ?cs)\<lparr>basic := bh\<rparr>\<rparr> in
    if cs_message c = [] then c\<lparr>cs_firstChunkFmt := bh_fmt bh\<rparr> else c)"
  define st where "st = (if bh_fmt bh = 3 then (if cs_hasExtTs cs' then S_EXTEND_TS else S_PAYLOAD) else S_MSG_HEAD)"
  have enter: "enter_stream bh ?cs r =
      set_current cs' (r\<lparr>rd_current := bh_csid bh, rd_headCache := [], rd_state := st\<rparr>)"
    by (simp add: enter_stream_def cs'_def st_def Let_def)
  have cs': "stream_ok cs'" "in_state st (rd_chunkSize r) cs'" "cs_message cs' = cs_message ?cs"
    using assms(3) cs fmt
    by (auto simp: cs'_def st_def stream_ok_def at_rest_def Let_def uint_nonnegative)
  have "buffered_total (AList.update (bh_csid bh) cs' (rd_cks r)) = buffered_total (rd_cks r)"
    using cs'(3) by (auto simp: buffered_total_update stream_for_def newChunkStream_def split: option.split)
  moreover have "rd_maxChunkStreams r > 0 \<longrightarrow>
      glen (AList.update (bh_csid bh) cs' (rd_cks r)) \<le> rd_maxChunkStreams r"
    using assms(1,4) by (auto simp: length_update too_many_def rd_ok_def)
  moreover have "st \<noteq> S_BASIC_HEAD" by (simp add: st_def)
  ultimately show ?thesis
    using assms(1,2) cs'(1,2) unfolding enter
    by (auto simp: rd_ok_def set_current_def current_def update_conv' split: if_split_asm)
qed

lemma basic_step_ok:
  assumes "rd_ok r" and "rd_state r = S_BASIC_HEAD" and "data \<noteq> []"
  shows "step_ok (basic_step r data)"
proof -
  let ?hc = "rd_headCache r"
  have hc: "cache_ok ?hc" using assms(1,2) by (simp add: rd_ok_def)
  obtain n where n: "clacBasicHeadLen (if ?hc \<noteq> [] then ?hc else data) = Some n"
    using clac_total [of ?hc] clac_total [of data] assms(3) by (cases "?hc = []") auto
  then have lt: "length ?hc < n" using hc clacBasicHeadLen_pos by (auto simp: cache_ok_def split: if_split_asm)
  have all: "clacBasicHeadLen (?hc @ data) = Some n" using n clac_append [of ?hc data] by (auto split: if_split_asm)
  show ?thesis
  proof (cases "n > length ?hc + length data")
    case True
    then have "rd_ok (r\<lparr>rd_headCache := ?hc @ data\<rparr>)"
      using all by (intro rd_ok_cache assms) (simp add: cache_ok_def)
    then show ?thesis using True n assms(2) by (simp add: basic_step_def step_ok_def empty_payload_def)
  next
    case False
    let ?k = "n - length ?hc"
    have k: "nat (int n - glen ?hc) = ?k" using lt by linarith
    have head: "clacBasicHeadLen (?hc @ take ?k data) = Some n"
    proof (cases "?hc = []")
      case True
      then show ?thesis using n lt clac_append [of "take n data" "drop n data"] assms(3) by simp
    next
      case hc: False
      then show ?thesis using n clac_append [OF hc] by simp
    qed
    obtain bh where bh: "bh_decode (?hc @ take ?k data) = Some bh" "\<not> bh_fmt bh > 3"
      by (rule bh_decode_total [OF head]) (use False lt in simp_all)
    have "basic_step r data = basic_done (?hc @ take ?k data) (drop ?k data) r"
      using False n k lt by (simp add: basic_step_def slice_to_def slice_from_def)
    also have "step_ok \<dots>"
      using rd_ok_enter_stream [OF assms(1,2) bh(2)] rd_ok_within [OF assms(1)] by (simp add: basic_done_eq bh(1) step_ok_def)
    finally show ?thesis .
  qed
qed

lemma msg_step_ok:
  assumes "rd_ok r" and "rd_state r = S_MSG_HEAD"
  shows "step_ok (msg_step r data)"
proof -
  obtain cs where cs: "current r = Some cs" "stream_ok cs" "in_state S_MSG_HEAD (rd_chunkSize r) cs" "rd_headCache r = []"
    by (rule current_ok [OF assms(1,2)]) simp_all
  let ?f = "bh_fmt (basic (cs_pkt cs))"
  let ?n = "ChunkType ! unat ?f"
  have f: "\<not> ?f > 3" using cs(2) by (simp add: stream_ok_def)
  have idx: "idx ChunkType (uint ?f) = Some ?n"
    using byte_le_3 [OF f] by (auto simp: idx_def ChunkType_def)
  have lt: "length (cs_hdr cs) < ?n" using cs(3) by simp
  show ?thesis
  proof (cases "length data + length (cs_hdr cs) < ?n")
    case True
    have "rd_ok (set_current (cs\<lparr>cs_hdr := cs_hdr cs @ data\<rparr>) r)"
      by (rule rd_ok_set_current [OF assms(1) cs(1)])
        (use limit_ok [OF assms(1)] assms(2) cs True in \<open>simp_all add: stream_ok_def\<close>)
    then show ?thesis
      using True cs(1) idx assms(2) by (simp add: msg_step_def step_ok_def empty_payload_def)
  next
    case False
    let ?k = "?n - length (cs_hdr cs)"
    let ?hdr = "cs_hdr cs @ take ?k data"
    have k: "nat (int ?n - glen (cs_hdr cs)) = ?k" using lt by linarith
    obtain mh where mh: "mh_decode ?f ?hdr (msgHdr (cs_pkt cs)) = ok mh"
      using mh_decode_total [OF f, of ?hdr] False lt by auto
    have "msg_step r data = msg_done cs ?hdr (drop ?k data) r"
      using False cs(1) idx k lt by (simp add: msg_step_def slice_to_def slice_from_def)
    also have "step_ok \<dots>"
    proof -
      have "rd_ok (set_current (cs\<lparr>cs_pkt := (cs_pkt cs)\<lparr>msgHdr := mh\<rparr>, cs_hasExtTs := e, cs_hdr := []\<rparr>)
          (r\<lparr>rd_state := st\<rparr>))" if "st = S_EXTEND_TS \<or> st = S_PAYLOAD" for e st
        by (rule rd_ok_set_current [OF assms(1) cs(1)])
          (use limit_ok [OF assms(1)] cs that in \<open>auto simp: stream_ok_def uint_nonnegative\<close>)
      then show ?thesis by (simp add: msg_done_def mh step_ok_def Let_def)
    qed
    finally show ?thesis .
  qed
qed

lemma ext_step_ok:
  assumes "rd_ok r" and "rd_state r = S_EXTEND_TS"
  shows "step_ok (ext_step r data)"
proof -
  obtain cs where cs: "current r = Some cs" "stream_ok cs" "in_state S_EXTEND_TS (rd_chunkSize r) cs" "rd_headCache r = []"
    by (rule current_ok [OF assms(1,2)]) simp_all
  have lt: "length (cs_hdr cs) < 4" using cs(3) by simp
  show ?thesis
  proof (cases "length data + length (cs_hdr cs) < 4")
    case True
    have "rd_ok (set_current (cs\<lparr>cs_hdr := cs_hdr cs @ data\<rparr>) r)"
      by (rule rd_ok_set_current [OF assms(1) cs(1)])
        (use limit_ok [OF assms(1)] assms(2) cs True in \<open>simp_all add: stream_ok_def\<close>)
    then show ?thesis
      using True cs(1) assms(2) by (simp add: ext_step_def step_ok_def empty_payload_def)
  next
    case False
    let ?k = "4 - length (cs_hdr cs)"
    have k: "nat (4 - glen (cs_hdr cs)) = ?k" using lt by linarith
    have "4 \<le> length (cs_hdr cs @ take ?k data)" using False by simp
    then obtain ts where ts: "get_be32 (cs_hdr cs @ take ?k data) = Some ts"
      using get_be32_total by blast
    have "rd_ok (set_current (cs\<lparr>cs_pkt := (cs_pkt cs)\<lparr>msgHdr :=
         (msgHdr (cs_pkt cs))\<lparr>mh_timestamp := ts\<rparr>\<rparr>, cs_hdr := []\<rparr>) (r\<lparr>rd_state := S_PAYLOAD\<rparr>))"
      by (rule rd_ok_set_current [OF assms(1) cs(1)])
        (use limit_ok [OF assms(1)] cs in \<open>auto simp: stream_ok_def uint_nonnegative\<close>)
    then show ?thesis
      using False cs(1) k lt ts
      by (simp add: ext_step_def ext_done_def step_ok_def slice_to_def slice_from_def)
  qed
qed

lemma payload_remain_bounds:
  assumes "stream_ok cs" and "in_state S_PAYLOAD (rd_chunkSize r) cs"
    and "\<not> glen (cs_message cs) > uint (mh_msgLen (msgHdr (cs_pkt cs)))"
  shows "0 \<le> payload_remain cs r" "payload_remain cs r \<le> uint (rd_chunkSize r) - cs_chunkRead cs"
    "payload_remain cs r \<le> uint (mh_msgLen (msgHdr (cs_pkt cs))) - glen (cs_message cs)"
  using assms by (auto simp: payload_remain_def Let_def stream_ok_def)

lemma payload_step_ok:
  assumes "rd_ok r" and "rd_state r = S_PAYLOAD"
  shows "step_ok (payload_step r data)"
proof -
  obtain cs where cs: "current r = Some cs" "stream_ok cs" "in_state S_PAYLOAD (rd_chunkSize r) cs" "rd_headCache r = []"
    by (rule current_ok [OF assms(1,2)]) simp_all
  let ?len = "uint (mh_msgLen (msgHdr (cs_pkt cs)))" and ?m = "glen (cs_message cs)"
  let ?rem = "payload_remain cs r"
  note lim = limit_ok [OF assms(1)]
  consider "?len > maxRtmpMessageLen \<or> ?m > ?len"
    | "\<not> (?len > maxRtmpMessageLen \<or> ?m > ?len)" "rd_maxBufferedMsgLen r > 0 \<and> rd_buffered r + ?rem > rd_maxBufferedMsgLen r"
    | "\<not> (?len > maxRtmpMessageLen \<or> ?m > ?len)" "\<not> (rd_maxBufferedMsgLen r > 0 \<and> rd_buffered r + ?rem > rd_maxBufferedMsgLen r)"
      "glen data < ?rem"
    | "\<not> (?len > maxRtmpMessageLen \<or> ?m > ?len)" "\<not> (rd_maxBufferedMsgLen r > 0 \<and> rd_buffered r + ?rem > rd_maxBufferedMsgLen r)"
      "\<not> glen data < ?rem"
    by blast
  then show ?thesis
  proof cases
    case 3
    let ?cs = "cs\<lparr>cs_message := cs_message cs @ data, cs_chunkRead := cs_chunkRead cs + glen data\<rparr>"
    let ?r = "set_current ?cs (r\<lparr>rd_buffered := rd_buffered r + glen data\<rparr>)"
    have b: "?rem \<le> uint (rd_chunkSize r) - cs_chunkRead cs" "?rem \<le> ?len - ?m"
      using payload_remain_bounds [OF cs(2,3)] 3(1) by auto
    have "rd_ok ?r"
      by (rule rd_ok_set_current [OF assms(1) cs(1)])
        (use cs 3 b assms(2) in \<open>auto simp: stream_ok_def\<close>)
    moreover have "\<not> empty_payload ?r"
      using 3 b by (auto simp: empty_payload_def current_def map_of_set_current)
    ultimately show ?thesis using 3 cs(1) rd_ok_within [OF assms(1)] by (simp add: payload_step_def step_ok_def Let_def)
  next
    case 4
    let ?p = "take (nat ?rem) data" and ?d = "drop (nat ?rem) data"
    let ?r = "r\<lparr>rd_buffered := rd_buffered r + ?rem, rd_state := S_BASIC_HEAD\<rparr>"
    have b: "0 \<le> ?rem" "?rem \<le> ?len - ?m" "glen ?p = ?rem" "0 \<le> ?m + ?rem"
      using payload_remain_bounds [OF cs(2,3)] 4 by auto
    have "payload_step r data = payload_done cs (cs_message cs @ ?p) ?d ?r"
    proof -
      have "slice_to data ?rem = Some ?p" "slice_from data ?rem = Some ?d"
        using 4(3) b(1) by (simp_all add: slice_to_def slice_from_def)
      then show ?thesis
        by (simp only: payload_step_def cs(1) Let_def Option.bind.simps
            if_not_P [OF 4(1)] if_not_P [OF 4(2)] if_not_P [OF 4(3)])
    qed
    also have "step_ok \<dots>"
    proof (cases "?len \<le> glen (cs_message cs @ ?p)")
      case True
      have "rd_ok (set_current (cs\<lparr>cs_message := [], cs_chunkRead := 0, cs_timestamp := ts\<rparr>)
          (?r\<lparr>rd_buffered := rd_buffered ?r - glen (cs_message cs @ ?p)\<rparr>))" for ts
        by (rule rd_ok_set_current [OF assms(1) cs(1)])
          (use cs 4 b lim in \<open>auto simp: stream_ok_def at_rest_def\<close>)
      then show ?thesis
        using True by (auto simp: payload_done_def Let_def make_bytes_def copy_at_def step_ok_def)
    next
      case False
      have "rd_ok (set_current (cs\<lparr>cs_message := cs_message cs @ ?p, cs_chunkRead := 0\<rparr>) ?r)"
        by (rule rd_ok_set_current [OF assms(1) cs(1)])
          (use cs 4 b in \<open>auto simp: stream_ok_def at_rest_def\<close>)
      then show ?thesis using False by (simp add: payload_done_def Let_def step_ok_def)
    qed
    finally show ?thesis .
  qed (use cs(1) rd_ok_within [OF assms(1)] in \<open>auto simp: payload_step_def step_ok_def Let_def\<close>)
qed

lemma reader_step_ok:
  assumes "rd_ok r" and "data \<noteq> [] \<or> empty_payload r"
  shows "step_ok (reader_step r data)"
  using assms basic_step_ok [OF assms(1)] msg_step_ok [OF assms(1)] ext_step_ok [OF assms(1)]
    payload_step_ok [OF assms(1)]
  by (cases "rd_state r") (auto simp: reader_step_def empty_payload_def)

section \<open>A step does not see what comes later\<close>

primrec more_after :: "bytes \<Rightarrow> rstep \<Rightarrow> rstep" where
  "more_after b (RStop r) = RStop r"
| "more_after b (RFail e r) = RFail e r"
| "more_after b (RNext r d m) = RNext r (d @ b) m"

lemma done_append:
  "basic_done hc (d @ b) r = map_option (more_after b) (basic_done hc d r)"
  "msg_done cs hdr (d @ b) r = map_option (more_after b) (msg_done cs hdr d r)"
  "ext_done cs hdr (d @ b) r = map_option (more_after b) (ext_done cs hdr d r)"
  "payload_done cs m (d @ b) r = map_option (more_after b) (payload_done cs m d r)"
  by (auto simp: basic_done_eq msg_done_def ext_done_def payload_done_def Let_def
      split: option.split sum.split Option.bind_split)

text \<open>
  A step on a longer input does the same, unless it stopped for want of input: then the
  next step goes on from where it stopped.
\<close>

lemma take_drop_split: "k \<le> length a \<Longrightarrow> take k (a @ b) = take k a \<and> drop k (a @ b) = drop k a @ b"
  by simp

lemma slices_append:
  "slice_to a k = Some h \<Longrightarrow> slice_to (a @ b) k = Some h"
  "slice_from a k = Some d \<Longrightarrow> slice_from (a @ b) k = Some (d @ b)"
  by (auto simp: slice_to_def slice_from_def split: if_split_asm)

definition resumes :: "chunkStreamReader \<Rightarrow> bytes \<Rightarrow> bytes \<Rightarrow> bool" where
  "resumes r a b \<longleftrightarrow> (case reader_step r a of
     None \<Rightarrow> True
   | Some (RStop r') \<Rightarrow> reader_step r (a @ b) = reader_step r' b
   | Some x \<Rightarrow> reader_step r (a @ b) = Some (more_after b x))"

lemma resumes_basic:
  assumes "rd_ok r" and "rd_state r = S_BASIC_HEAD" and "a \<noteq> []"
  shows "resumes r a b"
proof -
  let ?hc = "rd_headCache r"
  have "cache_ok ?hc" using assms(1,2) by (simp add: rd_ok_def)
  obtain n where n: "clacBasicHeadLen (?hc @ a) = Some n" using clac_total [of "?hc @ a"] assms(3) by auto
  have eqs: "clacBasicHeadLen (if ?hc \<noteq> [] then ?hc else a @ c) = Some n" for c
    using n clac_append [of ?hc a] clac_append [of a c] assms(3) by (cases "?hc = []") auto
  have lt: "length ?hc < n"
    using \<open>cache_ok ?hc\<close> n clac_append [of ?hc a] clacBasicHeadLen_pos [OF n]
    by (cases "?hc = []") (auto simp: cache_ok_def)
  have step: "reader_step r (a @ c) =
      (if n > length ?hc + length (a @ c) then Some (RStop (r\<lparr>rd_headCache := ?hc @ (a @ c)\<rparr>))
       else do { h \<leftarrow> slice_to (a @ c) (int n - glen ?hc); d \<leftarrow> slice_from (a @ c) (int n - glen ?hc);
         basic_done (?hc @ h) d r })" for c
    by (simp only: reader_step_def assms(2) ParserState.case basic_step_def eqs Option.bind.simps)
  show ?thesis
  proof (cases "n > length ?hc + length a")
    case True
    let ?r = "r\<lparr>rd_headCache := ?hc @ a\<rparr>"
    have st: "reader_step r a = Some (RStop ?r)"
      using True step [of "[]"] by simp
    have same: "basic_done hc d ?r = basic_done hc d r" for hc d
      by (simp add: basic_done_eq too_many_def stream_for_def enter_stream_def set_current_def Let_def
          split: option.split)
    have "reader_step r (a @ b) = reader_step ?r b"
    proof (cases "n > length ?hc + length a + length b")
      case True
      then show ?thesis using step [of b] n assms(2,3)
        by (simp add: reader_step_def basic_step_def)
    next
      case False
      have "nat (int n - glen ?hc) = n - length ?hc" "nat (int n - glen (?hc @ a)) = n - length (?hc @ a)"
        using lt True by simp_all
      then show ?thesis
        using False True step [of b] n assms(2,3)
        by (simp add: reader_step_def basic_step_def slice_to_def slice_from_def same)
    qed
    then show ?thesis using st by (simp add: resumes_def)
  next
    case False
    let ?k = "n - length ?hc"
    have k: "nat (int n - glen ?hc) = ?k" "?k \<le> length a" using lt False by linarith+
    have "reader_step r (a @ c) = basic_done (?hc @ take ?k a) (drop ?k a @ c) r" for c
      using False step [of c] k lt by (simp add: slice_to_def slice_from_def)
    from this [of "[]"] this [of b] show ?thesis
      by (simp add: resumes_def done_append basic_done_eq split: option.split)
  qed
qed

lemma resumes_msg:
  assumes "rd_ok r" and "rd_state r = S_MSG_HEAD"
  shows "resumes r a b"
proof -
  obtain cs where cs: "current r = Some cs" "stream_ok cs" "in_state S_MSG_HEAD (rd_chunkSize r) cs" "rd_headCache r = []"
    by (rule current_ok [OF assms(1,2)]) simp_all
  let ?f = "bh_fmt (basic (cs_pkt cs))"
  let ?n = "ChunkType ! unat ?f"
  have idx: "idx ChunkType (uint ?f) = Some ?n"
    using byte_le_3 [of ?f] cs(2) by (auto simp: idx_def ChunkType_def stream_ok_def)
  have lt: "length (cs_hdr cs) < ?n" using cs(3) by simp
  show ?thesis
  proof (cases "length a + length (cs_hdr cs) < ?n")
    case True
    let ?cs = "cs\<lparr>cs_hdr := cs_hdr cs @ a\<rparr>"
    let ?r = "set_current ?cs r"
    have st: "reader_step r a = Some (RStop ?r)"
      using True cs(1) idx assms(2) by (simp add: reader_step_def msg_step_def)
    have cur: "current ?r = Some ?cs" by (simp add: current_def map_of_set_current)
    have set2: "set_current x (set_current y q) = set_current x q" for x y q
      by (simp add: set_current_def)
    have same: "msg_done ?cs h d ?r = msg_done cs h d r" for h d
      by (cases cs) (auto simp: msg_done_def set_current_def Let_def split: sum.split Option.bind_split)
    have "reader_step r (a @ b) = reader_step ?r b"
    proof (cases "length a + length b + length (cs_hdr cs) < ?n")
      case True
      then show ?thesis using cs(1) cur idx assms(2)
        by (simp add: reader_step_def msg_step_def set2 add.commute add.left_commute)
    next
      case False
      have "nat (int ?n - glen (cs_hdr cs)) = ?n - length (cs_hdr cs)"
        "nat (int ?n - glen (cs_hdr cs @ a)) = ?n - length (cs_hdr cs @ a)"
        using lt True by simp_all
      then show ?thesis using False True cs(1) cur idx assms(2)
        by (simp add: reader_step_def msg_step_def slice_to_def slice_from_def same ac_simps)
    qed
    then show ?thesis using st by (simp add: resumes_def)
  next
    case False
    let ?k = "?n - length (cs_hdr cs)"
    have k: "nat (int ?n - glen (cs_hdr cs)) = ?k" "?k \<le> length a" using lt False by linarith+
    have "reader_step r (a @ c) = msg_done cs (cs_hdr cs @ take ?k a) (drop ?k a @ c) r" for c
      using False cs(1) idx k lt assms(2)
      by (simp add: reader_step_def msg_step_def slice_to_def slice_from_def)
    from this [of "[]"] this [of b] show ?thesis
      by (simp add: resumes_def done_append msg_done_def Let_def split: option.split sum.split Option.bind_split)
  qed
qed

lemma resumes_ext:
  assumes "rd_ok r" and "rd_state r = S_EXTEND_TS"
  shows "resumes r a b"
proof -
  obtain cs where cs: "current r = Some cs" "stream_ok cs" "in_state S_EXTEND_TS (rd_chunkSize r) cs" "rd_headCache r = []"
    by (rule current_ok [OF assms(1,2)]) simp_all
  have lt: "length (cs_hdr cs) < 4" using cs(3) by simp
  show ?thesis
  proof (cases "length a + length (cs_hdr cs) < 4")
    case True
    let ?cs = "cs\<lparr>cs_hdr := cs_hdr cs @ a\<rparr>"
    let ?r = "set_current ?cs r"
    have st: "reader_step r a = Some (RStop ?r)"
      using True cs(1) assms(2) by (simp add: reader_step_def ext_step_def)
    have cur: "current ?r = Some ?cs" by (simp add: current_def map_of_set_current)
    have set2: "set_current x (set_current y q) = set_current x q" for x y q
      by (simp add: set_current_def)
    have same: "ext_done ?cs h d ?r = ext_done cs h d r" for h d
      by (cases cs) (auto simp: ext_done_def set_current_def Let_def split: Option.bind_split)
    have "reader_step r (a @ b) = reader_step ?r b"
    proof (cases "length a + length b + length (cs_hdr cs) < 4")
      case True
      then show ?thesis using cs(1) cur assms(2)
        by (simp add: reader_step_def ext_step_def set2 add.commute add.left_commute)
    next
      case False
      have "nat (4 - glen (cs_hdr cs)) = 4 - length (cs_hdr cs)"
        "nat (4 - glen (cs_hdr cs @ a)) = 4 - length (cs_hdr cs @ a)"
        using lt True by simp_all
      then show ?thesis using False True cs(1) cur assms(2)
        by (simp add: reader_step_def ext_step_def slice_to_def slice_from_def same ac_simps)
    qed
    then show ?thesis using st by (simp add: resumes_def)
  next
    case False
    let ?k = "4 - length (cs_hdr cs)"
    have k: "nat (4 - glen (cs_hdr cs)) = ?k" "?k \<le> length a" using lt False by linarith+
    have "reader_step r (a @ c) = ext_done cs (cs_hdr cs @ take ?k a) (drop ?k a @ c) r" for c
      using False cs(1) k lt assms(2)
      by (simp add: reader_step_def ext_step_def slice_to_def slice_from_def)
    from this [of "[]"] this [of b] show ?thesis
      by (simp add: resumes_def done_append ext_done_def split: option.split Option.bind_split)
  qed
qed

lemma resumes_payload:
  assumes "rd_ok r" and "rd_state r = S_PAYLOAD"
  shows "resumes r a b"
proof -
  obtain cs where cs: "current r = Some cs" "stream_ok cs" "in_state S_PAYLOAD (rd_chunkSize r) cs" "rd_headCache r = []"
    by (rule current_ok [OF assms(1,2)]) simp_all
  let ?len = "uint (mh_msgLen (msgHdr (cs_pkt cs)))" and ?m = "glen (cs_message cs)"
  let ?rem = "payload_remain cs r"
  let ?A = "?len > maxRtmpMessageLen \<or> ?m > ?len"
  let ?B = "rd_maxBufferedMsgLen r > 0 \<and> rd_buffered r + ?rem > rd_maxBufferedMsgLen r"
  have step: "reader_step r d =
      (if ?A then Some (RFail ErrMessageLength r) else if ?B then Some (RFail ErrBufferedTooMuch r)
       else if glen d < ?rem then Some (RStop (set_current (cs\<lparr>cs_message := cs_message cs @ d,
           cs_chunkRead := cs_chunkRead cs + glen d\<rparr>) (r\<lparr>rd_buffered := rd_buffered r + glen d\<rparr>)))
       else payload_done cs (cs_message cs @ take (nat ?rem) d) (drop (nat ?rem) d)
         (r\<lparr>rd_buffered := rd_buffered r + ?rem, rd_state := S_BASIC_HEAD\<rparr>))" for d
    using payload_remain_bounds(1) [OF cs(2,3)] assms(2) cs(1)
    by (simp add: reader_step_def payload_step_def Let_def slice_to_def slice_from_def)
  show ?thesis
  proof (cases "?A \<or> ?B \<or> ?rem \<le> glen a")
    case True
    then have k: "\<not> ?A \<Longrightarrow> \<not> ?B \<Longrightarrow> ?rem \<le> glen a \<and> nat ?rem \<le> length a" by auto
    show ?thesis
    proof (cases "?A \<or> ?B")
      case True
      then show ?thesis by (auto simp: resumes_def step)
    next
      case False
      then have "reader_step r (a @ c) = payload_done cs (cs_message cs @ take (nat ?rem) a)
          (drop (nat ?rem) a @ c) (r\<lparr>rd_buffered := rd_buffered r + ?rem, rd_state := S_BASIC_HEAD\<rparr>)" for c
        using k by (subst step) auto
      from this [of "[]"] this [of b] show ?thesis
        by (simp add: resumes_def done_append payload_done_def Let_def split: option.split Option.bind_split)
    qed
  next
    case False
    let ?cs = "cs\<lparr>cs_message := cs_message cs @ a, cs_chunkRead := cs_chunkRead cs + glen a\<rparr>"
    let ?r = "set_current ?cs (r\<lparr>rd_buffered := rd_buffered r + glen a\<rparr>)"
    have st: "reader_step r a = Some (RStop ?r)" using False by (simp add: step)
    have b: "0 \<le> ?rem" "?rem \<le> ?len - ?m" using payload_remain_bounds [OF cs(2,3)] False by auto
    have cur: "current ?r = Some ?cs" by (simp add: current_def map_of_set_current)
    have rem: "payload_remain ?cs ?r = ?rem - glen a" by (simp add: payload_remain_def Let_def)
    have set2: "set_current x ((set_current y q)\<lparr>rd_buffered := v\<rparr>) = set_current x (q\<lparr>rd_buffered := v\<rparr>)"
      for x y q v by (simp add: set_current_def)
    have same: "payload_done ?cs h d (?r\<lparr>rd_buffered := v, rd_state := S_BASIC_HEAD\<rparr>) =
        payload_done cs h d (r\<lparr>rd_buffered := v, rd_state := S_BASIC_HEAD\<rparr>)" for h d v
      by (cases cs) (auto simp: payload_done_def set_current_def Let_def split: Option.bind_split)
    have "reader_step ?r b =
      (if glen b < ?rem - glen a then Some (RStop (set_current (cs\<lparr>cs_message := cs_message cs @ a @ b,
           cs_chunkRead := cs_chunkRead cs + glen (a @ b)\<rparr>) (r\<lparr>rd_buffered := rd_buffered r + glen (a @ b)\<rparr>)))
       else payload_done cs (cs_message cs @ a @ take (nat (?rem - glen a)) b) (drop (nat (?rem - glen a)) b)
         (r\<lparr>rd_buffered := rd_buffered r + ?rem, rd_state := S_BASIC_HEAD\<rparr>))"
      using False b assms(2)
      by (auto simp: reader_step_def payload_step_def cur rem Let_def slice_to_def slice_from_def set2 same
          add.assoc)
    also have "\<dots> = reader_step r (a @ b)"
    proof -
      have "nat (?rem - glen a) = nat ?rem - length a" "length a \<le> nat ?rem" using False by auto
      then show ?thesis using False by (subst step) auto
    qed
    finally show ?thesis using st by (simp add: resumes_def)
  qed
qed

lemma resumes_step:
  "rd_ok r \<Longrightarrow> a \<noteq> [] \<or> empty_payload r \<Longrightarrow> resumes r a b"
  using resumes_basic resumes_msg resumes_ext resumes_payload
  by (cases "rd_state r") (auto simp: empty_payload_def)

section \<open>The reader is an incremental parser\<close>

lemma rd_ok_chunkSize:
  "rd_ok r \<Longrightarrow> rd_state r = S_BASIC_HEAD \<Longrightarrow> rd_ok (r\<lparr>rd_chunkSize := c\<rparr>)"
  by (auto simp: rd_ok_def)

lemma call_step_ok:
  assumes "rd_ok (fst s)" and "more_input s d"
  shows "call_step f s d \<noteq> Panic"
    and "call_step f s d = Stop s' \<Longrightarrow> rd_ok (fst s') \<and> \<not> more_input s' []"
    and "call_step f s d = Next s' d' \<Longrightarrow> rd_ok (fst s')"
    and "call_step f s d = Fail e s' \<Longrightarrow> within_limits (fst s')"
proof -
  have st: "step_ok (reader_step (fst s) d)"
    using reader_step_ok [OF assms(1)] assms(2) by (simp add: more_input_def)
  show "call_step f s d \<noteq> Panic"
    using st by (auto simp: call_step_def step_ok_def split: option.splits rstep.splits prod.splits)
  show "call_step f s d = Stop s' \<Longrightarrow> rd_ok (fst s') \<and> \<not> more_input s' []"
    using st by (auto simp: call_step_def step_ok_def more_input_def
        split: option.splits rstep.splits prod.splits)
  show "call_step f s d = Next s' d' \<Longrightarrow> rd_ok (fst s')"
    using st by (auto simp: call_step_def step_ok_def intro!: rd_ok_chunkSize
        split: option.splits rstep.splits prod.splits)
  show "call_step f s d = Fail e s' \<Longrightarrow> within_limits (fst s')"
    using st by (auto simp: call_step_def step_ok_def dest: rd_ok_within
        split: option.splits rstep.splits prod.splits)
qed

text \<open>The limits are those the reader was made with.\<close>

definition limits :: "chunkStreamReader \<Rightarrow> int \<times> int" where
  "limits r = (rd_maxChunkStreams r, rd_maxBufferedMsgLen r)"

lemma limits_sel [simp]:
  "limits (set_current cs r) = limits r" "limits (enter_stream bh cs r) = limits r" "limits (r\<lparr>rd_headCache := hc\<rparr>) = limits r"
  "limits (r\<lparr>rd_chunkSize := c\<rparr>) = limits r" "limits (r\<lparr>rd_recvBytes := n\<rparr>) = limits r" "limits (r\<lparr>rd_state := s\<rparr>) = limits r"
  "limits (r\<lparr>rd_buffered := k\<rparr>) = limits r" "limits (r\<lparr>rd_buffered := k, rd_state := s\<rparr>) = limits r"
  by (simp_all add: limits_def)

primrec reader_after :: "rstep \<Rightarrow> chunkStreamReader" where
  "reader_after (RStop r) = r"
| "reader_after (RFail e r) = r"
| "reader_after (RNext r d m) = r"

lemma done_limits:
  "basic_done h d r = Some x \<Longrightarrow> limits (reader_after x) = limits r" "msg_done cs h d r = Some x \<Longrightarrow> limits (reader_after x) = limits r"
  "ext_done cs h d r = Some x \<Longrightarrow> limits (reader_after x) = limits r" "payload_done cs m d r = Some x \<Longrightarrow> limits (reader_after x) = limits r"
proof -
  show "msg_done cs h d r = Some x \<Longrightarrow> limits (reader_after x) = limits r"
    by (cases "mh_decode (bh_fmt (basic (cs_pkt cs))) h (msgHdr (cs_pkt cs))") (auto simp: msg_done_def Let_def split: sum.splits)
qed (auto simp: basic_done_eq ext_done_def payload_done_def Let_def Option.bind_eq_Some_conv split: option.splits if_splits)

lemma reader_step_limits: "reader_step r d = Some x \<Longrightarrow> limits (reader_after x) = limits r"
  by (cases "rd_state r")
    (auto simp: reader_step_def basic_step_def msg_step_def ext_step_def payload_step_def Let_def Option.bind_eq_Some_conv
      dest: done_limits split: if_splits)

lemma call_step_limits:
  "call_step f s d = Stop s' \<Longrightarrow> limits (fst s') = limits (fst s)" "call_step f s d = Next s' d' \<Longrightarrow> limits (fst s') = limits (fst s)"
  "call_step f s d = Fail e s' \<Longrightarrow> limits (fst s') = limits (fst s)"
  using reader_step_limits [of "fst s" d]
  by (force simp: call_step_def split: option.splits rstep.splits prod.splits)+

lemma readLoop_limits:
  "rd_ok (fst s) \<Longrightarrow> readLoop f s d = Some (e, s') \<Longrightarrow> within_limits (fst s') \<and> limits (fst s') = limits (fst s)"
proof (induction f s d rule: readLoop.induct)
  case (1 f s d)
  show ?case
  proof (cases "more_input s d")
    case False
    then show ?thesis using 1(2,3) by (auto simp: readLoop.simps [of f s d] dest: rd_ok_within)
  next
    case True
    then show ?thesis
    proof (cases "call_step f s d")
      case Panic
      then show ?thesis using 1(3) True by (simp add: readLoop.simps [of f s d])
    next
      case (Stop q)
      then have "s' = q" using 1(3) True by (simp add: readLoop.simps [of f s d])
      then show ?thesis using call_step_ok(2) [OF 1(2) True Stop] call_step_limits(1) [OF Stop] by (auto dest: rd_ok_within)
    next
      case (Fail x q)
      then have "s' = q" using 1(3) True by (simp add: readLoop.simps [of f s d])
      then show ?thesis using call_step_ok(4) [OF 1(2) True Fail] call_step_limits(3) [OF Fail] by simp
    next
      case (Next q d')
      then have "readLoop f q d' = Some (e, s')" using 1(3) True by (simp add: readLoop.simps [of f s d])
      from 1(1) [OF True Next call_step_ok(3) [OF 1(2) True Next] this] show ?thesis using call_step_limits(2) [OF Next] by simp
    qed
  qed
qed

lemma call_step_append:
  assumes "rd_ok (fst s)" and "more_input s a"
  shows "call_step f s a = Next s' a' \<Longrightarrow> call_step f s (a @ b) = Next s' (a' @ b)"
    and "call_step f s a = Fail e s' \<Longrightarrow> call_step f s (a @ b) = Fail e s'"
    and "call_step f s a = Stop s' \<Longrightarrow> call_step f s (a @ b) = call_step f s' b"
  using resumes_step [OF assms(1), of a b] assms(2)
  by (auto simp: call_step_def resumes_def more_input_def split: option.splits rstep.splits prod.splits)

interpretation rtmp_reader: incremental "call_step f" more_input "readLoop f" reader_weight
  "\<lambda>s. rd_ok (fst s)" for f :: "('e, 's) msg_callback"
proof unfold_locales
  fix s :: "chunkStreamReader \<times> 's" and d
  show "readLoop f s d = (if more_input s d then (case call_step f s d of
      Panic \<Rightarrow> None | Stop s' \<Rightarrow> Some (None, s') | Fail e s' \<Rightarrow> Some (Some e, s')
    | Next s' d' \<Rightarrow> readLoop f s' d') else Some (None, s))"
    by (rule readLoop.simps)
qed (auto simp: more_input_def intro: call_step_weight
    dest: call_step_ok [unfolded more_input_def] call_step_append [unfolded more_input_def])

text \<open>The byte counter is not looked at by the parser.\<close>

definition with_recv :: "u64 \<Rightarrow> chunkStreamReader \<Rightarrow> chunkStreamReader" where
  "with_recv n r = r\<lparr>rd_recvBytes := n\<rparr>"

lemma with_recv_sel [simp]:
  "rd_current (with_recv n r) = rd_current r" "rd_cks (with_recv n r) = rd_cks r"
  "rd_chunkSize (with_recv n r) = rd_chunkSize r" "rd_state (with_recv n r) = rd_state r"
  "rd_headCache (with_recv n r) = rd_headCache r" "rd_buffered (with_recv n r) = rd_buffered r"
  "rd_maxChunkStreams (with_recv n r) = rd_maxChunkStreams r"
  "rd_maxBufferedMsgLen (with_recv n r) = rd_maxBufferedMsgLen r"
  "rd_recvBytes (with_recv n r) = n" "with_recv m (with_recv n r) = with_recv m r"
  by (simp_all add: with_recv_def)

primrec recv_step :: "u64 \<Rightarrow> rstep \<Rightarrow> rstep" where
  "recv_step n (RStop r) = RStop (with_recv n r)"
| "recv_step n (RFail e r) = RFail e (with_recv n r)"
| "recv_step n (RNext r d m) = RNext (with_recv n r) d m"

lemma set_current_recv:
  "set_current cs (with_recv n r) = with_recv n (set_current cs r)"
  "current (with_recv n r) = current r"
  by (simp_all add: set_current_def with_recv_def current_def)

lemma reader_step_recv: "reader_step (with_recv n r) d = map_option (recv_step n) (reader_step r d)"
proof -
  have "basic_done hc d (with_recv n r) = map_option (recv_step n) (basic_done hc d r)"
    "msg_done cs h d (with_recv n r) = map_option (recv_step n) (msg_done cs h d r)"
    "ext_done cs h d (with_recv n r) = map_option (recv_step n) (ext_done cs h d r)"
    "payload_done cs h d ((with_recv n r)\<lparr>rd_buffered := v, rd_state := st\<rparr>) =
      map_option (recv_step n) (payload_done cs h d (r\<lparr>rd_buffered := v, rd_state := st\<rparr>))" for cs hc h d v st
    by (auto simp: basic_done_eq msg_done_def ext_done_def payload_done_def Let_def with_recv_def
        too_many_def stream_for_def enter_stream_def set_current_def
        split: option.split sum.split Option.bind_split)
  then show ?thesis
    by (cases "rd_state r")
      (auto simp: reader_step_def basic_step_def msg_step_def ext_step_def payload_step_def Let_def
        set_current_recv payload_remain_def with_recv_def set_current_def current_def
        split: Option.bind_split)
qed

lemma call_step_recv:
  "call_step f (with_recv n r, st) d = map_outcome id (\<lambda>(r, st). (with_recv n r, st)) (call_step f (r, st) d)"
proof -
  have "(with_recv n r)\<lparr>rd_chunkSize := c\<rparr> = with_recv n (r\<lparr>rd_chunkSize := c\<rparr>)" for r c
    by (simp add: with_recv_def)
  then show ?thesis
    by (auto simp: call_step_def reader_step_recv split: option.split rstep.split prod.split)
qed

lemma readLoop_recv:
  "readLoop f (with_recv n r, st) d =
     map_option (map_prod id (\<lambda>(r, st). (with_recv n r, st))) (readLoop f (r, st) d)"
proof (induction "reader_weight (r, st) d" arbitrary: r st d rule: less_induct)
  case less
  have more: "more_input (with_recv n r, st) d = more_input (r, st) d"
    by (simp add: more_input_def empty_payload_def set_current_recv)
  show ?case
  proof (cases "call_step f (r, st) d")
    case (Next s' d')
    then have "reader_weight s' d' < reader_weight (r, st) d" by (rule call_step_weight)
    then have "readLoop f (with_recv n (fst s'), snd s') d' =
        map_option (map_prod id (\<lambda>(r, st). (with_recv n r, st))) (readLoop f s' d')"
      using less [of "fst s'" "snd s'" d'] by simp
    then show ?thesis
      using Next
      by (cases s') (subst (1 2) readLoop.simps, simp add: more call_step_recv)
  qed (subst (1 2) readLoop.simps, simp add: more call_step_recv split: prod.split)+
qed

lemma readRtmpMessage_readLoop:
  "readRtmpMessage f (r, st) d = map_option (map_prod id (\<lambda>(r', st').
     (with_recv (rd_recvBytes r + word_of_nat (length d)) r', st'))) (readLoop f (r, st) d)"
  using readLoop_recv [of f "rd_recvBytes r + word_of_nat (length d)" r st d]
  by (simp add: readRtmpMessage_def with_recv_def)

text \<open>
  The whole input in one call, and the same input in pieces: the same error or none, the
  same messages delivered (the callback's state), and, when there is no error, the same
  reader.  After an error only the byte counter may differ.
\<close>

definition same_but_recv :: "chunkStreamReader \<Rightarrow> chunkStreamReader \<Rightarrow> bool" where
  "same_but_recv a b \<longleftrightarrow> with_recv 0 a = with_recv 0 b"

lemma feed_readRtmpMessage:
  "\<exists>m. feed (readRtmpMessage f) (with_recv n r, st) ps =
      map_option (map_prod id (\<lambda>(r, st). (with_recv m r, st))) (feed (readLoop f) (r, st) ps) \<and>
    (\<forall>s'. feed (readLoop f) (r, st) ps = Some (None, s') \<longrightarrow> m = n + word_of_nat (length (concat ps)))"
proof (induction ps arbitrary: n r st)
  case Nil
  show ?case by (rule exI [of _ n]) simp
next
  case (Cons p ps)
  let ?n = "n + word_of_nat (length p)"
  have one: "readRtmpMessage f (with_recv n r, st) p =
      map_option (map_prod id (\<lambda>(r, st). (with_recv ?n r, st))) (readLoop f (r, st) p)"
    using readRtmpMessage_readLoop [of f "with_recv n r" st p] readLoop_recv [of f n r st p]
    by (cases "readLoop f (r, st) p") auto
  show ?case
  proof (cases "readLoop f (r, st) p")
    case None
    then show ?thesis using one by simp
  next
    case (Some x)
    obtain e r' st' where x: "x = (e, r', st')" by (cases x)
    show ?thesis
    proof (cases e)
      case None
      from Cons.IH [of ?n r' st'] show ?thesis
        using one Some x None by (auto simp: add.assoc)
    next
      case err: (Some y)
      show ?thesis using one Some x err by (auto intro!: exI [of _ ?n])
    qed
  qed
qed

lemma rtmp_reader_pieces:
  assumes "rd_ok r" and "\<not> empty_payload r"
  shows "\<exists>e r1 r2 st'. feed (readRtmpMessage f) (r, st) ps = Some (e, r1, st') \<and>
    readRtmpMessage f (r, st) (concat ps) = Some (e, r2, st') \<and>
    (if e = None then r1 = r2 else same_but_recv r1 r2)"
proof -
  have more: "\<not> more_input (r, st) []" using assms(2) by (simp add: more_input_def)
  obtain e r' st' where l: "readLoop f (r, st) (concat ps) = Some (e, r', st')"
    using rtmp_reader.run_total [of "(r, st)" f "concat ps"] assms(1) by auto
  then have fl: "feed (readLoop f) (r, st) ps = Some (e, r', st')"
    using rtmp_reader.feed_concat [of "(r, st)" f ps] assms(1) more by simp
  have "with_recv (rd_recvBytes r) r = r" by (simp add: with_recv_def)
  with feed_readRtmpMessage [of f "rd_recvBytes r" r st ps] fl obtain m where
    "feed (readRtmpMessage f) (r, st) ps = Some (e, with_recv m r', st')"
    "e = None \<longrightarrow> m = rd_recvBytes r + word_of_nat (length (concat ps))"
    by auto
  moreover have "readRtmpMessage f (r, st) (concat ps) =
      Some (e, with_recv (rd_recvBytes r + word_of_nat (length (concat ps))) r', st')"
    by (simp add: readRtmpMessage_readLoop l)
  ultimately show ?thesis by (auto simp: same_but_recv_def)
qed

text \<open>What the reader holds after any input it accepted.\<close>

lemma rd_ok_with_recv [simp]: "rd_ok (with_recv n r) = rd_ok r"
  by (simp add: rd_ok_def set_current_recv)

lemma readRtmpMessage_ok:
  assumes "rd_ok r" and "readRtmpMessage f (r, st) d = Some (None, r', st')"
  shows "rd_ok r' \<and> \<not> empty_payload r'"
proof -
  obtain q where q: "readLoop f (r, st) d = Some (None, q, st')"
    "r' = with_recv (rd_recvBytes r + word_of_nat (length d)) q"
    using assms(2) by (auto simp: readRtmpMessage_readLoop)
  then show ?thesis
    using rtmp_reader.run_inv [of "(r, st)" f d "(q, st')"] assms(1)
    by (simp add: more_input_def empty_payload_def set_current_recv)
qed

section \<open>Properties\<close>

text \<open>
  C1: the reader cannot tell how the bytes arrived: any way to cut them into calls delivers
  the same messages, ends in the same error or none, and (without an error) in the same
  state as one call with all of them.  No input makes it panic.
\<close>

theorem rtmp_fragmentation:
  assumes "rd_ok r" and "\<not> empty_payload r"
  shows "\<exists>e r1 r2 st'. feed (readRtmpMessage f) (r, st) ps = Some (e, r1, st') \<and>
    readRtmpMessage f (r, st) (concat ps) = Some (e, r2, st') \<and>
    (if e = None then r1 = r2 else same_but_recv r1 r2)"
  using assms by (rule rtmp_reader_pieces)

theorem rtmp_fragmentation_witness:
  "\<exists>e r1 r2 st'. feed (readRtmpMessage (\<lambda>m c ms. (None, c, ms @ [m])))
      (newChunkStreamReader 128, []) [[0x04, 0, 0], [0, 0, 0, 1, 8, 1, 0], [0, 0, 0xAA]] = Some (e, r1, st') \<and>
    readRtmpMessage (\<lambda>m c ms. (None :: unit option, c, ms @ [m])) (newChunkStreamReader 128, [])
      [0x04, 0, 0, 0, 0, 0, 1, 8, 1, 0, 0, 0, 0xAA] = Some (e, r2, st') \<and>
    (if e = None then r1 = r2 else same_but_recv r1 r2)"
  using rtmp_fragmentation [OF rd_ok_new, of 128 "\<lambda>m c ms. (None :: unit option, c, ms @ [m])" "[]"
    "[[0x04, 0, 0], [0, 0, 0, 1, 8, 1, 0], [0, 0, 0xAA]]"]
  by (simp add: empty_payload_def newChunkStreamReader_def)

text \<open>
  C2: whatever a peer sends and whatever the callback says, behind every call, also one that ends in an
  error, the reader accounts exactly for the payload it holds, holds at most its limit, and has at
  most the chunk streams its limit allows; the limits themselves are those it was made with.  A call
  without an error leaves a reader that the next call may start from.
\<close>

theorem rtmp_reader_bounds:
  assumes "rd_ok r" and "readRtmpMessage f (r, st) d = Some (e, r', st')"
  shows "rd_buffered r' = buffered_total (rd_cks r') \<and>
    (rd_maxBufferedMsgLen r > 0 \<longrightarrow> rd_buffered r' \<le> rd_maxBufferedMsgLen r) \<and>
    (rd_maxChunkStreams r > 0 \<longrightarrow> glen (rd_cks r') \<le> rd_maxChunkStreams r) \<and>
    rd_maxBufferedMsgLen r' = rd_maxBufferedMsgLen r \<and> rd_maxChunkStreams r' = rd_maxChunkStreams r \<and>
    (e = None \<longrightarrow> rd_ok r')"
proof -
  obtain q where q: "readLoop f (r, st) d = Some (e, q, st')" "r' = with_recv (rd_recvBytes r + word_of_nat (length d)) q"
    using assms(2) by (auto simp: readRtmpMessage_readLoop)
  have "within_limits q \<and> limits q = limits r" using readLoop_limits [of "(r, st)" f d e "(q, st')"] assms(1) q(1) by simp
  then have "within_limits r'" "limits r' = limits r" by (simp_all add: q(2) with_recv_def)
  moreover have "e = None \<longrightarrow> rd_ok r'" using readRtmpMessage_ok [OF assms(1), of f st d r' st'] assms(2) by auto
  ultimately show ?thesis unfolding within_limits_def limits_def by auto
qed

text \<open>A reader of one chunk stream is sent the first chunks of two.\<close>

theorem rtmp_reader_bounds_witness:
  "\<exists>r' st'. readRtmpMessage (\<lambda>m c ms. (None :: unit option, c, ms @ [m])) ((newChunkStreamReader 128)\<lparr>rd_maxChunkStreams := 1\<rparr>, [])
      [0x04, 0, 0, 0, 0, 0, 1, 8, 1, 0, 0, 0, 0xAA, 0x05] = Some (Some (Inl ErrTooManyChunkStreams), r', st') \<and> glen (rd_cks r') \<le> 1"
proof -
  let ?f = "\<lambda>m c ms. (None :: unit option, c, ms @ [m])" and ?r = "(newChunkStreamReader 128)\<lparr>rd_maxChunkStreams := 1\<rparr>"
  obtain r' st' where call: "readRtmpMessage ?f (?r, []) [0x04, 0, 0, 0, 0, 0, 1, 8, 1, 0, 0, 0, 0xAA, 0x05] =
      Some (Some (Inl ErrTooManyChunkStreams), r', st')"
  proof -
    have "map_option fst (readRtmpMessage ?f (?r, []) [0x04, 0, 0, 0, 0, 0, 1, 8, 1, 0, 0, 0, 0xAA, 0x05]) =
      Some (Some (Inl ErrTooManyChunkStreams))" by code_simp
    then show ?thesis using that by (auto simp: fst_def split: prod.splits)
  qed
  have ok: "rd_ok ?r" by (simp add: rd_ok_def newChunkStreamReader_def cache_ok_def buffered_total_def)
  have "glen (rd_cks r') \<le> 1" using rtmp_reader_bounds [OF ok call] by simp
  with call show ?thesis by blast
qed

end
