(* ===== verification/Rtp.thy ===== *)
theory Rtp
  imports Prelude
begin

text \<open>
  RTP packets, \<open>go-rtsp/rtp/rtp-hdr.go\<close> and \<open>rtp.go\<close>: the header, a packet with extensions
  and padding, and what every packer and unpacker has in common (the hook, the packet and
  the frame callback).

  A callback is a function of its argument and of the caller's state; a nil callback is
  \<open>None\<close>.  The hook gets a pointer to the packet, so it returns the packet too.

  The lemmas: a header and a packet are read back from what is written, whatever follows the
  header, and no bytes make the decoders panic.
\<close>

unbundle bit_operations_syntax

datatype rtp_error = ErrRtpHeader | ErrRtpCsrc | ErrRtpExtension | ErrRtpPadding
  | ErrTooShort | ErrMtuTooSmall | ErrUnsupported | ErrFragmentShort | ErrStapSize
  | ErrTooLarge | ErrAuHeader | ErrAscInvalid

abbreviation RTP_FIX_HEAD_LEN :: int where "RTP_FIX_HEAD_LEN \<equiv> 12"

record RtpHdr =
  Version :: byte
  PaddingFlag :: byte
  ExtensionFlag :: byte
  CC :: byte
  Marker :: byte
  PayloadType :: byte
  SequenceNumber :: u16
  Timestamp :: u32
  SSRC :: u32
  CSRC :: "u32 list"

definition zero_hdr :: RtpHdr where
  "zero_hdr = \<lparr>Version = 0, PaddingFlag = 0, ExtensionFlag = 0, CC = 0, Marker = 0, PayloadType = 0,
     SequenceNumber = 0, Timestamp = 0, SSRC = 0, CSRC = []\<rparr>"

section \<open>The header\<close>

fun csrc_put :: "u32 list \<Rightarrow> int \<Rightarrow> bytes \<Rightarrow> bytes option" where
  "csrc_put [] i data = Some data"
| "csrc_put (csrc # rest) i data = do {
     data \<leftarrow> put_at data (RTP_FIX_HEAD_LEN + 4 * i) (be32 csrc);
     csrc_put rest (i + 1) data
   }"

definition hdr_encodeTo :: "RtpHdr \<Rightarrow> bytes \<Rightarrow> bytes option" where
  "hdr_encodeTo head data = do {
     let cc = (word_of_nat (length (CSRC head)) :: byte);
     data \<leftarrow> upd data 0 (0x80 OR push_bit 5 (PaddingFlag head AND 0x01) OR
       push_bit 4 (ExtensionFlag head AND 0x01) OR (cc AND 0x0F));
     data \<leftarrow> upd data 1 (push_bit 7 (Marker head AND 0x01) OR (PayloadType head AND 0x7F));
     data \<leftarrow> put_at data 2 (be16 (SequenceNumber head));
     data \<leftarrow> put_at data 4 (be32 (Timestamp head));
     data \<leftarrow> put_at data 8 (be32 (SSRC head));
     csrc_put (CSRC head) 0 data
   }"

definition hdr_Encode :: "RtpHdr \<Rightarrow> bytes option" where
  "hdr_Encode head = do {
     data \<leftarrow> make_bytes (RTP_FIX_HEAD_LEN + 4 * glen (CSRC head));
     hdr_encodeTo head data
   }"

fun csrc_get :: "nat \<Rightarrow> int \<Rightarrow> bytes \<Rightarrow> u32 list option" where
  "csrc_get 0 i pkt = Some []"
| "csrc_get (Suc n) i pkt = do {
     d \<leftarrow> slice_from pkt (12 + 4 * i);
     w \<leftarrow> get_be32 d;
     ws \<leftarrow> csrc_get n (i + 1) pkt;
     Some (w # ws)
   }"

text \<open>Every field is set on success, so the receiver's old value does not matter.\<close>

definition hdr_Decode :: "bytes \<Rightarrow> (rtp_error, RtpHdr \<times> int) result" where
  "hdr_Decode pkt =
     (if glen pkt < RTP_FIX_HEAD_LEN then err ErrRtpHeader
      else do {
        b0 \<leftarrow> idx pkt 0;
        b1 \<leftarrow> idx pkt 1;
        d2 \<leftarrow> slice_from pkt 2;
        seq \<leftarrow> get_be16 d2;
        d4 \<leftarrow> slice_from pkt 4;
        ts \<leftarrow> get_be32 d4;
        d8 \<leftarrow> slice_from pkt 8;
        ssrc \<leftarrow> get_be32 d8;
        let cc = b0 AND 0x0F;
        if glen pkt - RTP_FIX_HEAD_LEN < 4 * uint cc then err ErrRtpCsrc
        else do {
          csrc \<leftarrow> csrc_get (unat cc) 0 pkt;
          ok (\<lparr>Version = drop_bit 6 b0, PaddingFlag = drop_bit 5 b0 AND 0x01,
             ExtensionFlag = drop_bit 4 b0 AND 0x01, CC = cc, Marker = drop_bit 7 b1,
             PayloadType = b1 AND 0x7F, SequenceNumber = seq, Timestamp = ts, SSRC = ssrc,
             CSRC = csrc\<rparr>, RTP_FIX_HEAD_LEN + 4 * glen csrc)
        }
      })"

section \<open>The packet\<close>

record RtpPacket =
  Header :: RtpHdr
  Extensions :: bytes
  Payload :: bytes
  Padding :: bytes

definition zero_pkt :: RtpPacket where
  "zero_pkt = \<lparr>Header = zero_hdr, Extensions = [], Payload = [], Padding = []\<rparr>"

text \<open>
  The length of the extension is a \<open>uint16\<close> and \<open>4+4*length\<close> is computed in that type, so it
  wraps; the test before it is in \<open>int\<close>.
\<close>

definition take_extension :: "RtpHdr \<Rightarrow> bytes \<Rightarrow> bytes \<Rightarrow> (rtp_error, bytes \<times> bytes) result" where
  "take_extension h old data =
     (if ExtensionFlag h > 0 then
        if glen data < 4 then err ErrRtpExtension
        else do {
          d \<leftarrow> slice_from data 2;
          len \<leftarrow> get_be16 d;
          if glen data - 4 < uint len * 4 then err ErrRtpExtension
          else do {
            ext \<leftarrow> slice_to data (uint (4 + 4 * len));
            rest \<leftarrow> slice_from data (uint (4 + 4 * len));
            ok (ext, rest)
          }
        }
      else ok (old, data))"

definition take_padding :: "RtpHdr \<Rightarrow> bytes \<Rightarrow> bytes \<Rightarrow> (rtp_error, bytes \<times> bytes) result" where
  "take_padding h old data =
     (if PaddingFlag h > 0 then
        if data = [] then err ErrRtpPadding
        else do {
          n \<leftarrow> idx data (glen data - 1);
          if uint n > glen data then err ErrRtpPadding
          else do {
            pad \<leftarrow> slice_from data (glen data - uint n);
            rest \<leftarrow> slice_to data (glen data - uint n);
            ok (pad, rest)
          }
        }
      else ok (old, data))"

definition pkt_Decode :: "bytes \<Rightarrow> RtpPacket \<Rightarrow> (rtp_error, RtpPacket) result" where
  "pkt_Decode data pkg = rbind (hdr_Decode data) (\<lambda>(h, offset). do {
     data \<leftarrow> slice_from data offset;
     rbind (take_extension h (Extensions pkg) data) (\<lambda>(ext, data).
       rbind (take_padding h (Padding pkg) data) (\<lambda>(pad, data).
         ok \<lparr>Header = h, Extensions = ext, Payload = data, Padding = pad\<rparr>))
   })"

text \<open>\<open>Encode\<close> sets the flags of its receiver.\<close>

definition set_flags :: "RtpPacket \<Rightarrow> RtpPacket" where
  "set_flags pkg =
     (let h = Header pkg;
          h = (if Extensions pkg \<noteq> [] then h\<lparr>ExtensionFlag := 1\<rparr> else h);
          h = (if Padding pkg \<noteq> [] then h\<lparr>PaddingFlag := 1\<rparr> else h)
      in pkg\<lparr>Header := h\<rparr>)"

definition pkt_Encode :: "RtpPacket \<Rightarrow> (bytes \<times> RtpPacket) option" where
  "pkt_Encode pkg0 = (let pkg = set_flags pkg0 in do {
     data \<leftarrow> make_bytes (RTP_FIX_HEAD_LEN + 4 * glen (CSRC (Header pkg)));
     data \<leftarrow> hdr_encodeTo (Header pkg) data;
     Some (data @ Extensions pkg @ Payload pkg @ Padding pkg, pkg)
   })"

section \<open>Packers and unpackers\<close>

type_synonym ('e, 's) on_packet = "bytes \<Rightarrow> 's \<Rightarrow> 'e option \<times> 's"
type_synonym 's rtp_hook = "RtpPacket \<Rightarrow> 's \<Rightarrow> RtpPacket \<times> 's"
type_synonym 's on_frame = "bytes \<Rightarrow> u32 \<Rightarrow> bool \<Rightarrow> 's \<Rightarrow> 's"

record ('e, 's) CommPacker =
  onPacket :: "('e, 's) on_packet option"
  onRtp :: "'s rtp_hook option"
  mtu :: int

definition OnPacket :: "('e, 's) on_packet option \<Rightarrow> ('e, 's) CommPacker \<Rightarrow> ('e, 's) CommPacker" where
  "OnPacket onPkt pack = pack\<lparr>onPacket := onPkt\<rparr>"

definition SetMtu :: "int \<Rightarrow> ('e, 's) CommPacker \<Rightarrow> ('e, 's) CommPacker" where
  "SetMtu m pack = pack\<lparr>mtu := m\<rparr>"

definition HookRtp :: "'s rtp_hook option \<Rightarrow> ('e, 's) CommPacker \<Rightarrow> ('e, 's) CommPacker" where
  "HookRtp cb pack = pack\<lparr>onRtp := cb\<rparr>"

record 's CommUnPacker =
  onFrame :: "'s on_frame option"
  un_onRtp :: "'s rtp_hook option"

definition OnFrame :: "'s on_frame option \<Rightarrow> 's CommUnPacker \<Rightarrow> 's CommUnPacker" where
  "OnFrame cb un = un\<lparr>onFrame := cb\<rparr>"

definition un_HookRtp :: "'s rtp_hook option \<Rightarrow> 's CommUnPacker \<Rightarrow> 's CommUnPacker" where
  "un_HookRtp cb un = un\<lparr>un_onRtp := cb\<rparr>"

text \<open>
  The three places the packers repeat: the header of a packet, the hook and the packet
  callback after it, and the frame callback.
\<close>

definition new_pkt :: "byte \<Rightarrow> u32 \<Rightarrow> u16 \<Rightarrow> u32 \<Rightarrow> bool \<Rightarrow> bytes \<Rightarrow> RtpPacket" where
  "new_pkt pt ssrc seq ts mark payload = zero_pkt\<lparr>Header := zero_hdr\<lparr>PayloadType := pt, SSRC := ssrc,
     SequenceNumber := seq, Timestamp := ts, Marker := (if mark then 1 else 0)\<rparr>, Payload := payload\<rparr>"

definition run_hook :: "'s rtp_hook option \<Rightarrow> RtpPacket \<Rightarrow> 's \<Rightarrow> RtpPacket \<times> 's" where
  "run_hook hook pkg st = (case hook of None \<Rightarrow> (pkg, st) | Some f \<Rightarrow> f pkg st)"

definition send :: "('e, 's) CommPacker \<Rightarrow> RtpPacket \<Rightarrow> 's \<Rightarrow> ('e option \<times> 's) option" where
  "send comm pkg st =
     (let (pkg, st) = run_hook (onRtp comm) pkg st in
      case onPacket comm of
        None \<Rightarrow> Some (None, st)
      | Some f \<Rightarrow> do { (data, _) \<leftarrow> pkt_Encode pkg; Some (f data st) })"

definition give_frame :: "'s CommUnPacker \<Rightarrow> bytes \<Rightarrow> u32 \<Rightarrow> bool \<Rightarrow> 's \<Rightarrow> 's" where
  "give_frame un frame ts lost st =
     (case onFrame un of None \<Rightarrow> st | Some f \<Rightarrow> f frame ts lost st)"

section \<open>A header is read back\<close>

definition hdr_bytes :: "RtpHdr \<Rightarrow> bytes" where
  "hdr_bytes h = [0x80 OR push_bit 5 (PaddingFlag h AND 0x01) OR push_bit 4 (ExtensionFlag h AND 0x01) OR
       (word_of_nat (length (CSRC h)) AND 0x0F),
     push_bit 7 (Marker h AND 0x01) OR (PayloadType h AND 0x7F)] @
     be16 (SequenceNumber h) @ be32 (Timestamp h) @ be32 (SSRC h) @ concat (map be32 (CSRC h))"

lemma length_concat_be32 [simp]: "length (concat (map be32 ws)) = 4 * length ws"
  by (induction ws) simp_all

lemma length_hdr_bytes: "length (hdr_bytes h) = 12 + 4 * length (CSRC h)"
  by (simp add: hdr_bytes_def)

lemma csrc_put_bytes:
  "int (length pre) = 12 + 4 * i \<Longrightarrow> 4 * length ws \<le> length room \<Longrightarrow>
     csrc_put ws i (pre @ room) = Some (pre @ concat (map be32 ws) @ drop (4 * length ws) room)"
proof (induction ws arbitrary: i pre room)
  case (Cons w ws)
  have put: "put_at (pre @ room) (12 + 4 * i) (be32 w) = Some ((pre @ be32 w) @ drop 4 room)"
    using Cons.prems by (simp add: put_at_def flip: Cons.prems(1))
  have "csrc_put ws (i + 1) ((pre @ be32 w) @ drop 4 room) =
      Some ((pre @ be32 w) @ concat (map be32 ws) @ drop (4 * length ws) (drop 4 room))"
    by (rule Cons.IH) (use Cons.prems in simp_all)
  then show ?case by (simp add: put add.commute)
qed simp

lemma list_12: "12 \<le> length xs \<Longrightarrow> \<exists>a b c d e f g h i j k l r. xs = [a, b, c, d, e, f, g, h, i, j, k, l] @ r"
  by (auto simp: numeral_eq_Suc Suc_le_length_iff)

lemma hdr_encodeTo_bytes:
  assumes "12 + 4 * length (CSRC h) \<le> length data"
  shows "hdr_encodeTo h data = Some (hdr_bytes h @ drop (12 + 4 * length (CSRC h)) data)"
proof -
  obtain a b c d e f g i j k l m r where data: "data = [a, b, c, d, e, f, g, i, j, k, l, m] @ r"
    using list_12 [of data] assms by auto
  let ?pre = "take 12 (hdr_bytes h)"
  have "hdr_encodeTo h data = csrc_put (CSRC h) 0 (?pre @ r)"
    by (simp add: hdr_encodeTo_def data upd_def put_at_def hdr_bytes_def be16_def be32_def Let_def)
  also have "\<dots> = Some (?pre @ concat (map be32 (CSRC h)) @ drop (4 * length (CSRC h)) r)"
    by (rule csrc_put_bytes) (use assms in \<open>simp_all add: data hdr_bytes_def\<close>)
  also have "?pre @ concat (map be32 (CSRC h)) = hdr_bytes h" by (simp add: hdr_bytes_def)
  then have "?pre @ concat (map be32 (CSRC h)) @ drop (4 * length (CSRC h)) r =
      hdr_bytes h @ drop (4 * length (CSRC h)) r" by (metis append_assoc)
  moreover have "drop (12 + 4 * length (CSRC h)) data = drop (4 * length (CSRC h)) (drop 12 data)"
    by (simp add: add.commute)
  moreover have "drop 12 data = r" by (simp add: data)
  ultimately show ?thesis by simp
qed

lemma hdr_Encode_bytes: "hdr_Encode h = Some (hdr_bytes h)"
  using hdr_encodeTo_bytes [of h "replicate (12 + 4 * length (CSRC h)) 0"]
  by (simp add: hdr_Encode_def make_bytes_def nat_add_distrib nat_mult_distrib)

text \<open>What the fixed-width fields can hold.\<close>

definition hdr_ok :: "RtpHdr \<Rightarrow> bool" where
  "hdr_ok h \<longleftrightarrow> fits 1 (PaddingFlag h) \<and> fits 1 (ExtensionFlag h) \<and> fits 1 (Marker h) \<and>
     fits 7 (PayloadType h) \<and> length (CSRC h) \<le> 15"

lemma csrc_get_bytes:
  "int (length pre) = 12 + 4 * i \<Longrightarrow> csrc_get (length ws) i (pre @ concat (map be32 ws) @ r) = Some ws"
proof (induction ws arbitrary: i pre)
  case (Cons w ws)
  have sl: "slice_from (pre @ be32 w @ concat (map be32 ws) @ r) (12 + 4 * i) =
      Some (be32 w @ concat (map be32 ws) @ r)"
    using Cons.prems by (simp add: slice_from_def flip: Cons.prems)
  have "csrc_get (length ws) (i + 1) ((pre @ be32 w) @ concat (map be32 ws) @ r) = Some ws"
    by (rule Cons.IH) (use Cons.prems in simp)
  then show ?case using sl by simp
qed simp

lemma fits_and: "fits n w \<Longrightarrow> w AND mask n = w" for w :: "'a::len word"
  using fits_bit [of n w] by (intro bit_word_eqI) (auto simp: bit_and_iff bit_mask_iff not_less [symmetric])

lemma nibble_of_nat: "n \<le> 15 \<Longrightarrow> (word_of_nat n :: byte) AND 0x0F = word_of_nat n"
proof -
  assume "n \<le> 15"
  then have "take_bit 4 (word_of_nat n :: byte) = word_of_nat n"
    by (simp add: take_bit_of_nat take_bit_nat_eq_self)
  then show ?thesis by (simp add: take_bit_eq_mask mask_eq_exp_minus_1)
qed

definition decoded_hdr :: "RtpHdr \<Rightarrow> RtpHdr" where
  "decoded_hdr h = h\<lparr>Version := 2, CC := word_of_nat (length (CSRC h))\<rparr>"

lemma first_bytes:
  assumes "hdr_ok h"
  defines "n \<equiv> word_of_nat (length (CSRC h)) :: byte"
  defines "b0 \<equiv> 0x80 OR push_bit 5 (PaddingFlag h AND 0x01) OR push_bit 4 (ExtensionFlag h AND 0x01) OR (n AND 0x0F)"
  defines "b1 \<equiv> push_bit 7 (Marker h AND 0x01) OR (PayloadType h AND 0x7F)"
  shows "drop_bit 6 b0 = 2" "drop_bit 5 b0 AND 0x01 = PaddingFlag h" "drop_bit 4 b0 AND 0x01 = ExtensionFlag h"
    "b0 AND 0x0F = n" "drop_bit 7 b1 = Marker h" "b1 AND 0x7F = PayloadType h"
proof -
  have n: "n AND 0x0F = n" using assms(1) nibble_of_nat by (simp add: hdr_ok_def n_def)
  have "n AND mask 4 = n" using n by (simp add: mask_eq_exp_minus_1)
  then have hi: "\<not> bit n k" if "4 \<le> k" for k using that by (metis bit_and_iff bit_mask_iff not_less)
  have P: "\<not> bit (PaddingFlag h) k" "\<not> bit (ExtensionFlag h) k" "\<not> bit (Marker h) k" if "1 \<le> k" for k
    using assms(1) that by (auto simp: hdr_ok_def dest!: fits_bit)
  have T: "\<not> bit (PayloadType h) 7" using assms(1) by (auto simp: hdr_ok_def dest!: fits_bit)
  note bits = bit_or_iff bit_and_iff bit_push_bit_iff bit_drop_bit_eq P T hi
  show "drop_bit 6 b0 = 2" "drop_bit 5 b0 AND 0x01 = PaddingFlag h" "drop_bit 4 b0 AND 0x01 = ExtensionFlag h"
    "b0 AND 0x0F = n"
    by (rule byte_eqI; simp add: b0_def n bits)+
  show "drop_bit 7 b1 = Marker h" "b1 AND 0x7F = PayloadType h"
    by (rule byte_eqI; simp add: b1_def bits)+
qed

lemma unat_small_byte: "n \<le> 255 \<Longrightarrow> unat (word_of_nat n :: byte) = n" "n \<le> 255 \<Longrightarrow> uint (word_of_nat n :: byte) = int n"
  by (simp_all add: unat_of_nat take_bit_nat_eq_self uint_nat)

lemma hdr_Decode_bytes:
  assumes "hdr_ok h"
  shows "hdr_Decode (hdr_bytes h @ r) = ok (decoded_hdr h, 12 + 4 * glen (CSRC h))"
proof -
  let ?n = "word_of_nat (length (CSRC h)) :: byte"
  let ?t = "be16 (SequenceNumber h) @ be32 (Timestamp h) @ be32 (SSRC h) @ concat (map be32 (CSRC h)) @ r"
  obtain b0 b1 where h: "hdr_bytes h @ r = b0 # b1 # ?t" and b:
    "drop_bit 6 b0 = 2" "drop_bit 5 b0 AND 0x01 = PaddingFlag h" "drop_bit 4 b0 AND 0x01 = ExtensionFlag h"
    "b0 AND 0x0F = ?n" "drop_bit 7 b1 = Marker h" "b1 AND 0x7F = PayloadType h"
    using first_bytes [OF assms] by (simp add: hdr_bytes_def)
  have n: "unat ?n = length (CSRC h)" "uint ?n = glen (CSRC h)"
    using assms unat_small_byte [of "length (CSRC h)"] by (simp_all add: hdr_ok_def)
  have t: "slice_from (b0 # b1 # ?t) 2 = Some ?t"
    "slice_from (b0 # b1 # ?t) 4 = Some (be32 (Timestamp h) @ be32 (SSRC h) @ concat (map be32 (CSRC h)) @ r)"
    "slice_from (b0 # b1 # ?t) 8 = Some (be32 (SSRC h) @ concat (map be32 (CSRC h)) @ r)"
    by (simp_all add: slice_from_def be16_def be32_def)
  have c: "csrc_get (length (CSRC h)) 0 (b0 # b1 # ?t) = Some (CSRC h)"
    using csrc_get_bytes [of "b0 # b1 # be16 (SequenceNumber h) @ be32 (Timestamp h) @ be32 (SSRC h)" 0 "CSRC h" r]
    by simp
  show ?thesis
    by (simp add: h hdr_Decode_def t idx_def Let_def c b n decoded_hdr_def)
qed

lemma csrc_get_total: "0 \<le> i \<Longrightarrow> 12 + 4 * (i + int n) \<le> glen pkt \<Longrightarrow> \<exists>ws. csrc_get n i pkt = Some ws \<and> length ws = n"
proof (induction n arbitrary: i)
  case (Suc n)
  obtain ws where "csrc_get n (i + 1) pkt = Some ws" "length ws = n" using Suc.IH [of "i + 1"] Suc.prems by auto
  moreover have sl: "slice_from pkt (12 + 4 * i) = Some (drop (nat (12 + 4 * i)) pkt)"
    using Suc.prems by (simp add: slice_from_def)
  moreover have "4 \<le> length (drop (nat (12 + 4 * i)) pkt)" using Suc.prems by simp
  then obtain w where "get_be32 (drop (nat (12 + 4 * i)) pkt) = Some w" using get_be32_total by blast
  ultimately show ?case by simp
qed simp

lemma hdr_Decode_total:
  obtains e where "hdr_Decode pkt = err e"
  | h n where "hdr_Decode pkt = ok (h, n)" "0 \<le> n" "n \<le> glen pkt"
proof (cases "glen pkt < 12")
  case True
  then show ?thesis using that by (simp add: hdr_Decode_def)
next
  case False
  let ?cc = "pkt ! 0 AND 0x0F"
  have i: "idx pkt 0 = Some (pkt ! 0)" "idx pkt 1 = Some (pkt ! 1)" using False by (auto simp: idx_def)
  have s: "slice_from pkt 2 = Some (drop 2 pkt)" "slice_from pkt 4 = Some (drop 4 pkt)"
    "slice_from pkt 8 = Some (drop 8 pkt)"
    using False by (simp_all add: slice_from_def)
  have n: "\<not> glen pkt < 12" using False .
  obtain a b c where g: "get_be16 (drop 2 pkt) = Some a" "get_be32 (drop 4 pkt) = Some b"
    "get_be32 (drop 8 pkt) = Some c"
  proof -
    have "2 \<le> length (drop 2 pkt)" "4 \<le> length (drop 4 pkt)" "4 \<le> length (drop 8 pkt)" using False by auto
    then show ?thesis using that get_be16_total get_be32_total by meson
  qed
  show ?thesis
  proof (cases "glen pkt - 12 < 4 * uint ?cc")
    case True
    then have "hdr_Decode pkt = err ErrRtpCsrc"
      by (simp only: hdr_Decode_def n i s g Let_def Option.bind.simps if_False if_True)
    then show ?thesis by (rule that(1))
  next
    case le: False
    have "12 + 4 * (0 + int (unat ?cc)) \<le> glen pkt" using le by simp
    then obtain ws where ws: "csrc_get (unat ?cc) 0 pkt = Some ws" "length ws = unat ?cc"
      using csrc_get_total [of 0 "unat ?cc" pkt] by blast
    obtain h where "hdr_Decode pkt = ok (h, 12 + 4 * glen ws)"
      by (simp only: hdr_Decode_def n i s g Let_def Option.bind.simps if_False le ws(1))
    then show ?thesis by (rule that(2)) (use le ws(2) in simp_all)
  qed
qed

section \<open>A packet is read back\<close>

text \<open>
  What \<open>Decode\<close> can recognise: an extension with its length in it (short enough for the
  \<open>uint16\<close> sum), padding that ends in its length, and flags only where there is something.
\<close>

definition ext_ok :: "bytes \<Rightarrow> bool" where
  "ext_ok x \<longleftrightarrow> 4 \<le> length x \<and> length x < 65536 \<and>
     (\<exists>w. get_be16 (drop 2 x) = Some w \<and> length x = 4 + 4 * unat w)"

definition pad_ok :: "bytes \<Rightarrow> bool" where
  "pad_ok x \<longleftrightarrow> x \<noteq> [] \<and> length x \<le> 255 \<and> last x = word_of_nat (length x)"

definition pkt_ok :: "RtpPacket \<Rightarrow> bool" where
  "pkt_ok p \<longleftrightarrow> hdr_ok (Header p) \<and>
     (if Extensions p = [] then ExtensionFlag (Header p) = 0 else ext_ok (Extensions p)) \<and>
     (if Padding p = [] then PaddingFlag (Header p) = 0 else pad_ok (Padding p))"

lemma set_flags_sel [simp]:
  "Extensions (set_flags p) = Extensions p" "Payload (set_flags p) = Payload p"
  "Padding (set_flags p) = Padding p" "CSRC (Header (set_flags p)) = CSRC (Header p)"
  by (simp_all add: set_flags_def Let_def)

lemma fits_1 [simp]: "fits (Suc 0) (0 :: byte)" "fits (Suc 0) (1 :: byte)" "fits n (0 :: byte)"
  by (simp_all add: fits_def drop_bit_Suc)

lemma hdr_ok_set_flags: "hdr_ok (Header p) \<Longrightarrow> hdr_ok (Header (set_flags p))"
  by (auto simp: hdr_ok_def set_flags_def Let_def)

lemma pkt_Encode_bytes:
  "pkt_Encode p = Some (hdr_bytes (Header (set_flags p)) @ Extensions p @ Payload p @ Padding p, set_flags p)"
  using hdr_encodeTo_bytes [of "Header (set_flags p)" "replicate (12 + 4 * length (CSRC (Header p))) 0"]
  by (simp add: pkt_Encode_def Let_def make_bytes_def nat_add_distrib nat_mult_distrib)

lemma uint_ext_len:
  assumes "4 + 4 * unat w < 65536" shows "uint (4 + 4 * w :: u16) = int (4 + 4 * unat w)"
proof -
  have "4 + 4 * w = word_of_nat (4 + 4 * unat w)" by simp
  moreover have "unat (word_of_nat (4 + 4 * unat w) :: u16) = 4 + 4 * unat w"
    using assms by (simp only: unat_of_nat) (simp add: take_bit_nat_eq_self)
  ultimately show ?thesis by (simp only: uint_nat)
qed

lemma get_be16_prefix: "2 \<le> length xs \<Longrightarrow> get_be16 (xs @ r) = get_be16 xs"
  by (cases xs rule: get_be16.cases) auto

lemma take_extension_append:
  assumes "if x = [] then ExtensionFlag h = 0 else ExtensionFlag h = 1 \<and> ext_ok x"
  shows "take_extension h [] (x @ r) = ok (x, r)"
proof (cases "x = []")
  case False
  then have f: "ExtensionFlag h = 1" using assms by simp
  obtain w where w: "4 \<le> length x" "length x < 65536" "get_be16 (drop 2 x) = Some w"
    "length x = 4 + 4 * unat w"
    using False assms by (auto simp: ext_ok_def)
  have g: "get_be16 (drop 2 (x @ r)) = Some w" using w(1,3) get_be16_prefix [of "drop 2 x" r] by simp
  have s2: "slice_from (x @ r) 2 = Some (drop 2 (x @ r))" using w(1) by (simp add: slice_from_def)
  have u: "uint (4 + 4 * w) = glen x" using w(2,4) uint_ext_len [of w] by metis
  have n: "\<not> glen (x @ r) - 4 < uint w * 4" "\<not> glen (x @ r) < 4"
    using w(1,4) uint_nonnegative [of w] by (simp_all add: not_less)
  have sl: "slice_to (x @ r) (glen x) = Some x" "slice_from (x @ r) (glen x) = Some r"
    by (simp_all add: slice_to_def slice_from_def)
  have z: "(0 :: byte) < 1" by simp
  show ?thesis
    by (simp only: take_extension_def f z g s2 u n sl Option.bind.simps if_False if_True)
qed (use assms in \<open>simp add: take_extension_def\<close>)

lemma take_padding_append:
  assumes "if z = [] then PaddingFlag h = 0 else PaddingFlag h = 1 \<and> pad_ok z"
  shows "take_padding h [] (y @ z) = ok (z, y)"
proof (cases "z = []")
  case False
  then have z: "length z \<le> 255" "last z = word_of_nat (length z)"
    using assms by (simp_all add: pad_ok_def)
  have f: "PaddingFlag h = 1" using assms False by simp
  have "glen (y @ z) - 1 = int (length (y @ z) - 1)" using False by (cases z) auto
  moreover have "length (y @ z) - 1 < length (y @ z)" using False by (cases z) auto
  ultimately have i: "idx (y @ z) (glen (y @ z) - 1) = Some (last z)"
    using False by (simp only: idx_def nat_int of_nat_less_iff of_nat_0_le_iff simp_thms if_True)
      (metis last_appendR last_conv_nth append_is_Nil_conv)
  have u: "uint (last z) = glen z" using z unat_small_byte(2) [of "length z"] by metis
  have n: "\<not> glen z > glen (y @ z)" "glen (y @ z) - glen z = glen y" "y @ z \<noteq> []" using False by simp_all
  have sl: "slice_to (y @ z) (glen y) = Some y" "slice_from (y @ z) (glen y) = Some z"
    by (simp_all add: slice_to_def slice_from_def)
  have o: "(0 :: byte) < 1" by simp
  show ?thesis
    by (simp only: take_padding_def f o i u n sl Option.bind.simps if_False if_True)
qed (use assms in \<open>simp add: take_padding_def\<close>)

lemma pkt_Decode_Encode:
  assumes "pkt_ok p"
  shows "\<exists>data. pkt_Encode p = Some (data, set_flags p) \<and>
    pkt_Decode data zero_pkt = ok (set_flags p\<lparr>Header := decoded_hdr (Header (set_flags p))\<rparr>)"
proof -
  let ?h = "Header (set_flags p)" and ?r = "Extensions p @ Payload p @ Padding p"
  have ok: "hdr_ok ?h" using assms by (intro hdr_ok_set_flags) (simp add: pkt_ok_def)
  have off: "slice_from (hdr_bytes ?h @ ?r) (12 + 4 * glen (CSRC ?h)) = Some ?r"
    using slice_from_int [of "length (hdr_bytes ?h)" "hdr_bytes ?h @ ?r"] by (simp add: length_hdr_bytes)
  have ext: "take_extension (decoded_hdr ?h) [] ?r = ok (Extensions p, Payload p @ Padding p)"
    by (rule take_extension_append) (use assms in \<open>auto simp: pkt_ok_def decoded_hdr_def set_flags_def Let_def\<close>)
  have pad: "take_padding (decoded_hdr ?h) [] (Payload p @ Padding p) = ok (Padding p, Payload p)"
    by (rule take_padding_append) (use assms in \<open>auto simp: pkt_ok_def decoded_hdr_def set_flags_def Let_def\<close>)
  have "pkt_Decode (hdr_bytes ?h @ ?r) zero_pkt = ok \<lparr>Header = decoded_hdr ?h, Extensions = Extensions p,
      Payload = Payload p, Padding = Padding p\<rparr>"
    by (simp only: pkt_Decode_def hdr_Decode_bytes [OF ok] rbind_simps prod.case off Option.bind.simps
        zero_pkt_def RtpPacket.select_convs ext pad)
  moreover have "set_flags p\<lparr>Header := decoded_hdr ?h\<rparr> = \<lparr>Header = decoded_hdr ?h, Extensions = Extensions p,
      Payload = Payload p, Padding = Padding p\<rparr>"
    by (simp add: set_flags_def Let_def)
  ultimately show ?thesis by (simp only: pkt_Encode_bytes) simp
qed

text \<open>No bytes make the decoder panic: the sum that wraps only gets smaller.\<close>

lemma uint_ext_le: "uint (4 + 4 * w :: u16) \<le> 4 + 4 * uint w"
proof -
  have "4 + 4 * w = (word_of_nat (4 + 4 * unat w) :: u16)" by simp
  moreover have "unat (word_of_nat (4 + 4 * unat w) :: u16) \<le> 4 + 4 * unat w"
    by (simp only: unat_of_nat) (simp add: take_bit_nat_less_eq_self)
  ultimately have "unat (4 + 4 * w) \<le> 4 + 4 * unat w" by (simp only:)
  then have "int (unat (4 + 4 * w)) \<le> int (4 + 4 * unat w)" by (simp only: of_nat_le_iff)
  then show ?thesis by simp
qed

lemma take_extension_total: "\<exists>r. take_extension h old data = Some r"
proof (cases "ExtensionFlag h > 0 \<and> 4 \<le> length data")
  case True
  then have s2: "slice_from data 2 = Some (drop 2 data)" and "2 \<le> length (drop 2 data)"
    by (auto simp: slice_from_def)
  then obtain w where w: "get_be16 (drop 2 data) = Some w" using get_be16_total by blast
  have "0 \<le> uint (4 + 4 * w)" by simp
  then show ?thesis
    using True s2 w uint_ext_le [of w]
    by (auto simp: take_extension_def slice_to_def slice_from_def simp del: uint_ge_0)
next
  case False
  then show ?thesis by (auto simp: take_extension_def)
qed

lemma take_padding_total: "\<exists>r. take_padding h old data = Some r"
proof (cases "PaddingFlag h > 0 \<and> data \<noteq> []")
  case True
  then have "idx data (glen data - 1) = Some (data ! nat (glen data - 1))" by (cases data) (auto simp: idx_def)
  then show ?thesis using True by (auto simp: take_padding_def slice_to_def slice_from_def)
next
  case False
  then show ?thesis by (auto simp: take_padding_def)
qed

lemma pkt_Decode_total: "\<exists>r. pkt_Decode data p = Some r"
proof (rule hdr_Decode_total [of data])
  fix h n assume h: "hdr_Decode data = ok (h, n)" "0 \<le> n" "n \<le> glen data"
  show ?thesis
    unfolding pkt_Decode_def h(1)
    using h(2,3) take_extension_total take_padding_total
    by (auto simp: slice_from_def intro!: rbind_total)
qed (simp add: pkt_Decode_def)

text \<open>What the packers build from \<open>new_pkt\<close> arrives as it was sent.\<close>

definition plain_ok :: "byte \<Rightarrow> bool" where
  "plain_ok pt \<longleftrightarrow> fits 7 pt"

definition plain_data :: "RtpPacket \<Rightarrow> bytes" where
  "plain_data pkg = hdr_bytes (Header pkg) @ Payload pkg"

lemma new_pkt_sel [simp]:
  "Payload (new_pkt pt ssrc seq ts mark payload) = payload"
  "Extensions (new_pkt pt ssrc seq ts mark payload) = []"
  "Padding (new_pkt pt ssrc seq ts mark payload) = []"
  "Header (new_pkt pt ssrc seq ts mark payload) = zero_hdr\<lparr>PayloadType := pt, SSRC := ssrc,
     SequenceNumber := seq, Timestamp := ts, Marker := (if mark then 1 else 0)\<rparr>"
  by (simp_all add: new_pkt_def zero_pkt_def)

lemma new_pkt_Encode:
  "pkt_Encode (new_pkt pt ssrc seq ts mark payload) =
     Some (plain_data (new_pkt pt ssrc seq ts mark payload), new_pkt pt ssrc seq ts mark payload)"
  by (simp add: pkt_Encode_bytes plain_data_def set_flags_def)

definition received_pkt :: "RtpPacket \<Rightarrow> RtpPacket" where
  "received_pkt pkg = pkg\<lparr>Header := decoded_hdr (Header pkg)\<rparr>"

lemma received_pkt_sel [simp]:
  "Payload (received_pkt p) = Payload p" "Timestamp (Header (received_pkt p)) = Timestamp (Header p)"
  "SequenceNumber (Header (received_pkt p)) = SequenceNumber (Header p)"
  by (simp_all add: received_pkt_def decoded_hdr_def)

lemma new_pkt_Decode:
  assumes "plain_ok pt"
  shows "pkt_Decode (plain_data (new_pkt pt ssrc seq ts mark payload)) zero_pkt =
    ok (received_pkt (new_pkt pt ssrc seq ts mark payload))"
proof -
  let ?p = "new_pkt pt ssrc seq ts mark payload"
  have "pkt_ok ?p" using assms by (simp add: pkt_ok_def hdr_ok_def zero_hdr_def plain_ok_def)
  moreover have "set_flags ?p = ?p" by (simp add: set_flags_def)
  ultimately show ?thesis
    using pkt_Decode_Encode [of ?p] new_pkt_Encode [of pt ssrc seq ts mark payload]
    by (simp add: received_pkt_def)
qed

text \<open>What is left as payload is a part of the input.\<close>

lemma pkt_Decode_length:
  assumes "pkt_Decode data p = ok q" shows "length (Payload q) \<le> length data"
proof -
  have ext: "take_extension h old d = ok (x, r) \<Longrightarrow> length r \<le> length d" for h old d x r
    by (auto simp: take_extension_def slice_to_def slice_from_def Option.bind_eq_Some_conv split: if_splits)
  have pad: "take_padding h old d = ok (x, r) \<Longrightarrow> length r \<le> length d" for h old d x r
    by (auto simp: take_padding_def slice_to_def slice_from_def Option.bind_eq_Some_conv split: if_splits)
  obtain h n d x r y z where "slice_from data n = Some d" "take_extension h (Extensions p) d = ok (x, r)"
    "take_padding h (Padding p) r = ok (y, z)" "Payload q = z"
    using assms by (auto simp: pkt_Decode_def rbind_eq_ok Option.bind_eq_Some_conv)
  then show ?thesis using ext [of h "Extensions p" d x r] pad [of h "Padding p" r y z]
    by (auto simp: slice_from_def split: if_splits)
qed

lemma plain_ok_and: "plain_ok pt \<Longrightarrow> pt AND 0x7F = pt"
  using fits_and [of 7 pt] by (simp add: plain_ok_def mask_eq_exp_minus_1)

lemma fold_snoc: "fold (\<lambda>d ds. ds @ [d]) xs ys = ys @ xs"
  by (induction xs arbitrary: ys) simp_all

section \<open>Properties\<close>

text \<open>
  C18: an RTP packet with CSRCs, a header extension, payload and padding is read back from its
  bytes, with the flags that \<open>Encode\<close> set and the version and CSRC count of the wire.
\<close>

theorem rtp_packet_round_trip:
  assumes "pkt_ok p"
  shows "\<exists>data. pkt_Encode p = Some (data, set_flags p) \<and>
    pkt_Decode data zero_pkt = ok (set_flags p\<lparr>Header := decoded_hdr (Header (set_flags p))\<rparr>)"
  using assms by (rule pkt_Decode_Encode)

definition sample_rtp_packet :: RtpPacket where
  "sample_rtp_packet = \<lparr>Header = zero_hdr\<lparr>Marker := 1, PayloadType := 96, SequenceNumber := 0xFFFF,
       Timestamp := 90000, SSRC := 7, CSRC := [1, 2]\<rparr>,
     Extensions = [0xBE, 0xDE, 0, 1, 5, 6, 7, 8], Payload = [1, 2, 3], Padding = [0, 0, 3]\<rparr>"

theorem rtp_packet_round_trip_witness:
  "\<exists>data. pkt_Encode sample_rtp_packet = Some (data, set_flags sample_rtp_packet) \<and>
     pkt_Decode data zero_pkt = ok (sample_rtp_packet\<lparr>Header := (Header sample_rtp_packet)\<lparr>Version := 2,
       PaddingFlag := 1, ExtensionFlag := 1, CC := 2\<rparr>\<rparr>)"
proof -
  have "ext_ok [0xBE, 0xDE, 0, 1, 5, 6, 7, 8]" by (simp add: ext_ok_def)
  moreover have "hdr_ok (Header sample_rtp_packet)" "pad_ok [0, 0, 3]" by code_simp+
  ultimately have "pkt_ok sample_rtp_packet" by (simp add: pkt_ok_def sample_rtp_packet_def)
  moreover have "set_flags sample_rtp_packet\<lparr>Header := decoded_hdr (Header (set_flags sample_rtp_packet))\<rparr> =
    sample_rtp_packet\<lparr>Header := (Header sample_rtp_packet)\<lparr>Version := 2, PaddingFlag := 1, ExtensionFlag := 1, CC := 2\<rparr>\<rparr>"
    by code_simp
  ultimately show ?thesis using rtp_packet_round_trip [of sample_rtp_packet] by simp
qed

text \<open>no bytes make the packet decoder panic.\<close>

theorem rtp_decoder_never_panics: "\<exists>r. pkt_Decode data p = Some r"
  by (rule pkt_Decode_total)

end
