(* ===== verification/RtpFu.thy ===== *)
theory RtpFu
  imports Rtp
begin

text \<open>
  What the H.264 and the H.265 payload formats share: a unit goes into one packet or into
  fragments of at most the size the MTU leaves, the packets of a frame are numbered in a row
  and the last one is marked.  \<open>fu_receiver\<close> is the contract of an unpacker: what one packet
  does to it.  From it the locale derives that the packets of a frame deliver its units.
\<close>

section \<open>Packets of a frame\<close>

fun pieces :: "nat \<Rightarrow> bytes \<Rightarrow> bytes list" where
  "pieces k d = (if length d \<le> k \<or> k = 0 then [d] else take k d # pieces k (drop k d))"

declare pieces.simps [simp del]

lemma concat_pieces: "concat (pieces k d) = d"
proof (induction k d rule: pieces.induct)
  case (1 k d)
  then show ?case by (cases "length d \<le> k \<or> k = 0") (simp_all add: pieces.simps [of k d])
qed

lemma pieces_nonempty [simp]: "pieces k d \<noteq> []"
  by (simp add: pieces.simps [of k d])

lemma pieces_two: "0 < k \<Longrightarrow> k < length d \<Longrightarrow> \<exists>p q ps. pieces k d = p # q # ps"
  by (cases "pieces k (drop k d)") (simp_all add: pieces.simps [of k d])

lemma pieces_bound: "0 < k \<Longrightarrow> \<forall>p \<in> set (pieces k d). length p \<le> k"
proof (induction k d rule: pieces.induct)
  case (1 k d)
  then show ?case by (cases "length d \<le> k") (simp_all add: pieces.simps [of k d])
qed

text \<open>The payloads of fragments: the first is marked as start, the last as end.\<close>

fun frags :: "(bool \<Rightarrow> bool \<Rightarrow> bytes \<Rightarrow> bytes) \<Rightarrow> bool \<Rightarrow> bytes list \<Rightarrow> bytes list" where
  "frags f s [] = []"
| "frags f s [p] = [f s True p]"
| "frags f s (p # q # ps) = f s False p # frags f False (q # ps)"

lemma frags_Cons: "ps \<noteq> [] \<Longrightarrow> frags f s (p # ps) = f s False p # frags f False ps"
  by (cases ps) simp_all

text \<open>One unit: as it is, or its body in pieces.\<close>

definition unit_payloads :: "nat \<Rightarrow> (bytes \<Rightarrow> bool) \<Rightarrow> (bytes \<Rightarrow> 'h) \<Rightarrow> (bytes \<Rightarrow> bytes)
    \<Rightarrow> ('h \<Rightarrow> bool \<Rightarrow> bool \<Rightarrow> bytes \<Rightarrow> bytes) \<Rightarrow> bytes \<Rightarrow> bytes list" where
  "unit_payloads room single info body frag n =
     (if single n then [n] else frags (frag (info n)) True (pieces room (body n)))"

lemma frags_nonempty: "ps \<noteq> [] \<Longrightarrow> frags f s ps \<noteq> []"
  by (cases ps; cases "tl ps") auto

lemma unit_payloads_nonempty: "unit_payloads room single info body frag n \<noteq> []"
  by (simp add: unit_payloads_def frags_nonempty)

fun rtp_packets :: "byte \<Rightarrow> u32 \<Rightarrow> u32 \<Rightarrow> bool \<Rightarrow> u16 \<Rightarrow> bytes list \<Rightarrow> bytes list" where
  "rtp_packets pt ssrc ts m seq [] = []"
| "rtp_packets pt ssrc ts m seq (p # ps) =
     plain_data (new_pkt pt ssrc seq ts (m \<and> ps = []) p) # rtp_packets pt ssrc ts m (seq + 1) ps"

lemma rtp_packets_append: "ys \<noteq> [] \<Longrightarrow> rtp_packets pt ssrc ts m seq (xs @ ys) =
   rtp_packets pt ssrc ts False seq xs @ rtp_packets pt ssrc ts m (seq + word_of_nat (length xs)) ys"
  by (induction xs arbitrary: seq) (simp_all add: add.assoc)

text \<open>A packer without a hook whose packet callback accepts every packet.\<close>

definition sink :: "(bytes \<Rightarrow> 's \<Rightarrow> 's) \<Rightarrow> ('e, 's) CommPacker \<Rightarrow> bool" where
  "sink g comm \<longleftrightarrow> onRtp comm = None \<and> onPacket comm = Some (\<lambda>d st. (None, g d st))"

lemma send_sink: "sink g comm \<Longrightarrow>
   send comm (new_pkt pt ssrc seq ts m p) st = Some (None, g (plain_data (new_pkt pt ssrc seq ts m p)) st)"
  by (simp add: sink_def send_def run_hook_def new_pkt_Encode)

text \<open>Every packet of a frame is as small as its payload allows.\<close>

lemma set_frags: "x \<in> set (frags f s ps) \<Longrightarrow> \<exists>a b p. p \<in> set ps \<and> x = f a b p"
  by (induction f s ps rule: frags.induct) auto

lemma length_plain_data: "length (plain_data (new_pkt pt ssrc seq ts m p)) = 12 + length p"
  by (simp add: plain_data_def length_hdr_bytes zero_hdr_def)

lemma rtp_packets_bound:
  "list_all (\<lambda>p. length p \<le> n) ps \<Longrightarrow> list_all (\<lambda>d. length d \<le> 12 + n) (rtp_packets pt ssrc ts m seq ps)"
  by (induction ps arbitrary: seq) (simp_all add: length_plain_data)

section \<open>An unpacker fed with packets\<close>

fun unpack_all :: "(bytes \<Rightarrow> 'a \<Rightarrow> (rtp_error option \<times> 'a) option) \<Rightarrow> bytes list \<Rightarrow> 'a
    \<Rightarrow> (rtp_error option \<times> 'a) option" where
  "unpack_all f [] a = Some (None, a)"
| "unpack_all f (p # ps) a =
     (case f p a of
        Some (None, a') \<Rightarrow> unpack_all f ps a'
      | r \<Rightarrow> r)"

lemma unpack_all_append: "unpack_all f (xs @ ys) a =
   (case unpack_all f xs a of Some (None, a') \<Rightarrow> unpack_all f ys a' | r \<Rightarrow> r)"
  by (induction xs arbitrary: a) (simp_all split: option.split prod.split)

locale fu_receiver =
  fixes unpack :: "bytes \<Rightarrow> 'u \<times> 's \<Rightarrow> (rtp_error option \<times> 'u \<times> 's) option"
    and room :: nat
    and pt :: byte
    and ssrc :: u32
    and single :: "bytes \<Rightarrow> bool"
    and info :: "bytes \<Rightarrow> 'h"
    and body :: "bytes \<Rightarrow> bytes"
    and frag :: "'h \<Rightarrow> bool \<Rightarrow> bool \<Rightarrow> bytes \<Rightarrow> bytes"
    and unit_ok :: "bytes \<Rightarrow> bool"
    and at_rest :: "'u \<Rightarrow> bool"
    and holding :: "'u \<Rightarrow> bytes \<Rightarrow> u32 \<Rightarrow> u16 \<Rightarrow> bool"
    and deliver_unit :: "bytes \<Rightarrow> u32 \<Rightarrow> bool \<Rightarrow> 's \<Rightarrow> 's"
  assumes room_pos: "0 < room"
    and large: "unit_ok n \<Longrightarrow> \<not> single n \<Longrightarrow> room < length (body n)"
    and whole_unit: "at_rest u \<Longrightarrow> unit_ok n \<Longrightarrow> single n \<Longrightarrow>
      \<exists>u'. unpack (plain_data (new_pkt pt ssrc seq ts m n)) (u, st) = Some (None, u', deliver_unit n ts False st) \<and>
        at_rest u'"
    and first_fragment: "at_rest u \<Longrightarrow> unit_ok n \<Longrightarrow>
      \<exists>u' h. unpack (plain_data (new_pkt pt ssrc seq ts m (frag (info n) True False d))) (u, st) = Some (None, u', st) \<and>
        n = h @ body n \<and> holding u' (h @ d) ts seq"
    and next_fragment: "holding u b ts seq \<Longrightarrow> unit_ok n \<Longrightarrow>
      \<exists>u'. unpack (plain_data (new_pkt pt ssrc (seq + 1) ts m (frag (info n) False False d))) (u, st) = Some (None, u', st) \<and>
        holding u' (b @ d) ts (seq + 1)"
    and last_fragment: "holding u b ts seq \<Longrightarrow> unit_ok n \<Longrightarrow>
      \<exists>u'. unpack (plain_data (new_pkt pt ssrc (seq + 1) ts m (frag (info n) False True d))) (u, st) =
          Some (None, u', deliver_unit (b @ d) ts False st) \<and> at_rest u'"
begin

abbreviation payloads :: "bytes \<Rightarrow> bytes list" where
  "payloads n \<equiv> unit_payloads room single info body frag n"

lemma later_fragments:
  "holding u b ts seq \<Longrightarrow> unit_ok n \<Longrightarrow> ps \<noteq> [] \<Longrightarrow>
     \<exists>u'. unpack_all unpack (rtp_packets pt ssrc ts m (seq + 1) (frags (frag (info n)) False ps)) (u, st) =
         Some (None, u', deliver_unit (b @ concat ps) ts False st) \<and> at_rest u'"
proof (induction ps arbitrary: u b seq)
  case (Cons p ps)
  show ?case
  proof (cases "ps = []")
    case True
    then show ?thesis using last_fragment [OF Cons.prems(1,2), of "m" p st] by auto
  next
    case False
    then have fr: "frags (frag (info n)) False ps \<noteq> []" by (rule frags_nonempty)
    obtain u' where u': "unpack (plain_data (new_pkt pt ssrc (seq + 1) ts False (frag (info n) False False p))) (u, st) =
        Some (None, u', st)" "holding u' (b @ p) ts (seq + 1)"
      using next_fragment [OF Cons.prems(1,2), of False p st] by blast
    show ?thesis
      using Cons.IH [OF u'(2) Cons.prems(2) False] u'(1) fr False by (simp add: frags_Cons)
  qed
qed simp

lemma unit_delivered:
  assumes "at_rest u" and "unit_ok n"
  shows "\<exists>u'. unpack_all unpack (rtp_packets pt ssrc ts m seq (payloads n)) (u, st) =
    Some (None, u', deliver_unit n ts False st) \<and> at_rest u'"
proof (cases "single n")
  case True
  then show ?thesis using whole_unit [OF assms True, of seq ts "m" st] by (auto simp: unit_payloads_def)
next
  case False
  obtain p q ps where ps: "pieces room (body n) = p # q # ps"
    using pieces_two [OF room_pos large [OF assms(2) False]] by blast
  obtain u' h where u': "unpack (plain_data (new_pkt pt ssrc seq ts False (frag (info n) True False p))) (u, st) =
      Some (None, u', st)" "n = h @ body n" "holding u' (h @ p) ts seq"
    using first_fragment [OF assms, of seq ts False p st] by blast
  have "(h @ p) @ concat (q # ps) = n" using u'(2) concat_pieces [of room "body n"] ps by simp
  then show ?thesis
    using later_fragments [OF u'(3) assms(2), of "q # ps" m st] u'(1) False ps
    by (cases ps) (simp_all add: unit_payloads_def)
qed

text \<open>The packets of a frame deliver its units, in order and with nothing lost.\<close>

lemma frame_delivered:
  "at_rest u \<Longrightarrow> list_all unit_ok ns \<Longrightarrow>
     \<exists>u'. unpack_all unpack (rtp_packets pt ssrc ts m seq (concat (map payloads ns))) (u, st) =
         Some (None, u', fold (\<lambda>n. deliver_unit n ts False) ns st) \<and> at_rest u'"
proof (induction ns arbitrary: u st seq)
  case (Cons n ns)
  show ?case
  proof (cases "ns = []")
    case True
    then show ?thesis using unit_delivered [of u n ts m seq st] Cons.prems by simp
  next
    case False
    then have ne: "concat (map payloads ns) \<noteq> []" by (cases ns) (simp_all add: unit_payloads_nonempty)
    obtain u' where u': "unpack_all unpack (rtp_packets pt ssrc ts False seq (payloads n)) (u, st) =
        Some (None, u', deliver_unit n ts False st)" "at_rest u'"
      using unit_delivered [of u n ts False seq st] Cons.prems by auto
    then show ?thesis
      using Cons.IH [OF u'(2), of "seq + word_of_nat (length (payloads n))" "deliver_unit n ts False st"] Cons.prems
      by (simp add: rtp_packets_append [OF ne] unpack_all_append)
  qed
qed simp

end

end
