(* ===== verification/RtpH264.thy ===== *)
theory RtpH264
  imports RtpFu AnnexB
begin

text \<open>
  The H.264 payload format, \<open>go-rtsp/rtp/rtp-h264.go\<close>: the packer (single units, STAP-A for
  parameter sets, FU-A for units larger than the MTU) and the unpacker.

  A packer returns its error (its own on the left, that of the packet callback on the right),
  itself and the callback's state.  The frame buffer of the unpacker starts with a start code
  that is never removed.

  The lemmas: the packets of a frame are those of its units in order, the unpacker is an
  \<open>fu_receiver\<close>, and so a frame that is packed and unpacked comes back unit by unit.
\<close>

unbundle bit_operations_syntax

definition H264_NAL_SPS :: NAL_TYPE where "H264_NAL_SPS = 7"
definition H264_NAL_PPS :: NAL_TYPE where "H264_NAL_PPS = 8"

record ('e, 's) H264Packer =
  h264_comm :: "('e, 's) CommPacker"
  h264_ssrc :: u32
  h264_pt :: byte
  h264_sequence :: u16
  h264_stap_a :: bool
  h264_sps :: bytes
  h264_pps :: bytes

definition NewH264Packer :: "byte \<Rightarrow> u32 \<Rightarrow> u16 \<Rightarrow> int \<Rightarrow> ('e, 's) H264Packer" where
  "NewH264Packer pt ssrc sequence m = \<lparr>h264_comm = \<lparr>onPacket = None, onRtp = None, mtu = m\<rparr>,
     h264_ssrc = ssrc, h264_pt = pt, h264_sequence = sequence, h264_stap_a = False, h264_sps = [],
     h264_pps = []\<rparr>"

definition EnableStapA :: "('e, 's) H264Packer \<Rightarrow> ('e, 's) H264Packer" where
  "EnableStapA pack = pack\<lparr>h264_stap_a := True\<rparr>"

type_synonym ('e, 's, 'p) packed = "((rtp_error + 'e) option \<times> 'p \<times> 's) option"

section \<open>The packer\<close>

definition h264_pkt :: "('e, 's) H264Packer \<Rightarrow> u32 \<Rightarrow> bool \<Rightarrow> bytes \<Rightarrow> RtpPacket" where
  "h264_pkt pack timestamp mark payload =
     new_pkt (h264_pt pack) (h264_ssrc pack) (h264_sequence pack) timestamp mark payload"

definition h264_send :: "u32 \<Rightarrow> bool \<Rightarrow> bytes \<Rightarrow> ('e, 's) H264Packer \<Rightarrow> 's
    \<Rightarrow> ('e, 's, ('e, 's) H264Packer) packed" where
  "h264_send timestamp mark payload pack st = do {
     (e, st) \<leftarrow> send (h264_comm pack) (h264_pkt pack timestamp mark payload) st;
     Some (map_option Inr e, pack\<lparr>h264_sequence := h264_sequence pack + 1\<rparr>, st)
   }"

definition h264_packSingleNalu :: "bytes \<Rightarrow> u32 \<Rightarrow> bool \<Rightarrow> ('e, 's) H264Packer \<Rightarrow> 's
    \<Rightarrow> ('e, 's, ('e, 's) H264Packer) packed" where
  "h264_packSingleNalu nalu timestamp lst pack st = h264_send timestamp lst nalu pack st"

text \<open>The loop of \<open>packFuA\<close>; the MTU was tested before it.\<close>

function h264_fu_loop :: "byte \<Rightarrow> byte \<Rightarrow> bytes \<Rightarrow> u32 \<Rightarrow> bool \<Rightarrow> ('e, 's) H264Packer \<Rightarrow> 's
    \<Rightarrow> ('e, 's, ('e, 's) H264Packer) packed" where
  "h264_fu_loop fuIndicator fuHeader nalu timestamp lst pack st =
     (let m = mtu (h264_comm pack) in
      if glen nalu + RTP_FIX_HEAD_LEN + 2 \<le> m then
        h264_send timestamp lst ([fuIndicator, fuHeader OR 0x40] @ nalu) pack st
      else if m \<le> RTP_FIX_HEAD_LEN + 2 then None
      else do {
        part \<leftarrow> slice_to nalu (m - 2 - RTP_FIX_HEAD_LEN);
        rest \<leftarrow> slice_from nalu (m - 2 - RTP_FIX_HEAD_LEN);
        (e, st) \<leftarrow> send (h264_comm pack) (h264_pkt pack timestamp False ([fuIndicator, fuHeader] @ part)) st;
        let pack = pack\<lparr>h264_sequence := h264_sequence pack + 1\<rparr>;
        (case e of
           Some x \<Rightarrow> Some (Some (Inr x), pack, st)
         | None \<Rightarrow> h264_fu_loop fuIndicator (if fuHeader AND 0x80 > 0 then fuHeader AND 0x7F else fuHeader)
             rest timestamp lst pack st)
      })"
  by pat_completeness auto
termination
  by (relation "measure (\<lambda>(i, h, nalu, ts, l, pack, st). length nalu)") (auto simp: slice_from_def split: if_splits)

declare h264_fu_loop.simps [simp del]

definition h264_packFuA :: "bytes \<Rightarrow> u32 \<Rightarrow> bool \<Rightarrow> ('e, 's) H264Packer \<Rightarrow> 's
    \<Rightarrow> ('e, 's, ('e, 's) H264Packer) packed" where
  "h264_packFuA nalu timestamp lst pack st =
     (if glen nalu < 2 then Some (Some (Inl ErrTooShort), pack, st)
      else if mtu (h264_comm pack) \<le> RTP_FIX_HEAD_LEN + 2 then Some (Some (Inl ErrMtuTooSmall), pack, st)
      else do {
        n0 \<leftarrow> idx nalu 0;
        rest \<leftarrow> slice_from nalu 1;
        h264_fu_loop (n0 AND 0xE0 OR 0x1C) (n0 AND 0x1F OR 0x80) rest timestamp lst pack st
      })"

fun stap_nri :: "bytes list \<Rightarrow> byte \<Rightarrow> byte" where
  "stap_nri [] nri = nri"
| "stap_nri (nalu # nalus) nri =
     stap_nri nalus (case nalu of b # _ \<Rightarrow> if b AND 0x60 > nri then b AND 0x60 else nri | [] \<Rightarrow> nri)"

definition stap_payload :: "bytes list \<Rightarrow> bytes" where
  "stap_payload nalus = (stap_nri nalus 0 OR 24) #
     concat (map (\<lambda>nalu. be16 (word_of_nat (length nalu)) @ nalu) nalus)"

definition h264_packStapA :: "bytes list \<Rightarrow> u32 \<Rightarrow> bool \<Rightarrow> ('e, 's) H264Packer \<Rightarrow> 's
    \<Rightarrow> ('e, 's, ('e, 's) H264Packer) packed" where
  "h264_packStapA nalus timestamp lst pack st = h264_send timestamp lst (stap_payload nalus) pack st"

definition flushParamSets :: "('e, 's) H264Packer \<Rightarrow> bytes list list \<Rightarrow> ('e, 's) H264Packer \<times> bytes list list" where
  "flushParamSets pack payloads =
     (if h264_sps pack = [] \<or> h264_pps pack = [] then (pack, payloads)
      else
        (pack\<lparr>h264_sps := [], h264_pps := []\<rparr>,
         if glen (h264_sps pack) + glen (h264_pps pack) + 5 + RTP_FIX_HEAD_LEN \<le> mtu (h264_comm pack)
         then payloads @ [[h264_sps pack, h264_pps pack]]
         else payloads @ [[h264_sps pack], [h264_pps pack]]))"

text \<open>The units of the frame become the payloads; parameter sets wait for each other.\<close>

fun h264_collect :: "bytes list \<Rightarrow> ('e, 's) H264Packer \<Rightarrow> bytes list list
    \<Rightarrow> (('e, 's) H264Packer \<times> bytes list list) option" where
  "h264_collect [] pack payloads = Some (pack, payloads)"
| "h264_collect (nalu # nalus) pack payloads =
     (if h264_stap_a pack then do {
        t \<leftarrow> H264NaluType nalu;
        if t = H264_NAL_SPS then h264_collect nalus (pack\<lparr>h264_sps := nalu\<rparr>) payloads
        else if t = H264_NAL_PPS then h264_collect nalus (pack\<lparr>h264_pps := nalu\<rparr>) payloads
        else (let (pack, payloads) = flushParamSets pack payloads
              in h264_collect nalus pack (payloads @ [[nalu]]))
      }
      else h264_collect nalus pack (payloads @ [[nalu]]))"

fun h264_emit :: "bytes list list \<Rightarrow> u32 \<Rightarrow> ('e, 's) H264Packer \<Rightarrow> 's
    \<Rightarrow> ('e, 's, ('e, 's) H264Packer) packed" where
  "h264_emit [] timestamp pack st = Some (None, pack, st)"
| "h264_emit (p # ps) timestamp pack st = do {
     let lst = (ps = []);
     p0 \<leftarrow> idx p 0;
     (e, pack, st) \<leftarrow>
       (if length p > 1 then h264_packStapA p timestamp lst pack st
        else if glen p0 + RTP_FIX_HEAD_LEN \<le> mtu (h264_comm pack) then h264_packSingleNalu p0 timestamp lst pack st
        else h264_packFuA p0 timestamp lst pack st);
     (case e of
        Some x \<Rightarrow> Some (Some x, pack, st)
      | None \<Rightarrow> h264_emit ps timestamp pack st)
   }"

definition keep_units :: "bytes list frame_callback" where
  "keep_units nalu nalus = (True, if nalu \<noteq> [] then nalus @ [nalu] else nalus)"

definition h264_Pack :: "bytes \<Rightarrow> u32 \<Rightarrow> ('e, 's) H264Packer \<Rightarrow> 's
    \<Rightarrow> ('e, 's, ('e, 's) H264Packer) packed" where
  "h264_Pack frame timestamp pack st = do {
     nalus \<leftarrow> SplitFrame frame (Some keep_units) [];
     (pack, payloads) \<leftarrow> h264_collect nalus pack [];
     let (pack, payloads) = (if h264_stap_a pack then flushParamSets pack payloads else (pack, payloads));
     h264_emit payloads timestamp pack st
   }"

section \<open>The unpacker\<close>

record 's H264UnPacker =
  u264_comm :: "'s CommUnPacker"
  u264_timestamp :: u32
  u264_lastSequence :: u16
  u264_lost :: bool
  u264_frameBuffer :: bytes

definition NewH264UnPacker :: "'s H264UnPacker" where
  "NewH264UnPacker = \<lparr>u264_comm = \<lparr>onFrame = None, un_onRtp = None\<rparr>, u264_timestamp = 0,
     u264_lastSequence = 0, u264_lost = False, u264_frameBuffer = [0x00, 0x00, 0x00, 0x01]\<rparr>"

text \<open>A frame is delivered and the buffer cut back to the start code.\<close>

definition u264_deliver :: "u32 \<Rightarrow> bool \<Rightarrow> 's H264UnPacker \<times> 's \<Rightarrow> ('s H264UnPacker \<times> 's) option" where
  "u264_deliver ts lost = (\<lambda>(u, st). do {
     let st = give_frame (u264_comm u) (u264_frameBuffer u) ts lost st;
     buf \<leftarrow> slice_to (u264_frameBuffer u) 4;
     Some (u\<lparr>u264_frameBuffer := buf\<rparr>, st)
   })"

definition h264_unpackFuA :: "RtpPacket \<Rightarrow> 's H264UnPacker \<times> 's
    \<Rightarrow> (rtp_error option \<times> 's H264UnPacker \<times> 's) option" where
  "h264_unpackFuA pkt = (\<lambda>(u, st).
     if glen (Payload pkt) < 2 then Some (Some ErrFragmentShort, u, st)
     else do {
       p0 \<leftarrow> idx (Payload pkt) 0;
       p1 \<leftarrow> idx (Payload pkt) 1;
       let s = p1 AND 0x80;
       let e = p1 AND 0x40;
       (u, st) \<leftarrow>
         (if s > 0 then do {
            (u, st) \<leftarrow> (if length (u264_frameBuffer u) > 4 then u264_deliver (u264_timestamp u) True (u, st)
              else Some (u, st));
            Some (u\<lparr>u264_timestamp := Timestamp (Header pkt),
              u264_frameBuffer := u264_frameBuffer u @ [(p0 AND 0xE0) OR (p1 AND 0x1F)], u264_lost := False\<rparr>, st)
          }
          else Some (if u264_lastSequence u + 1 \<noteq> SequenceNumber (Header pkt) then u\<lparr>u264_lost := True\<rparr> else u, st));
       data \<leftarrow> slice_from (Payload pkt) 2;
       let u = u\<lparr>u264_lastSequence := SequenceNumber (Header pkt), u264_frameBuffer := u264_frameBuffer u @ data\<rparr>;
       (u, st) \<leftarrow> (if e > 0 then u264_deliver (u264_timestamp u) (u264_lost u) (u, st) else Some (u, st));
       Some (None, u, st)
     })"

lemma unat_pos_of_uint: "2 \<le> uint x \<Longrightarrow> 0 < unat x" for x :: "'a::len word"
  by (cases "x = 0") (simp_all add: unat_gt_0)

function h264_stap_loop :: "bytes \<Rightarrow> u32 \<Rightarrow> 's H264UnPacker \<Rightarrow> 's
    \<Rightarrow> (rtp_error option \<times> 's H264UnPacker \<times> 's) option" where
  "h264_stap_loop nalus ts u st =
     (if nalus = [] then Some (None, u, st)
      else if glen nalus < 2 then Some (Some ErrStapSize, u, st)
      else do {
        naluLength \<leftarrow> get_be16 nalus;
        if naluLength = 0 \<or> glen nalus - 2 < uint naluLength then Some (Some ErrStapSize, u, st)
        else do {
          nalu \<leftarrow> slice_of nalus 2 (uint (2 + naluLength));
          (u, st) \<leftarrow> u264_deliver ts False (u\<lparr>u264_frameBuffer := u264_frameBuffer u @ nalu\<rparr>, st);
          rest \<leftarrow> slice_from nalus (uint (2 + naluLength));
          h264_stap_loop rest ts u st
        }
      })"
  by pat_completeness auto
termination
  by (relation "measure (\<lambda>(nalus, ts, u, st). length nalus)")
    (auto simp: slice_from_def slice_of_def unat_pos_of_uint intro!: diff_less split: if_splits)

declare h264_stap_loop.simps [simp del]

definition h264_unpackStapa :: "RtpPacket \<Rightarrow> 's H264UnPacker \<times> 's
    \<Rightarrow> (rtp_error option \<times> 's H264UnPacker \<times> 's) option" where
  "h264_unpackStapa pkt = (\<lambda>(u, st). do {
     nalus \<leftarrow> slice_from (Payload pkt) 1;
     h264_stap_loop nalus (Timestamp (Header pkt)) u st
   })"

definition h264_UnPack :: "bytes \<Rightarrow> 's H264UnPacker \<times> 's
    \<Rightarrow> (rtp_error option \<times> 's H264UnPacker \<times> 's) option" where
  "h264_UnPack data = (\<lambda>(u, st). do {
     r \<leftarrow> pkt_Decode data zero_pkt;
     (case r of
        Inl e \<Rightarrow> Some (Some e, u, st)
      | Inr pkg \<Rightarrow>
          if Payload pkg = [] then Some (None, u, st)
          else do {
            let (pkg, st) = run_hook (un_onRtp (u264_comm u)) pkg st;
            p0 \<leftarrow> idx (Payload pkg) 0;
            let packType = p0 AND 0x1F;
            if 0 < packType \<and> packType < 24 then do {
              (u, st) \<leftarrow> (let u = u\<lparr>u264_frameBuffer := u264_frameBuffer u @ Payload pkg\<rparr> in
                 u264_deliver (Timestamp (Header pkg)) False (u, st));
              Some (None, u, st)
            }
            else if packType = 24 then h264_unpackStapa pkg (u, st)
            else if packType = 28 then h264_unpackFuA pkg (u, st)
            else Some (Some ErrUnsupported, u, st)
          })
   })"

section \<open>The packets of a frame\<close>

definition h264_single :: "int \<Rightarrow> bytes \<Rightarrow> bool" where
  "h264_single m n \<longleftrightarrow> glen n + RTP_FIX_HEAD_LEN \<le> m"

definition h264_frag :: "byte \<Rightarrow> bool \<Rightarrow> bool \<Rightarrow> bytes \<Rightarrow> bytes" where
  "h264_frag n0 s e d = [n0 AND 0xE0 OR 0x1C,
     (n0 AND 0x1F) OR (if s then 0x80 else 0) OR (if e then 0x40 else 0)] @ d"

abbreviation h264_payloads :: "int \<Rightarrow> bytes \<Rightarrow> bytes list" where
  "h264_payloads m \<equiv> unit_payloads (nat (m - 14)) (h264_single m) hd tl h264_frag"

text \<open>The state after \<open>k\<close> packets, and the result of a call that sends \<open>ps\<close>.\<close>

definition h264_after :: "nat \<Rightarrow> ('e, 's) H264Packer \<Rightarrow> ('e, 's) H264Packer" where
  "h264_after k pack = pack\<lparr>h264_sequence := h264_sequence pack + word_of_nat k\<rparr>"

lemma h264_after_sel [simp]:
  "h264_comm (h264_after k pack) = h264_comm pack" "h264_pt (h264_after k pack) = h264_pt pack"
  "h264_ssrc (h264_after k pack) = h264_ssrc pack" "h264_stap_a (h264_after k pack) = h264_stap_a pack"
  "h264_sequence (h264_after k pack) = h264_sequence pack + word_of_nat k"
  "h264_after a (h264_after b pack) = h264_after (b + a) pack" "h264_after 0 pack = pack"
  by (simp_all add: h264_after_def add.assoc)

definition h264_sends :: "(bytes \<Rightarrow> 's \<Rightarrow> 's) \<Rightarrow> u32 \<Rightarrow> bool \<Rightarrow> bytes list \<Rightarrow> ('e, 's) H264Packer \<Rightarrow> 's
    \<Rightarrow> ('e, 's, ('e, 's) H264Packer) packed" where
  "h264_sends g ts m ps pack st = Some (None, h264_after (length ps) pack,
     fold g (rtp_packets (h264_pt pack) (h264_ssrc pack) ts m (h264_sequence pack) ps) st)"

lemma h264_send_sink:
  "sink g (h264_comm pack) \<Longrightarrow> h264_send ts m p pack st = h264_sends g ts m [p] pack st"
  by (simp add: h264_send_def h264_pkt_def send_sink h264_sends_def h264_after_def)

lemma fu_flags:
  "((n0 AND 0x1F) OR 0x80) AND 0x80 = (0x80 :: byte)" "((n0 AND 0x1F) OR 0x80) AND 0x7F = (n0 AND 0x1F :: byte)"
  "(n0 AND 0x1F) AND 0x80 = (0 :: byte)" for n0 :: byte
  by (rule byte_eqI; simp add: bit_or_iff bit_and_iff)+

lemma h264_fu_loop_sends:
  "sink g (h264_comm pack) \<Longrightarrow> mtu (h264_comm pack) = int k + 14 \<Longrightarrow> 0 < k \<Longrightarrow>
     h264_fu_loop (n0 AND 0xE0 OR 0x1C) ((n0 AND 0x1F) OR (if s then 0x80 else 0)) nalu ts lst pack st =
       h264_sends g ts lst (frags (h264_frag n0) s (pieces k nalu)) pack st"
proof (induction k nalu arbitrary: s pack st rule: pieces.induct)
  case (1 k nalu)
  let ?ind = "n0 AND 0xE0 OR 0x1C" and ?hdr = "(n0 AND 0x1F) OR (if s then 0x80 else 0)"
  note sk = "1.prems"(1) and m = "1.prems"(2) and k = "1.prems"(3)
  show ?case
  proof (cases "length nalu \<le> k")
    case True
    then have "glen nalu + 12 + 2 \<le> mtu (h264_comm pack)" using m by simp
    then show ?thesis
      using True sk
      by (subst h264_fu_loop.simps) (simp add: Let_def pieces.simps [of k nalu] h264_send_sink h264_frag_def or.assoc)
  next
    case False
    then have big: "\<not> glen nalu + 12 + 2 \<le> mtu (h264_comm pack)" "\<not> mtu (h264_comm pack) \<le> 12 + 2"
      and room: "mtu (h264_comm pack) - 2 - 12 = int k"
      using m k by simp_all
    have sl: "slice_to nalu (int k) = Some (take k nalu)" "slice_from nalu (int k) = Some (drop k nalu)"
      by (rule slice_to_int slice_from_int, use False in simp)+
    let ?pkt = "h264_pkt pack ts False ([?ind, ?hdr] @ take k nalu)"
    have snd: "send (h264_comm pack) ?pkt st = Some (None, g (plain_data ?pkt) st)"
      unfolding h264_pkt_def by (rule send_sink [OF sk])
    have nx: "(if ?hdr AND 0x80 > 0 then ?hdr AND 0x7F else ?hdr) = (n0 AND 0x1F) OR (if False then 0x80 else 0)"
      by (cases s) (simp_all add: fu_flags)
    have ps: "pieces k nalu = take k nalu # pieces k (drop k nalu)"
      using False k by (simp add: pieces.simps [of k nalu])
    let ?pack = "pack\<lparr>h264_sequence := h264_sequence pack + 1\<rparr>"
    have "h264_fu_loop ?ind ?hdr nalu ts lst pack st = h264_fu_loop ?ind
        ((n0 AND 0x1F) OR (if False then 0x80 else 0)) (drop k nalu) ts lst ?pack (g (plain_data ?pkt) st)"
      by (subst h264_fu_loop.simps)
        (simp only: Let_def big room sl snd nx if_False Option.bind.simps prod.case option.case)
    also have "\<dots> = h264_sends g ts lst (frags (h264_frag n0) False (pieces k (drop k nalu))) ?pack (g (plain_data ?pkt) st)"
      by (rule "1.IH") (use False k sk m in simp_all)
    also have "\<dots> = h264_sends g ts lst (frags (h264_frag n0) s (pieces k nalu)) pack st"
    proof -
      let ?fs = "frags (h264_frag n0) False (pieces k (drop k nalu))"
      have "frags (h264_frag n0) s (pieces k nalu) = ([?ind, ?hdr] @ take k nalu) # ?fs"
        unfolding ps frags_Cons [OF pieces_nonempty] by (simp add: h264_frag_def)
      moreover have "?fs \<noteq> []" by (simp add: frags_nonempty)
      ultimately show ?thesis by (simp add: h264_sends_def h264_pkt_def h264_after_def add.assoc)
    qed
    finally show ?thesis .
  qed
qed

lemma h264_unit_sends:
  assumes "sink g (h264_comm pack)" and "14 < mtu (h264_comm pack)" and "n \<noteq> []"
  shows "(if glen n + 12 \<le> mtu (h264_comm pack) then h264_packSingleNalu n ts lst pack st
      else h264_packFuA n ts lst pack st) = h264_sends g ts lst (h264_payloads (mtu (h264_comm pack)) n) pack st"
proof (cases "glen n + 12 \<le> mtu (h264_comm pack)")
  case True
  then show ?thesis
    using assms by (simp add: h264_packSingleNalu_def h264_send_sink unit_payloads_def h264_single_def)
next
  case False
  then obtain b r where n: "n = b # r" "r \<noteq> []" using assms by (cases n; cases "tl n") auto
  have "\<not> glen n < 2" using n by (cases r) auto
  moreover have "idx n 0 = Some b" "slice_from n 1 = Some r" using n by (simp_all add: idx_def slice_from_def)
  ultimately have "h264_packFuA n ts lst pack st =
      h264_fu_loop (b AND 0xE0 OR 0x1C) ((b AND 0x1F) OR (if True then 0x80 else 0)) r ts lst pack st"
    using assms(2) by (simp add: h264_packFuA_def)
  also have "\<dots> = h264_sends g ts lst (frags (h264_frag b) True (pieces (nat (mtu (h264_comm pack) - 14)) r)) pack st"
    by (rule h264_fu_loop_sends [OF assms(1)]) (use assms(2) in simp_all)
  finally show ?thesis using False by (simp add: unit_payloads_def h264_single_def n)
qed

lemma h264_sends_append:
  "ys \<noteq> [] \<Longrightarrow> (case h264_sends g ts False xs pack st of
      Some (None, pack', st') \<Rightarrow> h264_sends g ts m ys pack' st' | r \<Rightarrow> r) = h264_sends g ts m (xs @ ys) pack st"
  by (simp add: h264_sends_def rtp_packets_append add.commute)

lemma deliver_keep_units: "list_all (\<lambda>n. n \<noteq> []) ns \<Longrightarrow> deliver keep_units ns acc = acc @ ns"
  by (induction ns arbitrary: acc) (simp_all add: keep_units_def)

lemma h264_collect_plain: "\<not> h264_stap_a pack \<Longrightarrow>
    h264_collect ns pack ps = Some (pack, ps @ map (\<lambda>n. [n]) ns)"
  by (induction ns arbitrary: ps) simp_all

lemma clean_nonempty: "list_all (\<lambda>u. nal_clean (snd u)) us \<Longrightarrow> list_all (\<lambda>n. n \<noteq> []) (map snd us)"
  by (induction us) (simp_all add: nal_clean_def)

definition h264_unit_ok :: "bytes \<Rightarrow> bool" where
  "h264_unit_ok n \<longleftrightarrow> n \<noteq> [] \<and> 0 < hd n AND 0x1F \<and> hd n AND 0x1F < 24"

section \<open>Parameter sets held back and aggregated\<close>

text \<open>
  What a frame delivers when STAP-A is on, said on units alone: a parameter set replaces the one
  held of its kind; when both are held they go out, SPS first, in front of the next other unit or
  at the end of the frame; a lone one waits for a later frame.  Neither the sizes nor the MTU
  play a part.
\<close>

fun with_sets :: "bytes \<times> bytes \<Rightarrow> bytes list \<Rightarrow> bytes list \<times> bytes \<times> bytes" where
  "with_sets (s, p) [] = (if s = [] \<or> p = [] then ([], s, p) else ([s, p], [], []))"
| "with_sets (s, p) (n # ns) =
     (if hd n AND 0x1F = 7 then with_sets (n, p) ns
      else if hd n AND 0x1F = 8 then with_sets (s, n) ns
      else if s = [] \<or> p = [] then map_prod ((#) n) id (with_sets (s, p) ns)
      else map_prod (\<lambda>out. s # p # n # out) id (with_sets ([], []) ns))"

definition sets_ok :: "('e, 's) H264Packer \<Rightarrow> bool" where
  "sets_ok pack \<longleftrightarrow> (h264_sps pack = [] \<or> h264_unit_ok (h264_sps pack)) \<and>
     (h264_pps pack = [] \<or> h264_unit_ok (h264_pps pack))"

text \<open>A frame that carries each set once, the SPS first, is delivered as it is.\<close>

lemma with_sets_others: "list_all (\<lambda>n. hd n AND 0x1F \<noteq> 7 \<and> hd n AND 0x1F \<noteq> 8) ns \<Longrightarrow>
    with_sets ([], []) ns = (ns, [], [])"
  by (induction ns) simp_all

lemma with_sets_in_order:
  assumes "s \<noteq> []" and "p \<noteq> []" and "hd s AND 0x1F = 7" and "hd p AND 0x1F = 8"
    and "list_all (\<lambda>n. hd n AND 0x1F \<noteq> 7 \<and> hd n AND 0x1F \<noteq> 8) ns"
  shows "with_sets ([], []) (s # p # ns) = (s # p # ns, [], [])"
  using assms by (cases ns) (simp_all add: with_sets_others)

lemma H264NaluType_clean: "nal_clean n \<Longrightarrow> H264NaluType n = Some (uint (hd n AND 0x1F))"
  using FindStartCode_last [of n "[]"] by (cases n) (auto simp: H264NaluType_def naluOffset_def idx_def nal_clean_def)

text \<open>The entries of \<open>payloads\<close>: one unit, or the units of one aggregation packet.\<close>

definition entry_ok :: "int \<Rightarrow> bytes list \<Rightarrow> bool" where
  "entry_ok m p \<longleftrightarrow> p \<noteq> [] \<and> list_all h264_unit_ok p \<and> (1 < length p \<longrightarrow> glen (stap_payload p) + 12 \<le> m)"

definition entry_payloads :: "int \<Rightarrow> bytes list \<Rightarrow> bytes list" where
  "entry_payloads m p = (if 1 < length p then [stap_payload p] else h264_payloads m (hd p))"

lemma entry_payloads_nonempty: "entry_payloads m p \<noteq> []"
  by (simp add: entry_payloads_def unit_payloads_nonempty)

lemma stap_payload_pair: "glen (stap_payload [s, p]) = glen s + glen p + 5"
  by (simp add: stap_payload_def be16_def)

lemma flush_entries:
  assumes "sets_ok pack" and "h264_sps pack \<noteq> []" and "h264_pps pack \<noteq> []"
  shows "\<exists>es. flushParamSets pack ps = (pack\<lparr>h264_sps := [], h264_pps := []\<rparr>, ps @ es) \<and>
    concat es = [h264_sps pack, h264_pps pack] \<and> list_all (entry_ok (mtu (h264_comm pack))) es"
proof (cases "glen (h264_sps pack) + glen (h264_pps pack) + 5 + 12 \<le> mtu (h264_comm pack)")
  case True
  then show ?thesis
    using assms stap_payload_pair [of "h264_sps pack" "h264_pps pack"]
    by (intro exI [of _ "[[h264_sps pack, h264_pps pack]]"]) (simp add: flushParamSets_def entry_ok_def sets_ok_def)
next
  case False
  then show ?thesis
    using assms
    by (intro exI [of _ "[[h264_sps pack], [h264_pps pack]]"]) (simp add: flushParamSets_def entry_ok_def sets_ok_def)
qed

lemma flush_none: "h264_sps pack = [] \<or> h264_pps pack = [] \<Longrightarrow> flushParamSets pack ps = (pack, ps)"
  by (auto simp: flushParamSets_def)

lemma h264_collect_sets:
  assumes "h264_stap_a pack" and "list_all (\<lambda>n. nal_clean n \<and> h264_unit_ok n) ns" and "sets_ok pack"
  shows "\<exists>pack1 ps1 es s p. h264_collect ns pack ps = Some (pack1, ps1) \<and> h264_stap_a pack1 \<and>
    flushParamSets pack1 ps1 = (pack\<lparr>h264_sps := s, h264_pps := p\<rparr>, ps @ es) \<and>
    with_sets (h264_sps pack, h264_pps pack) ns = (concat es, s, p) \<and>
    list_all (entry_ok (mtu (h264_comm pack))) es"
  using assms
proof (induction ns arbitrary: pack ps)
  case Nil
  show ?case
  proof (cases "h264_sps pack = [] \<or> h264_pps pack = []")
    case True
    then show ?thesis
      using Nil.prems flush_none [OF True, of ps]
      by (intro exI [of _ pack] exI [of _ ps] exI [of _ "[]"] exI [of _ "h264_sps pack"] exI [of _ "h264_pps pack"]) simp
  next
    case False
    then show ?thesis using Nil.prems flush_entries [OF Nil.prems(3), of ps] by auto
  qed
next
  case (Cons n ns)
  have n: "nal_clean n" "h264_unit_ok n" and ns: "list_all (\<lambda>n. nal_clean n \<and> h264_unit_ok n) ns"
    using Cons.prems(2) by simp_all
  have t: "H264NaluType n = Some (uint (hd n AND 0x1F))" by (rule H264NaluType_clean [OF n(1)])
  have u: "uint (hd n AND 0x1F) = 7 \<longleftrightarrow> hd n AND 0x1F = 7" "uint (hd n AND 0x1F) = 8 \<longleftrightarrow> hd n AND 0x1F = 8"
    using word_uint_eq_iff [of "hd n AND 0x1F" 7] word_uint_eq_iff [of "hd n AND 0x1F" 8] by simp_all
  note defs = H264_NAL_SPS_def H264_NAL_PPS_def
  consider "hd n AND 0x1F = 7" | "hd n AND 0x1F = 8" | "hd n AND 0x1F \<noteq> 7" "hd n AND 0x1F \<noteq> 8" by blast
  then show ?case
  proof cases
    case 1
    have "sets_ok (pack\<lparr>h264_sps := n\<rparr>)" using Cons.prems(3) n by (simp add: sets_ok_def)
    then show ?thesis using Cons.IH [of "pack\<lparr>h264_sps := n\<rparr>" ps] Cons.prems(1) ns 1 t u by (simp add: defs)
  next
    case 2
    have "sets_ok (pack\<lparr>h264_pps := n\<rparr>)" using Cons.prems(3) n by (simp add: sets_ok_def)
    then show ?thesis using Cons.IH [of "pack\<lparr>h264_pps := n\<rparr>" ps] Cons.prems(1) ns 2 t u by (simp add: defs)
  next
    case 3
    have e: "entry_ok (mtu (h264_comm pack)) [n]" using n by (simp add: entry_ok_def)
    show ?thesis
    proof (cases "h264_sps pack = [] \<or> h264_pps pack = []")
      case True
      obtain pack1 ps1 es s p where r: "h264_collect ns pack (ps @ [[n]]) = Some (pack1, ps1)" "h264_stap_a pack1"
        "flushParamSets pack1 ps1 = (pack\<lparr>h264_sps := s, h264_pps := p\<rparr>, (ps @ [[n]]) @ es)"
        "with_sets (h264_sps pack, h264_pps pack) ns = (concat es, s, p)" "list_all (entry_ok (mtu (h264_comm pack))) es"
        using Cons.IH [OF Cons.prems(1) ns Cons.prems(3), of "ps @ [[n]]"] by blast
      show ?thesis
        using r Cons.prems(1) t u 3 True e flush_none [OF True, of ps]
        by (intro exI [of _ pack1] exI [of _ ps1] exI [of _ "[n] # es"] exI [of _ s] exI [of _ p]) (simp add: defs)
    next
      case False
      obtain fs where fs: "flushParamSets pack ps = (pack\<lparr>h264_sps := [], h264_pps := []\<rparr>, ps @ fs)"
        "concat fs = [h264_sps pack, h264_pps pack]" "list_all (entry_ok (mtu (h264_comm pack))) fs"
        using flush_entries [OF Cons.prems(3), of ps] False by blast
      let ?pack = "pack\<lparr>h264_sps := [], h264_pps := []\<rparr>"
      have "sets_ok ?pack" "h264_stap_a ?pack" using Cons.prems(1) by (simp_all add: sets_ok_def)
      from Cons.IH [OF this(2) ns this(1), of "ps @ fs @ [[n]]"]
      obtain pack1 ps1 es s p where r: "h264_collect ns ?pack (ps @ fs @ [[n]]) = Some (pack1, ps1)" "h264_stap_a pack1"
        "flushParamSets pack1 ps1 = (?pack\<lparr>h264_sps := s, h264_pps := p\<rparr>, (ps @ fs @ [[n]]) @ es)"
        "with_sets (h264_sps ?pack, h264_pps ?pack) ns = (concat es, s, p)" "list_all (entry_ok (mtu (h264_comm ?pack))) es"
        by blast
      show ?thesis
        using r Cons.prems(1) t u 3 False e fs
        by (intro exI [of _ pack1] exI [of _ ps1] exI [of _ "fs @ [n] # es"] exI [of _ s] exI [of _ p]) (simp add: defs)
    qed
  qed
qed


lemma h264_entry_sends:
  assumes "sink g (h264_comm pack)" and "14 < mtu (h264_comm pack)" and "entry_ok (mtu (h264_comm pack)) p"
  shows "\<exists>n. idx p 0 = Some n \<and>
    (if length p > 1 then h264_packStapA p ts lst pack st
     else if glen n + 12 \<le> mtu (h264_comm pack) then h264_packSingleNalu n ts lst pack st
     else h264_packFuA n ts lst pack st) = h264_sends g ts lst (entry_payloads (mtu (h264_comm pack)) p) pack st"
proof -
  obtain n r where p: "p = n # r" "n \<noteq> []" using assms(3) by (cases p) (auto simp: entry_ok_def h264_unit_ok_def)
  then show ?thesis
    using h264_unit_sends [OF assms(1,2) p(2), of ts lst st]
    by (cases r) (simp_all add: idx_def entry_payloads_def h264_packStapA_def h264_send_sink [OF assms(1)])
qed

lemma h264_emit_entries:
  "sink g (h264_comm pack) \<Longrightarrow> 14 < mtu (h264_comm pack) \<Longrightarrow> list_all (entry_ok (mtu (h264_comm pack))) es \<Longrightarrow>
     h264_emit es ts pack st =
       h264_sends g ts True (concat (map (entry_payloads (mtu (h264_comm pack))) es)) pack st"
proof (induction es arbitrary: pack st)
  case Nil
  then show ?case by (simp add: h264_sends_def)
next
  case (Cons e es)
  let ?m = "mtu (h264_comm pack)"
  obtain n where n: "idx e 0 = Some n"
    "(if length e > 1 then h264_packStapA e ts (es = []) pack st
     else if glen n + 12 \<le> mtu (h264_comm pack) then h264_packSingleNalu n ts (es = []) pack st
     else h264_packFuA n ts (es = []) pack st) = h264_sends g ts (es = []) (entry_payloads ?m e) pack st"
    using h264_entry_sends [OF Cons.prems(1,2), of e ts "es = []" st] Cons.prems(3) by auto
  have "h264_emit (e # es) ts pack st =
      (case h264_sends g ts (es = []) (entry_payloads ?m e) pack st of
         Some (None, pack', st') \<Rightarrow> h264_emit es ts pack' st' | r \<Rightarrow> r)"
    using n by (simp add: h264_sends_def)
  also have "\<dots> = h264_sends g ts True (concat (map (entry_payloads ?m) (e # es))) pack st"
  proof (cases "es = []")
    case False
    let ?pack = "h264_after (length (entry_payloads ?m e)) pack"
    have "concat (map (entry_payloads ?m) es) \<noteq> []"
      using False by (cases es) (simp_all add: entry_payloads_nonempty)
    moreover have "h264_emit es ts ?pack st' =
        h264_sends g ts True (concat (map (entry_payloads ?m) es)) ?pack st'" for st'
      using Cons.IH [of ?pack st'] Cons.prems by simp
    ultimately show ?thesis
      using False by (simp add: h264_sends_def rtp_packets_append)
  qed (simp add: h264_sends_def)
  finally show ?case .
qed

lemma h264_Pack_entries:
  assumes "sink g (h264_comm pack)" and "14 < mtu (h264_comm pack)" and "us \<noteq> []"
    and "list_all (\<lambda>n. nal_clean n \<and> h264_unit_ok n) (map snd us)" and "h264_stap_a pack \<longrightarrow> sets_ok pack"
  shows "\<exists>es s p. h264_Pack (framed us) ts pack st = h264_sends g ts True
      (concat (map (entry_payloads (mtu (h264_comm pack))) es)) (pack\<lparr>h264_sps := s, h264_pps := p\<rparr>) st \<and>
    list_all (entry_ok (mtu (h264_comm pack))) es \<and>
    (if h264_stap_a pack then with_sets (h264_sps pack, h264_pps pack) (map snd us) = (concat es, s, p)
     else s = h264_sps pack \<and> p = h264_pps pack \<and> es = map (\<lambda>n. [n]) (map snd us))"
proof -
  have c: "list_all (\<lambda>u. nal_clean (snd u)) us" using assms(4) by (simp add: list_all_iff)
  have split: "SplitFrame (framed us) (Some keep_units) [] = Some (map snd us)"
    using split_framed(1) [OF assms(3) c, of keep_units "[]"] deliver_keep_units [OF clean_nonempty [OF c]] by simp
  show ?thesis
  proof (cases "h264_stap_a pack")
    case False
    let ?es = "map (\<lambda>n. [n]) (map snd us)"
    have ok: "list_all (entry_ok (mtu (h264_comm pack))) ?es" using assms(4) by (simp add: list_all_iff entry_ok_def)
    have "h264_Pack (framed us) ts pack st = h264_emit ?es ts pack st"
      using False by (simp only: h264_Pack_def split Option.bind.simps h264_collect_plain [OF False] append_Nil
          prod.case if_False Let_def)
    then show ?thesis
      using h264_emit_entries [OF assms(1,2) ok, of ts st] False ok
      by (intro exI [of _ ?es] exI [of _ "h264_sps pack"] exI [of _ "h264_pps pack"]) simp
  next
    case True
    obtain pack1 ps1 es s p where c: "h264_collect (map snd us) pack [] = Some (pack1, ps1)"
      "flushParamSets pack1 ps1 = (pack\<lparr>h264_sps := s, h264_pps := p\<rparr>, [] @ es)" "h264_stap_a pack1"
      "with_sets (h264_sps pack, h264_pps pack) (map snd us) = (concat es, s, p)"
      "list_all (entry_ok (mtu (h264_comm pack))) es"
      using h264_collect_sets [OF True assms(4), of "[]"] assms(5) True by blast
    let ?pack = "pack\<lparr>h264_sps := s, h264_pps := p\<rparr>"
    have "h264_Pack (framed us) ts pack st = h264_emit es ts ?pack st"
      by (simp only: h264_Pack_def split Option.bind.simps c(1-3) append_Nil prod.case if_True Let_def)
    moreover have "h264_emit es ts ?pack st =
        h264_sends g ts True (concat (map (entry_payloads (mtu (h264_comm ?pack))) es)) ?pack st"
      by (rule h264_emit_entries) (use assms(1,2) c(5) in simp_all)
    ultimately show ?thesis using c(4,5) True by (intro exI [of _ es] exI [of _ s] exI [of _ p]) simp
  qed
qed

section \<open>The unpacker delivers units\<close>

definition u264_ok :: "'s on_frame \<Rightarrow> 's H264UnPacker \<Rightarrow> bool" where
  "u264_ok f u \<longleftrightarrow> u264_comm u = \<lparr>onFrame = Some f, un_onRtp = None\<rparr>"

definition u264_at_rest :: "'s on_frame \<Rightarrow> 's H264UnPacker \<Rightarrow> bool" where
  "u264_at_rest f u \<longleftrightarrow> u264_ok f u \<and> u264_frameBuffer u = [0, 0, 0, 1]"

definition u264_holding :: "'s on_frame \<Rightarrow> 's H264UnPacker \<Rightarrow> bytes \<Rightarrow> u32 \<Rightarrow> u16 \<Rightarrow> bool" where
  "u264_holding f u b ts seq \<longleftrightarrow> u264_ok f u \<and> u264_frameBuffer u = [0, 0, 0, 1] @ b \<and>
     u264_timestamp u = ts \<and> u264_lastSequence u = seq \<and> \<not> u264_lost u"

lemma u264_deliver_ok: "u264_ok f u \<Longrightarrow> u264_frameBuffer u = [0, 0, 0, 1] @ b \<Longrightarrow>
    u264_deliver ts lost (u, st) = Some (u\<lparr>u264_frameBuffer := [0, 0, 0, 1]\<rparr>, f ([0, 0, 0, 1] @ b) ts lost st)"
  by (simp add: u264_deliver_def u264_ok_def give_frame_def slice_to_def)

lemma h264_UnPack_pkt:
  assumes "u264_ok f u" and "plain_ok pt" and "p \<noteq> []"
  shows "h264_UnPack (plain_data (new_pkt pt ssrc seq ts m p)) (u, st) =
    (let pkg = received_pkt (new_pkt pt ssrc seq ts m p); packType = hd p AND 0x1F in
       if 0 < packType \<and> packType < 24 then
         map_option (\<lambda>(u, st). (None, u, st))
           (u264_deliver ts False (u\<lparr>u264_frameBuffer := u264_frameBuffer u @ p\<rparr>, st))
       else if packType = 24 then h264_unpackStapa pkg (u, st)
       else if packType = 28 then h264_unpackFuA pkg (u, st)
       else Some (Some ErrUnsupported, u, st))"
proof -
  obtain b r where p: "p = b # r" using assms(3) by (cases p) auto
  show ?thesis
    using assms(1)
    by (simp add: h264_UnPack_def new_pkt_Decode [OF assms(2)] p run_hook_def u264_ok_def idx_def Let_def
        map_conv_bind_option o_def case_prod_unfold)
qed

lemma h264_frag_bits:
  "(n0 AND 0xE0 OR 0x1C) AND 0x1F = (0x1C :: byte)"
  "((n0 AND 0x1F) OR (if s then 0x80 else 0) OR (if e then 0x40 else 0)) AND 0x80 = (if s then 0x80 else 0 :: byte)"
  "((n0 AND 0x1F) OR (if s then 0x80 else 0) OR (if e then 0x40 else 0)) AND 0x40 = (if e then 0x40 else 0 :: byte)"
  "((n0 AND 0xE0 OR 0x1C) AND 0xE0) OR
     (((n0 AND 0x1F) OR (if s then 0x80 else 0) OR (if e then 0x40 else 0)) AND 0x1F) = n0" for n0 :: byte
  by (cases s; cases e; rule byte_eqI; simp add: bit_or_iff bit_and_iff)+

lemma h264_unpackFuA_first:
  "u264_at_rest f u \<Longrightarrow> Payload pkg = h264_frag n0 True False d \<Longrightarrow>
     h264_unpackFuA pkg (u, st) = Some (None, u\<lparr>u264_timestamp := Timestamp (Header pkg),
       u264_frameBuffer := [0, 0, 0, 1] @ n0 # d, u264_lost := False,
       u264_lastSequence := SequenceNumber (Header pkg)\<rparr>, st)"
  using h264_frag_bits(1) [of n0] h264_frag_bits(2-4) [of n0 True False]
  by (simp add: h264_unpackFuA_def h264_frag_def idx_def slice_from_def u264_at_rest_def Let_def)

lemma h264_unpackFuA_next:
  "u264_holding f u b ts (SequenceNumber (Header pkg) - 1) \<Longrightarrow> Payload pkg = h264_frag n0 False False d \<Longrightarrow>
     h264_unpackFuA pkg (u, st) = Some (None, u\<lparr>u264_frameBuffer := [0, 0, 0, 1] @ b @ d,
       u264_lastSequence := SequenceNumber (Header pkg)\<rparr>, st)"
  using h264_frag_bits(1) [of n0] h264_frag_bits(2-4) [of n0 False False]
  by (simp add: h264_unpackFuA_def h264_frag_def idx_def slice_from_def u264_holding_def Let_def)

lemma h264_unpackFuA_last:
  "u264_holding f u b ts (SequenceNumber (Header pkg) - 1) \<Longrightarrow> Payload pkg = h264_frag n0 False True d \<Longrightarrow>
     h264_unpackFuA pkg (u, st) = Some (None, u\<lparr>u264_frameBuffer := [0, 0, 0, 1],
       u264_lastSequence := SequenceNumber (Header pkg)\<rparr>, f ([0, 0, 0, 1] @ b @ d) ts False st)"
  using h264_frag_bits(1) [of n0] h264_frag_bits(2-4) [of n0 False True]
  by (simp add: h264_unpackFuA_def h264_frag_def idx_def slice_from_def u264_holding_def u264_ok_def Let_def
      u264_deliver_def give_frame_def slice_to_def)

interpretation h264_fu: fu_receiver h264_UnPack "Suc k" "pt AND 0x7F" ssrc "h264_single (int k + 15)" hd tl
  h264_frag h264_unit_ok "u264_at_rest f" "u264_holding f"
  "\<lambda>n ts lost. f ([0, 0, 0, 1] @ n) ts lost" for k :: nat and pt :: byte and ssrc :: u32 and f :: "'s on_frame"
proof unfold_locales
  have pt: "plain_ok (pt AND 0x7F)"
    unfolding plain_ok_def fits_def by (rule byte_eqI) (simp_all add: bit_drop_bit_eq bit_and_iff)
  have fu: "h264_UnPack (plain_data (new_pkt (pt AND 0x7F) ssrc seq ts m (h264_frag n0 s e d))) (u, st) =
      h264_unpackFuA (received_pkt (new_pkt (pt AND 0x7F) ssrc seq ts m (h264_frag n0 s e d))) (u, st)"
    if "u264_ok f u" for seq ts m n0 s e d u st
    using h264_UnPack_pkt [OF that pt, of "h264_frag n0 s e d"] by (simp add: h264_frag_def h264_frag_bits Let_def)
  show "0 < Suc k" by simp
  show "Suc k < length (tl n)" if "h264_unit_ok n" "\<not> h264_single (int k + 15) n" for n
    using that by (simp add: h264_single_def)
  show "\<exists>u'. h264_UnPack (plain_data (new_pkt (pt AND 0x7F) ssrc seq ts m n)) (u, st) =
      Some (None, u', f ([0, 0, 0, 1] @ n) ts False st) \<and> u264_at_rest f u'"
    if "u264_at_rest f u" "h264_unit_ok n" for u n seq ts m st
  proof -
    have u: "u264_ok f u" "u264_frameBuffer u = [0, 0, 0, 1]" using that(1) by (simp_all add: u264_at_rest_def)
    have "u264_ok f (u\<lparr>u264_frameBuffer := b\<rparr>)" for b using u(1) by (simp add: u264_ok_def)
    then show ?thesis
      using h264_UnPack_pkt [OF u(1) pt, of n] u that(2)
        u264_deliver_ok [of f "u\<lparr>u264_frameBuffer := [0, 0, 0, 1] @ n\<rparr>" n]
      by (simp add: h264_unit_ok_def Let_def u264_at_rest_def u264_ok_def)
  qed
  show "\<exists>u' h. h264_UnPack (plain_data (new_pkt (pt AND 0x7F) ssrc seq ts m (h264_frag (hd n) True False d))) (u, st) =
        Some (None, u', st) \<and> n = h @ tl n \<and> u264_holding f u' (h @ d) ts seq"
    if "u264_at_rest f u" "h264_unit_ok n" for u n seq ts m d st
  proof (intro exI conjI)
    show "n = [hd n] @ tl n" using that(2) by (simp add: h264_unit_ok_def)
    have ok: "u264_ok f u" using that(1) by (simp add: u264_at_rest_def)
    show "h264_UnPack (plain_data (new_pkt (pt AND 0x7F) ssrc seq ts m (h264_frag (hd n) True False d))) (u, st) =
        Some (None, u\<lparr>u264_timestamp := ts, u264_frameBuffer := [0, 0, 0, 1] @ hd n # d, u264_lost := False,
          u264_lastSequence := seq\<rparr>, st)"
      unfolding fu [OF ok] by (subst h264_unpackFuA_first [OF that(1)]) simp_all
    show "u264_holding f (u\<lparr>u264_timestamp := ts, u264_frameBuffer := [0, 0, 0, 1] @ hd n # d, u264_lost := False,
        u264_lastSequence := seq\<rparr>) ([hd n] @ d) ts seq"
      using ok by (simp add: u264_holding_def u264_ok_def)
  qed
  show "\<exists>u'. h264_UnPack (plain_data (new_pkt (pt AND 0x7F) ssrc (seq + 1) ts m (h264_frag (hd n) False False d))) (u, st) =
        Some (None, u', st) \<and> u264_holding f u' (b @ d) ts (seq + 1)"
    if "u264_holding f u b ts seq" "h264_unit_ok n" for u n b seq ts m d st
  proof (intro exI conjI)
    have ok: "u264_ok f u" using that(1) by (simp add: u264_holding_def)
    show "h264_UnPack (plain_data (new_pkt (pt AND 0x7F) ssrc (seq + 1) ts m (h264_frag (hd n) False False d))) (u, st) =
        Some (None, u\<lparr>u264_frameBuffer := [0, 0, 0, 1] @ b @ d, u264_lastSequence := seq + 1\<rparr>, st)"
      unfolding fu [OF ok] by (subst h264_unpackFuA_next) (use that(1) in simp_all)
    show "u264_holding f (u\<lparr>u264_frameBuffer := [0, 0, 0, 1] @ b @ d, u264_lastSequence := seq + 1\<rparr>) (b @ d) ts (seq + 1)"
      using that(1) by (simp add: u264_holding_def u264_ok_def)
  qed
  show "\<exists>u'. h264_UnPack (plain_data (new_pkt (pt AND 0x7F) ssrc (seq + 1) ts m (h264_frag (hd n) False True d))) (u, st) =
        Some (None, u', f ([0, 0, 0, 1] @ b @ d) ts False st) \<and> u264_at_rest f u'"
    if "u264_holding f u b ts seq" "h264_unit_ok n" for u n b seq ts m d st
  proof (intro exI conjI)
    have ok: "u264_ok f u" using that(1) by (simp add: u264_holding_def)
    show "h264_UnPack (plain_data (new_pkt (pt AND 0x7F) ssrc (seq + 1) ts m (h264_frag (hd n) False True d))) (u, st) =
        Some (None, u\<lparr>u264_frameBuffer := [0, 0, 0, 1], u264_lastSequence := seq + 1\<rparr>, f ([0, 0, 0, 1] @ b @ d) ts False st)"
      unfolding fu [OF ok] by (subst h264_unpackFuA_last) (use that(1) in simp_all)
    show "u264_at_rest f (u\<lparr>u264_frameBuffer := [0, 0, 0, 1], u264_lastSequence := seq + 1\<rparr>)"
      using ok by (simp add: u264_at_rest_def u264_ok_def)
  qed
qed

section \<open>A frame arrives\<close>

lemma h264_payloads_bound:
  assumes "14 < m" and "x \<in> set (h264_payloads m n)" shows "glen x \<le> m - 12"
proof (cases "h264_single m n")
  case True
  then show ?thesis using assms(2) by (simp add: unit_payloads_def h264_single_def)
next
  case False
  then have "x \<in> set (frags (h264_frag (hd n)) True (pieces (nat (m - 14)) (tl n)))"
    using assms(2) by (simp add: unit_payloads_def)
  then obtain a b p where "p \<in> set (pieces (nat (m - 14)) (tl n))" "x = h264_frag (hd n) a b p"
    by (blast dest: set_frags)
  moreover from this have "length p \<le> nat (m - 14)" using pieces_bound [of "nat (m - 14)"] assms(1) by auto
  ultimately show ?thesis using assms(1) by (simp add: h264_frag_def)
qed

lemma h264_payloads_received:
  assumes "14 < m" and "plain_ok pt" and "u264_at_rest f u" and "list_all h264_unit_ok ns"
  shows "\<exists>u'. unpack_all h264_UnPack (rtp_packets pt ssrc ts lst seq (concat (map (h264_payloads m) ns))) (u, st) =
    Some (None, u', fold (\<lambda>n st. f ([0, 0, 0, 1] @ n) ts False st) ns st) \<and> u264_at_rest f u'"
proof -
  have m: "m = int (nat (m - 15)) + 15" "nat (m - 14) = Suc (nat (m - 15))" using assms(1) by simp_all
  show ?thesis
    using h264_fu.frame_delivered [OF assms(3,4), of "pt" ssrc ts lst seq "nat (m - 15)" st]
    unfolding plain_ok_and [OF assms(2)] m(1) [symmetric] m(2) [symmetric] by blast
qed

lemma u16_no_wrap: "uint (w :: u16) + 2 \<le> 65535 \<Longrightarrow> uint (2 + w) = 2 + uint w"
  by (simp add: uint_word_ariths)

lemma stap_nri_low: "nri AND 0x1F = 0 \<Longrightarrow> stap_nri ns nri AND 0x1F = 0"
proof (induction ns arbitrary: nri)
  case (Cons n ns)
  have "(b AND 0x60) AND 0x1F = 0" for b :: byte by (rule byte_eqI) (simp_all add: bit_and_iff)
  then show ?case using Cons by (auto split: list.split)
qed simp

lemma stap_payload_type: "hd (stap_payload ns) AND 0x1F = 24"
proof -
  have "(x OR 24) AND 0x1F = 24" if "x AND 0x1F = 0" for x :: byte
    using that by (simp add: bit.conj_disj_distrib2)
  then show ?thesis using stap_nri_low [of 0 ns] by (simp add: stap_payload_def)
qed

lemma h264_stap_step:
  assumes "u264_at_rest f u" and "n \<noteq> []" and "length n \<le> 65533"
  shows "\<exists>u'. h264_stap_loop (be16 (word_of_nat (length n)) @ n @ r) ts u st =
      h264_stap_loop r ts u' (f ([0, 0, 0, 1] @ n) ts False st) \<and> u264_at_rest f u'"
proof -
  let ?w = "word_of_nat (length n) :: u16" and ?all = "be16 (word_of_nat (length n)) @ n @ r"
  have w: "uint ?w = glen n" using assms(3) by (simp add: uint_nat unat_of_nat)
  have a: "?all \<noteq> []" "\<not> glen ?all < 2" "get_be16 ?all = Some ?w"
    by (simp_all only: get_be16_append) (simp_all add: be16_def)
  have c: "\<not> (?w = 0 \<or> glen ?all - 2 < uint ?w)"
    using w assms(2) by (auto simp: be16_def)
  have e: "uint (2 + ?w) = glen n + 2" using w assms(3) u16_no_wrap [of ?w] by simp
  have s: "slice_of ?all 2 (uint (2 + ?w)) = Some n" "slice_from ?all (uint (2 + ?w)) = Some r"
    unfolding e by (simp_all add: slice_of_def slice_from_def be16_def nat_add_distrib)
  have ok: "u264_ok f u" "u264_frameBuffer u = [0, 0, 0, 1]" using assms(1) by (simp_all add: u264_at_rest_def)
  let ?u = "u\<lparr>u264_frameBuffer := u264_frameBuffer u @ n\<rparr>"
  have "u264_ok f ?u" "u264_frameBuffer ?u = [0, 0, 0, 1] @ n" using ok by (simp_all add: u264_ok_def)
  from u264_deliver_ok [OF this, of ts False st]
  have d: "u264_deliver ts False (?u, st) =
    Some (?u\<lparr>u264_frameBuffer := [0, 0, 0, 1]\<rparr>, f ([0, 0, 0, 1] @ n) ts False st)" .
  have "h264_stap_loop ?all ts u st = h264_stap_loop r ts (?u\<lparr>u264_frameBuffer := [0, 0, 0, 1]\<rparr>)
      (f ([0, 0, 0, 1] @ n) ts False st)"
    using c a(1,2) by (subst h264_stap_loop.simps) (simp only: a(3) s d Option.bind.simps if_False prod.case)
  moreover have "u264_at_rest f (?u\<lparr>u264_frameBuffer := [0, 0, 0, 1]\<rparr>)"
    using ok by (simp add: u264_at_rest_def u264_ok_def)
  ultimately show ?thesis by blast
qed

lemma h264_stap_delivers:
  "u264_at_rest f u \<Longrightarrow> list_all (\<lambda>n. n \<noteq> [] \<and> length n \<le> 65533) ns \<Longrightarrow>
     \<exists>u'. h264_stap_loop (concat (map (\<lambda>n. be16 (word_of_nat (length n)) @ n) ns)) ts u st =
       Some (None, u', fold (\<lambda>n. f ([0, 0, 0, 1] @ n) ts False) ns st) \<and> u264_at_rest f u'"
proof (induction ns arbitrary: u st)
  case Nil
  then show ?case by (subst h264_stap_loop.simps) simp
next
  case (Cons n ns)
  have n: "n \<noteq> []" "length n \<le> 65533" using Cons.prems(2) by simp_all
  obtain u' where u': "h264_stap_loop (be16 (word_of_nat (length n)) @ n @
        concat (map (\<lambda>n. be16 (word_of_nat (length n)) @ n) ns)) ts u st =
      h264_stap_loop (concat (map (\<lambda>n. be16 (word_of_nat (length n)) @ n) ns)) ts u' (f ([0, 0, 0, 1] @ n) ts False st)"
    "u264_at_rest f u'"
    using h264_stap_step [OF Cons.prems(1) n] by blast
  then show ?case using Cons.IH [OF u'(2), of "f ([0, 0, 0, 1] @ n) ts False st"] Cons.prems(2) by simp
qed

lemma stap_payload_units:
  "n \<in> set ns \<Longrightarrow> length n + 3 \<le> length (stap_payload ns)"
  by (induction ns) (auto simp: stap_payload_def be16_def)

lemma h264_entry_received:
  assumes "14 < m" and "m \<le> 65535 \<or> length p \<le> 1" and "plain_ok pt" and "u264_at_rest f u" and "entry_ok m p"
  shows "\<exists>u'. unpack_all h264_UnPack (rtp_packets pt ssrc ts lst seq (entry_payloads m p)) (u, st) =
    Some (None, u', fold (\<lambda>n. f ([0, 0, 0, 1] @ n) ts False) p st) \<and> u264_at_rest f u'"
proof (cases "1 < length p")
  case False
  then obtain n where n: "p = [n]" using assms(5) by (cases p) (auto simp: entry_ok_def)
  then have "list_all h264_unit_ok [n]" using assms(5) by (simp add: entry_ok_def)
  then show ?thesis
    using h264_payloads_received [OF assms(1,3,4), of "[n]" ssrc ts lst seq st] n by (simp add: entry_payloads_def)
next
  case True
  then have m: "m \<le> 65535" "glen (stap_payload p) + 12 \<le> m" and ok: "list_all h264_unit_ok p"
    using assms(2,5) by (auto simp: entry_ok_def)
  have "n \<noteq> [] \<and> length n \<le> 65533" if "n \<in> set p" for n
    using stap_payload_units [OF that] m ok that by (auto simp: list_all_iff h264_unit_ok_def)
  then have fit: "list_all (\<lambda>n. n \<noteq> [] \<and> length n \<le> 65533) p" by (simp add: list_all_iff)
  obtain b c where sp: "stap_payload p = b # c" "c = concat (map (\<lambda>n. be16 (word_of_nat (length n)) @ n) p)"
    by (simp add: stap_payload_def)
  have ty: "b AND 0x1F = 24" using stap_payload_type [of p] sp(1) by simp
  have uok: "u264_ok f u" using assms(4) by (simp add: u264_at_rest_def)
  obtain u' where u': "h264_stap_loop c ts u st = Some (None, u', fold (\<lambda>n. f ([0, 0, 0, 1] @ n) ts False) p st)"
    "u264_at_rest f u'"
    using h264_stap_delivers [OF assms(4) fit, of ts st] sp(2) by blast
  have "h264_UnPack (plain_data (new_pkt pt ssrc seq ts lst (stap_payload p))) (u, st) =
      h264_unpackStapa (received_pkt (new_pkt pt ssrc seq ts lst (stap_payload p))) (u, st)"
    using h264_UnPack_pkt [OF uok assms(3), of "stap_payload p" ssrc seq ts lst st] sp(1) ty by (simp add: Let_def)
  also have "\<dots> = h264_stap_loop c ts u st" by (simp add: h264_unpackStapa_def sp(1) slice_from_def)
  finally show ?thesis using u' True by (simp add: entry_payloads_def)
qed

lemma h264_entries_received:
  "14 < m \<Longrightarrow> m \<le> 65535 \<or> list_all (\<lambda>p. length p \<le> 1) es \<Longrightarrow> plain_ok pt \<Longrightarrow> u264_at_rest f u \<Longrightarrow>
   list_all (entry_ok m) es \<Longrightarrow>
   \<exists>u'. unpack_all h264_UnPack (rtp_packets pt ssrc ts lst seq (concat (map (entry_payloads m) es))) (u, st) =
     Some (None, u', fold (\<lambda>n. f ([0, 0, 0, 1] @ n) ts False) (concat es) st) \<and> u264_at_rest f u'"
proof (induction es arbitrary: u st seq)
  case (Cons p es)
  have p: "m \<le> 65535 \<or> length p \<le> 1" "entry_ok m p" using Cons.prems by auto
  show ?case
  proof (cases "es = []")
    case True
    then show ?thesis using h264_entry_received [OF Cons.prems(1) p(1) Cons.prems(3,4) p(2), of ssrc ts lst seq st] by simp
  next
    case False
    then have ne: "concat (map (entry_payloads m) es) \<noteq> []" by (cases es) (simp_all add: entry_payloads_nonempty)
    obtain u' where u': "unpack_all h264_UnPack (rtp_packets pt ssrc ts False seq (entry_payloads m p)) (u, st) =
        Some (None, u', fold (\<lambda>n. f ([0, 0, 0, 1] @ n) ts False) p st)" "u264_at_rest f u'"
      using h264_entry_received [OF Cons.prems(1) p(1) Cons.prems(3,4) p(2), of ssrc ts False seq st] by blast
    then show ?thesis
      using Cons.IH [OF Cons.prems(1) _ Cons.prems(3) u'(2), of "seq + word_of_nat (length (entry_payloads m p))"
          "fold (\<lambda>n. f ([0, 0, 0, 1] @ n) ts False) p st"] Cons.prems
      by (auto simp: rtp_packets_append [OF ne] unpack_all_append)
  qed
qed simp

lemma entry_payloads_bound:
  assumes "14 < m" and "entry_ok m p" and "x \<in> set (entry_payloads m p)" shows "glen x \<le> m - 12"
  using assms h264_payloads_bound [OF assms(1), of x "hd p"] by (auto simp: entry_payloads_def entry_ok_def split: if_splits)

lemma h264_entries_bound:
  assumes "14 < m" and "list_all (entry_ok m) es"
  shows "list_all (\<lambda>d. glen d \<le> m) (rtp_packets pt ssrc ts lst seq (concat (map (entry_payloads m) es)))"
proof -
  have "length x \<le> nat (m - 12)" if x: "x \<in> set (concat (map (entry_payloads m) es))" for x
  proof -
    obtain p where p: "p \<in> set es" "x \<in> set (entry_payloads m p)" using x by auto
    then have "entry_ok m p" using assms(2) by (simp add: list_all_iff)
    from entry_payloads_bound [OF assms(1) this p(2)] show ?thesis by simp
  qed
  then have "list_all (\<lambda>d. length d \<le> 12 + nat (m - 12)) (rtp_packets pt ssrc ts lst seq (concat (map (entry_payloads m) es)))"
    by (intro rtp_packets_bound) (simp add: list_all_iff)
  then show ?thesis using assms(1) by (auto simp: list_all_iff nat_le_iff)
qed

lemma h264_frame_received:
  assumes "onRtp (h264_comm pack) = None" and "onPacket (h264_comm pack) = Some (\<lambda>d ds. (None, ds @ [d]))"
    and "14 < mtu (h264_comm pack)" and "plain_ok (h264_pt pack)"
    and "h264_stap_a pack \<longrightarrow> mtu (h264_comm pack) \<le> 65535 \<and> sets_ok pack"
    and "us \<noteq> []" and "list_all (\<lambda>u. nal_clean (snd u) \<and> h264_unit_ok (snd u)) us" and "u264_at_rest f u"
  shows "\<exists>pack' pkts u' out. h264_Pack (framed us) ts pack [] = Some (None, pack', pkts) \<and>
    list_all (\<lambda>d. glen d \<le> mtu (h264_comm pack)) pkts \<and>
    unpack_all h264_UnPack pkts (u, st) =
      Some (None, u', fold (\<lambda>n st. f ([0, 0, 0, 1] @ n) ts False st) out st) \<and> u264_at_rest f u' \<and>
    (if h264_stap_a pack then
       with_sets (h264_sps pack, h264_pps pack) (map snd us) = (out, h264_sps pack', h264_pps pack')
     else out = map snd us)"
proof -
  let ?m = "mtu (h264_comm pack)"
  have sk: "sink (\<lambda>d ds. ds @ [d]) (h264_comm pack)" using assms(1,2) by (simp add: sink_def)
  have us: "list_all (\<lambda>n. nal_clean n \<and> h264_unit_ok n) (map snd us)" "h264_stap_a pack \<longrightarrow> sets_ok pack"
    using assms(5,7) by (simp_all add: list_all_iff)
  obtain es s p where es: "h264_Pack (framed us) ts pack [] = h264_sends (\<lambda>d ds. ds @ [d]) ts True
      (concat (map (entry_payloads ?m) es)) (pack\<lparr>h264_sps := s, h264_pps := p\<rparr>) []"
    "list_all (entry_ok ?m) es"
    "if h264_stap_a pack then with_sets (h264_sps pack, h264_pps pack) (map snd us) = (concat es, s, p)
     else s = h264_sps pack \<and> p = h264_pps pack \<and> es = map (\<lambda>n. [n]) (map snd us)"
    using h264_Pack_entries [OF sk assms(3,6) us, of ts "[]"] by blast
  let ?pkts = "rtp_packets (h264_pt pack) (h264_ssrc pack) ts True (h264_sequence pack)
    (concat (map (entry_payloads ?m) es))"
  have "?m \<le> 65535 \<or> list_all (\<lambda>p. length p \<le> 1) es"
    using assms(5) es(3) by (cases "h264_stap_a pack") (simp_all add: list_all_iff)
  from h264_entries_received [OF assms(3) this assms(4,8) es(2), of "h264_ssrc pack" ts True "h264_sequence pack" st]
  obtain u' where u': "unpack_all h264_UnPack ?pkts (u, st) =
      Some (None, u', fold (\<lambda>n st. f ([0, 0, 0, 1] @ n) ts False st) (concat es) st)" "u264_at_rest f u'" by blast
  let ?pack = "h264_after (length (concat (map (entry_payloads ?m) es))) (pack\<lparr>h264_sps := s, h264_pps := p\<rparr>)"
  have P: "h264_Pack (framed us) ts pack [] = Some (None, ?pack, ?pkts)"
    unfolding es(1) by (simp add: h264_sends_def fold_snoc del: length_concat)
  have one: "concat (map (\<lambda>n. [n]) ns) = ns" for ns :: "bytes list" by (induction ns) simp_all
  have out: "if h264_stap_a pack then with_sets (h264_sps pack, h264_pps pack) (map snd us) =
      (concat es, h264_sps ?pack, h264_pps ?pack) else concat es = map snd us"
    using es(3) one [of "map snd us"] by (cases "h264_stap_a pack") (simp_all del: map_map add: h264_after_def)
  show ?thesis
    using P h264_entries_bound [OF assms(3) es(2)] u' out by blast
qed

section \<open>Which inputs make the unpacker panic\<close>

text \<open>
  \<open>2+naluLength\<close> is computed in \<open>uint16\<close>: an aggregated unit of 65534 or 65535 bytes makes the
  upper bound of the slice wrap to 0 or 1.  Only a packet of more than 65535 bytes can carry it.
\<close>

lemma u264_deliver_total:
  assumes "4 \<le> length (u264_frameBuffer u)"
  shows "\<exists>u' st'. u264_deliver ts lost (u, st) = Some (u', st') \<and> length (u264_frameBuffer u') = 4 \<and>
    u264_comm u' = u264_comm u"
  using assms slice_to_int [of 4 "u264_frameBuffer u"] by (simp add: u264_deliver_def)

lemma h264_stap_total:
  assumes "glen nalus \<le> 65535" and "4 \<le> length (u264_frameBuffer u)"
  shows "\<exists>e u' st'. h264_stap_loop nalus ts u st = Some (e, u', st') \<and> 4 \<le> length (u264_frameBuffer u')"
  using assms
proof (induction "length nalus" arbitrary: nalus u st rule: less_induct)
  case less
  show ?case
  proof (cases "glen nalus < 2")
    case True
    then show ?thesis using less.prems by (subst h264_stap_loop.simps) simp
  next
    case False
    then have ne: "nalus \<noteq> []" "\<not> glen nalus < 2" by auto
    obtain w where w: "get_be16 nalus = Some w" using get_be16_total [of nalus] False by auto
    show ?thesis
    proof (cases "w = 0 \<or> glen nalus - 2 < uint w")
      case True
      then show ?thesis using ne w less.prems by (subst h264_stap_loop.simps) simp
    next
      case ok: False
      let ?n = "2 + unat w"
      have "int ?n \<le> glen nalus" using ok by simp
      then have le: "uint w + 2 \<le> 65535" and n2: "?n \<le> length nalus"
        using ok less.prems(1) by (auto simp only: of_nat_le_iff)
      have n: "uint (2 + w) = int ?n" "?n \<le> length nalus" "0 < ?n"
        using n2 u16_no_wrap [OF le] by simp_all
      have sl: "slice_of nalus 2 (int ?n) = Some (take (unat w) (drop 2 nalus))"
        "slice_from nalus (int ?n) = Some (drop ?n nalus)"
      proof -
        have "int ?n \<le> glen nalus" "nat (int ?n - 2) = unat w" using n2 by (simp_all only: of_nat_le_iff)
        then show "slice_of nalus 2 (int ?n) = Some (take (unat w) (drop 2 nalus))"
          using slice_of_total [of 2 "int ?n" nalus] by simp
      qed (rule slice_from_int [OF n2])
      obtain u' st' where d: "u264_deliver ts False (u\<lparr>u264_frameBuffer := u264_frameBuffer u @ take (unat w) (drop 2 nalus)\<rparr>, st)
          = Some (u', st')" "length (u264_frameBuffer u') = 4"
        using u264_deliver_total [of "u\<lparr>u264_frameBuffer := u264_frameBuffer u @ take (unat w) (drop 2 nalus)\<rparr>" ts False st]
          less.prems(2) by auto
      have "h264_stap_loop nalus ts u st = h264_stap_loop (drop ?n nalus) ts u' st'"
        using ok ne
        by (subst h264_stap_loop.simps) (simp only: w n(1) sl d(1) Option.bind.simps if_False prod.case)
      moreover have "length (drop ?n nalus) < length nalus" using n2 by simp
      moreover have "glen (drop ?n nalus) \<le> 65535" using less.prems(1) by auto
      ultimately show ?thesis using less.hyps [of "drop ?n nalus" u' st'] d(2) by simp
    qed
  qed
qed

lemma h264_unpackFuA_total:
  assumes "4 \<le> length (u264_frameBuffer u)"
  shows "\<exists>e u' st'. h264_unpackFuA pkg (u, st) = Some (e, u', st') \<and> 4 \<le> length (u264_frameBuffer u')"
proof (cases "glen (Payload pkg) < 2")
  case True
  then show ?thesis using assms by (simp add: h264_unpackFuA_def)
next
  case False
  then obtain p0 p1 d where p: "Payload pkg = p0 # p1 # d" by (cases "Payload pkg"; cases "tl (Payload pkg)") auto
  have sl: "idx (p0 # p1 # d) 0 = Some p0" "idx (p0 # p1 # d) 1 = Some p1" "slice_from (p0 # p1 # d) 2 = Some d"
    by (simp_all add: idx_def slice_from_def)
  obtain u1 st1 where first: "(if p1 AND 0x80 > 0 then do {
            (u, st) \<leftarrow> (if length (u264_frameBuffer u) > 4 then u264_deliver (u264_timestamp u) True (u, st)
              else Some (u, st));
            Some (u\<lparr>u264_timestamp := Timestamp (Header pkg),
              u264_frameBuffer := u264_frameBuffer u @ [(p0 AND 0xE0) OR (p1 AND 0x1F)], u264_lost := False\<rparr>, st)
          }
          else Some (if u264_lastSequence u + 1 \<noteq> SequenceNumber (Header pkg) then u\<lparr>u264_lost := True\<rparr> else u, st)) =
      Some (u1, st1)" "4 \<le> length (u264_frameBuffer u1)"
    using assms u264_deliver_total [OF assms, of "u264_timestamp u" True st]
    by (cases "p1 AND 0x80 > 0"; cases "length (u264_frameBuffer u) > 4") force+
  let ?u2 = "u1\<lparr>u264_lastSequence := SequenceNumber (Header pkg), u264_frameBuffer := u264_frameBuffer u1 @ d\<rparr>"
  obtain u3 st3 where second: "(if p1 AND 0x40 > 0 then u264_deliver (u264_timestamp ?u2) (u264_lost ?u2) (?u2, st1)
      else Some (?u2, st1)) = Some (u3, st3)" "4 \<le> length (u264_frameBuffer u3)"
    using first(2) u264_deliver_total [of ?u2 "u264_timestamp ?u2" "u264_lost ?u2" st1] by (cases "p1 AND 0x40 > 0") auto
  show ?thesis
    using False second(2) unfolding h264_unpackFuA_def prod.case p
    by (simp only: sl Option.bind.simps Let_def first(1) prod.case second(1) if_False) simp
qed

lemma h264_UnPack_total:
  assumes "length data \<le> 65535" and "4 \<le> length (u264_frameBuffer u)" and "un_onRtp (u264_comm u) = None"
  shows "\<exists>e u' st'. h264_UnPack data (u, st) = Some (e, u', st') \<and> 4 \<le> length (u264_frameBuffer u')"
proof -
  obtain r where r: "pkt_Decode data zero_pkt = Some r" using pkt_Decode_total by blast
  show ?thesis
  proof (cases r)
    case (Inl e)
    then show ?thesis using r assms(2) by (simp add: h264_UnPack_def)
  next
    case (Inr pkg)
    have len: "length (Payload pkg) \<le> 65535" using pkt_Decode_length [of data zero_pkt pkg] r Inr assms(1) by simp
    show ?thesis
    proof (cases "Payload pkg")
      case Nil
      then show ?thesis using r Inr assms(2) by (simp add: h264_UnPack_def)
    next
      case (Cons p0 d)
      then have p: "idx (Payload pkg) 0 = Some p0" "Payload pkg \<noteq> []" "slice_from (Payload pkg) 1 = Some d"
        by (simp_all add: idx_def slice_from_def)
      note defs = h264_UnPack_def prod.case r Inr Option.bind.simps sum.case p Let_def run_hook_def assms(3) option.case if_False
      consider "0 < p0 AND 0x1F \<and> p0 AND 0x1F < 24" | "\<not> (0 < p0 AND 0x1F \<and> p0 AND 0x1F < 24)" "p0 AND 0x1F = 24"
        | "\<not> (0 < p0 AND 0x1F \<and> p0 AND 0x1F < 24)" "p0 AND 0x1F \<noteq> 24" "p0 AND 0x1F = 28"
        | "\<not> (0 < p0 AND 0x1F \<and> p0 AND 0x1F < 24)" "p0 AND 0x1F \<noteq> 24" "p0 AND 0x1F \<noteq> 28" by blast
      then show ?thesis
      proof cases
        case 1
        then show ?thesis
          using u264_deliver_total [of "u\<lparr>u264_frameBuffer := u264_frameBuffer u @ Payload pkg\<rparr>" "Timestamp (Header pkg)" False st]
            assms(2) by (simp only: defs) force
      next
        case 2
        have "glen d \<le> 65535" using len Cons by simp
        then obtain e u' st' where "h264_stap_loop d (Timestamp (Header pkg)) u st = Some (e, u', st')"
          "4 \<le> length (u264_frameBuffer u')"
          using h264_stap_total [of d u "Timestamp (Header pkg)" st] assms(2) by blast
        then show ?thesis by (simp only: defs 2 h264_unpackStapa_def if_True) simp
      next
        case 3
        show ?thesis
          using h264_unpackFuA_total [OF assms(2), of pkg st] by (simp only: defs 3 if_True) simp
      next
        case 4
        show ?thesis using assms(2) by (simp only: defs 4) simp
      qed
    qed
  qed
qed

lemma h264_stap_panics:
  assumes "65534 \<le> length d"
  shows "h264_stap_loop (be16 65534 @ d) ts u st = None"
proof -
  have "get_be16 (be16 65534 @ d) = Some 65534" by simp
  moreover have "slice_of (be16 65534 @ d) 2 (uint (2 + 65534 :: u16)) = None" by (simp add: slice_of_def)
  moreover have "\<not> (65534 = (0 :: u16) \<or> glen (be16 65534 @ d) - 2 < uint (65534 :: u16))" using assms by simp
  moreover have "be16 65534 @ d \<noteq> []" "\<not> glen (be16 65534 @ d) < 2" by (simp_all add: be16_def)
  ultimately show ?thesis by (subst h264_stap_loop.simps) (simp only: Option.bind.simps if_False)
qed


text \<open>
  A unit that arrives before the fragments in front of it are complete: the buffer still holds
  them, and both are delivered as one unit, at the new timestamp and as not lost.
\<close>

lemma h264_torn_fragments:
  assumes "u264_holding f u b ts0 seq0" and "plain_ok pt" and "h264_unit_ok n"
  shows "\<exists>u'. h264_UnPack (plain_data (new_pkt pt ssrc seq ts m n)) (u, st) =
    Some (None, u', f ([0, 0, 0, 1] @ b @ n) ts False st)"
proof -
  have u: "u264_ok f u" "u264_frameBuffer u = [0, 0, 0, 1] @ b" using assms(1) by (simp_all add: u264_holding_def)
  have "u264_ok f (u\<lparr>u264_frameBuffer := c\<rparr>)" for c using u(1) by (simp add: u264_ok_def)
  then show ?thesis
    using h264_UnPack_pkt [OF u(1) assms(2), of n] u assms(3)
      u264_deliver_ok [of f "u\<lparr>u264_frameBuffer := [0, 0, 0, 1] @ b @ n\<rparr>" "b @ n" ts False st]
    by (simp add: h264_unit_ok_def Let_def)
qed

section \<open>Properties\<close>

text \<open>
  C14: an access unit that is packed and sent as RTP comes back: for every MTU above 14 and all
  units of any size, no packet exceeds the MTU, and an unpacker that gets the packets in order
  delivers each unit with a start code, in order, with the timestamp and not marked as lost,
  and is ready for the next frame.  With STAP-A enabled (and an MTU of at most 65535) the units
  delivered are those of \<open>with_sets\<close>: a pair of parameter sets, aggregated when it fits the MTU,
  goes in front of the next other unit; a lone one stays in the packer for a later frame and is
  replaced by the next of its kind.
\<close>

theorem h264_frame_over_rtp:
  assumes "onRtp (h264_comm pack) = None" and "onPacket (h264_comm pack) = Some (\<lambda>d ds. (None, ds @ [d]))"
    and "14 < mtu (h264_comm pack)" and "plain_ok (h264_pt pack)"
    and "h264_stap_a pack \<longrightarrow> mtu (h264_comm pack) \<le> 65535 \<and> sets_ok pack"
    and "us \<noteq> []" and "list_all (\<lambda>u. nal_clean (snd u) \<and> h264_unit_ok (snd u)) us" and "u264_at_rest f u"
  shows "\<exists>pack' pkts u' out. h264_Pack (framed us) ts pack [] = Some (None, pack', pkts) \<and>
    list_all (\<lambda>d. glen d \<le> mtu (h264_comm pack)) pkts \<and>
    unpack_all h264_UnPack pkts (u, st) =
      Some (None, u', fold (\<lambda>n st. f ([0, 0, 0, 1] @ n) ts False st) out st) \<and> u264_at_rest f u' \<and>
    (if h264_stap_a pack then
       with_sets (h264_sps pack, h264_pps pack) (map snd us) = (out, h264_sps pack', h264_pps pack')
     else out = map snd us)"
  using assms by (rule h264_frame_received)

definition sample_h264_packer :: "(unit, bytes list) H264Packer" where
  "sample_h264_packer = (NewH264Packer 96 7 65535 18)\<lparr>h264_comm :=
     OnPacket (Some (\<lambda>d ds. (None, ds @ [d]))) (h264_comm (NewH264Packer 96 7 65535 18))\<rparr>"

definition record_frame :: "(bytes \<times> u32 \<times> bool) list on_frame" where
  "record_frame = (\<lambda>d ts lost st. st @ [(d, ts, lost)])"

definition sample_h264_unpacker :: "(bytes \<times> u32 \<times> bool) list H264UnPacker" where
  "sample_h264_unpacker = NewH264UnPacker\<lparr>u264_comm := OnFrame (Some record_frame) (u264_comm NewH264UnPacker)\<rparr>"

definition sample_stap_packer :: "(unit, bytes list) H264Packer" where
  "sample_stap_packer = EnableStapA ((NewH264Packer 96 7 65535 40)\<lparr>h264_comm :=
     OnPacket (Some (\<lambda>d ds. (None, ds @ [d]))) (h264_comm (NewH264Packer 96 7 65535 40))\<rparr>)"

theorem h264_frame_over_rtp_witness:
  "(\<exists>pack' pkts u'. h264_Pack [0, 0, 0, 1, 0x67, 1, 2, 3, 4, 5, 6, 7, 8, 9, 0, 0, 1, 0x68, 9] 90000 sample_h264_packer [] =
      Some (None, pack', pkts) \<and> list_all (\<lambda>d. length d \<le> 18) pkts \<and>
    unpack_all h264_UnPack pkts (sample_h264_unpacker, []) =
      Some (None, u', [([0, 0, 0, 1, 0x67, 1, 2, 3, 4, 5, 6, 7, 8, 9], 90000, False),
        ([0, 0, 0, 1, 0x68, 9], 90000, False)])) \<and>
   (\<exists>pack' pkts u'. h264_Pack [0, 0, 1, 0x68, 9, 0, 0, 1, 0x67, 1, 0, 0, 1, 0x65, 2, 0, 0, 1, 0x68, 8] 90000
      sample_stap_packer [] = Some (None, pack', pkts) \<and> h264_sps pack' = [] \<and> h264_pps pack' = [0x68, 8] \<and>
    unpack_all h264_UnPack pkts (sample_h264_unpacker, []) =
      Some (None, u', [([0, 0, 0, 1, 0x67, 1], 90000, False), ([0, 0, 0, 1, 0x68, 9], 90000, False),
        ([0, 0, 0, 1, 0x65, 2], 90000, False)]))"
proof (rule conjI, goal_cases)
  case 1
  let ?us = "[(START_CODE_4, [0x67, 1, 2, 3, 4, 5, 6, 7, 8, 9]), (START_CODE_3, [0x68, 9])]"
  have "list_all (\<lambda>u. nal_clean (snd u) \<and> h264_unit_ok (snd u)) ?us" "plain_ok 96" by code_simp+
  then show ?case
    using h264_frame_over_rtp [of sample_h264_packer ?us record_frame sample_h264_unpacker 90000 "[]"]
    by (force simp: sample_h264_packer_def sample_h264_unpacker_def NewH264Packer_def NewH264UnPacker_def OnPacket_def
        OnFrame_def u264_at_rest_def u264_ok_def framed_Cons record_frame_def)
next
  case 2
  let ?us = "[(START_CODE_3, [0x68, 9]), (START_CODE_3, [0x67, 1]), (START_CODE_3, [0x65, 2]), (START_CODE_3, [0x68, 8])]"
  have "list_all (\<lambda>u. nal_clean (snd u) \<and> h264_unit_ok (snd u)) ?us" "plain_ok 96" by code_simp+
  moreover have "with_sets ([], []) (map snd ?us) = ([[0x67, 1], [0x68, 9], [0x65, 2]], [], [0x68, 8])" by code_simp
  ultimately show ?case
    using h264_frame_over_rtp [of sample_stap_packer ?us record_frame sample_h264_unpacker 90000 "[]"]
    by (force simp: sample_stap_packer_def EnableStapA_def sample_h264_unpacker_def NewH264Packer_def NewH264UnPacker_def
        OnPacket_def OnFrame_def u264_at_rest_def u264_ok_def framed_Cons record_frame_def sets_ok_def)
qed

text \<open>
  C15: no packet of at most 65535 bytes makes the unpacker panic, whatever it holds, and it keeps
  the start code at the head of its buffer.
\<close>

theorem h264_unpacker_never_panics:
  assumes "length data \<le> 65535" and "4 \<le> length (u264_frameBuffer u)" and "un_onRtp (u264_comm u) = None"
  shows "\<exists>e u' st'. h264_UnPack data (u, st) = Some (e, u', st') \<and> 4 \<le> length (u264_frameBuffer u')"
  using assms by (rule h264_UnPack_total)

theorem h264_unpacker_never_panics_witness:
  "\<exists>e u' st'. h264_UnPack (replicate 65535 0xFF) (sample_h264_unpacker, []) = Some (e, u', st') \<and>
     4 \<le> length (u264_frameBuffer u')"
  using h264_unpacker_never_panics [of "replicate 65535 0xFF" sample_h264_unpacker "[]"]
  by (simp add: sample_h264_unpacker_def NewH264UnPacker_def OnFrame_def)

text \<open>
  a single unit that arrives while fragments of an unfinished unit are held is appended to
  them: both are delivered as one unit and not marked as lost.
\<close>

theorem h264_unit_after_torn_fragments:
  assumes "u264_holding f u b ts0 seq0" and "plain_ok pt" and "h264_unit_ok n"
  shows "\<exists>u'. h264_UnPack (plain_data (new_pkt pt ssrc seq ts m n)) (u, st) =
    Some (None, u', f ([0, 0, 0, 1] @ b @ n) ts False st)"
  using assms by (rule h264_torn_fragments)

theorem h264_unit_after_torn_fragments_witness:
  "\<exists>u'. h264_UnPack (plain_data (new_pkt 96 7 12 180000 True [0x61, 5]))
      (sample_h264_unpacker\<lparr>u264_timestamp := 90000, u264_lastSequence := 9, u264_frameBuffer := [0, 0, 0, 1, 0x65, 1, 2]\<rparr>, []) =
    Some (None, u', [([0, 0, 0, 1, 0x65, 1, 2, 0x61, 5], 180000, False)])"
proof -
  let ?u = "sample_h264_unpacker\<lparr>u264_timestamp := 90000, u264_lastSequence := 9,
    u264_frameBuffer := [0, 0, 0, 1, 0x65, 1, 2]\<rparr>"
  have "plain_ok 96" "h264_unit_ok [0x61, 5]" by code_simp+
  moreover have "u264_holding record_frame ?u [0x65, 1, 2] 90000 9"
    by (simp add: u264_holding_def u264_ok_def sample_h264_unpacker_def NewH264UnPacker_def OnFrame_def)
  ultimately show ?thesis
    using h264_unit_after_torn_fragments [of record_frame ?u "[0x65, 1, 2]" 90000 9 96 "[0x61, 5]" 7 12 180000 True "[]"]
    by (simp add: record_frame_def)
qed

end
