(* ===== verification/RtpH265.thy ===== *)
theory RtpH265
  imports RtpFu AnnexB
begin

text \<open>
  The H.265 payload format, \<open>go-rtsp/rtp/rtp-h265.go\<close>: single units and fragmentation units.
  The model and the lemmas follow \<open>RtpH264\<close>; the unit header has two bytes and the fragment
  header a third one.
\<close>

unbundle bit_operations_syntax

record ('e, 's) H265Packer =
  h265_comm :: "('e, 's) CommPacker"
  h265_pt :: byte
  h265_ssrc :: u32
  h265_sequence :: u16

definition NewH265Packer :: "byte \<Rightarrow> u32 \<Rightarrow> u16 \<Rightarrow> int \<Rightarrow> ('e, 's) H265Packer" where
  "NewH265Packer pt ssrc sequence m = \<lparr>h265_comm = \<lparr>onPacket = None, onRtp = None, mtu = m\<rparr>,
     h265_pt = pt, h265_ssrc = ssrc, h265_sequence = sequence\<rparr>"

type_synonym ('e, 's) packed265 = "((rtp_error + 'e) option \<times> ('e, 's) H265Packer \<times> 's) option"

section \<open>The packer\<close>

definition h265_pkt :: "('e, 's) H265Packer \<Rightarrow> u32 \<Rightarrow> bool \<Rightarrow> bytes \<Rightarrow> RtpPacket" where
  "h265_pkt h265 timestamp mark payload =
     new_pkt (h265_pt h265) (h265_ssrc h265) (h265_sequence h265) timestamp mark payload"

definition h265_packSingleNalu :: "bytes \<Rightarrow> u32 \<Rightarrow> bool \<Rightarrow> ('e, 's) H265Packer \<Rightarrow> 's \<Rightarrow> ('e, 's) packed265" where
  "h265_packSingleNalu nalu timestamp lst h265 st = do {
     (e, st) \<leftarrow> send (h265_comm h265) (h265_pkt h265 timestamp lst nalu) st;
     Some (map_option Inr e, h265\<lparr>h265_sequence := h265_sequence h265 + 1\<rparr>, st)
   }"

text \<open>
  The loop of \<open>packFu\<close>: \<open>start\<close> is the flag of the source, \<open>ends\<close> is \<open>end\<close>, which is set with
  the last piece.  The MTU was tested before it.
\<close>

function h265_fu_loop :: "byte \<Rightarrow> byte \<Rightarrow> byte \<Rightarrow> bool \<Rightarrow> bytes \<Rightarrow> u32 \<Rightarrow> bool \<Rightarrow> ('e, 's) H265Packer \<Rightarrow> 's
    \<Rightarrow> ('e, 's) packed265" where
  "h265_fu_loop hdr0 hdr1 fuHeader start nalu timestamp lst h265 st =
     (if nalu = [] then Some (None, h265, st)
      else
        let m = mtu (h265_comm h265);
            ends = (glen nalu + RTP_FIX_HEAD_LEN + 3 \<le> m);
            len = (if ends then glen nalu else m - RTP_FIX_HEAD_LEN - 3)
        in if len \<le> 0 then None
        else do {
          part \<leftarrow> slice_to nalu len;
          rest \<leftarrow> slice_from nalu len;
          let fu = fuHeader OR (if start then 0x80 else 0) OR (if ends then 0x40 else 0);
          (e, st) \<leftarrow> send (h265_comm h265) (h265_pkt h265 timestamp (ends \<and> lst) ([hdr0, hdr1, fu] @ part)) st;
          let h265 = h265\<lparr>h265_sequence := h265_sequence h265 + 1\<rparr>;
          (case e of
             Some x \<Rightarrow> Some (Some (Inr x), h265, st)
           | None \<Rightarrow> h265_fu_loop hdr0 hdr1 fuHeader False rest timestamp lst h265 st)
        })"
  by pat_completeness auto
termination
  by (relation "measure (\<lambda>(h0, h1, fu, s, nalu, ts, l, h, st). length nalu)")
    (auto simp: slice_from_def Let_def intro!: diff_less split: if_splits)

declare h265_fu_loop.simps [simp del]

definition h265_packFu :: "bytes \<Rightarrow> u32 \<Rightarrow> bool \<Rightarrow> ('e, 's) H265Packer \<Rightarrow> 's \<Rightarrow> ('e, 's) packed265" where
  "h265_packFu nalu timestamp lst h265 st =
     (if glen nalu < 3 then Some (Some (Inl ErrTooShort), h265, st)
      else if mtu (h265_comm h265) \<le> RTP_FIX_HEAD_LEN + 3 then Some (Some (Inl ErrMtuTooSmall), h265, st)
      else do {
        n0 \<leftarrow> idx nalu 0;
        n1 \<leftarrow> idx nalu 1;
        rest \<leftarrow> slice_from nalu 2;
        h265_fu_loop (n0 AND 0x81 OR push_bit 1 0x31) n1 (drop_bit 1 n0 AND 0x3F) True rest timestamp lst h265 st
      })"

fun h265_emit :: "bytes list \<Rightarrow> u32 \<Rightarrow> ('e, 's) H265Packer \<Rightarrow> 's \<Rightarrow> ('e, 's) packed265" where
  "h265_emit [] timestamp h265 st = Some (None, h265, st)"
| "h265_emit (nalu # nalus) timestamp h265 st = do {
     let lst = (nalus = []);
     (e, h265, st) \<leftarrow>
       (if glen nalu + RTP_FIX_HEAD_LEN \<le> mtu (h265_comm h265) then h265_packSingleNalu nalu timestamp lst h265 st
        else h265_packFu nalu timestamp lst h265 st);
     (case e of
        Some x \<Rightarrow> Some (Some x, h265, st)
      | None \<Rightarrow> h265_emit nalus timestamp h265 st)
   }"

definition h265_keep_units :: "bytes list frame_callback" where
  "h265_keep_units nalu nalus = (True, if nalu \<noteq> [] then nalus @ [nalu] else nalus)"

definition h265_Pack :: "bytes \<Rightarrow> u32 \<Rightarrow> ('e, 's) H265Packer \<Rightarrow> 's \<Rightarrow> ('e, 's) packed265" where
  "h265_Pack data timestamp h265 st = do {
     nalus \<leftarrow> SplitFrame data (Some h265_keep_units) [];
     h265_emit nalus timestamp h265 st
   }"

section \<open>The unpacker\<close>

record 's H265UnPacker =
  u265_comm :: "'s CommUnPacker"
  u265_timestamp :: u32
  u265_lastSequence :: u16
  u265_lost :: bool
  u265_frameBuffer :: bytes

definition NewH265UnPacker :: "'s H265UnPacker" where
  "NewH265UnPacker = \<lparr>u265_comm = \<lparr>onFrame = None, un_onRtp = None\<rparr>, u265_timestamp = 0,
     u265_lastSequence = 0, u265_lost = False, u265_frameBuffer = [0x00, 0x00, 0x00, 0x01]\<rparr>"

definition u265_deliver :: "u32 \<Rightarrow> bool \<Rightarrow> 's H265UnPacker \<times> 's \<Rightarrow> ('s H265UnPacker \<times> 's) option" where
  "u265_deliver ts lost = (\<lambda>(u, st). do {
     let st = give_frame (u265_comm u) (u265_frameBuffer u) ts lost st;
     buf \<leftarrow> slice_to (u265_frameBuffer u) 4;
     Some (u\<lparr>u265_frameBuffer := buf\<rparr>, st)
   })"

definition h265_unpackFu :: "RtpPacket \<Rightarrow> 's H265UnPacker \<times> 's
    \<Rightarrow> (rtp_error option \<times> 's H265UnPacker \<times> 's) option" where
  "h265_unpackFu pkt = (\<lambda>(u, st).
     if glen (Payload pkt) < 3 then Some (Some ErrFragmentShort, u, st)
     else do {
       p0 \<leftarrow> idx (Payload pkt) 0;
       p1 \<leftarrow> idx (Payload pkt) 1;
       p2 \<leftarrow> idx (Payload pkt) 2;
       let s = p2 AND 0x80;
       let e = p2 AND 0x40;
       (u, st) \<leftarrow>
         (if s > 0 then do {
            (u, st) \<leftarrow> (if length (u265_frameBuffer u) > 4 then u265_deliver (u265_timestamp u) True (u, st)
              else Some (u, st));
            Some (u\<lparr>u265_timestamp := Timestamp (Header pkt),
              u265_frameBuffer := u265_frameBuffer u @ [p0 AND 0x81 OR push_bit 1 (p2 AND 0x3F), p1],
              u265_lost := False\<rparr>, st)
          }
          else Some (if u265_lastSequence u + 1 \<noteq> SequenceNumber (Header pkt) then u\<lparr>u265_lost := True\<rparr> else u, st));
       data \<leftarrow> slice_from (Payload pkt) 3;
       let u = u\<lparr>u265_lastSequence := SequenceNumber (Header pkt), u265_frameBuffer := u265_frameBuffer u @ data\<rparr>;
       (u, st) \<leftarrow> (if e > 0 then u265_deliver (u265_timestamp u) (u265_lost u) (u, st) else Some (u, st));
       Some (None, u, st)
     })"

definition h265_UnPack :: "bytes \<Rightarrow> 's H265UnPacker \<times> 's
    \<Rightarrow> (rtp_error option \<times> 's H265UnPacker \<times> 's) option" where
  "h265_UnPack data = (\<lambda>(u, st). do {
     r \<leftarrow> pkt_Decode data zero_pkt;
     (case r of
        Inl e \<Rightarrow> Some (Some e, u, st)
      | Inr pkg \<Rightarrow>
          if Payload pkg = [] then Some (None, u, st)
          else do {
            let (pkg, st) = run_hook (un_onRtp (u265_comm u)) pkg st;
            p0 \<leftarrow> idx (Payload pkg) 0;
            let packType = drop_bit 1 p0 AND 0x3F;
            if packType < 40 then
              if glen (Payload pkg) < 2 then Some (Some ErrTooShort, u, st)
              else do {
                (u, st) \<leftarrow> u265_deliver (Timestamp (Header pkg)) False
                  (u\<lparr>u265_frameBuffer := u265_frameBuffer u @ Payload pkg\<rparr>, st);
                Some (None, u, st)
              }
            else if packType = 49 then h265_unpackFu pkg (u, st)
            else Some (Some ErrUnsupported, u, st)
          })
   })"

section \<open>The packets of a frame\<close>

definition h265_single :: "int \<Rightarrow> bytes \<Rightarrow> bool" where
  "h265_single m n \<longleftrightarrow> glen n + RTP_FIX_HEAD_LEN \<le> m"

definition h265_frag :: "byte \<times> byte \<Rightarrow> bool \<Rightarrow> bool \<Rightarrow> bytes \<Rightarrow> bytes" where
  "h265_frag n s e d = [fst n AND 0x81 OR push_bit 1 0x31, snd n,
     (drop_bit 1 (fst n) AND 0x3F) OR (if s then 0x80 else 0) OR (if e then 0x40 else 0)] @ d"

definition unit_header :: "bytes \<Rightarrow> byte \<times> byte" where
  "unit_header n = (hd n, hd (tl n))"

abbreviation h265_payloads :: "int \<Rightarrow> bytes \<Rightarrow> bytes list" where
  "h265_payloads m \<equiv> unit_payloads (nat (m - 15)) (h265_single m) unit_header (drop 2) h265_frag"

definition h265_after :: "nat \<Rightarrow> ('e, 's) H265Packer \<Rightarrow> ('e, 's) H265Packer" where
  "h265_after k h265 = h265\<lparr>h265_sequence := h265_sequence h265 + word_of_nat k\<rparr>"

lemma h265_after_sel [simp]:
  "h265_comm (h265_after k h) = h265_comm h" "h265_pt (h265_after k h) = h265_pt h"
  "h265_ssrc (h265_after k h) = h265_ssrc h" "h265_sequence (h265_after k h) = h265_sequence h + word_of_nat k"
  "h265_after a (h265_after b h) = h265_after (b + a) h" "h265_after 0 h = h"
  by (simp_all add: h265_after_def add.assoc)

definition h265_sends :: "(bytes \<Rightarrow> 's \<Rightarrow> 's) \<Rightarrow> u32 \<Rightarrow> bool \<Rightarrow> bytes list \<Rightarrow> ('e, 's) H265Packer \<Rightarrow> 's
    \<Rightarrow> ('e, 's) packed265" where
  "h265_sends g ts m ps h st = Some (None, h265_after (length ps) h,
     fold g (rtp_packets (h265_pt h) (h265_ssrc h) ts m (h265_sequence h) ps) st)"

lemma h265_fu_loop_sends:
  "sink g (h265_comm h) \<Longrightarrow> mtu (h265_comm h) = int k + 15 \<Longrightarrow> 0 < k \<Longrightarrow> nalu \<noteq> [] \<Longrightarrow>
     h265_fu_loop (n0 AND 0x81 OR push_bit 1 0x31) n1 (drop_bit 1 n0 AND 0x3F) s nalu ts lst h st =
       h265_sends g ts lst (frags (h265_frag (n0, n1)) s (pieces k nalu)) h st"
proof (induction k nalu arbitrary: s h st rule: pieces.induct)
  case (1 k nalu)
  let ?hb = "n0 AND 0x81 OR push_bit 1 0x31" and ?fu = "drop_bit 1 n0 AND 0x3F"
  note sk = "1.prems"(1) and m = "1.prems"(2) and k = "1.prems"(3) and ne = "1.prems"(4)
  have snd: "send (h265_comm h) (h265_pkt h ts mk p) st = Some (None, g (plain_data (h265_pkt h ts mk p)) st)" for mk p
    unfolding h265_pkt_def by (rule send_sink [OF sk])
  let ?h = "h\<lparr>h265_sequence := h265_sequence h + 1\<rparr>"
  show ?case
  proof (cases "length nalu \<le> k")
    case True
    then have e: "(glen nalu + 12 + 3 \<le> mtu (h265_comm h)) = True" "\<not> glen nalu \<le> 0" using m ne by simp_all
    have sl: "slice_to nalu (glen nalu) = Some nalu" "slice_from nalu (glen nalu) = Some []" by simp_all
    have "h265_fu_loop ?hb n1 ?fu s nalu ts lst h st =
        h265_fu_loop ?hb n1 ?fu False [] ts lst ?h (g (plain_data (h265_pkt h ts (True \<and> lst)
          ([?hb, n1, ?fu OR (if s then 0x80 else 0) OR (if True then 0x40 else 0)] @ nalu))) st)"
      by (subst h265_fu_loop.simps)
        (simp only: Let_def ne e sl snd if_True if_False Option.bind.simps prod.case option.case)
    then show ?thesis
      using True
      by (simp add: h265_fu_loop.simps [of _ _ _ _ "[]"] pieces.simps [of k nalu] h265_sends_def h265_frag_def
          h265_pkt_def h265_after_def)
  next
    case False
    then have e: "(glen nalu + 12 + 3 \<le> mtu (h265_comm h)) = False" "mtu (h265_comm h) - 12 - 3 = int k" "\<not> int k \<le> 0"
      using m k by simp_all
    have sl: "slice_to nalu (int k) = Some (take k nalu)" "slice_from nalu (int k) = Some (drop k nalu)"
      by (rule slice_to_int slice_from_int, use False in simp)+
    let ?pkt = "h265_pkt h ts (False \<and> lst)
      ([?hb, n1, ?fu OR (if s then 0x80 else 0) OR (if False then 0x40 else 0)] @ take k nalu)"
    have ps: "pieces k nalu = take k nalu # pieces k (drop k nalu)"
      using False k by (simp add: pieces.simps [of k nalu])
    have "h265_fu_loop ?hb n1 ?fu s nalu ts lst h st =
        h265_fu_loop ?hb n1 ?fu False (drop k nalu) ts lst ?h (g (plain_data ?pkt) st)"
      by (subst h265_fu_loop.simps)
        (simp only: Let_def ne e sl snd if_True if_False Option.bind.simps prod.case option.case)
    also have "\<dots> = h265_sends g ts lst (frags (h265_frag (n0, n1)) False (pieces k (drop k nalu))) ?h (g (plain_data ?pkt) st)"
      by (rule "1.IH") (use False k sk m in simp_all)
    also have "\<dots> = h265_sends g ts lst (frags (h265_frag (n0, n1)) s (pieces k nalu)) h st"
    proof -
      let ?fs = "frags (h265_frag (n0, n1)) False (pieces k (drop k nalu))"
      have "frags (h265_frag (n0, n1)) s (pieces k nalu) =
          ([?hb, n1, ?fu OR (if s then 0x80 else 0) OR (if False then 0x40 else 0)] @ take k nalu) # ?fs"
        unfolding ps frags_Cons [OF pieces_nonempty] by (simp add: h265_frag_def)
      moreover have "?fs \<noteq> []" by (simp add: frags_nonempty)
      ultimately show ?thesis by (simp add: h265_sends_def h265_pkt_def h265_after_def add.assoc)
    qed
    finally show ?thesis .
  qed
qed

lemma h265_unit_sends:
  assumes "sink g (h265_comm h)" and "15 < mtu (h265_comm h)"
  shows "(if glen n + 12 \<le> mtu (h265_comm h) then h265_packSingleNalu n ts lst h st
      else h265_packFu n ts lst h st) = h265_sends g ts lst (h265_payloads (mtu (h265_comm h)) n) h st"
proof (cases "glen n + 12 \<le> mtu (h265_comm h)")
  case True
  then show ?thesis
    using assms by (simp add: h265_packSingleNalu_def h265_pkt_def send_sink unit_payloads_def h265_single_def
        h265_sends_def h265_after_def)
next
  case False
  then have "4 < length n" using assms by linarith
  then obtain a b c r where n: "n = a # b # c # r"
    by (cases n; cases "tl n"; cases "tl (tl n)") auto
  have "idx n 0 = Some a" "idx n 1 = Some b" "slice_from n 2 = Some (c # r)" "\<not> glen n < 3"
    by (simp_all add: n idx_def slice_from_def)
  then have "h265_packFu n ts lst h st = h265_fu_loop (a AND 0x81 OR push_bit 1 0x31) b (drop_bit 1 a AND 0x3F)
      True (c # r) ts lst h st"
    using assms(2) by (simp only: h265_packFu_def Option.bind.simps if_False not_less [symmetric]) simp
  also have "\<dots> = h265_sends g ts lst (frags (h265_frag (a, b)) True (pieces (nat (mtu (h265_comm h) - 15)) (c # r))) h st"
    by (rule h265_fu_loop_sends [OF assms(1)]) (use assms(2) in simp_all)
  finally show ?thesis using False by (simp add: unit_payloads_def h265_single_def n unit_header_def)
qed

lemma h265_emit_units:
  "sink g (h265_comm h) \<Longrightarrow> 15 < mtu (h265_comm h) \<Longrightarrow>
     h265_emit ns ts h st =
       h265_sends g ts True (concat (map (h265_payloads (mtu (h265_comm h))) ns)) h st"
proof (induction ns arbitrary: h st)
  case Nil
  then show ?case by (simp add: h265_sends_def)
next
  case (Cons n ns)
  let ?m = "mtu (h265_comm h)"
  have "h265_emit (n # ns) ts h st =
      (case h265_sends g ts (ns = []) (h265_payloads ?m n) h st of
         Some (None, h', st') \<Rightarrow> h265_emit ns ts h' st' | r \<Rightarrow> r)"
    using h265_unit_sends [OF Cons.prems(1,2), of n ts "ns = []" st] by (simp add: h265_sends_def)
  also have "\<dots> = h265_sends g ts True (concat (map (h265_payloads ?m) (n # ns))) h st"
  proof (cases "ns = []")
    case False
    let ?h = "h265_after (length (h265_payloads ?m n)) h"
    have "concat (map (h265_payloads ?m) ns) \<noteq> []"
      using False by (cases ns) (simp_all add: unit_payloads_nonempty)
    moreover have "h265_emit ns ts ?h st' =
        h265_sends g ts True (concat (map (h265_payloads ?m) ns)) ?h st'" for st'
      using Cons.IH [of ?h st'] Cons.prems by simp
    ultimately show ?thesis
      using False by (simp add: h265_sends_def rtp_packets_append)
  qed (simp add: h265_sends_def)
  finally show ?case .
qed

lemma deliver_h265_keep_units: "list_all (\<lambda>n. n \<noteq> []) ns \<Longrightarrow> deliver h265_keep_units ns acc = acc @ ns"
  by (induction ns arbitrary: acc) (simp_all add: h265_keep_units_def)

lemma h265_Pack_units:
  assumes "sink g (h265_comm h)" and "15 < mtu (h265_comm h)"
    and "us \<noteq> []" and "list_all (\<lambda>u. nal_clean (snd u)) us"
  shows "h265_Pack (framed us) ts h st =
    h265_sends g ts True (concat (map (h265_payloads (mtu (h265_comm h))) (map snd us))) h st"
proof -
  have "list_all (\<lambda>n. n \<noteq> []) (map snd us)" using assms(4) by (auto simp: list_all_iff nal_clean_def)
  then have "SplitFrame (framed us) (Some h265_keep_units) [] = Some (map snd us)"
    using split_framed(1) [OF assms(3,4), of h265_keep_units "[]"] deliver_h265_keep_units [of "map snd us" "[]"]
    by simp
  then show ?thesis
    by (simp only: h265_Pack_def Option.bind.simps h265_emit_units [OF assms(1,2)])
qed

section \<open>The unpacker delivers units\<close>

definition u265_ok :: "'s on_frame \<Rightarrow> 's H265UnPacker \<Rightarrow> bool" where
  "u265_ok f u \<longleftrightarrow> u265_comm u = \<lparr>onFrame = Some f, un_onRtp = None\<rparr>"

definition u265_at_rest :: "'s on_frame \<Rightarrow> 's H265UnPacker \<Rightarrow> bool" where
  "u265_at_rest f u \<longleftrightarrow> u265_ok f u \<and> u265_frameBuffer u = [0, 0, 0, 1]"

definition u265_holding :: "'s on_frame \<Rightarrow> 's H265UnPacker \<Rightarrow> bytes \<Rightarrow> u32 \<Rightarrow> u16 \<Rightarrow> bool" where
  "u265_holding f u b ts seq \<longleftrightarrow> u265_ok f u \<and> u265_frameBuffer u = [0, 0, 0, 1] @ b \<and>
     u265_timestamp u = ts \<and> u265_lastSequence u = seq \<and> \<not> u265_lost u"

definition h265_unit_ok :: "bytes \<Rightarrow> bool" where
  "h265_unit_ok n \<longleftrightarrow> 2 \<le> length n \<and> drop_bit 1 (hd n) AND 0x3F < 40"

lemma u265_deliver_ok: "u265_ok f u \<Longrightarrow> u265_frameBuffer u = [0, 0, 0, 1] @ b \<Longrightarrow>
    u265_deliver ts lost (u, st) = Some (u\<lparr>u265_frameBuffer := [0, 0, 0, 1]\<rparr>, f ([0, 0, 0, 1] @ b) ts lost st)"
  by (simp add: u265_deliver_def u265_ok_def give_frame_def slice_to_def)

lemma h265_UnPack_pkt:
  assumes "u265_ok f u" and "plain_ok pt" and "2 \<le> length p"
  shows "h265_UnPack (plain_data (new_pkt pt ssrc seq ts m p)) (u, st) =
    (let pkg = received_pkt (new_pkt pt ssrc seq ts m p); packType = drop_bit 1 (hd p) AND 0x3F in
       if packType < 40 then
         map_option (\<lambda>(u, st). (None, u, st))
           (u265_deliver ts False (u\<lparr>u265_frameBuffer := u265_frameBuffer u @ p\<rparr>, st))
       else if packType = 49 then h265_unpackFu pkg (u, st)
       else Some (Some ErrUnsupported, u, st))"
proof -
  obtain b c r where p: "p = b # c # r" using assms(3) by (cases p; cases "tl p") auto
  show ?thesis
    using assms(1)
    by (simp add: h265_UnPack_def new_pkt_Decode [OF assms(2)] p run_hook_def u265_ok_def
        idx_def Let_def map_conv_bind_option o_def case_prod_unfold)
qed

lemma h265_frag_bits:
  "drop_bit 1 (n0 AND 0x81 OR push_bit 1 0x31) AND 0x3F = (0x31 :: byte)"
  "((drop_bit 1 n0 AND 0x3F) OR (if s then 0x80 else 0) OR (if e then 0x40 else 0)) AND 0x80 = (if s then 0x80 else 0 :: byte)"
  "((drop_bit 1 n0 AND 0x3F) OR (if s then 0x80 else 0) OR (if e then 0x40 else 0)) AND 0x40 = (if e then 0x40 else 0 :: byte)"
  "(n0 AND 0x81 OR push_bit 1 0x31) AND 0x81 OR
     push_bit 1 (((drop_bit 1 n0 AND 0x3F) OR (if s then 0x80 else 0) OR (if e then 0x40 else 0)) AND 0x3F) = n0" for n0 :: byte
  by (cases s; cases e; rule byte_eqI; simp add: bit_or_iff bit_and_iff bit_push_bit_iff bit_drop_bit_eq bit_word_double
        numeral_2_eq_2 [symmetric])+

lemma h265_unpackFu_first:
  "u265_at_rest f u \<Longrightarrow> Payload pkg = h265_frag n True False d \<Longrightarrow>
     h265_unpackFu pkg (u, st) = Some (None, u\<lparr>u265_timestamp := Timestamp (Header pkg),
       u265_frameBuffer := [0, 0, 0, 1] @ fst n # snd n # d, u265_lost := False,
       u265_lastSequence := SequenceNumber (Header pkg)\<rparr>, st)"
  using h265_frag_bits(2-4) [of "fst n" True False]
  by (simp add: h265_unpackFu_def h265_frag_def idx_def slice_from_def u265_at_rest_def Let_def)

lemma h265_unpackFu_next:
  "u265_holding f u b ts (SequenceNumber (Header pkg) - 1) \<Longrightarrow> Payload pkg = h265_frag n False False d \<Longrightarrow>
     h265_unpackFu pkg (u, st) = Some (None, u\<lparr>u265_frameBuffer := [0, 0, 0, 1] @ b @ d,
       u265_lastSequence := SequenceNumber (Header pkg)\<rparr>, st)"
  using h265_frag_bits(2-4) [of "fst n" False False]
  by (simp add: h265_unpackFu_def h265_frag_def idx_def slice_from_def u265_holding_def Let_def)

lemma h265_unpackFu_last:
  "u265_holding f u b ts (SequenceNumber (Header pkg) - 1) \<Longrightarrow> Payload pkg = h265_frag n False True d \<Longrightarrow>
     h265_unpackFu pkg (u, st) = Some (None, u\<lparr>u265_frameBuffer := [0, 0, 0, 1],
       u265_lastSequence := SequenceNumber (Header pkg)\<rparr>, f ([0, 0, 0, 1] @ b @ d) ts False st)"
  using h265_frag_bits(2-4) [of "fst n" False True]
  by (simp add: h265_unpackFu_def h265_frag_def idx_def slice_from_def u265_holding_def u265_ok_def Let_def
      u265_deliver_def give_frame_def slice_to_def)

interpretation h265_fu: fu_receiver h265_UnPack "Suc k" "pt AND 0x7F" ssrc "h265_single (int k + 16)" unit_header
  "drop 2" h265_frag h265_unit_ok "u265_at_rest f" "u265_holding f"
  "\<lambda>n ts lost. f ([0, 0, 0, 1] @ n) ts lost" for k :: nat and pt :: byte and ssrc :: u32 and f :: "'s on_frame"
proof unfold_locales
  have pt: "plain_ok (pt AND 0x7F)"
    unfolding plain_ok_def fits_def by (rule byte_eqI) (simp_all add: bit_drop_bit_eq bit_and_iff)
  have fu: "h265_UnPack (plain_data (new_pkt (pt AND 0x7F) ssrc seq ts m (h265_frag n s e d))) (u, st) =
      h265_unpackFu (received_pkt (new_pkt (pt AND 0x7F) ssrc seq ts m (h265_frag n s e d))) (u, st)"
    if "u265_ok f u" for seq ts m n s e d u st
    using h265_UnPack_pkt [OF that pt, of "h265_frag n s e d"] h265_frag_bits(1) [of "fst n"]
    by (simp add: h265_frag_def Let_def)
  show "0 < Suc k" by simp
  show "Suc k < length (drop 2 n)" if "h265_unit_ok n" "\<not> h265_single (int k + 16) n" for n
    using that by (simp add: h265_single_def)
  show "\<exists>u'. h265_UnPack (plain_data (new_pkt (pt AND 0x7F) ssrc seq ts m n)) (u, st) =
      Some (None, u', f ([0, 0, 0, 1] @ n) ts False st) \<and> u265_at_rest f u'"
    if "u265_at_rest f u" "h265_unit_ok n" for u n seq ts m st
  proof -
    have u: "u265_ok f u" "u265_frameBuffer u = [0, 0, 0, 1]" using that(1) by (simp_all add: u265_at_rest_def)
    have "u265_ok f (u\<lparr>u265_frameBuffer := b\<rparr>)" for b using u(1) by (simp add: u265_ok_def)
    then show ?thesis
      using h265_UnPack_pkt [OF u(1) pt, of n] u that(2)
        u265_deliver_ok [of f "u\<lparr>u265_frameBuffer := [0, 0, 0, 1] @ n\<rparr>" n]
      by (simp add: h265_unit_ok_def Let_def u265_at_rest_def u265_ok_def)
  qed
  show "\<exists>u' h. h265_UnPack (plain_data (new_pkt (pt AND 0x7F) ssrc seq ts m (h265_frag (unit_header n) True False d))) (u, st) =
        Some (None, u', st) \<and> n = h @ drop 2 n \<and> u265_holding f u' (h @ d) ts seq"
    if "u265_at_rest f u" "h265_unit_ok n" for u n seq ts m d st
  proof (intro exI conjI)
    have "2 \<le> length n" using that(2) by (simp add: h265_unit_ok_def)
    then obtain a b r where n: "n = a # b # r" by (cases n; cases "tl n") auto
    then show "n = [fst (unit_header n), snd (unit_header n)] @ drop 2 n" by (simp add: unit_header_def)
    have ok: "u265_ok f u" using that(1) by (simp add: u265_at_rest_def)
    let ?u = "u\<lparr>u265_timestamp := ts, u265_frameBuffer := [0, 0, 0, 1] @ fst (unit_header n) # snd (unit_header n) # d,
      u265_lost := False, u265_lastSequence := seq\<rparr>"
    show "h265_UnPack (plain_data (new_pkt (pt AND 0x7F) ssrc seq ts m (h265_frag (unit_header n) True False d))) (u, st) =
        Some (None, ?u, st)"
      unfolding fu [OF ok] by (subst h265_unpackFu_first [OF that(1)]) simp_all
    show "u265_holding f ?u ([fst (unit_header n), snd (unit_header n)] @ d) ts seq"
      using ok by (simp add: u265_holding_def u265_ok_def)
  qed
  show "\<exists>u'. h265_UnPack (plain_data (new_pkt (pt AND 0x7F) ssrc (seq + 1) ts m (h265_frag (unit_header n) False False d))) (u, st) =
        Some (None, u', st) \<and> u265_holding f u' (b @ d) ts (seq + 1)"
    if "u265_holding f u b ts seq" "h265_unit_ok n" for u n b seq ts m d st
  proof (intro exI conjI)
    have ok: "u265_ok f u" using that(1) by (simp add: u265_holding_def)
    show "h265_UnPack (plain_data (new_pkt (pt AND 0x7F) ssrc (seq + 1) ts m (h265_frag (unit_header n) False False d))) (u, st) =
        Some (None, u\<lparr>u265_frameBuffer := [0, 0, 0, 1] @ b @ d, u265_lastSequence := seq + 1\<rparr>, st)"
      unfolding fu [OF ok] by (subst h265_unpackFu_next) (use that(1) in simp_all)
    show "u265_holding f (u\<lparr>u265_frameBuffer := [0, 0, 0, 1] @ b @ d, u265_lastSequence := seq + 1\<rparr>) (b @ d) ts (seq + 1)"
      using that(1) by (simp add: u265_holding_def u265_ok_def)
  qed
  show "\<exists>u'. h265_UnPack (plain_data (new_pkt (pt AND 0x7F) ssrc (seq + 1) ts m (h265_frag (unit_header n) False True d))) (u, st) =
        Some (None, u', f ([0, 0, 0, 1] @ b @ d) ts False st) \<and> u265_at_rest f u'"
    if "u265_holding f u b ts seq" "h265_unit_ok n" for u n b seq ts m d st
  proof (intro exI conjI)
    have ok: "u265_ok f u" using that(1) by (simp add: u265_holding_def)
    show "h265_UnPack (plain_data (new_pkt (pt AND 0x7F) ssrc (seq + 1) ts m (h265_frag (unit_header n) False True d))) (u, st) =
        Some (None, u\<lparr>u265_frameBuffer := [0, 0, 0, 1], u265_lastSequence := seq + 1\<rparr>, f ([0, 0, 0, 1] @ b @ d) ts False st)"
      unfolding fu [OF ok] by (subst h265_unpackFu_last) (use that(1) in simp_all)
    show "u265_at_rest f (u\<lparr>u265_frameBuffer := [0, 0, 0, 1], u265_lastSequence := seq + 1\<rparr>)"
      using ok by (simp add: u265_at_rest_def u265_ok_def)
  qed
qed

section \<open>A frame arrives\<close>

lemma h265_payloads_bound:
  assumes "15 < m" and "x \<in> set (h265_payloads m n)" shows "glen x \<le> m - 12"
proof (cases "h265_single m n")
  case True
  then show ?thesis using assms(2) by (simp add: unit_payloads_def h265_single_def)
next
  case False
  then have "x \<in> set (frags (h265_frag (unit_header n)) True (pieces (nat (m - 15)) (drop 2 n)))"
    using assms(2) by (simp add: unit_payloads_def)
  then obtain a b p where "p \<in> set (pieces (nat (m - 15)) (drop 2 n))" "x = h265_frag (unit_header n) a b p"
    by (blast dest: set_frags)
  moreover from this have "length p \<le> nat (m - 15)" using pieces_bound [of "nat (m - 15)"] assms(1) by auto
  ultimately show ?thesis using assms(1) by (simp add: h265_frag_def)
qed

lemma h265_frame_received:
  assumes "onRtp (h265_comm pack) = None" and "onPacket (h265_comm pack) = Some (\<lambda>d ds. (None, ds @ [d]))"
    and "15 < mtu (h265_comm pack)" and "plain_ok (h265_pt pack)"
    and "us \<noteq> []" and "list_all (\<lambda>u. nal_clean (snd u) \<and> h265_unit_ok (snd u)) us" and "u265_at_rest f u"
  shows "\<exists>pack' pkts u'. h265_Pack (framed us) ts pack [] = Some (None, pack', pkts) \<and>
    list_all (\<lambda>d. glen d \<le> mtu (h265_comm pack)) pkts \<and>
    unpack_all h265_UnPack pkts (u, st) =
      Some (None, u', fold (\<lambda>n st. f ([0, 0, 0, 1] @ n) ts False st) (map snd us) st) \<and> u265_at_rest f u'"
proof -
  let ?m = "mtu (h265_comm pack)"
  let ?ps = "concat (map (h265_payloads ?m) (map snd us))"
  let ?pkts = "rtp_packets (h265_pt pack) (h265_ssrc pack) ts True (h265_sequence pack) ?ps"
  have sk: "sink (\<lambda>d ds. ds @ [d]) (h265_comm pack)" using assms(1,2) by (simp add: sink_def)
  have us: "list_all (\<lambda>u. nal_clean (snd u)) us" "list_all h265_unit_ok (map snd us)"
    using assms(6) by (simp_all add: list_all_iff)
  have pack: "\<exists>pack'. h265_Pack (framed us) ts pack [] = Some (None, pack', ?pkts)"
    using h265_Pack_units [OF sk assms(3,5) us(1)] by (simp add: h265_sends_def fold_snoc)
  have "list_all (\<lambda>p. length p \<le> nat (?m - 12)) ?ps"
    by (auto simp: list_all_iff dest!: h265_payloads_bound [OF assms(3)])
  then have "list_all (\<lambda>d. length d \<le> 12 + nat (?m - 12)) ?pkts" by (rule rtp_packets_bound)
  then have bound: "list_all (\<lambda>d. glen d \<le> ?m) ?pkts" using assms(3) by (auto simp: list_all_iff nat_le_iff)
  have m: "?m = int (nat (?m - 16)) + 16" "nat (?m - 15) = Suc (nat (?m - 16))" using assms(3) by simp_all
  have pt: "h265_pt pack AND 0x7F = h265_pt pack" by (rule plain_ok_and [OF assms(4)])
  have "\<exists>u'. unpack_all h265_UnPack ?pkts (u, st) =
      Some (None, u', fold (\<lambda>n st. f ([0, 0, 0, 1] @ n) ts False st) (map snd us) st) \<and> u265_at_rest f u'"
    using h265_fu.frame_delivered [OF assms(7) us(2), of "h265_pt pack" "h265_ssrc pack" ts True "h265_sequence pack"
        "nat (?m - 16)" st]
    unfolding pt m(1) [symmetric] m(2) [symmetric] by blast
  then show ?thesis using pack bound by blast
qed

section \<open>Properties\<close>


definition sample_h265_packer :: "(unit, bytes list) H265Packer" where
  "sample_h265_packer = (NewH265Packer 97 7 65535 18)\<lparr>h265_comm :=
     OnPacket (Some (\<lambda>d ds. (None, ds @ [d]))) (h265_comm (NewH265Packer 97 7 65535 18))\<rparr>"

definition sample_h265_unpacker :: "(bytes \<times> u32 \<times> bool) list H265UnPacker" where
  "sample_h265_unpacker = NewH265UnPacker\<lparr>u265_comm :=
     OnFrame (Some (\<lambda>d ts lost st. st @ [(d, ts, lost)])) (u265_comm NewH265UnPacker)\<rparr>"


end
