(* ===== verification/RtpMedia.thy ===== *)
theory RtpMedia
  imports RtpFu Aac BitStream
begin

text \<open>
  The payload formats without fragments, \<open>go-rtsp/rtp/rtp-aac.go\<close>, \<open>rtp-g711.go\<close> and
  \<open>rtp-ts.go\<close>.

  The lemmas: an AAC frame below 8192 bytes and a G.711 frame that fit the MTU come back; a TS
  buffer is cut to the MTU and comes back when the timestamp changes.
\<close>

unbundle bit_operations_syntax

section \<open>G.711\<close>

record ('e, 's) G711Packer =
  g711_comm :: "('e, 's) CommPacker"
  g711_pt :: byte
  g711_ssrc :: u32
  g711_sequence :: u16

definition NewG711Packer :: "byte \<Rightarrow> u32 \<Rightarrow> u16 \<Rightarrow> int \<Rightarrow> ('e, 's) G711Packer" where
  "NewG711Packer pt ssrc sequence m = \<lparr>g711_comm = \<lparr>onPacket = None, onRtp = None, mtu = m\<rparr>,
     g711_pt = pt, g711_ssrc = ssrc, g711_sequence = sequence\<rparr>"

definition g711_Pack :: "bytes \<Rightarrow> u32 \<Rightarrow> ('e, 's) G711Packer \<Rightarrow> 's
    \<Rightarrow> ((rtp_error + 'e) option \<times> ('e, 's) G711Packer \<times> 's) option" where
  "g711_Pack data timestamp p st =
     (if glen data + RTP_FIX_HEAD_LEN > mtu (g711_comm p) then Some (Some (Inl ErrTooLarge), p, st)
      else do {
        (e, st) \<leftarrow> send (g711_comm p) (new_pkt (g711_pt p) (g711_ssrc p) (g711_sequence p) timestamp True data) st;
        Some (map_option Inr e, p\<lparr>g711_sequence := g711_sequence p + 1\<rparr>, st)
      })"

definition g711_UnPack :: "bytes \<Rightarrow> 's CommUnPacker \<times> 's \<Rightarrow> (rtp_error option \<times> 's CommUnPacker \<times> 's) option" where
  "g711_UnPack data = (\<lambda>(u, st). do {
     r \<leftarrow> pkt_Decode data zero_pkt;
     (case r of
        Inl e \<Rightarrow> Some (Some e, u, st)
      | Inr pkg \<Rightarrow> (let (pkg, st) = run_hook (un_onRtp u) pkg st in
          Some (None, u, give_frame u (Payload pkg) (Timestamp (Header pkg)) False st)))
   })"

section \<open>AAC\<close>

record ('e, 's) AACPacker =
  aac_comm :: "('e, 's) CommPacker"
  aac_pt :: byte
  aac_ssrc :: u32
  aac_sequence :: u16

definition NewAACPacker :: "byte \<Rightarrow> u32 \<Rightarrow> u16 \<Rightarrow> int \<Rightarrow> ('e, 's) AACPacker" where
  "NewAACPacker pt ssrc sequence m = \<lparr>aac_comm = \<lparr>onPacket = None, onRtp = None, mtu = m\<rparr>,
     aac_pt = pt, aac_ssrc = ssrc, aac_sequence = sequence\<rparr>"

text \<open>The AU header section: 16 bits, a size of 13 and an index of 3.\<close>

definition aac_payload :: "bytes \<Rightarrow> bytes" where
  "aac_payload data = (let size = (word_of_nat (length data) :: u16) in
     be16 16 @ [ucast (drop_bit 5 size), ucast (push_bit 3 (size AND 0x1F))] @ data)"

definition aac_Pack :: "bytes \<Rightarrow> u32 \<Rightarrow> ('e, 's) AACPacker \<Rightarrow> 's
    \<Rightarrow> ((rtp_error + 'e) option \<times> ('e, 's) AACPacker \<times> 's) option" where
  "aac_Pack data timestamp p st =
     (if glen data + 4 + RTP_FIX_HEAD_LEN > mtu (aac_comm p) then Some (Some (Inl ErrTooLarge), p, st)
      else do {
        (e, st) \<leftarrow> send (aac_comm p)
          (new_pkt (aac_pt p) (aac_ssrc p) (aac_sequence p) timestamp True (aac_payload data)) st;
        Some (map_option Inr e, p\<lparr>aac_sequence := aac_sequence p + 1\<rparr>, st)
      })"

record 's AACUnPacker =
  uaac_comm :: "'s CommUnPacker"
  sizeLenth :: int
  indexLength :: int
  uaac_asc :: bytes

definition NewAACUnPacker :: "int \<Rightarrow> int \<Rightarrow> bytes \<Rightarrow> 's AACUnPacker" where
  "NewAACUnPacker sizeLen indexLen asc = \<lparr>uaac_comm = \<lparr>onFrame = None, un_onRtp = None\<rparr>,
     sizeLenth = (if sizeLen \<le> 0 then 13 else sizeLen), indexLength = (if sizeLen \<le> 0 then 3 else indexLen),
     uaac_asc = asc\<rparr>"

fun au_sizes :: "nat \<Rightarrow> int \<Rightarrow> int \<Rightarrow> bitstream \<Rightarrow> int list option" where
  "au_sizes 0 sizeLen indexLen bs = Some []"
| "au_sizes (Suc n) sizeLen indexLen bs = do {
     (v, bs) \<leftarrow> Uint16 sizeLen bs;
     rest \<leftarrow> au_sizes n sizeLen indexLen (if indexLen > 0 then SkipBits indexLen bs else bs);
     Some (uint v # rest)
   }"

fun au_frames :: "int list \<Rightarrow> bytes \<Rightarrow> u32 \<Rightarrow> 's AACUnPacker \<Rightarrow> 's \<Rightarrow> (rtp_error option \<times> 's) option" where
  "au_frames [] payload ts u st = Some (None, st)"
| "au_frames (sz # szs) payload ts u st =
     (if sz > glen payload then Some (Some ErrTooShort, st)
      else do {
        adts \<leftarrow> (if uaac_asc u \<noteq> [] then
            map_option (map_sum id ADTS_Encode) (ConvertASCToADTS (uaac_asc u) (sz + 7))
          else Some (Inr []));
        (case adts of
           Inl e \<Rightarrow> Some (Some ErrAscInvalid, st)
         | Inr hdr \<Rightarrow> do {
             au \<leftarrow> slice_to payload sz;
             rest \<leftarrow> slice_from payload sz;
             au_frames szs rest ts u (give_frame (uaac_comm u) (hdr @ au) ts False st)
           })
      })"

definition aac_UnPack :: "bytes \<Rightarrow> 's AACUnPacker \<times> 's \<Rightarrow> (rtp_error option \<times> 's AACUnPacker \<times> 's) option" where
  "aac_UnPack data = (\<lambda>(u, st). do {
     r \<leftarrow> pkt_Decode data zero_pkt;
     (case r of
        Inl e \<Rightarrow> Some (Some e, u, st)
      | Inr pkg \<Rightarrow>
          if glen (Payload pkg) < 4 then Some (Some ErrTooShort, u, st)
          else do {
            let (pkg, st) = run_hook (un_onRtp (uaac_comm u)) pkg st;
            let auHeaderBits = sizeLenth u + indexLength u;
            if auHeaderBits \<le> 0 \<or> sizeLenth u \<le> 0 \<or> sizeLenth u > 16 then Some (Some ErrAuHeader, u, st)
            else do {
              bits \<leftarrow> get_be16 (Payload pkg);
              let headLength = (uint bits + 7) div 8;
              payload \<leftarrow> slice_from (Payload pkg) 2;
              if headLength > glen payload then Some (Some ErrAuHeader, u, st)
              else let auNum = uint bits div auHeaderBits in
                if auNum = 0 then Some (Some ErrAuHeader, u, st)
                else do {
                  headers \<leftarrow> slice_to payload headLength;
                  szs \<leftarrow> au_sizes (nat auNum) (sizeLenth u) (indexLength u) (NewBitStream headers);
                  rest \<leftarrow> slice_from payload headLength;
                  (e, st) \<leftarrow> au_frames szs rest (Timestamp (Header pkg)) u st;
                  Some (e, u, st)
                }
            }
          })
   })"

section \<open>MPEG-TS\<close>

record ('e, 's) TsPacker =
  ts_comm :: "('e, 's) CommPacker"
  ts_pt :: byte
  ts_ssrc :: u32
  ts_sequence :: u16

definition NewTsPacker :: "byte \<Rightarrow> u32 \<Rightarrow> u16 \<Rightarrow> int \<Rightarrow> ('e, 's) TsPacker" where
  "NewTsPacker pt ssrc sequence m = \<lparr>ts_comm = \<lparr>onPacket = None, onRtp = None, mtu = m\<rparr>,
     ts_pt = pt, ts_ssrc = ssrc, ts_sequence = sequence\<rparr>"

text \<open>The loop of \<open>Pack\<close>; the MTU was tested before it.\<close>

function ts_loop :: "bytes \<Rightarrow> u32 \<Rightarrow> ('e, 's) TsPacker \<Rightarrow> 's
    \<Rightarrow> ((rtp_error + 'e) option \<times> ('e, 's) TsPacker \<times> 's) option" where
  "ts_loop data timestamp p st =
     (if data = [] then Some (None, p, st)
      else
        let room = mtu (ts_comm p) - RTP_FIX_HEAD_LEN in
        if room \<le> 0 then None
        else do {
          (payload, data) \<leftarrow> (if glen data > room then do {
              a \<leftarrow> slice_to data room;
              b \<leftarrow> slice_from data room;
              Some (a, b)
            } else Some (data, []));
          (e, st) \<leftarrow> send (ts_comm p) (new_pkt (ts_pt p) (ts_ssrc p) (ts_sequence p) timestamp False payload) st;
          let p = p\<lparr>ts_sequence := ts_sequence p + 1\<rparr>;
          (case e of
             Some x \<Rightarrow> Some (Some (Inr x), p, st)
           | None \<Rightarrow> ts_loop data timestamp p st)
        })"
  by pat_completeness auto
termination
  by (relation "measure (\<lambda>(data, ts, p, st). length data)")
    (auto simp: slice_from_def Let_def Option.bind_eq_Some_conv intro!: diff_less split: if_splits)

declare ts_loop.simps [simp del]

definition ts_Pack :: "bytes \<Rightarrow> u32 \<Rightarrow> ('e, 's) TsPacker \<Rightarrow> 's
    \<Rightarrow> ((rtp_error + 'e) option \<times> ('e, 's) TsPacker \<times> 's) option" where
  "ts_Pack data timestamp p st =
     (if mtu (ts_comm p) \<le> RTP_FIX_HEAD_LEN then Some (Some (Inl ErrMtuTooSmall), p, st)
      else ts_loop data timestamp p st)"

record 's TsUnPacker =
  uts_comm :: "'s CommUnPacker"
  uts_timestamp :: int
  uts_lastSequence :: u16
  uts_lost :: bool
  uts_frameBuffer :: bytes

definition NewTsUnPacker :: "'s TsUnPacker" where
  "NewTsUnPacker = \<lparr>uts_comm = \<lparr>onFrame = None, un_onRtp = None\<rparr>, uts_timestamp = - 1,
     uts_lastSequence = 0, uts_lost = False, uts_frameBuffer = []\<rparr>"

definition ts_UnPack :: "bytes \<Rightarrow> 's TsUnPacker \<times> 's \<Rightarrow> (rtp_error option \<times> 's TsUnPacker \<times> 's) option" where
  "ts_UnPack data = (\<lambda>(u, st). do {
     r \<leftarrow> pkt_Decode data zero_pkt;
     (case r of
        Inl e \<Rightarrow> Some (Some e, u, st)
      | Inr pkg \<Rightarrow>
          (let (pkg, st) = run_hook (un_onRtp (uts_comm u)) pkg st;
               ts = uint (Timestamp (Header pkg));
               seq = SequenceNumber (Header pkg) in
           if uts_timestamp u = - 1 then
             Some (None, u\<lparr>uts_timestamp := ts, uts_lastSequence := seq, uts_lost := False,
               uts_frameBuffer := uts_frameBuffer u @ Payload pkg\<rparr>, st)
           else
             let u = (if uts_lastSequence u + 1 \<noteq> seq then u\<lparr>uts_lost := True\<rparr> else u);
                 (u, st) = (if uts_timestamp u \<noteq> ts then
                     (u\<lparr>uts_lost := (if uts_lastSequence u + 1 = seq then False else uts_lost u), uts_frameBuffer := []\<rparr>,
                      give_frame (uts_comm u) (uts_frameBuffer u) (word_of_int (uts_timestamp u)) (uts_lost u) st)
                   else (u, st))
             in Some (None, u\<lparr>uts_timestamp := ts, uts_lastSequence := seq,
                  uts_frameBuffer := uts_frameBuffer u @ Payload pkg\<rparr>, st)))
   })"


section \<open>G.711 and AAC frames are received\<close>

text \<open>A packer that collects its packets, and an unpacker with a frame callback.\<close>

definition collects :: "('e, bytes list) CommPacker \<Rightarrow> bool" where
  "collects comm \<longleftrightarrow> sink (\<lambda>d ds. ds @ [d]) comm"

definition receives :: "'s on_frame \<Rightarrow> 's CommUnPacker \<Rightarrow> bool" where
  "receives f un \<longleftrightarrow> onFrame un = Some f \<and> un_onRtp un = None"

lemma receives_simps:
  "receives f un \<Longrightarrow> give_frame un d ts l st = f d ts l st" "receives f un \<Longrightarrow> run_hook (un_onRtp un) pkg st = (pkg, st)"
  by (simp_all add: receives_def give_frame_def run_hook_def)

lemma send_collects: "collects comm \<Longrightarrow>
   send comm (new_pkt pt ssrc seq ts m p) ds = Some (None, ds @ [plain_data (new_pkt pt ssrc seq ts m p)])"
  unfolding collects_def by (rule send_sink)

lemma g711_frame_received:
  assumes "collects (g711_comm p)" and "plain_ok (g711_pt p)" and "glen data + 12 \<le> mtu (g711_comm p)"
    and "receives f (fst ust)"
  shows "\<exists>pkt. g711_Pack data ts p [] = Some (None, p\<lparr>g711_sequence := g711_sequence p + 1\<rparr>, [pkt]) \<and>
    glen pkt \<le> mtu (g711_comm p) \<and>
    g711_UnPack pkt ust = Some (None, fst ust, f data ts False (snd ust))"
proof -
  let ?pkt = "plain_data (new_pkt (g711_pt p) (g711_ssrc p) (g711_sequence p) ts True data)"
  have "g711_Pack data ts p [] = Some (None, p\<lparr>g711_sequence := g711_sequence p + 1\<rparr>, [?pkt])"
    using assms(1,3) by (simp add: g711_Pack_def send_collects)
  moreover have "glen ?pkt \<le> mtu (g711_comm p)" using assms(3) by (simp add: length_plain_data)
  moreover have "g711_UnPack ?pkt ust = Some (None, fst ust, f data ts False (snd ust))"
    using new_pkt_Decode [OF assms(2)] assms(4) by (cases ust) (simp add: g711_UnPack_def receives_simps)
  ultimately show ?thesis by blast
qed

lemma g711_too_large: "glen data + 12 > mtu (g711_comm p) \<Longrightarrow>
    g711_Pack data ts p st = Some (Some (Inl ErrTooLarge), p, st)"
  by (simp add: g711_Pack_def)

text \<open>The two bytes of the AU header are the size shifted over the index.\<close>

lemma au_header_be16:
  "[ucast (drop_bit 5 w), ucast (push_bit 3 (w AND 0x1F))] = be16 (push_bit 3 (w :: u16))"
  by (auto simp: be16_def intro!: byte_eqI
      simp: bit_ucast_iff bit_drop_bit_eq bit_push_bit_iff bit_and_iff)

lemma bits_of_be16: "bits_of_bytes (be16 w) = bits_msb 16 w"
proof (rule nth_equalityI)
  fix i assume "i < length (bits_of_bytes (be16 w))"
  then have i: "i < 16" by simp
  show "bits_of_bytes (be16 w) ! i = bits_msb 16 w ! i"
    using i by (cases "i < 8")
      (auto simp: be16_def bits_of_bytes_Cons nth_append bit_ucast_iff bit_drop_bit_eq)
qed simp

lemma au_size_read:
  assumes "n < 8192"
  shows "au_sizes (Suc 0) 13 3 (NewBitStream (be16 (push_bit 3 (word_of_nat n)))) = Some [int n]"
proof -
  let ?w = "push_bit 3 (word_of_nat n) :: u16"
  have r: "ready (NewBitStream (be16 ?w))" by (simp add: ready_def bs_ok_def pos_def NewBitStream_def)
  have "take 13 (bits_msb 16 ?w) = bits_msb 13 (word_of_nat n :: u16)"
    by (rule nth_equalityI) (auto simp: bit_push_bit_iff)
  then have "GetBits 13 (NewBitStream (be16 ?w)) =
      Some (of_msb (bits_msb 13 (word_of_nat n :: u16)), advance 13 (NewBitStream (be16 ?w)))"
    using GetBits_ready [OF r, of 13] by (simp add: bits_of_be16)
  moreover have "(ucast (of_msb (bits_msb 13 (word_of_nat n :: u16)) :: u64) :: u16) = word_of_nat n"
  proof (rule bit_word_eqI)
    fix i assume i: "i < LENGTH(16)"
    have "\<not> bit (word_of_nat n :: u16) i" if "13 \<le> i"
    proof -
      have "fits 13 (word_of_nat n :: u16)" using assms by (intro less_fits) (simp add: unat_of_nat take_bit_nat_eq_self)
      then show ?thesis using that by (rule fits_bit)
    qed
    then show "bit (ucast (of_msb (bits_msb 13 (word_of_nat n :: u16)) :: u64) :: u16) i = bit (word_of_nat n :: u16) i"
      using i by (cases "13 \<le> i") (auto simp: bit_ucast_iff bit_of_msb)
  qed
  moreover have "uint (word_of_nat n :: u16) = int n" using assms by (simp add: uint_nat unat_of_nat take_bit_nat_eq_self)
  ultimately show ?thesis by (simp add: Uint16_def numeral_eq_Suc)
qed

lemma aac_frame_received:
  assumes "collects (aac_comm p)" and "plain_ok (aac_pt p)" and "glen data + 16 \<le> mtu (aac_comm p)"
    and "length data < 8192" and "receives f (uaac_comm u)"
    and "sizeLenth u = 13" and "indexLength u = 3" and "uaac_asc u = []"
  shows "\<exists>pkt. aac_Pack data ts p [] = Some (None, p\<lparr>aac_sequence := aac_sequence p + 1\<rparr>, [pkt]) \<and>
    glen pkt \<le> mtu (aac_comm p) \<and>
    aac_UnPack pkt (u, st) = Some (None, u, f data ts False st)"
proof -
  let ?h = "be16 (push_bit 3 (word_of_nat (length data)))"
  let ?pkt = "plain_data (new_pkt (aac_pt p) (aac_ssrc p) (aac_sequence p) ts True (aac_payload data))"
  have pl: "aac_payload data = be16 16 @ ?h @ data"
    using au_header_be16 [of "word_of_nat (length data)"] by (simp add: aac_payload_def Let_def)
  have g: "get_be16 (be16 16 @ ?h @ data) = Some 16" by simp
  have sl: "slice_from (be16 16 @ ?h @ data) 2 = Some (?h @ data)"
    "slice_to (?h @ data) 2 = Some ?h" "slice_from (?h @ data) 2 = Some data"
    by (simp_all add: slice_from_def slice_to_def)
  have fr: "au_frames [glen data] data ts u st = Some (None, f data ts False st)"
    using assms(5,8) by (simp add: receives_simps slice_to_def slice_from_def)
  have "aac_Pack data ts p [] = Some (None, p\<lparr>aac_sequence := aac_sequence p + 1\<rparr>, [?pkt])"
    using assms(1,3) by (simp add: aac_Pack_def send_collects)
  moreover have "glen ?pkt \<le> mtu (aac_comm p)" using assms(3) by (simp add: length_plain_data pl)
  moreover have "aac_UnPack ?pkt (u, st) = Some (None, u, f data ts False st)"
    using new_pkt_Decode [OF assms(2)] assms(5-8) fr au_size_read [OF assms(4)]
    by (simp add: aac_UnPack_def receives_simps pl g sl Let_def del: au_sizes.simps au_frames.simps)
  ultimately show ?thesis by blast
qed

text \<open>From 8192 bytes the size does not fit its 13 bits and the packet is not read back.\<close>

lemma aac_size_truncated:
  "aac_payload data = be16 16 @ be16 (push_bit 3 (word_of_nat (length data))) @ data"
  using au_header_be16 [of "word_of_nat (length data)"] by (simp add: aac_payload_def Let_def)

section \<open>A TS stream is received\<close>

definition uts_holds :: "'s on_frame \<Rightarrow> 's TsUnPacker \<Rightarrow> bytes \<Rightarrow> u32 \<Rightarrow> u16 \<Rightarrow> bool" where
  "uts_holds f u b ts seq \<longleftrightarrow> receives f (uts_comm u) \<and> uts_timestamp u = uint ts \<and> uts_lost u = False \<and>
     uts_frameBuffer u = b \<and> uts_lastSequence u + 1 = seq"

lemma uint_ge_0_neq: "uint (w :: u32) \<noteq> - 1"
  using uint_ge_0 [of w] by linarith

lemma ts_loop_packets:
  assumes "sink g (ts_comm p)" and "0 < k" and "mtu (ts_comm p) = int k + 12" and "data \<noteq> []"
  shows "ts_loop data ts p st = Some (None,
      p\<lparr>ts_sequence := ts_sequence p + word_of_nat (length (pieces k data))\<rparr>,
      fold g (rtp_packets (ts_pt p) (ts_ssrc p) ts False (ts_sequence p) (pieces k data)) st)"
  using assms
proof (induction k data arbitrary: p st rule: pieces.induct)
  case (1 k d)
  show ?case
  proof (cases "length d \<le> k")
    case True
    then show ?thesis
      using 1(2-) by (simp add: ts_loop.simps [of d] ts_loop.simps [of "[]"] pieces.simps [of k d] send_sink)
  next
    case False
    let ?p = "p\<lparr>ts_sequence := ts_sequence p + 1\<rparr>"
    have k: "\<not> (length d \<le> k \<or> k = 0)" "drop k d \<noteq> []" using False 1(3) by auto
    have sl: "slice_to d (int k) = Some (take k d)" "slice_from d (int k) = Some (drop k d)"
      using False by simp_all
    show ?thesis
      using 1(1) [OF k(1), of ?p] 1(2-) k sl False
      by (simp add: ts_loop.simps [of d] pieces.simps [of k d] send_sink add.assoc)
  qed
qed

lemma ts_UnPack_same:
  assumes "uts_holds f u b ts seq" and "plain_ok pt"
  shows "ts_UnPack (plain_data (new_pkt pt ssrc seq ts m d)) (u, st) =
    Some (None, u\<lparr>uts_lastSequence := seq, uts_frameBuffer := b @ d\<rparr>, st)"
  using assms new_pkt_Decode [OF assms(2)]
  by (cases u) (auto simp: ts_UnPack_def uts_holds_def receives_simps Let_def uint_ge_0_neq)

lemma ts_UnPack_new:
  assumes "uts_holds f u b ts0 seq" and "plain_ok pt" and "ts \<noteq> ts0"
  shows "ts_UnPack (plain_data (new_pkt pt ssrc seq ts m d)) (u, st) =
    Some (None, u\<lparr>uts_timestamp := uint ts, uts_lastSequence := seq, uts_frameBuffer := d\<rparr>, f b ts0 False st)"
proof -
  have "uint ts0 \<noteq> uint ts" using assms(3) by (simp add: word_uint_eq_iff)
  then show ?thesis using assms(1) new_pkt_Decode [OF assms(2)]
    by (cases u) (auto simp: ts_UnPack_def uts_holds_def receives_simps Let_def uint_ge_0_neq)
qed

lemma ts_rest_received:
  "uts_holds f u b ts seq \<Longrightarrow> plain_ok pt \<Longrightarrow>
     \<exists>u'. unpack_all ts_UnPack (rtp_packets pt ssrc ts False seq ps) (u, st) = Some (None, u', st) \<and>
       uts_holds f u' (b @ concat ps) ts (seq + word_of_nat (length ps))"
proof (induction ps arbitrary: u b seq)
  case (Cons p ps)
  let ?u = "u\<lparr>uts_lastSequence := seq, uts_frameBuffer := b @ p\<rparr>"
  have "uts_holds f ?u (b @ p) ts (seq + 1)" using Cons.prems(1) by (simp add: uts_holds_def)
  then show ?case
    using Cons.IH [of ?u "b @ p" "seq + 1"] Cons.prems by (auto simp: ts_UnPack_same add.assoc)
qed simp

lemma ts_buffer_received:
  assumes "uts_holds f u b ts0 seq" and "plain_ok pt" and "ts \<noteq> ts0"
  shows "\<exists>u'. unpack_all ts_UnPack (rtp_packets pt ssrc ts False seq (pieces k data)) (u, st) =
      Some (None, u', f b ts0 False st) \<and>
    uts_holds f u' data ts (seq + word_of_nat (length (pieces k data)))"
proof (cases "pieces k data")
  case (Cons p ps)
  let ?u = "u\<lparr>uts_timestamp := uint ts, uts_lastSequence := seq, uts_frameBuffer := p\<rparr>"
  have "uts_holds f ?u p ts (seq + 1)" using assms(1) by (simp add: uts_holds_def)
  then show ?thesis
    using ts_rest_received [of f ?u p ts "seq + 1" pt ssrc ps "f b ts0 False st"] assms Cons
      concat_pieces [of k data]
    by (auto simp: ts_UnPack_new add.assoc)
qed simp

lemma ts_stream_received:
  assumes "collects (ts_comm p)" and "12 < mtu (ts_comm p)" and "plain_ok (ts_pt p)" and "data \<noteq> []"
    and "uts_holds f u b ts0 (ts_sequence p)" and "ts \<noteq> ts0"
  shows "\<exists>p' pkts u'. ts_Pack data ts p [] = Some (None, p', pkts) \<and>
    list_all (\<lambda>d. glen d \<le> mtu (ts_comm p)) pkts \<and>
    unpack_all ts_UnPack pkts (u, st) = Some (None, u', f b ts0 False st) \<and>
    uts_holds f u' data ts (ts_sequence p')"
proof -
  let ?k = "nat (mtu (ts_comm p) - 12)"
  let ?pkts = "rtp_packets (ts_pt p) (ts_ssrc p) ts False (ts_sequence p) (pieces ?k data)"
  have k: "0 < ?k" "mtu (ts_comm p) = int ?k + 12" using assms(2) by simp_all
  have "ts_Pack data ts p [] = Some (None,
      p\<lparr>ts_sequence := ts_sequence p + word_of_nat (length (pieces ?k data))\<rparr>, ?pkts)"
    using ts_loop_packets [OF _ k assms(4), of "\<lambda>d ds. ds @ [d]" ts "[]"] assms(1,2)
    by (simp add: ts_Pack_def collects_def fold_snoc)
  moreover have "list_all (\<lambda>d. glen d \<le> mtu (ts_comm p)) ?pkts"
    using rtp_packets_bound [of ?k "pieces ?k data" "ts_pt p" "ts_ssrc p" ts False "ts_sequence p"]
      pieces_bound [OF k(1), of data] k by (auto simp: list_all_iff)
  ultimately show ?thesis
    using ts_buffer_received [OF assms(5,3,6), of "ts_ssrc p" ?k data st] by fastforce
qed

section \<open>Properties\<close>

text \<open>
  C19: an AAC frame below 8192 bytes that fits the MTU is sent as one packet and received as it
  was, with the default field widths.
\<close>

theorem aac_over_rtp:
  assumes "collects (aac_comm p)" and "plain_ok (aac_pt p)" and "glen data + 16 \<le> mtu (aac_comm p)"
    and "length data < 8192" and "receives f (uaac_comm u)"
    and "sizeLenth u = 13" and "indexLength u = 3" and "uaac_asc u = []"
  shows "\<exists>pkt. aac_Pack data ts p [] = Some (None, p\<lparr>aac_sequence := aac_sequence p + 1\<rparr>, [pkt]) \<and>
    glen pkt \<le> mtu (aac_comm p) \<and> aac_UnPack pkt (u, st) = Some (None, u, f data ts False st)"
  using assms by (rule aac_frame_received)

definition collect_packets :: "(unit, bytes list) CommPacker \<Rightarrow> (unit, bytes list) CommPacker" where
  "collect_packets = OnPacket (Some (\<lambda>d ds. (None, ds @ [d])))"

definition note_frame :: "(bytes \<times> u32 \<times> bool) list on_frame" where
  "note_frame = (\<lambda>d ts lost st. st @ [(d, ts, lost)])"

theorem aac_over_rtp_witness:
  "\<exists>p' pkt u'. aac_Pack [1, 2, 3] 1024 ((NewAACPacker 97 7 0 1400)\<lparr>aac_comm := collect_packets (aac_comm (NewAACPacker 97 7 0 1400))\<rparr>) [] =
      Some (None, p', [pkt]) \<and>
    aac_UnPack pkt ((NewAACUnPacker 0 0 [])\<lparr>uaac_comm := OnFrame (Some note_frame) (uaac_comm (NewAACUnPacker 0 0 []))\<rparr>, []) =
      Some (None, u', [([1, 2, 3], 1024, False)])"
proof -
  let ?p = "(NewAACPacker 97 7 0 1400)\<lparr>aac_comm := collect_packets (aac_comm (NewAACPacker 97 7 0 1400))\<rparr>"
  let ?u = "(NewAACUnPacker 0 0 [])\<lparr>uaac_comm := OnFrame (Some note_frame) (uaac_comm (NewAACUnPacker 0 0 []))\<rparr>"
  have "plain_ok 97" by code_simp
  then show ?thesis
    using aac_over_rtp [of ?p "[1, 2, 3]" note_frame ?u 1024 "[]"]
    by (force simp: NewAACPacker_def collect_packets_def OnPacket_def collects_def sink_def receives_def
        NewAACUnPacker_def OnFrame_def note_frame_def)
qed

text \<open>
  C17: a TS buffer of any size is cut to the MTU; when its timestamp differs from that of the
  bytes held, the unpacker delivers those, not marked as lost, and then holds exactly the
  buffer, with the sequence number that the packer will use next.
\<close>

theorem ts_over_rtp:
  assumes "collects (ts_comm p)" and "12 < mtu (ts_comm p)" and "plain_ok (ts_pt p)" and "data \<noteq> []"
    and "uts_holds f u b ts0 (ts_sequence p)" and "ts \<noteq> ts0"
  shows "\<exists>p' pkts u'. ts_Pack data ts p [] = Some (None, p', pkts) \<and>
    list_all (\<lambda>d. glen d \<le> mtu (ts_comm p)) pkts \<and>
    unpack_all ts_UnPack pkts (u, st) = Some (None, u', f b ts0 False st) \<and>
    uts_holds f u' data ts (ts_sequence p')"
  using assms by (rule ts_stream_received)

theorem ts_over_rtp_witness:
  "\<exists>p' pkts u'. ts_Pack [1, 2, 3, 4, 5] 2 ((NewTsPacker 33 7 65535 14)\<lparr>ts_comm := collect_packets (ts_comm (NewTsPacker 33 7 65535 14))\<rparr>) [] =
      Some (None, p', pkts) \<and> list_all (\<lambda>d. length d \<le> 14) pkts \<and>
    unpack_all ts_UnPack pkts (NewTsUnPacker\<lparr>uts_comm := OnFrame (Some note_frame) (uts_comm NewTsUnPacker),
       uts_timestamp := 1, uts_lastSequence := 65534, uts_frameBuffer := [9]\<rparr>, []) =
      Some (None, u', [([9], 1, False)]) \<and> uts_holds note_frame u' [1, 2, 3, 4, 5] 2 (ts_sequence p')"
proof -
  let ?p = "(NewTsPacker 33 7 65535 14)\<lparr>ts_comm := collect_packets (ts_comm (NewTsPacker 33 7 65535 14))\<rparr>"
  let ?u = "NewTsUnPacker\<lparr>uts_comm := OnFrame (Some note_frame) (uts_comm NewTsUnPacker),
     uts_timestamp := 1, uts_lastSequence := 65534, uts_frameBuffer := [9]\<rparr>"
  have "plain_ok 33" by code_simp
  moreover have "uts_holds note_frame ?u [9] 1 65535"
    by (simp add: uts_holds_def receives_def NewTsUnPacker_def OnFrame_def)
  ultimately show ?thesis
    using ts_over_rtp [of ?p "[1, 2, 3, 4, 5]" note_frame ?u "[9]" 1 2 "[]"]
    by (force simp: NewTsPacker_def collect_packets_def OnPacket_def collects_def sink_def note_frame_def)
qed

end
