(* ===== verification/BitFields.thy ===== *)
theory BitFields
  imports BitStream BitStreamWriter
begin

text \<open>
  How the headers of the formats are read and written with the two bit stream types.

  Reading: a stream without an error is \<open>cur m buf p\<close>, its mark, buffer and position in bits,
  and each method is an equation between such states; a field of the buffer is \<open>field buf p n\<close>.
  Writing: \<open>wrote s w m\<close> says that \<open>w\<close> was written and the mark is at \<open>m\<close>; \<open>appends k f xs\<close>
  that \<open>f\<close> appends \<open>xs\<close> wherever the length is \<open>k\<close> modulo 8.
\<close>

unbundle bit_operations_syntax

section \<open>Reading\<close>

definition cur :: "nat \<Rightarrow> bytes \<Rightarrow> nat \<Rightarrow> bitstream" where
  "cur m buf p = \<lparr>bs_bits = buf, bytesOffset = p div 8, bitsOffset = p mod 8, bitsmark = m mod 8,
     bytemark = m div 8, bs_err = None\<rparr>"

definition field :: "bytes \<Rightarrow> nat \<Rightarrow> nat \<Rightarrow> 'a::len word" where
  "field buf p n = of_msb (take n (drop p (bits_of_bytes buf)))"

lemma NewBitStream_cur: "NewBitStream buf = cur 0 buf 0"
  by (simp add: NewBitStream_def cur_def)

lemma cur_sel [simp]:
  "bs_bits (cur m buf p) = buf" "bs_err (cur m buf p) = None" "pos (cur m buf p) = p"
  "rest_bits (cur m buf p) = drop p (bits_of_bytes buf)"
  by (simp_all add: cur_def pos_def rest_bits_def)

lemma cur_ready: "p \<le> 8 * length buf \<Longrightarrow> ready (cur m buf p)"
  by (simp add: ready_def bs_ok_def) (simp add: cur_def)

lemma cur_ok: "p \<le> 8 * length buf \<Longrightarrow> bs_ok (cur m buf p)"
  using cur_ready by (simp add: ready_def)

lemma cur_advance [simp]: "advance n (cur m buf p) = cur m buf (n + p)"
  by (simp add: advance_def add.commute) (simp add: cur_def add.commute)

lemma ready_is_cur: "ready s \<Longrightarrow> bitsmark s < 8 \<Longrightarrow>
    s = cur (8 * bytemark s + bitsmark s) (bs_bits s) (pos s)"
  by (cases s) (simp add: cur_def ready_def bs_ok_def pos_def)

lemma ucast_of_msb: "LENGTH('a) \<le> LENGTH('b) \<Longrightarrow>
    ucast (of_msb bs :: 'b::len word) = (of_msb bs :: 'a::len word)"
  by (rule bit_word_eqI) (auto simp: bit_ucast_iff bit_of_msb)

lemma GetBits_cur: "0 \<le> n \<Longrightarrow> n \<le> 64 \<Longrightarrow> p + nat n \<le> 8 * length buf \<Longrightarrow>
    GetBits n (cur m buf p) = Some (field buf p (nat n), cur m buf (nat n + p))"
  using GetBits_ready [of "cur m buf p" "nat n"] cur_ready [of p buf m] by (simp add: field_def)

lemma Uint_cur:
  assumes "0 \<le> n" "n \<le> 64" "p + nat n \<le> 8 * length buf"
  shows "Uint8 n (cur m buf p) = Some (field buf p (nat n), cur m buf (nat n + p))"
    and "Uint16 n (cur m buf p) = Some (field buf p (nat n), cur m buf (nat n + p))"
    and "Uint32 n (cur m buf p) = Some (field buf p (nat n), cur m buf (nat n + p))"
  using GetBits_cur [OF assms] by (simp_all add: Uint8_def Uint16_def Uint32_def field_def ucast_of_msb)

lemma GetBit_cur: "p < 8 * length buf \<Longrightarrow> GetBit (cur m buf p) = Some (field buf p 1, cur m buf (Suc p))"
proof -
  assume p: "p < 8 * length buf"
  then have d: "drop p (bits_of_bytes buf) = bits_of_bytes buf ! p # drop (Suc p) (bits_of_bytes buf)"
    by (simp add: Cons_nth_drop_Suc)
  have "of_msb [b] = (of_bool b :: byte)" for b by (rule bit_word_eqI) (auto simp: bit_of_msb bit_of_bool_iff)
  then show ?thesis
    using GetBit_ready [OF cur_ready [of p buf m], of "bits_of_bytes buf ! p"] p d by (simp add: field_def)
qed

lemma SkipBits_cur: "0 \<le> n \<Longrightarrow> p + nat n \<le> 8 * length buf \<Longrightarrow>
    SkipBits n (cur m buf p) = cur m buf (nat n + p)"
  using SkipBits_ready [of "cur m buf p" "nat n"] cur_ready [of p buf m] by simp

lemma Markdot_cur: "Markdot (cur m buf p) = cur p buf p"
  by (simp add: Markdot_def cur_def)

lemma DistanceFromMarkDot_cur: "DistanceFromMarkDot (cur m buf p) = int p - int m"
proof -
  have "int p = 8 * int (p div 8) + int (p mod 8)" "int m = 8 * int (m div 8) + int (m mod 8)"
    by (metis mult_div_mod_eq of_nat_add of_nat_mult of_nat_numeral)+
  then show ?thesis by (simp add: DistanceFromMarkDot_def cur_def Let_def)
qed

lemma RemainBits_cur: "p \<le> 8 * length buf \<Longrightarrow> RemainBits (cur m buf p) = 8 * glen buf - int p"
  using RemainBits_eq [OF cur_ok] by simp

lemma RemainBytes_cur: "RemainBytes (cur m buf (8 * B)) = glen buf - int B"
  by (simp add: RemainBytes_def cur_def)

lemma read_byte_cur:
  assumes "bits_of_bytes (drop B buf) = bits_msb 8 v @ xs"
  shows "Uint8 8 (cur m buf (8 * B)) = Some (v, cur m buf (8 * (B + 1)))" and "B < length buf"
    and "bits_of_bytes (drop (B + 1) buf) = xs"
proof -
  have d: "drop (8 * B) (bits_of_bytes buf) = bits_msb 8 v @ xs" using assms by (simp add: bits_of_bytes_drop)
  have len: "8 * B + 8 \<le> 8 * length buf" using arg_cong [OF d, of length] by simp
  then show "B < length buf" by simp
  have "field buf (8 * B) 8 = v"
    using d by (simp add: field_def of_msb_bits_msb take_bit_word_eq_self)
  then show "Uint8 8 (cur m buf (8 * B)) = Some (v, cur m buf (8 * (B + 1)))"
    using Uint_cur(1) [of 8 "8 * B" buf m] len by simp
  have "bits_of_bytes (drop (B + 1) buf) = drop 8 (bits_of_bytes (drop B buf))"
    by (simp add: bits_of_bytes_drop add.commute)
  then show "bits_of_bytes (drop (B + 1) buf) = xs" using assms by simp
qed

lemma SkipBits_bytes: "B + n \<le> length buf \<Longrightarrow>
    SkipBits (int n * 8) (cur m buf (8 * B)) = cur m buf (8 * (B + n))"
proof -
  assume "B + n \<le> length buf"
  moreover have n: "nat (int n * 8) = 8 * n" by (simp add: nat_mult_distrib)
  ultimately show ?thesis using SkipBits_cur [of "int n * 8" "8 * B" buf m] by (simp add: algebra_simps)
qed

lemma RemainData_cur: "RemainData (cur m buf (8 * B)) = drop B buf"
  by (simp add: RemainData_def cur_def)

lemma SkipBits_rest:
  assumes "p \<le> 8 * length buf"
  shows "SkipBits (RemainBits (cur m buf p)) (cur m buf p) = cur m buf (8 * length buf)"
proof -
  have "RemainBits (cur m buf p) = int (8 * length buf - p)" using assms by (simp add: RemainBits_cur of_nat_diff)
  moreover have "SkipBits (int (8 * length buf - p)) (cur m buf p) = cur m buf (nat (int (8 * length buf - p)) + p)"
    by (rule SkipBits_cur) (simp_all only: nat_int of_nat_0_le_iff le_add_diff_inverse assms le_refl)
  ultimately show ?thesis by (simp only: nat_int le_add_diff_inverse2 assms)
qed

lemma NextBits_cur: "0 \<le> n \<Longrightarrow> n \<le> 64 \<Longrightarrow> p + nat n \<le> 8 * length buf \<Longrightarrow>
    NextBits n (cur m buf p) = Some (field buf p (nat n), cur m buf p)"
  using NextBits_ready [of "cur m buf p" "nat n"] cur_ready [of p buf m] by (simp add: field_def)

lemma EOS_cur: "EOS (cur m buf p) \<longleftrightarrow> p = 8 * length buf"
  unfolding EOS_def by (auto simp: cur_def)

lemma UnRead_cur: "p + nat n \<le> 8 * length buf \<Longrightarrow> 0 \<le> n \<Longrightarrow>
    UnRead n (cur m buf (nat n + p)) = cur m buf p"
  using UnRead_advance [OF cur_ok [of p buf m], of "nat n"] by simp

lemmas cur_simps = GetBits_cur Uint_cur GetBit_cur SkipBits_cur Markdot_cur DistanceFromMarkDot_cur
  NextBits_cur EOS_cur

text \<open>The value of a field, when the bits of the buffer are known.\<close>

lemma field_of_bits: "bits_of_bytes buf = xs \<Longrightarrow> field buf p n = of_msb (take n (drop p xs))"
  by (simp add: field_def)

lemma field_at:
  assumes "drop p (bits_of_bytes buf) = xs"
  shows "field buf (k + p) n = of_msb (take n (drop k xs))" and "field buf p n = of_msb (take n xs)"
  using assms by (simp_all add: field_def add.commute flip: drop_drop)

lemma take_bit_fits: "fits n w \<Longrightarrow> take_bit n w = w" for w :: "'a::len word"
  using fits_bit [of n w] by (intro bit_word_eqI) (auto simp: bit_take_bit_iff not_less [symmetric])

lemma of_msb_fits: "fits n w \<Longrightarrow> of_msb (bits_msb n w) = w"
  by (simp add: of_msb_bits_msb take_bit_fits)

lemma field_fits: "fits n (field buf p n)"
  unfolding fits_def field_def by (rule bit_word_eqI) (auto simp: bit_of_msb bit_drop_bit_eq)

lemma fits_all [simp]: "LENGTH('a) \<le> n \<Longrightarrow> fits n (w :: 'a::len word)"
  unfolding fits_def by (rule bit_word_eqI) (auto simp: bit_drop_bit_eq dest: bit_imp_le_length)

lemma of_msb_zeros [simp]: "of_msb (replicate n False) = 0"
  by (rule bit_word_eqI) (auto simp: bit_of_msb)

lemma of_msb_1 [simp]: "of_msb [b] = (of_bool b :: 'a::len word)"
  by (rule bit_word_eqI) (auto simp: bit_of_msb bit_of_bool_iff)

text \<open>The bytes of a bit string.\<close>

definition pack_bits :: "bool list \<Rightarrow> bytes" where
  "pack_bits xs = map (\<lambda>i. of_msb (take 8 (drop (8 * i) xs))) [0..<length xs div 8]"

lemma bits_msb_of_msb: "length xs = 8 \<Longrightarrow> bits_msb 8 (of_msb xs :: byte) = xs"
  by (rule nth_equalityI) (auto simp: bit_of_msb)

lemma pack_bits_snoc: "length ys = 8 \<Longrightarrow> 8 dvd length xs \<Longrightarrow> pack_bits (xs @ ys) = pack_bits xs @ [of_msb ys]"
  by (auto simp: pack_bits_def elim!: dvdE)

lemma bits_of_pack_bits: "8 dvd length xs \<Longrightarrow> bits_of_bytes (pack_bits xs) = xs"
proof (induction "length xs" arbitrary: xs rule: less_induct)
  case less
  show ?case
  proof (cases "xs = []")
    case True
    then show ?thesis by (simp add: pack_bits_def)
  next
    case False
    let ?n = "length xs - 8"
    have n: "8 \<le> length xs" "8 dvd ?n" using less.prems False by (auto dest: dvd_imp_le)
    have split: "xs = take ?n xs @ drop ?n xs" by simp
    have "bits_of_bytes (pack_bits (take ?n xs)) = take ?n xs" using less.hyps [of "take ?n xs"] n False by simp
    moreover have "pack_bits (take ?n xs @ drop ?n xs) = pack_bits (take ?n xs) @ [of_msb (drop ?n xs)]"
      using n by (intro pack_bits_snoc) simp_all
    ultimately show ?thesis
      using n bits_msb_of_msb [of "drop ?n xs"] by (simp add: bits_of_bytes_Cons)
  qed
qed

lemma pack_bits_bytes: "pack_bits (bits_of_bytes bs) = bs"
  using bits_of_pack_bits [of "bits_of_bytes bs"] by (simp add: bits_of_bytes_inject)

section \<open>Decoders that never panic\<close>

text \<open>
  \<open>gives P m\<close>: \<open>m\<close> returns a value with \<open>P\<close>.  The rules follow the statements of a decoder; the
  invariant that is carried through is that the position is inside the buffer.
\<close>

definition gives :: "('a \<Rightarrow> bool) \<Rightarrow> 'a option \<Rightarrow> bool" where
  "gives P m \<longleftrightarrow> (\<exists>x. m = Some x \<and> P x)"

lemma gives_Some [simp]: "gives P (Some x) \<longleftrightarrow> P x" "\<not> gives P None"
  by (simp_all add: gives_def)

lemma gives_bind: "gives P m \<Longrightarrow> (\<And>x. P x \<Longrightarrow> gives Q (f x)) \<Longrightarrow> gives Q (Option.bind m f)"
  by (auto simp: gives_def)

lemma gives_mono: "gives P m \<Longrightarrow> (\<And>x. P x \<Longrightarrow> Q x) \<Longrightarrow> gives Q m"
  by (auto simp: gives_def)

lemma gives_if: "(b \<Longrightarrow> gives Q x) \<Longrightarrow> (\<not> b \<Longrightarrow> gives Q y) \<Longrightarrow> gives Q (if b then x else y)"
  by simp

abbreviation at_ok :: "'a \<times> bitstream \<Rightarrow> bool" where
  "at_ok \<equiv> \<lambda>(v, t). bs_ok t"

lemma gives_read_bind:
  assumes "gives at_ok m" and "\<And>v t. bs_ok t \<Longrightarrow> gives Q (f v t)"
  shows "gives Q (Option.bind m (\<lambda>(v, t). f v t))"
  using assms by (auto simp: gives_def)

lemma gives_reads:
  assumes "bs_ok s"
  shows "gives at_ok (GetBits n s)" "gives at_ok (GetBit s)" "gives at_ok (NextBits n s)"
    "gives at_ok (Uint8 n s)" "gives at_ok (Uint16 n s)" "gives at_ok (Uint32 n s)"
  using GetBits_total [OF assms, of n] GetBit_total [OF assms] NextBits_total [OF assms, of n]
  by (auto simp: gives_def Uint8_def Uint16_def Uint32_def)

lemma bs_ok_moves [simp]:
  "bs_ok s \<Longrightarrow> bs_ok (SkipBits n s)" "bs_ok s \<Longrightarrow> bs_ok (UnRead n s)" "bs_ok s \<Longrightarrow> bs_ok (Markdot s)"
  using SkipBits_ok [of s n] UnRead_ok [of s n] by (blast, blast, simp add: Markdot_def bs_ok_def pos_def)

lemma bs_ok_New [simp]: "bs_ok (NewBitStream buf)"
  using ready_New by (simp add: ready_def)

lemma RemainData_bound: "RemainBytes s \<le> glen (RemainData s)"
  by (auto simp: RemainBytes_def RemainData_def)

lemmas gives_intros = gives_if gives_read_bind gives_reads

section \<open>Writing\<close>

definition wrote :: "bitwriter \<Rightarrow> bool list \<Rightarrow> nat \<Rightarrow> bool" where
  "wrote s w m \<longleftrightarrow> writable s w \<and> bsw_bytemark s = m div 8 \<and> bsw_bitsmark s = m mod 8"

lemma PutUint64_loop_marks: "PutUint64_loop v n s = Some (k, t) \<Longrightarrow>
    bsw_bytemark t = bsw_bytemark s \<and> bsw_bitsmark t = bsw_bitsmark s"
proof (induction v n s rule: PutUint64_loop.induct)
  case (1 v n s)
  then show ?case
    by (simp add: PutUint64_loop.simps [of v n s] Option.bind_eq_Some_conv split: if_splits) force
qed

lemma expandSpace_marks [simp]:
  "bsw_bytemark (expandSpace n s) = bsw_bytemark s" "bsw_bitsmark (expandSpace n s) = bsw_bitsmark s"
  by (simp_all add: expandSpace_def Let_def)

lemma PutUint64_marks: "PutUint64 v n s = Some t \<Longrightarrow>
    bsw_bytemark t = bsw_bytemark s \<and> bsw_bitsmark t = bsw_bitsmark s"
  by (auto simp: PutUint64_def Let_def Option.bind_eq_Some_conv dest!: PutUint64_loop_marks split: if_splits)

lemma PutByte_marks: "PutByte v s = Some t \<Longrightarrow>
    bsw_bytemark t = bsw_bytemark s \<and> bsw_bitsmark t = bsw_bitsmark s"
  by (auto simp: PutByte_def Let_def Option.bind_eq_Some_conv split: if_splits)

lemma PutBytes_marks: "PutBytes v s = Some t \<Longrightarrow>
    bsw_bytemark t = bsw_bytemark s \<and> bsw_bitsmark t = bsw_bitsmark s"
  by (auto simp: PutBytes_def Let_def Option.bind_eq_Some_conv split: if_splits)

lemma PutRepetValue_loop_marks: "PutRepetValue_loop v n s = Some t \<Longrightarrow>
    bsw_bytemark t = bsw_bytemark s \<and> bsw_bitsmark t = bsw_bitsmark s"
  by (induction n arbitrary: s) (force simp: Option.bind_eq_Some_conv)+

lemma PutRepetValue_marks: "PutRepetValue v n s = Some t \<Longrightarrow>
    bsw_bytemark t = bsw_bytemark s \<and> bsw_bitsmark t = bsw_bitsmark s"
  by (auto simp: PutRepetValue_def dest: PutRepetValue_loop_marks split: if_splits)

lemma wrote_New: "0 \<le> n \<Longrightarrow> \<exists>s. NewBitStreamWriter n = Some s \<and> wrote s [] 0"
  by (auto simp: wrote_def NewBitStreamWriter_def make_bytes_def writable_def holds_def)

lemma wrote_Reset: "wrote (bsw_Reset s) [] 0"
  using bsw_Reset_holds [of s] by (simp add: wrote_def bsw_Reset_def)

lemma wrote_offset:
  assumes "wrote s w m"
  shows "bsw_ByteOffset s = length w div 8" "bsw_BitOffset s = length w mod 8" "bsw_err s = None"
    "bsw_DistanceFromMarkDot s = int (length w) - int m"
proof -
  have "bitsoffset s < 8" "length w = 8 * byteoffset s + bitsoffset s" "bsw_err s = None"
    using assms by (simp_all add: wrote_def writable_def holds_def)
  moreover have "int m = 8 * int (m div 8) + int (m mod 8)"
    by (metis mult_div_mod_eq of_nat_add of_nat_mult of_nat_numeral)
  ultimately show "bsw_ByteOffset s = length w div 8" "bsw_BitOffset s = length w mod 8" "bsw_err s = None"
    "bsw_DistanceFromMarkDot s = int (length w) - int m"
    using assms by (simp_all add: bsw_ByteOffset_def bsw_BitOffset_def bsw_DistanceFromMarkDot_def wrote_def Let_def)
qed

lemma wrote_Markdot: "wrote s w m \<Longrightarrow> wrote (bsw_Markdot s) w (length w)"
  using wrote_offset(1,2) [of s w m]
  by (simp add: wrote_def bsw_Markdot_def writable_def holds_def bsw_ByteOffset_def bsw_BitOffset_def)

text \<open>What a finished writer returns.\<close>

lemma wrote_Bits: "wrote s (bits_of_bytes bs) m \<Longrightarrow> bsw_Bits s = Some bs"
proof -
  assume w: "wrote s (bits_of_bytes bs) m"
  obtain xs where xs: "bsw_Bits s = Some xs" "8 * length xs < 8 * length bs + 8"
    "bits_of_bytes xs = bits_of_bytes bs @ replicate (8 * length xs - 8 * length bs) False"
    using bsw_Bits_holds [of s "bits_of_bytes bs"] w by (auto simp: wrote_def writable_def)
  have "length xs = length bs" using xs(2) arg_cong [OF xs(3), of length] by simp
  then show ?thesis using xs(1,3) by (simp add: bits_of_bytes_inject)
qed

definition appends :: "nat \<Rightarrow> (bitwriter \<Rightarrow> bitwriter option) \<Rightarrow> bool list \<Rightarrow> bool" where
  "appends k f xs \<longleftrightarrow> (\<forall>s w m. wrote s w m \<and> length w mod 8 = k \<longrightarrow> (\<exists>t. f s = Some t \<and> wrote t (w @ xs) m))"

lemma appendsE:
  assumes "appends k f xs" and "wrote s w m" and "length w mod 8 = k"
  obtains t where "f s = Some t" and "wrote t (w @ xs) m"
  using assms unfolding appends_def by blast

lemma appends_bind:
  assumes "appends k f xs" and "appends ((k + length xs) mod 8) g ys"
  shows "appends k (\<lambda>s. Option.bind (f s) g) (xs @ ys)"
  unfolding appends_def
proof (intro allI impI)
  fix s w m assume s: "wrote s w m \<and> length w mod 8 = k"
  then obtain t where t: "f s = Some t" "wrote t (w @ xs) m"
    using assms(1) by (auto elim: appendsE)
  have "length (w @ xs) mod 8 = (k + length xs) mod 8" using s mod_add_left_eq [of "length w" 8 "length xs"] by auto
  then obtain u where "g t = Some u" "wrote u ((w @ xs) @ ys) m"
    using assms(2) t(2) by (auto elim: appendsE)
  then show "\<exists>u. Option.bind (f s) g = Some u \<and> wrote u (w @ xs @ ys) m" using t by simp
qed

lemma appends_none: "appends k Some []"
  by (simp add: appends_def)

lemma appends_if: "(b \<Longrightarrow> appends k f xs) \<Longrightarrow> (\<not> b \<Longrightarrow> appends k g ys) \<Longrightarrow>
    appends k (\<lambda>s. if b then f s else g s) (if b then xs else ys)"
  by simp

lemma appends_ifm: "(b \<Longrightarrow> appends k f xs) \<Longrightarrow> (\<not> b \<Longrightarrow> appends k g ys) \<Longrightarrow>
    appends k (if b then f else g) (if b then xs else ys)"
  by simp

lemma appends_PutUint64: "0 < n \<Longrightarrow> n \<le> 64 \<Longrightarrow> xs = bits_msb (nat n) v \<Longrightarrow> appends k (PutUint64 v n) xs"
  unfolding appends_def wrote_def
  using PutUint64_writable [of _ _ "nat n" v] by (fastforce dest: PutUint64_marks)

lemma appends_PutUint8: "0 < n \<Longrightarrow> n \<le> 8 \<Longrightarrow> xs = bits_msb (nat n) v \<Longrightarrow> appends k (PutUint8 v n) xs"
  using appends_PutUint64 [of n xs "ucast v" k] bits_msb_ucast_u64 [of "nat n" v]
  by (simp add: PutUint8_def [abs_def])

lemma appends_PutUint16: "0 < n \<Longrightarrow> n \<le> 16 \<Longrightarrow> xs = bits_msb (nat n) v \<Longrightarrow> appends k (PutUint16 v n) xs"
  using appends_PutUint64 [of n xs "ucast v" k] bits_msb_ucast_u64 [of "nat n" v]
  by (simp add: PutUint16_def [abs_def])

lemma appends_PutUint32: "0 < n \<Longrightarrow> n \<le> 32 \<Longrightarrow> xs = bits_msb (nat n) v \<Longrightarrow> appends k (PutUint32 v n) xs"
  using appends_PutUint64 [of n xs "ucast v" k] bits_msb_ucast_u64 [of "nat n" v]
  by (simp add: PutUint32_def [abs_def])

lemma appends_PutByte: "k = 0 \<Longrightarrow> xs = bits_msb 8 v \<Longrightarrow> appends k (PutByte v) xs"
  unfolding appends_def wrote_def
  using PutByte_writable by (fastforce dest: PutByte_marks)

lemma appends_PutBytes: "k = 0 \<Longrightarrow> xs = bits_of_bytes v \<Longrightarrow> appends k (PutBytes v) xs"
  unfolding appends_def wrote_def
  using PutBytes_writable by (fastforce dest: PutBytes_marks)

lemma appends_PutRepetValue: "0 \<le> n \<Longrightarrow> k = 0 \<Longrightarrow> xs = bits_of_bytes (replicate (nat n) v) \<Longrightarrow>
    appends k (PutRepetValue v n) xs"
  unfolding appends_def wrote_def
  using PutRepetValue_writable by (fastforce dest: PutRepetValue_marks)

lemmas appends_puts = appends_PutUint8 appends_PutUint16 appends_PutUint32 appends_PutUint64
  appends_PutByte appends_PutBytes appends_PutRepetValue

text \<open>Patches of whole bytes written before.\<close>

lemma wrote_SetByte:
  assumes "wrote s w m" and "8 * i + 8 \<le> length w"
  shows "\<exists>t. SetByte v (int i) s = Some t \<and> wrote t (take (8 * i) w @ bits_msb 8 v @ drop (8 * i + 8) w) m"
  using SetByte_writable [of s w i v] assms
  by (auto simp: wrote_def SetByte_def Option.bind_eq_Some_conv bsw_Fail_def split: if_splits)

lemma wrote_SetUint16:
  assumes "wrote s w m" and "8 * i + 16 \<le> length w"
  shows "\<exists>t. SetUint16 v (int i) s = Some t \<and>
    wrote t (take (8 * i) w @ bits_of_bytes (be16 v) @ drop (8 * i + 16) w) m"
  using SetUint16_writable [of s w i v] assms
  by (auto simp: wrote_def SetUint16_def Option.bind_eq_Some_conv bsw_Fail_def split: if_splits)

text \<open>The same for a writer that moves the mark.\<close>

definition emits :: "nat \<Rightarrow> (bitwriter \<Rightarrow> bitwriter option) \<Rightarrow> bool list \<Rightarrow> bool" where
  "emits k f xs \<longleftrightarrow> (\<forall>s w m. wrote s w m \<and> length w mod 8 = k \<longrightarrow> (\<exists>t m. f s = Some t \<and> wrote t (w @ xs) m))"

lemma emitsE:
  assumes "emits k f xs" and "wrote s w m" and "length w mod 8 = k"
  obtains t m where "f s = Some t" and "wrote t (w @ xs) m"
  using assms unfolding emits_def by blast

lemma appends_emits: "appends k f xs \<Longrightarrow> emits k f xs"
  unfolding appends_def emits_def by blast

lemma emits_bind:
  assumes "emits k f xs" and "emits ((k + length xs) mod 8) g ys"
  shows "emits k (\<lambda>s. Option.bind (f s) g) (xs @ ys)"
  unfolding emits_def
proof (intro allI impI)
  fix s w m assume s: "wrote s w m \<and> length w mod 8 = k"
  then obtain t m where t: "f s = Some t" "wrote t (w @ xs) m"
    using assms(1) by (auto elim: emitsE)
  have "length (w @ xs) mod 8 = (k + length xs) mod 8" using s mod_add_left_eq [of "length w" 8 "length xs"] by auto
  then obtain u m where "g t = Some u" "wrote u ((w @ xs) @ ys) m"
    using assms(2) t(2) by (auto elim: emitsE)
  then show "\<exists>u m. Option.bind (f s) g = Some u \<and> wrote u (w @ xs @ ys) m" using t by auto
qed

lemma emits_if: "(b \<Longrightarrow> emits k f xs) \<Longrightarrow> (\<not> b \<Longrightarrow> emits k g ys) \<Longrightarrow>
    emits k (\<lambda>s. if b then f s else g s) (if b then xs else ys)"
  by simp

lemma appends_cong_bits: "appends k f xs \<Longrightarrow> xs = ys \<Longrightarrow> appends k f ys"
  by simp

lemma emits_cong_bits: "emits k f xs \<Longrightarrow> xs = ys \<Longrightarrow> emits k f ys"
  by simp

end
