(* ===== verification/BitSyntax.thy ===== *)
theory BitSyntax
  imports BitFields AnnexB
begin

text \<open>
  Parameter sets are sequences of syntax elements: fields of fixed width, \<open>u(n)\<close>, and exp-Golomb
  codes, \<open>ue(v)\<close> and \<open>se(v)\<close>.

  \<open>scans f xs v\<close>: wherever a stream has the bits \<open>xs\<close> in front of it, the parser \<open>f\<close> returns \<open>v\<close> and
  moves past exactly those bits.  The rules build the bits of a parser from the bits of its parts,
  in the order in which it reads them.  The rules for \<open>gives\<close> show that a parser returns on every
  stream.
\<close>

unbundle bit_operations_syntax

section \<open>Syntax elements\<close>

abbreviation u_bits :: "nat \<Rightarrow> 'a::len word \<Rightarrow> bool list" where "u_bits \<equiv> bits_msb"

definition ue_bits :: "u64 \<Rightarrow> bool list" where "ue_bits v = exp_golomb (unat v)"

text \<open>The code number of a signed value: \<open>0, 1, -1, 2, -2, \<dots>\<close>.\<close>

definition se_code :: "int \<Rightarrow> nat" where
  "se_code x = (if x > 0 then nat (2 * x - 1) else nat (- 2 * x))"

definition se_bits :: "int \<Rightarrow> bool list" where "se_bits x = exp_golomb (se_code x)"

definition se_fits :: "int \<Rightarrow> bool" where "se_fits x \<longleftrightarrow> \<bar>x\<bar> < 2 ^ 61"

lemma se_value_code: "se_value (se_code x) = x"
  by (cases "x > 0") (auto simp: se_value_def se_code_def even_nat_iff nat_diff_distrib' nat_mult_distrib)

section \<open>Parsers of known bits\<close>

definition scans :: "(bitstream \<Rightarrow> ('a \<times> bitstream) option) \<Rightarrow> bool list \<Rightarrow> 'a \<Rightarrow> bool" where
  "scans f xs v \<longleftrightarrow> (\<forall>s r. ready s \<and> rest_bits s = xs @ r \<longrightarrow> f s = Some (v, advance (length xs) s))"

lemma scansD: "scans f xs v \<Longrightarrow> ready s \<Longrightarrow> rest_bits s = xs @ r \<Longrightarrow> f s = Some (v, advance (length xs) s)"
  unfolding scans_def by blast

lemma ready_past: "ready s \<Longrightarrow> rest_bits s = xs @ r \<Longrightarrow> ready (advance (length xs) s) \<and> rest_bits (advance (length xs) s) = r"
  by (simp add: rest_bits_advance)

lemma scans_bind:
  assumes "scans f xs v" and "scans (g v) ys w"
  shows "scans (\<lambda>s. Option.bind (f s) (\<lambda>(v, s). g v s)) (xs @ ys) w"
  using assms ready_past unfolding scans_def by (fastforce simp: add.commute)

lemma scans_Some: "v = w \<Longrightarrow> scans (\<lambda>s. Some (v, s)) [] w"
  by (simp add: scans_def ready_def bs_ok_def advance_0)

lemma scans_last: "scans f xs v \<Longrightarrow> h v = w \<Longrightarrow> scans (\<lambda>s. Option.bind (f s) (\<lambda>(v, s). Some (h v, s))) xs w"
  by (auto simp: scans_def)

lemma scans_pair:
  "scans f xs (a, b) \<Longrightarrow> scans (g a b) ys w \<Longrightarrow> scans (\<lambda>s. Option.bind (f s) (\<lambda>((a, b), s). g a b s)) (xs @ ys) w"
  using scans_bind [of f xs "(a, b)" "\<lambda>(a, b). g a b"] by (simp add: case_prod_beta')

lemma scans_eq: "scans f xs v \<Longrightarrow> v = w \<Longrightarrow> scans f xs w" by simp

lemma scans_else: "\<not> c \<Longrightarrow> scans g xs v \<Longrightarrow> scans (\<lambda>s. if c then f s else g s) xs v"
  and scans_then: "c \<Longrightarrow> scans f xs v \<Longrightarrow> scans (\<lambda>s. if c then f s else g s) xs v"
  by simp_all

lemma scans_let: "scans (f x) xs v \<Longrightarrow> scans (\<lambda>s. let y = x in f y s) xs v" by simp

lemma scans_skip:
  assumes "0 \<le> n" "length xs = nat n" and "scans g ys w"
  shows "scans (\<lambda>s. g (SkipBits n s)) (xs @ ys) w"
  unfolding scans_def
proof (intro allI impI)
  fix s r assume "ready s \<and> rest_bits s = (xs @ ys) @ r"
  then have s: "ready s" "rest_bits s = xs @ (ys @ r)" by simp_all
  then have "SkipBits n s = advance (length xs) s" using SkipBits_ready [of s "nat n"] assms(1,2) by simp
  then show "g (SkipBits n s) = Some (w, advance (length (xs @ ys)) s)"
    using scansD [OF assms(3), of "advance (length xs) s" r] ready_past [OF s] by (simp add: add.commute)
qed

lemma scans_skip_let:
  "0 \<le> n \<Longrightarrow> length xs = nat n \<Longrightarrow> scans g ys w \<Longrightarrow> scans (\<lambda>s. let s = SkipBits n s in g s) (xs @ ys) w"
  using scans_skip [of n xs g ys w] by simp

lemma scans_if:
  "(c \<Longrightarrow> scans f xs v) \<Longrightarrow> (\<not> c \<Longrightarrow> scans g ys v) \<Longrightarrow> scans (\<lambda>s. if c then f s else g s) (if c then xs else ys) v"
  by simp

lemma scans_word:
  fixes v :: "'a::len word"
  assumes "0 \<le> n" "n \<le> 64" "fits (nat n) v" "LENGTH('a) \<le> 64"
  shows "scans (\<lambda>s. map_option (\<lambda>(v, s). (ucast v, s)) (GetBits n s)) (u_bits (nat n) v) v"
  unfolding scans_def
proof (intro allI impI)
  fix s r assume s: "ready s \<and> rest_bits s = u_bits (nat n) v @ r"
  then have "GetBits (int (nat n)) s = Some (of_msb (take (nat n) (rest_bits s)), advance (nat n) s)"
    using assms by (intro GetBits_ready) auto
  moreover have "ucast (of_msb (u_bits (nat n) v) :: u64) = v"
    using assms by (simp add: ucast_of_msb of_msb_fits)
  ultimately show "map_option (\<lambda>(v, s). (ucast v, s)) (GetBits n s) = Some (v, advance (length (u_bits (nat n) v)) s)"
    using s assms(1) by simp
qed

lemma scans_GetBits:
  assumes "0 \<le> n" "n \<le> 64" "fits (nat n) v" shows "scans (GetBits n) (u_bits (nat n) v) v"
proof -
  have "map_option (\<lambda>(v, s). (ucast v, s)) m = m" for m :: "(u64 \<times> bitstream) option" by (cases m) auto
  then show ?thesis using scans_word [OF assms] by simp
qed

lemma scans_Uint:
  "0 \<le> n \<Longrightarrow> n \<le> 64 \<Longrightarrow> fits (nat n) v \<Longrightarrow> scans (Uint8 n) (u_bits (nat n) v) v"
  "0 \<le> n \<Longrightarrow> n \<le> 64 \<Longrightarrow> fits (nat n) w \<Longrightarrow> scans (Uint16 n) (u_bits (nat n) w) w"
  "0 \<le> n \<Longrightarrow> n \<le> 64 \<Longrightarrow> fits (nat n) x \<Longrightarrow> scans (Uint32 n) (u_bits (nat n) x) x"
  using scans_word [of n v] scans_word [of n w] scans_word [of n x]
  by (simp_all add: Uint8_def [abs_def] Uint16_def [abs_def] Uint32_def [abs_def])

lemma scans_GetBit:
  fixes v :: byte assumes "fits 1 v" shows "scans GetBit (u_bits 1 v) v"
  unfolding scans_def
proof (intro allI impI)
  fix s r assume s: "ready s \<and> rest_bits s = u_bits 1 v @ r"
  moreover have "of_bool (bit v 0) = v"
    using fits_bit [OF assms] by (intro bit_word_eqI) (metis One_nat_def Suc_leI bit_of_bool_iff gr0I)
  moreover have "u_bits 1 v = [bit v 0]" by (rule nth_equalityI) simp_all
  ultimately show "GetBit s = Some (v, advance (length (u_bits 1 v)) s)" using GetBit_ready [of s "bit v 0" r] by simp
qed

lemma scans_ReadUE: "v \<noteq> - 1 \<Longrightarrow> scans ReadUE (ue_bits v) v"
proof -
  assume "v \<noteq> - 1"
  then have "v < - 1" by (metis word_order.extremum order_le_neq_trans)
  then have "unat v < 2 ^ 64 - 1" by (simp add: word_less_nat_alt unsigned_minus_1_eq_mask mask_eq_exp_minus_1)
  then show ?thesis using ReadUE_exp_golomb [of _ "unat v"] by (simp add: scans_def ue_bits_def)
qed

lemma scans_ReadSE: "se_fits x \<Longrightarrow> scans ReadSE (se_bits x) x"
proof -
  assume "se_fits x"
  then have "se_code x < 2 ^ 63 - 1" by (auto simp: se_fits_def se_code_def)
  then show ?thesis using ReadSE_exp_golomb [of _ "se_code x"] by (simp add: scans_def se_bits_def se_value_code)
qed

lemma scans_numeral:
  fixes v :: byte and w :: u16 and x :: u32 and y :: u64
  shows "fits 1 v \<Longrightarrow> scans (Uint8 1) (u_bits 1 v) v"
    and "(numeral k :: int) \<le> 64 \<Longrightarrow> fits (numeral k) v \<Longrightarrow> scans (Uint8 (numeral k)) (u_bits (numeral k) v) v"
    and "(numeral k :: int) \<le> 64 \<Longrightarrow> fits (numeral k) w \<Longrightarrow> scans (Uint16 (numeral k)) (u_bits (numeral k) w) w"
    and "(numeral k :: int) \<le> 64 \<Longrightarrow> fits (numeral k) x \<Longrightarrow> scans (Uint32 (numeral k)) (u_bits (numeral k) x) x"
    and "(numeral k :: int) \<le> 64 \<Longrightarrow> fits (numeral k) y \<Longrightarrow> scans (GetBits (numeral k)) (u_bits (numeral k) y) y"
  using scans_Uint(1) [of 1 v] scans_Uint [of "numeral k"] scans_GetBits [of "numeral k" y] by simp_all

text \<open>The same for a parser of which only the stream behind it is used.\<close>

definition moves :: "(bitstream \<Rightarrow> bitstream option) \<Rightarrow> bool list \<Rightarrow> bool" where
  "moves f xs \<longleftrightarrow> (\<forall>s r. ready s \<and> rest_bits s = xs @ r \<longrightarrow> f s = Some (advance (length xs) s))"

lemma moves_scans: "moves f xs \<longleftrightarrow> scans (\<lambda>s. map_option (Pair ()) (f s)) xs ()"
  by (auto simp: moves_def scans_def)

lemma moves_bind: "scans f xs v \<Longrightarrow> moves (g v) ys \<Longrightarrow> moves (\<lambda>s. Option.bind (f s) (\<lambda>(v, s). g v s)) (xs @ ys)"
  using ready_past unfolding moves_def scans_def by (fastforce simp: add.commute)

lemma moves_then: "moves f xs \<Longrightarrow> moves g ys \<Longrightarrow> moves (\<lambda>s. Option.bind (f s) g) (xs @ ys)"
  using ready_past unfolding moves_def by (fastforce simp: add.commute)

lemma scans_moves: "moves f xs \<Longrightarrow> scans g ys v \<Longrightarrow> scans (\<lambda>s. Option.bind (f s) g) (xs @ ys) v"
  using ready_past unfolding moves_def scans_def by (fastforce simp: add.commute)

lemma moves_Some: "moves Some []"
  by (simp add: moves_def ready_def bs_ok_def advance_0)

lemma moves_if: "(c \<Longrightarrow> moves f xs) \<Longrightarrow> (\<not> c \<Longrightarrow> moves g ys) \<Longrightarrow> moves (\<lambda>s. if c then f s else g s) (if c then xs else ys)"
  by simp

lemma fits_of_bool [simp]: "fits (Suc 0) (of_bool b :: byte)" by (cases b) (simp_all add: fits_def)

lemmas scans_rules = scans_let scans_last scans_bind scans_Some scans_if scans_numeral scans_GetBit scans_ReadUE scans_ReadSE

text \<open>A loop reads the bits of its items, one behind the other.\<close>

primrec scan_list :: "nat \<Rightarrow> (bitstream \<Rightarrow> ('a \<times> bitstream) option) \<Rightarrow> bitstream \<Rightarrow> ('a list \<times> bitstream) option" where
  "scan_list 0 f s = Some ([], s)"
| "scan_list (Suc n) f s = do { (x, s) \<leftarrow> f s; (xs, s) \<leftarrow> scan_list n f s; Some (x # xs, s) }"

lemma scans_scan_list: "(\<And>x. x \<in> set xs \<Longrightarrow> scans f (b x) x) \<Longrightarrow> n = length xs \<Longrightarrow> scans (scan_list n f) (concat (map b xs)) xs"
proof (induction xs arbitrary: n)
  case Nil
  then show ?case by (simp add: scans_Some)
next
  case (Cons x xs)
  have "scans (\<lambda>s. Option.bind (scan_list (length xs) f s) (\<lambda>(xs, s). Some (x # xs, s))) (concat (map b xs) @ []) (x # xs)"
    using Cons by (intro scans_bind [OF Cons.IH] scans_Some) auto
  then have "scans (\<lambda>s. Option.bind (f s) (\<lambda>(x, s). Option.bind (scan_list (length xs) f s) (\<lambda>(xs, s). Some (x # xs, s))))
      (b x @ concat (map b xs)) (x # xs)"
    using Cons.prems(1) by (intro scans_bind) auto
  then show ?case using Cons.prems(2) by (simp add: scans_def)
qed

section \<open>Parsers on any bits\<close>

lemma gives_codes: "bs_ok s \<Longrightarrow> gives at_ok (ReadUE s)" "bs_ok s \<Longrightarrow> gives at_ok (ReadSE s)"
  using ReadUE_total ReadSE_total by (force simp: gives_def)+

lemma gives_scan_list: "(\<And>s. bs_ok s \<Longrightarrow> gives at_ok (f s)) \<Longrightarrow> bs_ok s \<Longrightarrow> gives at_ok (scan_list n f s)"
  by (induction n arbitrary: s) (auto intro!: gives_read_bind)

lemma gives_Fail [simp]: "bs_ok s \<Longrightarrow> bs_ok (Fail e s)" by (simp add: Fail_def bs_ok_def pos_def)

lemma gives_let: "gives Q (f x) \<Longrightarrow> gives Q (Let x f)" by simp

lemma gives_Some_pair: "bs_ok t \<Longrightarrow> gives at_ok (Some (v, t))" by simp

lemma gives_pair_split:
  assumes "gives at_ok m" and "\<And>a b t. bs_ok t \<Longrightarrow> gives Q (f a b t)"
  shows "gives Q (Option.bind m (\<lambda>((a, b), t). f a b t))"
  using assms by (fastforce simp: gives_def)

lemma gives_stream_bind: "gives bs_ok m \<Longrightarrow> (\<And>t. bs_ok t \<Longrightarrow> gives Q (f t)) \<Longrightarrow> gives Q (Option.bind m f)"
  by (auto simp: gives_def)

lemma gives_stream: "bs_ok t \<Longrightarrow> gives bs_ok (Some t)" by simp

named_theorems parse_total \<open>rules that show that a parser returns on every stream\<close>

lemmas [parse_total] = gives_let gives_intros gives_codes gives_scan_list gives_Some_pair gives_pair_split
  gives_stream_bind gives_stream gives_Fail bs_ok_moves

text \<open>After an error every read returns zero and leaves the stream as it is.\<close>

lemma failed_reads:
  assumes "bs_err s \<noteq> None"
  shows "GetBits n s = Some (0, s)" "GetBit s = Some (0, s)" "Uint8 n s = Some (0, s)" "Uint16 n s = Some (0, s)"
    "Uint32 n s = Some (0, s)" "ReadUE s = Some (0, s)" "ReadSE s = Some (0, s)" "SkipBits n s = s"
  using assms by (simp_all add: GetBits_failed GetBit_def Uint8_def Uint16_def Uint32_def ReadUE_def
      ReadUE_loop.simps [of 0 s] ReadSE_def SkipBits_def)

end
