(* ===== verification/H264.thy ===== *)
theory H264
  imports BitSyntax
begin

text \<open>
  H.264 parameter sets and the configuration record, \<open>go-codec/h264.go\<close>.

  Every \<open>Decode\<close> is called on a fresh value, so it is a function of the stream; the fields it does
  not reach are the zeroes of \<open>zero_SPS\<close>, \<open>zero_VUI\<close> and \<open>zero_HRD\<close>.  It returns the value and the
  stream, whose error the caller looks at.  Extra data and resolution return a Go error as the left
  side of a sum.

  The lemmas: the decoder reads the syntax of the standard (7.3.2.1.1 and annex E), and so the
  resolution is the one the standard defines; a configuration record is split into the parameter
  sets it was made of; no bytes make a decoder panic; the decoder of SEI messages does not end on a
  type of 255 or more.
\<close>

unbundle bit_operations_syntax

section \<open>Units and picture parameter sets\<close>

record H264NaluHdr =
  nh_Forbidden_zero_bit :: byte
  nh_Nal_ref_idc :: byte
  nh_Nal_unit_type :: byte

definition H264NaluHdr_Decode :: "bitstream \<Rightarrow> (H264NaluHdr \<times> bitstream) option" where
  "H264NaluHdr_Decode bs = do {
     (z, bs) \<leftarrow> GetBit bs;
     (ref, bs) \<leftarrow> Uint8 2 bs;
     (t, bs) \<leftarrow> Uint8 5 bs;
     Some (\<lparr>nh_Forbidden_zero_bit = z, nh_Nal_ref_idc = ref, nh_Nal_unit_type = t\<rparr>, bs)
   }"

record PPS =
  pps_Pic_parameter_set_id :: u64
  pps_Seq_parameter_set_id :: u64
  pps_Entropy_coding_mode_flag :: byte
  pps_Bottom_field_pic_order_in_frame_present_flag :: byte
  pps_Num_slice_groups_minus1 :: u64

definition PPS_Decode :: "bitstream \<Rightarrow> (PPS \<times> bitstream) option" where
  "PPS_Decode bs = do {
     (pid, bs) \<leftarrow> ReadUE bs;
     (sid, bs) \<leftarrow> ReadUE bs;
     (entropy, bs) \<leftarrow> GetBit bs;
     (bottom, bs) \<leftarrow> GetBit bs;
     (groups, bs) \<leftarrow> ReadUE bs;
     Some (\<lparr>pps_Pic_parameter_set_id = pid, pps_Seq_parameter_set_id = sid, pps_Entropy_coding_mode_flag = entropy,
       pps_Bottom_field_pic_order_in_frame_present_flag = bottom, pps_Num_slice_groups_minus1 = groups\<rparr>, bs)
   }"

definition GetSPSId :: "bytes \<Rightarrow> u64 option" where
  "GetSPSId sps = (if glen sps < 1 then Some 0 else do {
     b \<leftarrow> slice_from sps 1;
     (v, bs) \<leftarrow> ReadUE (SkipBits 24 (NewBitStream b));
     Some v
   })"

definition GetSPSIdWithStartCode :: "bytes \<Rightarrow> u64 option" where
  "GetSPSIdWithStartCode sps = do {
     off \<leftarrow> naluOffset sps;
     if off < 0 then Some 0 else do { b \<leftarrow> slice_from sps off; GetSPSId b }
   }"

definition GetPPSId :: "bytes \<Rightarrow> u64 option" where
  "GetPPSId pps = (if glen pps < 1 then Some 0 else do {
     b \<leftarrow> slice_from pps 1;
     (v, bs) \<leftarrow> ReadUE (NewBitStream b);
     Some v
   })"

definition GetPPSIdWithStartCode :: "bytes \<Rightarrow> u64 option" where
  "GetPPSIdWithStartCode pps = do {
     off \<leftarrow> naluOffset pps;
     if off < 0 then Some 0 else do { b \<leftarrow> slice_from pps off; GetPPSId b }
   }"

section \<open>Video usability information\<close>

record H264BitRateCpbSizeCbrFlag =
  cb_BitRateValueMinus1 :: u64
  cb_CpbSizeValueMinus1 :: u64
  cb_CbrFlag :: byte

record H264HrdParameters =
  hrd_CpbCntMinus1 :: u64
  hrd_BitRateScale :: byte
  hrd_CpbSizeScale :: byte
  hrd_BitRateCpbSizeCbrFlag :: "H264BitRateCpbSizeCbrFlag list"
  hrd_InitialCpbRemovalDelayLengthMinus1 :: byte
  hrd_CpbRemovalDelayLengthMinus1 :: byte
  hrd_DpbOutputDelayLengthMinus1 :: byte
  hrd_TimeOffsetLength :: byte

definition zero_HRD :: H264HrdParameters where
  "zero_HRD = \<lparr>hrd_CpbCntMinus1 = 0, hrd_BitRateScale = 0, hrd_CpbSizeScale = 0, hrd_BitRateCpbSizeCbrFlag = [],
     hrd_InitialCpbRemovalDelayLengthMinus1 = 0, hrd_CpbRemovalDelayLengthMinus1 = 0,
     hrd_DpbOutputDelayLengthMinus1 = 0, hrd_TimeOffsetLength = 0\<rparr>"

definition read_cbr :: "bitstream \<Rightarrow> (H264BitRateCpbSizeCbrFlag \<times> bitstream) option" where
  "read_cbr bs = do {
     (rate, bs) \<leftarrow> ReadUE bs;
     (cpb, bs) \<leftarrow> ReadUE bs;
     (flag, bs) \<leftarrow> Uint8 1 bs;
     Some (\<lparr>cb_BitRateValueMinus1 = rate, cb_CpbSizeValueMinus1 = cpb, cb_CbrFlag = flag\<rparr>, bs)
   }"

definition HRD_Decode :: "bitstream \<Rightarrow> (H264HrdParameters \<times> bitstream) option" where
  "HRD_Decode bs = do {
     (cnt, bs) \<leftarrow> ReadUE bs;
     (rate, bs) \<leftarrow> Uint8 4 bs;
     (cpb, bs) \<leftarrow> Uint8 4 bs;
     let hrd = zero_HRD\<lparr>hrd_CpbCntMinus1 := cnt, hrd_BitRateScale := rate, hrd_CpbSizeScale := cpb\<rparr>;
     if cnt > 31 then Some (hrd, Fail (ErrMsg ''h264: cpb_cnt_minus1 > 31'') bs)
     else do {
       (flags, bs) \<leftarrow> scan_list (unat cnt + 1) read_cbr bs;
       (initial, bs) \<leftarrow> Uint8 5 bs;
       (removal, bs) \<leftarrow> Uint8 5 bs;
       (dpb, bs) \<leftarrow> Uint8 5 bs;
       (off, bs) \<leftarrow> Uint8 5 bs;
       Some (hrd\<lparr>hrd_BitRateCpbSizeCbrFlag := flags, hrd_InitialCpbRemovalDelayLengthMinus1 := initial,
         hrd_CpbRemovalDelayLengthMinus1 := removal, hrd_DpbOutputDelayLengthMinus1 := dpb, hrd_TimeOffsetLength := off\<rparr>, bs)
     }
   }"

text \<open>The fields behind \<open>LowDelayHrdFlag\<close> are not read (the code says why) and are left out.\<close>

record H264VuiParameters =
  vui_AspectRatioInfoPresentFlag :: byte
  vui_AspectRatioIdc :: byte
  vui_SarWidth :: u16
  vui_SarHeight :: u16
  vui_OverscanInfoPresentFlag :: byte
  vui_OverscanAppropriateFlag :: byte
  vui_VideoSignalTypePresentFlag :: byte
  vui_VideoFormat :: byte
  vui_VideoFullRangeFlag :: byte
  vui_ColourDescriptionPresentFlag :: byte
  vui_ColourPrimaries :: byte
  vui_TransferCharacteristics :: byte
  vui_MatrixCoefficients :: byte
  vui_ChromaLocInfoPresentFlag :: byte
  vui_ChromaSampleLocTypeTopField :: u64
  vui_ChromaSampleLocTypeBottomField :: u64
  vui_TimingInfoPresentFlag :: byte
  vui_NumUnitsInTick :: u32
  vui_TimeScale :: u32
  vui_FixedFrameRateFlag :: byte
  vui_NalHrdParametersPresentFlag :: byte
  vui_NalHrdParameters :: H264HrdParameters
  vui_VclHrdParametersPresentFlag :: byte
  vui_VclHrdParameters :: H264HrdParameters
  vui_LowDelayHrdFlag :: byte

definition zero_VUI :: H264VuiParameters where
  "zero_VUI = \<lparr>vui_AspectRatioInfoPresentFlag = 0, vui_AspectRatioIdc = 0, vui_SarWidth = 0, vui_SarHeight = 0,
     vui_OverscanInfoPresentFlag = 0, vui_OverscanAppropriateFlag = 0, vui_VideoSignalTypePresentFlag = 0, vui_VideoFormat = 0,
     vui_VideoFullRangeFlag = 0, vui_ColourDescriptionPresentFlag = 0, vui_ColourPrimaries = 0, vui_TransferCharacteristics = 0,
     vui_MatrixCoefficients = 0, vui_ChromaLocInfoPresentFlag = 0, vui_ChromaSampleLocTypeTopField = 0,
     vui_ChromaSampleLocTypeBottomField = 0, vui_TimingInfoPresentFlag = 0, vui_NumUnitsInTick = 0, vui_TimeScale = 0,
     vui_FixedFrameRateFlag = 0, vui_NalHrdParametersPresentFlag = 0, vui_NalHrdParameters = zero_HRD,
     vui_VclHrdParametersPresentFlag = 0, vui_VclHrdParameters = zero_HRD, vui_LowDelayHrdFlag = 0\<rparr>"

definition vui_aspect :: "H264VuiParameters \<Rightarrow> bitstream \<Rightarrow> (H264VuiParameters \<times> bitstream) option" where
  "vui_aspect vui bs = do {
     (present, bs) \<leftarrow> Uint8 1 bs;
     let vui = vui\<lparr>vui_AspectRatioInfoPresentFlag := present\<rparr>;
     if present = 1 then do {
       (idc, bs) \<leftarrow> Uint8 8 bs;
       let vui = vui\<lparr>vui_AspectRatioIdc := idc\<rparr>;
       if idc = 255 then do {
         (w, bs) \<leftarrow> Uint16 16 bs;
         (h, bs) \<leftarrow> Uint16 16 bs;
         Some (vui\<lparr>vui_SarWidth := w, vui_SarHeight := h\<rparr>, bs)
       } else Some (vui, bs)
     } else Some (vui, bs)
   }"

definition vui_overscan :: "H264VuiParameters \<Rightarrow> bitstream \<Rightarrow> (H264VuiParameters \<times> bitstream) option" where
  "vui_overscan vui bs = do {
     (present, bs) \<leftarrow> Uint8 1 bs;
     let vui = vui\<lparr>vui_OverscanInfoPresentFlag := present\<rparr>;
     if present = 1 then do {
       (a, bs) \<leftarrow> Uint8 1 bs;
       Some (vui\<lparr>vui_OverscanAppropriateFlag := a\<rparr>, bs)
     } else Some (vui, bs)
   }"

definition vui_colour :: "H264VuiParameters \<Rightarrow> bitstream \<Rightarrow> (H264VuiParameters \<times> bitstream) option" where
  "vui_colour vui bs = do {
     (present, bs) \<leftarrow> Uint8 1 bs;
     let vui = vui\<lparr>vui_ColourDescriptionPresentFlag := present\<rparr>;
     if present = 1 then do {
       (p, bs) \<leftarrow> Uint8 8 bs;
       (t, bs) \<leftarrow> Uint8 8 bs;
       (m, bs) \<leftarrow> Uint8 8 bs;
       Some (vui\<lparr>vui_ColourPrimaries := p, vui_TransferCharacteristics := t, vui_MatrixCoefficients := m\<rparr>, bs)
     } else Some (vui, bs)
   }"

definition vui_signal :: "H264VuiParameters \<Rightarrow> bitstream \<Rightarrow> (H264VuiParameters \<times> bitstream) option" where
  "vui_signal vui bs = do {
     (present, bs) \<leftarrow> Uint8 1 bs;
     let vui = vui\<lparr>vui_VideoSignalTypePresentFlag := present\<rparr>;
     if present = 1 then do {
       (fmt, bs) \<leftarrow> Uint8 3 bs;
       (range, bs) \<leftarrow> Uint8 1 bs;
       vui_colour (vui\<lparr>vui_VideoFormat := fmt, vui_VideoFullRangeFlag := range\<rparr>) bs
     } else Some (vui, bs)
   }"

definition vui_chroma :: "H264VuiParameters \<Rightarrow> bitstream \<Rightarrow> (H264VuiParameters \<times> bitstream) option" where
  "vui_chroma vui bs = do {
     (present, bs) \<leftarrow> Uint8 1 bs;
     let vui = vui\<lparr>vui_ChromaLocInfoPresentFlag := present\<rparr>;
     if present = 1 then do {
       (top, bs) \<leftarrow> ReadUE bs;
       (bottom, bs) \<leftarrow> ReadUE bs;
       Some (vui\<lparr>vui_ChromaSampleLocTypeTopField := top, vui_ChromaSampleLocTypeBottomField := bottom\<rparr>, bs)
     } else Some (vui, bs)
   }"

definition vui_timing :: "H264VuiParameters \<Rightarrow> bitstream \<Rightarrow> (H264VuiParameters \<times> bitstream) option" where
  "vui_timing vui bs = do {
     (present, bs) \<leftarrow> Uint8 1 bs;
     let vui = vui\<lparr>vui_TimingInfoPresentFlag := present\<rparr>;
     if present = 1 then do {
       (units, bs) \<leftarrow> Uint32 32 bs;
       (scale, bs) \<leftarrow> Uint32 32 bs;
       (fixed, bs) \<leftarrow> Uint8 1 bs;
       Some (vui\<lparr>vui_NumUnitsInTick := units, vui_TimeScale := scale, vui_FixedFrameRateFlag := fixed\<rparr>, bs)
     } else Some (vui, bs)
   }"

definition read_hrd :: "bitstream \<Rightarrow> ((byte \<times> H264HrdParameters) \<times> bitstream) option" where
  "read_hrd bs = do {
     (present, bs) \<leftarrow> Uint8 1 bs;
     if present = 1 then do { (hrd, bs) \<leftarrow> HRD_Decode bs; Some ((present, hrd), bs) }
     else Some ((present, zero_HRD), bs)
   }"

definition vui_hrds :: "H264VuiParameters \<Rightarrow> bitstream \<Rightarrow> (H264VuiParameters \<times> bitstream) option" where
  "vui_hrds vui bs = do {
     ((nal, nalHrd), bs) \<leftarrow> read_hrd bs;
     ((vcl, vclHrd), bs) \<leftarrow> read_hrd bs;
     (low, bs) \<leftarrow> (if nal = 1 \<or> vcl = 1 then Uint8 1 bs else Some (0, bs));
     Some (vui\<lparr>vui_NalHrdParametersPresentFlag := nal, vui_NalHrdParameters := nalHrd, vui_VclHrdParametersPresentFlag := vcl,
       vui_VclHrdParameters := vclHrd, vui_LowDelayHrdFlag := low\<rparr>, bs)
   }"

definition VUI_Decode :: "bitstream \<Rightarrow> (H264VuiParameters \<times> bitstream) option" where
  "VUI_Decode bs = do {
     (vui, bs) \<leftarrow> vui_aspect zero_VUI bs;
     (vui, bs) \<leftarrow> vui_overscan vui bs;
     (vui, bs) \<leftarrow> vui_signal vui bs;
     (vui, bs) \<leftarrow> vui_chroma vui bs;
     (vui, bs) \<leftarrow> vui_timing vui bs;
     vui_hrds vui bs
   }"

section \<open>Sequence parameter sets\<close>

record SPS =
  sps_Profile_idc :: byte
  sps_Constraint_set0_flag :: byte
  sps_Constraint_set1_flag :: byte
  sps_Constraint_set2_flag :: byte
  sps_Constraint_set3_flag :: byte
  sps_Constraint_set4_flag :: byte
  sps_Constraint_set5_flag :: byte
  sps_Reserved_zero_2bits :: byte
  sps_Level_idc :: byte
  sps_Seq_parameter_set_id :: u64
  sps_Chroma_format_idc :: u64
  sps_Separate_colour_plane_flag :: byte
  sps_Bit_depth_luma_minus8 :: u64
  sps_Bit_depth_chroma_minus8 :: u64
  sps_Log2_max_frame_num_minus4 :: u64
  sps_Pic_order_cnt_type :: u64
  sps_Log2_max_pic_order_cnt_lsb_minus4 :: u64
  sps_Delta_pic_order_always_zero_flag :: byte
  sps_Offset_for_non_ref_pic :: int
  sps_Offset_for_top_to_bottom_field :: int
  sps_Offset_for_ref_frame :: "int list"
  sps_Max_num_ref_frames :: u64
  sps_Gaps_in_frame_num_value_allowed_flag :: byte
  sps_Pic_width_in_mbs_minus1 :: u64
  sps_Pic_height_in_map_units_minus1 :: u64
  sps_Frame_mbs_only_flag :: byte
  sps_Mb_adaptive_frame_field_flag :: byte
  sps_Direct_8x8_inference_flag :: byte
  sps_Frame_cropping_flag :: byte
  sps_Frame_crop_left_offset :: u64
  sps_Frame_crop_right_offset :: u64
  sps_Frame_crop_top_offset :: u64
  sps_Frame_crop_bottom_offset :: u64
  sps_Vui_parameters_present_flag :: byte
  sps_VuiParameters :: H264VuiParameters

definition zero_SPS :: SPS where
  "zero_SPS = \<lparr>sps_Profile_idc = 0, sps_Constraint_set0_flag = 0, sps_Constraint_set1_flag = 0, sps_Constraint_set2_flag = 0,
     sps_Constraint_set3_flag = 0, sps_Constraint_set4_flag = 0, sps_Constraint_set5_flag = 0, sps_Reserved_zero_2bits = 0,
     sps_Level_idc = 0, sps_Seq_parameter_set_id = 0, sps_Chroma_format_idc = 0, sps_Separate_colour_plane_flag = 0,
     sps_Bit_depth_luma_minus8 = 0, sps_Bit_depth_chroma_minus8 = 0, sps_Log2_max_frame_num_minus4 = 0,
     sps_Pic_order_cnt_type = 0, sps_Log2_max_pic_order_cnt_lsb_minus4 = 0, sps_Delta_pic_order_always_zero_flag = 0,
     sps_Offset_for_non_ref_pic = 0, sps_Offset_for_top_to_bottom_field = 0, sps_Offset_for_ref_frame = [],
     sps_Max_num_ref_frames = 0, sps_Gaps_in_frame_num_value_allowed_flag = 0, sps_Pic_width_in_mbs_minus1 = 0,
     sps_Pic_height_in_map_units_minus1 = 0, sps_Frame_mbs_only_flag = 0, sps_Mb_adaptive_frame_field_flag = 0,
     sps_Direct_8x8_inference_flag = 0, sps_Frame_cropping_flag = 0, sps_Frame_crop_left_offset = 0,
     sps_Frame_crop_right_offset = 0, sps_Frame_crop_top_offset = 0, sps_Frame_crop_bottom_offset = 0,
     sps_Vui_parameters_present_flag = 0, sps_VuiParameters = zero_VUI\<rparr>"

definition hasChromaFormatIdc :: "byte \<Rightarrow> bool" where
  "hasChromaFormatIdc profileIdc \<longleftrightarrow> profileIdc \<in> {100, 110, 122, 244, 44, 83, 86, 118, 128, 138, 139, 134, 135}"

text \<open>The loop of \<open>skipScalingList\<close> with \<open>n\<close> rounds to go; the remainder has the sign of the dividend.\<close>

fun skip_scaling :: "nat \<Rightarrow> int \<Rightarrow> int \<Rightarrow> bitstream \<Rightarrow> bitstream option" where
  "skip_scaling 0 lastScale nextScale bs = Some bs"
| "skip_scaling (Suc n) lastScale nextScale bs = do {
     (nextScale, bs) \<leftarrow> (if nextScale \<noteq> 0 then do {
         (delta, bs) \<leftarrow> ReadSE bs;
         let v = wrap64 (lastScale + delta + 256);
         Some (v - 256 * go_div v 256, bs)
       } else Some (nextScale, bs));
     skip_scaling n (if nextScale \<noteq> 0 then nextScale else lastScale) nextScale bs
   }"

definition skipScalingList :: "nat \<Rightarrow> bitstream \<Rightarrow> bitstream option" where
  "skipScalingList n bs = skip_scaling n 8 8 bs"

fun skip_lists :: "nat \<Rightarrow> nat \<Rightarrow> bitstream \<Rightarrow> bitstream option" where
  "skip_lists i 0 bs = Some bs"
| "skip_lists i (Suc n) bs = do {
     (present, bs) \<leftarrow> GetBit bs;
     bs \<leftarrow> (if present = 1 then skipScalingList (if i < 6 then 16 else 64) bs else Some bs);
     skip_lists (i + 1) n bs
   }"

definition sps_head :: "SPS \<Rightarrow> bitstream \<Rightarrow> (SPS \<times> bitstream) option" where
  "sps_head sps bs = do {
     (profile, bs) \<leftarrow> Uint8 8 bs;
     (c0, bs) \<leftarrow> GetBit bs;
     (c1, bs) \<leftarrow> GetBit bs;
     (c2, bs) \<leftarrow> GetBit bs;
     (c3, bs) \<leftarrow> GetBit bs;
     (c4, bs) \<leftarrow> GetBit bs;
     (c5, bs) \<leftarrow> GetBit bs;
     (reserved, bs) \<leftarrow> Uint8 2 bs;
     (level, bs) \<leftarrow> Uint8 8 bs;
     (sid, bs) \<leftarrow> ReadUE bs;
     Some (sps\<lparr>sps_Profile_idc := profile, sps_Constraint_set0_flag := c0, sps_Constraint_set1_flag := c1,
       sps_Constraint_set2_flag := c2, sps_Constraint_set3_flag := c3, sps_Constraint_set4_flag := c4,
       sps_Constraint_set5_flag := c5, sps_Reserved_zero_2bits := reserved, sps_Level_idc := level,
       sps_Seq_parameter_set_id := sid\<rparr>, bs)
   }"

definition sps_chroma :: "SPS \<Rightarrow> bitstream \<Rightarrow> (SPS \<times> bitstream) option" where
  "sps_chroma sps bs = (if hasChromaFormatIdc (sps_Profile_idc sps) then do {
     (chroma, bs) \<leftarrow> ReadUE bs;
     (plane, bs) \<leftarrow> (if chroma = 3 then Uint8 1 bs else Some (sps_Separate_colour_plane_flag sps, bs));
     (luma8, bs) \<leftarrow> ReadUE bs;
     (chroma8, bs) \<leftarrow> ReadUE bs;
     let bs = SkipBits 1 bs;
     (matrix, bs) \<leftarrow> GetBit bs;
     bs \<leftarrow> (if matrix = 1 then skip_lists 0 (if chroma = 3 then 12 else 8) bs else Some bs);
     Some (sps\<lparr>sps_Chroma_format_idc := chroma, sps_Separate_colour_plane_flag := plane,
       sps_Bit_depth_luma_minus8 := luma8, sps_Bit_depth_chroma_minus8 := chroma8\<rparr>, bs)
   } else Some (sps, bs))"

text \<open>The flag says whether \<open>Decode\<close> goes on.\<close>

definition sps_order :: "SPS \<Rightarrow> bitstream \<Rightarrow> ((bool \<times> SPS) \<times> bitstream) option" where
  "sps_order sps bs = do {
     (frame, bs) \<leftarrow> ReadUE bs;
     (t, bs) \<leftarrow> ReadUE bs;
     let sps = sps\<lparr>sps_Log2_max_frame_num_minus4 := frame, sps_Pic_order_cnt_type := t\<rparr>;
     if t = 0 then do {
       (lsb, bs) \<leftarrow> ReadUE bs;
       Some ((True, sps\<lparr>sps_Log2_max_pic_order_cnt_lsb_minus4 := lsb\<rparr>), bs)
     } else if t = 1 then do {
       (zero, bs) \<leftarrow> GetBit bs;
       (nonref, bs) \<leftarrow> ReadSE bs;
       (bottom, bs) \<leftarrow> ReadSE bs;
       let sps = sps\<lparr>sps_Delta_pic_order_always_zero_flag := zero, sps_Offset_for_non_ref_pic := nonref,
         sps_Offset_for_top_to_bottom_field := bottom\<rparr>;
       (n, bs) \<leftarrow> ReadUE bs;
       if n > 255 then Some ((False, sps), Fail (ErrMsg ''h264: num_ref_frames_in_pic_order_cnt_cycle > 255'') bs)
       else do {
         (offs, bs) \<leftarrow> scan_list (unat n) ReadSE bs;
         Some ((True, sps\<lparr>sps_Offset_for_ref_frame := offs\<rparr>), bs)
       }
     } else Some ((True, sps), bs)
   }"

definition sps_frame :: "SPS \<Rightarrow> bitstream \<Rightarrow> (SPS \<times> bitstream) option" where
  "sps_frame sps bs = do {
     (refs, bs) \<leftarrow> ReadUE bs;
     (gaps, bs) \<leftarrow> GetBit bs;
     (width, bs) \<leftarrow> ReadUE bs;
     (height, bs) \<leftarrow> ReadUE bs;
     (only, bs) \<leftarrow> GetBit bs;
     (adaptive, bs) \<leftarrow> (if only = 0 then GetBit bs else Some (sps_Mb_adaptive_frame_field_flag sps, bs));
     (direct, bs) \<leftarrow> GetBit bs;
     Some (sps\<lparr>sps_Max_num_ref_frames := refs, sps_Gaps_in_frame_num_value_allowed_flag := gaps,
       sps_Pic_width_in_mbs_minus1 := width, sps_Pic_height_in_map_units_minus1 := height,
       sps_Frame_mbs_only_flag := only, sps_Mb_adaptive_frame_field_flag := adaptive, sps_Direct_8x8_inference_flag := direct\<rparr>, bs)
   }"

definition sps_crop :: "SPS \<Rightarrow> bitstream \<Rightarrow> (SPS \<times> bitstream) option" where
  "sps_crop sps bs = do {
     (flag, bs) \<leftarrow> GetBit bs;
     let sps = sps\<lparr>sps_Frame_cropping_flag := flag\<rparr>;
     if flag = 1 then do {
       (l, bs) \<leftarrow> ReadUE bs;
       (r, bs) \<leftarrow> ReadUE bs;
       (t, bs) \<leftarrow> ReadUE bs;
       (b, bs) \<leftarrow> ReadUE bs;
       Some (sps\<lparr>sps_Frame_crop_left_offset := l, sps_Frame_crop_right_offset := r,
         sps_Frame_crop_top_offset := t, sps_Frame_crop_bottom_offset := b\<rparr>, bs)
     } else Some (sps, bs)
   }"

definition sps_vui :: "SPS \<Rightarrow> bitstream \<Rightarrow> (SPS \<times> bitstream) option" where
  "sps_vui sps bs = do {
     (present, bs) \<leftarrow> GetBit bs;
     let sps = sps\<lparr>sps_Vui_parameters_present_flag := present\<rparr>;
     if present = 1 then do { (vui, bs) \<leftarrow> VUI_Decode bs; Some (sps\<lparr>sps_VuiParameters := vui\<rparr>, bs) }
     else Some (sps, bs)
   }"

definition SPS_Decode :: "bitstream \<Rightarrow> (SPS \<times> bitstream) option" where
  "SPS_Decode bs = do {
     (sps, bs) \<leftarrow> sps_head zero_SPS bs;
     (sps, bs) \<leftarrow> sps_chroma sps bs;
     ((more, sps), bs) \<leftarrow> sps_order sps bs;
     if more then do {
       (sps, bs) \<leftarrow> sps_frame sps bs;
       (sps, bs) \<leftarrow> sps_crop sps bs;
       sps_vui sps bs
     } else Some (sps, bs)
   }"

section \<open>Resolution\<close>

definition GetH264Resolution :: "bytes \<Rightarrow> (codec_error, u32 \<times> u32) result" where
  "GetH264Resolution sps = do {
     off \<leftarrow> naluOffset sps;
     if off < 0 \<or> off + 1 \<ge> glen sps then err (ErrMsg ''h264: empty sps nalu'')
     else do {
       b \<leftarrow> slice_from sps (off + 1);
       (s, bs) \<leftarrow> SPS_Decode (NewBitStream (CovertRbspToSodb b));
       (case Err bs of
          Some e \<Rightarrow> err e
        | None \<Rightarrow>
            let only = ucast (sps_Frame_mbs_only_flag s) :: u32;
                chromaArrayType = (if sps_Separate_colour_plane_flag s = 1 then 0 else sps_Chroma_format_idc s);
                chromaArrayType = (if \<not> hasChromaFormatIdc (sps_Profile_idc s) then 1 else chromaArrayType);
                (cropUnitX, cropUnitY) = (if chromaArrayType = 1 then (2, 2 * (2 - only))
                  else if chromaArrayType = 2 then (2, 1 * (2 - only)) else (1, 2 - only));
                widthInSample = (ucast (sps_Pic_width_in_mbs_minus1 s) + 1) * 16;
                widthCrop = (ucast (sps_Frame_crop_left_offset s) + ucast (sps_Frame_crop_right_offset s)) * cropUnitX;
                widthCrop = (if sps_Frame_cropping_flag s = 0 \<or> widthCrop \<ge> widthInSample then 0 else widthCrop);
                heightInSample = (2 - only) * (ucast (sps_Pic_height_in_map_units_minus1 s) + 1) * 16;
                heightCrop = (ucast (sps_Frame_crop_top_offset s) + ucast (sps_Frame_crop_bottom_offset s)) * cropUnitY;
                heightCrop = (if sps_Frame_cropping_flag s = 0 \<or> heightCrop \<ge> heightInSample then 0 else heightCrop)
            in ok (widthInSample - widthCrop, heightInSample - heightCrop))
     }
   }"

section \<open>Configuration records\<close>

primrec map_opt :: "('a \<Rightarrow> 'b option) \<Rightarrow> 'a list \<Rightarrow> 'b list option" where
  "map_opt f [] = Some []"
| "map_opt f (x # xs) = do { y \<leftarrow> f x; ys \<leftarrow> map_opt f xs; Some (y # ys) }"

definition sized_nalu :: "bytes \<Rightarrow> bytes" where
  "sized_nalu nalu = be16 (word_of_nat (length nalu)) @ nalu"

definition CreateH264AVCCExtradata :: "bytes list \<Rightarrow> bytes list \<Rightarrow> (codec_error, bytes) result" where
  "CreateH264AVCCExtradata spss ppss =
     (if spss = [] \<or> ppss = [] then err (ErrMsg ''lack of sps or pps'')
      else if glen spss > 31 then err (ErrMsg ''codec: an avcC record holds at most 31 sps'')
      else if glen ppss > 255 then err (ErrMsg ''codec: an avcC record holds at most 255 pps'')
      else do {
        spss \<leftarrow> map_opt NaluBody spss;
        ppss \<leftarrow> map_opt NaluBody ppss;
        sps \<leftarrow> idx spss 0;
        if glen sps < 4 then err (ErrMsg ''codec: h264 sps shorter than 4 bytes'')
        else do {
          b1 \<leftarrow> idx sps 1;
          b2 \<leftarrow> idx sps 2;
          b3 \<leftarrow> idx sps 3;
          let extradata = [1, b1, b2, b3, 0xFF, 0xE0 OR word_of_nat (length spss)] @ concat (map sized_nalu spss)
            @ [word_of_nat (length ppss)] @ concat (map sized_nalu ppss);
          rest \<leftarrow> slice_from sps 1;
          (h264sps, bs) \<leftarrow> SPS_Decode (NewBitStream (CovertRbspToSodb rest));
          ok (if sps_Profile_idc h264sps \<in> {100, 110, 122, 144}
            then extradata @ [0xFC OR ucast (sps_Chroma_format_idc h264sps AND 0x03), 0xF8 OR ucast (sps_Bit_depth_luma_minus8 h264sps AND 0x07),
              0xF8 OR ucast (sps_Bit_depth_chroma_minus8 h264sps AND 0x07), 0]
            else extradata)
        }
      })"

text \<open>\<open>readNalus\<close> with \<open>n\<close> units to go.\<close>

fun readNalus :: "bytes \<Rightarrow> int \<Rightarrow> nat \<Rightarrow> (codec_error, bytes list \<times> int) result" where
  "readNalus extraData offset 0 = ok ([], offset)"
| "readNalus extraData offset (Suc n) =
     (if offset + 2 > glen extraData then err (ErrMsg ''h264: truncated avcC record'')
      else do {
        b \<leftarrow> slice_from extraData offset;
        k \<leftarrow> get_be16 b;
        if offset + 2 + uint k > glen extraData then err (ErrMsg ''h264: avcC nalu length beyond the record'')
        else do {
          nalu \<leftarrow> slice_of extraData (offset + 2) (offset + 2 + uint k);
          rbind (readNalus extraData (offset + 2 + uint k) n) (\<lambda>(nalus, offset). ok (([0, 0, 0, 1] @ nalu) # nalus, offset))
        }
      })"

definition CovertExtradata :: "bytes \<Rightarrow> (codec_error, bytes list \<times> bytes list) result" where
  "CovertExtradata extraData =
     (if glen extraData < 6 then err (ErrMsg ''h264: avcC record shorter than 6 bytes'')
      else do {
        b \<leftarrow> idx extraData 5;
        rbind (readNalus extraData 6 (unat (b AND 0x1F))) (\<lambda>(spss, offset).
          if offset \<ge> glen extraData then err (ErrMsg ''h264: avcC record has no pps count'')
          else do {
            ppsnum \<leftarrow> idx extraData offset;
            rbind (readNalus extraData (offset + 1) (unat ppsnum)) (\<lambda>(ppss, _). ok (spss, ppss))
          })
      })"

definition ConvertAnnexBToAVCC :: "bytes \<Rightarrow> bytes option" where
  "ConvertAnnexBToAVCC annexb = do {
     (start, sc) \<leftarrow> FindStartCode annexb 0;
     if start < 0 then Some (be32 (word_of_nat (length annexb)) @ annexb)
     else do {
       payload \<leftarrow> slice_from annexb (start + int (sc_len sc));
       Some (be32 (word_of_nat (length payload)) @ payload)
     }
   }"

definition CovertAVCCToAnnexB :: "bytes \<Rightarrow> bytes" where
  "CovertAVCCToAnnexB avcc = (if glen avcc < 4 then avcc else [0, 0, 0, 1] @ drop 4 avcc)"

section \<open>SEI messages\<close>

record UserDataUnregistered =
  ud_UUID :: bytes
  ud_UserData :: bytes

record SEI =
  sei_PayloadType :: u16
  sei_PayloadSize :: u16
  sei_payload :: "UserDataUnregistered option"

text \<open>
  The loop that adds 255 while the next byte is \<open>FF\<close>.  \<open>NextBits\<close> does not move the position, so
  the loop, once entered, does not end: no value is then the value of the function.
\<close>

partial_function (option) add_255 :: "u16 \<Rightarrow> bitstream \<Rightarrow> (u16 \<times> bitstream) option" where
  "add_255 v bs = Option.bind (NextBits 8 bs) (\<lambda>(n, bs). if n = 0xFF then add_255 (v + 255) bs else Some (v, bs))"

definition read_255 :: "bitstream \<Rightarrow> (u16 \<times> bitstream) option" where
  "read_255 bs = do { (v, bs) \<leftarrow> add_255 0 bs; (b, bs) \<leftarrow> Uint8 8 bs; Some (v + ucast b, bs) }"

definition UserDataUnregistered_Read :: "u16 \<Rightarrow> bitstream \<Rightarrow> (UserDataUnregistered \<times> bitstream) option" where
  "UserDataUnregistered_Read n bs = (if n < 16 then do {
       (u, bs) \<leftarrow> GetBytes (uint n) bs;
       Some (\<lparr>ud_UUID = (case u of None \<Rightarrow> [] | Some u \<Rightarrow> u), ud_UserData = []\<rparr>, bs)
     } else do {
       (u, bs) \<leftarrow> GetBytes 16 bs;
       (d, bs) \<leftarrow> GetBytes (uint n - 16) bs;
       Some (\<lparr>ud_UUID = (case u of None \<Rightarrow> [] | Some u \<Rightarrow> u), ud_UserData = (case d of None \<Rightarrow> [] | Some d \<Rightarrow> d)\<rparr>, bs)
     })"

definition SEI_Decode :: "bitstream \<Rightarrow> (SEI \<times> bitstream) option" where
  "SEI_Decode bs = do {
     (t, bs) \<leftarrow> read_255 bs;
     (n, bs) \<leftarrow> read_255 bs;
     if t = 5 then do {
       (u, bs) \<leftarrow> UserDataUnregistered_Read n bs;
       Some (\<lparr>sei_PayloadType = t, sei_PayloadSize = n, sei_payload = Some u\<rparr>, bs)
     } else Some (\<lparr>sei_PayloadType = t, sei_PayloadSize = n, sei_payload = None\<rparr>, bs)
   }"

fun put_255 :: "nat \<Rightarrow> bitwriter \<Rightarrow> bitwriter option" where
  "put_255 v bsw = (if v \<ge> 255 then Option.bind (PutByte 0xFF bsw) (put_255 (v - 255)) else PutByte (word_of_nat v) bsw)"

declare put_255.simps [simp del]

text \<open>Writing a message without a payload calls a method of a nil interface and panics.\<close>

definition SEI_Encode :: "SEI \<Rightarrow> bitwriter \<Rightarrow> bytes option" where
  "SEI_Encode sei bsw = do {
     bsw \<leftarrow> put_255 (unat (sei_PayloadType sei)) bsw;
     bsw \<leftarrow> put_255 (unat (sei_PayloadSize sei)) bsw;
     u \<leftarrow> sei_payload sei;
     bsw \<leftarrow> PutBytes (ud_UUID u) bsw;
     bsw \<leftarrow> PutBytes (ud_UserData u) bsw;
     bsw_Bits bsw
   }"

section \<open>No bytes make a decoder panic\<close>

lemma NaluHdr_total: "bs_ok s \<Longrightarrow> gives at_ok (H264NaluHdr_Decode s)"
  unfolding H264NaluHdr_Decode_def by (intro parse_total)

lemma PPS_total: "bs_ok s \<Longrightarrow> gives at_ok (PPS_Decode s)"
  unfolding PPS_Decode_def by (intro parse_total)

lemma HRD_total [parse_total]: "bs_ok s \<Longrightarrow> gives at_ok (HRD_Decode s)"
  unfolding HRD_Decode_def read_cbr_def by (intro parse_total)

lemma VUI_total [parse_total]: "bs_ok s \<Longrightarrow> gives at_ok (VUI_Decode s)"
  unfolding VUI_Decode_def vui_aspect_def vui_overscan_def vui_signal_def vui_colour_def vui_chroma_def vui_timing_def vui_hrds_def read_hrd_def
  by (intro parse_total)

lemma skip_scaling_total [parse_total]: "bs_ok s \<Longrightarrow> gives bs_ok (skip_scaling n l x s)"
proof (induction n arbitrary: l x s)
  case (Suc n)
  show ?case unfolding skip_scaling.simps by (intro parse_total Suc)
qed simp

lemma skip_lists_total [parse_total]: "bs_ok s \<Longrightarrow> gives bs_ok (skip_lists i n s)"
proof (induction n arbitrary: i s)
  case (Suc n)
  show ?case unfolding skip_lists.simps skipScalingList_def by (intro parse_total Suc)
qed simp

lemma SPS_total [parse_total]: "bs_ok s \<Longrightarrow> gives at_ok (SPS_Decode s)"
  unfolding SPS_Decode_def sps_head_def sps_chroma_def sps_order_def sps_frame_def sps_crop_def sps_vui_def
  by (intro parse_total)

section \<open>The syntax of the standard\<close>

definition cbr_bits :: "H264BitRateCpbSizeCbrFlag \<Rightarrow> bool list" where
  "cbr_bits c = ue_bits (cb_BitRateValueMinus1 c) @ ue_bits (cb_CpbSizeValueMinus1 c) @ u_bits 1 (cb_CbrFlag c)"

definition cbr_good :: "H264BitRateCpbSizeCbrFlag \<Rightarrow> bool" where
  "cbr_good c \<longleftrightarrow> cb_BitRateValueMinus1 c \<noteq> - 1 \<and> cb_CpbSizeValueMinus1 c \<noteq> - 1 \<and> fits 1 (cb_CbrFlag c)"

lemma scans_cbr: "cbr_good c \<Longrightarrow> scans read_cbr (cbr_bits c) c"
  unfolding read_cbr_def [abs_def] cbr_bits_def cbr_good_def by (rule scans_rules | (simp; fail))+

definition hrd_bits :: "H264HrdParameters \<Rightarrow> bool list" where
  "hrd_bits h = ue_bits (hrd_CpbCntMinus1 h) @ u_bits 4 (hrd_BitRateScale h) @ u_bits 4 (hrd_CpbSizeScale h)
     @ concat (map cbr_bits (hrd_BitRateCpbSizeCbrFlag h)) @ u_bits 5 (hrd_InitialCpbRemovalDelayLengthMinus1 h)
     @ u_bits 5 (hrd_CpbRemovalDelayLengthMinus1 h) @ u_bits 5 (hrd_DpbOutputDelayLengthMinus1 h) @ u_bits 5 (hrd_TimeOffsetLength h)"

definition hrd_good :: "H264HrdParameters \<Rightarrow> bool" where
  "hrd_good h \<longleftrightarrow> hrd_CpbCntMinus1 h \<le> 31 \<and> length (hrd_BitRateCpbSizeCbrFlag h) = unat (hrd_CpbCntMinus1 h) + 1 \<and>
     (\<forall>c\<in>set (hrd_BitRateCpbSizeCbrFlag h). cbr_good c) \<and> fits 4 (hrd_BitRateScale h) \<and> fits 4 (hrd_CpbSizeScale h) \<and>
     fits 5 (hrd_InitialCpbRemovalDelayLengthMinus1 h) \<and> fits 5 (hrd_CpbRemovalDelayLengthMinus1 h) \<and>
     fits 5 (hrd_DpbOutputDelayLengthMinus1 h) \<and> fits 5 (hrd_TimeOffsetLength h)"

lemma scans_hrd:
  assumes "hrd_good h" shows "scans HRD_Decode (hrd_bits h) h"
proof -
  have c: "\<not> hrd_CpbCntMinus1 h > 31" using assms by (simp add: hrd_good_def not_less)
  have "hrd_CpbCntMinus1 h \<noteq> - 1"
  proof
    assume "hrd_CpbCntMinus1 h = - 1"
    then show False using c by simp
  qed
  then show ?thesis using assms
    unfolding HRD_Decode_def [abs_def] hrd_bits_def hrd_good_def
    by - (rule scans_rules scans_else [OF c] scans_scan_list scans_cbr | (simp; fail) | (rule H264HrdParameters.equality; simp add: zero_HRD_def; fail))+
qed


definition aspect_bits :: "H264VuiParameters \<Rightarrow> bool list" where
  "aspect_bits v = u_bits 1 (vui_AspectRatioInfoPresentFlag v) @ (if vui_AspectRatioInfoPresentFlag v = 1 then
     u_bits 8 (vui_AspectRatioIdc v) @ (if vui_AspectRatioIdc v = 255 then u_bits 16 (vui_SarWidth v) @ u_bits 16 (vui_SarHeight v) else [])
     else [])"

definition overscan_bits :: "H264VuiParameters \<Rightarrow> bool list" where
  "overscan_bits v = u_bits 1 (vui_OverscanInfoPresentFlag v) @
     (if vui_OverscanInfoPresentFlag v = 1 then u_bits 1 (vui_OverscanAppropriateFlag v) else [])"

definition signal_bits :: "H264VuiParameters \<Rightarrow> bool list" where
  "signal_bits v = u_bits 1 (vui_VideoSignalTypePresentFlag v) @ (if vui_VideoSignalTypePresentFlag v = 1 then
     u_bits 3 (vui_VideoFormat v) @ u_bits 1 (vui_VideoFullRangeFlag v) @ u_bits 1 (vui_ColourDescriptionPresentFlag v) @
     (if vui_ColourDescriptionPresentFlag v = 1 then u_bits 8 (vui_ColourPrimaries v) @ u_bits 8 (vui_TransferCharacteristics v) @
       u_bits 8 (vui_MatrixCoefficients v) else []) else [])"

definition chroma_bits :: "H264VuiParameters \<Rightarrow> bool list" where
  "chroma_bits v = u_bits 1 (vui_ChromaLocInfoPresentFlag v) @ (if vui_ChromaLocInfoPresentFlag v = 1 then
     ue_bits (vui_ChromaSampleLocTypeTopField v) @ ue_bits (vui_ChromaSampleLocTypeBottomField v) else [])"

definition timing_bits :: "H264VuiParameters \<Rightarrow> bool list" where
  "timing_bits v = u_bits 1 (vui_TimingInfoPresentFlag v) @ (if vui_TimingInfoPresentFlag v = 1 then
     u_bits 32 (vui_NumUnitsInTick v) @ u_bits 32 (vui_TimeScale v) @ u_bits 1 (vui_FixedFrameRateFlag v) else [])"

definition opt_hrd_bits :: "byte \<times> H264HrdParameters \<Rightarrow> bool list" where
  "opt_hrd_bits = (\<lambda>(present, h). u_bits 1 present @ (if present = 1 then hrd_bits h else []))"

definition vui_bits :: "H264VuiParameters \<Rightarrow> bool list" where
  "vui_bits v = aspect_bits v @ overscan_bits v @ signal_bits v @ chroma_bits v @ timing_bits v @
     opt_hrd_bits (vui_NalHrdParametersPresentFlag v, vui_NalHrdParameters v) @
     opt_hrd_bits (vui_VclHrdParametersPresentFlag v, vui_VclHrdParameters v) @
     (if vui_NalHrdParametersPresentFlag v = 1 \<or> vui_VclHrdParametersPresentFlag v = 1 then u_bits 1 (vui_LowDelayHrdFlag v) else [])"

text \<open>A field that is absent has the value zero.\<close>

definition vui_good :: "H264VuiParameters \<Rightarrow> bool" where
  "vui_good v \<longleftrightarrow> fits 1 (vui_AspectRatioInfoPresentFlag v) \<and> (vui_AspectRatioInfoPresentFlag v \<noteq> 1 \<longrightarrow> vui_AspectRatioIdc v = 0) \<and>
     (vui_AspectRatioIdc v \<noteq> 255 \<longrightarrow> vui_SarWidth v = 0 \<and> vui_SarHeight v = 0) \<and>
     fits 1 (vui_OverscanInfoPresentFlag v) \<and> fits 1 (vui_OverscanAppropriateFlag v) \<and>
     (vui_OverscanInfoPresentFlag v \<noteq> 1 \<longrightarrow> vui_OverscanAppropriateFlag v = 0) \<and>
     fits 1 (vui_VideoSignalTypePresentFlag v) \<and> fits 3 (vui_VideoFormat v) \<and> fits 1 (vui_VideoFullRangeFlag v) \<and>
     fits 1 (vui_ColourDescriptionPresentFlag v) \<and>
     (vui_VideoSignalTypePresentFlag v \<noteq> 1 \<longrightarrow> vui_VideoFormat v = 0 \<and> vui_VideoFullRangeFlag v = 0 \<and> vui_ColourDescriptionPresentFlag v = 0) \<and>
     (vui_ColourDescriptionPresentFlag v \<noteq> 1 \<longrightarrow> vui_ColourPrimaries v = 0 \<and> vui_TransferCharacteristics v = 0 \<and> vui_MatrixCoefficients v = 0) \<and>
     fits 1 (vui_ChromaLocInfoPresentFlag v) \<and> vui_ChromaSampleLocTypeTopField v \<noteq> - 1 \<and> vui_ChromaSampleLocTypeBottomField v \<noteq> - 1 \<and>
     (vui_ChromaLocInfoPresentFlag v \<noteq> 1 \<longrightarrow> vui_ChromaSampleLocTypeTopField v = 0 \<and> vui_ChromaSampleLocTypeBottomField v = 0) \<and>
     fits 1 (vui_TimingInfoPresentFlag v) \<and> fits 1 (vui_FixedFrameRateFlag v) \<and>
     (vui_TimingInfoPresentFlag v \<noteq> 1 \<longrightarrow> vui_NumUnitsInTick v = 0 \<and> vui_TimeScale v = 0 \<and> vui_FixedFrameRateFlag v = 0) \<and>
     fits 1 (vui_NalHrdParametersPresentFlag v) \<and> fits 1 (vui_VclHrdParametersPresentFlag v) \<and> fits 1 (vui_LowDelayHrdFlag v) \<and>
     (if vui_NalHrdParametersPresentFlag v = 1 then hrd_good (vui_NalHrdParameters v) else vui_NalHrdParameters v = zero_HRD) \<and>
     (if vui_VclHrdParametersPresentFlag v = 1 then hrd_good (vui_VclHrdParameters v) else vui_VclHrdParameters v = zero_HRD) \<and>
     (vui_NalHrdParametersPresentFlag v \<noteq> 1 \<longrightarrow> vui_VclHrdParametersPresentFlag v \<noteq> 1 \<longrightarrow> vui_LowDelayHrdFlag v = 0)"

lemma scans_aspect:
  assumes "fits 1 (vui_AspectRatioInfoPresentFlag v)" "vui_AspectRatioInfoPresentFlag v \<noteq> 1 \<longrightarrow> vui_AspectRatioIdc v = 0"
    "vui_AspectRatioIdc v \<noteq> 255 \<longrightarrow> vui_SarWidth v = 0 \<and> vui_SarHeight v = 0"
    and "vui_AspectRatioIdc q = 0" "vui_SarWidth q = 0" "vui_SarHeight q = 0"
  shows "scans (vui_aspect q) (aspect_bits v) (q\<lparr>vui_AspectRatioInfoPresentFlag := vui_AspectRatioInfoPresentFlag v,
    vui_AspectRatioIdc := vui_AspectRatioIdc v, vui_SarWidth := vui_SarWidth v, vui_SarHeight := vui_SarHeight v\<rparr>)"
  using assms unfolding vui_aspect_def [abs_def] aspect_bits_def
  by - (rule scans_rules | (simp; fail) | (rule H264VuiParameters.equality; simp; fail))+

lemma scans_overscan:
  assumes "fits 1 (vui_OverscanInfoPresentFlag v)" "fits 1 (vui_OverscanAppropriateFlag v)"
    "vui_OverscanInfoPresentFlag v \<noteq> 1 \<longrightarrow> vui_OverscanAppropriateFlag v = 0" and "vui_OverscanAppropriateFlag q = 0"
  shows "scans (vui_overscan q) (overscan_bits v) (q\<lparr>vui_OverscanInfoPresentFlag := vui_OverscanInfoPresentFlag v,
    vui_OverscanAppropriateFlag := vui_OverscanAppropriateFlag v\<rparr>)"
  using assms unfolding vui_overscan_def [abs_def] overscan_bits_def
  by - (rule scans_rules | (simp; fail) | (rule H264VuiParameters.equality; simp; fail))+

lemma scans_signal:
  assumes "fits 1 (vui_VideoSignalTypePresentFlag v)" "fits 3 (vui_VideoFormat v)" "fits 1 (vui_VideoFullRangeFlag v)"
    "fits 1 (vui_ColourDescriptionPresentFlag v)"
    "vui_VideoSignalTypePresentFlag v \<noteq> 1 \<longrightarrow> vui_VideoFormat v = 0 \<and> vui_VideoFullRangeFlag v = 0 \<and> vui_ColourDescriptionPresentFlag v = 0"
    "vui_ColourDescriptionPresentFlag v \<noteq> 1 \<longrightarrow> vui_ColourPrimaries v = 0 \<and> vui_TransferCharacteristics v = 0 \<and> vui_MatrixCoefficients v = 0"
    and "vui_VideoFormat q = 0" "vui_VideoFullRangeFlag q = 0" "vui_ColourDescriptionPresentFlag q = 0" "vui_ColourPrimaries q = 0"
    "vui_TransferCharacteristics q = 0" "vui_MatrixCoefficients q = 0"
  shows "scans (vui_signal q) (signal_bits v) (q\<lparr>vui_VideoSignalTypePresentFlag := vui_VideoSignalTypePresentFlag v,
    vui_VideoFormat := vui_VideoFormat v, vui_VideoFullRangeFlag := vui_VideoFullRangeFlag v,
    vui_ColourDescriptionPresentFlag := vui_ColourDescriptionPresentFlag v, vui_ColourPrimaries := vui_ColourPrimaries v,
    vui_TransferCharacteristics := vui_TransferCharacteristics v, vui_MatrixCoefficients := vui_MatrixCoefficients v\<rparr>)"
  using assms unfolding vui_signal_def [abs_def] vui_colour_def [abs_def] signal_bits_def
  by - (rule scans_rules | (simp; fail) | (rule H264VuiParameters.equality; simp; fail))+

lemma scans_chroma:
  assumes "fits 1 (vui_ChromaLocInfoPresentFlag v)" "vui_ChromaSampleLocTypeTopField v \<noteq> - 1" "vui_ChromaSampleLocTypeBottomField v \<noteq> - 1"
    "vui_ChromaLocInfoPresentFlag v \<noteq> 1 \<longrightarrow> vui_ChromaSampleLocTypeTopField v = 0 \<and> vui_ChromaSampleLocTypeBottomField v = 0"
    and "vui_ChromaSampleLocTypeTopField q = 0" "vui_ChromaSampleLocTypeBottomField q = 0"
  shows "scans (vui_chroma q) (chroma_bits v) (q\<lparr>vui_ChromaLocInfoPresentFlag := vui_ChromaLocInfoPresentFlag v,
    vui_ChromaSampleLocTypeTopField := vui_ChromaSampleLocTypeTopField v, vui_ChromaSampleLocTypeBottomField := vui_ChromaSampleLocTypeBottomField v\<rparr>)"
  using assms unfolding vui_chroma_def [abs_def] chroma_bits_def
  by - (rule scans_rules | (simp; fail) | (rule H264VuiParameters.equality; simp; fail))+

lemma scans_timing:
  assumes "fits 1 (vui_TimingInfoPresentFlag v)" "fits 1 (vui_FixedFrameRateFlag v)"
    "vui_TimingInfoPresentFlag v \<noteq> 1 \<longrightarrow> vui_NumUnitsInTick v = 0 \<and> vui_TimeScale v = 0 \<and> vui_FixedFrameRateFlag v = 0"
    and "vui_NumUnitsInTick q = 0" "vui_TimeScale q = 0" "vui_FixedFrameRateFlag q = 0"
  shows "scans (vui_timing q) (timing_bits v) (q\<lparr>vui_TimingInfoPresentFlag := vui_TimingInfoPresentFlag v,
    vui_NumUnitsInTick := vui_NumUnitsInTick v, vui_TimeScale := vui_TimeScale v, vui_FixedFrameRateFlag := vui_FixedFrameRateFlag v\<rparr>)"
  using assms unfolding vui_timing_def [abs_def] timing_bits_def
  by - (rule scans_rules | (simp; fail) | (rule H264VuiParameters.equality; simp; fail))+

lemma scans_opt_hrd:
  "fits 1 present \<Longrightarrow> (if present = 1 then hrd_good h else h = zero_HRD) \<Longrightarrow> scans read_hrd (opt_hrd_bits (present, h)) (present, h)"
  unfolding read_hrd_def [abs_def] opt_hrd_bits_def prod.case
  by - (rule scans_rules scans_hrd | (simp split: if_splits; fail))+

lemma scans_hrds:
  assumes "fits 1 (vui_NalHrdParametersPresentFlag v)" "fits 1 (vui_VclHrdParametersPresentFlag v)" "fits 1 (vui_LowDelayHrdFlag v)"
    "if vui_NalHrdParametersPresentFlag v = 1 then hrd_good (vui_NalHrdParameters v) else vui_NalHrdParameters v = zero_HRD"
    "if vui_VclHrdParametersPresentFlag v = 1 then hrd_good (vui_VclHrdParameters v) else vui_VclHrdParameters v = zero_HRD"
    "vui_NalHrdParametersPresentFlag v \<noteq> 1 \<longrightarrow> vui_VclHrdParametersPresentFlag v \<noteq> 1 \<longrightarrow> vui_LowDelayHrdFlag v = 0"
  shows "scans (vui_hrds q) (opt_hrd_bits (vui_NalHrdParametersPresentFlag v, vui_NalHrdParameters v) @
     opt_hrd_bits (vui_VclHrdParametersPresentFlag v, vui_VclHrdParameters v) @
     (if vui_NalHrdParametersPresentFlag v = 1 \<or> vui_VclHrdParametersPresentFlag v = 1 then u_bits 1 (vui_LowDelayHrdFlag v) else []))
    (q\<lparr>vui_NalHrdParametersPresentFlag := vui_NalHrdParametersPresentFlag v, vui_NalHrdParameters := vui_NalHrdParameters v,
      vui_VclHrdParametersPresentFlag := vui_VclHrdParametersPresentFlag v, vui_VclHrdParameters := vui_VclHrdParameters v,
      vui_LowDelayHrdFlag := vui_LowDelayHrdFlag v\<rparr>)"
  using assms unfolding vui_hrds_def [abs_def]
  by - (rule scans_pair [OF scans_opt_hrd] scans_rules | (simp; fail))+

lemma scans_vui:
  assumes "vui_good v" shows "scans VUI_Decode (vui_bits v) v"
proof -
  note g = assms [unfolded vui_good_def]
  show ?thesis unfolding VUI_Decode_def [abs_def] vui_bits_def
    apply (rule scans_bind, rule scans_aspect, (insert g, simp add: zero_VUI_def; fail)+)
    apply (rule scans_bind, rule scans_overscan, (insert g, simp add: zero_VUI_def; fail)+)
    apply (rule scans_bind, rule scans_signal, (insert g, simp add: zero_VUI_def; fail)+)
    apply (rule scans_bind, rule scans_chroma, (insert g, simp add: zero_VUI_def; fail)+)
    apply (rule scans_bind, rule scans_timing, (insert g, simp add: zero_VUI_def; fail)+)
    apply (rule scans_eq, rule scans_hrds, (insert g, simp add: zero_VUI_def; fail)+)
    done
qed

text \<open>
  The deltas of a scaling list (7.3.2.1.1.1): the list ends when the next scale is zero.
\<close>

fun scaling_deltas :: "nat \<Rightarrow> int \<Rightarrow> int \<Rightarrow> int list \<Rightarrow> bool" where
  "scaling_deltas 0 lastScale nextScale ds \<longleftrightarrow> ds = []"
| "scaling_deltas (Suc n) lastScale nextScale ds \<longleftrightarrow> (if nextScale = 0 then ds = [] else (case ds of [] \<Rightarrow> False
     | d # ds \<Rightarrow> - 128 \<le> d \<and> d \<le> 127 \<and> (let m = (lastScale + d + 256) mod 256 in scaling_deltas n (if m = 0 then lastScale else m) m ds)))"

lemma moves_scaling_stop: "moves (skip_scaling n l 0) []"
  by (induction n) (simp_all add: moves_def ready_def bs_ok_def advance_0)

lemma moves_scaling:
  "0 < l \<Longrightarrow> l < 256 \<Longrightarrow> scaling_deltas n l x ds \<Longrightarrow> moves (skip_scaling n l x) (concat (map se_bits ds))"
proof (induction n arbitrary: l x ds)
  case 0
  then show ?case by (simp add: moves_def ready_def bs_ok_def advance_0)
next
  case (Suc n)
  show ?case
  proof (cases "x = 0")
    case True
    then show ?thesis using Suc.prems(3) moves_scaling_stop [of "Suc n" l] by (simp del: skip_scaling.simps)
  next
    case False
    then obtain d es where d: "ds = d # es" "- 128 \<le> d" "d \<le> 127"
      and es: "scaling_deltas n (if (l + d) mod 256 = 0 then l else (l + d) mod 256) ((l + d) mod 256) es"
      using Suc.prems(3) by (auto simp: Let_def split: list.splits)
    let ?m = "(l + d) mod 256"
    have w: "wrap64 (l + d + 256) = l + d + 256" using Suc.prems(1,2) d by (intro wrap64_id) simp_all
    have m: "l + d + 256 - 256 * go_div (l + d + 256) 256 = ?m"
      using Suc.prems(1) d by (simp add: go_div_nonneg minus_mult_div_eq_mod)
    have "moves (skip_scaling n (if ?m = 0 then l else ?m) ?m) (concat (map se_bits es))"
      using Suc.prems(1,2) es by (intro Suc.IH) (auto simp: le_less dest: not_sym)
    then have "moves (\<lambda>s. Option.bind (ReadSE s) (\<lambda>(d', s). (\<lambda>d s. let v = wrap64 (l + d + 256); x = v - 256 * go_div v 256 in
        skip_scaling n (if x \<noteq> 0 then x else l) x s) d' s)) (se_bits d @ concat (map se_bits es))"
      using d w m by (intro moves_bind [where v = d] scans_ReadSE) (auto simp: se_fits_def Let_def)
    then show ?thesis using False d(1) by (simp add: moves_def Let_def case_prod_beta' Option.bind_assoc cong: if_cong)
  qed
qed

primrec list_bits :: "int list option \<Rightarrow> bool list" where
  "list_bits None = u_bits 1 (0 :: byte)"
| "list_bits (Some ds) = u_bits 1 (1 :: byte) @ concat (map se_bits ds)"

fun lists_good :: "nat \<Rightarrow> int list option list \<Rightarrow> bool" where
  "lists_good i [] \<longleftrightarrow> True"
| "lists_good i (l # ls) \<longleftrightarrow> (case l of None \<Rightarrow> True | Some ds \<Rightarrow> scaling_deltas (if i < 6 then 16 else 64) 8 8 ds) \<and> lists_good (i + 1) ls"

lemma moves_list: "(case l of None \<Rightarrow> True | Some ds \<Rightarrow> scaling_deltas n 8 8 ds) \<Longrightarrow> moves g ys \<Longrightarrow>
    moves (\<lambda>s. Option.bind (GetBit s) (\<lambda>(p, s). Option.bind (if p = 1 then skipScalingList n s else Some s) g)) (list_bits l @ ys)"
proof (cases l)
  case None
  assume "moves g ys"
  then show ?thesis using None moves_bind [where f = GetBit and v = 0 and xs = "u_bits 1 (0 :: byte)" and g = "\<lambda>p s. Option.bind (if p = 1 then skipScalingList n s else Some s) g" and ys = ys] scans_GetBit [of 0]
    by (simp add: fits_def)
next
  case (Some ds)
  assume "case l of None \<Rightarrow> True | Some ds \<Rightarrow> scaling_deltas n 8 8 ds" "moves g ys"
  then have "moves (\<lambda>s. Option.bind (skipScalingList n s) g) (concat (map se_bits ds) @ ys)"
    unfolding skipScalingList_def using Some by (intro moves_then moves_scaling) simp_all
  then show ?thesis using Some moves_bind [where f = GetBit and v = 1 and xs = "u_bits 1 (1 :: byte)" and g = "\<lambda>p s. Option.bind (if p = 1 then skipScalingList n s else Some s) g" and ys = "concat (map se_bits ds) @ ys"] scans_GetBit [of 1]
    by (simp add: fits_def)
qed

lemma moves_lists: "lists_good i ls \<Longrightarrow> n = length ls \<Longrightarrow> moves (skip_lists i n) (concat (map list_bits ls))"
proof (induction ls arbitrary: i n)
  case Nil
  then show ?case by (simp add: moves_def ready_def bs_ok_def advance_0)
next
  case (Cons l ls)
  have "moves (skip_lists (i + 1) (length ls)) (concat (map list_bits ls))" using Cons by simp
  from moves_list [where l = l and n = "if i < 6 then 16 else 64", OF _ this] Cons.prems
  show ?case by (simp add: moves_def)
qed

definition sps_bits :: "byte \<Rightarrow> int list option list option \<Rightarrow> SPS \<Rightarrow> bool list" where
  "sps_bits q m p =
     (u_bits 8 (sps_Profile_idc p) @ u_bits 1 (sps_Constraint_set0_flag p) @ u_bits 1 (sps_Constraint_set1_flag p)
       @ u_bits 1 (sps_Constraint_set2_flag p) @ u_bits 1 (sps_Constraint_set3_flag p) @ u_bits 1 (sps_Constraint_set4_flag p)
       @ u_bits 1 (sps_Constraint_set5_flag p) @ u_bits 2 (sps_Reserved_zero_2bits p) @ u_bits 8 (sps_Level_idc p)
       @ ue_bits (sps_Seq_parameter_set_id p))
     @ (if hasChromaFormatIdc (sps_Profile_idc p) then ue_bits (sps_Chroma_format_idc p)
         @ (if sps_Chroma_format_idc p = 3 then u_bits 1 (sps_Separate_colour_plane_flag p) else [])
         @ ue_bits (sps_Bit_depth_luma_minus8 p) @ ue_bits (sps_Bit_depth_chroma_minus8 p) @ u_bits 1 q
         @ u_bits 1 (of_bool (m \<noteq> None) :: byte) @ (case m of None \<Rightarrow> [] | Some ls \<Rightarrow> concat (map list_bits ls)) else [])
     @ (ue_bits (sps_Log2_max_frame_num_minus4 p) @ ue_bits (sps_Pic_order_cnt_type p)
       @ (if sps_Pic_order_cnt_type p = 0 then ue_bits (sps_Log2_max_pic_order_cnt_lsb_minus4 p)
          else if sps_Pic_order_cnt_type p = 1 then u_bits 1 (sps_Delta_pic_order_always_zero_flag p)
            @ se_bits (sps_Offset_for_non_ref_pic p) @ se_bits (sps_Offset_for_top_to_bottom_field p)
            @ ue_bits (word_of_nat (length (sps_Offset_for_ref_frame p))) @ concat (map se_bits (sps_Offset_for_ref_frame p))
          else []))
     @ (ue_bits (sps_Max_num_ref_frames p) @ u_bits 1 (sps_Gaps_in_frame_num_value_allowed_flag p)
       @ ue_bits (sps_Pic_width_in_mbs_minus1 p) @ ue_bits (sps_Pic_height_in_map_units_minus1 p) @ u_bits 1 (sps_Frame_mbs_only_flag p)
       @ (if sps_Frame_mbs_only_flag p = 0 then u_bits 1 (sps_Mb_adaptive_frame_field_flag p) else [])
       @ u_bits 1 (sps_Direct_8x8_inference_flag p))
     @ (u_bits 1 (sps_Frame_cropping_flag p) @ (if sps_Frame_cropping_flag p = 1 then ue_bits (sps_Frame_crop_left_offset p)
         @ ue_bits (sps_Frame_crop_right_offset p) @ ue_bits (sps_Frame_crop_top_offset p) @ ue_bits (sps_Frame_crop_bottom_offset p) else []))
     @ (u_bits 1 (sps_Vui_parameters_present_flag p) @ (if sps_Vui_parameters_present_flag p = 1 then vui_bits (sps_VuiParameters p) else []))"

text \<open>The values of a parameter set fit their syntax elements, the absent ones are zero.\<close>

definition head_good :: "SPS \<Rightarrow> bool" where
  "head_good p \<longleftrightarrow> fits 1 (sps_Constraint_set0_flag p) \<and> fits 1 (sps_Constraint_set1_flag p) \<and> fits 1 (sps_Constraint_set2_flag p) \<and>
     fits 1 (sps_Constraint_set3_flag p) \<and> fits 1 (sps_Constraint_set4_flag p) \<and> fits 1 (sps_Constraint_set5_flag p) \<and>
     fits 2 (sps_Reserved_zero_2bits p) \<and> sps_Seq_parameter_set_id p \<noteq> - 1"

definition colour_good :: "byte \<Rightarrow> int list option list option \<Rightarrow> SPS \<Rightarrow> bool" where
  "colour_good q m p \<longleftrightarrow> fits 1 q \<and> sps_Chroma_format_idc p \<noteq> - 1 \<and> fits 1 (sps_Separate_colour_plane_flag p) \<and>
     (sps_Chroma_format_idc p \<noteq> 3 \<longrightarrow> sps_Separate_colour_plane_flag p = 0) \<and> sps_Bit_depth_luma_minus8 p \<noteq> - 1 \<and>
     sps_Bit_depth_chroma_minus8 p \<noteq> - 1 \<and>
     (\<not> hasChromaFormatIdc (sps_Profile_idc p) \<longrightarrow> sps_Chroma_format_idc p = 0 \<and> sps_Bit_depth_luma_minus8 p = 0 \<and> sps_Bit_depth_chroma_minus8 p = 0) \<and>
     (case m of None \<Rightarrow> True | Some ls \<Rightarrow> lists_good 0 ls \<and> length ls = (if sps_Chroma_format_idc p = 3 then 12 else 8))"

definition order_good :: "SPS \<Rightarrow> bool" where
  "order_good p \<longleftrightarrow> sps_Log2_max_frame_num_minus4 p \<noteq> - 1 \<and> sps_Pic_order_cnt_type p \<noteq> - 1 \<and> sps_Log2_max_pic_order_cnt_lsb_minus4 p \<noteq> - 1 \<and>
     (sps_Pic_order_cnt_type p \<noteq> 0 \<longrightarrow> sps_Log2_max_pic_order_cnt_lsb_minus4 p = 0) \<and> fits 1 (sps_Delta_pic_order_always_zero_flag p) \<and>
     se_fits (sps_Offset_for_non_ref_pic p) \<and> se_fits (sps_Offset_for_top_to_bottom_field p) \<and>
     (\<forall>x\<in>set (sps_Offset_for_ref_frame p). se_fits x) \<and> length (sps_Offset_for_ref_frame p) \<le> 255 \<and>
     (sps_Pic_order_cnt_type p \<noteq> 1 \<longrightarrow> sps_Delta_pic_order_always_zero_flag p = 0 \<and> sps_Offset_for_non_ref_pic p = 0 \<and>
       sps_Offset_for_top_to_bottom_field p = 0 \<and> sps_Offset_for_ref_frame p = [])"

definition frame_good :: "SPS \<Rightarrow> bool" where
  "frame_good p \<longleftrightarrow> sps_Max_num_ref_frames p \<noteq> - 1 \<and> fits 1 (sps_Gaps_in_frame_num_value_allowed_flag p) \<and>
     sps_Pic_width_in_mbs_minus1 p \<noteq> - 1 \<and> sps_Pic_height_in_map_units_minus1 p \<noteq> - 1 \<and> fits 1 (sps_Frame_mbs_only_flag p) \<and>
     fits 1 (sps_Mb_adaptive_frame_field_flag p) \<and> (sps_Frame_mbs_only_flag p \<noteq> 0 \<longrightarrow> sps_Mb_adaptive_frame_field_flag p = 0) \<and>
     fits 1 (sps_Direct_8x8_inference_flag p)"

definition crop_good :: "SPS \<Rightarrow> bool" where
  "crop_good p \<longleftrightarrow> fits 1 (sps_Frame_cropping_flag p) \<and> sps_Frame_crop_left_offset p \<noteq> - 1 \<and> sps_Frame_crop_right_offset p \<noteq> - 1 \<and>
     sps_Frame_crop_top_offset p \<noteq> - 1 \<and> sps_Frame_crop_bottom_offset p \<noteq> - 1 \<and>
     (sps_Frame_cropping_flag p \<noteq> 1 \<longrightarrow> sps_Frame_crop_left_offset p = 0 \<and> sps_Frame_crop_right_offset p = 0 \<and>
       sps_Frame_crop_top_offset p = 0 \<and> sps_Frame_crop_bottom_offset p = 0)"

definition sps_good :: "byte \<Rightarrow> int list option list option \<Rightarrow> SPS \<Rightarrow> bool" where
  "sps_good q m p \<longleftrightarrow> head_good p \<and> colour_good q m p \<and> order_good p \<and> frame_good p \<and> crop_good p \<and> fits 1 (sps_Vui_parameters_present_flag p) \<and>
     (if sps_Vui_parameters_present_flag p = 1 then vui_good (sps_VuiParameters p) else sps_VuiParameters p = zero_VUI)"

lemma scans_head:
  "head_good p \<Longrightarrow> scans (sps_head q) (u_bits 8 (sps_Profile_idc p) @ u_bits 1 (sps_Constraint_set0_flag p) @ u_bits 1 (sps_Constraint_set1_flag p)
       @ u_bits 1 (sps_Constraint_set2_flag p) @ u_bits 1 (sps_Constraint_set3_flag p) @ u_bits 1 (sps_Constraint_set4_flag p)
       @ u_bits 1 (sps_Constraint_set5_flag p) @ u_bits 2 (sps_Reserved_zero_2bits p) @ u_bits 8 (sps_Level_idc p)
       @ ue_bits (sps_Seq_parameter_set_id p))
    (q\<lparr>sps_Profile_idc := sps_Profile_idc p, sps_Constraint_set0_flag := sps_Constraint_set0_flag p,
       sps_Constraint_set1_flag := sps_Constraint_set1_flag p,
       sps_Constraint_set2_flag := sps_Constraint_set2_flag p, sps_Constraint_set3_flag := sps_Constraint_set3_flag p,
       sps_Constraint_set4_flag := sps_Constraint_set4_flag p,
       sps_Constraint_set5_flag := sps_Constraint_set5_flag p, sps_Reserved_zero_2bits := sps_Reserved_zero_2bits p, sps_Level_idc := sps_Level_idc p,
       sps_Seq_parameter_set_id := sps_Seq_parameter_set_id p\<rparr>)"
  unfolding sps_head_def [abs_def] head_good_def by - (rule scans_rules | (simp; fail))+

lemma scans_colour:
  assumes "colour_good q m p" "sps_Profile_idc z = sps_Profile_idc p" "sps_Separate_colour_plane_flag z = 0"
    "sps_Chroma_format_idc z = 0" "sps_Bit_depth_luma_minus8 z = 0" "sps_Bit_depth_chroma_minus8 z = 0"
  shows "scans (sps_chroma z) (if hasChromaFormatIdc (sps_Profile_idc p) then ue_bits (sps_Chroma_format_idc p)
         @ (if sps_Chroma_format_idc p = 3 then u_bits 1 (sps_Separate_colour_plane_flag p) else [])
         @ ue_bits (sps_Bit_depth_luma_minus8 p) @ ue_bits (sps_Bit_depth_chroma_minus8 p) @ u_bits 1 q
         @ u_bits 1 (of_bool (m \<noteq> None) :: byte) @ (case m of None \<Rightarrow> [] | Some ls \<Rightarrow> concat (map list_bits ls)) else [])
    (z\<lparr>sps_Chroma_format_idc := sps_Chroma_format_idc p, sps_Separate_colour_plane_flag := sps_Separate_colour_plane_flag p,
       sps_Bit_depth_luma_minus8 := sps_Bit_depth_luma_minus8 p, sps_Bit_depth_chroma_minus8 := sps_Bit_depth_chroma_minus8 p\<rparr>)"
proof (cases "hasChromaFormatIdc (sps_Profile_idc p)")
  case True
  have m: "scans (\<lambda>s. Option.bind (if (of_bool (m \<noteq> None) :: byte) = 1 then skip_lists 0 (if sps_Chroma_format_idc p = 3 then 12 else 8) s else Some s)
      (\<lambda>s. Some (v, s))) (case m of None \<Rightarrow> [] | Some ls \<Rightarrow> concat (map list_bits ls)) w" if "v = w" for v w :: SPS
  proof -
    have "scans (\<lambda>s. Option.bind (if (of_bool (m \<noteq> None) :: byte) = 1 then skip_lists 0 (if sps_Chroma_format_idc p = 3 then 12 else 8) s else Some s)
      (\<lambda>s. Some (v, s))) ((case m of None \<Rightarrow> [] | Some ls \<Rightarrow> concat (map list_bits ls)) @ []) w"
      using assms(1) that moves_lists [of 0 "the m", OF _ refl] by (intro scans_moves scans_Some) (auto simp: colour_good_def moves_Some split: option.splits)
    then show ?thesis by simp
  qed
  show ?thesis using assms True unfolding sps_chroma_def [abs_def] colour_good_def
    by (simp only: if_True True) (rule scans_skip_let scans_rules m | (simp; fail))+
next
  case False
  then show ?thesis using assms by (auto simp: sps_chroma_def [abs_def] colour_good_def intro!: scans_Some SPS.equality)
qed

lemma scans_order:
  assumes "order_good p" and "sps_Log2_max_pic_order_cnt_lsb_minus4 z = 0" "sps_Delta_pic_order_always_zero_flag z = 0"
    "sps_Offset_for_non_ref_pic z = 0" "sps_Offset_for_top_to_bottom_field z = 0" "sps_Offset_for_ref_frame z = []"
  shows "scans (sps_order z) (ue_bits (sps_Log2_max_frame_num_minus4 p) @ ue_bits (sps_Pic_order_cnt_type p)
       @ (if sps_Pic_order_cnt_type p = 0 then ue_bits (sps_Log2_max_pic_order_cnt_lsb_minus4 p)
          else if sps_Pic_order_cnt_type p = 1 then u_bits 1 (sps_Delta_pic_order_always_zero_flag p)
            @ se_bits (sps_Offset_for_non_ref_pic p) @ se_bits (sps_Offset_for_top_to_bottom_field p)
            @ ue_bits (word_of_nat (length (sps_Offset_for_ref_frame p))) @ concat (map se_bits (sps_Offset_for_ref_frame p))
          else []))
    (True, z\<lparr>sps_Log2_max_frame_num_minus4 := sps_Log2_max_frame_num_minus4 p, sps_Pic_order_cnt_type := sps_Pic_order_cnt_type p,
       sps_Log2_max_pic_order_cnt_lsb_minus4 := sps_Log2_max_pic_order_cnt_lsb_minus4 p,
       sps_Delta_pic_order_always_zero_flag := sps_Delta_pic_order_always_zero_flag p, sps_Offset_for_non_ref_pic := sps_Offset_for_non_ref_pic p,
       sps_Offset_for_top_to_bottom_field := sps_Offset_for_top_to_bottom_field p, sps_Offset_for_ref_frame := sps_Offset_for_ref_frame p\<rparr>)"
proof -
  let ?n = "word_of_nat (length (sps_Offset_for_ref_frame p)) :: u64"
  have n: "unat ?n = length (sps_Offset_for_ref_frame p)" using assms(1) by (simp add: order_good_def unat_of_nat)
  then have n255: "\<not> ?n > 255" using assms(1) by (simp add: order_good_def not_less word_le_nat_alt)
  have nn: "?n \<noteq> - 1"
  proof
    assume "?n = - 1"
    then show False using n255 by simp
  qed
  show ?thesis using assms nn n unfolding sps_order_def [abs_def] order_good_def
    by - (rule scans_rules scans_else [OF n255] scans_scan_list | (simp; fail) | (rule prod_eqI; simp; fail)
      | (rule prod_eqI, simp, simp, rule SPS.equality; simp; fail))+
qed

lemma scans_frame:
  assumes "frame_good p" "sps_Mb_adaptive_frame_field_flag z = 0"
  shows "scans (sps_frame z) (ue_bits (sps_Max_num_ref_frames p) @ u_bits 1 (sps_Gaps_in_frame_num_value_allowed_flag p)
       @ ue_bits (sps_Pic_width_in_mbs_minus1 p) @ ue_bits (sps_Pic_height_in_map_units_minus1 p) @ u_bits 1 (sps_Frame_mbs_only_flag p)
       @ (if sps_Frame_mbs_only_flag p = 0 then u_bits 1 (sps_Mb_adaptive_frame_field_flag p) else [])
       @ u_bits 1 (sps_Direct_8x8_inference_flag p))
    (z\<lparr>sps_Max_num_ref_frames := sps_Max_num_ref_frames p, sps_Gaps_in_frame_num_value_allowed_flag := sps_Gaps_in_frame_num_value_allowed_flag p,
       sps_Pic_width_in_mbs_minus1 := sps_Pic_width_in_mbs_minus1 p, sps_Pic_height_in_map_units_minus1 := sps_Pic_height_in_map_units_minus1 p,
       sps_Frame_mbs_only_flag := sps_Frame_mbs_only_flag p, sps_Mb_adaptive_frame_field_flag := sps_Mb_adaptive_frame_field_flag p,
       sps_Direct_8x8_inference_flag := sps_Direct_8x8_inference_flag p\<rparr>)"
  using assms unfolding sps_frame_def [abs_def] frame_good_def by - (rule scans_rules | (simp; fail))+

lemma scans_crop:
  assumes "crop_good p" "sps_Frame_crop_left_offset z = 0" "sps_Frame_crop_right_offset z = 0" "sps_Frame_crop_top_offset z = 0"
    "sps_Frame_crop_bottom_offset z = 0"
  shows "scans (sps_crop z) (u_bits 1 (sps_Frame_cropping_flag p) @ (if sps_Frame_cropping_flag p = 1 then ue_bits (sps_Frame_crop_left_offset p)
         @ ue_bits (sps_Frame_crop_right_offset p) @ ue_bits (sps_Frame_crop_top_offset p) @ ue_bits (sps_Frame_crop_bottom_offset p) else []))
    (z\<lparr>sps_Frame_cropping_flag := sps_Frame_cropping_flag p, sps_Frame_crop_left_offset := sps_Frame_crop_left_offset p,
       sps_Frame_crop_right_offset := sps_Frame_crop_right_offset p, sps_Frame_crop_top_offset := sps_Frame_crop_top_offset p,
       sps_Frame_crop_bottom_offset := sps_Frame_crop_bottom_offset p\<rparr>)"
  using assms unfolding sps_crop_def [abs_def] crop_good_def
  by - (rule scans_rules | (simp; fail) | (rule SPS.equality; simp; fail))+

lemma scans_sps_vui:
  assumes "fits 1 (sps_Vui_parameters_present_flag p)" "sps_VuiParameters z = zero_VUI"
    "if sps_Vui_parameters_present_flag p = 1 then vui_good (sps_VuiParameters p) else sps_VuiParameters p = zero_VUI"
  shows "scans (sps_vui z) (u_bits 1 (sps_Vui_parameters_present_flag p) @
      (if sps_Vui_parameters_present_flag p = 1 then vui_bits (sps_VuiParameters p) else []))
    (z\<lparr>sps_Vui_parameters_present_flag := sps_Vui_parameters_present_flag p, sps_VuiParameters := sps_VuiParameters p\<rparr>)"
  using assms unfolding sps_vui_def [abs_def]
  by - (rule scans_rules scans_vui | (simp split: if_splits; fail) | (rule SPS.equality; simp split: if_splits; fail))+

lemma SPS_syntax: "sps_good q m p \<Longrightarrow> scans SPS_Decode (sps_bits q m p) p"
proof -
  assume g: "sps_good q m p"
  note g = g [unfolded sps_good_def]
  show "scans SPS_Decode (sps_bits q m p) p"
    unfolding SPS_Decode_def [abs_def] sps_bits_def
    apply (rule scans_bind, rule scans_head, (insert g, simp; fail))
    apply (rule scans_bind, rule scans_colour, (insert g, simp add: zero_SPS_def; fail)+)
    apply (rule scans_pair, rule scans_order, (insert g, simp add: zero_SPS_def; fail)+)
    apply (rule scans_then, rule TrueI)
    apply (rule scans_bind, rule scans_frame, (insert g, simp add: zero_SPS_def; fail)+)
    apply (rule scans_bind, rule scans_crop, (insert g, simp add: zero_SPS_def; fail)+)
    apply (rule scans_eq, rule scans_sps_vui, (insert g, simp add: zero_SPS_def; fail)+)
    done
qed

section \<open>Resolution of a parameter set\<close>

text \<open>Equations 6-1, 7-19 to 7-22 of the standard.\<close>

definition ChromaArrayType :: "SPS \<Rightarrow> nat" where
  "ChromaArrayType p = (if \<not> hasChromaFormatIdc (sps_Profile_idc p) then 1
     else if sps_Separate_colour_plane_flag p = 1 then 0 else unat (sps_Chroma_format_idc p))"

definition FrameHeightUnit :: "SPS \<Rightarrow> nat" where "FrameHeightUnit p = 2 - unat (sps_Frame_mbs_only_flag p)"

definition CropUnitX :: "SPS \<Rightarrow> nat" where
  "CropUnitX p = (if ChromaArrayType p = 1 \<or> ChromaArrayType p = 2 then 2 else 1)"

definition CropUnitY :: "SPS \<Rightarrow> nat" where
  "CropUnitY p = (if ChromaArrayType p = 1 then 2 else 1) * FrameHeightUnit p"

definition coded_width :: "SPS \<Rightarrow> nat" where "coded_width p = 16 * (unat (sps_Pic_width_in_mbs_minus1 p) + 1)"

definition coded_height :: "SPS \<Rightarrow> nat" where
  "coded_height p = 16 * FrameHeightUnit p * (unat (sps_Pic_height_in_map_units_minus1 p) + 1)"

definition crop_x :: "SPS \<Rightarrow> nat" where
  "crop_x p = CropUnitX p * (unat (sps_Frame_crop_left_offset p) + unat (sps_Frame_crop_right_offset p))"

definition crop_y :: "SPS \<Rightarrow> nat" where
  "crop_y p = CropUnitY p * (unat (sps_Frame_crop_top_offset p) + unat (sps_Frame_crop_bottom_offset p))"

lemma naluOffset_prefix:
  assumes "bytes_Index [0, 0, 1] nal = None" "nal \<noteq> []"
  shows "naluOffset (start_code sc @ nal) = Some (int (sc_len sc))" and "naluOffset nal = Some 0"
  using assms FindStartCode_first [of sc nal] by (simp_all add: naluOffset_def FindStartCode_def)

lemma ucast_of_unat: "(ucast (x :: u64) :: u32) = word_of_nat (unat x)" by simp

lemma cropped:
  assumes "w < 2 ^ 32" "c < w"
  shows "\<not> (word_of_nat c :: u32) \<ge> word_of_nat w" and "(word_of_nat w - word_of_nat c :: u32) = word_of_nat (w - c)"
  using assms by (simp_all add: word_le_nat_alt unat_of_nat of_nat_diff)

lemma flag_cases: "fits 1 (b :: byte) \<Longrightarrow> b = 0 \<or> b = 1"
proof -
  assume "fits 1 b"
  then have "b = of_bool (bit b 0)"
    using fits_bit [of 1 b] by (intro bit_word_eqI) (metis One_nat_def Suc_leI bit_of_bool_iff gr0I)
  then show ?thesis by (cases "bit b 0") simp_all
qed

lemma resolution:
  assumes g: "sps_good q m p" and r: "8 dvd length (sps_bits q m p @ trail)" and h: "h \<noteq> 0"
    and prefix: "prefix = [] \<or> prefix = start_code sc"
    and "coded_width p < 2 ^ 32" "coded_height p < 2 ^ 32" "crop_x p < coded_width p" "crop_y p < coded_height p"
  shows "GetH264Resolution (prefix @ h # emulate 0 (pack_bits (sps_bits q m p @ trail))) =
    ok (word_of_nat (coded_width p - crop_x p), word_of_nat (coded_height p - crop_y p))"
proof -
  let ?rbsp = "pack_bits (sps_bits q m p @ trail)"
  have e: "emulate 0 (h # ?rbsp) = h # emulate 0 ?rbsp" using h by simp
  have n: "bytes_Index [0, 0, 1] (h # emulate 0 ?rbsp) = None" using emulate_no_start_code [where z = 0 and bs = "h # ?rbsp"] unfolding e by simp
  have off: "naluOffset (prefix @ h # emulate 0 ?rbsp) = Some (glen prefix)"
    using prefix naluOffset_prefix(1) [OF n, of sc] naluOffset_prefix(2) [OF n] by auto
  have ne: "?rbsp \<noteq> []"
  proof
    assume "?rbsp = []"
    then have "bits_of_bytes ?rbsp = []" by (simp add: bits_of_bytes_def)
    then have "sps_bits q m p = []" using bits_of_pack_bits [OF r] by simp
    then show False by (simp add: sps_bits_def)
  qed
  then have ne': "emulate 0 ?rbsp \<noteq> []" by (cases ?rbsp) auto
  have slice: "slice_from (prefix @ h # emulate 0 ?rbsp) (glen prefix + 1) = Some (emulate 0 ?rbsp)"
    by (simp add: slice_from_def nat_add_distrib)
  have dec: "SPS_Decode (NewBitStream ?rbsp) = Some (p, advance (length (sps_bits q m p)) (NewBitStream ?rbsp))"
    using scansD [OF SPS_syntax [OF g], of "NewBitStream ?rbsp" trail] bits_of_pack_bits [OF r] by simp
  have err: "Err (advance (length (sps_bits q m p)) (NewBitStream ?rbsp)) = None" by (simp add: Err_def advance_def NewBitStream_def)
  have only: "fits 1 (sps_Frame_mbs_only_flag p)" using g by (simp add: sps_good_def frame_good_def)
  have fu: "(2 - ucast (sps_Frame_mbs_only_flag p) :: u32) = word_of_nat (FrameHeightUnit p)"
    using flag_cases [OF only] by (auto simp: FrameHeightUnit_def)
  let ?l = "unat (sps_Frame_crop_left_offset p)" and ?r = "unat (sps_Frame_crop_right_offset p)"
    and ?t = "unat (sps_Frame_crop_top_offset p)" and ?b = "unat (sps_Frame_crop_bottom_offset p)"
  have W: "(ucast (sps_Pic_width_in_mbs_minus1 p) + 1) * 16 = (word_of_nat (coded_width p) :: u32)"
    by (simp add: coded_width_def algebra_simps)
  have H: "(2 - ucast (sps_Frame_mbs_only_flag p)) * (ucast (sps_Pic_height_in_map_units_minus1 p) + 1) * 16 = (word_of_nat (coded_height p) :: u32)"
    unfolding fu by (simp add: coded_height_def algebra_simps)
  have X: "(ucast (sps_Frame_crop_left_offset p) + ucast (sps_Frame_crop_right_offset p)) * (word_of_nat (CropUnitX p)) = (word_of_nat (crop_x p) :: u32)"
    by (simp add: crop_x_def algebra_simps)
  have Y: "(ucast (sps_Frame_crop_top_offset p) + ucast (sps_Frame_crop_bottom_offset p)) * (word_of_nat (CropUnitY p)) = (word_of_nat (crop_y p) :: u32)"
    by (simp add: crop_y_def algebra_simps)
  have one: "v = 1 \<longleftrightarrow> unat v = 1" "v = 2 \<longleftrightarrow> unat v = 2" for v :: u64 by (simp_all add: word_unat_eq_iff)
  let ?ct = "if \<not> hasChromaFormatIdc (sps_Profile_idc p) then 1
    else if sps_Separate_colour_plane_flag p = 1 then 0 else sps_Chroma_format_idc p"
  have U: "(if ?ct = 1 then (2, 2 * (2 - ucast (sps_Frame_mbs_only_flag p)))
      else if ?ct = 2 then (2, 1 * (2 - ucast (sps_Frame_mbs_only_flag p)))
      else (1, 2 - ucast (sps_Frame_mbs_only_flag p))) = (word_of_nat (CropUnitX p) :: u32, word_of_nat (CropUnitY p) :: u32)"
    unfolding fu CropUnitX_def CropUnitY_def ChromaArrayType_def by (simp add: one)
  have z: "sps_Frame_cropping_flag p = 0 \<Longrightarrow> crop_x p = 0 \<and> crop_y p = 0"
    using g by (auto simp: sps_good_def crop_good_def crop_x_def crop_y_def)
  have cx: "(if sps_Frame_cropping_flag p = 0 \<or> (word_of_nat (crop_x p) :: u32) \<ge> word_of_nat (coded_width p) then 0 else word_of_nat (crop_x p))
      = (word_of_nat (crop_x p) :: u32)"
    and cy: "(if sps_Frame_cropping_flag p = 0 \<or> (word_of_nat (crop_y p) :: u32) \<ge> word_of_nat (coded_height p) then 0 else word_of_nat (crop_y p))
      = (word_of_nat (crop_y p) :: u32)"
    using z cropped [OF assms(5,7)] cropped [OF assms(6,8)] by auto
  show ?thesis
    unfolding GetH264Resolution_def CovertRbspToSodb_def
    by (simp only: off slice dec err Option.bind.simps bind_split option.case prod.case Let_def rbsp_emulate U W H X Y cx cy)
      (simp add: ne' cropped(2) [OF assms(5,7)] cropped(2) [OF assms(6,8)])
qed

section \<open>Configuration records are split again\<close>

text \<open>A unit as the callers pass it, with or without a start code.\<close>

definition given :: "START_CODE_TYPE option \<times> bytes \<Rightarrow> bytes" where
  "given = (\<lambda>(c, n). case c of None \<Rightarrow> n | Some sc \<Rightarrow> start_code sc @ n)"

lemma NaluBody_given: "bytes_Index [0, 0, 1] n = None \<Longrightarrow> NaluBody (given (c, n)) = Some n"
proof (cases c)
  case None
  assume "bytes_Index [0, 0, 1] n = None"
  then show ?thesis using None by (simp add: given_def NaluBody_def FindStartCode_def)
next
  case (Some sc)
  then show ?thesis using FindStartCode_first [of sc n] slice_from_int [of "sc_len sc" "start_code sc @ n"]
    by (simp add: given_def NaluBody_def)
qed

lemma map_opt_bodies: "(\<And>u. u \<in> set us \<Longrightarrow> bytes_Index [0, 0, 1] (snd u) = None) \<Longrightarrow> map_opt NaluBody (map given us) = Some (map snd us)"
proof (induction us)
  case (Cons u us)
  then show ?case using NaluBody_given [of "snd u" "fst u"] by simp
qed simp

lemma readNalus_sized:
  assumes "\<And>u. u \<in> set us \<Longrightarrow> length u \<le> 65535"
  shows "readNalus (pre @ concat (map sized_nalu us) @ post) (glen pre) (length us) =
    ok (map (\<lambda>u. [0, 0, 0, 1] @ u) us, glen (pre @ concat (map sized_nalu us)))"
  using assms
proof (induction us arbitrary: pre)
  case (Cons u us)
  let ?all = "pre @ sized_nalu u @ concat (map sized_nalu us) @ post"
  have n: "uint (word_of_nat (length u) :: u16) = glen u" using Cons.prems [of u] by (simp add: unsigned_of_nat take_bit_nat_eq_self)
  have b: "slice_from ?all (glen pre) = Some (be16 (word_of_nat (length u)) @ u @ concat (map sized_nalu us) @ post)"
    by (simp add: slice_from_def sized_nalu_def)
  have s: "slice_of ?all (glen pre + 2) (glen pre + 2 + glen u) = Some u"
    by (simp add: slice_of_def sized_nalu_def nat_add_distrib)
  have l: "glen (sized_nalu u) = 2 + glen u" by (simp add: sized_nalu_def)
  have "readNalus ((pre @ sized_nalu u) @ concat (map sized_nalu us) @ post) (glen (pre @ sized_nalu u)) (length us) =
      ok (map (\<lambda>u. [0, 0, 0, 1] @ u) us, glen ((pre @ sized_nalu u) @ concat (map sized_nalu us)))"
    using Cons by (intro Cons.IH) simp
  then have IH: "readNalus ?all (glen pre + 2 + glen u) (length us) =
      ok (map (\<lambda>u. [0, 0, 0, 1] @ u) us, glen pre + 2 + glen u + glen (concat (map sized_nalu us)))"
    by (simp add: l algebra_simps)
  show ?case using IH by (simp add: b s n l)
qed simp

lemma unat_word_of_nat8: "n < 256 \<Longrightarrow> unat (word_of_nat n :: byte) = n" by (simp add: unat_of_nat)

lemma count5: "n \<le> 31 \<Longrightarrow> unat ((0xE0 OR word_of_nat n) AND 0x1F :: byte) = n"
proof -
  assume n: "n \<le> 31"
  have "(0xE0 OR w) AND 0x1F = take_bit 5 (w :: byte)" for w
  proof (rule bit_word_eqI)
    fix k assume "k < LENGTH(8)"
    then have "k \<in> {0, 1, 2, 3, 4, 5, 6, 7}" by auto
    then show "bit ((0xE0 OR w) AND 0x1F :: byte) k = bit (take_bit 5 w) k"
      by (auto simp: bit_and_iff bit_or_iff bit_take_bit_iff bit_numeral_rec)
  qed
  then show ?thesis using n by (simp add: unsigned_take_bit_eq unat_of_nat take_bit_nat_eq_self)
qed

lemma avcc:
  assumes "spss \<noteq> []" "ppss \<noteq> []" "length spss \<le> 31" "length ppss \<le> 255"
    and clean: "\<forall>u\<in>set (spss @ ppss). bytes_Index [0, 0, 1] (snd u) = None \<and> length (snd u) \<le> 65535"
    and "4 \<le> length (snd (hd spss))"
  shows "\<exists>b. CreateH264AVCCExtradata (map given spss) (map given ppss) = ok b \<and>
    CovertExtradata b = ok (map (\<lambda>(c, n). [0, 0, 0, 1] @ n) spss, map (\<lambda>(c, n). [0, 0, 0, 1] @ n) ppss)"
proof -
  let ?s = "map snd spss" and ?p = "map snd ppss"
  obtain x xs where x: "spss = x # xs" using assms(1) by (cases spss) auto
  have m: "map_opt NaluBody (map given spss) = Some ?s" "map_opt NaluBody (map given ppss) = Some ?p"
    using clean by (auto intro!: map_opt_bodies)
  have hd: "idx ?s 0 = Some (snd x)" using x by (simp add: idx_def)
  obtain sps bs where dec: "SPS_Decode (NewBitStream (CovertRbspToSodb (drop 1 (snd x)))) = Some (sps, bs)"
    using SPS_total [OF bs_ok_New, of "CovertRbspToSodb (drop 1 (snd x))"] by (auto simp: gives_def)
  have four: "4 \<le> length (snd x)" using assms(6) x by simp
  have "slice_from (snd x) (int 1) = Some (drop 1 (snd x))" using four by (intro slice_from_int) simp
  then have rest: "slice_from (snd x) 1 = Some (drop 1 (snd x))" by simp
  define pre where "pre = [1, snd x ! 1, snd x ! 2, snd x ! 3, 0xFF, 0xE0 OR word_of_nat (length spss)]"
  define body where "body = pre @ concat (map sized_nalu ?s) @ [word_of_nat (length ppss)] @ concat (map sized_nalu ?p)"
  have C: "\<exists>t. CreateH264AVCCExtradata (map given spss) (map given ppss) = ok (body @ t)"
  proof -
    have "idx (snd x) 1 = Some (snd x ! 1)" "idx (snd x) 2 = Some (snd x ! 2)" "idx (snd x) 3 = Some (snd x ! 3)"
      using four by (simp_all add: idx_def)
    then show ?thesis using assms(1-4) four
      by (cases "sps_Profile_idc sps \<in> {100, 110, 122, 144}")
        (simp_all add: CreateH264AVCCExtradata_def m hd rest dec Let_def body_def pre_def del: One_nat_def)
  qed
  then obtain t where t: "CreateH264AVCCExtradata (map given spss) (map given ppss) = ok (body @ t)" by blast
  have len: "\<And>u. u \<in> set ?s \<Longrightarrow> length u \<le> 65535" "\<And>u. u \<in> set ?p \<Longrightarrow> length u \<le> 65535" using clean by auto
  have lp: "length pre = 6" by (simp add: pre_def)
  let ?tail = "[word_of_nat (length ppss)] @ concat (map sized_nalu ?p) @ t"
  let ?pre2 = "pre @ concat (map sized_nalu ?s) @ [word_of_nat (length ppss)]"
  have r1: "readNalus (body @ t) 6 (length spss) = ok (map (\<lambda>u. [0, 0, 0, 1] @ u) ?s, 6 + glen (concat (map sized_nalu ?s)))"
    using readNalus_sized [where us = ?s and pre = pre and post = ?tail, OF len(1)] lp by (simp add: body_def)
  have r2: "readNalus (body @ t) (7 + glen (concat (map sized_nalu ?s))) (length ppss) = ok (map (\<lambda>u. [0, 0, 0, 1] @ u) ?p, glen (?pre2 @ concat (map sized_nalu ?p)))"
    using readNalus_sized [where us = ?p and pre = ?pre2 and post = t, OF len(2)] lp by (simp add: body_def algebra_simps)
  have i5: "idx (body @ t) 5 = Some (0xE0 OR word_of_nat (length spss))" by (simp add: body_def pre_def idx_def)
  have ip: "idx (body @ t) (6 + glen (concat (map sized_nalu ?s))) = Some (word_of_nat (length ppss))"
    using lp by (simp add: body_def idx_def nat_add_distrib nth_append)
  have L: "6 + glen (concat (map sized_nalu ?s)) < glen (body @ t)" "6 \<le> glen (body @ t)" using lp by (simp_all add: body_def)
  have u: "unat (word_of_nat (length ppss) :: byte) = length ppss" using assms(4) by (intro unat_word_of_nat8) simp
  have "CovertExtradata (body @ t) = ok (map (\<lambda>u. [0, 0, 0, 1] @ u) ?s, map (\<lambda>u. [0, 0, 0, 1] @ u) ?p)"
    unfolding CovertExtradata_def using L r1 r2 ip
    by (simp add: i5 count5 [OF assms(3)] u add.commute)
  then show ?thesis using t by (auto simp: case_prod_beta' comp_def)
qed

section \<open>SEI messages of 255 and more\<close>

lemma add_255_returns:
  assumes "add_255 v s = Some r" "ready s" shows "rest_bits s \<noteq> u_bits 8 (0xFF :: byte) @ t"
proof -
  have "ready s \<longrightarrow> rest_bits s \<noteq> u_bits 8 (0xFF :: byte) @ t"
  proof (rule add_255.raw_induct [of "\<lambda>v s r. ready s \<longrightarrow> rest_bits s \<noteq> u_bits 8 (0xFF :: byte) @ t", OF _ assms(1)], intro impI notI)
    fix f :: "u16 \<Rightarrow> bitstream \<Rightarrow> (u16 \<times> bitstream) option" and v s r
    assume IH: "\<And>v s r. f v s = Some r \<Longrightarrow> ready s \<longrightarrow> rest_bits s \<noteq> u_bits 8 (0xFF :: byte) @ t"
      and b: "Option.bind (NextBits 8 s) (\<lambda>(n, bs). if n = 0xFF then f (v + 255) bs else Some (v, bs)) = Some r"
      and s: "ready s" "rest_bits s = u_bits 8 (0xFF :: byte) @ t"
    have "NextBits 8 s = Some (of_msb (u_bits 8 (0xFF :: byte)), s)"
      using NextBits_ready [of s 8] s by simp
    moreover have "(of_msb (u_bits 8 (0xFF :: byte)) :: u64) = 0xFF" by code_simp
    ultimately have "f (v + 255) s = Some r" using b by simp
    then show False using IH s by blast
  qed
  then show ?thesis using assms(2) by simp
qed

lemma read_255_stuck: "ready s \<Longrightarrow> rest_bits s = u_bits 8 (0xFF :: byte) @ t \<Longrightarrow> read_255 s = None"
  using add_255_returns [of 0 s] by (cases "add_255 0 s") (auto simp: read_255_def)

lemma unat_ucast_byte: "8 \<le> LENGTH('a) \<Longrightarrow> unat (ucast (b :: byte) :: 'a::len word) = unat b"
  using unsigned_less [of b, where 'a = nat] power_increasing [of 8 "LENGTH('a)" "2 :: nat"]
  by (simp add: unsigned_ucast_eq take_bit_nat_eq_self)

lemma read_255_byte:
  fixes b :: byte
  assumes "ready s" "rest_bits s = u_bits 8 b @ t" "b \<noteq> 0xFF"
  shows "read_255 s = Some (ucast b, advance 8 s)"
proof -
  have n: "NextBits 8 s = Some (of_msb (u_bits 8 b), s)" using NextBits_ready [of s 8] assms by simp
  have v: "(of_msb (u_bits 8 b) :: u64) = ucast b" 
  proof -
    have "(of_msb (u_bits 8 b) :: u64) = of_msb (bits_msb 8 (ucast b :: u64))" by (rule arg_cong [of _ _ of_msb]) (auto simp: bits_msb_def bit_ucast_iff)
    also have "\<dots> = ucast b" unfolding of_msb_bits_msb by (rule bit_word_eqI) (use bit_imp_le_length [of b] in \<open>auto simp: bit_ucast_iff bit_take_bit_iff\<close>)
    finally show ?thesis .
  qed
  have "(ucast b :: u64) \<noteq> 0xFF"
  proof
    assume "(ucast b :: u64) = 0xFF"
    then have "unat (ucast b :: u64) = 255" by simp
    then have "unat b = 255" by (simp add: unat_ucast_byte)
    then show False using assms(3) by (simp add: word_unat_eq_iff)
  qed
  then have "add_255 0 s = Some (0, s)" by (subst add_255.simps) (simp add: n v)
  then show ?thesis using scansD [OF scans_numeral(2) [of "num.Bit0 (num.Bit0 (num.Bit0 num.One))" b] assms(1,2)] by (simp add: read_255_def)
qed

definition sei_number :: "nat \<Rightarrow> bytes" where
  "sei_number v = replicate (v div 255) 0xFF @ [word_of_nat (v mod 255)]"

lemma appends_put_255: "appends 0 (put_255 v) (bits_of_bytes (sei_number v))"
proof (induction v rule: less_induct)
  case (less v)
  show ?case
  proof (cases "v \<ge> 255")
    case True
    have "appends 0 (\<lambda>s. Option.bind (PutByte 0xFF s) (put_255 (v - 255))) (bits_msb 8 (0xFF :: byte) @ bits_of_bytes (sei_number (v - 255)))"
      using less [of "v - 255"] True by (intro appends_bind appends_PutByte) auto
    moreover have "bits_msb 8 (0xFF :: byte) @ bits_of_bytes (sei_number (v - 255)) = bits_of_bytes (sei_number v)"
      using True by (simp add: sei_number_def le_div_geq le_mod_geq bits_of_bytes_Cons)
    ultimately show ?thesis using True by (simp add: put_255.simps [abs_def])
  next
    case False
    then show ?thesis using appends_PutByte [of 0 "bits_msb 8 (word_of_nat v :: byte)"]
      by (simp add: put_255.simps [abs_def] sei_number_def bits_of_bytes_Cons)
  qed
qed

definition sei_bytes :: "SEI \<Rightarrow> UserDataUnregistered \<Rightarrow> bytes" where
  "sei_bytes sei u = sei_number (unat (sei_PayloadType sei)) @ sei_number (unat (sei_PayloadSize sei)) @ ud_UUID u @ ud_UserData u"

lemma length_sei_number: "8 * length (sei_number v) mod 8 = 0" by simp

lemma SEI_Encode_bytes:
  assumes "0 \<le> cap" "sei_payload sei = Some u"
  shows "Option.bind (NewBitStreamWriter cap) (SEI_Encode sei) = Some (sei_bytes sei u)"
proof -
  obtain w where w: "NewBitStreamWriter cap = Some w" "wrote w [] 0"
    using wrote_New [OF assms(1)] by blast
  let ?f = "\<lambda>w. Option.bind (put_255 (unat (sei_PayloadType sei)) w) (\<lambda>w. Option.bind (put_255 (unat (sei_PayloadSize sei)) w)
    (\<lambda>w. Option.bind (PutBytes (ud_UUID u) w) (PutBytes (ud_UserData u))))"
  have "appends 0 ?f (bits_of_bytes (sei_number (unat (sei_PayloadType sei))) @ bits_of_bytes (sei_number (unat (sei_PayloadSize sei)))
      @ bits_of_bytes (ud_UUID u) @ bits_of_bytes (ud_UserData u))"
    by (intro appends_bind) (simp_all add: appends_put_255 appends_PutBytes)
  then have "appends 0 ?f (bits_of_bytes (sei_bytes sei u))" by (simp add: sei_bytes_def)
  from appendsE [OF this w(2)] obtain t where t: "?f w = Some t" "wrote t (bits_of_bytes (sei_bytes sei u)) 0" by auto
  have "SEI_Encode sei w = Option.bind (?f w) bsw_Bits"
    by (simp add: SEI_Encode_def assms(2) Option.bind_assoc)
  then show ?thesis using w(1) t wrote_Bits by (simp del: Option.bind_eq_Some_conv)
qed

text \<open>Reading bytes from a stream that stands at a byte.\<close>

lemma GetBytes_at:
  assumes "k + n \<le> length buf" "length buf < 2 ^ 63"
  shows "GetBytes (int n) (advance (8 * k) (NewBitStream buf)) = Some (Some (take n (drop k buf)), advance (8 * (k + n)) (NewBitStream buf))"
proof -
  have "wrap64 (int k + int n) = int (k + n)" using assms by (subst wrap64_id) auto
  then show ?thesis using assms
    by (simp add: GetBytes_def slice_of_def advance_def NewBitStream_def pos_def)
qed

text \<open>A number below 255 is one byte and is read back; a greater one starts with \<open>FF\<close>.\<close>

lemma read_255_sei_number:
  assumes "ready s" "rest_bits s = bits_of_bytes (sei_number v @ bs)" "v < 2 ^ 16"
  shows "read_255 s = (if v < 255 then Some (word_of_nat v, advance 8 s) else None)"
proof (cases "v < 255")
  case True
  have n: "(word_of_nat v :: byte) \<noteq> 0xFF" using True unat_word_of_nat8 [of v] by (auto simp: word_unat_eq_iff)
  have "rest_bits s = u_bits 8 (word_of_nat v :: byte) @ bits_of_bytes bs" using assms(2) True by (simp add: sei_number_def bits_of_bytes_Cons)
  moreover have "(ucast (word_of_nat v :: byte) :: u16) = word_of_nat v"
    using True by (simp add: word_unat_eq_iff unat_ucast_byte unat_of_nat)
  ultimately show ?thesis using read_255_byte [OF assms(1) _ n] True by simp
next
  case False
  then obtain k where "v div 255 = Suc k" by (cases "v div 255") (auto simp: div_eq_0_iff)
  then have "rest_bits s = u_bits 8 (0xFF :: byte) @ bits_of_bytes (replicate k 0xFF @ [word_of_nat (v mod 255)] @ bs)"
    using assms(2) by (simp add: sei_number_def bits_of_bytes_Cons)
  then show ?thesis using read_255_stuck [OF assms(1)] False by simp
qed

lemma sei_round_trip:
  assumes "0 \<le> cap" "sei_payload sei = Some u" "length (ud_UUID u) = 16"
    and "unat (sei_PayloadSize sei) = 16 + length (ud_UserData u)"
  shows "\<exists>b. Option.bind (NewBitStreamWriter cap) (SEI_Encode sei) = Some b \<and>
    map_option fst (SEI_Decode (NewBitStream b)) =
      (if sei_PayloadType sei < 255 \<and> sei_PayloadSize sei < 255
       then Some (sei\<lparr>sei_payload := if sei_PayloadType sei = 5 then Some u else None\<rparr>) else None)"
proof -
  let ?t = "unat (sei_PayloadType sei)" and ?n = "unat (sei_PayloadSize sei)"
  let ?d = "ud_UUID u @ ud_UserData u" and ?b = "sei_bytes sei u"
  let ?s = "NewBitStream ?b"
  have lt: "?t < 2 ^ 16" "?n < 2 ^ 16" using unsigned_less [of "sei_PayloadType sei"] unsigned_less [of "sei_PayloadSize sei"] by simp_all
  have small: "sei_PayloadType sei < 255 \<longleftrightarrow> ?t < 255" "sei_PayloadSize sei < 255 \<longleftrightarrow> ?n < 255"
    by (simp_all add: word_less_nat_alt)
  have r1: "read_255 ?s = (if ?t < 255 then Some (word_of_nat ?t, advance 8 ?s) else None)"
    by (rule read_255_sei_number [OF _ _ lt(1), where bs = "sei_number ?n @ ?d"]) (simp_all add: sei_bytes_def)
  have "map_option fst (SEI_Decode ?s) = (if ?t < 255 \<and> ?n < 255
       then Some (sei\<lparr>sei_payload := if sei_PayloadType sei = 5 then Some u else None\<rparr>) else None)"
  proof (cases "?t < 255")
    case True
    have b: "?b = [word_of_nat ?t] @ sei_number ?n @ ?d" using True by (simp add: sei_bytes_def sei_number_def)
    have "read_255 (advance 8 ?s) = (if ?n < 255 then Some (word_of_nat ?n, advance 8 (advance 8 ?s)) else None)"
      by (rule read_255_sei_number [OF _ _ lt(2), where bs = ?d]) (simp_all add: b rest_bits_advance bits_of_bytes_Cons)
    then have r2: "read_255 (advance 8 ?s) = (if ?n < 255 then Some (word_of_nat ?n, advance 16 ?s) else None)" by simp
    show ?thesis
    proof (cases "?n < 255")
      case n: True
      have b2: "?b = [word_of_nat ?t, word_of_nat ?n] @ ?d" using b n by (simp add: sei_number_def)
      have "GetBytes (int 16) (advance (8 * 2) ?s) = Some (Some (ud_UUID u), advance (8 * (2 + 16)) ?s)"
        using n assms(3,4) by (subst GetBytes_at) (simp_all add: b2)
      moreover have "GetBytes (int (length (ud_UserData u))) (advance (8 * 18) ?s) =
          Some (Some (ud_UserData u), advance (8 * (18 + length (ud_UserData u))) ?s)"
        using n assms(3,4) by (subst GetBytes_at) (simp_all add: b2)
      moreover have "uint (sei_PayloadSize sei) - 16 = int (length (ud_UserData u))"
        using assms(4) by (simp only: uint_nat)
      moreover have "\<not> sei_PayloadSize sei < 16" using assms(4) by (simp add: word_less_nat_alt)
      ultimately show ?thesis using True n
        by (simp add: SEI_Decode_def r1 r2 UserDataUnregistered_Read_def)
    next
      case False
      then show ?thesis using True by (simp add: SEI_Decode_def r1 r2)
    qed
  next
    case False
    then show ?thesis by (simp add: SEI_Decode_def r1)
  qed
  then show ?thesis using SEI_Encode_bytes [OF assms(1,2)] by (simp add: small)
qed

section \<open>No input makes the entry points panic\<close>

lemma naluOffset_range: "\<exists>off. naluOffset b = Some off \<and> - 1 \<le> off \<and> off \<le> glen b"
proof -
  obtain p sc where f: "FindStartCode b 0 = Some (p, sc)" using FindStartCode_total [of b 0] by auto
  show ?thesis using f FindStartCode_range [of b 0 p sc] by (auto simp: naluOffset_def Let_def)
qed

lemma NaluBody_total: "\<exists>n. NaluBody b = Some n"
proof -
  obtain p sc where f: "FindStartCode b 0 = Some (p, sc)" using FindStartCode_total [of b 0] by auto
  show ?thesis using f FindStartCode_range [of b 0 p sc] by (auto simp: NaluBody_def slice_from_def)
qed

lemma map_opt_total: "(\<And>x. \<exists>y. f x = Some y) \<Longrightarrow> \<exists>ys. map_opt f xs = Some ys \<and> length ys = length xs"
proof (induction xs)
  case (Cons x xs)
  obtain y where "f x = Some y" using Cons.prems by blast
  then show ?case using Cons by auto
qed simp

lemma GetSPSId_total: "\<exists>v. GetSPSId b = Some v" and GetPPSId_total: "\<exists>v. GetPPSId b = Some v"
  using gives_codes(1) [of "SkipBits 24 (NewBitStream (drop 1 b))"] gives_codes(1) [of "NewBitStream (drop 1 b)"]
  by (cases b; auto simp: GetSPSId_def GetPPSId_def gives_def bs_ok_moves bs_ok_New slice_from_def)+

lemma readNalus_total: "0 \<le> off \<Longrightarrow> \<exists>r. readNalus b off n = Some r \<and> (\<forall>us off'. r = Inr (us, off') \<longrightarrow> 0 \<le> off')"
proof (induction n arbitrary: off)
  case (Suc n)
  show ?case
  proof (cases "off + 2 > glen b")
    case False
    then have s: "slice_from b off = Some (drop (nat off) b)" using Suc.prems by (simp add: slice_from_def)
    have "2 \<le> length (drop (nat off) b)" using False Suc.prems by simp
    then obtain k where k: "get_be16 (drop (nat off) b) = Some k" using get_be16_total by blast
    obtain r where r: "readNalus b (off + 2 + uint k) n = Some r" "\<forall>us off'. r = Inr (us, off') \<longrightarrow> 0 \<le> off'"
      using Suc.IH [of "off + 2 + uint k"] Suc.prems by auto
    have "slice_of b (off + 2) (off + 2 + uint k) = Some (take (nat (uint k)) (drop (nat (off + 2)) b))"
      if "off + 2 + uint k \<le> glen b" using slice_of_total [of "off + 2" "off + 2 + uint k" b] that Suc.prems by simp
    then show ?thesis using False s k r by (cases r) (auto simp: Let_def rbind_def)
  qed simp
qed simp

lemma CovertExtradata_total: "\<exists>r. CovertExtradata b = Some r"
proof (cases "glen b < 6")
  case False
  then obtain x where x: "idx b 5 = Some x" by (auto simp: idx_def)
  obtain r where r: "readNalus b 6 (unat (x AND 0x1F)) = Some r" "\<forall>us off. r = Inr (us, off) \<longrightarrow> 0 \<le> off"
    using readNalus_total [of 6 b "unat (x AND 0x1F)"] by (metis zero_le_numeral)
  show ?thesis
  proof (cases r)
    case (Inr a)
    obtain us off where a: "a = (us, off)" by (cases a)
    show ?thesis
    proof (cases "off \<ge> glen b")
      case True
      then show ?thesis using False x r Inr a by (simp add: CovertExtradata_def)
    next
      case off: False
      then obtain p where p: "idx b off = Some p" using r Inr a by (auto simp: idx_def)
      obtain s where "readNalus b (off + 1) (unat p) = Some s" using readNalus_total [of "off + 1" b "unat p"] r Inr a by auto
      then show ?thesis using False off x r Inr a p by (cases s) (auto simp: CovertExtradata_def rbind_def)
    qed
  qed (use False x r in \<open>simp add: CovertExtradata_def rbind_def\<close>)
qed (simp add: CovertExtradata_def)

lemma SPS_returns: "\<exists>p bs. SPS_Decode (NewBitStream b) = Some (p, bs)"
  using SPS_total [OF bs_ok_New, of b] by (auto simp: gives_def)

lemma CreateH264AVCCExtradata_total: "\<exists>r. CreateH264AVCCExtradata ss ps = Some r"
proof (cases "ss = [] \<or> ps = [] \<or> glen ss > 31 \<or> glen ps > 255")
  case False
  obtain s p where s: "map_opt NaluBody ss = Some s" "length s = length ss" and p: "map_opt NaluBody ps = Some p"
    using map_opt_total [of NaluBody ss] map_opt_total [of NaluBody ps] NaluBody_total by blast
  obtain x xs where x: "s = x # xs" using s(2) False by (cases s) auto
  show ?thesis
  proof (cases "glen x < 4")
    case True
    then show ?thesis using False s p x by (simp add: CreateH264AVCCExtradata_def idx_def)
  next
    case len: False
    obtain q bs where q: "SPS_Decode (NewBitStream (CovertRbspToSodb (drop 1 x))) = Some (q, bs)" using SPS_returns by blast
    have "slice_from x (int 1) = Some (drop 1 x)" using len by (intro slice_from_int) simp
    then have "slice_from x 1 = Some (drop 1 x)" by simp
    moreover have "idx x 1 = Some (x ! 1)" "idx x 2 = Some (x ! 2)" "idx x 3 = Some (x ! 3)" using len by (simp_all add: idx_def)
    ultimately show ?thesis using False len s p x q by (simp add: CreateH264AVCCExtradata_def idx_def Let_def del: One_nat_def)
  qed
qed (auto simp: CreateH264AVCCExtradata_def)

lemma GetH264Resolution_total: "\<exists>r. GetH264Resolution b = Some r"
proof -
  obtain off where off: "naluOffset b = Some off" "- 1 \<le> off" "off \<le> glen b" using naluOffset_range by blast
  show ?thesis
  proof (cases "off < 0 \<or> off + 1 \<ge> glen b")
    case False
    obtain p bs where p: "SPS_Decode (NewBitStream (CovertRbspToSodb (drop (nat (off + 1)) b))) = Some (p, bs)" using SPS_returns by blast
    have "slice_from b (off + 1) = Some (drop (nat (off + 1)) b)" using False by (simp add: slice_from_def)
    then show ?thesis using False off p by (simp add: GetH264Resolution_def Let_def case_prod_beta' split: option.splits)
  qed (use off in \<open>simp add: GetH264Resolution_def\<close>)
qed

lemma ConvertAnnexBToAVCC_total: "\<exists>r. ConvertAnnexBToAVCC b = Some r"
proof -
  obtain p sc where f: "FindStartCode b 0 = Some (p, sc)" using FindStartCode_total [of b 0] by auto
  show ?thesis using f FindStartCode_range [of b 0 p sc] by (auto simp: ConvertAnnexBToAVCC_def slice_from_def)
qed

lemma ids_with_start_code: "\<exists>v. GetSPSIdWithStartCode b = Some v" "\<exists>v. GetPPSIdWithStartCode b = Some v"
proof -
  obtain off where off: "naluOffset b = Some off" "off \<le> glen b" using naluOffset_range by blast
  have "slice_from b off = Some (drop (nat off) b)" if "\<not> off < 0" using that off by (simp add: slice_from_def)
  then show "\<exists>v. GetSPSIdWithStartCode b = Some v" "\<exists>v. GetPPSIdWithStartCode b = Some v"
    using off GetSPSId_total GetPPSId_total by (simp_all add: GetSPSIdWithStartCode_def GetPPSIdWithStartCode_def)
qed

lemma h264_codec_total:
  "(\<exists>r. GetH264Resolution b = Some r) \<and> (\<exists>r. CovertExtradata b = Some r) \<and> (\<exists>r. CreateH264AVCCExtradata ss ps = Some r) \<and>
   (\<exists>r. ConvertAnnexBToAVCC b = Some r) \<and> (\<exists>v. GetSPSId b = Some v) \<and> (\<exists>v. GetPPSId b = Some v) \<and>
   (\<exists>v. GetSPSIdWithStartCode b = Some v) \<and> (\<exists>v. GetPPSIdWithStartCode b = Some v) \<and>
   (\<exists>v s. SPS_Decode (NewBitStream b) = Some (v, s)) \<and> (\<exists>v s. PPS_Decode (NewBitStream b) = Some (v, s)) \<and>
   (\<exists>v s. H264NaluHdr_Decode (NewBitStream b) = Some (v, s))"
  using GetH264Resolution_total CovertExtradata_total CreateH264AVCCExtradata_total ConvertAnnexBToAVCC_total GetSPSId_total
    GetPPSId_total ids_with_start_code SPS_returns PPS_total [OF bs_ok_New, of b] NaluHdr_total [OF bs_ok_New, of b]
  by (auto simp: gives_def)

section \<open>Properties\<close>

text \<open>
  C32: a sequence parameter set written in the syntax of the standard, escaped and put in a unit with or
  without a start code, has the resolution of equations 7-13 to 7-22: the coded size less the cropped
  samples.
\<close>

theorem h264_resolution:
  assumes "sps_good q m p" and "8 dvd length (sps_bits q m p @ trail)" and "h \<noteq> 0"
    and "prefix = [] \<or> prefix = start_code sc"
    and "coded_width p < 2 ^ 32" "coded_height p < 2 ^ 32" "crop_x p < coded_width p" "crop_y p < coded_height p"
  shows "GetH264Resolution (prefix @ h # emulate 0 (pack_bits (sps_bits q m p @ trail))) =
    ok (word_of_nat (coded_width p - crop_x p), word_of_nat (coded_height p - crop_y p))"
  using assms by (rule resolution)

definition sps_1080p :: SPS where
  "sps_1080p = zero_SPS\<lparr>sps_Profile_idc := 100, sps_Level_idc := 40, sps_Chroma_format_idc := 1,
     sps_Pic_order_cnt_type := 1, sps_Offset_for_non_ref_pic := - 3, sps_Offset_for_ref_frame := [2, - 1],
     sps_Max_num_ref_frames := 4, sps_Pic_width_in_mbs_minus1 := 119, sps_Pic_height_in_map_units_minus1 := 67,
     sps_Frame_mbs_only_flag := 1, sps_Direct_8x8_inference_flag := 1, sps_Frame_cropping_flag := 1,
     sps_Frame_crop_bottom_offset := 4, sps_Vui_parameters_present_flag := 1,
     sps_VuiParameters := zero_VUI\<lparr>vui_TimingInfoPresentFlag := 1, vui_NumUnitsInTick := 1, vui_TimeScale := 50\<rparr>\<rparr>"

theorem h264_resolution_witness:
  "\<exists>trail. GetH264Resolution ([0, 0, 0, 1] @ 0x67 # emulate 0 (pack_bits (sps_bits 0 (Some (replicate 8 None)) sps_1080p @ trail))) =
     ok (1920, 1080)"
proof -
  let ?m = "Some (replicate 8 None)"
  let ?t = "True # replicate (7 - length (sps_bits 0 ?m sps_1080p) mod 8) False"
  have "sps_good 0 ?m sps_1080p" by code_simp
  moreover have "length (sps_bits 0 ?m sps_1080p @ ?t) mod 8 = 0" by code_simp
  moreover have "coded_width sps_1080p = 1920" "coded_height sps_1080p = 1088" "crop_x sps_1080p = 0" "crop_y sps_1080p = 8"
    by code_simp+
  ultimately have "GetH264Resolution (start_code START_CODE_4 @ 0x67 # emulate 0 (pack_bits (sps_bits 0 ?m sps_1080p @ ?t))) =
      ok (word_of_nat (1920 - 0), word_of_nat (1088 - 8))"
    using h264_resolution [of 0 ?m sps_1080p ?t "0x67" "start_code START_CODE_4" START_CODE_4] by (simp add: mod_eq_0_iff_dvd)
  then show ?thesis by (auto simp: start_code_def)
qed

text \<open>
  C33: a configuration record made of parameter sets, each with or without a start code, is split again
  into the same sets in the same order, each behind a four-byte start code.
\<close>

theorem avcC_round_trip:
  assumes "spss \<noteq> []" "ppss \<noteq> []" "length spss \<le> 31" "length ppss \<le> 255"
    and "\<forall>u\<in>set (spss @ ppss). bytes_Index [0, 0, 1] (snd u) = None \<and> length (snd u) \<le> 65535"
    and "4 \<le> length (snd (hd spss))"
  shows "\<exists>b. CreateH264AVCCExtradata (map given spss) (map given ppss) = ok b \<and>
    CovertExtradata b = ok (map (\<lambda>(c, n). [0, 0, 0, 1] @ n) spss, map (\<lambda>(c, n). [0, 0, 0, 1] @ n) ppss)"
  using assms by (rule avcc)

theorem avcC_round_trip_witness:
  "\<exists>b. CreateH264AVCCExtradata [[0, 0, 1, 0x67, 0x42, 0, 0x1E, 0xA6], [0x67, 0x42]] [[0x68, 0xCE], [0, 0, 0, 1, 0x68, 0xDA]] = ok b \<and>
    CovertExtradata b = ok ([[0, 0, 0, 1, 0x67, 0x42, 0, 0x1E, 0xA6], [0, 0, 0, 1, 0x67, 0x42]], [[0, 0, 0, 1, 0x68, 0xCE], [0, 0, 0, 1, 0x68, 0xDA]])"
proof -
  let ?s = "[(Some START_CODE_3, [0x67, 0x42, 0, 0x1E, 0xA6]), (None, [0x67, 0x42])]"
  let ?p = "[(None, [0x68, 0xCE]), (Some START_CODE_4, [0x68, 0xDA])]"
  have "\<exists>b. CreateH264AVCCExtradata (map given ?s) (map given ?p) = ok b \<and>
    CovertExtradata b = ok (map (\<lambda>(c, n). [0, 0, 0, 1] @ n) ?s, map (\<lambda>(c, n). [0, 0, 0, 1] @ n) ?p)"
    by (rule avcC_round_trip) auto
  then show ?thesis by (simp add: given_def start_code_def)
qed

text \<open>
  C34: a message is written with its type and size as numbers of \<open>FF\<close> bytes and a rest, and read back when
  both are below 255; with a type or a size of 255 or more \<open>Decode\<close> does not return.
\<close>

theorem sei_message:
  assumes "0 \<le> cap" "sei_payload sei = Some u" "length (ud_UUID u) = 16"
    and "unat (sei_PayloadSize sei) = 16 + length (ud_UserData u)"
  shows "\<exists>b. Option.bind (NewBitStreamWriter cap) (SEI_Encode sei) = Some b \<and>
    map_option fst (SEI_Decode (NewBitStream b)) =
      (if sei_PayloadType sei < 255 \<and> sei_PayloadSize sei < 255
       then Some (sei\<lparr>sei_payload := if sei_PayloadType sei = 5 then Some u else None\<rparr>) else None)"
  using assms by (rule sei_round_trip)

theorem sei_message_witness:
  "(\<exists>b. Option.bind (NewBitStreamWriter 0) (SEI_Encode \<lparr>sei_PayloadType = 5, sei_PayloadSize = 19,
      sei_payload = Some \<lparr>ud_UUID = replicate 16 7, ud_UserData = [1, 2, 3]\<rparr>\<rparr>) = Some b \<and>
    map_option fst (SEI_Decode (NewBitStream b)) = Some \<lparr>sei_PayloadType = 5, sei_PayloadSize = 19,
      sei_payload = Some \<lparr>ud_UUID = replicate 16 7, ud_UserData = [1, 2, 3]\<rparr>\<rparr>) \<and>
   (\<exists>b. Option.bind (NewBitStreamWriter 0) (SEI_Encode \<lparr>sei_PayloadType = 5, sei_PayloadSize = 316,
      sei_payload = Some \<lparr>ud_UUID = replicate 16 7, ud_UserData = replicate 300 1\<rparr>\<rparr>) = Some b \<and>
    map_option fst (SEI_Decode (NewBitStream b)) = None)"
proof
  let ?u = "\<lparr>ud_UUID = replicate 16 7, ud_UserData = [1, 2, 3]\<rparr>"
  show "\<exists>b. Option.bind (NewBitStreamWriter 0) (SEI_Encode \<lparr>sei_PayloadType = 5, sei_PayloadSize = 19, sei_payload = Some ?u\<rparr>) = Some b \<and>
    map_option fst (SEI_Decode (NewBitStream b)) = Some \<lparr>sei_PayloadType = 5, sei_PayloadSize = 19, sei_payload = Some ?u\<rparr>"
    using sei_message [of 0 "\<lparr>sei_PayloadType = 5, sei_PayloadSize = 19, sei_payload = Some ?u\<rparr>" ?u] by simp
next
  let ?u = "\<lparr>ud_UUID = replicate 16 7, ud_UserData = replicate 300 1\<rparr>"
  show "\<exists>b. Option.bind (NewBitStreamWriter 0) (SEI_Encode \<lparr>sei_PayloadType = 5, sei_PayloadSize = 316, sei_payload = Some ?u\<rparr>) = Some b \<and>
    map_option fst (SEI_Decode (NewBitStream b)) = None"
    using sei_message [of 0 "\<lparr>sei_PayloadType = 5, sei_PayloadSize = 316, sei_payload = Some ?u\<rparr>" ?u] by simp
qed

end
