(* ===== verification/H265.thy ===== *)
theory H265
  imports H264
begin

text \<open>
  H.265 parameter sets, \<open>go-codec/h265.go\<close>.

  As in \<open>H264\<close> a \<open>Decode\<close> is called on a fresh value and is a function of its argument; it returns
  the value and the error of the stream.  An array of eight entries is a list of eight.  The loop
  that predicts a reference picture set counts in 32 bits and is a partial function: the lemmas show
  that it ends on every input below 512 MB, and with it every decoder of the file.
\<close>

unbundle bit_operations_syntax

section \<open>Loops that read and drop\<close>

primrec skip_times :: "nat \<Rightarrow> (bitstream \<Rightarrow> bitstream option) \<Rightarrow> bitstream \<Rightarrow> bitstream option" where
  "skip_times 0 f bs = Some bs"
| "skip_times (Suc n) f bs = Option.bind (f bs) (skip_times n f)"

definition skip_ue :: "bitstream \<Rightarrow> bitstream option" where
  "skip_ue bs = do { (v, bs) \<leftarrow> ReadUE bs; Some bs }"

definition skip_se :: "bitstream \<Rightarrow> bitstream option" where
  "skip_se bs = do { (v, bs) \<leftarrow> ReadSE bs; Some bs }"

section \<open>Headers, profile and level\<close>

record H265NaluHdr =
  hnh_Forbidden_zero_bit :: byte
  hnh_Nal_unit_type :: byte
  hnh_Nuh_layer_id :: byte
  hnh_Nuh_temporal_id_plus1 :: byte

definition H265NaluHdr_Decode :: "bitstream \<Rightarrow> (H265NaluHdr \<times> bitstream) option" where
  "H265NaluHdr_Decode bs = do {
     (z, bs) \<leftarrow> GetBit bs;
     (t, bs) \<leftarrow> Uint8 6 bs;
     (layer, bs) \<leftarrow> Uint8 6 bs;
     (tid, bs) \<leftarrow> Uint8 3 bs;
     Some (\<lparr>hnh_Forbidden_zero_bit = z, hnh_Nal_unit_type = t, hnh_Nuh_layer_id = layer, hnh_Nuh_temporal_id_plus1 = tid\<rparr>, bs)
   }"

record ProfileTierLevel =
  ptl_General_profile_space :: byte
  ptl_General_tier_flag :: byte
  ptl_General_profile_idc :: byte
  ptl_General_profile_compatibility_flag :: u32
  ptl_General_constraint_indicator_flag :: u64
  ptl_General_level_idc :: byte
  ptl_Sub_layer_profile_present_flag :: "byte list"
  ptl_Sub_layer_level_present_flag :: "byte list"

definition zero_PTL :: ProfileTierLevel where
  "zero_PTL = \<lparr>ptl_General_profile_space = 0, ptl_General_tier_flag = 0, ptl_General_profile_idc = 0,
     ptl_General_profile_compatibility_flag = 0, ptl_General_constraint_indicator_flag = 0, ptl_General_level_idc = 0,
     ptl_Sub_layer_profile_present_flag = replicate 8 0, ptl_Sub_layer_level_present_flag = replicate 8 0\<rparr>"

definition read_layer_flags :: "bitstream \<Rightarrow> ((byte \<times> byte) \<times> bitstream) option" where
  "read_layer_flags bs = do { (p, bs) \<leftarrow> GetBit bs; (l, bs) \<leftarrow> GetBit bs; Some ((p, l), bs) }"

fun skip_sub_layers :: "(byte \<times> byte) list \<Rightarrow> bitstream \<Rightarrow> bitstream" where
  "skip_sub_layers [] bs = bs"
| "skip_sub_layers ((p, l) # fs) bs =
     (let bs = (if p = 1 then SkipBits 88 bs else bs);
          bs = (if l = 1 then SkipBits 8 bs else bs)
      in skip_sub_layers fs bs)"

text \<open>More than eight layers index the arrays out of range.\<close>

definition Profile_tier_level :: "byte \<Rightarrow> byte \<Rightarrow> bitstream \<Rightarrow> (ProfileTierLevel \<times> bitstream) option" where
  "Profile_tier_level profilePresentFlag maxNumSubLayersMinus1 bs = do {
     (space, bs) \<leftarrow> Uint8 2 bs;
     (tier, bs) \<leftarrow> Uint8 1 bs;
     (profile, bs) \<leftarrow> Uint8 5 bs;
     (compat, bs) \<leftarrow> Uint32 32 bs;
     (constraint, bs) \<leftarrow> GetBits 48 bs;
     (level, bs) \<leftarrow> Uint8 8 bs;
     let n = unat maxNumSubLayersMinus1;
     if n > 8 then None
     else do {
       (fs, bs) \<leftarrow> scan_list n read_layer_flags bs;
       let bs = (if n > 0 then (SkipBits 2 ^^ (8 - n)) bs else bs);
       Some (\<lparr>ptl_General_profile_space = space, ptl_General_tier_flag = tier, ptl_General_profile_idc = profile,
         ptl_General_profile_compatibility_flag = compat, ptl_General_constraint_indicator_flag = constraint,
         ptl_General_level_idc = level, ptl_Sub_layer_profile_present_flag = map fst fs @ replicate (8 - n) 0,
         ptl_Sub_layer_level_present_flag = map snd fs @ replicate (8 - n) 0\<rparr>, skip_sub_layers fs bs)
     }
   }"

section \<open>Video parameter sets\<close>

text \<open>The lists of HRD parameters are not read (the code says so) and are left out.\<close>

record VPSTimeInfo =
  vti_Vps_num_units_in_tick :: u32
  vti_Vps_time_scale :: u32
  vti_Vps_poc_proportional_to_timing_flag :: byte
  vti_Vps_num_ticks_poc_diff_one_minus1 :: u64
  vti_Vps_num_hrd_parameters :: u64

definition zero_VTI :: VPSTimeInfo where
  "zero_VTI = \<lparr>vti_Vps_num_units_in_tick = 0, vti_Vps_time_scale = 0, vti_Vps_poc_proportional_to_timing_flag = 0,
     vti_Vps_num_ticks_poc_diff_one_minus1 = 0, vti_Vps_num_hrd_parameters = 0\<rparr>"

definition ParserVPSTimeinfo :: "bitstream \<Rightarrow> (VPSTimeInfo \<times> bitstream) option" where
  "ParserVPSTimeinfo bs = do {
     (units, bs) \<leftarrow> Uint32 32 bs;
     (scale, bs) \<leftarrow> Uint32 32 bs;
     (poc, bs) \<leftarrow> Uint8 1 bs;
     (ticks, bs) \<leftarrow> (if poc = 1 then ReadUE bs else Some (0, bs));
     (hrds, bs) \<leftarrow> ReadUE bs;
     Some (\<lparr>vti_Vps_num_units_in_tick = units, vti_Vps_time_scale = scale, vti_Vps_poc_proportional_to_timing_flag = poc,
       vti_Vps_num_ticks_poc_diff_one_minus1 = ticks, vti_Vps_num_hrd_parameters = hrds\<rparr>, bs)
   }"

record VPS =
  vps_Vps_video_parameter_set_id :: byte
  vps_Vps_base_layer_internal_flag :: byte
  vps_Vps_base_layer_available_flag :: byte
  vps_Vps_max_layers_minus1 :: byte
  vps_Vps_max_sub_layers_minus1 :: byte
  vps_Vps_temporal_id_nesting_flag :: byte
  vps_Vps_reserved_0xffff_16bits :: u16
  vps_Ptl :: ProfileTierLevel
  vps_Vps_sub_layer_ordering_info_present_flag :: byte
  vps_Vps_max_dec_pic_buffering_minus1 :: "u64 list"
  vps_Vps_max_num_reorder_pics :: "u64 list"
  vps_Vps_max_latency_increase_plus1 :: "u64 list"
  vps_Vps_max_layer_id :: byte
  vps_Vps_num_layer_sets_minus1 :: u64
  vps_Layer_id_included_flag :: "byte list list"
  vps_Vps_timing_info_present_flag :: byte
  vps_TimeInfo :: VPSTimeInfo

definition read_ordering :: "bitstream \<Rightarrow> ((u64 \<times> u64 \<times> u64) \<times> bitstream) option" where
  "read_ordering bs = do { (a, bs) \<leftarrow> ReadUE bs; (b, bs) \<leftarrow> ReadUE bs; (c, bs) \<leftarrow> ReadUE bs; Some ((a, b, c), bs) }"

text \<open>The entry of an array of eight; the values read are the entries from \<open>i\<close> on.\<close>

definition eight :: "nat \<Rightarrow> u64 list \<Rightarrow> u64 list" where
  "eight i xs = replicate i 0 @ xs @ replicate (8 - i - length xs) 0"

definition VPS_front :: "bitstream \<Rightarrow> (VPS \<times> bitstream) option" where
  "VPS_front bs = do {
     (hdr, bs) \<leftarrow> H265NaluHdr_Decode bs;
     (vid, bs) \<leftarrow> Uint8 4 bs;
     (internal, bs) \<leftarrow> Uint8 1 bs;
     (available, bs) \<leftarrow> Uint8 1 bs;
     (layers, bs) \<leftarrow> Uint8 6 bs;
     (sub, bs) \<leftarrow> Uint8 3 bs;
     (nesting, bs) \<leftarrow> Uint8 1 bs;
     (reserved, bs) \<leftarrow> Uint16 16 bs;
     (ptl, bs) \<leftarrow> Profile_tier_level 1 sub bs;
     (ordering, bs) \<leftarrow> Uint8 1 bs;
     let i = (if ordering > 0 then 0 else unat sub);
     if unat sub \<ge> 8 then None
     else do {
       (os, bs) \<leftarrow> scan_list (unat sub + 1 - i) read_ordering bs;
       (maxid, bs) \<leftarrow> Uint8 6 bs;
       (sets, bs) \<leftarrow> ReadUE bs;
       Some (\<lparr>vps_Vps_video_parameter_set_id = vid, vps_Vps_base_layer_internal_flag = internal,
         vps_Vps_base_layer_available_flag = available, vps_Vps_max_layers_minus1 = layers, vps_Vps_max_sub_layers_minus1 = sub,
         vps_Vps_temporal_id_nesting_flag = nesting, vps_Vps_reserved_0xffff_16bits = reserved, vps_Ptl = ptl,
         vps_Vps_sub_layer_ordering_info_present_flag = ordering, vps_Vps_max_dec_pic_buffering_minus1 = eight i (map fst os),
         vps_Vps_max_num_reorder_pics = eight i (map (fst \<circ> snd) os), vps_Vps_max_latency_increase_plus1 = eight i (map (snd \<circ> snd) os),
         vps_Vps_max_layer_id = maxid, vps_Vps_num_layer_sets_minus1 = sets, vps_Layer_id_included_flag = [],
         vps_Vps_timing_info_present_flag = 0, vps_TimeInfo = zero_VTI\<rparr>, bs)
     }
   }"

definition VPS_Decode :: "bytes \<Rightarrow> (VPS \<times> codec_error option) option" where
  "VPS_Decode nalu = do {
     (vps, bs) \<leftarrow> VPS_front (NewBitStream (CovertRbspToSodb nalu));
     if vps_Vps_num_layer_sets_minus1 vps > 1023 then Some (vps, Err (Fail (ErrMsg ''h265: vps_num_layer_sets_minus1 > 1023'') bs))
     else do {
       (flags, bs) \<leftarrow> scan_list (unat (vps_Vps_num_layer_sets_minus1 vps)) (scan_list (unat (vps_Vps_max_layer_id vps) + 1) (Uint8 1)) bs;
       (timing, bs) \<leftarrow> Uint8 1 bs;
       (ti, bs) \<leftarrow> (if timing = 1 then ParserVPSTimeinfo bs else Some (zero_VTI, bs));
       Some (vps\<lparr>vps_Layer_id_included_flag := [] # flags, vps_Vps_timing_info_present_flag := timing, vps_TimeInfo := ti\<rparr>, Err bs)
     }
   }"

section \<open>Video usability information\<close>

record VUI_Parameters =
  hvui_Aspect_ratio_info_present_flag :: byte
  hvui_Overscan_info_present_flag :: byte
  hvui_Chroma_loc_info_present_flag :: byte
  hvui_Neutral_chroma_indication_flag :: byte
  hvui_Field_seq_flag :: byte
  hvui_Frame_field_info_present_flag :: byte
  hvui_Default_display_window_flag :: byte
  hvui_Vui_timing_info_present_flag :: byte
  hvui_Vui_num_units_in_tick :: u32
  hvui_Vui_time_scale :: u32
  hvui_Vui_poc_proportional_to_timing_flag :: byte
  hvui_Vui_hrd_parameters_present_flag :: byte
  hvui_Bitstream_restriction_flag :: byte
  hvui_Tiles_fixed_structure_flag :: byte
  hvui_Motion_vectors_over_pic_boundaries_flag :: byte
  hvui_Restricted_ref_pic_lists_flag :: byte
  hvui_Min_spatial_segmentation_idc :: u64
  hvui_Max_bytes_per_pic_denom :: u64
  hvui_Max_bits_per_min_cu_denom :: u64
  hvui_Log2_max_mv_length_horizontal :: u64
  hvui_Log2_max_mv_length_vertical :: u64

definition zero_HVUI :: VUI_Parameters where
  "zero_HVUI = \<lparr>hvui_Aspect_ratio_info_present_flag = 0, hvui_Overscan_info_present_flag = 0, hvui_Chroma_loc_info_present_flag = 0,
     hvui_Neutral_chroma_indication_flag = 0, hvui_Field_seq_flag = 0, hvui_Frame_field_info_present_flag = 0,
     hvui_Default_display_window_flag = 0, hvui_Vui_timing_info_present_flag = 0, hvui_Vui_num_units_in_tick = 0, hvui_Vui_time_scale = 0,
     hvui_Vui_poc_proportional_to_timing_flag = 0, hvui_Vui_hrd_parameters_present_flag = 0, hvui_Bitstream_restriction_flag = 0,
     hvui_Tiles_fixed_structure_flag = 0, hvui_Motion_vectors_over_pic_boundaries_flag = 0, hvui_Restricted_ref_pic_lists_flag = 0,
     hvui_Min_spatial_segmentation_idc = 0, hvui_Max_bytes_per_pic_denom = 0, hvui_Max_bits_per_min_cu_denom = 0,
     hvui_Log2_max_mv_length_horizontal = 0, hvui_Log2_max_mv_length_vertical = 0\<rparr>"

definition skip_cpb :: "byte \<Rightarrow> bitstream \<Rightarrow> bitstream option" where
  "skip_cpb sub_pic bs = do {
     bs \<leftarrow> skip_times 2 skip_ue bs;
     bs \<leftarrow> (if sub_pic = 1 then skip_times 2 skip_ue bs else Some bs);
     Some (SkipBits 1 bs)
   }"

text \<open>The loop over the sub-layers with \<open>n\<close> of them to go.\<close>

primrec skip_hrd_layers :: "nat \<Rightarrow> byte \<Rightarrow> byte \<Rightarrow> byte \<Rightarrow> bitstream \<Rightarrow> bitstream option" where
  "skip_hrd_layers 0 nal vcl sub_pic bs = Some bs"
| "skip_hrd_layers (Suc n) nal vcl sub_pic bs = do {
     (general, bs) \<leftarrow> GetBit bs;
     (within, bs) \<leftarrow> (if general = 0 then GetBit bs else Some (1, bs));
     (low, bs) \<leftarrow> (if within = 1 then do { bs \<leftarrow> skip_ue bs; Some (0, bs) } else GetBit bs);
     (cnt, bs) \<leftarrow> (if low = 0 then do { (v, bs) \<leftarrow> ReadUE bs; Some (ucast v :: u32, bs) } else Some (0, bs));
     if cnt > 31 then Some (Fail (ErrMsg ''h265: cpb_cnt_minus1 > 31'') bs)
     else do {
       bs \<leftarrow> (if nal = 1 then skip_times (unat cnt + 1) (skip_cpb sub_pic) bs else Some bs);
       bs \<leftarrow> (if vcl = 1 then skip_times (unat cnt + 1) (skip_cpb sub_pic) bs else Some bs);
       skip_hrd_layers n nal vcl sub_pic bs
     }
   }"

definition skip_hrd_parameters :: "byte \<Rightarrow> u32 \<Rightarrow> bitstream \<Rightarrow> bitstream option" where
  "skip_hrd_parameters cprms_present_flag max_sub_layers_minus1 bs = do {
     ((nal, vcl, sub), bs) \<leftarrow> (if cprms_present_flag = 1 then do {
         (nal, bs) \<leftarrow> GetBit bs;
         (vcl, bs) \<leftarrow> GetBit bs;
         if nal = 1 \<or> vcl = 1 then do {
           (sub, bs) \<leftarrow> GetBit bs;
           let bs = (if sub = 1 then SkipBits 19 bs else bs);
           let bs = SkipBits 8 bs;
           let bs = (if sub = 1 then SkipBits 4 bs else bs);
           Some ((nal, vcl, sub), SkipBits 15 bs)
         } else Some ((nal, vcl, 0), bs)
       } else Some ((0, 0, 0), bs));
     skip_hrd_layers (unat max_sub_layers_minus1 + 1) nal vcl sub bs
   }"

definition hvui_display :: "bitstream \<Rightarrow> (VUI_Parameters \<times> bitstream) option" where
  "hvui_display bs = do {
     (aspect, bs) \<leftarrow> Uint8 1 bs;
     bs \<leftarrow> (if aspect = 1 then do { (idc, bs) \<leftarrow> Uint8 8 bs; Some (if idc = 255 then SkipBits 32 bs else bs) } else Some bs);
     (overscan, bs) \<leftarrow> Uint8 1 bs;
     let bs = (if overscan = 1 then SkipBits 1 bs else bs);
     (signal, bs) \<leftarrow> GetBit bs;
     bs \<leftarrow> (if signal = 1 then do { (colour, bs) \<leftarrow> GetBit (SkipBits 4 bs); Some (if colour = 1 then SkipBits 24 bs else bs) } else Some bs);
     (chroma, bs) \<leftarrow> GetBit bs;
     bs \<leftarrow> (if chroma = 1 then skip_times 2 skip_ue bs else Some bs);
     (neutral, bs) \<leftarrow> GetBit bs;
     (field, bs) \<leftarrow> GetBit bs;
     (frame, bs) \<leftarrow> GetBit bs;
     (window, bs) \<leftarrow> GetBit bs;
     bs \<leftarrow> (if window = 1 then skip_times 4 skip_ue bs else Some bs);
     Some (zero_HVUI\<lparr>hvui_Aspect_ratio_info_present_flag := aspect, hvui_Overscan_info_present_flag := overscan,
       hvui_Chroma_loc_info_present_flag := chroma, hvui_Neutral_chroma_indication_flag := neutral, hvui_Field_seq_flag := field,
       hvui_Frame_field_info_present_flag := frame, hvui_Default_display_window_flag := window\<rparr>, bs)
   }"

definition hvui_timing :: "VUI_Parameters \<Rightarrow> byte \<Rightarrow> bitstream \<Rightarrow> (VUI_Parameters \<times> bitstream) option" where
  "hvui_timing vui max_sub_layers_minus1 bs = do {
     (timing, bs) \<leftarrow> GetBit bs;
     let vui = vui\<lparr>hvui_Vui_timing_info_present_flag := timing\<rparr>;
     if timing = 1 then do {
       (units, bs) \<leftarrow> Uint32 32 bs;
       (scale, bs) \<leftarrow> Uint32 32 bs;
       (poc, bs) \<leftarrow> GetBit bs;
       bs \<leftarrow> (if poc = 1 then skip_ue bs else Some bs);
       (hrd, bs) \<leftarrow> GetBit bs;
       bs \<leftarrow> (if hrd = 1 then skip_hrd_parameters 1 (ucast max_sub_layers_minus1) bs else Some bs);
       Some (vui\<lparr>hvui_Vui_num_units_in_tick := units, hvui_Vui_time_scale := scale, hvui_Vui_poc_proportional_to_timing_flag := poc,
         hvui_Vui_hrd_parameters_present_flag := hrd\<rparr>, bs)
     } else Some (vui, bs)
   }"

definition hvui_restriction :: "VUI_Parameters \<Rightarrow> bitstream \<Rightarrow> (VUI_Parameters \<times> bitstream) option" where
  "hvui_restriction vui bs = do {
     (restriction, bs) \<leftarrow> GetBit bs;
     let vui = vui\<lparr>hvui_Bitstream_restriction_flag := restriction\<rparr>;
     if restriction = 1 then do {
       (tiles, bs) \<leftarrow> GetBit bs;
       (motion, bs) \<leftarrow> GetBit bs;
       (lists, bs) \<leftarrow> GetBit bs;
       (spatial, bs) \<leftarrow> ReadUE bs;
       (pbytes, bs) \<leftarrow> ReadUE bs;
       (cubits, bs) \<leftarrow> ReadUE bs;
       (horizontal, bs) \<leftarrow> ReadUE bs;
       (vertical, bs) \<leftarrow> ReadUE bs;
       Some (vui\<lparr>hvui_Tiles_fixed_structure_flag := tiles, hvui_Motion_vectors_over_pic_boundaries_flag := motion,
         hvui_Restricted_ref_pic_lists_flag := lists, hvui_Min_spatial_segmentation_idc := spatial, hvui_Max_bytes_per_pic_denom := pbytes,
         hvui_Max_bits_per_min_cu_denom := cubits, hvui_Log2_max_mv_length_horizontal := horizontal,
         hvui_Log2_max_mv_length_vertical := vertical\<rparr>, bs)
     } else Some (vui, bs)
   }"

definition HVUI_Decode :: "byte \<Rightarrow> bitstream \<Rightarrow> (VUI_Parameters \<times> bitstream) option" where
  "HVUI_Decode max_sub_layers_minus1 bs = do {
     (vui, bs) \<leftarrow> hvui_display bs;
     (vui, bs) \<leftarrow> hvui_timing vui max_sub_layers_minus1 bs;
     hvui_restriction vui bs
   }"

section \<open>Reference picture sets and scaling lists\<close>

definition scaling_list :: "nat \<Rightarrow> bitstream \<Rightarrow> bitstream option" where
  "scaling_list i bs = do {
     (mode, bs) \<leftarrow> GetBit bs;
     if mode = 0 then skip_ue bs
     else do {
       bs \<leftarrow> (if i > 1 then skip_se bs else Some bs);
       skip_times (min 64 (2 ^ (4 + 2 * i))) skip_se bs
     }
   }"

definition scaling_list_data :: "bitstream \<Rightarrow> bitstream option" where
  "scaling_list_data bs = do {
     bs \<leftarrow> skip_times 6 (scaling_list 0) bs;
     bs \<leftarrow> skip_times 6 (scaling_list 1) bs;
     bs \<leftarrow> skip_times 6 (scaling_list 2) bs;
     skip_times 2 (scaling_list 3) bs
   }"

text \<open>
  The loop over the pictures of the set that is predicted from; \<open>i\<close> has 32 bits, so with \<open>prev\<close> the
  largest number it does not end.
\<close>

partial_function (option) predict_deltas :: "u32 \<Rightarrow> u32 \<Rightarrow> u32 \<Rightarrow> bitstream \<Rightarrow> (u32 \<times> bitstream) option" where
  "predict_deltas prev i num bs = (if i \<le> prev then do {
       (used, bs) \<leftarrow> GetBit bs;
       (delta, bs) \<leftarrow> (if used = 0 then GetBit bs else Some (0, bs));
       predict_deltas prev (i + 1) (if delta > 0 \<or> used > 0 then num + 1 else num) bs
     } else Some (num, bs))"

definition skip_pic :: "bitstream \<Rightarrow> bitstream option" where
  "skip_pic bs = do { bs \<leftarrow> skip_ue bs; Some (SkipBits 1 bs) }"

definition parse_rps :: "int \<Rightarrow> u64 \<Rightarrow> u32 list \<Rightarrow> bitstream \<Rightarrow> (u32 list \<times> bitstream) option" where
  "parse_rps rps_idx nums_rps num_delta_pocs bs = do {
     (inter, bs) \<leftarrow> (if rps_idx > 0 then GetBit bs else Some (0, bs));
     if rps_idx > 0 \<and> inter > 0 then
       if rps_idx > sint nums_rps \<or> rps_idx \<ge> glen num_delta_pocs
       then Some (num_delta_pocs, Fail (ErrMsg ''h265: short term ref pic set index out of range'') bs)
       else do {
         let bs = SkipBits 1 bs;
         bs \<leftarrow> skip_ue bs;
         prev \<leftarrow> idx num_delta_pocs (rps_idx - 1);
         (num, bs) \<leftarrow> predict_deltas prev 0 0 bs;
         num_delta_pocs \<leftarrow> upd num_delta_pocs rps_idx num;
         Some (num_delta_pocs, bs)
       }
     else do {
       (negative, bs) \<leftarrow> ReadUE bs;
       (positive, bs) \<leftarrow> ReadUE bs;
       if (negative + positive) * 2 > word_of_int (RemainBits bs)
       then Some (num_delta_pocs, Fail (ErrMsg ''h265: short term ref pic set exceeds the available data'') bs)
       else do {
         num_delta_pocs \<leftarrow> (if rps_idx \<ge> 0 \<and> rps_idx < glen num_delta_pocs
           then upd num_delta_pocs rps_idx (ucast (negative + positive)) else Some num_delta_pocs);
         bs \<leftarrow> skip_times (nat (sint negative)) skip_pic bs;
         bs \<leftarrow> skip_times (nat (sint positive)) skip_pic bs;
         Some (num_delta_pocs, bs)
       }
     }
   }"

text \<open>The loop over the sets from \<open>i\<close>, with \<open>n\<close> of them to go.\<close>

primrec parse_rps_loop :: "nat \<Rightarrow> int \<Rightarrow> u64 \<Rightarrow> u32 list \<Rightarrow> bitstream \<Rightarrow> (u32 list \<times> bitstream) option" where
  "parse_rps_loop 0 i nums pocs bs = Some (pocs, bs)"
| "parse_rps_loop (Suc n) i nums pocs bs = do {
     (pocs, bs) \<leftarrow> parse_rps i nums pocs bs;
     parse_rps_loop n (i + 1) nums pocs bs
   }"

section \<open>Sequence parameter sets\<close>

record H265RawSPS =
  hsps_Sps_video_parameter_set_id :: byte
  hsps_Sps_max_sub_layers_minus1 :: byte
  hsps_Sps_temporal_id_nesting_flag :: byte
  hsps_Ptl :: ProfileTierLevel
  hsps_Sps_seq_parameter_set_id :: u64
  hsps_Chroma_format_idc :: u64
  hsps_Separate_colour_plane_flag :: byte
  hsps_Pic_width_in_luma_samples :: u64
  hsps_Pic_height_in_luma_samples :: u64
  hsps_Conformance_window_flag :: byte
  hsps_Conf_win_left_offset :: u64
  hsps_Conf_win_right_offset :: u64
  hsps_Conf_win_top_offset :: u64
  hsps_Conf_win_bottom_offset :: u64
  hsps_Bit_depth_luma_minus8 :: u64
  hsps_Bit_depth_chroma_minus8 :: u64
  hsps_Log2_max_pic_order_cnt_lsb_minus4 :: u64
  hsps_Sps_sub_layer_ordering_info_present_flag :: byte
  hsps_Vui_parameters_present_flag :: byte
  hsps_Vui :: VUI_Parameters

definition zero_HSPS :: H265RawSPS where
  "zero_HSPS = \<lparr>hsps_Sps_video_parameter_set_id = 0, hsps_Sps_max_sub_layers_minus1 = 0, hsps_Sps_temporal_id_nesting_flag = 0,
     hsps_Ptl = zero_PTL, hsps_Sps_seq_parameter_set_id = 0, hsps_Chroma_format_idc = 0, hsps_Separate_colour_plane_flag = 0,
     hsps_Pic_width_in_luma_samples = 0, hsps_Pic_height_in_luma_samples = 0, hsps_Conformance_window_flag = 0,
     hsps_Conf_win_left_offset = 0, hsps_Conf_win_right_offset = 0, hsps_Conf_win_top_offset = 0, hsps_Conf_win_bottom_offset = 0,
     hsps_Bit_depth_luma_minus8 = 0, hsps_Bit_depth_chroma_minus8 = 0, hsps_Log2_max_pic_order_cnt_lsb_minus4 = 0,
     hsps_Sps_sub_layer_ordering_info_present_flag = 0, hsps_Vui_parameters_present_flag = 0, hsps_Vui = zero_HVUI\<rparr>"

definition hsps_head :: "bitstream \<Rightarrow> (H265RawSPS \<times> bitstream) option" where
  "hsps_head bs = do {
     (hdr, bs) \<leftarrow> H265NaluHdr_Decode bs;
     (vid, bs) \<leftarrow> Uint8 4 bs;
     (sub, bs) \<leftarrow> Uint8 3 bs;
     (nesting, bs) \<leftarrow> Uint8 1 bs;
     (ptl, bs) \<leftarrow> Profile_tier_level 1 sub bs;
     (sid, bs) \<leftarrow> ReadUE bs;
     (chroma, bs) \<leftarrow> ReadUE bs;
     (plane, bs) \<leftarrow> (if chroma = 3 then GetBit bs else Some (0, bs));
     Some (zero_HSPS\<lparr>hsps_Sps_video_parameter_set_id := vid, hsps_Sps_max_sub_layers_minus1 := sub,
       hsps_Sps_temporal_id_nesting_flag := nesting, hsps_Ptl := ptl, hsps_Sps_seq_parameter_set_id := sid,
       hsps_Chroma_format_idc := chroma, hsps_Separate_colour_plane_flag := plane\<rparr>, bs)
   }"

definition hsps_picture :: "H265RawSPS \<Rightarrow> bitstream \<Rightarrow> (H265RawSPS \<times> bitstream) option" where
  "hsps_picture sps bs = do {
     (width, bs) \<leftarrow> ReadUE bs;
     (height, bs) \<leftarrow> ReadUE bs;
     (window, bs) \<leftarrow> Uint8 1 bs;
     ((l, r, t, b), bs) \<leftarrow> (if window = 1 then do {
         (l, bs) \<leftarrow> ReadUE bs;
         (r, bs) \<leftarrow> ReadUE bs;
         (t, bs) \<leftarrow> ReadUE bs;
         (b, bs) \<leftarrow> ReadUE bs;
         Some ((l, r, t, b), bs)
       } else Some ((0, 0, 0, 0), bs));
     (luma, bs) \<leftarrow> ReadUE bs;
     (chroma, bs) \<leftarrow> ReadUE bs;
     (lsb, bs) \<leftarrow> ReadUE bs;
     (ordering, bs) \<leftarrow> Uint8 1 bs;
     Some (sps\<lparr>hsps_Pic_width_in_luma_samples := width, hsps_Pic_height_in_luma_samples := height,
       hsps_Conformance_window_flag := window, hsps_Conf_win_left_offset := l, hsps_Conf_win_right_offset := r,
       hsps_Conf_win_top_offset := t, hsps_Conf_win_bottom_offset := b, hsps_Bit_depth_luma_minus8 := luma,
       hsps_Bit_depth_chroma_minus8 := chroma, hsps_Log2_max_pic_order_cnt_lsb_minus4 := lsb,
       hsps_Sps_sub_layer_ordering_info_present_flag := ordering\<rparr>, bs)
   }"

text \<open>What lies between the ordering flag and the reference picture sets is read and dropped.\<close>

definition hsps_coding :: "H265RawSPS \<Rightarrow> bitstream \<Rightarrow> bitstream option" where
  "hsps_coding sps bs = do {
     let sub = unat (hsps_Sps_max_sub_layers_minus1 sps);
     let i = (if hsps_Sps_sub_layer_ordering_info_present_flag sps = 0 then sub else 0);
     bs \<leftarrow> skip_times (3 * (sub + 1 - i)) skip_ue bs;
     bs \<leftarrow> skip_times 6 skip_ue bs;
     (scaling, bs) \<leftarrow> GetBit bs;
     bs \<leftarrow> (if scaling > 0 then do {
         (present, bs) \<leftarrow> GetBit bs;
         if present > 0 then scaling_list_data bs else Some bs
       } else Some bs);
     let bs = SkipBits 1 bs;
     let bs = SkipBits 1 bs;
     (pcm, bs) \<leftarrow> GetBit bs;
     if pcm = 1 then do {
       (x, bs) \<leftarrow> GetBits 4 bs;
       (y, bs) \<leftarrow> GetBits 4 bs;
       bs \<leftarrow> skip_times 2 skip_ue bs;
       (z, bs) \<leftarrow> GetBit bs;
       Some bs
     } else Some bs
   }"

text \<open>\<open>Min(int(x + 4), 16)\<close>: the conversion takes a large number for a negative one.\<close>

definition poc_lsb_bits :: "u64 \<Rightarrow> int" where "poc_lsb_bits x = min (sint (x + 4)) 16"

definition skip_long_term :: "H265RawSPS \<Rightarrow> bitstream \<Rightarrow> bitstream option" where
  "skip_long_term sps bs = Some (SkipBits 1 (SkipBits (poc_lsb_bits (hsps_Log2_max_pic_order_cnt_lsb_minus4 sps)) bs))"

text \<open>The flag says whether \<open>Decode\<close> goes on.\<close>

definition hsps_pictures :: "H265RawSPS \<Rightarrow> bitstream \<Rightarrow> (bool \<times> bitstream) option" where
  "hsps_pictures sps bs = do {
     (num, bs) \<leftarrow> ReadUE bs;
     if num > 64 then Some (False, Fail (ErrMsg ''h265: num_short_term_ref_pic_sets beyond HEVC_MAX_SHORT_TERM_REF_PIC_SETS'') bs)
     else do {
       (pocs, bs) \<leftarrow> parse_rps_loop (unat num) 0 num (replicate 64 0) bs;
       (long, bs) \<leftarrow> GetBit bs;
       if long = 1 then do {
         (n, bs) \<leftarrow> ReadUE bs;
         if n > 32 then Some (False, Fail (ErrMsg ''h265: num_long_term_ref_pics_sps > 32'') bs)
         else do { bs \<leftarrow> skip_times (unat n) (skip_long_term sps) bs; Some (True, bs) }
       } else Some (True, bs)
     }
   }"

definition hsps_vui :: "H265RawSPS \<Rightarrow> bitstream \<Rightarrow> (H265RawSPS \<times> bitstream) option" where
  "hsps_vui sps bs = do {
     let bs = SkipBits 1 bs;
     let bs = SkipBits 1 bs;
     (present, bs) \<leftarrow> GetBit bs;
     let sps = sps\<lparr>hsps_Vui_parameters_present_flag := present\<rparr>;
     if present = 1 then do {
       (vui, bs) \<leftarrow> HVUI_Decode (hsps_Sps_max_sub_layers_minus1 sps) bs;
       Some (sps\<lparr>hsps_Vui := vui\<rparr>, bs)
     } else Some (sps, bs)
   }"

definition H265RawSPS_Decode :: "bytes \<Rightarrow> (H265RawSPS \<times> codec_error option) option" where
  "H265RawSPS_Decode nalu = do {
     (sps, bs) \<leftarrow> hsps_head (NewBitStream (CovertRbspToSodb nalu));
     (sps, bs) \<leftarrow> hsps_picture sps bs;
     bs \<leftarrow> hsps_coding sps bs;
     (more, bs) \<leftarrow> hsps_pictures sps bs;
     (sps, bs) \<leftarrow> (if more then hsps_vui sps bs else Some (sps, bs));
     Some (sps, Err bs)
   }"

section \<open>Picture parameter sets\<close>

record H265RawPPS =
  hpps_Pps_pic_parameter_set_id :: u64
  hpps_Pps_seq_parameter_set_id :: u64
  hpps_Dependent_slice_segments_enabled_flag :: byte
  hpps_Output_flag_present_flag :: byte
  hpps_Num_extra_slice_header_bits :: byte
  hpps_Sign_data_hiding_enabled_flag :: byte
  hpps_Cabac_init_present_flag :: byte
  hpps_Num_ref_idx_l0_default_active_minus1 :: u64
  hpps_Num_ref_idx_l1_default_active_minus1 :: u64
  hpps_Init_qp_minus26 :: int
  hpps_Constrained_intra_pred_flag :: byte
  hpps_Transform_skip_enabled_flag :: byte
  hpps_Cu_qp_delta_enabled_flag :: byte
  hpps_Diff_cu_qp_delta_depth :: u64
  hpps_Pps_cb_qp_offset :: int
  hpps_Pps_cr_qp_offset :: int
  hpps_Pps_slice_chroma_qp_offsets_present_flag :: byte
  hpps_Weighted_pred_flag :: byte
  hpps_Weighted_bipred_flag :: byte
  hpps_Transquant_bypass_enabled_flag :: byte
  hpps_Tiles_enabled_flag :: byte
  hpps_Entropy_coding_sync_enabled_flag :: byte

definition hpps_body :: "bitstream \<Rightarrow> (H265RawPPS \<times> bitstream) option" where
  "hpps_body bs = do {
     (hdr, bs) \<leftarrow> H265NaluHdr_Decode bs;
     (pid, bs) \<leftarrow> ReadUE bs;
     (sid, bs) \<leftarrow> ReadUE bs;
     (dependent, bs) \<leftarrow> GetBit bs;
     (output, bs) \<leftarrow> GetBit bs;
     (extra, bs) \<leftarrow> Uint8 3 bs;
     (sign, bs) \<leftarrow> GetBit bs;
     (cabac, bs) \<leftarrow> GetBit bs;
     (l0, bs) \<leftarrow> ReadUE bs;
     (l1, bs) \<leftarrow> ReadUE bs;
     (qp, bs) \<leftarrow> ReadSE bs;
     (intra, bs) \<leftarrow> GetBit bs;
     (transform, bs) \<leftarrow> GetBit bs;
     (cu, bs) \<leftarrow> GetBit bs;
     (depth, bs) \<leftarrow> (if cu = 1 then ReadUE bs else Some (0, bs));
     (cb, bs) \<leftarrow> ReadSE bs;
     (cr, bs) \<leftarrow> ReadSE bs;
     (chroma, bs) \<leftarrow> GetBit bs;
     (pred, bs) \<leftarrow> GetBit bs;
     (bipred, bs) \<leftarrow> GetBit bs;
     (bypass, bs) \<leftarrow> GetBit bs;
     (tiles, bs) \<leftarrow> GetBit bs;
     (sync, bs) \<leftarrow> GetBit bs;
     Some (\<lparr>hpps_Pps_pic_parameter_set_id = pid, hpps_Pps_seq_parameter_set_id = sid,
       hpps_Dependent_slice_segments_enabled_flag = dependent, hpps_Output_flag_present_flag = output,
       hpps_Num_extra_slice_header_bits = extra, hpps_Sign_data_hiding_enabled_flag = sign, hpps_Cabac_init_present_flag = cabac,
       hpps_Num_ref_idx_l0_default_active_minus1 = l0, hpps_Num_ref_idx_l1_default_active_minus1 = l1, hpps_Init_qp_minus26 = qp,
       hpps_Constrained_intra_pred_flag = intra, hpps_Transform_skip_enabled_flag = transform, hpps_Cu_qp_delta_enabled_flag = cu,
       hpps_Diff_cu_qp_delta_depth = depth, hpps_Pps_cb_qp_offset = cb, hpps_Pps_cr_qp_offset = cr,
       hpps_Pps_slice_chroma_qp_offsets_present_flag = chroma, hpps_Weighted_pred_flag = pred, hpps_Weighted_bipred_flag = bipred,
       hpps_Transquant_bypass_enabled_flag = bypass, hpps_Tiles_enabled_flag = tiles, hpps_Entropy_coding_sync_enabled_flag = sync\<rparr>, bs)
   }"

definition H265RawPPS_Decode :: "bytes \<Rightarrow> (H265RawPPS \<times> codec_error option) option" where
  "H265RawPPS_Decode nalu = do {
     (pps, bs) \<leftarrow> hpps_body (NewBitStream (CovertRbspToSodb nalu));
     Some (pps, Err bs)
   }"

section \<open>Resolution and ids\<close>

definition GetH265Resolution :: "bytes \<Rightarrow> (codec_error, u32 \<times> u32) result" where
  "GetH265Resolution sps = do {
     off \<leftarrow> naluOffset sps;
     if off < 0 then err (ErrMsg ''h265: empty sps nalu'')
     else do {
       b \<leftarrow> slice_from sps off;
       (h265sps, e) \<leftarrow> H265RawSPS_Decode b;
       (case e of Some e \<Rightarrow> err e
        | None \<Rightarrow> ok (ucast (hsps_Pic_width_in_luma_samples h265sps), ucast (hsps_Pic_height_in_luma_samples h265sps)))
     }
   }"

definition GetVPSId :: "bytes \<Rightarrow> byte option" where
  "GetVPSId vps = do { (rawvps, e) \<leftarrow> VPS_Decode vps; Some (if e \<noteq> None then 0 else vps_Vps_video_parameter_set_id rawvps) }"

definition GetH265SPSId :: "bytes \<Rightarrow> u64 option" where
  "GetH265SPSId sps = do { (rawsps, e) \<leftarrow> H265RawSPS_Decode sps; Some (if e \<noteq> None then 0 else hsps_Sps_seq_parameter_set_id rawsps) }"

definition GetH265PPSId :: "bytes \<Rightarrow> u64 option" where
  "GetH265PPSId pps = do { (rawpps, e) \<leftarrow> H265RawPPS_Decode pps; Some (if e \<noteq> None then 0 else hpps_Pps_pic_parameter_set_id rawpps) }"

definition GetVPSIdWithStartCode :: "bytes \<Rightarrow> byte option" where
  "GetVPSIdWithStartCode vps = do { off \<leftarrow> naluOffset vps; if off < 0 then Some 0 else do { b \<leftarrow> slice_from vps off; GetVPSId b } }"

definition GetH265SPSIdWithStartCode :: "bytes \<Rightarrow> u64 option" where
  "GetH265SPSIdWithStartCode sps = do { off \<leftarrow> naluOffset sps; if off < 0 then Some 0 else do { b \<leftarrow> slice_from sps off; GetH265SPSId b } }"

definition GetH265PPSIdWithStartCode :: "bytes \<Rightarrow> u64 option" where
  "GetH265PPSIdWithStartCode pps = do { off \<leftarrow> naluOffset pps; if off < 0 then Some 0 else do { b \<leftarrow> slice_from pps off; GetH265PPSId b } }"

section \<open>Every decoder returns\<close>

text \<open>A stream over at most \<open>N\<close> bytes, and the rules for parsers that keep it so.\<close>

definition bs_in :: "nat \<Rightarrow> bitstream \<Rightarrow> bool" where
  "bs_in N s \<longleftrightarrow> bs_ok s \<and> length (bs_bits s) \<le> N"

abbreviation at_in :: "nat \<Rightarrow> 'a \<times> bitstream \<Rightarrow> bool" where "at_in N \<equiv> \<lambda>(v, t). bs_in N t"

named_theorems in_total \<open>rules that show that a parser returns on every stream of bounded length\<close>

lemma in_reads [in_total]:
  assumes "bs_in N s"
  shows "gives (at_in N) (GetBits n s)" "gives (at_in N) (GetBit s)" "gives (at_in N) (Uint8 n s)" "gives (at_in N) (Uint16 n s)"
    "gives (at_in N) (Uint32 n s)" "gives (at_in N) (ReadUE s)" "gives (at_in N) (ReadSE s)"
proof -
  have s: "bs_ok s" "length (bs_bits s) \<le> N" using assms by (simp_all add: bs_in_def)
  show "gives (at_in N) (GetBits n s)" "gives (at_in N) (GetBit s)" "gives (at_in N) (Uint8 n s)" "gives (at_in N) (Uint16 n s)"
    "gives (at_in N) (Uint32 n s)" "gives (at_in N) (ReadUE s)" "gives (at_in N) (ReadSE s)"
    using GetBits_total [OF s(1), of n] GetBit_total [OF s(1)] ReadUE_total [OF s(1)] ReadSE_total [OF s(1)] s(2)
    by (auto simp: gives_def bs_in_def Uint8_def Uint16_def Uint32_def)
qed

lemma in_bind [in_total]:
  assumes "gives (at_in N) m" and "\<And>v t. bs_in N t \<Longrightarrow> gives Q (f v t)"
  shows "gives Q (Option.bind m (\<lambda>(v, t). f v t))"
  using assms by (auto simp: gives_def)

lemma in_stream_bind [in_total]:
  "gives (bs_in N) m \<Longrightarrow> (\<And>t. bs_in N t \<Longrightarrow> gives Q (f t)) \<Longrightarrow> gives Q (Option.bind m f)"
  by (auto simp: gives_def)

lemma in_values [in_total]: "bs_in N t \<Longrightarrow> gives (at_in N) (Some (v, t))" "bs_in N t \<Longrightarrow> gives (bs_in N) (Some t)"
  by simp_all

lemma in_SkipBits [in_total]: "bs_in N s \<Longrightarrow> bs_in N (SkipBits n s)"
  using SkipBits_ok [of s n] by (simp add: bs_in_def)

lemma in_Fail [in_total]: "bs_in N s \<Longrightarrow> bs_in N (Fail e s)"
  by (simp add: bs_in_def) (simp add: Fail_def)

lemma in_iff [in_total]: "(c \<Longrightarrow> bs_in N s) \<Longrightarrow> (\<not> c \<Longrightarrow> bs_in N t) \<Longrightarrow> bs_in N (if c then s else t)" by simp

lemma in_pair_bind [in_total]:
  assumes "gives (at_in N) m" and "\<And>a b t. bs_in N t \<Longrightarrow> gives Q (f a b t)"
  shows "gives Q (Option.bind m (\<lambda>((a, b), t). f a b t))"
  using assms by (fastforce simp: gives_def)

lemma in_triple_bind [in_total]:
  assumes "gives (at_in N) m" and "\<And>a b c t. bs_in N t \<Longrightarrow> gives Q (f a b c t)"
  shows "gives Q (Option.bind m (\<lambda>((a, b, c), t). f a b c t))"
  using assms by (fastforce simp: gives_def)

lemma in_quad_bind [in_total]:
  assumes "gives (at_in N) m" and "\<And>a b c d t. bs_in N t \<Longrightarrow> gives Q (f a b c d t)"
  shows "gives Q (Option.bind m (\<lambda>((a, b, c, d), t). f a b c d t))"
  using assms by (fastforce simp: gives_def)

lemma in_scan_list [in_total]: "(\<And>s. bs_in N s \<Longrightarrow> gives (at_in N) (f s)) \<Longrightarrow> bs_in N s \<Longrightarrow> gives (at_in N) (scan_list n f s)"
  by (induction n arbitrary: s) (auto intro!: in_bind)

lemma in_skip_times [in_total]: "(\<And>s. bs_in N s \<Longrightarrow> gives (bs_in N) (f s)) \<Longrightarrow> bs_in N s \<Longrightarrow> gives (bs_in N) (skip_times n f s)"
  by (induction n arbitrary: s) (auto intro!: in_stream_bind)

lemma in_funpow [in_total]: "bs_in N s \<Longrightarrow> bs_in N ((SkipBits k ^^ n) s)"
  by (induction n) (simp_all add: in_SkipBits)

lemma in_skip_ue [in_total]: "bs_in N s \<Longrightarrow> gives (bs_in N) (skip_ue s)"
  unfolding skip_ue_def by (intro in_total)

lemma in_skip_se [in_total]: "bs_in N s \<Longrightarrow> gives (bs_in N) (skip_se s)"
  unfolding skip_se_def by (intro in_total)

lemmas [in_total] = gives_let gives_if

lemma in_skip_sub_layers [in_total]: "bs_in N s \<Longrightarrow> bs_in N (skip_sub_layers fs s)"
  by (induction fs s rule: skip_sub_layers.induct) (simp_all add: Let_def in_SkipBits)

text \<open>Three bits are a number below eight.\<close>

lemma three_bits: "bs_in N s \<Longrightarrow> gives (\<lambda>(v, t). v < 8 \<and> bs_in N t) (Uint8 3 s)"
proof -
  assume s: "bs_in N s"
  then have ok: "bs_ok s" by (simp add: bs_in_def)
  obtain v t where v: "Uint8 3 s = Some (v, t)" "bs_in N t" using in_reads(3) [OF s, of 3] by (auto simp: gives_def)
  have "v < 8"
  proof (cases "bs_err s = None \<and> 3 \<le> length (rest_bits s)")
    case True
    then have "ready s" using ok by (simp add: ready_def)
    then have "GetBits (int 3) s = Some (of_msb (take 3 (rest_bits s)), advance 3 s)" using True by (intro GetBits_ready) auto
    then have "v = of_msb (take 3 (rest_bits s))" using v(1) by (simp add: Uint8_def ucast_of_msb)
    moreover have "unat (of_msb (take 3 (rest_bits s)) :: byte) < 2 ^ length (take 3 (rest_bits s))" by (rule unat_of_msb_bound)
    ultimately show ?thesis using True by (simp add: word_less_nat_alt)
  next
    case False
    then have "v = 0" using v(1) ok GetBits_short [of s 3]
      by (cases "bs_err s = None") (auto simp: Uint8_def GetBits_failed ready_def not_le)
    then show ?thesis by simp
  qed
  then show ?thesis using v by (simp add: gives_def)
qed

lemma in_three_bits:
  assumes "bs_in N s" and "\<And>v t. v < 8 \<Longrightarrow> bs_in N t \<Longrightarrow> gives Q (f v t)"
  shows "gives Q (Option.bind (Uint8 3 s) (\<lambda>(v, t). f v t))"
  using three_bits [OF assms(1)] assms(2) by (auto simp: gives_def)

lemma in_NaluHdr [in_total]: "bs_in N s \<Longrightarrow> gives (at_in N) (H265NaluHdr_Decode s)"
  unfolding H265NaluHdr_Decode_def by (intro in_total)

lemma in_PTL [in_total]: "v < 8 \<Longrightarrow> bs_in N s \<Longrightarrow> gives (at_in N) (Profile_tier_level p v s)"
proof -
  assume v: "v < 8"
  then have n: "\<not> unat v > 8" by (simp add: word_less_nat_alt)
  show "bs_in N s \<Longrightarrow> gives (at_in N) (Profile_tier_level p v s)"
    unfolding Profile_tier_level_def read_layer_flags_def Let_def if_not_P [OF n] by (intro in_total)
qed

lemma in_VPS_front [in_total]: "bs_in N s \<Longrightarrow> gives (at_in N) (VPS_front s)"
proof -
  assume s: "bs_in N s"
  have n: "v < 8 \<Longrightarrow> \<not> unat v \<ge> 8" for v :: byte by (simp add: word_less_nat_alt)
  show ?thesis unfolding VPS_front_def read_ordering_def Let_def
    by (rule in_three_bits s | assumption | rule in_total | (simp add: n; fail))+
qed


lemma in_skip_cpb [in_total]: "bs_in N s \<Longrightarrow> gives (bs_in N) (skip_cpb f s)"
  unfolding skip_cpb_def by (intro in_total)

lemma in_skip_hrd_layers [in_total]: "bs_in N s \<Longrightarrow> gives (bs_in N) (skip_hrd_layers n nal vcl f s)"
proof (induction n arbitrary: s)
  case (Suc n)
  then show ?case unfolding skip_hrd_layers.simps by (intro in_total Suc.IH)
qed simp

lemma in_HVUI [in_total]: "bs_in N s \<Longrightarrow> gives (at_in N) (HVUI_Decode m s)"
  unfolding HVUI_Decode_def hvui_display_def hvui_timing_def hvui_restriction_def skip_hrd_parameters_def
  by (intro in_total)

lemma in_scaling [in_total]: "bs_in N s \<Longrightarrow> gives (bs_in N) (scaling_list_data s)"
  unfolding scaling_list_data_def scaling_list_def by (intro in_total)

lemma in_skip_pic [in_total]: "bs_in N s \<Longrightarrow> gives (bs_in N) (skip_pic s)"
  unfolding skip_pic_def by (intro in_total)

text \<open>A set is predicted from at most \<open>prev + 1\<close> pictures.\<close>

lemma in_predict_deltas:
  assumes "bs_in N s" "prev \<noteq> - 1" "unat i \<le> unat prev + 1"
  shows "gives (\<lambda>(v, t). unat v \<le> unat num + (unat prev + 1 - unat i) \<and> bs_in N t) (predict_deltas prev i num s)"
  using assms
proof (induction "unat prev + 1 - unat i" arbitrary: i num s)
  case 0
  then have "\<not> i \<le> prev" by (simp add: word_le_nat_alt)
  then show ?case using 0 by (simp add: predict_deltas.simps)
next
  case (Suc k)
  then have le: "i \<le> prev" by (simp add: word_le_nat_alt)
  have "unat prev \<noteq> unat (- 1 :: u32)" using Suc.prems(2) word_unat_eq_iff by metis
  then have "unat prev < 2 ^ 32 - 1" using unsigned_less [of prev, where 'a = nat] by (simp add: unsigned_minus_1_eq_mask mask_eq_exp_minus_1)
  then have "unat i + 1 < 2 ^ 32" using le by (simp add: word_le_nat_alt)
  then have i1: "unat (i + 1) = unat i + 1" by (simp add: unat_word_ariths)
  let ?n = "\<lambda>d u :: byte. if d > 0 \<or> u > 0 then num + 1 else num"
  have n1: "unat (num + 1) \<le> unat num + 1" by (simp add: unat_word_ariths)
  obtain u t where u: "GetBit s = Some (u, t)" "bs_in N t" using in_reads(2) [OF Suc.prems(1)] by (auto simp: gives_def)
  obtain d r where d: "(if u = 0 then GetBit t else Some (0, t)) = Some (d, r)" "bs_in N r"
    using in_reads(2) [OF u(2)] u(2) by (cases "u = 0") (auto simp: gives_def)
  have "gives (\<lambda>(v, t). unat v \<le> unat (?n d u) + (unat prev + 1 - unat (i + 1)) \<and> bs_in N t) (predict_deltas prev (i + 1) (?n d u) r)"
    using Suc.hyps(2) i1 le by (intro Suc.hyps(1) d Suc.prems) (auto simp: word_le_nat_alt)
  then have "gives (\<lambda>(v, t). unat v \<le> unat num + (unat prev + 1 - unat i) \<and> bs_in N t) (predict_deltas prev (i + 1) (?n d u) r)"
    using n1 i1 Suc.hyps(2) by (elim gives_mono) (auto split: if_splits)
  then show ?case using le u d by (subst predict_deltas.simps) simp
qed

definition pocs_in :: "nat \<Rightarrow> u32 list \<Rightarrow> bool" where
  "pocs_in b ps \<longleftrightarrow> length ps = 64 \<and> (\<forall>p\<in>set ps. unat p \<le> b)"

lemma in_parse_rps:
  assumes s: "bs_in N s" and p: "pocs_in b ps" and b: "4 * N \<le> b" "b < 2 ^ 32 - 1" and i: "0 \<le> i"
  shows "gives (\<lambda>(ps, t). pocs_in (b + 1) ps \<and> bs_in N t) (parse_rps i nums ps s)"
proof -
  have p1: "pocs_in (b + 1) ps" using p by (auto simp: pocs_in_def)
  have upd: "\<exists>qs. upd ps i v = Some qs \<and> pocs_in (b + 1) qs" if "i < glen ps" "unat v \<le> b + 1" for v
    using that p i set_update_subset_insert [of ps "nat i" v] by (fastforce simp: upd_def pocs_in_def)
  obtain n t where n: "(if i > 0 then GetBit s else Some (0, s)) = Some (n, t)" "bs_in N t"
    using in_reads(2) [OF s] s by (cases "i > 0") (auto simp: gives_def)
  show ?thesis
  proof (cases "i > 0 \<and> n > 0")
    case inter: True
    show ?thesis
    proof (cases "i > sint nums \<or> i \<ge> glen ps")
      case True
      then show ?thesis using inter n p1 in_Fail [OF n(2)] by (simp add: parse_rps_def)
    next
      case False
      let ?prev = "ps ! nat (i - 1)"
      obtain r where r: "skip_ue (SkipBits 1 t) = Some r" "bs_in N r"
        using in_skip_ue [OF in_SkipBits [OF n(2), of 1]] by (auto simp: gives_def)
      have pr: "idx ps (i - 1) = Some ?prev" using inter False by (simp add: idx_def)
      have "?prev \<in> set ps" using inter False by (intro nth_mem) linarith
      then have pb: "unat ?prev \<le> b" using p by (simp add: pocs_in_def)
      then have "?prev \<noteq> - 1" using b(2) by (auto simp: unsigned_minus_1_eq_mask mask_eq_exp_minus_1)
      then obtain v q where v: "predict_deltas ?prev 0 0 r = Some (v, q)" "unat v \<le> unat ?prev + 1" "bs_in N q"
        using in_predict_deltas [OF r(2), of ?prev 0 0] by (auto simp: gives_def)
      obtain qs where "upd ps i v = Some qs" "pocs_in (b + 1) qs" using upd [of v] False v(2) pb by fastforce
      then show ?thesis using inter False n r pr v by (simp add: parse_rps_def)
    qed
  next
    case False
    obtain x r where x: "ReadUE t = Some (x, r)" "bs_in N r" using in_reads(6) [OF n(2)] by (auto simp: gives_def)
    obtain y q where y: "ReadUE r = Some (y, q)" "bs_in N q" using in_reads(6) [OF x(2)] by (auto simp: gives_def)
    show ?thesis
    proof (cases "(x + y) * 2 > word_of_int (RemainBits q)")
      case True
      then show ?thesis using n x y p1 in_Fail [OF y(2)] by (simp add: parse_rps_def if_not_P [OF False] del: not_gr_zero word_gt_0)
    next
      case le: False
      have ok: "bs_ok q" "length (rest_bits q) \<le> 8 * N"
        using y(2) length_rest_bits [of q] by (auto simp: bs_in_def)
      have N: "8 * N < 2 ^ 64" using b by simp
      have rem: "unat ((x + y) * 2) \<le> length (rest_bits q)"
        using le ok N by (simp add: RemainBits_eq not_less word_le_nat_alt unat_of_nat)
      have "unat (z * 2) = 2 * (unat z mod 2 ^ 63)" for z :: u64
        using mult_mod_right [of 2 "unat z" "2 ^ 63"] by (simp add: unat_word_ariths mult.commute)
      from this [of "x + y"] have "2 * (unat (x + y) mod 2 ^ 63) \<le> length (rest_bits q)" using rem by linarith
      then have "unat (x + y) mod 2 ^ 63 \<le> 4 * N" using ok(2) by linarith
      moreover have "unat (ucast (x + y) :: u32) = unat (x + y) mod 2 ^ 63 mod 2 ^ 32"
        by (simp only: unsigned_ucast_eq take_bit_eq_mod) (simp add: mod_mod_cancel)
      moreover have "unat (x + y) mod 2 ^ 63 mod 2 ^ 32 \<le> unat (x + y) mod 2 ^ 63" by (rule mod_less_eq_dividend)
      ultimately have v: "unat (ucast (x + y) :: u32) \<le> b + 1" using b(1) by linarith
      obtain qs where qs: "(if i \<ge> 0 \<and> i < glen ps then upd ps i (ucast (x + y)) else Some ps) = Some qs" "pocs_in (b + 1) qs"
        using upd [OF _ v] p1 by (cases "i < glen ps") (auto simp: i)
      obtain u where u: "skip_times (nat (sint x)) skip_pic q = Some u" "bs_in N u"
        using in_skip_times [where f = skip_pic and n = "nat (sint x)", OF in_skip_pic y(2)] by (auto simp: gives_def)
      obtain w where w: "skip_times (nat (sint y)) skip_pic u = Some w" "bs_in N w"
        using in_skip_times [where f = skip_pic and n = "nat (sint y)", OF in_skip_pic u(2)] by (auto simp: gives_def)
      show ?thesis using n x y le qs u w by (simp add: parse_rps_def if_not_P [OF False] del: not_gr_zero word_gt_0)
    qed
  qed
qed

lemma in_parse_rps_loop:
  assumes "bs_in N s" "pocs_in b ps" "4 * N \<le> b" "b + n < 2 ^ 32 - 1" "0 \<le> i"
  shows "gives (at_in N) (parse_rps_loop n i nums ps s)"
  using assms
proof (induction n arbitrary: i ps s b)
  case (Suc n)
  then obtain qs t where "parse_rps i nums ps s = Some (qs, t)" "pocs_in (b + 1) qs" "bs_in N t"
    using in_parse_rps [of N s b ps i nums] by (auto simp: gives_def)
  then show ?case using Suc.IH [of t "b + 1" qs "i + 1"] Suc.prems by simp
qed simp


lemma bs_in_New: "length b \<le> N \<Longrightarrow> bs_in N (NewBitStream b)"
  by (simp add: bs_in_def) (simp add: NewBitStream_def)

lemma length_rbsp: "length (CovertRbspToSodb b) \<le> length b"
proof -
  have "length (rbsp_loop z b) \<le> length b" for z
    by (induction z b rule: rbsp_loop.induct) (auto simp: Let_def)
  then show ?thesis by (simp add: CovertRbspToSodb_def)
qed

lemma in_hsps_pictures: "bs_in N s \<Longrightarrow> N < 2 ^ 29 \<Longrightarrow> gives (at_in N) (hsps_pictures p s)"
proof -
  assume s: "bs_in N s" "N < 2 ^ 29"
  have loop: "gives (at_in N) (parse_rps_loop (unat n) 0 n (replicate 64 0) t)" if "bs_in N t" "\<not> n > 64" for n t
    using s(2) that by (intro in_parse_rps_loop [where b = "4 * N"]) (auto simp: pocs_in_def not_less word_le_nat_alt)
  show ?thesis unfolding hsps_pictures_def skip_long_term_def
    by (rule s(1) loop in_total | assumption)+
qed

lemma in_hsps_head [in_total]: "bs_in N s \<Longrightarrow> gives (at_in N) (hsps_head s)"
  unfolding hsps_head_def by (rule in_three_bits | assumption | rule in_total)+

lemma in_hsps_rest [in_total]: "bs_in N s \<Longrightarrow> gives (at_in N) (hsps_picture p s)" and [in_total]: "bs_in N s \<Longrightarrow> gives (bs_in N) (hsps_coding p s)"
  and [in_total]: "bs_in N s \<Longrightarrow> gives (at_in N) (hsps_vui p s)"
  unfolding hsps_picture_def hsps_coding_def hsps_vui_def by (intro in_total; assumption)+

lemma VPS_returns: "\<exists>v e. VPS_Decode b = Some (v, e)"
proof -
  have s: "bs_in (length b) (NewBitStream (CovertRbspToSodb b))" using bs_in_New length_rbsp by blast
  have "gives (\<lambda>_. True) (VPS_Decode b)" unfolding VPS_Decode_def ParserVPSTimeinfo_def by (rule s in_total TrueI | assumption | simp)+
  then show ?thesis by (auto simp: gives_def)
qed

lemma H265RawPPS_returns: "\<exists>v e. H265RawPPS_Decode b = Some (v, e)"
proof -
  have s: "bs_in (length b) (NewBitStream (CovertRbspToSodb b))" using bs_in_New length_rbsp by blast
  have "gives (\<lambda>_. True) (H265RawPPS_Decode b)" unfolding H265RawPPS_Decode_def hpps_body_def by (rule s in_total TrueI | assumption | simp)+
  then show ?thesis by (auto simp: gives_def)
qed

lemma H265RawSPS_returns: "length b < 2 ^ 29 \<Longrightarrow> \<exists>v e. H265RawSPS_Decode b = Some (v, e)"
proof -
  assume b: "length b < 2 ^ 29"
  have s: "bs_in (length b) (NewBitStream (CovertRbspToSodb b))" using bs_in_New length_rbsp by blast
  have "gives (\<lambda>_. True) (H265RawSPS_Decode b)" unfolding H265RawSPS_Decode_def by (rule s in_hsps_pictures [OF _ b] in_total TrueI | assumption | simp)+
  then show ?thesis by (auto simp: gives_def)
qed

end
