(* ===== verification/Hvcc.thy ===== *)
theory Hvcc
  imports H265
begin

text \<open>
  The decoder configuration record of H.265, \<open>HEVCRecordConfiguration\<close> of \<open>go-codec/h265.go\<close>.

  A method that changes the record returns it.  The arrays and units are reached from the record
  only, so they are values in a list and an update in place is an update of the list.
\<close>

unbundle bit_operations_syntax

section \<open>The record\<close>

record NalUnit =
  nu_NalUnitLength :: u16
  nu_Nalu :: bytes

record HVCCNALUnitArray =
  ua_Array_completeness :: byte
  ua_NAL_unit_type :: byte
  ua_NumNalus :: u16
  ua_NalUnits :: "NalUnit list"

record HEVCRecordConfiguration =
  hv_ConfigurationVersion :: byte
  hv_General_profile_space :: byte
  hv_General_tier_flag :: byte
  hv_General_profile_idc :: byte
  hv_General_profile_compatibility_flags :: u32
  hv_General_constraint_indicator_flags :: u64
  hv_General_level_idc :: byte
  hv_Min_spatial_segmentation_idc :: u16
  hv_ParallelismType :: byte
  hv_ChromaFormat :: byte
  hv_BitDepthLumaMinus8 :: byte
  hv_BitDepthChromaMinus8 :: byte
  hv_AvgFrameRate :: u16
  hv_ConstantFrameRate :: byte
  hv_NumTemporalLayers :: byte
  hv_TemporalIdNested :: byte
  hv_LengthSizeMinusOne :: byte
  hv_NumOfArrays :: byte
  hv_Arrays :: "HVCCNALUnitArray list"

definition NewHEVCRecordConfiguration :: HEVCRecordConfiguration where
  "NewHEVCRecordConfiguration = \<lparr>hv_ConfigurationVersion = 1, hv_General_profile_space = 0, hv_General_tier_flag = 0,
     hv_General_profile_idc = 0, hv_General_profile_compatibility_flags = 0xFFFFFFFF,
     hv_General_constraint_indicator_flags = 0xFFFFFFFFFFFFFFFF, hv_General_level_idc = 0, hv_Min_spatial_segmentation_idc = 4097,
     hv_ParallelismType = 0, hv_ChromaFormat = 0, hv_BitDepthLumaMinus8 = 0, hv_BitDepthChromaMinus8 = 0, hv_AvgFrameRate = 0,
     hv_ConstantFrameRate = 0, hv_NumTemporalLayers = 0, hv_TemporalIdNested = 0, hv_LengthSizeMinusOne = 3, hv_NumOfArrays = 0,
     hv_Arrays = []\<rparr>"

section \<open>Writing\<close>

primrec put_units :: "NalUnit list \<Rightarrow> bitwriter \<Rightarrow> bitwriter option" where
  "put_units [] bsw = Some bsw"
| "put_units (nalu # us) bsw = do {
     bsw \<leftarrow> PutUint16 (nu_NalUnitLength nalu) 16 bsw;
     bsw \<leftarrow> PutBytes (nu_Nalu nalu) bsw;
     put_units us bsw
   }"

primrec put_arrays :: "HVCCNALUnitArray list \<Rightarrow> bitwriter \<Rightarrow> bitwriter option" where
  "put_arrays [] bsw = Some bsw"
| "put_arrays (a # as) bsw = do {
     bsw \<leftarrow> PutUint8 (ua_Array_completeness a) 1 bsw;
     bsw \<leftarrow> PutUint8 0 1 bsw;
     bsw \<leftarrow> PutUint8 (ua_NAL_unit_type a) 6 bsw;
     bsw \<leftarrow> PutUint16 (word_of_nat (length (ua_NalUnits a))) 16 bsw;
     bsw \<leftarrow> put_units (ua_NalUnits a) bsw;
     put_arrays as bsw
   }"

definition put_hvcc_head :: "HEVCRecordConfiguration \<Rightarrow> bitwriter \<Rightarrow> bitwriter option" where
  "put_hvcc_head hvcc bsw = do {
     bsw \<leftarrow> PutByte (hv_ConfigurationVersion hvcc) bsw;
     bsw \<leftarrow> PutUint8 (hv_General_profile_space hvcc) 2 bsw;
     bsw \<leftarrow> PutUint8 (hv_General_tier_flag hvcc) 1 bsw;
     bsw \<leftarrow> PutUint8 (hv_General_profile_idc hvcc) 5 bsw;
     bsw \<leftarrow> PutUint32 (hv_General_profile_compatibility_flags hvcc) 32 bsw;
     bsw \<leftarrow> PutUint64 (hv_General_constraint_indicator_flags hvcc) 48 bsw;
     bsw \<leftarrow> PutByte (hv_General_level_idc hvcc) bsw;
     bsw \<leftarrow> PutUint8 0x0F 4 bsw;
     bsw \<leftarrow> PutUint16 (hv_Min_spatial_segmentation_idc hvcc) 12 bsw;
     bsw \<leftarrow> PutUint8 0x3F 6 bsw;
     bsw \<leftarrow> PutUint8 (hv_ParallelismType hvcc) 2 bsw;
     bsw \<leftarrow> PutUint8 0x3F 6 bsw;
     bsw \<leftarrow> PutUint8 (hv_ChromaFormat hvcc) 2 bsw;
     bsw \<leftarrow> PutUint8 0x1F 5 bsw;
     bsw \<leftarrow> PutUint8 (hv_BitDepthLumaMinus8 hvcc) 3 bsw;
     bsw \<leftarrow> PutUint8 0x1F 5 bsw;
     bsw \<leftarrow> PutUint8 (hv_BitDepthChromaMinus8 hvcc) 3 bsw;
     bsw \<leftarrow> PutUint16 (hv_AvgFrameRate hvcc) 16 bsw;
     bsw \<leftarrow> PutUint8 (hv_ConstantFrameRate hvcc) 2 bsw;
     bsw \<leftarrow> PutUint8 (hv_NumTemporalLayers hvcc) 3 bsw;
     bsw \<leftarrow> PutUint8 (hv_TemporalIdNested hvcc) 1 bsw;
     bsw \<leftarrow> PutUint8 (hv_LengthSizeMinusOne hvcc) 2 bsw;
     PutByte (word_of_nat (length (hv_Arrays hvcc))) bsw
   }"

definition hvcc_Encode :: "HEVCRecordConfiguration \<Rightarrow> (HEVCRecordConfiguration \<times> (codec_error + bytes)) option" where
  "hvcc_Encode hvcc = (if length (hv_Arrays hvcc) < 3 then Some (hvcc, Inl (ErrMsg ''lack of sps or pps or vps''))
     else do {
       bsw \<leftarrow> NewBitStreamWriter 512;
       let hvcc = (if hv_Min_spatial_segmentation_idc hvcc = 0 then hvcc\<lparr>hv_ParallelismType := 0\<rparr> else hvcc);
       bsw \<leftarrow> put_hvcc_head hvcc bsw;
       bsw \<leftarrow> put_arrays (hv_Arrays hvcc) bsw;
       b \<leftarrow> bsw_Bits bsw;
       Some (hvcc, Inr b)
     })"

section \<open>Reading\<close>

primrec read_units :: "nat \<Rightarrow> bitstream \<Rightarrow> (codec_error, NalUnit list \<times> bitstream) result" where
  "read_units 0 bs = ok ([], bs)"
| "read_units (Suc n) bs = do {
     (len, bs) \<leftarrow> Uint16 16 bs;
     (d, bs) \<leftarrow> GetBytes (uint len) bs;
     (case Err bs of
        Some e \<Rightarrow> err e
      | None \<Rightarrow> rbind (read_units n bs) (\<lambda>(us, bs).
          ok (\<lparr>nu_NalUnitLength = len, nu_Nalu = (case d of None \<Rightarrow> [] | Some d \<Rightarrow> d)\<rparr> # us, bs)))
   }"

primrec read_arrays :: "nat \<Rightarrow> bitstream \<Rightarrow> (codec_error, HVCCNALUnitArray list \<times> bitstream) result" where
  "read_arrays 0 bs = ok ([], bs)"
| "read_arrays (Suc n) bs = do {
     (c, bs) \<leftarrow> GetBit bs;
     let bs = SkipBits 1 bs;
     (t, bs) \<leftarrow> Uint8 6 bs;
     (num, bs) \<leftarrow> Uint16 16 bs;
     (case Err bs of
        Some e \<Rightarrow> err e
      | None \<Rightarrow>
          if uint num * 2 > RemainBytes bs then err (ErrMsg ''h265: hvcC nalu count beyond the record'')
          else rbind (read_units (unat num) bs) (\<lambda>(us, bs). rbind (read_arrays n bs) (\<lambda>(as, bs).
            ok (\<lparr>ua_Array_completeness = c, ua_NAL_unit_type = t, ua_NumNalus = num, ua_NalUnits = us\<rparr> # as, bs))))
   }"

definition read_hvcc_head :: "HEVCRecordConfiguration \<Rightarrow> bitstream \<Rightarrow> (HEVCRecordConfiguration \<times> bitstream) option" where
  "read_hvcc_head hvcc bs = do {
     (version, bs) \<leftarrow> Uint8 8 bs;
     (space, bs) \<leftarrow> Uint8 2 bs;
     (tier, bs) \<leftarrow> Uint8 1 bs;
     (profile, bs) \<leftarrow> Uint8 5 bs;
     (compat, bs) \<leftarrow> Uint32 32 bs;
     (constraint, bs) \<leftarrow> GetBits 48 bs;
     (level, bs) \<leftarrow> Uint8 8 bs;
     let bs = SkipBits 4 bs;
     (spatial, bs) \<leftarrow> Uint16 12 bs;
     let bs = SkipBits 6 bs;
     (parallel, bs) \<leftarrow> Uint8 2 bs;
     let bs = SkipBits 6 bs;
     (chroma, bs) \<leftarrow> Uint8 2 bs;
     let bs = SkipBits 5 bs;
     (luma8, bs) \<leftarrow> Uint8 3 bs;
     let bs = SkipBits 5 bs;
     (chroma8, bs) \<leftarrow> Uint8 3 bs;
     (rate, bs) \<leftarrow> Uint16 16 bs;
     (constant, bs) \<leftarrow> Uint8 2 bs;
     (layers, bs) \<leftarrow> Uint8 3 bs;
     (nested, bs) \<leftarrow> Uint8 1 bs;
     (lsize, bs) \<leftarrow> Uint8 2 bs;
     (num, bs) \<leftarrow> Uint8 8 bs;
     Some (\<lparr>hv_ConfigurationVersion = version, hv_General_profile_space = space, hv_General_tier_flag = tier,
       hv_General_profile_idc = profile, hv_General_profile_compatibility_flags = compat,
       hv_General_constraint_indicator_flags = constraint, hv_General_level_idc = level, hv_Min_spatial_segmentation_idc = spatial,
       hv_ParallelismType = parallel, hv_ChromaFormat = chroma, hv_BitDepthLumaMinus8 = luma8, hv_BitDepthChromaMinus8 = chroma8,
       hv_AvgFrameRate = rate, hv_ConstantFrameRate = constant, hv_NumTemporalLayers = layers, hv_TemporalIdNested = nested,
       hv_LengthSizeMinusOne = lsize, hv_NumOfArrays = num, hv_Arrays = hv_Arrays hvcc\<rparr>, bs)
   }"

definition hvcc_Decode :: "HEVCRecordConfiguration \<Rightarrow> bytes \<Rightarrow> (HEVCRecordConfiguration \<times> codec_error option) option" where
  "hvcc_Decode hvcc hevc = do {
     (hvcc, bs) \<leftarrow> read_hvcc_head hvcc (NewBitStream hevc);
     (case Err bs of
        Some e \<Rightarrow> Some (hvcc, Some e)
      | None \<Rightarrow> do {
          r \<leftarrow> read_arrays (unat (hv_NumOfArrays hvcc)) bs;
          (case r of
             Inl e \<Rightarrow> Some (hvcc, Some e)
           | Inr (as, bs) \<Rightarrow> (case Err bs of Some e \<Rightarrow> Some (hvcc, Some e) | None \<Rightarrow> Some (hvcc\<lparr>hv_Arrays := as\<rparr>, None)))
        })
   }"

section \<open>Storing parameter sets\<close>

text \<open>
  The three \<open>Update\<close> methods store a set in the same way: \<open>t\<close> is the type of the array, \<open>getId\<close> reads
  the id of a stored set, \<open>i\<close> is the id of the new one.  The flag is \<open>needUpdate\<close>; it is false where
  the method returns because the same set is stored.
\<close>

definition new_unit :: "bytes \<Rightarrow> NalUnit" where
  "new_unit nalu = \<lparr>nu_NalUnitLength = word_of_nat (length nalu), nu_Nalu = nalu\<rparr>"

primrec store_unit :: "(bytes \<Rightarrow> 'i option) \<Rightarrow> 'i \<Rightarrow> bytes \<Rightarrow> NalUnit list \<Rightarrow> (bool \<times> NalUnit list) option" where
  "store_unit getId i nalu [] = Some (True, [new_unit nalu])"
| "store_unit getId i nalu (u # us) = do {
     k \<leftarrow> getId (nu_Nalu u);
     if i \<noteq> k then do { (need, us) \<leftarrow> store_unit getId i nalu us; Some (need, u # us) }
     else if nu_NalUnitLength u = word_of_nat (length nalu) \<and> nu_Nalu u = nalu then Some (False, u # us)
     else Some (True, new_unit nalu # us)
   }"

primrec store_set :: "byte \<Rightarrow> (bytes \<Rightarrow> 'i option) \<Rightarrow> 'i \<Rightarrow> bytes \<Rightarrow> HVCCNALUnitArray list \<Rightarrow> (bool \<times> HVCCNALUnitArray list) option" where
  "store_set t getId i nalu [] =
     Some (True, [\<lparr>ua_Array_completeness = 1, ua_NAL_unit_type = t, ua_NumNalus = 1, ua_NalUnits = [new_unit nalu]\<rparr>])"
| "store_set t getId i nalu (a # as) =
     (if ua_NAL_unit_type a \<noteq> t then do { (need, as) \<leftarrow> store_set t getId i nalu as; Some (need, a # as) }
      else do { (need, us) \<leftarrow> store_unit getId i nalu (ua_NalUnits a); Some (need, a\<lparr>ua_NalUnits := us\<rparr> # as) })"

text \<open>\<open>Max\<close> and \<open>Min\<close> of the source are those of HOL on \<open>int\<close>.\<close>

definition codec_Max :: "int \<Rightarrow> int \<Rightarrow> int" where "codec_Max x y = (if x > y then x else y)"
definition codec_Min :: "int \<Rightarrow> int \<Rightarrow> int" where "codec_Min x y = (if x > y then y else x)"

definition updatePtl :: "ProfileTierLevel \<Rightarrow> HEVCRecordConfiguration \<Rightarrow> HEVCRecordConfiguration" where
  "updatePtl ptl hvcc =
     (let hvcc = hvcc\<lparr>hv_General_profile_space := ptl_General_profile_space ptl\<rparr>;
          hvcc = (if hv_General_tier_flag hvcc < ptl_General_tier_flag ptl then hvcc\<lparr>hv_General_level_idc := ptl_General_level_idc ptl\<rparr>
            else hvcc\<lparr>hv_General_level_idc := word_of_int (codec_Max (uint (hv_General_level_idc hvcc)) (uint (ptl_General_level_idc ptl)))\<rparr>);
          hvcc = hvcc\<lparr>hv_General_tier_flag := word_of_int (codec_Max (uint (hv_General_tier_flag hvcc)) (uint (ptl_General_tier_flag ptl)))\<rparr>;
          hvcc = hvcc\<lparr>hv_General_profile_idc := word_of_int (codec_Max (uint (hv_General_profile_idc hvcc)) (uint (ptl_General_profile_idc ptl)))\<rparr>
      in hvcc\<lparr>hv_General_profile_compatibility_flags := hv_General_profile_compatibility_flags hvcc AND ptl_General_profile_compatibility_flag ptl,
           hv_General_constraint_indicator_flags := hv_General_constraint_indicator_flags hvcc AND ptl_General_constraint_indicator_flag ptl\<rparr>)"

definition updateVui :: "VUI_Parameters \<Rightarrow> HEVCRecordConfiguration \<Rightarrow> HEVCRecordConfiguration" where
  "updateVui vui hvcc = hvcc\<lparr>hv_Min_spatial_segmentation_idc :=
     word_of_int (codec_Min (uint (hv_Min_spatial_segmentation_idc hvcc)) (sint (hvui_Min_spatial_segmentation_idc vui)))\<rparr>"

definition UpdateSPS :: "bytes \<Rightarrow> HEVCRecordConfiguration \<Rightarrow> (HEVCRecordConfiguration \<times> codec_error option) option" where
  "UpdateSPS sps hvcc = do {
     off \<leftarrow> naluOffset sps;
     if off < 0 then Some (hvcc, Some (ErrMsg ''h265: empty sps nalu''))
     else do {
       sps \<leftarrow> slice_from sps off;
       (rawsps, e) \<leftarrow> H265RawSPS_Decode sps;
       if e \<noteq> None then Some (hvcc, e)
       else do {
         (need, arrays) \<leftarrow> store_set 33 GetH265SPSId (hsps_Sps_seq_parameter_set_id rawsps) sps (hv_Arrays hvcc);
         let hvcc = hvcc\<lparr>hv_Arrays := arrays\<rparr>;
         Some (if need then updateVui (hsps_Vui rawsps) (updatePtl (hsps_Ptl rawsps)
           (hvcc\<lparr>hv_NumTemporalLayers := word_of_int (codec_Max (uint (hv_NumTemporalLayers hvcc)) (uint (hsps_Sps_max_sub_layers_minus1 rawsps + 1))),
              hv_TemporalIdNested := hsps_Sps_temporal_id_nesting_flag rawsps, hv_ChromaFormat := ucast (hsps_Chroma_format_idc rawsps),
              hv_BitDepthChromaMinus8 := ucast (hsps_Bit_depth_chroma_minus8 rawsps),
              hv_BitDepthLumaMinus8 := ucast (hsps_Bit_depth_luma_minus8 rawsps)\<rparr>)) else hvcc, None)
       }
     }
   }"

definition UpdatePPS :: "bytes \<Rightarrow> HEVCRecordConfiguration \<Rightarrow> (HEVCRecordConfiguration \<times> codec_error option) option" where
  "UpdatePPS pps hvcc = do {
     off \<leftarrow> naluOffset pps;
     if off < 0 then Some (hvcc, Some (ErrMsg ''h265: empty pps nalu''))
     else do {
       pps \<leftarrow> slice_from pps off;
       (rawpps, e) \<leftarrow> H265RawPPS_Decode pps;
       if e \<noteq> None then Some (hvcc, e)
       else do {
         (need, arrays) \<leftarrow> store_set 34 GetH265PPSId (hpps_Pps_pic_parameter_set_id rawpps) pps (hv_Arrays hvcc);
         let hvcc = hvcc\<lparr>hv_Arrays := arrays\<rparr>;
         Some (if need then hvcc\<lparr>hv_ParallelismType :=
             if hpps_Entropy_coding_sync_enabled_flag rawpps = 1 \<and> hpps_Tiles_enabled_flag rawpps = 1 then 0
             else if hpps_Entropy_coding_sync_enabled_flag rawpps = 1 then 3
             else if hpps_Tiles_enabled_flag rawpps = 1 then 2 else 1\<rparr> else hvcc, None)
       }
     }
   }"

definition UpdateVPS :: "bytes \<Rightarrow> HEVCRecordConfiguration \<Rightarrow> (HEVCRecordConfiguration \<times> codec_error option) option" where
  "UpdateVPS vps hvcc = do {
     off \<leftarrow> naluOffset vps;
     if off < 0 then Some (hvcc, Some (ErrMsg ''h265: empty vps nalu''))
     else do {
       vps \<leftarrow> slice_from vps off;
       (rawvps, e) \<leftarrow> VPS_Decode vps;
       if e \<noteq> None then Some (hvcc, e)
       else do {
         (need, arrays) \<leftarrow> store_set 32 GetVPSId (vps_Vps_video_parameter_set_id rawvps) vps (hv_Arrays hvcc);
         let hvcc = hvcc\<lparr>hv_Arrays := arrays\<rparr>;
         Some (if need then updatePtl (vps_Ptl rawvps) (hvcc\<lparr>hv_NumTemporalLayers :=
             word_of_int (codec_Max (uint (hv_NumTemporalLayers hvcc)) (uint (vps_Vps_max_layers_minus1 rawvps + 1)))\<rparr>) else hvcc, None)
       }
     }
   }"

section \<open>The parameter sets as a stream\<close>

primrec units_ToNalus :: "NalUnit list \<Rightarrow> bytes option" where
  "units_ToNalus [] = Some []"
| "units_ToNalus (u # us) = do {
     n \<leftarrow> slice_to (nu_Nalu u) (uint (nu_NalUnitLength u));
     r \<leftarrow> units_ToNalus us;
     Some ([0, 0, 0, 1] @ n @ r)
   }"

primrec arrays_ToNalus :: "HVCCNALUnitArray list \<Rightarrow> bytes option" where
  "arrays_ToNalus [] = Some []"
| "arrays_ToNalus (a # as) = do { n \<leftarrow> units_ToNalus (ua_NalUnits a); r \<leftarrow> arrays_ToNalus as; Some (n @ r) }"

definition ToNalus :: "HEVCRecordConfiguration \<Rightarrow> bytes option" where
  "ToNalus hvcc = arrays_ToNalus (hv_Arrays hvcc)"

section \<open>A record is read back\<close>

definition unit_bits :: "NalUnit \<Rightarrow> bool list" where
  "unit_bits u = u_bits 16 (nu_NalUnitLength u) @ bits_of_bytes (nu_Nalu u)"

definition array_bits :: "HVCCNALUnitArray \<Rightarrow> bool list" where
  "array_bits a = u_bits 1 (ua_Array_completeness a) @ u_bits 1 (0 :: byte) @ u_bits 6 (ua_NAL_unit_type a)
     @ u_bits 16 (word_of_nat (length (ua_NalUnits a)) :: u16) @ concat (map unit_bits (ua_NalUnits a))"

definition hvcc_bits :: "HEVCRecordConfiguration \<Rightarrow> bool list" where
  "hvcc_bits h = u_bits 8 (hv_ConfigurationVersion h) @ u_bits 2 (hv_General_profile_space h) @ u_bits 1 (hv_General_tier_flag h)
     @ u_bits 5 (hv_General_profile_idc h) @ u_bits 32 (hv_General_profile_compatibility_flags h)
     @ u_bits 48 (hv_General_constraint_indicator_flags h) @ u_bits 8 (hv_General_level_idc h) @ u_bits 4 (0x0F :: byte)
     @ u_bits 12 (hv_Min_spatial_segmentation_idc h) @ u_bits 6 (0x3F :: byte) @ u_bits 2 (hv_ParallelismType h) @ u_bits 6 (0x3F :: byte)
     @ u_bits 2 (hv_ChromaFormat h) @ u_bits 5 (0x1F :: byte) @ u_bits 3 (hv_BitDepthLumaMinus8 h) @ u_bits 5 (0x1F :: byte)
     @ u_bits 3 (hv_BitDepthChromaMinus8 h) @ u_bits 16 (hv_AvgFrameRate h) @ u_bits 2 (hv_ConstantFrameRate h)
     @ u_bits 3 (hv_NumTemporalLayers h) @ u_bits 1 (hv_TemporalIdNested h) @ u_bits 2 (hv_LengthSizeMinusOne h)
     @ u_bits 8 (word_of_nat (length (hv_Arrays h)) :: byte)"

lemma length_hvcc_bits: "length (hvcc_bits h) = 184" by (simp add: hvcc_bits_def)

lemma appends_put_units: "appends 0 (put_units us) (concat (map unit_bits us))"
proof (induction us)
  case (Cons u us)
  have "appends 0 (\<lambda>w. Option.bind (PutUint16 (nu_NalUnitLength u) 16 w) (\<lambda>w. Option.bind (PutBytes (nu_Nalu u) w) (put_units us)))
      (u_bits 16 (nu_NalUnitLength u) @ bits_of_bytes (nu_Nalu u) @ concat (map unit_bits us))"
    using Cons by (intro appends_bind appends_puts) simp_all
  then show ?case by (simp add: unit_bits_def [of u])
qed (simp add: appends_none)

lemma length_unit_bits [simp]: "length (unit_bits u) = 8 * (2 + length (nu_Nalu u))" by (simp add: unit_bits_def)

lemma length_units_bits: "8 dvd length (concat (map unit_bits us))"
proof (induction us)
  case (Cons u us)
  then show ?case unfolding list.map concat.simps length_append length_unit_bits by (intro dvd_add dvd_triv_left)
qed simp

lemma appends_put_arrays: "appends 0 (put_arrays as) (concat (map array_bits as))"
proof (induction as)
  case (Cons a as)
  have l: "(length (concat (map unit_bits (ua_NalUnits a)))) mod 8 = 0" using length_units_bits by (rule dvd_imp_mod_0)
  have "appends 0 (\<lambda>w. Option.bind (PutUint8 (ua_Array_completeness a) 1 w) (\<lambda>w. Option.bind (PutUint8 0 1 w)
      (\<lambda>w. Option.bind (PutUint8 (ua_NAL_unit_type a) 6 w) (\<lambda>w. Option.bind (PutUint16 (word_of_nat (length (ua_NalUnits a))) 16 w)
      (\<lambda>w. Option.bind (put_units (ua_NalUnits a) w) (put_arrays as))))))
      (u_bits 1 (ua_Array_completeness a) @ u_bits 1 (0 :: byte) @ u_bits 6 (ua_NAL_unit_type a)
       @ u_bits 16 (word_of_nat (length (ua_NalUnits a)) :: u16) @ concat (map unit_bits (ua_NalUnits a)) @ concat (map array_bits as))"
    using Cons appends_put_units [of "ua_NalUnits a"] l by (intro appends_bind appends_puts) (simp_all del: length_concat)
  then show ?case by (simp add: array_bits_def [of a])
qed (simp add: appends_none)

lemma appends_put_head: "appends 0 (put_hvcc_head h) (hvcc_bits h)"
  unfolding put_hvcc_head_def [abs_def] hvcc_bits_def
  by (intro appends_bind appends_puts) simp_all

text \<open>What is read back: every field cut to its width, with the counts.\<close>

definition array_written :: "HVCCNALUnitArray \<Rightarrow> HVCCNALUnitArray" where
  "array_written a = a\<lparr>ua_Array_completeness := take_bit 1 (ua_Array_completeness a), ua_NAL_unit_type := take_bit 6 (ua_NAL_unit_type a),
     ua_NumNalus := word_of_nat (length (ua_NalUnits a))\<rparr>"

definition hvcc_written :: "HEVCRecordConfiguration \<Rightarrow> HEVCRecordConfiguration" where
  "hvcc_written h = h\<lparr>hv_General_profile_space := take_bit 2 (hv_General_profile_space h), hv_General_tier_flag := take_bit 1 (hv_General_tier_flag h),
     hv_General_profile_idc := take_bit 5 (hv_General_profile_idc h),
     hv_General_constraint_indicator_flags := take_bit 48 (hv_General_constraint_indicator_flags h),
     hv_Min_spatial_segmentation_idc := take_bit 12 (hv_Min_spatial_segmentation_idc h),
     hv_ParallelismType := (if hv_Min_spatial_segmentation_idc h = 0 then 0 else take_bit 2 (hv_ParallelismType h)),
     hv_ChromaFormat := take_bit 2 (hv_ChromaFormat h), hv_BitDepthLumaMinus8 := take_bit 3 (hv_BitDepthLumaMinus8 h),
     hv_BitDepthChromaMinus8 := take_bit 3 (hv_BitDepthChromaMinus8 h), hv_ConstantFrameRate := take_bit 2 (hv_ConstantFrameRate h),
     hv_NumTemporalLayers := take_bit 3 (hv_NumTemporalLayers h), hv_TemporalIdNested := take_bit 1 (hv_TemporalIdNested h),
     hv_LengthSizeMinusOne := take_bit 2 (hv_LengthSizeMinusOne h), hv_NumOfArrays := word_of_nat (length (hv_Arrays h)),
     hv_Arrays := map array_written (hv_Arrays h)\<rparr>"

lemma u_bits_take_bit: "u_bits n (take_bit n w) = u_bits n w"
  by (rule nth_equalityI) (auto simp: bit_take_bit_iff)

lemma fits_take_bit [simp]: "fits n (take_bit n w)" 
  unfolding fits_def by (rule bit_word_eqI) (auto simp: bit_drop_bit_eq bit_take_bit_iff)


lemma scans_hvcc_head:
  "scans (read_hvcc_head q) (hvcc_bits h) (hvcc_written h\<lparr>hv_ParallelismType := take_bit 2 (hv_ParallelismType h), hv_Arrays := hv_Arrays q\<rparr>)"
proof -
  have b: "hvcc_bits h = u_bits 8 (hv_ConfigurationVersion h) @ u_bits 2 (take_bit 2 (hv_General_profile_space h)) @ u_bits 1 (take_bit 1 (hv_General_tier_flag h))
     @ u_bits 5 (take_bit 5 (hv_General_profile_idc h)) @ u_bits 32 (hv_General_profile_compatibility_flags h)
     @ u_bits 48 (take_bit 48 (hv_General_constraint_indicator_flags h)) @ u_bits 8 (hv_General_level_idc h) @ u_bits 4 (0x0F :: byte)
     @ u_bits 12 (take_bit 12 (hv_Min_spatial_segmentation_idc h)) @ u_bits 6 (0x3F :: byte) @ u_bits 2 (take_bit 2 (hv_ParallelismType h)) @ u_bits 6 (0x3F :: byte)
     @ u_bits 2 (take_bit 2 (hv_ChromaFormat h)) @ u_bits 5 (0x1F :: byte) @ u_bits 3 (take_bit 3 (hv_BitDepthLumaMinus8 h)) @ u_bits 5 (0x1F :: byte)
     @ u_bits 3 (take_bit 3 (hv_BitDepthChromaMinus8 h)) @ u_bits 16 (hv_AvgFrameRate h) @ u_bits 2 (take_bit 2 (hv_ConstantFrameRate h))
     @ u_bits 3 (take_bit 3 (hv_NumTemporalLayers h)) @ u_bits 1 (take_bit 1 (hv_TemporalIdNested h)) @ u_bits 2 (take_bit 2 (hv_LengthSizeMinusOne h))
     @ u_bits 8 (word_of_nat (length (hv_Arrays h)) :: byte)"
    by (simp only: hvcc_bits_def u_bits_take_bit)
  show ?thesis unfolding b read_hvcc_head_def [abs_def]
    by (rule scans_skip_let scans_rules fits_take_bit | (simp; fail) | (rule HEVCRecordConfiguration.equality; simp add: hvcc_written_def; fail))+
qed

text \<open>A stream that stands at a byte and has no error.\<close>

definition aligned :: "bitstream \<Rightarrow> bool" where
  "aligned s \<longleftrightarrow> ready s \<and> 8 dvd pos s \<and> length (bs_bits s) < 2 ^ 63"

lemma aligned_past: "aligned s \<Longrightarrow> rest_bits s = xs @ r \<Longrightarrow> 8 dvd length xs \<Longrightarrow>
    aligned (advance (length xs) s) \<and> rest_bits (advance (length xs) s) = r"
  by (simp add: aligned_def rest_bits_advance)

lemma GetBytes_aligned:
  assumes "aligned s" "rest_bits s = bits_of_bytes d @ r"
  shows "GetBytes (glen d) s = Some (Some d, advance (8 * length d) s)"
proof -
  have s: "bs_ok s" "bs_err s = None" "8 dvd pos s" "length (bs_bits s) < 2 ^ 63" using assms(1) by (simp_all add: aligned_def ready_def)
  have k: "bitsOffset s = 0" using s(1,3) unfolding bs_ok_def pos_def by presburger
  then have k: "bitsOffset s = 0" "pos s = 8 * bytesOffset s" by (simp_all add: pos_def)
  have le: "bytesOffset s + length d \<le> length (bs_bits s)"
    using arg_cong [OF assms(2), of length] s(1) k by (simp add: rest_bits_def bs_ok_def)
  have "bits_of_bytes (take (length d) (drop (bytesOffset s) (bs_bits s))) = bits_of_bytes d"
    using assms(2) k by (simp add: rest_bits_def bits_of_bytes_take bits_of_bytes_drop)
  then have d: "take (length d) (drop (bytesOffset s) (bs_bits s)) = d" by (simp add: bits_of_bytes_inject)
  have w: "wrap64 (int (bytesOffset s) + glen d) = int (bytesOffset s + length d)" using le s(4) by (subst wrap64_id) auto
  have sl: "slice_of (bs_bits s) (int (bytesOffset s)) (int (bytesOffset s + length d)) = Some d" using le d by (simp add: slice_of_def)
  have a: "advance (8 * length d) s = s\<lparr>bytesOffset := bytesOffset s + length d\<rparr>" using k by (cases s) (simp add: advance_def)
  have "\<not> (glen d < 0 \<or> bitsOffset s \<noteq> 0 \<or> int (bytesOffset s + length d) > glen (bs_bits s))" using k le by linarith
  then show ?thesis unfolding GetBytes_def w a using s(2) sl by simp
qed

lemma read_units_bits:
  assumes "aligned s" "rest_bits s = concat (map unit_bits us) @ r"
    and "\<And>u. u \<in> set us \<Longrightarrow> unat (nu_NalUnitLength u) = length (nu_Nalu u)"
  shows "read_units (length us) s = ok (us, advance (length (concat (map unit_bits us))) s)"
  using assms
proof (induction us arbitrary: s)
  case Nil
  then show ?case by (simp add: advance_0 aligned_def ready_def bs_ok_def)
next
  case (Cons u us)
  have r1: "rest_bits s = u_bits 16 (nu_NalUnitLength u) @ bits_of_bytes (nu_Nalu u) @ concat (map unit_bits us) @ r"
    using Cons.prems(2) by (simp add: unit_bits_def [of u])
  have "scans (Uint16 16) (u_bits 16 (nu_NalUnitLength u)) (nu_NalUnitLength u)" by (rule scans_rules | (simp; fail))+
  then have u16: "Uint16 16 s = Some (nu_NalUnitLength u, advance 16 s)"
    using scansD [OF _ _ r1] Cons.prems(1) by (simp add: aligned_def)
  have s1: "aligned (advance 16 s)" "rest_bits (advance 16 s) = bits_of_bytes (nu_Nalu u) @ concat (map unit_bits us) @ r"
    using aligned_past [OF Cons.prems(1) r1] by simp_all
  have n: "uint (nu_NalUnitLength u) = glen (nu_Nalu u)" using Cons.prems(3) [of u] by (simp only: uint_nat list.set_intros)
  have g: "GetBytes (glen (nu_Nalu u)) (advance 16 s) = Some (Some (nu_Nalu u), advance (16 + 8 * length (nu_Nalu u)) s)"
    using GetBytes_aligned [OF s1] by simp
  have s2: "aligned (advance (16 + 8 * length (nu_Nalu u)) s)" "rest_bits (advance (16 + 8 * length (nu_Nalu u)) s) = concat (map unit_bits us) @ r"
    using aligned_past [OF s1] by simp_all
  have e: "Err (advance (16 + 8 * length (nu_Nalu u)) s) = None" using s2(1) by (simp add: aligned_def ready_def Err_def)
  show ?case using Cons.IH [OF s2] Cons.prems(3) u16 g e n by (simp add: add.assoc)
qed


lemma array_bits_shift:
  "array_bits a = u_bits 1 (take_bit 1 (ua_Array_completeness a)) @ [False] @ u_bits 6 (take_bit 6 (ua_NAL_unit_type a))
     @ u_bits 16 (word_of_nat (length (ua_NalUnits a)) :: u16) @ concat (map unit_bits (ua_NalUnits a))"
  by (simp add: array_bits_def u_bits_take_bit del: One_nat_def) simp

lemma length_units_min: "16 * length us \<le> length (concat (map unit_bits us))"
proof (induction us)
  case (Cons u us)
  then show ?case by (simp add: unit_bits_def [of u])
qed simp

text \<open>What makes the units of a record fit the fields for their counts and lengths.\<close>

definition units_fit :: "HVCCNALUnitArray \<Rightarrow> bool" where
  "units_fit a \<longleftrightarrow> length (ua_NalUnits a) \<le> 65535 \<and> (\<forall>u\<in>set (ua_NalUnits a). unat (nu_NalUnitLength u) = length (nu_Nalu u))"

lemma read_arrays_bits:
  assumes "aligned s" "rest_bits s = concat (map array_bits as) @ r" and "\<And>a. a \<in> set as \<Longrightarrow> units_fit a"
  shows "read_arrays (length as) s = ok (map array_written as, advance (length (concat (map array_bits as))) s)"
  using assms
proof (induction as arbitrary: s)
  case Nil
  then show ?case by (simp add: advance_0 aligned_def ready_def bs_ok_def)
next
  case (Cons a as)
  let ?c = "take_bit 1 (ua_Array_completeness a)" and ?t = "take_bit 6 (ua_NAL_unit_type a)"
    and ?n = "word_of_nat (length (ua_NalUnits a)) :: u16" and ?us = "concat (map unit_bits (ua_NalUnits a))"
  let ?R = "concat (map array_bits as) @ r"
  have fit: "units_fit a" using Cons.prems(3) by simp
  have r1: "rest_bits s = (u_bits 1 ?c @ [False] @ u_bits 6 ?t @ u_bits 16 ?n) @ ?us @ ?R"
    using Cons.prems(2) by (simp only: list.map concat.simps array_bits_shift [of a] append_assoc)
  have "scans (\<lambda>bs. do { (c, bs) \<leftarrow> GetBit bs; let bs = SkipBits 1 bs; (t, bs) \<leftarrow> Uint8 6 bs; (num, bs) \<leftarrow> Uint16 16 bs; Some ((c, t, num), bs) })
      (u_bits 1 ?c @ [False] @ u_bits 6 ?t @ u_bits 16 ?n) (?c, ?t, ?n)"
    by (rule scans_skip_let scans_rules fits_take_bit | (simp; fail))+
  from scansD [OF this _ r1] obtain s1 s2 where h: "GetBit s = Some (?c, s1)" "Uint8 6 (SkipBits 1 s1) = Some (?t, s2)"
    "Uint16 16 s2 = Some (?n, advance 24 s)"
    using Cons.prems(1) by (auto simp: aligned_def Option.bind_eq_Some_conv simp del: One_nat_def)
  have s3: "aligned (advance 24 s)" "rest_bits (advance 24 s) = ?us @ ?R" using aligned_past [OF Cons.prems(1) r1] by simp_all
  have e: "Err (advance 24 s) = None" using s3(1) by (simp add: aligned_def ready_def Err_def)
  have n: "unat ?n = length (ua_NalUnits a)" using fit by (simp add: units_fit_def unat_of_nat)
  have units: "read_units (length (ua_NalUnits a)) (advance 24 s) = ok (ua_NalUnits a, advance (24 + length ?us) s)"
    using read_units_bits [OF s3] fit by (simp add: units_fit_def)
  have s4: "aligned (advance (24 + length ?us) s)" "rest_bits (advance (24 + length ?us) s) = ?R"
    using aligned_past [OF s3] length_units_bits by simp_all
  have "bs_ok (advance 24 s)" using s3(1) by (simp add: aligned_def ready_def)
  then have "RemainBits (advance 24 s) = int (length ?us + length ?R)" using s3(2) by (simp add: RemainBits_eq del: length_concat)
  moreover have "RemainBits (advance 24 s) = 8 * RemainBytes (advance 24 s)"
    using s3(1) by (auto simp: RemainBits_def RemainBytes_def aligned_def)
  ultimately have "\<not> uint ?n * 2 > RemainBytes (advance 24 s)"
    using length_units_min [of "ua_NalUnits a"] n by (simp only: uint_nat)
  then show ?case using Cons.IH [OF s4] Cons.prems(3) h e n units
    by (simp add: Let_def array_written_def array_bits_shift [of a] add.assoc del: One_nat_def)
qed


lemma length_concat_map_le: "(\<And>x. x \<in> set xs \<Longrightarrow> length (f x) \<le> k) \<Longrightarrow> length (concat (map f xs)) \<le> k * length xs"
proof (induction xs)
  case (Cons x xs)
  then have "length (f x) \<le> k" "length (concat (map f xs)) \<le> k * length xs" by simp_all
  then show ?case by simp
qed simp

lemma length_array_bits: "8 dvd length (array_bits a)" "units_fit a \<Longrightarrow> length (array_bits a) \<le> 24 + 524296 * 65535"
proof -
  have l: "length (array_bits a) = 24 + length (concat (map unit_bits (ua_NalUnits a)))" by (simp add: array_bits_def)
  show "8 dvd length (array_bits a)" unfolding l by (intro dvd_add length_units_bits) simp
  assume fit: "units_fit a"
  have "length (unit_bits u) \<le> 524296" if "u \<in> set (ua_NalUnits a)" for u
  proof -
    have "length (nu_Nalu u) = unat (nu_NalUnitLength u)" using fit that by (simp add: units_fit_def)
    then have "length (nu_Nalu u) \<le> 65535" using unsigned_less [of "nu_NalUnitLength u", where 'a = nat] by simp
    then show ?thesis by simp
  qed
  then have "length (concat (map unit_bits (ua_NalUnits a))) \<le> 524296 * length (ua_NalUnits a)" by (rule length_concat_map_le)
  also have "\<dots> \<le> 524296 * 65535" using fit by (simp add: units_fit_def)
  finally show "length (array_bits a) \<le> 24 + 524296 * 65535" unfolding l by simp
qed

lemma hvcc_round_trip:
  assumes "3 \<le> length (hv_Arrays h)" "length (hv_Arrays h) \<le> 255" "\<forall>a\<in>set (hv_Arrays h). units_fit a"
  shows "\<exists>h' b. hvcc_Encode h = Some (h', Inr b) \<and> hvcc_Decode q b = Some (hvcc_written h, None)"
proof -
  let ?h = "if hv_Min_spatial_segmentation_idc h = 0 then h\<lparr>hv_ParallelismType := 0\<rparr> else h"
  let ?as = "concat (map array_bits (hv_Arrays h))"
  let ?bits = "hvcc_bits ?h @ ?as"
  obtain w where w: "NewBitStreamWriter 512 = Some w" "wrote w [] 0" using wrote_New [of 512] by auto
  have "8 dvd length ?as"
  proof -
    have "8 dvd length (concat (map array_bits as))" for as
    proof (induction as)
      case (Cons a as)
      then show ?case unfolding list.map concat.simps length_append by (intro dvd_add length_array_bits(1))
    qed simp
    then show ?thesis .
  qed
  then have d: "8 dvd length ?bits" by (simp add: length_hvcc_bits)
  define b where "b = pack_bits ?bits"
  have b: "bits_of_bytes b = ?bits" unfolding b_def by (rule bits_of_pack_bits [OF d])
  have ap: "appends 0 (\<lambda>w. Option.bind (put_hvcc_head ?h w) (put_arrays (hv_Arrays h))) ?bits"
    by (rule appends_bind [OF appends_put_head]) (simp add: length_hvcc_bits appends_put_arrays)
  from appendsE [OF this w(2)] obtain t where t: "Option.bind (put_hvcc_head ?h w) (put_arrays (hv_Arrays h)) = Some t"
    "wrote t ?bits 0" by auto
  have "bsw_Bits t = Some b" using t(2) unfolding b [symmetric] by (rule wrote_Bits)
  then have enc: "hvcc_Encode h = Some (?h, Inr b)" using assms(1) w(1) t(1)
    by (auto simp: hvcc_Encode_def Let_def Option.bind_eq_Some_conv split: if_splits)
  have "length ?as \<le> (24 + 524296 * 65535) * length (hv_Arrays h)"
    using length_array_bits(2) assms(3) by (intro length_concat_map_le) blast
  also have "\<dots> \<le> (24 + 524296 * 65535) * 255" using assms(2) by simp
  finally have "length (bits_of_bytes b) \<le> 184 + (24 + 524296 * 65535) * 255" unfolding b by (simp add: length_hvcc_bits del: length_concat)
  then have lb: "length b < 2 ^ 63" by simp
  let ?s = "NewBitStream b"
  have s: "aligned ?s" "rest_bits ?s = ?bits" using lb b by (simp_all add: aligned_def) (simp add: NewBitStream_def pos_def)
  have head: "read_hvcc_head q ?s = Some (hvcc_written ?h\<lparr>hv_ParallelismType := take_bit 2 (hv_ParallelismType ?h), hv_Arrays := hv_Arrays q\<rparr>, advance 184 ?s)"
    using scansD [OF scans_hvcc_head, of ?s ?h ?as q] s by (simp add: aligned_def length_hvcc_bits)
  have s1: "aligned (advance 184 ?s)" "rest_bits (advance 184 ?s) = ?as @ []"
    using aligned_past [OF s(1,2)] by (simp_all add: length_hvcc_bits)
  have arr: "read_arrays (length (hv_Arrays h)) (advance 184 ?s) = ok (map array_written (hv_Arrays h), advance (184 + length ?as) ?s)"
    using read_arrays_bits [OF s1] assms(3) by simp
  have e: "Err (advance n ?s) = None" for n by (simp add: Err_def advance_def NewBitStream_def)
  have n: "unat (word_of_nat (length (hv_Arrays h)) :: byte) = length (hv_Arrays h)" using assms(2) by (simp add: unat_of_nat)
  have "hvcc_Decode q b = Some (hvcc_written h, None)"
    using head arr e n by (simp add: hvcc_Decode_def hvcc_written_def)
  then show ?thesis using enc by blast
qed

section \<open>Reading a record always returns\<close>

lemma GetBytes_total:
  assumes "bs_ok s" and "length (bs_bits s) < 2 ^ 62" and "n < 2 ^ 62"
  shows "\<exists>d t. GetBytes n s = Some (d, t) \<and> bs_ok t \<and> bs_bits t = bs_bits s \<and> pos s \<le> pos t"
proof (cases "bs_err s = None \<and> 0 \<le> n \<and> bitsOffset s = 0")
  case True
  have b: "bytesOffset s \<le> length (bs_bits s)" using assms(1) by (simp add: bs_ok_def pos_def)
  then have w: "wrap64 (int (bytesOffset s) + n) = int (bytesOffset s) + n" using assms(2,3) True by (intro wrap64_id) simp_all
  show ?thesis
  proof (cases "int (bytesOffset s) + n > glen (bs_bits s)")
    case False
    then show ?thesis using True b w by (auto simp: GetBytes_def slice_of_def bs_ok_def pos_def nat_le_iff)
  qed (use True w assms(1) in \<open>simp add: GetBytes_def\<close>)
next
  case False
  then show ?thesis using assms(1) by (auto simp: GetBytes_def)
qed

text \<open>A stream over given bytes that is not in front of a place.\<close>

definition past :: "nat \<Rightarrow> bytes \<Rightarrow> bitstream \<Rightarrow> bool" where
  "past k d s \<longleftrightarrow> bs_ok s \<and> bs_bits s = d \<and> length d < 2 ^ 62 \<and> (bs_err s = None \<longrightarrow> k \<le> pos s)"

lemma past_GetBits:
  assumes "past k d s"
  shows "gives (\<lambda>(v, t). past k d t) (GetBits n s)"
proof (cases "bs_err s = None \<and> 0 \<le> n \<and> n \<le> 64 \<and> n \<le> RemainBits s")
  case True
  have ok: "bs_ok s" using assms by (simp add: past_def)
  then have "nat n \<le> length (rest_bits s)" using RemainBits_eq [OF ok] True by linarith
  moreover have "ready s" using True ok by (simp add: ready_def)
  ultimately show ?thesis
    using True GetBits_ready [of s "nat n"] bs_ok_advance [OF ok, of "nat n"] assms by (auto simp: past_def)
next
  case False
  then show ?thesis using assms by (auto simp: GetBits_def past_def)
qed

lemma past_first: "length d < 2 ^ 62 \<Longrightarrow> gives (\<lambda>(v, t). past 8 d t) (Uint8 8 (NewBitStream d))"
proof (cases "8 \<le> RemainBits (NewBitStream d)")
  case True
  assume l: "length d < 2 ^ 62"
  let ?s = "NewBitStream d"
  have r: "8 \<le> length (rest_bits ?s)" using True RemainBits_eq [OF bs_ok_New, of d] by linarith
  show ?thesis using GetBits_ready [OF ready_New, of 8 d] r bs_ok_advance [OF bs_ok_New r] l
    by (simp add: Uint8_def past_def NewBitStream_def)
next
  case False
  assume "length d < 2 ^ 62"
  then show ?thesis using False bs_ok_New [of d] by (simp add: GetBits_def Uint8_def past_def) (simp add: NewBitStream_def)
qed

lemma past_Uint:
  assumes "past k d s"
  shows "gives (\<lambda>(v, t). past k d t) (Uint8 n s)" "gives (\<lambda>(v, t). past k d t) (Uint16 n s)" "gives (\<lambda>(v, t). past k d t) (Uint32 n s)"
  using past_GetBits [OF assms, of n] by (auto simp: gives_def Uint8_def Uint16_def Uint32_def)

lemma past_GetBit:
  assumes "past k d s" shows "gives (\<lambda>(v, t). past k d t) (GetBit s)"
proof (cases "ready s")
  case True
  have ok: "bs_ok s" using assms by (simp add: past_def)
  show ?thesis
  proof (cases "rest_bits s")
    case Nil
    then show ?thesis using GetBit_short [OF True] assms by (auto simp: past_def bs_ok_def)
  next
    case (Cons b bs)
    then show ?thesis using GetBit_ready [OF True Cons] bs_ok_advance [OF ok, of 1] assms by (auto simp: past_def)
  qed
qed (use assms in \<open>auto simp: past_def ready_def GetBit_def\<close>)

lemma past_SkipBits:
  assumes "past k d s" shows "past k d (SkipBits n s)"
proof (cases "bs_err s = None \<and> 0 \<le> n \<and> n \<le> RemainBits s")
  case True
  have ok: "bs_ok s" using assms by (simp add: past_def)
  then have l: "nat n \<le> length (rest_bits s)" using RemainBits_eq [OF ok] True by linarith
  moreover have "ready s" using True ok by (simp add: ready_def)
  ultimately have "SkipBits n s = advance (nat n) s" using True SkipBits_ready [of s "nat n"] by simp
  then show ?thesis using bs_ok_advance [OF ok l] assms by (auto simp: past_def)
next
  case False
  then show ?thesis using assms by (auto simp: SkipBits_def past_def)
qed

lemma GetBytes_length: "GetBytes n s = Some (Some x, t) \<Longrightarrow> length x \<le> length (bs_bits s)"
  by (auto simp: GetBytes_def slice_of_def Option.bind_eq_Some_conv split: if_splits)

lemma past_GetBytes: "past k d s \<Longrightarrow> n < 2 ^ 62 \<Longrightarrow> gives (\<lambda>(v, t). past k d t) (GetBytes n s)"
  using GetBytes_total [of s n] by (cases "bs_err s") (auto simp: past_def gives_def GetBytes_def)

lemma past_Fail: "past k d s \<Longrightarrow> past k d (Fail e s)" by (auto simp: past_def Fail_def bs_ok_def)

lemma past_bind:
  assumes "gives (\<lambda>(v, t). past k d t) m" and "\<And>v t. past k d t \<Longrightarrow> gives Q (f v t)"
  shows "gives Q (Option.bind m (\<lambda>(v, t). f v t))"
  using assms by (auto simp: gives_def)

lemmas past_rules = past_bind past_Uint past_GetBit past_GetBytes past_SkipBits past_Fail gives_let gives_if

lemma gives_streamD: "gives (past k d) m \<Longrightarrow> \<exists>t. m = Some t \<and> past k d t"
  "gives (\<lambda>(v, t). past k d t) m' \<Longrightarrow> \<exists>v t. m' = Some (v, t) \<and> past k d t"
  by (auto simp: gives_def)

lemma read_units_total: "past 0 d s \<Longrightarrow> \<exists>r. read_units n s = Some r \<and> (\<forall>us t. r = Inr (us, t) \<longrightarrow> past 0 d t)"
proof (induction n arbitrary: s)
  case (Suc n)
  obtain len t where t: "Uint16 16 s = Some (len, t)" "past 0 d t" using gives_streamD(2) [OF past_Uint(2) [OF Suc.prems, of 16]] by blast
  have "uint len < 2 ^ 62" using uint_bounded [of len] by simp
  then obtain x u where u: "GetBytes (uint len) t = Some (x, u)" "past 0 d u" using gives_streamD(2) [OF past_GetBytes [OF t(2)]] by blast
  show ?case using t u Suc.IH [OF u(2)] by (auto simp: Err_def rbind_def split: option.split sum.split)
qed simp

lemma read_arrays_total: "past 0 d s \<Longrightarrow> \<exists>r. read_arrays n s = Some r"
proof (induction n arbitrary: s)
  case (Suc n)
  obtain c t1 where 1: "GetBit s = Some (c, t1)" "past 0 d t1" using gives_streamD(2) [OF past_GetBit [OF Suc.prems]] by blast
  obtain ty t2 where 2: "Uint8 6 (SkipBits 1 t1) = Some (ty, t2)" "past 0 d t2"
    using gives_streamD(2) [OF past_Uint(1) [OF past_SkipBits [OF 1(2)]]] by blast
  obtain num t3 where 3: "Uint16 16 t2 = Some (num, t3)" "past 0 d t3" using gives_streamD(2) [OF past_Uint(2) [OF 2(2)]] by blast
  obtain r where "read_units (unat num) t3 = Some r" "\<forall>us t. r = Inr (us, t) \<longrightarrow> past 0 d t" using read_units_total [OF 3(2)] by blast
  then show ?case using 1 2 3 Suc.IH by (cases r) (fastforce simp: Let_def Err_def rbind_def split: option.split sum.split)+
qed simp

lemma read_hvcc_head_total: "past 0 d s \<Longrightarrow> gives (\<lambda>(v, t). past 0 d t) (read_hvcc_head h s)"
  unfolding read_hvcc_head_def by (intro past_rules past_GetBits) (assumption | simp add: past_SkipBits)+

lemma hvcc_Decode_total: "length d < 2 ^ 62 \<Longrightarrow> \<exists>h' e. hvcc_Decode h d = Some (h', e)"
proof -
  assume "length d < 2 ^ 62"
  then have "past 0 d (NewBitStream d)" using bs_ok_New [of d] by (simp add: past_def NewBitStream_def)
  then obtain h' t where h: "read_hvcc_head h (NewBitStream d) = Some (h', t)" "past 0 d t"
    using gives_streamD(2) [OF read_hvcc_head_total] by blast
  obtain r where r: "read_arrays (unat (hv_NumOfArrays h')) t = Some r" using read_arrays_total [OF h(2)] by blast
  show ?thesis using h(1) r by (cases r) (auto simp: hvcc_Decode_def Err_def split: option.split)
qed

section \<open>Storing a set is an update of a map\<close>

text \<open>The set with an id in the first array of a type.\<close>

definition stored :: "byte \<Rightarrow> (bytes \<Rightarrow> 'i option) \<Rightarrow> HVCCNALUnitArray list \<Rightarrow> 'i \<Rightarrow> bytes option" where
  "stored t getId as i = (case find (\<lambda>a. ua_NAL_unit_type a = t) as of None \<Rightarrow> None
     | Some a \<Rightarrow> map_option nu_Nalu (find (\<lambda>u. getId (nu_Nalu u) = Some i) (ua_NalUnits a)))"

definition ids :: "(bytes \<Rightarrow> 'i option) \<Rightarrow> NalUnit list \<Rightarrow> 'i option list" where
  "ids getId us = map (getId \<circ> nu_Nalu) us"

text \<open>An array that a new set was stored in.\<close>

definition grown :: "byte \<Rightarrow> (bytes \<Rightarrow> 'i option) \<Rightarrow> bytes \<Rightarrow> HVCCNALUnitArray list \<Rightarrow> HVCCNALUnitArray \<Rightarrow> bool" where
  "grown t getId nalu as a \<longleftrightarrow> ua_NAL_unit_type a = t \<and> ua_NalUnits a \<noteq> [] \<and>
     ((\<forall>b\<in>set as. ua_NAL_unit_type b = t \<longrightarrow> distinct (ids getId (ua_NalUnits b))) \<longrightarrow> distinct (ids getId (ua_NalUnits a))) \<and>
     (\<forall>u\<in>set (ua_NalUnits a). u = new_unit nalu \<or> (\<exists>b\<in>set as. ua_NAL_unit_type b = t \<and> u \<in> set (ua_NalUnits b)))"

text \<open>
  What the \<open>Update\<close> methods need of a kind of parameter set: the sets that can be stored have an id.
  The laws that follow are those of a map from ids to sets.
\<close>

locale parameter_sets =
  fixes t :: byte and getId :: "bytes \<Rightarrow> 'i option" and known :: "bytes \<Rightarrow> bool"
  assumes getId_known: "known b \<Longrightarrow> \<exists>i. getId b = Some i"
begin

lemma store_unit_finds:
  assumes "\<And>u. u \<in> set us \<Longrightarrow> known (nu_Nalu u)" and n: "getId nalu = Some i"
  shows "\<exists>need us'. store_unit getId i nalu us = Some (need, us') \<and> us' \<noteq> [] \<and> set us' \<subseteq> insert (new_unit nalu) (set us) \<and>
    (\<forall>j. map_option nu_Nalu (find (\<lambda>u. getId (nu_Nalu u) = Some j) us') =
      (if j = i then Some nalu else map_option nu_Nalu (find (\<lambda>u. getId (nu_Nalu u) = Some j) us))) \<and>
    set (ids getId us') = insert (Some i) (set (ids getId us)) \<and> (distinct (ids getId us) \<longrightarrow> distinct (ids getId us'))"
  using assms(1)
proof (induction us)
  case Nil
  then show ?case using n by (auto simp: ids_def new_unit_def)
next
  case (Cons u us)
  obtain k where k: "getId (nu_Nalu u) = Some k" using getId_known Cons.prems by auto
  show ?case
  proof (cases "i = k")
    case True
    then show ?thesis using k n by (auto simp: ids_def new_unit_def)
  next
    case False
    obtain need us' where us': "store_unit getId i nalu us = Some (need, us')" "set us' \<subseteq> insert (new_unit nalu) (set us)"
      "\<And>j. map_option nu_Nalu (find (\<lambda>u. getId (nu_Nalu u) = Some j) us') =
        (if j = i then Some nalu else map_option nu_Nalu (find (\<lambda>u. getId (nu_Nalu u) = Some j) us))"
      "set (ids getId us') = insert (Some i) (set (ids getId us))" "distinct (ids getId us) \<Longrightarrow> distinct (ids getId us')"
      using Cons.IH Cons.prems by auto
    have d: "distinct (ids getId (u # us)) \<Longrightarrow> distinct (ids getId (u # us'))"
      using us'(4,5) False k by (auto simp: ids_def)
    have "store_unit getId i nalu (u # us) = Some (need, u # us')" using k False us'(1) by simp
    moreover have "set (ids getId (u # us')) = insert (Some i) (set (ids getId (u # us)))" using us'(4) by (auto simp: ids_def)
    ultimately show ?thesis using us'(2,3) d k False by auto
  qed
qed

lemma store_set_finds:
  assumes "\<forall>a\<in>set as. ua_NAL_unit_type a = t \<longrightarrow> (\<forall>u\<in>set (ua_NalUnits a). known (nu_Nalu u))" and n: "getId nalu = Some i"
  shows "\<exists>need as'. store_set t getId i nalu as = Some (need, as') \<and>
    stored t getId as' = (stored t getId as)(i \<mapsto> nalu) \<and>
    (\<forall>t'. t' \<noteq> t \<longrightarrow> find (\<lambda>a. ua_NAL_unit_type a = t') as' = find (\<lambda>a. ua_NAL_unit_type a = t') as) \<and>
    map ua_NAL_unit_type as' = map ua_NAL_unit_type as @ (if t \<in> ua_NAL_unit_type ` set as then [] else [t]) \<and>
    (\<forall>a\<in>set as'. a \<in> set as \<or> grown t getId nalu as a)"
  using assms(1)
proof (induction as)
  case Nil
  then show ?case using n by (auto simp: stored_def ids_def new_unit_def fun_eq_iff grown_def)
next
  case (Cons a as)
  show ?case
  proof (cases "ua_NAL_unit_type a = t")
    case True
    have "\<And>u. u \<in> set (ua_NalUnits a) \<Longrightarrow> known (nu_Nalu u)" using Cons.prems True by simp
    from store_unit_finds [OF this n] obtain need us' where us': "store_unit getId i nalu (ua_NalUnits a) = Some (need, us')" "us' \<noteq> []"
      "set us' \<subseteq> insert (new_unit nalu) (set (ua_NalUnits a))"
      "\<And>j. map_option nu_Nalu (find (\<lambda>u. getId (nu_Nalu u) = Some j) us') =
        (if j = i then Some nalu else map_option nu_Nalu (find (\<lambda>u. getId (nu_Nalu u) = Some j) (ua_NalUnits a)))"
      "distinct (ids getId (ua_NalUnits a)) \<longrightarrow> distinct (ids getId us')" by blast
    let ?a = "a\<lparr>ua_NalUnits := us'\<rparr>"
    have 1: "store_set t getId i nalu (a # as) = Some (need, ?a # as)" using True us'(1) by simp
    have 2: "stored t getId (?a # as) = (stored t getId (a # as))(i \<mapsto> nalu)" using True us'(4) by (auto simp: stored_def fun_eq_iff)
    have 3: "grown t getId nalu (a # as) ?a" using True us'(2,3,5) by (auto simp: grown_def)
    show ?thesis by (rule exI, rule exI, intro conjI, rule 1, rule 2) (use True 3 in auto)
  next
    case False
    have "\<forall>b\<in>set as. ua_NAL_unit_type b = t \<longrightarrow> (\<forall>u\<in>set (ua_NalUnits b). known (nu_Nalu u))" using Cons.prems by simp
    from Cons.IH [OF this] obtain need as' where as': "store_set t getId i nalu as = Some (need, as')"
      "stored t getId as' = (stored t getId as)(i \<mapsto> nalu)"
      "\<forall>t'. t' \<noteq> t \<longrightarrow> find (\<lambda>a. ua_NAL_unit_type a = t') as' = find (\<lambda>a. ua_NAL_unit_type a = t') as"
      "map ua_NAL_unit_type as' = map ua_NAL_unit_type as @ (if t \<in> ua_NAL_unit_type ` set as then [] else [t])"
      "\<forall>a\<in>set as'. a \<in> set as \<or> grown t getId nalu as a" by blast
    have 1: "store_set t getId i nalu (a # as) = Some (need, a # as')" using False as'(1) by simp
    have 2: "stored t getId (a # as') = (stored t getId (a # as))(i \<mapsto> nalu)" using False as'(2) by (simp add: stored_def fun_eq_iff)
    have 3: "grown t getId nalu (a # as) b" if "grown t getId nalu as b" for b using that False by (auto simp: grown_def)
    show ?thesis by (rule exI, rule exI, intro conjI, rule 1, rule 2) (use False 3 as'(3-5) in auto)
  qed
qed

end

text \<open>A set that can be stored is one that was decoded without an error.\<close>

definition decodes :: "(bytes \<Rightarrow> ('r \<times> codec_error option) option) \<Rightarrow> bytes \<Rightarrow> bool" where
  "decodes dec b \<longleftrightarrow> map_option snd (dec b) = Some None"

lemma decodesI: "dec b = Some (r, None) \<Longrightarrow> decodes dec b"
  by (simp add: decodes_def)

interpretation vps_law: parameter_sets 32 GetVPSId "decodes VPS_Decode"
  by unfold_locales (auto simp: decodes_def GetVPSId_def)

interpretation sps_law: parameter_sets 33 GetH265SPSId "decodes H265RawSPS_Decode"
  by unfold_locales (auto simp: decodes_def GetH265SPSId_def)

interpretation pps_law: parameter_sets 34 GetH265PPSId "decodes H265RawPPS_Decode"
  by unfold_locales (auto simp: decodes_def GetH265PPSId_def)

section \<open>The abstract record\<close>

text \<open>The set in a unit with or without a start code, with its id, when it can be decoded.\<close>

definition set_in :: "(bytes \<Rightarrow> ('r \<times> codec_error option) option) \<Rightarrow> ('r \<Rightarrow> 'i) \<Rightarrow> bytes \<Rightarrow> ('i \<times> bytes) option" where
  "set_in dec rid x = do {
     off \<leftarrow> naluOffset x;
     if off < 0 then None else do { b \<leftarrow> slice_from x off; (raw, e) \<leftarrow> dec b; if e = None then Some (rid raw, b) else None }
   }"

definition vps_in :: "bytes \<Rightarrow> (byte \<times> bytes) option" where "vps_in = set_in VPS_Decode vps_Vps_video_parameter_set_id"
definition sps_in :: "bytes \<Rightarrow> (u64 \<times> bytes) option" where "sps_in = set_in H265RawSPS_Decode hsps_Sps_seq_parameter_set_id"
definition pps_in :: "bytes \<Rightarrow> (u64 \<times> bytes) option" where "pps_in = set_in H265RawPPS_Decode hpps_Pps_pic_parameter_set_id"

definition vps_sets :: "HEVCRecordConfiguration \<Rightarrow> byte \<Rightarrow> bytes option" where "vps_sets h = stored 32 GetVPSId (hv_Arrays h)"
definition sps_sets :: "HEVCRecordConfiguration \<Rightarrow> u64 \<Rightarrow> bytes option" where "sps_sets h = stored 33 GetH265SPSId (hv_Arrays h)"
definition pps_sets :: "HEVCRecordConfiguration \<Rightarrow> u64 \<Rightarrow> bytes option" where "pps_sets h = stored 34 GetH265PPSId (hv_Arrays h)"

text \<open>
  Every array has one of three types and no two have the same, none is empty, every set in it
  decodes, their ids differ and every length field is the length of its unit in 16 bits.
\<close>

definition sets_of_kind :: "byte \<Rightarrow> (bytes \<Rightarrow> ('r \<times> codec_error option) option) \<Rightarrow> (bytes \<Rightarrow> 'i option) \<Rightarrow> HVCCNALUnitArray \<Rightarrow> bool" where
  "sets_of_kind t dec getId a \<longleftrightarrow> (ua_NAL_unit_type a = t \<longrightarrow>
     (\<forall>u\<in>set (ua_NalUnits a). decodes dec (nu_Nalu u)) \<and> distinct (ids getId (ua_NalUnits a)))"

definition array_ok :: "HVCCNALUnitArray \<Rightarrow> bool" where
  "array_ok a \<longleftrightarrow> ua_NalUnits a \<noteq> [] \<and> (\<forall>u\<in>set (ua_NalUnits a). nu_NalUnitLength u = word_of_nat (length (nu_Nalu u))) \<and>
     sets_of_kind 32 VPS_Decode GetVPSId a \<and> sets_of_kind 33 H265RawSPS_Decode GetH265SPSId a \<and>
     sets_of_kind 34 H265RawPPS_Decode GetH265PPSId a"

definition hvcc_ok :: "HEVCRecordConfiguration \<Rightarrow> bool" where
  "hvcc_ok h \<longleftrightarrow> distinct (map ua_NAL_unit_type (hv_Arrays h)) \<and> ua_NAL_unit_type ` set (hv_Arrays h) \<subseteq> {32, 33, 34} \<and>
     (\<forall>a\<in>set (hv_Arrays h). array_ok a)"

lemma hvcc_ok_New: "hvcc_ok NewHEVCRecordConfiguration" by (simp add: hvcc_ok_def NewHEVCRecordConfiguration_def)

lemma new_unit_length: "nu_NalUnitLength (new_unit x) = word_of_nat (length (nu_Nalu (new_unit x)))" "nu_Nalu (new_unit x) = x"
  by (simp_all add: new_unit_def)

lemma array_ok_grown:
  assumes h: "\<forall>a\<in>set as. array_ok a"
  shows "decodes VPS_Decode x \<Longrightarrow> grown 32 GetVPSId x as a \<Longrightarrow> array_ok a"
    and "decodes H265RawSPS_Decode x \<Longrightarrow> grown 33 GetH265SPSId x as a \<Longrightarrow> array_ok a"
    and "decodes H265RawPPS_Decode x \<Longrightarrow> grown 34 GetH265PPSId x as a \<Longrightarrow> array_ok a"
proof -
  have len: "\<forall>u\<in>set (ua_NalUnits a). nu_NalUnitLength u = word_of_nat (length (nu_Nalu u))" if "grown t f x as a"
    for t and f :: "bytes \<Rightarrow> 'z option"
    using that h new_unit_length [of x] by (auto simp: grown_def array_ok_def)
  have kind: "sets_of_kind t dec f a" if "grown t f x as a" "decodes dec x" "\<forall>a\<in>set as. sets_of_kind t dec f a"
    for t and dec :: "bytes \<Rightarrow> ('y \<times> codec_error option) option" and f :: "bytes \<Rightarrow> 'z option"
    using that new_unit_length [of x] by (auto simp: grown_def sets_of_kind_def)
  show "array_ok a" if "decodes VPS_Decode x" "grown 32 GetVPSId x as a"
    using len [OF that(2)] kind [OF that(2,1)] that(2) h by (simp add: grown_def array_ok_def) (simp add: sets_of_kind_def)
  show "array_ok a" if "decodes H265RawSPS_Decode x" "grown 33 GetH265SPSId x as a"
    using len [OF that(2)] kind [OF that(2,1)] that(2) h by (simp add: grown_def array_ok_def) (simp add: sets_of_kind_def)
  show "array_ok a" if "decodes H265RawPPS_Decode x" "grown 34 GetH265PPSId x as a"
    using len [OF that(2)] kind [OF that(2,1)] that(2) h by (simp add: grown_def array_ok_def) (simp add: sets_of_kind_def)
qed

lemma hvcc_ok_types:
  assumes "distinct (map ua_NAL_unit_type as)" "ua_NAL_unit_type ` set as \<subseteq> {32, 33, 34}" "t \<in> {32, 33, 34}"
    and m: "map ua_NAL_unit_type as' = map ua_NAL_unit_type as @ (if t \<in> ua_NAL_unit_type ` set as then [] else [t])"
  shows "distinct (map ua_NAL_unit_type as')" "ua_NAL_unit_type ` set as' \<subseteq> {32, 33, 34}"
proof -
  show "distinct (map ua_NAL_unit_type as')" unfolding m using assms(1) by auto
  have "ua_NAL_unit_type ` set as' = set (map ua_NAL_unit_type as')" by simp
  then show "ua_NAL_unit_type ` set as' \<subseteq> {32, 33, 34}" unfolding m using assms(2,3) by (auto split: if_splits)
qed

lemma hvcc_ok_unit:
  assumes "hvcc_ok h" and "a \<in> set (hv_Arrays h)" and "u \<in> set (ua_NalUnits a)"
  shows "ua_NAL_unit_type a = 32 \<Longrightarrow> decodes VPS_Decode (nu_Nalu u)"
    and "ua_NAL_unit_type a = 33 \<Longrightarrow> decodes H265RawSPS_Decode (nu_Nalu u)"
    and "ua_NAL_unit_type a = 34 \<Longrightarrow> decodes H265RawPPS_Decode (nu_Nalu u)"
  using assms by (auto simp: hvcc_ok_def array_ok_def sets_of_kind_def)

lemma GetIds_return:
  assumes "length b < 2 ^ 29"
  shows "(\<exists>i. GetVPSId b = Some i) \<and> (\<exists>i. GetH265SPSId b = Some i) \<and> (\<exists>i. GetH265PPSId b = Some i)"
  using VPS_returns [of b] H265RawSPS_returns [OF assms] H265RawPPS_returns [of b]
  by (auto simp: GetVPSId_def GetH265SPSId_def GetH265PPSId_def)

lemma set_in_cases:
  assumes "\<And>off b. naluOffset x = Some off \<Longrightarrow> 0 \<le> off \<Longrightarrow> slice_from x off = Some b \<Longrightarrow> length b \<le> length x \<Longrightarrow>
      \<exists>r e. dec b = Some (r, e)"
  obtains (bad_offset) off where "naluOffset x = Some off" "off < 0" "set_in dec rid x = None"
  | (bad_set) off b r e where "naluOffset x = Some off" "0 \<le> off" "slice_from x off = Some b" "dec b = Some (r, Some e)" "set_in dec rid x = None"
  | (good_set) off b r where "naluOffset x = Some off" "0 \<le> off" "slice_from x off = Some b" "length b \<le> length x" "dec b = Some (r, None)"
      "set_in dec rid x = Some (rid r, b)"
proof -
  obtain off where off: "naluOffset x = Some off" "- 1 \<le> off" "off \<le> glen x" using naluOffset_range by blast
  show ?thesis
  proof (cases "off < 0")
    case True
    then show ?thesis using that(1) off by (simp add: set_in_def)
  next
    case False
    then have s: "slice_from x off = Some (drop (nat off) x)" using off by (simp add: slice_from_def)
    obtain r e where d: "dec (drop (nat off) x) = Some (r, e)" using assms [OF off(1) _ s] False by auto
    show ?thesis
    proof (cases e)
      case None
      then show ?thesis using that(3) [OF off(1) _ s] False d off s by (simp add: set_in_def)
    next
      case (Some y)
      then show ?thesis using that(2) [OF off(1) _ s] False d off s by (simp add: set_in_def)
    qed
  qed
qed


lemma Arrays_updated [simp]: "hv_Arrays (updatePtl p h) = hv_Arrays h" "hv_Arrays (updateVui v h) = hv_Arrays h"
  by (simp_all add: updatePtl_def updateVui_def Let_def)

lemma hvcc_ok_grown:
  assumes "hvcc_ok h" "t \<in> {32, 33, 34}"
    and "map ua_NAL_unit_type as = map ua_NAL_unit_type (hv_Arrays h) @ (if t \<in> ua_NAL_unit_type ` set (hv_Arrays h) then [] else [t])"
    and "\<forall>a\<in>set as. a \<in> set (hv_Arrays h) \<or> grown t getId x (hv_Arrays h) a"
    and "\<And>a. grown t getId x (hv_Arrays h) a \<Longrightarrow> array_ok a" and "hv_Arrays h' = as"
  shows "hvcc_ok h'"
  using assms hvcc_ok_types [OF _ _ assms(2,3)] by (auto simp: hvcc_ok_def)

lemma UpdateVPS_stores:
  assumes h: "hvcc_ok h"
  shows "\<exists>h' e. UpdateVPS x h = Some (h', e) \<and> hvcc_ok h' \<and> (case vps_in x of None \<Rightarrow> e \<noteq> None \<and> h' = h
    | Some (i, b) \<Rightarrow> e = None \<and> vps_sets h' = (vps_sets h)(i \<mapsto> b) \<and> sps_sets h' = sps_sets h \<and> pps_sets h' = pps_sets h)"
  using VPS_returns
proof (rule set_in_cases [where x = x and rid = vps_Vps_video_parameter_set_id])
  fix off b r
  assume o: "naluOffset x = Some off" "0 \<le> off" "slice_from x off = Some b" "length b \<le> length x" "VPS_Decode b = Some (r, None)"
    and i: "set_in VPS_Decode vps_Vps_video_parameter_set_id x = Some (vps_Vps_video_parameter_set_id r, b)"
  let ?i = "vps_Vps_video_parameter_set_id r"
  have gid: "GetVPSId b = Some ?i" using o(5) by (simp add: GetVPSId_def)
  obtain need as where as: "store_set 32 GetVPSId ?i b (hv_Arrays h) = Some (need, as)"
    "stored 32 GetVPSId as = (stored 32 GetVPSId (hv_Arrays h))(?i \<mapsto> b)"
    "\<forall>t'. t' \<noteq> 32 \<longrightarrow> find (\<lambda>a. ua_NAL_unit_type a = t') as = find (\<lambda>a. ua_NAL_unit_type a = t') (hv_Arrays h)"
    "map ua_NAL_unit_type as = map ua_NAL_unit_type (hv_Arrays h) @ (if 32 \<in> ua_NAL_unit_type ` set (hv_Arrays h) then [] else [32])"
    "\<forall>a\<in>set as. a \<in> set (hv_Arrays h) \<or> grown 32 GetVPSId b (hv_Arrays h) a"
    using vps_law.store_set_finds [of "hv_Arrays h" b ?i, OF _ gid] hvcc_ok_unit(1) [OF h] by blast
  obtain h' where u: "UpdateVPS x h = Some (h', None)" "hv_Arrays h' = as" using o as(1) by (simp add: UpdateVPS_def Let_def)
  have "array_ok a" if "grown 32 GetVPSId b (hv_Arrays h) a" for a using array_ok_grown(1) [OF _ decodesI [of VPS_Decode b r, OF o(5)] that] h by (simp add: hvcc_ok_def)
  then have "hvcc_ok h'" using u(2) by (intro hvcc_ok_grown [OF h _ as(4,5)]) auto
  then show ?thesis using u as(2,3) i by (auto simp: vps_in_def vps_sets_def sps_sets_def pps_sets_def stored_def fun_eq_iff)
qed (use h in \<open>auto simp: UpdateVPS_def vps_in_def\<close>)

lemma UpdateSPS_stores:
  assumes h: "hvcc_ok h" and x: "length x < 2 ^ 29 \<or> UpdateSPS x h \<noteq> None"
  shows "\<exists>h' e. UpdateSPS x h = Some (h', e) \<and> hvcc_ok h' \<and> (case sps_in x of None \<Rightarrow> e \<noteq> None \<and> h' = h
    | Some (i, b) \<Rightarrow> e = None \<and> sps_sets h' = (sps_sets h)(i \<mapsto> b) \<and> vps_sets h' = vps_sets h \<and> pps_sets h' = pps_sets h)"
proof (rule set_in_cases [where x = x and rid = hsps_Sps_seq_parameter_set_id])
  show "\<exists>r e. H265RawSPS_Decode b = Some (r, e)"
    if "naluOffset x = Some off" "0 \<le> off" "slice_from x off = Some b" "length b \<le> length x" for off b
  proof (cases "length x < 2 ^ 29")
    case True
    then show ?thesis using H265RawSPS_returns [of b] that(4) by simp
  next
    case False
    then show ?thesis using x that(1-3) by (auto simp: UpdateSPS_def Option.bind_eq_None_conv)
  qed
next
  fix off b r
  assume o: "naluOffset x = Some off" "0 \<le> off" "slice_from x off = Some b" "length b \<le> length x" "H265RawSPS_Decode b = Some (r, None)"
    and i: "set_in H265RawSPS_Decode hsps_Sps_seq_parameter_set_id x = Some (hsps_Sps_seq_parameter_set_id r, b)"
  let ?i = "hsps_Sps_seq_parameter_set_id r"
  have gid: "GetH265SPSId b = Some ?i" using o(5) by (simp add: GetH265SPSId_def)
  obtain need as where as: "store_set 33 GetH265SPSId ?i b (hv_Arrays h) = Some (need, as)"
    "stored 33 GetH265SPSId as = (stored 33 GetH265SPSId (hv_Arrays h))(?i \<mapsto> b)"
    "\<forall>t'. t' \<noteq> 33 \<longrightarrow> find (\<lambda>a. ua_NAL_unit_type a = t') as = find (\<lambda>a. ua_NAL_unit_type a = t') (hv_Arrays h)"
    "map ua_NAL_unit_type as = map ua_NAL_unit_type (hv_Arrays h) @ (if 33 \<in> ua_NAL_unit_type ` set (hv_Arrays h) then [] else [33])"
    "\<forall>a\<in>set as. a \<in> set (hv_Arrays h) \<or> grown 33 GetH265SPSId b (hv_Arrays h) a"
    using sps_law.store_set_finds [of "hv_Arrays h" b ?i, OF _ gid] hvcc_ok_unit(2) [OF h] by blast
  obtain h' where u: "UpdateSPS x h = Some (h', None)" "hv_Arrays h' = as" using o as(1) by (simp add: UpdateSPS_def Let_def)
  have "array_ok a" if "grown 33 GetH265SPSId b (hv_Arrays h) a" for a using array_ok_grown(2) [OF _ decodesI [of H265RawSPS_Decode b r, OF o(5)] that] h by (simp add: hvcc_ok_def)
  then have "hvcc_ok h'" using u(2) by (intro hvcc_ok_grown [OF h _ as(4,5)]) auto
  then show ?thesis using u as(2,3) i by (auto simp: sps_in_def vps_sets_def sps_sets_def pps_sets_def stored_def fun_eq_iff)
qed (use h in \<open>auto simp: UpdateSPS_def sps_in_def\<close>)

lemma UpdatePPS_stores:
  assumes h: "hvcc_ok h"
  shows "\<exists>h' e. UpdatePPS x h = Some (h', e) \<and> hvcc_ok h' \<and> (case pps_in x of None \<Rightarrow> e \<noteq> None \<and> h' = h
    | Some (i, b) \<Rightarrow> e = None \<and> pps_sets h' = (pps_sets h)(i \<mapsto> b) \<and> vps_sets h' = vps_sets h \<and> sps_sets h' = sps_sets h)"
  using H265RawPPS_returns
proof (rule set_in_cases [where x = x and rid = hpps_Pps_pic_parameter_set_id])
  fix off b r
  assume o: "naluOffset x = Some off" "0 \<le> off" "slice_from x off = Some b" "length b \<le> length x" "H265RawPPS_Decode b = Some (r, None)"
    and i: "set_in H265RawPPS_Decode hpps_Pps_pic_parameter_set_id x = Some (hpps_Pps_pic_parameter_set_id r, b)"
  let ?i = "hpps_Pps_pic_parameter_set_id r"
  have gid: "GetH265PPSId b = Some ?i" using o(5) by (simp add: GetH265PPSId_def)
  obtain need as where as: "store_set 34 GetH265PPSId ?i b (hv_Arrays h) = Some (need, as)"
    "stored 34 GetH265PPSId as = (stored 34 GetH265PPSId (hv_Arrays h))(?i \<mapsto> b)"
    "\<forall>t'. t' \<noteq> 34 \<longrightarrow> find (\<lambda>a. ua_NAL_unit_type a = t') as = find (\<lambda>a. ua_NAL_unit_type a = t') (hv_Arrays h)"
    "map ua_NAL_unit_type as = map ua_NAL_unit_type (hv_Arrays h) @ (if 34 \<in> ua_NAL_unit_type ` set (hv_Arrays h) then [] else [34])"
    "\<forall>a\<in>set as. a \<in> set (hv_Arrays h) \<or> grown 34 GetH265PPSId b (hv_Arrays h) a"
    using pps_law.store_set_finds [of "hv_Arrays h" b ?i, OF _ gid] hvcc_ok_unit(3) [OF h] by blast
  obtain h' where u: "UpdatePPS x h = Some (h', None)" "hv_Arrays h' = as" using o as(1) by (simp add: UpdatePPS_def Let_def)
  have "array_ok a" if "grown 34 GetH265PPSId b (hv_Arrays h) a" for a using array_ok_grown(3) [OF _ decodesI [of H265RawPPS_Decode b r, OF o(5)] that] h by (simp add: hvcc_ok_def)
  then have "hvcc_ok h'" using u(2) by (intro hvcc_ok_grown [OF h _ as(4,5)]) auto
  then show ?thesis using u as(2,3) i by (auto simp: pps_in_def vps_sets_def sps_sets_def pps_sets_def stored_def fun_eq_iff)
qed (use h in \<open>auto simp: UpdatePPS_def pps_in_def\<close>)

section \<open>Records that are built by updates\<close>

inductive hvcc_built :: "HEVCRecordConfiguration \<Rightarrow> bool" where
  built_new: "hvcc_built NewHEVCRecordConfiguration"
| built_vps: "hvcc_built h \<Longrightarrow> UpdateVPS x h = Some (h', e) \<Longrightarrow> hvcc_built h'"
| built_sps: "hvcc_built h \<Longrightarrow> UpdateSPS x h = Some (h', e) \<Longrightarrow> hvcc_built h'"
| built_pps: "hvcc_built h \<Longrightarrow> UpdatePPS x h = Some (h', e) \<Longrightarrow> hvcc_built h'"

lemma built_ok: "hvcc_built h \<Longrightarrow> hvcc_ok h"
proof (induction rule: hvcc_built.induct)
  case built_new
  show ?case by (rule hvcc_ok_New)
next
  case (built_vps h x h' e)
  then show ?case using UpdateVPS_stores [of h x] by auto
next
  case (built_sps h x h' e)
  then show ?case using UpdateSPS_stores [of h x] by auto
next
  case (built_pps h x h' e)
  then show ?case using UpdatePPS_stores [of h x] by auto
qed

lemma built_steps:
  assumes "hvcc_built h" "length x < 2 ^ 29"
  shows "hvcc_built (fst (the (UpdateVPS x h)))" "hvcc_built (fst (the (UpdateSPS x h)))" "hvcc_built (fst (the (UpdatePPS x h)))"
proof -
  note ok = built_ok [OF assms(1)]
  obtain h' e where "UpdateVPS x h = Some (h', e)" using UpdateVPS_stores [OF ok, of x] by blast
  then show "hvcc_built (fst (the (UpdateVPS x h)))" using built_vps [OF assms(1)] by simp
  obtain h' e where "UpdateSPS x h = Some (h', e)" using UpdateSPS_stores [OF ok, of x] assms(2) by blast
  then show "hvcc_built (fst (the (UpdateSPS x h)))" using built_sps [OF assms(1)] by simp
  obtain h' e where "UpdatePPS x h = Some (h', e)" using UpdatePPS_stores [OF ok, of x] by blast
  then show "hvcc_built (fst (the (UpdatePPS x h)))" using built_pps [OF assms(1)] by simp
qed

text \<open>A kind of set is stored exactly when its array is there.\<close>

lemma stored_empty:
  assumes "\<forall>a\<in>set as. ua_NalUnits a \<noteq> []" and "\<And>a u. a \<in> set as \<Longrightarrow> ua_NAL_unit_type a = t \<Longrightarrow> u \<in> set (ua_NalUnits a) \<Longrightarrow>
      \<exists>i. f (nu_Nalu u) = Some i"
  shows "stored t f as = Map.empty \<longleftrightarrow> t \<notin> ua_NAL_unit_type ` set as"
proof
  assume "t \<notin> ua_NAL_unit_type ` set as"
  then have "find (\<lambda>a. ua_NAL_unit_type a = t) as = None" by (auto simp: find_None_iff)
  then show "stored t f as = Map.empty" by (simp add: stored_def fun_eq_iff)
next
  assume e: "stored t f as = Map.empty"
  show "t \<notin> ua_NAL_unit_type ` set as"
  proof
    assume "t \<in> ua_NAL_unit_type ` set as"
    then obtain a where a: "find (\<lambda>a. ua_NAL_unit_type a = t) as = Some a"
      by (cases "find (\<lambda>a. ua_NAL_unit_type a = t) as") (auto simp: find_None_iff)
    then have "a \<in> set as" "ua_NAL_unit_type a = t" by (auto simp: find_Some_iff)
    then obtain u us where u: "ua_NalUnits a = u # us" using assms(1) by (cases "ua_NalUnits a") auto
    then obtain i where "f (nu_Nalu u) = Some i" using assms(2) [of a u] \<open>a \<in> set as\<close> \<open>ua_NAL_unit_type a = t\<close> by auto
    then have "stored t f as i = Some (nu_Nalu u)" using a u by (simp add: stored_def)
    then show False using e by simp
  qed
qed

lemma sets_empty:
  assumes "hvcc_ok h"
  shows "vps_sets h = Map.empty \<longleftrightarrow> 32 \<notin> ua_NAL_unit_type ` set (hv_Arrays h)"
    and "sps_sets h = Map.empty \<longleftrightarrow> 33 \<notin> ua_NAL_unit_type ` set (hv_Arrays h)"
    and "pps_sets h = Map.empty \<longleftrightarrow> 34 \<notin> ua_NAL_unit_type ` set (hv_Arrays h)"
proof -
  have ne: "\<forall>a\<in>set (hv_Arrays h). ua_NalUnits a \<noteq> []" using assms by (auto simp: hvcc_ok_def array_ok_def)
  show "vps_sets h = Map.empty \<longleftrightarrow> 32 \<notin> ua_NAL_unit_type ` set (hv_Arrays h)"
    unfolding vps_sets_def by (rule stored_empty [OF ne]) (rule vps_law.getId_known, rule hvcc_ok_unit(1) [OF assms])
  show "sps_sets h = Map.empty \<longleftrightarrow> 33 \<notin> ua_NAL_unit_type ` set (hv_Arrays h)"
    unfolding sps_sets_def by (rule stored_empty [OF ne]) (rule sps_law.getId_known, rule hvcc_ok_unit(2) [OF assms])
  show "pps_sets h = Map.empty \<longleftrightarrow> 34 \<notin> ua_NAL_unit_type ` set (hv_Arrays h)"
    unfolding pps_sets_def by (rule stored_empty [OF ne]) (rule pps_law.getId_known, rule hvcc_ok_unit(3) [OF assms])
qed

text \<open>There are three arrays exactly when every kind is stored.\<close>

lemma three_arrays:
  assumes "hvcc_ok h"
  shows "length (hv_Arrays h) \<le> 3"
    and "3 \<le> length (hv_Arrays h) \<longleftrightarrow> vps_sets h \<noteq> Map.empty \<and> sps_sets h \<noteq> Map.empty \<and> pps_sets h \<noteq> Map.empty"
proof -
  let ?T = "ua_NAL_unit_type ` set (hv_Arrays h)"
  have T: "?T \<subseteq> {32, 33, 34}" "distinct (map ua_NAL_unit_type (hv_Arrays h))" using assms by (simp_all add: hvcc_ok_def)
  have c: "card ?T = length (hv_Arrays h)" using distinct_card [OF T(2)] by simp
  have three: "card {32, 33, 34 :: byte} = 3" by simp
  show "length (hv_Arrays h) \<le> 3" using card_mono [OF _ T(1)] c by simp
  show "3 \<le> length (hv_Arrays h) \<longleftrightarrow> vps_sets h \<noteq> Map.empty \<and> sps_sets h \<noteq> Map.empty \<and> pps_sets h \<noteq> Map.empty"
    unfolding sets_empty [OF assms]
  proof
    assume "3 \<le> length (hv_Arrays h)"
    then have "?T = {32, 33, 34}" using card_seteq [OF _ T(1)] c three by simp
    then show "\<not> 32 \<notin> ?T \<and> \<not> 33 \<notin> ?T \<and> \<not> 34 \<notin> ?T" by simp
  next
    assume "\<not> 32 \<notin> ?T \<and> \<not> 33 \<notin> ?T \<and> \<not> 34 \<notin> ?T"
    then have "{32, 33, 34} \<subseteq> ?T" by simp
    then show "3 \<le> length (hv_Arrays h)" using card_mono [of ?T "{32, 33, 34}"] c three by simp
  qed
qed

lemma stored_written:
  "ua_NAL_unit_type ` set as \<subseteq> {32, 33, 34} \<Longrightarrow> stored t f (map array_written as) = stored t f as"
proof (induction as)
  case (Cons a as)
  have "ua_NAL_unit_type (array_written a) = ua_NAL_unit_type a" "ua_NalUnits (array_written a) = ua_NalUnits a"
    using Cons.prems by (auto simp: array_written_def)
  then show ?case using Cons by (simp add: stored_def fun_eq_iff)
qed simp

lemma ToNalus_ok:
  assumes "\<forall>a\<in>set as. \<forall>u\<in>set (ua_NalUnits a). unat (nu_NalUnitLength u) = length (nu_Nalu u)"
  shows "arrays_ToNalus as = Some (concat (map (\<lambda>u. [0, 0, 0, 1] @ nu_Nalu u) (concat (map ua_NalUnits as))))"
proof -
  have u: "units_ToNalus us = Some (concat (map (\<lambda>u. [0, 0, 0, 1] @ nu_Nalu u) us))"
    if "\<forall>u\<in>set us. unat (nu_NalUnitLength u) = length (nu_Nalu u)" for us
    using that by (induction us) (simp_all only: units_ToNalus.simps uint_nat, simp_all)
  show ?thesis using assms by (induction as) (simp_all add: u)
qed

lemma hvcc_read_back_sets:
  assumes "hvcc_ok h" "\<forall>a\<in>set (hv_Arrays h). glen (ua_NalUnits a) \<le> 65535 \<and> (\<forall>u\<in>set (ua_NalUnits a). glen (nu_Nalu u) \<le> 65535)"
    and "vps_sets h \<noteq> Map.empty" "sps_sets h \<noteq> Map.empty" "pps_sets h \<noteq> Map.empty"
  shows "\<exists>h' b g. hvcc_Encode h = Some (h', Inr b) \<and> hvcc_Decode q b = Some (g, None) \<and>
    vps_sets g = vps_sets h \<and> sps_sets g = sps_sets h \<and> pps_sets g = pps_sets h \<and>
    ToNalus g = Some (concat (map (\<lambda>u. [0, 0, 0, 1] @ nu_Nalu u) (concat (map ua_NalUnits (hv_Arrays h)))))"
proof -
  have len: "\<forall>a\<in>set (hv_Arrays h). \<forall>u\<in>set (ua_NalUnits a). unat (nu_NalUnitLength u) = length (nu_Nalu u)"
  proof (intro ballI)
    fix a u assume au: "a \<in> set (hv_Arrays h)" "u \<in> set (ua_NalUnits a)"
    then have "nu_NalUnitLength u = word_of_nat (length (nu_Nalu u))" using assms(1) by (auto simp: hvcc_ok_def array_ok_def)
    moreover have "length (nu_Nalu u) \<le> 65535" using assms(2) au by force
    ultimately show "unat (nu_NalUnitLength u) = length (nu_Nalu u)" by (simp add: unat_of_nat)
  qed
  have fit: "\<forall>a\<in>set (hv_Arrays h). units_fit a" using len assms(2) by (auto simp: units_fit_def)
  have n: "3 \<le> length (hv_Arrays h)" "length (hv_Arrays h) \<le> 255" using three_arrays [OF assms(1)] assms(3-5) by simp_all
  obtain h' b where b: "hvcc_Encode h = Some (h', Inr b)" "hvcc_Decode q b = Some (hvcc_written h, None)"
    using hvcc_round_trip [OF n fit] by blast
  have a: "hv_Arrays (hvcc_written h) = map array_written (hv_Arrays h)" by (simp add: hvcc_written_def)
  have units: "ua_NalUnits (array_written x) = ua_NalUnits x" for x by (simp add: array_written_def)
  have T: "ua_NAL_unit_type ` set (hv_Arrays h) \<subseteq> {32, 33, 34}" using assms(1) by (simp add: hvcc_ok_def)
  have "ToNalus (hvcc_written h) = Some (concat (map (\<lambda>u. [0, 0, 0, 1] @ nu_Nalu u) (concat (map ua_NalUnits (hv_Arrays h)))))"
    unfolding ToNalus_def a using len by (subst ToNalus_ok) (simp_all add: units comp_def)
  moreover have "vps_sets (hvcc_written h) = vps_sets h" "sps_sets (hvcc_written h) = sps_sets h" "pps_sets (hvcc_written h) = pps_sets h"
    unfolding vps_sets_def sps_sets_def pps_sets_def a by (rule stored_written [OF T])+
  ultimately show ?thesis using b by blast
qed

section \<open>Properties\<close>

text \<open>
  C37: whatever bytes the \<open>Update\<close> methods were called with, of any length, the record is well formed:
  one array for each kind at most, none empty, every stored set decodes, the ids in an array differ,
  and the length field of a unit is its length in 16 bits (its length when the unit has at most
  65535 bytes).
\<close>

theorem hvcc_well_formed:
  assumes "hvcc_built h" shows "hvcc_ok h"
  using assms by (rule built_ok)

definition demo_vps :: bytes where
  "demo_vps = [0x40, 1, 0xC, 1, 0xFF, 0xFF, 1, 0x60, 0, 0, 3, 0, 0x90, 0, 0, 3, 0, 0, 3, 0, 0x5D, 0x97, 2, 0x40]"

definition demo_sps :: bytes where
  "demo_sps = [0x42, 1, 1, 1, 0x60, 0, 0, 3, 0, 0x90, 0, 0, 3, 0, 0, 3, 0, 0x5D, 0xA0, 0xA, 8, 0xF, 0x16, 0x59, 0x79, 0x24, 0xD1, 0x2E, 0x48]"

definition demo_pps :: bytes where "demo_pps = [0x44, 1, 0xC0, 0x71, 0x80, 0x80]"

definition demo_record :: HEVCRecordConfiguration where
  "demo_record = fst (the (UpdatePPS demo_pps (fst (the (UpdateSPS ([0, 0, 0, 1] @ demo_sps) (fst (the (UpdateVPS demo_vps NewHEVCRecordConfiguration))))))))"

lemma demo_built: "hvcc_built demo_record"
  unfolding demo_record_def by (intro built_steps built_new) (simp_all add: demo_vps_def demo_sps_def demo_pps_def)

theorem hvcc_well_formed_witness: "hvcc_ok demo_record \<and> length (hv_Arrays demo_record) = 3"
  using hvcc_well_formed [OF demo_built] by (intro conjI) (assumption, code_simp)

text \<open>
  C35: each \<open>Update\<close> method returns, on every input below 512 MB.  When the set cannot be decoded it returns an error and leaves the
  record as it is; otherwise the set is stored under its id, in place of the one with the same id,
  and nothing else that is stored changes: the record refines three maps from ids to sets.
\<close>

theorem hvcc_updates_refine_maps:
  assumes "hvcc_built h" and "length x < 2 ^ 29"
  shows "(\<exists>h' e. UpdateVPS x h = Some (h', e) \<and> (case vps_in x of None \<Rightarrow> e \<noteq> None \<and> h' = h
      | Some (i, b) \<Rightarrow> e = None \<and> vps_sets h' = (vps_sets h)(i \<mapsto> b) \<and> sps_sets h' = sps_sets h \<and> pps_sets h' = pps_sets h)) \<and>
    (\<exists>h' e. UpdateSPS x h = Some (h', e) \<and> (case sps_in x of None \<Rightarrow> e \<noteq> None \<and> h' = h
      | Some (i, b) \<Rightarrow> e = None \<and> sps_sets h' = (sps_sets h)(i \<mapsto> b) \<and> vps_sets h' = vps_sets h \<and> pps_sets h' = pps_sets h)) \<and>
    (\<exists>h' e. UpdatePPS x h = Some (h', e) \<and> (case pps_in x of None \<Rightarrow> e \<noteq> None \<and> h' = h
      | Some (i, b) \<Rightarrow> e = None \<and> pps_sets h' = (pps_sets h)(i \<mapsto> b) \<and> vps_sets h' = vps_sets h \<and> sps_sets h' = sps_sets h))"
  using UpdateVPS_stores [OF built_ok [OF assms(1)], of x] UpdateSPS_stores [OF built_ok [OF assms(1)], of x]
    UpdatePPS_stores [OF built_ok [OF assms(1)], of x] assms(2) by blast

theorem hvcc_updates_refine_maps_witness:
  "\<exists>h' e. UpdateSPS demo_sps demo_record = Some (h', e) \<and> e = None \<and> sps_sets h' = (sps_sets demo_record)(0 \<mapsto> demo_sps) \<and>
     vps_sets h' = vps_sets demo_record \<and> pps_sets h' = pps_sets demo_record"
proof -
  have "sps_in demo_sps = Some (0, demo_sps)" by code_simp
  then show ?thesis using hvcc_updates_refine_maps [OF demo_built, of demo_sps] by (simp add: demo_sps_def)
qed

text \<open>
  C36: a record built by updates is written exactly when it has sets of all three kinds; read back, by
  any record, it holds the same sets, and \<open>ToNalus\<close> gives them in order behind start codes.
\<close>

theorem hvcc_read_back:
  assumes "hvcc_built h"
    and "\<forall>a\<in>set (hv_Arrays h). glen (ua_NalUnits a) \<le> 65535 \<and> (\<forall>u\<in>set (ua_NalUnits a). glen (nu_Nalu u) \<le> 65535)"
  shows "if vps_sets h = Map.empty \<or> sps_sets h = Map.empty \<or> pps_sets h = Map.empty
    then \<exists>e. hvcc_Encode h = Some (h, Inl e)
    else \<exists>h' b g. hvcc_Encode h = Some (h', Inr b) \<and> hvcc_Decode q b = Some (g, None) \<and>
      vps_sets g = vps_sets h \<and> sps_sets g = sps_sets h \<and> pps_sets g = pps_sets h \<and>
      ToNalus g = Some (concat (map (\<lambda>u. [0, 0, 0, 1] @ nu_Nalu u) (concat (map ua_NalUnits (hv_Arrays h)))))"
  using hvcc_read_back_sets [OF built_ok [OF assms(1)] assms(2), of q] three_arrays(2) [OF built_ok [OF assms(1)]]
  by (auto simp: hvcc_Encode_def)

theorem hvcc_read_back_witness:
  "\<exists>h' b g. hvcc_Encode demo_record = Some (h', Inr b) \<and> hvcc_Decode NewHEVCRecordConfiguration b = Some (g, None) \<and>
     ToNalus g = Some ([0, 0, 0, 1] @ demo_vps @ [0, 0, 0, 1] @ demo_sps @ [0, 0, 0, 1] @ demo_pps)"
proof -
  have 1: "\<forall>a\<in>set (hv_Arrays demo_record). glen (ua_NalUnits a) \<le> 65535 \<and> (\<forall>u\<in>set (ua_NalUnits a). glen (nu_Nalu u) \<le> 65535)"
    by code_simp
  have "vps_sets demo_record 0 = Some demo_vps" "sps_sets demo_record 0 = Some demo_sps" "pps_sets demo_record 0 = Some demo_pps"
    by code_simp+
  then have ne: "\<not> (vps_sets demo_record = Map.empty \<or> sps_sets demo_record = Map.empty \<or> pps_sets demo_record = Map.empty)" by auto
  have "concat (map (\<lambda>u. [0, 0, 0, 1] @ nu_Nalu u) (concat (map ua_NalUnits (hv_Arrays demo_record)))) =
      [0, 0, 0, 1] @ demo_vps @ [0, 0, 0, 1] @ demo_sps @ [0, 0, 0, 1] @ demo_pps" by code_simp
  then show ?thesis using hvcc_read_back [OF demo_built 1, of NewHEVCRecordConfiguration] unfolding if_not_P [OF ne] by metis
qed

text \<open>
  C38: on every input below 512 MB the decoders of H.264 and H.265 parameter sets and records return:
  none of them panics and every loop in them ends.  The loop that predicts a reference picture set
  ends in the same sense: its bound is a 64-bit number of the stream, so a hostile set can make it
  run up to \<open>2 ^ 63\<close> rounds before it does.
\<close>

theorem parameter_set_decoders_return:
  assumes "length b < 2 ^ 29"
  shows "(\<exists>v e. VPS_Decode b = Some (v, e)) \<and> (\<exists>v e. H265RawSPS_Decode b = Some (v, e)) \<and> (\<exists>v e. H265RawPPS_Decode b = Some (v, e)) \<and>
    (\<exists>r. GetH265Resolution b = Some r) \<and> (\<exists>i. GetVPSIdWithStartCode b = Some i) \<and> (\<exists>i. GetH265SPSIdWithStartCode b = Some i) \<and>
    (\<exists>i. GetH265PPSIdWithStartCode b = Some i) \<and>
    (\<exists>v e. hvcc_Decode q b = Some (v, e)) \<and> (\<exists>r. GetH264Resolution b = Some r) \<and> (\<exists>r. CovertExtradata b = Some r) \<and> (\<exists>i. GetSPSIdWithStartCode b = Some i) \<and>
    (\<exists>i. GetPPSIdWithStartCode b = Some i) \<and> (\<exists>r. ConvertAnnexBToAVCC b = Some r) \<and> (\<exists>r. CreateH264AVCCExtradata [b] [b] = Some r)"
proof -
  obtain off where off: "naluOffset b = Some off" "off \<le> glen b" using naluOffset_range by blast
  have s: "slice_from b off = Some (drop (nat off) b)" if "\<not> off < 0" using that off by (simp add: slice_from_def)
  have l: "length (drop (nat off) b) < 2 ^ 29" using assms by simp
  obtain v e where r: "H265RawSPS_Decode (drop (nat off) b) = Some (v, e)" using H265RawSPS_returns [OF l] by blast
  have id: "\<exists>i. GetVPSId (drop (nat off) b) = Some i" "\<exists>i. GetH265SPSId (drop (nat off) b) = Some i" "\<exists>i. GetH265PPSId (drop (nat off) b) = Some i"
    using GetIds_return [OF l] by blast+
  have "\<exists>r. GetH265Resolution b = Some r"
    using off(1) s r by (cases "off < 0"; cases e) (auto simp: GetH265Resolution_def)
  then show ?thesis using VPS_returns H265RawPPS_returns H265RawSPS_returns [OF assms] hvcc_Decode_total [of b q] assms off(1) s id h264_codec_total [of b "[b]" "[b]"]
    by (auto simp: GetVPSIdWithStartCode_def GetH265SPSIdWithStartCode_def GetH265PPSIdWithStartCode_def)
qed

theorem parameter_set_decoders_return_witness:
  "(\<exists>v. H265RawSPS_Decode demo_sps = Some (v, None)) \<and> GetH265Resolution demo_sps = Some (Inr (320, 240)) \<and>
   (\<exists>i. GetH265PPSIdWithStartCode demo_sps = Some i) \<and> (\<exists>v e. hvcc_Decode demo_record demo_sps = Some (v, e))"
proof -
  have "GetH265Resolution demo_sps = Some (Inr (320, 240))" by code_simp
  moreover have "(\<exists>i. GetH265PPSIdWithStartCode demo_sps = Some i) \<and> (\<exists>v e. hvcc_Decode demo_record demo_sps = Some (v, e))"
    using parameter_set_decoders_return [of demo_sps demo_record] by (simp add: demo_sps_def)
  moreover have "map_option snd (H265RawSPS_Decode demo_sps) = Some None" by code_simp
  ultimately show ?thesis by auto
qed

end
