(* ===== verification/Opus.thy ===== *)
theory Opus
  imports BitStream
begin

text \<open>
  Opus, \<open>go-codec/opus.go\<close>: the layout of a packet, its duration and the identification header
  that containers carry.

  A packet is walked with a position \<open>hdr\<close>, as in the code; where the code gives up on a cut packet
  it returns what it has with a frame count of zero.  \<open>ParseExtranData\<close> is called on a fresh
  context, so it is a function of the header.

  The lemmas: no packet and no header makes the code panic; the frames of a packet of any kind are
  found; the durations are those of RFC 6716 but for one table entry.
\<close>

section \<open>Packets\<close>

definition SLKOpusSampleSize :: "int list" where "SLKOpusSampleSize = [480, 960, 1920, 2880]"
definition HybridOpusSampleSize :: "int list" where "HybridOpusSampleSize = [480, 960, 0, 0]"
definition CELTOpusSampleSize :: "int list" where "CELTOpusSampleSize = [120, 210, 480, 960]"

definition OpusPacketDuration :: "bytes \<Rightarrow> u64 option" where
  "OpusPacketDuration packet =
     (if packet = [] then Some 0
      else do {
        toc \<leftarrow> idx packet 0;
        let config = uint (drop_bit 3 toc);
        let code = toc AND 0x03;
        if code = 3 \<and> glen packet < 2 then Some 0
        else do {
          frameCount \<leftarrow> (if code = 0 then Some 1 else if code = 1 \<or> code = 2 then Some 2
            else do { m \<leftarrow> idx packet 1; Some (uint (m AND 0x3F)) });
          if 0 \<le> config \<and> config < 12 then do { n \<leftarrow> idx SLKOpusSampleSize (config mod 4); Some (word_of_int (frameCount * n)) }
          else if 12 \<le> config \<and> config < 16 then do { n \<leftarrow> idx HybridOpusSampleSize (config mod 2); Some (word_of_int (frameCount * n)) }
          else if 16 \<le> config \<and> config < 32 then do { n \<leftarrow> idx CELTOpusSampleSize (config mod 4); Some (word_of_int (frameCount * n)) }
          else Some 0
        }
      })"

record OpusPacket =
  op_Code :: int
  op_Config :: int
  op_Stereo :: int
  op_Vbr :: int
  op_FrameCount :: int
  op_FrameLen :: "u16 list"
  op_Frame :: bytes
  op_Duration :: u64

definition zero_OpusPacket :: OpusPacket where
  "zero_OpusPacket = \<lparr>op_Code = 0, op_Config = 0, op_Stereo = 0, op_Vbr = 0, op_FrameCount = 0, op_FrameLen = [], op_Frame = [], op_Duration = 0\<rparr>"

text \<open>The length of a frame and how many bytes it takes, none if the packet is cut.\<close>

definition opusFrameLength :: "bytes \<Rightarrow> int \<Rightarrow> (int \<times> int) option" where
  "opusFrameLength packet p =
     (if p \<ge> glen packet then Some (0, 0)
      else do {
        n \<leftarrow> idx packet p;
        if uint n < 252 then Some (uint n, 1)
        else if p + 1 \<ge> glen packet then Some (0, 0)
        else do { m \<leftarrow> idx packet (p + 1); Some (uint n + uint m * 4, 2) }
      })"

text \<open>The loop over the padding length on what is left of the packet at \<open>hdr\<close>.\<close>

fun opus_padding :: "bytes \<Rightarrow> int \<Rightarrow> int \<Rightarrow> (int \<times> int) option" where
  "opus_padding [] hdr paddingLen = None"
| "opus_padding (b # bs) hdr paddingLen =
     (if b = 255 then opus_padding bs (hdr + 1) (paddingLen + 254) else Some (hdr + 1, paddingLen + uint b))"

text \<open>Where the padding length ends, and the length itself.\<close>

definition opus_pad :: "bytes \<Rightarrow> byte \<Rightarrow> (int \<times> int) option" where
  "opus_pad packet m = (if drop_bit 6 m AND 0x01 = 1 then opus_padding (drop 2 packet) 2 0 else Some (2, 0))"

text \<open>The loop over the frame lengths but the last: the right side is what it found.\<close>

primrec opus_lengths :: "nat \<Rightarrow> bytes \<Rightarrow> int \<Rightarrow> int \<Rightarrow> u16 list \<Rightarrow> (unit, int \<times> int \<times> u16 list) result" where
  "opus_lengths 0 packet hdr n lens = ok (hdr, n, lens)"
| "opus_lengths (Suc k) packet hdr n lens = do {
     (N1, used) \<leftarrow> opusFrameLength packet hdr;
     if used = 0 then err () else opus_lengths k packet (hdr + used) (n + N1) (lens @ [word_of_int N1])
   }"

definition opus_code3 :: "bytes \<Rightarrow> OpusPacket \<Rightarrow> (unit, OpusPacket) result" where
  "opus_code3 packet pkt = do {
     m \<leftarrow> idx packet 1;
     let pkt = pkt\<lparr>op_Vbr := uint (drop_bit 7 m), op_FrameCount := uint (m AND 0x3F)\<rparr>;
     if op_FrameCount pkt = 0 then err ()
     else (case opus_pad packet m of
         None \<Rightarrow> err ()
       | Some (hdr, paddingLen) \<Rightarrow>
           if op_Vbr pkt = 0 then
             (let remain = glen packet - hdr - paddingLen in
              if remain < 0 then err ()
              else do {
                let frameLen = remain div op_FrameCount pkt;
                frame \<leftarrow> slice_of packet hdr (hdr + frameLen * op_FrameCount pkt);
                ok (pkt\<lparr>op_FrameLen := [word_of_int frameLen], op_Frame := frame\<rparr>)
              })
           else rbind (opus_lengths (nat (op_FrameCount pkt - 1)) packet hdr 0 []) (\<lambda>(hdr, n, lens).
             let lastFrameLen = glen packet - hdr - paddingLen - n in
             if lastFrameLen < 0 then err ()
             else do {
               frame \<leftarrow> slice_of packet hdr (hdr + n + lastFrameLen);
               ok (pkt\<lparr>op_FrameLen := lens @ [word_of_int lastFrameLen], op_Frame := frame\<rparr>)
             }))
   }"

text \<open>What is returned of a cut packet: the fields of the first byte and, of kind 3, the flag.\<close>

definition cut_packet :: "bytes \<Rightarrow> OpusPacket \<Rightarrow> OpusPacket" where
  "cut_packet packet pkt = (if op_Code pkt = 3 then pkt\<lparr>op_Vbr := uint (drop_bit 7 (packet ! 1))\<rparr> else pkt)"

definition DecodeOpusPacket :: "bytes \<Rightarrow> OpusPacket option" where
  "DecodeOpusPacket packet =
     (if packet = [] then Some zero_OpusPacket
      else do {
        toc \<leftarrow> idx packet 0;
        let pkt = zero_OpusPacket\<lparr>op_Code := uint (toc AND 0x03), op_Stereo := uint (drop_bit 2 toc AND 0x01), op_Config := uint (drop_bit 3 toc)\<rparr>;
        if op_Code pkt = 3 \<and> glen packet < 2 then Some pkt
        else do {
          r \<leftarrow> (if op_Code pkt = 0 then do {
                frame \<leftarrow> slice_from packet 1;
                ok (pkt\<lparr>op_FrameCount := 1, op_FrameLen := [word_of_int (glen packet - 1)], op_Frame := frame\<rparr>)
              } else if op_Code pkt = 1 then do {
                frame \<leftarrow> slice_from packet 1;
                ok (pkt\<lparr>op_FrameCount := 2, op_FrameLen := [word_of_int (glen packet - 1) div 2], op_Frame := frame\<rparr>)
              } else if op_Code pkt = 2 then do {
                (N1, used) \<leftarrow> opusFrameLength packet 1;
                let hdr = 1 + used;
                if used = 0 \<or> hdr + N1 > glen packet then err ()
                else do {
                  frame \<leftarrow> slice_from packet hdr;
                  ok (pkt\<lparr>op_FrameCount := 2, op_FrameLen := [word_of_int N1, word_of_int (glen packet - hdr - N1)], op_Frame := frame\<rparr>)
                }
              } else opus_code3 packet pkt);
          (case r of
             Inl _ \<Rightarrow> Some (cut_packet packet pkt)
           | Inr pkt \<Rightarrow> do { d \<leftarrow> OpusPacketDuration packet; Some (pkt\<lparr>op_Duration := d\<rparr>) })
        }
      })"

section \<open>The identification header\<close>

definition vorbisChanLayoutOffset :: "byte list list" where
  "vorbisChanLayoutOffset = [[0, 0, 0, 0, 0, 0, 0, 0], [0, 1, 0, 0, 0, 0, 0, 0], [0, 2, 1, 0, 0, 0, 0, 0], [0, 1, 2, 3, 0, 0, 0, 0],
     [0, 2, 1, 3, 4, 0, 0, 0], [0, 2, 1, 5, 3, 4, 0, 0], [0, 2, 1, 6, 5, 3, 4, 0], [0, 2, 1, 7, 5, 6, 3, 4]]"

definition defalutOrder :: "int \<Rightarrow> int \<Rightarrow> int option" where "defalutOrder channels i = Some i"

definition vorbisOrder :: "int \<Rightarrow> int \<Rightarrow> int option" where
  "vorbisOrder channels i = do { row \<leftarrow> idx vorbisChanLayoutOffset (channels - 1); c \<leftarrow> idx row i; Some (uint c) }"

record ChannelMap =
  cm_StreamIdx :: int
  cm_ChannelIdx :: int
  cm_Silence :: bool
  cm_Copy :: bool
  cm_CopyFrom :: int

record OpusContext =
  oc_Preskip :: int
  oc_SampleRate :: int
  oc_ChannelCount :: int
  oc_StreamCount :: int
  oc_StereoStreamCount :: int
  oc_OutputGain :: u16
  oc_MapType :: byte
  oc_Channel :: bytes
  oc_ChannelMaps :: "ChannelMap list"

fun get_le16 :: "bytes \<Rightarrow> u16 option" where
  "get_le16 (a # b # r) = Some (push_bit 8 (ucast b) OR ucast a)"
| "get_le16 xs = None"

text \<open>The first channel below \<open>i\<close> of the same index, from \<open>j\<close> on, with \<open>n\<close> to look at.\<close>

primrec copy_from :: "(int \<Rightarrow> int option) \<Rightarrow> bytes \<Rightarrow> byte \<Rightarrow> int \<Rightarrow> nat \<Rightarrow> int option option" where
  "copy_from order channel index j 0 = Some None"
| "copy_from order channel index j (Suc n) = do {
     k \<leftarrow> order j;
     c \<leftarrow> idx channel k;
     if c = index then Some (Some j) else copy_from order channel index (j + 1) n
   }"

definition channel_map :: "(int \<Rightarrow> int option) \<Rightarrow> bytes \<Rightarrow> int \<Rightarrow> int \<Rightarrow> nat \<Rightarrow> (codec_error, ChannelMap) result" where
  "channel_map order channel streams stereo i = do {
     k \<leftarrow> order (int i);
     index \<leftarrow> idx channel k;
     if index = 255 then ok \<lparr>cm_StreamIdx = 0, cm_ChannelIdx = 0, cm_Silence = True, cm_Copy = False, cm_CopyFrom = 0\<rparr>
     else if uint index \<ge> stereo + streams then err (ErrMsg ''index must < (streamcount + stereo streamcount)'')
     else do {
       from \<leftarrow> copy_from order channel index 0 i;
       let (s, c) = (if uint index < 2 * stereo then (uint index div 2, if index AND 1 = 0 then 0 else 1) else (uint index - stereo, 0));
       ok \<lparr>cm_StreamIdx = s, cm_ChannelIdx = c, cm_Silence = False, cm_Copy = from \<noteq> None, cm_CopyFrom = (case from of None \<Rightarrow> 0 | Some j \<Rightarrow> j)\<rparr>
     }
   }"

fun channel_maps :: "(nat \<Rightarrow> (codec_error, ChannelMap) result) \<Rightarrow> nat list \<Rightarrow> (codec_error, ChannelMap list) result" where
  "channel_maps f [] = ok []"
| "channel_maps f (i # is) = rbind (f i) (\<lambda>m. rbind (channel_maps f is) (\<lambda>ms. ok (m # ms)))"

definition OpusHead :: bytes where "OpusHead = map of_char ''OpusHead''"

text \<open>The channel table with its order, the stream count and the count of stereo streams.\<close>

definition opus_mapping :: "bytes \<Rightarrow> byte \<Rightarrow> int \<Rightarrow> (codec_error, bytes \<times> (int \<Rightarrow> int option) \<times> int \<times> int) result" where
  "opus_mapping extraData mapType channels =
     (if mapType = 0 then
        (if channels < 1 \<or> channels > 2 then err (ErrMsg ''channel mapping family 0 only supports 1 or 2 channels'')
         else ok ([0, 1], defalutOrder channels, 1, channels - 1))
      else if mapType = 1 \<or> mapType = 2 \<or> mapType = 255 then
        (if glen extraData < 21 + channels then err (ErrMsg ''opus extradata too short for channel mapping table'')
         else do {
           streams \<leftarrow> idx extraData 19;
           stereo \<leftarrow> idx extraData 20;
           channel \<leftarrow> slice_of extraData 21 (21 + channels);
           if mapType = 1 then
             (if channels < 1 \<or> channels > 8 then err (ErrMsg ''channel mapping family 1 only supports 1..8 channels'')
              else ok (channel, vorbisOrder channels, uint streams, uint stereo))
           else ok (channel, defalutOrder channels, uint streams, uint stereo)
         })
      else err (ErrMsg ''unsupport map type''))"

definition ParseExtranData :: "bytes \<Rightarrow> (codec_error, OpusContext) result" where
  "ParseExtranData extraData =
     (if glen extraData < 19 then err (ErrMsg ''opus extradata must be at least 19 bytes'')
      else do {
        magic \<leftarrow> slice_of extraData 0 8;
        if magic \<noteq> OpusHead then err (ErrMsg ''magic signature must equal OpusHead'')
        else do {
          channels \<leftarrow> idx extraData 9;
          preskip \<leftarrow> Option.bind (slice_from extraData 10) get_le16;
          rate \<leftarrow> Option.bind (slice_from extraData 12) get_le32;
          gain \<leftarrow> Option.bind (slice_from extraData 16) get_le16;
          mapType \<leftarrow> idx extraData 18;
          rbind (opus_mapping extraData mapType (uint channels)) (\<lambda>(channel, order, streams, stereo).
          rbind (channel_maps (channel_map order channel streams stereo) [0..<unat channels]) (\<lambda>maps.
          ok \<lparr>oc_Preskip = uint preskip, oc_SampleRate = uint rate, oc_ChannelCount = uint channels, oc_StreamCount = streams,
            oc_StereoStreamCount = stereo, oc_OutputGain = gain, oc_MapType = mapType, oc_Channel = channel, oc_ChannelMaps = maps\<rparr>))
        }
      })"

definition WriteOpusExtraData :: "OpusContext \<Rightarrow> bytes option" where
  "WriteOpusExtraData ctx = do {
     extraData \<leftarrow> make_bytes 19;
     extraData \<leftarrow> copy_at extraData 0 OpusHead;
     extraData \<leftarrow> upd extraData 8 0x01;
     extraData \<leftarrow> upd extraData 9 (word_of_int (oc_ChannelCount ctx));
     extraData \<leftarrow> put_at extraData 10 (le16 (word_of_int (oc_Preskip ctx)));
     put_at extraData 12 (le32 (word_of_int (oc_SampleRate ctx)))
   }"

definition WriteDefaultOpusExtraData :: bytes where
  "WriteDefaultOpusExtraData = OpusHead @ [1] @ replicate 21 0"

section \<open>Nothing panics\<close>

lemma opusFrameLength_total:
  assumes "0 \<le> p"
  shows "\<exists>n used. opusFrameLength packet p = Some (n, used) \<and> 0 \<le> n \<and> 0 \<le> used \<and> (used \<noteq> 0 \<longrightarrow> p + used \<le> glen packet)"
  using assms by (simp add: opusFrameLength_def idx_def)

lemma opus_padding_bounds:
  "opus_padding bs hdr p = Some (h, q) \<Longrightarrow> hdr < h \<and> h \<le> hdr + glen bs \<and> p \<le> q"
  by (induction bs hdr p rule: opus_padding.induct) (auto split: if_splits)

lemma opus_lengths_total:
  assumes "0 \<le> hdr" and "hdr \<le> glen packet" and "0 \<le> n"
  shows "\<exists>r. opus_lengths k packet hdr n lens = Some r \<and>
    (\<forall>h m l. r = Inr (h, m, l) \<longrightarrow> 0 \<le> h \<and> h \<le> glen packet \<and> 0 \<le> m)"
  using assms
proof (induction k arbitrary: hdr n lens)
  case (Suc k)
  obtain N used where "opusFrameLength packet hdr = Some (N, used)" "0 \<le> N" "0 \<le> used" "used \<noteq> 0 \<longrightarrow> hdr + used \<le> glen packet"
    using opusFrameLength_total [OF Suc.prems(1)] by blast
  then show ?case using Suc.IH [of "hdr + used" "n + N" "lens @ [word_of_int N]"] Suc.prems by auto
qed simp

lemma opus_code3_total:
  assumes "2 \<le> length packet" shows "\<exists>r. opus_code3 packet pkt = Some r"
proof -
  obtain m where m: "idx packet 1 = Some m" using assms by (auto simp: idx_def)
  have vbr: "\<exists>r. rbind (opus_lengths k packet hdr 0 []) (\<lambda>(hdr, n, lens).
       let lastFrameLen = glen packet - hdr - paddingLen - n in
       if lastFrameLen < 0 then err ()
       else do {
         frame \<leftarrow> slice_of packet hdr (hdr + n + lastFrameLen);
         ok (pkt\<lparr>op_FrameLen := lens @ [word_of_int lastFrameLen], op_Frame := frame\<rparr>)
       }) = Some r" if "0 \<le> hdr" "hdr \<le> glen packet" "0 \<le> paddingLen" for k hdr paddingLen and pkt :: OpusPacket
    using opus_lengths_total [OF that(1,2), of 0 k "[]"] that(3)
    by (intro rbind_total) (auto simp: Let_def slice_of_def)
  have cbr: "0 \<le> r \<Longrightarrow> 0 < c \<Longrightarrow> 0 \<le> r div c * c \<and> r div c * c \<le> r" for r c :: int
  proof -
    assume "0 \<le> r" "0 < c"
    then have "0 \<le> r mod c" "0 \<le> r div c" by (simp_all add: pos_imp_zdiv_nonneg_iff)
    moreover have "r div c * c + r mod c = r" by (rule div_mult_mod_eq)
    ultimately show ?thesis using \<open>0 < c\<close> by (intro conjI mult_nonneg_nonneg) linarith+
  qed
  show ?thesis
  proof (cases "m AND 0x3F = 0")
    case False
    then have c: "0 < uint (m AND 0x3F)" by (metis order_le_less uint_0_iff uint_ge_0)
    show ?thesis
    proof (cases "opus_pad packet m")
      case None
      then show ?thesis by (simp add: opus_code3_def m Let_def)
    next
      case (Some z)
      then obtain hdr q where e: "opus_pad packet m = Some (hdr, q)" by (cases z) simp
      have b: "0 \<le> hdr" "hdr \<le> glen packet" "0 \<le> q"
        using e opus_padding_bounds [of "drop 2 packet" 2 0 hdr q] assms by (auto simp: opus_pad_def split: if_splits)
      show ?thesis
      proof (cases "uint (drop_bit 7 m) = 0")
        case True
        show ?thesis
        proof (cases "glen packet - hdr - q < 0")
          case False
          let ?n = "(glen packet - hdr - q) div uint (m AND 0x3F) * uint (m AND 0x3F)"
          have "0 \<le> ?n \<and> ?n \<le> glen packet - hdr - q" using False by (intro cbr c) simp
          then have "0 \<le> ?n" "hdr + ?n \<le> glen packet" using b(3) by linarith+
          then show ?thesis using True b c \<open>m AND 0x3F \<noteq> 0\<close> by (simp add: opus_code3_def m e Let_def slice_of_def)
        qed (use True c \<open>m AND 0x3F \<noteq> 0\<close> in \<open>simp add: opus_code3_def m e Let_def\<close>)
      next
        case nz: False
        show ?thesis using vbr [OF b] c nz False by (simp add: opus_code3_def m e)
      qed
    qed
  qed (simp add: opus_code3_def m Let_def)
qed

lemma config_less: "uint (drop_bit 3 (toc :: byte)) < 32"
proof -
  have "uint toc < 2 ^ 8" using uint_bounded [of toc] by simp
  then show ?thesis by (simp add: drop_bit_eq_div uint_div)
qed

lemma code_cases: "(toc AND 3 :: byte) = 0 \<or> toc AND 3 = 1 \<or> toc AND 3 = 2 \<or> toc AND 3 = 3"
proof -
  have m: "toc AND 3 = take_bit 2 toc" by (simp add: take_bit_eq_mask mask_eq_exp_minus_1)
  have "unat (take_bit 2 toc) = unat toc mod 4" by (simp add: take_bit_eq_mod unat_mod)
  then have "unat (toc AND 3) < 4" by (simp add: m)
  then have "unat (toc AND 3) = unat (0 :: byte) \<or> unat (toc AND 3) = unat (1 :: byte) \<or>
      unat (toc AND 3) = unat (2 :: byte) \<or> unat (toc AND 3) = unat (3 :: byte)" by (simp del: unat_0_iff) linarith
  then show ?thesis by (simp only: word_unat_eq_iff)
qed

lemma OpusPacketDuration_total: "\<exists>d. OpusPacketDuration packet = Some d"
proof (cases packet)
  case (Cons toc r)
  have "uint (drop_bit 3 toc) < 32" by (rule config_less)
  moreover note code_cases [of toc]
  moreover have "0 \<le> uint (drop_bit 3 toc) mod 4" "uint (drop_bit 3 toc) mod 4 < 4" "0 \<le> uint (drop_bit 3 toc) mod 2"
    "uint (drop_bit 3 toc) mod 2 < 2" by simp_all
  ultimately show ?thesis using Cons
    by (cases r) (auto simp: OpusPacketDuration_def idx_def SLKOpusSampleSize_def HybridOpusSampleSize_def CELTOpusSampleSize_def Let_def)
qed (simp add: OpusPacketDuration_def)

lemma DecodeOpusPacket_total: "\<exists>p. DecodeOpusPacket packet = Some p"
proof (cases packet)
  case (Cons toc r)
  have 3: "\<exists>s. opus_code3 (toc # r) pkt = Some s" if "r \<noteq> []" for pkt using that by (intro opus_code3_total) (cases r, simp_all)
  obtain N used where 2: "opusFrameLength (toc # r) 1 = Some (N, used)" "0 \<le> N" "0 \<le> used" "used \<noteq> 0 \<longrightarrow> 1 + used \<le> glen (toc # r)"
    using opusFrameLength_total [of 1 "toc # r"] by auto
  obtain d where d: "OpusPacketDuration (toc # r) = Some d" using OpusPacketDuration_total by blast
  show ?thesis unfolding DecodeOpusPacket_def Cons
    using 2 code_cases [of toc] 3 [of "zero_OpusPacket\<lparr>op_Code := uint (toc AND 0x03), op_Stereo := uint (drop_bit 2 toc AND 0x01), op_Config := uint (drop_bit 3 toc)\<rparr>"]
    by (elim disjE) (auto simp: idx_def slice_from_def Let_def d split: sum.splits)
qed (simp add: DecodeOpusPacket_def)

section \<open>Packets of RFC 6716\<close>

text \<open>
  A packet built from its frames: one frame, two of one length, two of different lengths, or up to
  63 with a constant or a variable length and perhaps a padding (sections 3.1 and 3.2).
\<close>

datatype opus_layout = One | Pair | Two | Cbr "nat option" | Vbr "nat option"

definition toc_byte :: "nat \<Rightarrow> nat \<Rightarrow> nat \<Rightarrow> byte" where "toc_byte c s k = word_of_nat (8 * c + 4 * s + k)"

definition count_byte :: "bool \<Rightarrow> nat option \<Rightarrow> nat \<Rightarrow> byte" where
  "count_byte vbr pad n = word_of_nat ((if vbr then 128 else 0) + (if pad = None then 0 else 64) + n)"

definition len_code :: "nat \<Rightarrow> bytes" where
  "len_code n = (if n < 252 then [word_of_nat n] else [word_of_nat (252 + n mod 4), word_of_nat ((n - 252) div 4)])"

definition pad_code :: "nat option \<Rightarrow> bytes" where
  "pad_code pad = (case pad of None \<Rightarrow> [] | Some n \<Rightarrow> replicate (n div 254) 255 @ [word_of_nat (n mod 254)])"

definition pad_data :: "nat option \<Rightarrow> bytes" where
  "pad_data pad = (case pad of None \<Rightarrow> [] | Some n \<Rightarrow> replicate n 0)"

fun opus_packet :: "opus_layout \<Rightarrow> nat \<Rightarrow> nat \<Rightarrow> bytes list \<Rightarrow> bytes" where
  "opus_packet One c s fs = toc_byte c s 0 # concat fs"
| "opus_packet Pair c s fs = toc_byte c s 1 # concat fs"
| "opus_packet Two c s fs = toc_byte c s 2 # len_code (length (hd fs)) @ concat fs"
| "opus_packet (Cbr pad) c s fs = toc_byte c s 3 # count_byte False pad (length fs) # pad_code pad @ concat fs @ pad_data pad"
| "opus_packet (Vbr pad) c s fs = toc_byte c s 3 # count_byte True pad (length fs) # pad_code pad @
     concat (map (len_code \<circ> length) (butlast fs)) @ concat fs @ pad_data pad"

fun opus_fits :: "opus_layout \<Rightarrow> bytes list \<Rightarrow> bool" where
  "opus_fits One fs \<longleftrightarrow> length fs = 1"
| "opus_fits Pair fs \<longleftrightarrow> length fs = 2 \<and> length (fs ! 0) = length (fs ! 1)"
| "opus_fits Two fs \<longleftrightarrow> length fs = 2 \<and> length (fs ! 0) \<le> 1275"
| "opus_fits (Cbr pad) fs \<longleftrightarrow> 0 < length fs \<and> length fs < 64 \<and> list_all (\<lambda>f. length f = length (hd fs)) fs"
| "opus_fits (Vbr pad) fs \<longleftrightarrow> 0 < length fs \<and> length fs < 64 \<and> list_all (\<lambda>f. length f \<le> 1275) (butlast fs)"

text \<open>The frames of a decoded packet: \<open>FrameLen\<close> has one entry for frames of one length.\<close>

primrec cut_frames :: "nat list \<Rightarrow> bytes \<Rightarrow> bytes list" where
  "cut_frames [] b = []"
| "cut_frames (n # ns) b = take n b # cut_frames ns (drop n b)"

definition frames_of :: "OpusPacket \<Rightarrow> bytes list" where
  "frames_of p = cut_frames (case op_FrameLen p of [n] \<Rightarrow> replicate (nat (op_FrameCount p)) (unat n) | ns \<Rightarrow> map unat ns) (op_Frame p)"

text \<open>The samples of a frame at 48 kHz, from its duration in tenths of a millisecond (table 2).\<close>

definition frame_tenths :: "nat \<Rightarrow> nat" where
  "frame_tenths c = (if c < 12 then [100, 200, 400, 600] ! (c mod 4) else if c < 16 then [100, 200] ! (c mod 2) else [25, 50, 100, 200] ! (c mod 4))"

definition celt_5ms :: "nat \<Rightarrow> bool" where "celt_5ms c \<longleftrightarrow> 16 \<le> c \<and> c mod 4 = 1"

lemma unat_byte: "n < 256 \<Longrightarrow> unat (word_of_nat n :: byte) = n" by (simp add: unat_of_nat)

lemma toc_fields:
  assumes "c < 32" and "s < 2" and "k < 4"
  shows "uint (drop_bit 3 (toc_byte c s k)) = int c" "drop_bit 2 (toc_byte c s k) AND 1 = word_of_nat s" "toc_byte c s k AND 3 = word_of_nat k"
proof -
  have u: "unat (toc_byte c s k) = 8 * c + 4 * s + k" unfolding toc_byte_def using assms by (intro unat_byte) simp
  have "unat (drop_bit 3 (toc_byte c s k)) = c" using assms by (simp add: drop_bit_eq_div unat_div u)
  then show "uint (drop_bit 3 (toc_byte c s k)) = int c" by (simp only: uint_nat)
  have "(8 * c + 4 * s + k) div 4 = 2 * c + s" using assms by (intro div_nat_eqI) simp_all
  moreover have "8 * c + 4 * s + k = k + (2 * c + s) * 4" by simp
  then have "(8 * c + 4 * s + k) mod 4 = k" using assms(3) by (simp only: mod_mult_self1 mod_less)
  ultimately have d: "(8 * c + 4 * s + k) div 4 = 2 * c + s" "(8 * c + 4 * s + k) mod 4 = k" by simp_all
  have "drop_bit 2 (toc_byte c s k) AND 1 = take_bit 1 (drop_bit 2 (toc_byte c s k))" by (simp add: take_bit_eq_mask mask_eq_exp_minus_1)
  moreover have "unat (take_bit 1 (drop_bit 2 (toc_byte c s k))) = s" using assms by (simp add: take_bit_eq_mod drop_bit_eq_div unat_div unat_mod u d)
  ultimately show "drop_bit 2 (toc_byte c s k) AND 1 = word_of_nat s" using assms unat_byte [of s] by (metis unat_byte word_unat_eq_iff order.strict_trans numeral_less_iff semiring_norm(76,78))
  have "toc_byte c s k AND 3 = take_bit 2 (toc_byte c s k)" by (simp add: take_bit_eq_mask mask_eq_exp_minus_1)
  moreover have "unat (take_bit 2 (toc_byte c s k)) = k" using assms by (simp add: take_bit_eq_mod unat_mod u d)
  ultimately show "toc_byte c s k AND 3 = word_of_nat k" using assms unat_byte [of k] by (simp add: word_unat_eq_iff)
qed

lemma count_fields:
  assumes "0 < n" and "n < 64"
  shows "drop_bit 7 (count_byte vbr pad n) = of_bool vbr" "drop_bit 6 (count_byte vbr pad n) AND 1 = of_bool (pad \<noteq> None)"
    "uint (count_byte vbr pad n AND 0x3F) = int n"
proof -
  let ?m = "count_byte vbr pad n"
  have u: "unat ?m = (if vbr then 128 else 0) + (if pad = None then 0 else 64) + n" unfolding count_byte_def using assms by (intro unat_byte) simp
  have "(128 + n) div 128 = 1" "(192 + n) div 128 = 1" "(64 + n) div 128 = 0" "n div 128 = 0"
      "(128 + n) div 64 = 2" "(192 + n) div 64 = 3" "(64 + n) div 64 = 1" "n div 64 = 0"
      using assms by (intro div_nat_eqI; simp)+
  moreover have "(128 + n) mod 64 = n" "(192 + n) mod 64 = n" "(64 + n) mod 64 = n" using assms(2) by (simp_all add: le_mod_geq)
  note a = calculation this
  have "unat (drop_bit 7 ?m) = of_bool vbr" using assms by (simp add: drop_bit_eq_div unat_div u a)
  then show "drop_bit 7 ?m = of_bool vbr" by (simp add: word_unat_eq_iff)
  have "drop_bit 6 ?m AND 1 = take_bit 1 (drop_bit 6 ?m)" by (simp add: take_bit_eq_mask mask_eq_exp_minus_1)
  moreover have "unat (take_bit 1 (drop_bit 6 ?m)) = of_bool (pad \<noteq> None)" using assms by (simp add: take_bit_eq_mod drop_bit_eq_div unat_div unat_mod u a)
  ultimately show "drop_bit 6 ?m AND 1 = of_bool (pad \<noteq> None)" by (simp add: word_unat_eq_iff)
  have "?m AND 0x3F = take_bit 6 ?m" by (simp add: take_bit_eq_mask mask_eq_exp_minus_1)
  moreover have "unat (take_bit 6 ?m) = n" using assms by (simp add: take_bit_eq_mod unat_mod u a)
  ultimately show "uint (?m AND 0x3F) = int n" by (simp only: uint_nat)
qed

lemma opus_padding_code:
  "opus_padding (replicate k 255 @ word_of_nat r # rest) hdr p = Some (hdr + int k + 1, p + 254 * int k + int r)" if "r < 254"
proof (induction k arbitrary: hdr p)
  case 0
  have u: "unat (word_of_nat r :: byte) = r" using that by (intro unat_byte) simp
  then have "(word_of_nat r :: byte) \<noteq> 255" using that by (auto simp: word_unat_eq_iff)
  moreover have "uint (word_of_nat r :: byte) = int r" by (simp only: uint_nat u)
  ultimately show ?case by simp
qed simp

lemma opus_pad_built:
  assumes "0 < n" and "n < 64"
  shows "opus_pad (t # count_byte vbr pad n # pad_code pad @ r) (count_byte vbr pad n) = Some (2 + glen (pad_code pad), glen (pad_data pad))"
proof (cases pad)
  case (Some k)
  have "k = 254 * (k div 254) + k mod 254" by simp
  then have "int k = 254 * int (k div 254) + int (k mod 254)" by (metis of_nat_add of_nat_mult of_nat_numeral)
  then show ?thesis using Some opus_padding_code [of "k mod 254" "k div 254" r 2 0] count_fields(2) [OF assms]
    by (simp add: opus_pad_def pad_code_def pad_data_def)
qed (use count_fields(2) [OF assms] in \<open>simp add: opus_pad_def pad_code_def pad_data_def\<close>)

lemma opusFrameLength_code:
  assumes "n \<le> 1275"
  shows "opusFrameLength (pre @ len_code n @ r) (glen pre) = Some (int n, glen (len_code n))"
proof (cases "n < 252")
  case True
  then have "unat (word_of_nat n :: byte) = n" by (intro unat_byte) simp
  then have "uint (word_of_nat n :: byte) = int n" by (simp only: uint_nat)
  then show ?thesis using True by (simp add: opusFrameLength_def len_code_def idx_def)
next
  case False
  have "unat (word_of_nat (252 + n mod 4) :: byte) = 252 + n mod 4" "unat (word_of_nat ((n - 252) div 4) :: byte) = (n - 252) div 4"
    using assms by (intro unat_byte; simp; presburger)+
  then have "uint (word_of_nat (252 + n mod 4) :: byte) = int (252 + n mod 4)" "uint (word_of_nat ((n - 252) div 4) :: byte) = int ((n - 252) div 4)"
    by (simp_all only: uint_nat)
  moreover have "int (252 + n mod 4) + int ((n - 252) div 4) * 4 = int n" using False by presburger
  ultimately show ?thesis using False by (simp add: opusFrameLength_def len_code_def idx_def nth_append nat_add_distrib)
qed

lemma len_code_ne [simp]: "len_code n \<noteq> []" by (simp add: len_code_def)

lemma opus_lengths_codes:
  assumes "\<forall>n\<in>set ns. n \<le> 1275"
  shows "opus_lengths (length ns) (pre @ concat (map len_code ns) @ r) (glen pre) m ls =
    ok (glen pre + glen (concat (map len_code ns)), m + int (sum_list ns), ls @ map word_of_nat ns)"
  using assms
proof (induction ns arbitrary: pre m ls)
  case (Cons n ns)
  have "opusFrameLength (pre @ len_code n @ concat (map len_code ns) @ r) (glen pre) = Some (int n, glen (len_code n))"
    using Cons.prems by (intro opusFrameLength_code) simp
  then show ?case using Cons.IH [of "pre @ len_code n" "m + int n" "ls @ [word_of_nat n]"] Cons.prems by (simp add: add_ac)
qed simp

lemma cut_frames_concat: "cut_frames (map length fs) (concat fs @ r) = fs"
  by (induction fs) simp_all

definition frame_samples :: "nat \<Rightarrow> nat" where
  "frame_samples c = (if celt_5ms c then 210 else 48 * frame_tenths c div 10)"

lemma duration_table:
  assumes "c < 32"
  shows "(if int c < 12 then idx SLKOpusSampleSize (int c mod 4) else if int c < 16 then idx HybridOpusSampleSize (int c mod 2)
    else idx CELTOpusSampleSize (int c mod 4)) = Some (int (frame_samples c))"
proof -
  have z: "int c mod 4 = int (c mod 4)" "int c mod 2 = int (c mod 2)" by (simp_all add: zmod_int)
  have "c mod 4 = 0 \<or> c mod 4 = 1 \<or> c mod 4 = 2 \<or> c mod 4 = 3" "c mod 2 = 0 \<or> c mod 2 = 1" by auto
  then show ?thesis unfolding z
    by (elim disjE) (simp_all add: SLKOpusSampleSize_def HybridOpusSampleSize_def CELTOpusSampleSize_def idx_def frame_samples_def
        celt_5ms_def frame_tenths_def)
qed

lemma duration_of:
  assumes "c < 32" and "s < 2" and "k < 4"
    and "if k = 3 then \<exists>m r'. r = m # r' \<and> uint (m AND 0x3F) = int n else n = (if k = 0 then 1 else 2)"
  shows "OpusPacketDuration (toc_byte c s k # r) = Some (word_of_nat (n * frame_samples c))"
proof -
  note t = toc_fields [OF assms(1-3)]
  have k: "(word_of_nat k :: byte) = 0 \<longleftrightarrow> k = 0" "(word_of_nat k :: byte) = 1 \<longleftrightarrow> k = 1" "(word_of_nat k :: byte) = 2 \<longleftrightarrow> k = 2"
    "(word_of_nat k :: byte) = 3 \<longleftrightarrow> k = 3"
    using assms(3) unat_byte [of k] by (auto simp: word_unat_eq_iff)
  have c: "int c < 32" "0 \<le> int c" using assms(1) by simp_all
  have w: "word_of_int (int n * int (frame_samples c)) = (word_of_nat (n * frame_samples c) :: u64)" by (simp flip: of_nat_mult)
  let ?F = "\<lambda>f. (if 0 \<le> int c \<and> int c < 12 then do { m \<leftarrow> idx SLKOpusSampleSize (int c mod 4); Some (word_of_int (f * m)) }
     else if 12 \<le> int c \<and> int c < 16 then do { m \<leftarrow> idx HybridOpusSampleSize (int c mod 2); Some (word_of_int (f * m)) }
     else if 16 \<le> int c \<and> int c < 32 then do { m \<leftarrow> idx CELTOpusSampleSize (int c mod 4); Some (word_of_int (f * m)) }
     else Some 0) :: u64 option"
  have fin: "?F f = Some (word_of_int (f * int (frame_samples c)))" for f
    using duration_table [OF assms(1)] c by (cases "int c < 12"; cases "int c < 16") simp_all
  have h: "idx (toc_byte c s k # r) 0 = Some (toc_byte c s k)" by (simp add: idx_def)
  show ?thesis
  proof (cases "k = 3")
    case True
    then obtain m r' where m: "r = m # r'" "uint (m AND 0x3F) = int n" using assms(4) by auto
    then have "idx (toc_byte c s k # r) 1 = Some m" by (simp add: idx_def)
    then have "OpusPacketDuration (toc_byte c s k # r) = ?F (int n)" using m(2) t True h by (simp add: OpusPacketDuration_def Let_def m(1))
    then show ?thesis by (simp only: fin w)
  next
    case False
    then have "(word_of_nat k :: byte) \<noteq> 3" "n = (if k = 0 then 1 else 2)" "k = 0 \<or> k = 1 \<or> k = 2" using assms(3,4) k by auto
    then have "OpusPacketDuration (toc_byte c s k # r) = ?F (int n)" using t h k by (elim disjE) (simp_all add: OpusPacketDuration_def Let_def)
    then show ?thesis by (simp only: fin w)
  qed
qed

lemma replicate_lengths: "list_all (\<lambda>f. length f = k) fs \<Longrightarrow> map length fs = replicate (length fs) k"
  by (induction fs) simp_all

lemma concat_same: "list_all (\<lambda>f. length f = k) fs \<Longrightarrow> length (concat fs) = length fs * k"
  by (induction fs) simp_all

lemma unat_u16: "n < 65536 \<Longrightarrow> unat (word_of_nat n :: u16) = n" by (simp add: unat_of_nat)

lemma one_length_frames:
  assumes "list_all (\<lambda>f. length f = n) fs" and "n < 65536" and "op_FrameLen p = [word_of_nat n]" and "op_FrameCount p = glen fs"
    and "op_Frame p = concat fs"
  shows "frames_of p = fs"
  using cut_frames_concat [of fs "[]"] replicate_lengths [OF assms(1)] assms by (simp add: frames_of_def unat_u16)

lemma many_length_frames:
  assumes "\<forall>f\<in>set fs. length f < 65536" and "op_FrameLen p = map (word_of_nat \<circ> length) fs" and "op_FrameCount p = glen fs"
    and "op_Frame p = concat fs"
  shows "frames_of p = fs"
proof -
  have m: "map (\<lambda>f. unat (word_of_nat (length f) :: u16)) fs = map length fs" using assms(1) by (simp add: unat_u16)
  have "(case op_FrameLen p of [n] \<Rightarrow> replicate (nat (op_FrameCount p)) (unat n) | ns \<Rightarrow> map unat ns) = map unat (op_FrameLen p)"
    using assms(2,3) by (cases fs; cases "tl fs") auto
  then show ?thesis using cut_frames_concat [of fs "[]"] assms m by (simp add: frames_of_def comp_def)
qed

lemma vbr_lengths:
  assumes "list_all (\<lambda>f. length f \<le> 1275) (butlast fs)" and "packet = pre @ concat (map (len_code \<circ> length) (butlast fs)) @ r"
  shows "opus_lengths (length fs - 1) packet (glen pre) 0 [] =
    ok (glen pre + glen (concat (map (len_code \<circ> length) (butlast fs))), glen (concat (butlast fs)), map (word_of_nat \<circ> length) (butlast fs))"
  using opus_lengths_codes [of "map length (butlast fs)" pre r 0 "[]"] assms
  by (simp add: list_all_iff length_concat comp_def)

definition read_packet :: "opus_layout \<Rightarrow> nat \<Rightarrow> nat \<Rightarrow> bytes list \<Rightarrow> OpusPacket \<Rightarrow> bool" where
  "read_packet l c s fs p \<longleftrightarrow> op_Config p = int c \<and> op_Stereo p = int s \<and> op_FrameCount p = glen fs \<and> frames_of p = fs \<and>
     op_Duration p = word_of_nat (length fs * frame_samples c)"

lemma code3_cbr:
  assumes "0 < length fs" "length fs < 64" "list_all (\<lambda>f. length f = length (hd fs)) fs"
  shows "opus_code3 (opus_packet (Cbr pad) c s fs) pkt = ok (pkt\<lparr>op_Vbr := 0, op_FrameCount := glen fs,
    op_FrameLen := [word_of_nat (length (hd fs))], op_Frame := concat fs\<rparr>)"
proof -
  note m = count_fields [OF assms(1,2)]
  have ne: "count_byte False pad (length fs) AND 0x3F \<noteq> 0" using m(3) [of False pad] assms(1) by auto
  have "glen (opus_packet (Cbr pad) c s fs) - (2 + glen (pad_code pad)) - glen (pad_data pad) = int (length fs * length (hd fs))"
    using concat_same [OF assms(3)] by simp
  moreover have "nat (glen (hd fs) * glen fs) = length fs * length (hd fs)" "\<not> glen fs * glen (hd fs) < 0"
    by (simp_all add: nat_mult_distrib mult.commute not_less)
  ultimately show ?thesis using assms m ne opus_pad_built [OF assms(1,2)] concat_same [OF assms(3)]
    by (simp add: opus_code3_def idx_def Let_def slice_of_def nat_add_distrib)
qed

lemma code3_steps:
  assumes "idx P 1 = Some m" and "opus_pad P m = Some (h, q)" and "uint (m AND 0x3F) = int n" and "0 < n" and "drop_bit 7 m = 1"
    and "opus_lengths (n - 1) P h 0 [] = ok (h', k, ls)" and "glen P - h' - q - k = int z" and "slice_of P h' (h' + k + int z) = Some b"
  shows "opus_code3 P pkt = ok (pkt\<lparr>op_Vbr := 1, op_FrameCount := int n, op_FrameLen := ls @ [word_of_nat z], op_Frame := b\<rparr>)"
proof -
  have "nat (int n - 1) = n - 1" using assms(4) by linarith
  moreover have "int n \<noteq> 0" using assms(4) by simp
  ultimately show ?thesis using assms by (simp only: opus_code3_def Let_def) simp
qed

lemma code3_vbr:
  assumes "0 < length fs" "length fs < 64" "list_all (\<lambda>f. length f \<le> 1275) (butlast fs)"
  shows "opus_code3 (opus_packet (Vbr pad) c s fs) pkt = ok (pkt\<lparr>op_Vbr := 1, op_FrameCount := glen fs,
    op_FrameLen := map (word_of_nat \<circ> length) fs, op_Frame := concat fs\<rparr>)"
proof -
  note m = count_fields [OF assms(1,2)]
  have ne: "count_byte True pad (length fs) AND 0x3F \<noteq> 0" using m(3) [of True pad] assms(1) by auto
  let ?pre = "toc_byte c s 3 # count_byte True pad (length fs) # pad_code pad" and ?ls = "concat (map (len_code \<circ> length) (butlast fs))"
  have fs: "fs = butlast fs @ [last fs]" using assms(1) by simp
  have l: "opus_lengths (length fs - 1) (opus_packet (Vbr pad) c s fs) (2 + glen (pad_code pad)) 0 [] =
      ok (2 + glen (pad_code pad) + glen ?ls, glen (concat (butlast fs)), map (word_of_nat \<circ> length) (butlast fs))"
    using vbr_lengths [OF assms(3), of "opus_packet (Vbr pad) c s fs" ?pre "concat fs @ pad_data pad"] by simp
  have len: "length (concat fs) = length (concat (butlast fs)) + length (last fs)" by (subst fs) simp
  have lens: "map (word_of_nat \<circ> length) (butlast fs) @ [word_of_nat (length (last fs))] = (map (word_of_nat \<circ> length) fs :: u16 list)"
    by (subst (3) fs) simp
  have "opus_code3 (opus_packet (Vbr pad) c s fs) pkt = ok (pkt\<lparr>op_Vbr := 1, op_FrameCount := int (length fs),
      op_FrameLen := map (word_of_nat \<circ> length) (butlast fs) @ [word_of_nat (length (last fs))], op_Frame := concat fs\<rparr>)"
  proof (rule code3_steps [OF _ _ m(3) assms(1) _ l])
    show "opus_pad (opus_packet (Vbr pad) c s fs) (count_byte True pad (length fs)) = Some (2 + glen (pad_code pad), glen (pad_data pad))"
      using opus_pad_built [OF assms(1,2)] by simp
    show "slice_of (opus_packet (Vbr pad) c s fs) (2 + glen (pad_code pad) + glen ?ls)
        (2 + glen (pad_code pad) + glen ?ls + glen (concat (butlast fs)) + int (length (last fs))) = Some (concat fs)"
      using len by (simp add: slice_of_def nat_add_distrib)
  qed (use len m(1) [of True pad] in \<open>simp_all add: idx_def\<close>)
  then show ?thesis unfolding lens .
qed

lemma tocs: "(word_of_nat k :: byte) = 0 \<longleftrightarrow> k = 0" "(word_of_nat k :: byte) = 1 \<longleftrightarrow> k = 1" "(word_of_nat k :: byte) = 2 \<longleftrightarrow> k = 2"
    "uint (word_of_nat k :: byte) = int k" if "k < 4" for k
  using that unat_byte [of k] by (auto simp: word_unat_eq_iff uint_nat simp del: unsigned_of_nat)

lemma two_frames: "length fs = 2 \<Longrightarrow> fs = [fs ! 0, fs ! 1]"
  by (cases fs; cases "tl fs") (auto simp: length_Suc_conv numeral_2_eq_2)

lemma decode_kind:
  assumes "c < 32" and "s < 2" and "k < 4"
  shows "idx (toc_byte c s k # r) 0 = Some (toc_byte c s k)" "uint (toc_byte c s k AND 0x03) = int k"
    "uint (drop_bit 2 (toc_byte c s k) AND 0x01) = int s" "uint (drop_bit 3 (toc_byte c s k)) = int c"
  using toc_fields [OF assms] tocs(4) [OF assms(3)] tocs(4) [of s] assms by (simp_all add: idx_def)

lemma opus_two:
  assumes "length fs = 2" and "length (fs ! 0) \<le> 1275"
  shows "opusFrameLength (opus_packet Two c s fs) 1 = Some (glen (fs ! 0), glen (len_code (length (fs ! 0))))"
  using opusFrameLength_code [OF assms(2), of "[toc_byte c s 2]" "concat fs"] assms(1) by (cases fs) simp_all

lemma packet_read:
  assumes "c < 32" and "s < 2" and "opus_fits l fs" and "\<forall>f\<in>set fs. length f < 32768"
  shows "\<exists>p. DecodeOpusPacket (opus_packet l c s fs) = Some p \<and> read_packet l c s fs p"
proof (cases l)
  case One
  then obtain f where fs: "fs = [f]" using assms(3) by (auto simp: length_Suc_conv)
  note d = decode_kind [OF assms(1,2), of 0, simplified]
  have "OpusPacketDuration (opus_packet l c s fs) = Some (word_of_nat (1 * frame_samples c))"
    using One duration_of [OF assms(1,2), of 0 f 1] by (simp add: fs)
  then show ?thesis using One fs d assms(4)
    by (simp add: DecodeOpusPacket_def Let_def read_packet_def slice_from_def zero_OpusPacket_def) (rule one_length_frames [where n = "length f"]; simp)
next
  case Pair
  then obtain f g where fs: "fs = [f, g]" "length f = length g" using assms(3) two_frames [of fs] by (metis opus_fits.simps(2))
  note d = decode_kind [OF assms(1,2), of 1, simplified]
  have "OpusPacketDuration (opus_packet l c s fs) = Some (word_of_nat (2 * frame_samples c))"
    using Pair duration_of [OF assms(1,2), of 1 "f @ g" 2] by (simp add: fs)
  moreover have "(word_of_nat (length g + length g) :: u16) div 2 = word_of_nat (length g)"
    using assms(4) fs by (auto simp: word_unat_eq_iff unat_div unat_of_nat simp flip: of_nat_add)
  ultimately show ?thesis using Pair fs d assms(4)
    by (simp add: DecodeOpusPacket_def Let_def read_packet_def slice_from_def zero_OpusPacket_def) (rule one_length_frames [where n = "length g"]; simp)
next
  case Two
  then obtain f g where fs: "fs = [f, g]" "length f \<le> 1275" using assms(3) two_frames [of fs] by (metis opus_fits.simps(3) nth_Cons_0)
  note d = decode_kind [OF assms(1,2), of 2, simplified]
  have u: "opusFrameLength (toc_byte c s 2 # len_code (length f) @ f @ g) 1 = Some (glen f, glen (len_code (length f)))"
    using opus_two [of fs c s] fs by simp
  have "OpusPacketDuration (opus_packet l c s fs) = Some (word_of_nat (2 * frame_samples c))"
    using Two duration_of [OF assms(1,2), of 2 "len_code (length f) @ f @ g" 2] by (simp add: fs)
  then show ?thesis using Two fs d assms(4) u
    by (simp add: DecodeOpusPacket_def Let_def read_packet_def slice_from_def zero_OpusPacket_def) (rule many_length_frames; simp add: nat_add_distrib)
next
  case (Cbr pad)
  let ?P = "opus_packet l c s fs"
  have f: "0 < length fs" "length fs < 64" "list_all (\<lambda>f. length f = length (hd fs)) fs" using assms(3) Cbr by simp_all
  note d = decode_kind [OF assms(1,2), of 3, simplified]
  have "OpusPacketDuration ?P = Some (word_of_nat (length fs * frame_samples c))"
    using Cbr duration_of [OF assms(1,2), of 3 _ "length fs"] count_fields(3) [OF f(1,2)] by simp
  moreover have "idx ?P 0 = Some (toc_byte c s 3)" "?P \<noteq> []" "2 \<le> glen ?P" using Cbr by (simp_all add: idx_def)
  moreover have "length (hd fs) < 65536" using assms(4) f(1) hd_in_set [of fs] by fastforce
  ultimately show ?thesis using d code3_cbr [OF f, of pad c s] Cbr
    by (simp add: DecodeOpusPacket_def Let_def read_packet_def zero_OpusPacket_def del: opus_packet.simps) (rule one_length_frames [OF f(3)]; simp)
next
  case (Vbr pad)
  let ?P = "opus_packet l c s fs"
  have f: "0 < length fs" "length fs < 64" "list_all (\<lambda>f. length f \<le> 1275) (butlast fs)" using assms(3) Vbr by simp_all
  note d = decode_kind [OF assms(1,2), of 3, simplified]
  have "OpusPacketDuration ?P = Some (word_of_nat (length fs * frame_samples c))"
    using Vbr duration_of [OF assms(1,2), of 3 _ "length fs"] count_fields(3) [OF f(1,2)] by simp
  moreover have "idx ?P 0 = Some (toc_byte c s 3)" "?P \<noteq> []" "2 \<le> glen ?P" using Vbr by (simp_all add: idx_def)
  ultimately show ?thesis using d code3_vbr [OF f, of pad c s] Vbr assms(4)
    by (simp add: DecodeOpusPacket_def Let_def read_packet_def zero_OpusPacket_def del: opus_packet.simps) (rule many_length_frames; fastforce)
qed

text \<open>
  C39: An Opus packet of any of the layouts of RFC 6716 is taken apart as it was put together: the
  decoder finds its configuration, its channels, its frames in their order whatever padding stands
  behind them, and its duration, the number of frames times the duration of one; a 5 ms frame of the
  CELT modes is counted with 210 samples where the RFC has 240.  No bytes make the decoder panic.
\<close>

theorem opus_packet_read:
  assumes "c < 32" and "s < 2" and "opus_fits l fs" and "\<forall>f\<in>set fs. length f < 32768"
  shows "\<exists>p. DecodeOpusPacket (opus_packet l c s fs) = Some p \<and> op_Config p = int c \<and> op_Stereo p = int s \<and>
    op_FrameCount p = glen fs \<and> frames_of p = fs \<and>
    op_Duration p = word_of_nat (length fs * (if celt_5ms c then 210 else 48 * frame_tenths c div 10)) \<and> DecodeOpusPacket b \<noteq> None"
  using packet_read [OF assms] DecodeOpusPacket_total [of b] by (auto simp: read_packet_def frame_samples_def)

theorem opus_packet_read_witness:
  "\<exists>p. DecodeOpusPacket (opus_packet (Vbr (Some 300)) 17 1 [[1, 2, 3], [], replicate 400 7]) = Some p \<and> op_Config p = int 17 \<and>
    op_Stereo p = int 1 \<and> op_FrameCount p = glen [[1, 2, 3], [], replicate 400 (7 :: byte)] \<and> frames_of p = [[1, 2, 3], [], replicate 400 7] \<and>
    op_Duration p = word_of_nat (length [[1, 2, 3], [], replicate 400 (7 :: byte)] * (if celt_5ms 17 then 210 else 48 * frame_tenths 17 div 10)) \<and>
    DecodeOpusPacket [0xFF] \<noteq> None"
  by (rule opus_packet_read [where l = "Vbr (Some 300)"]) simp_all

end
