(* ===== verification/Mp3.thy ===== *)
theory Mp3
  imports BitFields
begin

text \<open>
  MPEG audio, \<open>go-codec/mp3.go\<close>: the frame header and the splitter of a file of frames and ID3 tags.

  The lemmas: a header of the standard is read field by field; the size of a frame is that of the
  standard, but for the frames of \<open>mp3_wrong\<close>; the splitter returns on every input.
\<close>

unbundle bit_operations_syntax

section \<open>Frame headers\<close>

definition BitRateTable :: "int list list list" where
  "BitRateTable =
    [[[0, 32, 64, 96, 128, 160, 192, 224, 256, 288, 320, 352, 384, 416, 448, - 1],
      [0, 32, 48, 56, 64, 80, 96, 112, 128, 160, 192, 224, 256, 320, 380, - 1],
      [0, 32, 40, 48, 56, 64, 80, 96, 112, 128, 160, 192, 224, 256, 320, - 1]],
     [[0, 32, 48, 56, 64, 80, 96, 112, 128, 160, 192, 224, 256, 320, 384, - 1],
      [0, 8, 16, 24, 32, 40, 48, 56, 64, 80, 96, 112, 128, 144, 160, - 1],
      [0, 8, 16, 24, 32, 40, 48, 56, 64, 80, 96, 112, 128, 144, 160, - 1]]]"

definition SampleRateTable :: "int list list" where
  "SampleRateTable = [[44100, 48000, 32000, 0], [22050, 24000, 16000, 0], [11025, 12000, 8000, 0]]"

abbreviation (input) VERSION_RESERVED :: byte where "VERSION_RESERVED \<equiv> 0"
abbreviation (input) VERSION_MPEG_1 :: byte where "VERSION_MPEG_1 \<equiv> 1"
abbreviation (input) VERSION_MPEG_2 :: byte where "VERSION_MPEG_2 \<equiv> 2"
abbreviation (input) VERSION_MPEG_2_5 :: byte where "VERSION_MPEG_2_5 \<equiv> 3"
abbreviation (input) LAYER_RESERVED :: byte where "LAYER_RESERVED \<equiv> 0"
abbreviation (input) LAYER_1 :: byte where "LAYER_1 \<equiv> 1"
abbreviation (input) LAYER_2 :: byte where "LAYER_2 \<equiv> 2"
abbreviation (input) LAYER_3 :: byte where "LAYER_3 \<equiv> 3"

record MP3FrameHead =
  m3_Version :: byte
  m3_Layer :: byte
  m3_Protecttion :: byte
  m3_BitrateIndex :: byte
  m3_SampleRateIndex :: byte
  m3_Padding :: byte
  m3_Private :: byte
  m3_Mode :: byte
  m3_ModeExtension :: byte
  m3_Copyright :: byte
  m3_Original :: byte
  m3_Emphasis :: byte
  m3_SampleSize :: int
  m3_FrameSize :: int

definition GetChannelCount :: "MP3FrameHead \<Rightarrow> int" where
  "GetChannelCount mp3 = (if m3_Mode mp3 = 0x03 then 1 else 2)"

definition GetBitRate :: "MP3FrameHead \<Rightarrow> int option" where
  "GetBitRate mp3 =
     (let i = (if m3_Version mp3 = VERSION_MPEG_2 \<or> m3_Version mp3 = VERSION_MPEG_2_5 then 1 else 0) in
      if m3_Layer mp3 < LAYER_1 \<or> m3_Layer mp3 > LAYER_3 \<or> m3_BitrateIndex mp3 > 15 then Some 0
      else do {
        t \<leftarrow> idx BitRateTable i;
        r \<leftarrow> idx t (uint (m3_Layer mp3 - 1));
        n \<leftarrow> idx r (uint (m3_BitrateIndex mp3));
        Some (n * 1000)
      })"

definition GetSampleRate :: "MP3FrameHead \<Rightarrow> int option" where
  "GetSampleRate mp3 =
     (if m3_Version mp3 = VERSION_RESERVED \<or> m3_Version mp3 > VERSION_MPEG_2_5 \<or> m3_SampleRateIndex mp3 > 3 then Some 0
      else do {
        r \<leftarrow> idx SampleRateTable (uint (m3_Version mp3 - 1));
        idx r (uint (m3_SampleRateIndex mp3))
      })"

text \<open>The constants for the codes of version and layer.\<close>

definition mp3_version :: "byte \<Rightarrow> byte" where
  "mp3_version v = (if v = 0 then VERSION_MPEG_2_5 else if v = 1 then VERSION_RESERVED else if v = 2 then VERSION_MPEG_2
     else if v = 3 then VERSION_MPEG_1 else v)"

definition mp3_layer :: "byte \<Rightarrow> byte" where
  "mp3_layer l = (if l = 0 then LAYER_RESERVED else if l = 1 then LAYER_3 else if l = 2 then LAYER_2
     else if l = 3 then LAYER_1 else l)"

text \<open>The fields behind the syncword.\<close>

definition mp3_fields :: "bitstream \<Rightarrow> (MP3FrameHead \<times> bitstream) option" where
  "mp3_fields bs = do {
     (version, bs) \<leftarrow> Uint8 2 bs;
     (layer, bs) \<leftarrow> Uint8 2 bs;
     (prot, bs) \<leftarrow> GetBit bs;
     (bitrate, bs) \<leftarrow> Uint8 4 bs;
     (rate, bs) \<leftarrow> Uint8 2 bs;
     (padding, bs) \<leftarrow> GetBit bs;
     (private, bs) \<leftarrow> GetBit bs;
     (mode, bs) \<leftarrow> Uint8 2 bs;
     (ext, bs) \<leftarrow> Uint8 2 bs;
     (copyright, bs) \<leftarrow> GetBit bs;
     (original, bs) \<leftarrow> GetBit bs;
     (emphasis, bs) \<leftarrow> Uint8 2 bs;
     Some (\<lparr>m3_Version = mp3_version version, m3_Layer = mp3_layer layer, m3_Protecttion = prot, m3_BitrateIndex = bitrate,
       m3_SampleRateIndex = rate, m3_Padding = padding, m3_Private = private, m3_Mode = mode, m3_ModeExtension = ext,
       m3_Copyright = copyright, m3_Original = original, m3_Emphasis = emphasis, m3_SampleSize = 0, m3_FrameSize = 0\<rparr>, bs)
   }"

text \<open>The checks of the fields and the sizes.\<close>

definition mp3_sizes :: "MP3FrameHead \<Rightarrow> (codec_error, MP3FrameHead) result" where
  "mp3_sizes mp3 =
     (if m3_Version mp3 = VERSION_RESERVED then err (ErrMsg ''mp3 reserved version'')
      else if m3_Layer mp3 = LAYER_RESERVED then err (ErrMsg ''mp3 reserved layer'')
      else if m3_SampleRateIndex mp3 = 3 then err (ErrMsg ''mp3 reserved sample rate index'')
      else if m3_BitrateIndex mp3 = 15 then err (ErrMsg ''mp3 bad bitrate index'')
      else if m3_BitrateIndex mp3 = 0 then err (ErrMsg ''mp3 free bitrate is not supported'')
      else do {
        let samples = (if m3_Layer mp3 = LAYER_1 then 384 else if m3_Layer mp3 = LAYER_2 then 1152
          else if m3_Version mp3 = VERSION_MPEG_1 then 1152 else 576);
        br \<leftarrow> GetBitRate mp3;
        sr \<leftarrow> GetSampleRate mp3;
        if br \<le> 0 \<or> sr \<le> 0 then err (ErrMsg ''mp3 invalid bitrate or samplerate'')
        else do {
          let n = go_div (go_div samples 8 * br) sr;
          let n = (if m3_Layer mp3 = LAYER_1 then n + uint (m3_Padding mp3) * 4 else n + uint (m3_Padding mp3));
          if n < 4 then err (ErrMsg ''mp3 invalid frame size'')
          else ok (mp3\<lparr>m3_SampleSize := samples, m3_FrameSize := n\<rparr>)
        }
      })"

definition DecodeMp3Head :: "bytes \<Rightarrow> (codec_error, MP3FrameHead) result" where
  "DecodeMp3Head data =
     (if data = [] then err (ErrMsg ''empty mp3 frame'')
      else do {
        (syncWord, bs) \<leftarrow> GetBits 11 (NewBitStream data);
        if syncWord \<noteq> 0x7FF then err (ErrMsg ''mp3 frame must start with 0xFFE'')
        else do { (mp3, bs) \<leftarrow> mp3_fields bs; mp3_sizes mp3 }
      })"

section \<open>The splitter\<close>

definition has_prefix :: "bytes \<Rightarrow> char list \<Rightarrow> bool" where
  "has_prefix data s \<longleftrightarrow> take (length s) data = map of_char s"

text \<open>The size in an ID3v2 tag, seven bits to the byte.\<close>

definition id3_size :: "bytes \<Rightarrow> u32 option" where
  "id3_size data = do {
     a \<leftarrow> idx data 6;
     b \<leftarrow> idx data 7;
     c \<leftarrow> idx data 8;
     d \<leftarrow> idx data 9;
     let size1 = ucast (a AND 0x7F);
     let size2 = push_bit 7 size1 OR ucast (b AND 0x7F);
     let size3 = push_bit 7 size2 OR ucast (c AND 0x7F);
     Some (push_bit 7 size3 OR ucast (d AND 0x7F))
   }"

lemma mp3_size_bound: "DecodeMp3Head data = ok h \<Longrightarrow> 4 \<le> m3_FrameSize h"
  by (auto simp: DecodeMp3Head_def mp3_sizes_def Let_def Option.bind_eq_Some_conv split: if_splits)

lemma slice_from_less [simp]: "slice_from xs n = Some ys \<Longrightarrow> 0 < n \<Longrightarrow> xs \<noteq> [] \<Longrightarrow> length ys < length xs"
  by (auto simp: slice_from_def split: if_splits)

text \<open>The result is the error, if any, and the callback's state.\<close>

function SplitMp3Frames :: "bytes \<Rightarrow> (MP3FrameHead \<Rightarrow> bytes \<Rightarrow> 's \<Rightarrow> 's) option \<Rightarrow> 's \<Rightarrow> (codec_error option \<times> 's) option" where
  "SplitMp3Frames data onFrame st =
     (if data = [] then Some (None, st)
      else if has_prefix data ''ID3'' then
        (if glen data < 10 then Some (Some (ErrMsg ''ID3V2 tag head must has 10 bytes''), st)
         else do {
           size \<leftarrow> id3_size data;
           if uint size + 10 > glen data then Some (Some (ErrMsg ''ID3V2 tag size beyond data''), st)
           else do { data' \<leftarrow> slice_from data (10 + uint size); SplitMp3Frames data' onFrame st }
         })
      else if has_prefix data ''TAG'' then
        (if glen data < 128 then Some (Some (ErrMsg ''ID3V1 must has 128 bytes''), st)
         else do { data' \<leftarrow> slice_from data 128; SplitMp3Frames data' onFrame st })
      else (case DecodeMp3Head data of
         None \<Rightarrow> None
       | Some (Inl e) \<Rightarrow> Some (Some e, st)
       | Some (Inr head) \<Rightarrow>
           if m3_FrameSize head > glen data then Some (Some (ErrMsg ''mp3 frame truncated''), st)
           else do {
             frame \<leftarrow> slice_to data (m3_FrameSize head);
             let st' = (case onFrame of Some f \<Rightarrow> f head frame st | None \<Rightarrow> st);
             data' \<leftarrow> slice_from data (m3_FrameSize head);
             SplitMp3Frames data' onFrame st'
           }))"
  by pat_completeness auto
termination
  by (relation "measure (\<lambda>(data, f, st). length data)") (auto dest!: mp3_size_bound intro!: slice_from_less add_pos_nonneg)

declare SplitMp3Frames.simps [simp del]

section \<open>The splitter returns\<close>

lemma idx_total: "0 \<le> i \<Longrightarrow> i < glen xs \<Longrightarrow> \<exists>x. idx xs i = Some x \<and> x \<in> set xs"
  by (auto simp: idx_def)

lemma one_to_three: "l \<noteq> 0 \<Longrightarrow> \<not> l > 3 \<Longrightarrow> l = 1 \<or> l = 2 \<or> l = (3 :: byte)"
proof -
  assume l: "l \<noteq> 0" "\<not> l > 3"
  have "unat l \<noteq> 0" "unat l \<le> 3" using l by (simp_all add: unat_0_iff not_less word_le_nat_alt)
  then have "unat l = 1 \<or> unat l = 2 \<or> unat l = 3" by linarith
  then show ?thesis by (simp add: word_unat_eq_iff)
qed

lemma GetBitRate_total: "\<exists>n. GetBitRate mp3 = Some n"
proof (cases "m3_Layer mp3 < 1 \<or> m3_Layer mp3 > 3 \<or> m3_BitrateIndex mp3 > 15")
  case False
  have "uint (m3_BitrateIndex mp3) < 16" using False by (simp add: word_less_def word_le_def not_less)
  then have "length r = 16 \<Longrightarrow> \<exists>n. do { n \<leftarrow> idx r (uint (m3_BitrateIndex mp3)); Some (n * 1000) } = Some n" for r :: "int list"
    using idx_total [of "uint (m3_BitrateIndex mp3)" r] by auto
  moreover have "m3_Layer mp3 = 1 \<or> m3_Layer mp3 = 2 \<or> m3_Layer mp3 = 3"
    using False by (intro one_to_three) auto
  ultimately show ?thesis using False
    by (elim disjE) (simp_all add: GetBitRate_def BitRateTable_def idx_def [where 'a = "int list"] idx_def [where 'a = "int list list"])
qed (auto simp: GetBitRate_def)

lemma GetSampleRate_total: "\<exists>n. GetSampleRate mp3 = Some n"
proof (cases "m3_Version mp3 = 0 \<or> m3_Version mp3 > 3 \<or> m3_SampleRateIndex mp3 > 3")
  case False
  have "uint (m3_SampleRateIndex mp3) < 4" using False by (simp add: word_less_def word_le_def not_less)
  then have "length r = 4 \<Longrightarrow> \<exists>n. idx r (uint (m3_SampleRateIndex mp3)) = Some n" for r :: "int list"
    using idx_total [of "uint (m3_SampleRateIndex mp3)" r] by auto
  moreover have "m3_Version mp3 = 1 \<or> m3_Version mp3 = 2 \<or> m3_Version mp3 = 3"
    using False by (intro one_to_three) simp_all
  ultimately show ?thesis using False
    by (elim disjE) (simp_all add: GetSampleRate_def SampleRateTable_def idx_def [where 'a = "int list"])
qed (auto simp: GetSampleRate_def)

lemma mp3_sizes_total: "\<exists>r. mp3_sizes mp3 = Some r"
  using GetBitRate_total [of mp3] GetSampleRate_total [of mp3] by (auto simp: mp3_sizes_def Let_def)

lemma mp3_fields_total: "bs_ok bs \<Longrightarrow> gives at_ok (mp3_fields bs)"
  unfolding mp3_fields_def by (intro gives_intros; (assumption | simp)?)+

lemma DecodeMp3Head_total: "\<exists>r. DecodeMp3Head data = Some r"
proof -
  obtain w bs where w: "GetBits 11 (NewBitStream data) = Some (w, bs)" "bs_ok bs"
    using gives_reads(1) [OF bs_ok_New, of 11 data] by (auto simp: gives_def)
  then obtain h t where "mp3_fields bs = Some (h, t)" using mp3_fields_total [of bs] by (auto simp: gives_def)
  then show ?thesis using w mp3_sizes_total [of h] by (auto simp: DecodeMp3Head_def)
qed

lemma SplitMp3Frames_total: "\<exists>r. SplitMp3Frames data f st = Some r"
proof (induction "length data" arbitrary: data st rule: less_induct)
  case less
  have rest: "\<exists>r. do { d \<leftarrow> slice_from data n; SplitMp3Frames d f s } = Some r" if "0 < n" "n \<le> glen data" for n s
    using that less [of "drop (nat n) data"] by (cases "data = []") (auto simp: slice_from_def)
  obtain d where d: "DecodeMp3Head data = Some d" using DecodeMp3Head_total by blast
  consider "data = []" | "data \<noteq> []" "has_prefix data ''ID3''" | "data \<noteq> []" "\<not> has_prefix data ''ID3''" "has_prefix data ''TAG''" |
    "data \<noteq> []" "\<not> has_prefix data ''ID3''" "\<not> has_prefix data ''TAG''" by blast
  then show ?case
  proof cases
    case 2
    show ?thesis
    proof (cases "glen data < 10")
      case False
      then obtain n where n: "id3_size data = Some n" by (auto simp: id3_size_def idx_def Let_def)
      have "0 < 10 + uint n" by (simp add: add_pos_nonneg)
      then show ?thesis using 2 False n rest [of "10 + uint n" st] by (subst SplitMp3Frames.simps) (simp add: add.commute)
    qed (use 2 in \<open>subst SplitMp3Frames.simps; simp\<close>)
  next
    case 3
    then show ?thesis using rest [of 128 st] by (subst SplitMp3Frames.simps) simp
  next
    case 4
    show ?thesis
    proof (cases d)
      case (Inr h)
      then have h: "4 \<le> m3_FrameSize h" using d mp3_size_bound by blast
      show ?thesis
      proof (cases "m3_FrameSize h > glen data")
        case False
        then have "slice_to data (m3_FrameSize h) = Some (take (nat (m3_FrameSize h)) data)" using h by (simp add: slice_to_def slice_of_def)
        then show ?thesis using 4 Inr d False h rest [of "m3_FrameSize h"] by (subst SplitMp3Frames.simps) (simp add: Let_def)
      qed (use 4 Inr d in \<open>subst SplitMp3Frames.simps; simp\<close>)
    qed (use 4 d in \<open>subst SplitMp3Frames.simps; simp\<close>)
  qed (subst SplitMp3Frames.simps; simp)
qed

section \<open>Frames of the standard\<close>

text \<open>
  ISO 11172-3 and 13818-3: the bits of a header, and the size of a frame from its bit rate in kbit/s
  and sampling rate; a frame of layer I is counted in slots of four bytes.
\<close>

definition mp3_bits :: "MP3FrameHead \<Rightarrow> bool list" where
  "mp3_bits h = bits_msb 11 (0x7FF :: u16) @
     bits_msb 2 (if m3_Version h = VERSION_MPEG_1 then 3 else if m3_Version h = VERSION_MPEG_2 then 2 else 0 :: byte) @
     bits_msb 2 (4 - m3_Layer h) @ bits_msb 1 (m3_Protecttion h) @ bits_msb 4 (m3_BitrateIndex h) @
     bits_msb 2 (m3_SampleRateIndex h) @ bits_msb 1 (m3_Padding h) @ bits_msb 1 (m3_Private h) @ bits_msb 2 (m3_Mode h) @
     bits_msb 2 (m3_ModeExtension h) @ bits_msb 1 (m3_Copyright h) @ bits_msb 1 (m3_Original h) @ bits_msb 2 (m3_Emphasis h)"

definition iso_kbps :: "byte \<Rightarrow> byte \<Rightarrow> nat \<Rightarrow> int" where
  "iso_kbps version layer i =
     (if version = VERSION_MPEG_1 then
        (if layer = LAYER_1 then 32 * int i
         else if layer = LAYER_2 then [0, 32, 48, 56, 64, 80, 96, 112, 128, 160, 192, 224, 256, 320, 384] ! i
         else [0, 32, 40, 48, 56, 64, 80, 96, 112, 128, 160, 192, 224, 256, 320] ! i)
      else if layer = LAYER_1 then [0, 32, 48, 56, 64, 80, 96, 112, 128, 144, 160, 176, 192, 224, 256] ! i
      else [0, 8, 16, 24, 32, 40, 48, 56, 64, 80, 96, 112, 128, 144, 160] ! i)"

definition iso_rate :: "byte \<Rightarrow> nat \<Rightarrow> int" where
  "iso_rate version i = [44100, 48000, 32000] ! i div (if version = VERSION_MPEG_1 then 1 else if version = VERSION_MPEG_2 then 2 else 4)"

definition iso_samples :: "byte \<Rightarrow> byte \<Rightarrow> int" where
  "iso_samples version layer = (if layer = LAYER_1 then 384 else if layer = LAYER_2 \<or> version = VERSION_MPEG_1 then 1152 else 576)"

definition iso_size :: "byte \<Rightarrow> byte \<Rightarrow> nat \<Rightarrow> nat \<Rightarrow> int \<Rightarrow> int" where
  "iso_size version layer i r padding =
     (if layer = LAYER_1 then (12 * (1000 * iso_kbps version layer i) div iso_rate version r + padding) * 4
      else iso_samples version layer div 8 * (1000 * iso_kbps version layer i) div iso_rate version r + padding)"

definition mp3_valid :: "MP3FrameHead \<Rightarrow> bool" where
  "mp3_valid h \<longleftrightarrow> m3_Version h \<in> {VERSION_MPEG_1, VERSION_MPEG_2, VERSION_MPEG_2_5} \<and> m3_Layer h \<in> {LAYER_1, LAYER_2, LAYER_3} \<and>
     0 < unat (m3_BitrateIndex h) \<and> unat (m3_BitrateIndex h) < 15 \<and> unat (m3_SampleRateIndex h) < 3 \<and>
     fits 1 (m3_Protecttion h) \<and> fits 1 (m3_Padding h) \<and> fits 1 (m3_Private h) \<and> fits 2 (m3_Mode h) \<and> fits 2 (m3_ModeExtension h) \<and>
     fits 1 (m3_Copyright h) \<and> fits 1 (m3_Original h) \<and> fits 2 (m3_Emphasis h) \<and>
     m3_SampleSize h = iso_samples (m3_Version h) (m3_Layer h) \<and>
     m3_FrameSize h = iso_size (m3_Version h) (m3_Layer h) (unat (m3_BitrateIndex h)) (unat (m3_SampleRateIndex h)) (uint (m3_Padding h))"

text \<open>
  Where the code computes another size: layer I at 44.1 kHz, its half and its quarter, where it does
  not round to slots (at the listed rates both sizes happen to agree); the highest rate of MPEG-1
  layer II, which its table has as 380; and layer I of MPEG-2 from the ninth rate on, for which it
  has the rates of layer II.
\<close>

definition mp3_wrong :: "byte \<Rightarrow> byte \<Rightarrow> nat \<Rightarrow> nat \<Rightarrow> bool" where
  "mp3_wrong version layer i r \<longleftrightarrow>
     layer = LAYER_1 \<and> (version \<noteq> VERSION_MPEG_1 \<and> 9 \<le> i \<or>
       r = 0 \<and> i \<notin> set (if version = VERSION_MPEG_1 then [3, 6, 10, 13] else if version = VERSION_MPEG_2 then [2, 6] else [2, 5])) \<or>
     layer = LAYER_2 \<and> version = VERSION_MPEG_1 \<and> i = 14"

definition mp3_table :: "byte \<Rightarrow> byte \<Rightarrow> nat \<Rightarrow> int" where
  "mp3_table version layer i = BitRateTable ! (if version = VERSION_MPEG_1 then 0 else 1) ! (unat layer - 1) ! i * 1000"

definition mp3_rate :: "byte \<Rightarrow> nat \<Rightarrow> int" where
  "mp3_rate version r = SampleRateTable ! (unat version - 1) ! r"

definition mp3_code_size :: "byte \<Rightarrow> byte \<Rightarrow> nat \<Rightarrow> nat \<Rightarrow> int" where
  "mp3_code_size version layer i r = iso_samples version layer div 8 * mp3_table version layer i div mp3_rate version r"

lemma mp3_tables:
  "list_all (\<lambda>(v, l, i, r). 0 < mp3_table v l i \<and> 0 < mp3_rate v r \<and> 4 \<le> mp3_code_size v l i r \<and>
      (mp3_code_size v l i r = iso_size v l i r 0 \<longleftrightarrow> \<not> mp3_wrong v l i r))
    (List.product [1, 2, 3] (List.product [1, 2, 3] (List.product [1..<15] [0..<3])))"
  by code_simp

lemma mp3_table_facts:
  assumes "v \<in> {1, 2, 3}" and "l \<in> {1, 2, 3}" and "0 < i" and "i < 15" and "r < 3"
  shows "0 < mp3_table v l i \<and> 0 < mp3_rate v r \<and> 4 \<le> mp3_code_size v l i r \<and>
    (mp3_code_size v l i r = iso_size v l i r 0 \<longleftrightarrow> \<not> mp3_wrong v l i r)"
proof -
  have "(v, l, i, r) \<in> set (List.product [1, 2, 3] (List.product [1, 2, 3] (List.product [1..<15] [0..<3])))"
    using assms unfolding set_product by (simp del: upt_rec_numeral)
  then show ?thesis using mp3_tables unfolding list_all_iff by blast
qed

lemma idx_word: "unat w < length row \<Longrightarrow> idx row (uint w) = Some (row ! unat w)" for row :: "int list"
  by (simp add: idx_def uint_nat del: of_nat_unat unsigned_of_nat)

lemma mp3_table_idx:
  assumes "m3_Version h \<in> {1, 2, 3}" and "m3_Layer h \<in> {1, 2, 3}" and "unat (m3_BitrateIndex h) < 15"
  shows "GetBitRate h = Some (mp3_table (m3_Version h) (m3_Layer h) (unat (m3_BitrateIndex h)))"
proof -
  have b: "\<not> m3_BitrateIndex h > 15" using assms(3) by (simp add: word_less_nat_alt)
  show ?thesis using assms b
    by (elim insertE emptyE) (simp_all add: GetBitRate_def mp3_table_def idx_word BitRateTable_def
        idx_def [where 'a = "int list"] idx_def [where 'a = "int list list"])
qed

lemma mp3_rate_idx:
  assumes "m3_Version h \<in> {1, 2, 3}" and "unat (m3_SampleRateIndex h) < 3"
  shows "GetSampleRate h = Some (mp3_rate (m3_Version h) (unat (m3_SampleRateIndex h)))"
proof -
  have b: "\<not> m3_SampleRateIndex h > 3" using assms(2) by (simp add: word_less_nat_alt)
  show ?thesis using assms b
    by (elim insertE emptyE) (simp_all add: GetSampleRate_def mp3_rate_def idx_word SampleRateTable_def idx_def [where 'a = "int list"])
qed

lemma iso_size_pad: "iso_size v l i r p = (if l = 1 then iso_size v l i r 0 + p * 4 else iso_size v l i r 0 + p)"
  by (simp add: iso_size_def distrib_right)

lemma mp3_sizes_step:
  assumes "m3_Version h \<noteq> 0" "m3_Layer h \<noteq> 0" "m3_SampleRateIndex h \<noteq> 3" "m3_BitrateIndex h \<noteq> 15" "m3_BitrateIndex h \<noteq> 0"
    and "(if m3_Layer h = 1 then 384 else if m3_Layer h = 2 then 1152 else if m3_Version h = 1 then 1152 else 576) = s"
    and "GetBitRate h = Some b" "0 < b" "GetSampleRate h = Some r" "0 < r" "go_div (go_div s 8 * b) r = n"
    and "(if m3_Layer h = 1 then n + uint (m3_Padding h) * 4 else n + uint (m3_Padding h)) = m" "4 \<le> m"
  shows "mp3_sizes h = ok (h\<lparr>m3_SampleSize := s, m3_FrameSize := m\<rparr>)"
proof -
  have "\<not> (b \<le> 0 \<or> r \<le> 0)" "\<not> m < 4" using assms by simp_all
  then show ?thesis using assms by (simp only: mp3_sizes_def Let_def bind.bind_lunit if_False)
qed

text \<open>The header the code makes of a header of the standard: the size is its own.\<close>

definition mp3_read :: "MP3FrameHead \<Rightarrow> MP3FrameHead" where
  "mp3_read h = (let n = mp3_code_size (m3_Version h) (m3_Layer h) (unat (m3_BitrateIndex h)) (unat (m3_SampleRateIndex h)) in
     h\<lparr>m3_FrameSize := (if m3_Layer h = LAYER_1 then n + uint (m3_Padding h) * 4 else n + uint (m3_Padding h))\<rparr>)"

lemma mp3_read_size:
  assumes "mp3_valid h"
  shows "mp3_read h = h \<longleftrightarrow> \<not> mp3_wrong (m3_Version h) (m3_Layer h) (unat (m3_BitrateIndex h)) (unat (m3_SampleRateIndex h))"
proof -
  let ?v = "m3_Version h" and ?l = "m3_Layer h" and ?i = "unat (m3_BitrateIndex h)" and ?r = "unat (m3_SampleRateIndex h)" and ?p = "uint (m3_Padding h)"
  let ?n = "mp3_code_size ?v ?l ?i ?r"
  have r: "?v \<in> {1, 2, 3}" "?l \<in> {1, 2, 3}" "0 < ?i" "?i < 15" "?r < 3" using assms by (simp_all add: mp3_valid_def)
  have z: "m3_FrameSize h = iso_size ?v ?l ?i ?r ?p" using assms by (simp only: mp3_valid_def)
  have "mp3_read h = h \<longleftrightarrow> (if ?l = LAYER_1 then ?n + ?p * 4 else ?n + ?p) = m3_FrameSize h"
    unfolding mp3_read_def Let_def by (cases h) auto
  also have "\<dots> \<longleftrightarrow> ?n = iso_size ?v ?l ?i ?r 0"
    unfolding z iso_size_pad [of ?v ?l ?i ?r ?p] by (cases "?l = 1") (simp_all only: if_True if_False refl add_right_cancel)
  finally show ?thesis using mp3_table_facts [OF r] by simp
qed

lemma mp3_sizes_valid:
  assumes v: "mp3_valid h"
  shows "mp3_sizes (h\<lparr>m3_SampleSize := 0, m3_FrameSize := 0\<rparr>) = ok (mp3_read h)"
proof -
  let ?h = "h\<lparr>m3_SampleSize := 0, m3_FrameSize := 0\<rparr>"
  let ?v = "m3_Version h" and ?l = "m3_Layer h" and ?i = "unat (m3_BitrateIndex h)" and ?r = "unat (m3_SampleRateIndex h)" and ?p = "uint (m3_Padding h)"
  have r: "?v \<in> {1, 2, 3}" "?l \<in> {1, 2, 3}" "0 < ?i" "?i < 15" "?r < 3" using v by (simp_all add: mp3_valid_def)
  note t = mp3_table_facts [OF r]
  have g: "GetBitRate ?h = Some (mp3_table ?v ?l ?i)" "GetSampleRate ?h = Some (mp3_rate ?v ?r)"
    using mp3_table_idx [of ?h] mp3_rate_idx [of ?h] r by simp_all
  have n: "m3_BitrateIndex h \<noteq> 15" "m3_BitrateIndex h \<noteq> 0" "m3_SampleRateIndex h \<noteq> 3" "?v \<noteq> 0" "?l \<noteq> 0"
    using r by (auto simp: word_unat_eq_iff)
  have s: "(if ?l = 1 then 384 else if ?l = 2 then 1152 else if ?v = 1 then 1152 else 576) = iso_samples ?v ?l" "0 \<le> iso_samples ?v ?l"
    by (simp_all add: iso_samples_def)
  have gd: "go_div (go_div (iso_samples ?v ?l) 8 * mp3_table ?v ?l ?i) (mp3_rate ?v ?r) = mp3_code_size ?v ?l ?i ?r"
    using s(2) t by (simp add: go_div_nonneg mp3_code_size_def pos_imp_zdiv_nonneg_iff)
  define m where "m = (if ?l = 1 then mp3_code_size ?v ?l ?i ?r + ?p * 4 else mp3_code_size ?v ?l ?i ?r + ?p)"
  have four: "4 \<le> m"
    unfolding m_def using t uint_ge_0 [of "m3_Padding h"] by (cases "?l = 1"; simp only: if_True if_False refl; linarith)
  have "mp3_sizes ?h = ok (?h\<lparr>m3_SampleSize := iso_samples ?v ?l, m3_FrameSize := m\<rparr>)"
  proof (rule mp3_sizes_step [OF _ _ _ _ _ _ g(1) _ g(2) _ gd _ four])
    show "(if m3_Layer ?h = 1 then mp3_code_size ?v ?l ?i ?r + uint (m3_Padding ?h) * 4 else mp3_code_size ?v ?l ?i ?r + uint (m3_Padding ?h)) = m"
      unfolding m_def by (simp cong: if_cong)
  qed (use n t in \<open>simp_all add: iso_samples_def\<close>)
  moreover have "?h\<lparr>m3_SampleSize := iso_samples ?v ?l, m3_FrameSize := m\<rparr> = mp3_read h"
    using v by (simp add: mp3_valid_def mp3_read_def m_def)
  ultimately show ?thesis by simp
qed

text \<open>What a header of the standard is read as.\<close>

lemma mp3_codes:
  assumes "v \<in> {VERSION_MPEG_1, VERSION_MPEG_2, VERSION_MPEG_2_5}" and "l \<in> {LAYER_1, LAYER_2, LAYER_3}"
  shows "mp3_version (if v = VERSION_MPEG_1 then 3 else if v = VERSION_MPEG_2 then 2 else 0) = v" "mp3_layer (4 - l) = l"
    "fits 2 (if v = VERSION_MPEG_1 then 3 else if v = VERSION_MPEG_2 then 2 else 0 :: byte)" "fits 2 (4 - l)"
  using assms by (auto simp: mp3_version_def mp3_layer_def intro: less_fits)

lemma sync_bits: "of_msb (bits_msb 11 (0x7FF :: u16)) = (0x7FF :: u64)" by code_simp

lemma DecodeMp3Head_bits:
  assumes "mp3_valid h" and "bits_of_bytes data = mp3_bits h @ r"
  shows "DecodeMp3Head data = ok (mp3_read h)"
proof -
  have v: "m3_Version h \<in> {VERSION_MPEG_1, VERSION_MPEG_2, VERSION_MPEG_2_5}" "m3_Layer h \<in> {LAYER_1, LAYER_2, LAYER_3}"
    and i: "fits 4 (m3_BitrateIndex h)" "fits 2 (m3_SampleRateIndex h)" and fit: "fits 1 (m3_Protecttion h)" "fits 1 (m3_Padding h)"
    "fits 1 (m3_Private h)" "fits 2 (m3_Mode h)" "fits 2 (m3_ModeExtension h)" "fits 1 (m3_Copyright h)" "fits 1 (m3_Original h)" "fits 2 (m3_Emphasis h)"
    using assms(1) by (auto simp: mp3_valid_def intro: less_fits)
  have len: "32 \<le> 8 * length data" using arg_cong [OF assms(2), of length] by (simp add: mp3_bits_def)
  then have ne: "data \<noteq> []" by auto
  have f: "drop 0 (bits_of_bytes data) = mp3_bits h @ r" using assms(2) by simp
  have sync: "field data 0 n = (of_msb (take n (mp3_bits h @ r)) :: u64)" for n by (rule field_at(2) [OF f])
  have at: "field data k n = (of_msb (take n (drop k (mp3_bits h @ r))) :: byte)" for k n using field_at(1) [OF f, of k n] by simp
  let ?v = "if m3_Version h = VERSION_MPEG_1 then 3 else if m3_Version h = VERSION_MPEG_2 then 2 else 0 :: byte"
  have "field data 0 11 = (0x7FF :: u64)" using sync [of 11] sync_bits by (simp add: mp3_bits_def)
  moreover have "field data 11 2 = ?v" "field data 13 2 = 4 - m3_Layer h" "field data 15 1 = m3_Protecttion h" "field data 16 4 = m3_BitrateIndex h"
    "field data 20 2 = m3_SampleRateIndex h" "field data 22 1 = m3_Padding h" "field data 23 1 = m3_Private h" "field data 24 2 = m3_Mode h"
    "field data 26 2 = m3_ModeExtension h" "field data 28 1 = m3_Copyright h" "field data 29 1 = m3_Original h" "field data 30 2 = m3_Emphasis h"
    using at [ of 11] at [ of 13] at [ of 15] at [ of 16] at [ of 20]
      at [ of 22] at [ of 23] at [ of 24] at [ of 26] at [ of 28]
      at [ of 29] at [ of 30] i fit mp3_codes [OF v]
    by (simp_all add: mp3_bits_def of_msb_fits)
  moreover have "mp3_sizes \<lparr>m3_Version = m3_Version h, m3_Layer = m3_Layer h, m3_Protecttion = m3_Protecttion h,
      m3_BitrateIndex = m3_BitrateIndex h, m3_SampleRateIndex = m3_SampleRateIndex h, m3_Padding = m3_Padding h, m3_Private = m3_Private h,
      m3_Mode = m3_Mode h, m3_ModeExtension = m3_ModeExtension h, m3_Copyright = m3_Copyright h, m3_Original = m3_Original h,
      m3_Emphasis = m3_Emphasis h, m3_SampleSize = 0, m3_FrameSize = 0\<rparr> = ok (mp3_read h)"
    using mp3_sizes_valid [OF assms(1)] by (cases h) simp
  ultimately show ?thesis using ne len mp3_codes [OF v]
    by (simp add: DecodeMp3Head_def NewBitStream_cur cur_simps mp3_fields_def)
qed

section \<open>Files of frames and tags\<close>

text \<open>The parts of a file: a frame with its header, an ID3v2 tag with its body, an ID3v1 tag.\<close>

datatype mp3_part = Frame MP3FrameHead bytes | Tag2 "bytes" bytes | Tag1 bytes

text \<open>The bytes of a part; the size of an ID3v2 tag has four groups of seven bits.\<close>

fun mp3_part_bytes :: "mp3_part \<Rightarrow> bytes" where
  "mp3_part_bytes (Frame h body) = pack_bits (mp3_bits h) @ body"
| "mp3_part_bytes (Tag2 v body) = map of_char ''ID3'' @ v @
     [word_of_nat (length body div 2097152), word_of_nat (length body div 16384 mod 128), word_of_nat (length body div 128 mod 128),
      word_of_nat (length body mod 128)] @ body"
| "mp3_part_bytes (Tag1 body) = map of_char ''TAG'' @ body"

fun mp3_part_ok :: "mp3_part \<Rightarrow> bool" where
  "mp3_part_ok (Frame h body) \<longleftrightarrow> mp3_valid h \<and> m3_FrameSize h = 4 + glen body \<and>
     \<not> mp3_wrong (m3_Version h) (m3_Layer h) (unat (m3_BitrateIndex h)) (unat (m3_SampleRateIndex h))"
| "mp3_part_ok (Tag2 v body) \<longleftrightarrow> length v = 3 \<and> length body < 2 ^ 28"
| "mp3_part_ok (Tag1 body) \<longleftrightarrow> length body = 125"

fun mp3_deliver :: "(MP3FrameHead \<Rightarrow> bytes \<Rightarrow> 's \<Rightarrow> 's) \<Rightarrow> mp3_part \<Rightarrow> 's \<Rightarrow> 's" where
  "mp3_deliver f (Frame h body) st = f h (mp3_part_bytes (Frame h body)) st"
| "mp3_deliver f p st = st"

lemma mp3_bits_length [simp]: "length (mp3_bits h) = 32" by (simp add: mp3_bits_def)

lemma frame_bits: "bits_of_bytes (mp3_part_bytes (Frame h body) @ r) = mp3_bits h @ bits_of_bytes (body @ r)"
  by (simp add: bits_of_pack_bits)

lemma frame_header_length [simp]: "length (pack_bits (mp3_bits h)) = 4" by (simp add: pack_bits_def)

lemma take_sync: "take 8 (bits_msb 11 (0x7FF :: u16)) = bits_msb 8 (255 :: byte)" by code_simp

lemma frame_first: "\<exists>r. mp3_part_bytes (Frame h body) = 255 # r"
proof -
  obtain b r where p: "mp3_part_bytes (Frame h body) = b # r" by (cases "mp3_part_bytes (Frame h body)") (simp_all add: pack_bits_def)
  have "bits_msb 8 b @ bits_of_bytes r = mp3_bits h @ bits_of_bytes body"
    using frame_bits [of h body "[]"] unfolding append_Nil2 p bits_of_bytes_Cons .
  then have "take 8 (bits_msb 8 b @ bits_of_bytes r) = take 8 (mp3_bits h @ bits_of_bytes body)" by (rule arg_cong)
  then have "bits_msb 8 b = bits_msb 8 (255 :: byte)" by (simp add: mp3_bits_def take_sync)
  then show ?thesis using p by simp
qed

lemma push_7:
  assumes "k < 128"
  shows "push_bit 7 x OR ucast ((word_of_nat k :: byte) AND 0x7F) = x * 128 + (word_of_nat k :: u32)"
proof -
  have "(word_of_nat k :: byte) AND 0x7F = take_bit 7 (word_of_nat k)" by (simp add: take_bit_eq_mask mask_eq_exp_minus_1)
  moreover have "unat (take_bit 7 (word_of_nat k :: byte)) = k" using assms by (simp add: take_bit_eq_mod unat_mod unat_of_nat)
  ultimately have "unat ((word_of_nat k :: byte) AND 0x7F) = k" by (simp only:)
  then have "ucast ((word_of_nat k :: byte) AND 0x7F) = (word_of_nat k :: u32)"
    by (simp add: word_unat_eq_iff unat_of_nat unsigned_ucast_eq take_bit_eq_mod)
  moreover have "push_bit 7 x OR (word_of_nat k :: u32) = push_bit 7 x + word_of_nat k"
  proof (rule disjunctive_add_eq_or [symmetric])
    have "\<not> bit (word_of_nat k :: u32) n" if "7 \<le> n" for n
      using fits_bit [OF less_fits [of "word_of_nat k :: u32" 7] that] assms by (simp add: unat_of_nat)
    then show "push_bit 7 x AND (word_of_nat k :: u32) = 0"
      by (intro bit_word_eqI) (auto simp: bit_and_iff bit_push_bit_iff not_le [symmetric])
  qed
  ultimately show ?thesis by (simp add: push_bit_eq_mult)
qed

lemma id3_size_read:
  assumes "n < 2 ^ 28" and "length v = 3"
  shows "id3_size (map of_char ''ID3'' @ v @
     [word_of_nat (n div 2097152), word_of_nat (n div 16384 mod 128), word_of_nat (n div 128 mod 128), word_of_nat (n mod 128)] @ r) = Some (word_of_nat n)"
proof -
  obtain v1 v2 v3 where v: "v = [v1, v2, v3]" using assms(2) by (auto simp: length_Suc_conv numeral_3_eq_3)
  have top: "n div 2097152 < 128" using assms(1) by (simp add: div_less_iff_less_mult)
  have first: "ucast ((word_of_nat (n div 2097152) :: byte) AND 0x7F) = (word_of_nat (n div 2097152) :: u32)"
    using push_7 [OF top, of 0] by simp
  have "n div 2097152 = n div 128 div 128 div 128" "n div 16384 = n div 128 div 128" by (simp_all flip: div_mult2_eq)
  then have "((n div 2097152 * 128 + n div 16384 mod 128) * 128 + n div 128 mod 128) * 128 + n mod 128 = n"
    by (simp only: div_mult_mod_eq)
  from arg_cong [OF this, of "word_of_nat :: nat \<Rightarrow> u32"]
  have "((word_of_nat (n div 2097152) * 128 + word_of_nat (n div 16384 mod 128)) * 128 + word_of_nat (n div 128 mod 128)) * 128 +
      word_of_nat (n mod 128) = (word_of_nat n :: u32)"
    by (simp only: of_nat_add of_nat_mult of_nat_numeral)
  moreover have "n div 16384 mod 128 < 128" "n div 128 mod 128 < 128" "n mod 128 < 128" by simp_all
  note lows = push_7 [OF this(1)] push_7 [OF this(2)] push_7 [OF this(3)]
  let ?d = "map of_char ''ID3'' @ v @ [word_of_nat (n div 2097152), word_of_nat (n div 16384 mod 128), word_of_nat (n div 128 mod 128), word_of_nat (n mod 128)] @ r"
  have "idx ?d 6 = Some (word_of_nat (n div 2097152))" "idx ?d 7 = Some (word_of_nat (n div 16384 mod 128))"
    "idx ?d 8 = Some (word_of_nat (n div 128 mod 128))" "idx ?d 9 = Some (word_of_nat (n mod 128))" by (simp_all add: idx_def v)
  ultimately show ?thesis by (simp only: id3_size_def bind.bind_lunit Let_def first lows)
qed

lemma split_frame:
  assumes "mp3_part_ok (Frame h body)"
  shows "SplitMp3Frames (mp3_part_bytes (Frame h body) @ r) (Some f) st = SplitMp3Frames r (Some f) (mp3_deliver f (Frame h body) st)"
proof -
  let ?d = "mp3_part_bytes (Frame h body) @ r"
  obtain q where q: "mp3_part_bytes (Frame h body) = 255 # q" using frame_first by blast
  have p: "\<not> has_prefix ?d ''ID3''" "\<not> has_prefix ?d ''TAG''" "?d \<noteq> []" unfolding q by (simp_all add: has_prefix_def)
  have h: "mp3_valid h" "mp3_read h = h" using assms mp3_read_size [of h] by simp_all
  have "DecodeMp3Head ?d = ok h" using DecodeMp3Head_bits [OF h(1) frame_bits] h(2) by simp
  moreover have n: "m3_FrameSize h = int (length (mp3_part_bytes (Frame h body)))" using assms by simp
  moreover have "slice_to ?d (m3_FrameSize h) = Some (mp3_part_bytes (Frame h body))" "slice_from ?d (m3_FrameSize h) = Some r"
    unfolding n by (simp_all del: mp3_part_bytes.simps)
  ultimately show ?thesis using p
    by (subst SplitMp3Frames.simps) (simp add: Let_def del: mp3_part_bytes.simps append_is_Nil_conv)
qed

lemma split_tag2:
  assumes "mp3_part_ok (Tag2 v body)"
  shows "SplitMp3Frames (mp3_part_bytes (Tag2 v body) @ r) (Some f) st = SplitMp3Frames r (Some f) st"
proof -
  let ?d = "mp3_part_bytes (Tag2 v body) @ r" and ?n = "length body"
  have v: "length v = 3" "?n < 2 ^ 28" using assms by simp_all
  have p: "has_prefix ?d ''ID3''" "?d \<noteq> []" "\<not> glen ?d < 10" using v by (simp_all add: has_prefix_def)
  have "unat (word_of_nat ?n :: u32) = ?n" using v(2) by (simp add: unat_of_nat)
  then have n: "uint (word_of_nat ?n :: u32) = int ?n" by (simp only: uint_nat)
  have s: "id3_size ?d = Some (word_of_nat ?n)" using id3_size_read [OF v(2,1), of "body @ r"] by simp
  have "length (mp3_part_bytes (Tag2 v body)) = 10 + ?n" using v by simp
  then have "slice_from ?d (10 + int ?n) = Some r" "\<not> int ?n + 10 > glen ?d"
    by (simp_all add: slice_from_def nat_add_distrib del: mp3_part_bytes.simps)
  then show ?thesis using p s n
    by (subst SplitMp3Frames.simps) (simp del: mp3_part_bytes.simps append_is_Nil_conv)
qed

lemma split_tag1:
  assumes "mp3_part_ok (Tag1 body)"
  shows "SplitMp3Frames (mp3_part_bytes (Tag1 body) @ r) (Some f) st = SplitMp3Frames r (Some f) st"
proof -
  let ?d = "mp3_part_bytes (Tag1 body) @ r"
  have p: "\<not> has_prefix ?d ''ID3''" "has_prefix ?d ''TAG''" "?d \<noteq> []" "\<not> glen ?d < 128" "slice_from ?d 128 = Some r"
    using assms by (simp_all add: has_prefix_def slice_from_def)
  then show ?thesis by (subst SplitMp3Frames.simps) (simp del: mp3_part_bytes.simps append_is_Nil_conv)
qed

lemma split_part:
  "mp3_part_ok p \<Longrightarrow> SplitMp3Frames (mp3_part_bytes p @ r) (Some f) st = SplitMp3Frames r (Some f) (mp3_deliver f p st)"
  using split_frame split_tag2 split_tag1 by (cases p) (simp_all del: mp3_part_bytes.simps mp3_part_ok.simps mp3_deliver.simps(1))

lemma split_parts:
  "list_all mp3_part_ok ps \<Longrightarrow> SplitMp3Frames (concat (map mp3_part_bytes ps)) (Some f) st = Some (None, fold (mp3_deliver f) ps st)"
proof (induction ps arbitrary: st)
  case Nil
  show ?case by (subst SplitMp3Frames.simps) simp
next
  case (Cons p ps)
  then show ?case by (simp add: split_part del: mp3_part_bytes.simps mp3_part_ok.simps)
qed

text \<open>Layer I, 32 kbit/s at 44.1 kHz: eight slots of four bytes, for which the code has 34 bytes.\<close>

lemma layer1_size_wrong:
  "iso_size 1 1 1 0 0 = 32 \<and> map_option (map_sum (\<lambda>_. ()) m3_FrameSize) (DecodeMp3Head [0xFF, 0xFF, 0x10, 0x00]) = Some (Inr 34)"
  by code_simp


definition sample_mp3 :: MP3FrameHead where
  "sample_mp3 = \<lparr>m3_Version = 1, m3_Layer = 3, m3_Protecttion = 1, m3_BitrateIndex = 1, m3_SampleRateIndex = 1, m3_Padding = 0, m3_Private = 0,
     m3_Mode = 3, m3_ModeExtension = 0, m3_Copyright = 0, m3_Original = 1, m3_Emphasis = 0, m3_SampleSize = 1152, m3_FrameSize = 96\<rparr>"

text \<open>Layer I at 32 kbit/s and 44.1 kHz.\<close>

definition wrong_mp3 :: MP3FrameHead where
  "wrong_mp3 = sample_mp3\<lparr>m3_Layer := 1, m3_SampleRateIndex := 0, m3_SampleSize := 384, m3_FrameSize := 32\<rparr>"


end
