(* ===== verification/Vp8.thy ===== *)
theory Vp8
  imports BitStream
begin

text \<open>
  VP8 frames, \<open>go-codec/vp8.go\<close>: the frame tag and the header of a key frame.  A frame of RFC 6386
  is read back, and nothing panics.
\<close>

unbundle bit_operations_syntax

record VP8FrameTag =
  vp_FrameType :: u32
  vp_Version :: u32
  vp_Display :: u32
  vp_FirstPartSize :: u32

record VP8KeyFrameHead =
  vk_Width :: int
  vk_Height :: int
  vk_HorizScale :: int
  vk_VertScale :: int

definition DecodeFrameTag :: "bytes \<Rightarrow> (codec_error, VP8FrameTag) result" where
  "DecodeFrameTag frame =
     (if glen frame < 3 then err (ErrMsg ''frame bytes < 3'')
      else do {
        c \<leftarrow> idx frame 2;
        b \<leftarrow> idx frame 1;
        a \<leftarrow> idx frame 0;
        let tmp = push_bit 16 (ucast c) OR push_bit 8 (ucast b) OR ucast a;
        ok \<lparr>vp_FrameType = tmp AND 0x01, vp_Version = drop_bit 1 tmp AND 0x07, vp_Display = drop_bit 4 tmp AND 0x01,
          vp_FirstPartSize = drop_bit 5 tmp AND 0x7FFFF\<rparr>
      })"

definition DecodeKeyFrameHead :: "bytes \<Rightarrow> (codec_error, VP8KeyFrameHead) result" where
  "DecodeKeyFrameHead frame =
     (if glen frame < 7 then err (ErrMsg ''frame bytes < 3'')
      else do {
        b0 \<leftarrow> idx frame 0;
        b1 \<leftarrow> idx frame 1;
        b2 \<leftarrow> idx frame 2;
        if b0 \<noteq> 0x9d \<or> b1 \<noteq> 0x01 \<or> b2 \<noteq> 0x2a then err (ErrMsg ''not find Start code'')
        else do {
          w0 \<leftarrow> idx frame 3;
          w1 \<leftarrow> idx frame 4;
          h0 \<leftarrow> idx frame 5;
          h1 \<leftarrow> idx frame 6;
          ok \<lparr>vk_Width = uint (push_bit 8 (ucast (w1 AND 0x3f)) OR (ucast w0 :: u16)),
            vk_Height = uint (push_bit 8 (ucast (h1 AND 0x3f)) OR (ucast h0 :: u16)),
            vk_HorizScale = uint (drop_bit 6 w1), vk_VertScale = uint (drop_bit 6 h1)\<rparr>
        }
      })"

definition IsKeyFrame :: "bytes \<Rightarrow> bool option" where
  "IsKeyFrame frame = do {
     r \<leftarrow> DecodeFrameTag frame;
     (case r of Inl _ \<Rightarrow> Some False | Inr tag \<Rightarrow> Some (vp_FrameType tag = 0))
   }"

definition GetResloution :: "bytes \<Rightarrow> (codec_error, int \<times> int) result" where
  "GetResloution frame = do {
     key \<leftarrow> IsKeyFrame frame;
     if \<not> key then err (ErrMsg ''the frame is not Key frame'')
     else do {
       rest \<leftarrow> slice_from frame 3;
       rbind (DecodeKeyFrameHead rest) (\<lambda>head. ok (vk_Width head, vk_Height head))
     }
   }"

text \<open>No frame makes the code panic: the tag is at least as long as what is cut off.\<close>

lemma GetResloution_total: "\<exists>r. GetResloution frame = Some r"
proof -
  obtain k where k: "IsKeyFrame frame = Some k" "k \<Longrightarrow> 3 \<le> length frame"
    by (cases "glen frame < 3"; cases frame; cases "tl frame") (auto simp: IsKeyFrame_def DecodeFrameTag_def idx_def Let_def Suc_le_eq)
  have "\<exists>r. DecodeKeyFrameHead rest = Some r" for rest by (simp add: DecodeKeyFrameHead_def idx_def)
  then show ?thesis using k by (cases k) (auto simp: GetResloution_def slice_from_def intro!: rbind_total)
qed

text \<open>A key frame of RFC 6386, section 9.1: the sizes have fourteen bits and two bits of scale.\<close>

definition vp8_key_frame :: "nat \<Rightarrow> nat \<Rightarrow> nat \<Rightarrow> nat \<Rightarrow> bytes" where
  "vp8_key_frame w ws h hs = [0x9d, 0x01, 0x2a, word_of_nat (w mod 256), word_of_nat (w div 256 + 64 * ws),
     word_of_nat (h mod 256), word_of_nat (h div 256 + 64 * hs)]"

lemma vp8_size:
  assumes "w < 2 ^ 14" and "s < 4"
  shows "uint (push_bit 8 (ucast ((word_of_nat (w div 256 + 64 * s) :: byte) AND 0x3f)) OR (ucast (word_of_nat (w mod 256) :: byte) :: u16)) = int w"
    and "uint (drop_bit 6 (word_of_nat (w div 256 + 64 * s) :: byte)) = int s"
proof -
  let ?b = "word_of_nat (w div 256 + 64 * s) :: byte"
  have q: "w div 256 < 64" using assms(1) by (simp add: div_less_iff_less_mult)
  have byte: "n < 256 \<Longrightarrow> unat (word_of_nat n :: byte) = n" for n by (simp add: unat_of_nat)
  have u: "unat ?b = w div 256 + 64 * s" using assms(2) q by (intro byte) simp
  have "?b AND 0x3f = take_bit 6 ?b" by (simp add: take_bit_eq_mask mask_eq_exp_minus_1)
  moreover have "unat (take_bit 6 ?b) = w div 256" using q by (simp add: take_bit_eq_mod unat_mod u del: of_nat_add of_nat_mult)
  ultimately have hi: "ucast (?b AND 0x3f) = (word_of_nat (w div 256) :: u16)"
    using q by (simp add: word_unat_eq_iff unat_of_nat unsigned_ucast_eq take_bit_eq_mod)
  have lo: "ucast (word_of_nat (w mod 256) :: byte) = (word_of_nat (w mod 256) :: u16)"
    by (simp add: word_unat_eq_iff unat_of_nat unsigned_ucast_eq take_bit_eq_mod)
  have "push_bit 8 (word_of_nat (w div 256)) OR (word_of_nat (w mod 256) :: u16) = push_bit 8 (word_of_nat (w div 256)) + word_of_nat (w mod 256)"
  proof (rule disjunctive_add_eq_or [symmetric])
    have "\<not> bit (word_of_nat (w mod 256) :: u16) n" if "8 \<le> n" for n
      using fits_bit [OF less_fits [of "word_of_nat (w mod 256) :: u16" 8] that] by (simp add: unat_of_nat)
    then show "push_bit 8 (word_of_nat (w div 256)) AND (word_of_nat (w mod 256) :: u16) = 0"
      by (intro bit_word_eqI) (auto simp: bit_and_iff bit_push_bit_iff not_le [symmetric])
  qed
  also have "\<dots> = word_of_nat (w div 256 * 256 + w mod 256)" by (simp only: push_bit_eq_mult of_nat_add of_nat_mult) simp
  also have "\<dots> = word_of_nat w" by (simp only: div_mult_mod_eq)
  finally have "unat (push_bit 8 (word_of_nat (w div 256)) OR (word_of_nat (w mod 256) :: u16)) = w" using assms(1) by (simp add: unat_of_nat)
  then show "uint (push_bit 8 (ucast (?b AND 0x3f)) OR (ucast (word_of_nat (w mod 256) :: byte) :: u16)) = int w"
    by (simp only: hi lo uint_nat)
  have "(w div 256 + 64 * s) div 64 = s" using q by simp
  then have "unat (drop_bit 6 ?b) = s" by (simp add: drop_bit_eq_div unat_div u del: of_nat_add of_nat_mult)
  then show "uint (drop_bit 6 ?b) = int s" by (simp only: uint_nat)
qed

lemma vp8_key_frame_read:
  assumes "w < 2 ^ 14" "h < 2 ^ 14" "ws < 4" "hs < 4"
  shows "DecodeKeyFrameHead (vp8_key_frame w ws h hs @ r) = ok \<lparr>vk_Width = int w, vk_Height = int h, vk_HorizScale = int ws, vk_VertScale = int hs\<rparr>"
  using vp8_size [OF assms(1,3)] vp8_size [OF assms(2,4)]
  by (simp add: DecodeKeyFrameHead_def vp8_key_frame_def idx_def)

end
