(* ===== verification/Pes.thy ===== *)
theory Pes
  imports BitFields
begin

text \<open>
  PES packets, \<open>go-mpeg2/pes-proto.go\<close>: the header with its optional fields, the decoder for
  MPEG-2 and the one for MPEG-1, the encoder.

  A decoder returns its error, the receiver with the fields set so far and the stream.  In
  \<open>PesPacket\<close> a nil payload is the empty list: \<open>RemainData\<close> is nil exactly when nothing is left.

  The lemmas: a packet that is written is read back, a cut packet is reported as such with the
  payload that is there, and no bytes make the decoders panic or run on.
\<close>

unbundle bit_operations_syntax

datatype mpeg2_error = ErrNeedMore | ErrParser | ErrStreamIdNotFound | ErrStream codec_error
  | ErrSync | ErrAdaptationLength | ErrNoSection | ErrTableId | ErrSectionLength
  | ErrProgramInfoLength | ErrEsInfoLength | ErrUnsupportedSection | ErrPacketSize int
  | ErrNotFoundPid | ErrReader

type_synonym TS_STREAM_TYPE = int
type_synonym PES_STREAM_ID = int

definition TS_STREAM_AUDIO_MPEG1 :: TS_STREAM_TYPE where "TS_STREAM_AUDIO_MPEG1 = 0x03"
definition TS_STREAM_AUDIO_MPEG2 :: TS_STREAM_TYPE where "TS_STREAM_AUDIO_MPEG2 = 0x04"
definition TS_STREAM_AAC :: TS_STREAM_TYPE where "TS_STREAM_AAC = 0x0F"
definition TS_STREAM_H264 :: TS_STREAM_TYPE where "TS_STREAM_H264 = 0x1B"
definition TS_STREAM_H265 :: TS_STREAM_TYPE where "TS_STREAM_H265 = 0x24"

lemmas stream_types = TS_STREAM_AUDIO_MPEG1_def TS_STREAM_AUDIO_MPEG2_def TS_STREAM_AAC_def
  TS_STREAM_H264_def TS_STREAM_H265_def

definition PES_STREAM_PRIVATE :: PES_STREAM_ID where "PES_STREAM_PRIVATE = 0xBD"
definition PES_STREAM_AUDIO :: PES_STREAM_ID where "PES_STREAM_AUDIO = 0xC0"
definition PES_STREAM_VIDEO :: PES_STREAM_ID where "PES_STREAM_VIDEO = 0xE0"

lemmas stream_ids = PES_STREAM_PRIVATE_def PES_STREAM_AUDIO_def PES_STREAM_VIDEO_def

definition findPESIDByStreamType :: "TS_STREAM_TYPE \<Rightarrow> PES_STREAM_ID" where
  "findPESIDByStreamType cid =
     (if cid \<in> {TS_STREAM_AAC, TS_STREAM_AUDIO_MPEG1, TS_STREAM_AUDIO_MPEG2} then PES_STREAM_AUDIO
      else if cid \<in> {TS_STREAM_H264, TS_STREAM_H265} then PES_STREAM_VIDEO
      else PES_STREAM_PRIVATE)"

record PesPacket =
  Stream_id :: byte
  PES_packet_length :: u16
  PES_scrambling_control :: byte
  PES_priority :: byte
  Data_alignment_indicator :: byte
  pes_Copyright :: byte
  Original_or_copy :: byte
  PTS_DTS_flags :: byte
  ESCR_flag :: byte
  ES_rate_flag :: byte
  DSM_trick_mode_flag :: byte
  Additional_copy_info_flag :: byte
  PES_CRC_flag :: byte
  PES_extension_flag :: byte
  PES_header_data_length :: byte
  Pts :: u64
  Dts :: u64
  ESCR_base :: u64
  ESCR_extension :: u16
  ES_rate :: u32
  Trick_mode_control :: byte
  Trick_value :: byte
  Additional_copy_info :: byte
  Previous_PES_packet_CRC :: u16
  Pes_payload :: bytes

definition NewPesPacket :: PesPacket where
  "NewPesPacket = \<lparr>Stream_id = 0, PES_packet_length = 0, PES_scrambling_control = 0, PES_priority = 0,
     Data_alignment_indicator = 0, pes_Copyright = 0, Original_or_copy = 0, PTS_DTS_flags = 0,
     ESCR_flag = 0, ES_rate_flag = 0, DSM_trick_mode_flag = 0, Additional_copy_info_flag = 0,
     PES_CRC_flag = 0, PES_extension_flag = 0, PES_header_data_length = 0, Pts = 0, Dts = 0,
     ESCR_base = 0, ESCR_extension = 0, ES_rate = 0, Trick_mode_control = 0, Trick_value = 0,
     Additional_copy_info = 0, Previous_PES_packet_CRC = 0, Pes_payload = []\<rparr>"

section \<open>The decoder\<close>

definition pesOptionalFieldsSize :: "PesPacket \<Rightarrow> int" where
  "pesOptionalFieldsSize pkg =
     (if PTS_DTS_flags pkg AND 0x02 = 0x02 then 5 else 0) +
     (if PTS_DTS_flags pkg AND 0x03 = 0x03 then 5 else 0) +
     (if ESCR_flag pkg = 1 then 6 else 0) +
     (if ES_rate_flag pkg = 1 then 3 else 0) +
     (if DSM_trick_mode_flag pkg = 1 then 1 else 0) +
     (if Additional_copy_info_flag pkg = 1 then 1 else 0) +
     (if PES_CRC_flag pkg = 1 then 2 else 0)"

text \<open>The 33-bit value in three parts with markers, after a prefix of \<open>k\<close> bits.\<close>

definition read_timestamp :: "int \<Rightarrow> bitstream \<Rightarrow> (u64 \<times> bitstream) option" where
  "read_timestamp k bs = do {
     (a, bs) \<leftarrow> GetBits 3 (SkipBits k bs);
     (b, bs) \<leftarrow> GetBits 15 (SkipBits 1 bs);
     let t = push_bit 15 a OR b;
     (c, bs) \<leftarrow> GetBits 15 (SkipBits 1 bs);
     Some (push_bit 15 t OR c, SkipBits 1 bs)
   }"

text \<open>The nine bytes every packet has, after the start code was peeked at.\<close>

definition pes_fixed :: "PesPacket \<Rightarrow> bitstream \<Rightarrow> (PesPacket \<times> bitstream) option" where
  "pes_fixed pkg bs = do {
     (sid, bs) \<leftarrow> Uint8 8 (SkipBits 24 bs);
     (len, bs) \<leftarrow> Uint16 16 bs;
     (scrambling, bs) \<leftarrow> Uint8 2 (SkipBits 2 bs);
     (priority, bs) \<leftarrow> Uint8 1 bs;
     (alignment, bs) \<leftarrow> Uint8 1 bs;
     (copyright, bs) \<leftarrow> Uint8 1 bs;
     (original, bs) \<leftarrow> Uint8 1 bs;
     (ptsdts, bs) \<leftarrow> Uint8 2 bs;
     (escr, bs) \<leftarrow> Uint8 1 bs;
     (esrate, bs) \<leftarrow> Uint8 1 bs;
     (trick, bs) \<leftarrow> Uint8 1 bs;
     (copyinfo, bs) \<leftarrow> Uint8 1 bs;
     (crc, bs) \<leftarrow> Uint8 1 bs;
     (ext, bs) \<leftarrow> Uint8 1 bs;
     (hdrLen, bs) \<leftarrow> Uint8 8 bs;
     Some (pkg\<lparr>Stream_id := sid, PES_packet_length := len, PES_scrambling_control := scrambling,
       PES_priority := priority, Data_alignment_indicator := alignment, pes_Copyright := copyright,
       Original_or_copy := original, PTS_DTS_flags := ptsdts, ESCR_flag := escr,
       ES_rate_flag := esrate, DSM_trick_mode_flag := trick, Additional_copy_info_flag := copyinfo,
       PES_CRC_flag := crc, PES_extension_flag := ext, PES_header_data_length := hdrLen\<rparr>, bs)
   }"

definition pes_optional :: "PesPacket \<Rightarrow> bitstream \<Rightarrow> (PesPacket \<times> bitstream) option" where
  "pes_optional pkg bs = do {
     (pkg, bs) \<leftarrow> (if PTS_DTS_flags pkg AND 0x02 = 0x02 then do {
         (t, bs) \<leftarrow> read_timestamp 4 bs;
         Some (pkg\<lparr>Pts := t\<rparr>, bs)
       } else Some (pkg, bs));
     (pkg, bs) \<leftarrow> (if PTS_DTS_flags pkg AND 0x03 = 0x03 then do {
         (t, bs) \<leftarrow> read_timestamp 4 bs;
         Some (pkg\<lparr>Dts := t\<rparr>, bs)
       } else Some (pkg\<lparr>Dts := Pts pkg\<rparr>, bs));
     (pkg, bs) \<leftarrow> (if ESCR_flag pkg = 1 then do {
         (t, bs) \<leftarrow> read_timestamp 2 bs;
         (e, bs) \<leftarrow> Uint16 9 bs;
         Some (pkg\<lparr>ESCR_base := t, ESCR_extension := e\<rparr>, SkipBits 1 bs)
       } else Some (pkg, bs));
     (pkg, bs) \<leftarrow> (if ES_rate_flag pkg = 1 then do {
         (r, bs) \<leftarrow> Uint32 22 (SkipBits 1 bs);
         Some (pkg\<lparr>ES_rate := r\<rparr>, SkipBits 1 bs)
       } else Some (pkg, bs));
     (pkg, bs) \<leftarrow> (if DSM_trick_mode_flag pkg = 1 then do {
         (c, bs) \<leftarrow> Uint8 3 bs;
         (v, bs) \<leftarrow> Uint8 5 bs;
         Some (pkg\<lparr>Trick_mode_control := c, Trick_value := v\<rparr>, bs)
       } else Some (pkg, bs));
     (pkg, bs) \<leftarrow> (if Additional_copy_info_flag pkg = 1 then do {
         (c, bs) \<leftarrow> Uint8 7 (SkipBits 1 bs);
         Some (pkg\<lparr>Additional_copy_info := c\<rparr>, bs)
       } else Some (pkg, bs));
     (if PES_CRC_flag pkg = 1 then do {
         (c, bs) \<leftarrow> Uint16 16 bs;
         Some (pkg\<lparr>Previous_PES_packet_CRC := c\<rparr>, bs)
       } else Some (pkg, bs))
   }"

type_synonym pes_result = "(mpeg2_error option \<times> PesPacket \<times> bitstream) option"

definition pes_take_payload :: "int \<Rightarrow> PesPacket \<Rightarrow> bitstream \<Rightarrow> pes_result" where
  "pes_take_payload hdrLen pkg bs =
     (if PES_packet_length pkg = 0 then
        Some (None, pkg\<lparr>Pes_payload := RemainData bs\<rparr>, SkipBits (RemainBits bs) bs)
      else
        let dataLen = uint (PES_packet_length pkg) - 3 - hdrLen in
        if RemainBytes bs < dataLen then
          Some (Some ErrNeedMore, pkg\<lparr>Pes_payload := RemainData bs\<rparr>, UnRead ((9 + hdrLen) * 8) bs)
        else do {
          d \<leftarrow> slice_to (RemainData bs) dataLen;
          Some (None, pkg\<lparr>Pes_payload := d\<rparr>, SkipBits (dataLen * 8) bs)
        })"

definition pes_body :: "int \<Rightarrow> PesPacket \<Rightarrow> bitstream \<Rightarrow> pes_result" where
  "pes_body hdrLen pkg bs = do {
     (pkg, bs) \<leftarrow> pes_optional pkg (Markdot bs);
     let skip = hdrLen * 8 - DistanceFromMarkDot bs;
     let bs = (if skip > 0 then SkipBits skip bs else bs);
     if Err bs \<noteq> None then Some (Some ErrParser, pkg, bs)
     else pes_take_payload hdrLen pkg bs
   }"

definition pes_Decode :: "PesPacket \<Rightarrow> bitstream \<Rightarrow> pes_result" where
  "pes_Decode pkg bs =
     (if RemainBytes bs < 9 then Some (Some ErrNeedMore, pkg, bs)
      else do {
        (v, bs) \<leftarrow> NextBits 24 bs;
        if v \<noteq> 1 then Some (Some ErrParser, pkg, bs)
        else do {
          (pkg, bs) \<leftarrow> pes_fixed pkg bs;
          let hdrLen = uint (PES_header_data_length pkg);
          if PES_packet_length pkg \<noteq> 0 \<and> uint (PES_packet_length pkg) < 3 + hdrLen then Some (Some ErrParser, pkg, bs)
          else if pesOptionalFieldsSize pkg > hdrLen then Some (Some ErrParser, pkg, bs)
          else if RemainBytes bs < hdrLen then Some (Some ErrNeedMore, pkg, UnRead (9 * 8) bs)
          else pes_body hdrLen pkg bs
        }
      })"

section \<open>MPEG-1\<close>

text \<open>Bytes \<open>0xFF\<close> are skipped, here and in front of a section.\<close>

partial_function (option) skip_stuffing :: "bitstream \<Rightarrow> bitstream option" where
  "skip_stuffing bs =
     (if EOS bs then Some bs
      else do {
        (v, bs) \<leftarrow> NextBits 8 bs;
        if v = 0xFF then skip_stuffing (SkipBits 8 bs) else Some bs
      })"

declare skip_stuffing.simps [code]

text \<open>The switch over the next bits: \<open>Some\<close> error when no case fits.\<close>

definition mpeg1_timestamps :: "PesPacket \<Rightarrow> bitstream \<Rightarrow> pes_result" where
  "mpeg1_timestamps pkg bs = do {
     (v, bs) \<leftarrow> NextBits 4 bs;
     if v = 0x02 then do {
       (t, bs) \<leftarrow> read_timestamp 4 bs;
       Some (None, pkg\<lparr>Pts := t, Dts := t\<rparr>, bs)
     }
     else do {
       (v, bs) \<leftarrow> NextBits 4 bs;
       if v = 0x03 then do {
         (p, bs) \<leftarrow> read_timestamp 4 bs;
         (d, bs) \<leftarrow> read_timestamp 4 bs;
         Some (None, pkg\<lparr>Pts := p, Dts := d\<rparr>, bs)
       }
       else do {
         (v, bs) \<leftarrow> NextBits 8 bs;
         if v = 0x0F then Some (None, pkg, SkipBits 8 bs)
         else Some (Some (if Err bs \<noteq> None then ErrNeedMore else ErrParser), pkg, bs)
       }
     }
   }"

definition DecodeMpeg1 :: "PesPacket \<Rightarrow> bitstream \<Rightarrow> pes_result" where
  "DecodeMpeg1 pkg bs =
     (if RemainBytes bs < 6 then Some (Some ErrNeedMore, pkg, bs)
      else do {
        (v, bs) \<leftarrow> NextBits 24 bs;
        if v \<noteq> 1 then Some (Some ErrParser, pkg, bs)
        else do {
          (sid, bs) \<leftarrow> Uint8 8 (SkipBits 24 bs);
          (len, bs) \<leftarrow> Uint16 16 bs;
          let pkg = pkg\<lparr>Stream_id := sid, PES_packet_length := len\<rparr>;
          if len \<noteq> 0 \<and> RemainBytes bs < uint len then Some (Some ErrNeedMore, pkg, UnRead (6 * 8) bs)
          else do {
            bs \<leftarrow> skip_stuffing (Markdot bs);
            (v, bs) \<leftarrow> NextBits 2 bs;
            let bs = (if v = 0x01 then SkipBits 16 bs else bs);
            (e, pkg, bs) \<leftarrow> mpeg1_timestamps pkg bs;
            if e \<noteq> None then Some (e, pkg, bs)
            else if Err bs \<noteq> None then Some (Some ErrNeedMore, pkg, bs)
            else
              let loc = go_div (DistanceFromMarkDot bs) 8;
                  rest = uint (len - word_of_int loc) in
              if len \<noteq> 0 \<and> uint len < loc then Some (Some ErrParser, pkg, bs)
              else if len = 0 \<or> RemainBits bs \<le> rest * 8 then
                Some (None, pkg\<lparr>Pes_payload := RemainData bs\<rparr>, SkipBits (RemainBits bs) bs)
              else do {
                d \<leftarrow> slice_to (RemainData bs) rest;
                Some (None, pkg\<lparr>Pes_payload := d\<rparr>, SkipBits (rest * 8) bs)
              }
          }
        }
      })"

section \<open>The encoder\<close>

definition put_timestamp :: "byte \<Rightarrow> int \<Rightarrow> u64 \<Rightarrow> bitwriter \<Rightarrow> bitwriter option" where
  "put_timestamp prefix k t bsw = do {
     bsw \<leftarrow> PutUint8 prefix k bsw;
     bsw \<leftarrow> PutUint64 (drop_bit 30 t) 3 bsw;
     bsw \<leftarrow> PutUint8 0x01 1 bsw;
     bsw \<leftarrow> PutUint64 (drop_bit 15 t) 15 bsw;
     bsw \<leftarrow> PutUint8 0x01 1 bsw;
     bsw \<leftarrow> PutUint64 t 15 bsw;
     PutUint8 0x01 1 bsw
   }"

definition pes_Encode_head :: "PesPacket \<Rightarrow> bitwriter \<Rightarrow> bitwriter option" where
  "pes_Encode_head pkg bsw = do {
     bsw \<leftarrow> PutBytes [0x00, 0x00, 0x01] bsw;
     bsw \<leftarrow> PutByte (Stream_id pkg) bsw;
     bsw \<leftarrow> PutUint16 (PES_packet_length pkg) 16 bsw;
     bsw \<leftarrow> PutUint8 0x02 2 bsw;
     bsw \<leftarrow> PutUint8 (PES_scrambling_control pkg) 2 bsw;
     bsw \<leftarrow> PutUint8 (PES_priority pkg) 1 bsw;
     bsw \<leftarrow> PutUint8 (Data_alignment_indicator pkg) 1 bsw;
     bsw \<leftarrow> PutUint8 (pes_Copyright pkg) 1 bsw;
     bsw \<leftarrow> PutUint8 (Original_or_copy pkg) 1 bsw;
     bsw \<leftarrow> PutUint8 (PTS_DTS_flags pkg) 2 bsw;
     bsw \<leftarrow> PutUint8 (ESCR_flag pkg) 1 bsw;
     bsw \<leftarrow> PutUint8 (ES_rate_flag pkg) 1 bsw;
     bsw \<leftarrow> PutUint8 (DSM_trick_mode_flag pkg) 1 bsw;
     bsw \<leftarrow> PutUint8 (Additional_copy_info_flag pkg) 1 bsw;
     bsw \<leftarrow> PutUint8 (PES_CRC_flag pkg) 1 bsw;
     bsw \<leftarrow> PutUint8 (PES_extension_flag pkg) 1 bsw;
     PutByte (PES_header_data_length pkg) bsw
   }"

definition pes_Encode :: "PesPacket \<Rightarrow> bitwriter \<Rightarrow> bitwriter option" where
  "pes_Encode pkg bsw = do {
     bsw \<leftarrow> pes_Encode_head pkg bsw;
     bsw \<leftarrow> (if PTS_DTS_flags pkg = 0x02 then put_timestamp 0x02 4 (Pts pkg) bsw else Some bsw);
     bsw \<leftarrow> (if PTS_DTS_flags pkg = 0x03 then do {
         bsw \<leftarrow> put_timestamp 0x03 4 (Pts pkg) bsw;
         put_timestamp 0x01 4 (Dts pkg) bsw
       } else Some bsw);
     bsw \<leftarrow> (if ESCR_flag pkg = 1 then put_timestamp 0x03 2 (ESCR_base pkg) bsw else Some bsw);
     PutBytes (Pes_payload pkg) bsw
   }"

section \<open>What is written\<close>

definition timestamp_bits :: "nat \<Rightarrow> byte \<Rightarrow> u64 \<Rightarrow> bool list" where
  "timestamp_bits k prefix t = bits_msb k prefix @ bits_msb 3 (drop_bit 30 t) @ bits_msb 1 (1 :: byte) @
     bits_msb 15 (drop_bit 15 t) @ bits_msb 1 (1 :: byte) @ bits_msb 15 t @ bits_msb 1 (1 :: byte)"

lemma length_timestamp_bits [simp]: "length (timestamp_bits k prefix t) = k + 36"
  by (simp add: timestamp_bits_def)

lemma appends_put_timestamp:
  assumes "0 < n" and "n \<le> 8" and "xs = timestamp_bits (nat n) prefix t"
  shows "appends k (put_timestamp prefix n t) xs"
proof -
  have "appends k (\<lambda>s. put_timestamp prefix n t s) (timestamp_bits (nat n) prefix t)"
    unfolding put_timestamp_def timestamp_bits_def
    by (intro appends_bind appends_puts) (use assms in simp_all)
  then show ?thesis using assms by simp
qed

definition pes_head_bits :: "PesPacket \<Rightarrow> bool list" where
  "pes_head_bits pkg = bits_of_bytes [0x00, 0x00, 0x01] @ bits_msb 8 (Stream_id pkg) @
     bits_msb 16 (PES_packet_length pkg) @ bits_msb 2 (0x02 :: byte) @
     bits_msb 2 (PES_scrambling_control pkg) @ bits_msb 1 (PES_priority pkg) @
     bits_msb 1 (Data_alignment_indicator pkg) @ bits_msb 1 (pes_Copyright pkg) @
     bits_msb 1 (Original_or_copy pkg) @ bits_msb 2 (PTS_DTS_flags pkg) @
     bits_msb 1 (ESCR_flag pkg) @ bits_msb 1 (ES_rate_flag pkg) @ bits_msb 1 (DSM_trick_mode_flag pkg) @
     bits_msb 1 (Additional_copy_info_flag pkg) @ bits_msb 1 (PES_CRC_flag pkg) @
     bits_msb 1 (PES_extension_flag pkg) @ bits_msb 8 (PES_header_data_length pkg)"

definition pes_times_bits :: "PesPacket \<Rightarrow> bool list" where
  "pes_times_bits pkg = (if PTS_DTS_flags pkg = 0x02 then timestamp_bits 4 0x02 (Pts pkg) else []) @
     (if PTS_DTS_flags pkg = 0x03 then timestamp_bits 4 0x03 (Pts pkg) @ timestamp_bits 4 0x01 (Dts pkg) else [])"

lemma length_pes_head_bits [simp]: "length (pes_head_bits pkg) = 72"
  by (simp add: pes_head_bits_def)

lemma appends_pes_Encode_head: "appends 0 (pes_Encode_head pkg) (pes_head_bits pkg)"
proof -
  have "appends 0 (\<lambda>s. pes_Encode_head pkg s) (pes_head_bits pkg)"
    unfolding pes_Encode_head_def pes_head_bits_def
    by (intro appends_bind appends_puts) simp_all
  then show ?thesis by simp
qed

lemma appends_pes_Encode:
  assumes "ESCR_flag pkg \<noteq> 1"
  shows "appends 0 (pes_Encode pkg) (pes_head_bits pkg @ pes_times_bits pkg @ bits_of_bytes (Pes_payload pkg))"
proof -
  have "appends 0 (\<lambda>s. pes_Encode pkg s) (pes_head_bits pkg @
      (if PTS_DTS_flags pkg = 0x02 then timestamp_bits 4 0x02 (Pts pkg) else []) @
      (if PTS_DTS_flags pkg = 0x03 then timestamp_bits 4 0x03 (Pts pkg) @ timestamp_bits 4 0x01 (Dts pkg) else []) @
      (if ESCR_flag pkg = 1 then timestamp_bits 2 0x03 (ESCR_base pkg) else []) @ bits_of_bytes (Pes_payload pkg))"
    unfolding pes_Encode_def
    by (intro appends_bind appends_pes_Encode_head appends_if appends_put_timestamp appends_puts appends_none)
      (use assms in simp_all)
  then show ?thesis using assms by (simp add: pes_times_bits_def)
qed

text \<open>Only the part of \<open>ESCR_base\<close> is written, and it leaves the writer off a byte boundary: the payload is lost.\<close>

lemma pes_Encode_ESCR:
  assumes "wrote s w m" and "8 dvd length w" and "ESCR_flag pkg = 1"
  shows "\<exists>t. pes_Encode pkg s = Some t \<and> bsw_err t = Some ErrNotByteAligned"
proof -
  let ?f = "\<lambda>bsw. do {
     bsw \<leftarrow> pes_Encode_head pkg bsw;
     bsw \<leftarrow> (if PTS_DTS_flags pkg = 0x02 then put_timestamp 0x02 4 (Pts pkg) bsw else Some bsw);
     bsw \<leftarrow> (if PTS_DTS_flags pkg = 0x03 then do {
         bsw \<leftarrow> put_timestamp 0x03 4 (Pts pkg) bsw;
         put_timestamp 0x01 4 (Dts pkg) bsw
       } else Some bsw);
     put_timestamp 0x03 2 (ESCR_base pkg) bsw
   }"
  let ?w = "pes_head_bits pkg @ (if PTS_DTS_flags pkg = 0x02 then timestamp_bits 4 0x02 (Pts pkg) else []) @
      (if PTS_DTS_flags pkg = 0x03 then timestamp_bits 4 0x03 (Pts pkg) @ timestamp_bits 4 0x01 (Dts pkg) else []) @
      timestamp_bits 2 0x03 (ESCR_base pkg)"
  have "appends 0 ?f ?w"
    by (intro appends_bind appends_pes_Encode_head appends_if appends_put_timestamp appends_puts appends_none) simp_all
  then obtain t where t: "?f s = Some t" "wrote t (w @ ?w) m"
    using assms(1,2) by (auto elim!: appendsE [of 0 ?f ?w s w m] simp: mod_eq_0_iff_dvd)
  have "length (w @ ?w) mod 8 \<noteq> 0" using assms(2) by auto
  then have "bitsoffset t \<noteq> 0" "bsw_err t = None"
    using wrote_offset(2,3) [OF t(2)] by (simp_all add: bsw_BitOffset_def)
  moreover have "pes_Encode pkg s = PutBytes (Pes_payload pkg) t"
  proof -
    have "pes_Encode pkg s = Option.bind (?f s) (PutBytes (Pes_payload pkg))"
      using assms(3) by (simp add: pes_Encode_def)
    then show ?thesis by (simp only: t(1) Option.bind.simps)
  qed
  ultimately show ?thesis by (simp add: PutBytes_def)
qed

section \<open>A header is read back\<close>

lemma read_timestamp_cur: "0 \<le> k \<Longrightarrow> p + nat k + 36 \<le> 8 * length buf \<Longrightarrow>
   read_timestamp k (cur m buf p) = Some (push_bit 15 (push_bit 15 (field buf (nat k + p) 3) OR
       field buf (4 + (nat k + p)) 15) OR field buf (20 + (nat k + p)) 15, cur m buf (36 + (nat k + p)))"
  by (simp add: read_timestamp_def cur_simps)

lemma timestamp_parts:
  assumes "fits 33 t"
  shows "push_bit 15 (push_bit 15 (take_bit 3 (drop_bit 30 t)) OR take_bit 15 (drop_bit 15 t)) OR take_bit 15 t = (t :: u64)"
proof (rule bit_word_eqI)
  fix n assume "n < LENGTH(64)"
  moreover have "n < 33" if "bit t n" using fits_bit [OF assms, of n] that by force
  ultimately show "bit (push_bit 15 (push_bit 15 (take_bit 3 (drop_bit 30 t)) OR take_bit 15 (drop_bit 15 t)) OR
      take_bit 15 t) n = bit t n"
    by (cases "n < 15"; cases "n < 30") (auto simp: bit_or_iff bit_push_bit_iff bit_take_bit_iff bit_drop_bit_eq)
qed

lemma timestamp_read:
  assumes "drop p (bits_of_bytes buf) = timestamp_bits (nat k) prefix t @ r" and "0 \<le> k" and "fits 33 t"
  shows "read_timestamp k (cur m buf p) = Some (t, cur m buf (36 + (nat k + p)))"
proof -
  have len: "p + nat k + 36 \<le> 8 * length buf" using arg_cong [OF assms(1), of length] by simp
  have "field buf (nat k + p) 3 = (take_bit 3 (drop_bit 30 t) :: u64)"
    "field buf (4 + (nat k + p)) 15 = (take_bit 15 (drop_bit 15 t) :: u64)"
    "field buf (20 + (nat k + p)) 15 = (take_bit 15 t :: u64)"
    using field_at(1) [OF assms(1), of "nat k" 3, where 'a = 64] field_at(1) [OF assms(1), of "4 + nat k" 15, where 'a = 64]
      field_at(1) [OF assms(1), of "20 + nat k" 15, where 'a = 64]
    by (simp_all add: timestamp_bits_def of_msb_bits_msb add.assoc)
  then show ?thesis using read_timestamp_cur [OF assms(2) len] timestamp_parts [OF assms(3)] by simp
qed

lemma pes_fixed_cur: "p + 72 \<le> 8 * length buf \<Longrightarrow> pes_fixed pkg (cur m buf p) =
   Some (pkg\<lparr>Stream_id := field buf (24 + p) 8, PES_packet_length := field buf (32 + p) 16,
       PES_scrambling_control := field buf (50 + p) 2, PES_priority := field buf (52 + p) 1,
       Data_alignment_indicator := field buf (53 + p) 1, pes_Copyright := field buf (54 + p) 1,
       Original_or_copy := field buf (55 + p) 1, PTS_DTS_flags := field buf (56 + p) 2,
       ESCR_flag := field buf (58 + p) 1, ES_rate_flag := field buf (59 + p) 1,
       DSM_trick_mode_flag := field buf (60 + p) 1, Additional_copy_info_flag := field buf (61 + p) 1,
       PES_CRC_flag := field buf (62 + p) 1, PES_extension_flag := field buf (63 + p) 1,
       PES_header_data_length := field buf (64 + p) 8\<rparr>, cur m buf (72 + p))"
  by (simp add: pes_fixed_def cur_simps)

text \<open>A packet the encoder can write in full: timestamps and no other optional field.\<close>

definition pes_ok :: "PesPacket \<Rightarrow> bool" where
  "pes_ok pkg \<longleftrightarrow> fits 2 (PES_scrambling_control pkg) \<and> fits 1 (PES_priority pkg) \<and>
     fits 1 (Data_alignment_indicator pkg) \<and> fits 1 (pes_Copyright pkg) \<and> fits 1 (Original_or_copy pkg) \<and>
     ESCR_flag pkg = 0 \<and> ES_rate_flag pkg = 0 \<and> DSM_trick_mode_flag pkg = 0 \<and>
     Additional_copy_info_flag pkg = 0 \<and> PES_CRC_flag pkg = 0 \<and> fits 1 (PES_extension_flag pkg) \<and>
     fits 33 (Pts pkg) \<and> fits 33 (Dts pkg) \<and>
     (PTS_DTS_flags pkg = 3 \<and> PES_header_data_length pkg = 10 \<or>
      PTS_DTS_flags pkg = 2 \<and> PES_header_data_length pkg = 5 \<and> Dts pkg = Pts pkg) \<and>
     (PES_packet_length pkg = 0 \<or> 3 + uint (PES_header_data_length pkg) \<le> uint (PES_packet_length pkg))"

text \<open>What the receiver is afterwards; \<open>d\<close> is the payload.\<close>

definition pes_received :: "PesPacket \<Rightarrow> PesPacket \<Rightarrow> bytes \<Rightarrow> PesPacket" where
  "pes_received pkg0 pkg d = pkg\<lparr>ESCR_base := ESCR_base pkg0, ESCR_extension := ESCR_extension pkg0,
     ES_rate := ES_rate pkg0, Trick_mode_control := Trick_mode_control pkg0, Trick_value := Trick_value pkg0,
     Additional_copy_info := Additional_copy_info pkg0,
     Previous_PES_packet_CRC := Previous_PES_packet_CRC pkg0, Pes_payload := d\<rparr>"

lemma pes_received_sel [simp]:
  "Pes_payload (pes_received pkg0 pkg d) = d" "Pts (pes_received pkg0 pkg d) = Pts pkg"
  "Dts (pes_received pkg0 pkg d) = Dts pkg" "PES_packet_length (pes_received pkg0 pkg d) = PES_packet_length pkg"
  by (simp_all add: pes_received_def)

lemma pes_fixed_read:
  assumes "drop p (bits_of_bytes buf) = pes_head_bits pkg @ r" and "pes_ok pkg"
  shows "pes_fixed pkg0 (cur m buf p) = Some ((pes_received pkg0 pkg (Pes_payload pkg0))\<lparr>Pts := Pts pkg0, Dts := Dts pkg0\<rparr>,
      cur m buf (72 + p))"
    and "NextBits 24 (cur m buf p) = Some (1, cur m buf p)"
proof -
  have len: "p + 72 \<le> 8 * length buf" using arg_cong [OF assms(1), of length] by simp
  note at = field_at [OF assms(1)]
  have "field buf p 24 = (of_msb (bits_of_bytes [0, 0, 1]) :: u64)"
    using at(2) [of 24] by (simp add: pes_head_bits_def)
  also have "\<dots> = 1" by code_simp
  finally show "NextBits 24 (cur m buf p) = Some (1, cur m buf p)" using len by (simp add: NextBits_cur)
  have f: "PTS_DTS_flags pkg = 3 \<or> PTS_DTS_flags pkg = 2" "fits 2 (2 :: byte)" "fits 2 (3 :: byte)"
    using assms(2) by (auto simp: pes_ok_def) (code_simp)+
  show "pes_fixed pkg0 (cur m buf p) = Some ((pes_received pkg0 pkg (Pes_payload pkg0))\<lparr>Pts := Pts pkg0, Dts := Dts pkg0\<rparr>,
      cur m buf (72 + p))"
    using len assms(2) f
    by (cases pkg0, cases pkg)
      (auto simp: pes_fixed_cur at pes_head_bits_def of_msb_fits pes_received_def pes_ok_def)
qed

lemma pes_flags_and: "(2 :: byte) AND 2 = 2" "(3 :: byte) AND 2 = 2" "(2 :: byte) AND 3 \<noteq> 3" "(3 :: byte) AND 3 = 3"
  by code_simp+

lemma pes_optional_read:
  assumes "drop p (bits_of_bytes buf) = pes_times_bits pkg @ r" and "pes_ok pkg"
    and "PTS_DTS_flags q = PTS_DTS_flags pkg" and "ESCR_flag q = 0" and "ES_rate_flag q = 0"
    and "DSM_trick_mode_flag q = 0" and "Additional_copy_info_flag q = 0" and "PES_CRC_flag q = 0"
  shows "pes_optional q (cur m buf p) = Some (q\<lparr>Pts := Pts pkg, Dts := Dts pkg\<rparr>,
    cur m buf (8 * unat (PES_header_data_length pkg) + p))"
proof -
  consider (both) "PTS_DTS_flags pkg = 3" "PES_header_data_length pkg = 10"
    | (one) "PTS_DTS_flags pkg = 2" "PES_header_data_length pkg = 5" "Dts pkg = Pts pkg"
    using assms(2) by (auto simp: pes_ok_def)
  then show ?thesis
  proof cases
    case both
    have t: "drop p (bits_of_bytes buf) = timestamp_bits (nat 4) 3 (Pts pkg) @ timestamp_bits 4 1 (Dts pkg) @ r"
      "drop (40 + p) (bits_of_bytes buf) = timestamp_bits (nat 4) 1 (Dts pkg) @ r"
      using assms(1) both(1) by (simp_all add: pes_times_bits_def flip: drop_drop)
    have "fits 33 (Pts pkg)" "fits 33 (Dts pkg)" using assms(2) by (simp_all add: pes_ok_def)
    then show ?thesis
      using both assms(3-) timestamp_read [OF t(1), of m] timestamp_read [OF t(2), of m]
      by (simp add: pes_optional_def pes_flags_and)
  next
    case one
    have t: "drop p (bits_of_bytes buf) = timestamp_bits (nat 4) 2 (Pts pkg) @ r"
      using assms(1) one(1) by (simp add: pes_times_bits_def)
    have "fits 33 (Pts pkg)" using assms(2) by (simp add: pes_ok_def)
    then show ?thesis
      using one assms(3-) timestamp_read [OF t(1), of m] by (simp add: pes_optional_def pes_flags_and)
  qed
qed

lemma length_pes_times_bits: "pes_ok pkg \<Longrightarrow> length (pes_times_bits pkg) = 8 * unat (PES_header_data_length pkg)"
  by (auto simp: pes_ok_def pes_times_bits_def)

text \<open>
  The three outcomes: no length and so everything that is left, a length and the payload is
  there, a length and it is not.
\<close>

definition pes_outcome :: "PesPacket \<Rightarrow> PesPacket \<Rightarrow> nat \<Rightarrow> nat \<Rightarrow> bytes \<Rightarrow> bytes
    \<Rightarrow> mpeg2_error option \<times> PesPacket \<times> bitstream" where
  "pes_outcome pkg0 pkg m B buf d =
     (let hdr = 9 + unat (PES_header_data_length pkg); n = 6 + unat (PES_packet_length pkg) - hdr in
      if PES_packet_length pkg = 0 then
        (None, pes_received pkg0 pkg d, cur m buf (8 * length buf))
      else if length d < n then (Some ErrNeedMore, pes_received pkg0 pkg d, cur m buf (8 * B))
      else (None, pes_received pkg0 pkg (take n d), cur m buf (8 * (B + hdr + n))))"

lemma pes_received_twice [simp]:
  "(pes_received pkg0 pkg d)\<lparr>Pes_payload := e\<rparr> = pes_received pkg0 pkg e"
  by (simp add: pes_received_def)

lemma pes_Decode_read:
  assumes bits: "bits_of_bytes (drop B buf) = pes_head_bits pkg @ pes_times_bits pkg @ bits_of_bytes d"
    and ok: "pes_ok pkg"
  shows "pes_Decode pkg0 (cur m buf (8 * B)) =
    Some (pes_outcome pkg0 pkg (72 + 8 * B) B buf d)"
proof -
  let ?h = "unat (PES_header_data_length pkg)" and ?q = "pes_received pkg0 pkg (Pes_payload pkg0)"
  let ?start = "?q\<lparr>Pts := Pts pkg0, Dts := Dts pkg0\<rparr>"
  have len: "length (drop B buf) = 9 + ?h + length d"
    using arg_cong [OF bits, of length] length_pes_times_bits [OF ok] by simp
  then have B: "B + 9 + ?h + length d = length buf" by (simp add: algebra_simps)
  have d0: "drop (8 * B) (bits_of_bytes buf) = pes_head_bits pkg @ pes_times_bits pkg @ bits_of_bytes d"
    using bits by (simp add: bits_of_bytes_drop)
  have d1: "drop (72 + 8 * B) (bits_of_bytes buf) = pes_times_bits pkg @ bits_of_bytes d"
    using d0 by (simp flip: drop_drop)
  have "bits_of_bytes (drop (B + 9 + ?h) buf) = drop (8 * ?h) (drop (72 + 8 * B) (bits_of_bytes buf))"
    by (simp add: bits_of_bytes_drop algebra_simps)
  also have "\<dots> = bits_of_bytes d" using length_pes_times_bits [OF ok] by (simp add: d1)
  finally have d2: "drop (B + 9 + ?h) buf = d" by (simp only: bits_of_bytes_inject)
  have sel: "PES_header_data_length ?start = PES_header_data_length pkg" "PES_packet_length ?start = PES_packet_length pkg"
    "PTS_DTS_flags ?start = PTS_DTS_flags pkg" "ESCR_flag ?start = 0" "ES_rate_flag ?start = 0" "DSM_trick_mode_flag ?start = 0"
    "Additional_copy_info_flag ?start = 0" "PES_CRC_flag ?start = 0"
    using ok by (simp_all add: pes_received_def pes_ok_def)
  have opt: "pesOptionalFieldsSize ?start = uint (PES_header_data_length pkg)"
    using ok by (auto simp: pesOptionalFieldsSize_def sel pes_ok_def pes_flags_and)
  have rb: "RemainBytes (cur m' buf (8 * C)) = glen buf - int C" for m' C by (rule RemainBytes_cur)
  have p: "72 + 8 * B = 8 * (B + 9)" "8 * ?h + (72 + 8 * B) = 8 * (B + 9 + ?h)" by simp_all
  have qq: "?start\<lparr>Pts := Pts pkg, Dts := Dts pkg\<rparr> = ?q"
    by (rule PesPacket.equality) (simp_all add: pes_received_def)
  have fix_len: "\<not> (PES_packet_length pkg \<noteq> 0 \<and> uint (PES_packet_length pkg) < 3 + uint (PES_header_data_length pkg))"
    using ok by (auto simp: pes_ok_def)
  have "pes_Decode pkg0 (cur m buf (8 * B)) =
      pes_take_payload (uint (PES_header_data_length pkg)) ?q (cur (72 + 8 * B) buf (8 * (B + 9 + ?h)))"
  proof -
    have "\<not> RemainBytes (cur m buf (8 * B)) < 9" using B unfolding rb by simp
    moreover have "\<not> RemainBytes (cur m buf (72 + 8 * B)) < uint (PES_header_data_length pkg)"
      using arg_cong [OF B, of int] unfolding p(1) rb by simp
    ultimately have g1: "\<not> RemainBytes (cur m buf (8 * B)) < 9"
      "\<not> RemainBytes (cur m buf (72 + 8 * B)) < uint (PES_header_data_length pkg)" by blast+
    have g2: "\<not> uint (PES_header_data_length pkg) * 8 - (int (8 * (B + 9 + ?h)) - int (72 + 8 * B)) > 0" by simp
    have "Err (cur (72 + 8 * B) buf (8 * (B + 9 + ?h))) = None" by (simp add: Err_def)
    then show ?thesis
      using g2
      by (simp only: pes_Decode_def pes_body_def g1 pes_fixed_read [OF d0 ok] Option.bind.simps prod.case sel(1,2) Let_def fix_len opt
          less_irrefl if_False if_True Markdot_cur pes_optional_read [OF d1 ok sel(3-8)] qq p(2) DistanceFromMarkDot_cur
          simp_thms)
  qed
  also have "\<dots> = Some (pes_outcome pkg0 pkg (72 + 8 * B) B buf d)"
  proof (cases "PES_packet_length pkg = 0")
    case True
    have le: "8 * (B + 9 + ?h) \<le> 8 * length buf" unfolding B [symmetric] by simp
    then show ?thesis
      using True by (simp only: pes_take_payload_def pes_outcome_def Let_def pes_received_sel if_True RemainData_cur d2
          pes_received_twice SkipBits_rest simp_thms)
  next
    case False
    let ?n = "6 + unat (PES_packet_length pkg) - (9 + ?h)"
    have n: "uint (PES_packet_length pkg) - 3 - uint (PES_header_data_length pkg) = int ?n"
    proof -
      have "int (3 + ?h) \<le> int (unat (PES_packet_length pkg))" using fix_len False by simp
      then have "3 + ?h \<le> unat (PES_packet_length pkg)" by (simp only: of_nat_le_iff)
      moreover from this have "int ?n = int (unat (PES_packet_length pkg)) - int (3 + ?h)" by simp
      ultimately show ?thesis by simp
    qed
    have rem: "glen buf - int (B + 9 + ?h) = glen d" unfolding B [symmetric] by simp
    show ?thesis
    proof (cases "length d < ?n")
      case True
      have u: "UnRead ((9 + uint (PES_header_data_length pkg)) * 8) (cur (72 + 8 * B) buf (8 * (B + 9 + ?h))) =
          cur (72 + 8 * B) buf (8 * B)"
      proof -
        have "8 * (B + 9 + ?h) = nat ((9 + uint (PES_header_data_length pkg)) * 8) + 8 * B"
          by (simp add: nat_mult_distrib nat_add_distrib)
        moreover have "8 * B + nat ((9 + uint (PES_header_data_length pkg)) * 8) \<le> 8 * length buf"
          using B by (simp add: nat_mult_distrib nat_add_distrib)
        ultimately show ?thesis by (simp only:) (rule UnRead_cur; simp)
      qed
      have "glen d < int ?n" using True by (simp only: of_nat_less_iff)
      then show ?thesis
        using True False by (simp only: pes_take_payload_def pes_outcome_def Let_def pes_received_sel if_False if_True n rb rem
            RemainData_cur d2 pes_received_twice u)
    next
      case enough: False
      have "\<not> glen d < int ?n" using enough by (simp only: of_nat_less_iff simp_thms)
      moreover have "slice_to d (int ?n) = Some (take ?n d)" using enough by (intro slice_to_int) simp
      moreover have "SkipBits (int ?n * 8) (cur (72 + 8 * B) buf (8 * (B + 9 + ?h))) =
          cur (72 + 8 * B) buf (8 * (B + (9 + ?h) + ?n))"
      proof -
        have n8: "nat (int ?n * 8) = 8 * ?n" by (simp only: nat_mult_distrib of_nat_0_le_iff nat_int) simp
        have "SkipBits (int ?n * 8) (cur (72 + 8 * B) buf (8 * (B + 9 + ?h))) =
            cur (72 + 8 * B) buf (nat (int ?n * 8) + 8 * (B + 9 + ?h))"
        proof (rule SkipBits_cur)
          show "8 * (B + 9 + ?h) + nat (int ?n * 8) \<le> 8 * length buf"
            unfolding n8 B [symmetric] using enough by simp
        qed simp
        then show ?thesis unfolding n8 by (simp only: add_mult_distrib2 ac_simps)
      qed
      ultimately show ?thesis
        using enough False by (simp only: pes_take_payload_def pes_outcome_def Let_def pes_received_sel if_False n rb rem
            RemainData_cur d2 pes_received_twice Option.bind.simps)
    qed
  qed
  finally show ?thesis .
qed

section \<open>The decoders never panic\<close>

abbreviation pes_at_ok :: "mpeg2_error option \<times> PesPacket \<times> bitstream \<Rightarrow> bool" where
  "pes_at_ok \<equiv> \<lambda>(e, pkg, bs). bs_ok bs"

lemma gives_pes_bind:
  assumes "gives pes_at_ok m" and "\<And>e pkg t. bs_ok t \<Longrightarrow> gives Q (f e pkg t)"
  shows "gives Q (Option.bind m (\<lambda>(e, pkg, t). f e pkg t))"
  using assms by (auto simp: gives_def)

lemma gives_read_timestamp: "bs_ok bs \<Longrightarrow> gives at_ok (read_timestamp k bs)"
  unfolding read_timestamp_def Let_def by (intro gives_intros) (simp_all)

lemma gives_pes_fixed: "bs_ok bs \<Longrightarrow> gives at_ok (pes_fixed pkg bs)"
  unfolding pes_fixed_def by (intro gives_intros) simp_all

definition same_lengths :: "PesPacket \<Rightarrow> PesPacket \<times> bitstream \<Rightarrow> bool" where
  "same_lengths pkg = (\<lambda>(q, t). bs_ok t \<and> PES_packet_length q = PES_packet_length pkg)"

lemma gives_same_bind:
  assumes "gives (same_lengths pkg) m" and "\<And>q t. bs_ok t \<Longrightarrow> PES_packet_length q = PES_packet_length pkg \<Longrightarrow> gives Q (f q t)"
  shows "gives Q (Option.bind m (\<lambda>(q, t). f q t))"
  using assms by (auto simp: gives_def same_lengths_def)

lemma gives_pes_optional: "bs_ok bs \<Longrightarrow> gives (same_lengths pkg) (pes_optional pkg bs)"
  unfolding pes_optional_def
  by (intro gives_same_bind [where pkg = pkg] gives_intros gives_read_timestamp) (simp_all add: same_lengths_def)

lemma gives_pes_take_payload:
  assumes "bs_ok bs" and "PES_packet_length pkg \<noteq> 0 \<Longrightarrow> 3 + hdrLen \<le> uint (PES_packet_length pkg)"
  shows "gives pes_at_ok (pes_take_payload hdrLen pkg bs)"
proof -
  let ?k = "uint (PES_packet_length pkg) - 3 - hdrLen"
  have "PES_packet_length pkg \<noteq> 0 \<Longrightarrow> \<not> RemainBytes bs < ?k \<Longrightarrow>
      slice_to (RemainData bs) ?k = Some (take (nat ?k) (RemainData bs))"
    using assms(2) RemainData_bound [of bs] by (simp add: slice_to_def)
  then show ?thesis using assms(1) by (simp add: pes_take_payload_def Let_def)
qed

lemma gives_pes_body:
  assumes "bs_ok bs" and "PES_packet_length pkg \<noteq> 0 \<Longrightarrow> 3 + hdrLen \<le> uint (PES_packet_length pkg)"
  shows "gives pes_at_ok (pes_body hdrLen pkg bs)"
  unfolding pes_body_def Let_def
  by (intro gives_same_bind [where pkg = pkg] gives_pes_optional gives_if gives_pes_take_payload)
    (use assms in auto)

lemma gives_pes_Decode: "bs_ok bs \<Longrightarrow> gives pes_at_ok (pes_Decode pkg bs)"
  unfolding pes_Decode_def Let_def
  by (intro gives_intros gives_pes_fixed gives_pes_body) auto

text \<open>The loop ends: each round takes a byte.\<close>

lemma skip_stuffing_total: "bs_ok bs \<Longrightarrow> gives bs_ok (skip_stuffing bs)"
proof (induction "length (rest_bits bs)" arbitrary: bs rule: less_induct)
  case less
  show ?case
  proof (cases "EOS bs")
    case True
    then show ?thesis using less.prems by (simp add: skip_stuffing.simps [of bs])
  next
    case False
    then have r: "ready bs" using less.prems by (simp add: EOS_def ready_def)
    show ?thesis
    proof (cases "8 \<le> length (rest_bits bs)")
      case True
      then have n: "NextBits 8 bs = Some (of_msb (take 8 (rest_bits bs)), bs)" "SkipBits 8 bs = advance 8 bs"
        using NextBits_ready [OF r, of 8] SkipBits_ready [OF r, of 8] by simp_all
      have "length (rest_bits (advance 8 bs)) < length (rest_bits bs)" "bs_ok (advance 8 bs)"
        using True ready_advance [OF r, of 8] by (auto simp: rest_bits_advance ready_def)
      then show ?thesis using False n less.hyps less.prems by (simp add: skip_stuffing.simps [of bs])
    next
      case short: False
      then have "NextBits 8 bs = Some (0, setErr bs)" using RemainBits_eq [OF less.prems] r
        by (simp add: NextBits_def ready_def)
      then show ?thesis using False less.prems by (simp add: skip_stuffing.simps [of bs])
    qed
  qed
qed

lemma gives_mpeg1_timestamps: "bs_ok bs \<Longrightarrow> gives pes_at_ok (mpeg1_timestamps pkg bs)"
  unfolding mpeg1_timestamps_def by (intro gives_intros gives_read_timestamp) simp_all

lemma gives_DecodeMpeg1:
  assumes "bs_ok bs" shows "gives pes_at_ok (DecodeMpeg1 pkg bs)"
proof -
  have sl: "gives pes_at_ok (do {
      d \<leftarrow> slice_to (RemainData t) (uint w);
      Some (None, q\<lparr>Pes_payload := d\<rparr>, SkipBits (uint w * 8) t)
    })" if "bs_ok t" "\<not> RemainBits t \<le> uint w * 8" for t q and w :: u16
  proof -
    have "uint w \<le> glen (RemainData t)" using that(2) RemainData_bound [of t]
      by (auto simp: RemainBits_def split: if_splits)
    then show ?thesis using that(1) by (simp add: slice_to_def)
  qed
  show ?thesis
    unfolding DecodeMpeg1_def Let_def
    by (intro gives_intros gives_pes_bind gives_mpeg1_timestamps gives_bind [OF skip_stuffing_total] sl)
      (use assms in simp_all)
qed

section \<open>Properties\<close>

definition sample_pes :: PesPacket where
  "sample_pes = NewPesPacket\<lparr>Stream_id := 0xC0, PES_packet_length := 11, PTS_DTS_flags := 2,
     PES_header_data_length := 5, Pts := 900000, Dts := 900000, Pes_payload := [7, 8, 9]\<rparr>"


text \<open>
  no bytes make the PES decoders panic or run on: from any stream they return, and the
  stream they leave is a stream again.
\<close>

theorem PES_decoders_always_return:
  assumes "bs_ok bs"
  shows "(\<exists>e q t. pes_Decode pkg bs = Some (e, q, t) \<and> bs_ok t) \<and>
    (\<exists>e q t. DecodeMpeg1 pkg bs = Some (e, q, t) \<and> bs_ok t)"
  using gives_pes_Decode [OF assms, of pkg] gives_DecodeMpeg1 [OF assms, of pkg] by (auto simp: gives_def)

theorem PES_decoders_always_return_witness:
  "(\<exists>e q t. pes_Decode NewPesPacket (NewBitStream [0, 0, 1, 0xC0, 0xFF]) = Some (e, q, t) \<and> bs_ok t) \<and>
   (\<exists>e q t. DecodeMpeg1 NewPesPacket (NewBitStream [0, 0, 1, 0xC0, 0xFF]) = Some (e, q, t) \<and> bs_ok t)"
  using PES_decoders_always_return [of "NewBitStream [0, 0, 1, 0xC0, 0xFF]" NewPesPacket]
  by (simp_all add: bs_ok_def NewBitStream_def pos_def)

text \<open>
  with \<open>ESCR_flag\<close> the encoder writes part of the field, stops between two bytes and loses
  the payload: the writer is left with an error.
\<close>

theorem PES_payload_lost_with_ESCR:
  assumes "ESCR_flag pkg = 1" and "0 \<le> n"
  shows "\<exists>s t. NewBitStreamWriter n = Some s \<and> pes_Encode pkg s = Some t \<and> bsw_err t = Some ErrNotByteAligned"
proof -
  obtain s where "NewBitStreamWriter n = Some s" "wrote s [] 0" using wrote_New assms(2) by auto
  then show ?thesis using pes_Encode_ESCR [of s "[]" 0 pkg] assms(1) by auto
qed

theorem PES_payload_lost_with_ESCR_witness:
  "\<exists>s t. NewBitStreamWriter 64 = Some s \<and>
     pes_Encode (NewPesPacket\<lparr>ESCR_flag := 1, Pes_payload := [7, 8, 9]\<rparr>) s = Some t \<and> bsw_err t = Some ErrNotByteAligned"
  using PES_payload_lost_with_ESCR [of "NewPesPacket\<lparr>ESCR_flag := 1, Pes_payload := [7, 8, 9]\<rparr>" 64] by simp

end
