(* ===== verification/TsProto.thy ===== *)
theory TsProto
  imports Pes Crc32
begin

text \<open>
  MPEG-TS packets and tables, \<open>go-mpeg2/ts-proto.go\<close>: the packet header, the adaptation field,
  the program association and the program map.

  A decoder returns its error, the receiver and the stream.  The encoders mutate their receiver
  (lengths), which nobody reads afterwards; they return the writer.

  The lemmas: header, adaptation field and tables are read back from what is written, a table
  carries the checksum of its section, and no bytes make the decoders panic.
\<close>

unbundle bit_operations_syntax

abbreviation TS_PAKCET_SIZE :: int where "TS_PAKCET_SIZE \<equiv> 188"

definition TS_PID_PAT :: u16 where "TS_PID_PAT = 0x0000"
definition TS_PID_Nil :: u16 where "TS_PID_Nil = 0x1FFF"

section \<open>The adaptation field\<close>

record Adaptation_field =
  SingleStuffingByte :: bool
  Adaptation_field_length :: byte
  Discontinuity_indicator :: byte
  Random_access_indicator :: byte
  Elementary_stream_priority_indicator :: byte
  PCR_flag :: byte
  OPCR_flag :: byte
  Splicing_point_flag :: byte
  Transport_private_data_flag :: byte
  Adaptation_field_extension_flag :: byte
  Program_clock_reference_base :: u64
  Program_clock_reference_extension :: u16
  Original_program_clock_reference_base :: u64
  Original_program_clock_reference_extension :: u16
  Splice_countdown :: byte
  Transport_private_data_length :: byte
  Adaptation_field_extension_length :: byte
  Ltw_flag :: byte
  Piecewise_rate_flag :: byte
  Seamless_splice_flag :: byte
  Ltw_valid_flag :: byte
  Ltw_offset :: u16
  Piecewise_rate :: u32
  Splice_type :: byte
  DTS_next_AU :: u64
  Stuffing_byte :: byte

definition zero_field :: Adaptation_field where
  "zero_field = \<lparr>SingleStuffingByte = False, Adaptation_field_length = 0, Discontinuity_indicator = 0,
     Random_access_indicator = 0, Elementary_stream_priority_indicator = 0, PCR_flag = 0, OPCR_flag = 0,
     Splicing_point_flag = 0, Transport_private_data_flag = 0, Adaptation_field_extension_flag = 0,
     Program_clock_reference_base = 0, Program_clock_reference_extension = 0,
     Original_program_clock_reference_base = 0, Original_program_clock_reference_extension = 0,
     Splice_countdown = 0, Transport_private_data_length = 0, Adaptation_field_extension_length = 0,
     Ltw_flag = 0, Piecewise_rate_flag = 0, Seamless_splice_flag = 0, Ltw_valid_flag = 0, Ltw_offset = 0,
     Piecewise_rate = 0, Splice_type = 0, DTS_next_AU = 0, Stuffing_byte = 0\<rparr>"

lemma zero_field_sel:
  "Transport_private_data_flag zero_field = 0" "Adaptation_field_extension_flag zero_field = 0"
  by (simp_all add: zero_field_def)

definition put_clock :: "u64 \<Rightarrow> u16 \<Rightarrow> bitwriter \<Rightarrow> bitwriter option" where
  "put_clock base ext bsw = do {
     bsw \<leftarrow> PutUint64 base 33 bsw;
     bsw \<leftarrow> PutUint8 0 6 bsw;
     PutUint16 ext 9 bsw
   }"

definition field_body :: "Adaptation_field \<Rightarrow> bitwriter \<Rightarrow> bitwriter option" where
  "field_body f bsw = do {
     bsw \<leftarrow> PutUint8 (Discontinuity_indicator f) 1 bsw;
     bsw \<leftarrow> PutUint8 (Random_access_indicator f) 1 bsw;
     bsw \<leftarrow> PutUint8 (Elementary_stream_priority_indicator f) 1 bsw;
     bsw \<leftarrow> PutUint8 (PCR_flag f) 1 bsw;
     bsw \<leftarrow> PutUint8 (OPCR_flag f) 1 bsw;
     bsw \<leftarrow> PutUint8 (Splicing_point_flag f) 1 bsw;
     bsw \<leftarrow> PutUint8 0 1 bsw;
     bsw \<leftarrow> PutUint8 0 1 bsw;
     bsw \<leftarrow> (if PCR_flag f = 1
        then put_clock (Program_clock_reference_base f) (Program_clock_reference_extension f) bsw else Some bsw);
     bsw \<leftarrow> (if OPCR_flag f = 1
        then put_clock (Original_program_clock_reference_base f) (Original_program_clock_reference_extension f) bsw
        else Some bsw);
     (if Splicing_point_flag f = 1 then PutUint8 (Splice_countdown f) 8 bsw else Some bsw)
   }"

text \<open>The length is a byte: it is written twice, the second time with what was counted.\<close>

definition field_Encode :: "Adaptation_field \<Rightarrow> bitwriter \<Rightarrow> bitwriter option" where
  "field_Encode f bsw = do {
     let loc = bsw_ByteOffset bsw;
     bsw \<leftarrow> PutUint8 (Adaptation_field_length f) 8 bsw;
     if SingleStuffingByte f then Some bsw
     else do {
       bsw \<leftarrow> field_body f (bsw_Markdot bsw);
       let len = (word_of_int (go_div (bsw_DistanceFromMarkDot bsw) 8) :: byte);
       bsw \<leftarrow> PutRepetValue 0xff (uint (Stuffing_byte f)) bsw;
       SetByte (len + Stuffing_byte f) (int loc) bsw
     }
   }"

definition get_clock :: "bitstream \<Rightarrow> ((u64 \<times> u16) \<times> bitstream) option" where
  "get_clock bs = do {
     (base, bs) \<leftarrow> GetBits 33 bs;
     (ext, bs) \<leftarrow> GetBits 9 (SkipBits 6 bs);
     Some ((base, ucast ext), bs)
   }"

definition decodeExtension :: "Adaptation_field \<Rightarrow> bitstream \<Rightarrow> (Adaptation_field \<times> bitstream) option" where
  "decodeExtension f bs = do {
     (a, bs) \<leftarrow> GetBit bs;
     (b, bs) \<leftarrow> GetBit bs;
     (c, bs) \<leftarrow> GetBit bs;
     let f = f\<lparr>Ltw_flag := a, Piecewise_rate_flag := b, Seamless_splice_flag := c\<rparr>;
     let bs = SkipBits 5 bs;
     (f, bs) \<leftarrow> (if a = 1 then do {
         (v, bs) \<leftarrow> GetBit bs;
         (ofs, bs) \<leftarrow> GetBits 15 bs;
         Some (f\<lparr>Ltw_valid_flag := v, Ltw_offset := ucast ofs\<rparr>, bs)
       } else Some (f, bs));
     (f, bs) \<leftarrow> (if b = 1 then do {
         (r, bs) \<leftarrow> GetBits 22 (SkipBits 2 bs);
         Some (f\<lparr>Piecewise_rate := ucast r\<rparr>, bs)
       } else Some (f, bs));
     (if c = 1 then do {
         (t, bs) \<leftarrow> GetBits 4 bs;
         (d, bs) \<leftarrow> read_timestamp 0 bs;
         Some (f\<lparr>Splice_type := ucast t, DTS_next_AU := d\<rparr>, bs)
       } else Some (f, bs))
   }"

definition field_flags :: "Adaptation_field \<Rightarrow> bitstream \<Rightarrow> (Adaptation_field \<times> bitstream) option" where
  "field_flags f bs = do {
     (a, bs) \<leftarrow> GetBit bs;
     (b, bs) \<leftarrow> GetBit bs;
     (c, bs) \<leftarrow> GetBit bs;
     (d, bs) \<leftarrow> GetBit bs;
     (e, bs) \<leftarrow> GetBit bs;
     (g, bs) \<leftarrow> GetBit bs;
     (h, bs) \<leftarrow> GetBit bs;
     (i, bs) \<leftarrow> GetBit bs;
     Some (f\<lparr>Discontinuity_indicator := a, Random_access_indicator := b,
       Elementary_stream_priority_indicator := c, PCR_flag := d, OPCR_flag := e, Splicing_point_flag := g,
       Transport_private_data_flag := h, Adaptation_field_extension_flag := i\<rparr>, bs)
   }"

definition decodeField :: "Adaptation_field \<Rightarrow> bitstream \<Rightarrow> (mpeg2_error option \<times> Adaptation_field) option" where
  "decodeField f bs = do {
     (f, bs) \<leftarrow> field_flags f bs;
     (f, bs) \<leftarrow> (if PCR_flag f = 1 then do {
         ((base, ext), bs) \<leftarrow> get_clock bs;
         Some (f\<lparr>Program_clock_reference_base := base, Program_clock_reference_extension := ext\<rparr>, bs)
       } else Some (f, bs));
     (f, bs) \<leftarrow> (if OPCR_flag f = 1 then do {
         ((base, ext), bs) \<leftarrow> get_clock bs;
         Some (f\<lparr>Original_program_clock_reference_base := base, Original_program_clock_reference_extension := ext\<rparr>, bs)
       } else Some (f, bs));
     (f, bs) \<leftarrow> (if Splicing_point_flag f = 1 then do {
         (c, bs) \<leftarrow> Uint8 8 bs;
         Some (f\<lparr>Splice_countdown := c\<rparr>, bs)
       } else Some (f, bs));
     (f, bs) \<leftarrow> (if Transport_private_data_flag f = 1 then do {
         (n, bs) \<leftarrow> Uint8 8 bs;
         Some (f\<lparr>Transport_private_data_length := n\<rparr>, SkipBits (8 * uint n) bs)
       } else Some (f, bs));
     (f, bs) \<leftarrow> (if Adaptation_field_extension_flag f = 1 then do {
         (n, bs) \<leftarrow> Uint8 8 bs;
         (f, bs) \<leftarrow> decodeExtension (f\<lparr>Adaptation_field_extension_length := n\<rparr>) (Markdot bs);
         let rest = uint n * 8 - DistanceFromMarkDot bs;
         Some (f, if rest > 0 then SkipBits rest bs else bs)
       } else Some (f, bs));
     Some (map_option ErrStream (Err bs), f)
   }"

definition field_Decode :: "Adaptation_field \<Rightarrow> bitstream \<Rightarrow> (mpeg2_error option \<times> Adaptation_field \<times> bitstream) option" where
  "field_Decode f bs = do {
     (n, bs) \<leftarrow> Uint8 8 bs;
     let f = f\<lparr>Adaptation_field_length := n\<rparr>;
     if Err bs \<noteq> None then Some (map_option ErrStream (Err bs), f, bs)
     else if n = 0 then Some (None, f, bs)
     else if glen (RemainData bs) < uint n then Some (Some ErrAdaptationLength, f, bs)
     else do {
       field \<leftarrow> slice_to (RemainData bs) (uint n);
       (e, f) \<leftarrow> decodeField f (NewBitStream field);
       Some (e, f, SkipBits (glen field * 8) bs)
     }
   }"

section \<open>The packet header\<close>

text \<open>What the demultiplexer puts into \<open>Payload\<close>; the tables are below.\<close>

record PmtPair =
  Program_number :: u16
  pair_PID :: u16

record Pat =
  pat_Table_id :: byte
  pat_Section_syntax_indicator :: byte
  pat_Section_length :: u16
  Transport_stream_id :: u16
  pat_Version_number :: byte
  pat_Current_next_indicator :: byte
  pat_Section_number :: byte
  pat_Last_section_number :: byte
  Pmts :: "PmtPair list"

record StreamPair =
  StreamType :: byte
  Elementary_PID :: u16
  ES_Info_Length :: u16

record Pmt =
  pmt_Table_id :: byte
  pmt_Section_syntax_indicator :: byte
  pmt_Section_length :: u16
  pmt_Program_number :: u16
  pmt_Version_number :: byte
  pmt_Current_next_indicator :: byte
  pmt_Section_number :: byte
  pmt_Last_section_number :: byte
  PCR_PID :: u16
  Program_info_length :: u16
  Streams :: "StreamPair list"

datatype ts_payload = NoPayload | PatPayload Pat | PmtPayload Pmt | PesPayload PesPacket | BytesPayload bytes

record TSPacket =
  Transport_error_indicator :: byte
  Payload_unit_start_indicator :: byte
  Transport_priority :: byte
  ts_PID :: u16
  Transport_scrambling_control :: byte
  Adaptation_field_control :: byte
  Continuity_counter :: byte
  Field :: "Adaptation_field option"
  ts_Payload :: ts_payload

definition zero_ts_packet :: TSPacket where
  "zero_ts_packet = \<lparr>Transport_error_indicator = 0, Payload_unit_start_indicator = 0, Transport_priority = 0,
     ts_PID = 0, Transport_scrambling_control = 0, Adaptation_field_control = 0, Continuity_counter = 0,
     Field = None, ts_Payload = NoPayload\<rparr>"

definition ts_fixed :: "TSPacket \<Rightarrow> bitwriter \<Rightarrow> bitwriter option" where
  "ts_fixed pkg bsw = do {
     bsw \<leftarrow> PutByte 0x47 bsw;
     bsw \<leftarrow> PutUint8 (Transport_error_indicator pkg) 1 bsw;
     bsw \<leftarrow> PutUint8 (Payload_unit_start_indicator pkg) 1 bsw;
     bsw \<leftarrow> PutUint8 (Transport_priority pkg) 1 bsw;
     bsw \<leftarrow> PutUint16 (ts_PID pkg) 13 bsw;
     bsw \<leftarrow> PutUint8 (Transport_scrambling_control pkg) 2 bsw;
     bsw \<leftarrow> PutUint8 (Adaptation_field_control pkg) 2 bsw;
     PutUint8 (Continuity_counter pkg) 4 bsw
   }"

definition EncodeHeader :: "TSPacket \<Rightarrow> bitwriter \<Rightarrow> bitwriter option" where
  "EncodeHeader pkg bsw = do {
     bsw \<leftarrow> ts_fixed pkg bsw;
     (case Field pkg of
        Some f \<Rightarrow> if Adaptation_field_control pkg AND 0x02 \<noteq> 0 then field_Encode f bsw else Some bsw
      | None \<Rightarrow> Some bsw)
   }"

definition DecodeHeader :: "TSPacket \<Rightarrow> bitstream \<Rightarrow> (mpeg2_error option \<times> TSPacket \<times> bitstream) option" where
  "DecodeHeader pkg bs = do {
     (sync, bs) \<leftarrow> Uint8 8 bs;
     if sync \<noteq> 0x47 then Some (Some ErrSync, pkg, bs)
     else do {
       (tei, bs) \<leftarrow> GetBit bs;
       (pusi, bs) \<leftarrow> GetBit bs;
       (prio, bs) \<leftarrow> GetBit bs;
       (pid, bs) \<leftarrow> Uint16 13 bs;
       (scr, bs) \<leftarrow> Uint8 2 bs;
       (afc, bs) \<leftarrow> Uint8 2 bs;
       (cc, bs) \<leftarrow> Uint8 4 bs;
       let pkg = pkg\<lparr>Transport_error_indicator := tei, Payload_unit_start_indicator := pusi,
         Transport_priority := prio, ts_PID := pid, Transport_scrambling_control := scr,
         Adaptation_field_control := afc, Continuity_counter := cc\<rparr>;
       if Err bs \<noteq> None then Some (map_option ErrStream (Err bs), pkg, bs)
       else if pid = TS_PID_Nil then Some (None, pkg, bs)
       else if afc = 0x02 \<or> afc = 0x03 then do {
         (e, f, bs) \<leftarrow> field_Decode (case Field pkg of None \<Rightarrow> zero_field | Some f \<Rightarrow> f) bs;
         Some (e, pkg\<lparr>Field := Some f\<rparr>, bs)
       }
       else Some (None, pkg, bs)
     }
   }"

section \<open>The tables\<close>

definition NewPat :: Pat where
  "NewPat = \<lparr>pat_Table_id = 0x00, pat_Section_syntax_indicator = 1, pat_Section_length = 0,
     Transport_stream_id = 0, pat_Version_number = 0, pat_Current_next_indicator = 1,
     pat_Section_number = 0, pat_Last_section_number = 0, Pmts = []\<rparr>"

definition NewPmt :: Pmt where
  "NewPmt = \<lparr>pmt_Table_id = 0x02, pmt_Section_syntax_indicator = 1, pmt_Section_length = 0,
     pmt_Program_number = 0, pmt_Version_number = 0, pmt_Current_next_indicator = 1,
     pmt_Section_number = 0, pmt_Last_section_number = 0, PCR_PID = 0, Program_info_length = 0, Streams = []\<rparr>"

text \<open>
  The end of both encoders: the length is patched into the two bytes at \<open>loc\<close> and the checksum
  of the section follows it.
\<close>

definition finish_section :: "byte \<Rightarrow> nat \<Rightarrow> bitwriter \<Rightarrow> bitwriter option" where
  "finish_section ssi loc bsw = do {
     let len = (word_of_int (bsw_DistanceFromMarkDot bsw) :: u16) div 8 + 4;
     bsw \<leftarrow> SetUint16 ((len AND 0x0FFF) OR push_bit 15 (ucast ssi) OR 0x3000) (int loc) bsw;
     bits \<leftarrow> bsw_Bits bsw;
     sect \<leftarrow> slice_of bits (int (bsw_ByteOffset bsw) - uint (len - 4) - 3) (int (bsw_ByteOffset bsw));
     PutBytes (le32 (CalcCrc32 0xffffffff sect)) bsw
   }"

fun put_pairs :: "PmtPair list \<Rightarrow> bitwriter \<Rightarrow> bitwriter option" where
  "put_pairs [] bsw = Some bsw"
| "put_pairs (pms # rest) bsw = do {
     bsw \<leftarrow> PutUint16 (Program_number pms) 16 bsw;
     bsw \<leftarrow> PutUint8 0x07 3 bsw;
     bsw \<leftarrow> PutUint16 (pair_PID pms) 13 bsw;
     put_pairs rest bsw
   }"

definition pat_start :: "Pat \<Rightarrow> bitwriter \<Rightarrow> bitwriter option" where
  "pat_start pat bsw = do {
     bsw \<leftarrow> PutUint8 (pat_Section_syntax_indicator pat) 1 bsw;
     bsw \<leftarrow> PutUint8 0x00 1 bsw;
     bsw \<leftarrow> PutUint8 0x03 2 bsw;
     PutUint16 0 12 bsw
   }"

definition pat_body :: "Pat \<Rightarrow> bitwriter \<Rightarrow> bitwriter option" where
  "pat_body pat bsw = do {
     bsw \<leftarrow> PutUint16 (Transport_stream_id pat) 16 bsw;
     bsw \<leftarrow> PutUint8 0x03 2 bsw;
     bsw \<leftarrow> PutUint8 (pat_Version_number pat) 5 bsw;
     bsw \<leftarrow> PutUint8 (pat_Current_next_indicator pat) 1 bsw;
     bsw \<leftarrow> PutUint8 (pat_Section_number pat) 8 bsw;
     bsw \<leftarrow> PutUint8 (pat_Last_section_number pat) 8 bsw;
     put_pairs (Pmts pat) bsw
   }"

definition pat_Encode :: "Pat \<Rightarrow> bitwriter \<Rightarrow> bitwriter option" where
  "pat_Encode pat bsw = do {
     bsw \<leftarrow> PutUint8 0x00 8 bsw;
     let loc = bsw_ByteOffset bsw;
     bsw \<leftarrow> pat_start pat bsw;
     bsw \<leftarrow> pat_body pat (bsw_Markdot bsw);
     finish_section (pat_Section_syntax_indicator pat) loc bsw
   }"

text \<open>\<open>i+4 <= Section_length-9\<close> with steps of 4: as many rounds as pairs fit.\<close>

fun get_pairs :: "nat \<Rightarrow> bitstream \<Rightarrow> (PmtPair list \<times> bitstream) option" where
  "get_pairs 0 bs = Some ([], bs)"
| "get_pairs (Suc n) bs = do {
     (num, bs) \<leftarrow> Uint16 16 bs;
     (pid, bs) \<leftarrow> Uint16 13 (SkipBits 3 bs);
     (rest, bs) \<leftarrow> get_pairs n bs;
     Some (\<lparr>Program_number = num, pair_PID = pid\<rparr> # rest, bs)
   }"

definition pat_Decode :: "Pat \<Rightarrow> bitstream \<Rightarrow> (mpeg2_error option \<times> Pat \<times> bitstream) option" where
  "pat_Decode pat bs = do {
     (tid, bs) \<leftarrow> Uint8 8 bs;
     (ssi, bs) \<leftarrow> Uint8 1 bs;
     (len, bs) \<leftarrow> Uint16 12 (SkipBits 3 bs);
     let pat = pat\<lparr>pat_Table_id := tid, pat_Section_syntax_indicator := ssi, pat_Section_length := len\<rparr>;
     if Err bs \<noteq> None then Some (map_option ErrStream (Err bs), pat, bs)
     else if tid \<noteq> 0x00 then Some (Some ErrTableId, pat, bs)
     else if len < 9 then Some (Some ErrSectionLength, pat, bs)
     else if uint len > RemainBytes bs then Some (Some ErrSectionLength, pat, bs)
     else do {
       (tsid, bs) \<leftarrow> Uint16 16 bs;
       (ver, bs) \<leftarrow> Uint8 5 (SkipBits 2 bs);
       (cni, bs) \<leftarrow> Uint8 1 bs;
       (sn, bs) \<leftarrow> Uint8 8 bs;
       (lsn, bs) \<leftarrow> Uint8 8 bs;
       (pairs, bs) \<leftarrow> get_pairs (nat ((uint len - 5 - 4) div 4)) bs;
       Some (map_option ErrStream (Err bs), pat\<lparr>Transport_stream_id := tsid, pat_Version_number := ver,
         pat_Current_next_indicator := cni, pat_Section_number := sn, pat_Last_section_number := lsn,
         Pmts := Pmts pat @ pairs\<rparr>, bs)
     }
   }"

fun put_streams :: "StreamPair list \<Rightarrow> bitwriter \<Rightarrow> bitwriter option" where
  "put_streams [] bsw = Some bsw"
| "put_streams (stream # rest) bsw = do {
     bsw \<leftarrow> PutUint8 (StreamType stream) 8 bsw;
     bsw \<leftarrow> PutUint8 0x00 3 bsw;
     bsw \<leftarrow> PutUint16 (Elementary_PID stream) 13 bsw;
     bsw \<leftarrow> PutUint8 0x00 4 bsw;
     bsw \<leftarrow> PutUint8 0 12 bsw;
     put_streams rest bsw
   }"

definition pmt_start :: "Pmt \<Rightarrow> bitwriter \<Rightarrow> bitwriter option" where
  "pmt_start pmt bsw = do {
     bsw \<leftarrow> PutUint8 (pmt_Section_syntax_indicator pmt) 1 bsw;
     bsw \<leftarrow> PutUint8 0x00 1 bsw;
     bsw \<leftarrow> PutUint8 0x03 2 bsw;
     PutUint16 (pmt_Section_length pmt) 12 bsw
   }"

definition pmt_body :: "Pmt \<Rightarrow> bitwriter \<Rightarrow> bitwriter option" where
  "pmt_body pmt bsw = do {
     bsw \<leftarrow> PutUint16 (pmt_Program_number pmt) 16 bsw;
     bsw \<leftarrow> PutUint8 0x03 2 bsw;
     bsw \<leftarrow> PutUint8 (pmt_Version_number pmt) 5 bsw;
     bsw \<leftarrow> PutUint8 (pmt_Current_next_indicator pmt) 1 bsw;
     bsw \<leftarrow> PutUint8 (pmt_Section_number pmt) 8 bsw;
     bsw \<leftarrow> PutUint8 (pmt_Last_section_number pmt) 8 bsw;
     bsw \<leftarrow> PutUint8 0x07 3 bsw;
     bsw \<leftarrow> PutUint16 (PCR_PID pmt) 13 bsw;
     bsw \<leftarrow> PutUint8 0x0f 4 bsw;
     bsw \<leftarrow> PutUint16 0x0000 12 bsw;
     put_streams (Streams pmt) bsw
   }"

definition pmt_Encode :: "Pmt \<Rightarrow> bitwriter \<Rightarrow> bitwriter option" where
  "pmt_Encode pmt bsw = do {
     bsw \<leftarrow> PutUint8 (pmt_Table_id pmt) 8 bsw;
     let loc = bsw_ByteOffset bsw;
     bsw \<leftarrow> pmt_start pmt bsw;
     bsw \<leftarrow> pmt_body pmt (bsw_Markdot bsw);
     finish_section (pmt_Section_syntax_indicator pmt) loc bsw
   }"

text \<open>The stream loop; \<open>rest\<close> is \<open>loopLen - i\<close>.  It returns the pairs read before an error too.\<close>

function get_streams :: "int \<Rightarrow> bitstream \<Rightarrow> (mpeg2_error option \<times> StreamPair list \<times> bitstream) option" where
  "get_streams rest bs =
     (if 5 \<le> rest then do {
        (typ, bs) \<leftarrow> Uint8 8 bs;
        (pid, bs) \<leftarrow> Uint16 13 (SkipBits 3 bs);
        (info, bs) \<leftarrow> Uint16 12 (SkipBits 4 bs);
        if 5 + uint info > rest then Some (Some ErrEsInfoLength, [], bs)
        else do {
          (e, ps, bs) \<leftarrow> get_streams (rest - (5 + uint info)) (SkipBits (uint info * 8) bs);
          Some (e, \<lparr>StreamType = typ, Elementary_PID = pid, ES_Info_Length = info\<rparr> # ps, bs)
        }
      }
      else Some (None, [], bs))"
  by pat_completeness auto
termination
  by (relation "measure (\<lambda>(rest, bs). nat rest)") (auto intro!: zless_nat_conj [THEN iffD2] intro: less_le_trans [OF _ uint_ge_0])

declare get_streams.simps [simp del]

definition pmt_Decode :: "Pmt \<Rightarrow> bitstream \<Rightarrow> (mpeg2_error option \<times> Pmt \<times> bitstream) option" where
  "pmt_Decode pmt bs = do {
     (tid, bs) \<leftarrow> Uint8 8 bs;
     (ssi, bs) \<leftarrow> Uint8 1 bs;
     (len, bs) \<leftarrow> Uint16 12 (SkipBits 3 bs);
     let pmt = pmt\<lparr>pmt_Table_id := tid, pmt_Section_syntax_indicator := ssi, pmt_Section_length := len\<rparr>;
     if Err bs \<noteq> None then Some (map_option ErrStream (Err bs), pmt, bs)
     else if tid \<noteq> 0x02 then Some (Some ErrTableId, pmt, bs)
     else if len < 13 then Some (Some ErrSectionLength, pmt, bs)
     else if uint len > RemainBytes bs then Some (Some ErrSectionLength, pmt, bs)
     else do {
       (num, bs) \<leftarrow> Uint16 16 bs;
       (ver, bs) \<leftarrow> Uint8 5 (SkipBits 2 bs);
       (cni, bs) \<leftarrow> Uint8 1 bs;
       (sn, bs) \<leftarrow> Uint8 8 bs;
       (lsn, bs) \<leftarrow> Uint8 8 bs;
       (pcr, bs) \<leftarrow> Uint16 13 (SkipBits 3 bs);
       (info, bs) \<leftarrow> Uint16 12 (SkipBits 4 bs);
       let pmt = pmt\<lparr>pmt_Program_number := num, pmt_Version_number := ver, pmt_Current_next_indicator := cni,
         pmt_Section_number := sn, pmt_Last_section_number := lsn, PCR_PID := pcr, Program_info_length := info\<rparr>;
       let loopLen = uint len - 9 - 4;
       if uint info > loopLen then Some (Some ErrProgramInfoLength, pmt, bs)
       else do {
         (e, ps, bs) \<leftarrow> get_streams (loopLen - uint info) (SkipBits (uint info * 8) bs);
         Some (if e = None then map_option ErrStream (Err bs) else e, pmt\<lparr>Streams := Streams pmt @ ps\<rparr>, bs)
       }
     }
   }"

type_synonym PAT_TID = int

definition ReadSection :: "PAT_TID \<Rightarrow> bitstream \<Rightarrow> ((mpeg2_error + ts_payload) \<times> bitstream) option" where
  "ReadSection sectionType bs = do {
     bs \<leftarrow> skip_stuffing bs;
     if EOS bs then Some (Inl ErrNoSection, bs)
     else if sectionType = 0x00 then do {
       (e, pat, bs) \<leftarrow> pat_Decode NewPat bs;
       Some (case e of None \<Rightarrow> Inr (PatPayload pat) | Some x \<Rightarrow> Inl x, bs)
     }
     else if sectionType = 0x02 then do {
       (e, pmt, bs) \<leftarrow> pmt_Decode NewPmt bs;
       Some (case e of None \<Rightarrow> Inr (PmtPayload pmt) | Some x \<Rightarrow> Inl x, bs)
     }
     else Some (Inl ErrUnsupportedSection, bs)
   }"

section \<open>What is written\<close>

definition ts_fixed_bits :: "TSPacket \<Rightarrow> bool list" where
  "ts_fixed_bits pkg = bits_msb 8 (0x47 :: byte) @ bits_msb 1 (Transport_error_indicator pkg) @
     bits_msb 1 (Payload_unit_start_indicator pkg) @ bits_msb 1 (Transport_priority pkg) @
     bits_msb 13 (ts_PID pkg) @ bits_msb 2 (Transport_scrambling_control pkg) @
     bits_msb 2 (Adaptation_field_control pkg) @ bits_msb 4 (Continuity_counter pkg)"

lemma length_ts_fixed_bits [simp]: "length (ts_fixed_bits pkg) = 32"
  by (simp add: ts_fixed_bits_def)

lemma appends_ts_fixed: "appends 0 (ts_fixed pkg) (ts_fixed_bits pkg)"
proof -
  have "appends 0 (\<lambda>s. ts_fixed pkg s) (ts_fixed_bits pkg)"
    unfolding ts_fixed_def ts_fixed_bits_def by (intro appends_bind appends_puts) simp_all
  then show ?thesis by simp
qed

definition clock_bits :: "u64 \<Rightarrow> u16 \<Rightarrow> bool list" where
  "clock_bits base ext = bits_msb 33 base @ bits_msb 6 (0 :: byte) @ bits_msb 9 ext"

lemma length_clock_bits [simp]: "length (clock_bits base ext) = 48"
  by (simp add: clock_bits_def)

lemma appends_put_clock: "xs = clock_bits base ext \<Longrightarrow> appends k (put_clock base ext) xs"
proof -
  have "appends k (\<lambda>s. put_clock base ext s) (clock_bits base ext)"
    unfolding put_clock_def clock_bits_def by (intro appends_bind appends_puts) simp_all
  then show "xs = clock_bits base ext \<Longrightarrow> ?thesis" by simp
qed

definition field_flag_bits :: "Adaptation_field \<Rightarrow> bool list" where
  "field_flag_bits f = bits_msb 1 (Discontinuity_indicator f) @ bits_msb 1 (Random_access_indicator f) @
     bits_msb 1 (Elementary_stream_priority_indicator f) @ bits_msb 1 (PCR_flag f) @ bits_msb 1 (OPCR_flag f) @
     bits_msb 1 (Splicing_point_flag f) @ bits_msb 1 (0 :: byte) @ bits_msb 1 (0 :: byte)"

definition field_value_bits :: "Adaptation_field \<Rightarrow> bool list" where
  "field_value_bits f =
     (if PCR_flag f = 1 then clock_bits (Program_clock_reference_base f) (Program_clock_reference_extension f) else []) @
     (if OPCR_flag f = 1
      then clock_bits (Original_program_clock_reference_base f) (Original_program_clock_reference_extension f) else []) @
     (if Splicing_point_flag f = 1 then bits_msb 8 (Splice_countdown f) else [])"

lemma length_field_flag_bits [simp]: "length (field_flag_bits f) = 8"
  by (simp add: field_flag_bits_def)

lemma appends_field_body: "appends 0 (field_body f) (field_flag_bits f @ field_value_bits f)"
proof -
  have "appends 0 (\<lambda>s. field_body f s) (field_flag_bits f @ field_value_bits f)"
    unfolding field_body_def field_flag_bits_def field_value_bits_def append_assoc
    by (intro appends_bind appends_if appends_put_clock appends_puts appends_none) simp_all
  then show ?thesis by simp
qed

text \<open>The bytes after the length: flags, values and stuffing.\<close>

definition field_size :: "Adaptation_field \<Rightarrow> nat" where
  "field_size f = 1 + (if PCR_flag f = 1 then 6 else 0) + (if OPCR_flag f = 1 then 6 else 0) +
     (if Splicing_point_flag f = 1 then 1 else 0)"

definition field_bits :: "Adaptation_field \<Rightarrow> bool list" where
  "field_bits f =
     (if SingleStuffingByte f then bits_msb 8 (Adaptation_field_length f)
      else bits_msb 8 (word_of_nat (field_size f) + Stuffing_byte f) @ field_flag_bits f @ field_value_bits f @
        bits_of_bytes (replicate (unat (Stuffing_byte f)) 0xff))"

lemma length_field_value_bits: "8 + length (field_value_bits f) = 8 * field_size f"
  by (simp add: field_value_bits_def field_size_def)

lemma emits_field_Encode: "emits 0 (field_Encode f) (field_bits f)"
  unfolding emits_def
proof (intro allI impI)
  fix s w m assume s: "wrote s w m \<and> length w mod 8 = 0"
  let ?len = "Adaptation_field_length f" and ?n = "field_size f"
  have dv: "8 dvd length w" using s by (simp add: mod_eq_0_iff_dvd)
  then obtain L where L: "length w = 8 * L" by auto
  obtain t where t: "PutUint8 ?len 8 s = Some t" "wrote t (w @ bits_msb 8 ?len) m"
    using s appends_PutUint8 [of 8 "bits_msb 8 ?len" ?len 0] by (auto elim!: appendsE)
  show "\<exists>t m. field_Encode f s = Some t \<and> wrote t (w @ field_bits f) m"
  proof (cases "SingleStuffingByte f")
    case True
    then show ?thesis using t by (auto simp: field_Encode_def field_bits_def)
  next
    case False
    let ?m = "8 * L + 8"
    have t': "wrote (bsw_Markdot t) (w @ bits_msb 8 ?len) ?m" using wrote_Markdot [OF t(2)] L by simp
    obtain u where u: "field_body f (bsw_Markdot t) = Some u"
      "wrote u ((w @ bits_msb 8 ?len) @ field_flag_bits f @ field_value_bits f) ?m"
      using appendsE [OF appends_field_body t'] L by auto
    let ?w = "(w @ bits_msb 8 ?len) @ field_flag_bits f @ field_value_bits f"
    have lw: "length ?w = 8 * (L + 1 + ?n)" using L length_field_value_bits [of f] by simp
    have dist: "word_of_int (go_div (bsw_DistanceFromMarkDot u) 8) = (word_of_nat ?n :: byte)"
    proof -
      have "bsw_DistanceFromMarkDot u = int (8 * ?n)" using wrote_offset(4) [OF u(2)] lw by simp
      then show ?thesis by (simp add: go_div_nonneg)
    qed
    obtain v where v: "PutRepetValue 0xff (uint (Stuffing_byte f)) u = Some v"
      "wrote v (?w @ bits_of_bytes (replicate (unat (Stuffing_byte f)) 0xff)) ?m"
    proof (rule appendsE [OF appends_PutRepetValue u(2)])
      show "length ?w mod 8 = 0" unfolding lw by simp
    qed (auto intro: that)
    obtain x where x: "SetByte (word_of_nat ?n + Stuffing_byte f) (int L) v = Some x"
      "wrote x (w @ bits_msb 8 (word_of_nat ?n + Stuffing_byte f) @ field_flag_bits f @ field_value_bits f @
        bits_of_bytes (replicate (unat (Stuffing_byte f)) 0xff)) ?m"
      using wrote_SetByte [OF v(2), of L "word_of_nat ?n + Stuffing_byte f"] L by auto
    have "field_Encode f s = Some x"
      using t(1) u(1) v(1) x(1) dist wrote_offset(1) [OF conjunct1 [OF s]] False L by (simp add: field_Encode_def Let_def)
    then show ?thesis using x(2) False by (auto simp: field_bits_def)
  qed
qed

definition header_bits :: "TSPacket \<Rightarrow> bool list" where
  "header_bits pkg = ts_fixed_bits pkg @
     (case Field pkg of Some f \<Rightarrow> if Adaptation_field_control pkg AND 0x02 \<noteq> 0 then field_bits f else [] | None \<Rightarrow> [])"

lemma emits_EncodeHeader: "emits 0 (EncodeHeader pkg) (header_bits pkg)"
proof -
  have "emits 0 (\<lambda>s. EncodeHeader pkg s) (header_bits pkg)"
    unfolding EncodeHeader_def header_bits_def
    by (intro emits_bind appends_emits [OF appends_ts_fixed])
      (cases "Field pkg"; auto simp: emits_field_Encode intro!: appends_emits [OF appends_none])
  then show ?thesis by simp
qed

section \<open>Headers are read back\<close>

lemma drop_appended: "drop p xs = as @ bs \<Longrightarrow> drop (length as + p) xs = bs"
  by (simp flip: drop_drop)

lemma field_flags_cur: "p + 8 \<le> 8 * length buf \<Longrightarrow> field_flags f (cur m buf p) =
   Some (f\<lparr>Discontinuity_indicator := field buf p 1, Random_access_indicator := field buf (1 + p) 1,
       Elementary_stream_priority_indicator := field buf (2 + p) 1, PCR_flag := field buf (3 + p) 1,
       OPCR_flag := field buf (4 + p) 1, Splicing_point_flag := field buf (5 + p) 1,
       Transport_private_data_flag := field buf (6 + p) 1,
       Adaptation_field_extension_flag := field buf (7 + p) 1\<rparr>, cur m buf (8 + p))"
  by (simp add: field_flags_def cur_simps eval_nat_numeral)

lemma get_clock_read:
  assumes "drop p (bits_of_bytes buf) = clock_bits base ext @ r" and "fits 33 base" and "fits 9 ext"
  shows "get_clock (cur m buf p) = Some ((base, ext), cur m buf (48 + p))"
proof -
  have len: "p + 48 \<le> 8 * length buf" using arg_cong [OF assms(1), of length] by simp
  have "field buf p 33 = base" using field_at(2) [OF assms(1), of 33, where 'b = 64] assms(2)
    by (simp add: clock_bits_def of_msb_fits)
  moreover have "ucast (field buf (39 + p) 9 :: u64) = ext"
    using field_at(1) [OF assms(1), of 39 9, where 'a = 64] assms(3)
    by (simp add: clock_bits_def ucast_of_msb of_msb_fits)
  ultimately show ?thesis using len by (simp add: get_clock_def cur_simps)
qed

definition afield_ok :: "Adaptation_field \<Rightarrow> bool" where
  "afield_ok f \<longleftrightarrow> (if SingleStuffingByte f then Adaptation_field_length f = 0
     else fits 1 (Discontinuity_indicator f) \<and> fits 1 (Random_access_indicator f) \<and>
       fits 1 (Elementary_stream_priority_indicator f) \<and> fits 1 (PCR_flag f) \<and> fits 1 (OPCR_flag f) \<and>
       fits 1 (Splicing_point_flag f) \<and> fits 33 (Program_clock_reference_base f) \<and>
       fits 9 (Program_clock_reference_extension f) \<and> fits 33 (Original_program_clock_reference_base f) \<and>
       fits 9 (Original_program_clock_reference_extension f) \<and> field_size f + unat (Stuffing_byte f) \<le> 255)"

text \<open>What a fresh receiver holds afterwards.\<close>

definition field_received :: "Adaptation_field \<Rightarrow> Adaptation_field" where
  "field_received f = (if SingleStuffingByte f then zero_field
     else zero_field\<lparr>Adaptation_field_length := word_of_nat (field_size f + unat (Stuffing_byte f)),
       Discontinuity_indicator := Discontinuity_indicator f, Random_access_indicator := Random_access_indicator f,
       Elementary_stream_priority_indicator := Elementary_stream_priority_indicator f, PCR_flag := PCR_flag f,
       OPCR_flag := OPCR_flag f, Splicing_point_flag := Splicing_point_flag f,
       Program_clock_reference_base := (if PCR_flag f = 1 then Program_clock_reference_base f else 0),
       Program_clock_reference_extension := (if PCR_flag f = 1 then Program_clock_reference_extension f else 0),
       Original_program_clock_reference_base := (if OPCR_flag f = 1 then Original_program_clock_reference_base f else 0),
       Original_program_clock_reference_extension := (if OPCR_flag f = 1 then Original_program_clock_reference_extension f else 0),
       Splice_countdown := (if Splicing_point_flag f = 1 then Splice_countdown f else 0)\<rparr>)"

lemma decodeField_read:
  assumes bits: "bits_of_bytes buf = field_flag_bits f @ field_value_bits f @ r"
    and ok: "afield_ok f" "\<not> SingleStuffingByte f"
  shows "decodeField (zero_field\<lparr>Adaptation_field_length := n\<rparr>) (NewBitStream buf) =
    Some (None, (field_received f)\<lparr>Adaptation_field_length := n\<rparr>)"
proof -
  have len: "8 \<le> 8 * length buf" using arg_cong [OF bits, of length] by simp
  have d0: "drop 0 (bits_of_bytes buf) = field_flag_bits f @ field_value_bits f @ r" using bits by simp
  let ?f0 = "zero_field\<lparr>Adaptation_field_length := n, Discontinuity_indicator := Discontinuity_indicator f,
    Random_access_indicator := Random_access_indicator f,
    Elementary_stream_priority_indicator := Elementary_stream_priority_indicator f, PCR_flag := PCR_flag f,
    OPCR_flag := OPCR_flag f, Splicing_point_flag := Splicing_point_flag f\<rparr>"
  have fl: "field_flags (zero_field\<lparr>Adaptation_field_length := n\<rparr>) (cur 0 buf 0) = Some (?f0, cur 0 buf 8)"
    using field_flags_cur [of 0 buf "zero_field\<lparr>Adaptation_field_length := n\<rparr>" 0] len ok
      field_at(1) [OF d0, of 1, where 'a = 8] field_at(1) [OF d0, of 2, where 'a = 8]
      field_at(1) [OF d0, of 3, where 'a = 8] field_at(1) [OF d0, of 4, where 'a = 8]
      field_at(1) [OF d0, of 5, where 'a = 8] field_at(1) [OF d0, of 6, where 'a = 8]
      field_at(1) [OF d0, of 7, where 'a = 8] field_at(2) [OF d0, where 'b = 8]
    by (simp add: field_flag_bits_def of_msb_fits afield_ok_def zero_field_def)
  define p1 where "p1 = (if PCR_flag f = 1 then 48 else 0 :: nat) + 8"
  define p2 where "p2 = p1 + (if OPCR_flag f = 1 then 48 else 0)"
  define p3 where "p3 = p2 + (if Splicing_point_flag f = 1 then 8 else 0)"
  have d1: "drop 8 (bits_of_bytes buf) = field_value_bits f @ r" using bits by simp
  have d2: "drop p1 (bits_of_bytes buf) = (if OPCR_flag f = 1
      then clock_bits (Original_program_clock_reference_base f) (Original_program_clock_reference_extension f) else []) @
     (if Splicing_point_flag f = 1 then bits_msb 8 (Splice_countdown f) else []) @ r"
    using drop_appended [OF d1 [unfolded field_value_bits_def append_assoc]] by (simp add: p1_def if_distrib [of length] cong: if_cong)
  have d3: "drop p2 (bits_of_bytes buf) = (if Splicing_point_flag f = 1 then bits_msb 8 (Splice_countdown f) else []) @ r"
    using drop_appended [OF d2] by (simp add: p2_def add.commute if_distrib [of length] cong: if_cong)
  have pcr: "PCR_flag f = 1 \<Longrightarrow> get_clock (cur 0 buf 8) =
      Some ((Program_clock_reference_base f, Program_clock_reference_extension f), cur 0 buf p1)"
    using get_clock_read [of 8 buf "Program_clock_reference_base f" "Program_clock_reference_extension f"] d1 ok
    by (simp add: field_value_bits_def afield_ok_def p1_def)
  have opcr: "OPCR_flag f = 1 \<Longrightarrow> get_clock (cur 0 buf p1) = Some ((Original_program_clock_reference_base f,
      Original_program_clock_reference_extension f), cur 0 buf p2)"
    using get_clock_read [of p1 buf "Original_program_clock_reference_base f"
        "Original_program_clock_reference_extension f"] d2 ok
    by (simp add: afield_ok_def p2_def add.commute)
  have splice: "Splicing_point_flag f = 1 \<Longrightarrow> Uint8 8 (cur 0 buf p2) = Some (Splice_countdown f, cur 0 buf p3)"
  proof -
    assume sp: "Splicing_point_flag f = 1"
    then have "p2 + 8 \<le> 8 * length buf" using arg_cong [OF d3, of length] by simp
    moreover have "field buf p2 8 = Splice_countdown f"
      using field_at(2) [OF d3, of 8, where 'b = 8] sp by (simp add: of_msb_fits)
    ultimately show ?thesis using sp by (simp add: Uint_cur p3_def add.commute)
  qed
  define f1 where "f1 = (if PCR_flag f = 1 then ?f0\<lparr>Program_clock_reference_base := Program_clock_reference_base f,
    Program_clock_reference_extension := Program_clock_reference_extension f\<rparr> else ?f0)"
  define f2 where "f2 = (if OPCR_flag f = 1
    then f1\<lparr>Original_program_clock_reference_base := Original_program_clock_reference_base f,
      Original_program_clock_reference_extension := Original_program_clock_reference_extension f\<rparr> else f1)"
  define f3 where "f3 = (if Splicing_point_flag f = 1 then f2\<lparr>Splice_countdown := Splice_countdown f\<rparr> else f2)"
  have sel: "PCR_flag ?f0 = PCR_flag f" "OPCR_flag f1 = OPCR_flag f" "Splicing_point_flag f2 = Splicing_point_flag f"
    "Transport_private_data_flag f3 = 0" "Adaptation_field_extension_flag f3 = 0"
    by (simp_all add: f1_def f2_def f3_def zero_field_sel)
  have z: "(0 :: byte) \<noteq> 1" by simp
  have "decodeField (zero_field\<lparr>Adaptation_field_length := n\<rparr>) (NewBitStream buf) =
      Some (map_option ErrStream (Err (cur 0 buf p3)), f3)"
  proof -
    have "(if PCR_flag ?f0 = 1 then do {
         ((base, ext), bs) \<leftarrow> get_clock (cur 0 buf 8);
         Some (?f0\<lparr>Program_clock_reference_base := base, Program_clock_reference_extension := ext\<rparr>, bs)
       } else Some (?f0, cur 0 buf 8)) = Some (f1, cur 0 buf p1)"
      unfolding sel by (simp add: pcr f1_def p1_def)
    moreover have "(if OPCR_flag f1 = 1 then do {
         ((base, ext), bs) \<leftarrow> get_clock (cur 0 buf p1);
         Some (f1\<lparr>Original_program_clock_reference_base := base, Original_program_clock_reference_extension := ext\<rparr>, bs)
       } else Some (f1, cur 0 buf p1)) = Some (f2, cur 0 buf p2)"
      unfolding sel by (simp add: opcr f2_def p2_def)
    moreover have "(if Splicing_point_flag f2 = 1 then do {
         (c, bs) \<leftarrow> Uint8 8 (cur 0 buf p2);
         Some (f2\<lparr>Splice_countdown := c\<rparr>, bs)
       } else Some (f2, cur 0 buf p2)) = Some (f3, cur 0 buf p3)"
      unfolding sel by (simp add: splice f3_def p3_def)
    ultimately show ?thesis
      by (simp only: decodeField_def NewBitStream_cur fl Option.bind.simps prod.case sel(4,5) z if_False)
  qed
  moreover have "f3 = (field_received f)\<lparr>Adaptation_field_length := n\<rparr>"
    unfolding f3_def f2_def f1_def using ok(2) by (simp add: field_received_def zero_field_def)
  ultimately show ?thesis by (simp add: Err_def)
qed

definition field_bytes :: "Adaptation_field \<Rightarrow> nat" where
  "field_bytes f = (if SingleStuffingByte f then 1 else 1 + field_size f + unat (Stuffing_byte f))"

lemma length_field_bits: "length (field_bits f) = 8 * field_bytes f"
  using length_field_value_bits [of f] by (auto simp: field_bits_def field_bytes_def)

lemma field_length_value:
  assumes "field_size f + unat (Stuffing_byte f) \<le> 255"
  shows "word_of_nat (field_size f) + Stuffing_byte f = (word_of_nat (field_size f + unat (Stuffing_byte f)) :: byte)"
    and "unat (word_of_nat (field_size f + unat (Stuffing_byte f)) :: byte) = field_size f + unat (Stuffing_byte f)"
  using assms by (simp, simp only: unat_of_nat, simp add: take_bit_nat_eq_self)

lemma field_Decode_read:
  assumes bits: "bits_of_bytes (drop B buf) = field_bits f @ bits_of_bytes d" and ok: "afield_ok f"
  shows "field_Decode zero_field (cur m buf (8 * B)) = Some (None, field_received f, cur m buf (8 * (B + field_bytes f)))"
proof (cases "SingleStuffingByte f")
  case True
  have b: "bits_of_bytes (drop B buf) = bits_msb 8 (0 :: byte) @ bits_of_bytes d"
    using bits ok True by (simp add: field_bits_def afield_ok_def)
  show ?thesis
    using True read_byte_cur(1) [OF b, of m]
    by (simp add: field_Decode_def Err_def field_received_def field_bytes_def) (simp add: zero_field_def)
next
  case False
  let ?s = "field_size f + unat (Stuffing_byte f)" and ?rest = "field_flag_bits f @ field_value_bits f @
    bits_of_bytes (replicate (unat (Stuffing_byte f)) 0xff) @ bits_of_bytes d"
  have le: "?s \<le> 255" using ok False by (simp add: afield_ok_def)
  let ?n = "word_of_nat ?s :: byte"
  note n = field_length_value(2) [OF le]
  have b: "bits_of_bytes (drop B buf) = bits_msb 8 ?n @ ?rest"
    unfolding bits field_bits_def if_not_P [OF False] append_assoc field_length_value(1) [OF le] by (rule refl)
  note rd = read_byte_cur [OF b]
  have lenr: "length ?rest = 8 * (?s + length d)" using length_field_value_bits [of f] by simp
  have len: "B + 1 + ?s + length d = length buf"
    using arg_cong [OF rd(3), of length] rd(2) lenr by simp
  have u: "uint ?n = int ?s" using n by (simp only: uint_nat)
  have sl: "slice_to (drop (B + 1) buf) (int ?s) = Some (take ?s (drop (B + 1) buf))"
    by (rule slice_to_int) (use len in simp)
  have fb: "bits_of_bytes (take ?s (drop (B + 1) buf)) = field_flag_bits f @ field_value_bits f @
      bits_of_bytes (replicate (unat (Stuffing_byte f)) 0xff)"
    unfolding bits_of_bytes_take rd(3) using length_field_value_bits [of f] by simp
  have pos: "?n \<noteq> 0" using n by (auto simp: field_size_def)
  have le_rest: "?s \<le> length (drop (B + 1) buf)" using len by simp
  then have glen: "glen (take ?s (drop (B + 1) buf)) = int ?s" by (simp only: length_take min_absorb2)
  have g: "\<not> glen (drop (B + 1) buf) < int ?s" using le_rest by (simp only: not_less of_nat_le_iff)
  have sk: "SkipBits (int ?s * 8) (cur m buf (8 * (B + 1))) = cur m buf (8 * (B + 1 + ?s))"
    by (rule SkipBits_bytes) (use len in simp)
  have "(field_received f)\<lparr>Adaptation_field_length := ?n\<rparr> = field_received f"
    using False by (simp add: field_received_def)
  moreover have "Err (cur m buf p) = None" for p by (simp add: Err_def)
  ultimately show ?thesis
    using decodeField_read [OF fb ok False, of ?n] False pos
    by (simp only: field_Decode_def rd(1) Option.bind.simps prod.case Let_def simp_thms if_False RemainData_cur u g sl glen sk
        field_bytes_def add.assoc)
qed

section \<open>A packet header is read back\<close>

definition ts_header_ok :: "TSPacket \<Rightarrow> bool" where
  "ts_header_ok pkg \<longleftrightarrow> fits 1 (Transport_error_indicator pkg) \<and> fits 1 (Payload_unit_start_indicator pkg) \<and>
     fits 1 (Transport_priority pkg) \<and> fits 13 (ts_PID pkg) \<and> ts_PID pkg \<noteq> TS_PID_Nil \<and>
     fits 2 (Transport_scrambling_control pkg) \<and> fits 4 (Continuity_counter pkg) \<and>
     (case Field pkg of Some f \<Rightarrow> afield_ok f \<and> Adaptation_field_control pkg \<in> {2, 3}
      | None \<Rightarrow> Adaptation_field_control pkg \<in> {0, 1})"

definition header_bytes :: "TSPacket \<Rightarrow> nat" where
  "header_bytes pkg = 4 + (case Field pkg of Some f \<Rightarrow> field_bytes f | None \<Rightarrow> 0)"

definition header_received :: "TSPacket \<Rightarrow> TSPacket" where
  "header_received pkg = pkg\<lparr>Field := map_option field_received (Field pkg), ts_Payload := NoPayload\<rparr>"

lemma afc_bits: "(2 :: byte) AND 2 \<noteq> 0" "(3 :: byte) AND 2 \<noteq> 0" "fits 2 (2 :: byte)" "fits 2 (3 :: byte)"
    "fits 2 (1 :: byte)" "fits 2 (0 :: byte)"
  by code_simp+

lemma length_header_bits: "ts_header_ok pkg \<Longrightarrow> length (header_bits pkg) = 8 * header_bytes pkg"
  by (auto simp: header_bits_def header_bytes_def ts_header_ok_def length_field_bits afc_bits split: option.splits)

lemma DecodeHeader_read:
  assumes bits: "bits_of_bytes buf = header_bits pkg @ bits_of_bytes d" and ok: "ts_header_ok pkg"
  shows "DecodeHeader zero_ts_packet (NewBitStream buf) =
      Some (None, header_received pkg, cur 0 buf (8 * header_bytes pkg))"
    and "drop (header_bytes pkg) buf = d"
proof -
  have drp: "bits_of_bytes (drop (header_bytes pkg) buf) = bits_of_bytes d"
    using bits length_header_bits [OF ok] by (simp add: bits_of_bytes_drop)
  then show "drop (header_bytes pkg) buf = d" by (simp only: bits_of_bytes_inject)
  have fixed: "bits_of_bytes buf = ts_fixed_bits pkg @
      (case Field pkg of Some f \<Rightarrow> field_bits f | None \<Rightarrow> []) @ bits_of_bytes d"
    using bits ok by (auto simp: header_bits_def ts_header_ok_def afc_bits split: option.splits)
  have d0: "drop 0 (bits_of_bytes buf) = ts_fixed_bits pkg @
      (case Field pkg of Some f \<Rightarrow> field_bits f | None \<Rightarrow> []) @ bits_of_bytes d" using fixed by simp
  have len: "32 \<le> 8 * length buf" using arg_cong [OF fixed, of length] by simp
  have afc: "fits 2 (Adaptation_field_control pkg)"
    using ok by (auto simp: ts_header_ok_def afc_bits split: option.splits)
  note at = field_at(1) [OF d0, where 'a = 8]
  have f: "field buf 0 8 = (0x47 :: byte)" "field buf 8 1 = Transport_error_indicator pkg"
    "field buf 9 1 = Payload_unit_start_indicator pkg" "field buf 10 1 = Transport_priority pkg"
    "field buf 11 13 = ts_PID pkg" "field buf 24 2 = Transport_scrambling_control pkg"
    "field buf 26 2 = Adaptation_field_control pkg" "field buf 28 4 = Continuity_counter pkg"
    using field_at(2) [OF d0, of 8, where 'b = 8] at [of 8 1] at [of 9 1] at [of 10 1]
      field_at(1) [OF d0, of 11 13, where 'a = 16] at [of 24 2] at [of 26 2] at [of 28 4] ok afc
    by (simp_all add: ts_fixed_bits_def of_msb_fits ts_header_ok_def)
  let ?pkg = "zero_ts_packet\<lparr>Transport_error_indicator := Transport_error_indicator pkg,
    Payload_unit_start_indicator := Payload_unit_start_indicator pkg, Transport_priority := Transport_priority pkg,
    ts_PID := ts_PID pkg, Transport_scrambling_control := Transport_scrambling_control pkg,
    Adaptation_field_control := Adaptation_field_control pkg, Continuity_counter := Continuity_counter pkg\<rparr>"
  have "DecodeHeader zero_ts_packet (NewBitStream buf) =
      (if Adaptation_field_control pkg = 0x02 \<or> Adaptation_field_control pkg = 0x03 then do {
          (e, g, bs) \<leftarrow> field_Decode zero_field (cur 0 buf 32);
          Some (e, ?pkg\<lparr>Field := Some g\<rparr>, bs)
        }
       else Some (None, ?pkg, cur 0 buf 32))"
    using len f ok by (simp add: DecodeHeader_def NewBitStream_cur cur_simps Err_def ts_header_ok_def zero_ts_packet_def)
  also have "\<dots> = Some (None, header_received pkg, cur 0 buf (8 * header_bytes pkg))"
  proof (cases "Field pkg")
    case None
    then show ?thesis
      using ok by (cases pkg) (auto simp: ts_header_ok_def header_received_def header_bytes_def zero_ts_packet_def)
  next
    case (Some g)
    have g: "afield_ok g" "Adaptation_field_control pkg = 2 \<or> Adaptation_field_control pkg = 3"
      using ok Some by (auto simp: ts_header_ok_def)
    have "bits_of_bytes (drop 4 buf) = field_bits g @ bits_of_bytes d"
      using fixed Some by (simp add: bits_of_bytes_drop)
    then have "field_Decode zero_field (cur 0 buf (8 * 4)) = Some (None, field_received g, cur 0 buf (8 * (4 + field_bytes g)))"
      using g(1) by (rule field_Decode_read)
    then show ?thesis
      using Some g(2) by (cases pkg) (auto simp: header_received_def header_bytes_def zero_ts_packet_def)
  qed
  finally show "DecodeHeader zero_ts_packet (NewBitStream buf) =
      Some (None, header_received pkg, cur 0 buf (8 * header_bytes pkg))" .
qed

section \<open>What the tables are written as\<close>

definition section_length_field :: "byte \<Rightarrow> nat \<Rightarrow> u16" where
  "section_length_field ssi n = (word_of_nat (n + 4) AND 0x0FFF) OR push_bit 15 (ucast ssi) OR 0x3000"

text \<open>A section: identifier, length, body, checksum of all that.\<close>

definition section_head :: "byte \<Rightarrow> byte \<Rightarrow> bool list \<Rightarrow> bool list" where
  "section_head tid ssi body = bits_msb 8 tid @ bits_msb 16 (section_length_field ssi (length body div 8)) @ body"

definition section_bits :: "byte \<Rightarrow> byte \<Rightarrow> bool list \<Rightarrow> bool list" where
  "section_bits tid ssi body = section_head tid ssi body @
     bits_of_bytes (le32 (CalcCrc32 0xffffffff (pack_bits (section_head tid ssi body))))"

lemma length_le32 [simp]: "length (le32 w) = 4"
  by (simp add: le32_def)

lemma length_section_bits: "8 dvd length body \<Longrightarrow> length (section_bits tid ssi body) = 8 * (7 + length body div 8)"
  by (auto simp: section_bits_def section_head_def)

lemma bits_be16: "bits_of_bytes (be16 w) = bits_msb 16 w"
proof (rule nth_equalityI)
  fix i assume "i < length (bits_of_bytes (be16 w))"
  then have i: "i < 16" by simp
  show "bits_of_bytes (be16 w) ! i = bits_msb 16 w ! i"
    using i by (cases "i < 8") (auto simp: be16_def bits_of_bytes_Cons nth_append bit_ucast_iff bit_drop_bit_eq)
qed simp

lemma finish_section_wrote:
  assumes w: "wrote s (w0 @ bits_msb 8 tid @ start @ body) (8 * (L + 3))"
    and len: "length w0 = 8 * L" "length start = 16" "length body = 8 * n" and n: "n + 4 < 4096"
  shows "\<exists>t. finish_section ssi (L + 1) s = Some t \<and> wrote t (w0 @ section_bits tid ssi body) (8 * (L + 3))"
proof -
  have dist: "bsw_DistanceFromMarkDot s = int (8 * n)" using wrote_offset(4) [OF w] len by simp
  have l: "(word_of_int (bsw_DistanceFromMarkDot s) :: u16) div 8 + 4 = word_of_nat (n + 4)"
  proof -
    have "unat (word_of_nat (8 * n) :: u16) = 8 * n" using n by (simp only: unat_of_nat) (simp add: take_bit_nat_eq_self)
    then have "unat ((word_of_nat (8 * n) :: u16) div 8) = n" by (simp only: unat_div) simp
    then have "(word_of_nat (8 * n) :: u16) div 8 = word_of_nat n" by (metis of_nat_unat ucast_id)
    then show ?thesis by (simp add: dist)
  qed
  let ?l = "section_length_field ssi n" and ?h = "section_head tid ssi body"
  have h: "?h = bits_msb 8 tid @ bits_msb 16 ?l @ body" using len by (simp add: section_head_def)
  obtain t where t: "SetUint16 ?l (int (L + 1)) s = Some t" "wrote t (w0 @ ?h) (8 * (L + 3))"
    using wrote_SetUint16 [OF w, of "L + 1" ?l] len by (auto simp: bits_be16 h)
  obtain xs where xs: "bits_of_bytes xs = w0 @ ?h"
    using bits_of_pack_bits [of "w0 @ ?h"] len by (auto simp: h)
  have lx: "length xs = L + 3 + n" using arg_cong [OF xs, of length] len by (simp add: h)
  have off: "bsw_ByteOffset t = L + 3 + n" using wrote_offset(1) [OF t(2)] len by (simp add: h)
  have un: "uint ((word_of_nat (n + 4) :: u16) - 4) = int n"
  proof -
    have "(word_of_nat (n + 4) :: u16) - 4 = word_of_nat n" by simp
    moreover have "unat (word_of_nat n :: u16) = n" using n by (simp only: unat_of_nat) (simp add: take_bit_nat_eq_self)
    ultimately show ?thesis by (simp only: uint_nat)
  qed
  have i: "int (L + 3 + n) - int n - 3 = int L" by simp
  have b: "bsw_Bits t = Some xs" by (rule wrote_Bits) (use t(2) xs in simp)
  have sl: "slice_of xs (int L) (int (L + 3 + n)) = Some (drop L xs)"
    using lx by (simp add: slice_of_def)
  have sect: "drop L xs = pack_bits ?h"
    using arg_cong [OF xs, of "drop (8 * L)"] len pack_bits_bytes [of "drop L xs"] by (simp add: bits_of_bytes_drop)
  have al: "length (w0 @ ?h) mod 8 = 0" using len by (simp add: h)
  obtain u where u: "PutBytes (le32 (CalcCrc32 0xffffffff (pack_bits ?h))) t = Some u"
    "wrote u ((w0 @ ?h) @ bits_of_bytes (le32 (CalcCrc32 0xffffffff (pack_bits ?h)))) (8 * (L + 3))"
    using appendsE [OF appends_PutBytes t(2) al] by metis
  have "finish_section ssi (L + 1) s = Some u"
    using t(1) u(1)
    by (simp only: finish_section_def l Let_def section_length_field_def [symmetric] Option.bind.simps b off un i sl sect)
  then show ?thesis using u(2) by (auto simp: section_bits_def)
qed

fun pairs_bits :: "PmtPair list \<Rightarrow> bool list" where
  "pairs_bits [] = []"
| "pairs_bits (p # ps) = bits_msb 16 (Program_number p) @ bits_msb 3 (7 :: byte) @ bits_msb 13 (pair_PID p) @ pairs_bits ps"

lemma length_pairs_bits [simp]: "length (pairs_bits ps) = 32 * length ps"
  by (induction ps) simp_all

lemma appends_put_pairs: "k = 0 \<Longrightarrow> xs = pairs_bits ps \<Longrightarrow> appends k (put_pairs ps) xs"
proof (induction ps arbitrary: k xs)
  case (Cons p ps)
  have "appends 0 (\<lambda>s. put_pairs (p # ps) s) (pairs_bits (p # ps))"
    unfolding put_pairs.simps pairs_bits.simps by (intro appends_bind appends_puts Cons.IH) simp_all
  then show ?case using Cons.prems by simp
qed (simp add: appends_def)

definition pat_body_bits :: "Pat \<Rightarrow> bool list" where
  "pat_body_bits pat = bits_msb 16 (Transport_stream_id pat) @ bits_msb 2 (0x03 :: byte) @
     bits_msb 5 (pat_Version_number pat) @ bits_msb 1 (pat_Current_next_indicator pat) @
     bits_msb 8 (pat_Section_number pat) @ bits_msb 8 (pat_Last_section_number pat) @ pairs_bits (Pmts pat)"

lemma length_pat_body_bits [simp]: "length (pat_body_bits pat) = 8 * (5 + 4 * length (Pmts pat))"
  by (simp add: pat_body_bits_def)

lemma appends_pat_body: "appends 0 (pat_body pat) (pat_body_bits pat)"
proof -
  have "appends 0 (\<lambda>s. pat_body pat s) (pat_body_bits pat)"
    unfolding pat_body_def pat_body_bits_def by (intro appends_bind appends_puts appends_put_pairs) simp_all
  then show ?thesis by simp
qed

definition table_start_bits :: "byte \<Rightarrow> u16 \<Rightarrow> bool list" where
  "table_start_bits ssi len = bits_msb 1 ssi @ bits_msb 1 (0 :: byte) @ bits_msb 2 (3 :: byte) @ bits_msb 12 len"

lemma length_table_start_bits [simp]: "length (table_start_bits ssi len) = 16"
  by (simp add: table_start_bits_def)

lemma appends_starts:
  "appends 0 (pat_start pat) (table_start_bits (pat_Section_syntax_indicator pat) 0)"
  "appends 0 (pmt_start pmt) (table_start_bits (pmt_Section_syntax_indicator pmt) (pmt_Section_length pmt))"
proof -
  have "appends 0 (\<lambda>s. pat_start pat s) (table_start_bits (pat_Section_syntax_indicator pat) 0)"
    "appends 0 (\<lambda>s. pmt_start pmt s) (table_start_bits (pmt_Section_syntax_indicator pmt) (pmt_Section_length pmt))"
    unfolding pat_start_def pmt_start_def table_start_bits_def by (intro appends_bind appends_puts; simp)+
  then show "appends 0 (pat_start pat) (table_start_bits (pat_Section_syntax_indicator pat) 0)"
    "appends 0 (pmt_start pmt) (table_start_bits (pmt_Section_syntax_indicator pmt) (pmt_Section_length pmt))"
    by simp_all
qed

text \<open>Both tables are written the same way.\<close>

lemma emits_section:
  assumes start: "appends 0 start sb" "length sb = 16" and body: "appends 0 body bb" "length bb = 8 * n" "n + 4 < 4096"
  shows "emits 0 (\<lambda>bsw. do {
     bsw \<leftarrow> PutUint8 tid 8 bsw;
     let loc = bsw_ByteOffset bsw;
     bsw \<leftarrow> start bsw;
     bsw \<leftarrow> body (bsw_Markdot bsw);
     finish_section ssi loc bsw
   }) (section_bits tid ssi bb)"
  unfolding emits_def
proof (intro allI impI)
  fix s w m assume s: "wrote s w m \<and> length w mod 8 = 0"
  then obtain L where L: "length w = 8 * L" by (auto simp: mod_eq_0_iff_dvd)
  obtain t where t: "PutUint8 tid 8 s = Some t" "wrote t (w @ bits_msb 8 tid) m"
    using s appends_PutUint8 [of 8 "bits_msb 8 tid" tid 0] by (auto elim!: appendsE)
  have off: "bsw_ByteOffset t = L + 1" using wrote_offset(1) [OF t(2)] L by simp
  obtain u where u: "start t = Some u" "wrote u ((w @ bits_msb 8 tid) @ sb) m"
    using appendsE [OF start(1) t(2)] L by auto
  have mk: "wrote (bsw_Markdot u) ((w @ bits_msb 8 tid) @ sb) (8 * (L + 3))"
    using wrote_Markdot [OF u(2)] L start(2) by simp
  obtain v where v: "body (bsw_Markdot u) = Some v" "wrote v (((w @ bits_msb 8 tid) @ sb) @ bb) (8 * (L + 3))"
    using appendsE [OF body(1) mk] L start(2) by auto
  obtain x where "finish_section ssi (L + 1) v = Some x" "wrote x (w @ section_bits tid ssi bb) (8 * (L + 3))"
    using finish_section_wrote [of v w tid sb bb L n ssi] v(2) L start(2) body(2,3) by auto
  then show "\<exists>t m. do {
       bsw \<leftarrow> PutUint8 tid 8 s;
       let loc = bsw_ByteOffset bsw;
       bsw \<leftarrow> start bsw;
       bsw \<leftarrow> body (bsw_Markdot bsw);
       finish_section ssi loc bsw
     } = Some t \<and> wrote t (w @ section_bits tid ssi bb) m"
    using t(1) off u(1) v(1) by (auto simp: Let_def)
qed

definition pat_bits :: "Pat \<Rightarrow> bool list" where
  "pat_bits pat = section_bits 0x00 (pat_Section_syntax_indicator pat) (pat_body_bits pat)"

lemma emits_pat_Encode:
  assumes "length (Pmts pat) \<le> 1000" shows "emits 0 (pat_Encode pat) (pat_bits pat)"
  unfolding pat_bits_def pat_Encode_def [abs_def]
  by (rule emits_section [OF appends_starts(1) _ appends_pat_body length_pat_body_bits]) (use assms in simp_all)

fun streams_bits :: "StreamPair list \<Rightarrow> bool list" where
  "streams_bits [] = []"
| "streams_bits (p # ps) = bits_msb 8 (StreamType p) @ bits_msb 3 (0 :: byte) @ bits_msb 13 (Elementary_PID p) @
     bits_msb 4 (0 :: byte) @ bits_msb 12 (0 :: u64) @ streams_bits ps"

lemma length_streams_bits [simp]: "length (streams_bits ps) = 40 * length ps"
  by (induction ps) simp_all

lemma appends_put_info: "xs = bits_msb 12 (0 :: u64) \<Longrightarrow> appends k (PutUint8 0 12) xs"
  using appends_PutUint64 [of 12 xs 0 k] by (simp add: PutUint8_def [abs_def])

lemma appends_put_streams: "k = 0 \<Longrightarrow> xs = streams_bits ps \<Longrightarrow> appends k (put_streams ps) xs"
proof (induction ps arbitrary: k xs)
  case (Cons p ps)
  have "appends 0 (\<lambda>s. put_streams (p # ps) s) (streams_bits (p # ps))"
    unfolding put_streams.simps streams_bits.simps
    by (rule appends_bind appends_put_info appends_PutUint8 appends_PutUint16 Cons.IH; (simp; fail)?)+
  then show ?case using Cons.prems by simp
qed (simp add: appends_def)

definition pmt_body_bits :: "Pmt \<Rightarrow> bool list" where
  "pmt_body_bits pmt = bits_msb 16 (pmt_Program_number pmt) @ bits_msb 2 (0x03 :: byte) @
     bits_msb 5 (pmt_Version_number pmt) @ bits_msb 1 (pmt_Current_next_indicator pmt) @
     bits_msb 8 (pmt_Section_number pmt) @ bits_msb 8 (pmt_Last_section_number pmt) @ bits_msb 3 (0x07 :: byte) @
     bits_msb 13 (PCR_PID pmt) @ bits_msb 4 (0x0f :: byte) @ bits_msb 12 (0 :: u16) @ streams_bits (Streams pmt)"

lemma length_pmt_body_bits [simp]: "length (pmt_body_bits pmt) = 8 * (9 + 5 * length (Streams pmt))"
  by (simp add: pmt_body_bits_def)

lemma appends_pmt_body: "appends 0 (pmt_body pmt) (pmt_body_bits pmt)"
proof -
  have "appends 0 (\<lambda>s. pmt_body pmt s) (pmt_body_bits pmt)"
    unfolding pmt_body_def pmt_body_bits_def by (intro appends_bind appends_puts appends_put_streams) simp_all
  then show ?thesis by simp
qed

definition pmt_bits :: "Pmt \<Rightarrow> bool list" where
  "pmt_bits pmt = section_bits (pmt_Table_id pmt) (pmt_Section_syntax_indicator pmt) (pmt_body_bits pmt)"

lemma emits_pmt_Encode:
  assumes "length (Streams pmt) \<le> 800" shows "emits 0 (pmt_Encode pmt) (pmt_bits pmt)"
  unfolding pmt_bits_def pmt_Encode_def [abs_def]
  by (rule emits_section [OF appends_starts(2) _ appends_pmt_body length_pmt_body_bits]) (use assms in simp_all)

section \<open>The tables are read back\<close>

lemma section_length_bits: "fits 1 ssi \<Longrightarrow> bits_msb 16 (section_length_field ssi n) =
    bits_msb 1 ssi @ bits_msb 1 (0 :: byte) @ bits_msb 2 (3 :: byte) @ bits_msb 12 (word_of_nat (n + 4) :: u16)"
  by (simp add: section_length_field_def bits_msb_def upt_conv_Cons
      bit_or_iff bit_and_iff bit_push_bit_iff bit_ucast_iff fits_bit)

lemma section_bits_fields: "fits 1 ssi \<Longrightarrow> section_bits tid ssi body =
    bits_msb 8 tid @ bits_msb 1 ssi @ bits_msb 1 (0 :: byte) @ bits_msb 2 (3 :: byte) @
    bits_msb 12 (word_of_nat (length body div 8 + 4) :: u16) @ body @
    bits_of_bytes (le32 (CalcCrc32 0xffffffff (pack_bits (section_head tid ssi body))))"
  by (simp add: section_bits_def section_head_def section_length_bits)

lemma fits_12: "n < 4096 \<Longrightarrow> fits 12 (word_of_nat n :: u16)"
  by (rule less_fits) (simp add: small_u16)

lemma get_pairs_read:
  "drop p (bits_of_bytes buf) = pairs_bits ps @ r \<Longrightarrow> list_all (\<lambda>q. fits 13 (pair_PID q)) ps \<Longrightarrow>
     get_pairs (length ps) (cur m buf p) = Some (ps, cur m buf (32 * length ps + p))"
proof (induction ps arbitrary: p)
  case (Cons q ps)
  have len: "p + 32 \<le> 8 * length buf" using arg_cong [OF Cons.prems(1), of length] by simp
  have "field buf p 16 = Program_number q" "field buf (19 + p) 13 = pair_PID q"
    using field_at(2) [OF Cons.prems(1), of 16, where 'b = 16] field_at(1) [OF Cons.prems(1), of 19 13, where 'a = 16]
      Cons.prems(2) by (simp_all add: of_msb_fits)
  moreover have "drop (32 + p) (bits_of_bytes buf) = pairs_bits ps @ r"
    using Cons.prems(1) by (simp flip: drop_drop)
  then have "get_pairs (length ps) (cur m buf (32 + p)) = Some (ps, cur m buf (32 * length ps + (32 + p)))"
    using Cons.prems(2) by (intro Cons.IH) simp_all
  moreover have "32 * length ps + (32 + p) = 32 * length (q # ps) + p" by simp
  ultimately show ?case using len by (simp only: get_pairs.simps length_Cons) (simp add: cur_simps)
qed simp

definition pat_ok :: "Pat \<Rightarrow> bool" where
  "pat_ok pat \<longleftrightarrow> fits 1 (pat_Section_syntax_indicator pat) \<and> fits 5 (pat_Version_number pat) \<and>
     fits 1 (pat_Current_next_indicator pat) \<and> list_all (\<lambda>q. fits 13 (pair_PID q)) (Pmts pat) \<and>
     length (Pmts pat) \<le> 1000"

definition pat_received :: "Pat \<Rightarrow> Pat" where
  "pat_received pat = pat\<lparr>pat_Table_id := 0, pat_Section_length := word_of_nat (9 + 4 * length (Pmts pat))\<rparr>"

lemma pat_Decode_read:
  assumes bits: "bits_of_bytes (drop B buf) = pat_bits pat @ r" and ok: "pat_ok pat"
  shows "pat_Decode NewPat (cur m buf (8 * B)) =
    Some (None, pat_received pat, cur m buf (8 * (B + 8 + 4 * length (Pmts pat))))"
proof -
  let ?n = "length (Pmts pat)"
  let ?crc = "bits_of_bytes (le32 (CalcCrc32 0xffffffff (pack_bits (section_head 0 (pat_Section_syntax_indicator pat) (pat_body_bits pat)))))"
  have n: "9 + 4 * ?n < 4096" and s1: "fits 1 (pat_Section_syntax_indicator pat)" using ok by (simp_all add: pat_ok_def)
  have d: "drop (8 * B) (bits_of_bytes buf) = bits_msb 8 (0 :: byte) @ bits_msb 1 (pat_Section_syntax_indicator pat) @
      bits_msb 1 (0 :: byte) @ bits_msb 2 (3 :: byte) @ bits_msb 12 (word_of_nat (9 + 4 * ?n) :: u16) @
      pat_body_bits pat @ ?crc @ r"
    using bits section_bits_fields [OF s1] by (simp add: bits_of_bytes_drop pat_bits_def algebra_simps)
  have len: "8 * B + 8 * (12 + 4 * ?n) \<le> 8 * length buf" using arg_cong [OF d, of length] by simp
  note at = field_at(1) [OF d, where 'a = 8] and at16 = field_at(1) [OF d, where 'a = 16]
  have f: "field buf (8 * B) 8 = (0 :: byte)" "field buf (8 + 8 * B) 1 = pat_Section_syntax_indicator pat"
    "field buf (12 + 8 * B) 12 = (word_of_nat (9 + 4 * ?n) :: u16)" "field buf (24 + 8 * B) 16 = Transport_stream_id pat"
    "field buf (42 + 8 * B) 5 = pat_Version_number pat" "field buf (47 + 8 * B) 1 = pat_Current_next_indicator pat"
    "field buf (48 + 8 * B) 8 = pat_Section_number pat" "field buf (56 + 8 * B) 8 = pat_Last_section_number pat"
    using field_at(2) [OF d, of 8, where 'b = 8] at [of 8 1] at16 [of 12 12] at16 [of 24 16] at [of 42 5] at [of 47 1]
      at [of 48 8] at [of 56 8] ok fits_12 [OF n]
    by (simp_all add: pat_body_bits_def of_msb_fits pat_ok_def del: of_nat_add of_nat_mult)
  have len12: "uint (word_of_nat (9 + 4 * ?n) :: u16) = int (9 + 4 * ?n)" by (rule small_u16(2)) (use n in simp)
  have g: "\<not> (word_of_nat (9 + 4 * ?n) :: u16) < 9"
  proof -
    have "unat (word_of_nat (9 + 4 * ?n) :: u16) = 9 + 4 * ?n" by (rule small_u16(1)) (use n in simp)
    then show ?thesis by (simp only: word_less_nat_alt not_less) simp
  qed
  have rem: "RemainBytes (cur m buf (24 + 8 * B)) = glen buf - int (B + 3)"
  proof -
    have "24 + 8 * B = 8 * (B + 3)" by simp
    then show ?thesis by (simp only: RemainBytes_cur)
  qed
  have "int (9 + 4 * ?n) \<le> glen buf - int (B + 3)" using len by simp
  then have rem2: "\<not> int (9 + 4 * ?n) > RemainBytes (cur m buf (24 + 8 * B))" unfolding rem by simp
  have cnt: "nat ((int (9 + 4 * ?n) - 5 - 4) div 4) = ?n" by simp
  have dp: "drop (64 + 8 * B) (bits_of_bytes buf) = pairs_bits (Pmts pat) @ ?crc @ r"
    using d by (simp add: pat_body_bits_def flip: drop_drop)
  have pr: "get_pairs ?n (cur m buf (64 + 8 * B)) = Some (Pmts pat, cur m buf (32 * ?n + (64 + 8 * B)))"
    by (rule get_pairs_read [OF dp]) (use ok in \<open>simp add: pat_ok_def\<close>)
  have rd: "Uint8 8 (cur m buf (8 * B)) = Some (0, cur m buf (8 + 8 * B))"
    "Uint8 1 (cur m buf (8 + 8 * B)) = Some (pat_Section_syntax_indicator pat, cur m buf (9 + 8 * B))"
    "Uint16 12 (SkipBits 3 (cur m buf (9 + 8 * B))) = Some (word_of_nat (9 + 4 * ?n), cur m buf (24 + 8 * B))"
    "Uint16 16 (cur m buf (24 + 8 * B)) = Some (Transport_stream_id pat, cur m buf (40 + 8 * B))"
    "Uint8 5 (SkipBits 2 (cur m buf (40 + 8 * B))) = Some (pat_Version_number pat, cur m buf (47 + 8 * B))"
    "Uint8 1 (cur m buf (47 + 8 * B)) = Some (pat_Current_next_indicator pat, cur m buf (48 + 8 * B))"
    "Uint8 8 (cur m buf (48 + 8 * B)) = Some (pat_Section_number pat, cur m buf (56 + 8 * B))"
    "Uint8 8 (cur m buf (56 + 8 * B)) = Some (pat_Last_section_number pat, cur m buf (64 + 8 * B))"
    using len f by (simp_all add: cur_simps)
  have e: "Err (cur m buf q) = None" for q by (simp add: Err_def)
  have z: "\<not> (0 :: byte) \<noteq> 0x00" by simp
  have "NewPat\<lparr>pat_Table_id := 0, pat_Section_syntax_indicator := pat_Section_syntax_indicator pat,
      pat_Section_length := word_of_nat (9 + 4 * ?n), Transport_stream_id := Transport_stream_id pat,
      pat_Version_number := pat_Version_number pat, pat_Current_next_indicator := pat_Current_next_indicator pat,
      pat_Section_number := pat_Section_number pat, pat_Last_section_number := pat_Last_section_number pat,
      Pmts := [] @ Pmts pat\<rparr> = pat_received pat"
    by (cases pat) (simp add: NewPat_def pat_received_def)
  moreover have "Pmts (NewPat\<lparr>pat_Table_id := a, pat_Section_syntax_indicator := b, pat_Section_length := c\<rparr>) = []" for a b c
    by (simp add: NewPat_def)
  moreover have "32 * ?n + (64 + 8 * B) = 8 * (B + 8 + 4 * ?n)" by simp
  ultimately show ?thesis
    by (simp only: pat_Decode_def rd Option.bind.simps prod.case Let_def e z g len12 rem2 cnt pr if_False simp_thms
        option.map Pat.select_convs)
qed

text \<open>A stream entry without descriptors.\<close>

definition stream_ok :: "StreamPair \<Rightarrow> bool" where
  "stream_ok q \<longleftrightarrow> fits 13 (Elementary_PID q) \<and> ES_Info_Length q = 0"

lemma get_streams_read:
  "drop p (bits_of_bytes buf) = streams_bits ps @ r \<Longrightarrow> list_all stream_ok ps \<Longrightarrow>
     get_streams (5 * int (length ps)) (cur m buf p) = Some (None, ps, cur m buf (40 * length ps + p))"
proof (induction ps arbitrary: p)
  case Nil
  then show ?case by (simp add: get_streams.simps)
next
  case (Cons q ps)
  have len: "p + 40 \<le> 8 * length buf" using arg_cong [OF Cons.prems(1), of length] by simp
  have f: "field buf p 8 = StreamType q" "field buf (11 + p) 13 = Elementary_PID q" "field buf (28 + p) 12 = (0 :: u16)"
    using field_at(2) [OF Cons.prems(1), of 8, where 'b = 8] field_at(1) [OF Cons.prems(1), of 11 13, where 'a = 16]
      field_at(1) [OF Cons.prems(1), of 28 12, where 'a = 16] Cons.prems(2) by (simp_all add: of_msb_fits stream_ok_def)
  have "drop (40 + p) (bits_of_bytes buf) = streams_bits ps @ r"
    using Cons.prems(1) by (simp flip: drop_drop)
  then have ih: "get_streams (5 * int (length ps)) (cur m buf (40 + p)) = Some (None, ps, cur m buf (40 * length ps + (40 + p)))"
    using Cons.prems(2) by (intro Cons.IH) simp_all
  have rd: "Uint8 8 (cur m buf p) = Some (StreamType q, cur m buf (8 + p))"
    "Uint16 13 (SkipBits 3 (cur m buf (8 + p))) = Some (Elementary_PID q, cur m buf (24 + p))"
    "Uint16 12 (SkipBits 4 (cur m buf (24 + p))) = Some (0, cur m buf (40 + p))"
    "SkipBits (uint (0 :: u16) * 8) (cur m buf (40 + p)) = cur m buf (40 + p)"
    using len f by (simp_all add: cur_simps)
  have n: "5 * int (length (q # ps)) - (5 + uint (0 :: u16)) = 5 * int (length ps)" "5 \<le> 5 * int (length (q # ps))"
    "\<not> 5 + uint (0 :: u16) > 5 * int (length (q # ps))" by simp_all
  have "40 * length ps + (40 + p) = 40 * length (q # ps) + p" by simp
  moreover have "\<lparr>StreamType = StreamType q, Elementary_PID = Elementary_PID q, ES_Info_Length = 0\<rparr> = q"
    using Cons.prems(2) by (cases q) (simp add: stream_ok_def)
  ultimately show ?case
    by (subst get_streams.simps) (simp only: n if_True if_False rd Option.bind.simps prod.case ih)
qed

definition pmt_ok :: "Pmt \<Rightarrow> bool" where
  "pmt_ok pmt \<longleftrightarrow> pmt_Table_id pmt = 0x02 \<and> fits 1 (pmt_Section_syntax_indicator pmt) \<and> fits 5 (pmt_Version_number pmt) \<and>
     fits 1 (pmt_Current_next_indicator pmt) \<and> fits 13 (PCR_PID pmt) \<and> Program_info_length pmt = 0 \<and>
     list_all stream_ok (Streams pmt) \<and> length (Streams pmt) \<le> 800"

definition pmt_received :: "Pmt \<Rightarrow> Pmt" where
  "pmt_received pmt = pmt\<lparr>pmt_Section_length := word_of_nat (13 + 5 * length (Streams pmt))\<rparr>"

lemma pmt_Decode_read:
  assumes bits: "bits_of_bytes (drop B buf) = pmt_bits pmt @ r" and ok: "pmt_ok pmt"
  shows "pmt_Decode NewPmt (cur m buf (8 * B)) =
    Some (None, pmt_received pmt, cur m buf (8 * (B + 12 + 5 * length (Streams pmt))))"
proof -
  let ?n = "length (Streams pmt)" and ?ssi = "pmt_Section_syntax_indicator pmt"
  let ?crc = "bits_of_bytes (le32 (CalcCrc32 0xffffffff (pack_bits (section_head 2 ?ssi (pmt_body_bits pmt)))))"
  have n: "13 + 5 * ?n < 4096" and s1: "fits 1 ?ssi" and tid: "pmt_Table_id pmt = 2" using ok by (simp_all add: pmt_ok_def)
  have d: "drop (8 * B) (bits_of_bytes buf) = bits_msb 8 (2 :: byte) @ bits_msb 1 ?ssi @
      bits_msb 1 (0 :: byte) @ bits_msb 2 (3 :: byte) @ bits_msb 12 (word_of_nat (13 + 5 * ?n) :: u16) @
      pmt_body_bits pmt @ ?crc @ r"
    using bits section_bits_fields [OF s1] by (simp add: bits_of_bytes_drop pmt_bits_def tid algebra_simps)
  have len: "8 * B + 8 * (16 + 5 * ?n) \<le> 8 * length buf" using arg_cong [OF d, of length] by simp
  note at = field_at(1) [OF d, where 'a = 8] and at16 = field_at(1) [OF d, where 'a = 16]
  have f: "field buf (8 * B) 8 = (2 :: byte)" "field buf (8 + 8 * B) 1 = ?ssi"
    "field buf (12 + 8 * B) 12 = (word_of_nat (13 + 5 * ?n) :: u16)" "field buf (24 + 8 * B) 16 = pmt_Program_number pmt"
    "field buf (42 + 8 * B) 5 = pmt_Version_number pmt" "field buf (47 + 8 * B) 1 = pmt_Current_next_indicator pmt"
    "field buf (48 + 8 * B) 8 = pmt_Section_number pmt" "field buf (56 + 8 * B) 8 = pmt_Last_section_number pmt"
    "field buf (67 + 8 * B) 13 = PCR_PID pmt" "field buf (84 + 8 * B) 12 = (0 :: u16)"
    using field_at(2) [OF d, of 8, where 'b = 8] at [of 8 1] at16 [of 12 12] at16 [of 24 16] at [of 42 5] at [of 47 1]
      at [of 48 8] at [of 56 8] at16 [of 67 13] at16 [of 84 12] ok fits_12 [OF n]
    by (simp_all add: pmt_body_bits_def of_msb_fits pmt_ok_def del: of_nat_add of_nat_mult)
  have len12: "uint (word_of_nat (13 + 5 * ?n) :: u16) = int (13 + 5 * ?n)" by (rule small_u16(2)) (use n in simp)
  have g: "\<not> (word_of_nat (13 + 5 * ?n) :: u16) < 13"
  proof -
    have "unat (word_of_nat (13 + 5 * ?n) :: u16) = 13 + 5 * ?n" by (rule small_u16(1)) (use n in simp)
    then show ?thesis by (simp only: word_less_nat_alt not_less) simp
  qed
  have rem: "RemainBytes (cur m buf (24 + 8 * B)) = glen buf - int (B + 3)"
  proof -
    have "24 + 8 * B = 8 * (B + 3)" by simp
    then show ?thesis by (simp only: RemainBytes_cur)
  qed
  have "int (13 + 5 * ?n) \<le> glen buf - int (B + 3)" using len by simp
  then have rem2: "\<not> int (13 + 5 * ?n) > RemainBytes (cur m buf (24 + 8 * B))" unfolding rem by simp
  have dp: "drop (96 + 8 * B) (bits_of_bytes buf) = streams_bits (Streams pmt) @ ?crc @ r"
    using d by (simp add: pmt_body_bits_def flip: drop_drop)
  have st: "get_streams (5 * int ?n) (cur m buf (96 + 8 * B)) = Some (None, Streams pmt, cur m buf (40 * ?n + (96 + 8 * B)))"
    by (rule get_streams_read [OF dp]) (use ok in \<open>simp add: pmt_ok_def\<close>)
  have rd: "Uint8 8 (cur m buf (8 * B)) = Some (2, cur m buf (8 + 8 * B))"
    "Uint8 1 (cur m buf (8 + 8 * B)) = Some (?ssi, cur m buf (9 + 8 * B))"
    "Uint16 12 (SkipBits 3 (cur m buf (9 + 8 * B))) = Some (word_of_nat (13 + 5 * ?n), cur m buf (24 + 8 * B))"
    "Uint16 16 (cur m buf (24 + 8 * B)) = Some (pmt_Program_number pmt, cur m buf (40 + 8 * B))"
    "Uint8 5 (SkipBits 2 (cur m buf (40 + 8 * B))) = Some (pmt_Version_number pmt, cur m buf (47 + 8 * B))"
    "Uint8 1 (cur m buf (47 + 8 * B)) = Some (pmt_Current_next_indicator pmt, cur m buf (48 + 8 * B))"
    "Uint8 8 (cur m buf (48 + 8 * B)) = Some (pmt_Section_number pmt, cur m buf (56 + 8 * B))"
    "Uint8 8 (cur m buf (56 + 8 * B)) = Some (pmt_Last_section_number pmt, cur m buf (64 + 8 * B))"
    "Uint16 13 (SkipBits 3 (cur m buf (64 + 8 * B))) = Some (PCR_PID pmt, cur m buf (80 + 8 * B))"
    "Uint16 12 (SkipBits 4 (cur m buf (80 + 8 * B))) = Some (0, cur m buf (96 + 8 * B))"
    "SkipBits (uint (0 :: u16) * 8) (cur m buf (96 + 8 * B)) = cur m buf (96 + 8 * B)"
    using len f by (simp_all add: cur_simps)
  have e: "Err (cur m buf q) = None" for q by (simp add: Err_def)
  have z: "\<not> (2 :: byte) \<noteq> 0x02" by simp
  have c: "\<not> uint (0 :: u16) > int (13 + 5 * ?n) - 9 - 4" "int (13 + 5 * ?n) - 9 - 4 - uint (0 :: u16) = 5 * int ?n" by simp_all
  let ?r = "NewPmt\<lparr>pmt_Table_id := 2, pmt_Section_syntax_indicator := ?ssi,
      pmt_Section_length := word_of_nat (13 + 5 * ?n), pmt_Program_number := pmt_Program_number pmt,
      pmt_Version_number := pmt_Version_number pmt, pmt_Current_next_indicator := pmt_Current_next_indicator pmt,
      pmt_Section_number := pmt_Section_number pmt, pmt_Last_section_number := pmt_Last_section_number pmt,
      PCR_PID := PCR_PID pmt, Program_info_length := 0\<rparr>"
  have "?r\<lparr>Streams := Streams ?r @ Streams pmt\<rparr> = pmt_received pmt"
    using ok by (cases pmt) (simp add: NewPmt_def pmt_received_def pmt_ok_def)
  moreover have "40 * ?n + (96 + 8 * B) = 8 * (B + 12 + 5 * ?n)" by simp
  ultimately show ?thesis
    by (simp only: pmt_Decode_def rd Option.bind.simps prod.case Let_def e z g len12 rem2 c st if_False if_True simp_thms
        option.map)
qed

text \<open>A section behind the pointer byte is found and read.\<close>

lemma skip_stuffing_none:
  assumes "bits_of_bytes (drop B buf) = bits_msb 8 (v :: byte) @ r" and "v \<noteq> 0xFF"
  shows "skip_stuffing (cur m buf (8 * B)) = Some (cur m buf (8 * B))" and "\<not> EOS (cur m buf (8 * B))"
proof -
  have d: "drop (8 * B) (bits_of_bytes buf) = bits_msb 8 v @ r" using assms by (simp add: bits_of_bytes_drop)
  have len: "8 * B + 8 \<le> 8 * length buf" using arg_cong [OF d, of length] by simp
  then show eos: "\<not> EOS (cur m buf (8 * B))" by (simp add: EOS_cur)
  have "field buf (8 * B) 8 = (ucast v :: u64)"
  proof -
    have "(of_msb (bits_msb 8 v) :: u64) = ucast v"
    proof (rule bit_word_eqI)
      fix n assume "n < LENGTH(64)"
      then show "bit (of_msb (bits_msb 8 v) :: u64) n = bit (ucast v :: u64) n"
        using bit_imp_le_length [of v n] by (cases "n < 8") (auto simp: bit_of_msb bit_ucast_iff)
    qed
    then show ?thesis using d by (simp add: field_def)
  qed
  moreover have "(ucast v :: u64) \<noteq> 0xFF"
  proof
    assume "(ucast v :: u64) = 0xFF"
    then have "unat (ucast v :: u64) = 255" by simp
    moreover have "unat v < 256" using unsigned_less [of v] by simp
    ultimately have "unat v = 255" by (simp add: unsigned_ucast_eq take_bit_nat_eq_self)
    then have "unat v = unat (0xFF :: byte)" by simp
    then show False using assms(2) by (simp only: word_unat_eq_iff)
  qed
  ultimately show "skip_stuffing (cur m buf (8 * B)) = Some (cur m buf (8 * B))"
    using eos len by (subst skip_stuffing.simps) (simp add: NextBits_cur)
qed

lemma ReadSection_pat:
  assumes "bits_of_bytes (drop B buf) = pat_bits pat @ r" and "pat_ok pat"
  shows "\<exists>bs. ReadSection 0 (cur m buf (8 * B)) = Some (Inr (PatPayload (pat_received pat)), bs)"
proof -
  have h: "bits_of_bytes (drop B buf) = bits_msb 8 (0 :: byte) @ drop 8 (pat_bits pat) @ r"
    using assms(1) by (simp add: pat_bits_def section_bits_def section_head_def)
  have "skip_stuffing (cur m buf (8 * B)) = Some (cur m buf (8 * B))" and "\<not> EOS (cur m buf (8 * B))"
    using skip_stuffing_none [OF h, of m] by simp_all
  then show ?thesis using pat_Decode_read [OF assms, of m] by (simp add: ReadSection_def)
qed

lemma ReadSection_pmt:
  assumes "bits_of_bytes (drop B buf) = pmt_bits pmt @ r" and "pmt_ok pmt"
  shows "\<exists>bs. ReadSection 2 (cur m buf (8 * B)) = Some (Inr (PmtPayload (pmt_received pmt)), bs)"
proof -
  have h: "bits_of_bytes (drop B buf) = bits_msb 8 (2 :: byte) @ drop 8 (pmt_bits pmt) @ r"
    using assms by (simp add: pmt_bits_def section_bits_def section_head_def pmt_ok_def)
  have "skip_stuffing (cur m buf (8 * B)) = Some (cur m buf (8 * B))" and "\<not> EOS (cur m buf (8 * B))"
    using skip_stuffing_none [OF h, of m] by simp_all
  then show ?thesis using pmt_Decode_read [OF assms, of m] by (simp add: ReadSection_def)
qed

text \<open>The checksum over a section with its own checksum is zero.\<close>

lemma section_checksum: "8 dvd length body \<Longrightarrow> CalcCrc32 0xffffffff (pack_bits (section_bits tid ssi body)) = 0"
proof -
  assume "8 dvd length body"
  then have "8 dvd length (section_head tid ssi body)" by (simp add: section_head_def)
  then have "pack_bits (section_bits tid ssi body) = pack_bits (section_head tid ssi body) @
      le32 (CalcCrc32 0xffffffff (pack_bits (section_head tid ssi body)))"
    using pack_bits_bytes [of "pack_bits (section_head tid ssi body) @
      le32 (CalcCrc32 0xffffffff (pack_bits (section_head tid ssi body)))"]
    by (simp add: section_bits_def bits_of_pack_bits)
  then show ?thesis by (simp add: CalcCrc32_append CalcCrc32_self)
qed

section \<open>The decoders never panic\<close>

lemma gives_get_clock: "bs_ok bs \<Longrightarrow> gives at_ok (get_clock bs)"
  unfolding get_clock_def by (intro gives_intros) simp_all

lemma gives_clock_bind:
  assumes "gives at_ok m" and "\<And>a b t. bs_ok t \<Longrightarrow> gives Q (f a b t)"
  shows "gives Q (Option.bind m (\<lambda>((a, b), t). f a b t))"
  using assms by (auto simp: gives_def)

lemma gives_decodeExtension: "bs_ok bs \<Longrightarrow> gives at_ok (decodeExtension f bs)"
  unfolding decodeExtension_def Let_def by (intro gives_intros gives_read_timestamp) simp_all

lemma gives_field_flags: "bs_ok bs \<Longrightarrow> gives at_ok (field_flags f bs)"
  unfolding field_flags_def by (intro gives_intros) simp_all

lemma gives_decodeField: "bs_ok bs \<Longrightarrow> gives (\<lambda>_. True) (decodeField f bs)"
  unfolding decodeField_def Let_def
  by (intro gives_intros gives_clock_bind gives_field_flags gives_get_clock gives_decodeExtension) simp_all

abbreviation at_ok3 :: "'a \<times> 'b \<times> bitstream \<Rightarrow> bool" where
  "at_ok3 \<equiv> \<lambda>(e, x, t). bs_ok t"

lemma gives_bind3:
  assumes "gives at_ok3 m" and "\<And>e x t. bs_ok t \<Longrightarrow> gives Q (f e x t)"
  shows "gives Q (Option.bind m (\<lambda>(e, x, t). f e x t))"
  using assms by (auto simp: gives_def)

lemma gives_pair_bind:
  assumes "gives (\<lambda>_. True) m" and "\<And>e x. gives Q (f e x)"
  shows "gives Q (Option.bind m (\<lambda>(e, x). f e x))"
  using assms by (auto simp: gives_def)

lemma gives_field_Decode:
  assumes "bs_ok bs" shows "gives at_ok3 (field_Decode f bs)"
proof -
  have "gives (\<lambda>_. True) (slice_to (RemainData t) (uint n))" if "\<not> glen (RemainData t) < uint n" for t and n :: byte
    using that by (simp add: slice_to_def)
  then show ?thesis
    unfolding field_Decode_def Let_def
    by (intro gives_intros gives_bind [of "\<lambda>_. True"] gives_pair_bind gives_decodeField) (use assms in auto)
qed

lemma gives_DecodeHeader: "bs_ok bs \<Longrightarrow> gives at_ok3 (DecodeHeader pkg bs)"
  unfolding DecodeHeader_def Let_def
  by (intro gives_intros gives_bind3 gives_field_Decode) auto

lemma gives_get_pairs: "bs_ok bs \<Longrightarrow> gives at_ok (get_pairs n bs)"
proof (induction n arbitrary: bs)
  case (Suc n)
  then show ?case unfolding get_pairs.simps by (intro gives_intros Suc.IH) simp_all
qed simp

lemma gives_pat_Decode: "bs_ok bs \<Longrightarrow> gives at_ok3 (pat_Decode pat bs)"
  unfolding pat_Decode_def Let_def by (intro gives_intros gives_get_pairs) auto

lemma gives_get_streams: "bs_ok bs \<Longrightarrow> gives at_ok3 (get_streams n bs)"
proof (induction "nat n" arbitrary: n bs rule: less_induct)
  case less
  have "gives at_ok3 (get_streams (n - (5 + uint w)) t)" if "5 \<le> n" "bs_ok t" for t and w :: u16
    using that less_le_trans [OF _ uint_ge_0 [of w], of "- 5"] by (intro less.hyps) auto
  then show ?case
    by (subst get_streams.simps) (intro gives_intros gives_bind3; use less.prems in auto)
qed

lemma gives_pmt_Decode: "bs_ok bs \<Longrightarrow> gives at_ok3 (pmt_Decode pmt bs)"
  unfolding pmt_Decode_def Let_def by (intro gives_intros gives_bind3 gives_get_streams) auto

lemma gives_ReadSection: "bs_ok bs \<Longrightarrow> gives at_ok (ReadSection t bs)"
  unfolding ReadSection_def
  by (intro gives_intros gives_bind [OF skip_stuffing_total] gives_bind3 gives_pat_Decode gives_pmt_Decode) auto

section \<open>Properties\<close>

text \<open>What a writer that emitted whole bytes returns.\<close>

lemma emits_Bits:
  assumes "emits 0 f xs" and "8 dvd length xs" and "0 \<le> n"
  shows "\<exists>s t. NewBitStreamWriter n = Some s \<and> f s = Some t \<and> bsw_Bits t = Some (pack_bits xs)"
proof -
  obtain s where s: "NewBitStreamWriter n = Some s" "wrote s [] 0" using wrote_New assms(3) by auto
  then obtain t m where "f s = Some t" "wrote t (bits_of_bytes (pack_bits xs)) m"
    using emitsE [OF assms(1) s(2)] bits_of_pack_bits [OF assms(2)] by auto
  then show ?thesis using s(1) wrote_Bits by blast
qed

text \<open>
  the header of a transport packet, with its adaptation field, clocks and stuffing, is read
  back, and what follows it is left in the stream.
\<close>

theorem TS_header_roundtrip:
  assumes "ts_header_ok pkg" and "0 \<le> n"
  shows "\<exists>s t h. NewBitStreamWriter n = Some s \<and> EncodeHeader pkg s = Some t \<and> bsw_Bits t = Some h \<and>
    length h = header_bytes pkg \<and>
    (\<forall>d. \<exists>bs. DecodeHeader zero_ts_packet (NewBitStream (h @ d)) = Some (None, header_received pkg, bs) \<and>
      RemainData bs = d)"
proof -
  let ?h = "pack_bits (header_bits pkg)"
  have l: "length (header_bits pkg) = 8 * header_bytes pkg" using assms(1) by (rule length_header_bits)
  obtain s t where st: "NewBitStreamWriter n = Some s" "EncodeHeader pkg s = Some t" "bsw_Bits t = Some ?h"
    using emits_Bits [OF emits_EncodeHeader _ assms(2), of pkg] l by auto
  have b: "bits_of_bytes ?h = header_bits pkg" by (rule bits_of_pack_bits) (simp add: l)
  have "8 * length ?h = 8 * header_bytes pkg" using arg_cong [OF b, of length] by (simp add: l)
  moreover have "\<exists>bs. DecodeHeader zero_ts_packet (NewBitStream (?h @ d)) = Some (None, header_received pkg, bs) \<and>
      RemainData bs = d" for d
    using DecodeHeader_read [of "?h @ d" pkg d] assms(1) b by (auto simp: RemainData_cur)
  ultimately show ?thesis using st by auto
qed

definition sample_ts :: TSPacket where
  "sample_ts = zero_ts_packet\<lparr>Payload_unit_start_indicator := 1, ts_PID := 0x100, Adaptation_field_control := 3,
     Continuity_counter := 7, Field := Some (zero_field\<lparr>PCR_flag := 1, Program_clock_reference_base := 90000,
       Stuffing_byte := 2\<rparr>)\<rparr>"

theorem TS_header_roundtrip_witness:
  "\<exists>s t h. NewBitStreamWriter 188 = Some s \<and> EncodeHeader sample_ts s = Some t \<and> bsw_Bits t = Some h \<and> length h = 14 \<and>
    (\<forall>d. \<exists>bs. DecodeHeader zero_ts_packet (NewBitStream (h @ d)) = Some (None, header_received sample_ts, bs) \<and>
      RemainData bs = d)"
proof -
  have "ts_header_ok sample_ts" "header_bytes sample_ts = 14" by code_simp+
  then show ?thesis using TS_header_roundtrip [of sample_ts 188] by simp
qed

text \<open>
  C20: a program association table and a program map table are written with a checksum that makes
  the checksum of the whole section zero, and both are read back, whatever follows them.
\<close>

theorem TS_tables_roundtrip:
  assumes "pat_ok pat" and "pmt_ok pmt" and "0 \<le> n"
  shows "\<exists>s t u a m. NewBitStreamWriter n = Some s \<and> pat_Encode pat s = Some t \<and> bsw_Bits t = Some a \<and>
    pmt_Encode pmt s = Some u \<and> bsw_Bits u = Some m \<and>
    CalcCrc32 0xffffffff a = 0 \<and> CalcCrc32 0xffffffff m = 0 \<and>
    (\<forall>r. \<exists>bs. ReadSection 0 (NewBitStream (a @ r)) = Some (Inr (PatPayload (pat_received pat)), bs)) \<and>
    (\<forall>r. \<exists>bs. ReadSection 2 (NewBitStream (m @ r)) = Some (Inr (PmtPayload (pmt_received pmt)), bs))"
proof -
  have d: "8 dvd length (pat_body_bits pat)" "8 dvd length (pmt_body_bits pmt)" by simp_all
  have ba: "8 dvd length (pat_bits pat)" and bm: "8 dvd length (pmt_bits pmt)"
    using length_section_bits [OF d(1)] length_section_bits [OF d(2)] by (simp_all add: pat_bits_def pmt_bits_def)
  have e: "emits 0 (pat_Encode pat) (pat_bits pat)" "emits 0 (pmt_Encode pmt) (pmt_bits pmt)"
    using assms(1,2) by (auto intro: emits_pat_Encode emits_pmt_Encode simp: pat_ok_def pmt_ok_def)
  obtain s where "NewBitStreamWriter n = Some s" "\<exists>t. pat_Encode pat s = Some t \<and> bsw_Bits t = Some (pack_bits (pat_bits pat))"
    "\<exists>u. pmt_Encode pmt s = Some u \<and> bsw_Bits u = Some (pack_bits (pmt_bits pmt))"
    using emits_Bits [OF e(1) ba assms(3)] emits_Bits [OF e(2) bm assms(3)] by auto
  moreover have "CalcCrc32 0xffffffff (pack_bits (pat_bits pat)) = 0" "CalcCrc32 0xffffffff (pack_bits (pmt_bits pmt)) = 0"
    using section_checksum [OF d(1)] section_checksum [OF d(2)] by (simp_all add: pat_bits_def pmt_bits_def)
  moreover have "\<exists>bs. ReadSection 0 (NewBitStream (pack_bits (pat_bits pat) @ r)) = Some (Inr (PatPayload (pat_received pat)), bs)" for r
    using ReadSection_pat [of 0 "pack_bits (pat_bits pat) @ r" pat "bits_of_bytes r" 0] assms(1) bits_of_pack_bits [OF ba]
    by (simp add: NewBitStream_cur)
  moreover have "\<exists>bs. ReadSection 2 (NewBitStream (pack_bits (pmt_bits pmt) @ r)) = Some (Inr (PmtPayload (pmt_received pmt)), bs)" for r
    using ReadSection_pmt [of 0 "pack_bits (pmt_bits pmt) @ r" pmt "bits_of_bytes r" 0] assms(2) bits_of_pack_bits [OF bm]
    by (simp add: NewBitStream_cur)
  ultimately show ?thesis by blast
qed

definition sample_pat :: Pat where
  "sample_pat = NewPat\<lparr>pat_Section_syntax_indicator := 1, pat_Current_next_indicator := 1,
     Pmts := [\<lparr>Program_number = 1, pair_PID = 0x200\<rparr>]\<rparr>"

definition sample_pmt :: Pmt where
  "sample_pmt = NewPmt\<lparr>pmt_Table_id := 2, pmt_Section_syntax_indicator := 1, pmt_Program_number := 1,
     pmt_Current_next_indicator := 1, PCR_PID := 0x100,
     Streams := [\<lparr>StreamType = 0x0F, Elementary_PID = 0x100, ES_Info_Length = 0\<rparr>]\<rparr>"

theorem TS_tables_roundtrip_witness:
  "\<exists>s t u a m. NewBitStreamWriter 188 = Some s \<and> pat_Encode sample_pat s = Some t \<and> bsw_Bits t = Some a \<and>
    pmt_Encode sample_pmt s = Some u \<and> bsw_Bits u = Some m \<and>
    CalcCrc32 0xffffffff a = 0 \<and> CalcCrc32 0xffffffff m = 0 \<and>
    (\<forall>r. \<exists>bs. ReadSection 0 (NewBitStream (a @ r)) = Some (Inr (PatPayload (pat_received sample_pat)), bs)) \<and>
    (\<forall>r. \<exists>bs. ReadSection 2 (NewBitStream (m @ r)) = Some (Inr (PmtPayload (pmt_received sample_pmt)), bs))"
proof -
  have "pat_ok sample_pat" "pmt_ok sample_pmt" by code_simp+
  then show ?thesis using TS_tables_roundtrip [of sample_pat sample_pmt 188] by simp
qed

text \<open>
  C22: no bytes make the decoders of transport packets panic or run on: from any stream the
  header and the sections come back as a value or an error.
\<close>

theorem TS_decoders_always_return:
  assumes "bs_ok bs"
  shows "(\<exists>e q t. DecodeHeader pkg bs = Some (e, q, t) \<and> bs_ok t) \<and> (\<exists>r t. ReadSection tid bs = Some (r, t) \<and> bs_ok t)"
  using gives_DecodeHeader [OF assms, of pkg] gives_ReadSection [OF assms, of tid] by (auto simp: gives_def)

theorem TS_decoders_always_return_witness:
  "(\<exists>e q t. DecodeHeader zero_ts_packet (NewBitStream [0x47, 0x40, 0, 0x30, 0xFF]) = Some (e, q, t) \<and> bs_ok t) \<and>
   (\<exists>r t. ReadSection 2 (NewBitStream [0x47, 0x40, 0, 0x30, 0xFF]) = Some (r, t) \<and> bs_ok t)"
  by (rule TS_decoders_always_return) (simp add: bs_ok_def NewBitStream_def pos_def)

end
