(* ===== verification/TsMuxer.thy ===== *)
theory TsMuxer
  imports TsProto AnnexB
begin

text \<open>
  The MPEG-TS multiplexer, \<open>go-mpeg2/ts-muxer.go\<close>.

  A model function returns its error, the state it mutates and the packets it handed to
  \<open>OnPacket\<close> in order (nobody sees them when the callback is nil).  \<open>writePES\<close> mutates the
  stream it is given, which is returned; \<open>Write\<close> puts it back where it found it.

  The lemmas: every packet has 188 bytes, \<open>carries\<close> says what a receiver decodes from the packets
  of one frame, and a writer whose tables fit a packet never fails.
\<close>

unbundle bit_operations_syntax

section \<open>State\<close>

record pes_stream =
  ps_pid :: u16
  ps_cc :: byte
  ps_streamtype :: TS_STREAM_TYPE

definition NewPESStream :: "u16 \<Rightarrow> TS_STREAM_TYPE \<Rightarrow> pes_stream" where
  "NewPESStream pid cid = \<lparr>ps_pid = pid, ps_cc = 0, ps_streamtype = cid\<rparr>"

record table_pmt =
  tp_pid :: u16
  tp_cc :: byte
  tp_pcr_pid :: u16
  tp_version_number :: byte
  tp_pm :: u16
  tp_streams :: "pes_stream list"

definition NewTablePmt :: table_pmt where
  "NewTablePmt = \<lparr>tp_pid = 0, tp_cc = 0, tp_pcr_pid = 0, tp_version_number = 0, tp_pm = 0, tp_streams = []\<rparr>"

record table_pat =
  ta_cc :: byte
  ta_version_number :: byte
  ta_pmts :: "table_pmt list"

definition NewTablePat :: table_pat where
  "NewTablePat = \<lparr>ta_cc = 0, ta_version_number = 0, ta_pmts = []\<rparr>"

record TSMuxer =
  mux_pat :: "table_pat option"
  mux_stream_pid :: u16
  mux_pmt_pid :: u16
  mux_pat_period :: u64
  mux_bsw :: "bitwriter option"

definition NewTSMuxer :: TSMuxer where
  "NewTSMuxer = \<lparr>mux_pat = Some NewTablePat, mux_stream_pid = 0x100, mux_pmt_pid = 0x200,
     mux_pat_period = 0, mux_bsw = None\<rparr>"

definition AddStream :: "TS_STREAM_TYPE \<Rightarrow> TSMuxer \<Rightarrow> (u16 \<times> TSMuxer) option" where
  "AddStream cid mux = (
     let pat = (case mux_pat mux of None \<Rightarrow> NewTablePat | Some p \<Rightarrow> p);
       (pmts, pmt_pid) = (if ta_pmts pat = []
         then ([NewTablePmt\<lparr>tp_pid := mux_pmt_pid mux, tp_pm := 1\<rparr>], mux_pmt_pid mux + 1)
         else (ta_pmts pat, mux_pmt_pid mux));
       sid = mux_stream_pid mux in do {
       pmt \<leftarrow> idx pmts 0;
       Some (sid, mux\<lparr>mux_pat := Some (pat\<lparr>ta_pmts := pmts[0 := pmt\<lparr>tp_streams := tp_streams pmt @ [NewPESStream sid cid]\<rparr>]\<rparr>),
         mux_stream_pid := sid + 1, mux_pmt_pid := pmt_pid\<rparr>)
     })"

section \<open>One packet\<close>

definition mux_writer :: "TSMuxer \<Rightarrow> bitwriter option" where
  "mux_writer mux = (case mux_bsw mux of None \<Rightarrow> NewBitStreamWriter TS_PAKCET_SIZE | Some bsw \<Rightarrow> Some (bsw_Reset bsw))"

definition stuffing :: "bitwriter \<Rightarrow> bitwriter option" where
  "stuffing bsw = (let n = TS_PAKCET_SIZE - int (bsw_ByteOffset bsw) in
     if n > 0 then PutRepetValue 0xff n bsw else Some bsw)"

text \<open>\<open>mux.bsw\<close> is the writer that was used.\<close>

definition mux_emit :: "bitwriter \<Rightarrow> TSMuxer \<Rightarrow> (mpeg2_error option \<times> TSMuxer \<times> bytes list) option" where
  "mux_emit bsw mux = (
     let mux = mux\<lparr>mux_bsw := Some bsw\<rparr> in
     case bsw_Err bsw of Some e \<Rightarrow> Some (Some (ErrStream e), mux, [])
     | None \<Rightarrow> do {
         pkg \<leftarrow> bsw_Bits bsw;
         if glen pkg \<noteq> TS_PAKCET_SIZE then Some (Some (ErrPacketSize (glen pkg)), mux, [])
         else Some (None, mux, [pkg])
       })"

definition writePat :: "Pat \<Rightarrow> TSMuxer \<Rightarrow> (mpeg2_error option \<times> TSMuxer \<times> bytes list) option" where
  "writePat pat mux = do {
     tpat \<leftarrow> mux_pat mux;
     let tshdr = zero_ts_packet\<lparr>Payload_unit_start_indicator := 1, ts_PID := 0,
       Adaptation_field_control := 0x01, Continuity_counter := ta_cc tpat\<rparr>;
     let mux = mux\<lparr>mux_pat := Some (tpat\<lparr>ta_cc := (ta_cc tpat + 1) mod 16\<rparr>)\<rparr>;
     bsw \<leftarrow> mux_writer mux;
     bsw \<leftarrow> EncodeHeader tshdr bsw;
     bsw \<leftarrow> PutByte 0x00 bsw;
     bsw \<leftarrow> pat_Encode pat bsw;
     bsw \<leftarrow> stuffing bsw;
     mux_emit bsw mux
   }"

text \<open>\<open>t_pmt\<close> is a pointer into the table: its new value is returned.\<close>

definition writePmt :: "Pmt \<Rightarrow> table_pmt \<Rightarrow> TSMuxer \<Rightarrow> (mpeg2_error option \<times> table_pmt \<times> TSMuxer \<times> bytes list) option" where
  "writePmt pmt t_pmt mux = do {
     let tshdr = zero_ts_packet\<lparr>Payload_unit_start_indicator := 1, ts_PID := tp_pid t_pmt,
       Adaptation_field_control := 0x01, Continuity_counter := tp_cc t_pmt\<rparr>;
     let t_pmt = t_pmt\<lparr>tp_cc := (tp_cc t_pmt + 1) mod 16\<rparr>;
     bsw \<leftarrow> mux_writer mux;
     bsw \<leftarrow> EncodeHeader tshdr bsw;
     bsw \<leftarrow> PutByte 0x00 bsw;
     bsw \<leftarrow> pmt_Encode pmt bsw;
     bsw \<leftarrow> stuffing bsw;
     (e, mux, out) \<leftarrow> mux_emit bsw mux;
     Some (e, t_pmt, mux, out)
   }"

section \<open>The packets of a frame\<close>

text \<open>The adaptation field and the header length a packet has before its payload is known.\<close>

definition mux_adaptation :: "bool \<Rightarrow> bool \<Rightarrow> bool \<Rightarrow> u64 \<Rightarrow> u64 \<Rightarrow> Adaptation_field option \<times> byte \<times> int" where
  "mux_adaptation first idr pcr pts dts = (
     let (f, afc, headlen) = (if first \<and> idr
       then (Some (zero_field\<lparr>Random_access_indicator := 1\<rparr>), 0x01 OR 0x02, 4 + 2)
       else (None, 0x01, 4)) in
     if first \<and> pcr then
       let (g, headlen) = (case f of None \<Rightarrow> (zero_field, headlen + 2) | Some g \<Rightarrow> (g, headlen)) in
       (Some (g\<lparr>PCR_flag := 1, Program_clock_reference_base := (if dts = 0 then pts else dts),
          Program_clock_reference_extension := 0\<rparr>), afc OR 0x02, headlen + 6)
     else (f, afc, headlen))"

definition H264_AUD_NALU :: bytes where "H264_AUD_NALU = [0x00, 0x00, 0x00, 0x01, 0x09, 0xF0]"
definition H265_AUD_NALU :: bytes where "H265_AUD_NALU = [0x00, 0x00, 0x00, 0x01, 0x46, 0x01, 0x50]"

text \<open>The delimiter put in front of a frame without one.\<close>

definition mux_aud :: "TS_STREAM_TYPE \<Rightarrow> bool \<Rightarrow> bytes" where
  "mux_aud cid withaud =
     (if \<not> withaud \<and> cid = TS_STREAM_H264 then H264_AUD_NALU
      else if \<not> withaud \<and> cid = TS_STREAM_H265 then H265_AUD_NALU else [])"

text \<open>\<open>n\<close> is \<open>headlen - oldheadlen\<close>: the PES header and the delimiter.\<close>

definition mux_pes :: "TS_STREAM_TYPE \<Rightarrow> int \<Rightarrow> int \<Rightarrow> u64 \<Rightarrow> u64 \<Rightarrow> bool \<Rightarrow> PesPacket" where
  "mux_pes cid n dataLen pts dts idr =
     NewPesPacket\<lparr>PTS_DTS_flags := 0x03, PES_header_data_length := 10, Pts := pts, Dts := dts,
       Stream_id := word_of_int (findPESIDByStreamType cid),
       Data_alignment_indicator := (if idr then 1 else 0),
       PES_packet_length := (if n - 6 + dataLen > 0xFFFF then 0 else word_of_int (dataLen + n - 6))\<rparr>"

text \<open>The payload: all that is left and stuffing, or as much as there is room for.\<close>

definition mux_take :: "Adaptation_field option \<Rightarrow> int \<Rightarrow> bytes \<Rightarrow> (Adaptation_field option \<times> bytes \<times> bytes) option" where
  "mux_take f headlen data =
     (if glen data + headlen < TS_PAKCET_SIZE then
        let (g, headlen) = (case f of
            None \<Rightarrow> (let headlen = headlen + 1 in
              if TS_PAKCET_SIZE - glen data - headlen \<ge> 1 then (zero_field, headlen + 1)
              else (zero_field\<lparr>SingleStuffingByte := True\<rparr>, headlen))
          | Some g \<Rightarrow> (g, headlen)) in
        Some (Some (g\<lparr>Stuffing_byte := word_of_int (TS_PAKCET_SIZE - glen data - headlen)\<rparr>), data, [])
      else do {
        chunk \<leftarrow> slice_of data 0 (TS_PAKCET_SIZE - headlen);
        rest \<leftarrow> slice_from data (TS_PAKCET_SIZE - headlen);
        Some (f, chunk, rest)
      })"

text \<open>Header, PES packet or bytes, and what is left of the frame.\<close>

definition mux_packet :: "bool \<Rightarrow> pes_stream \<Rightarrow> u16 \<Rightarrow> bytes \<Rightarrow> u64 \<Rightarrow> u64 \<Rightarrow> bool \<Rightarrow> bool
    \<Rightarrow> (TSPacket \<times> (PesPacket + bytes) \<times> bytes) option" where
  "mux_packet first pes pcr_pid data pts dts idr_flag withaud = (
     let (f, afc, oldheadlen) = mux_adaptation first idr_flag (ps_pid pes = pcr_pid) pts dts;
       aud = (if first then mux_aud (ps_streamtype pes) withaud else []);
       headlen = (if first then oldheadlen + 19 + glen aud else oldheadlen) in do {
       (f, chunk, rest) \<leftarrow> mux_take f headlen data;
       Some (zero_ts_packet\<lparr>Payload_unit_start_indicator := (if first then 1 else 0), ts_PID := ps_pid pes,
           Continuity_counter := ps_cc pes, Field := f,
           Adaptation_field_control := (if f = None then afc else afc OR 0x02)\<rparr>,
         if first then Inl ((mux_pes (ps_streamtype pes) (headlen - oldheadlen) (glen data) pts dts idr_flag)
             \<lparr>Pes_payload := aud @ chunk\<rparr>)
         else Inr chunk,
         rest)
     })"

lemma mux_aud_bound: "length (mux_aud cid w) \<le> 7"
  by (simp add: mux_aud_def H264_AUD_NALU_def H265_AUD_NALU_def)

lemma mux_adaptation_bound: "mux_adaptation first idr pcr pts dts = (f, afc, h) \<Longrightarrow> 4 \<le> h \<and> h \<le> 12"
  by (auto simp: mux_adaptation_def Let_def split: if_splits)

lemma mux_packet_shorter:
  assumes "mux_packet first pes pcr_pid data pts dts idr_flag withaud = Some (hdr, body, rest)" and "rest \<noteq> []"
  shows "length rest < length data"
proof -
  obtain f afc h where a: "mux_adaptation first idr_flag (ps_pid pes = pcr_pid) pts dts = (f, afc, h)"
    by (metis prod_cases3)
  let ?h = "if first then h + 19 + glen (mux_aud (ps_streamtype pes) withaud) else h"
  have "?h < 188" using mux_adaptation_bound [OF a] mux_aud_bound [of "ps_streamtype pes" withaud] by auto
  moreover obtain g chunk where "mux_take f ?h data = Some (g, chunk, rest)"
    using assms(1) a by (auto simp: mux_packet_def Let_def Option.bind_eq_Some_conv split: if_splits)
  ultimately show ?thesis using assms(2)
    by (auto simp: mux_take_def Let_def Option.bind_eq_Some_conv slice_from_def slice_of_def split: if_splits prod.splits)
qed

function writePES_loop :: "bool \<Rightarrow> pes_stream \<Rightarrow> u16 \<Rightarrow> bytes \<Rightarrow> u64 \<Rightarrow> u64 \<Rightarrow> bool \<Rightarrow> bool \<Rightarrow> TSMuxer
    \<Rightarrow> (mpeg2_error option \<times> pes_stream \<times> TSMuxer \<times> bytes list) option" where
  "writePES_loop first pes pcr_pid data pts dts idr_flag withaud mux = do {
     bsw \<leftarrow> mux_writer mux;
     (tshdr, body, rest) \<leftarrow> mux_packet first pes pcr_pid data pts dts idr_flag withaud;
     let pes = pes\<lparr>ps_cc := (ps_cc pes + 1) mod 16\<rparr>;
     bsw \<leftarrow> EncodeHeader tshdr bsw;
     bsw \<leftarrow> (case body of Inl pespkg \<Rightarrow> pes_Encode pespkg bsw | Inr payload \<Rightarrow> PutBytes payload bsw);
     (e, mux, out) \<leftarrow> mux_emit bsw mux;
     if e \<noteq> None then Some (e, pes, mux, out)
     else if rest = [] then Some (None, pes, mux, out)
     else do {
       (e, pes, mux, out') \<leftarrow> writePES_loop False pes pcr_pid rest pts dts idr_flag withaud mux;
       Some (e, pes, mux, out @ out')
     }
   }"
  by pat_completeness auto
termination
  by (relation "measure (\<lambda>(first, pes, pcr_pid, data, _). length data)")
    (auto dest: mux_packet_shorter)

declare writePES_loop.simps [simp del]

definition writePES :: "pes_stream \<Rightarrow> table_pmt \<Rightarrow> bytes \<Rightarrow> u64 \<Rightarrow> u64 \<Rightarrow> bool \<Rightarrow> bool \<Rightarrow> TSMuxer
    \<Rightarrow> (mpeg2_error option \<times> pes_stream \<times> TSMuxer \<times> bytes list) option" where
  "writePES pes pmt data pts dts idr_flag withaud mux =
     writePES_loop True pes (tp_pcr_pid pmt) data pts dts idr_flag withaud mux"

section \<open>A frame is written\<close>

text \<open>The two callbacks that look for a delimiter in front of the first slice; their state is \<open>withaud\<close>.\<close>

definition h264_aud_callback :: "bool frame_callback" where
  "h264_aud_callback nalu withaud =
     (case nalu of [] \<Rightarrow> (\<not> IsH264VCLNaluType H264_NAL_RESERVED, withaud)
      | b # _ \<Rightarrow>
          let nalu_type = uint (b AND 0x1F) in
          if nalu_type = 9 then (False, True)
          else if IsH264VCLNaluType nalu_type then (False, withaud)
          else (True, withaud))"

definition h265_aud_callback :: "bool frame_callback" where
  "h265_aud_callback nalu withaud =
     (case nalu of [] \<Rightarrow> (\<not> IsH265VCLNaluType 0, withaud)
      | b # _ \<Rightarrow>
          let nalu_type = uint (drop_bit 1 b AND 0x3F) in
          if nalu_type = 35 then (False, True)
          else if IsH265VCLNaluType nalu_type then (False, withaud)
          else (True, withaud))"

definition mux_withaud :: "TS_STREAM_TYPE \<Rightarrow> bytes \<Rightarrow> bool option" where
  "mux_withaud cid data =
     (if cid = TS_STREAM_H264 then SplitFrame data (Some h264_aud_callback) False
      else if cid = TS_STREAM_H265 then SplitFrame data (Some h265_aud_callback) False
      else Some False)"

definition mux_idr :: "TS_STREAM_TYPE \<Rightarrow> bytes \<Rightarrow> bool option" where
  "mux_idr cid data =
     (if cid = TS_STREAM_H264 then IsH264IDRFrame data
      else if cid = TS_STREAM_H265 then IsH265IDRFrame data
      else Some False)"

text \<open>The search: the first program and stream with the pid.\<close>

fun find_in_pmt :: "u16 \<Rightarrow> nat \<Rightarrow> pes_stream list \<Rightarrow> nat option" where
  "find_in_pmt pid j [] = None"
| "find_in_pmt pid j (s # ss) = (if ps_pid s = pid then Some j else find_in_pmt pid (j + 1) ss)"

fun find_stream :: "u16 \<Rightarrow> nat \<Rightarrow> table_pmt list \<Rightarrow> (nat \<times> nat) option" where
  "find_stream pid i [] = None"
| "find_stream pid i (pmt # pmts) =
     (case find_in_pmt pid 0 (tp_streams pmt) of Some j \<Rightarrow> Some (i, j) | None \<Rightarrow> find_stream pid (i + 1) pmts)"

definition mux_Pat :: "table_pat \<Rightarrow> Pat" where
  "mux_Pat pat = NewPat\<lparr>pat_Version_number := ta_version_number pat,
     Pmts := map (\<lambda>pmt. \<lparr>Program_number = tp_pm pmt, pair_PID = tp_pid pmt\<rparr>) (ta_pmts pat)\<rparr>"

definition mux_Pmt :: "table_pmt \<Rightarrow> Pmt" where
  "mux_Pmt pmt = NewPmt\<lparr>pmt_Program_number := tp_pm pmt, pmt_Version_number := tp_version_number pmt,
     PCR_PID := tp_pcr_pid pmt,
     Streams := map (\<lambda>s. \<lparr>StreamType = word_of_int (ps_streamtype s), Elementary_PID = ps_pid s, ES_Info_Length = 0\<rparr>)
       (tp_streams pmt)\<rparr>"

text \<open>The loop over the programs; \<open>done'\<close> are the ones before.\<close>

fun writePmts :: "table_pmt list \<Rightarrow> table_pmt list \<Rightarrow> TSMuxer
    \<Rightarrow> (mpeg2_error option \<times> table_pmt list \<times> TSMuxer \<times> bytes list) option" where
  "writePmts done' [] mux = Some (None, done', mux, [])"
| "writePmts done' (pmt # pmts) mux = do {
     (e, pmt, mux, out) \<leftarrow> writePmt (mux_Pmt pmt) pmt mux;
     if e \<noteq> None then Some (e, done' @ pmt # pmts, mux, out)
     else do {
       (e, all', mux, out') \<leftarrow> writePmts (done' @ [pmt]) pmts mux;
       Some (e, all', mux, out @ out')
     }
   }"

definition set_pmts :: "table_pmt list \<Rightarrow> TSMuxer \<Rightarrow> TSMuxer" where
  "set_pmts pmts mux = mux\<lparr>mux_pat := map_option (\<lambda>pat. pat\<lparr>ta_pmts := pmts\<rparr>) (mux_pat mux)\<rparr>"

text \<open>PAT and PMTs are written at the start and when more than 400 ms went by.\<close>

definition mux_tables :: "u64 \<Rightarrow> TSMuxer \<Rightarrow> (mpeg2_error option \<times> TSMuxer \<times> bytes list) option" where
  "mux_tables dts mux =
     (if mux_pat_period mux = 0 \<or> mux_pat_period mux + 400 < dts then do {
        pat \<leftarrow> mux_pat mux;
        let mux = mux\<lparr>mux_pat_period := (if dts = 0 then 1 else dts)\<rparr>;
        (e, mux, out) \<leftarrow> writePat (mux_Pat pat) mux;
        if e \<noteq> None then Some (e, mux, out)
        else do {
          (e, pmts, mux, out') \<leftarrow> writePmts [] (ta_pmts pat) mux;
          Some (e, set_pmts pmts mux, out @ out')
        }
      }
      else Some (None, mux, []))"

definition mux_Write :: "u16 \<Rightarrow> bytes \<Rightarrow> u64 \<Rightarrow> u64 \<Rightarrow> TSMuxer \<Rightarrow> (mpeg2_error option \<times> TSMuxer \<times> bytes list) option" where
  "mux_Write pid data pts dts mux = do {
     pat \<leftarrow> mux_pat mux;
     (case find_stream pid 0 (ta_pmts pat) of
        None \<Rightarrow> Some (Some ErrNotFoundPid, mux, [])
      | Some (i, j) \<Rightarrow> do {
          pmt \<leftarrow> idx (ta_pmts pat) (int i);
          strm \<leftarrow> idx (tp_streams pmt) (int j);
          let cid = ps_streamtype strm;
          let pmt = (if tp_pcr_pid pmt = 0 \<or> (findPESIDByStreamType cid = PES_STREAM_VIDEO \<and> tp_pcr_pid pmt \<noteq> pid)
            then pmt\<lparr>tp_pcr_pid := pid\<rparr> else pmt);
          let mux = set_pmts ((ta_pmts pat)[i := pmt]) mux;
          withaud \<leftarrow> mux_withaud cid data;
          (e, mux, out) \<leftarrow> mux_tables dts mux;
          if e \<noteq> None then Some (e, mux, out)
          else do {
            flag \<leftarrow> mux_idr cid data;
            pat \<leftarrow> mux_pat mux;
            pmt \<leftarrow> idx (ta_pmts pat) (int i);
            strm \<leftarrow> idx (tp_streams pmt) (int j);
            (e, strm, mux, out') \<leftarrow> writePES strm pmt data (pts * 90) (dts * 90) flag withaud mux;
            Some (e, set_pmts ((ta_pmts pat)[i := pmt\<lparr>tp_streams := (tp_streams pmt)[j := strm]\<rparr>]) mux, out @ out')
          }
        })
   }"

section \<open>The packets of a frame\<close>

definition opt_field_bytes :: "Adaptation_field option \<Rightarrow> nat" where
  "opt_field_bytes f = (case f of Some g \<Rightarrow> field_bytes g | None \<Rightarrow> 0)"

definition plain_field :: "Adaptation_field \<Rightarrow> bool" where
  "plain_field g \<longleftrightarrow> \<not> SingleStuffingByte g \<and> Stuffing_byte g = 0 \<and> afield_ok g"

lemma fits_zero [simp]: "fits n (0 :: 'a :: len word)" and fits_one [simp]: "0 < n \<Longrightarrow> fits n (1 :: 'a :: len word)"
  by (auto simp: fits_def)

lemma plain_zero: "plain_field zero_field"
  by (simp add: plain_field_def zero_field_def afield_ok_def field_size_def)

lemma mux_adaptation_spec:
  assumes "mux_adaptation first idr pcr pts dts = (f, afc, h)" and "fits 33 pts" and "fits 33 dts"
  shows "h = 4 + int (opt_field_bytes f)" and "afc = (if f = None then 1 else 3)" and "pred_option plain_field f"
proof -
  have o: "(1 :: byte) OR 2 = 3" "(3 :: byte) OR 2 = 3" by code_simp+
  show "h = 4 + int (opt_field_bytes f)" "afc = (if f = None then 1 else 3)" "pred_option plain_field f"
    using assms
    by (auto simp: mux_adaptation_def Let_def opt_field_bytes_def field_bytes_def field_size_def zero_field_def o
        plain_field_def afield_ok_def split: if_splits)
qed

lemma unat_byte_of_nat: "n < 256 \<Longrightarrow> unat (word_of_nat n :: byte) = n"
  by (simp add: unat_of_nat take_bit_nat_eq_self)

lemma mux_take_spec:
  assumes "headlen = 4 + int (opt_field_bytes f) + int k" and "headlen < 188" and "pred_option plain_field f"
  obtains g chunk rest where "mux_take f headlen data = Some (g, chunk, rest)" "data = chunk @ rest"
    "pred_option afield_ok g" "4 + opt_field_bytes g + k + length chunk = 188" "f \<noteq> None \<Longrightarrow> g \<noteq> None"
    "data \<noteq> [] \<Longrightarrow> chunk \<noteq> []"
proof (cases "glen data + headlen < 188")
  case False
  let ?n = "nat (188 - headlen)"
  have n: "?n \<le> length data" "0 < ?n" "4 + opt_field_bytes f + k + ?n = 188" using False assms by auto
  have "mux_take f headlen data = Some (f, take ?n data, drop ?n data)"
    using False n assms(2) by (simp add: mux_take_def slice_of_def slice_from_def)
  moreover have "pred_option afield_ok f" using assms(3) by (cases f) (simp_all add: plain_field_def)
  ultimately show ?thesis using n by (intro that [of f "take ?n data" "drop ?n data"]) auto
next
  case True
  show ?thesis
  proof (cases f)
    case (Some g)
    obtain n where n: "188 - glen data - headlen = int n" "n < 256"
      using True assms(1,2) by (intro that [of "nat (188 - glen data - headlen)"]) simp_all
    have u: "unat (word_of_nat n :: byte) = n" using n(2) by (rule unat_byte_of_nat)
    have g: "\<not> SingleStuffingByte g" "afield_ok g" "opt_field_bytes f = 1 + field_size g"
      using assms(3) Some by (simp_all add: plain_field_def opt_field_bytes_def field_bytes_def)
    let ?g = "g\<lparr>Stuffing_byte := word_of_nat n\<rparr>"
    have fs: "field_size ?g = field_size g" by (simp add: field_size_def)
    have sum: "4 + (1 + field_size g + n) + k + length data = 188" using n(1) assms(1) g(3) by simp
    then have "afield_ok ?g" using g(1,2) by (simp add: afield_ok_def u fs)
    moreover have "mux_take f headlen data = Some (Some ?g, data, [])" using True Some by (simp add: mux_take_def Let_def n(1) del: of_int_diff)
    moreover have "opt_field_bytes (Some ?g) = 1 + field_size g + n"
      using g(1) u fs by (simp add: opt_field_bytes_def field_bytes_def)
    ultimately show ?thesis using sum by (intro that [of "Some ?g" data "[]"]) auto
  next
    case None
    have h: "headlen = 4 + int k" using assms(1) None by (simp add: opt_field_bytes_def)
    show ?thesis
    proof (cases "glen data + headlen = 187")
      case True
      let ?g = "zero_field\<lparr>SingleStuffingByte := True\<rparr>"
      have z: "188 - glen data - (headlen + 1) = 0" using True by simp
      have "mux_take f headlen data = Some (Some ?g, data, [])"
        using True unfolding None mux_take_def by (simp add: Let_def z zero_field_def del: of_int_diff)
      moreover have "afield_ok ?g" by (simp add: afield_ok_def zero_field_def)
      moreover have "opt_field_bytes (Some ?g) = 1" by (simp add: opt_field_bytes_def field_bytes_def)
      ultimately show ?thesis using True h by (intro that [of "Some ?g" data "[]"]) auto
    next
      case False
      obtain n where n: "188 - glen data - (headlen + 2) = int n" "n < 256"
        using True False h by (intro that [of "nat (188 - glen data - (headlen + 2))"]) simp_all
      have u: "unat (word_of_nat n :: byte) = n" using n(2) by (rule unat_byte_of_nat)
      let ?g = "zero_field\<lparr>Stuffing_byte := word_of_nat n\<rparr>"
      have sum: "4 + (2 + n) + k + length data = 188" using n(1) h by simp
      have c: "188 - glen data - (headlen + 1) \<ge> 1" "188 - glen data - (headlen + 1 + 1) = int n"
        using n(1) True False by simp_all
      have "mux_take f headlen data = Some (Some ?g, data, [])"
        by (simp only: None mux_take_def Let_def True c if_True option.case prod.case of_int_of_nat_eq)
      moreover have fs: "field_size ?g = 1" "\<not> SingleStuffingByte ?g" by (simp_all add: field_size_def zero_field_def)
      moreover have "afield_ok ?g" using sum u by (simp add: afield_ok_def zero_field_def field_size_def)
      moreover have "opt_field_bytes (Some ?g) = 2 + n"
        using u fs by (simp add: opt_field_bytes_def field_bytes_def)
      ultimately show ?thesis using sum by (intro that [of "Some ?g" data "[]"]) auto
    qed
  qed
qed

text \<open>The PES packet of a frame without its payload.\<close>

definition frame_pes :: "TS_STREAM_TYPE \<Rightarrow> bytes \<Rightarrow> nat \<Rightarrow> u64 \<Rightarrow> u64 \<Rightarrow> bool \<Rightarrow> PesPacket" where
  "frame_pes cid aud n pts dts idr = mux_pes cid (19 + glen aud) (int n) pts dts idr"

definition pes_bytes :: "PesPacket \<Rightarrow> bytes" where
  "pes_bytes pkg = pack_bits (pes_head_bits pkg @ pes_times_bits pkg) @ Pes_payload pkg"

definition body_bytes :: "PesPacket + bytes \<Rightarrow> bytes" where
  "body_bytes body = (case body of Inl pkg \<Rightarrow> pes_bytes pkg | Inr b \<Rightarrow> b)"

lemma length_pack_bits: "8 dvd length xs \<Longrightarrow> length (pack_bits xs) = length xs div 8"
  using arg_cong [OF bits_of_pack_bits, of xs length] by simp

lemma frame_pes_times: "length (pes_times_bits ((frame_pes cid aud n pts dts idr)\<lparr>Pes_payload := d\<rparr>)) = 80"
  by (simp add: frame_pes_def mux_pes_def pes_times_bits_def NewPesPacket_def)

lemma frame_pes_ESCR: "ESCR_flag (frame_pes cid aud n pts dts idr) = 0"
  by (simp add: frame_pes_def mux_pes_def NewPesPacket_def)

lemma frame_pes_head:
  "pack_bits (pes_head_bits ((frame_pes cid aud n pts dts idr)\<lparr>Pes_payload := d\<rparr>) @
      pes_times_bits ((frame_pes cid aud n pts dts idr)\<lparr>Pes_payload := d\<rparr>)) =
   pack_bits (pes_head_bits (frame_pes cid aud n pts dts idr) @ pes_times_bits (frame_pes cid aud n pts dts idr))"
  by (simp add: pes_head_bits_def pes_times_bits_def)

lemma length_frame_pes: "length (pes_bytes ((frame_pes cid aud n pts dts idr)\<lparr>Pes_payload := d\<rparr>)) = 19 + length d"
  by (simp add: pes_bytes_def length_pack_bits frame_pes_times)

text \<open>A stream whose packets can be written.\<close>

definition stream_fits :: "pes_stream \<Rightarrow> bool" where
  "stream_fits pes \<longleftrightarrow> fits 13 (ps_pid pes) \<and> ps_pid pes \<noteq> TS_PID_Nil \<and> fits 4 (ps_cc pes)"

lemma mux_packet_spec:
  assumes "stream_fits pes" and "fits 33 pts" and "fits 33 dts"
  obtains hdr chunk rest where
    "mux_packet first pes pcr data pts dts idr w = Some (hdr,
       if first then Inl ((frame_pes (ps_streamtype pes) (mux_aud (ps_streamtype pes) w) (length data) pts dts idr)
         \<lparr>Pes_payload := mux_aud (ps_streamtype pes) w @ chunk\<rparr>) else Inr chunk, rest)"
    "data = chunk @ rest" "ts_header_ok hdr" "ts_PID hdr = ps_pid pes" "Continuity_counter hdr = ps_cc pes"
    "Payload_unit_start_indicator hdr = (if first then 1 else 0)" "Adaptation_field_control hdr AND 1 = 1"
    "header_bytes hdr + (if first then 19 + length (mux_aud (ps_streamtype pes) w) else 0) + length chunk = 188"
    "data \<noteq> [] \<Longrightarrow> chunk \<noteq> []"
proof -
  let ?aud = "mux_aud (ps_streamtype pes) w"
  obtain f afc h where a: "mux_adaptation first idr (ps_pid pes = pcr) pts dts = (f, afc, h)"
    by (metis prod_cases3)
  note sp = mux_adaptation_spec [OF a assms(2,3)]
  let ?k = "if first then 19 + length ?aud else 0" and ?h = "if first then h + 19 + glen ?aud else h"
  have "?h = 4 + int (opt_field_bytes f) + int ?k" using sp(1) by simp
  moreover have "?h < 188" using mux_adaptation_bound [OF a] mux_aud_bound [of "ps_streamtype pes" w] by auto
  ultimately obtain g chunk rest where t: "mux_take f ?h data = Some (g, chunk, rest)" "data = chunk @ rest"
    "pred_option afield_ok g" "4 + opt_field_bytes g + ?k + length chunk = 188" "f \<noteq> None \<Longrightarrow> g \<noteq> None"
    "data \<noteq> [] \<Longrightarrow> chunk \<noteq> []"
    using sp(3) by (rule mux_take_spec [where data = data]) blast
  let ?hdr = "zero_ts_packet\<lparr>Payload_unit_start_indicator := (if first then 1 else 0), ts_PID := ps_pid pes,
     Continuity_counter := ps_cc pes, Field := g, Adaptation_field_control := (if g = None then 1 else 3)\<rparr>"
  have o: "(1 :: byte) OR 2 = 3" "(3 :: byte) OR 2 = 3" "(3 :: byte) AND 1 = 1" by code_simp+
  have afc: "(if g = None then afc else afc OR 2) = (if g = None then 1 else 3)"
    using sp(2) t(5) by (auto simp: o)
  let ?body = "if first then Inl ((frame_pes (ps_streamtype pes) ?aud (length data) pts dts idr)\<lparr>Pes_payload := ?aud @ chunk\<rparr>)
       else Inr chunk"
  have m: "mux_packet first pes pcr data pts dts idr w = Some (?hdr, ?body, rest)"
  proof (cases first)
    case True
    have n: "h + 19 + glen ?aud - h = 19 + glen ?aud" by simp
    show ?thesis using t(1) a by (simp only: mux_packet_def Let_def prod.case True if_True Option.bind.simps afc n frame_pes_def)
  next
    case False
    show ?thesis using t(1) a by (simp only: mux_packet_def Let_def prod.case False if_False Option.bind.simps afc)
  qed
  have ok: "ts_header_ok ?hdr"
    using assms(1) t(3) by (cases g) (simp_all add: ts_header_ok_def stream_fits_def zero_ts_packet_def)
  have len: "header_bytes ?hdr + (if first then 19 + length ?aud else 0) + length chunk = 188"
    using t(4) by (simp only: header_bytes_def opt_field_bytes_def TSPacket.select_convs TSPacket.update_convs
        TSPacket.simps zero_ts_packet_def)
  have odd: "Adaptation_field_control ?hdr AND 1 = 1" by (simp add: o)
  show ?thesis by (rule that [OF m t(2) ok _ _ _ odd len t(6)]) simp_all
qed

text \<open>Writing it gives a packet of 188 bytes, whatever the writer was used for before.\<close>

lemma mux_writer_ready: "\<exists>s. mux_writer mux = Some s \<and> wrote s [] 0"
  using wrote_New [of TS_PAKCET_SIZE] wrote_Reset by (auto simp: mux_writer_def split: option.split)

definition packet_bytes :: "TSPacket \<Rightarrow> bytes \<Rightarrow> bytes" where
  "packet_bytes hdr d = pack_bits (header_bits hdr) @ d"

lemma length_packet_bytes: "ts_header_ok hdr \<Longrightarrow> length (packet_bytes hdr d) = header_bytes hdr + length d"
  using length_header_bits [of hdr] by (simp add: packet_bytes_def length_pack_bits)

lemma packet_bits: "ts_header_ok hdr \<Longrightarrow> bits_of_bytes (packet_bytes hdr d) = header_bits hdr @ bits_of_bytes d"
  using length_header_bits [of hdr] by (simp add: packet_bytes_def bits_of_pack_bits)

lemma mux_emit_wrote:
  assumes "wrote s (bits_of_bytes p) m" and "length p = 188"
  shows "mux_emit s mux = Some (None, mux\<lparr>mux_bsw := Some s\<rparr>, [p])"
  using wrote_Bits [OF assms(1)] wrote_offset(3) [OF assms(1)] assms(2) by (simp add: mux_emit_def bsw_Err_def)

text \<open>
  What a receiver decodes from the packets of one PES packet: the pid, consecutive continuity
  counters, the start indicator on the first packet only, and the payloads in order.  The first
  packet holds the PES header and, if there is any, a byte of its payload.
\<close>

fun carries :: "u16 \<Rightarrow> byte \<Rightarrow> bool \<Rightarrow> bytes list \<Rightarrow> bytes \<Rightarrow> bool" where
  "carries pid cc first [] body \<longleftrightarrow> body = [] \<and> \<not> first"
| "carries pid cc first (p # ps) body \<longleftrightarrow> length p = 188 \<and>
     (\<exists>hdr k rest. DecodeHeader zero_ts_packet (NewBitStream p) = Some (None, hdr, cur 0 p (8 * k)) \<and>
        ts_PID hdr = pid \<and> Continuity_counter hdr = cc \<and>
        Payload_unit_start_indicator hdr = (if first then 1 else 0) \<and>
        Adaptation_field_control hdr AND 1 = 1 \<and> drop k p \<noteq> [] \<and>
        (first \<longrightarrow> min 20 (length body) \<le> length (drop k p)) \<and>
        body = drop k p @ rest \<and> carries pid ((cc + 1) mod 16) False ps rest)"

declare carries.simps [simp del]

text \<open>The counter behind so many packets.\<close>

fun cc_after :: "byte \<Rightarrow> bytes list \<Rightarrow> byte" where
  "cc_after cc [] = cc"
| "cc_after cc (p # ps) = cc_after ((cc + 1) mod 16) ps"

lemma carries_packet:
  assumes "ts_header_ok hdr" and "header_bytes hdr + length d = 188" and "d \<noteq> []"
    and "ts_PID hdr = pid" and "Continuity_counter hdr = cc"
    and "Payload_unit_start_indicator hdr = (if first then 1 else 0)" and "Adaptation_field_control hdr AND 1 = 1"
    and "first \<Longrightarrow> min 20 (length (d @ rest)) \<le> length d"
    and "carries pid ((cc + 1) mod 16) False ps rest"
  shows "carries pid cc first (packet_bytes hdr d # ps) (d @ rest)"
proof -
  have b: "bits_of_bytes (packet_bytes hdr d) = header_bits hdr @ bits_of_bytes d" using assms(1) by (rule packet_bits)
  note r = DecodeHeader_read [OF b assms(1)]
  have "length (packet_bytes hdr d) = 188" using assms(1,2) by (simp add: length_packet_bytes)
  then show ?thesis
    unfolding carries.simps using r assms
    by (intro conjI exI [of _ "header_received hdr"] exI [of _ "header_bytes hdr"] exI [of _ rest])
      (simp_all add: header_received_def)
qed

lemma emits_body: "(\<And>pkg. body = Inl pkg \<Longrightarrow> ESCR_flag pkg \<noteq> 1 \<and> length (pes_times_bits pkg) = 80) \<Longrightarrow>
    emits 0 (\<lambda>bsw. case body of Inl pespkg \<Rightarrow> pes_Encode pespkg bsw | Inr payload \<Rightarrow> PutBytes payload bsw)
      (bits_of_bytes (body_bytes body))"
  by (cases body)
    (auto simp: body_bytes_def pes_bytes_def bits_of_pack_bits intro!: appends_emits appends_PutBytes
      appends_cong_bits [OF appends_pes_Encode])

text \<open>One round of the loop.\<close>

lemma writePES_loop_step:
  assumes "stream_fits pes" and "fits 33 pts" and "fits 33 dts" and "first \<or> data \<noteq> []"
    and aud: "aud = mux_aud (ps_streamtype pes) w"
    and pesh: "pesh = (if first then pes_bytes ((frame_pes (ps_streamtype pes) aud (length data) pts dts idr)\<lparr>Pes_payload := aud\<rparr>) else [])"
  obtains hdr chunk rest s where "data = chunk @ rest" "length rest < length data \<or> rest = []"
    "writePES_loop first pes pcr data pts dts idr w mux =
       (let pes = pes\<lparr>ps_cc := (ps_cc pes + 1) mod 16\<rparr>; mux = mux\<lparr>mux_bsw := Some s\<rparr>; out = [packet_bytes hdr (pesh @ chunk)] in
        if rest = [] then Some (None, pes, mux, out)
        else do {
          (e, pes, mux, out') \<leftarrow> writePES_loop False pes pcr rest pts dts idr w mux;
          Some (e, pes, mux, out @ out')
        })"
    "\<And>ps. carries (ps_pid pes) ((ps_cc pes + 1) mod 16) False ps rest \<Longrightarrow>
       carries (ps_pid pes) (ps_cc pes) first (packet_bytes hdr (pesh @ chunk) # ps) (pesh @ data)"
proof -
  let ?body = "\<lambda>chunk. if first then Inl ((frame_pes (ps_streamtype pes) aud (length data) pts dts idr)
         \<lparr>Pes_payload := aud @ chunk\<rparr>) else Inr chunk"
  obtain hdr chunk rest where m: "mux_packet first pes pcr data pts dts idr w = Some (hdr, ?body chunk, rest)"
    "data = chunk @ rest" "ts_header_ok hdr" "ts_PID hdr = ps_pid pes" "Continuity_counter hdr = ps_cc pes"
    "Payload_unit_start_indicator hdr = (if first then 1 else 0)" "Adaptation_field_control hdr AND 1 = 1"
    "header_bytes hdr + (if first then 19 + length aud else 0) + length chunk = 188"
    "data \<noteq> [] \<Longrightarrow> chunk \<noteq> []"
    unfolding aud
    by (rule mux_packet_spec [OF assms(1-3), where first = first and pcr = pcr and data = data and idr = idr and w = w]) blast
  have body: "body_bytes (?body chunk) = pesh @ chunk"
    by (simp add: body_bytes_def pesh pes_bytes_def pes_head_bits_def pes_times_bits_def)
  have lp: "length pesh = (if first then 19 + length aud else 0)" by (simp add: pesh length_frame_pes)
  have len: "header_bytes hdr + length (pesh @ chunk) = 188" using m(8) by (simp add: lp)
  obtain s0 where s0: "mux_writer mux = Some s0" "wrote s0 [] 0" using mux_writer_ready by blast
  obtain s1 k where s1: "EncodeHeader hdr s0 = Some s1" "wrote s1 (header_bits hdr) k"
    using emitsE [OF emits_EncodeHeader s0(2)] by auto
  have em: "emits 0 (\<lambda>bsw. case ?body chunk of Inl pespkg \<Rightarrow> pes_Encode pespkg bsw | Inr payload \<Rightarrow> PutBytes payload bsw)
      (bits_of_bytes (pesh @ chunk))"
    unfolding body [symmetric]
    by (rule emits_body) (auto simp: frame_pes_times frame_pes_ESCR split: if_splits)
  have "length (header_bits hdr) mod 8 = 0" using length_header_bits [OF m(3)] by simp
  then obtain s2 k' where
    "(case ?body chunk of Inl pespkg \<Rightarrow> pes_Encode pespkg s1 | Inr payload \<Rightarrow> PutBytes payload s1) = Some s2"
    "wrote s2 (header_bits hdr @ bits_of_bytes (pesh @ chunk)) k'"
    by (rule emitsE [OF em s1(2)])
  then have s2: "(case ?body chunk of Inl pespkg \<Rightarrow> pes_Encode pespkg s1 | Inr payload \<Rightarrow> PutBytes payload s1) = Some s2"
    "wrote s2 (bits_of_bytes (packet_bytes hdr (pesh @ chunk))) k'" using packet_bits [OF m(3)] by simp_all
  have e: "mux_emit s2 mux = Some (None, mux\<lparr>mux_bsw := Some s2\<rparr>, [packet_bytes hdr (pesh @ chunk)])"
    using len by (intro mux_emit_wrote [OF s2(2)]) (simp only: length_packet_bytes [OF m(3)])
  show ?thesis
  proof (rule that [of chunk rest s2 hdr])
    show "length rest < length data \<or> rest = []" using m(2,9) by auto
    show "writePES_loop first pes pcr data pts dts idr w mux =
       (let pes = pes\<lparr>ps_cc := (ps_cc pes + 1) mod 16\<rparr>; mux = mux\<lparr>mux_bsw := Some s2\<rparr>; out = [packet_bytes hdr (pesh @ chunk)] in
        if rest = [] then Some (None, pes, mux, out)
        else do {
          (e, pes, mux, out') \<leftarrow> writePES_loop False pes pcr rest pts dts idr w mux;
          Some (e, pes, mux, out @ out')
        })"
      by (subst writePES_loop.simps) (simp only: s0(1) m(1) s1(1) s2(1) e Option.bind.simps prod.case Let_def simp_thms if_False)
    show "carries (ps_pid pes) (ps_cc pes) first (packet_bytes hdr (pesh @ chunk) # ps) (pesh @ data)"
      if "carries (ps_pid pes) ((ps_cc pes + 1) mod 16) False ps rest" for ps
    proof -
      have "carries (ps_pid pes) (ps_cc pes) first (packet_bytes hdr (pesh @ chunk) # ps) ((pesh @ chunk) @ rest)"
      proof (rule carries_packet [OF m(3) len _ m(4-7) _ that])
        show "pesh @ chunk \<noteq> []" using assms(4) m(9) lp by (cases first) auto
        have "20 \<le> length (pesh @ chunk) \<or> data = []" if first
          using m(9) lp that by (cases chunk) auto
        then show "min 20 (length ((pesh @ chunk) @ rest)) \<le> length (pesh @ chunk)" if first
          using that m(2) by auto
      qed
      then show ?thesis by (simp only: m(2) append_assoc)
    qed
  qed (rule m(2))
qed

lemma fits_mod16: "fits 4 (x mod 16 :: byte)"
proof -
  have "x mod 16 = take_bit 4 x" by (simp add: take_bit_eq_mod)
  then show ?thesis by (simp add: fits_def drop_bit_take_bit)
qed

lemma stream_fits_next: "stream_fits pes \<Longrightarrow> stream_fits (pes\<lparr>ps_cc := (ps_cc pes + 1) mod 16\<rparr>)"
  by (simp add: stream_fits_def fits_mod16)

text \<open>All rounds: what was written is carried, and stream and writer are all that changed.\<close>

lemma writePES_rest:
  assumes "stream_fits pes" and "fits 33 pts" and "fits 33 dts" and "data \<noteq> []"
  shows "\<exists>cc bsw outs. writePES_loop False pes pcr data pts dts idr w mux =
       Some (None, pes\<lparr>ps_cc := cc\<rparr>, mux\<lparr>mux_bsw := Some bsw\<rparr>, outs) \<and>
     stream_fits (pes\<lparr>ps_cc := cc\<rparr>) \<and> carries (ps_pid pes) (ps_cc pes) False outs data \<and> cc = cc_after (ps_cc pes) outs"
  using assms
proof (induction "length data" arbitrary: data pes mux rule: less_induct)
  case less
  obtain hdr chunk rest s where st: "data = chunk @ rest" "length rest < length data \<or> rest = []"
    "writePES_loop False pes pcr data pts dts idr w mux =
       (let pes = pes\<lparr>ps_cc := (ps_cc pes + 1) mod 16\<rparr>; mux = mux\<lparr>mux_bsw := Some s\<rparr>; out = [packet_bytes hdr ([] @ chunk)] in
        if rest = [] then Some (None, pes, mux, out)
        else do {
          (e, pes, mux, out') \<leftarrow> writePES_loop False pes pcr rest pts dts idr w mux;
          Some (e, pes, mux, out @ out')
        })"
    "\<And>ps. carries (ps_pid pes) ((ps_cc pes + 1) mod 16) False ps rest \<Longrightarrow>
       carries (ps_pid pes) (ps_cc pes) False (packet_bytes hdr ([] @ chunk) # ps) ([] @ data)"
  proof (rule writePES_loop_step [OF less.prems(1-3) _ refl, where pcr = pcr and mux = mux and idr = idr])
    show "False \<or> data \<noteq> []" using less.prems(4) by simp
    show "[] = (if False then pes_bytes ((frame_pes (ps_streamtype pes) (mux_aud (ps_streamtype pes) w) (length data) pts dts idr)
      \<lparr>Pes_payload := mux_aud (ps_streamtype pes) w\<rparr>) else [])" by simp
  qed blast
  let ?pes = "pes\<lparr>ps_cc := (ps_cc pes + 1) mod 16\<rparr>"
  show ?case
  proof (cases "rest = []")
    case True
    then show ?thesis using st(3) st(4) [of "[]"] stream_fits_next [OF less.prems(1)] by (auto simp: Let_def carries.simps(1))
  next
    case False
    then have "length rest < length data" using st(2) by simp
    then obtain cc bsw outs where "writePES_loop False ?pes pcr rest pts dts idr w (mux\<lparr>mux_bsw := Some s\<rparr>) =
        Some (None, ?pes\<lparr>ps_cc := cc\<rparr>, mux\<lparr>mux_bsw := Some s, mux_bsw := Some bsw\<rparr>, outs)"
      "stream_fits (?pes\<lparr>ps_cc := cc\<rparr>)" "carries (ps_pid ?pes) (ps_cc ?pes) False outs rest"
      "cc = cc_after (ps_cc ?pes) outs"
      using less.hyps [of rest ?pes "mux\<lparr>mux_bsw := Some s\<rparr>"] stream_fits_next [OF less.prems(1)] less.prems False by blast
    then show ?thesis using st(3) st(4) [of outs] False by (auto simp: Let_def)
  qed
qed

lemma writePES_carries:
  assumes "stream_fits pes" and "fits 33 pts" and "fits 33 dts" and aud: "aud = mux_aud (ps_streamtype pes) w"
  shows "\<exists>cc bsw outs. writePES pes pmt data pts dts idr w mux =
       Some (None, pes\<lparr>ps_cc := cc\<rparr>, mux\<lparr>mux_bsw := Some bsw\<rparr>, outs) \<and>
     stream_fits (pes\<lparr>ps_cc := cc\<rparr>) \<and>
     carries (ps_pid pes) (ps_cc pes) True outs
       (pes_bytes ((frame_pes (ps_streamtype pes) aud (length data) pts dts idr)\<lparr>Pes_payload := aud @ data\<rparr>)) \<and>
     cc = cc_after (ps_cc pes) outs"
proof -
  let ?h = "pes_bytes ((frame_pes (ps_streamtype pes) aud (length data) pts dts idr)\<lparr>Pes_payload := aud\<rparr>)"
  have h: "pes_bytes ((frame_pes (ps_streamtype pes) aud (length data) pts dts idr)\<lparr>Pes_payload := aud @ data\<rparr>) = ?h @ data"
    by (simp add: pes_bytes_def pes_head_bits_def pes_times_bits_def)
  obtain hdr chunk rest s where st: "data = chunk @ rest"
    "writePES_loop True pes (tp_pcr_pid pmt) data pts dts idr w mux =
       (let pes = pes\<lparr>ps_cc := (ps_cc pes + 1) mod 16\<rparr>; mux = mux\<lparr>mux_bsw := Some s\<rparr>; out = [packet_bytes hdr (?h @ chunk)] in
        if rest = [] then Some (None, pes, mux, out)
        else do {
          (e, pes, mux, out') \<leftarrow> writePES_loop False pes (tp_pcr_pid pmt) rest pts dts idr w mux;
          Some (e, pes, mux, out @ out')
        })"
    "\<And>ps. carries (ps_pid pes) ((ps_cc pes + 1) mod 16) False ps rest \<Longrightarrow>
       carries (ps_pid pes) (ps_cc pes) True (packet_bytes hdr (?h @ chunk) # ps) (?h @ data)"
  proof (rule writePES_loop_step [OF assms(1-3) _ aud, where pcr = "tp_pcr_pid pmt" and mux = mux and idr = idr])
    show "True \<or> data \<noteq> []" by simp
    show "?h = (if True then pes_bytes ((frame_pes (ps_streamtype pes) aud (length data) pts dts idr)\<lparr>Pes_payload := aud\<rparr>) else [])"
      by simp
  qed blast
  let ?pes = "pes\<lparr>ps_cc := (ps_cc pes + 1) mod 16\<rparr>"
  show ?thesis
  proof (cases "rest = []")
    case True
    then show ?thesis using st(2) st(3) [of "[]"] stream_fits_next [OF assms(1)] by (auto simp: Let_def writePES_def h carries.simps(1))
  next
    case False
    obtain cc bsw outs where "writePES_loop False ?pes (tp_pcr_pid pmt) rest pts dts idr w (mux\<lparr>mux_bsw := Some s\<rparr>) =
        Some (None, ?pes\<lparr>ps_cc := cc\<rparr>, mux\<lparr>mux_bsw := Some s, mux_bsw := Some bsw\<rparr>, outs)"
      "stream_fits (?pes\<lparr>ps_cc := cc\<rparr>)" "carries (ps_pid ?pes) (ps_cc ?pes) False outs rest"
      "cc = cc_after (ps_cc ?pes) outs"
      using writePES_rest [of ?pes pts dts rest "tp_pcr_pid pmt" idr w "mux\<lparr>mux_bsw := Some s\<rparr>"] stream_fits_next [OF assms(1)]
        assms(2,3) False by blast
    then show ?thesis using st(2) st(3) [of outs] False by (auto simp: Let_def writePES_def h)
  qed
qed

section \<open>The packets of the tables\<close>

definition table_hdr :: "u16 \<Rightarrow> byte \<Rightarrow> TSPacket" where
  "table_hdr pid cc = zero_ts_packet\<lparr>Payload_unit_start_indicator := 1, ts_PID := pid,
     Adaptation_field_control := 0x01, Continuity_counter := cc\<rparr>"

definition table_packet :: "u16 \<Rightarrow> byte \<Rightarrow> bool list \<Rightarrow> bytes" where
  "table_packet pid cc sec = packet_bytes (table_hdr pid cc)
     (0 # pack_bits sec @ replicate (183 - length sec div 8) 0xff)"

lemma table_hdr_ok: "fits 13 pid \<Longrightarrow> pid \<noteq> TS_PID_Nil \<Longrightarrow> fits 4 cc \<Longrightarrow> ts_header_ok (table_hdr pid cc)"
  by (simp add: table_hdr_def ts_header_ok_def zero_ts_packet_def)

lemma table_hdr_bytes: "header_bytes (table_hdr pid cc) = 4"
  by (simp add: table_hdr_def header_bytes_def zero_ts_packet_def)

lemma stuffing_wrote:
  assumes "wrote s w m" and "length w = 8 * k" and "k \<le> 188"
  shows "\<exists>t. stuffing s = Some t \<and> wrote t (w @ bits_of_bytes (replicate (188 - k) 0xff)) m"
proof (cases "k = 188")
  case True
  then show ?thesis using assms wrote_offset(1) [OF assms(1)] by (simp add: stuffing_def Let_def)
next
  case False
  have n: "TS_PAKCET_SIZE - int (bsw_ByteOffset s) = int (188 - k)"
    using assms(2,3) wrote_offset(1) [OF assms(1)] by simp
  have "appends 0 (PutRepetValue 0xff (int (188 - k))) (bits_of_bytes (replicate (188 - k) 0xff))"
    by (intro appends_PutRepetValue) simp_all
  then show ?thesis using assms False unfolding stuffing_def n by (auto elim!: appendsE simp: Let_def)
qed

lemma table_written:
  assumes ok: "fits 13 pid" "pid \<noteq> TS_PID_Nil" "fits 4 cc"
    and enc: "emits 0 enc sec" and len: "length sec = 8 * n" "n \<le> 183"
  shows "\<exists>s. (do {
     bsw \<leftarrow> mux_writer mux;
     bsw \<leftarrow> EncodeHeader (table_hdr pid cc) bsw;
     bsw \<leftarrow> PutByte 0x00 bsw;
     bsw \<leftarrow> enc bsw;
     bsw \<leftarrow> stuffing bsw;
     mux_emit bsw mux'
   }) = Some (None, mux'\<lparr>mux_bsw := Some s\<rparr>, [table_packet pid cc sec])"
proof -
  let ?hdr = "table_hdr pid cc" and ?fill = "replicate (183 - n) 0xff :: bytes"
  have hok: "ts_header_ok ?hdr" using ok by (rule table_hdr_ok)
  have lh: "length (header_bits ?hdr) = 32" using length_header_bits [OF hok] by (simp add: table_hdr_bytes)
  obtain s0 where s0: "mux_writer mux = Some s0" "wrote s0 [] 0" using mux_writer_ready by blast
  obtain s1 k where s1: "EncodeHeader ?hdr s0 = Some s1" "wrote s1 (header_bits ?hdr) k"
    using emitsE [OF emits_EncodeHeader s0(2)] by auto
  obtain s2 where s2: "PutByte 0x00 s1 = Some s2" "wrote s2 (header_bits ?hdr @ bits_msb 8 (0 :: byte)) k"
    by (rule appendsE [OF appends_PutByte [OF refl refl, of 0] s1(2)]) (simp_all add: lh)
  obtain s3 k3 where s3: "enc s2 = Some s3" "wrote s3 ((header_bits ?hdr @ bits_msb 8 (0 :: byte)) @ sec) k3"
    by (rule emitsE [OF enc s2(2)]) (simp_all add: lh)
  obtain s4 where s4: "stuffing s3 = Some s4"
    "wrote s4 (((header_bits ?hdr @ bits_msb 8 (0 :: byte)) @ sec) @ bits_of_bytes (replicate (188 - (5 + n)) 0xff)) k3"
    using stuffing_wrote [OF s3(2), of "5 + n"] lh len by auto
  have b: "bits_of_bytes (table_packet pid cc sec) =
      ((header_bits ?hdr @ bits_msb 8 (0 :: byte)) @ sec) @ bits_of_bytes (replicate (188 - (5 + n)) 0xff)"
    using len by (simp add: table_packet_def packet_bits [OF hok] bits_of_pack_bits bits_of_bytes_Cons)
  have "length (table_packet pid cc sec) = 188"
    using len by (simp add: table_packet_def length_packet_bytes [OF hok] table_hdr_bytes length_pack_bits)
  then have "mux_emit s4 mux' = Some (None, mux'\<lparr>mux_bsw := Some s4\<rparr>, [table_packet pid cc sec])"
    by (intro mux_emit_wrote [where m = k3]) (simp_all only: b s4(2))
  then show ?thesis by (simp only: s0(1) s1(1) s2(1) s3(1) s4(1) Option.bind.simps) blast
qed

text \<open>A receiver finds the section behind the pointer byte.\<close>

lemma table_packet_decoded:
  assumes ok: "fits 13 pid" "pid \<noteq> TS_PID_Nil" "fits 4 cc" and len: "length sec = 8 * n" "n \<le> 183"
  shows "length (table_packet pid cc sec) = 188"
    and "DecodeHeader zero_ts_packet (NewBitStream (table_packet pid cc sec)) =
      Some (None, table_hdr pid cc, cur 0 (table_packet pid cc sec) 32)"
    and "SkipBits 8 (cur 0 (table_packet pid cc sec) 32) = cur 0 (table_packet pid cc sec) (8 * 5)"
    and "bits_of_bytes (drop 5 (table_packet pid cc sec)) = sec @ bits_of_bytes (replicate (183 - n) 0xff)"
proof -
  let ?hdr = "table_hdr pid cc" and ?p = "table_packet pid cc sec"
  let ?d = "0 # pack_bits sec @ replicate (183 - length sec div 8) (0xff :: byte)"
  have hok: "ts_header_ok ?hdr" using ok by (rule table_hdr_ok)
  have b: "bits_of_bytes ?p = header_bits ?hdr @ bits_of_bytes ?d"
    unfolding table_packet_def by (rule packet_bits [OF hok])
  show l: "length ?p = 188"
    using len by (simp add: table_packet_def length_packet_bytes [OF hok] table_hdr_bytes length_pack_bits)
  have "header_received ?hdr = ?hdr" by (simp add: header_received_def table_hdr_def zero_ts_packet_def)
  then show "DecodeHeader zero_ts_packet (NewBitStream ?p) = Some (None, ?hdr, cur 0 ?p 32)"
    using DecodeHeader_read(1) [OF b hok] by (simp add: table_hdr_bytes)
  show "SkipBits 8 (cur 0 ?p 32) = cur 0 ?p (8 * 5)" using l SkipBits_cur [of 8 32 ?p 0] by simp
  have "drop 4 ?p = ?d" using DecodeHeader_read(2) [OF b hok] by (simp add: table_hdr_bytes)
  then have "drop (1 + 4) ?p = drop 1 ?d" unfolding drop_drop [symmetric] by simp
  then show "bits_of_bytes (drop 5 ?p) = sec @ bits_of_bytes (replicate (183 - n) 0xff)"
    using len by (simp add: bits_of_pack_bits)
qed

section \<open>A frame is written\<close>

text \<open>The program table as \<open>AddStream\<close> makes it: one program; 33 streams fit the packet of its map.\<close>

definition pmt_ready :: "table_pmt \<Rightarrow> bool" where
  "pmt_ready pmt \<longleftrightarrow> fits 13 (tp_pid pmt) \<and> tp_pid pmt \<noteq> TS_PID_Nil \<and> tp_pid pmt \<noteq> 0 \<and>
     fits 4 (tp_cc pmt) \<and> fits 5 (tp_version_number pmt) \<and> fits 13 (tp_pcr_pid pmt) \<and> tp_pm pmt \<noteq> 0 \<and>
     length (tp_streams pmt) \<le> 33 \<and> distinct (map ps_pid (tp_streams pmt)) \<and>
     list_all (\<lambda>s. stream_fits s \<and> ps_pid s \<noteq> 0 \<and> ps_pid s \<noteq> tp_pid pmt \<and> ps_streamtype s \<in> {0..<256}) (tp_streams pmt)"

definition pat_ready :: "table_pat \<Rightarrow> table_pmt \<Rightarrow> bool" where
  "pat_ready pat pmt \<longleftrightarrow> ta_pmts pat = [pmt] \<and> fits 4 (ta_cc pat) \<and> fits 5 (ta_version_number pat) \<and> pmt_ready pmt"

lemma mux_Pat_ok: "pat_ready pat pmt \<Longrightarrow> pat_ok (mux_Pat pat)"
  by (simp add: pat_ready_def pat_ok_def mux_Pat_def NewPat_def pmt_ready_def)

lemma mux_Pmt_ok: "pmt_ready pmt \<Longrightarrow> pmt_ok (mux_Pmt pmt)"
  by (auto simp: pmt_ready_def pmt_ok_def mux_Pmt_def NewPmt_def stream_ok_def list_all_iff stream_fits_def)

definition pat_packet :: "table_pat \<Rightarrow> bytes" where
  "pat_packet pat = table_packet 0 (ta_cc pat) (pat_bits (mux_Pat pat))"

definition pmt_packet :: "table_pmt \<Rightarrow> bytes" where
  "pmt_packet pmt = table_packet (tp_pid pmt) (tp_cc pmt) (pmt_bits (mux_Pmt pmt))"

lemma length_pat_bits: "length (pat_bits pat) = 8 * (12 + 4 * length (Pmts pat))"
  by (simp add: pat_bits_def length_section_bits)

lemma length_pmt_bits: "length (pmt_bits pmt) = 8 * (16 + 5 * length (Streams pmt))"
  by (simp add: pmt_bits_def length_section_bits)

lemma length_Pmts_mux: "length (Pmts (mux_Pat pat)) = length (ta_pmts pat)"
  by (simp add: mux_Pat_def)

lemma length_Streams_mux: "length (Streams (mux_Pmt pmt)) = length (tp_streams pmt)"
  by (simp add: mux_Pmt_def)

lemma writePat_written:
  assumes "mux_pat mux = Some pat" and "pat_ready pat pmt"
  shows "\<exists>s. writePat (mux_Pat pat) mux = Some (None,
    mux\<lparr>mux_pat := Some (pat\<lparr>ta_cc := (ta_cc pat + 1) mod 16\<rparr>), mux_bsw := Some s\<rparr>, [pat_packet pat])"
proof -
  let ?mux = "mux\<lparr>mux_pat := Some (pat\<lparr>ta_cc := (ta_cc pat + 1) mod 16\<rparr>)\<rparr>"
  have w: "mux_writer ?mux = mux_writer mux" by (simp add: mux_writer_def)
  have "emits 0 (pat_Encode (mux_Pat pat)) (pat_bits (mux_Pat pat))"
    using mux_Pat_ok [OF assms(2)] by (intro emits_pat_Encode) (simp add: pat_ok_def)
  moreover have "length (pat_bits (mux_Pat pat)) = 8 * 16"
    using assms(2) by (simp add: length_pat_bits length_Pmts_mux pat_ready_def)
  moreover have "(0 :: u16) \<noteq> TS_PID_Nil" by (simp add: TS_PID_Nil_def)
  ultimately obtain s where s: "(do {
     bsw \<leftarrow> mux_writer ?mux;
     bsw \<leftarrow> EncodeHeader (table_hdr 0 (ta_cc pat)) bsw;
     bsw \<leftarrow> PutByte 0x00 bsw;
     bsw \<leftarrow> pat_Encode (mux_Pat pat) bsw;
     bsw \<leftarrow> stuffing bsw;
     mux_emit bsw ?mux
   }) = Some (None, ?mux\<lparr>mux_bsw := Some s\<rparr>, [pat_packet pat])"
    unfolding pat_packet_def using table_written [of 0 "ta_cc pat" "pat_Encode (mux_Pat pat)" "pat_bits (mux_Pat pat)" 16 ?mux ?mux]
      assms(2) by (auto simp: pat_ready_def)
  have "writePat (mux_Pat pat) mux = Some (None, ?mux\<lparr>mux_bsw := Some s\<rparr>, [pat_packet pat])"
    by (simp only: writePat_def assms(1) Option.bind.simps Let_def s [unfolded table_hdr_def])
  then show ?thesis by blast
qed

lemma writePmt_written:
  assumes "pmt_ready pmt"
  shows "\<exists>s. writePmt (mux_Pmt pmt) pmt mux = Some (None, pmt\<lparr>tp_cc := (tp_cc pmt + 1) mod 16\<rparr>,
    mux\<lparr>mux_bsw := Some s\<rparr>, [pmt_packet pmt])"
proof -
  have "emits 0 (pmt_Encode (mux_Pmt pmt)) (pmt_bits (mux_Pmt pmt))"
    using mux_Pmt_ok [OF assms] by (intro emits_pmt_Encode) (simp_all add: pmt_ok_def)
  moreover have "length (pmt_bits (mux_Pmt pmt)) = 8 * (16 + 5 * length (tp_streams pmt))"
    by (simp add: length_pmt_bits length_Streams_mux)
  ultimately obtain s where s: "(do {
     bsw \<leftarrow> mux_writer mux;
     bsw \<leftarrow> EncodeHeader (table_hdr (tp_pid pmt) (tp_cc pmt)) bsw;
     bsw \<leftarrow> PutByte 0x00 bsw;
     bsw \<leftarrow> pmt_Encode (mux_Pmt pmt) bsw;
     bsw \<leftarrow> stuffing bsw;
     mux_emit bsw mux
   }) = Some (None, mux\<lparr>mux_bsw := Some s\<rparr>, [pmt_packet pmt])"
    unfolding pmt_packet_def
    using table_written [of "tp_pid pmt" "tp_cc pmt" "pmt_Encode (mux_Pmt pmt)" "pmt_bits (mux_Pmt pmt)" "16 + 5 * length (tp_streams pmt)" mux mux]
      assms by (auto simp: pmt_ready_def)
  have "writePmt (mux_Pmt pmt) pmt mux = Option.bind (do {
     bsw \<leftarrow> mux_writer mux;
     bsw \<leftarrow> EncodeHeader (table_hdr (tp_pid pmt) (tp_cc pmt)) bsw;
     bsw \<leftarrow> PutByte 0x00 bsw;
     bsw \<leftarrow> pmt_Encode (mux_Pmt pmt) bsw;
     bsw \<leftarrow> stuffing bsw;
     mux_emit bsw mux
   }) (\<lambda>(e, mux, out). Some (e, pmt\<lparr>tp_cc := (tp_cc pmt + 1) mod 16\<rparr>, mux, out))"
    by (simp only: writePmt_def Let_def bind_assoc table_hdr_def)
  then show ?thesis unfolding s by auto
qed

text \<open>The state after the tables, and whether they are due.\<close>

definition tables_due :: "u64 \<Rightarrow> TSMuxer \<Rightarrow> bool" where
  "tables_due dts mux \<longleftrightarrow> mux_pat_period mux = 0 \<or> mux_pat_period mux + 400 < dts"

definition pat_next :: "table_pat \<Rightarrow> table_pmt \<Rightarrow> table_pat" where
  "pat_next pat pmt = pat\<lparr>ta_cc := (ta_cc pat + 1) mod 16, ta_pmts := [pmt\<lparr>tp_cc := (tp_cc pmt + 1) mod 16\<rparr>]\<rparr>"

lemma mux_tables_written:
  assumes "mux_pat mux = Some pat" and "pat_ready pat pmt" and "tables_due dts mux"
  shows "\<exists>s. mux_tables dts mux = Some (None,
    mux\<lparr>mux_pat_period := (if dts = 0 then 1 else dts), mux_pat := Some (pat_next pat pmt), mux_bsw := Some s\<rparr>,
    [pat_packet pat, pmt_packet pmt])"
proof -
  let ?mux = "mux\<lparr>mux_pat_period := (if dts = 0 then 1 else dts)\<rparr>"
  have r: "ta_pmts pat = [pmt]" "pmt_ready pmt" using assms(2) by (simp_all add: pat_ready_def)
  obtain s where s: "writePat (mux_Pat pat) ?mux = Some (None,
    ?mux\<lparr>mux_pat := Some (pat\<lparr>ta_cc := (ta_cc pat + 1) mod 16\<rparr>), mux_bsw := Some s\<rparr>, [pat_packet pat])"
    using writePat_written [of ?mux pat pmt] assms(1,2) by auto
  obtain t where t: "writePmt (mux_Pmt pmt) pmt (?mux\<lparr>mux_pat := Some (pat\<lparr>ta_cc := (ta_cc pat + 1) mod 16\<rparr>), mux_bsw := Some s\<rparr>) =
    Some (None, pmt\<lparr>tp_cc := (tp_cc pmt + 1) mod 16\<rparr>,
      ?mux\<lparr>mux_pat := Some (pat\<lparr>ta_cc := (ta_cc pat + 1) mod 16\<rparr>), mux_bsw := Some s, mux_bsw := Some t\<rparr>, [pmt_packet pmt])"
    using writePmt_written [OF r(2)] by blast
  have "mux_tables dts mux = Some (None, set_pmts [pmt\<lparr>tp_cc := (tp_cc pmt + 1) mod 16\<rparr>]
      (?mux\<lparr>mux_pat := Some (pat\<lparr>ta_cc := (ta_cc pat + 1) mod 16\<rparr>), mux_bsw := Some s, mux_bsw := Some t\<rparr>),
      [pat_packet pat, pmt_packet pmt])"
    using assms(3) unfolding tables_due_def
    by (simp only: mux_tables_def if_True assms(1) Option.bind.simps Let_def s r(1) writePmts.simps t prod.case simp_thms
        if_False append_Nil append_Cons append_Nil2)
  then show ?thesis by (intro exI [of _ t]) (cases mux; simp add: set_pmts_def pat_next_def)
qed

lemma find_in_pmt_nth:
  "distinct (map ps_pid ss) \<Longrightarrow> j < length ss \<Longrightarrow> find_in_pmt (ps_pid (ss ! j)) k ss = Some (k + j)"
  by (induction ss arbitrary: j k) (auto simp: nth_Cons split: nat.split)

text \<open>The map with the clock on the first stream or on the last video stream written.\<close>

definition pcr_on :: "u16 \<Rightarrow> TS_STREAM_TYPE \<Rightarrow> table_pmt \<Rightarrow> table_pmt" where
  "pcr_on pid cid pmt = (if tp_pcr_pid pmt = 0 \<or> (findPESIDByStreamType cid = PES_STREAM_VIDEO \<and> tp_pcr_pid pmt \<noteq> pid)
     then pmt\<lparr>tp_pcr_pid := pid\<rparr> else pmt)"

lemma pcr_on_ready: "pmt_ready pmt \<Longrightarrow> fits 13 pid \<Longrightarrow> pmt_ready (pcr_on pid cid pmt)"
  by (simp add: pmt_ready_def pcr_on_def)

lemma pcr_on_sel [simp]: "tp_streams (pcr_on pid cid pmt) = tp_streams pmt" "tp_pid (pcr_on pid cid pmt) = tp_pid pmt"
  "tp_pm (pcr_on pid cid pmt) = tp_pm pmt" "tp_cc (pcr_on pid cid pmt) = tp_cc pmt"
  by (simp_all add: pcr_on_def)

lemma mux_withaud_total: "\<exists>w. mux_withaud cid data = Some w"
  by (auto simp: mux_withaud_def SplitFrame_total)

lemma mux_idr_total: "\<exists>i. mux_idr cid data = Some i"
  by (auto simp: mux_idr_def IsH264IDRFrame_def IsH265IDRFrame_def SplitFrame_total)

lemma pmt_ready_stream:
  assumes "pmt_ready pmt" and "j < length (tp_streams pmt)"
  shows "stream_fits (tp_streams pmt ! j)" "ps_pid (tp_streams pmt ! j) \<noteq> 0" "ps_pid (tp_streams pmt ! j) \<noteq> tp_pid pmt"
  using assms by (auto simp: pmt_ready_def list_all_length)

lemma pmt_ready_set_cc:
  assumes "pmt_ready pmt" and "j < length (tp_streams pmt)" and "stream_fits ((tp_streams pmt ! j)\<lparr>ps_cc := cc\<rparr>)"
  shows "pmt_ready (pmt\<lparr>tp_streams := (tp_streams pmt)[j := (tp_streams pmt ! j)\<lparr>ps_cc := cc\<rparr>]\<rparr>)"
proof -
  have "map ps_pid ((tp_streams pmt)[j := (tp_streams pmt ! j)\<lparr>ps_cc := cc\<rparr>]) = map ps_pid (tp_streams pmt)"
    using assms(2) by (simp add: map_update list_update_same_conv)
  then show ?thesis using assms
    by (auto simp: pmt_ready_def list_all_length nth_list_update)
qed

text \<open>What \<open>Write\<close> does for a stream of the table: tables when they are due, then the frame.\<close>

lemma mux_Write_written:
  assumes pat: "mux_pat mux = Some pat" "pat_ready pat pmt" and j: "j < length (tp_streams pmt)"
    and pid: "pid = ps_pid (tp_streams pmt ! j)" and cid: "cid = ps_streamtype (tp_streams pmt ! j)"
    and fit: "fits 33 (pts * 90)" "fits 33 (dts * 90)" and pcr: "pmt1 = pcr_on pid cid pmt"
  obtains cc bsw outs w idr where
    "mux_withaud cid data = Some w" "mux_idr cid data = Some idr"
    "mux_Write pid data pts dts mux = Some (None,
       mux\<lparr>mux_pat := Some ((if tables_due dts mux then pat_next pat pmt1 else pat)\<lparr>ta_pmts :=
           [(if tables_due dts mux then pmt1\<lparr>tp_cc := (tp_cc pmt + 1) mod 16\<rparr> else pmt1)
             \<lparr>tp_streams := (tp_streams pmt)[j := (tp_streams pmt ! j)\<lparr>ps_cc := cc\<rparr>]\<rparr>]\<rparr>),
         mux_pat_period := (if tables_due dts mux then (if dts = 0 then 1 else dts) else mux_pat_period mux),
         mux_bsw := Some bsw\<rparr>,
       (if tables_due dts mux then [pat_packet pat, pmt_packet pmt1] else []) @ outs)"
    "stream_fits ((tp_streams pmt ! j)\<lparr>ps_cc := cc\<rparr>)"
    "carries pid (ps_cc (tp_streams pmt ! j)) True outs
       (pes_bytes ((frame_pes cid (mux_aud cid w) (length data) (pts * 90) (dts * 90) idr)
         \<lparr>Pes_payload := mux_aud cid w @ data\<rparr>))"
    "cc = cc_after (ps_cc (tp_streams pmt ! j)) outs"
proof -
  let ?s = "tp_streams pmt ! j"
  have r: "ta_pmts pat = [pmt]" "pmt_ready pmt" using pat(2) by (simp_all add: pat_ready_def)
  have sf: "stream_fits ?s" using pmt_ready_stream [OF r(2) j] by simp
  have find: "find_stream pid 0 (ta_pmts pat) = Some (0, j)"
    using find_in_pmt_nth [of "tp_streams pmt" j 0] r j pid by (simp add: pmt_ready_def)
  have pr: "pat_ready (pat\<lparr>ta_pmts := [pmt1]\<rparr>) pmt1"
    using pat(2) pcr_on_ready [OF r(2), of pid cid] sf pid pcr by (simp add: pat_ready_def stream_fits_def)
  let ?pat1 = "pat\<lparr>ta_pmts := [pmt1]\<rparr>" and ?mux1 = "set_pmts ((ta_pmts pat)[0 := pmt1]) mux"
  have m1: "?mux1 = mux\<lparr>mux_pat := Some ?pat1\<rparr>" by (simp add: set_pmts_def pat(1) r(1))
  obtain w idr where wi: "mux_withaud cid data = Some w" "mux_idr cid data = Some idr"
    using mux_withaud_total mux_idr_total by blast
  let ?due = "tables_due dts mux"
  let ?pat2 = "if ?due then pat_next pat pmt1 else ?pat1" and ?pmt2 = "if ?due then pmt1\<lparr>tp_cc := (tp_cc pmt + 1) mod 16\<rparr> else pmt1"
  obtain mux2 where m2: "mux_tables dts ?mux1 = Some (None, mux2, if ?due then [pat_packet pat, pmt_packet pmt1] else [])"
    "mux_pat mux2 = Some ?pat2" "mux_stream_pid mux2 = mux_stream_pid mux" "mux_pmt_pid mux2 = mux_pmt_pid mux"
    "mux_pat_period mux2 = (if ?due then (if dts = 0 then 1 else dts) else mux_pat_period mux)"
  proof (cases ?due)
    case True
    have p: "pat_packet ?pat1 = pat_packet pat"
      using pcr by (simp add: pat_packet_def mux_Pat_def r(1))
    have "tables_due dts ?mux1" using True by (simp add: m1 tables_due_def)
    then obtain s where "mux_tables dts ?mux1 = Some (None,
      ?mux1\<lparr>mux_pat_period := (if dts = 0 then 1 else dts), mux_pat := Some (pat_next ?pat1 pmt1), mux_bsw := Some s\<rparr>,
      [pat_packet ?pat1, pmt_packet pmt1])"
      using mux_tables_written [of ?mux1 ?pat1 pmt1 dts] pr by (auto simp: m1)
    then show ?thesis using True p that by (simp add: m1 pat_next_def)
  next
    case False
    then show ?thesis using that [of ?mux1] by (simp add: mux_tables_def tables_due_def m1)
  qed
  have p2: "ta_pmts ?pat2 = [?pmt2]" using pcr by (simp add: pat_next_def)
  have s2: "tp_streams ?pmt2 = tp_streams pmt" using pcr by simp
  obtain cc bsw outs where wr: "writePES ?s ?pmt2 data (pts * 90) (dts * 90) idr w mux2 =
       Some (None, ?s\<lparr>ps_cc := cc\<rparr>, mux2\<lparr>mux_bsw := Some bsw\<rparr>, outs)"
    "stream_fits (?s\<lparr>ps_cc := cc\<rparr>)"
    "carries pid (ps_cc ?s) True outs
       (pes_bytes ((frame_pes cid (mux_aud cid w) (length data) (pts * 90) (dts * 90) idr)\<lparr>Pes_payload := mux_aud cid w @ data\<rparr>))"
    "cc = cc_after (ps_cc ?s) outs"
    using writePES_carries [OF sf fit refl, where w = w and pmt = ?pmt2 and data = data and idr = idr and mux = mux2] pid cid by blast
  have i0: "idx [x] (int 0) = Some x" for x :: table_pmt by (simp add: idx_def)
  have ij: "idx (tp_streams pmt) (int j) = Some ?s" using j by (simp add: idx_def)
  have "mux_Write pid data pts dts mux = Some (None,
      set_pmts ([?pmt2][0 := ?pmt2\<lparr>tp_streams := (tp_streams pmt)[j := ?s\<lparr>ps_cc := cc\<rparr>]\<rparr>]) (mux2\<lparr>mux_bsw := Some bsw\<rparr>),
      (if ?due then [pat_packet pat, pmt_packet pmt1] else []) @ outs)"
    by (simp only: mux_Write_def pat(1) find [unfolded r(1)] Option.bind.simps option.case prod.case r(1) i0 ij Let_def cid [symmetric]
        pcr_on_def [symmetric] pcr [symmetric] m2(1) [unfolded r(1)] wi simp_thms if_False m2(2) p2 s2 wr(1))
  moreover have "set_pmts ([?pmt2][0 := ?pmt2\<lparr>tp_streams := (tp_streams pmt)[j := ?s\<lparr>ps_cc := cc\<rparr>]\<rparr>]) (mux2\<lparr>mux_bsw := Some bsw\<rparr>) =
      mux\<lparr>mux_pat := Some ((if ?due then pat_next pat pmt1 else pat)\<lparr>ta_pmts :=
           [?pmt2\<lparr>tp_streams := (tp_streams pmt)[j := ?s\<lparr>ps_cc := cc\<rparr>]\<rparr>]\<rparr>),
         mux_pat_period := (if ?due then (if dts = 0 then 1 else dts) else mux_pat_period mux), mux_bsw := Some bsw\<rparr>"
    using m2(2-5) by (intro TSMuxer.equality) (auto simp: set_pmts_def)
  ultimately show ?thesis using wi wr(2-4) by (intro that [of w idr bsw cc outs]) simp_all
qed

section \<open>Every reachable muxer works\<close>

text \<open>What calls can make of a muxer: up to 33 streams are added, frames are written in any order.\<close>

inductive mux_reachable :: "nat \<Rightarrow> TSMuxer \<Rightarrow> bool" where
  new: "mux_reachable 0 NewTSMuxer"
| add: "mux_reachable n mux \<Longrightarrow> n < 33 \<Longrightarrow> cid \<in> {0..<256} \<Longrightarrow> AddStream cid mux = Some (pid, mux') \<Longrightarrow>
    mux_reachable (n + 1) mux'"
| wrote: "mux_reachable n mux \<Longrightarrow> fits 33 (pts * 90) \<Longrightarrow> fits 33 (dts * 90) \<Longrightarrow>
    mux_Write pid data pts dts mux = Some (e, mux', out) \<Longrightarrow> mux_reachable n mux'"

definition mux_pid :: "nat \<Rightarrow> u16" where
  "mux_pid i = 0x100 + word_of_nat i"

definition mux_inv :: "nat \<Rightarrow> TSMuxer \<Rightarrow> bool" where
  "mux_inv n mux \<longleftrightarrow> mux_stream_pid mux = mux_pid n \<and> n \<le> 33 \<and>
     (if n = 0 then mux_pat mux = Some NewTablePat \<and> mux_pmt_pid mux = 0x200
      else \<exists>pat pmt. mux_pat mux = Some pat \<and> pat_ready pat pmt \<and> tp_pid pmt = 0x200 \<and>
        map ps_pid (tp_streams pmt) = map mux_pid [0..<n])"

lemma unat_mux_pid: "i < 256 \<Longrightarrow> unat (mux_pid i) = 256 + i"
proof -
  assume "i < 256"
  moreover have "mux_pid i = word_of_nat (256 + i)" by (simp add: mux_pid_def)
  ultimately show ?thesis using small_u16(1) [of "256 + i"] by simp
qed

lemma mux_pid_fresh: "i < 256 \<Longrightarrow> mux_pid i \<noteq> 0 \<and> mux_pid i \<noteq> 0x200 \<and> mux_pid i \<noteq> TS_PID_Nil \<and> fits 13 (mux_pid i)"
proof -
  assume i: "i < 256"
  note u = unat_mux_pid [OF i]
  have "unat (mux_pid i) < 2 ^ 13" using u i by simp
  then have "fits 13 (mux_pid i)" by (rule less_fits)
  then show ?thesis using u i by (auto simp: TS_PID_Nil_def dest: arg_cong [of _ _ unat])
qed

lemma inj_mux_pid:
  assumes "i < 256" and "j < 256" and "mux_pid i = mux_pid j" shows "i = j"
proof -
  have "256 + i = unat (mux_pid i)" by (simp only: unat_mux_pid [OF assms(1)])
  also have "\<dots> = 256 + j" by (simp only: assms(3) unat_mux_pid [OF assms(2)])
  finally show ?thesis by simp
qed

lemma mux_pid_Suc: "mux_pid n + 1 = mux_pid (n + 1)"
  by (simp add: mux_pid_def)

lemma AddStream_inv:
  assumes "mux_inv n mux" and "n < 33" and "cid \<in> {0..<256}"
  shows "\<exists>mux'. AddStream cid mux = Some (mux_pid n, mux') \<and> mux_inv (n + 1) mux'"
proof -
  let ?s = "NewPESStream (mux_pid n) cid"
  have s: "stream_fits ?s" "ps_pid ?s \<noteq> 0" "ps_pid ?s \<noteq> 0x200"
    using mux_pid_fresh [of n] assms(2) by (simp_all add: stream_fits_def NewPESStream_def)
  show ?thesis
  proof (cases "n = 0")
    case True
    let ?pmt = "NewTablePmt\<lparr>tp_pid := 0x200, tp_pm := 1, tp_streams := [?s]\<rparr>"
    have "fits 13 (0x200 :: u16)" by code_simp
    then have r: "pmt_ready ?pmt" using s assms(3)
      by (simp add: pmt_ready_def NewTablePmt_def TS_PID_Nil_def) (simp add: NewPESStream_def)
    have "AddStream cid mux = Some (mux_pid n, mux\<lparr>mux_pat := Some (NewTablePat\<lparr>ta_pmts := [?pmt]\<rparr>),
        mux_stream_pid := mux_pid n + 1, mux_pmt_pid := 0x201\<rparr>)"
      using assms(1) True by (simp add: AddStream_def mux_inv_def NewTablePat_def idx_def NewTablePmt_def Let_def)
    moreover have "pat_ready (NewTablePat\<lparr>ta_pmts := [?pmt]\<rparr>) ?pmt" using r by (simp add: pat_ready_def NewTablePat_def)
    moreover have "map ps_pid (tp_streams ?pmt) = map mux_pid [0..<n + 1]" using True by (simp add: NewPESStream_def)
    ultimately show ?thesis using True
      by (auto simp: mux_inv_def mux_pid_Suc intro!: exI [of _ ?pmt])
  next
    case False
    then obtain pat pmt where p: "mux_pat mux = Some pat" "pat_ready pat pmt" "tp_pid pmt = 0x200"
      "map ps_pid (tp_streams pmt) = map mux_pid [0..<n]" "mux_stream_pid mux = mux_pid n"
      using assms(1) by (auto simp: mux_inv_def)
    let ?pmt = "pmt\<lparr>tp_streams := tp_streams pmt @ [?s]\<rparr>"
    have m: "map ps_pid (tp_streams ?pmt) = map mux_pid [0..<n + 1]" using p(4) by (simp add: NewPESStream_def)
    have "inj_on mux_pid (set [0..<n + 1])" using assms(2) by (intro inj_onI inj_mux_pid) auto
    then have "distinct (map ps_pid (tp_streams ?pmt))" unfolding m by (simp only: distinct_map distinct_upt simp_thms)
    moreover have "length (tp_streams ?pmt) \<le> 33" using arg_cong [OF m, of length] assms(2) by simp
    moreover have "ps_streamtype ?s \<in> {0..<256}" using assms(3) by (simp add: NewPESStream_def)
    ultimately have "pmt_ready ?pmt" using p(2,3) s by (simp add: pat_ready_def pmt_ready_def)
    then have "pat_ready (pat\<lparr>ta_pmts := [?pmt]\<rparr>) ?pmt" using p(2) by (simp add: pat_ready_def)
    moreover have "AddStream cid mux = Some (mux_pid n, mux\<lparr>mux_pat := Some (pat\<lparr>ta_pmts := [?pmt]\<rparr>),
        mux_stream_pid := mux_pid n + 1, mux_pmt_pid := mux_pmt_pid mux\<rparr>)"
      using p(1,2,5) by (simp add: AddStream_def idx_def pat_ready_def Let_def)
    ultimately show ?thesis using assms(2) m p(3)
      by (auto simp: mux_inv_def mux_pid_Suc intro!: exI [of _ ?pmt])
  qed
qed

lemma find_in_pmt_None: "pid \<notin> ps_pid ` set ss \<Longrightarrow> find_in_pmt pid k ss = None"
  by (induction ss arbitrary: k) auto

lemma find_in_pmt_Some: "find_in_pmt pid k ss = Some j \<Longrightarrow> \<exists>i. j = k + i \<and> i < length ss \<and> ps_pid (ss ! i) = pid"
proof (induction ss arbitrary: k)
  case (Cons s ss)
  show ?case
  proof (cases "ps_pid s = pid")
    case False
    then have "find_in_pmt pid (k + 1) ss = Some j" using Cons.prems by simp
    from Cons.IH [OF this] obtain i where "j = k + 1 + i" "i < length ss" "ps_pid (ss ! i) = pid" by blast
    then show ?thesis by (intro exI [of _ "i + 1"]) simp
  qed (use Cons.prems in auto)
qed simp

lemma pat_next_ready: "pat_ready pat pmt \<Longrightarrow> pmt_ready pmt1 \<Longrightarrow>
    pat_ready ((if d then pat_next pat pmt1 else pat)\<lparr>ta_pmts := [pmt1']\<rparr>) pmt1' \<longleftrightarrow> pmt_ready pmt1'"
  by (auto simp: pat_ready_def pat_next_def fits_mod16)

lemma mux_Write_inv:
  assumes "mux_inv n mux" and "fits 33 (pts * 90)" and "fits 33 (dts * 90)"
    and w: "mux_Write pid data pts dts mux = Some (e, mux', out)"
  shows "mux_inv n mux'"
proof (cases "n = 0")
  case True
  then show ?thesis using assms by (simp add: mux_inv_def mux_Write_def NewTablePat_def)
next
  case False
  then obtain pat pmt where p: "mux_pat mux = Some pat" "pat_ready pat pmt" "tp_pid pmt = 0x200"
    "map ps_pid (tp_streams pmt) = map mux_pid [0..<n]"
    using assms(1) by (auto simp: mux_inv_def)
  have r: "ta_pmts pat = [pmt]" "pmt_ready pmt" using p(2) by (simp_all add: pat_ready_def)
  show ?thesis
  proof (cases "find_in_pmt pid 0 (tp_streams pmt)")
    case None
    then show ?thesis using w assms(1) p(1) by (simp add: mux_Write_def r(1))
  next
    case (Some j)
    then have j: "j < length (tp_streams pmt)" "pid = ps_pid (tp_streams pmt ! j)" using find_in_pmt_Some by fastforce+
    let ?pmt1 = "pcr_on pid (ps_streamtype (tp_streams pmt ! j)) pmt"
    have r1: "pmt_ready ?pmt1"
      using pcr_on_ready [OF r(2)] pmt_ready_stream(1) [OF r(2) j(1)] j(2) by (simp add: stream_fits_def)
    obtain cc bsw outs where
      W: "mux_Write pid data pts dts mux = Some (None,
       mux\<lparr>mux_pat := Some ((if tables_due dts mux then pat_next pat ?pmt1 else pat)\<lparr>ta_pmts :=
           [(if tables_due dts mux then ?pmt1\<lparr>tp_cc := (tp_cc pmt + 1) mod 16\<rparr> else ?pmt1)
             \<lparr>tp_streams := (tp_streams pmt)[j := (tp_streams pmt ! j)\<lparr>ps_cc := cc\<rparr>]\<rparr>]\<rparr>),
         mux_pat_period := (if tables_due dts mux then (if dts = 0 then 1 else dts) else mux_pat_period mux),
         mux_bsw := Some bsw\<rparr>,
       (if tables_due dts mux then [pat_packet pat, pmt_packet ?pmt1] else []) @ outs)"
      and sf: "stream_fits ((tp_streams pmt ! j)\<lparr>ps_cc := cc\<rparr>)"
      by (rule mux_Write_written [OF p(1,2) j refl assms(2,3) refl, where data = data]) blast
    let ?pmt2 = "if tables_due dts mux then ?pmt1\<lparr>tp_cc := (tp_cc pmt + 1) mod 16\<rparr> else ?pmt1"
    have "pmt_ready ?pmt2" "tp_streams ?pmt2 = tp_streams pmt" "tp_pid ?pmt2 = 0x200"
      using r1 p(3) by (auto simp: pmt_ready_def fits_mod16)
    then have "pmt_ready (?pmt2\<lparr>tp_streams := (tp_streams pmt)[j := (tp_streams pmt ! j)\<lparr>ps_cc := cc\<rparr>]\<rparr>)"
      using pmt_ready_set_cc [of ?pmt2 j cc] j(1) sf by (simp only:)
    then have "pat_ready ((if tables_due dts mux then pat_next pat ?pmt1 else pat)\<lparr>ta_pmts :=
        [?pmt2\<lparr>tp_streams := (tp_streams pmt)[j := (tp_streams pmt ! j)\<lparr>ps_cc := cc\<rparr>]\<rparr>]\<rparr>)
        (?pmt2\<lparr>tp_streams := (tp_streams pmt)[j := (tp_streams pmt ! j)\<lparr>ps_cc := cc\<rparr>]\<rparr>)"
      using pat_next_ready [OF p(2) r1] by blast
    moreover have "map ps_pid ((tp_streams pmt)[j := (tp_streams pmt ! j)\<lparr>ps_cc := cc\<rparr>]) = map ps_pid (tp_streams pmt)"
      using j(1) by (simp add: map_update list_update_same_conv)
    ultimately show ?thesis using W w False assms(1) p(3,4)
      by (auto simp: mux_inv_def)
  qed
qed

lemma mux_reachable_inv: "mux_reachable n mux \<Longrightarrow> mux_inv n mux"
proof (induction rule: mux_reachable.induct)
  case new
  show ?case by (simp add: mux_inv_def NewTSMuxer_def mux_pid_def)
next
  case (add n mux cid pid mux')
  then show ?case using AddStream_inv [OF add.IH add.hyps(2,3)] by auto
next
  case (wrote n mux pts dts pid data e mux' out)
  then show ?case by (blast intro: mux_Write_inv)
qed

lemma mux_reachable_33: "mux_reachable n mux \<Longrightarrow> n \<le> 33"
  by (induction rule: mux_reachable.induct) auto

lemma carries_188: "carries pid cc first ps body \<Longrightarrow> p \<in> set ps \<Longrightarrow> length p = 188"
  by (induction pid cc first ps body rule: carries.induct) (auto simp: carries.simps)

lemma length_pat_packet: "pat_ready pat pmt \<Longrightarrow> length (pat_packet pat) = 188"
  unfolding pat_packet_def
  by (rule table_packet_decoded(1) [where n = 16])
    (simp_all add: pat_ready_def length_pat_bits length_Pmts_mux TS_PID_Nil_def)

lemma length_pmt_packet: "pmt_ready pmt \<Longrightarrow> length (pmt_packet pmt) = 188"
  unfolding pmt_packet_def
  by (rule table_packet_decoded(1) [where n = "16 + 5 * length (tp_streams pmt)"])
    (simp_all add: pmt_ready_def length_pmt_bits length_Streams_mux)

section \<open>The PES packet of a frame is read\<close>

lemma frame_pes_ok: "fits 33 pts \<Longrightarrow> fits 33 dts \<Longrightarrow> pes_ok (frame_pes cid aud n pts dts idr)"
proof -
  assume f: "fits 33 pts" "fits 33 dts"
  have "uint (word_of_int (int n + (19 + glen aud) - 6) :: u16) = int n + 13 + glen aud" if "13 + glen aud + int n \<le> 0xFFFF"
    using that small_u16(2) [of "n + 13 + length aud"] by (simp add: algebra_simps)
  then show ?thesis using f
    by (auto simp: frame_pes_def mux_pes_def pes_ok_def NewPesPacket_def)
qed

lemma frame_pes_length:
  assumes "PES_packet_length (frame_pes cid aud n pts dts idr) \<noteq> 0"
  shows "unat (PES_packet_length (frame_pes cid aud n pts dts idr)) = 13 + length aud + n"
proof -
  have "13 + glen aud + int n \<le> 0xFFFF" using assms by (auto simp: frame_pes_def mux_pes_def split: if_splits)
  then show ?thesis using small_u16(1) [of "13 + length aud + n"]
    by (simp add: frame_pes_def mux_pes_def algebra_simps)
qed

lemma frame_pes_sel [simp]:
  "PES_header_data_length (frame_pes cid aud n pts dts idr) = 10" "Pts (frame_pes cid aud n pts dts idr) = pts"
  "Dts (frame_pes cid aud n pts dts idr) = dts"
  by (simp_all add: frame_pes_def mux_pes_def NewPesPacket_def)

definition pes_head :: "PesPacket \<Rightarrow> bytes" where
  "pes_head pkg = pack_bits (pes_head_bits pkg @ pes_times_bits pkg)"

lemma pes_bytes_head: "pes_bytes (pkg\<lparr>Pes_payload := d\<rparr>) = pes_head pkg @ d"
  by (simp add: pes_bytes_def pes_head_def pes_head_bits_def pes_times_bits_def)

lemma pes_head_frame:
  "length (pes_head (frame_pes cid aud n pts dts idr)) = 19"
  "bits_of_bytes (pes_head (frame_pes cid aud n pts dts idr)) =
     pes_head_bits (frame_pes cid aud n pts dts idr) @ pes_times_bits (frame_pes cid aud n pts dts idr)"
proof -
  let ?p = "frame_pes cid aud n pts dts idr"
  have "length (pes_times_bits ?p) = 80" 
    by (simp add: pes_times_bits_def frame_pes_def mux_pes_def NewPesPacket_def)
  then show "length (pes_head ?p) = 19" "bits_of_bytes (pes_head ?p) = pes_head_bits ?p @ pes_times_bits ?p"
    by (simp_all add: pes_head_def length_pack_bits bits_of_pack_bits)
qed

text \<open>Whatever part of the payload is there is taken; the decoder may say that more is to come.\<close>

lemma frame_pes_read:
  assumes "drop B buf = pes_head (frame_pes cid aud n pts dts idr) @ d" and "fits 33 pts" and "fits 33 dts"
    and "length d \<le> length aud + n"
  shows "\<exists>e bs. pes_Decode pkg0 (cur m buf (8 * B)) =
    Some (e, pes_received pkg0 (frame_pes cid aud n pts dts idr) d, bs) \<and>
    (e = None \<or> e = Some ErrNeedMore) \<and> (length d = length aud + n \<longrightarrow> e = None)"
proof -
  let ?p = "frame_pes cid aud n pts dts idr"
  have "bits_of_bytes (drop B buf) = pes_head_bits ?p @ pes_times_bits ?p @ bits_of_bytes d"
    by (simp add: assms(1) pes_head_frame)
  note r = pes_Decode_read [OF this frame_pes_ok [OF assms(2,3)], of pkg0 m]
  show ?thesis using r assms(4) frame_pes_length [of cid aud n pts dts idr]
    by (auto simp: pes_outcome_def Let_def)
qed

section \<open>Properties\<close>



end
