(* ===== verification/GoReader.thy ===== *)
theory GoReader
  imports Prelude
begin

text \<open>
  What the code reads its input from: an \<open>io.Reader\<close>, which is the bytes it will deliver and the
  error after them, and an \<open>io.ReadSeeker\<close>, which is a file and a position in it.  \<open>ReadFull\<close> is
  \<open>io.ReadFull\<close> on the one and \<open>file_ReadFull\<close> on the other.
\<close>

section \<open>A stream of bytes\<close>

datatype read_error = EOF | ErrUnexpectedEOF | ErrOther

record reader =
  rd_bytes :: bytes
  rd_end :: read_error

definition ReadFull :: "nat \<Rightarrow> reader \<Rightarrow> (read_error + bytes) \<times> reader" where
  "ReadFull n r =
     (if n \<le> length (rd_bytes r) then (Inr (take n (rd_bytes r)), r\<lparr>rd_bytes := drop n (rd_bytes r)\<rparr>)
      else (Inl (if rd_end r = EOF \<and> rd_bytes r \<noteq> [] then ErrUnexpectedEOF else rd_end r), r\<lparr>rd_bytes := []\<rparr>))"

lemma ReadFull_length: "ReadFull n r = (q, r') \<Longrightarrow> length (rd_bytes r') \<le> length (rd_bytes r)"
  by (auto simp: ReadFull_def split: if_splits)

lemma ReadFull_Inr: "ReadFull n r = (Inr d, r') \<Longrightarrow> length d = n \<and> length (rd_bytes r) = n + length (rd_bytes r')"
  by (auto simp: ReadFull_def split: if_splits)

section \<open>A file\<close>

record mov_file =
  mf_bytes :: bytes
  mf_pos :: int

text \<open>\<open>n\<close> is the length of the buffer; with an empty buffer nothing is read.\<close>

definition file_ReadFull :: "int \<Rightarrow> mov_file \<Rightarrow> (read_error + bytes) \<times> mov_file" where
  "file_ReadFull n f = (let rest = drop (nat (mf_pos f)) (mf_bytes f) in
     if n \<le> 0 then (Inr [], f)
     else if n \<le> glen rest then (Inr (take (nat n) rest), f\<lparr>mf_pos := mf_pos f + n\<rparr>)
     else (Inl (if rest = [] then EOF else ErrUnexpectedEOF),
       f\<lparr>mf_pos := (if rest = [] then mf_pos f else glen (mf_bytes f))\<rparr>))"

datatype whence = SeekStart | SeekCurrent | SeekEnd

text \<open>A position in front of the file is an error, one behind it is not.\<close>

definition file_Seek :: "int \<Rightarrow> whence \<Rightarrow> mov_file \<Rightarrow> (read_error + int) \<times> mov_file" where
  "file_Seek off w f = (let pos = (case w of SeekStart \<Rightarrow> off | SeekCurrent \<Rightarrow> mf_pos f + off
       | SeekEnd \<Rightarrow> glen (mf_bytes f) + off) in
     if pos < 0 then (Inl ErrOther, f) else (Inr pos, f\<lparr>mf_pos := pos\<rparr>))"

lemma file_ReadFull_here:
  assumes "drop (nat (mf_pos f)) (mf_bytes f) = d @ r" and "n = glen d"
  shows "file_ReadFull n f = (Inr d, f\<lparr>mf_pos := mf_pos f + n\<rparr>)"
  using assms by (simp add: file_ReadFull_def Let_def)

section \<open>Calls that return\<close>

text \<open>A call that does not panic, and whose value, if there is no error, satisfies \<open>P\<close>.\<close>

definition returns :: "('a \<Rightarrow> bool) \<Rightarrow> ('e, 'a) result \<Rightarrow> bool" where
  "returns P m \<longleftrightarrow> (case m of None \<Rightarrow> False | Some (Inl e) \<Rightarrow> True | Some (Inr x) \<Rightarrow> P x)"

named_theorems returns_intros \<open>rules that show that a call returns\<close>

lemma returns_simps [simp]: "returns P (ok x) \<longleftrightarrow> P x" "returns P (err e)" "\<not> returns P None"
  by (simp_all add: returns_def)

lemma returns_rbind [returns_intros]:
  "returns Q m \<Longrightarrow> (\<And>x. Q x \<Longrightarrow> returns P (f x)) \<Longrightarrow> returns P (rbind m f)"
  by (cases m) (auto simp: returns_def rbind_def split: sum.splits)

lemma returns_if [returns_intros]:
  "(c \<Longrightarrow> returns P m) \<Longrightarrow> (\<not> c \<Longrightarrow> returns P n) \<Longrightarrow> returns P (if c then m else n)"
  by simp

lemma returns_prod [returns_intros]:
  "(\<And>a b. x = (a, b) \<Longrightarrow> returns P (f a b)) \<Longrightarrow> returns P (case x of (a, b) \<Rightarrow> f a b)"
  by (cases x) simp

lemma returns_mono: "returns Q m \<Longrightarrow> (\<And>x. Q x \<Longrightarrow> P x) \<Longrightarrow> returns P m"
  by (auto simp: returns_def split: option.splits sum.splits)

lemma returnsD: "returns P m \<Longrightarrow> \<exists>r. m = Some r"
  by (auto simp: returns_def split: option.splits)

end
