(* ===== verification/TsDemuxer.thy ===== *)
theory TsDemuxer
  imports TsMuxer GoReader "HOL-Library.AList" "HOL-Library.Multiset"
begin

text \<open>
  The MPEG-TS demultiplexer, \<open>go-mpeg2/ts-demuxer.go\<close>.

  The streams a program and the index by pid share are cells of a store (\<open>dm_heap\<close>); the two
  maps hold their addresses.  The callbacks are the list of events; whether they are set is a
  flag of the state.  An \<open>io.Reader\<close> is the bytes it will deliver and the error after them;
  \<open>ReadFull\<close> is \<open>io.ReadFull\<close> on it.  The order in which \<open>flush\<close> ranges over a map is a
  parameter: Go leaves it open.

  The lemmas: what the multiplexer writes for audio streams is delivered frame by frame, and no
  input makes the demultiplexer panic or run on.
\<close>

unbundle bit_operations_syntax

section \<open>State\<close>

record pakcet_t =
  pk_payload :: bytes
  pk_pts :: u64
  pk_dts :: u64

definition newPacket_t :: pakcet_t where
  "newPacket_t = \<lparr>pk_payload = [], pk_pts = 0, pk_dts = 0\<rparr>"

record tsstream =
  st_cid :: TS_STREAM_TYPE
  st_pes_sid :: PES_STREAM_ID
  st_pes_pkg :: PesPacket
  st_pkg :: "pakcet_t option"
  st_cc :: byte
  st_ccValid :: bool
  st_hdrCache :: bytes
  st_waitPUSI :: bool
  st_scanPos :: int
  st_frameBeg :: int
  st_vcl :: int

record tsprogram =
  pg_pn :: u16
  pg_streams :: "(u16 \<times> nat) list"

record TSDemuxer =
  dm_programs :: "(u16 \<times> tsprogram) list"
  dm_esStreams :: "(u16 \<times> nat) list"
  dm_heap :: "tsstream list"
  dm_OnFrame :: bool
  dm_OnTSPacket :: bool

definition NewTSDemuxer :: TSDemuxer where
  "NewTSDemuxer = \<lparr>dm_programs = [], dm_esStreams = [], dm_heap = [], dm_OnFrame = False, dm_OnTSPacket = False\<rparr>"

datatype ts_event = TsFrame TS_STREAM_TYPE bytes u64 u64 | TsPacket TSPacket

section \<open>Continuity\<close>

definition resetScan :: "tsstream \<Rightarrow> tsstream" where
  "resetScan s = s\<lparr>st_scanPos := 0, st_frameBeg := - 1, st_vcl := 0\<rparr>"

definition dropPartial :: "tsstream \<Rightarrow> tsstream" where
  "dropPartial s = resetScan (s\<lparr>st_pkg := map_option (\<lambda>p. p\<lparr>pk_payload := []\<rparr>) (st_pkg s),
     st_hdrCache := [], st_waitPUSI := True\<rparr>)"

definition checkContinuity :: "TSPacket \<Rightarrow> tsstream \<Rightarrow> bool \<times> tsstream" where
  "checkContinuity pkg s =
     (if Adaptation_field_control pkg AND 0x01 = 0 then (True, s)
      else if st_ccValid s \<and> Continuity_counter pkg = st_cc s then (False, s)
      else
        let signalled = (case Field pkg of Some f \<Rightarrow> Discontinuity_indicator f = 1 | None \<Rightarrow> False);
          s = (if st_ccValid s \<and> Continuity_counter pkg \<noteq> (st_cc s + 1) mod 16 \<and> \<not> signalled then dropPartial s else s)
        in (True, s\<lparr>st_cc := Continuity_counter pkg, st_ccValid := True\<rparr>))"

section \<open>Frames\<close>

definition doAudioPesPacket :: "bool \<Rightarrow> tsstream \<Rightarrow> byte \<Rightarrow> tsstream \<times> ts_event list" where
  "doAudioPesPacket on s start =
     (if st_cid s \<noteq> TS_STREAM_AAC \<and> st_cid s \<noteq> TS_STREAM_AUDIO_MPEG1 \<and> st_cid s \<noteq> TS_STREAM_AUDIO_MPEG2 then (s, [])
      else
        let pes = st_pes_pkg s;
          p = (case st_pkg s of None \<Rightarrow> newPacket_t\<lparr>pk_pts := Pts pes, pk_dts := Dts pes\<rparr> | Some p \<Rightarrow> p);
          full = (pk_payload p \<noteq> [] \<and> (start = 1 \<or> Pts pes \<noteq> pk_pts p));
          out = (if full \<and> on then [TsFrame (st_cid s) (pk_payload p) (pk_pts p div 90) (pk_dts p div 90)] else []);
          p = (if full then p\<lparr>pk_payload := []\<rparr> else p)
        in (s\<lparr>st_pkg := Some (p\<lparr>pk_payload := pk_payload p @ Pes_payload pes, pk_pts := Pts pes, pk_dts := Dts pes\<rparr>)\<rparr>, out))"

text \<open>The callback stops at the first unit; its state is \<open>audLen\<close>.\<close>

definition aud_callback :: "TS_STREAM_TYPE \<Rightarrow> bytes \<Rightarrow> int \<Rightarrow> bool \<times> int" where
  "aud_callback cid nalu audLen =
     (False, if (if cid = TS_STREAM_H264 then H264NaluType nalu = Some 9 else H265NaluType nalu = Some 35)
       then glen nalu else audLen)"

definition leadingAudLen :: "TS_STREAM_TYPE \<Rightarrow> bytes \<Rightarrow> int option" where
  "leadingAudLen cid au = SplitFrameWithStartCode au (Some (aud_callback cid)) 0"

definition emitAccessUnit :: "bool \<Rightarrow> tsstream \<Rightarrow> bytes \<Rightarrow> ts_event list option" where
  "emitAccessUnit on s au =
     (if \<not> on \<or> au = [] then Some []
      else do {
        n \<leftarrow> leadingAudLen (st_cid s) au;
        frame \<leftarrow> slice_from au n;
        p \<leftarrow> st_pkg s;
        Some [TsFrame (st_cid s) frame (pk_pts p div 90) (pk_dts p div 90)]
      })"

text \<open>
  Whether the unit behind a start code begins a new access unit, and the count of slices seen;
  \<open>hdr\<close> holds at least the two or three bytes that were waited for.
\<close>

definition h265_au_start :: "bytes \<Rightarrow> int \<Rightarrow> (bool \<times> int) option" where
  "h265_au_start hdr vcl = do {
     t \<leftarrow> H265NaluTypeWithoutStartCode hdr;
     if t \<in> {35, 33, 34, 32, 39} then Some (vcl > 0, vcl)
     else if t \<in> {0..9} \<union> {16..21} then
       (if vcl > 0 then do { b \<leftarrow> idx hdr 2; Some (b AND 0x80 > 0, vcl) } else Some (False, vcl + 1))
     else Some (False, vcl)
   }"

definition h264_au_start :: "bytes \<Rightarrow> int \<Rightarrow> (bool \<times> int) option" where
  "h264_au_start hdr vcl = do {
     t \<leftarrow> H264NaluTypeWithoutStartCode hdr;
     if t \<in> {9, 7, 8, 6} then Some (vcl > 0, vcl)
     else if t \<in> {5, 1, 2, 3, 4} then
       (if vcl > 0 then do { b \<leftarrow> idx hdr 1; Some (b AND 0x80 > 0, vcl) } else Some (False, vcl + 1))
     else Some (False, vcl)
   }"

text \<open>The loop over the start codes; \<open>data\<close> is the frame buffer and does not change in it.\<close>

function split_scan :: "bool \<Rightarrow> bytes \<Rightarrow> tsstream \<Rightarrow> bool \<Rightarrow> (bool \<times> tsstream \<times> ts_event list) option" where
  "split_scan on data s needUpdate = do {
     let isH265 = (st_cid s = TS_STREAM_H265);
     let hdrLen = (if isH265 then 3 else 2);
     (start, sct) \<leftarrow> FindStartCode data (st_scanPos s);
     if start < 0 then
       Some (needUpdate, (if glen data - 2 > st_scanPos s then s\<lparr>st_scanPos := glen data - 2\<rparr> else s), [])
     else do {
       let s1 = (if st_frameBeg s < 0 then s\<lparr>st_frameBeg := start\<rparr> else s);
       if glen data - start < int (sc_len sct) + hdrLen then Some (needUpdate, s1\<lparr>st_scanPos := start\<rparr>, [])
       else do {
         hdr \<leftarrow> slice_from data (start + int (sc_len sct));
         (newAccessUnit, vcl) \<leftarrow> (if isH265 then h265_au_start hdr (st_vcl s1) else h264_au_start hdr (st_vcl s1));
         let s2 = s1\<lparr>st_vcl := vcl\<rparr>;
         if vcl > 0 \<and> newAccessUnit then do {
           au \<leftarrow> slice_of data (st_frameBeg s2) start;
           out \<leftarrow> emitAccessUnit on s2 au;
           (u, s3, out') \<leftarrow> split_scan on data (s2\<lparr>st_frameBeg := start, st_vcl := 0, st_scanPos := start + 3\<rparr>) True;
           Some (u, s3, out @ out')
         }
         else split_scan on data (s2\<lparr>st_scanPos := start + 3\<rparr>) needUpdate
       }
     }
   }"
  by pat_completeness auto
termination
proof (relation "measure (\<lambda>(on, data, s, u). nat (glen data - st_scanPos s))", goal_cases)
  case (2 on data s needUpdate isH265 hdrLen p start sct s1 hdr q newAccessUnit vcl s2 au out)
  then show ?case using FindStartCode_range [of data "st_scanPos s" start sct] by (cases sct) auto
next
  case (3 on data s needUpdate isH265 hdrLen p start sct s1 hdr q newAccessUnit vcl s2)
  then show ?case using FindStartCode_range [of data "st_scanPos s" start sct] by (cases sct) auto
qed simp

declare split_scan.simps [simp del]

definition splitH26xFrame :: "bool \<Rightarrow> tsstream \<Rightarrow> (bool \<times> tsstream \<times> ts_event list) option" where
  "splitH26xFrame on s = do {
     p \<leftarrow> st_pkg s;
     let data = pk_payload p;
     (needUpdate, s, out) \<leftarrow> split_scan on data s False;
     if st_frameBeg s > 0 then do {
       rest \<leftarrow> slice_from data (st_frameBeg s);
       let pos = st_scanPos s - st_frameBeg s;
       Some (needUpdate, s\<lparr>st_pkg := Some (p\<lparr>pk_payload := rest\<rparr>), st_scanPos := (if pos < 0 then 0 else pos), st_frameBeg := 0\<rparr>, out)
     }
     else Some (needUpdate, s, out)
   }"

definition doVideoPesPacket :: "bool \<Rightarrow> tsstream \<Rightarrow> byte \<Rightarrow> (tsstream \<times> ts_event list) option" where
  "doVideoPesPacket on s start =
     (if st_cid s \<noteq> TS_STREAM_H264 \<and> st_cid s \<noteq> TS_STREAM_H265 then Some (s, [])
      else do {
        let pes = st_pes_pkg s;
        let s = (case st_pkg s of
            None \<Rightarrow> resetScan (s\<lparr>st_pkg := Some (newPacket_t\<lparr>pk_pts := Pts pes, pk_dts := Dts pes\<rparr>)\<rparr>)
          | Some p \<Rightarrow> s);
        let s = s\<lparr>st_pkg := map_option (\<lambda>p. p\<lparr>pk_payload := pk_payload p @ Pes_payload pes\<rparr>) (st_pkg s)\<rparr>;
        (update, s, out) \<leftarrow> splitH26xFrame on s;
        Some (if update then s\<lparr>st_pkg := map_option (\<lambda>p. p\<lparr>pk_pts := Pts pes, pk_dts := Dts pes\<rparr>) (st_pkg s)\<rparr> else s, out)
      })"

section \<open>A packet of an elementary stream\<close>

text \<open>
  What a packet does to its stream: an error, nothing (the packet is skipped), or a PES payload
  with the start flag the frame code sees and what \<open>OnTSPacket\<close> is shown.
\<close>

datatype es_result = EsError mpeg2_error | EsSkip | EsData byte ts_payload

definition es_pes :: "TSPacket \<Rightarrow> bitstream \<Rightarrow> tsstream \<Rightarrow> (es_result \<times> tsstream) option" where
  "es_pes pkg bs s =
     (if Payload_unit_start_indicator pkg = 1 then do {
        let s = s\<lparr>st_hdrCache := [], st_waitPUSI := False\<rparr>;
        (e, q, bs) \<leftarrow> pes_Decode ((st_pes_pkg s)\<lparr>Pes_payload := []\<rparr>) bs;
        let s = s\<lparr>st_pes_pkg := q\<rparr>;
        (case e of
           Some x \<Rightarrow>
             if x \<noteq> ErrNeedMore then Some (EsError x, s)
             else if Pes_payload q = [] then Some (EsSkip, s\<lparr>st_hdrCache := st_hdrCache s @ RemainData bs\<rparr>)
             else Some (EsData 1 (PesPayload q), s)
         | None \<Rightarrow> Some (EsData 1 (PesPayload q), s))
      }
      else if st_waitPUSI s then Some (EsSkip, s)
      else if st_hdrCache s \<noteq> [] then do {
        let s = s\<lparr>st_hdrCache := st_hdrCache s @ RemainData bs\<rparr>;
        (e, q, hbs) \<leftarrow> pes_Decode ((st_pes_pkg s)\<lparr>Pes_payload := []\<rparr>) (NewBitStream (st_hdrCache s));
        let s = s\<lparr>st_pes_pkg := q\<rparr>;
        (case e of
           Some x \<Rightarrow>
             if x \<noteq> ErrNeedMore then Some (EsError x, dropPartial s)
             else if Pes_payload q = [] then Some (EsSkip, s)
             else Some (EsData 1 (PesPayload q), s)
         | None \<Rightarrow> Some (EsData 1 (PesPayload q), s))
      }
      else Some (EsData (Payload_unit_start_indicator pkg) (BytesPayload (RemainData bs)),
        s\<lparr>st_pes_pkg := (st_pes_pkg s)\<lparr>Pes_payload := RemainData bs\<rparr>\<rparr>))"

definition es_frames :: "bool \<Rightarrow> tsstream \<Rightarrow> byte \<Rightarrow> (tsstream \<times> ts_event list) option" where
  "es_frames on s start = do {
     let stype = findPESIDByStreamType (st_cid s);
     (s, out) \<leftarrow> (if stype = PES_STREAM_AUDIO then Some (doAudioPesPacket on s start)
       else if stype = PES_STREAM_VIDEO then doVideoPesPacket on s start
       else Some (s, []));
     Some (s\<lparr>st_hdrCache := []\<rparr>, out)
   }"

text \<open>The branch of \<open>Input\<close>: an error, the payload to show or nothing, the stream and the frames.\<close>

definition es_packet :: "bool \<Rightarrow> TSPacket \<Rightarrow> bitstream \<Rightarrow> tsstream
    \<Rightarrow> ((mpeg2_error + ts_payload option) \<times> tsstream \<times> ts_event list) option" where
  "es_packet on pkg bs s = (
     let (ok, s) = checkContinuity pkg s in
     if \<not> ok then Some (Inr None, s, [])
     else do {
       (r, s) \<leftarrow> es_pes pkg bs s;
       (case r of
          EsError x \<Rightarrow> Some (Inl x, s, [])
        | EsSkip \<Rightarrow> Some (Inr None, s, [])
        | EsData start payload \<Rightarrow> do {
            (s, out) \<leftarrow> es_frames on s start;
            Some (Inr (Some payload), s, out)
          })
     })"

section \<open>A packet\<close>

text \<open>New programs of a PAT and new streams of a PMT; known ones are left alone.\<close>

fun add_programs :: "PmtPair list \<Rightarrow> (u16 \<times> tsprogram) list \<Rightarrow> (u16 \<times> tsprogram) list" where
  "add_programs [] progs = progs"
| "add_programs (pmt # pmts) progs = add_programs pmts
     (if Program_number pmt \<noteq> 0x0000 \<and> map_of progs (pair_PID pmt) = None
      then progs @ [(pair_PID pmt, \<lparr>pg_pn = 0, pg_streams = []\<rparr>)] else progs)"

definition new_tsstream :: "byte \<Rightarrow> tsstream" where
  "new_tsstream typ = \<lparr>st_cid = uint typ, st_pes_sid = findPESIDByStreamType (uint typ), st_pes_pkg = NewPesPacket,
     st_pkg = None, st_cc = 0, st_ccValid = False, st_hdrCache = [], st_waitPUSI = True, st_scanPos = 0,
     st_frameBeg = - 1, st_vcl = 0\<rparr>"

fun add_es :: "StreamPair list \<Rightarrow> tsprogram \<Rightarrow> TSDemuxer \<Rightarrow> tsprogram \<times> TSDemuxer" where
  "add_es [] prog d = (prog, d)"
| "add_es (ps # pss) prog d =
     (if map_of (pg_streams prog) (Elementary_PID ps) = None then
        add_es pss (prog\<lparr>pg_streams := pg_streams prog @ [(Elementary_PID ps, length (dm_heap d))]\<rparr>)
          (d\<lparr>dm_esStreams := AList.update (Elementary_PID ps) (length (dm_heap d)) (dm_esStreams d),
             dm_heap := dm_heap d @ [new_tsstream (StreamType ps)]\<rparr>)
      else add_es pss prog d)"

type_synonym demux_result = "(mpeg2_error option \<times> TSDemuxer \<times> ts_event list) option"

definition show_packet :: "TSPacket \<Rightarrow> TSDemuxer \<Rightarrow> ts_event list" where
  "show_packet pkg d = (if dm_OnTSPacket d then [TsPacket pkg] else [])"

definition demux_pat :: "TSPacket \<Rightarrow> bitstream \<Rightarrow> TSDemuxer \<Rightarrow> demux_result" where
  "demux_pat pkg bs d = do {
     (r, bs) \<leftarrow> ReadSection 0x00 (if Payload_unit_start_indicator pkg = 1 then SkipBits 8 bs else bs);
     (case r of
        Inl e \<Rightarrow> Some (Some e, d, [])
      | Inr (PatPayload pat) \<Rightarrow>
          Some (None, d\<lparr>dm_programs := add_programs (Pmts pat) (dm_programs d)\<rparr>,
            show_packet (pkg\<lparr>ts_Payload := PatPayload pat\<rparr>) d)
      | Inr _ \<Rightarrow> Some (Some ErrTableId, d, []))
   }"

definition demux_pmt :: "tsprogram \<Rightarrow> TSPacket \<Rightarrow> bitstream \<Rightarrow> TSDemuxer \<Rightarrow> demux_result" where
  "demux_pmt prog pkg bs d = do {
     (r, bs) \<leftarrow> ReadSection 0x02 (if Payload_unit_start_indicator pkg = 1 then SkipBits 8 bs else bs);
     (case r of
        Inl e \<Rightarrow> Some (Some e, d, [])
      | Inr (PmtPayload pmt) \<Rightarrow>
          let (prog, d) = add_es (Streams pmt) (prog\<lparr>pg_pn := pmt_Program_number pmt\<rparr>) d in
          Some (None, d\<lparr>dm_programs := AList.update (ts_PID pkg) prog (dm_programs d)\<rparr>,
            show_packet (pkg\<lparr>ts_Payload := PmtPayload pmt\<rparr>) d)
      | Inr _ \<Rightarrow> Some (Some ErrTableId, d, []))
   }"

definition demux_es :: "nat \<Rightarrow> TSPacket \<Rightarrow> bitstream \<Rightarrow> TSDemuxer \<Rightarrow> demux_result" where
  "demux_es a pkg bs d = do {
     s \<leftarrow> idx (dm_heap d) (int a);
     (r, s, out) \<leftarrow> es_packet (dm_OnFrame d) pkg bs s;
     let d = d\<lparr>dm_heap := (dm_heap d)[a := s]\<rparr>;
     Some (case r of
         Inl e \<Rightarrow> (Some e, d, out)
       | Inr None \<Rightarrow> (None, d, out)
       | Inr (Some payload) \<Rightarrow> (None, d, out @ show_packet (pkg\<lparr>ts_Payload := payload\<rparr>) d))
   }"

definition demux_packet :: "bytes \<Rightarrow> TSDemuxer \<Rightarrow> demux_result" where
  "demux_packet buf d = do {
     (e, pkg, bs) \<leftarrow> DecodeHeader zero_ts_packet (NewBitStream buf);
     if e \<noteq> None then Some (e, d, [])
     else if ts_PID pkg = TS_PID_PAT then demux_pat pkg bs d
     else if ts_PID pkg = TS_PID_Nil then Some (None, d, [])
     else (case map_of (dm_programs d) (ts_PID pkg) of
         Some prog \<Rightarrow> demux_pmt prog pkg bs d
       | None \<Rightarrow> (case map_of (dm_esStreams d) (ts_PID pkg) of
           Some a \<Rightarrow> demux_es a pkg bs d
         | None \<Rightarrow> Some (None, d, show_packet pkg d)))
   }"

section \<open>Finding the packets\<close>

text \<open>The first offset with a sync byte here and a packet later; \<open>TS_PAKCET_SIZE\<close> if there is none.\<close>

fun find_sync :: "nat \<Rightarrow> bytes \<Rightarrow> nat \<Rightarrow> nat option" where
  "find_sync 0 buf i = Some i"
| "find_sync (Suc n) buf i = do {
     a \<leftarrow> idx buf (int i);
     b \<leftarrow> idx buf (int i + TS_PAKCET_SIZE);
     if a = 0x47 \<and> b = 0x47 then Some i else find_sync n buf (i + 1)
   }"

text \<open>\<open>buf\<close> has two packets; the result is the buffer, if any, the error, and the reader.\<close>

function probe_loop :: "bytes \<Rightarrow> reader \<Rightarrow> (bytes option \<times> read_error option \<times> reader) option" where
  "probe_loop buf r = do {
     i \<leftarrow> find_sync 188 buf 0;
     if i = 0 then Some (Some buf, None, r)
     else if i < 188 then
       (case ReadFull i r of
          (Inl e, r) \<Rightarrow> Some (Some (take 188 (drop i buf)), Some e, r)
        | (Inr d, r) \<Rightarrow> Some (Some (drop i buf @ d), None, r))
     else
       (case ReadFull 188 r of
          (Inl e, r) \<Rightarrow> Some (Some (drop 188 buf), Some e, r)
        | (Inr d, r) \<Rightarrow> probe_loop (drop 188 buf @ d) r)
   }"
  by pat_completeness auto
termination
  by (relation "measure (\<lambda>(buf, r). length (rd_bytes r))") (auto simp: ReadFull_def split: if_splits)

declare probe_loop.simps [simp del]

definition probe :: "reader \<Rightarrow> (bytes option \<times> read_error option \<times> reader) option" where
  "probe r = (case ReadFull 188 r of
       (Inl e, r) \<Rightarrow> Some (None, Some e, r)
     | (Inr buf, r) \<Rightarrow> do {
         b \<leftarrow> idx buf 0;
         if b = 0x47 then Some (Some buf, None, r)
         else (case ReadFull 188 r of
             (Inl e, r) \<Rightarrow> Some (None, Some e, r)
           | (Inr d, r) \<Rightarrow> probe_loop (buf @ d) r)
       })"

section \<open>The end of the input\<close>

definition flush_stream :: "bool \<Rightarrow> tsstream \<Rightarrow> (tsstream \<times> ts_event list) option" where
  "flush_stream on s =
     (case st_pkg s of
        None \<Rightarrow> Some (s, [])
      | Some p \<Rightarrow>
          if pk_payload p = [] then Some (s, [])
          else if \<not> on then Some (s, [])
          else do {
            frame \<leftarrow> (if st_cid s = TS_STREAM_H264 \<or> st_cid s = TS_STREAM_H265 then do {
                audLen \<leftarrow> leadingAudLen (st_cid s) (pk_payload p);
                slice_from (pk_payload p) audLen
              } else Some (pk_payload p));
            Some (s\<lparr>st_pkg := None\<rparr>, [TsFrame (st_cid s) frame (pk_pts p div 90) (pk_dts p div 90)])
          })"

fun flush_streams :: "bool \<Rightarrow> nat list \<Rightarrow> tsstream list \<Rightarrow> (tsstream list \<times> ts_event list) option" where
  "flush_streams on [] heap = Some (heap, [])"
| "flush_streams on (a # as) heap = do {
     s \<leftarrow> idx heap (int a);
     (s, out) \<leftarrow> flush_stream on s;
     (heap, out') \<leftarrow> flush_streams on as (heap[a := s]);
     Some (heap, out @ out')
   }"

text \<open>The addresses in the order the two maps are ranged over.\<close>

definition flush_order :: "(u16 list \<Rightarrow> u16 list) \<Rightarrow> TSDemuxer \<Rightarrow> nat list" where
  "flush_order ord d = concat (map (\<lambda>pid. case map_of (dm_programs d) pid of
       None \<Rightarrow> []
     | Some pm \<Rightarrow> map (\<lambda>k. the (map_of (pg_streams pm) k)) (ord (map fst (pg_streams pm))))
     (ord (map fst (dm_programs d))))"

definition demux_flush :: "(u16 list \<Rightarrow> u16 list) \<Rightarrow> TSDemuxer \<Rightarrow> (TSDemuxer \<times> ts_event list) option" where
  "demux_flush ord d = do {
     (heap, out) \<leftarrow> flush_streams (dm_OnFrame d) (flush_order ord d) (dm_heap d);
     Some (d\<lparr>dm_heap := heap\<rparr>, out)
   }"

section \<open>The input\<close>

text \<open>The next buffer with a packet in front, or the end: \<open>Inl None\<close> is the regular one.\<close>

definition next_buffer :: "bytes \<Rightarrow> read_error option \<Rightarrow> reader
    \<Rightarrow> (read_error option + bytes \<times> read_error option \<times> reader) option" where
  "next_buffer buf rerr r =
     (if glen buf > TS_PAKCET_SIZE then Some (Inr (drop 188 buf, rerr, r))
      else (case rerr of
          Some e \<Rightarrow> Some (Inl (if e = EOF \<or> e = ErrUnexpectedEOF then None else Some e))
        | None \<Rightarrow> do {
            (b, e, r) \<leftarrow> probe r;
            (case b of
               None \<Rightarrow> Some (Inl (if e = Some EOF then None else e))
             | Some buf \<Rightarrow> Some (Inr (buf, e, r)))
          }))"

lemma find_sync_bound: "find_sync n buf i = Some j \<Longrightarrow> j \<le> i + n"
  by (induction n buf i rule: find_sync.induct) (auto simp: Option.bind_eq_Some_conv split: if_splits)

lemma probe_loop_length:
  assumes "probe_loop buf r = Some (b, e, r')" and "length buf = 376"
  shows "length (rd_bytes r') \<le> length (rd_bytes r) \<and> (\<forall>c. b = Some c \<longrightarrow> 188 \<le> length c \<and> length c \<le> 376)"
  using assms
proof (induction "length (rd_bytes r)" arbitrary: buf r rule: less_induct)
  case less
  obtain i where i: "find_sync 188 buf 0 = Some i"
    using less.prems(1) by (subst (asm) probe_loop.simps) (auto simp: Option.bind_eq_Some_conv)
  have ib: "i \<le> 188" using find_sync_bound [OF i] by simp
  obtain q r1 where q: "ReadFull i r = (q, r1)" by fastforce
  note ql = ReadFull_length [OF q]
  consider "i = 0" | "0 < i" "i < 188" | "i = 188" using ib by linarith
  then show ?case
  proof cases
    case 1
    then show ?thesis using less.prems i by (subst (asm) probe_loop.simps) auto
  next
    case 2
    then show ?thesis using less.prems i q ql ReadFull_Inr [of i r _ r1]
      by (subst (asm) probe_loop.simps) (auto split: sum.splits)
  next
    case 3
    show ?thesis
    proof (cases q)
      case (Inl e)
      then show ?thesis using less.prems i 3 q ql by (subst (asm) probe_loop.simps) auto
    next
      case (Inr d)
      note l = ReadFull_Inr [OF q [unfolded Inr]]
      have "probe_loop (drop 188 buf @ d) r1 = Some (b, e, r')"
        using less.prems i 3 q Inr by (subst (asm) probe_loop.simps) auto
      moreover have "length (drop 188 buf @ d) = 376" "length (rd_bytes r1) < length (rd_bytes r)"
        using less.prems(2) l 3 by simp_all
      ultimately show ?thesis using less.hyps [of r1 "drop 188 buf @ d"] ql by auto
    qed
  qed
qed

lemma probe_length:
  assumes "probe r = Some (Some buf, e, r')"
  shows "2 * length (rd_bytes r') + length buf < 2 * length (rd_bytes r) \<and> 188 \<le> length buf"
proof -
  obtain b r1 where 1: "ReadFull 188 r = (Inr b, r1)" and p: "(if b ! 0 = 0x47 then Some (Some b, None, r1)
      else (case ReadFull 188 r1 of (Inl e, r) \<Rightarrow> Some (None, Some e, r) | (Inr d, r) \<Rightarrow> probe_loop (b @ d) r)) = Some (Some buf, e, r')"
    using assms by (auto simp: probe_def Option.bind_eq_Some_conv idx_def split: prod.splits sum.splits if_splits)
  note l1 = ReadFull_Inr [OF 1]
  show ?thesis
  proof (cases "b ! 0 = 0x47")
    case False
    then obtain d r2 where 2: "ReadFull 188 r1 = (Inr d, r2)" "probe_loop (b @ d) r2 = Some (Some buf, e, r')"
      using p by (auto split: prod.splits sum.splits)
    then show ?thesis using l1 ReadFull_Inr [OF 2(1)] probe_loop_length [OF 2(2)] by auto
  qed (use p l1 in auto)
qed

lemma next_buffer_less:
  assumes "next_buffer buf rerr r = Some (Inr (buf', rerr', r'))"
  shows "2 * length (rd_bytes r') + length buf' < 2 * length (rd_bytes r) + length buf"
proof (cases "glen buf > TS_PAKCET_SIZE")
  case True
  then show ?thesis using assms by (auto simp: next_buffer_def)
next
  case False
  then have "probe r = Some (Some buf', rerr', r')"
    using assms by (auto simp: next_buffer_def Option.bind_eq_Some_conv split: option.splits)
  then show ?thesis using probe_length by fastforce
qed

function demux_loop :: "(u16 list \<Rightarrow> u16 list) \<Rightarrow> bytes \<Rightarrow> read_error option \<Rightarrow> reader \<Rightarrow> TSDemuxer
    \<Rightarrow> ((mpeg2_error + read_error) option \<times> TSDemuxer \<times> ts_event list) option" where
  "demux_loop ord buf rerr r d = do {
     next' \<leftarrow> next_buffer buf rerr r;
     (case next' of
        Inl None \<Rightarrow> do {
          (d, out) \<leftarrow> demux_flush ord d;
          Some (None, d, out)
        }
      | Inl (Some e) \<Rightarrow> Some (Some (Inr e), d, [])
      | Inr (buf, rerr, r) \<Rightarrow> do {
          p \<leftarrow> slice_to buf TS_PAKCET_SIZE;
          (e, d, out) \<leftarrow> demux_packet p d;
          (case e of
             Some x \<Rightarrow> Some (Some (Inl x), d, out)
           | None \<Rightarrow> do {
               (e, d, out') \<leftarrow> demux_loop ord buf rerr r d;
               Some (e, d, out @ out')
             })
        })
   }"
  by pat_completeness auto
termination
  by (relation "measure (\<lambda>(ord, buf, rerr, r, d). 2 * length (rd_bytes r) + length buf)")
    (auto dest: next_buffer_less)

declare demux_loop.simps [simp del]

definition demux_Input :: "(u16 list \<Rightarrow> u16 list) \<Rightarrow> reader \<Rightarrow> TSDemuxer
    \<Rightarrow> ((mpeg2_error + read_error) option \<times> TSDemuxer \<times> ts_event list) option" where
  "demux_Input ord r d = demux_loop ord [] None r d"

section \<open>No input makes it panic\<close>

text \<open>What the steps keep of a stream: the scanner stays inside the buffer and in front of the access unit.\<close>

definition tsstream_ok :: "tsstream \<Rightarrow> bool" where
  "tsstream_ok s \<longleftrightarrow> 0 \<le> st_scanPos s \<and> - 1 \<le> st_frameBeg s \<and> st_frameBeg s \<le> st_scanPos s \<and>
     pred_option (\<lambda>p. st_frameBeg s \<le> glen (pk_payload p)) (st_pkg s) \<and>
     (st_cid s \<noteq> TS_STREAM_H264 \<and> st_cid s \<noteq> TS_STREAM_H265 \<longrightarrow> st_frameBeg s = - 1)"

lemma tsstream_ok_cong [simp]: "tsstream_ok (s\<lparr>st_hdrCache := c\<rparr>) = tsstream_ok s"
  "tsstream_ok (s\<lparr>st_pes_pkg := q\<rparr>) = tsstream_ok s" "tsstream_ok (s\<lparr>st_waitPUSI := w\<rparr>) = tsstream_ok s"
  "tsstream_ok (s\<lparr>st_cc := cc\<rparr>) = tsstream_ok s" "tsstream_ok (s\<lparr>st_ccValid := v\<rparr>) = tsstream_ok s"
  by (simp_all add: tsstream_ok_def)

lemma resetScan_ok: "tsstream_ok (resetScan s)"
  by (cases "st_pkg s") (simp_all add: tsstream_ok_def resetScan_def)

lemma checkContinuity_ok: "tsstream_ok s \<Longrightarrow> tsstream_ok (snd (checkContinuity pkg s))"
  using resetScan_ok by (auto simp: checkContinuity_def dropPartial_def tsstream_ok_def Let_def split: option.split)

lemma split_loop_aud:
  "split_loop keep frames (Some (aud_callback cid)) beg sc st = Some n \<Longrightarrow> n = st \<or> (0 \<le> n \<and> n \<le> glen frames)"
proof (induction "nat (glen frames - beg)" arbitrary: beg sc rule: less_induct)
  case less
  obtain e sc2 where f: "FindStartCode frames (beg + int (sc_len sc)) = Some (e, sc2)"
    using FindStartCode_total by blast
  let ?body = "beg + int (sc_len sc)"
  note r = FindStartCode_range [OF f]
  show ?case
  proof (cases "beg < 0 \<or> e = - 1 \<or> ?body < e")
    case True
    then show ?thesis using less.prems f
      by (subst (asm) split_loop.simps)
        (auto simp: Option.bind_eq_Some_conv aud_callback_def slice_from_def slice_of_def Let_def split: if_splits)
  next
    case False
    then have "split_loop keep frames (Some (aud_callback cid)) e sc2 st = Some n"
      using less.prems f by (subst (asm) split_loop.simps) auto
    moreover have "nat (glen frames - e) < nat (glen frames - beg)" using r False by (cases sc; cases sc2) auto
    ultimately show ?thesis by (intro less.hyps)
  qed
qed

lemma leadingAudLen_range: "\<exists>n. leadingAudLen cid au = Some n \<and> 0 \<le> n \<and> n \<le> glen au"
proof -
  obtain n where n: "leadingAudLen cid au = Some n"
    using SplitFrame_total(2) [of au "Some (aud_callback cid)" 0] by (auto simp: leadingAudLen_def)
  then have "n = 0 \<or> (0 \<le> n \<and> n \<le> glen au)"
    by (auto simp: leadingAudLen_def SplitFrameWithStartCode_def Option.bind_eq_Some_conv dest: split_loop_aud)
  then show ?thesis using n by auto
qed

lemma au_start_total:
  "3 \<le> length hdr \<Longrightarrow> \<exists>b v'. h265_au_start hdr v = Some (b, v') \<and> (b \<longrightarrow> v' = v)"
  "2 \<le> length hdr \<Longrightarrow> \<exists>b v'. h264_au_start hdr v = Some (b, v') \<and> (b \<longrightarrow> v' = v)"
  by (auto simp: h265_au_start_def h264_au_start_def H265NaluTypeWithoutStartCode_def
      H264NaluTypeWithoutStartCode_def idx_def)

lemma emitAccessUnit_total: "st_pkg s = Some p \<Longrightarrow> \<exists>out. emitAccessUnit on s au = Some out"
  using leadingAudLen_range [of "st_cid s" au] by (auto simp: emitAccessUnit_def slice_from_def)

text \<open>The scan returns with the scanner inside the buffer and everything but the scanner as it was.\<close>

definition scanned :: "bytes \<Rightarrow> tsstream \<Rightarrow> tsstream \<Rightarrow> bool" where
  "scanned data s t \<longleftrightarrow> t = s\<lparr>st_scanPos := st_scanPos t, st_frameBeg := st_frameBeg t, st_vcl := st_vcl t\<rparr> \<and>
     0 \<le> st_scanPos t \<and> - 1 \<le> st_frameBeg t \<and> st_frameBeg t \<le> st_scanPos t \<and> st_frameBeg t \<le> glen data"

lemma scanned_trans:
  "scanned data (s\<lparr>st_scanPos := a, st_frameBeg := b, st_vcl := c\<rparr>) t \<Longrightarrow> scanned data s t"
  by (simp add: scanned_def)

lemma split_scan_total:
  assumes "scanned data s s" and "st_pkg s = Some p"
  shows "\<exists>u t out. split_scan on data s v = Some (u, t, out) \<and> scanned data s t"
  using assms
proof (induction "nat (glen data - st_scanPos s)" arbitrary: s v rule: less_induct)
  case less
  have s: "0 \<le> st_scanPos s" "- 1 \<le> st_frameBeg s" "st_frameBeg s \<le> st_scanPos s" "st_frameBeg s \<le> glen data"
    using less.prems(1) by (simp_all add: scanned_def)
  obtain start sct where f: "FindStartCode data (st_scanPos s) = Some (start, sct)" using FindStartCode_total by blast
  note r = FindStartCode_range [OF f]
  let ?h = "if st_cid s = TS_STREAM_H265 then 3 else 2 :: int"
  let ?beg = "if st_frameBeg s < 0 then start else st_frameBeg s"
  let ?s1 = "if st_frameBeg s < 0 then s\<lparr>st_frameBeg := start\<rparr> else s"
  show ?case
  proof (cases "start < 0")
    case True
    then show ?thesis using s f by (subst split_scan.simps) (auto simp: scanned_def Let_def)
  next
    case False
    then have st: "st_scanPos s \<le> start" "start + int (sc_len sct) \<le> glen data" "0 \<le> start" using r by auto
    show ?thesis
    proof (cases "glen data - start < int (sc_len sct) + ?h")
      case True
      then show ?thesis using s st f False by (subst split_scan.simps) (auto simp: scanned_def Let_def)
    next
      case room: False
      let ?hdr = "drop (nat (start + int (sc_len sct))) data"
      have h: "slice_from data (start + int (sc_len sct)) = Some ?hdr" using st by (simp add: slice_from_def)
      have "nat ?h \<le> length ?hdr" using room st by auto
      then obtain b vcl where b: "(if st_cid s = TS_STREAM_H265 then h265_au_start ?hdr (st_vcl s)
          else h264_au_start ?hdr (st_vcl s)) = Some (b, vcl)"
        using au_start_total [of ?hdr "st_vcl s"] by (auto split: if_splits)
      have sc: "3 \<le> sc_len sct" by (cases sct) simp_all
      show ?thesis
      proof (cases "vcl > 0 \<and> b")
        case True
        let ?s2 = "?s1\<lparr>st_vcl := vcl\<rparr>" and ?s3 = "s\<lparr>st_frameBeg := start, st_vcl := 0, st_scanPos := start + 3\<rparr>"
        have "0 \<le> ?beg" "?beg \<le> start" "start \<le> glen data" using s st by auto
        then obtain au where au: "slice_of data ?beg start = Some au" by (simp add: slice_of_def del: if_split)
        have "st_pkg ?s2 = Some p" using less.prems(2) by (cases "st_frameBeg s < 0") simp_all
        then obtain out where out: "emitAccessUnit on ?s2 au = Some out" using emitAccessUnit_total by blast
        have "scanned data ?s3 ?s3" using st by (simp add: scanned_def)
        moreover have "nat (glen data - st_scanPos ?s3) < nat (glen data - st_scanPos s)" using st sc by auto
        ultimately obtain u t out' where t: "split_scan on data ?s3 True = Some (u, t, out')" "scanned data ?s3 t"
          using less.hyps [of ?s3 True] less.prems(2) by auto
        have "scanned data s t" using t(2) by (simp add: scanned_def)
        moreover have "?s1\<lparr>st_vcl := vcl, st_frameBeg := start, st_vcl := 0, st_scanPos := start + 3\<rparr> = ?s3" by simp
        ultimately show ?thesis
          using f False room h b True au out t(1)
          by (subst split_scan.simps) (auto simp: Let_def)
      next
        case no: False
        let ?s3 = "?s1\<lparr>st_vcl := vcl, st_scanPos := start + 3\<rparr>"
        have "scanned data ?s3 ?s3" using s st by (cases "st_frameBeg s < 0") (simp_all add: scanned_def)
        moreover have "nat (glen data - st_scanPos ?s3) < nat (glen data - st_scanPos s)" using st sc by auto
        moreover have "st_pkg ?s3 = Some p" using less.prems(2) by simp
        ultimately obtain u t out where t: "split_scan on data ?s3 v = Some (u, t, out)" "scanned data ?s3 t"
          using less.hyps [of ?s3 v] by blast
        have "scanned data s t" using t(2) by (cases "st_frameBeg s < 0") (simp_all add: scanned_def)
        then show ?thesis
          using f False room h b no t(1) by (cases "st_frameBeg s < 0") (subst split_scan.simps, auto simp: Let_def)+
      qed
    qed
  qed
qed

lemma splitH26xFrame_total:
  assumes "tsstream_ok s" and "st_pkg s = Some p"
    and "st_cid s = TS_STREAM_H264 \<or> st_cid s = TS_STREAM_H265"
  shows "\<exists>u t out. splitH26xFrame on s = Some (u, t, out) \<and> tsstream_ok t \<and> (\<exists>q. st_pkg t = Some q)"
proof -
  have "scanned (pk_payload p) s s" using assms by (simp add: scanned_def tsstream_ok_def)
  then obtain u t out where t: "split_scan on (pk_payload p) s False = Some (u, t, out)" "scanned (pk_payload p) s t"
    using split_scan_total assms(2) by blast
  have cid: "st_cid t = st_cid s" and pkg: "st_pkg t = st_pkg s"
    using arg_cong [OF conjunct1 [OF t(2) [unfolded scanned_def]], of st_pkg]
      arg_cong [OF conjunct1 [OF t(2) [unfolded scanned_def]], of st_cid] by simp_all
  then have tok: "st_pkg t = Some p" "st_frameBeg t \<le> glen (pk_payload p)" "0 \<le> st_scanPos t" "- 1 \<le> st_frameBeg t"
    "st_frameBeg t \<le> st_scanPos t" "st_cid t = TS_STREAM_H264 \<or> st_cid t = TS_STREAM_H265"
    using t(2) assms(2,3) by (simp_all add: scanned_def)
  show ?thesis
  proof (cases "st_frameBeg t > 0")
    case True
    then show ?thesis using t(1) tok assms
      by (simp add: splitH26xFrame_def slice_from_def Let_def tsstream_ok_def)
  next
    case False
    moreover have "tsstream_ok t" using tok by (auto simp: tsstream_ok_def)
    ultimately show ?thesis using t(1) tok(1) assms(2) by (simp add: splitH26xFrame_def Let_def)
  qed
qed

lemma doVideo_total:
  assumes "tsstream_ok s"
  shows "\<exists>t out. doVideoPesPacket on s b = Some (t, out) \<and> tsstream_ok t"
proof (cases "st_cid s = TS_STREAM_H264 \<or> st_cid s = TS_STREAM_H265")
  case True
  then have video: "\<not> (st_cid s \<noteq> TS_STREAM_H264 \<and> st_cid s \<noteq> TS_STREAM_H265)" by blast
  let ?pes = "st_pes_pkg s"
  let ?s1 = "case st_pkg s of None \<Rightarrow> resetScan (s\<lparr>st_pkg := Some (newPacket_t\<lparr>pk_pts := Pts ?pes, pk_dts := Dts ?pes\<rparr>)\<rparr>)
    | Some p \<Rightarrow> s"
  let ?s2 = "?s1\<lparr>st_pkg := map_option (\<lambda>p. p\<lparr>pk_payload := pk_payload p @ Pes_payload ?pes\<rparr>) (st_pkg ?s1)\<rparr>"
  have s2: "tsstream_ok ?s2 \<and> st_pkg ?s2 \<noteq> None \<and> st_cid ?s2 = st_cid s"
  proof (cases "st_pkg s")
    case None
    then show ?thesis by (simp add: tsstream_ok_def resetScan_def)
  next
    case (Some p)
    then show ?thesis using assms by (simp add: tsstream_ok_def)
  qed
  obtain p where p: "st_pkg ?s2 = Some p" using s2 by blast
  have "st_cid ?s2 = TS_STREAM_H264 \<or> st_cid ?s2 = TS_STREAM_H265" unfolding conjunct2 [OF conjunct2 [OF s2]] by (rule True)
  note splitH26xFrame_total [OF conjunct1 [OF s2] p this, of on]
  then obtain u t out where t: "splitH26xFrame on ?s2 = Some (u, t, out)" "tsstream_ok t" by blast
  let ?t = "t\<lparr>st_pkg := map_option (\<lambda>p. p\<lparr>pk_pts := Pts ?pes, pk_dts := Dts ?pes\<rparr>) (st_pkg t)\<rparr>"
  have t': "tsstream_ok ?t" using t(2) by (cases "st_pkg t") (simp_all add: tsstream_ok_def)
  have "doVideoPesPacket on s b = Some (if u then ?t else t, out)"
    unfolding doVideoPesPacket_def Let_def if_not_P [OF video] t(1) by simp
  then show ?thesis using t' t(2) by auto
qed (use assms in \<open>simp add: doVideoPesPacket_def\<close>)

lemma doAudio_ok: "tsstream_ok s \<Longrightarrow> tsstream_ok (fst (doAudioPesPacket on s b))"
  by (auto simp: doAudioPesPacket_def tsstream_ok_def Let_def stream_types split: option.split)

lemma gives_es_frames: "tsstream_ok s \<Longrightarrow> \<exists>t out. es_frames on s b = Some (t, out) \<and> tsstream_ok t"
proof -
  assume ok: "tsstream_ok s"
  obtain t out where t: "doAudioPesPacket on s b = (t, out)" by fastforce
  obtain t' out' where t': "doVideoPesPacket on s b = Some (t', out')" "tsstream_ok t'" using doVideo_total [OF ok] by blast
  have "tsstream_ok t" using doAudio_ok [OF ok, of on b] t by simp
  then show ?thesis using ok t t' by (simp add: es_frames_def Let_def)
qed

text \<open>A stream in the store is fine and its heap cell is the only thing a packet of its changes.\<close>

lemma gives_es_pes:
  assumes "tsstream_ok s" and "bs_ok bs"
  shows "\<exists>r t. es_pes pkg bs s = Some (r, t) \<and> tsstream_ok t"
proof -
  have ok: "tsstream_ok (s\<lparr>st_hdrCache := c, st_waitPUSI := w, st_pes_pkg := q\<rparr>)" for c w q
    using assms(1) by (simp add: tsstream_ok_def)
  have d: "tsstream_ok (dropPartial t)" for t by (simp add: dropPartial_def resetScan_ok)
  obtain e q t where 1: "pes_Decode ((st_pes_pkg s)\<lparr>Pes_payload := []\<rparr>) bs = Some (e, q, t)"
    using gives_pes_Decode [OF assms(2), of "(st_pes_pkg s)\<lparr>Pes_payload := []\<rparr>"] by (auto simp: gives_def)
  have "bs_ok (NewBitStream c)" for c by (simp add: bs_ok_def NewBitStream_def pos_def)
  then obtain e' q' t' where 2: "pes_Decode ((st_pes_pkg s)\<lparr>Pes_payload := []\<rparr>) (NewBitStream (st_hdrCache s @ RemainData bs)) = Some (e', q', t')"
    using gives_pes_Decode [of "NewBitStream (st_hdrCache s @ RemainData bs)" "(st_pes_pkg s)\<lparr>Pes_payload := []\<rparr>"]
    by (auto simp: gives_def)
  have "es_pes pkg bs s \<noteq> None" using 1 2 by (auto simp: es_pes_def Let_def split: option.split)
  moreover have "tsstream_ok t" if "es_pes pkg bs s = Some (r, t)" for r t
    using that assms(1) 1 2 d by (auto simp: es_pes_def Let_def tsstream_ok_def split: if_splits option.splits)
  ultimately show ?thesis by auto
qed

lemma gives_es_packet:
  assumes "tsstream_ok s" and "bs_ok bs"
  shows "\<exists>r t out. es_packet on pkg bs s = Some (r, t, out) \<and> tsstream_ok t"
proof -
  obtain b s1 where c: "checkContinuity pkg s = (b, s1)" by fastforce
  have s1: "tsstream_ok s1" using checkContinuity_ok [OF assms(1), of pkg] c by simp
  obtain r t where r: "es_pes pkg bs s1 = Some (r, t)" "tsstream_ok t" using gives_es_pes [OF s1 assms(2)] by blast
  show ?thesis
  proof (cases r)
    case (EsData start payload)
    then show ?thesis using c r gives_es_frames [OF r(2), of on start] s1 by (auto simp: es_packet_def)
  qed (use c r s1 in \<open>auto simp: es_packet_def\<close>)
qed

section \<open>The invariant\<close>

definition demux_inv :: "TSDemuxer \<Rightarrow> bool" where
  "demux_inv d \<longleftrightarrow> list_all tsstream_ok (dm_heap d) \<and>
     list_all (\<lambda>(pid, a). a < length (dm_heap d)) (dm_esStreams d) \<and>
     list_all (\<lambda>(pid, pg). list_all (\<lambda>(pid, a). a < length (dm_heap d)) (pg_streams pg)) (dm_programs d)"

abbreviation prog_ok :: "nat \<Rightarrow> tsprogram \<Rightarrow> bool" where
  "prog_ok n pg \<equiv> list_all (\<lambda>(pid, a). a < n) (pg_streams pg)"

lemma demux_inv_new: "demux_inv NewTSDemuxer" by (simp add: demux_inv_def NewTSDemuxer_def)

lemma list_all_update: "list_all P xs \<Longrightarrow> P (k, v) \<Longrightarrow> list_all P (AList.update k v xs)"
  by (induction xs) auto

lemma prog_ok_mono: "prog_ok n pg \<Longrightarrow> n \<le> m \<Longrightarrow> prog_ok m pg"
  by (auto simp: list_all_iff)

lemma add_programs_ok: "list_all (\<lambda>(pid, pg). prog_ok n pg) progs \<Longrightarrow> list_all (\<lambda>(pid, pg). prog_ok n pg) (add_programs pmts progs)"
  by (induction pmts progs rule: add_programs.induct) simp_all

lemma new_tsstream_ok: "tsstream_ok (new_tsstream typ)"
  by (simp add: tsstream_ok_def new_tsstream_def)

lemma add_es_ok:
  assumes "demux_inv d" and "prog_ok (length (dm_heap d)) pg" and "add_es pss pg d = (pg', d')"
  shows "demux_inv d' \<and> prog_ok (length (dm_heap d')) pg' \<and> length (dm_heap d) \<le> length (dm_heap d') \<and> dm_programs d' = dm_programs d"
  using assms
proof (induction pss pg d rule: add_es.induct)
  case (2 ps pss pg d)
  show ?case
  proof (cases "map_of (pg_streams pg) (Elementary_PID ps) = None")
    case True
    let ?d = "d\<lparr>dm_esStreams := AList.update (Elementary_PID ps) (length (dm_heap d)) (dm_esStreams d),
             dm_heap := dm_heap d @ [new_tsstream (StreamType ps)]\<rparr>"
    let ?pg = "pg\<lparr>pg_streams := pg_streams pg @ [(Elementary_PID ps, length (dm_heap d))]\<rparr>"
    have grow: "prog_ok (Suc (length (dm_heap d))) x" if "prog_ok (length (dm_heap d)) x" for x
      by (rule prog_ok_mono [OF that]) simp
    have "list_all (\<lambda>(pid, a). a < Suc (length (dm_heap d))) (dm_esStreams d)"
      using 2(3) by (auto simp: demux_inv_def list_all_iff)
    moreover have "list_all (\<lambda>(pid, pg). prog_ok (Suc (length (dm_heap d))) pg) (dm_programs d)"
      using 2(3) less_SucI by (fastforce simp: demux_inv_def list_all_iff)
    ultimately have "demux_inv ?d" using 2(3) by (simp add: demux_inv_def new_tsstream_ok list_all_update)
    moreover have "prog_ok (length (dm_heap ?d)) ?pg" using grow [OF 2(4)] by simp
    moreover have "add_es pss ?pg ?d = (pg', d')" using 2(5) True by simp
    ultimately show ?thesis using 2(1) [OF True] by fastforce
  next
    case False
    then have "add_es pss pg d = (pg', d')" using 2(5) by (simp only: add_es.simps if_False)
    then show ?thesis using 2(2) [OF False 2(3,4)] by blast
  qed
qed auto

lemma demux_inv_programs: "demux_inv d \<Longrightarrow> map_of (dm_programs d) pid = Some pg \<Longrightarrow> prog_ok (length (dm_heap d)) pg"
  using map_of_SomeD [of "dm_programs d" pid pg] by (fastforce simp: demux_inv_def list_all_iff)

lemma demux_pat_total:
  assumes "demux_inv d" and "bs_ok bs"
  shows "\<exists>e d' out. demux_pat pkg bs d = Some (e, d', out) \<and> demux_inv d'"
proof -
  let ?bs = "if Payload_unit_start_indicator pkg = 1 then SkipBits 8 bs else bs"
  have "bs_ok ?bs" using assms(2) by auto
  then obtain r bs' where r: "ReadSection 0x00 ?bs = Some (r, bs')"
    using gives_ReadSection [of ?bs "0x00"] unfolding gives_def by blast
  have "demux_inv (d\<lparr>dm_programs := add_programs pmts (dm_programs d)\<rparr>)" for pmts
    using assms(1) add_programs_ok by (auto simp: demux_inv_def)
  then show ?thesis using assms(1) r by (auto simp: demux_pat_def split: sum.split ts_payload.split)
qed

lemma demux_pmt_total:
  assumes "demux_inv d" and "bs_ok bs" and "prog_ok (length (dm_heap d)) prog"
  shows "\<exists>e d' out. demux_pmt prog pkg bs d = Some (e, d', out) \<and> demux_inv d'"
proof -
  let ?bs = "if Payload_unit_start_indicator pkg = 1 then SkipBits 8 bs else bs"
  have "bs_ok ?bs" using assms(2) by auto
  then obtain r bs' where r: "ReadSection 0x02 ?bs = Some (r, bs')"
    using gives_ReadSection [of ?bs "0x02"] unfolding gives_def by blast
  show ?thesis
  proof (cases "\<exists>pmt. r = Inr (PmtPayload pmt)")
    case True
    then obtain pmt where pmt: "r = Inr (PmtPayload pmt)" by blast
    obtain pg' d' where a: "add_es (Streams pmt) (prog\<lparr>pg_pn := pmt_Program_number pmt\<rparr>) d = (pg', d')" by fastforce
    have "demux_inv d'" "prog_ok (length (dm_heap d')) pg'" using add_es_ok [OF assms(1) _ a] assms(3) by simp_all
    then have "demux_inv (d'\<lparr>dm_programs := AList.update (ts_PID pkg) pg' (dm_programs d')\<rparr>)"
      by (auto simp: demux_inv_def intro!: list_all_update)
    then show ?thesis using r pmt a by (simp add: demux_pmt_def)
  next
    case False
    then show ?thesis using assms(1) r by (auto simp: demux_pmt_def split: sum.split ts_payload.split)
  qed
qed

lemma demux_es_total:
  assumes "demux_inv d" and "bs_ok bs" and a: "a < length (dm_heap d)"
  shows "\<exists>e d' out. demux_es a pkg bs d = Some (e, d', out) \<and> demux_inv d'"
proof -
  have "tsstream_ok (dm_heap d ! a)" using assms(1) a by (simp add: demux_inv_def list_all_length)
  then obtain r t out where r: "es_packet (dm_OnFrame d) pkg bs (dm_heap d ! a) = Some (r, t, out)" "tsstream_ok t"
    using gives_es_packet assms(2) by blast
  have "demux_inv (d\<lparr>dm_heap := (dm_heap d)[a := t]\<rparr>)"
    using assms(1) r(2) set_update_subset_insert [of "dm_heap d" a t] by (auto simp: demux_inv_def list_all_iff)
  then show ?thesis using r(1) a by (auto simp: demux_es_def idx_def Let_def split: sum.split option.split)
qed

lemma demux_packet_total:
  assumes "demux_inv d"
  shows "\<exists>e d' out. demux_packet p d = Some (e, d', out) \<and> demux_inv d'"
proof -
  have ok: "bs_ok (NewBitStream p)" by (rule bs_ok_New)
  obtain e pkg bs where h: "DecodeHeader zero_ts_packet (NewBitStream p) = Some (e, pkg, bs)" "bs_ok bs"
    using gives_DecodeHeader [OF ok, of zero_ts_packet] by (auto simp: gives_def)
  have "a < length (dm_heap d)" if "map_of (dm_esStreams d) (ts_PID pkg) = Some a" for a
    using assms map_of_SomeD [OF that] by (auto simp: demux_inv_def list_all_iff)
  then show ?thesis using assms h demux_pat_total demux_pmt_total demux_inv_programs demux_es_total
    by (auto simp: demux_packet_def split: option.split)
qed

lemma flush_stream_total: "tsstream_ok s \<Longrightarrow> \<exists>t out. flush_stream on s = Some (t, out) \<and> tsstream_ok t"
proof (cases "st_pkg s")
  case (Some p)
  assume ok: "tsstream_ok s"
  obtain n where "leadingAudLen (st_cid s) (pk_payload p) = Some n" "0 \<le> n" "n \<le> glen (pk_payload p)"
    using leadingAudLen_range by blast
  moreover have "tsstream_ok (s\<lparr>st_pkg := None\<rparr>)" using ok Some by (auto simp: tsstream_ok_def)
  ultimately show ?thesis using Some ok by (simp add: flush_stream_def slice_from_def)
qed (simp add: flush_stream_def)

lemma flush_streams_total:
  "list_all tsstream_ok heap \<Longrightarrow> list_all (\<lambda>a. a < length heap) as \<Longrightarrow>
    \<exists>heap' out. flush_streams on as heap = Some (heap', out) \<and> list_all tsstream_ok heap' \<and> length heap' = length heap"
proof (induction "on" as heap rule: flush_streams.induct)
  case (2 on a as heap)
  have a: "a < length heap" using 2(3) by simp
  then have "tsstream_ok (heap ! a)" using 2(2) by (simp add: list_all_length)
  then obtain t out where t: "flush_stream on (heap ! a) = Some (t, out)" "tsstream_ok t" using flush_stream_total by blast
  have "list_all tsstream_ok (heap[a := t])"
    using 2(2) t(2) set_update_subset_insert [of heap a t] by (auto simp: list_all_iff)
  moreover have "idx heap (int a) = Some (heap ! a)" using a by (simp add: idx_def)
  ultimately show ?case using 2(1) [of "heap ! a" "(t, out)" t out] 2(3) t(1) by auto
qed simp

text \<open>A map is ranged over in any order of its keys.\<close>

definition any_order :: "(u16 list \<Rightarrow> u16 list) \<Rightarrow> bool" where
  "any_order ord \<longleftrightarrow> (\<forall>keys. mset (ord keys) = mset keys)"

lemma any_order_set: "any_order ord \<Longrightarrow> set (ord keys) = set keys"
  using mset_eq_setD any_order_def by blast

lemma any_order_id: "any_order (\<lambda>keys. keys)" by (simp add: any_order_def)

lemma prog_addresses:
  assumes "any_order ord" and "prog_ok n pg"
  shows "list_all (\<lambda>a. a < n) (map (\<lambda>k. the (map_of (pg_streams pg) k)) (ord (map fst (pg_streams pg))))"
proof -
  have "the (map_of (pg_streams pg) k) < n" if k: "k \<in> set (map fst (pg_streams pg))" for k
  proof -
    obtain a where "map_of (pg_streams pg) k = Some a" using k map_of_eq_None_iff [of "pg_streams pg" k] by force
    then show ?thesis using assms(2) map_of_SomeD [of "pg_streams pg" k a] by (auto simp: list_all_iff)
  qed
  then show ?thesis using any_order_set [OF assms(1)] by (auto simp: list_all_iff)
qed

lemma flush_order_ok:
  assumes "any_order ord" and "demux_inv d"
  shows "list_all (\<lambda>a. a < length (dm_heap d)) (flush_order ord d)"
proof -
  have "list_all (\<lambda>a. a < length (dm_heap d)) (case map_of (dm_programs d) pid of None \<Rightarrow> []
     | Some pm \<Rightarrow> map (\<lambda>k. the (map_of (pg_streams pm) k)) (ord (map fst (pg_streams pm))))" for pid
    using prog_addresses [OF assms(1)] demux_inv_programs [OF assms(2)] by (simp split: option.split)
  then show ?thesis unfolding flush_order_def by (induction "ord (map fst (dm_programs d))") (simp_all add: list_all_iff)
qed

lemma demux_flush_total:
  assumes "any_order ord" and "demux_inv d"
  shows "\<exists>d' out. demux_flush ord d = Some (d', out) \<and> demux_inv d'"
proof -
  obtain heap out where f: "flush_streams (dm_OnFrame d) (flush_order ord d) (dm_heap d) = Some (heap, out)"
    "list_all tsstream_ok heap" "length heap = length (dm_heap d)"
    using flush_streams_total [of "dm_heap d" "flush_order ord d" "dm_OnFrame d"] flush_order_ok [OF assms] assms(2)
    by (auto simp: demux_inv_def)
  then have "demux_inv (d\<lparr>dm_heap := heap\<rparr>)" using assms(2) by (simp add: demux_inv_def)
  then show ?thesis using f(1) by (simp add: demux_flush_def)
qed

text \<open>The buffer holds no packet, one or two.\<close>

lemma find_sync_total: "length buf = i + n + 188 \<Longrightarrow> \<exists>j. find_sync n buf i = Some j \<and> i \<le> j \<and> j \<le> i + n"
proof (induction n arbitrary: i)
  case (Suc n)
  have "idx buf (int i) = Some (buf ! i)" "idx buf (int i + TS_PAKCET_SIZE) = Some (buf ! (i + 188))"
    using Suc.prems by (simp_all add: idx_def nat_add_distrib)
  then show ?case using Suc.IH [of "i + 1"] Suc.prems by auto
qed simp

definition probe_ok :: "bytes option \<times> read_error option \<times> reader \<Rightarrow> bool" where
  "probe_ok = (\<lambda>(b, e, r). (b = None \<longrightarrow> e \<noteq> None) \<and> pred_option (\<lambda>buf. length buf \<in> {188, 376}) b)"

lemma probe_loop_total: "length buf = 376 \<Longrightarrow> gives probe_ok (probe_loop buf r)"
proof (induction "length (rd_bytes r)" arbitrary: buf r rule: less_induct)
  case less
  obtain i where i: "find_sync 188 buf 0 = Some i" "i \<le> 188" using find_sync_total [of buf 0 188] less.prems by auto
  obtain q r1 where q: "ReadFull i r = (q, r1)" by fastforce
  consider "i = 0" | "0 < i" "i < 188" | "i = 188" using i(2) by linarith
  then show ?case
  proof cases
    case 1
    then show ?thesis using less.prems i by (subst probe_loop.simps) (simp add: probe_ok_def)
  next
    case 2
    then show ?thesis using less.prems i q ReadFull_Inr [of i r _ r1]
      by (subst probe_loop.simps) (auto simp: probe_ok_def split: sum.splits)
  next
    case 3
    show ?thesis
    proof (cases q)
      case (Inl e)
      then show ?thesis using less.prems i 3 q by (subst probe_loop.simps) (simp add: probe_ok_def)
    next
      case (Inr c)
      note l = ReadFull_Inr [OF q [unfolded Inr]]
      have "gives probe_ok (probe_loop (drop 188 buf @ c) r1)" using less.prems l 3 by (intro less.hyps) simp_all
      then show ?thesis using i 3 q Inr by (subst probe_loop.simps) simp
    qed
  qed
qed

lemma probe_total: "gives probe_ok (probe r)"
proof -
  obtain q r1 where q: "ReadFull 188 r = (q, r1)" by fastforce
  show ?thesis
  proof (cases q)
    case (Inr b)
    note l = ReadFull_Inr [OF q [unfolded Inr]]
    obtain q2 r2 where q2: "ReadFull 188 r1 = (q2, r2)" by fastforce
    have "gives probe_ok (probe_loop (b @ d) r2)" if "q2 = Inr d" for d
      using l ReadFull_Inr [OF q2 [unfolded that]] by (intro probe_loop_total) simp
    then show ?thesis using q Inr l q2 by (cases q2) (auto simp: probe_def idx_def probe_ok_def)
  qed (use q in \<open>simp add: probe_def probe_ok_def\<close>)
qed

lemma next_buffer_total:
  assumes "length buf \<in> {0, 188, 376}"
  shows "gives (\<lambda>n. \<forall>b e r. n = Inr (b, e, r) \<longrightarrow> length b \<in> {188, 376}) (next_buffer buf rerr r)"
proof (cases "glen buf > TS_PAKCET_SIZE")
  case True
  then show ?thesis using assms by (auto simp: next_buffer_def)
next
  case False
  obtain b e r' where "probe r = Some (b, e, r')" "probe_ok (b, e, r')"
    using probe_total [of r] by (auto simp: gives_def)
  then show ?thesis using False by (auto simp: next_buffer_def probe_ok_def split: option.split)
qed

lemma demux_loop_total:
  assumes "any_order ord" and "demux_inv d" and "length buf \<in> {0, 188, 376}"
  shows "\<exists>e d' out. demux_loop ord buf rerr r d = Some (e, d', out) \<and> demux_inv d'"
  using assms(2,3)
proof (induction "2 * length (rd_bytes r) + length buf" arbitrary: buf rerr r d rule: less_induct)
  case less
  obtain n where n: "next_buffer buf rerr r = Some n" "\<forall>b e r. n = Inr (b, e, r) \<longrightarrow> length b \<in> {188, 376}"
    using next_buffer_total [OF less.prems(2)] unfolding gives_def by blast
  show ?case
  proof (cases n)
    case (Inl e)
    then show ?thesis using n(1) demux_flush_total [OF assms(1) less.prems(1)] less.prems(1)
      by (subst demux_loop.simps) (auto split: option.split)
  next
    case (Inr x)
    obtain b rerr' r' where x: "x = (b, rerr', r')" by (cases x)
    have b: "length b \<in> {188, 376}" using n(2) Inr x by blast
    then have s: "slice_to b TS_PAKCET_SIZE = Some (take 188 b)" by (auto simp: slice_to_def)
    obtain e d1 out where p: "demux_packet (take 188 b) d = Some (e, d1, out)" "demux_inv d1"
      using demux_packet_total [OF less.prems(1)] by blast
    have "\<exists>e d' out. demux_loop ord b rerr' r' d1 = Some (e, d', out) \<and> demux_inv d'"
      using next_buffer_less [of buf rerr r b rerr' r'] n(1) Inr x p(2) b by (intro less.hyps) auto
    then show ?thesis using n(1) Inr x s p by (subst demux_loop.simps) (auto split: option.split)
  qed
qed

text \<open>What a demuxer can have become: its callbacks set and any inputs read.\<close>

inductive demux_reachable :: "TSDemuxer \<Rightarrow> bool" where
  new: "demux_reachable NewTSDemuxer"
| callbacks: "demux_reachable d \<Longrightarrow> demux_reachable (d\<lparr>dm_OnFrame := f, dm_OnTSPacket := p\<rparr>)"
| input: "demux_reachable d \<Longrightarrow> any_order ord \<Longrightarrow> demux_Input ord r d = Some (e, d', out) \<Longrightarrow> demux_reachable d'"

lemma demux_reachable_inv: "demux_reachable d \<Longrightarrow> demux_inv d"
proof (induction rule: demux_reachable.induct)
  case (input d ord r e d' out)
  then show ?case using demux_loop_total [of ord d "[]" None r] by (auto simp: demux_Input_def)
qed (simp_all add: demux_inv_new, simp add: demux_inv_def)


text \<open>
  C24: in any state that inputs can leave behind, \<open>Input\<close> returns on every reader, whatever bytes
  and whatever final error it gives and in whatever order the maps are ranged over: no index or
  slice leaves its array, no nil stream is followed and no loop runs on.
\<close>

theorem TS_demuxer_always_returns:
  assumes "demux_reachable d" and "any_order ord"
  shows "\<exists>e d' out. demux_Input ord r d = Some (e, d', out)"
  using demux_loop_total [OF assms(2) demux_reachable_inv [OF assms(1)], of "[]" None r] by (auto simp: demux_Input_def)

theorem TS_demuxer_always_returns_witness:
  "\<exists>e d' out. demux_Input rev \<lparr>rd_bytes = replicate 400 0x47, rd_end = EOF\<rparr> (NewTSDemuxer\<lparr>dm_OnFrame := True, dm_OnTSPacket := False\<rparr>)
     = Some (e, d', out)"
proof -
  have "any_order rev" by (simp add: any_order_def)
  then show ?thesis by (intro TS_demuxer_always_returns demux_reachable.callbacks demux_reachable.new)
qed

end
