(* ===== verification/TsTransport.thy ===== *)
theory TsTransport
  imports TsDemuxer
begin

text \<open>
  The TS muxer and demuxer together: frames of audio streams written in any order come out of
  the demuxer unchanged, each stream's in its order.  Between the two stands an abstract channel
  that keeps one frame per stream; the demuxer on the muxer's packets refines it.
\<close>

section \<open>The abstract channel\<close>

record frame_write =
  fw_stream :: nat
  fw_data :: bytes
  fw_pts :: u64
  fw_dts :: u64

type_synonym pending = "nat \<Rightarrow> frame_write option"

text \<open>A frame waits until the next one of its stream, or the end.\<close>

definition channel_out :: "frame_write option \<Rightarrow> frame_write list" where
  "channel_out p = (case p of None \<Rightarrow> [] | Some v \<Rightarrow> [v])"

fun channel :: "frame_write list \<Rightarrow> pending \<Rightarrow> pending \<times> frame_write list" where
  "channel [] pend = (pend, [])"
| "channel (w # ws) pend =
     (let (pend', out) = channel ws (pend(fw_stream w := Some w)) in (pend', channel_out (pend (fw_stream w)) @ out))"

definition of_stream :: "nat \<Rightarrow> frame_write list \<Rightarrow> frame_write list" where
  "of_stream i ws = filter (\<lambda>w. fw_stream w = i) ws"

lemma of_stream_simps [simp]:
  "of_stream i [] = []" "of_stream i (xs @ ys) = of_stream i xs @ of_stream i ys"
  "of_stream i (w # ws) = (if fw_stream w = i then w # of_stream i ws else of_stream i ws)"
  by (simp_all add: of_stream_def)

definition pending_ok :: "pending \<Rightarrow> bool" where
  "pending_ok pend \<longleftrightarrow> (\<forall>i w. pend i = Some w \<longrightarrow> fw_stream w = i)"

lemma channel_keeps_order:
  "pending_ok pend \<Longrightarrow> channel ws pend = (pend', out) \<Longrightarrow>
    pending_ok pend' \<and> of_stream i out @ channel_out (pend' i) = channel_out (pend i) @ of_stream i ws"
proof (induction ws arbitrary: pend out)
  case (Cons w ws)
  obtain out' where c: "channel ws (pend(fw_stream w := Some w)) = (pend', out')" "out = channel_out (pend (fw_stream w)) @ out'"
    using Cons.prems(2) by (auto split: prod.splits)
  have "pending_ok (pend(fw_stream w := Some w))" using Cons.prems(1) by (simp add: pending_ok_def)
  note ih = Cons.IH [OF this c(1)]
  have "of_stream i (channel_out (pend (fw_stream w))) = (if fw_stream w = i then channel_out (pend i) else [])"
    using Cons.prems(1) by (auto simp: channel_out_def pending_ok_def split: option.split)
  then show ?case using ih c(2) by (auto simp: channel_out_def)
qed simp

section \<open>Packets fed one by one\<close>

fun feed_packets :: "bytes list \<Rightarrow> TSDemuxer \<Rightarrow> demux_result" where
  "feed_packets [] d = Some (None, d, [])"
| "feed_packets (p # ps) d = do {
     (e, d, out) \<leftarrow> demux_packet p d;
     if e \<noteq> None then Some (e, d, out)
     else do {
       (e, d, out') \<leftarrow> feed_packets ps d;
       Some (e, d, out @ out')
     }
   }"

lemma feed_ConsE:
  assumes "feed_packets (p # ps) d = Some (None, d2, out)"
  obtains d1 out1 out2 where "demux_packet p d = Some (None, d1, out1)" "feed_packets ps d1 = Some (None, d2, out2)" "out = out1 @ out2"
  using assms by (auto simp: Option.bind_eq_Some_conv split: if_splits)

lemma feed_append:
  "feed_packets ps d = Some (None, d1, out1) \<Longrightarrow> feed_packets qs d1 = Some (e, d2, out2) \<Longrightarrow>
    feed_packets (ps @ qs) d = Some (e, d2, out1 @ out2)"
proof (induction ps arbitrary: d out1)
  case (Cons p ps)
  obtain d' o1 o2 where p: "demux_packet p d = Some (None, d', o1)" "feed_packets ps d' = Some (None, d1, o2)" "out1 = o1 @ o2"
    using Cons.prems(1) by (rule feed_ConsE)
  show ?case using p(1,3) Cons.IH [OF p(2) Cons.prems(2)] by simp
qed simp

text \<open>A packet the demuxer decodes starts with the sync byte.\<close>

lemma demux_packet_sync:
  assumes "length p = 188" and "demux_packet p d = Some (None, d', out)"
  shows "p ! 0 = 0x47"
proof -
  obtain b bs where p: "p = b # bs" using assms(1) by (cases p) auto
  have "Uint8 8 (NewBitStream p) = Some (p ! 0, cur 0 p 8)"
    using read_byte_cur(1) [of 0 p "p ! 0" "bits_of_bytes bs" 0] by (simp add: p bits_of_bytes_Cons NewBitStream_cur)
  then show ?thesis using assms(2) by (auto simp: demux_packet_def DecodeHeader_def Option.bind_eq_Some_conv split: if_splits)
qed

definition end_of_input :: "(u16 list \<Rightarrow> u16 list) \<Rightarrow> bytes \<Rightarrow> TSDemuxer
    \<Rightarrow> ((mpeg2_error + read_error) option \<times> TSDemuxer \<times> ts_event list) option" where
  "end_of_input ord tail d = (if tail = [] then do { (d, out) \<leftarrow> demux_flush ord d; Some (None, d, out) }
     else Some (Some (Inr ErrUnexpectedEOF), d, []))"

lemma probe_packet: "length p = 188 \<Longrightarrow> p ! 0 = 0x47 \<Longrightarrow>
    probe \<lparr>rd_bytes = p @ rest, rd_end = e\<rparr> = Some (Some p, None, \<lparr>rd_bytes = rest, rd_end = e\<rparr>)"
  by (simp add: probe_def ReadFull_def idx_def)

lemma demux_loop_packets:
  assumes "feed_packets ps d = Some (None, d1, out1)" and "\<forall>p \<in> set ps. length p = 188" and "length tail < 188"
    and "length buf \<le> 188" and "end_of_input ord tail d1 = Some (e, d2, out2)"
  shows "demux_loop ord buf None \<lparr>rd_bytes = concat ps @ tail, rd_end = EOF\<rparr> d = Some (e, d2, out1 @ out2)"
  using assms(1,2,4)
proof (induction ps arbitrary: d buf out1)
  case Nil
  have "next_buffer buf None \<lparr>rd_bytes = tail, rd_end = EOF\<rparr> =
      Some (Inl (if tail = [] then None else Some ErrUnexpectedEOF))"
    using Nil.prems(3) assms(3) by (auto simp: next_buffer_def probe_def ReadFull_def)
  then show ?case using Nil.prems(1) assms(5)
    by (subst demux_loop.simps) (auto simp: end_of_input_def Option.bind_eq_Some_conv split: if_splits)
next
  case (Cons p ps)
  obtain d' out' out'' where p: "demux_packet p d = Some (None, d', out')" "feed_packets ps d' = Some (None, d1, out'')"
    "out1 = out' @ out''"
    using Cons.prems(1) by (rule feed_ConsE)
  have len: "length p = 188" using Cons.prems(2) by simp
  have "next_buffer buf None \<lparr>rd_bytes = p @ (concat ps @ tail), rd_end = EOF\<rparr> =
      Some (Inr (p, None, \<lparr>rd_bytes = concat ps @ tail, rd_end = EOF\<rparr>))"
    using Cons.prems(3) probe_packet [OF len demux_packet_sync [OF len p(1)], of "concat ps @ tail" EOF]
    by (simp add: next_buffer_def)
  moreover have "slice_to p TS_PAKCET_SIZE = Some p" using len by (simp add: slice_to_def)
  moreover have "demux_loop ord p None \<lparr>rd_bytes = concat ps @ tail, rd_end = EOF\<rparr> d' = Some (e, d2, out'' @ out2)"
    using p(2) Cons.prems(2) len by (intro Cons.IH) simp_all
  ultimately show ?case using p by (subst demux_loop.simps) simp
qed

section \<open>The tables are read\<close>

lemma demux_pat_packet:
  assumes "pat_ready pat pmt" and "\<not> dm_OnTSPacket d"
  shows "demux_packet (pat_packet pat) d = Some (None, d\<lparr>dm_programs :=
    add_programs [\<lparr>Program_number = tp_pm pmt, pair_PID = tp_pid pmt\<rparr>] (dm_programs d)\<rparr>, [])"
proof -
  let ?sec = "pat_bits (mux_Pat pat)" and ?p = "pat_packet pat"
  have r: "ta_pmts pat = [pmt]" "fits 4 (ta_cc pat)" using assms(1) by (simp_all add: pat_ready_def)
  have "length ?sec = 8 * 16" by (simp add: length_pat_bits length_Pmts_mux r(1))
  note T = table_packet_decoded [of 0 "ta_cc pat" ?sec 16, folded pat_packet_def, OF _ _ r(2) this]
  have "ts_PID (table_hdr 0 (ta_cc pat)) = TS_PID_PAT" "Payload_unit_start_indicator (table_hdr 0 (ta_cc pat)) = 1"
    by (simp_all add: table_hdr_def TS_PID_PAT_def)
  moreover have "DecodeHeader zero_ts_packet (NewBitStream ?p) = Some (None, table_hdr 0 (ta_cc pat), cur 0 ?p 32)"
    "SkipBits 8 (cur 0 ?p 32) = cur 0 ?p (8 * 5)" "bits_of_bytes (drop 5 ?p) = ?sec @ bits_of_bytes (replicate (183 - 16) 0xff)"
    using T(2-4) by (simp_all add: TS_PID_Nil_def)
  moreover from this(3) obtain bs where "ReadSection 0 (cur 0 ?p (8 * 5)) = Some (Inr (PatPayload (pat_received (mux_Pat pat))), bs)"
    using ReadSection_pat mux_Pat_ok [OF assms(1)] by blast
  moreover have "Pmts (pat_received (mux_Pat pat)) = [\<lparr>Program_number = tp_pm pmt, pair_PID = tp_pid pmt\<rparr>]"
    by (simp add: pat_received_def mux_Pat_def r(1))
  ultimately show ?thesis using assms(2) by (simp add: demux_packet_def demux_pat_def show_packet_def)
qed

abbreviation es_pairs :: "pes_stream list \<Rightarrow> StreamPair list" where
  "es_pairs \<equiv> map (\<lambda>s. \<lparr>StreamType = word_of_int (ps_streamtype s), Elementary_PID = ps_pid s, ES_Info_Length = 0\<rparr>)"

lemma add_es_flags: "add_es pss prog d = (prog', d') \<Longrightarrow> dm_OnTSPacket d' = dm_OnTSPacket d \<and> dm_OnFrame d' = dm_OnFrame d"
  by (induction pss prog d rule: add_es.induct) (auto split: if_splits)

lemma demux_pmt_packet:
  assumes pmt: "pmt_ready pmt" and prog: "map_of (dm_programs d) (tp_pid pmt) = Some prog" and "\<not> dm_OnTSPacket d"
    and es: "add_es (es_pairs (tp_streams pmt)) (prog\<lparr>pg_pn := tp_pm pmt\<rparr>) d = (prog', d')"
  shows "demux_packet (pmt_packet pmt) d = Some (None, d'\<lparr>dm_programs := AList.update (tp_pid pmt) prog' (dm_programs d')\<rparr>, [])"
proof -
  let ?sec = "pmt_bits (mux_Pmt pmt)" and ?p = "pmt_packet pmt" and ?h = "table_hdr (tp_pid pmt) (tp_cc pmt)"
  let ?n = "16 + 5 * length (tp_streams pmt)"
  have r: "fits 13 (tp_pid pmt)" "tp_pid pmt \<noteq> TS_PID_Nil" "fits 4 (tp_cc pmt)" "tp_pid pmt \<noteq> 0" "?n \<le> 183"
    using pmt by (simp_all add: pmt_ready_def)
  have "length ?sec = 8 * ?n" by (simp add: length_pmt_bits length_Streams_mux)
  note T = table_packet_decoded [OF r(1-3) this r(5), folded pmt_packet_def]
  have "ts_PID ?h = tp_pid pmt" "Payload_unit_start_indicator ?h = 1" by (simp_all add: table_hdr_def)
  moreover obtain bs where "ReadSection 2 (cur 0 ?p (8 * 5)) = Some (Inr (PmtPayload (pmt_received (mux_Pmt pmt))), bs)"
    using ReadSection_pmt [OF T(4)] mux_Pmt_ok [OF pmt] by blast
  moreover have "Streams (pmt_received (mux_Pmt pmt)) = es_pairs (tp_streams pmt)"
    "pmt_Program_number (pmt_received (mux_Pmt pmt)) = tp_pm pmt"
    by (simp_all add: pmt_received_def mux_Pmt_def)
  moreover have "\<not> dm_OnTSPacket d'" using add_es_flags [OF es] assms(3) by simp
  ultimately show ?thesis using T(2,3) r(2,4) prog es
    by (simp add: demux_packet_def demux_pmt_def show_packet_def TS_PID_PAT_def)
qed

lemma update_fresh: "k \<notin> fst ` set xs \<Longrightarrow> AList.update k v xs = xs @ [(k, v)]"
  by (induction xs) auto

lemma add_es_known: "ps_pid ` set ss \<subseteq> fst ` set (pg_streams prog) \<Longrightarrow> add_es (es_pairs ss) prog d = (prog, d)"
  by (induction ss) (auto simp: map_of_eq_None_iff)

lemma add_es_fresh:
  assumes "distinct (map ps_pid ss)" and "ps_pid ` set ss \<inter> fst ` set (pg_streams prog) = {}" and "dm_esStreams d = pg_streams prog"
  shows "\<exists>prog' d'. add_es (es_pairs ss) prog d = (prog', d') \<and>
    pg_streams prog' = pg_streams prog @ zip (map ps_pid ss) [length (dm_heap d)..<length (dm_heap d) + length ss] \<and>
    dm_esStreams d' = pg_streams prog' \<and>
    dm_heap d' = dm_heap d @ map (\<lambda>s. new_tsstream (word_of_int (ps_streamtype s))) ss \<and>
    dm_programs d' = dm_programs d \<and> dm_OnFrame d' = dm_OnFrame d \<and> dm_OnTSPacket d' = dm_OnTSPacket d"
  using assms
proof (induction ss arbitrary: prog d)
  case (Cons s ss)
  let ?prog = "prog\<lparr>pg_streams := pg_streams prog @ [(ps_pid s, length (dm_heap d))]\<rparr>"
  let ?d = "d\<lparr>dm_esStreams := dm_esStreams d @ [(ps_pid s, length (dm_heap d))],
             dm_heap := dm_heap d @ [new_tsstream (word_of_int (ps_streamtype s))]\<rparr>"
  have new: "ps_pid s \<notin> fst ` set (pg_streams prog)" using Cons.prems(2) by auto
  have "add_es (es_pairs (s # ss)) prog d = add_es (es_pairs ss) ?prog ?d"
    using new Cons.prems(3) by (simp add: map_of_eq_None_iff update_fresh)
  moreover have "\<exists>prog' d'. add_es (es_pairs ss) ?prog ?d = (prog', d') \<and>
    pg_streams prog' = pg_streams ?prog @ zip (map ps_pid ss) [length (dm_heap ?d)..<length (dm_heap ?d) + length ss] \<and>
    dm_esStreams d' = pg_streams prog' \<and>
    dm_heap d' = dm_heap ?d @ map (\<lambda>s. new_tsstream (word_of_int (ps_streamtype s))) ss \<and>
    dm_programs d' = dm_programs ?d \<and> dm_OnFrame d' = dm_OnFrame ?d \<and> dm_OnTSPacket d' = dm_OnTSPacket ?d"
    using Cons.prems by (intro Cons.IH) auto
  moreover have "zip (map ps_pid (s # ss)) [length (dm_heap d)..<length (dm_heap d) + length (s # ss)] =
      (ps_pid s, length (dm_heap d)) # zip (map ps_pid ss) [Suc (length (dm_heap d))..<Suc (length (dm_heap d)) + length ss]"
    by (simp add: upt_rec)
  ultimately show ?case by simp
qed simp

section \<open>The packets of a frame are read\<close>

abbreviation audio_cids :: "TS_STREAM_TYPE set" where
  "audio_cids \<equiv> {TS_STREAM_AAC, TS_STREAM_AUDIO_MPEG1, TS_STREAM_AUDIO_MPEG2}"

lemma audio_cid [simp]: "cid \<in> audio_cids \<Longrightarrow> findPESIDByStreamType cid = PES_STREAM_AUDIO"
  by (auto simp: findPESIDByStreamType_def)

text \<open>A stream inside a frame: what has arrived of it, and the counter of the next packet.\<close>

definition inside :: "tsstream \<Rightarrow> byte \<Rightarrow> bytes \<Rightarrow> u64 \<Rightarrow> u64 \<Rightarrow> bool" where
  "inside t cc acc pts dts \<longleftrightarrow> st_cid t \<in> audio_cids \<and> st_hdrCache t = [] \<and> \<not> st_waitPUSI t \<and> st_ccValid t \<and>
     (st_cc t + 1) mod 16 = cc \<and> st_pkg t = Some \<lparr>pk_payload = acc, pk_pts = pts, pk_dts = dts\<rparr> \<and>
     Pts (st_pes_pkg t) = pts \<and> Dts (st_pes_pkg t) = dts"

lemma next_counter: "(cc + 1) mod 16 \<noteq> (cc :: byte)"
proof
  assume "(cc + 1) mod 16 = cc"
  then have "uint ((cc + 1) mod 16) = uint cc" by simp
  then have m: "(uint cc + 1) mod 16 = uint cc"
    by (simp only: uint_mod uint_word_ariths) (simp add: mod_mod_cancel)
  then have "uint cc < 16" by presburger
  then show False using m by presburger
qed

lemma es_packet_next:
  assumes "inside t cc acc pts dts" and "acc \<noteq> []" and "Continuity_counter hdr = cc" and "Payload_unit_start_indicator hdr = 0"
    and "Adaptation_field_control hdr AND 1 = 1" and "drop k p \<noteq> []"
  shows "\<exists>t' pl. es_packet on hdr (cur 0 p (8 * k)) t = Some (Inr (Some pl), t', []) \<and>
    inside t' ((cc + 1) mod 16) (acc @ drop k p) pts dts \<and> st_cid t' = st_cid t"
proof -
  have "checkContinuity hdr t = (True, t\<lparr>st_cc := cc, st_ccValid := True\<rparr>)"
    using assms(1,3,5) next_counter [of "st_cc t"] by (auto simp: checkContinuity_def inside_def Let_def)
  then show ?thesis using assms
    by (auto simp: es_packet_def es_pes_def RemainData_cur es_frames_def doAudioPesPacket_def inside_def Let_def)
qed

text \<open>What the stream keeps of a frame, and the frame as the callback sees it.\<close>

definition fw_ok :: "frame_write \<Rightarrow> bool" where
  "fw_ok w \<longleftrightarrow> fw_data w \<noteq> [] \<and> unat (fw_pts w) * 90 < 2 ^ 33 \<and> unat (fw_dts w) * 90 < 2 ^ 33"

definition kept :: "frame_write \<Rightarrow> pakcet_t" where
  "kept w = \<lparr>pk_payload = fw_data w, pk_pts = fw_pts w * 90, pk_dts = fw_dts w * 90\<rparr>"

definition frame_event :: "(nat \<Rightarrow> TS_STREAM_TYPE) \<Rightarrow> frame_write \<Rightarrow> ts_event" where
  "frame_event cid w = TsFrame (cid (fw_stream w)) (fw_data w) (fw_pts w) (fw_dts w)"

lemma clock_ms:
  assumes "unat (t :: u64) * 90 < 2 ^ 33" shows "t * 90 div 90 = t" and "fits 33 (t * 90)"
proof -
  have u: "unat (t * 90) = unat t * 90" using assms iffD1 [OF unat_mult_lem, of t 90] by simp
  have "unat (t * 90 div 90) = unat t" using u by (simp add: unat_div)
  then show "t * 90 div 90 = t" by (simp only: word_unat_eq_iff)
  show "fits 33 (t * 90)" using u assms by (intro less_fits) simp
qed

text \<open>A stream between frames: what waits in it is the channel's frame.\<close>

definition between :: "frame_write option \<Rightarrow> byte \<Rightarrow> tsstream \<Rightarrow> bool" where
  "between pend cc t \<longleftrightarrow> st_cid t \<in> audio_cids \<and> st_hdrCache t = [] \<and>
     (st_ccValid t \<longrightarrow> (st_cc t + 1) mod 16 = cc) \<and> st_pkg t = map_option kept pend \<and> pred_option fw_ok pend"

lemma inside_between:
  "fw_ok w \<Longrightarrow> inside t cc (fw_data w) (fw_pts w * 90) (fw_dts w * 90) \<Longrightarrow> between (Some w) cc t"
  by (simp add: inside_def between_def kept_def)

lemma es_packet_first:
  assumes t: "between pend cc t" and hdr: "Continuity_counter hdr = cc" "Payload_unit_start_indicator hdr = 1"
      "Adaptation_field_control hdr AND 1 = 1"
    and p: "drop k p = pes_head (frame_pes cid [] n pts dts idr) @ d" "d \<noteq> []" "length d \<le> n"
    and fit: "fits 33 pts" "fits 33 dts"
  shows "\<exists>t' pl. es_packet True hdr (cur 0 p (8 * k)) t = Some (Inr (Some pl), t',
      case pend of None \<Rightarrow> [] | Some v \<Rightarrow> [TsFrame (st_cid t) (fw_data v) (fw_pts v) (fw_dts v)]) \<and>
    inside t' ((cc + 1) mod 16) d pts dts \<and> st_cid t' = st_cid t"
proof -
  let ?old = "(st_pes_pkg t)\<lparr>Pes_payload := []\<rparr>"
  let ?q = "pes_received ?old (frame_pes cid [] n pts dts idr) d"
  obtain e bs where dec: "pes_Decode ?old (cur 0 p (8 * k)) = Some (e, ?q, bs)" "e = None \<or> e = Some ErrNeedMore"
    using frame_pes_read [OF p(1) fit, where ?pkg0.0 = ?old and m = 0] p(3) by auto
  have cont: "checkContinuity hdr t = (True, t\<lparr>st_cc := cc, st_ccValid := True\<rparr>)"
    using t hdr next_counter [of "st_cc t"] by (auto simp: checkContinuity_def between_def Let_def)
  let ?t1 = "t\<lparr>st_hdrCache := [], st_waitPUSI := False, st_pes_pkg := ?q, st_cc := cc, st_ccValid := True\<rparr>"
  have "es_pes hdr (cur 0 p (8 * k)) (t\<lparr>st_cc := cc, st_ccValid := True\<rparr>) = Some (EsData 1 (PesPayload ?q), ?t1)"
    using dec p(2) hdr(2) by (auto simp: es_pes_def Let_def)
  moreover have "st_cid t \<in> audio_cids" using t by (simp add: between_def)
  moreover have "fw_data v \<noteq> [] \<and> fw_pts v * 90 div 90 = fw_pts v \<and> fw_dts v * 90 div 90 = fw_dts v" if "pend = Some v" for v
    using t that clock_ms(1) by (auto simp: between_def fw_ok_def)
  ultimately show ?thesis using cont t
    by (cases pend) (auto simp: es_packet_def es_frames_def doAudioPesPacket_def between_def kept_def inside_def Let_def newPacket_t_def)
qed

text \<open>A pid that the demuxer knows as stream number \<open>a\<close>.\<close>

definition es_pid :: "TSDemuxer \<Rightarrow> u16 \<Rightarrow> nat \<Rightarrow> bool" where
  "es_pid d pid a \<longleftrightarrow> pid \<noteq> 0 \<and> pid \<noteq> TS_PID_Nil \<and> map_of (dm_programs d) pid = None \<and>
     map_of (dm_esStreams d) pid = Some a \<and> a < length (dm_heap d) \<and> \<not> dm_OnTSPacket d"

lemma es_pid_heap [simp]: "es_pid (d\<lparr>dm_heap := (dm_heap d)[b := t]\<rparr>) pid a = es_pid d pid a"
  by (simp add: es_pid_def)

lemma demux_packet_es:
  assumes "DecodeHeader zero_ts_packet (NewBitStream p) = Some (None, hdr, bs)" and "es_pid d (ts_PID hdr) a"
    and "es_packet (dm_OnFrame d) hdr bs (dm_heap d ! a) = Some (Inr (Some pl), t, out)"
  shows "demux_packet p d = Some (None, d\<lparr>dm_heap := (dm_heap d)[a := t]\<rparr>, out)"
  using assms by (simp add: demux_packet_def demux_es_def es_pid_def idx_def show_packet_def TS_PID_PAT_def)

lemma feed_rest:
  "carries pid cc False ps rest \<Longrightarrow> es_pid d pid a \<Longrightarrow> inside (dm_heap d ! a) cc acc pts dts \<Longrightarrow> acc \<noteq> [] \<Longrightarrow>
    \<exists>t. feed_packets ps d = Some (None, d\<lparr>dm_heap := (dm_heap d)[a := t]\<rparr>, []) \<and>
      inside t (cc_after cc ps) (acc @ rest) pts dts \<and> st_cid t = st_cid (dm_heap d ! a)"
proof (induction ps arbitrary: cc rest d acc)
  case Nil
  then show ?case by (intro exI [of _ "dm_heap d ! a"]) (simp add: carries.simps)
next
  case (Cons p ps)
  obtain hdr k rest' where p: "DecodeHeader zero_ts_packet (NewBitStream p) = Some (None, hdr, cur 0 p (8 * k))"
    "ts_PID hdr = pid" "Continuity_counter hdr = cc" "Payload_unit_start_indicator hdr = 0"
    "Adaptation_field_control hdr AND 1 = 1" "drop k p \<noteq> []" "rest = drop k p @ rest'"
    "carries pid ((cc + 1) mod 16) False ps rest'"
    using Cons.prems(1) by (auto simp: carries.simps)
  obtain t pl where t: "es_packet (dm_OnFrame d) hdr (cur 0 p (8 * k)) (dm_heap d ! a) = Some (Inr (Some pl), t, [])"
    "inside t ((cc + 1) mod 16) (acc @ drop k p) pts dts" "st_cid t = st_cid (dm_heap d ! a)"
    using es_packet_next [OF Cons.prems(3,4) p(3-6)] by blast
  let ?d = "d\<lparr>dm_heap := (dm_heap d)[a := t]\<rparr>"
  have a: "a < length (dm_heap d)" using Cons.prems(2) by (simp add: es_pid_def)
  have 1: "demux_packet p d = Some (None, ?d, [])"
    by (rule demux_packet_es [OF p(1) _ t(1)]) (simp add: p(2) Cons.prems(2))
  have "inside (dm_heap ?d ! a) ((cc + 1) mod 16) (acc @ drop k p) pts dts" using a t(2) by simp
  moreover have "es_pid ?d pid a" using Cons.prems(2) by simp
  ultimately obtain t' where t': "feed_packets ps ?d = Some (None, ?d\<lparr>dm_heap := (dm_heap ?d)[a := t']\<rparr>, [])"
    "inside t' (cc_after ((cc + 1) mod 16) ps) ((acc @ drop k p) @ rest') pts dts" "st_cid t' = st_cid (dm_heap ?d ! a)"
    using Cons.IH [OF p(8), of ?d "acc @ drop k p"] Cons.prems(4) by blast
  show ?case using 1 t' t(3) a p(7) by (intro exI [of _ t']) simp
qed

lemma carries_ConsE:
  assumes "carries pid cc first (p # ps) body"
  obtains hdr k rest where "DecodeHeader zero_ts_packet (NewBitStream p) = Some (None, hdr, cur 0 p (8 * k))"
    "ts_PID hdr = pid" "Continuity_counter hdr = cc" "Payload_unit_start_indicator hdr = (if first then 1 else 0)"
    "Adaptation_field_control hdr AND 1 = 1" "first \<longrightarrow> min 20 (length body) \<le> length (drop k p)" "body = drop k p @ rest"
    "carries pid ((cc + 1) mod 16) False ps rest"
  using assms unfolding carries.simps by blast

lemma feed_frame:
  assumes c: "carries pid cc True outs (pes_head (frame_pes cid [] (length (fw_data w)) (fw_pts w * 90) (fw_dts w * 90) idr) @ fw_data w)"
    and d: "es_pid d pid a" "dm_OnFrame d" and t: "between pend cc (dm_heap d ! a)" and w: "fw_ok w"
  shows "\<exists>t. feed_packets outs d = Some (None, d\<lparr>dm_heap := (dm_heap d)[a := t]\<rparr>,
      case pend of None \<Rightarrow> [] | Some v \<Rightarrow> [TsFrame (st_cid (dm_heap d ! a)) (fw_data v) (fw_pts v) (fw_dts v)]) \<and>
    between (Some w) (cc_after cc outs) t \<and> st_cid t = st_cid (dm_heap d ! a)"
proof -
  let ?h = "pes_head (frame_pes cid [] (length (fw_data w)) (fw_pts w * 90) (fw_dts w * 90) idr)"
  obtain p ps where outs: "outs = p # ps" using c by (cases outs) (auto simp: carries.simps)
  obtain hdr k rest where p: "DecodeHeader zero_ts_packet (NewBitStream p) = Some (None, hdr, cur 0 p (8 * k))"
    "ts_PID hdr = pid" "Continuity_counter hdr = cc" "Payload_unit_start_indicator hdr = (if True then 1 else 0)"
    "Adaptation_field_control hdr AND 1 = 1" "True \<longrightarrow> min 20 (length (?h @ fw_data w)) \<le> length (drop k p)" "?h @ fw_data w = drop k p @ rest"
    "carries pid ((cc + 1) mod 16) False ps rest"
    using c unfolding outs by (rule carries_ConsE)
  have h: "length ?h = 19" by (rule pes_head_frame(1))
  have ok: "fw_data w \<noteq> []" "fits 33 (fw_pts w * 90)" "fits 33 (fw_dts w * 90)"
    using w clock_ms(2) by (simp_all add: fw_ok_def)
  have "20 \<le> length (drop k p)" using p(6) h ok(1) by (cases "fw_data w") simp_all
  moreover obtain us where us: "(?h = drop k p @ us \<and> us @ fw_data w = rest) \<or> (?h @ us = drop k p \<and> fw_data w = us @ rest)"
    using p(7) unfolding append_eq_append_conv2 by blast
  moreover have "length (drop k p) \<le> length ?h" if "?h = drop k p @ us" using arg_cong [OF that, of length] by simp
  ultimately have x0: "drop k p = ?h @ us" "fw_data w = us @ rest" using h by auto
  have "us \<noteq> []" using arg_cong [OF x0(1), of length] h \<open>20 \<le> length (drop k p)\<close> by auto
  then obtain x where x: "drop k p = ?h @ x" "fw_data w = x @ rest" "x \<noteq> []" using x0 by blast
  have "length x \<le> length (fw_data w)" using x(2) by simp
  note es_packet_first [OF t p(3) p(4) [simplified] p(5) x(1,3) this ok(2,3)]
  then obtain t1 pl where t1: "es_packet (dm_OnFrame d) hdr (cur 0 p (8 * k)) (dm_heap d ! a) = Some (Inr (Some pl), t1,
      case pend of None \<Rightarrow> [] | Some v \<Rightarrow> [TsFrame (st_cid (dm_heap d ! a)) (fw_data v) (fw_pts v) (fw_dts v)])"
    "inside t1 ((cc + 1) mod 16) x (fw_pts w * 90) (fw_dts w * 90)" "st_cid t1 = st_cid (dm_heap d ! a)"
    using d(2) by auto
  let ?d = "d\<lparr>dm_heap := (dm_heap d)[a := t1]\<rparr>"
  have a: "a < length (dm_heap d)" using d(1) by (simp add: es_pid_def)
  note 1 = demux_packet_es [OF p(1) _ t1(1), unfolded p(2), OF d(1)]
  have "inside (dm_heap ?d ! a) ((cc + 1) mod 16) x (fw_pts w * 90) (fw_dts w * 90)" "es_pid ?d pid a"
    using a t1(2) d(1) by simp_all
  from feed_rest [OF p(8) this(2,1) x(3)] obtain t' where t': "feed_packets ps ?d = Some (None, ?d\<lparr>dm_heap := (dm_heap ?d)[a := t']\<rparr>, [])"
    "inside t' (cc_after ((cc + 1) mod 16) ps) (x @ rest) (fw_pts w * 90) (fw_dts w * 90)" "st_cid t' = st_cid (dm_heap ?d ! a)"
    by blast
  have "between (Some w) (cc_after cc outs) t'" using t'(2) by (simp add: outs x(2) [symmetric] inside_between [OF w])
  then show ?thesis using 1 t'(1,3) t1(3) a by (intro exI [of _ t']) (simp add: outs)
qed

section \<open>Muxer and demuxer in step\<close>

abbreviation mux_keys :: "nat \<Rightarrow> (u16 \<times> nat) list" where
  "mux_keys n \<equiv> zip (map mux_pid [0..<n]) [0..<n]"

text \<open>What the demuxer has learnt from the tables: nothing yet, or all.\<close>

definition knows :: "nat \<Rightarrow> TSDemuxer \<Rightarrow> bool" where
  "knows n d \<longleftrightarrow> (\<exists>pn. dm_programs d = [(0x200, \<lparr>pg_pn = pn, pg_streams = mux_keys n\<rparr>)]) \<and> dm_esStreams d = mux_keys n \<and>
     length (dm_heap d) = n"

definition blank :: "TSDemuxer \<Rightarrow> bool" where
  "blank d \<longleftrightarrow> dm_programs d = [] \<and> dm_esStreams d = [] \<and> dm_heap d = []"

definition frames_only :: "TSDemuxer \<Rightarrow> bool" where
  "frames_only d \<longleftrightarrow> dm_OnFrame d \<and> \<not> dm_OnTSPacket d"

lemma mux_keys_pid: "i < n \<Longrightarrow> n \<le> 33 \<Longrightarrow> map_of (mux_keys n) (mux_pid i) = Some i"
  using map_of_zip_nth [of "map mux_pid [0..<n]" "[0..<n]" i] inj_mux_pid
  by (simp add: distinct_map inj_on_def)

lemma knows_es_pid: "knows n d \<Longrightarrow> frames_only d \<Longrightarrow> i < n \<Longrightarrow> n \<le> 33 \<Longrightarrow> es_pid d (mux_pid i) i"
  using mux_pid_fresh [of i] mux_keys_pid [of i n] by (auto simp: es_pid_def knows_def frames_only_def)

definition tables_of :: "nat \<Rightarrow> (nat \<Rightarrow> TS_STREAM_TYPE) \<Rightarrow> pes_stream list \<Rightarrow> bool" where
  "tables_of n cid ss \<longleftrightarrow> map ps_pid ss = map mux_pid [0..<n] \<and> map ps_streamtype ss = map cid [0..<n]"

lemma feed_tables_known:
  assumes "pat_ready pat pmt" and "pmt_ready pmt1" and "tp_pid pmt = 0x200" and "tp_pid pmt1 = 0x200"
    and ss: "tables_of n cid (tp_streams pmt1)" and d: "knows n d" "frames_only d"
  shows "\<exists>d'. feed_packets [pat_packet pat, pmt_packet pmt1] d = Some (None, d', []) \<and> knows n d' \<and> frames_only d' \<and>
    dm_heap d' = dm_heap d"
proof -
  obtain pn where pn: "dm_programs d = [(0x200, \<lparr>pg_pn = pn, pg_streams = mux_keys n\<rparr>)]" "dm_esStreams d = mux_keys n"
    using d(1) by (auto simp: knows_def)
  let ?prog = "\<lparr>pg_pn = tp_pm pmt1, pg_streams = mux_keys n\<rparr>"
  let ?d = "d\<lparr>dm_programs := [(0x200, ?prog)]\<rparr>"
  have f: "\<not> dm_OnTSPacket d" using d(2) by (simp add: frames_only_def)
  have "demux_packet (pat_packet pat) d = Some (None, d, [])"
    using demux_pat_packet [OF assms(1) f] pn by (simp add: assms(3))
  moreover have "ps_pid ` set (tp_streams pmt1) \<subseteq> fst ` set (mux_keys n)"
    using arg_cong [OF conjunct1 [OF ss [unfolded tables_of_def]], of set] by (simp add: set_map [symmetric] del: set_map)
  then have "add_es (es_pairs (tp_streams pmt1)) ?prog d = (?prog, d)" by (intro add_es_known) simp
  then have "demux_packet (pmt_packet pmt1) d = Some (None, ?d, [])"
    using demux_pmt_packet [OF assms(2) _ f, of "\<lparr>pg_pn = pn, pg_streams = mux_keys n\<rparr>" ?prog d] pn by (simp add: assms(4))
  ultimately show ?thesis using d pn by (simp add: knows_def frames_only_def)
qed

lemma feed_tables_blank:
  assumes pat: "pat_ready pat pmt" and "pmt_ready pmt1" and "tp_pid pmt = 0x200" and "tp_pid pmt1 = 0x200"
    and ss: "tables_of n cid (tp_streams pmt1)" "n \<le> 33" "\<forall>i < n. cid i \<in> audio_cids" and d: "blank d" "frames_only d"
  shows "\<exists>d'. feed_packets [pat_packet pat, pmt_packet pmt1] d = Some (None, d', []) \<and> knows n d' \<and> frames_only d' \<and>
    (\<forall>i < n. st_cid (dm_heap d' ! i) = cid i \<and> (\<forall>cc. between None cc (dm_heap d' ! i)))"
proof -
  let ?d = "d\<lparr>dm_programs := [(0x200, \<lparr>pg_pn = 0, pg_streams = []\<rparr>)]\<rparr>"
  let ?ss = "tp_streams pmt1" and ?prog = "\<lparr>pg_pn = tp_pm pmt1, pg_streams = []\<rparr>"
  have f: "\<not> dm_OnTSPacket d" and f': "\<not> dm_OnTSPacket ?d" using d(2) by (simp_all add: frames_only_def)
  have len: "length ?ss = n" using ss(1) arg_cong [OF conjunct1 [OF ss(1) [unfolded tables_of_def]], of length] by simp
  have "tp_pm pmt \<noteq> 0" using pat by (simp add: pat_ready_def pmt_ready_def)
  then have 1: "demux_packet (pat_packet pat) d = Some (None, ?d, [])"
    using demux_pat_packet [OF pat f] d(1) by (simp add: assms(3) blank_def)
  have "distinct (map ps_pid ?ss)" using assms(2) by (simp add: pmt_ready_def)
  from add_es_fresh [OF this, of ?prog ?d] d(1) obtain prog' d' where a: "add_es (es_pairs ?ss) ?prog ?d = (prog', d')"
    "pg_streams prog' = mux_keys n" "dm_esStreams d' = mux_keys n"
    "dm_heap d' = map (\<lambda>s. new_tsstream (word_of_int (ps_streamtype s))) ?ss" "dm_programs d' = dm_programs ?d"
    "dm_OnFrame d' = dm_OnFrame d" "dm_OnTSPacket d' = dm_OnTSPacket d"
    using ss(1) len by (auto simp: blank_def tables_of_def)
  let ?d2 = "d'\<lparr>dm_programs := [(0x200, prog')]\<rparr>"
  have 2: "demux_packet (pmt_packet pmt1) ?d = Some (None, ?d2, [])"
    using demux_pmt_packet [OF assms(2) _ f', of "\<lparr>pg_pn = 0, pg_streams = []\<rparr>" prog' d'] a(1,5) by (simp add: assms(4))
  have "prog' = \<lparr>pg_pn = pg_pn prog', pg_streams = mux_keys n\<rparr>" using a(2) by (cases prog') simp
  then have "knows n ?d2" using a(3,4) len by (simp add: knows_def) blast
  moreover have "st_cid (dm_heap ?d2 ! i) = cid i \<and> (\<forall>cc. between None cc (dm_heap ?d2 ! i))" if i: "i < n" for i
  proof -
    have "ps_streamtype (?ss ! i) = cid i"
      using i len arg_cong [OF conjunct2 [OF ss(1) [unfolded tables_of_def]], of "\<lambda>xs. xs ! i"] by simp
    moreover have "cid i \<in> audio_cids" using ss(3) i by blast
    moreover have "uint (word_of_int c :: byte) = c" if "c \<in> audio_cids" for c
      using that by (auto simp: stream_types)
    ultimately show ?thesis using i len a(4) by (simp add: between_def new_tsstream_def)
  qed
  ultimately show ?thesis using 1 2 a(6,7) d(2) by (simp add: frames_only_def)
qed

text \<open>The demuxer has read all packets so far, and holds what the channel holds.\<close>

definition in_step :: "nat \<Rightarrow> (nat \<Rightarrow> TS_STREAM_TYPE) \<Rightarrow> pending \<Rightarrow> TSMuxer \<Rightarrow> TSDemuxer \<Rightarrow> bool" where
  "in_step n cid pend mux d \<longleftrightarrow> mux_inv n mux \<and> frames_only d \<and> pending_ok pend \<and> (\<forall>i. n \<le> i \<longrightarrow> pend i = None) \<and>
     (\<forall>i < n. cid i \<in> audio_cids) \<and>
     (\<exists>pat pmt. mux_pat mux = Some pat \<and> ta_pmts pat = [pmt] \<and> tables_of n cid (tp_streams pmt) \<and>
       (blank d \<and> mux_pat_period mux = 0 \<and> (\<forall>i. pend i = None) \<or>
        knows n d \<and> (\<forall>i < n. st_cid (dm_heap d ! i) = cid i \<and> between (pend i) (ps_cc (tp_streams pmt ! i)) (dm_heap d ! i))))"

lemma in_step_tables:
  assumes R: "in_step n cid pend mux d" and n: "0 < n"
    and pat: "mux_pat mux = Some pat" "ta_pmts pat = [pmt]" and p1: "pmt_ready pmt1" "tp_streams pmt1 = tp_streams pmt" "tp_pid pmt1 = 0x200"
  shows "\<exists>d'. feed_packets (if tables_due dts mux then [pat_packet pat, pmt_packet pmt1] else []) d = Some (None, d', []) \<and>
    knows n d' \<and> frames_only d' \<and>
    (\<forall>i < n. st_cid (dm_heap d' ! i) = cid i \<and> between (pend i) (ps_cc (tp_streams pmt ! i)) (dm_heap d' ! i))"
proof -
  have r: "mux_inv n mux" "frames_only d" "\<forall>i < n. cid i \<in> audio_cids" "tables_of n cid (tp_streams pmt1)"
    "blank d \<and> mux_pat_period mux = 0 \<and> (\<forall>i. pend i = None) \<or>
        knows n d \<and> (\<forall>i < n. st_cid (dm_heap d ! i) = cid i \<and> between (pend i) (ps_cc (tp_streams pmt ! i)) (dm_heap d ! i))"
    using R pat p1(2) by (auto simp: in_step_def)
  have m: "pat_ready pat pmt" "tp_pid pmt = 0x200" "n \<le> 33"
    using r(1) n pat by (auto simp: mux_inv_def pat_ready_def)
  show ?thesis
  proof (cases "blank d \<and> mux_pat_period mux = 0 \<and> (\<forall>i. pend i = None)")
    case True
    then have "tables_due dts mux" "blank d" "\<forall>i. pend i = None" by (simp_all add: tables_due_def)
    then show ?thesis using feed_tables_blank [OF m(1) p1(1) m(2) p1(3) r(4) m(3) r(3) _ r(2)] by (simp del: feed_packets.simps) blast
  next
    case False
    then have k: "knows n d" using r(5) by blast
    show ?thesis
    proof (cases "tables_due dts mux")
      case True
      then show ?thesis using feed_tables_known [OF m(1) p1(1) m(2) p1(3) r(4) k r(2)] r(5) False by auto
    qed (use k r(2,5) False in auto)
  qed
qed

lemma in_step_write:
  assumes R: "in_step n cid pend mux d" and i: "fw_stream w < n" and w: "fw_ok w"
  shows "\<exists>mux' outs d'. mux_Write (mux_pid (fw_stream w)) (fw_data w) (fw_pts w) (fw_dts w) mux = Some (None, mux', outs) \<and>
    feed_packets outs d = Some (None, d', map (frame_event cid) (channel_out (pend (fw_stream w)))) \<and>
    in_step n cid (pend(fw_stream w := Some w)) mux' d' \<and> (\<forall>p \<in> set outs. length p = 188)"
proof -
  let ?i = "fw_stream w"
  obtain pat pmt where p: "mux_pat mux = Some pat" "ta_pmts pat = [pmt]" "tables_of n cid (tp_streams pmt)"
    using R by (auto simp: in_step_def)
  have inv: "mux_inv n mux" "\<forall>i < n. cid i \<in> audio_cids" "pending_ok pend" "\<forall>i. n \<le> i \<longrightarrow> pend i = None"
    using R by (simp_all add: in_step_def)
  have m: "pat_ready pat pmt" "pmt_ready pmt" "tp_pid pmt = 0x200" "n \<le> 33"
    using inv(1) i p by (auto simp: mux_inv_def pat_ready_def)
  let ?ss = "tp_streams pmt"
  have len: "length ?ss = n" using arg_cong [OF conjunct1 [OF p(3) [unfolded tables_of_def]], of length] by simp
  have s: "ps_pid (?ss ! ?i) = mux_pid ?i" "ps_streamtype (?ss ! ?i) = cid ?i"
    using arg_cong [OF conjunct1 [OF p(3) [unfolded tables_of_def]], of "\<lambda>xs. xs ! ?i"]
      arg_cong [OF conjunct2 [OF p(3) [unfolded tables_of_def]], of "\<lambda>xs. xs ! ?i"] i len by simp_all
  have audio: "cid ?i \<in> audio_cids" using inv(2) i by blast
  have fit: "fits 33 (fw_pts w * 90)" "fits 33 (fw_dts w * 90)" using w clock_ms(2) by (simp_all add: fw_ok_def)
  let ?pmt1 = "pcr_on (mux_pid ?i) (cid ?i) pmt"
  have p1: "pmt_ready ?pmt1" using pcr_on_ready [OF m(2)] mux_pid_fresh [of ?i] i m(4) by simp
  let ?due = "tables_due (fw_dts w) mux"
  let ?tabs = "if ?due then [pat_packet pat, pmt_packet ?pmt1] else []"
  obtain cc bsw outs aud idr where W: 
    "mux_Write (mux_pid ?i) (fw_data w) (fw_pts w) (fw_dts w) mux = Some (None,
       mux\<lparr>mux_pat := Some ((if ?due then pat_next pat ?pmt1 else pat)\<lparr>ta_pmts :=
           [(if ?due then ?pmt1\<lparr>tp_cc := (tp_cc pmt + 1) mod 16\<rparr> else ?pmt1)
             \<lparr>tp_streams := ?ss[?i := (?ss ! ?i)\<lparr>ps_cc := cc\<rparr>]\<rparr>]\<rparr>),
         mux_pat_period := (if ?due then (if fw_dts w = 0 then 1 else fw_dts w) else mux_pat_period mux),
         mux_bsw := Some bsw\<rparr>, ?tabs @ outs)" (is "?W = Some (None, ?mux', _)")
    "carries (mux_pid ?i) (ps_cc (?ss ! ?i)) True outs
       (pes_bytes ((frame_pes (cid ?i) (mux_aud (cid ?i) aud) (length (fw_data w)) (fw_pts w * 90) (fw_dts w * 90) idr)
         \<lparr>Pes_payload := mux_aud (cid ?i) aud @ fw_data w\<rparr>))"
    "cc = cc_after (ps_cc (?ss ! ?i)) outs"
    by (rule mux_Write_written [OF p(1) m(1) _ s(1) [symmetric] s(2) [symmetric] fit refl, where data = "fw_data w"])
      (simp_all add: len i)
  have "mux_aud (cid ?i) aud = []" using audio by (auto simp: mux_aud_def stream_types)
  then have car: "carries (mux_pid ?i) (ps_cc (?ss ! ?i)) True outs
      (pes_head (frame_pes (cid ?i) [] (length (fw_data w)) (fw_pts w * 90) (fw_dts w * 90) idr) @ fw_data w)"
    using W(2) by (simp add: pes_bytes_head)
  obtain d1 where d1: "feed_packets ?tabs d = Some (None, d1, [])" "knows n d1" "frames_only d1"
    "\<forall>i < n. st_cid (dm_heap d1 ! i) = cid i \<and> between (pend i) (ps_cc (?ss ! i)) (dm_heap d1 ! i)"
    using in_step_tables [OF R _ p(1,2) p1, of "fw_dts w"] i m(3) by auto
  have ep: "es_pid d1 (mux_pid ?i) ?i" using knows_es_pid [OF d1(2,3) i m(4)] .
  have on: "dm_OnFrame d1" using d1(3) by (simp add: frames_only_def)
  obtain t where t: "feed_packets outs d1 = Some (None, d1\<lparr>dm_heap := (dm_heap d1)[?i := t]\<rparr>,
      case pend ?i of None \<Rightarrow> [] | Some v \<Rightarrow> [TsFrame (st_cid (dm_heap d1 ! ?i)) (fw_data v) (fw_pts v) (fw_dts v)])"
    "between (Some w) cc t" "st_cid t = cid ?i"
    using feed_frame [OF car ep on _ w, of "pend ?i"] d1(4) i W(3) by auto
  have out: "(case pend ?i of None \<Rightarrow> [] | Some v \<Rightarrow> [TsFrame (st_cid (dm_heap d1 ! ?i)) (fw_data v) (fw_pts v) (fw_dts v)]) =
      map (frame_event cid) (channel_out (pend ?i))"
    using d1(4) i inv(3) by (auto simp: channel_out_def frame_event_def pending_ok_def split: option.split)
  let ?d = "d1\<lparr>dm_heap := (dm_heap d1)[?i := t]\<rparr>"
  have feed: "feed_packets (?tabs @ outs) d = Some (None, ?d, map (frame_event cid) (channel_out (pend ?i)))"
    using feed_append [OF d1(1) t(1)] unfolding out by simp
  have hl: "length (dm_heap d1) = n" using d1(2) by (simp add: knows_def)
  have "in_step n cid (pend(?i := Some w)) ?mux' ?d"
  proof -
    have "mux_inv n ?mux'" by (rule mux_Write_inv [OF inv(1) fit W(1)])
    moreover have "frames_only ?d" "knows n ?d" using d1(2,3) by (simp_all add: frames_only_def knows_def)
    moreover have "pending_ok (pend(?i := Some w))" "\<forall>i. n \<le> i \<longrightarrow> (pend(?i := Some w)) i = None"
      using inv(3,4) i by (simp_all add: pending_ok_def)
    moreover have "tables_of n cid (?ss[?i := (?ss ! ?i)\<lparr>ps_cc := cc\<rparr>])"
      using p(3) i len by (simp add: tables_of_def map_update list_update_same_conv s)
    moreover have "st_cid (dm_heap ?d ! j) = cid j \<and>
        between ((pend(?i := Some w)) j) (ps_cc (?ss[?i := (?ss ! ?i)\<lparr>ps_cc := cc\<rparr>] ! j)) (dm_heap ?d ! j)" if "j < n" for j
      using d1(4) t(2,3) that i hl len by (cases "j = ?i") simp_all
    ultimately show ?thesis using inv(2) unfolding in_step_def by simp
  qed
  moreover have "\<forall>p \<in> set (?tabs @ outs). length p = 188"
    using length_pat_packet [OF m(1)] length_pmt_packet [OF p1] carries_188 [OF car] by auto
  ultimately show ?thesis using W(1) feed by blast
qed

section \<open>A whole transport stream\<close>

text \<open>The calls of a client: the muxer after them and what its callback was given.\<close>

fun mux_writes :: "frame_write list \<Rightarrow> TSMuxer \<Rightarrow> (mpeg2_error option \<times> TSMuxer \<times> bytes list) option" where
  "mux_writes [] mux = Some (None, mux, [])"
| "mux_writes (w # ws) mux = do {
     (e, mux, out) \<leftarrow> mux_Write (mux_pid (fw_stream w)) (fw_data w) (fw_pts w) (fw_dts w) mux;
     if e \<noteq> None then Some (e, mux, out)
     else do {
       (e, mux, out') \<leftarrow> mux_writes ws mux;
       Some (e, mux, out @ out')
     }
   }"

lemma in_step_writes:
  assumes "in_step n cid pend mux d" and "\<forall>w \<in> set ws. fw_stream w < n \<and> fw_ok w" and "channel ws pend = (pend', fs)"
  shows "\<exists>mux' outs d'. mux_writes ws mux = Some (None, mux', outs) \<and>
    feed_packets outs d = Some (None, d', map (frame_event cid) fs) \<and> in_step n cid pend' mux' d' \<and>
    (\<forall>p \<in> set outs. length p = 188)"
  using assms
proof (induction ws arbitrary: pend mux d fs)
  case (Cons w ws)
  obtain fs' where c: "channel ws (pend(fw_stream w := Some w)) = (pend', fs')" "fs = channel_out (pend (fw_stream w)) @ fs'"
    using Cons.prems(3) by (auto split: prod.splits)
  have w: "fw_stream w < n" "fw_ok w" using Cons.prems(2) by simp_all
  obtain mux1 outs d1 where 1: "mux_Write (mux_pid (fw_stream w)) (fw_data w) (fw_pts w) (fw_dts w) mux = Some (None, mux1, outs)"
    "feed_packets outs d = Some (None, d1, map (frame_event cid) (channel_out (pend (fw_stream w))))"
    "in_step n cid (pend(fw_stream w := Some w)) mux1 d1" "\<forall>p \<in> set outs. length p = 188"
    using in_step_write [OF Cons.prems(1) w] by blast
  have "\<forall>w \<in> set ws. fw_stream w < n \<and> fw_ok w" using Cons.prems(2) by simp
  then obtain mux2 outs2 d2 where 2: "mux_writes ws mux1 = Some (None, mux2, outs2)"
    "feed_packets outs2 d1 = Some (None, d2, map (frame_event cid) fs')" "in_step n cid pend' mux2 d2"
    "\<forall>p \<in> set outs2. length p = 188"
    using Cons.IH [OF 1(3) _ c(1)] by blast
  have "mux_writes (w # ws) mux = Some (None, mux2, outs @ outs2)" using 1(1) 2(1) by simp
  moreover have "feed_packets (outs @ outs2) d = Some (None, d2, map (frame_event cid) fs)"
    using feed_append [OF 1(2) 2(2)] c(2) by simp
  ultimately show ?case using 1(4) 2(3,4) by (intro exI [of _ mux2] exI [of _ "outs @ outs2"] exI [of _ d2] conjI) auto
qed simp

text \<open>The flush hands out what is left in the channel, stream by stream in some order.\<close>

lemma flush_streams_pending:
  assumes "\<forall>a \<in> set as. a < length heap \<and> st_cid (heap ! a) = cid a \<and> (\<exists>cc. between (pend a) cc (heap ! a))"
    and "distinct as" and "pending_ok pend"
  shows "\<exists>heap'. flush_streams True as heap = Some (heap', map (frame_event cid) (concat (map (\<lambda>a. channel_out (pend a)) as)))"
  using assms(1,2)
proof (induction as arbitrary: heap)
  case (Cons a as)
  obtain cc where a: "a < length heap" "st_cid (heap ! a) = cid a" "between (pend a) cc (heap ! a)" using Cons.prems(1) by auto
  have nv: "st_cid (heap ! a) \<noteq> TS_STREAM_H264 \<and> st_cid (heap ! a) \<noteq> TS_STREAM_H265"
    using a(3) by (auto simp: between_def stream_types)
  obtain t where t: "flush_stream True (heap ! a) = Some (t, map (frame_event cid) (channel_out (pend a)))"
  proof (cases "pend a")
    case None
    then show ?thesis using a(3) that [of "heap ! a"] by (simp add: flush_stream_def between_def channel_out_def)
  next
    case (Some w)
    then have "fw_ok w" "fw_stream w = a" using a(3) assms(3) by (simp_all add: between_def pending_ok_def)
    then show ?thesis using a(2,3) nv Some clock_ms(1) that [of "(heap ! a)\<lparr>st_pkg := None\<rparr>"]
      by (simp add: flush_stream_def between_def channel_out_def kept_def fw_ok_def frame_event_def)
  qed
  have "heap[a := t] ! b = heap ! b" if "b \<in> set as" for b using Cons.prems(2) that by (cases "a = b") simp_all
  then have "\<forall>b \<in> set as. b < length (heap[a := t]) \<and> st_cid (heap[a := t] ! b) = cid b \<and> (\<exists>cc. between (pend b) cc (heap[a := t] ! b))"
    using Cons.prems by auto
  then obtain heap' where "flush_streams True as (heap[a := t]) =
      Some (heap', map (frame_event cid) (concat (map (\<lambda>a. channel_out (pend a)) as)))"
    using Cons.IH [of "heap[a := t]"] Cons.prems(2) by auto
  moreover have "idx heap (int a) = Some (heap ! a)" using a(1) by (simp add: idx_def)
  ultimately show ?case using t by simp
qed simp

lemma flush_order_known:
  assumes "knows n d" and "n \<le> 33" and "any_order ord"
  shows "mset (flush_order ord d) = mset [0..<n]"
proof -
  obtain pn where pn: "dm_programs d = [(0x200, \<lparr>pg_pn = pn, pg_streams = mux_keys n\<rparr>)]"
    using assms(1) by (auto simp: knows_def)
  have "mset (ord [0x200]) = {#0x200#}" using assms(3) by (simp add: any_order_def)
  then have o: "ord [0x200] = [0x200]" by simp
  have "map (\<lambda>k. the (map_of (mux_keys n) k)) (map mux_pid [0..<n]) = [0..<n]"
    using mux_keys_pid [OF _ assms(2)] by (intro nth_equalityI) simp_all
  moreover have "mset (map (\<lambda>k. the (map_of (mux_keys n) k)) (ord (map mux_pid [0..<n]))) =
      mset (map (\<lambda>k. the (map_of (mux_keys n) k)) (map mux_pid [0..<n]))"
    using assms(3) by (simp only: mset_map any_order_def)
  moreover have "flush_order ord d = map (\<lambda>k. the (map_of (mux_keys n) k)) (ord (map mux_pid [0..<n]))"
    by (simp add: flush_order_def pn o)
  ultimately show ?thesis by simp
qed

lemma in_step_flush:
  assumes R: "in_step n cid pend mux d" and "any_order ord"
  shows "\<exists>as d'. demux_flush ord d = Some (d', map (frame_event cid) (concat (map (\<lambda>a. channel_out (pend a)) as))) \<and>
    mset as = mset [0..<n]"
proof (cases "blank d")
  case True
  then have "\<forall>i. pend i = None" using R by (auto simp: in_step_def blank_def knows_def)
  then have "concat (map (\<lambda>a. channel_out (pend a)) [0..<n]) = []" by (simp add: channel_out_def)
  moreover have "ord [] = []" using assms(2) by (metis any_order_def mset.simps(1) mset_zero_iff)
  then have "demux_flush ord d = Some (d, [])" using True by (simp add: demux_flush_def flush_order_def blank_def)
  ultimately show ?thesis by (intro exI [of _ "[0..<n]"] exI [of _ d]) simp
next
  case False
  then have k: "knows n d" "n \<le> 33" "pending_ok pend" "dm_OnFrame d"
    "\<forall>i < n. st_cid (dm_heap d ! i) = cid i \<and> (\<exists>cc. between (pend i) cc (dm_heap d ! i))"
    using R by (auto simp: in_step_def mux_inv_def frames_only_def)
  let ?as = "flush_order ord d"
  have m: "mset ?as = mset [0..<n]" using flush_order_known [OF k(1,2) assms(2)] .
  have "set ?as = {0..<n}" using mset_eq_setD [OF m] by simp
  moreover have "length (dm_heap d) = n" using k(1) by (simp add: knows_def)
  ultimately have "\<forall>a \<in> set ?as. a < length (dm_heap d) \<and> st_cid (dm_heap d ! a) = cid a \<and> (\<exists>cc. between (pend a) cc (dm_heap d ! a))"
    using k(5) by auto
  moreover have "distinct ?as" using mset_eq_imp_distinct_iff [OF m] by simp
  ultimately obtain heap' where "flush_streams True ?as (dm_heap d) =
      Some (heap', map (frame_event cid) (concat (map (\<lambda>a. channel_out (pend a)) ?as)))"
    using flush_streams_pending k(3) by blast
  then have "demux_flush ord d = Some (d\<lparr>dm_heap := heap'\<rparr>, map (frame_event cid) (concat (map (\<lambda>a. channel_out (pend a)) ?as)))"
    using k(4) by (simp add: demux_flush_def)
  then show ?thesis using m by blast
qed

lemma of_stream_waiting:
  assumes "pending_ok pend" and "distinct as"
  shows "of_stream i (concat (map (\<lambda>a. channel_out (pend a)) as)) = (if i \<in> set as then channel_out (pend i) else [])"
  using assms(2)
proof (induction as)
  case (Cons a as)
  have "of_stream i (channel_out (pend a)) = (if i = a then channel_out (pend a) else [])"
    using assms(1) by (auto simp: channel_out_def pending_ok_def split: option.split)
  then show ?case using Cons by auto
qed simp

text \<open>The stream types a muxer was given.\<close>

definition mux_cid :: "TSMuxer \<Rightarrow> nat \<Rightarrow> TS_STREAM_TYPE" where
  "mux_cid mux i = (case mux_pat mux of None \<Rightarrow> 0 | Some pat \<Rightarrow> ps_streamtype (tp_streams (ta_pmts pat ! 0) ! i))"

definition audio_demuxer :: TSDemuxer where
  "audio_demuxer = NewTSDemuxer\<lparr>dm_OnFrame := True\<rparr>"

lemma in_step_start:
  assumes "mux_reachable n mux" and "0 < n" and "mux_pat_period mux = 0" and "\<forall>i < n. mux_cid mux i \<in> audio_cids"
  shows "in_step n (mux_cid mux) (\<lambda>i. None) mux audio_demuxer"
proof -
  have inv: "mux_inv n mux" by (rule mux_reachable_inv [OF assms(1)])
  obtain pat pmt where p: "mux_pat mux = Some pat" "pat_ready pat pmt" "map ps_pid (tp_streams pmt) = map mux_pid [0..<n]"
    using inv assms(2) by (auto simp: mux_inv_def)
  have t: "ta_pmts pat = [pmt]" using p(2) by (simp add: pat_ready_def)
  have len: "length (tp_streams pmt) = n" using arg_cong [OF p(3), of length] by simp
  have "map ps_streamtype (tp_streams pmt) = map (mux_cid mux) [0..<n]"
    using len p(1) t by (intro nth_equalityI) (simp_all add: mux_cid_def)
  moreover have "frames_only audio_demuxer" "blank audio_demuxer"
    by (simp_all add: frames_only_def blank_def audio_demuxer_def NewTSDemuxer_def)
  ultimately show ?thesis using inv assms(3,4) p(1,3) t by (simp add: in_step_def tables_of_def pending_ok_def)
qed

text \<open>An input that ends inside a packet: what waits in the channel is not delivered.\<close>

lemma torn_end_loses_frames:
  assumes mux: "mux_reachable n mux" "0 < n" "mux_pat_period mux = 0" and audio: "\<forall>i < n. mux_cid mux i \<in> audio_cids"
    and ws: "\<forall>w \<in> set ws. fw_stream w < n \<and> fw_ok w" and c: "channel ws (\<lambda>i. None) = (pend, fs)"
    and tail: "tail \<noteq> []" "length tail < 188"
  shows "\<exists>mux' packets d. mux_writes ws mux = Some (None, mux', packets) \<and>
    demux_Input ord \<lparr>rd_bytes = concat packets @ tail, rd_end = EOF\<rparr> audio_demuxer =
      Some (Some (Inr ErrUnexpectedEOF), d, map (frame_event (mux_cid mux)) fs)"
proof -
  obtain mux' packets d where 1: "mux_writes ws mux = Some (None, mux', packets)"
    "feed_packets packets audio_demuxer = Some (None, d, map (frame_event (mux_cid mux)) fs)"
    "\<forall>p \<in> set packets. length p = 188"
    using in_step_writes [OF in_step_start [OF mux audio] ws c] by blast
  then show ?thesis
    using demux_loop_packets [OF 1(2,3) tail(2), of "[]" ord "Some (Inr ErrUnexpectedEOF)" d "[]"] tail(1)
    by (simp add: demux_Input_def end_of_input_def)
qed

text \<open>Three frames of two streams.\<close>

definition two_frames :: "frame_write list" where
  "two_frames = [\<lparr>fw_stream = 1, fw_data = [1, 2, 3], fw_pts = 40, fw_dts = 40\<rparr>,
     \<lparr>fw_stream = 0, fw_data = replicate 200 7, fw_pts = 45, fw_dts = 45\<rparr>,
     \<lparr>fw_stream = 1, fw_data = [4], fw_pts = 60, fw_dts = 60\<rparr>]"


text \<open>
  C25: frames of up to 33 audio streams, written in any order to a fresh muxer, come out of a
  demuxer that reads the muxer's packets: exactly these frames with their types and timestamps,
  those of each stream in the order they were written, whatever order the final flush takes the
  streams in.  Between the two ends stands the channel that keeps one frame per stream; the
  simulation \<open>in_step\<close> shows that muxer and demuxer together refine it.
\<close>

theorem TS_audio_refines_channel:
  assumes mux: "mux_reachable n mux" "mux_pat_period mux = 0" and audio: "\<forall>i < n. mux_cid mux i \<in> audio_cids"
    and ws: "\<forall>w \<in> set ws. fw_stream w < n \<and> fw_ok w" and ord: "any_order ord"
  shows "\<exists>mux' packets d fs. mux_writes ws mux = Some (None, mux', packets) \<and>
    demux_Input ord \<lparr>rd_bytes = concat packets, rd_end = EOF\<rparr> audio_demuxer = Some (None, d, map (frame_event (mux_cid mux)) fs) \<and>
    (\<forall>i. of_stream i fs = of_stream i ws)"
proof (cases "n = 0")
  case True
  then have "ws = []" using ws by (cases ws) auto
  moreover have "demux_flush ord audio_demuxer = Some (audio_demuxer, [])"
    using ord [unfolded any_order_def, rule_format, of "[]"]
    by (simp add: demux_flush_def flush_order_def audio_demuxer_def NewTSDemuxer_def)
  ultimately show ?thesis
    using demux_loop_packets [of "[]" audio_demuxer audio_demuxer "[]" "[]" "[]" ord None audio_demuxer "[]"]
    by (intro exI [of _ mux] exI [of _ "[]"] exI [of _ audio_demuxer]) (simp add: demux_Input_def end_of_input_def)
next
  case False
  have R: "in_step n (mux_cid mux) (\<lambda>i. None) mux audio_demuxer" using in_step_start mux audio False by blast
  obtain pend fs where c: "channel ws (\<lambda>i. None) = (pend, fs)" by fastforce
  obtain mux' packets d where 1: "mux_writes ws mux = Some (None, mux', packets)"
    "feed_packets packets audio_demuxer = Some (None, d, map (frame_event (mux_cid mux)) fs)"
    "in_step n (mux_cid mux) pend mux' d" "\<forall>p \<in> set packets. length p = 188"
    using in_step_writes [OF R ws c] by blast
  obtain as d' where f: "demux_flush ord d = Some (d', map (frame_event (mux_cid mux)) (concat (map (\<lambda>a. channel_out (pend a)) as)))"
    "mset as = mset [0..<n]" using in_step_flush [OF 1(3) ord] by blast
  let ?fs = "fs @ concat (map (\<lambda>a. channel_out (pend a)) as)"
  have "pending_ok (\<lambda>i. None)" by (simp add: pending_ok_def)
  note k = channel_keeps_order [OF this c]
  have "i \<in> set as \<longleftrightarrow> i < n" for i using mset_eq_setD [OF f(2)] by simp
  moreover have "pend i = None" if "n \<le> i" for i using 1(3) that by (simp add: in_step_def)
  moreover have "distinct as" using mset_eq_imp_distinct_iff [OF f(2)] by simp
  ultimately have "of_stream i (concat (map (\<lambda>a. channel_out (pend a)) as)) = channel_out (pend i)" for i
    using k of_stream_waiting [of pend as i] by (cases "i < n") (simp_all add: channel_out_def)
  then have "of_stream i ?fs = of_stream i ws" for i using k [of i] by (simp add: channel_out_def)
  moreover have "demux_Input ord \<lparr>rd_bytes = concat packets, rd_end = EOF\<rparr> audio_demuxer = Some (None, d', map (frame_event (mux_cid mux)) ?fs)"
    using demux_loop_packets [OF 1(2,4), of "[]" "[]" ord None d'] f(1) by (simp add: demux_Input_def end_of_input_def)
  ultimately show ?thesis using 1(1) by blast
qed

theorem TS_audio_refines_channel_witness:
  "\<exists>m1 mux mux' packets d fs. AddStream TS_STREAM_AAC NewTSMuxer = Some (0x100, m1) \<and>
    AddStream TS_STREAM_AUDIO_MPEG1 m1 = Some (0x101, mux) \<and> mux_writes two_frames mux = Some (None, mux', packets) \<and>
    demux_Input rev \<lparr>rd_bytes = concat packets, rd_end = EOF\<rparr> audio_demuxer = Some (None, d, map (frame_event (mux_cid mux)) fs) \<and>
    (\<forall>i. of_stream i fs = of_stream i two_frames)"
proof -
  obtain m1 mux where m: "AddStream TS_STREAM_AAC NewTSMuxer = Some (0x100, m1)" "AddStream TS_STREAM_AUDIO_MPEG1 m1 = Some (0x101, mux)"
    "mux_pat_period mux = 0" "mux_cid mux 0 = TS_STREAM_AAC" "mux_cid mux 1 = TS_STREAM_AUDIO_MPEG1"
    by (simp add: AddStream_def NewTSMuxer_def NewTablePat_def idx_def NewTablePmt_def Let_def mux_cid_def NewPESStream_def upd_def)
  have "mux_reachable (0 + 1) m1" using m(1) by (intro mux_reachable.add [OF mux_reachable.new]) (simp_all add: stream_types)
  then have "mux_reachable (0 + 1 + 1) mux" by (rule mux_reachable.add [OF _ _ _ m(2)]) (simp_all add: stream_types)
  moreover have "\<forall>i < 0 + 1 + 1. mux_cid mux i \<in> audio_cids" using m(4,5) by (auto simp: less_Suc_eq)
  moreover have "\<forall>w \<in> set two_frames. fw_stream w < 0 + 1 + 1 \<and> fw_ok w" by (simp add: two_frames_def fw_ok_def)
  moreover have "any_order rev" by (simp add: any_order_def)
  ultimately show ?thesis using TS_audio_refines_channel [of "0 + 1 + 1" mux two_frames rev] m(1-3) by blast
qed

end
