(* ===== verification/Mp4Box.thy ===== *)
theory Mp4Box
  imports GoReader BitStream
begin

text \<open>
  The boxes of an MP4 file and the tables in them: \<open>box.go\<close>, \<open>mp4table.go\<close> and the boxes of a
  sample table in \<open>go-mp4\<close>.

  A \<open>Decode\<close> returns the offset it reports, the box and the file behind it.  An \<open>Encode\<close> fills a
  buffer of the box's size: its state is the offset and the buffer.  A loop over \<open>entrys[i]\<close> for
  \<open>i < entryCount\<close> is a pass over that prefix of the list, a panic where the list is shorter.  The
  receiver of an \<open>Encode\<close>, whose size field it sets, is not returned: every caller drops it.

  The lemmas: each table is read back as it was written, from its own bytes only, and no bytes
  make a decoder panic.
\<close>

section \<open>Errors and limits\<close>

datatype mp4_error = Mp4Read read_error | ErrBoxHeader u64 | ErrBoxLimit u64 | ErrBoxTruncated | ErrNoTrack
  | ErrTableLimit u32 | ErrTableBox u32 | ErrFullBoxSmall u64 | ErrCodec codec_error | ErrMp4 string

definition must :: "'a option \<Rightarrow> ('e, 'a) result" where
  "must m = map_option Inr m"

lemma must_simps [simp]: "must (Some x) = ok x" "must None = None" by (simp_all add: must_def)

definition BasicBoxLen :: int where "BasicBoxLen = 8"
definition FullBoxLen :: int where "FullBoxLen = 12"
definition maxBoxPayloadSize :: int where "maxBoxPayloadSize = 0x10000000"

definition boxPayloadLen :: "u64 \<Rightarrow> int \<Rightarrow> (mp4_error, int) result" where
  "boxPayloadLen sz headerLen =
     (if sz < word_of_int headerLen then err (ErrBoxHeader sz)
      else let payload = sz - word_of_int headerLen in
        if uint payload > maxBoxPayloadSize then err (ErrBoxLimit payload) else ok (uint payload))"

definition read_full :: "int \<Rightarrow> mov_file \<Rightarrow> (mp4_error, bytes \<times> mov_file) result" where
  "read_full n f = (case file_ReadFull n f of (Inl e, f) \<Rightarrow> err (Mp4Read e) | (Inr d, f) \<Rightarrow> ok (d, f))"

definition readBoxPayload :: "u64 \<Rightarrow> int \<Rightarrow> mov_file \<Rightarrow> (mp4_error, bytes \<times> mov_file) result" where
  "readBoxPayload sz headerLen f = rbind (boxPayloadLen sz headerLen) (\<lambda>n. read_full n f)"

definition checkRemain :: "bytes \<Rightarrow> int \<Rightarrow> int \<Rightarrow> (mp4_error, unit) result" where
  "checkRemain buf n need = (if n < 0 \<or> need < 0 \<or> n + need > glen buf then err ErrBoxTruncated else ok ())"

definition checkTableSize :: "u32 \<Rightarrow> int \<Rightarrow> int \<Rightarrow> (mp4_error, unit) result" where
  "checkTableSize count entrySize remain =
     (let need = (ucast count :: u64) * word_of_int entrySize in
      if uint need > maxBoxPayloadSize then err (ErrTableLimit count)
      else if remain \<ge> 0 \<and> need > word_of_int remain then err (ErrTableBox count)
      else ok ())"

section \<open>Boxes\<close>

record BasicBox =
  bx_Size :: u64
  bx_Type :: bytes
  bx_UserType :: bytes

definition tag :: "string \<Rightarrow> bytes" where "tag s = map of_char s"

definition NewBasicBox :: "bytes \<Rightarrow> BasicBox" where
  "NewBasicBox boxtype = \<lparr>bx_Size = 0, bx_Type = boxtype, bx_UserType = replicate 16 0\<rparr>"

definition bx_Decode :: "mov_file \<Rightarrow> (mp4_error, int \<times> BasicBox \<times> mov_file) result" where
  "bx_Decode f = rbind (read_full 8 f) (\<lambda>(buf, f).
     rbind (must (get_be32 buf)) (\<lambda>boxsize.
     let typ = drop 4 buf in
     rbind (if boxsize = 1 then rbind (read_full 8 f) (\<lambda>(b, f). rbind (must (get_be64 b)) (\<lambda>sz. ok (16, sz, f)))
       else ok (8, ucast boxsize, f)) (\<lambda>(nn, sz, f).
     if typ = tag ''uuid'' then rbind (read_full 16 f) (\<lambda>(uuid, f).
       ok (nn + 16, \<lparr>bx_Size = sz, bx_Type = typ, bx_UserType = uuid\<rparr>, f))
     else ok (nn, \<lparr>bx_Size = sz, bx_Type = typ, bx_UserType = replicate 16 0\<rparr>, f))))"

definition bx_Encode :: "BasicBox \<Rightarrow> (int \<times> bytes) option" where
  "bx_Encode box =
     (if bx_Size box > 0xFFFFFFFF then do {
        buf \<leftarrow> make_bytes 16;
        buf \<leftarrow> put_at buf 0 (be32 1);
        buf \<leftarrow> copy_at buf 4 (bx_Type box);
        buf \<leftarrow> put_at buf 8 (be64 (bx_Size box));
        Some (16, buf)
      } else do {
        buf \<leftarrow> make_bytes (uint (bx_Size box));
        buf \<leftarrow> put_at buf 0 (be32 (ucast (bx_Size box)));
        buf \<leftarrow> copy_at buf 4 (bx_Type box);
        if bx_Type box = tag ''uuid'' then do {
          buf \<leftarrow> put_at buf 8 (bx_UserType box);
          Some (24, buf)
        } else Some (8, buf)
      })"

record FullBox =
  fb_Box :: BasicBox
  fb_Version :: byte
  fb_Flags :: bytes

definition NewFullBox :: "bytes \<Rightarrow> byte \<Rightarrow> FullBox" where
  "NewFullBox boxtype version = \<lparr>fb_Box = NewBasicBox boxtype, fb_Version = version, fb_Flags = [0, 0, 0]\<rparr>"

text \<open>The literal \<open>FullBox{Box: &BasicBox{Size: size}}\<close> of the decoders.\<close>

definition sized_FullBox :: "u64 \<Rightarrow> FullBox" where
  "sized_FullBox sz = \<lparr>fb_Box = \<lparr>bx_Size = sz, bx_Type = [0, 0, 0, 0], bx_UserType = replicate 16 0\<rparr>, fb_Version = 0, fb_Flags = [0, 0, 0]\<rparr>"

definition fb_Size :: "FullBox \<Rightarrow> u64" where
  "fb_Size box = (if bx_Size (fb_Box box) > 0 then bx_Size (fb_Box box) else 12)"

definition tableRemain :: "int \<Rightarrow> FullBox \<Rightarrow> (mp4_error, int) result" where
  "tableRemain fixed box = (let sz = bx_Size (fb_Box box) in
     if sz = 0 then ok (- 1)
     else if sz < word_of_int (FullBoxLen + fixed) then err (ErrFullBoxSmall sz)
     else ok (wrap64 (sint sz - (FullBoxLen + fixed))))"

definition fb_Decode :: "FullBox \<Rightarrow> mov_file \<Rightarrow> (mp4_error, int \<times> FullBox \<times> mov_file) result" where
  "fb_Decode box f = rbind (read_full 4 f) (\<lambda>(buf, f). rbind (must (idx buf 0)) (\<lambda>v.
     ok (4, box\<lparr>fb_Version := v, fb_Flags := drop 1 buf\<rparr>, f)))"

definition fb_Encode :: "FullBox \<Rightarrow> (int \<times> bytes) option" where
  "fb_Encode box = do {
     (offset, buf) \<leftarrow> bx_Encode ((fb_Box box)\<lparr>bx_Size := fb_Size box\<rparr>);
     buf \<leftarrow> upd buf offset (fb_Version box);
     buf \<leftarrow> copy_at buf (offset + 1) (fb_Flags box);
     Some (offset + 4, buf)
   }"

definition set_size :: "u64 \<Rightarrow> FullBox \<Rightarrow> FullBox" where
  "set_size n box = box\<lparr>fb_Box := (fb_Box box)\<lparr>bx_Size := n\<rparr>\<rparr>"

section \<open>Filling and reading a buffer\<close>

type_synonym fill = "int \<times> bytes"

text \<open>\<open>binary.BigEndian.PutUint32(buf[offset:], v); offset += 4\<close> with \<open>be32 v\<close> for \<open>d\<close>.\<close>

definition put_bytes :: "bytes \<Rightarrow> fill \<Rightarrow> fill option" where
  "put_bytes d = (\<lambda>(offset, buf). do { buf \<leftarrow> put_at buf offset d; Some (offset + glen d, buf) })"

primrec put_all :: "('a \<Rightarrow> fill \<Rightarrow> fill option) \<Rightarrow> 'a list \<Rightarrow> fill \<Rightarrow> fill option" where
  "put_all put [] s = Some s"
| "put_all put (e # es) s = do { s \<leftarrow> put e s; put_all put es s }"

definition get32 :: "bytes \<Rightarrow> (u32 \<times> bytes) option" where
  "get32 b = do { v \<leftarrow> get_be32 b; Some (v, drop 4 b) }"

definition get64 :: "bytes \<Rightarrow> (u64 \<times> bytes) option" where
  "get64 b = do { v \<leftarrow> get_be64 b; Some (v, drop 8 b) }"

definition get16 :: "bytes \<Rightarrow> (u16 \<times> bytes) option" where
  "get16 b = do { v \<leftarrow> get_be16 b; Some (v, drop 2 b) }"

primrec get_all :: "(bytes \<Rightarrow> ('a \<times> bytes) option) \<Rightarrow> nat \<Rightarrow> bytes \<Rightarrow> 'a list option" where
  "get_all get 0 b = Some []"
| "get_all get (Suc n) b = do { (e, b) \<leftarrow> get b; es \<leftarrow> get_all get n b; Some (e # es) }"

lemma get_be [simp]: "get16 (be16 x @ r) = Some (x, r)" "get32 (be32 v @ r) = Some (v, r)" "get64 (be64 w @ r) = Some (w, r)"
  by (simp_all add: get16_def get32_def get64_def)

lemma get_total:
  "2 \<le> length b \<Longrightarrow> \<exists>v. get16 b = Some (v, drop 2 b)" "4 \<le> length b \<Longrightarrow> \<exists>v. get32 b = Some (v, drop 4 b)"
  "8 \<le> length b \<Longrightarrow> \<exists>v. get64 b = Some (v, drop 8 b)"
  using get_be16_total get_be32_total get_be64_total by (force simp: get16_def get32_def get64_def)+

text \<open>A buffer filled so far, and what a step adds to it.\<close>

definition filled :: "bytes \<Rightarrow> nat \<Rightarrow> fill \<Rightarrow> bool" where
  "filled pre n s \<longleftrightarrow> s = (glen pre, pre @ replicate n 0)"

definition fills :: "(fill \<Rightarrow> fill option) \<Rightarrow> bytes \<Rightarrow> bool" where
  "fills f d \<longleftrightarrow> (\<forall>pre n s. filled pre (length d + n) s \<longrightarrow> (\<exists>t. f s = Some t \<and> filled (pre @ d) n t))"

lemma fills_put_bytes: "fills (put_bytes d) d"
  by (simp add: fills_def filled_def put_bytes_def put_at_def)

lemma fills_bind:
  assumes "fills f d" and "fills g d'" shows "fills (\<lambda>s. Option.bind (f s) g) (d @ d')"
  unfolding fills_def
proof (intro allI impI)
  fix pre n s
  assume "filled pre (length (d @ d') + n) s"
  then have "filled pre (length d + (length d' + n)) s" by (simp add: add.assoc)
  then obtain t where t: "f s = Some t" "filled (pre @ d) (length d' + n) t" using assms(1) unfolding fills_def by blast
  moreover have "\<exists>u. g t = Some u \<and> filled ((pre @ d) @ d') n u" using assms(2) t(2) unfolding fills_def by blast
  ultimately show "\<exists>t. Option.bind (f s) g = Some t \<and> filled (pre @ d @ d') n t" by auto
qed

lemma fills_put_all:
  assumes "\<And>e. fills (put e) (enc e)" shows "fills (put_all put es) (concat (map enc es))"
proof (induction es)
  case Nil
  show ?case by (auto simp: fills_def)
next
  case (Cons e es)
  have "fills (\<lambda>s. Option.bind (put e s) (put_all put es)) (enc e @ concat (map enc es))"
    by (rule fills_bind [OF assms Cons])
  then show ?case by simp
qed

lemma put_all_map: "put_all put (map g es) s = put_all (\<lambda>v. put (g v)) es s"
  by (induction es arbitrary: s) (simp_all cong: Option.bind_cong)

lemma fills_put_all_be: "fills (put_all (\<lambda>v. put_bytes (be32 v)) vs) (concat (map be32 vs))"
  by (rule fills_put_all) (rule fills_put_bytes)

lemma rbind_assoc: "rbind (rbind m f) g = rbind m (\<lambda>x. rbind (f x) g)"
  by (cases m) (auto simp: rbind_def split: sum.split)

section \<open>Tables of entries\<close>

text \<open>
  What the tables rely on: an entry takes \<open>k\<close> bytes, is read back from them, and any \<open>k\<close> bytes are
  read as some entry.
\<close>

locale table_entry =
  fixes enc :: "'a \<Rightarrow> bytes" and get :: "bytes \<Rightarrow> ('a \<times> bytes) option" and k :: nat
  assumes get_enc: "get (enc e @ r) = Some (e, r)"
    and len_enc: "length (enc e) = k"
    and get_some: "k \<le> length b \<Longrightarrow> \<exists>e. get b = Some (e, drop k b)"
begin

lemma get_all_enc: "get_all get (length es) (concat (map enc es) @ r) = Some es"
  by (induction es) (simp_all add: get_enc)

lemma length_concat_enc: "length (concat (map enc es)) = k * length es"
  by (induction es) (simp_all add: len_enc)

lemma get_all_total: "k * n \<le> length b \<Longrightarrow> \<exists>es. get_all get n b = Some es \<and> length es = n"
proof (induction n arbitrary: b)
  case (Suc n)
  have "k \<le> length b" using Suc.prems by (cases k) auto
  then obtain e where e: "get b = Some (e, drop k b)" using get_some by blast
  have "k * n \<le> length (drop k b)" using Suc.prems by simp
  then obtain es where "get_all get n (drop k b) = Some es" "length es = n" using Suc.IH by blast
  then show ?case using e by simp
qed simp

end

section \<open>The sample table boxes\<close>

record sttsEntry =
  st_sampleCount :: u32
  st_sampleDelta :: u32

record movstts =
  stts_entryCount :: u32
  stts_entrys :: "sttsEntry list"

record cttsEntry =
  ct_sampleCount :: u32
  ct_sampleOffset :: u32

record movctts =
  ctts_version :: byte
  ctts_entryCount :: u32
  ctts_entrys :: "cttsEntry list"

record stscEntry =
  sc_firstChunk :: u32
  sc_samplesPerChunk :: u32
  sc_sampleDescriptionIndex :: u32

record movstsc =
  stsc_entryCount :: u32
  stsc_entrys :: "stscEntry list"

record movstsz =
  stsz_sampleSize :: u32
  stsz_sampleCount :: u32
  stsz_entrySizelist :: "u32 list"

record movstco =
  stco_entryCount :: u32
  stco_chunkOffsetlist :: "u64 list"

text \<open>The signed offset of entry \<open>i\<close>.\<close>

definition sampleOffset :: "movctts \<Rightarrow> int \<Rightarrow> int option" where
  "sampleOffset ctts i = do {
     e \<leftarrow> idx (ctts_entrys ctts) i;
     Some (if ctts_version ctts = 1 then sint (ct_sampleOffset e) else uint (ct_sampleOffset e))
   }"

text \<open>\<open>stts\<close>\<close>

record TimeToSampleBox =
  tts_box :: FullBox
  tts_entryList :: "movstts option"

definition NewTimeToSampleBox :: TimeToSampleBox where
  "NewTimeToSampleBox = \<lparr>tts_box = NewFullBox (tag ''stts'') 0, tts_entryList = None\<rparr>"

definition stts_Size :: "TimeToSampleBox \<Rightarrow> u64" where
  "stts_Size stts = (case tts_entryList stts of None \<Rightarrow> fb_Size (tts_box stts)
     | Some l \<Rightarrow> fb_Size (tts_box stts) + 4 + 8 * ucast (stts_entryCount l))"

definition put_sttsEntry :: "sttsEntry \<Rightarrow> fill \<Rightarrow> fill option" where
  "put_sttsEntry e s = do { s \<leftarrow> put_bytes (be32 (st_sampleCount e)) s; put_bytes (be32 (st_sampleDelta e)) s }"

definition get_sttsEntry :: "bytes \<Rightarrow> (sttsEntry \<times> bytes) option" where
  "get_sttsEntry b = do { (c, b) \<leftarrow> get32 b; (d, b) \<leftarrow> get32 b; Some (\<lparr>st_sampleCount = c, st_sampleDelta = d\<rparr>, b) }"

definition stts_Encode :: "TimeToSampleBox \<Rightarrow> (int \<times> bytes) option" where
  "stts_Encode stts = do {
     s \<leftarrow> fb_Encode (set_size (stts_Size stts) (tts_box stts));
     l \<leftarrow> tts_entryList stts;
     s \<leftarrow> put_bytes (be32 (stts_entryCount l)) s;
     es \<leftarrow> slice_to (stts_entrys l) (uint (stts_entryCount l));
     put_all put_sttsEntry es s
   }"

definition stts_Decode :: "TimeToSampleBox \<Rightarrow> mov_file \<Rightarrow> (mp4_error, int \<times> TimeToSampleBox \<times> mov_file) result" where
  "stts_Decode stts f = rbind (fb_Decode (tts_box stts) f) (\<lambda>(_, box, f).
     rbind (read_full 4 f) (\<lambda>(b, f).
     rbind (must (get_be32 b)) (\<lambda>entryCount.
     rbind (tableRemain 4 box) (\<lambda>remain.
     rbind (checkTableSize entryCount 8 remain) (\<lambda>_.
     rbind (read_full (uint entryCount * 8) f) (\<lambda>(buf, f).
     rbind (must (get_all get_sttsEntry (unat entryCount) buf)) (\<lambda>es.
     ok (8 + uint entryCount * 8,
       \<lparr>tts_box = box, tts_entryList = Some \<lparr>stts_entryCount = entryCount, stts_entrys = es\<rparr>\<rparr>, f))))))))"

definition makeStts :: "movstts \<Rightarrow> bytes option" where
  "makeStts stts = do { (_, boxdata) \<leftarrow> stts_Encode (NewTimeToSampleBox\<lparr>tts_entryList := Some stts\<rparr>); Some boxdata }"

text \<open>\<open>ctts\<close>\<close>

record CompositionOffsetBox =
  cob_box :: FullBox
  cob_ctts :: "movctts option"

definition NewCompositionOffsetBox :: CompositionOffsetBox where
  "NewCompositionOffsetBox = \<lparr>cob_box = NewFullBox (tag ''ctts'') 0, cob_ctts = None\<rparr>"

definition ctts_Size :: "CompositionOffsetBox \<Rightarrow> u64" where
  "ctts_Size c = (case cob_ctts c of None \<Rightarrow> fb_Size (cob_box c)
     | Some l \<Rightarrow> fb_Size (cob_box c) + 4 + 8 * ucast (ctts_entryCount l))"

definition put_cttsEntry :: "cttsEntry \<Rightarrow> fill \<Rightarrow> fill option" where
  "put_cttsEntry e s = do { s \<leftarrow> put_bytes (be32 (ct_sampleCount e)) s; put_bytes (be32 (ct_sampleOffset e)) s }"

definition get_cttsEntry :: "bytes \<Rightarrow> (cttsEntry \<times> bytes) option" where
  "get_cttsEntry b = do { (c, b) \<leftarrow> get32 b; (d, b) \<leftarrow> get32 b; Some (\<lparr>ct_sampleCount = c, ct_sampleOffset = d\<rparr>, b) }"

definition ctts_Encode :: "CompositionOffsetBox \<Rightarrow> (int \<times> bytes) option" where
  "ctts_Encode c = do {
     s \<leftarrow> fb_Encode (set_size (ctts_Size c) (cob_box c));
     l \<leftarrow> cob_ctts c;
     s \<leftarrow> put_bytes (be32 (ctts_entryCount l)) s;
     es \<leftarrow> slice_to (ctts_entrys l) (uint (ctts_entryCount l));
     put_all put_cttsEntry es s
   }"

definition ctts_Decode :: "CompositionOffsetBox \<Rightarrow> mov_file \<Rightarrow> (mp4_error, int \<times> CompositionOffsetBox \<times> mov_file) result" where
  "ctts_Decode c f = rbind (fb_Decode (cob_box c) f) (\<lambda>(_, box, f).
     rbind (read_full 4 f) (\<lambda>(b, f).
     rbind (must (get_be32 b)) (\<lambda>entryCount.
     rbind (tableRemain 4 box) (\<lambda>remain.
     rbind (checkTableSize entryCount 8 remain) (\<lambda>_.
     rbind (read_full (uint entryCount * 8) f) (\<lambda>(buf, f).
     rbind (must (get_all get_cttsEntry (unat entryCount) buf)) (\<lambda>es.
     ok (8 + uint entryCount * 8, \<lparr>cob_box = box,
       cob_ctts = Some \<lparr>ctts_version = fb_Version box, ctts_entryCount = entryCount, ctts_entrys = es\<rparr>\<rparr>, f))))))))"

definition makeCtts :: "movctts \<Rightarrow> bytes option" where
  "makeCtts ctts = (let b = NewCompositionOffsetBox in do {
     (_, boxdata) \<leftarrow> ctts_Encode (b\<lparr>cob_box := (cob_box b)\<lparr>fb_Version := ctts_version ctts\<rparr>, cob_ctts := Some ctts\<rparr>);
     Some boxdata
   })"

text \<open>\<open>stsc\<close>\<close>

record SampleToChunkBox =
  stc_box :: FullBox
  stc_stscentrys :: "movstsc option"

definition NewSampleToChunkBox :: SampleToChunkBox where
  "NewSampleToChunkBox = \<lparr>stc_box = NewFullBox (tag ''stsc'') 0, stc_stscentrys = None\<rparr>"

definition stsc_Size :: "SampleToChunkBox \<Rightarrow> u64" where
  "stsc_Size c = (case stc_stscentrys c of None \<Rightarrow> fb_Size (stc_box c)
     | Some l \<Rightarrow> fb_Size (stc_box c) + 4 + 12 * ucast (stsc_entryCount l))"

definition put_stscEntry :: "stscEntry \<Rightarrow> fill \<Rightarrow> fill option" where
  "put_stscEntry e s = do {
     s \<leftarrow> put_bytes (be32 (sc_firstChunk e)) s;
     s \<leftarrow> put_bytes (be32 (sc_samplesPerChunk e)) s;
     put_bytes (be32 (sc_sampleDescriptionIndex e)) s
   }"

definition get_stscEntry :: "bytes \<Rightarrow> (stscEntry \<times> bytes) option" where
  "get_stscEntry b = do {
     (c, b) \<leftarrow> get32 b;
     (n, b) \<leftarrow> get32 b;
     (d, b) \<leftarrow> get32 b;
     Some (\<lparr>sc_firstChunk = c, sc_samplesPerChunk = n, sc_sampleDescriptionIndex = d\<rparr>, b)
   }"

definition stsc_Encode :: "SampleToChunkBox \<Rightarrow> (int \<times> bytes) option" where
  "stsc_Encode c = do {
     s \<leftarrow> fb_Encode (set_size (stsc_Size c) (stc_box c));
     l \<leftarrow> stc_stscentrys c;
     s \<leftarrow> put_bytes (be32 (stsc_entryCount l)) s;
     es \<leftarrow> slice_to (stsc_entrys l) (uint (stsc_entryCount l));
     put_all put_stscEntry es s
   }"

definition stsc_Decode :: "SampleToChunkBox \<Rightarrow> mov_file \<Rightarrow> (mp4_error, int \<times> SampleToChunkBox \<times> mov_file) result" where
  "stsc_Decode c f = rbind (fb_Decode (stc_box c) f) (\<lambda>(_, box, f).
     rbind (read_full 4 f) (\<lambda>(b, f).
     rbind (must (get_be32 b)) (\<lambda>entryCount.
     rbind (tableRemain 4 box) (\<lambda>remain.
     rbind (checkTableSize entryCount 12 remain) (\<lambda>_.
     rbind (read_full (uint entryCount * 12) f) (\<lambda>(buf, f).
     rbind (must (get_all get_stscEntry (unat entryCount) buf)) (\<lambda>es.
     ok (8 + uint entryCount * 12,
       \<lparr>stc_box = box, stc_stscentrys = Some \<lparr>stsc_entryCount = entryCount, stsc_entrys = es\<rparr>\<rparr>, f))))))))"

definition makeStsc :: "movstsc \<Rightarrow> bytes option" where
  "makeStsc stsc = do { (_, boxdata) \<leftarrow> stsc_Encode (NewSampleToChunkBox\<lparr>stc_stscentrys := Some stsc\<rparr>); Some boxdata }"

text \<open>\<open>stsz\<close>; \<open>entryCount\<close> is the number of sizes written out.\<close>

record SampleSizeBox =
  ssb_box :: FullBox
  ssb_stsz :: "movstsz option"

definition NewSampleSizeBox :: SampleSizeBox where
  "NewSampleSizeBox = \<lparr>ssb_box = NewFullBox (tag ''stsz'') 0, ssb_stsz = None\<rparr>"

definition ssb_entryCount :: "SampleSizeBox \<Rightarrow> int" where
  "ssb_entryCount b = (case ssb_stsz b of None \<Rightarrow> 0
     | Some z \<Rightarrow> if stsz_sampleSize z \<noteq> 0 then 0
         else let n = uint (stsz_sampleCount z) in if n > glen (stsz_entrySizelist z) then glen (stsz_entrySizelist z) else n)"

definition stsz_Size :: "SampleSizeBox \<Rightarrow> u64" where
  "stsz_Size b = (case ssb_stsz b of None \<Rightarrow> fb_Size (ssb_box b)
     | Some z \<Rightarrow> fb_Size (ssb_box b) + 8 + 4 * word_of_int (ssb_entryCount b))"

definition stsz_Encode :: "SampleSizeBox \<Rightarrow> (int \<times> bytes) option" where
  "stsz_Encode b = do {
     s \<leftarrow> fb_Encode (set_size (stsz_Size b) (ssb_box b));
     z \<leftarrow> ssb_stsz b;
     s \<leftarrow> put_bytes (be32 (stsz_sampleSize z)) s;
     let n = ssb_entryCount b;
     s \<leftarrow> put_bytes (be32 (if stsz_sampleSize z = 0 then word_of_int n else stsz_sampleCount z)) s;
     es \<leftarrow> slice_to (stsz_entrySizelist z) n;
     put_all (\<lambda>v. put_bytes (be32 v)) es s
   }"

definition stsz_Decode :: "SampleSizeBox \<Rightarrow> mov_file \<Rightarrow> (mp4_error, int \<times> SampleSizeBox \<times> mov_file) result" where
  "stsz_Decode s f = rbind (fb_Decode (ssb_box s) f) (\<lambda>(_, box, f).
     rbind (read_full 8 f) (\<lambda>(tmp, f).
     rbind (must (get32 tmp)) (\<lambda>(sampleSize, tmp).
     rbind (must (get_be32 tmp)) (\<lambda>sampleCount.
     if sampleSize = 0 then
       rbind (tableRemain 8 box) (\<lambda>remain.
       rbind (checkTableSize sampleCount 4 remain) (\<lambda>_.
       rbind (read_full (uint sampleCount * 4) f) (\<lambda>(buf, f).
       rbind (must (get_all get32 (unat sampleCount) buf)) (\<lambda>es.
       ok (12 + uint sampleCount * 4, \<lparr>ssb_box = box,
         ssb_stsz = Some \<lparr>stsz_sampleSize = 0, stsz_sampleCount = sampleCount, stsz_entrySizelist = es\<rparr>\<rparr>, f)))))
     else ok (12, \<lparr>ssb_box = box,
       ssb_stsz = Some \<lparr>stsz_sampleSize = sampleSize, stsz_sampleCount = sampleCount, stsz_entrySizelist = []\<rparr>\<rparr>, f)))))"

definition makeStsz :: "movstsz \<Rightarrow> bytes option" where
  "makeStsz stsz = do { (_, boxdata) \<leftarrow> stsz_Encode (NewSampleSizeBox\<lparr>ssb_stsz := Some stsz\<rparr>); Some boxdata }"

text \<open>\<open>stco\<close> and \<open>co64\<close>\<close>

record ChunkOffsetBox =
  cko_box :: FullBox
  cko_stco :: "movstco option"

definition NewChunkOffsetBox :: ChunkOffsetBox where
  "NewChunkOffsetBox = \<lparr>cko_box = NewFullBox (tag ''stco'') 0, cko_stco = None\<rparr>"

definition stco_Size :: "ChunkOffsetBox \<Rightarrow> u64" where
  "stco_Size c = (case cko_stco c of None \<Rightarrow> fb_Size (cko_box c)
     | Some l \<Rightarrow> fb_Size (cko_box c) + 4 + 4 * ucast (stco_entryCount l))"

definition stco_Encode :: "ChunkOffsetBox \<Rightarrow> (int \<times> bytes) option" where
  "stco_Encode c = do {
     s \<leftarrow> fb_Encode (set_size (stco_Size c) (cko_box c));
     l \<leftarrow> cko_stco c;
     s \<leftarrow> put_bytes (be32 (stco_entryCount l)) s;
     es \<leftarrow> slice_to (stco_chunkOffsetlist l) (uint (stco_entryCount l));
     put_all (\<lambda>v. put_bytes (be32 (ucast v))) es s
   }"

definition stco_Decode :: "ChunkOffsetBox \<Rightarrow> mov_file \<Rightarrow> (mp4_error, int \<times> ChunkOffsetBox \<times> mov_file) result" where
  "stco_Decode c f = rbind (fb_Decode (cko_box c) f) (\<lambda>(_, box, f).
     rbind (read_full 4 f) (\<lambda>(b, f).
     rbind (must (get_be32 b)) (\<lambda>entryCount.
     rbind (tableRemain 4 box) (\<lambda>remain.
     rbind (checkTableSize entryCount 4 remain) (\<lambda>_.
     rbind (read_full (uint entryCount * 4) f) (\<lambda>(buf, f).
     rbind (must (get_all get32 (unat entryCount) buf)) (\<lambda>es.
     ok (8 + uint entryCount * 4, \<lparr>cko_box = box,
       cko_stco = Some \<lparr>stco_entryCount = entryCount, stco_chunkOffsetlist = map ucast es\<rparr>\<rparr>, f))))))))"

definition NewChunkLargeOffsetBox :: ChunkOffsetBox where
  "NewChunkLargeOffsetBox = \<lparr>cko_box = NewFullBox (tag ''co64'') 0, cko_stco = None\<rparr>"

definition co64_Size :: "ChunkOffsetBox \<Rightarrow> u64" where
  "co64_Size c = (case cko_stco c of None \<Rightarrow> fb_Size (cko_box c)
     | Some l \<Rightarrow> fb_Size (cko_box c) + 4 + 8 * ucast (stco_entryCount l))"

definition co64_Encode :: "ChunkOffsetBox \<Rightarrow> (int \<times> bytes) option" where
  "co64_Encode c = do {
     s \<leftarrow> fb_Encode (set_size (co64_Size c) (cko_box c));
     l \<leftarrow> cko_stco c;
     s \<leftarrow> put_bytes (be32 (stco_entryCount l)) s;
     es \<leftarrow> slice_to (stco_chunkOffsetlist l) (uint (stco_entryCount l));
     put_all (\<lambda>v. put_bytes (be64 v)) es s
   }"

definition co64_Decode :: "ChunkOffsetBox \<Rightarrow> mov_file \<Rightarrow> (mp4_error, int \<times> ChunkOffsetBox \<times> mov_file) result" where
  "co64_Decode c f = rbind (fb_Decode (cko_box c) f) (\<lambda>(_, box, f).
     rbind (read_full 4 f) (\<lambda>(b, f).
     rbind (must (get_be32 b)) (\<lambda>entryCount.
     rbind (tableRemain 4 box) (\<lambda>remain.
     rbind (checkTableSize entryCount 8 remain) (\<lambda>_.
     rbind (read_full (uint entryCount * 8) f) (\<lambda>(buf, f).
     rbind (must (get_all get64 (unat entryCount) buf)) (\<lambda>es.
     ok (8 + uint entryCount * 8, \<lparr>cko_box = box,
       cko_stco = Some \<lparr>stco_entryCount = entryCount, stco_chunkOffsetlist = es\<rparr>\<rparr>, f))))))))"

definition makeStco :: "movstco \<Rightarrow> bytes option" where
  "makeStco stco = do {
     large \<leftarrow> (if stco_entryCount stco > 0 then do {
         l \<leftarrow> idx (stco_chunkOffsetlist stco) (uint (stco_entryCount stco - 1));
         Some (l > 0xFFFFFFFF)
       } else Some False);
     (_, boxdata) \<leftarrow> (if large then co64_Encode (NewChunkLargeOffsetBox\<lparr>cko_stco := Some stco\<rparr>)
       else stco_Encode (NewChunkOffsetBox\<lparr>cko_stco := Some stco\<rparr>));
     Some boxdata
   }"

text \<open>\<open>stss\<close>\<close>

record SyncSampleBox =
  ssy_box :: FullBox
  ssy_entrys :: "u32 list"

definition NewSyncSampleBox :: SyncSampleBox where
  "NewSyncSampleBox = \<lparr>ssy_box = NewFullBox (tag ''stss'') 0, ssy_entrys = []\<rparr>"

definition stss_Size :: "SyncSampleBox \<Rightarrow> u64" where
  "stss_Size s = (if ssy_entrys s = [] then fb_Size (ssy_box s) + 4
     else fb_Size (ssy_box s) + 4 + 4 * word_of_nat (length (ssy_entrys s)))"

definition stss_Encode :: "SyncSampleBox \<Rightarrow> (int \<times> bytes) option" where
  "stss_Encode b = do {
     s \<leftarrow> fb_Encode (set_size (stss_Size b) (ssy_box b));
     s \<leftarrow> put_bytes (be32 (word_of_nat (length (ssy_entrys b)))) s;
     put_all (\<lambda>v. put_bytes (be32 v)) (ssy_entrys b) s
   }"

definition stss_Decode :: "SyncSampleBox \<Rightarrow> mov_file \<Rightarrow> (mp4_error, int \<times> SyncSampleBox \<times> mov_file) result" where
  "stss_Decode s f = rbind (fb_Decode (ssy_box s) f) (\<lambda>(_, box, f).
     rbind (read_full 4 f) (\<lambda>(b, f).
     rbind (must (get_be32 b)) (\<lambda>entry_count.
     rbind (tableRemain 4 box) (\<lambda>remain.
     rbind (checkTableSize entry_count 4 remain) (\<lambda>_.
     rbind (read_full (uint entry_count * 4) f) (\<lambda>(buf, f).
     rbind (must (get_all get32 (unat entry_count) buf)) (\<lambda>es.
     ok (8 + uint entry_count * 4, \<lparr>ssy_box = box, ssy_entrys = es\<rparr>, f))))))))"

section \<open>A box is written and read\<close>

definition fb_head :: "nat \<Rightarrow> bytes \<Rightarrow> byte \<Rightarrow> bytes" where
  "fb_head n boxtype v = be32 (word_of_nat n) @ boxtype @ [v, 0, 0, 0]"

lemma length_tag [simp]: "length (tag s) = length s" by (simp add: tag_def)

lemma small_u64: "n < 2 ^ 64 \<Longrightarrow> unat (word_of_nat n :: u64) = n"
  by (simp add: unat_of_nat)

lemma ucast_u32_of_nat: "m < 2 ^ 32 \<Longrightarrow> (ucast (word_of_nat m :: u64) :: u32) = word_of_nat m"
  by (simp add: word_unat_eq_iff unsigned_ucast_eq unat_of_nat take_bit_eq_mod)

lemma ucast_u64_of_nat: "m < 2 ^ 32 \<Longrightarrow> (ucast (word_of_nat m :: u32) :: u64) = word_of_nat m"
  by (simp add: word_unat_eq_iff unsigned_ucast_eq unat_of_nat take_bit_eq_mod)

lemma copy_at_zeros: "length d = k \<Longrightarrow> copy_at (pre @ replicate (k + n) z) (glen pre) d = Some (pre @ d @ replicate n z)"
  by (simp add: copy_at_def)

lemma put_at_append: "length d = k \<Longrightarrow> put_at (pre @ replicate (k + n) z) (glen pre) d = Some (pre @ d @ replicate n z)"
  by (simp add: put_at_def)

definition new_box :: "bytes \<Rightarrow> byte \<Rightarrow> bytes \<Rightarrow> FullBox" where
  "new_box boxtype v fl = \<lparr>fb_Box = NewBasicBox boxtype, fb_Version = v, fb_Flags = fl\<rparr>"

lemma fb_Encode_filled:
  assumes ty: "length boxtype = 4" "boxtype \<noteq> tag ''uuid''" and fl: "length fl = 3" and n: "n + 12 < 2 ^ 32"
  shows "\<exists>s. fb_Encode (set_size (word_of_nat (n + 12)) (new_box boxtype v fl)) = Some s \<and>
    filled (be32 (word_of_nat (n + 12)) @ boxtype @ v # fl) n s"
proof -
  let ?S = "word_of_nat (n + 12) :: u64" and ?w = "be32 (word_of_nat (n + 12))"
  have u: "unat ?S = n + 12" using n by (intro small_u64) simp
  have "\<not> 0xFFFFFFFF < ?S" using n by (simp add: word_less_nat_alt u del: of_nat_add)
  moreover have "0 < ?S" by (simp add: word_less_nat_alt u del: of_nat_add)
  moreover have "uint ?S = int (n + 12)" using u by (simp only: uint_nat)
  moreover have "(ucast ?S :: u32) = word_of_nat (n + 12)" by (rule ucast_u32_of_nat [OF n])
  moreover have "put_at (replicate (n + 12) 0) 0 ?w = Some (?w @ replicate (4 + (n + 4)) 0)"
    using put_at_append [of ?w 4 "[]" "n + 8" 0] by (simp add: add.commute)
  moreover have "copy_at (?w @ replicate (4 + (n + 4)) 0) 4 boxtype = Some (?w @ boxtype @ replicate (n + 4) 0)"
    using copy_at_zeros [of boxtype 4 ?w "n + 4" 0] ty(1) by simp
  moreover have "upd (?w @ boxtype @ replicate (n + 4) 0) 8 v = Some ((?w @ boxtype @ [v]) @ replicate (3 + n) 0)"
    using ty(1) by (simp add: upd_def list_update_append numeral_eq_Suc)
  moreover have "copy_at ((?w @ boxtype @ [v]) @ replicate (3 + n) 0) 9 fl = Some ((?w @ boxtype @ [v]) @ fl @ replicate n 0)"
    using copy_at_zeros [of fl 3 "?w @ boxtype @ [v]" n 0] ty(1) fl by simp
  ultimately show ?thesis using ty fl
    by (simp add: fb_Encode_def set_size_def new_box_def NewBasicBox_def fb_Size_def bx_Encode_def make_bytes_def filled_def
        del: of_nat_add replicate_add)
qed

text \<open>The box whose body a chain of steps fills.\<close>

lemma flags_box_written:
  assumes "length boxtype = 4" "boxtype \<noteq> tag ''uuid''" "length fl = 3" "length d + 12 < 2 ^ 32" "fills g d"
  shows "do { s \<leftarrow> fb_Encode (set_size (word_of_nat (length d + 12)) (new_box boxtype v fl)); g s } =
    Some (glen d + 12, be32 (word_of_nat (length d + 12)) @ boxtype @ (v # fl) @ d)"
proof -
  let ?h = "be32 (word_of_nat (length d + 12)) @ boxtype @ v # fl"
  obtain s where s: "fb_Encode (set_size (word_of_nat (length d + 12)) (new_box boxtype v fl)) = Some s" "filled ?h (length d) s"
    using fb_Encode_filled [OF assms(1-4)] by blast
  then have "filled ?h (length d + 0) s" by simp
  then obtain t where t: "g s = Some t" "filled (?h @ d) 0 t" using assms(5) unfolding fills_def by blast
  have "t = (glen d + 12, ?h @ d)" using t(2) assms(1,3) by (simp add: filled_def)
  then show ?thesis using s(1) t(1) by simp
qed

lemma full_box_written:
  assumes "length boxtype = 4" "boxtype \<noteq> tag ''uuid''" "length d + 12 < 2 ^ 32" "fills g d"
  shows "do { s \<leftarrow> fb_Encode (set_size (word_of_nat (length d + 12)) (NewFullBox boxtype v)); g s } =
    Some (glen d + 12, fb_head (length d + 12) boxtype v @ d)"
  using flags_box_written [OF assms(1,2) _ assms(3,4), of "[0, 0, 0]" v] by (simp add: new_box_def NewFullBox_def fb_head_def)

definition ahead :: "mov_file \<Rightarrow> bytes \<Rightarrow> bool" where
  "ahead f d \<longleftrightarrow> 0 \<le> mf_pos f \<and> drop (nat (mf_pos f)) (mf_bytes f) = d"

definition skip :: "int \<Rightarrow> mov_file \<Rightarrow> mov_file" where
  "skip n f = f\<lparr>mf_pos := mf_pos f + n\<rparr>"

lemma skip_skip [simp]: "skip n (skip m f) = skip (m + n) f" by (simp add: skip_def)

lemma ahead_skip: "ahead f (d @ r) \<Longrightarrow> n = glen d \<Longrightarrow> ahead (skip n f) r"
  by (auto simp: ahead_def skip_def nat_add_distrib drop_drop [symmetric] add.commute simp del: drop_drop)

lemma read_full_ahead: "ahead f (d @ r) \<Longrightarrow> n = glen d \<Longrightarrow> read_full n f = ok (d, skip n f)"
  using file_ReadFull_here [of f d r n] by (simp add: read_full_def ahead_def skip_def)

lemma read_full_length: "read_full n f = ok (d, f') \<Longrightarrow> 0 \<le> n \<Longrightarrow> length d = nat n"
  by (auto simp: read_full_def file_ReadFull_def Let_def split: prod.splits sum.splits if_splits)

lemma returns_read_full [returns_intros]: "0 \<le> n \<Longrightarrow> returns (\<lambda>(d, f). length d = nat n) (read_full n f)"
  by (auto simp: read_full_def file_ReadFull_def Let_def)

definition with_version :: "byte \<Rightarrow> FullBox \<Rightarrow> FullBox" where
  "with_version v box = box\<lparr>fb_Version := v, fb_Flags := [0, 0, 0]\<rparr>"

lemma with_version_sel [simp]: "fb_Box (with_version v box) = fb_Box box" "fb_Version (with_version v box) = v"
  by (simp_all add: with_version_def)

lemma fb_Decode_ahead: "ahead f ([v, 0, 0, 0] @ r) \<Longrightarrow> fb_Decode box f = ok (4, with_version v box, skip 4 f)"
  using read_full_ahead [of f "[v, 0, 0, 0]" r 4] by (simp add: fb_Decode_def idx_def with_version_def)

lemma returns_fb_Decode [returns_intros]: "returns (\<lambda>_. True) (fb_Decode box f)"
  unfolding fb_Decode_def by (rule returns_rbind [OF returns_read_full]) (auto simp: idx_def)

lemma fb_Decode_box: "fb_Decode box f = ok (n, box', f') \<Longrightarrow> fb_Box box' = fb_Box box"
  by (auto simp: fb_Decode_def rbind_eq_ok)

lemma sint_u64_of_nat: "m < 2 ^ 63 \<Longrightarrow> sint (word_of_nat m :: u64) = int m"
  by (simp add: signed_of_nat signed_take_bit_int_eq_self)

lemma table_fits:
  assumes "c * k \<le> 0x10000000" and "bx_Size (fb_Box box) = word_of_nat (12 + h + c * k)" and "h \<le> 100"
  shows "tableRemain (int h) box = ok (int (c * k))" and "0 < k \<Longrightarrow> checkTableSize (word_of_nat c) (int k) (int (c * k)) = ok ()"
proof -
  let ?m = "12 + h + c * k"
  have m: "?m < 2 ^ 63" using assms(1,3) by simp
  have u: "unat (word_of_nat ?m :: u64) = ?m" by (rule small_u64) (use m in simp)
  have si: "sint (word_of_nat ?m :: u64) = int ?m"
    by (rule sint_u64_of_nat [OF m])
  have hu: "unat (word_of_int (12 + int h) :: u64) = 12 + h"
  proof -
    have "(word_of_int (12 + int h) :: u64) = word_of_nat (12 + h)" by simp
    moreover have "unat (word_of_nat (12 + h) :: u64) = 12 + h" by (rule small_u64) (use assms(3) in simp)
    ultimately show ?thesis by (simp only:)
  qed
  have "\<not> word_of_nat ?m < (word_of_int (12 + int h) :: u64)" by (simp only: word_less_nat_alt u hu)
  moreover have "word_of_nat ?m \<noteq> (0 :: u64)" using u by (intro notI) simp
  moreover have "wrap64 (int ?m - (12 + int h)) = int (c * k)"
  proof -
    have "int (c * k) \<le> int 0x10000000" using assms(1) by (simp only: of_nat_le_iff)
    moreover have "wrap64 q = q" if "0 \<le> q" "q \<le> int 0x10000000" for q using that by (intro wrap64_id) simp_all
    ultimately have "wrap64 (int (c * k)) = int (c * k)" by (metis of_nat_0_le_iff)
    then show ?thesis by simp
  qed
  ultimately show "tableRemain (int h) box = ok (int (c * k))"
    using assms(2) by (simp only: tableRemain_def Let_def FullBoxLen_def if_False si)
  assume "0 < k"
  then have "c \<le> 0x10000000" using assms(1) by (cases k) auto
  then have "(ucast (word_of_nat c :: u32) :: u64) = word_of_nat c" by (intro ucast_u64_of_nat) simp
  then have prod: "(ucast (word_of_nat c :: u32) :: u64) * word_of_int (int k) = word_of_nat (c * k)" by simp
  have w: "unat (word_of_nat (c * k) :: u64) = c * k" using assms(1) by (intro small_u64) simp
  then have "uint (word_of_nat (c * k) :: u64) = int (c * k)" by (simp only: uint_nat)
  moreover have "(word_of_int (int (c * k)) :: u64) = word_of_nat (c * k)" by simp
  moreover have le: "\<not> 0x10000000 < int (c * k)" using assms(1) by (metis of_nat_le_iff of_nat_numeral not_less)
  ultimately show "checkTableSize (word_of_nat c) (int k) (int (c * k)) = ok ()"
    using le by (simp only: checkTableSize_def Let_def prod maxBoxPayloadSize_def if_False less_irrefl simp_thms)
qed

text \<open>A table behind its count: what is read, and that something is.\<close>

definition table_read :: "(bytes \<Rightarrow> ('a \<times> bytes) option) \<Rightarrow> nat \<Rightarrow> FullBox \<Rightarrow> mov_file
    \<Rightarrow> (FullBox \<Rightarrow> u32 \<Rightarrow> 'a list \<Rightarrow> mov_file \<Rightarrow> (mp4_error, 'b) result) \<Rightarrow> (mp4_error, 'b) result" where
  "table_read get k box0 f F = rbind (fb_Decode box0 f) (\<lambda>(_, box, f).
     rbind (read_full 4 f) (\<lambda>(b, f).
     rbind (must (get_be32 b)) (\<lambda>count.
     rbind (tableRemain 4 box) (\<lambda>remain.
     rbind (checkTableSize count (int k) remain) (\<lambda>_.
     rbind (read_full (uint count * int k) f) (\<lambda>(buf, f).
     rbind (must (get_all get (unat count) buf)) (\<lambda>es. F box count es f)))))))"

lemma returns_limits [returns_intros]: "returns (\<lambda>_. True) (tableRemain n box)" "returns (\<lambda>_. True) (checkTableSize c m i)"
  by (simp_all add: tableRemain_def checkTableSize_def Let_def)

lemma returns_must [returns_intros]:
  "2 \<le> length b \<Longrightarrow> returns (\<lambda>_. True) (must (get_be16 b))" "4 \<le> length b \<Longrightarrow> returns (\<lambda>_. True) (must (get_be32 b))"
  "8 \<le> length b \<Longrightarrow> returns (\<lambda>_. True) (must (get_be64 b))" "4 \<le> length b \<Longrightarrow> returns (\<lambda>(v, r). r = drop 4 b) (must (get32 b))"
  using get_be16_total [of b] get_be32_total [of b] get_be64_total [of b] by (auto simp: get32_def)

context table_entry
begin

lemma table_read_enc:
  assumes "ahead f ([v, 0, 0, 0] @ be32 (word_of_nat (length es)) @ concat (map enc es) @ r)" and "0 < k"
    and "length es * k \<le> 0x10000000" and "bx_Size (fb_Box box) = word_of_nat (16 + length es * k)"
  shows "table_read get k box f F = F (with_version v box) (word_of_nat (length es)) es (skip (8 + int (length es * k)) f)"
proof -
  let ?c = "length es" and ?f1 = "skip 4 f"
  have "?c \<le> 0x10000000" using assms(2,3) by (cases k) auto
  then have uc: "unat (word_of_nat ?c :: u32) = ?c" by (simp add: unat_of_nat)
  then have ui: "uint (word_of_nat ?c :: u32) = int ?c" by (simp only: uint_nat)
  have a1: "ahead ?f1 (be32 (word_of_nat ?c) @ concat (map enc es) @ r)" using ahead_skip [OF assms(1)] by simp
  have a2: "ahead (skip 8 f) (concat (map enc es) @ r)" using ahead_skip [OF a1] by simp
  have "read_full 4 ?f1 = ok (be32 (word_of_nat ?c), skip 8 f)" using read_full_ahead [OF a1] by simp
  moreover have "read_full (int ?c * int k) (skip 8 f) = ok (concat (map enc es), skip (8 + int (?c * k)) f)"
    using read_full_ahead [OF a2, of "int ?c * int k"] by (simp add: length_concat_enc algebra_simps)
  moreover have "get_all get ?c (concat (map enc es)) = Some es" using get_all_enc [of es "[]"] by simp
  moreover have "bx_Size (fb_Box (with_version v box)) = word_of_nat (12 + 4 + ?c * k)" using assms(4) by simp
  note table_fits [OF assms(3) this]
  ultimately show ?thesis using fb_Decode_ahead [OF assms(1)] assms(2)
    by (simp add: table_read_def ui uc)
qed

lemma returns_get_all [returns_intros]: "k * n \<le> length b \<Longrightarrow> returns (\<lambda>_. True) (must (get_all get n b))"
  using get_all_total [of n b] by auto

lemma returns_table_read:
  "(\<And>box count es f. returns P (F box count es f)) \<Longrightarrow> returns P (table_read get k box f F)"
  unfolding table_read_def by (rule returns_intros | fastforce simp: nat_mult_distrib mult.commute)+

end

section \<open>The tables of a track\<close>

definition stts_bytes :: "sttsEntry \<Rightarrow> bytes" where
  "stts_bytes e = be32 (st_sampleCount e) @ be32 (st_sampleDelta e)"

definition ctts_bytes :: "cttsEntry \<Rightarrow> bytes" where
  "ctts_bytes e = be32 (ct_sampleCount e) @ be32 (ct_sampleOffset e)"

definition stsc_bytes :: "stscEntry \<Rightarrow> bytes" where
  "stsc_bytes e = be32 (sc_firstChunk e) @ be32 (sc_samplesPerChunk e) @ be32 (sc_sampleDescriptionIndex e)"

lemma get_two_total: "8 \<le> length b \<Longrightarrow> \<exists>v w. get32 b = Some (v, drop 4 b) \<and> get32 (drop 4 b) = Some (w, drop 8 b)"
  using get_total(2) [of b] get_total(2) [of "drop 4 b"] by auto

lemma get_three_total: "12 \<le> length b \<Longrightarrow> \<exists>u v w. get32 b = Some (u, drop 4 b) \<and> get32 (drop 4 b) = Some (v, drop 8 b) \<and>
    get32 (drop 8 b) = Some (w, drop 12 b)"
  using get_two_total [of b] get_total(2) [of "drop 8 b"] by auto

interpretation stts_table: table_entry stts_bytes get_sttsEntry 8
  by unfold_locales (auto simp: stts_bytes_def get_sttsEntry_def dest!: get_two_total)

interpretation ctts_table: table_entry ctts_bytes get_cttsEntry 8
  by unfold_locales (auto simp: ctts_bytes_def get_cttsEntry_def dest!: get_two_total)

interpretation stsc_table: table_entry stsc_bytes get_stscEntry 12
  by unfold_locales (auto simp: stsc_bytes_def get_stscEntry_def dest!: get_three_total)

interpretation word_table: table_entry be32 get32 4
  using get_total by unfold_locales auto

interpretation large_table: table_entry be64 get64 8
  using get_total by unfold_locales auto

lemma fills_entries:
  "fills (put_all put_sttsEntry es) (concat (map stts_bytes es))"
  "fills (put_all put_cttsEntry cs) (concat (map ctts_bytes cs))"
  "fills (put_all put_stscEntry ss) (concat (map stsc_bytes ss))"
proof -
  have "fills (put_sttsEntry e) (stts_bytes e)" for e
    using fills_bind [OF fills_put_bytes fills_put_bytes] by (simp add: put_sttsEntry_def stts_bytes_def fills_def)
  then show "fills (put_all put_sttsEntry es) (concat (map stts_bytes es))" by (rule fills_put_all)
  have "fills (put_cttsEntry e) (ctts_bytes e)" for e
    using fills_bind [OF fills_put_bytes fills_put_bytes] by (simp add: put_cttsEntry_def ctts_bytes_def fills_def)
  then show "fills (put_all put_cttsEntry cs) (concat (map ctts_bytes cs))" by (rule fills_put_all)
  have "fills (put_stscEntry e) (stsc_bytes e)" for e
    using fills_bind [OF fills_put_bytes fills_bind [OF fills_put_bytes fills_put_bytes]]
    by (simp add: put_stscEntry_def stsc_bytes_def fills_def)
  then show "fills (put_all put_stscEntry ss) (concat (map stsc_bytes ss))" by (rule fills_put_all)
qed

text \<open>
  The contract of a box that a muxer makes and the demuxer reads: the header carries size and
  type, the body is read back to the value, and the file is then behind the box.
\<close>

locale box_codec =
  fixes make :: "'a \<Rightarrow> bytes option" and boxtype :: "'a \<Rightarrow> bytes"
    and decode :: "bytes \<Rightarrow> u64 \<Rightarrow> mov_file \<Rightarrow> (mp4_error, 'a \<times> mov_file) result"
    and good :: "'a \<Rightarrow> bool" and seen :: "'a \<Rightarrow> 'a"
  assumes makes: "good x \<Longrightarrow> \<exists>body. make x = Some (be32 (word_of_nat (8 + length body)) @ boxtype x @ body) \<and>
      2 \<le> length body \<and> 8 + length body < 2 ^ 32 \<and> length (boxtype x) = 4 \<and> boxtype x \<noteq> tag ''uuid'' \<and>
      (\<forall>f r. ahead f (body @ r) \<longrightarrow>
        decode (boxtype x) (word_of_nat (8 + length body)) f = ok (seen x, skip (glen body) f))"
    and total: "returns (\<lambda>_. True) (decode t n f)"
begin

lemma box_read:
  assumes "good x" and "make x = Some b" and "ahead f (b @ r)"
  shows "\<exists>box. bx_Decode f = ok (8, box, skip 8 f) \<and> bx_Size box = word_of_nat (length b) \<and> bx_Type box = boxtype x \<and>
    decode (bx_Type box) (bx_Size box) (skip 8 f) = ok (seen x, skip (glen b) f) \<and> ahead (skip (glen b) f) r"
proof -
  obtain body where body: "b = be32 (word_of_nat (8 + length body)) @ boxtype x @ body" "2 \<le> length body" "8 + length body < 2 ^ 32"
    "length (boxtype x) = 4" "boxtype x \<noteq> tag ''uuid''"
    "\<And>f r. ahead f (body @ r) \<Longrightarrow> decode (boxtype x) (word_of_nat (8 + length body)) f = ok (seen x, skip (glen body) f)"
    using makes [OF assms(1)] assms(2) by auto
  let ?n = "8 + length body" and ?w = "be32 (word_of_nat (8 + length body)) @ boxtype x"
  have u: "unat (word_of_nat ?n :: u32) = ?n" using body(3) by (simp add: unat_of_nat del: of_nat_add)
  then have "unat (word_of_nat ?n :: u32) \<noteq> unat (1 :: u32)" by simp
  then have ne: "(word_of_nat ?n :: u32) \<noteq> 1" by metis
  have up: "(ucast (word_of_nat ?n :: u32) :: u64) = word_of_nat ?n" by (rule ucast_u64_of_nat [OF body(3)])
  have w: "ahead f (?w @ body @ r)" "8 = glen ?w" using assms(3) body(1,4) by simp_all
  have g: "get_be32 ?w = Some (word_of_nat ?n)" by (rule get_be32_append)
  have d: "drop 4 ?w = boxtype x" by simp
  have "bx_Decode f = ok (8, \<lparr>bx_Size = word_of_nat ?n, bx_Type = boxtype x, bx_UserType = replicate 16 0\<rparr>, skip 8 f)"
    by (simp only: bx_Decode_def read_full_ahead [OF w] rbind_simps prod.case g must_simps d Let_def ne body(5) if_False up)
  moreover have "decode (boxtype x) (word_of_nat ?n) (skip 8 f) = ok (seen x, skip (glen body) (skip 8 f))"
    using ahead_skip [OF w] by (intro body(6))
  moreover have "ahead (skip (glen b) f) r" using ahead_skip [OF assms(3)] by simp
  moreover have lb: "length b = ?n" using body(1,4) by simp
  ultimately show ?thesis unfolding lb by simp
qed

end

context table_entry
begin

definition table_body :: "byte \<Rightarrow> 'a list \<Rightarrow> bytes" where
  "table_body v es = [v, 0, 0, 0] @ be32 (word_of_nat (length es)) @ concat (map enc es)"

lemma length_table_body: "length (table_body v es) = 8 + length es * k"
  by (simp add: table_body_def length_concat_enc)

lemma table_box_written:
  assumes "length t = 4" and "t \<noteq> tag ''uuid''" and "length es * k \<le> 0x10000000"
    and "fills g (be32 (word_of_nat (length es)) @ concat (map enc es))" and "bsize = word_of_nat (16 + length es * k)"
  shows "do { s \<leftarrow> fb_Encode (set_size bsize (NewFullBox t v)); g s } =
    Some (int (16 + length es * k), be32 (word_of_nat (8 + length (table_body v es))) @ t @ table_body v es)"
proof -
  let ?d = "be32 (word_of_nat (length es)) @ concat (map enc es)"
  have l: "length ?d = 4 + length es * k" by (simp add: length_concat_enc)
  then have e: "length ?d + 12 = 16 + length es * k" by simp
  have "length ?d + 12 < 2 ^ 32" using assms(3) e by simp
  note full_box_written [OF assms(1,2) this assms(4), of v]
  moreover have "8 + length (table_body v es) = 16 + length es * k" by (simp add: length_table_body)
  moreover have "glen ?d + 12 = int (16 + length es * k)" using e by simp
  ultimately show ?thesis by (simp only: e assms(5) fb_head_def table_body_def) simp
qed

lemma table_read_body:
  assumes "ahead f (table_body v es @ r)" and "0 < k" and "length es * k \<le> 0x10000000"
    and "bx_Size (fb_Box box) = word_of_nat (8 + length (table_body v es))"
  shows "table_read get k box f F = F (with_version v box) (word_of_nat (length es)) es (skip (glen (table_body v es)) f)"
  using table_read_enc [of f v es r box F] assms by (simp add: table_body_def length_concat_enc mult.commute)

end

lemma sized_FullBox_sel [simp]: "bx_Size (fb_Box (sized_FullBox n)) = n"
  by (simp add: sized_FullBox_def)

text \<open>All of the contract for a box that is a counted table.\<close>

context table_entry
begin

lemma table_codec:
  assumes "length t = 4" and "t \<noteq> tag ''uuid''" and "0 < k" and "length es * k \<le> 0x10000000"
    and "fills g (be32 (word_of_nat (length es)) @ concat (map enc es))" and "bsize = word_of_nat (16 + length es * k)"
    and written: "written = do { (_, b) \<leftarrow> do { s \<leftarrow> fb_Encode (set_size bsize (NewFullBox t v)); g s }; Some b }"
    and dec: "\<And>n f. dec n f = table_read get k (sized_FullBox n) f (\<lambda>box c es f. ok (mk box c es, f))"
    and mk: "\<And>n. mk (with_version v (sized_FullBox n)) (word_of_nat (length es)) es = x"
  shows "\<exists>body. written = Some (be32 (word_of_nat (8 + length body)) @ t @ body) \<and> 2 \<le> length body \<and> 8 + length body < 2 ^ 32 \<and>
      length t = 4 \<and> t \<noteq> tag ''uuid'' \<and>
      (\<forall>f r. ahead f (body @ r) \<longrightarrow> dec (word_of_nat (8 + length body)) f = ok (x, skip (glen body) f))"
proof (intro exI [of _ "table_body v es"] conjI allI impI)
  show "written = Some (be32 (word_of_nat (8 + length (table_body v es))) @ t @ table_body v es)"
    using table_box_written [OF assms(1,2,4-6), of v] written by simp
  show "2 \<le> length (table_body v es)" "8 + length (table_body v es) < 2 ^ 32"
    using assms(4) by (simp_all add: length_table_body)
  show "length t = 4" "t \<noteq> tag ''uuid''" by (rule assms)+
  show "dec (word_of_nat (8 + length (table_body v es))) f = ok (x, skip (glen (table_body v es)) f)"
    if "ahead f (table_body v es @ r)" for f r
    using table_read_body [OF that assms(3,4), of "sized_FullBox (word_of_nat (8 + length (table_body v es)))"
        "\<lambda>box c es f. ok (mk box c es, f)"] dec mk
    by (simp del: of_nat_add)
qed

end

section \<open>The boxes keep the contract\<close>

lemma tables_not_uuid:
  "tag ''stts'' \<noteq> tag ''uuid''" "tag ''ctts'' \<noteq> tag ''uuid''" "tag ''stsc'' \<noteq> tag ''uuid''" "tag ''stsz'' \<noteq> tag ''uuid''"
  "tag ''stco'' \<noteq> tag ''uuid''" "tag ''co64'' \<noteq> tag ''uuid''" "tag ''stss'' \<noteq> tag ''uuid''" "tag ''stco'' \<noteq> tag ''co64''"
  by code_simp+

definition stts_value :: "u64 \<Rightarrow> mov_file \<Rightarrow> (mp4_error, movstts \<times> mov_file) result" where
  "stts_value n f = rbind (stts_Decode \<lparr>tts_box = sized_FullBox n, tts_entryList = None\<rparr> f)
     (\<lambda>(_, b, f). rbind (must (tts_entryList b)) (\<lambda>l. ok (l, f)))"

definition stts_good :: "movstts \<Rightarrow> bool" where
  "stts_good l \<longleftrightarrow> stts_entryCount l = word_of_nat (length (stts_entrys l)) \<and> length (stts_entrys l) * 8 \<le> 0x10000000"

lemma stts_value_table: "stts_value n f = table_read get_sttsEntry 8 (sized_FullBox n) f
    (\<lambda>box count es f. ok (\<lparr>stts_entryCount = count, stts_entrys = es\<rparr>, f))"
  by (simp add: stts_value_def stts_Decode_def table_read_def rbind_assoc split_def)

lemma entry_count: "c = word_of_nat (length es) \<Longrightarrow> length es * k \<le> 0x10000000 \<Longrightarrow> 0 < k \<Longrightarrow>
    slice_to es (uint (c :: u32)) = Some es \<and> (ucast c :: u64) = word_of_nat (length es)"
proof -
  assume a: "c = word_of_nat (length es)" "length es * k \<le> 0x10000000" "0 < k"
  have "length es \<le> 0x10000000" using a(2,3) by (cases k) auto
  then have "unat c = length es" "(ucast c :: u64) = word_of_nat (length es)"
    using ucast_u64_of_nat [of "length es"] by (simp_all add: a(1) unat_of_nat)
  then show ?thesis by (simp add: uint_nat)
qed

interpretation stts_codec: box_codec makeStts "\<lambda>_. tag ''stts''" "\<lambda>_. stts_value" stts_good "\<lambda>l. l"
proof (unfold_locales, goal_cases)
  case (1 l)
  let ?es = "stts_entrys l"
  have g: "stts_entryCount l = word_of_nat (length ?es)" "length ?es * 8 \<le> 0x10000000" using 1 by (simp_all add: stts_good_def)
  note c = entry_count [OF g, simplified]
  show ?case
  proof (rule stts_table.table_codec [where es = ?es and v = 0, OF _ _ _ g(2)
        fills_bind [OF fills_put_bytes fills_entries(1)] refl _ stts_value_table])
    show "makeStts l = do { (_, b) \<leftarrow> do { s \<leftarrow> fb_Encode (set_size (word_of_nat (16 + length ?es * 8)) (NewFullBox (tag ''stts'') 0));
        s \<leftarrow> put_bytes (be32 (word_of_nat (length ?es))) s; put_all put_sttsEntry ?es s }; Some b }"
      using c g(1) by (simp add: makeStts_def stts_Encode_def stts_Size_def NewTimeToSampleBox_def NewFullBox_def NewBasicBox_def fb_Size_def algebra_simps)
  qed (use g in \<open>simp_all add: tables_not_uuid\<close>)
next
  case (2 t n f)
  show ?case unfolding stts_value_table by (rule stts_table.returns_table_read) simp
qed

definition ctts_value :: "u64 \<Rightarrow> mov_file \<Rightarrow> (mp4_error, movctts \<times> mov_file) result" where
  "ctts_value n f = rbind (ctts_Decode \<lparr>cob_box = sized_FullBox n, cob_ctts = None\<rparr> f)
     (\<lambda>(_, b, f). rbind (must (cob_ctts b)) (\<lambda>l. ok (l, f)))"

definition ctts_good :: "movctts \<Rightarrow> bool" where
  "ctts_good l \<longleftrightarrow> ctts_entryCount l = word_of_nat (length (ctts_entrys l)) \<and> length (ctts_entrys l) * 8 \<le> 0x10000000"

lemma ctts_value_table: "ctts_value n f = table_read get_cttsEntry 8 (sized_FullBox n) f
    (\<lambda>box count es f. ok (\<lparr>ctts_version = fb_Version box, ctts_entryCount = count, ctts_entrys = es\<rparr>, f))"
  by (simp add: ctts_value_def ctts_Decode_def table_read_def rbind_assoc split_def)

interpretation ctts_codec: box_codec makeCtts "\<lambda>_. tag ''ctts''" "\<lambda>_. ctts_value" ctts_good "\<lambda>l. l"
proof (unfold_locales, goal_cases)
  case (1 l)
  let ?es = "ctts_entrys l"
  have g: "ctts_entryCount l = word_of_nat (length ?es)" "length ?es * 8 \<le> 0x10000000" using 1 by (simp_all add: ctts_good_def)
  note c = entry_count [OF g, simplified]
  show ?case
  proof (rule ctts_table.table_codec [where es = ?es and v = "ctts_version l", OF _ _ _ g(2)
        fills_bind [OF fills_put_bytes fills_entries(2)] refl _ ctts_value_table])
    show "makeCtts l = do { (_, b) \<leftarrow> do { s \<leftarrow> fb_Encode (set_size (word_of_nat (16 + length ?es * 8)) (NewFullBox (tag ''ctts'') (ctts_version l)));
        s \<leftarrow> put_bytes (be32 (word_of_nat (length ?es))) s; put_all put_cttsEntry ?es s }; Some b }"
      using c g(1) by (simp add: makeCtts_def Let_def ctts_Encode_def ctts_Size_def NewCompositionOffsetBox_def NewFullBox_def
          NewBasicBox_def fb_Size_def algebra_simps)
  qed (use g in \<open>simp_all add: tables_not_uuid\<close>)
next
  case (2 t n f)
  show ?case unfolding ctts_value_table by (rule ctts_table.returns_table_read) simp
qed

definition stsc_value :: "u64 \<Rightarrow> mov_file \<Rightarrow> (mp4_error, movstsc \<times> mov_file) result" where
  "stsc_value n f = rbind (stsc_Decode \<lparr>stc_box = sized_FullBox n, stc_stscentrys = None\<rparr> f)
     (\<lambda>(_, b, f). rbind (must (stc_stscentrys b)) (\<lambda>l. ok (l, f)))"

text \<open>The slice may be longer than the count: only the counted entries are written.\<close>

definition stsc_good :: "movstsc \<Rightarrow> bool" where
  "stsc_good l \<longleftrightarrow> unat (stsc_entryCount l) \<le> length (stsc_entrys l) \<and> unat (stsc_entryCount l) * 12 \<le> 0x10000000"

definition stsc_seen :: "movstsc \<Rightarrow> movstsc" where
  "stsc_seen l = l\<lparr>stsc_entrys := take (unat (stsc_entryCount l)) (stsc_entrys l)\<rparr>"

lemma stsc_value_table: "stsc_value n f = table_read get_stscEntry 12 (sized_FullBox n) f
    (\<lambda>box count es f. ok (\<lparr>stsc_entryCount = count, stsc_entrys = es\<rparr>, f))"
  by (simp add: stsc_value_def stsc_Decode_def table_read_def rbind_assoc split_def)

interpretation stsc_codec: box_codec makeStsc "\<lambda>_. tag ''stsc''" "\<lambda>_. stsc_value" stsc_good stsc_seen
proof (unfold_locales, goal_cases)
  case (1 l)
  let ?es = "take (unat (stsc_entryCount l)) (stsc_entrys l)"
  have l: "length ?es = unat (stsc_entryCount l)" using 1 by (simp add: stsc_good_def)
  have g: "stsc_entryCount l = word_of_nat (length ?es)" "length ?es * 12 \<le> 0x10000000"
    using 1 unfolding l by (simp_all add: stsc_good_def)
  have c: "slice_to (stsc_entrys l) (uint (stsc_entryCount l)) = Some ?es"
    using slice_to_int [of "unat (stsc_entryCount l)" "stsc_entrys l"] 1 by (simp add: stsc_good_def)
  show ?case
  proof (rule stsc_table.table_codec [where es = ?es and v = 0, OF _ _ _ g(2)
        fills_bind [OF fills_put_bytes fills_entries(3)] refl _ stsc_value_table])
    show "makeStsc l = do { (_, b) \<leftarrow> do { s \<leftarrow> fb_Encode (set_size (word_of_nat (16 + length ?es * 12)) (NewFullBox (tag ''stsc'') 0));
        s \<leftarrow> put_bytes (be32 (word_of_nat (length ?es))) s; put_all put_stscEntry ?es s }; Some b }"
      using c g(1) by (simp add: makeStsc_def stsc_Encode_def stsc_Size_def NewSampleToChunkBox_def NewFullBox_def NewBasicBox_def
          fb_Size_def algebra_simps entry_count [OF g, simplified])
  qed (use g in \<open>simp_all add: tables_not_uuid stsc_seen_def\<close>)
next
  case (2 t n f)
  show ?case unfolding stsc_value_table by (rule stsc_table.returns_table_read) simp
qed

text \<open>The chunk offsets; the last one decides between the two boxes.\<close>

definition stco_value :: "u64 \<Rightarrow> mov_file \<Rightarrow> (mp4_error, movstco \<times> mov_file) result" where
  "stco_value n f = rbind (stco_Decode \<lparr>cko_box = sized_FullBox n, cko_stco = None\<rparr> f)
     (\<lambda>(_, b, f). rbind (must (cko_stco b)) (\<lambda>l. ok (l, f)))"

definition co64_value :: "u64 \<Rightarrow> mov_file \<Rightarrow> (mp4_error, movstco \<times> mov_file) result" where
  "co64_value n f = rbind (co64_Decode \<lparr>cko_box = sized_FullBox n, cko_stco = None\<rparr> f)
     (\<lambda>(_, b, f). rbind (must (cko_stco b)) (\<lambda>l. ok (l, f)))"

lemma stco_value_table: "stco_value n f = table_read get32 4 (sized_FullBox n) f
    (\<lambda>box count es f. ok (\<lparr>stco_entryCount = count, stco_chunkOffsetlist = map ucast es\<rparr>, f))"
  by (simp add: stco_value_def stco_Decode_def table_read_def rbind_assoc split_def)

lemma co64_value_table: "co64_value n f = table_read get64 8 (sized_FullBox n) f
    (\<lambda>box count es f. ok (\<lparr>stco_entryCount = count, stco_chunkOffsetlist = es\<rparr>, f))"
  by (simp add: co64_value_def co64_Decode_def table_read_def rbind_assoc split_def)

definition stco_large :: "movstco \<Rightarrow> bool" where
  "stco_large l \<longleftrightarrow> stco_chunkOffsetlist l \<noteq> [] \<and> last (stco_chunkOffsetlist l) > 0xFFFFFFFF"

definition stco_good :: "movstco \<Rightarrow> bool" where
  "stco_good l \<longleftrightarrow> stco_entryCount l = word_of_nat (length (stco_chunkOffsetlist l)) \<and> length (stco_chunkOffsetlist l) * 8 \<le> 0x10000000 \<and>
     (stco_large l \<or> list_all (\<lambda>v. v \<le> 0xFFFFFFFF) (stco_chunkOffsetlist l))"

lemma small_offset: "(v :: u64) \<le> 0xFFFFFFFF \<Longrightarrow> ucast (ucast v :: u32) = v"
  by (simp add: word_unat_eq_iff unsigned_ucast_eq take_bit_eq_mod word_le_nat_alt unat_mod)

interpretation stco_codec: box_codec makeStco "\<lambda>l. if stco_large l then tag ''co64'' else tag ''stco''"
  "\<lambda>t. if t = tag ''co64'' then co64_value else stco_value" stco_good "\<lambda>l. l"
proof (unfold_locales, goal_cases)
  case (1 l)
  let ?es = "stco_chunkOffsetlist l"
  have g: "stco_entryCount l = word_of_nat (length ?es)" "length ?es * 8 \<le> 0x10000000"
    "stco_large l \<or> list_all (\<lambda>v. v \<le> 0xFFFFFFFF) ?es" using 1 by (simp_all add: stco_good_def)
  note c = entry_count [OF g(1,2), simplified]
  have large: "(if stco_entryCount l > 0 then do { v \<leftarrow> idx ?es (uint (stco_entryCount l - 1)); Some (v > 0xFFFFFFFF) } else Some False) =
      Some (stco_large l)"
  proof (cases "?es = []")
    case False
    have n: "unat (stco_entryCount l) = length ?es" "0 < length ?es" using g(1,2) False by (simp_all add: unat_of_nat)
    then have "0 < stco_entryCount l" by (simp add: word_less_nat_alt)
    moreover from this have "unat (stco_entryCount l - 1) = length ?es - 1"
      using n(1) by (subst unat_minus_one) auto
    then have "uint (stco_entryCount l - 1) = int (length ?es - 1)" by (simp only: uint_nat)
    then have "idx ?es (uint (stco_entryCount l - 1)) = Some (last ?es)"
      using False by (simp add: idx_def last_conv_nth)
    ultimately show ?thesis using False by (simp add: stco_large_def)
  qed (simp add: g(1) stco_large_def)
  show ?case
  proof (cases "stco_large l")
    case True
    have "\<exists>body. makeStco l = Some (be32 (word_of_nat (8 + length body)) @ tag ''co64'' @ body) \<and> 2 \<le> length body \<and>
      8 + length body < 2 ^ 32 \<and> length (tag ''co64'') = 4 \<and> tag ''co64'' \<noteq> tag ''uuid'' \<and>
      (\<forall>f r. ahead f (body @ r) \<longrightarrow> co64_value (word_of_nat (8 + length body)) f = ok (l, skip (glen body) f))"
    proof (rule large_table.table_codec [where es = ?es and v = 0, OF _ _ _ g(2)
          fills_bind [OF fills_put_bytes fills_put_all [OF fills_put_bytes]] refl _ co64_value_table])
      show "makeStco l = do { (_, b) \<leftarrow> do { s \<leftarrow> fb_Encode (set_size (word_of_nat (16 + length ?es * 8)) (NewFullBox (tag ''co64'') 0));
          s \<leftarrow> put_bytes (be32 (word_of_nat (length ?es))) s; put_all (\<lambda>v. put_bytes (be64 v)) ?es s }; Some b }"
        using c g(1) True unfolding makeStco_def large
        by (simp add: co64_Encode_def co64_Size_def NewChunkLargeOffsetBox_def NewFullBox_def NewBasicBox_def fb_Size_def algebra_simps)
    qed (use g in \<open>simp_all add: tables_not_uuid\<close>)
    then show ?thesis using True by simp
  next
    case False
    let ?ws = "map ucast ?es :: u32 list"
    have "map (ucast :: u32 \<Rightarrow> u64) ?ws = ?es"
      using g(3) False by (auto simp: list_all_iff small_offset intro!: map_idI)
    moreover have len: "length ?ws * 4 \<le> 0x10000000" using g(2) by simp
    ultimately have "\<exists>body. makeStco l = Some (be32 (word_of_nat (8 + length body)) @ tag ''stco'' @ body) \<and> 2 \<le> length body \<and>
      8 + length body < 2 ^ 32 \<and> length (tag ''stco'') = 4 \<and> tag ''stco'' \<noteq> tag ''uuid'' \<and>
      (\<forall>f r. ahead f (body @ r) \<longrightarrow> stco_value (word_of_nat (8 + length body)) f = ok (l, skip (glen body) f))"
    proof (intro word_table.table_codec [where es = ?ws and v = 0, OF _ _ _ _
          fills_bind [OF fills_put_bytes fills_put_all [OF fills_put_bytes]] refl _ stco_value_table])
      show "makeStco l = do { (_, b) \<leftarrow> do { s \<leftarrow> fb_Encode (set_size (word_of_nat (16 + length ?ws * 4)) (NewFullBox (tag ''stco'') 0));
          s \<leftarrow> put_bytes (be32 (word_of_nat (length ?ws))) s; put_all (\<lambda>v. put_bytes (be32 v)) ?ws s }; Some b }"
        using c g(1) False unfolding makeStco_def large
        by (simp add: stco_Encode_def stco_Size_def NewChunkOffsetBox_def NewFullBox_def NewBasicBox_def fb_Size_def put_all_map algebra_simps)
    qed (use g in \<open>simp_all add: tables_not_uuid\<close>)
    then show ?thesis using False by (simp add: tables_not_uuid)
  qed
next
  case (2 t n f)
  have "returns (\<lambda>_. True) (stco_value n f)" unfolding stco_value_table by (rule word_table.returns_table_read) simp
  moreover have "returns (\<lambda>_. True) (co64_value n f)" unfolding co64_value_table by (rule large_table.returns_table_read) simp
  ultimately show ?case by simp
qed

text \<open>The sync samples, a list of sample numbers.\<close>

definition stss_make :: "u32 list \<Rightarrow> bytes option" where
  "stss_make es = do { (_, boxdata) \<leftarrow> stss_Encode (NewSyncSampleBox\<lparr>ssy_entrys := es\<rparr>); Some boxdata }"

definition stss_value :: "u64 \<Rightarrow> mov_file \<Rightarrow> (mp4_error, u32 list \<times> mov_file) result" where
  "stss_value n f = rbind (stss_Decode \<lparr>ssy_box = sized_FullBox n, ssy_entrys = []\<rparr> f) (\<lambda>(_, b, f). ok (ssy_entrys b, f))"

lemma stss_value_table: "stss_value n f = table_read get32 4 (sized_FullBox n) f (\<lambda>box count es f. ok (es, f))"
  by (simp add: stss_value_def stss_Decode_def table_read_def rbind_assoc split_def)

interpretation stss_codec: box_codec stss_make "\<lambda>_. tag ''stss''" "\<lambda>_. stss_value" "\<lambda>es. length es * 4 \<le> 0x10000000" "\<lambda>es. es"
proof (unfold_locales, goal_cases)
  case (1 es)
  show ?case
  proof (rule word_table.table_codec [where es = es and v = 0, OF _ _ _ 1
        fills_bind [OF fills_put_bytes fills_put_all_be] refl _ stss_value_table])
    show "stss_make es = do { (_, b) \<leftarrow> do { s \<leftarrow> fb_Encode (set_size (word_of_nat (16 + length es * 4)) (NewFullBox (tag ''stss'') 0));
        s \<leftarrow> put_bytes (be32 (word_of_nat (length es))) s; put_all (\<lambda>v. put_bytes (be32 v)) es s }; Some b }"
      by (simp add: stss_make_def stss_Encode_def stss_Size_def NewSyncSampleBox_def NewFullBox_def NewBasicBox_def fb_Size_def algebra_simps)
  qed (simp_all add: tables_not_uuid)
next
  case (2 t n f)
  show ?case unfolding stss_value_table by (rule word_table.returns_table_read) simp
qed

text \<open>The sample sizes: one for all, or a table.\<close>

definition stsz_value :: "u64 \<Rightarrow> mov_file \<Rightarrow> (mp4_error, movstsz \<times> mov_file) result" where
  "stsz_value n f = rbind (stsz_Decode \<lparr>ssb_box = sized_FullBox n, ssb_stsz = None\<rparr> f)
     (\<lambda>(_, b, f). rbind (must (ssb_stsz b)) (\<lambda>l. ok (l, f)))"

definition stsz_good :: "movstsz \<Rightarrow> bool" where
  "stsz_good z \<longleftrightarrow> (if stsz_sampleSize z = 0 then stsz_sampleCount z = word_of_nat (length (stsz_entrySizelist z)) \<and>
       length (stsz_entrySizelist z) * 4 \<le> 0x10000000
     else stsz_entrySizelist z = [])"

definition stsz_body :: "movstsz \<Rightarrow> bytes" where
  "stsz_body z = [0, 0, 0, 0] @ be32 (stsz_sampleSize z) @ be32 (stsz_sampleCount z) @ concat (map be32 (stsz_entrySizelist z))"

lemma length_stsz_body: "length (stsz_body z) = 12 + 4 * length (stsz_entrySizelist z)"
  by (simp add: stsz_body_def word_table.length_concat_enc)

lemma stsz_written:
  assumes "stsz_good z"
  shows "makeStsz z = Some (be32 (word_of_nat (8 + length (stsz_body z))) @ tag ''stsz'' @ stsz_body z)"
proof -
  let ?es = "stsz_entrySizelist z" and ?b = "NewSampleSizeBox\<lparr>ssb_stsz := Some z\<rparr>"
  have sel: "ssb_box ?b = NewFullBox (tag ''stsz'') 0" "ssb_stsz ?b = Some z" by (simp_all add: NewSampleSizeBox_def)
  have n: "ssb_entryCount ?b = glen ?es \<and> length ?es * 4 \<le> 0x10000000 \<and>
      (if stsz_sampleSize z = 0 then word_of_int (ssb_entryCount ?b) else stsz_sampleCount z) = stsz_sampleCount z"
  proof (cases "stsz_sampleSize z = 0")
    case True
    then have g: "stsz_sampleCount z = word_of_nat (length ?es)" "length ?es * 4 \<le> 0x10000000" using assms by (simp_all add: stsz_good_def)
    then have "uint (stsz_sampleCount z) = glen ?es" by (simp add: unat_of_nat uint_nat)
    then show ?thesis using True g by (simp add: ssb_entryCount_def Let_def)
  next
    case False
    then show ?thesis using assms by (simp add: stsz_good_def ssb_entryCount_def)
  qed
  let ?d = "be32 (stsz_sampleSize z) @ be32 (stsz_sampleCount z) @ concat (map be32 ?es)"
  have f: "fills (\<lambda>s. do { s \<leftarrow> put_bytes (be32 (stsz_sampleSize z)) s; s \<leftarrow> put_bytes (be32 (stsz_sampleCount z)) s;
      put_all (\<lambda>v. put_bytes (be32 v)) ?es s }) ?d"
    by (intro fills_bind fills_put_bytes fills_put_all_be)
  have l: "length ?d + 12 = 20 + 4 * length ?es" by (simp add: word_table.length_concat_enc)
  have "length ?d + 12 < 2 ^ 32" using n l by simp
  note full_box_written [OF _ tables_not_uuid(4) this f, of 0]
  moreover have sz: "stsz_Size ?b = word_of_nat (length ?d + 12)" unfolding l
    using n by (simp add: stsz_Size_def sel fb_Size_def NewFullBox_def NewBasicBox_def)
  have sl: "slice_to ?es (glen ?es) = Some ?es" by simp
  have "stsz_Encode ?b = do { s \<leftarrow> fb_Encode (set_size (word_of_nat (length ?d + 12)) (NewFullBox (tag ''stsz'') 0));
      s \<leftarrow> put_bytes (be32 (stsz_sampleSize z)) s; s \<leftarrow> put_bytes (be32 (stsz_sampleCount z)) s; put_all (\<lambda>v. put_bytes (be32 v)) ?es s }"
    by (simp only: stsz_Encode_def Let_def sel sz conjunct2 [OF conjunct2 [OF n], unfolded conjunct1 [OF n]] conjunct1 [OF n] sl Option.bind.simps)
  ultimately have "stsz_Encode ?b = Some (glen ?d + 12, fb_head (length ?d + 12) (tag ''stsz'') 0 @ ?d)" by simp
  moreover have "8 + length (stsz_body z) = length ?d + 12" unfolding l by (simp add: length_stsz_body)
  ultimately show ?thesis by (simp add: makeStsz_def fb_head_def stsz_body_def)
qed

lemma stsz_read:
  assumes "stsz_good z" and "ahead f (stsz_body z @ r)"
  shows "stsz_value (word_of_nat (8 + length (stsz_body z))) f = ok (z, skip (glen (stsz_body z)) f)"
proof -
  let ?es = "stsz_entrySizelist z" and ?c = "stsz_sampleCount z" and ?n = "word_of_nat (8 + length (stsz_body z)) :: u64"
  let ?box = "with_version 0 (sized_FullBox ?n)"
  have a: "ahead f ([0, 0, 0, 0] @ be32 (stsz_sampleSize z) @ be32 ?c @ concat (map be32 ?es) @ r)"
    using assms(2) by (simp add: stsz_body_def)
  have a1: "ahead (skip 4 f) ((be32 (stsz_sampleSize z) @ be32 ?c) @ concat (map be32 ?es) @ r)" using ahead_skip [OF a] by simp
  have a2: "ahead (skip 12 f) (concat (map be32 ?es) @ r)" using ahead_skip [OF a1] by simp
  note 1 = fb_Decode_ahead [OF a, of "sized_FullBox ?n"]
  have 2: "read_full 8 (skip 4 f) = ok (be32 (stsz_sampleSize z) @ be32 ?c, skip 12 f)"
    using read_full_ahead [OF a1] by simp
  show ?thesis
  proof (cases "stsz_sampleSize z = 0")
    case True
    then have g: "?c = word_of_nat (length ?es)" "length ?es * 4 \<le> 0x10000000" using assms(1) by (simp_all add: stsz_good_def)
    then have u: "unat ?c = length ?es" by (simp add: unat_of_nat)
    then have ui: "uint ?c = int (length ?es)" by (simp only: uint_nat)
    have "bx_Size (fb_Box ?box) = word_of_nat (12 + 8 + length ?es * 4)" by (simp add: length_stsz_body mult.commute)
    note 3 = table_fits [OF g(2) this]
    have 4: "read_full (uint ?c * 4) (skip 12 f) = ok (concat (map be32 ?es), skip (glen (stsz_body z)) f)"
      using read_full_ahead [OF a2, of "uint ?c * 4"] by (simp add: word_table.length_concat_enc length_stsz_body ui mult.commute)
    have "get_all get32 (length ?es) (concat (map be32 ?es)) = Some ?es" using word_table.get_all_enc [of ?es "[]"] by simp
    moreover have "z = \<lparr>stsz_sampleSize = 0, stsz_sampleCount = ?c, stsz_entrySizelist = ?es\<rparr>" using True by simp
    moreover have "checkTableSize ?c 4 (int (length ?es * 4)) = ok ()" using 3(2) g(1) by simp
    ultimately show ?thesis using 1 2 3(1) 4 True u by (simp add: stsz_value_def stsz_Decode_def del: of_nat_add)
  next
    case False
    then have e: "?es = []" using assms(1) by (simp add: stsz_good_def)
    have "z = \<lparr>stsz_sampleSize = stsz_sampleSize z, stsz_sampleCount = ?c, stsz_entrySizelist = []\<rparr>" using e by (cases z) simp
    moreover have "glen (stsz_body z) = 12" by (simp add: length_stsz_body e)
    ultimately show ?thesis using 1 2 False by (simp add: stsz_value_def stsz_Decode_def del: of_nat_add)
  qed
qed

lemma returns_stsz_Decode: "returns (\<lambda>(_, b, _). ssb_stsz b \<noteq> None) (stsz_Decode b f)"
  unfolding stsz_Decode_def
  by (rule returns_intros word_table.returns_get_all | fastforce simp: nat_mult_distrib mult.commute)+

interpretation stsz_codec: box_codec makeStsz "\<lambda>_. tag ''stsz''" "\<lambda>_. stsz_value" stsz_good "\<lambda>l. l"
proof (unfold_locales, goal_cases)
  case (1 z)
  have "length (stsz_entrySizelist z) * 4 \<le> 0x10000000" using 1 by (auto simp: stsz_good_def split: if_splits)
  then show ?case using stsz_written [OF 1] stsz_read [OF 1]
    by (intro exI [of _ "stsz_body z"]) (simp add: tables_not_uuid length_stsz_body del: of_nat_add)
next
  case (2 t n f)
  show ?case unfolding stsz_value_def
    by (intro returns_rbind [OF returns_stsz_Decode]) (auto simp: returns_def must_def)
qed

end
