(* ===== verification/Mp4Head.thy ===== *)
theory Mp4Head
  imports Mp4Box BitFields
begin

text \<open>
  The header boxes of a movie, a track and its media and the edit list: \<open>mvhd-box.go\<close>, \<open>tkhd-box.go\<close>,
  \<open>mdhd-box.go\<close>, \<open>edts-box.go\<close>, \<open>smhd-box.go\<close> and \<open>vmhd-box.go\<close> in \<open>go-mp4\<close>.

  A decoder reads the fields from the front of a buffer and passes the rest on; an encoder fills a
  buffer of zeroes, a gap is a step of the offset.  A box made \<open>now\<close> takes the clock as an argument.

  The lemmas: every header is read back as it was written, and no bytes make a decoder panic.
\<close>

section \<open>Reading fields\<close>

definition parses :: "nat \<Rightarrow> (bytes \<Rightarrow> ('a \<times> bytes) option) \<Rightarrow> bool" where
  "parses k get \<longleftrightarrow> (\<forall>b. k \<le> length b \<longrightarrow> (\<exists>x. get b = Some (x, drop k b)))"

named_theorems parses_intros \<open>rules that show how many bytes are parsed\<close>

lemma parses_bind [parses_intros]:
  assumes "parses k g" and "\<And>v. parses m (h v)" shows "parses (k + m) (\<lambda>b. Option.bind (g b) (\<lambda>(v, b). h v b))"
  unfolding parses_def
proof (intro allI impI)
  fix b :: bytes assume b: "k + m \<le> length b"
  then have "k \<le> length b" by simp
  then obtain v where "g b = Some (v, drop k b)" using assms(1) unfolding parses_def by blast
  moreover have "m \<le> length (drop k b)" using b by simp
  then obtain x where "h v (drop k b) = Some (x, drop m (drop k b))" using assms(2) [of v] unfolding parses_def by blast
  ultimately show "\<exists>x. Option.bind (g b) (\<lambda>(v, b). h v b) = Some (x, drop (k + m) b)" by (simp add: add.commute)
qed

lemma parses_basic [parses_intros]:
  "parses 2 get16" "parses 4 get32" "parses 8 get64" "parses 0 (\<lambda>b. Some (x, b))"
  using get_total by (auto simp: parses_def)

lemma parses_skip [parses_intros]: "parses m h \<Longrightarrow> parses (n + m) (\<lambda>b. let b' = drop n b in h b')"
  unfolding parses_def Let_def by (metis drop_drop add.commute add_le_imp_le_diff length_drop)

lemma parses_if [parses_intros]: "(c \<Longrightarrow> parses k g) \<Longrightarrow> (\<not> c \<Longrightarrow> parses k h) \<Longrightarrow> parses k (\<lambda>b. if c then g b else h b)"
  by (cases c) simp_all

lemma parses_eq: "parses k g \<Longrightarrow> k = m \<Longrightarrow> parses m g" by simp

definition get_words :: "nat \<Rightarrow> bytes \<Rightarrow> (u32 list \<times> bytes) option" where
  "get_words n b = do { vs \<leftarrow> get_all get32 n b; Some (vs, drop (4 * n) b) }"

lemma parses_words [parses_intros]: "parses (4 * n) (get_words n)"
  using word_table.get_all_total [of n] by (force simp: parses_def get_words_def)

lemma get_words_be: "length vs = n \<Longrightarrow> get_words n (concat (map be32 vs) @ r) = Some (vs, r)"
  using word_table.get_all_enc [of vs r] by (auto simp: get_words_def word_table.length_concat_enc)

text \<open>A time takes 8 bytes in version 1 and 4 in every other.\<close>

definition get_time :: "byte \<Rightarrow> bytes \<Rightarrow> (u64 \<times> bytes) option" where
  "get_time version b = (if version = 1 then get64 b else do { (t, b) \<leftarrow> get32 b; Some (ucast t, b) })"

definition time_bytes :: "byte \<Rightarrow> u64 \<Rightarrow> bytes" where
  "time_bytes version t = (if version = 1 then be64 t else be32 (ucast t))"

definition put_time :: "byte \<Rightarrow> u64 \<Rightarrow> fill \<Rightarrow> fill option" where
  "put_time version t s = (if version = 1 then put_bytes (be64 t) s else put_bytes (be32 (ucast t)) s)"

definition gap :: "nat \<Rightarrow> fill \<Rightarrow> fill option" where
  "gap n = (\<lambda>(offset, buf). Some (offset + int n, buf))"

definition time_fits :: "byte \<Rightarrow> u64 \<Rightarrow> bool" where "time_fits version t \<longleftrightarrow> version = 1 \<or> t \<le> 0xFFFFFFFF"

lemma get_time_bytes: "time_fits version t \<Longrightarrow> get_time version (time_bytes version t @ r) = Some (t, r)"
  by (auto simp: get_time_def time_bytes_def time_fits_def small_offset)

lemma length_time_bytes: "length (time_bytes version t) = (if version = 1 then 8 else 4)" by (simp add: time_bytes_def)

lemma parses_time [parses_intros]: "parses (if version = 1 then 8 else 4) (get_time version)"
proof (cases "version = 1")
  case False
  have "parses (4 + 0) (\<lambda>b. Option.bind (get32 b) (\<lambda>(t, b). Some (ucast t, b)))" by (intro parses_intros)
  then show ?thesis using False by (simp add: get_time_def [abs_def] parses_def)
qed (simp add: get_time_def [abs_def] parses_intros)

lemma fills_gap: "fills (gap n) (replicate n 0)"
  by (auto simp: fills_def filled_def gap_def replicate_add)

lemma fills_put_time: "fills (put_time version t) (time_bytes version t)"
  using fills_put_bytes by (auto simp: put_time_def time_bytes_def fills_def)

lemmas fills_intros = fills_bind fills_put_bytes fills_gap fills_put_time fills_put_all_be

section \<open>A full box with flags\<close>

text \<open>A decoded header: the box it was decoded in had no size and no type of its own.\<close>

definition bare_box :: "byte \<Rightarrow> bytes \<Rightarrow> FullBox" where
  "bare_box v fl = (sized_FullBox 0)\<lparr>fb_Version := v, fb_Flags := fl\<rparr>"

lemma bare_box_upd [simp]: "(bare_box v fl)\<lparr>fb_Version := v', fb_Flags := fl'\<rparr> = bare_box v' fl'"
  by (simp add: bare_box_def)

lemma bare_box_sel [simp]: "fb_Version (bare_box v fl) = v" "fb_Flags (bare_box v fl) = fl" "bx_Size (fb_Box (bare_box v fl)) = 0"
  by (simp_all add: bare_box_def)

lemma fb_Decode_flags: "ahead f ((v # fl) @ r) \<Longrightarrow> length fl = 3 \<Longrightarrow> fb_Decode box f = ok (4, box\<lparr>fb_Version := v, fb_Flags := fl\<rparr>, skip 4 f)"
  using read_full_ahead [of f "v # fl" r 4] by (simp add: fb_Decode_def idx_def)

text \<open>
  What a box of fixed fields relies on: the fields take as many bytes as the decoder reads for the
  version, and are read back from them.
\<close>

definition fixed_read :: "(byte \<Rightarrow> nat) \<Rightarrow> (FullBox \<Rightarrow> bytes \<Rightarrow> ('a \<times> bytes) option) \<Rightarrow> FullBox \<Rightarrow> mov_file \<Rightarrow> (mp4_error, 'a \<times> mov_file) result" where
  "fixed_read n get box f = rbind (fb_Decode box f) (\<lambda>(_, box, f).
     rbind (read_full (int (n (fb_Version box))) f) (\<lambda>(buf, f).
     rbind (must (get box buf)) (\<lambda>(x, _). ok (x, f))))"

lemma returns_parse [returns_intros]: "parses k g \<Longrightarrow> k \<le> length b \<Longrightarrow> returns (\<lambda>(x, r). r = drop k b) (must (g b))"
  by (force simp: parses_def)

lemma returns_fixed_read:
  assumes "\<And>box. parses (k box) (get box)" and "\<And>box. k box \<le> n (fb_Version box)"
  shows "returns (\<lambda>_. True) (fixed_read n get box f)"
proof -
  have p: "returns (\<lambda>_. True) (rbind (must (get box buf)) (\<lambda>(x, _). ok (x, f)))" if "length buf = n (fb_Version box)" for box buf and f :: mov_file
    using returns_parse [OF assms(1), of box buf] assms(2) [of box] that by (auto intro!: returns_rbind)
  show ?thesis unfolding fixed_read_def
    by (rule returns_intros p | fastforce)+
qed

lemma fixed_box_codec:
  assumes "length t = 4" "t \<noteq> tag ''uuid''" "length fl = 3" "length d + 12 < 2 ^ 32" and "fills g d" and "bsize = word_of_nat (length d + 12)"
    and written: "written = do { s \<leftarrow> fb_Encode (set_size bsize (new_box t v fl)); (_, b) \<leftarrow> g s; Some b }"
    and dec: "\<And>n f. dec n f = fixed_read k get (box n) f" and "k v = length d"
    and got: "\<And>n. get ((box n)\<lparr>fb_Version := v, fb_Flags := fl\<rparr>) d = Some (x, r0)"
  shows "\<exists>body. written = Some (be32 (word_of_nat (8 + length body)) @ t @ body) \<and> 2 \<le> length body \<and> 8 + length body < 2 ^ 32 \<and>
      length t = 4 \<and> t \<noteq> tag ''uuid'' \<and>
      (\<forall>f r. ahead f (body @ r) \<longrightarrow> dec (word_of_nat (8 + length body)) f = ok (x, skip (glen body) f))"
proof (intro exI [of _ "(v # fl) @ d"] conjI allI impI)
  let ?body = "(v # fl) @ d"
  have len: "8 + length ?body = length d + 12" using assms(3) by simp
  have "do { s \<leftarrow> fb_Encode (set_size bsize (new_box t v fl)); g s } =
      Some (glen d + 12, be32 (word_of_nat (length d + 12)) @ t @ ?body)"
    using flags_box_written [OF assms(1-5), of v] assms(6) by simp
  then show "written = Some (be32 (word_of_nat (8 + length ?body)) @ t @ ?body)"
    unfolding len written by (auto split: bind_splits)
  show "2 \<le> length ?body" "8 + length ?body < 2 ^ 32" using assms(3,4) by simp_all
  show "length t = 4" "t \<noteq> tag ''uuid''" by (rule assms)+
  show "dec (word_of_nat (8 + length ?body)) f = ok (x, skip (glen ?body) f)" if a: "ahead f (?body @ r)" for f r
  proof -
    have a1: "ahead f ((v # fl) @ d @ r)" using a by simp
    then have a2: "ahead (skip 4 f) (d @ r)" using ahead_skip [OF a1] assms(3) by simp
    have "read_full (int (k v)) (skip 4 f) = ok (d, skip (glen ?body) f)"
      using read_full_ahead [OF a2] assms(3,9) by (simp add: add.commute)
    then show ?thesis unfolding dec fixed_read_def
      using fb_Decode_flags [OF a1 assms(3)] got by simp
  qed
qed

section \<open>Track, media and movie headers\<close>

record MovieHeaderBox =
  mv_Box :: FullBox
  mv_Creation_time :: u64
  mv_Modification_time :: u64
  mv_Timescale :: u32
  mv_Duration :: u64
  mv_Rate :: u32
  mv_Volume :: u16
  mv_Matrix :: "u32 list"
  mv_Pre_defined :: "u32 list"
  mv_Next_track_ID :: u32

definition identity_matrix :: "u32 list" where "identity_matrix = [0x10000, 0, 0, 0, 0x10000, 0, 0, 0, 0x40000000]"

text \<open>\<open>now\<close> is the clock in seconds since 1904, the time zone added.\<close>

definition NewMovieHeaderBox :: "u64 \<Rightarrow> MovieHeaderBox" where
  "NewMovieHeaderBox now = \<lparr>mv_Box = NewFullBox (tag ''mvhd'') 0, mv_Creation_time = now, mv_Modification_time = now, mv_Timescale = 1000,
     mv_Duration = 0, mv_Rate = 0x10000, mv_Volume = 0x100, mv_Matrix = identity_matrix, mv_Pre_defined = replicate 6 0, mv_Next_track_ID = 0\<rparr>"

definition mv_Size :: "MovieHeaderBox \<Rightarrow> u64" where
  "mv_Size mvhd = (if fb_Version (mv_Box mvhd) = 1 then fb_Size (mv_Box mvhd) + 108 else fb_Size (mv_Box mvhd) + 96)"

definition mv_fields :: "FullBox \<Rightarrow> bytes \<Rightarrow> (MovieHeaderBox \<times> bytes) option" where
  "mv_fields box buf = do {
     (creation, buf) \<leftarrow> get_time (fb_Version box) buf;
     (modification, buf) \<leftarrow> get_time (fb_Version box) buf;
     (timescale, buf) \<leftarrow> get32 buf;
     (duration, buf) \<leftarrow> get_time (fb_Version box) buf;
     (rate, buf) \<leftarrow> get32 buf;
     (volume, buf) \<leftarrow> get16 buf;
     let buf = drop 8 buf;
     (matrix, buf) \<leftarrow> get_words 9 buf;
     (pre, buf) \<leftarrow> get_words 6 buf;
     (next_track, buf) \<leftarrow> get32 buf;
     Some (\<lparr>mv_Box = box, mv_Creation_time = creation, mv_Modification_time = modification, mv_Timescale = timescale,
       mv_Duration = duration, mv_Rate = rate, mv_Volume = volume, mv_Matrix = matrix, mv_Pre_defined = pre,
       mv_Next_track_ID = next_track\<rparr>, buf)
   }"

text \<open>The buffer has 96 bytes for version 0 only; the fields of every version but 1 are short.\<close>

definition mv_Decode :: "FullBox \<Rightarrow> mov_file \<Rightarrow> (mp4_error, MovieHeaderBox \<times> mov_file) result" where
  "mv_Decode = fixed_read (\<lambda>v. if v = 0 then 96 else 108) mv_fields"

definition mv_put :: "MovieHeaderBox \<Rightarrow> fill \<Rightarrow> fill option" where
  "mv_put mvhd s = (let v = fb_Version (mv_Box mvhd) in do {
     s \<leftarrow> put_time v (mv_Creation_time mvhd) s;
     s \<leftarrow> put_time v (mv_Modification_time mvhd) s;
     s \<leftarrow> put_bytes (be32 (mv_Timescale mvhd)) s;
     s \<leftarrow> put_time v (mv_Duration mvhd) s;
     s \<leftarrow> put_bytes (be32 (mv_Rate mvhd)) s;
     s \<leftarrow> put_bytes (be16 (mv_Volume mvhd)) s;
     s \<leftarrow> gap 10 s;
     s \<leftarrow> put_all (\<lambda>w. put_bytes (be32 w)) (mv_Matrix mvhd) s;
     s \<leftarrow> gap 24 s;
     put_bytes (be32 (mv_Next_track_ID mvhd)) s
   })"

definition mv_Encode :: "MovieHeaderBox \<Rightarrow> bytes option" where
  "mv_Encode mvhd = do {
     s \<leftarrow> fb_Encode (set_size (mv_Size mvhd) (mv_Box mvhd));
     (_, buf) \<leftarrow> mv_put mvhd s;
     Some buf
   }"

definition makeMvhdBox :: "u64 \<Rightarrow> u32 \<Rightarrow> u32 \<Rightarrow> bytes option" where
  "makeMvhdBox now trackid duration = mv_Encode ((NewMovieHeaderBox now)\<lparr>mv_Next_track_ID := trackid, mv_Duration := ucast duration\<rparr>)"

lemma head_tags:
  "tag ''mvhd'' \<noteq> tag ''uuid''" "tag ''tkhd'' \<noteq> tag ''uuid''" "tag ''mdhd'' \<noteq> tag ''uuid''" "tag ''smhd'' \<noteq> tag ''uuid''"
  "tag ''vmhd'' \<noteq> tag ''uuid''" "tag ''elst'' \<noteq> tag ''uuid''"
  by code_simp+

lemma parses_mv_fields: "parses (if fb_Version box = 1 then 106 else 94) (mv_fields box)"
  unfolding mv_fields_def by (rule parses_eq, (rule parses_intros)+) simp

definition mv_bytes :: "MovieHeaderBox \<Rightarrow> bytes" where
  "mv_bytes m = (let v = fb_Version (mv_Box m) in
     time_bytes v (mv_Creation_time m) @ time_bytes v (mv_Modification_time m) @ be32 (mv_Timescale m) @ time_bytes v (mv_Duration m) @
     be32 (mv_Rate m) @ be16 (mv_Volume m) @ replicate 10 0 @ concat (map be32 (mv_Matrix m)) @ replicate 24 0 @ be32 (mv_Next_track_ID m))"

lemma fills_mv_put: "fills (mv_put m) (mv_bytes m)"
  unfolding mv_put_def mv_bytes_def Let_def by (intro fills_intros)

definition head_good :: "bytes \<Rightarrow> FullBox \<Rightarrow> u64 list \<Rightarrow> bool" where
  "head_good t box ts \<longleftrightarrow> box = new_box t (fb_Version box) (fb_Flags box) \<and> fb_Version box \<in> {0, 1} \<and> length (fb_Flags box) = 3 \<and>
     list_all (time_fits (fb_Version box)) ts"

definition mv_good :: "MovieHeaderBox \<Rightarrow> bool" where
  "mv_good m \<longleftrightarrow> head_good (tag ''mvhd'') (mv_Box m) [mv_Creation_time m, mv_Modification_time m, mv_Duration m] \<and>
     length (mv_Matrix m) = 9 \<and> mv_Pre_defined m = replicate 6 0"

text \<open>
  What is read back.  The decoder counts the reserved bytes behind the volume two short, so that
  each word of the matrix and all behind it is read across two words.
\<close>

primrec across :: "u32 \<Rightarrow> u32 list \<Rightarrow> u32 list" where
  "across p [] = []"
| "across p (w # ws) = (push_bit 16 p OR drop_bit 16 w) # across w ws"

definition mv_seen :: "MovieHeaderBox \<Rightarrow> MovieHeaderBox" where
  "mv_seen m = m\<lparr>mv_Box := bare_box (fb_Version (mv_Box m)) (fb_Flags (mv_Box m)), mv_Matrix := across 0 (mv_Matrix m),
     mv_Pre_defined := across (last (mv_Matrix m)) (replicate 6 0), mv_Next_track_ID := drop_bit 16 (mv_Next_track_ID m)\<rparr>"

definition half :: "u32 \<Rightarrow> bytes" where "half w = [ucast (drop_bit 8 w), ucast w]"

lemma get32_across: "get32 (half p @ be32 w @ r) = Some (push_bit 16 p OR drop_bit 16 w, half w @ r)"
proof -
  have "get32 (half p @ be32 w @ r) = get32 (be32 (push_bit 16 p OR drop_bit 16 w) @ half w @ r)"
    by (rule arg_cong [of _ _ get32]) (auto simp: half_def be32_def intro!: bit_word_eqI simp: bit_simps)
  then show ?thesis by simp
qed

lemma get_words_across:
  "length ws = n \<Longrightarrow> get_words n (half p @ concat (map be32 ws) @ r) = Some (across p ws, half (last (p # ws)) @ r)"
proof -
  have "get_all get32 (length ws) (half p @ concat (map be32 ws) @ r) = Some (across p ws)"
    by (induction ws arbitrary: p) (simp_all add: get32_across)
  moreover have "drop (4 * length ws) (half p @ concat (map be32 ws) @ r) = half (last (p # ws)) @ r"
    by (induction ws arbitrary: p) (simp_all add: half_def be32_def numeral_eq_Suc)
  moreover assume "length ws = n"
  ultimately show ?thesis by (simp add: get_words_def)
qed

lemma fb_Size_new [simp]: "fb_Size (new_box t v fl) = 12" by (simp add: fb_Size_def new_box_def NewBasicBox_def)

lemma half_0: "half 0 = replicate 2 0" by (simp add: half_def numeral_eq_Suc)

lemma zero_words: "replicate 24 0 = concat (map be32 (replicate 6 0))"
  by (simp add: numeral_eq_Suc be32_def)

interpretation mvhd_codec: box_codec mv_Encode "\<lambda>_. tag ''mvhd''" "\<lambda>_ _. mv_Decode (bare_box 0 [0, 0, 0])" mv_good mv_seen
proof (unfold_locales, goal_cases)
  case (1 m)
  let ?v = "fb_Version (mv_Box m)" and ?fl = "fb_Flags (mv_Box m)"
  have g: "mv_Box m = new_box (tag ''mvhd'') ?v ?fl" "?v = 0 \<or> ?v = 1" "length ?fl = 3" "length (mv_Matrix m) = 9" "mv_Pre_defined m = replicate 6 0"
    "time_fits ?v (mv_Creation_time m)" "time_fits ?v (mv_Modification_time m)" "time_fits ?v (mv_Duration m)"
    using 1 by (auto simp: mv_good_def head_good_def)
  have len: "length (mv_bytes m) = (if ?v = 1 then 108 else 96)"
    using g(4) by (simp add: mv_bytes_def Let_def length_time_bytes word_table.length_concat_enc)
  show ?case
  proof (rule fixed_box_codec [OF _ head_tags(1) g(3) _ fills_mv_put, where v = ?v])
    show "mv_Encode m = do { s \<leftarrow> fb_Encode (set_size (word_of_nat (length (mv_bytes m) + 12)) (new_box (tag ''mvhd'') ?v ?fl));
        (_, b) \<leftarrow> mv_put m s; Some b }"
      unfolding mv_Encode_def mv_Size_def len by (subst (1 2 3) g(1)) (simp add: split_def)
    show "mv_fields ((bare_box 0 [0, 0, 0])\<lparr>fb_Version := ?v, fb_Flags := ?fl\<rparr>) (mv_bytes m) = Some (mv_seen m, half (mv_Next_track_ID m))"
      unfolding mv_fields_def mv_bytes_def Let_def append_assoc zero_words
      using g get32_across [of 0 "mv_Next_track_ID m" "[]"]
        get_words_across [OF g(4), of 0] get_words_across [of "replicate 6 0" 6 "last (mv_Matrix m)"]
      by (cases "mv_Matrix m") (simp_all add: get_time_bytes mv_seen_def bare_box_def half_0)
    show "(\<lambda>v. if v = 0 then 96 else 108) ?v = length (mv_bytes m)" using len g(2) by auto
  qed (simp_all add: len mv_Decode_def)
next
  case (2 t n f)
  show ?case unfolding mv_Decode_def by (rule returns_fixed_read [OF parses_mv_fields]) auto
qed

section \<open>Track header\<close>

record TrackHeaderBox =
  th_Box :: FullBox
  th_Creation_time :: u64
  th_Modification_time :: u64
  th_Track_ID :: u32
  th_Duration :: u64
  th_Layer :: u16
  th_Alternate_group :: u16
  th_Volume :: u16
  th_Matrix :: "u32 list"
  th_Width :: u32
  th_Height :: u32

definition NewTrackHeaderBox :: "u64 \<Rightarrow> TrackHeaderBox" where
  "NewTrackHeaderBox now = \<lparr>th_Box = NewFullBox (tag ''tkhd'') 0, th_Creation_time = now, th_Modification_time = now, th_Track_ID = 0,
     th_Duration = 0, th_Layer = 0, th_Alternate_group = 0, th_Volume = 0, th_Matrix = identity_matrix, th_Width = 0, th_Height = 0\<rparr>"

definition th_Size :: "TrackHeaderBox \<Rightarrow> u64" where
  "th_Size tkhd = (if fb_Version (th_Box tkhd) = 1 then fb_Size (th_Box tkhd) + 92 else fb_Size (th_Box tkhd) + 80)"

definition th_fields :: "FullBox \<Rightarrow> bytes \<Rightarrow> (TrackHeaderBox \<times> bytes) option" where
  "th_fields box buf = do {
     (creation, buf) \<leftarrow> get_time (fb_Version box) buf;
     (modification, buf) \<leftarrow> get_time (fb_Version box) buf;
     (track_ID, buf) \<leftarrow> get32 buf;
     let buf = drop 4 buf;
     (duration, buf) \<leftarrow> get_time (fb_Version box) buf;
     let buf = drop 8 buf;
     (layer, buf) \<leftarrow> get16 buf;
     (group, buf) \<leftarrow> get16 buf;
     (volume, buf) \<leftarrow> get16 buf;
     let buf = drop 2 buf;
     (matrix, buf) \<leftarrow> get_words 9 buf;
     (width, buf) \<leftarrow> get32 buf;
     (height, buf) \<leftarrow> get32 buf;
     Some (\<lparr>th_Box = box, th_Creation_time = creation, th_Modification_time = modification, th_Track_ID = track_ID,
       th_Duration = duration, th_Layer = layer, th_Alternate_group = group, th_Volume = volume, th_Matrix = matrix,
       th_Width = width, th_Height = height\<rparr>, buf)
   }"

definition th_Decode :: "FullBox \<Rightarrow> mov_file \<Rightarrow> (mp4_error, TrackHeaderBox \<times> mov_file) result" where
  "th_Decode = fixed_read (\<lambda>v. if v = 0 then 80 else 92) th_fields"

definition th_put :: "TrackHeaderBox \<Rightarrow> fill \<Rightarrow> fill option" where
  "th_put tkhd s = (let v = fb_Version (th_Box tkhd) in do {
     s \<leftarrow> put_time v (th_Creation_time tkhd) s;
     s \<leftarrow> put_time v (th_Modification_time tkhd) s;
     s \<leftarrow> put_bytes (be32 (th_Track_ID tkhd)) s;
     s \<leftarrow> gap 4 s;
     s \<leftarrow> put_time v (th_Duration tkhd) s;
     s \<leftarrow> gap 8 s;
     s \<leftarrow> put_bytes (be16 (th_Layer tkhd)) s;
     s \<leftarrow> put_bytes (be16 (th_Alternate_group tkhd)) s;
     s \<leftarrow> put_bytes (be16 (th_Volume tkhd)) s;
     s \<leftarrow> gap 2 s;
     s \<leftarrow> put_all (\<lambda>w. put_bytes (be32 w)) (th_Matrix tkhd) s;
     s \<leftarrow> put_bytes (be32 (th_Width tkhd)) s;
     put_bytes (be32 (th_Height tkhd)) s
   })"

text \<open>The size is set before the version is raised for a long duration.\<close>

definition th_Encode :: "TrackHeaderBox \<Rightarrow> bytes option" where
  "th_Encode tkhd = (
     let box = set_size (th_Size tkhd) (th_Box tkhd);
         box = (if th_Duration tkhd > 0xFFFFFFFF then box\<lparr>fb_Version := 1\<rparr> else box) in do {
     s \<leftarrow> fb_Encode box;
     (_, buf) \<leftarrow> th_put (tkhd\<lparr>th_Box := box\<rparr>) s;
     Some buf
   })"

lemma parses_th_fields: "parses (if fb_Version box = 1 then 92 else 80) (th_fields box)"
  unfolding th_fields_def by (rule parses_eq, (rule parses_intros)+) simp

definition th_bytes :: "TrackHeaderBox \<Rightarrow> bytes" where
  "th_bytes m = (let v = fb_Version (th_Box m) in
     time_bytes v (th_Creation_time m) @ time_bytes v (th_Modification_time m) @ be32 (th_Track_ID m) @ replicate 4 0 @
     time_bytes v (th_Duration m) @ replicate 8 0 @ be16 (th_Layer m) @ be16 (th_Alternate_group m) @ be16 (th_Volume m) @ replicate 2 0 @
     concat (map be32 (th_Matrix m)) @ be32 (th_Width m) @ be32 (th_Height m))"

lemma fills_th_put: "fills (th_put m) (th_bytes m)"
  unfolding th_put_def th_bytes_def Let_def by (intro fills_intros)

definition th_good :: "TrackHeaderBox \<Rightarrow> bool" where
  "th_good m \<longleftrightarrow> head_good (tag ''tkhd'') (th_Box m) [th_Creation_time m, th_Modification_time m, th_Duration m] \<and> length (th_Matrix m) = 9"

definition th_seen :: "TrackHeaderBox \<Rightarrow> TrackHeaderBox" where
  "th_seen m = m\<lparr>th_Box := bare_box (fb_Version (th_Box m)) (fb_Flags (th_Box m))\<rparr>"

interpretation tkhd_codec: box_codec th_Encode "\<lambda>_. tag ''tkhd''" "\<lambda>_ _. th_Decode (bare_box 0 [0, 0, 0])" th_good th_seen
proof (unfold_locales, goal_cases)
  case (1 m)
  let ?v = "fb_Version (th_Box m)" and ?fl = "fb_Flags (th_Box m)"
  have g: "th_Box m = new_box (tag ''tkhd'') ?v ?fl" "?v = 0 \<or> ?v = 1" "length ?fl = 3" "length (th_Matrix m) = 9"
    "time_fits ?v (th_Creation_time m)" "time_fits ?v (th_Modification_time m)" "time_fits ?v (th_Duration m)"
    using 1 by (auto simp: th_good_def head_good_def)
  have len: "length (th_bytes m) = (if ?v = 1 then 92 else 80)"
    using g(4) by (simp add: th_bytes_def Let_def length_time_bytes word_table.length_concat_enc)
  show ?case
  proof (rule fixed_box_codec [OF _ head_tags(2) g(3) _ fills_th_put, where v = ?v])
    have "th_Encode m = do { s \<leftarrow> fb_Encode (set_size (th_Size m) (th_Box m)); (_, b) \<leftarrow> th_put m s; Some b }"
    proof -
      have "(if th_Duration m > 0xFFFFFFFF then (set_size n (th_Box m))\<lparr>fb_Version := 1\<rparr> else set_size n (th_Box m)) = set_size n (th_Box m)" for n
        using g(7) by (cases "th_Box m") (auto simp: time_fits_def set_size_def not_less)
      moreover have "th_put (m\<lparr>th_Box := set_size n (th_Box m)\<rparr>) = th_put m" for n by (simp add: fun_eq_iff th_put_def set_size_def)
      ultimately show ?thesis by (simp only: th_Encode_def Let_def)
    qed
    moreover have "th_Size m = word_of_nat (length (th_bytes m) + 12)" unfolding th_Size_def len by (subst (2 3) g(1)) simp
    ultimately show "th_Encode m = do { s \<leftarrow> fb_Encode (set_size (word_of_nat (length (th_bytes m) + 12)) (new_box (tag ''tkhd'') ?v ?fl));
        (_, b) \<leftarrow> th_put m s; Some b }" using g(1) by simp
    show "th_fields ((bare_box 0 [0, 0, 0])\<lparr>fb_Version := ?v, fb_Flags := ?fl\<rparr>) (th_bytes m) = Some (th_seen m, [])"
      unfolding th_fields_def th_bytes_def Let_def append_assoc
      using g by (simp add: get_time_bytes th_seen_def bare_box_def get_words_be get_be [where r = "[]", simplified])
    show "(\<lambda>v. if v = 0 then 80 else 92) ?v = length (th_bytes m)" using len g(2) by auto
  qed (simp_all add: len th_Decode_def)
next
  case (2 t n f)
  show ?case unfolding th_Decode_def by (rule returns_fixed_read [OF parses_th_fields]) auto
qed

section \<open>Sound and video headers\<close>

record SoundMediaHeaderBox =
  sm_Box :: FullBox
  sm_Balance :: u16

definition NewSoundMediaHeaderBox :: SoundMediaHeaderBox where
  "NewSoundMediaHeaderBox = \<lparr>sm_Box = NewFullBox (tag ''smhd'') 0, sm_Balance = 0\<rparr>"

definition sm_Size :: "SoundMediaHeaderBox \<Rightarrow> u64" where "sm_Size smhd = fb_Size (sm_Box smhd) + 4"

definition sm_fields :: "FullBox \<Rightarrow> bytes \<Rightarrow> (SoundMediaHeaderBox \<times> bytes) option" where
  "sm_fields box buf = do { (balance, buf) \<leftarrow> get16 buf; Some (\<lparr>sm_Box = box, sm_Balance = balance\<rparr>, buf) }"

definition sm_Decode :: "FullBox \<Rightarrow> mov_file \<Rightarrow> (mp4_error, SoundMediaHeaderBox \<times> mov_file) result" where
  "sm_Decode = fixed_read (\<lambda>_. 4) sm_fields"

definition sm_Encode :: "SoundMediaHeaderBox \<Rightarrow> bytes option" where
  "sm_Encode smhd = do {
     s \<leftarrow> fb_Encode (set_size (sm_Size smhd) (sm_Box smhd));
     (_, buf) \<leftarrow> put_bytes (be16 (sm_Balance smhd)) s;
     Some buf
   }"

definition makeSmhdBox :: "bytes option" where "makeSmhdBox = sm_Encode NewSoundMediaHeaderBox"

record VideoMediaHeaderBox =
  vm_Box :: FullBox
  vm_Graphicsmode :: u16
  vm_Opcolor0 :: u16
  vm_Opcolor1 :: u16
  vm_Opcolor2 :: u16

definition NewVideoMediaHeaderBox :: VideoMediaHeaderBox where
  "NewVideoMediaHeaderBox = \<lparr>vm_Box = NewFullBox (tag ''vmhd'') 0, vm_Graphicsmode = 0, vm_Opcolor0 = 0, vm_Opcolor1 = 0, vm_Opcolor2 = 0\<rparr>"

definition vm_Size :: "VideoMediaHeaderBox \<Rightarrow> u64" where "vm_Size vmhd = fb_Size (vm_Box vmhd) + 8"

definition vm_fields :: "FullBox \<Rightarrow> bytes \<Rightarrow> (VideoMediaHeaderBox \<times> bytes) option" where
  "vm_fields box buf = do {
     (mode, buf) \<leftarrow> get16 buf;
     (c0, buf) \<leftarrow> get16 buf;
     (c1, buf) \<leftarrow> get16 buf;
     (c2, buf) \<leftarrow> get16 buf;
     Some (\<lparr>vm_Box = box, vm_Graphicsmode = mode, vm_Opcolor0 = c0, vm_Opcolor1 = c1, vm_Opcolor2 = c2\<rparr>, buf)
   }"

definition vm_Decode :: "FullBox \<Rightarrow> mov_file \<Rightarrow> (mp4_error, VideoMediaHeaderBox \<times> mov_file) result" where
  "vm_Decode = fixed_read (\<lambda>_. 8) vm_fields"

definition vm_Encode :: "VideoMediaHeaderBox \<Rightarrow> bytes option" where
  "vm_Encode vmhd = do {
     let box = set_size (vm_Size vmhd) (vm_Box vmhd);
     flags \<leftarrow> upd (fb_Flags box) 2 1;
     s \<leftarrow> fb_Encode (box\<lparr>fb_Flags := flags\<rparr>);
     s \<leftarrow> put_bytes (be16 (vm_Graphicsmode vmhd)) s;
     s \<leftarrow> put_bytes (be16 (vm_Opcolor0 vmhd)) s;
     s \<leftarrow> put_bytes (be16 (vm_Opcolor1 vmhd)) s;
     (_, buf) \<leftarrow> put_bytes (be16 (vm_Opcolor2 vmhd)) s;
     Some buf
   }"

definition makeVmhdBox :: "bytes option" where "makeVmhdBox = vm_Encode NewVideoMediaHeaderBox"

definition sm_good :: "SoundMediaHeaderBox \<Rightarrow> bool" where
  "sm_good m \<longleftrightarrow> head_good (tag ''smhd'') (sm_Box m) []"

definition sm_seen :: "SoundMediaHeaderBox \<Rightarrow> SoundMediaHeaderBox" where
  "sm_seen m = m\<lparr>sm_Box := bare_box (fb_Version (sm_Box m)) (fb_Flags (sm_Box m))\<rparr>"

lemma gap_dropped: "do { (_, b) \<leftarrow> put_bytes d s; Some b } = do { (_, b) \<leftarrow> Option.bind (put_bytes d s) (gap n); Some b }"
  by (cases "put_bytes d s") (simp_all add: gap_def split_def)

interpretation smhd_codec: box_codec sm_Encode "\<lambda>_. tag ''smhd''" "\<lambda>_ _. sm_Decode (bare_box 0 [0, 0, 0])" sm_good sm_seen
proof (unfold_locales, goal_cases)
  case (1 m)
  let ?v = "fb_Version (sm_Box m)" and ?fl = "fb_Flags (sm_Box m)" and ?d = "be16 (sm_Balance m) @ replicate 2 0"
  have g: "sm_Box m = new_box (tag ''smhd'') ?v ?fl" "length ?fl = 3" using 1 by (auto simp: sm_good_def head_good_def)
  show ?case
  proof (rule fixed_box_codec [OF _ head_tags(4) g(2) _ fills_bind [OF fills_put_bytes fills_gap], where v = ?v and get = sm_fields])
    show "sm_Encode m = do { s \<leftarrow> fb_Encode (set_size (word_of_nat (length ?d + 12)) (new_box (tag ''smhd'') ?v ?fl));
        (_, b) \<leftarrow> Option.bind (put_bytes (be16 (sm_Balance m)) s) (gap 2); Some b }"
      unfolding sm_Encode_def sm_Size_def gap_dropped [of _ _ 2] by (subst (1 2) g(1)) simp
    show "sm_fields ((bare_box 0 [0, 0, 0])\<lparr>fb_Version := ?v, fb_Flags := ?fl\<rparr>) ?d = Some (sm_seen m, replicate 2 0)"
      by (cases m) (simp add: sm_fields_def sm_seen_def)
  qed (simp_all add: sm_Decode_def)
next
  case (2 t n f)
  have "parses 2 (sm_fields box)" for box unfolding sm_fields_def by (rule parses_eq, (rule parses_intros)+) simp
  then show ?case unfolding sm_Decode_def by (rule returns_fixed_read) simp
qed

definition vm_good :: "VideoMediaHeaderBox \<Rightarrow> bool" where
  "vm_good m \<longleftrightarrow> head_good (tag ''vmhd'') (vm_Box m) []"

definition vm_seen :: "VideoMediaHeaderBox \<Rightarrow> VideoMediaHeaderBox" where
  "vm_seen m = m\<lparr>vm_Box := bare_box (fb_Version (vm_Box m)) ((fb_Flags (vm_Box m))[2 := 1])\<rparr>"

interpretation vmhd_codec: box_codec vm_Encode "\<lambda>_. tag ''vmhd''" "\<lambda>_ _. vm_Decode (bare_box 0 [0, 0, 0])" vm_good vm_seen
proof (unfold_locales, goal_cases)
  case (1 m)
  let ?v = "fb_Version (vm_Box m)" and ?fl = "(fb_Flags (vm_Box m))[2 := 1]"
  let ?d = "be16 (vm_Graphicsmode m) @ be16 (vm_Opcolor0 m) @ be16 (vm_Opcolor1 m) @ be16 (vm_Opcolor2 m)"
  have g: "vm_Box m = new_box (tag ''vmhd'') ?v (fb_Flags (vm_Box m))" "length ?fl = 3" using 1 by (auto simp: vm_good_def head_good_def)
  show ?case
  proof (rule fixed_box_codec [OF _ head_tags(5) g(2) _ fills_bind [OF fills_put_bytes fills_bind [OF fills_put_bytes
          fills_bind [OF fills_put_bytes fills_put_bytes]]], where v = ?v and get = vm_fields])
    have "(set_size n (vm_Box m))\<lparr>fb_Flags := ?fl\<rparr> = set_size n (new_box (tag ''vmhd'') ?v ?fl)" for n
      by (subst (1) g(1)) (simp add: set_size_def new_box_def)
    moreover have "upd (fb_Flags (set_size n (vm_Box m))) 2 1 = Some ?fl" for n using g(2) by (simp add: set_size_def upd_def)
    moreover have "vm_Size m = word_of_nat (length ?d + 12)" unfolding vm_Size_def by (subst g(1)) simp
    ultimately show "vm_Encode m = do { s \<leftarrow> fb_Encode (set_size (word_of_nat (length ?d + 12)) (new_box (tag ''vmhd'') ?v ?fl));
        (_, b) \<leftarrow> do { s \<leftarrow> put_bytes (be16 (vm_Graphicsmode m)) s; s \<leftarrow> put_bytes (be16 (vm_Opcolor0 m)) s;
          s \<leftarrow> put_bytes (be16 (vm_Opcolor1 m)) s; put_bytes (be16 (vm_Opcolor2 m)) s }; Some b }"
      by (simp add: vm_Encode_def split_def)
    show "vm_fields ((bare_box 0 [0, 0, 0])\<lparr>fb_Version := ?v, fb_Flags := ?fl\<rparr>) ?d = Some (vm_seen m, [])"
      by (cases m) (simp add: vm_fields_def vm_seen_def get_be [where r = "[]", simplified])
  qed (simp_all add: vm_Decode_def)
next
  case (2 t n f)
  have "parses 8 (vm_fields box)" for box unfolding vm_fields_def by (rule parses_eq, (rule parses_intros)+) simp
  then show ?case unfolding vm_Decode_def by (rule returns_fixed_read) simp
qed

section \<open>Media header\<close>

record MediaHeaderBox =
  mh_Box :: FullBox
  mh_Creation_time :: u64
  mh_Modification_time :: u64
  mh_Timescale :: u32
  mh_Duration :: u64
  mh_Pad :: byte
  mh_Language :: bytes
  mh_Pre_defined :: u16

definition NewMediaHeaderBox :: "u64 \<Rightarrow> MediaHeaderBox" where
  "NewMediaHeaderBox now = \<lparr>mh_Box = NewFullBox (tag ''mdhd'') 0, mh_Creation_time = now, mh_Modification_time = now, mh_Timescale = 1000,
     mh_Duration = 0, mh_Pad = 0, mh_Language = tag ''und'', mh_Pre_defined = 0\<rparr>"

fun lang_code :: "bytes \<Rightarrow> int \<Rightarrow> int" where
  "lang_code [] code = code"
| "lang_code (c # cs) code = (let c = c - 0x60 in if c > 0x1F then - 1 else lang_code cs (code * 32 OR uint c))"

definition ff_mov_iso639_to_lang :: "bytes \<Rightarrow> int" where "ff_mov_iso639_to_lang lang = lang_code lang 0"

definition mh_Size :: "MediaHeaderBox \<Rightarrow> u64" where
  "mh_Size mdhd = (if fb_Version (mh_Box mdhd) = 1 then fb_Size (mh_Box mdhd) + 32 else fb_Size (mh_Box mdhd) + 20)"

definition mh_lang :: "bytes \<Rightarrow> ((byte \<times> bytes) \<times> bytes) option" where
  "mh_lang buf = do {
     let bs = NewBitStream buf;
     (pad, bs) \<leftarrow> GetBit bs;
     (l0, bs) \<leftarrow> Uint8 5 bs;
     (l1, bs) \<leftarrow> Uint8 5 bs;
     (l2, bs) \<leftarrow> Uint8 5 bs;
     Some ((pad, [l0, l1, l2]), drop 4 buf)
   }"

definition mh_fields :: "FullBox \<Rightarrow> bytes \<Rightarrow> (MediaHeaderBox \<times> bytes) option" where
  "mh_fields box buf = do {
     (creation, buf) \<leftarrow> get_time (fb_Version box) buf;
     (modification, buf) \<leftarrow> get_time (fb_Version box) buf;
     (timescale, buf) \<leftarrow> get32 buf;
     (duration, buf) \<leftarrow> get_time (fb_Version box) buf;
     (lang, buf) \<leftarrow> mh_lang buf;
     Some (\<lparr>mh_Box = box, mh_Creation_time = creation, mh_Modification_time = modification, mh_Timescale = timescale,
       mh_Duration = duration, mh_Pad = fst lang, mh_Language = snd lang, mh_Pre_defined = 0\<rparr>, buf)
   }"

text \<open>Four bytes are left for the bits, so that the bit stream has no error to report.\<close>

definition mh_Decode :: "FullBox \<Rightarrow> mov_file \<Rightarrow> (mp4_error, MediaHeaderBox \<times> mov_file) result" where
  "mh_Decode = fixed_read (\<lambda>v. if v = 1 then 32 else 20) mh_fields"

definition mh_put :: "MediaHeaderBox \<Rightarrow> fill \<Rightarrow> fill option" where
  "mh_put mdhd s = (let v = fb_Version (mh_Box mdhd) in do {
     s \<leftarrow> put_time v (mh_Creation_time mdhd) s;
     s \<leftarrow> put_time v (mh_Modification_time mdhd) s;
     s \<leftarrow> put_bytes (be32 (mh_Timescale mdhd)) s;
     s \<leftarrow> put_time v (mh_Duration mdhd) s;
     s \<leftarrow> put_bytes (be16 (word_of_int (ff_mov_iso639_to_lang (mh_Language mdhd) AND 0x7FFF))) s;
     gap 2 s
   })"

definition mh_Encode :: "MediaHeaderBox \<Rightarrow> bytes option" where
  "mh_Encode mdhd = do {
     s \<leftarrow> fb_Encode (set_size (mh_Size mdhd) (mh_Box mdhd));
     (_, buf) \<leftarrow> mh_put mdhd s;
     Some buf
   }"

definition makeMdhdBox :: "u64 \<Rightarrow> u32 \<Rightarrow> bytes option" where
  "makeMdhdBox now duration = mh_Encode ((NewMediaHeaderBox now)\<lparr>mh_Duration := ucast duration\<rparr>)"

lemma mh_lang_fields: "4 \<le> length buf \<Longrightarrow>
    mh_lang buf = Some ((field buf 0 1, [field buf 1 5, field buf 6 5, field buf 11 5]), drop 4 buf)"
proof -
  assume a: "4 \<le> length buf"
  then have "buf \<noteq> []" by auto
  then show ?thesis using a by (simp add: mh_lang_def NewBitStream_cur cur_simps)
qed

lemma parses_lang [parses_intros]: "parses 4 mh_lang"
  by (simp add: parses_def mh_lang_fields)

lemma parses_mh_fields: "parses (if fb_Version box = 1 then 32 else 20) (mh_fields box)"
  unfolding mh_fields_def by (rule parses_eq, (rule parses_intros)+) simp

definition mh_bytes :: "MediaHeaderBox \<Rightarrow> bytes" where
  "mh_bytes m = (let v = fb_Version (mh_Box m) in
     time_bytes v (mh_Creation_time m) @ time_bytes v (mh_Modification_time m) @ be32 (mh_Timescale m) @ time_bytes v (mh_Duration m) @
     be16 (word_of_int (ff_mov_iso639_to_lang (mh_Language m) AND 0x7FFF)) @ replicate 2 0)"

lemma fills_mh_put: "fills (mh_put m) (mh_bytes m)"
  unfolding mh_put_def mh_bytes_def Let_def by (intro fills_intros)

text \<open>The muxer names the language \<open>und\<close>; the decoder leaves the five bits of each letter.\<close>

definition mh_good :: "MediaHeaderBox \<Rightarrow> bool" where
  "mh_good m \<longleftrightarrow> head_good (tag ''mdhd'') (mh_Box m) [mh_Creation_time m, mh_Modification_time m, mh_Duration m] \<and>
     mh_Language m = tag ''und'' \<and> mh_Pad m = 0 \<and> mh_Pre_defined m = 0"

definition mh_seen :: "MediaHeaderBox \<Rightarrow> MediaHeaderBox" where
  "mh_seen m = m\<lparr>mh_Box := bare_box (fb_Version (mh_Box m)) (fb_Flags (mh_Box m)), mh_Language := [21, 14, 4]\<rparr>"

lemma mh_lang_und: "mh_lang (be16 (word_of_int (ff_mov_iso639_to_lang (tag ''und'') AND 0x7FFF)) @ replicate 2 0) = Some ((0, [21, 14, 4]), [])"
  by code_simp

interpretation mdhd_codec: box_codec mh_Encode "\<lambda>_. tag ''mdhd''" "\<lambda>_ _. mh_Decode (bare_box 0 [0, 0, 0])" mh_good mh_seen
proof (unfold_locales, goal_cases)
  case (1 m)
  let ?v = "fb_Version (mh_Box m)" and ?fl = "fb_Flags (mh_Box m)"
  have g: "mh_Box m = new_box (tag ''mdhd'') ?v ?fl" "?v = 0 \<or> ?v = 1" "length ?fl = 3" "mh_Language m = tag ''und''"
    "time_fits ?v (mh_Creation_time m)" "time_fits ?v (mh_Modification_time m)" "time_fits ?v (mh_Duration m)" "mh_Pad m = 0" "mh_Pre_defined m = 0"
    using 1 by (auto simp: mh_good_def head_good_def)
  have len: "length (mh_bytes m) = (if ?v = 1 then 32 else 20)"
    by (simp add: mh_bytes_def Let_def length_time_bytes)
  show ?case
  proof (rule fixed_box_codec [OF _ head_tags(3) g(3) _ fills_mh_put, where v = ?v])
    show "mh_Encode m = do { s \<leftarrow> fb_Encode (set_size (word_of_nat (length (mh_bytes m) + 12)) (new_box (tag ''mdhd'') ?v ?fl));
        (_, b) \<leftarrow> mh_put m s; Some b }"
      unfolding mh_Encode_def mh_Size_def len by (subst (1 2 3) g(1)) simp
    show "mh_fields ((bare_box 0 [0, 0, 0])\<lparr>fb_Version := ?v, fb_Flags := ?fl\<rparr>) (mh_bytes m) = Some (mh_seen m, [])"
      unfolding mh_fields_def mh_bytes_def Let_def append_assoc g(4)
      using g mh_lang_und by (cases m) (simp add: get_time_bytes mh_seen_def)
    show "(\<lambda>v. if v = 1 then 32 else 20) ?v = length (mh_bytes m)" using len by simp
  qed (simp_all add: len mh_Decode_def)
next
  case (2 t n f)
  show ?case unfolding mh_Decode_def by (rule returns_fixed_read [OF parses_mh_fields]) auto
qed

section \<open>The edit list\<close>

record elstEntry =
  el_segmentDuration :: u64
  el_mediaTime :: u64
  el_mediaRateInteger :: u16
  el_mediaRateFraction :: u16

record movelst =
  elst_entryCount :: u32
  elst_entrys :: "elstEntry list"

record EditListBox =
  elb_box :: FullBox
  elb_entrys :: movelst

definition NewEditListBox :: "u32 \<Rightarrow> EditListBox" where
  "NewEditListBox version = \<lparr>elb_box = NewFullBox (tag ''elst'') (ucast version), elb_entrys = \<lparr>elst_entryCount = 0, elst_entrys = []\<rparr>\<rparr>"

text \<open>The signed \<open>media_time\<close> is kept as its bits.\<close>

definition put_elstEntry :: "byte \<Rightarrow> elstEntry \<Rightarrow> fill \<Rightarrow> fill option" where
  "put_elstEntry version e s = do {
     s \<leftarrow> (if version = 1 then do { s \<leftarrow> put_bytes (be64 (el_segmentDuration e)) s; put_bytes (be64 (el_mediaTime e)) s }
       else do { s \<leftarrow> put_bytes (be32 (ucast (el_segmentDuration e))) s; put_bytes (be32 (ucast (el_mediaTime e))) s });
     s \<leftarrow> put_bytes (be16 (el_mediaRateInteger e)) s;
     put_bytes (be16 (el_mediaRateFraction e)) s
   }"

definition elst_Encode :: "EditListBox \<Rightarrow> (int \<times> bytes) option" where
  "elst_Encode elst = do {
     s \<leftarrow> fb_Encode (elb_box elst);
     s \<leftarrow> put_bytes (be32 (elst_entryCount (elb_entrys elst))) s;
     put_all (put_elstEntry (fb_Version (elb_box elst))) (elst_entrys (elb_entrys elst)) s
   }"

definition get_elstEntry :: "byte \<Rightarrow> bytes \<Rightarrow> (elstEntry \<times> bytes) option" where
  "get_elstEntry version b = do {
     (duration, b) \<leftarrow> (if version = 0 then do { (v, b) \<leftarrow> get32 b; Some (ucast v, b) } else get64 b);
     (media, b) \<leftarrow> (if version = 0 then do { (v, b) \<leftarrow> get32 b; Some (scast v, b) } else get64 b);
     (rate, b) \<leftarrow> get16 b;
     (fraction, b) \<leftarrow> get16 b;
     Some (\<lparr>el_segmentDuration = duration, el_mediaTime = media, el_mediaRateInteger = rate, el_mediaRateFraction = fraction\<rparr>, b)
   }"

definition elst_Decode :: "FullBox \<Rightarrow> mov_file \<Rightarrow> (mp4_error, movelst \<times> mov_file) result" where
  "elst_Decode box f = rbind (fb_Decode box f) (\<lambda>(_, box, f).
     rbind (read_full 4 f) (\<lambda>(b, f).
     rbind (must (get_be32 b)) (\<lambda>entryCount.
     let entrySize = (if fb_Version box \<noteq> 0 then 20 else 12) in
     rbind (tableRemain 4 box) (\<lambda>remain.
     rbind (checkTableSize entryCount entrySize remain) (\<lambda>_.
     rbind (read_full (uint entryCount * entrySize) f) (\<lambda>(buf, f).
     rbind (must (get_all (get_elstEntry (fb_Version box)) (unat entryCount) buf)) (\<lambda>es.
     ok (\<lparr>elst_entryCount = entryCount, elst_entrys = es\<rparr>, f))))))))"

definition elst_value :: "u64 \<Rightarrow> mov_file \<Rightarrow> (mp4_error, movelst \<times> mov_file) result" where
  "elst_value n f = elst_Decode (sized_FullBox n) f"

lemma get_all_parses: "parses k g \<Longrightarrow> k * n \<le> length b \<Longrightarrow> \<exists>es. get_all g n b = Some es \<and> length es = n"
proof (induction n arbitrary: b)
  case (Suc n)
  have "k \<le> length b" "k * n \<le> length (drop k b)" using Suc.prems(2) by simp_all
  then obtain e es where "g b = Some (e, drop k b)" "get_all g n (drop k b) = Some es" "length es = n"
    using Suc.IH [OF Suc.prems(1)] Suc.prems(1) unfolding parses_def by metis
  then show ?case by simp
qed simp

lemma parses_elstEntry: "parses (if version \<noteq> 0 then 20 else 12) (get_elstEntry version)"
proof (cases "version = 0")
  case True
  have "parses 12 (\<lambda>b. do { (duration, b) \<leftarrow> do { (v, b) \<leftarrow> get32 b; Some (ucast v, b) };
      (media, b) \<leftarrow> do { (v, b) \<leftarrow> get32 b; Some (scast v, b) }; (rate, b) \<leftarrow> get16 b; (fraction, b) \<leftarrow> get16 b;
      Some (\<lparr>el_segmentDuration = duration, el_mediaTime = media, el_mediaRateInteger = rate, el_mediaRateFraction = fraction\<rparr>, b) })"
    by (rule parses_eq, (rule parses_intros)+) simp
  then show ?thesis using True by (simp add: get_elstEntry_def [abs_def])
next
  case False
  have "parses 20 (\<lambda>b. do { (duration, b) \<leftarrow> get64 b; (media, b) \<leftarrow> get64 b; (rate, b) \<leftarrow> get16 b; (fraction, b) \<leftarrow> get16 b;
      Some (\<lparr>el_segmentDuration = duration, el_mediaTime = media, el_mediaRateInteger = rate, el_mediaRateFraction = fraction\<rparr>, b) })"
    by (rule parses_eq, (rule parses_intros)+) simp
  then show ?thesis using False by (simp add: get_elstEntry_def [abs_def])
qed

lemma returns_elst_value: "returns (\<lambda>_. True) (elst_value n f)"
proof -
  have e: "returns (\<lambda>_. True) (must (get_all (get_elstEntry v) (unat c) buf))"
    if "length buf = nat (uint c * (if v \<noteq> 0 then 20 else 12))" for v buf and c :: u32
  proof -
    have "(if v \<noteq> 0 then 20 else 12) * unat c \<le> length buf" using that by (auto simp: nat_mult_distrib mult.commute split: if_splits)
    then show ?thesis using get_all_parses [OF parses_elstEntry, of v "unat c" buf] by auto
  qed
  show ?thesis unfolding elst_value_def elst_Decode_def Let_def
    by (rule returns_intros e | fastforce)+
qed


text \<open>The headers the muxer makes, and what is read back of them.\<close>

definition made_mvhd :: "u64 \<Rightarrow> u32 \<Rightarrow> u32 \<Rightarrow> MovieHeaderBox" where
  "made_mvhd now next_track duration = (NewMovieHeaderBox now)\<lparr>mv_Next_track_ID := next_track, mv_Duration := ucast duration\<rparr>"

definition made_mdhd :: "u64 \<Rightarrow> u32 \<Rightarrow> MediaHeaderBox" where
  "made_mdhd now media = (NewMediaHeaderBox now)\<lparr>mh_Duration := ucast media\<rparr>"

lemma made_boxes:
  "makeMvhdBox now next_track duration = mv_Encode (made_mvhd now next_track duration)"
  "makeMdhdBox now media = mh_Encode (made_mdhd now media)"
  by (simp_all add: makeMvhdBox_def made_mvhd_def makeMdhdBox_def made_mdhd_def)

lemma made_good:
  assumes "now \<le> 0xFFFFFFFF"
  shows "mv_good (made_mvhd now next_track duration)" and "mh_good (made_mdhd now media)"
proof -
  have small: "ucast (v :: u32) \<le> (0xFFFFFFFF :: u64)" for v
  proof -
    have "unat v < 2 ^ LENGTH(32)" by (rule unsigned_less)
    then show ?thesis by (simp add: word_le_nat_alt unsigned_ucast_eq take_bit_eq_mod)
  qed
  have new: "NewFullBox t 0 = new_box t 0 [0, 0, 0]" for t by (simp add: NewFullBox_def new_box_def)
  show "mv_good (made_mvhd now next_track duration)" "mh_good (made_mdhd now media)"
    using assms small by (simp_all add: mv_good_def mh_good_def head_good_def made_mvhd_def made_mdhd_def NewMovieHeaderBox_def
        NewMediaHeaderBox_def new new_box_def time_fits_def identity_matrix_def)
qed

lemma across_identity: "across 0 identity_matrix = [1, 0, 0, 0, 1, 0, 0, 0, 0x4000]" "across 0x40000000 (replicate 6 0) = [0, 0, 0, 0, 0, 0]"
  by code_simp+

lemma made_seen:
  "mv_seen (made_mvhd now next_track duration) = \<lparr>mv_Box = bare_box 0 [0, 0, 0], mv_Creation_time = now, mv_Modification_time = now,
     mv_Timescale = 1000, mv_Duration = ucast duration, mv_Rate = 0x10000, mv_Volume = 0x100,
     mv_Matrix = [1, 0, 0, 0, 1, 0, 0, 0, 0x4000], mv_Pre_defined = [0, 0, 0, 0, 0, 0], mv_Next_track_ID = drop_bit 16 next_track\<rparr>"
  "mh_seen (made_mdhd now media) = \<lparr>mh_Box = bare_box 0 [0, 0, 0], mh_Creation_time = now, mh_Modification_time = now,
     mh_Timescale = 1000, mh_Duration = ucast media, mh_Pad = 0, mh_Language = [21, 14, 4], mh_Pre_defined = 0\<rparr>"
  using across_identity
  by (simp_all add: mv_seen_def mh_seen_def made_mvhd_def made_mdhd_def NewMovieHeaderBox_def NewMediaHeaderBox_def NewFullBox_def)
    (simp add: identity_matrix_def)

text \<open>
  C31: The headers of a movie, of a track and of its media that the muxer writes are read back by the
  demuxer, from their own bytes only, and every field of what is read is stated.  The track header has
  all its fields; the media header too, its language as the three five-bit letters.  The movie header
  has its times, time scale, duration, rate and volume, but not what is behind them: the decoder of
  \<open>mvhd\<close> counts the bytes behind the volume two short, so each word of the matrix, of the predefined
  words and the number of the next track is read two bytes early.  The identity matrix is read as
  \<open>[1, 0, 0, 0, 1, 0, 0, 0, 0x4000]\<close>, the predefined words are zero all the same, and the number of
  the next track is its upper half.
\<close>

theorem header_boxes_read_back:
  assumes "now \<le> 0xFFFFFFFF" and "th_good tkhd"
  shows "\<exists>mvhd b mdhd. makeMvhdBox now next_track duration = Some mvhd \<and> th_Encode tkhd = Some b \<and> makeMdhdBox now media = Some mdhd \<and>
    (\<forall>f r. ahead f (mvhd @ b @ mdhd @ r) \<longrightarrow>
      (\<exists>box box' box''. bx_Decode f = ok (8, box, skip 8 f) \<and> bx_Type box = tag ''mvhd'' \<and>
        mv_Decode (bare_box 0 [0, 0, 0]) (skip 8 f) =
          ok (\<lparr>mv_Box = bare_box 0 [0, 0, 0], mv_Creation_time = now, mv_Modification_time = now, mv_Timescale = 1000,
            mv_Duration = ucast duration, mv_Rate = 0x10000, mv_Volume = 0x100, mv_Matrix = [1, 0, 0, 0, 1, 0, 0, 0, 0x4000],
            mv_Pre_defined = [0, 0, 0, 0, 0, 0], mv_Next_track_ID = drop_bit 16 next_track\<rparr>, skip (glen mvhd) f) \<and>
        bx_Decode (skip (glen mvhd) f) = ok (8, box', skip 8 (skip (glen mvhd) f)) \<and> bx_Type box' = tag ''tkhd'' \<and>
        th_Decode (bare_box 0 [0, 0, 0]) (skip 8 (skip (glen mvhd) f)) =
          ok (tkhd\<lparr>th_Box := bare_box (fb_Version (th_Box tkhd)) (fb_Flags (th_Box tkhd))\<rparr>, skip (glen (mvhd @ b)) f) \<and>
        bx_Decode (skip (glen (mvhd @ b)) f) = ok (8, box'', skip 8 (skip (glen (mvhd @ b)) f)) \<and> bx_Type box'' = tag ''mdhd'' \<and>
        mh_Decode (bare_box 0 [0, 0, 0]) (skip 8 (skip (glen (mvhd @ b)) f)) =
          ok (\<lparr>mh_Box = bare_box 0 [0, 0, 0], mh_Creation_time = now, mh_Modification_time = now, mh_Timescale = 1000,
            mh_Duration = ucast media, mh_Pad = 0, mh_Language = [21, 14, 4], mh_Pre_defined = 0\<rparr>,
            skip (glen (mvhd @ b @ mdhd)) f)))"
proof -
  let ?mv = "made_mvhd now next_track duration" and ?mh = "made_mdhd now media"
  obtain mvhd b mdhd where b: "mv_Encode ?mv = Some mvhd" "th_Encode tkhd = Some b" "mh_Encode ?mh = Some mdhd"
    using mvhd_codec.makes [OF made_good(1) [OF assms(1)]] tkhd_codec.makes [OF assms(2)] mdhd_codec.makes [OF made_good(2) [OF assms(1)]]
    by blast
  have "\<exists>box box' box''. bx_Decode f = ok (8, box, skip 8 f) \<and> bx_Type box = tag ''mvhd'' \<and>
        mv_Decode (bare_box 0 [0, 0, 0]) (skip 8 f) = ok (mv_seen ?mv, skip (glen mvhd) f) \<and>
        bx_Decode (skip (glen mvhd) f) = ok (8, box', skip 8 (skip (glen mvhd) f)) \<and> bx_Type box' = tag ''tkhd'' \<and>
        th_Decode (bare_box 0 [0, 0, 0]) (skip 8 (skip (glen mvhd) f)) = ok (th_seen tkhd, skip (glen (mvhd @ b)) f) \<and>
        bx_Decode (skip (glen (mvhd @ b)) f) = ok (8, box'', skip 8 (skip (glen (mvhd @ b)) f)) \<and> bx_Type box'' = tag ''mdhd'' \<and>
        mh_Decode (bare_box 0 [0, 0, 0]) (skip 8 (skip (glen (mvhd @ b)) f)) = ok (mh_seen ?mh, skip (glen (mvhd @ b @ mdhd)) f)"
    if a: "ahead f (mvhd @ b @ mdhd @ r)" for f r
  proof -
    obtain box where 1: "bx_Decode f = ok (8, box, skip 8 f)" "bx_Type box = tag ''mvhd''"
      "mv_Decode (bare_box 0 [0, 0, 0]) (skip 8 f) = ok (mv_seen ?mv, skip (glen mvhd) f)" "ahead (skip (glen mvhd) f) (b @ mdhd @ r)"
      using mvhd_codec.box_read [OF made_good(1) [OF assms(1)] b(1) a] by blast
    obtain box' where 2: "bx_Decode (skip (glen mvhd) f) = ok (8, box', skip 8 (skip (glen mvhd) f))" "bx_Type box' = tag ''tkhd''"
      "th_Decode (bare_box 0 [0, 0, 0]) (skip 8 (skip (glen mvhd) f)) = ok (th_seen tkhd, skip (glen b) (skip (glen mvhd) f))"
      "ahead (skip (glen b) (skip (glen mvhd) f)) (mdhd @ r)"
      using tkhd_codec.box_read [OF assms(2) b(2) 1(4)] by blast
    obtain box'' where 3: "bx_Decode (skip (glen b) (skip (glen mvhd) f)) = ok (8, box'', skip 8 (skip (glen b) (skip (glen mvhd) f)))"
      "bx_Type box'' = tag ''mdhd''" "mh_Decode (bare_box 0 [0, 0, 0]) (skip 8 (skip (glen b) (skip (glen mvhd) f))) =
        ok (mh_seen ?mh, skip (glen mdhd) (skip (glen b) (skip (glen mvhd) f)))"
      using mdhd_codec.box_read [OF made_good(2) [OF assms(1)] b(3) 2(4)] by blast
    show ?thesis using 1 2 3 by (intro exI [of _ box] exI [of _ box'] exI [of _ box'']) (simp add: add_ac)
  qed
  then show ?thesis
    using b unfolding made_boxes made_seen th_seen_def by blast
qed

theorem header_boxes_read_back_witness:
  "\<exists>mvhd b mdhd. makeMvhdBox 3800000000 3 5000 = Some mvhd \<and> th_Encode (NewTrackHeaderBox 3800000000) = Some b \<and> makeMdhdBox 3800000000 4960 = Some mdhd"
proof -
  have "th_good (NewTrackHeaderBox 3800000000)"
    by (simp add: th_good_def head_good_def NewTrackHeaderBox_def NewFullBox_def new_box_def time_fits_def identity_matrix_def)
  from header_boxes_read_back [OF _ this, of 3800000000 3 5000 4960] show ?thesis by auto
qed

end
