(* ===== verification/Mp4Codec.thy ===== *)
theory Mp4Codec
  imports Mp4Head Hvcc Opus
begin

text \<open>
  What an MP4 file says of the codec of a track: \<open>mp4-codec.go\<close>, the sample entries of
  \<open>stsd-box.go\<close>, the descriptors of \<open>esds-box.go\<close>, \<open>dops-box.go\<close>, \<open>ftyp-box.go\<close>, \<open>hdlr-box.go\<close> and
  the extra data of \<open>mp4track.go\<close>.

  The dynamic type of the interface \<open>extraData\<close> is the constructor of a datatype.  A decoder that
  checks the buffer before it reads is \<open>checked\<close>; the position in the buffer is what is left of it.

  The lemmas: the boxes are read back as they were written, and no bytes make a decoder panic.
\<close>

section \<open>Codecs\<close>

type_synonym MP4_CODEC_TYPE = int

definition MP4_CODEC_H264 :: MP4_CODEC_TYPE where "MP4_CODEC_H264 = 1"
definition MP4_CODEC_H265 :: MP4_CODEC_TYPE where "MP4_CODEC_H265 = 2"
definition MP4_CODEC_AAC :: MP4_CODEC_TYPE where "MP4_CODEC_AAC = 102"
definition MP4_CODEC_G711A :: MP4_CODEC_TYPE where "MP4_CODEC_G711A = 103"
definition MP4_CODEC_G711U :: MP4_CODEC_TYPE where "MP4_CODEC_G711U = 104"
definition MP4_CODEC_MP2 :: MP4_CODEC_TYPE where "MP4_CODEC_MP2 = 105"
definition MP4_CODEC_MP3 :: MP4_CODEC_TYPE where "MP4_CODEC_MP3 = 106"
definition MP4_CODEC_OPUS :: MP4_CODEC_TYPE where "MP4_CODEC_OPUS = 107"

lemmas codec_ids = MP4_CODEC_H264_def MP4_CODEC_H265_def MP4_CODEC_AAC_def MP4_CODEC_G711A_def MP4_CODEC_G711U_def MP4_CODEC_MP2_def
  MP4_CODEC_MP3_def MP4_CODEC_OPUS_def

definition isVideo :: "MP4_CODEC_TYPE \<Rightarrow> bool" where
  "isVideo cid \<longleftrightarrow> cid = MP4_CODEC_H264 \<or> cid = MP4_CODEC_H265"

definition isAudio :: "MP4_CODEC_TYPE \<Rightarrow> bool" where
  "isAudio cid \<longleftrightarrow> cid = MP4_CODEC_AAC \<or> cid = MP4_CODEC_G711A \<or> cid = MP4_CODEC_G711U \<or> cid = MP4_CODEC_MP2 \<or>
     cid = MP4_CODEC_MP3 \<or> cid = MP4_CODEC_OPUS"

definition unsupportedCodec :: "MP4_CODEC_TYPE \<Rightarrow> mp4_error" where
  "unsupportedCodec cid = ErrMp4 ''mp4: unsupported codec id''"

definition getCodecNameWithCodecId :: "MP4_CODEC_TYPE \<Rightarrow> (mp4_error, bytes) result" where
  "getCodecNameWithCodecId cid =
     (if cid = MP4_CODEC_H264 then ok (tag ''avc1'')
      else if cid = MP4_CODEC_H265 then ok (tag ''hvc1'')
      else if cid = MP4_CODEC_AAC \<or> cid = MP4_CODEC_MP2 \<or> cid = MP4_CODEC_MP3 then ok (tag ''mp4a'')
      else if cid = MP4_CODEC_G711A then ok (tag ''alaw'')
      else if cid = MP4_CODEC_G711U then ok (tag ''ulaw'')
      else if cid = MP4_CODEC_OPUS then ok (tag ''Opus'')
      else err (unsupportedCodec cid))"

definition getBojecttypeWithCodecId :: "MP4_CODEC_TYPE \<Rightarrow> (mp4_error, byte) result" where
  "getBojecttypeWithCodecId cid =
     (if cid = MP4_CODEC_H264 then ok 0x21
      else if cid = MP4_CODEC_H265 then ok 0x23
      else if cid = MP4_CODEC_AAC then ok 0x40
      else if cid = MP4_CODEC_G711A then ok 0xFD
      else if cid = MP4_CODEC_G711U then ok 0xFE
      else if cid = MP4_CODEC_MP2 then ok 0x6B
      else if cid = MP4_CODEC_MP3 then ok 0x69
      else err (unsupportedCodec cid))"

definition getCodecIdByObjectType :: "byte \<Rightarrow> MP4_CODEC_TYPE" where
  "getCodecIdByObjectType objType =
     (if objType = 0x21 then MP4_CODEC_H264
      else if objType = 0x23 then MP4_CODEC_H265
      else if objType = 0x40 then MP4_CODEC_AAC
      else if objType = 0xFD then MP4_CODEC_G711A
      else if objType = 0xFE then MP4_CODEC_G711U
      else if objType = 0x6B \<or> objType = 0x69 then MP4_CODEC_MP3
      else 0)"

section \<open>Extra data\<close>

datatype extraData = H264Extra "bytes list" "bytes list" | H265Extra "HEVCRecordConfiguration option" | AacExtra bytes | OpusExtra bytes

definition newh265ExtraData :: extraData where "newh265ExtraData = H265Extra (Some NewHEVCRecordConfiguration)"

definition of_codec :: "(codec_error, 'a) result \<Rightarrow> (mp4_error, 'a) result" where
  "of_codec m = (case m of None \<Rightarrow> None | Some (Inl e) \<Rightarrow> err (ErrCodec e) | Some (Inr x) \<Rightarrow> ok x)"

text \<open>\<open>Encode\<close> of the hvcC record may change the record, so the extra data is returned with the bytes.\<close>

fun extra_export :: "extraData \<Rightarrow> (mp4_error, extraData \<times> bytes) result" where
  "extra_export (H264Extra spss ppss) = rbind (of_codec (CreateH264AVCCExtradata spss ppss)) (\<lambda>b. ok (H264Extra spss ppss, b))"
| "extra_export (H265Extra None) = err (ErrMp4 ''mp4: hevc record configuration is not initialised'')"
| "extra_export (H265Extra (Some hvcc)) = do {
     (hvcc, r) \<leftarrow> hvcc_Encode hvcc;
     (case r of Inl e \<Rightarrow> err (ErrCodec e) | Inr b \<Rightarrow> ok (H265Extra (Some hvcc), b))
   }"
| "extra_export (AacExtra asc) = ok (AacExtra asc, asc)"
| "extra_export (OpusExtra head) = (if head = [] then err (ErrMp4 ''mp4: opus track has no dOps box'') else ok (OpusExtra head, head))"

text \<open>After an error the track is not used, so the changed part of the record is not returned.\<close>

fun extra_load :: "bytes \<Rightarrow> extraData \<Rightarrow> (mp4_error, extraData) result" where
  "extra_load d (H264Extra _ _) = rbind (of_codec (CovertExtradata d)) (\<lambda>(spss, ppss). ok (H264Extra spss ppss))"
| "extra_load d (H265Extra None) = err (ErrMp4 ''mp4: hevc record configuration is not initialised'')"
| "extra_load d (H265Extra (Some hvcc)) = do {
     (hvcc, e) \<leftarrow> hvcc_Decode hvcc d;
     (case e of Some e \<Rightarrow> err (ErrCodec e) | None \<Rightarrow> ok (H265Extra (Some hvcc)))
   }"
| "extra_load d (AacExtra _) = ok (AacExtra d)"
| "extra_load d (OpusExtra _) = ok (OpusExtra d)"

section \<open>Reading from a buffer\<close>

text \<open>\<open>checkRemain(buf, n, k)\<close> and then the fields at \<open>n\<close>; \<open>b\<close> is \<open>buf[n:]\<close>.\<close>

definition checked :: "nat \<Rightarrow> (bytes \<Rightarrow> ('a \<times> bytes) option) \<Rightarrow> bytes \<Rightarrow> (mp4_error, 'a \<times> bytes) result" where
  "checked k get b = rbind (checkRemain b 0 (int k)) (\<lambda>_. must (get b))"

definition get_byte :: "bytes \<Rightarrow> (byte \<times> bytes) option" where
  "get_byte b = do { v \<leftarrow> idx b 0; Some (v, drop 1 b) }"

definition get_bytes :: "nat \<Rightarrow> bytes \<Rightarrow> (bytes \<times> bytes) option" where
  "get_bytes n b = do { v \<leftarrow> slice_to b (int n); Some (v, drop n b) }"

text \<open>A buffer of \<open>n\<close> bytes and the fields in it.\<close>

definition read_fields :: "nat \<Rightarrow> (bytes \<Rightarrow> ('a \<times> bytes) option) \<Rightarrow> mov_file \<Rightarrow> (mp4_error, 'a \<times> mov_file) result" where
  "read_fields n get f = rbind (read_full (int n) f) (\<lambda>(buf, f). rbind (must (get buf)) (\<lambda>(x, _). ok (x, f)))"

section \<open>The type of a file\<close>

record FileTypeBox =
  ft_Box :: BasicBox
  ft_Major_brand :: u32
  ft_Minor_version :: u32
  ft_Compatible_brands :: "u32 list"

text \<open>A brand is the little-endian number of its four bytes, \<open>mov_tag\<close>.\<close>

definition get_le :: "bytes \<Rightarrow> (u32 \<times> bytes) option" where
  "get_le b = do { v \<leftarrow> get_le32 b; Some (v, drop 4 b) }"

fun brands :: "bytes \<Rightarrow> u32 list option" where
  "brands b = (if length b < 4 then Some [] else do { (v, r) \<leftarrow> get_le b; vs \<leftarrow> brands (drop 4 b); Some (v # vs) })"

declare brands.simps [simp del]

definition mov_tag :: "bytes \<Rightarrow> u32 option" where "mov_tag t = get_le32 t"

definition ft_Decode :: "u32 \<Rightarrow> FileTypeBox \<Rightarrow> mov_file \<Rightarrow> (mp4_error, FileTypeBox \<times> mov_file) result" where
  "ft_Decode sz ftyp f = rbind (readBoxPayload (ucast sz) BasicBoxLen f) (\<lambda>(buf, f).
     rbind (checked 8 (\<lambda>b. do { (major, b) \<leftarrow> get_le b; (minor, b) \<leftarrow> get32 b; Some ((major, minor), b) }) buf) (\<lambda>((major, minor), b).
     rbind (must (brands b)) (\<lambda>bs.
     ok (ftyp\<lparr>ft_Major_brand := major, ft_Minor_version := minor, ft_Compatible_brands := ft_Compatible_brands ftyp @ bs\<rparr>, f))))"

definition ft_Size :: "FileTypeBox \<Rightarrow> u64" where
  "ft_Size ftyp = word_of_nat (8 + length (ft_Compatible_brands ftyp) * 4 + 8)"

text \<open>The loop writes a brand for every four bytes of the box that are left.\<close>

definition ft_Encode :: "FileTypeBox \<Rightarrow> bytes option" where
  "ft_Encode ftyp = do {
     s \<leftarrow> bx_Encode ((ft_Box ftyp)\<lparr>bx_Size := ft_Size ftyp\<rparr>);
     s \<leftarrow> put_bytes (le32 (ft_Major_brand ftyp)) s;
     s \<leftarrow> put_bytes (be32 (ft_Minor_version ftyp)) s;
     (_, buf) \<leftarrow> put_all (\<lambda>v. put_bytes (le32 v)) (ft_Compatible_brands ftyp) s;
     Some buf
   }"

definition NewFileTypeBox :: "bytes \<Rightarrow> FileTypeBox" where
  "NewFileTypeBox t = \<lparr>ft_Box = NewBasicBox t, ft_Major_brand = 0, ft_Minor_version = 0, ft_Compatible_brands = []\<rparr>"

definition makeFtypBox :: "u32 \<Rightarrow> u32 \<Rightarrow> u32 list \<Rightarrow> bytes option" where
  "makeFtypBox major minor bs = ft_Encode ((NewFileTypeBox (tag ''ftyp''))\<lparr>ft_Major_brand := major, ft_Minor_version := minor, ft_Compatible_brands := bs\<rparr>)"

definition makeStypBox :: "u32 \<Rightarrow> u32 \<Rightarrow> u32 list \<Rightarrow> bytes option" where
  "makeStypBox major minor bs = ft_Encode ((NewFileTypeBox (tag ''styp''))\<lparr>ft_Major_brand := major, ft_Minor_version := minor, ft_Compatible_brands := bs\<rparr>)"

section \<open>Handlers\<close>

record HandlerBox =
  hd_Box :: FullBox
  hd_Handler_type :: bytes
  hd_Name :: bytes

definition NewHandlerBox :: "bytes \<Rightarrow> bytes \<Rightarrow> HandlerBox" where
  "NewHandlerBox handlerType name = \<lparr>hd_Box = NewFullBox (tag ''hdlr'') 0, hd_Handler_type = handlerType, hd_Name = name\<rparr>"

definition hd_Size :: "HandlerBox \<Rightarrow> u64" where
  "hd_Size hdlr = fb_Size (hd_Box hdlr) + 20 + word_of_nat (length (hd_Name hdlr) + 1)"

definition hd_Decode :: "u64 \<Rightarrow> FullBox \<Rightarrow> mov_file \<Rightarrow> (mp4_error, HandlerBox \<times> mov_file) result" where
  "hd_Decode sz box f = rbind (fb_Decode box f) (\<lambda>(_, box, f).
     rbind (readBoxPayload sz FullBoxLen f) (\<lambda>(buf, f).
     rbind (checked 20 (\<lambda>b. do { let b = drop 4 b; (t, b) \<leftarrow> get_bytes 4 b; Some (t, drop 12 b) }) buf) (\<lambda>(t, name).
     ok (\<lparr>hd_Box = box, hd_Handler_type = t, hd_Name = name\<rparr>, f))))"

definition hd_Encode :: "HandlerBox \<Rightarrow> bytes option" where
  "hd_Encode hdlr = do {
     s \<leftarrow> fb_Encode (set_size (hd_Size hdlr) (hd_Box hdlr));
     s \<leftarrow> gap 4 s;
     s \<leftarrow> put_bytes (hd_Handler_type hdlr) s;
     (offset, buf) \<leftarrow> gap 12 s;
     copy_at buf offset (hd_Name hdlr)
   }"

definition vide :: bytes where "vide = tag ''vide''"
definition soun :: bytes where "soun = tag ''soun''"

definition getHandlerType :: "MP4_CODEC_TYPE \<Rightarrow> (mp4_error, bytes) result" where
  "getHandlerType cid =
     (if cid = MP4_CODEC_H264 \<or> cid = MP4_CODEC_H265 then ok vide
      else if isAudio cid then ok soun
      else err (unsupportedCodec cid))"

definition makeHdlrBox :: "bytes \<Rightarrow> bytes option" where
  "makeHdlrBox hdt = hd_Encode (NewHandlerBox hdt
     (if hdt = vide then tag ''VideoHandler'' else if hdt = soun then tag ''SoundHandler'' else []))"

section \<open>Sample entries\<close>

record SampleEntry =
  sn_box :: BasicBox
  sn_data_reference_index :: u16

definition NewSampleEntry :: "bytes \<Rightarrow> SampleEntry" where
  "NewSampleEntry format = \<lparr>sn_box = NewBasicBox format, sn_data_reference_index = 1\<rparr>"

definition sn_Decode :: "SampleEntry \<Rightarrow> mov_file \<Rightarrow> (mp4_error, SampleEntry \<times> mov_file) result" where
  "sn_Decode entry = read_fields 8 (\<lambda>b. do { let b = drop 6 b; (i, b) \<leftarrow> get16 b; Some (entry\<lparr>sn_data_reference_index := i\<rparr>, b) })"

definition sn_Encode :: "SampleEntry \<Rightarrow> fill option" where
  "sn_Encode entry = do {
     s \<leftarrow> bx_Encode (sn_box entry);
     s \<leftarrow> gap 6 s;
     put_bytes (be16 (sn_data_reference_index entry)) s
   }"

record AudioSampleEntry =
  as_entry :: SampleEntry
  as_version :: u16
  as_channelcount :: u16
  as_samplesize :: u16
  as_samplerate :: u32

definition NewAudioSampleEntry :: "bytes \<Rightarrow> AudioSampleEntry" where
  "NewAudioSampleEntry format = \<lparr>as_entry = NewSampleEntry format, as_version = 0, as_channelcount = 0, as_samplesize = 0, as_samplerate = 0\<rparr>"

definition as_fields :: "SampleEntry \<Rightarrow> bytes \<Rightarrow> (AudioSampleEntry \<times> bytes) option" where
  "as_fields entry b = do {
     (version, b) \<leftarrow> get16 b;
     let b = drop 6 b;
     (channels, b) \<leftarrow> get16 b;
     (samplesize, b) \<leftarrow> get16 b;
     let b = drop 4 b;
     (rate, b) \<leftarrow> get32 b;
     Some (\<lparr>as_entry = entry, as_version = version, as_channelcount = channels, as_samplesize = samplesize, as_samplerate = drop_bit 16 rate\<rparr>, b)
   }"

definition as_Decode :: "SampleEntry \<Rightarrow> mov_file \<Rightarrow> (mp4_error, AudioSampleEntry \<times> mov_file) result" where
  "as_Decode entry f = rbind (sn_Decode entry f) (\<lambda>(entry, f). read_fields 20 (as_fields entry) f)"

definition as_Size :: "AudioSampleEntry \<Rightarrow> u64" where
  "as_Size entry = (if bx_Size (sn_box (as_entry entry)) > 0 then bx_Size (sn_box (as_entry entry)) else 36)"

definition sized_entry :: "u64 \<Rightarrow> SampleEntry \<Rightarrow> SampleEntry" where
  "sized_entry n entry = entry\<lparr>sn_box := (sn_box entry)\<lparr>bx_Size := n\<rparr>\<rparr>"

definition as_Encode :: "AudioSampleEntry \<Rightarrow> fill option" where
  "as_Encode entry = do {
     s \<leftarrow> sn_Encode (sized_entry (as_Size entry) (as_entry entry));
     s \<leftarrow> gap 8 s;
     s \<leftarrow> put_bytes (be16 (as_channelcount entry)) s;
     s \<leftarrow> put_bytes (be16 (as_samplesize entry)) s;
     s \<leftarrow> gap 4 s;
     put_bytes (be32 (push_bit 16 (as_samplerate entry))) s
   }"

record VisualSampleEntry =
  vs_entry :: SampleEntry
  vs_width :: u16
  vs_height :: u16
  vs_horizresolution :: u32
  vs_vertresolution :: u32
  vs_frame_count :: u16
  vs_compressorname :: bytes

definition NewVisualSampleEntry :: "bytes \<Rightarrow> VisualSampleEntry" where
  "NewVisualSampleEntry format = \<lparr>vs_entry = NewSampleEntry format, vs_width = 0, vs_height = 0, vs_horizresolution = 0x480000,
     vs_vertresolution = 0x480000, vs_frame_count = 1, vs_compressorname = replicate 32 0\<rparr>"

definition vs_Size :: "VisualSampleEntry \<Rightarrow> u64" where "vs_Size entry = 16 + 70"

definition vs_fields :: "SampleEntry \<Rightarrow> bytes \<Rightarrow> (VisualSampleEntry \<times> bytes) option" where
  "vs_fields entry b = do {
     let b = drop 16 b;
     (width, b) \<leftarrow> get16 b;
     (height, b) \<leftarrow> get16 b;
     (horiz, b) \<leftarrow> get32 b;
     (vert, b) \<leftarrow> get32 b;
     let b = drop 4 b;
     (frames, b) \<leftarrow> get16 b;
     (name, b) \<leftarrow> get_bytes 32 b;
     Some (\<lparr>vs_entry = entry, vs_width = width, vs_height = height, vs_horizresolution = horiz, vs_vertresolution = vert,
       vs_frame_count = frames, vs_compressorname = name\<rparr>, b)
   }"

definition vs_Decode :: "SampleEntry \<Rightarrow> mov_file \<Rightarrow> (mp4_error, VisualSampleEntry \<times> mov_file) result" where
  "vs_Decode entry f = rbind (sn_Decode entry f) (\<lambda>(entry, f). read_fields 70 (vs_fields entry) f)"

definition vs_Encode :: "VisualSampleEntry \<Rightarrow> fill option" where
  "vs_Encode entry = do {
     s \<leftarrow> sn_Encode (vs_entry entry);
     s \<leftarrow> gap 16 s;
     s \<leftarrow> put_bytes (be16 (vs_width entry)) s;
     s \<leftarrow> put_bytes (be16 (vs_height entry)) s;
     s \<leftarrow> put_bytes (be32 (vs_horizresolution entry)) s;
     s \<leftarrow> put_bytes (be32 (vs_vertresolution entry)) s;
     s \<leftarrow> gap 4 s;
     s \<leftarrow> put_bytes (be16 (vs_frame_count entry)) s;
     s \<leftarrow> put_bytes (vs_compressorname entry) s;
     s \<leftarrow> put_bytes (be16 0x18) s;
     put_bytes (be16 0xFFFF) s
   }"

record SampleDescriptionBox =
  sd_box :: FullBox
  sd_entry_count :: u32

definition NewSampleDescriptionBox :: SampleDescriptionBox where
  "NewSampleDescriptionBox = \<lparr>sd_box = NewFullBox (tag ''stsd'') 0, sd_entry_count = 0\<rparr>"

definition sd_Size :: "SampleDescriptionBox \<Rightarrow> u64" where "sd_Size stsd = fb_Size (sd_box stsd) + 4"

definition sd_Decode :: "FullBox \<Rightarrow> mov_file \<Rightarrow> (mp4_error, SampleDescriptionBox \<times> mov_file) result" where
  "sd_Decode = fixed_read (\<lambda>_. 4) (\<lambda>box b. do { (n, b) \<leftarrow> get32 b; Some (\<lparr>sd_box = box, sd_entry_count = n\<rparr>, b) })"

definition sd_Encode :: "SampleDescriptionBox \<Rightarrow> fill option" where
  "sd_Encode stsd = do {
     s \<leftarrow> fb_Encode (sd_box stsd);
     put_bytes (be32 (sd_entry_count stsd)) s
   }"

text \<open>\<open>makeAvcCBox\<close> and \<open>makeHvcCBox\<close>: the extra data in a box of its own.\<close>

definition wrap_box :: "bytes \<Rightarrow> bytes \<Rightarrow> bytes option" where
  "wrap_box t extraData = do {
     (offset, boxdata) \<leftarrow> bx_Encode ((NewBasicBox t)\<lparr>bx_Size := 8 + word_of_nat (length extraData)\<rparr>);
     copy_at boxdata offset extraData
   }"

definition makeAvcCBox :: "bytes \<Rightarrow> bytes option" where "makeAvcCBox = wrap_box (tag ''avcC'')"
definition makeHvcCBox :: "bytes \<Rightarrow> bytes option" where "makeHvcCBox = wrap_box (tag ''hvcC'')"

section \<open>Descriptors\<close>

text \<open>The size of a descriptor, with at most \<open>n\<close> bytes to go.\<close>

primrec descriptor_size :: "nat \<Rightarrow> u32 \<Rightarrow> bitstream \<Rightarrow> (u32 \<times> bitstream) option" where
  "descriptor_size 0 sz bs = Some (sz, Fail (ErrMsg ''mp4: descriptor size field too long'') bs)"
| "descriptor_size (Suc n) sz bs = do {
     (nextbit, bs) \<leftarrow> GetBit bs;
     (v, bs) \<leftarrow> Uint32 7 bs;
     let sz = push_bit 7 sz OR v;
     if nextbit = 1 then descriptor_size n sz bs else Some (sz, bs)
   }"

definition BaseDescriptor_Decode :: "bytes \<Rightarrow> (mp4_error, (byte \<times> u32) \<times> bitstream) result" where
  "BaseDescriptor_Decode d = do {
     (t, bs) \<leftarrow> Uint8 8 (NewBitStream d);
     (sz, bs) \<leftarrow> descriptor_size 4 0 bs;
     (case Err bs of Some e \<Rightarrow> err (ErrCodec e) | None \<Rightarrow> ok ((t, sz), bs))
   }"

definition makeBaseDescriptor :: "byte \<Rightarrow> u32 \<Rightarrow> bytes option" where
  "makeBaseDescriptor t sz = do {
     bsw \<leftarrow> NewBitStreamWriter (5 + uint sz);
     bsw \<leftarrow> PutByte t bsw;
     bsw \<leftarrow> PutUint8 1 1 bsw;
     bsw \<leftarrow> PutUint8 (ucast (drop_bit 21 sz)) 7 bsw;
     bsw \<leftarrow> PutUint8 1 1 bsw;
     bsw \<leftarrow> PutUint8 (ucast (drop_bit 14 sz)) 7 bsw;
     bsw \<leftarrow> PutUint8 1 1 bsw;
     bsw \<leftarrow> PutUint8 (ucast (drop_bit 7 sz)) 7 bsw;
     bsw \<leftarrow> PutUint8 0 1 bsw;
     bsw \<leftarrow> PutUint8 (ucast sz) 7 bsw;
     _ \<leftarrow> bsw_Bits bsw;
     slice_to (bsw_bits bsw) (5 + uint sz)
   }"

definition makeDecoderSpecificInfoDescriptor :: "bytes \<Rightarrow> bytes option" where
  "makeDecoderSpecificInfoDescriptor vosData = do {
     dsd \<leftarrow> makeBaseDescriptor 0x05 (word_of_nat (length vosData));
     copy_at dsd 5 vosData
   }"

definition makeSLDescriptor :: "bytes option" where
  "makeSLDescriptor = do { sldes \<leftarrow> makeBaseDescriptor 0x06 1; upd sldes 5 0x02 }"

definition stream_type :: "MP4_CODEC_TYPE \<Rightarrow> byte" where
  "stream_type cid = (if cid = MP4_CODEC_H264 \<or> cid = MP4_CODEC_H265 then 0x11
     else if cid = MP4_CODEC_G711A \<or> cid = MP4_CODEC_G711U \<or> cid = MP4_CODEC_AAC then 0x15
     else push_bit 2 0x38 OR 1)"

definition makeDecoderConfigDescriptor :: "MP4_CODEC_TYPE \<Rightarrow> bytes \<Rightarrow> (mp4_error, bytes) result" where
  "makeDecoderConfigDescriptor cid vosData = rbind (getBojecttypeWithCodecId cid) (\<lambda>objectType. do {
     let len = (if vosData \<noteq> [] then word_of_nat (length vosData) + 5 else 0);
     dcd \<leftarrow> makeBaseDescriptor 0x04 (13 + len);
     dcd \<leftarrow> upd dcd 5 objectType;
     dcd \<leftarrow> upd dcd 6 (stream_type cid);
     dcd \<leftarrow> upd dcd 7 0;
     dcd \<leftarrow> upd dcd 8 0;
     dcd \<leftarrow> upd dcd 9 0;
     dcd \<leftarrow> put_at dcd 10 (be32 88360);
     dcd \<leftarrow> put_at dcd 14 (be32 88360);
     if len > 0 then do {
       dsd \<leftarrow> makeDecoderSpecificInfoDescriptor vosData;
       dcd \<leftarrow> copy_at dcd 18 dsd;
       ok dcd
     } else ok dcd
   })"

definition makeESDescriptor :: "u16 \<Rightarrow> MP4_CODEC_TYPE \<Rightarrow> bytes \<Rightarrow> (mp4_error, bytes) result" where
  "makeESDescriptor trackid cid vosData = rbind (makeDecoderConfigDescriptor cid vosData) (\<lambda>dcd. do {
     sld \<leftarrow> makeSLDescriptor;
     esd \<leftarrow> makeBaseDescriptor 0x03 (word_of_nat (length dcd + length sld + 3));
     esd \<leftarrow> put_at esd 5 (be16 trackid);
     esd \<leftarrow> upd esd 7 0x00;
     esd \<leftarrow> copy_at esd 8 dcd;
     esd \<leftarrow> copy_at esd (8 + glen dcd) sld;
     ok esd
   })"

definition makeEsdsBox :: "u32 \<Rightarrow> MP4_CODEC_TYPE \<Rightarrow> bytes \<Rightarrow> (mp4_error, bytes) result" where
  "makeEsdsBox tid cid extraData = rbind (makeESDescriptor (ucast tid) cid extraData) (\<lambda>esd. do {
     let esds = NewFullBox (tag ''esds'') 0;
     (offset, buf) \<leftarrow> fb_Encode (set_size (fb_Size esds + word_of_nat (length esd)) esds);
     buf \<leftarrow> copy_at buf offset esd;
     ok buf
   })"

text \<open>
  One turn of the loop over the descriptors, with the codec and the specific info found so far; it
  returns them and what is left of the descriptors.
\<close>

definition es_body :: "bitstream \<Rightarrow> bitstream option" where
  "es_body bs = do {
     (_, bs) \<leftarrow> Uint8 16 bs;
     (streamDependenceFlag, bs) \<leftarrow> Uint8 1 bs;
     (_, bs) \<leftarrow> Uint8 1 bs;
     (oCRstreamFlag, bs) \<leftarrow> Uint8 1 bs;
     (_, bs) \<leftarrow> Uint8 5 bs;
     bs \<leftarrow> (if streamDependenceFlag = 1 then map_option snd (Uint8 16 bs) else Some bs);
     if oCRstreamFlag = 1 then map_option snd (Uint8 16 bs) else Some bs
   }"

definition descriptor_turn :: "bytes \<Rightarrow> MP4_CODEC_TYPE \<Rightarrow> bytes \<Rightarrow> (mp4_error, MP4_CODEC_TYPE \<times> bytes \<times> bytes) result" where
  "descriptor_turn esd cid vosData = rbind (BaseDescriptor_Decode esd) (\<lambda>((t, sz), bs).
     rbind (if t = 0x03 then do { bs \<leftarrow> es_body bs; ok (cid, vosData, bs) }
       else if t = 0x04 then do {
         (objType, bs) \<leftarrow> Uint8 8 bs;
         (case Err bs of Some e \<Rightarrow> err (ErrCodec e)
          | None \<Rightarrow>
              if getCodecIdByObjectType objType = 0 then err (ErrMp4 ''mp4: unsupported esds object type'')
              else ok (getCodecIdByObjectType objType, vosData, SkipBits (12 * 8) bs))
       } else if t = 0x05 then do {
         (d, bs) \<leftarrow> GetBytes (uint sz) bs;
         ok (cid, (case d of None \<Rightarrow> [] | Some d \<Rightarrow> d), bs)
       } else ok (cid, vosData, SkipBits (uint sz * 8) bs)) (\<lambda>(cid, vosData, bs).
     case Err bs of Some e \<Rightarrow> err (ErrCodec e) | None \<Rightarrow> ok (cid, vosData, RemainData bs)))"

partial_function (option) descriptors :: "bytes \<Rightarrow> MP4_CODEC_TYPE \<Rightarrow> bytes \<Rightarrow> (mp4_error, MP4_CODEC_TYPE \<times> bytes) result" where
  "descriptors esd cid vosData =
     (if esd = [] then ok (cid, vosData)
      else Option.bind (descriptor_turn esd cid vosData) (\<lambda>r. case r of
          Inl e \<Rightarrow> err e
        | Inr (cid, vosData, esd) \<Rightarrow> descriptors esd cid vosData))"

text \<open>The codec of the track and its extra data are changed; a fresh \<open>aacExtraData\<close> has no config.\<close>

definition decodeESDescriptor :: "bytes \<Rightarrow> MP4_CODEC_TYPE \<Rightarrow> extraData option \<Rightarrow> (mp4_error, bytes \<times> MP4_CODEC_TYPE \<times> extraData option) result" where
  "decodeESDescriptor esd cid extra = rbind (descriptors esd cid []) (\<lambda>(cid, vosData).
     if cid = MP4_CODEC_AAC \<and> vosData = [] then err (ErrMp4 ''mp4: aac esds box has no decoder specific info'')
     else ok (vosData, cid, if cid = MP4_CODEC_AAC then Some (AacExtra []) else extra))"

section \<open>Opus\<close>

record ChannelMappingTable =
  ct_StreamCount :: byte
  ct_CoupledCount :: byte
  ct_ChannelMapping :: bytes

record OpusSpecificBox =
  ob_Box :: BasicBox
  ob_Version :: byte
  ob_OutputChannelCount :: byte
  ob_PreSkip :: u16
  ob_InputSampleRate :: u32
  ob_OutputGain :: u16
  ob_ChannelMappingFamily :: byte
  ob_ChanMapTable :: "ChannelMappingTable option"

definition NewdOpsBox :: OpusSpecificBox where
  "NewdOpsBox = \<lparr>ob_Box = NewBasicBox (tag ''dOps''), ob_Version = 0, ob_OutputChannelCount = 0, ob_PreSkip = 0, ob_InputSampleRate = 0,
     ob_OutputGain = 0, ob_ChannelMappingFamily = 0, ob_ChanMapTable = None\<rparr>"

definition ob_Size :: "OpusSpecificBox \<Rightarrow> u64" where
  "ob_Size dops = 19 + (case ob_ChanMapTable dops of None \<Rightarrow> 0 | Some t \<Rightarrow> 2 + word_of_nat (length (ct_ChannelMapping t)))"

text \<open>The signed \<open>OutputGain\<close> is kept as its bits.\<close>

definition ob_put :: "OpusSpecificBox \<Rightarrow> fill \<Rightarrow> fill option" where
  "ob_put dops s = do {
     s \<leftarrow> put_bytes [ob_Version dops] s;
     s \<leftarrow> put_bytes [ob_OutputChannelCount dops] s;
     s \<leftarrow> put_bytes (be16 (ob_PreSkip dops)) s;
     s \<leftarrow> put_bytes (be32 (ob_InputSampleRate dops)) s;
     s \<leftarrow> put_bytes (be16 (ob_OutputGain dops)) s;
     s \<leftarrow> put_bytes [ob_ChannelMappingFamily dops] s;
     (case ob_ChanMapTable dops of None \<Rightarrow> Some s
      | Some t \<Rightarrow> do {
          s \<leftarrow> put_bytes [ct_StreamCount t] s;
          s \<leftarrow> put_bytes [ct_CoupledCount t] s;
          put_bytes (ct_ChannelMapping t) s
        })
   }"

definition ob_Encode :: "OpusSpecificBox \<Rightarrow> bytes option" where
  "ob_Encode dops = do {
     s \<leftarrow> bx_Encode ((ob_Box dops)\<lparr>bx_Size := ob_Size dops\<rparr>);
     (_, buf) \<leftarrow> ob_put dops s;
     Some buf
   }"

definition ob_fields :: "OpusSpecificBox \<Rightarrow> bytes \<Rightarrow> (OpusSpecificBox \<times> bytes) option" where
  "ob_fields dops b = do {
     (version, b) \<leftarrow> get_byte b;
     (channels, b) \<leftarrow> get_byte b;
     (preskip, b) \<leftarrow> get16 b;
     (rate, b) \<leftarrow> get32 b;
     (gain, b) \<leftarrow> get16 b;
     (family, b) \<leftarrow> get_byte b;
     Some (dops\<lparr>ob_Version := version, ob_OutputChannelCount := channels, ob_PreSkip := preskip, ob_InputSampleRate := rate,
       ob_OutputGain := gain, ob_ChannelMappingFamily := family, ob_ChanMapTable := None\<rparr>, b)
   }"

definition ob_table :: "nat \<Rightarrow> bytes \<Rightarrow> (ChannelMappingTable \<times> bytes) option" where
  "ob_table n b = do {
     (streams, b) \<leftarrow> get_byte b;
     (coupled, b) \<leftarrow> get_byte b;
     (mapping, b) \<leftarrow> get_bytes n b;
     Some (\<lparr>ct_StreamCount = streams, ct_CoupledCount = coupled, ct_ChannelMapping = mapping\<rparr>, b)
   }"

definition ob_Decode :: "u32 \<Rightarrow> OpusSpecificBox \<Rightarrow> mov_file \<Rightarrow> (mp4_error, OpusSpecificBox \<times> mov_file) result" where
  "ob_Decode sz dops f = rbind (readBoxPayload (ucast sz) BasicBoxLen f) (\<lambda>(buf, f).
     rbind (checked 11 (ob_fields dops) buf) (\<lambda>(dops, b).
     if ob_ChannelMappingFamily dops \<noteq> 0 then
       rbind (checked (2 + unat (ob_OutputChannelCount dops)) (ob_table (unat (ob_OutputChannelCount dops))) b) (\<lambda>(t, _).
       ok (dops\<lparr>ob_ChanMapTable := Some t\<rparr>, f))
     else ok (dops, f)))"

definition makeOpusSpecificBox :: "bytes \<Rightarrow> bytes option" where
  "makeOpusSpecificBox extraData = (case ParseExtranData extraData of
       None \<Rightarrow> None
     | Some (Inl _) \<Rightarrow> ob_Encode NewdOpsBox
     | Some (Inr ctx) \<Rightarrow> ob_Encode (NewdOpsBox\<lparr>ob_OutputChannelCount := word_of_int (oc_ChannelCount ctx),
         ob_PreSkip := word_of_int (oc_Preskip ctx), ob_InputSampleRate := word_of_int (oc_SampleRate ctx),
         ob_OutputGain := oc_OutputGain ctx, ob_ChannelMappingFamily := oc_MapType ctx,
         ob_ChanMapTable := (if oc_MapType ctx > 0 then Some \<lparr>ct_StreamCount = word_of_int (oc_StreamCount ctx),
           ct_CoupledCount = word_of_int (oc_StereoStreamCount ctx), ct_ChannelMapping = oc_Channel ctx\<rparr> else None)\<rparr>))"

text \<open>The header has a version of 1, the box one of 0; its fields are little-endian.\<close>

definition toOpusHead :: "OpusSpecificBox \<Rightarrow> bytes" where
  "toOpusHead dops = OpusHead @ [1, ob_OutputChannelCount dops] @ le16 (ob_PreSkip dops) @ le32 (ob_InputSampleRate dops) @
     le16 (ob_OutputGain dops) @ [ob_ChannelMappingFamily dops] @
     (case ob_ChanMapTable dops of None \<Rightarrow> [] | Some t \<Rightarrow> [ct_StreamCount t, ct_CoupledCount t] @ ct_ChannelMapping t)"

section \<open>No bytes make a decoder panic\<close>

lemma parses_bytes [parses_intros]: "parses 1 get_byte" "parses n (get_bytes n)" "parses 4 get_le"
proof -
  show "parses 1 get_byte" by (auto simp: parses_def get_byte_def idx_def)
  show "parses n (get_bytes n)" by (auto simp: parses_def get_bytes_def slice_to_def)
  have "\<exists>v. get_le32 b = Some v" if "4 \<le> length b" for b
    using that by (cases b rule: get_le32.cases) auto
  then show "parses 4 get_le" by (force simp: parses_def get_le_def)
qed

lemma parses_option [parses_intros]: "parses 0 (\<lambda>b. Some (x, b))"
  by (simp add: parses_def)

lemma returns_checked [returns_intros]: "parses k g \<Longrightarrow> returns (\<lambda>(x, r). r = drop k b) (checked k g b)"
  unfolding checked_def checkRemain_def by (rule returns_intros | force)+

lemma returns_checked_any: "parses k g \<Longrightarrow> returns (\<lambda>_. True) (checked k g b)"
  using returns_checked [of k g b] by (rule returns_mono) auto

lemma returns_read_fields [returns_intros]: "parses k g \<Longrightarrow> k \<le> n \<Longrightarrow> returns (\<lambda>_. True) (read_fields n g f)"
  unfolding read_fields_def by (rule returns_rbind [OF returns_read_full]) (auto intro!: returns_rbind [OF returns_parse])

lemma returns_readBoxPayload [returns_intros]: "returns (\<lambda>_. True) (readBoxPayload sz n f)"
  unfolding readBoxPayload_def
proof (rule returns_rbind)
  show "returns (\<lambda>n. 0 \<le> n) (boxPayloadLen sz n)" by (simp add: boxPayloadLen_def Let_def)
  show "returns (\<lambda>_. True) (read_full m f)" if "0 \<le> m" for m
    using returns_read_full [OF that] by (rule returns_mono) simp
qed

lemma readBoxPayload_length: "returns (\<lambda>(d, f). glen d \<le> maxBoxPayloadSize) (readBoxPayload sz n f)"
  unfolding readBoxPayload_def
proof (rule returns_rbind)
  show "returns (\<lambda>n. 0 \<le> n \<and> n \<le> maxBoxPayloadSize) (boxPayloadLen sz n)" by (simp add: boxPayloadLen_def Let_def)
  show "returns (\<lambda>(d, f). glen d \<le> maxBoxPayloadSize) (read_full m f)" if "0 \<le> m \<and> m \<le> maxBoxPayloadSize" for m
    using returns_read_full [of m f] that by (auto elim!: returns_mono)
qed

lemma brands_total: "\<exists>vs. brands b = Some vs"
proof (induction b rule: brands.induct)
  case (1 b)
  then show ?case using parses_bytes(3) by (subst brands.simps) (force simp: parses_def)
qed

lemma returns_brands: "returns (\<lambda>_. True) (must (brands b))"
  using brands_total [of b] by auto

lemma returns_ft_Decode [returns_intros]: "returns (\<lambda>_. True) (ft_Decode sz ftyp f)"
proof -
  have "parses 8 (\<lambda>b. do { (major, b) \<leftarrow> get_le b; (minor, b) \<leftarrow> get32 b; Some ((major, minor), b) })"
    by (rule parses_eq, (rule parses_intros)+) simp
  note p = returns_checked_any [OF this]
  show ?thesis unfolding ft_Decode_def
    by (intro returns_rbind [OF returns_readBoxPayload] returns_prod returns_rbind [OF p]) (auto intro!: returns_rbind [OF returns_brands])
qed

lemma returns_hd_Decode [returns_intros]: "returns (\<lambda>_. True) (hd_Decode sz box f)"
proof -
  have "parses (4 + (4 + 12)) (\<lambda>b. let b = drop 4 b in Option.bind (get_bytes 4 b) (\<lambda>(t, b). Some (t, drop 12 b)))"
    by (intro parses_skip parses_bind parses_bytes) (simp add: parses_def)
  then have "parses 20 (\<lambda>b. let b = drop 4 b in Option.bind (get_bytes 4 b) (\<lambda>(t, b). Some (t, drop 12 b)))" by simp
  note p = returns_checked_any [OF this]
  show ?thesis unfolding hd_Decode_def
    by (intro returns_rbind [OF returns_fb_Decode] returns_rbind [OF returns_readBoxPayload] returns_prod returns_rbind [OF p]) simp_all
qed

lemma returns_sn_Decode [returns_intros]: "returns (\<lambda>_. True) (sn_Decode entry f)"
  unfolding sn_Decode_def by (rule returns_read_fields [where k = 8]) (rule parses_eq, (rule parses_intros)+, simp_all)

lemma returns_entries [returns_intros]:
  "returns (\<lambda>_. True) (as_Decode entry f)" "returns (\<lambda>_. True) (vs_Decode entry f)"
proof -
  have a: "parses 20 (as_fields e)" for e unfolding as_fields_def by (rule parses_eq, (rule parses_intros)+) simp
  have v: "parses 66 (vs_fields e)" for e unfolding vs_fields_def by (rule parses_eq, (rule parses_intros)+) simp
  show "returns (\<lambda>_. True) (as_Decode entry f)" unfolding as_Decode_def
    by (intro returns_rbind [OF returns_sn_Decode] returns_prod returns_read_fields [OF a]) simp
  show "returns (\<lambda>_. True) (vs_Decode entry f)" unfolding vs_Decode_def
    by (intro returns_rbind [OF returns_sn_Decode] returns_prod returns_read_fields [OF v]) simp
qed

lemma returns_sd_Decode [returns_intros]: "returns (\<lambda>_. True) (sd_Decode box f)"
proof -
  have "parses 4 (\<lambda>b. do { (n, b) \<leftarrow> get32 b; Some (\<lparr>sd_box = box, sd_entry_count = n\<rparr>, b) })" for box
    by (rule parses_eq, (rule parses_intros)+) simp
  then show ?thesis unfolding sd_Decode_def by (rule returns_fixed_read) simp
qed

lemma returns_ob_Decode [returns_intros]: "returns (\<lambda>_. True) (ob_Decode sz dops f)"
proof -
  have "parses 11 (ob_fields dops)" for dops unfolding ob_fields_def by (rule parses_eq, (rule parses_intros)+) simp
  note p = returns_checked_any [OF this]
  have "parses (2 + n) (ob_table n)" for n unfolding ob_table_def by (rule parses_eq, (rule parses_intros)+) simp
  note q = returns_checked_any [OF this]
  show ?thesis unfolding ob_Decode_def
    by (intro returns_rbind [OF returns_readBoxPayload] returns_prod returns_rbind [OF p] returns_if returns_rbind [OF q]) simp_all
qed

lemma past_descriptor_size: "past k d s \<Longrightarrow> gives (\<lambda>(v, t). past k d t) (descriptor_size n sz s)"
proof (induction n arbitrary: sz s)
  case (Suc n)
  have "gives (\<lambda>(v, t). past k d t) (Some (v, t))" if "past k d t" for v :: u32 and t using that by simp
  then show ?case unfolding descriptor_size.simps
    by (intro past_bind [OF past_GetBit [OF Suc.prems]] past_rules Suc.IH)
qed (simp add: past_Fail)

lemma BaseDescriptor_total:
  assumes "length d < 2 ^ 62"
  shows "returns (\<lambda>(v, t). past 8 d t \<and> bs_err t = None) (BaseDescriptor_Decode d)"
proof -
  obtain v s where s: "Uint8 8 (NewBitStream d) = Some (v, s)" "past 8 d s" using past_first [OF assms] by (auto simp: gives_def)
  obtain w t where "descriptor_size 4 0 s = Some (w, t)" "past 8 d t" using past_descriptor_size [OF s(2)] by (fastforce simp: gives_def)
  then show ?thesis using s(1) by (auto simp: BaseDescriptor_Decode_def Err_def split: option.split)
qed

lemma past_es_body: "past k d s \<Longrightarrow> gives (past k d) (es_body s)"
proof -
  have m: "gives (past k d) (map_option snd m)" if "gives (\<lambda>(v, t). past k d t) m" for m :: "(byte \<times> bitstream) option"
    using that by (auto simp: gives_def)
  have f: "gives (past k d) (Option.bind m g)" if "gives (past k d) m" "\<And>t. past k d t \<Longrightarrow> gives (past k d) (g t)" for m g
    using that by (auto simp: gives_def)
  show "past k d s \<Longrightarrow> gives (past k d) (es_body s)" unfolding es_body_def
    by (intro past_rules f m) (assumption | simp)+
qed

lemma RemainData_past: "past 8 d s \<Longrightarrow> bs_err s = None \<Longrightarrow> d \<noteq> [] \<Longrightarrow> length (RemainData s) < length d"
  by (auto simp: past_def RemainData_def bs_ok_def pos_def)

lemma descriptor_turn_total:
  assumes "length d < 2 ^ 62" and "d \<noteq> []" and "length vos < 2 ^ 62"
  shows "returns (\<lambda>(c, v, r). length r < length d \<and> length v < 2 ^ 62) (descriptor_turn d cid vos)"
proof -
  have fin: "returns (\<lambda>(c, v, r). length r < length d \<and> length v < 2 ^ 62)
      ((\<lambda>(cid, vosData, bs). case Err bs of Some e \<Rightarrow> err (ErrCodec e) | None \<Rightarrow> ok (cid, vosData, RemainData bs)) x)"
    if "past 8 d (snd (snd x)) \<and> length (fst (snd x)) < 2 ^ 62" for x :: "int \<times> bytes \<times> bitstream"
    using that RemainData_past [of d "snd (snd x)"] assms(2) by (cases x) (auto simp: Err_def split: option.split)
  show ?thesis unfolding descriptor_turn_def
  proof (rule returns_rbind [OF BaseDescriptor_total [OF assms(1)]], goal_cases)
    case (1 y)
    obtain t sz s where y: "y = ((t, sz), s)" by (metis surj_pair)
    then have s: "past 8 d s" using 1 by simp
    have u: "uint sz < 2 ^ 62" using uint_bounded [of sz] by simp
    have "\<And>x u. GetBytes (uint sz) s = Some (Some x, u) \<Longrightarrow> length x < 2 ^ 62"
      using GetBytes_length s assms(1) by (fastforce simp: past_def)
    then have "returns (\<lambda>x. past 8 d (snd (snd x)) \<and> length (fst (snd x)) < 2 ^ 62) (if t = 0x03 then do { bs \<leftarrow> es_body s; ok (cid, vos, bs) }
       else if t = 0x04 then do {
         (objType, bs) \<leftarrow> Uint8 8 s;
         (case Err bs of Some e \<Rightarrow> err (ErrCodec e)
          | None \<Rightarrow>
              if getCodecIdByObjectType objType = 0 then err (ErrMp4 ''mp4: unsupported esds object type'')
              else ok (getCodecIdByObjectType objType, vos, SkipBits (12 * 8) bs))
       } else if t = 0x05 then do {
         (d, bs) \<leftarrow> GetBytes (uint sz) s;
         ok (cid, (case d of None \<Rightarrow> [] | Some d \<Rightarrow> d), bs)
       } else ok (cid, vos, SkipBits (uint sz * 8) s))"
      using gives_streamD(1) [OF past_es_body [OF s]] gives_streamD(2) [OF past_Uint(1) [OF s, of 8]]
        gives_streamD(2) [OF past_GetBytes [OF s u]] past_SkipBits s assms(3)
      by (auto split: option.split)
    then show ?case unfolding y prod.case by (rule returns_rbind) (rule fin)
  qed
qed

lemma descriptors_total: "length d < 2 ^ 62 \<Longrightarrow> length vos < 2 ^ 62 \<Longrightarrow> returns (\<lambda>(c, v). length v < 2 ^ 62) (descriptors d cid vos)"
proof (induction d arbitrary: cid vos rule: length_induct)
  case (1 d)
  show ?case
  proof (cases "d = []")
    case False
    note r = descriptor_turn_total [OF 1(2) False 1(3), of cid]
    then obtain x where x: "descriptor_turn d cid vos = Some x" using returnsD by blast
    show ?thesis
    proof (cases x)
      case (Inl e)
      then show ?thesis using False x by (subst descriptors.simps) simp
    next
      case (Inr y)
      obtain c v r where y: "y = (c, v, r)" by (cases y)
      then have "length r < length d" "length v < 2 ^ 62" using r x Inr by simp_all
      then have "returns (\<lambda>(c, v). length v < 2 ^ 62) (descriptors r c v)" using 1 by simp
      then show ?thesis using False x Inr y by (subst descriptors.simps) simp
    qed
  qed (use 1(3) in \<open>subst descriptors.simps, simp\<close>)
qed

lemma returns_decodeES: "length d < 2 ^ 62 \<Longrightarrow> returns (\<lambda>(v, c, x). length v < 2 ^ 62) (decodeESDescriptor d cid extra)"
  unfolding decodeESDescriptor_def by (rule returns_rbind [OF descriptors_total]) auto

section \<open>Extra data\<close>

lemma returns_extra_load: "length d < 2 ^ 62 \<Longrightarrow> returns (\<lambda>_. True) (extra_load d extra)"
proof (cases "(d, extra)" rule: extra_load.cases)
  case (1 d' ss ps)
  obtain r where "CovertExtradata d = Some r" using CovertExtradata_total by blast
  then show ?thesis using 1 by (cases r) (auto simp: of_codec_def)
next
  case (3 d' h)
  assume "length d < 2 ^ 62"
  then obtain h' e where "hvcc_Decode h d = Some (h', e)" using hvcc_Decode_total by blast
  then show ?thesis using 3 by (cases e) simp_all
qed simp_all

end
