(* ===== verification/Mp4Fragment.thy ===== *)
theory Mp4Fragment
  imports Mp4Codec
begin

text \<open>
  The boxes of a movie fragment and of the encryption of samples: \<open>mfhd-box.go\<close>, \<open>tfhd-box.go\<close>,
  \<open>tfdt-box.go\<close>, \<open>trun-box.go\<close>, \<open>senc-box.go\<close>, \<open>saiz-box.go\<close>, \<open>saio-box.go\<close>, \<open>sgpd-box.go\<close> and
  \<open>pssh-box.go\<close> in \<open>go-mp4\<close>.

  A field that depends on a flag is \<open>opt_field\<close>.  Of the sample groups only the last \<open>seig\<close> entry is
  kept; nobody reads the list the decoder fills.

  The lemmas: fragment headers and runs are read back as they were written, and no bytes make a
  decoder panic.
\<close>

section \<open>Flags\<close>

text \<open>\<open>Flags\<close> is an array of three bytes.\<close>

definition box_flags :: "FullBox \<Rightarrow> u32" where
  "box_flags box = (case fb_Flags box of [a, b, c] \<Rightarrow> push_bit 16 (ucast a) OR push_bit 8 (ucast b) OR ucast c | _ \<Rightarrow> 0)"

definition has :: "u32 \<Rightarrow> FullBox \<Rightarrow> bool" where "has flag box \<longleftrightarrow> box_flags box AND flag > 0"

definition opt_field :: "bool \<Rightarrow> nat \<Rightarrow> (bytes \<Rightarrow> ('a \<times> bytes) option) \<Rightarrow> 'a \<Rightarrow> bytes \<Rightarrow> (mp4_error, 'a \<times> bytes) result" where
  "opt_field c k get v b = (if c then checked k get b else ok (v, b))"

definition opt_put :: "bool \<Rightarrow> bytes \<Rightarrow> fill \<Rightarrow> fill option" where
  "opt_put c d s = (if c then put_bytes d s else Some s)"

text \<open>A full box, its payload and the fields in it.\<close>

definition payload_read :: "(FullBox \<Rightarrow> bytes \<Rightarrow> (mp4_error, 'a \<times> bytes) result) \<Rightarrow> u32 \<Rightarrow> FullBox \<Rightarrow> mov_file \<Rightarrow> (mp4_error, 'a \<times> mov_file) result" where
  "payload_read get sz box f = rbind (fb_Decode box f) (\<lambda>(_, box, f).
     rbind (readBoxPayload (ucast sz) FullBoxLen f) (\<lambda>(buf, f).
     rbind (get box buf) (\<lambda>(x, _). ok (x, f))))"

section \<open>Fragment headers\<close>

record MovieFragmentHeaderBox =
  mf_Box :: FullBox
  mf_SequenceNumber :: u32

definition NewMovieFragmentHeaderBox :: "u32 \<Rightarrow> MovieFragmentHeaderBox" where
  "NewMovieFragmentHeaderBox sq = \<lparr>mf_Box = NewFullBox (tag ''mfhd'') 0, mf_SequenceNumber = sq\<rparr>"

definition mf_fields :: "FullBox \<Rightarrow> bytes \<Rightarrow> (MovieFragmentHeaderBox \<times> bytes) option" where
  "mf_fields box b = do { (n, b) \<leftarrow> get32 b; Some (\<lparr>mf_Box = box, mf_SequenceNumber = n\<rparr>, b) }"

definition mf_Decode :: "FullBox \<Rightarrow> mov_file \<Rightarrow> (mp4_error, MovieFragmentHeaderBox \<times> mov_file) result" where
  "mf_Decode = fixed_read (\<lambda>_. 4) mf_fields"

definition mf_Encode :: "MovieFragmentHeaderBox \<Rightarrow> bytes option" where
  "mf_Encode mfhd = do {
     s \<leftarrow> fb_Encode (set_size (fb_Size (mf_Box mfhd) + 4) (mf_Box mfhd));
     (_, buf) \<leftarrow> put_bytes (be32 (mf_SequenceNumber mfhd)) s;
     Some buf
   }"

definition makeMfhdBox :: "u32 \<Rightarrow> bytes option" where "makeMfhdBox frament = mf_Encode (NewMovieFragmentHeaderBox frament)"

definition TF_FLAG_BASE_DATA_OFFSET :: u32 where "TF_FLAG_BASE_DATA_OFFSET = 0x000001"
definition TF_FLAG_SAMPLE_DESCRIPTION_INDEX_PRESENT :: u32 where "TF_FLAG_SAMPLE_DESCRIPTION_INDEX_PRESENT = 0x000002"
definition TF_FLAG_DEFAULT_SAMPLE_DURATION_PRESENT :: u32 where "TF_FLAG_DEFAULT_SAMPLE_DURATION_PRESENT = 0x000008"
definition TF_FLAG_DEFAULT_SAMPLE_SIZE_PRESENT :: u32 where "TF_FLAG_DEFAULT_SAMPLE_SIZE_PRESENT = 0x000010"
definition TF_FLAG_DEAAULT_SAMPLE_FLAGS_PRESENT :: u32 where "TF_FLAG_DEAAULT_SAMPLE_FLAGS_PRESENT = 0x000020"
definition TF_FLAG_DURATION_IS_EMPTY :: u32 where "TF_FLAG_DURATION_IS_EMPTY = 0x010000"
definition TF_FLAG_DEAAULT_BASE_IS_MOOF :: u32 where "TF_FLAG_DEAAULT_BASE_IS_MOOF = 0x020000"

lemmas tf_flags = TF_FLAG_BASE_DATA_OFFSET_def TF_FLAG_SAMPLE_DESCRIPTION_INDEX_PRESENT_def TF_FLAG_DEFAULT_SAMPLE_DURATION_PRESENT_def
  TF_FLAG_DEFAULT_SAMPLE_SIZE_PRESENT_def TF_FLAG_DEAAULT_SAMPLE_FLAGS_PRESENT_def TF_FLAG_DURATION_IS_EMPTY_def TF_FLAG_DEAAULT_BASE_IS_MOOF_def

record TrackFragmentHeaderBox =
  tf_Box :: FullBox
  tf_Track_ID :: u32
  tf_BaseDataOffset :: u64
  tf_SampleDescriptionIndex :: u32
  tf_DefaultSampleDuration :: u32
  tf_DefaultSampleSize :: u32
  tf_DefaultSampleFlags :: u32

definition NewTrackFragmentHeaderBox :: "u32 \<Rightarrow> TrackFragmentHeaderBox" where
  "NewTrackFragmentHeaderBox trackid = \<lparr>tf_Box = NewFullBox (tag ''tfhd'') 0, tf_Track_ID = trackid, tf_BaseDataOffset = 0,
     tf_SampleDescriptionIndex = 1, tf_DefaultSampleDuration = 0, tf_DefaultSampleSize = 0, tf_DefaultSampleFlags = 0\<rparr>"

definition tf_Size :: "TrackFragmentHeaderBox \<Rightarrow> u64" where
  "tf_Size tfhd = (let box = tf_Box tfhd in fb_Size box + 4
     + (if has TF_FLAG_BASE_DATA_OFFSET box then 8 else 0)
     + (if has TF_FLAG_SAMPLE_DESCRIPTION_INDEX_PRESENT box then 4 else 0)
     + (if has TF_FLAG_DEFAULT_SAMPLE_DURATION_PRESENT box then 4 else 0)
     + (if has TF_FLAG_DEFAULT_SAMPLE_SIZE_PRESENT box then 4 else 0)
     + (if has TF_FLAG_DEAAULT_SAMPLE_FLAGS_PRESENT box then 4 else 0))"

text \<open>Without an offset of its own a fragment is addressed from its \<open>moof\<close>, whatever the other flag says.\<close>

definition tf_fields :: "u64 \<Rightarrow> FullBox \<Rightarrow> bytes \<Rightarrow> (mp4_error, TrackFragmentHeaderBox \<times> bytes) result" where
  "tf_fields moofOffset box b =
     rbind (checked 4 get32 b) (\<lambda>(track, b).
     rbind (opt_field (has TF_FLAG_BASE_DATA_OFFSET box) 8 get64 moofOffset b) (\<lambda>(base, b).
     rbind (opt_field (has TF_FLAG_SAMPLE_DESCRIPTION_INDEX_PRESENT box) 4 get32 0 b) (\<lambda>(i, b).
     rbind (opt_field (has TF_FLAG_DEFAULT_SAMPLE_DURATION_PRESENT box) 4 get32 0 b) (\<lambda>(duration, b).
     rbind (opt_field (has TF_FLAG_DEFAULT_SAMPLE_SIZE_PRESENT box) 4 get32 0 b) (\<lambda>(sz, b).
     rbind (opt_field (has TF_FLAG_DEAAULT_SAMPLE_FLAGS_PRESENT box) 4 get32 0 b) (\<lambda>(flags, b).
     ok (\<lparr>tf_Box = box, tf_Track_ID = track, tf_BaseDataOffset = base, tf_SampleDescriptionIndex = i, tf_DefaultSampleDuration = duration,
       tf_DefaultSampleSize = sz, tf_DefaultSampleFlags = flags\<rparr>, b)))))))"

definition tf_Decode :: "u64 \<Rightarrow> u32 \<Rightarrow> FullBox \<Rightarrow> mov_file \<Rightarrow> (mp4_error, TrackFragmentHeaderBox \<times> mov_file) result" where
  "tf_Decode moofOffset = payload_read (tf_fields moofOffset)"

definition tf_put :: "TrackFragmentHeaderBox \<Rightarrow> fill \<Rightarrow> fill option" where
  "tf_put tfhd s = (let box = tf_Box tfhd in do {
     s \<leftarrow> put_bytes (be32 (tf_Track_ID tfhd)) s;
     s \<leftarrow> opt_put (has TF_FLAG_BASE_DATA_OFFSET box) (be64 (tf_BaseDataOffset tfhd)) s;
     s \<leftarrow> opt_put (has TF_FLAG_SAMPLE_DESCRIPTION_INDEX_PRESENT box) (be32 (tf_SampleDescriptionIndex tfhd)) s;
     s \<leftarrow> opt_put (has TF_FLAG_DEFAULT_SAMPLE_DURATION_PRESENT box) (be32 (tf_DefaultSampleDuration tfhd)) s;
     s \<leftarrow> opt_put (has TF_FLAG_DEFAULT_SAMPLE_SIZE_PRESENT box) (be32 (tf_DefaultSampleSize tfhd)) s;
     opt_put (has TF_FLAG_DEAAULT_SAMPLE_FLAGS_PRESENT box) (be32 (tf_DefaultSampleFlags tfhd)) s
   })"

definition tf_Encode :: "TrackFragmentHeaderBox \<Rightarrow> bytes option" where
  "tf_Encode tfhd = do {
     s \<leftarrow> fb_Encode (set_size (tf_Size tfhd) (tf_Box tfhd));
     (_, buf) \<leftarrow> tf_put tfhd s;
     Some buf
   }"

record TrackFragmentBaseMediaDecodeTimeBox =
  td_Box :: FullBox
  td_BaseMediaDecodeTime :: u64

definition NewTrackFragmentBaseMediaDecodeTimeBox :: "u64 \<Rightarrow> TrackFragmentBaseMediaDecodeTimeBox" where
  "NewTrackFragmentBaseMediaDecodeTimeBox fragStart = \<lparr>td_Box = NewFullBox (tag ''tfdt'') 1, td_BaseMediaDecodeTime = fragStart\<rparr>"

definition td_fields :: "FullBox \<Rightarrow> bytes \<Rightarrow> (mp4_error, TrackFragmentBaseMediaDecodeTimeBox \<times> bytes) result" where
  "td_fields box b = rbind (checked (if fb_Version box = 1 then 8 else 4) (get_time (fb_Version box)) b) (\<lambda>(t, b).
     ok (\<lparr>td_Box = box, td_BaseMediaDecodeTime = t\<rparr>, b))"

definition td_Decode :: "u32 \<Rightarrow> FullBox \<Rightarrow> mov_file \<Rightarrow> (mp4_error, TrackFragmentBaseMediaDecodeTimeBox \<times> mov_file) result" where
  "td_Decode = payload_read td_fields"

definition td_Encode :: "TrackFragmentBaseMediaDecodeTimeBox \<Rightarrow> bytes option" where
  "td_Encode tfdt = do {
     s \<leftarrow> fb_Encode (set_size (fb_Size (td_Box tfdt) + 8) (td_Box tfdt));
     (_, buf) \<leftarrow> put_bytes (be64 (td_BaseMediaDecodeTime tfdt)) s;
     Some buf
   }"

section \<open>Runs of samples\<close>

definition TR_FLAG_DATA_OFFSET :: u32 where "TR_FLAG_DATA_OFFSET = 0x000001"
definition TR_FLAG_DATA_FIRST_SAMPLE_FLAGS :: u32 where "TR_FLAG_DATA_FIRST_SAMPLE_FLAGS = 0x000004"
definition TR_FLAG_DATA_SAMPLE_DURATION :: u32 where "TR_FLAG_DATA_SAMPLE_DURATION = 0x000100"
definition TR_FLAG_DATA_SAMPLE_SIZE :: u32 where "TR_FLAG_DATA_SAMPLE_SIZE = 0x000200"
definition TR_FLAG_DATA_SAMPLE_FLAGS :: u32 where "TR_FLAG_DATA_SAMPLE_FLAGS = 0x000400"
definition TR_FLAG_DATA_SAMPLE_COMPOSITION_TIME :: u32 where "TR_FLAG_DATA_SAMPLE_COMPOSITION_TIME = 0x000800"

definition maxTrunSampleCount :: u32 where "maxTrunSampleCount = 0x1000000"

record trunEntry =
  te_sampleDuration :: u32
  te_sampleSize :: u32
  te_sampleFlags :: u32
  te_sampleCompositionTimeOffset :: u32

record TrackRunBox =
  tr_Box :: FullBox
  tr_SampleCount :: u32
  tr_Dataoffset :: u32
  tr_FirstSampleFlags :: u32
  tr_EntryList :: "trunEntry list"

definition NewTrackRunBox :: TrackRunBox where
  "NewTrackRunBox = \<lparr>tr_Box = NewFullBox (tag ''trun'') 1, tr_SampleCount = 0, tr_Dataoffset = 0, tr_FirstSampleFlags = 0, tr_EntryList = []\<rparr>"

text \<open>The signed \<open>Dataoffset\<close> is kept as its bits.  The four fields of an entry, each behind its flag.\<close>

definition entry_fields :: "FullBox \<Rightarrow> nat" where
  "entry_fields box = of_bool (has TR_FLAG_DATA_SAMPLE_DURATION box) + of_bool (has TR_FLAG_DATA_SAMPLE_SIZE box) +
     of_bool (has TR_FLAG_DATA_SAMPLE_FLAGS box) + of_bool (has TR_FLAG_DATA_SAMPLE_COMPOSITION_TIME box)"

definition tr_Size :: "TrackRunBox \<Rightarrow> u64" where
  "tr_Size trun = (let box = tr_Box trun in fb_Size box + 4
     + (if has TR_FLAG_DATA_OFFSET box then 4 else 0)
     + (if has TR_FLAG_DATA_FIRST_SAMPLE_FLAGS box then 4 else 0)
     + (if has TR_FLAG_DATA_SAMPLE_DURATION box then 4 * ucast (tr_SampleCount trun) else 0)
     + (if has TR_FLAG_DATA_SAMPLE_SIZE box then 4 * ucast (tr_SampleCount trun) else 0)
     + (if has TR_FLAG_DATA_SAMPLE_FLAGS box then 4 * ucast (tr_SampleCount trun) else 0)
     + (if has TR_FLAG_DATA_SAMPLE_COMPOSITION_TIME box then 4 * ucast (tr_SampleCount trun) else 0))"

definition opt_get :: "bool \<Rightarrow> bytes \<Rightarrow> (u32 \<times> bytes) option" where
  "opt_get c b = (if c then get32 b else Some (0, b))"

definition get_trunEntry :: "FullBox \<Rightarrow> bytes \<Rightarrow> (trunEntry \<times> bytes) option" where
  "get_trunEntry box b = do {
     (duration, b) \<leftarrow> opt_get (has TR_FLAG_DATA_SAMPLE_DURATION box) b;
     (sz, b) \<leftarrow> opt_get (has TR_FLAG_DATA_SAMPLE_SIZE box) b;
     (flags, b) \<leftarrow> opt_get (has TR_FLAG_DATA_SAMPLE_FLAGS box) b;
     (cts, b) \<leftarrow> opt_get (has TR_FLAG_DATA_SAMPLE_COMPOSITION_TIME box) b;
     Some (\<lparr>te_sampleDuration = duration, te_sampleSize = sz, te_sampleFlags = flags, te_sampleCompositionTimeOffset = cts\<rparr>, b)
   }"

definition tr_fields :: "u32 \<Rightarrow> FullBox \<Rightarrow> bytes \<Rightarrow> (mp4_error, TrackRunBox \<times> bytes) result" where
  "tr_fields dataOffset box b =
     rbind (checked 4 get32 b) (\<lambda>(count, b).
     rbind (opt_field (has TR_FLAG_DATA_OFFSET box) 4 get32 dataOffset b) (\<lambda>(off, b).
     rbind (opt_field (has TR_FLAG_DATA_FIRST_SAMPLE_FLAGS box) 4 get32 0 b) (\<lambda>(flags, b).
     let entrySize = 4 * entry_fields box in
     rbind (if entrySize > 0 then checkTableSize count (int entrySize) (glen b)
       else if count > maxTrunSampleCount then err (ErrMp4 ''mp4: trun sample_count too large'') else ok ()) (\<lambda>_.
     rbind (must (get_all (get_trunEntry box) (unat count) b)) (\<lambda>es.
     ok (\<lparr>tr_Box = box, tr_SampleCount = count, tr_Dataoffset = off, tr_FirstSampleFlags = flags, tr_EntryList = es\<rparr>,
       drop (entrySize * unat count) b))))))"

definition tr_Decode :: "u32 \<Rightarrow> u32 \<Rightarrow> FullBox \<Rightarrow> mov_file \<Rightarrow> (mp4_error, TrackRunBox \<times> mov_file) result" where
  "tr_Decode dataOffset = payload_read (tr_fields dataOffset)"

definition put_trunEntry :: "FullBox \<Rightarrow> trunEntry \<Rightarrow> fill \<Rightarrow> fill option" where
  "put_trunEntry box e s = do {
     s \<leftarrow> opt_put (has TR_FLAG_DATA_SAMPLE_DURATION box) (be32 (te_sampleDuration e)) s;
     s \<leftarrow> opt_put (has TR_FLAG_DATA_SAMPLE_SIZE box) (be32 (te_sampleSize e)) s;
     s \<leftarrow> opt_put (has TR_FLAG_DATA_SAMPLE_FLAGS box) (be32 (te_sampleFlags e)) s;
     opt_put (has TR_FLAG_DATA_SAMPLE_COMPOSITION_TIME box) (be32 (te_sampleCompositionTimeOffset e)) s
   }"

text \<open>The entries are looked up only for a flag that is set; without one the list may be shorter.\<close>

definition tr_put :: "TrackRunBox \<Rightarrow> fill \<Rightarrow> fill option" where
  "tr_put trun s = (let box = tr_Box trun in do {
     s \<leftarrow> put_bytes (be32 (tr_SampleCount trun)) s;
     s \<leftarrow> opt_put (has TR_FLAG_DATA_OFFSET box) (be32 (tr_Dataoffset trun)) s;
     s \<leftarrow> opt_put (has TR_FLAG_DATA_FIRST_SAMPLE_FLAGS box) (be32 (tr_FirstSampleFlags trun)) s;
     if entry_fields box = 0 then Some s
     else do {
       es \<leftarrow> slice_to (tr_EntryList trun) (uint (tr_SampleCount trun));
       put_all (put_trunEntry box) es s
     }
   })"

definition tr_Encode :: "TrackRunBox \<Rightarrow> bytes option" where
  "tr_Encode trun = do {
     s \<leftarrow> fb_Encode (set_size (tr_Size trun) (tr_Box trun));
     (_, buf) \<leftarrow> tr_put trun s;
     Some buf
   }"

section \<open>Encrypted samples\<close>

record subSampleEntry =
  su_bytesOfClearData :: u16
  su_bytesOfProtectedData :: u32

record sencEntry =
  sce_iv :: bytes
  sce_subSamples :: "subSampleEntry list"

definition get_subSample :: "bytes \<Rightarrow> (subSampleEntry \<times> bytes) option" where
  "get_subSample b = do { (c, b) \<leftarrow> get16 b; (p, b) \<leftarrow> get32 b; Some (\<lparr>su_bytesOfClearData = c, su_bytesOfProtectedData = p\<rparr>, b) }"

definition subSamples :: "bytes \<Rightarrow> (mp4_error, subSampleEntry list \<times> bytes) result" where
  "subSamples b = rbind (checked 2 get16 b) (\<lambda>(n, b).
     checked (unat n * 6) (\<lambda>b. do { es \<leftarrow> get_all get_subSample (unat n) b; Some (es, drop (unat n * 6) b) }) b)"

definition UseSubsampleEncryption :: u32 where "UseSubsampleEncryption = 0x000002"

record SencBox =
  sc_Box :: FullBox
  sc_SampleCount :: u32
  sc_PerSampleIVSize :: u32
  sc_EntryList :: "sencEntry list"

primrec senc_entries :: "nat \<Rightarrow> nat \<Rightarrow> bool \<Rightarrow> bytes \<Rightarrow> (mp4_error, sencEntry list \<times> bytes) result" where
  "senc_entries 0 ivSize sub b = ok ([], b)"
| "senc_entries (Suc n) ivSize sub b = rbind (checked ivSize (get_bytes ivSize) b) (\<lambda>(iv, b).
     rbind (if sub then subSamples b else ok ([], b)) (\<lambda>(subs, b).
     rbind (senc_entries n ivSize sub b) (\<lambda>(es, b). ok (\<lparr>sce_iv = iv, sce_subSamples = subs\<rparr> # es, b))))"

definition sc_fields :: "byte \<Rightarrow> FullBox \<Rightarrow> bytes \<Rightarrow> (mp4_error, SencBox \<times> bytes) result" where
  "sc_fields perSampleIVSize box b = rbind (checked 4 get32 b) (\<lambda>(count, b).
     let sub = has UseSubsampleEncryption box; minEntry = uint perSampleIVSize + (if sub then 2 else 0) in
     rbind (if minEntry > 0 then checkTableSize count minEntry (glen b)
       else if count > maxTrunSampleCount then err (ErrMp4 ''mp4: senc sample_count too large'') else ok ()) (\<lambda>_.
     rbind (senc_entries (unat count) (unat perSampleIVSize) sub b) (\<lambda>(es, b).
     ok (\<lparr>sc_Box = box, sc_SampleCount = count, sc_PerSampleIVSize = ucast perSampleIVSize, sc_EntryList = es\<rparr>, b))))"

definition sc_Decode :: "byte \<Rightarrow> u32 \<Rightarrow> FullBox \<Rightarrow> mov_file \<Rightarrow> (mp4_error, SencBox \<times> mov_file) result" where
  "sc_Decode perSampleIVSize = payload_read (sc_fields perSampleIVSize)"

record SaizBox =
  sz_Box :: FullBox
  sz_AuxInfoType :: bytes
  sz_AuxInfoTypeParameter :: u32
  sz_SampleCount :: u32
  sz_SampleInfo :: bytes
  sz_DefaultSampleInfoSize :: byte

text \<open>The type of the auxiliary information, behind the first flag.\<close>

definition aux_type :: "FullBox \<Rightarrow> bytes \<Rightarrow> (mp4_error, (bytes \<times> u32) \<times> bytes) result" where
  "aux_type box = opt_field (has 0x01 box) 8 (\<lambda>b. do { (t, b) \<leftarrow> get_bytes 4 b; (p, b) \<leftarrow> get32 b; Some ((t, p), b) }) ([], 0)"

definition sz_fields :: "FullBox \<Rightarrow> bytes \<Rightarrow> (mp4_error, SaizBox \<times> bytes) result" where
  "sz_fields box b = rbind (aux_type box b) (\<lambda>((t, p), b).
     rbind (checked 5 (\<lambda>b. do { (d, b) \<leftarrow> get_byte b; (n, b) \<leftarrow> get32 b; Some ((d, n), b) }) b) (\<lambda>((d, n), b).
     rbind (if d = 0 then rbind (checkTableSize n 1 (glen b)) (\<lambda>_. must (get_bytes (unat n) b)) else ok ([], b)) (\<lambda>(info, b).
     ok (\<lparr>sz_Box = box, sz_AuxInfoType = t, sz_AuxInfoTypeParameter = p, sz_SampleCount = n, sz_SampleInfo = info,
       sz_DefaultSampleInfoSize = d\<rparr>, b))))"

definition sz_Decode :: "u32 \<Rightarrow> FullBox \<Rightarrow> mov_file \<Rightarrow> (mp4_error, SaizBox \<times> mov_file) result" where
  "sz_Decode = payload_read sz_fields"

record SaioBox =
  so_Box :: FullBox
  so_AuxInfoType :: bytes
  so_AuxInfoTypeParameter :: u32
  so_Offset :: "u64 list"

text \<open>The signed offsets are kept as their bits.\<close>

definition so_fields :: "FullBox \<Rightarrow> bytes \<Rightarrow> (mp4_error, SaioBox \<times> bytes) result" where
  "so_fields box b = rbind (aux_type box b) (\<lambda>((t, p), b).
     rbind (checked 4 get32 b) (\<lambda>(count, b).
     let short = fb_Version box = 0; entrySize = (if short then 4 else 8) in
     rbind (checkTableSize count (int entrySize) (glen b)) (\<lambda>_.
     rbind (must (get_all (\<lambda>b. if short then do { (v, b) \<leftarrow> get32 b; Some (ucast v, b) } else get64 b) (unat count) b)) (\<lambda>offs.
     ok (\<lparr>so_Box = box, so_AuxInfoType = t, so_AuxInfoTypeParameter = p, so_Offset = offs\<rparr>, drop (entrySize * unat count) b)))))"

definition so_Decode :: "u32 \<Rightarrow> FullBox \<Rightarrow> mov_file \<Rightarrow> (mp4_error, SaioBox \<times> mov_file) result" where
  "so_Decode = payload_read so_fields"

text \<open>The auxiliary information of one sample, which \<open>decodeSaioBox\<close> reads at the offset.\<close>

definition aux_entry :: "bytes \<Rightarrow> (mp4_error, sencEntry) result" where
  "aux_entry buf = rbind (checked 8 (get_bytes 8) buf) (\<lambda>(iv, b).
     if length buf = 8 then ok \<lparr>sce_iv = iv @ replicate 8 0, sce_subSamples = []\<rparr>
     else rbind (subSamples b) (\<lambda>(subs, _). ok \<lparr>sce_iv = iv @ replicate 8 0, sce_subSamples = subs\<rparr>))"

section \<open>Sample groups\<close>

record SeigSampleGroupEntry =
  sg_CryptByteBlock :: byte
  sg_SkipByteBlock :: byte
  sg_IsProtected :: byte
  sg_PerSampleIVSize :: byte
  sg_KID :: bytes
  sg_ConstantIV :: bytes

definition sg_Size :: "SeigSampleGroupEntry \<Rightarrow> nat" where
  "sg_Size s = (if sg_IsProtected s = 1 \<and> sg_PerSampleIVSize s = 0 then 21 + length (sg_ConstantIV s) else 20)"

definition sg_fields :: "bytes \<Rightarrow> (SeigSampleGroupEntry \<times> bytes) option" where
  "sg_fields b = do {
     let b = drop 1 b;
     (byteTwo, b) \<leftarrow> get_byte b;
     (protected, b) \<leftarrow> get_byte b;
     (ivSize, b) \<leftarrow> get_byte b;
     (kid, b) \<leftarrow> get_bytes 16 b;
     Some (\<lparr>sg_CryptByteBlock = drop_bit 4 byteTwo, sg_SkipByteBlock = byteTwo mod 0xF, sg_IsProtected = protected,
       sg_PerSampleIVSize = ivSize, sg_KID = kid, sg_ConstantIV = []\<rparr>, b)
   }"

text \<open>A constant vector: its length and its bytes.\<close>

definition constant_iv :: "bytes \<Rightarrow> (mp4_error, bytes \<times> bytes) result" where
  "constant_iv b = rbind (checked 1 get_byte b) (\<lambda>(n, b). checked (unat n) (get_bytes (unat n)) b)"

definition DecodeSeigSampleGroupEntry :: "u32 \<Rightarrow> bytes \<Rightarrow> (mp4_error, SeigSampleGroupEntry \<times> bytes) result" where
  "DecodeSeigSampleGroupEntry len b = rbind (checked 20 sg_fields b) (\<lambda>(s, b).
     rbind (if sg_IsProtected s = 1 \<and> sg_PerSampleIVSize s = 0 then constant_iv b else ok ([], b)) (\<lambda>(iv, b).
     let s = s\<lparr>sg_ConstantIV := iv\<rparr> in
     if len \<noteq> word_of_nat (sg_Size s) then err (ErrMp4 ''seig: given length different from calculated size'') else ok (s, b)))"

text \<open>
  The loop over \<open>n\<close> entries; \<open>seig\<close> is the last entry found.  An entry of another type has no decoder:
  nothing of it is read, and without a length of its own the loop ends there.
\<close>

primrec sgpd_entries :: "nat \<Rightarrow> bytes \<Rightarrow> byte \<Rightarrow> u32 \<Rightarrow> bytes \<Rightarrow> SeigSampleGroupEntry option \<Rightarrow> (mp4_error, SeigSampleGroupEntry option) result" where
  "sgpd_entries 0 name version defaultLength b seig = ok seig"
| "sgpd_entries (Suc n) name version defaultLength b seig =
     (if b = [] then err ErrBoxTruncated
      else let own = (version \<ge> 1 \<and> defaultLength = 0) in
        rbind (if own then checked 4 get32 b else ok (defaultLength, b)) (\<lambda>(len, r).
        if name = tag ''seig'' then
          rbind (DecodeSeigSampleGroupEntry len r) (\<lambda>(s, r). sgpd_entries n name version defaultLength r (Some s))
        else if own then sgpd_entries n name version defaultLength r seig
        else ok seig))"

definition sgpd_fields :: "bytes \<Rightarrow> SeigSampleGroupEntry option \<Rightarrow> (mp4_error, SeigSampleGroupEntry option) result" where
  "sgpd_fields b seig =
     rbind (checked 8 (\<lambda>b. do { (vf, b) \<leftarrow> get32 b; (name, b) \<leftarrow> get_bytes 4 b; Some ((vf, name), b) }) b) (\<lambda>((vf, name), b).
     let version = ucast (drop_bit 24 vf) in
     rbind (opt_field (version \<ge> 1) 4 get32 0 b) (\<lambda>(defaultLength, b).
     rbind (opt_field (version \<ge> 2) 4 get32 0 b) (\<lambda>(_, b).
     rbind (checked 4 get32 b) (\<lambda>(count, b).
     rbind (checkTableSize count 1 (glen b)) (\<lambda>_.
     sgpd_entries (unat count) name version defaultLength b seig)))))"

section \<open>Protection systems\<close>

record PsshBox =
  ps_Box :: FullBox
  ps_SystemID :: bytes
  ps_KIDs :: "bytes list"
  ps_Data :: bytes

definition ps_fields :: "FullBox \<Rightarrow> bytes \<Rightarrow> (mp4_error, PsshBox \<times> bytes) result" where
  "ps_fields box b = rbind (checked 16 (get_bytes 16) b) (\<lambda>(system, b).
     rbind (if fb_Version box > 0 then
         rbind (checked 4 get32 b) (\<lambda>(kidCount, b).
         rbind (checkTableSize kidCount 16 (glen b)) (\<lambda>_.
         rbind (must (get_all (get_bytes 16) (unat kidCount) b)) (\<lambda>kids. ok (kids, drop (16 * unat kidCount) b))))
       else ok ([], b)) (\<lambda>(kids, b).
     rbind (checked 4 get32 b) (\<lambda>(dataLen, b).
     if uint dataLen > glen b then err ErrBoxTruncated
     else rbind (must (get_bytes (unat dataLen) b)) (\<lambda>(d, b).
       ok (\<lparr>ps_Box = box, ps_SystemID = system, ps_KIDs = kids, ps_Data = d\<rparr>, b)))))"

definition ps_Decode :: "u32 \<Rightarrow> FullBox \<Rightarrow> mov_file \<Rightarrow> (mp4_error, PsshBox \<times> mov_file) result" where
  "ps_Decode = payload_read ps_fields"

text \<open>\<open>hex.EncodeToString\<close> writes the digits in lower case.\<close>

definition hex_digits :: string where "hex_digits = ''0123456789abcdef''"

definition hex_EncodeToString :: "bytes \<Rightarrow> string" where
  "hex_EncodeToString b = concat (map (\<lambda>x. [hex_digits ! unat (drop_bit 4 x), hex_digits ! unat (x AND 0x0F)]) b)"

definition IsWidevine :: "PsshBox \<Rightarrow> bool" where
  "IsWidevine pssh \<longleftrightarrow> hex_EncodeToString (ps_SystemID pssh) = ''edef8ba979d64acea3c827dcd51d21ed''"

definition IsPlayReady :: "PsshBox \<Rightarrow> bool" where
  "IsPlayReady pssh \<longleftrightarrow> hex_EncodeToString (ps_SystemID pssh) = ''9a04f07998404286ab92e65be0885f95''"

definition IsFairPlay :: "PsshBox \<Rightarrow> bool" where
  "IsFairPlay pssh \<longleftrightarrow> hex_EncodeToString (ps_SystemID pssh) = ''94CE86FB07FF4F43ADB893D2FA968CA2''"

section \<open>No bytes make a decoder panic\<close>

definition small :: "bytes \<Rightarrow> bool" where "small b \<longleftrightarrow> length b \<le> 0x10000000"

text \<open>A read from a small buffer that leaves a small buffer.\<close>

abbreviation leaves :: "(mp4_error, 'a \<times> bytes) result \<Rightarrow> bool" where
  "leaves m \<equiv> returns (\<lambda>(x, r). small r) m"

named_theorems leaves_intros \<open>rules that show that a read leaves a small buffer\<close>

lemma small_drop [leaves_intros]: "small b \<Longrightarrow> small (drop n b)" by (simp add: small_def)

lemma returns_payload_read:
  assumes "\<And>box b. small b \<Longrightarrow> returns (\<lambda>_. True) (get box b)"
  shows "returns (\<lambda>_. True) (payload_read get sz box f)"
proof -
  have g: "returns (\<lambda>_. True) (rbind (get box b) (\<lambda>(x, _). ok (x, f)))" if "glen b \<le> maxBoxPayloadSize" for box b f
    using that by (intro returns_rbind [OF assms]) (auto simp: small_def maxBoxPayloadSize_def)
  show ?thesis unfolding payload_read_def
    by (rule returns_rbind [OF returns_fb_Decode]) (auto intro!: returns_rbind [OF readBoxPayload_length] g)
qed

lemma leaves_checked [leaves_intros]: "parses k g \<Longrightarrow> small b \<Longrightarrow> leaves (checked k g b)"
  using returns_checked [of k g b] by (rule returns_mono) (auto simp: small_drop)

lemma leaves_opt_field [leaves_intros]: "parses k g \<Longrightarrow> small b \<Longrightarrow> leaves (opt_field c k g v b)"
  by (simp add: opt_field_def leaves_checked)

lemma leaves_bind [leaves_intros]:
  "leaves m \<Longrightarrow> (\<And>x r. small r \<Longrightarrow> returns P (f x r)) \<Longrightarrow> returns P (rbind m (\<lambda>(x, r). f x r))"
  by (rule returns_rbind [of "\<lambda>(x, r). small r"]) auto

lemma leaves_pair_bind:
  "leaves m \<Longrightarrow> (\<And>x y r. small r \<Longrightarrow> returns P (f x y r)) \<Longrightarrow> returns P (rbind m (\<lambda>((x, y), r). f x y r))"
  by (rule returns_rbind [of "\<lambda>(x, r). small r"]) auto

lemma leaves_let [leaves_intros]: "returns P (f x) \<Longrightarrow> returns P (let y = x in f y)" by simp

lemma leaves_if [leaves_intros]: "(c \<Longrightarrow> returns P m) \<Longrightarrow> (\<not> c \<Longrightarrow> returns P n) \<Longrightarrow> returns P (if c then m else n)" by simp

lemma leaves_ok [leaves_intros]: "small r \<Longrightarrow> leaves (ok (x, r))" "returns (\<lambda>_. True) (ok y)" by simp_all

lemma parses_pairs [parses_intros]: "parses 0 (\<lambda>b. Some ((x, y), b))" by (simp add: parses_def)

lemma returns_checkTableSize:
  assumes "small b" and "k \<le> 300"
  shows "returns (\<lambda>_. unat count * k \<le> length b) (checkTableSize count (int k) (glen b))"
proof -
  have "unat count * k < 2 ^ 32 * 2 ^ 9"
    using unsigned_less [of count, where 'a = nat] assms(2) by (intro mult_strict_mono) simp_all
  moreover have "take_bit 64 (unat count) = unat count" using unsigned_less [of count, where 'a = nat] by (intro take_bit_nat_eq_self) simp
  ultimately have "unat ((ucast count :: u64) * word_of_nat k) = unat count * k"
    using assms(2) by (simp add: unat_word_ariths unat_of_nat unsigned_ucast_eq)
  moreover have "unat (word_of_nat (length b) :: u64) = length b" using assms(1) by (simp add: small_def unat_of_nat)
  ultimately show ?thesis by (auto simp: checkTableSize_def Let_def word_less_nat_alt not_less)
qed

lemma get_all_table:
  assumes "parses k g" and "n * k \<le> length b" shows "\<exists>es. get_all g n b = Some es"
  using get_all_parses [of k g n b] assms by (auto simp: mult.commute)

lemma returns_table:
  assumes "parses k g" and "n * k \<le> length b" and "\<And>es. returns P (f es)"
  shows "returns P (rbind (must (get_all g n b)) f)"
  using get_all_table [OF assms(1,2)] assms(3) by auto

lemma returns_tf_Decode: "returns (\<lambda>_. True) (tf_Decode moof sz box f)"
  unfolding tf_Decode_def by (rule returns_payload_read) (unfold tf_fields_def, (rule leaves_pair_bind leaves_intros parses_basic | assumption)+)

lemma returns_td_Decode: "returns (\<lambda>_. True) (td_Decode sz box f)"
  unfolding td_Decode_def by (rule returns_payload_read) (unfold td_fields_def, (rule leaves_pair_bind leaves_intros parses_time | assumption)+)

lemma parses_mf: "parses 4 (mf_fields box)"
  unfolding mf_fields_def by (rule parses_eq, (rule parses_intros)+) simp

lemma returns_mf_Decode: "returns (\<lambda>_. True) (mf_Decode box f)"
  unfolding mf_Decode_def by (rule returns_fixed_read [OF parses_mf]) simp

lemma parses_opt_get [parses_intros]: "parses (4 * of_bool c) (opt_get c)"
  using parses_basic(2) by (simp add: opt_get_def [abs_def] parses_def)

lemma parses_trunEntry: "parses (4 * entry_fields box) (get_trunEntry box)"
  unfolding get_trunEntry_def entry_fields_def by (rule parses_eq, (rule parses_intros)+) simp

lemma entry_fields_le: "entry_fields box \<le> 4" by (simp add: entry_fields_def)

lemma returns_tr_Decode: "returns (\<lambda>_. True) (tr_Decode off sz box f)"
proof -
  have t: "returns (\<lambda>_. entry_fields box = 0 \<or> unat count * (4 * entry_fields box) \<le> length b)
      (if 0 < 4 * entry_fields box then checkTableSize count (int (4 * entry_fields box)) (glen b)
       else if count > maxTrunSampleCount then err (ErrMp4 ''mp4: trun sample_count too large'') else ok ())" if "small b" for box count b
  proof (cases "entry_fields box = 0")
    case False
    then show ?thesis using returns_mono [OF returns_checkTableSize [OF that, of "4 * entry_fields box" count]] entry_fields_le [of box] by simp
  qed simp
  have "returns (\<lambda>_. True) (tr_fields off box b)" if "small b" for box b
    unfolding tr_fields_def
    by (intro leaves_bind [OF leaves_checked] leaves_bind [OF leaves_opt_field] parses_basic that leaves_let returns_rbind [OF t] returns_table [OF parses_trunEntry])
      auto
  then show ?thesis unfolding tr_Decode_def by (rule returns_payload_read)
qed

lemma leaves_subSamples: "small b \<Longrightarrow> leaves (subSamples b)"
proof -
  have p: "parses 6 get_subSample" unfolding get_subSample_def by (rule parses_eq, (rule parses_intros)+) simp
  have "parses (n * 6) (\<lambda>b. do { es \<leftarrow> get_all get_subSample n b; Some (es, drop (n * 6) b) })" for n
    using get_all_table [OF p, of n] by (force simp: parses_def)
  then show "small b \<Longrightarrow> leaves (subSamples b)" unfolding subSamples_def
    by (intro leaves_intros parses_basic)
qed

lemma leaves_senc_entries: "small b \<Longrightarrow> leaves (senc_entries n iv sub b)"
proof (induction n arbitrary: b)
  case (Suc n)
  show ?case unfolding senc_entries.simps
    by (intro leaves_intros parses_bytes Suc leaves_subSamples)
qed simp

lemma returns_sc_Decode: "returns (\<lambda>_. True) (sc_Decode iv sz box f)"
proof -
  have "returns (\<lambda>_. True) (sc_fields iv box b)" if "small b" for box b
    unfolding sc_fields_def
    by (intro leaves_bind [OF leaves_checked] parses_basic that leaves_let returns_rbind [where Q = "\<lambda>_. True"] leaves_bind [OF leaves_senc_entries])
      (auto simp: returns_limits)
  then show ?thesis unfolding sc_Decode_def by (rule returns_payload_read)
qed

lemma leaves_aux_type [leaves_intros]: "small b \<Longrightarrow> leaves (aux_type box b)"
proof -
  have "parses 8 (\<lambda>b. do { (t, b) \<leftarrow> get_bytes 4 b; (p, b) \<leftarrow> get32 b; Some ((t, p), b) })"
    by (rule parses_eq, (rule parses_intros)+) simp
  then show "small b \<Longrightarrow> leaves (aux_type box b)" unfolding aux_type_def by (rule leaves_opt_field)
qed

lemma returns_sz_Decode: "returns (\<lambda>_. True) (sz_Decode sz box f)"
proof -
  have p: "parses 5 (\<lambda>b. do { (d, b) \<leftarrow> get_byte b; (n, b) \<leftarrow> get32 b; Some ((d, n), b) })"
    by (rule parses_eq, (rule parses_intros)+) simp
  have q: "leaves (if d = 0 then rbind (checkTableSize n 1 (glen b)) (\<lambda>_. must (get_bytes (unat n) b)) else ok ([], b))" if "small b" for d :: byte and n b
  proof -
    have "returns (\<lambda>_. unat n * 1 \<le> length b) (checkTableSize n 1 (glen b))" using returns_checkTableSize [OF that, of 1 n] by simp
    then have "leaves (rbind (checkTableSize n 1 (glen b)) (\<lambda>_. must (get_bytes (unat n) b)))"
      by (rule returns_rbind) (use returns_parse [OF parses_bytes(2)] that small_drop in \<open>fastforce elim: returns_mono\<close>)
    then show ?thesis using that by simp
  qed
  have "returns (\<lambda>_. True) (sz_fields box b)" if "small b" for box b
    unfolding sz_fields_def by (rule leaves_pair_bind leaves_intros p q that | assumption)+
  then show ?thesis unfolding sz_Decode_def by (rule returns_payload_read)
qed

lemma returns_so_Decode: "returns (\<lambda>_. True) (so_Decode sz box f)"
proof -
  have p: "parses (if short then 4 else 8) (\<lambda>b. if short then do { (v, b) \<leftarrow> get32 b; Some (ucast v :: u64, b) } else get64 b)" for short
  proof (cases short)
    case True
    have "parses (4 + 0) (\<lambda>b. Option.bind (get32 b) (\<lambda>(v, b). Some (ucast v :: u64, b)))" by (intro parses_intros)
    then show ?thesis using True by simp
  qed (simp add: parses_basic)
  have "returns (\<lambda>_. True) (so_fields box b)" if "small b" for box b
    unfolding so_fields_def
    by (intro leaves_pair_bind [OF leaves_aux_type] leaves_bind [OF leaves_checked] parses_basic that leaves_let
        returns_rbind [OF returns_checkTableSize] returns_table [OF p]) (auto simp: mult.commute)
  then show ?thesis unfolding so_Decode_def by (rule returns_payload_read)
qed

lemma returns_ps_Decode: "returns (\<lambda>_. True) (ps_Decode sz box f)"
proof -
  have k: "leaves (rbind (checkTableSize n 16 (glen b)) (\<lambda>_. rbind (must (get_all (get_bytes 16) (unat n) b)) (\<lambda>kids. ok (kids, drop (16 * unat n) b))))"
    if "small b" for n b
  proof -
    have t: "returns (\<lambda>_. unat n * 16 \<le> length b) (checkTableSize n 16 (glen b))" using returns_checkTableSize [OF that, of 16 n] by simp
    show ?thesis
    proof (rule returns_rbind [OF t])
      assume "unat n * 16 \<le> length b"
      from get_all_table [OF parses_bytes(2) this] obtain es where "get_all (get_bytes 16) (unat n) b = Some es" by blast
      then show "leaves (rbind (must (get_all (get_bytes 16) (unat n) b)) (\<lambda>kids. ok (kids, drop (16 * unat n) b)))"
        using small_drop [OF that] by simp
    qed
  qed
  have d: "returns (\<lambda>_. True) (rbind (must (get_bytes (unat n) b)) (\<lambda>(d, b). ok (F d, b)))" if "\<not> uint n > glen b" for n :: u32 and b and F :: "bytes \<Rightarrow> PsshBox"
  proof -
    have "unat n \<le> length b" using that by (simp add: nat_le_iff flip: nat_uint_eq)
    then show ?thesis by (auto intro!: returns_rbind [OF returns_parse [OF parses_bytes(2)]])
  qed
  have "returns (\<lambda>_. True) (ps_fields box b)" if "small b" for box b
    unfolding ps_fields_def by (rule leaves_bind [OF leaves_checked] leaves_intros parses_intros k d that | assumption | simp)+
  then show ?thesis unfolding ps_Decode_def by (rule returns_payload_read)
qed

lemma leaves_seig: "small b \<Longrightarrow> leaves (DecodeSeigSampleGroupEntry len b)"
proof -
  have p: "parses 20 sg_fields" unfolding sg_fields_def by (rule parses_eq, (rule parses_intros)+) simp
  have c: "small b \<Longrightarrow> leaves (constant_iv b)" for b unfolding constant_iv_def by (intro leaves_intros parses_intros)
  show "small b \<Longrightarrow> leaves (DecodeSeigSampleGroupEntry len b)"
    unfolding DecodeSeigSampleGroupEntry_def by (rule leaves_intros p c | assumption | simp)+
qed

lemma returns_sgpd_entries: "small b \<Longrightarrow> returns (\<lambda>_. True) (sgpd_entries n name version len b seig)"
proof (induction n arbitrary: b seig)
  case (Suc n)
  show ?case unfolding sgpd_entries.simps
    by (rule leaves_bind [OF leaves_seig] leaves_intros Suc parses_intros | assumption | simp)+
qed simp

lemma returns_sgpd: "small b \<Longrightarrow> returns (\<lambda>_. True) (sgpd_fields b seig)"
proof -
  have p: "parses 8 (\<lambda>b. do { (vf, b) \<leftarrow> get32 b; (name, b) \<leftarrow> get_bytes 4 b; Some ((vf, name), b) })"
    by (rule parses_eq, (rule parses_intros)+) simp
  have t: "small b \<Longrightarrow> returns (\<lambda>_. True) (checkTableSize n 1 (glen b))" for n b
    by (rule returns_mono [OF returns_checkTableSize [of b 1 n, simplified]]) simp_all
  have e: "small b \<Longrightarrow> returns (\<lambda>_. True) (rbind (checkTableSize n 1 (glen b)) (\<lambda>_. sgpd_entries m name version len b seig))" for n b m name version len
    by (rule returns_rbind [OF t returns_sgpd_entries])
  show "small b \<Longrightarrow> returns (\<lambda>_. True) (sgpd_fields b seig)" unfolding sgpd_fields_def
    by (rule leaves_pair_bind [OF leaves_checked [OF p]] leaves_bind leaves_intros parses_intros e | assumption)+
qed

lemma returns_aux_entry: "small b \<Longrightarrow> returns (\<lambda>_. True) (aux_entry b)"
proof -
  have s: "small b \<Longrightarrow> returns (\<lambda>_. True) (rbind (subSamples b) (\<lambda>(subs, _). ok (F subs)))" for b F
    by (rule returns_rbind [OF leaves_subSamples]) auto
  show "small b \<Longrightarrow> returns (\<lambda>_. True) (aux_entry b)" unfolding aux_entry_def
    by (rule leaves_intros parses_intros s | assumption)+
qed

end
