(* ===== verification/Mp4Track.thy ===== *)
theory Mp4Track
  imports Mp4Fragment
begin

text \<open>
  The sample tables of an MP4 track: \<open>mp4track.go\<close> makes them of the list of samples and
  \<open>mp4demuxer.go\<close> builds the list from them again.

  A track is a record of the fields of \<open>mp4track\<close>, without the writer.  The loops over the sample list walk
  along it with the sample before, so that the next sample is the head of the rest; the slices
  they append to are lists.

  The lemmas: the runs of the three tables are undone by the demuxer's counters, the tables
  describe every sample, and the demuxer returns on tables from any file.
\<close>

section \<open>Samples and tables\<close>

record sampleEntry =
  se_pts :: u64
  se_dts :: u64
  se_offset :: u64
  se_size :: u64
  se_isKeyFrame :: bool
  se_SampleDescriptionIndex :: u32

record movchunk =
  mc_chunknum :: u32
  mc_samplenum :: u32
  mc_chunkoffset :: u64

record movstbl =
  sb_stts :: "movstts option"
  sb_ctts :: "movctts option"
  sb_stsc :: "movstsc option"
  sb_stsz :: "movstsz option"
  sb_stco :: "movstco option"
  sb_stss :: "u32 list option"

definition empty_stbl :: movstbl where
  "empty_stbl = \<lparr>sb_stts = None, sb_ctts = None, sb_stsc = None, sb_stsz = None, sb_stco = None, sb_stss = None\<rparr>"

record sampleCache =
  sa_pts :: u64
  sa_dts :: u64
  sa_hasVcl :: bool
  sa_isKey :: bool
  sa_cache :: bytes

record movFragment =
  fg_offset :: u64
  fg_duration :: u32
  fg_firstDts :: u64
  fg_firstPts :: u64
  fg_lastPts :: u64
  fg_lastDts :: u64

record mp4track =
  tk_cid :: MP4_CODEC_TYPE
  tk_trackId :: u32
  tk_stbltable :: "movstbl option"
  tk_duration :: u32
  tk_timescale :: u32
  tk_width :: u32
  tk_height :: u32
  tk_sampleRate :: u32
  tk_sampleBits :: byte
  tk_chanelCount :: byte
  tk_samplelist :: "sampleEntry list"
  tk_elst :: "movelst option"
  tk_extra :: "extraData option"
  tk_lastSample :: "sampleCache option"
  tk_fragments :: "movFragment list"
  tk_paramSetCache :: bytes
  tk_extraData :: bytes
  tk_startDts :: u64
  tk_startPts :: u64
  tk_defaultSize :: u32
  tk_defaultDuration :: u32
  tk_defaultSampleFlags :: u32
  tk_baseDataOffset :: u64
  tk_runDuration :: u32
  tk_totalDuration :: u64
  tk_defaultIsProtected :: byte
  tk_defaultPerSampleIVSize :: byte
  tk_defaultCryptByteBlock :: byte
  tk_defaultSkipByteBlock :: byte
  tk_defaultConstantIV :: bytes
  tk_defaultKID :: bytes
  tk_lastSeig :: "SeigSampleGroupEntry option"
  tk_lastSaiz :: "SaizBox option"
  tk_subSamples :: "sencEntry list"

text \<open>The zero value of a track.\<close>

definition new_track :: mp4track where
  "new_track = \<lparr>tk_cid = 0, tk_trackId = 0, tk_stbltable = None, tk_duration = 0, tk_timescale = 0, tk_width = 0, tk_height = 0, tk_sampleRate = 0,
     tk_sampleBits = 0, tk_chanelCount = 0, tk_samplelist = [], tk_elst = None, tk_extra = None, tk_lastSample = None, tk_fragments = [],
     tk_paramSetCache = [], tk_extraData = [], tk_startDts = 0, tk_startPts = 0, tk_defaultSize = 0, tk_defaultDuration = 0,
     tk_defaultSampleFlags = 0, tk_baseDataOffset = 0, tk_runDuration = 0, tk_totalDuration = 0, tk_defaultIsProtected = 0,
     tk_defaultPerSampleIVSize = 0, tk_defaultCryptByteBlock = 0, tk_defaultSkipByteBlock = 0, tk_defaultConstantIV = [],
     tk_defaultKID = replicate 16 0, tk_lastSeig = None, tk_lastSaiz = None, tk_subSamples = []\<rparr>"

definition newmp4track :: "MP4_CODEC_TYPE \<Rightarrow> mp4track" where
  "newmp4track cid = new_track\<lparr>tk_cid := cid, tk_timescale := 1000,
     tk_lastSample := Some \<lparr>sa_pts = 0, sa_dts = 0, sa_hasVcl = False, sa_isKey = False, sa_cache = []\<rparr>,
     tk_extra := (if cid = MP4_CODEC_H264 then Some (H264Extra [] []) else if cid = MP4_CODEC_H265 then Some newh265ExtraData
       else if cid = MP4_CODEC_AAC then Some (AacExtra []) else None)\<rparr>"

text \<open>\<open>int64(a) - int64(b)\<close> has the bits of the unsigned difference.\<close>

definition addSampleEntry :: "sampleEntry \<Rightarrow> mp4track \<Rightarrow> mp4track" where
  "addSampleEntry entry track =
     (let track = (if tk_samplelist track = [] then track\<lparr>tk_duration := 0\<rparr>
        else let delta = se_dts entry - se_dts (last (tk_samplelist track)) in
          if sint delta < 0 then track\<lparr>tk_duration := tk_duration track + 1\<rparr>
          else track\<lparr>tk_duration := tk_duration track + ucast delta\<rparr>)
      in track\<lparr>tk_samplelist := tk_samplelist track @ [entry]\<rparr>)"

definition lastSampleDelta :: "sampleEntry list \<Rightarrow> u32" where
  "lastSampleDelta samples = (let n = length samples in
     if n < 2 then 1
     else let delta = se_dts (samples ! (n - 1)) - se_dts (samples ! (n - 2)) in
       if sint delta \<le> 0 then 1 else ucast delta)"

definition mediaDuration :: "mp4track \<Rightarrow> u32" where
  "mediaDuration track = (if tk_samplelist track = [] then tk_duration track
     else tk_duration track + lastSampleDelta (tk_samplelist track))"

definition clearSamples :: "mp4track \<Rightarrow> mp4track" where
  "clearSamples track = track\<lparr>tk_samplelist := []\<rparr>"

text \<open>The edit list of a track with samples, and the box it stands in.\<close>

definition makeElstBox :: "mp4track \<Rightarrow> bytes option" where
  "makeElstBox track = do {
     s \<leftarrow> idx (tk_samplelist track) 0;
     let mediaTime = se_pts s - se_dts s;
     let mediaTime = (if sint mediaTime < 0 then 0 else mediaTime);
     let duration = (ucast (mediaDuration track) :: u64);
     let long = (duration > 0xFFFFFFFF \<or> sint mediaTime > 0xFFFFFFFF);
     let elst = NewEditListBox (if long then 1 else 0);
     (_, boxdata) \<leftarrow> elst_Encode \<lparr>elb_box = set_size (if long then 36 else 28) (elb_box elst), elb_entrys = \<lparr>elst_entryCount = 1,
       elst_entrys = [\<lparr>el_segmentDuration = duration, el_mediaTime = mediaTime, el_mediaRateInteger = 1, el_mediaRateFraction = 0\<rparr>]\<rparr>\<rparr>;
     Some boxdata
   }"

definition makeEdtsBox :: "mp4track \<Rightarrow> bytes option" where
  "makeEdtsBox track = do {
     elst \<leftarrow> makeElstBox track;
     (offset, edtsbox) \<leftarrow> bx_Encode ((NewBasicBox (tag ''edts''))\<lparr>bx_Size := 8 + word_of_nat (length elst)\<rparr>);
     copy_at edtsbox offset elst
   }"

section \<open>The tables are made\<close>

record stbl_state =
  ss_stts :: "sttsEntry list"
  ss_sttsCount :: u32
  ss_version :: byte
  ss_ctts :: "cttsEntry list"
  ss_cttsCount :: u32
  ss_sameSize :: bool
  ss_chunks :: "movchunk list"
  ss_ckn :: u32

definition stbl_start :: stbl_state where
  "stbl_start = \<lparr>ss_stts = [], ss_sttsCount = 0, ss_version = 0, ss_ctts = [], ss_cttsCount = 0, ss_sameSize = True, ss_chunks = [], ss_ckn = 0\<rparr>"

text \<open>\<open>xs[len(xs)-1]\<close> changed, behind the test that \<open>xs\<close> has an element.\<close>

definition bump_last :: "('a \<Rightarrow> 'a) \<Rightarrow> 'a list \<Rightarrow> 'a list" where
  "bump_last f xs = butlast xs @ [f (last xs)]"

definition put_stts :: "u64 \<Rightarrow> stbl_state \<Rightarrow> stbl_state" where
  "put_stts delta st =
     (if ss_stts st \<noteq> [] \<and> delta = ucast (st_sampleDelta (last (ss_stts st)))
      then st\<lparr>ss_stts := bump_last (\<lambda>e. e\<lparr>st_sampleCount := st_sampleCount e + 1\<rparr>) (ss_stts st)\<rparr>
      else st\<lparr>ss_stts := ss_stts st @ [\<lparr>st_sampleCount = 1, st_sampleDelta = ucast delta\<rparr>], ss_sttsCount := ss_sttsCount st + 1\<rparr>)"

definition put_ctts :: "u32 \<Rightarrow> stbl_state \<Rightarrow> stbl_state" where
  "put_ctts off st =
     (if ss_ctts st \<noteq> [] \<and> ct_sampleOffset (last (ss_ctts st)) = off
      then st\<lparr>ss_ctts := bump_last (\<lambda>e. e\<lparr>ct_sampleCount := ct_sampleCount e + 1\<rparr>) (ss_ctts st)\<rparr>
      else st\<lparr>ss_ctts := ss_ctts st @ [\<lparr>ct_sampleCount = 1, ct_sampleOffset = off\<rparr>], ss_cttsCount := ss_cttsCount st + 1\<rparr>)"

definition put_chunk :: "sampleEntry option \<Rightarrow> sampleEntry \<Rightarrow> stbl_state \<Rightarrow> stbl_state option" where
  "put_chunk prev s st = (case prev of
       Some p \<Rightarrow> if se_offset s = se_offset p + se_size p then do {
           c \<leftarrow> idx (ss_chunks st) (uint (ss_ckn st - 1));
           cs \<leftarrow> upd (ss_chunks st) (uint (ss_ckn st - 1)) (c\<lparr>mc_samplenum := mc_samplenum c + 1\<rparr>);
           Some (st\<lparr>ss_chunks := cs\<rparr>)
         } else Some (st\<lparr>ss_chunks := ss_chunks st @ [\<lparr>mc_chunknum = ss_ckn st, mc_samplenum = 1, mc_chunkoffset = se_offset s\<rparr>], ss_ckn := ss_ckn st + 1\<rparr>)
     | None \<Rightarrow> Some (st\<lparr>ss_chunks := ss_chunks st @ [\<lparr>mc_chunknum = ss_ckn st, mc_samplenum = 1, mc_chunkoffset = se_offset s\<rparr>], ss_ckn := ss_ckn st + 1\<rparr>))"

definition stbl_step :: "u32 \<Rightarrow> sampleEntry option \<Rightarrow> sampleEntry \<Rightarrow> sampleEntry list \<Rightarrow> stbl_state \<Rightarrow> stbl_state option" where
  "stbl_step lastDelta prev s rest st = (
     let offset = se_pts s - se_dts s;
       st = (if sint offset < 0 then st\<lparr>ss_version := 1\<rparr> else st);
       st = (case rest of
           [] \<Rightarrow> st\<lparr>ss_stts := ss_stts st @ [\<lparr>st_sampleCount = 1, st_sampleDelta = lastDelta\<rparr>], ss_sttsCount := ss_sttsCount st + 1\<rparr>
         | n # _ \<Rightarrow> put_stts (if se_dts n \<ge> se_dts s then se_dts n - se_dts s else 1) st);
       st = put_ctts (ucast offset) st;
       st = (case rest of [] \<Rightarrow> st | n # _ \<Rightarrow> if ss_sameSize st \<and> se_size n \<noteq> se_size s then st\<lparr>ss_sameSize := False\<rparr> else st)
     in put_chunk prev s st)"

fun stbl_loop :: "u32 \<Rightarrow> sampleEntry option \<Rightarrow> sampleEntry list \<Rightarrow> stbl_state \<Rightarrow> stbl_state option" where
  "stbl_loop lastDelta prev [] st = Some st"
| "stbl_loop lastDelta prev (s # rest) st = do {
     st \<leftarrow> stbl_step lastDelta prev s rest st;
     stbl_loop lastDelta (Some s) rest st
   }"

text \<open>One entry of \<open>stsc\<close> for every change of the number of samples in a chunk.\<close>

fun stsc_runs :: "movchunk option \<Rightarrow> movchunk list \<Rightarrow> stscEntry list" where
  "stsc_runs prev [] = []"
| "stsc_runs prev (c # cs) =
     (if (case prev of None \<Rightarrow> True | Some p \<Rightarrow> mc_samplenum c \<noteq> mc_samplenum p)
      then [\<lparr>sc_firstChunk = mc_chunknum c + 1, sc_samplesPerChunk = mc_samplenum c, sc_sampleDescriptionIndex = 1\<rparr>] else [])
     @ stsc_runs (Some c) cs"

definition make_stsc :: "movchunk list \<Rightarrow> movstsc" where
  "make_stsc chunks = (let es = stsc_runs None chunks in
     \<lparr>stsc_entryCount = word_of_nat (length es), stsc_entrys = es @ replicate (length chunks - length es)
        \<lparr>sc_firstChunk = 0, sc_samplesPerChunk = 0, sc_sampleDescriptionIndex = 0\<rparr>\<rparr>)"

definition make_stsz :: "bool \<Rightarrow> sampleEntry list \<Rightarrow> movstsz" where
  "make_stsz sameSize samples = (
     let sameSize = (if sameSize \<and> se_size (hd samples) = 0 then False else sameSize) in
     \<lparr>stsz_sampleSize = (if sameSize then ucast (se_size (hd samples)) else 0), stsz_sampleCount = word_of_nat (length samples),
      stsz_entrySizelist = (if sameSize then [] else map (\<lambda>s. ucast (se_size s)) samples)\<rparr>)"

definition makeEmptyStblTable :: "mp4track \<Rightarrow> mp4track" where
  "makeEmptyStblTable track = track\<lparr>tk_stbltable := Some \<lparr>sb_stts = Some \<lparr>stts_entryCount = 0, stts_entrys = []\<rparr>, sb_ctts = None,
     sb_stsc = Some \<lparr>stsc_entryCount = 0, stsc_entrys = []\<rparr>,
     sb_stsz = Some \<lparr>stsz_sampleSize = 0, stsz_sampleCount = 0, stsz_entrySizelist = []\<rparr>,
     sb_stco = Some \<lparr>stco_entryCount = 0, stco_chunkOffsetlist = []\<rparr>, sb_stss = Some []\<rparr>\<rparr>"

definition makeStblTable :: "mp4track \<Rightarrow> mp4track option" where
  "makeStblTable track = (let samples = tk_samplelist track in
     if samples = [] then Some (makeEmptyStblTable track)
     else do {
       st \<leftarrow> stbl_loop (lastSampleDelta samples) None samples stbl_start;
       let tbl = (case tk_stbltable track of None \<Rightarrow> empty_stbl | Some t \<Rightarrow> t);
       chunks \<leftarrow> slice_to (ss_chunks st) (uint (ss_ckn st));
       let tbl = tbl\<lparr>sb_stts := Some \<lparr>stts_entryCount = ss_sttsCount st, stts_entrys = ss_stts st\<rparr>,
         sb_stsc := Some (make_stsc (ss_chunks st)),
         sb_stco := Some \<lparr>stco_entryCount = ss_ckn st, stco_chunkOffsetlist = map mc_chunkoffset chunks\<rparr>,
         sb_stsz := Some (make_stsz (ss_sameSize st) samples)\<rparr>;
       Some (track\<lparr>tk_stbltable := Some (if isVideo (tk_cid track)
         then tbl\<lparr>sb_ctts := Some \<lparr>ctts_version = ss_version st, ctts_entryCount = ss_cttsCount st, ctts_entrys = ss_ctts st\<rparr>\<rparr>
         else tbl)\<rparr>)
     })"

fun key_numbers :: "nat \<Rightarrow> sampleEntry list \<Rightarrow> u32 list" where
  "key_numbers i [] = []"
| "key_numbers i (s # ss) = (if se_isKeyFrame s then [word_of_nat (i + 1)] else []) @ key_numbers (i + 1) ss"

definition makeStss :: "mp4track \<Rightarrow> bytes option" where
  "makeStss track = stss_make (key_numbers 0 (tk_samplelist track))"

section \<open>Runs\<close>

text \<open>
  The tables hold runs: an entry stands for the list \<open>out e\<close>, and counting one more in the last
  entry appends one value.
\<close>

locale run_table =
  fixes out :: "'a \<Rightarrow> 'b list" and bump :: "'a \<Rightarrow> 'a" and more :: "'a \<Rightarrow> 'b"
  assumes out_bump: "out e \<noteq> [] \<Longrightarrow> length (out e) + 1 < 2 ^ 32 \<Longrightarrow> out (bump e) = out e @ [more e]"
begin

definition outs :: "'a list \<Rightarrow> 'b list" where "outs es = concat (map out es)"

definition runs :: "'a list \<Rightarrow> bool" where "runs es \<longleftrightarrow> (\<forall>e\<in>set es. out e \<noteq> [])"

lemma outs_simps [simp]: "outs [] = []" "outs (e # es) = out e @ outs es" "outs (es @ es') = outs es @ outs es'"
  by (simp_all add: outs_def)

lemma runs_simps [simp]: "runs []" "runs (e # es) \<longleftrightarrow> out e \<noteq> [] \<and> runs es" "runs (es @ es') \<longleftrightarrow> runs es \<and> runs es'"
  by (auto simp: runs_def)

lemma outs_bump_last:
  assumes "runs es" "es \<noteq> []" "length (outs es) + 1 < 2 ^ 32"
  shows "outs (bump_last bump es) = outs es @ [more (last es)] \<and> runs (bump_last bump es) \<and> length (bump_last bump es) = length es"
proof -
  obtain fs e where es: "es = fs @ [e]" using assms(2) by (cases es rule: rev_cases) auto
  then have "out (bump e) = out e @ [more e]" using assms by (intro out_bump) auto
  then show ?thesis using assms(1) by (simp add: es bump_last_def)
qed

lemma length_runs: "runs es \<Longrightarrow> length es \<le> length (outs es)"
proof (induction es)
  case (Cons e es)
  then show ?case by (cases "out e") auto
qed simp

end

lemma unat_Suc: "unat (n :: u32) + 1 < 2 ^ 32 \<Longrightarrow> unat (n + 1) = Suc (unat n)"
  by (subst unat_add_lem [THEN iffD1]) auto

lemma unat_Suc': "0 < unat (n :: u32) \<Longrightarrow> Suc (unat n) < 2 ^ 32 \<Longrightarrow> unat (n + 1) = Suc (unat n)"
  using unat_Suc by simp

definition stts_out :: "sttsEntry \<Rightarrow> u32 list" where
  "stts_out e = replicate (unat (st_sampleCount e)) (st_sampleDelta e)"

definition ctts_out :: "cttsEntry \<Rightarrow> u32 list" where
  "ctts_out e = replicate (unat (ct_sampleCount e)) (ct_sampleOffset e)"

text \<open>Where the samples of a chunk stand: the first at its offset, each other behind the one before.\<close>

definition chunk_out :: "movchunk \<Rightarrow> u64 option list" where
  "chunk_out c = (if mc_samplenum c = 0 then [] else Some (mc_chunkoffset c) # replicate (unat (mc_samplenum c) - 1) None)"

interpretation stts_run: run_table stts_out "\<lambda>e. e\<lparr>st_sampleCount := st_sampleCount e + 1\<rparr>" st_sampleDelta
  by unfold_locales (simp add: stts_out_def unat_Suc' replicate_append_same)

interpretation ctts_run: run_table ctts_out "\<lambda>e. e\<lparr>ct_sampleCount := ct_sampleCount e + 1\<rparr>" ct_sampleOffset
  by unfold_locales (simp add: ctts_out_def unat_Suc' replicate_append_same)

lemma length_chunk_out: "length (chunk_out c) = unat (mc_samplenum c)"
  by (simp add: chunk_out_def unat_gt_0 Suc_pred')

interpretation chunk_run: run_table chunk_out "\<lambda>c. c\<lparr>mc_samplenum := mc_samplenum c + 1\<rparr>" "\<lambda>_. None"
proof unfold_locales
  fix c
  assume "chunk_out c \<noteq> []" and n: "length (chunk_out c) + 1 < 2 ^ 32"
  then have "mc_samplenum c \<noteq> 0" "unat (mc_samplenum c) + 1 < 2 ^ 32" by (auto simp: chunk_out_def length_chunk_out split: if_splits)
  then have "0 < unat (mc_samplenum c)" "unat (mc_samplenum c + 1) = Suc (unat (mc_samplenum c))" by (simp_all add: unat_gt_0 unat_Suc)
  moreover from this have "mc_samplenum c + 1 \<noteq> 0" by (metis unat_0 nat.distinct(1))
  ultimately show "chunk_out (c\<lparr>mc_samplenum := mc_samplenum c + 1\<rparr>) = chunk_out c @ [None]"
    by (cases "unat (mc_samplenum c)") (auto simp: chunk_out_def replicate_append_same)
qed

section \<open>What the tables say of the samples\<close>

fun deltas :: "u32 \<Rightarrow> sampleEntry list \<Rightarrow> u32 list" where
  "deltas lastDelta [] = []"
| "deltas lastDelta [s] = [lastDelta]"
| "deltas lastDelta (s # n # ss) = ucast (if se_dts n \<ge> se_dts s then se_dts n - se_dts s else 1) # deltas lastDelta (n # ss)"

definition comps :: "sampleEntry list \<Rightarrow> u32 list" where
  "comps ss = map (\<lambda>s. ucast (se_pts s - se_dts s)) ss"

definition place :: "sampleEntry option \<Rightarrow> sampleEntry \<Rightarrow> u64 option" where
  "place prev s = (case prev of None \<Rightarrow> Some (se_offset s)
     | Some p \<Rightarrow> if se_offset s = se_offset p + se_size p then None else Some (se_offset s))"

fun places :: "sampleEntry option \<Rightarrow> sampleEntry list \<Rightarrow> u64 option list" where
  "places prev [] = []"
| "places prev (s # ss) = place prev s # places (Some s) ss"

primrec numbered :: "nat \<Rightarrow> movchunk list \<Rightarrow> bool" where
  "numbered i [] \<longleftrightarrow> True"
| "numbered i (c # cs) \<longleftrightarrow> mc_chunknum c = word_of_nat i \<and> numbered (Suc i) cs"

definition stts_says :: "u32 list \<Rightarrow> stbl_state \<Rightarrow> bool" where
  "stts_says ds st \<longleftrightarrow> stts_run.runs (ss_stts st) \<and> stts_run.outs (ss_stts st) = ds \<and> ss_sttsCount st = word_of_nat (length (ss_stts st))"

definition ctts_says :: "u32 list \<Rightarrow> stbl_state \<Rightarrow> bool" where
  "ctts_says ds st \<longleftrightarrow> ctts_run.runs (ss_ctts st) \<and> ctts_run.outs (ss_ctts st) = ds \<and> ss_cttsCount st = word_of_nat (length (ss_ctts st))"

definition chunks_say :: "u64 option list \<Rightarrow> stbl_state \<Rightarrow> bool" where
  "chunks_say ds st \<longleftrightarrow> chunk_run.runs (ss_chunks st) \<and> chunk_run.outs (ss_chunks st) = ds \<and> ss_ckn st = word_of_nat (length (ss_chunks st)) \<and>
     numbered 0 (ss_chunks st)"

lemma numbered_append [simp]: "numbered i (cs @ [c]) \<longleftrightarrow> numbered i cs \<and> mc_chunknum c = word_of_nat (i + length cs)"
  by (induction cs arbitrary: i) (auto simp: add_ac)

lemma numbered_bump_last: "numbered i cs \<Longrightarrow> cs \<noteq> [] \<Longrightarrow> (\<And>c. mc_chunknum (f c) = mc_chunknum c) \<Longrightarrow> numbered i (bump_last f cs)"
  by (cases cs rule: rev_cases) (simp_all add: bump_last_def)

lemma put_stts_says:
  assumes "stts_says ds st" and "length ds + 1 < 2 ^ 32" shows "stts_says (ds @ [ucast delta]) (put_stts delta st)"
proof -
  have "ucast (ucast d :: u64) = d" for d :: u32
    by (rule bit_word_eqI) (auto simp: bit_simps)
  then have d: "delta = ucast d \<Longrightarrow> d = ucast delta" for d :: u32 by simp
  show ?thesis using assms stts_run.outs_bump_last [of "ss_stts st"] d [of "st_sampleDelta (last (ss_stts st))"]
    by (auto simp: stts_says_def put_stts_def stts_out_def)
qed

lemma put_last_stts_says:
  "stts_says ds st \<Longrightarrow> stts_says (ds @ [d]) (st\<lparr>ss_stts := ss_stts st @ [\<lparr>st_sampleCount = 1, st_sampleDelta = d\<rparr>], ss_sttsCount := ss_sttsCount st + 1\<rparr>)"
  by (auto simp: stts_says_def stts_out_def)

lemma put_ctts_says:
  "ctts_says ds st \<Longrightarrow> length ds + 1 < 2 ^ 32 \<Longrightarrow> ctts_says (ds @ [off]) (put_ctts off st)"
  using ctts_run.outs_bump_last [of "ss_ctts st"] by (auto simp: ctts_says_def put_ctts_def ctts_out_def)

lemma new_chunk_says:
  "chunks_say ds st \<Longrightarrow> chunks_say (ds @ [Some off])
     (st\<lparr>ss_chunks := ss_chunks st @ [\<lparr>mc_chunknum = ss_ckn st, mc_samplenum = 1, mc_chunkoffset = off\<rparr>], ss_ckn := ss_ckn st + 1\<rparr>)"
  by (auto simp: chunks_say_def chunk_out_def)

lemma put_chunk_says:
  assumes "chunks_say ds st" and "length ds + 1 < 2 ^ 32" and "prev \<noteq> None \<longrightarrow> ds \<noteq> []"
  shows "\<exists>cs n. put_chunk prev s st = Some (st\<lparr>ss_chunks := cs, ss_ckn := n\<rparr>) \<and>
    chunks_say (ds @ [place prev s]) (st\<lparr>ss_chunks := cs, ss_ckn := n\<rparr>)"
proof (cases "place prev s")
  case (Some off)
  then have "put_chunk prev s st = Some (st\<lparr>ss_chunks := ss_chunks st @ [\<lparr>mc_chunknum = ss_ckn st, mc_samplenum = 1, mc_chunkoffset = off\<rparr>], ss_ckn := ss_ckn st + 1\<rparr>)"
    by (auto simp: put_chunk_def place_def split: option.splits if_splits)
  then show ?thesis using new_chunk_says [OF assms(1), of off] Some by auto
next
  case None
  then obtain p where p: "prev = Some p" "se_offset s = se_offset p + se_size p" by (auto simp: place_def split: option.splits if_splits)
  let ?cs = "ss_chunks st" and ?b = "\<lambda>c. c\<lparr>mc_samplenum := mc_samplenum c + 1\<rparr>"
  have ne: "?cs \<noteq> []" using assms(1,3) p by (auto simp: chunks_say_def)
  have "length ?cs \<le> length ds" using assms(1) chunk_run.length_runs by (auto simp: chunks_say_def)
  then have "unat (ss_ckn st) = length ?cs" using assms(1,2) by (simp add: chunks_say_def unat_of_nat)
  then have "unat (ss_ckn st - 1) = length ?cs - 1" using ne by (subst unat_minus_one) auto
  then have i: "uint (ss_ckn st - 1) = int (length ?cs - 1)" by (simp only: uint_nat)
  have "?cs[length ?cs - 1 := ?b (last ?cs)] = bump_last ?b ?cs" using ne
    by (cases ?cs rule: rev_cases) (simp_all add: bump_last_def list_update_append)
  then have "put_chunk prev s st = Some (st\<lparr>ss_chunks := bump_last ?b ?cs\<rparr>)" using p ne i
    by (simp add: put_chunk_def idx_def upd_def last_conv_nth)
  moreover have "chunks_say (ds @ [None]) (st\<lparr>ss_chunks := bump_last ?b ?cs\<rparr>)"
    using chunk_run.outs_bump_last [of ?cs] numbered_bump_last [of 0 ?cs ?b] assms ne by (simp add: chunks_say_def)
  ultimately show ?thesis using None by (intro exI [of _ "bump_last ?b ?cs"] exI [of _ "ss_ckn st"]) simp
qed

lemma stbl_loop_says:
  assumes "stts_says ds st" "ctts_says os st" "chunks_say ps st"
    and "length ds = k" "length os = k" "length ps = k" and "k + length ss < 2 ^ 32" and "prev \<noteq> None \<longrightarrow> 0 < k"
  shows "\<exists>st'. stbl_loop lastDelta prev ss st = Some st' \<and> stts_says (ds @ deltas lastDelta ss) st' \<and> ctts_says (os @ comps ss) st' \<and>
    chunks_say (ps @ places prev ss) st' \<and>
    ss_version st' = (if \<exists>s\<in>set ss. sint (se_pts s - se_dts s) < 0 then 1 else ss_version st) \<and>
    (ss_sameSize st' \<longleftrightarrow> ss_sameSize st \<and> (\<forall>s\<in>set ss. se_size s = se_size (hd ss)))"
  using assms
proof (induction ss arbitrary: st ds os ps prev k)
  case Nil
  then show ?case by (simp add: comps_def)
next
  case (Cons s rest)
  let ?off = "se_pts s - se_dts s" and ?d = "hd (deltas lastDelta (s # rest))"
  have d: "deltas lastDelta (s # rest) = ?d # deltas lastDelta rest" by (cases rest) simp_all
  define st1 where "st1 = (if sint ?off < 0 then st\<lparr>ss_version := 1\<rparr> else st)"
  define st2 where "st2 = (case rest of
           [] \<Rightarrow> st1\<lparr>ss_stts := ss_stts st1 @ [\<lparr>st_sampleCount = 1, st_sampleDelta = lastDelta\<rparr>], ss_sttsCount := ss_sttsCount st1 + 1\<rparr>
         | n # _ \<Rightarrow> put_stts (if se_dts n \<ge> se_dts s then se_dts n - se_dts s else 1) st1)"
  define st3 where "st3 = put_ctts (ucast ?off) st2"
  define st4 where "st4 = (case rest of [] \<Rightarrow> st3 | n # _ \<Rightarrow> if ss_sameSize st3 \<and> se_size n \<noteq> se_size s then st3\<lparr>ss_sameSize := False\<rparr> else st3)"
  have step: "stbl_step lastDelta prev s rest st = put_chunk prev s st4"
    unfolding stbl_step_def Let_def st4_def st3_def st2_def st1_def by (rule refl)
  have k: "k + 1 < 2 ^ 32" using Cons.prems by simp
  have "stts_says (ds @ [?d]) st2"
  proof (cases rest)
    case Nil
    have "stts_says ds st1" using Cons.prems by (simp add: st1_def stts_says_def)
    then show ?thesis using Nil put_last_stts_says [of ds st1 lastDelta] by (simp add: st2_def)
  next
    case (Cons n ss)
    have "stts_says ds st1" using Cons.prems by (simp add: st1_def stts_says_def)
    then show ?thesis using Cons put_stts_says [of ds st1] Cons.prems k by (simp add: st2_def)
  qed
  then have s4: "stts_says (ds @ [?d]) st4" by (auto simp: st4_def st3_def put_ctts_def stts_says_def split: list.split)
  have 2: "ss_ctts st2 = ss_ctts st" "ss_cttsCount st2 = ss_cttsCount st" "ss_chunks st2 = ss_chunks st" "ss_ckn st2 = ss_ckn st"
    "ss_version st2 = (if sint ?off < 0 then 1 else ss_version st)" "ss_sameSize st2 = ss_sameSize st"
    by (auto simp: st2_def put_stts_def st1_def Let_def split: list.split)
  have "ctts_says os st2" using Cons.prems by (simp add: ctts_says_def 2)
  then have "ctts_says (os @ [ucast ?off]) st3" using put_ctts_says [of os st2] k Cons.prems by (simp add: st3_def)
  then have c4: "ctts_says (os @ [ucast ?off]) st4" by (auto simp: st4_def ctts_says_def split: list.split)
  have 4: "ss_chunks st4 = ss_chunks st" "ss_ckn st4 = ss_ckn st" "ss_version st4 = (if sint ?off < 0 then 1 else ss_version st)"
    "ss_sameSize st4 \<longleftrightarrow> ss_sameSize st \<and> (rest \<noteq> [] \<longrightarrow> se_size (hd rest) = se_size s)"
    using 2 by (auto simp: st4_def st3_def put_ctts_def split: list.split)
  then have "chunks_say ps st4" using Cons.prems by (simp add: chunks_say_def)
  moreover have "length ps + 1 < 2 ^ 32" "prev \<noteq> None \<longrightarrow> ps \<noteq> []" using Cons.prems k by auto
  ultimately obtain cs n where pc: "put_chunk prev s st4 = Some (st4\<lparr>ss_chunks := cs, ss_ckn := n\<rparr>)"
      "chunks_say (ps @ [place prev s]) (st4\<lparr>ss_chunks := cs, ss_ckn := n\<rparr>)"
    using put_chunk_says [of ps st4 prev s] by blast
  let ?st = "st4\<lparr>ss_chunks := cs, ss_ckn := n\<rparr>"
  have "stts_says (ds @ [?d]) ?st" "ctts_says (os @ [ucast ?off]) ?st" using s4 c4 by (simp_all add: stts_says_def ctts_says_def)
  from Cons.IH [OF this pc(2), of "k + 1" "Some s"] Cons.prems
  obtain st' where st': "stbl_loop lastDelta (Some s) rest ?st = Some st'" "stts_says ((ds @ [?d]) @ deltas lastDelta rest) st'"
    "ctts_says ((os @ [ucast ?off]) @ comps rest) st'" "chunks_say ((ps @ [place prev s]) @ places (Some s) rest) st'"
    "ss_version st' = (if \<exists>s\<in>set rest. sint (se_pts s - se_dts s) < 0 then 1 else ss_version ?st)"
    "ss_sameSize st' \<longleftrightarrow> ss_sameSize ?st \<and> (\<forall>s\<in>set rest. se_size s = se_size (hd rest))" by auto
  have "ss_sameSize st' \<longleftrightarrow> ss_sameSize st \<and> (\<forall>s'\<in>set (s # rest). se_size s' = se_size s)"
    using st'(6) 4(4) by (cases rest) auto
  then show ?case using st' step pc(1) d 4(3) by (intro exI [of _ st']) (auto simp: comps_def)
qed

text \<open>
  The tables as boxes, in the order \<open>makeStblBox\<close> appends them behind \<open>stsd\<close>; a box that is not made is
  empty.
\<close>

definition made :: "('a \<Rightarrow> bytes option) \<Rightarrow> 'a option \<Rightarrow> bytes option" where
  "made f m = (case m of None \<Rightarrow> Some [] | Some x \<Rightarrow> f x)"

definition stbl_tables :: "mp4track \<Rightarrow> bytes option" where
  "stbl_tables track = (case tk_stbltable track of None \<Rightarrow> Some []
     | Some t \<Rightarrow> do {
         sttsbox \<leftarrow> made makeStts (sb_stts t);
         cttsbox \<leftarrow> made makeCtts (sb_ctts t);
         stscbox \<leftarrow> made makeStsc (sb_stsc t);
         stszbox \<leftarrow> made makeStsz (sb_stsz t);
         stcobox \<leftarrow> made makeStco (sb_stco t);
         stssbox \<leftarrow> (if isVideo (tk_cid track) \<and> (case sb_stts t of None \<Rightarrow> False | Some l \<Rightarrow> stts_entryCount l > 0)
           then makeStss track else Some []);
         Some (sttsbox @ cttsbox @ stscbox @ stszbox @ stcobox @ stssbox)
       })"

end
