(* ===== verification/Mp4Samples.thy ===== *)
theory Mp4Samples
  imports Mp4Track
begin

text \<open>
  The sample list of a track, built by \<open>mp4demuxer.go\<close> from the tables, and the samples read by
  it.

  The loops over the sample list that stop when the list ends take a prefix of it: the entries
  they do not reach keep the zeroes they were made with.  On an error the demuxer's tracks are
  not returned, the caller gets no list.
\<close>

section \<open>The list is built\<close>

fun advance :: "u32 \<Rightarrow> stscEntry list \<Rightarrow> stscEntry list" where
  "advance n (e # e' # es) = (if sc_firstChunk e' \<le> n then advance n (e' # es) else e # e' # es)"
| "advance n es = es"

fun read_chunks :: "nat \<Rightarrow> stscEntry list \<Rightarrow> u64 list \<Rightarrow> movchunk list option" where
  "read_chunks i es [] = Some []"
| "read_chunks i es (off # offs) = (let n = word_of_nat (i + 1); es = advance n es in do {
     e \<leftarrow> idx es 0;
     cs \<leftarrow> read_chunks (i + 1) es offs;
     Some (\<lparr>mc_chunknum = n, mc_samplenum = sc_samplesPerChunk e, mc_chunkoffset = off\<rparr> # cs)
   })"

definition sized_sample :: "u64 \<Rightarrow> sampleEntry" where
  "sized_sample n = \<lparr>se_pts = 0, se_dts = 0, se_offset = 0, se_size = n, se_isKeyFrame = False, se_SampleDescriptionIndex = 0\<rparr>"

definition sized_samples :: "movstsz \<Rightarrow> sampleEntry list option" where
  "sized_samples z = (if stsz_sampleSize z = 0
     then map_option (map (\<lambda>n. sized_sample (ucast n))) (slice_to (stsz_entrySizelist z) (uint (stsz_sampleCount z)))
     else Some (replicate (unat (stsz_sampleCount z)) (sized_sample (ucast (stsz_sampleSize z)))))"

primrec place_run :: "u64 \<Rightarrow> sampleEntry list \<Rightarrow> sampleEntry list" where
  "place_run off [] = []"
| "place_run off (s # ss) = s\<lparr>se_offset := off\<rparr> # place_run (off + se_size s) ss"

primrec place_chunks :: "movchunk list \<Rightarrow> sampleEntry list \<Rightarrow> sampleEntry list" where
  "place_chunks [] ss = ss"
| "place_chunks (c # cs) ss = (let n = unat (mc_samplenum c) in
     place_run (mc_chunkoffset c) (take n ss) @ place_chunks cs (drop n ss))"

primrec first_dts :: "u32 \<Rightarrow> u32 \<Rightarrow> elstEntry list \<Rightarrow> u64 \<Rightarrow> (mp4_error, u64) result" where
  "first_dts movie timescale [] d = ok d"
| "first_dts movie timescale (e # es) d =
     (if el_mediaTime e = - 1 then
        if movie = 0 then err (ErrMp4 ''mp4: movie timescale is 0, cannot apply edit list'')
        else first_dts movie timescale es (el_segmentDuration e * ucast timescale div ucast movie)
      else first_dts movie timescale es d)"

primrec time_run :: "u64 \<Rightarrow> u64 \<Rightarrow> sampleEntry list \<Rightarrow> sampleEntry list" where
  "time_run delta prev [] = []"
| "time_run delta prev (s # ss) = s\<lparr>se_dts := delta + prev\<rparr> # time_run delta (delta + prev) ss"

primrec time_samples :: "sttsEntry list \<Rightarrow> u64 \<Rightarrow> sampleEntry list \<Rightarrow> sampleEntry list" where
  "time_samples [] prev ss = ss"
| "time_samples (e # es) prev ss = (let n = unat (st_sampleCount e);
       ts = time_run (ucast (st_sampleDelta e)) prev (take n ss)
     in ts @ time_samples es (if ts = [] then prev else se_dts (last ts)) (drop n ss))"

primrec compose_samples :: "movctts \<Rightarrow> cttsEntry list \<Rightarrow> nat \<Rightarrow> sampleEntry list \<Rightarrow> sampleEntry list option" where
  "compose_samples ctts [] i ss = Some (map (\<lambda>s. s\<lparr>se_pts := se_dts s\<rparr>) ss)"
| "compose_samples ctts (e # es) i ss = do {
     off \<leftarrow> sampleOffset ctts (int i);
     let n = unat (ct_sampleCount e);
     rest \<leftarrow> compose_samples ctts es (i + 1) (drop n ss);
     Some (map (\<lambda>s. s\<lparr>se_pts := se_dts s + word_of_int off\<rparr>) (take n ss) @ rest)
   }"

definition build_track :: "u32 \<Rightarrow> u64 \<Rightarrow> mp4track \<Rightarrow> (mp4_error, mp4track) result" where
  "build_track movie fileSize track = (case tk_stbltable track of
       None \<Rightarrow> ok (track\<lparr>tk_samplelist := []\<rparr>)
     | Some stbl \<Rightarrow> (case sb_stsz stbl of
         None \<Rightarrow> ok (track\<lparr>tk_samplelist := []\<rparr>)
       | Some stsz \<Rightarrow> if stsz_sampleCount stsz = 0 then ok (track\<lparr>tk_samplelist := []\<rparr>)
         else (case (sb_stco stbl, sb_stsc stbl, sb_stts stbl) of
           (Some stco, Some stsc, Some stts) \<Rightarrow>
             if stsc_entryCount stsc = 0 \<or> stsc_entrys stsc = [] then err (ErrMp4 ''mp4: track has an empty stsc box'')
             else if stsz_sampleSize stsz = 0 \<and> glen (stsz_entrySizelist stsz) < uint (stsz_sampleCount stsz)
             then err (ErrMp4 ''mp4: track stsz entry list is shorter than sample count'')
             else if stsz_sampleSize stsz \<noteq> 0 \<and> ucast (stsz_sampleCount stsz) > fileSize div ucast (stsz_sampleSize stsz)
             then err (ErrMp4 ''mp4: track stsz describes more samples than the file holds'')
             else rbind (must (read_chunks 0 (stsc_entrys stsc) (stco_chunkOffsetlist stco))) (\<lambda>chunks.
               rbind (must (sized_samples stsz)) (\<lambda>sized.
               let placed = place_chunks chunks sized in
               rbind (first_dts movie (tk_timescale track) (case tk_elst track of None \<Rightarrow> [] | Some l \<Rightarrow> elst_entrys l) 0) (\<lambda>d.
               rbind (must (idx placed 0)) (\<lambda>s.
               let timed = s\<lparr>se_dts := d\<rparr> # time_samples (stts_entrys stts) d (tl placed) in
               rbind (must (case sb_ctts stbl of
                   None \<Rightarrow> Some (map (\<lambda>s. s\<lparr>se_pts := se_dts s\<rparr>) timed)
                 | Some ctts \<Rightarrow> if ctts_entryCount ctts = 0 then Some (map (\<lambda>s. s\<lparr>se_pts := se_dts s\<rparr>) timed)
                   else compose_samples ctts (ctts_entrys ctts) 0 timed)) (\<lambda>samples.
               ok (track\<lparr>tk_samplelist := samples\<rparr>))))))
         | _ \<Rightarrow> err (ErrMp4 ''mp4: track is missing stco/stsc/stts box''))))"

primrec build_tracks :: "u32 \<Rightarrow> u64 \<Rightarrow> mp4track list \<Rightarrow> (mp4_error, mp4track list) result" where
  "build_tracks movie fileSize [] = ok []"
| "build_tracks movie fileSize (t # ts) = rbind (build_track movie fileSize t) (\<lambda>t.
     rbind (build_tracks movie fileSize ts) (\<lambda>ts. ok (t # ts)))"

section \<open>The list is the one the tables were made of\<close>

primrec place_all :: "u64 option list \<Rightarrow> u64 \<Rightarrow> sampleEntry list \<Rightarrow> sampleEntry list" where
  "place_all [] e ss = ss"
| "place_all (p # ps) e ss = (case ss of [] \<Rightarrow> []
     | s # ss \<Rightarrow> let off = (case p of None \<Rightarrow> e | Some off \<Rightarrow> off) in s\<lparr>se_offset := off\<rparr> # place_all ps (off + se_size s) ss)"

primrec time_all :: "u32 list \<Rightarrow> u64 \<Rightarrow> sampleEntry list \<Rightarrow> sampleEntry list" where
  "time_all [] prev ss = ss"
| "time_all (d # ds) prev ss = (case ss of [] \<Rightarrow> [] | s # ss \<Rightarrow> s\<lparr>se_dts := ucast d + prev\<rparr> # time_all ds (ucast d + prev) ss)"

lemma all_Nil [simp]: "place_all ps e [] = []" "time_all ds prev [] = []"
  by (cases ps, auto) (cases ds, auto)

lemma outs_Cons:
  "stts_run.outs (e # es) = replicate (unat (st_sampleCount e)) (st_sampleDelta e) @ stts_run.outs es"
  "ctts_run.outs (e' # es') = replicate (unat (ct_sampleCount e')) (ct_sampleOffset e') @ ctts_run.outs es'"
  "unat (mc_samplenum c) = 0 \<Longrightarrow> chunk_run.outs (c # cs) = chunk_run.outs cs"
  "unat (mc_samplenum c) = Suc m \<Longrightarrow> chunk_run.outs (c # cs) = Some (mc_chunkoffset c) # replicate m None @ chunk_run.outs cs"
  by (simp_all only: stts_run.outs_simps stts_out_def ctts_run.outs_simps ctts_out_def chunk_run.outs_simps)
    (auto simp: chunk_out_def unat_eq_0)

lemma place_all_start: "place_all (chunk_run.outs cs) e ss = place_all (chunk_run.outs cs) 0 ss"
proof (induction cs)
  case (Cons c cs)
  then show ?case by (cases "unat (mc_samplenum c)"; cases ss) (simp_all add: outs_Cons Let_def del: chunk_run.outs_simps)
qed simp

lemma place_all_run: "place_all (replicate m None @ chunk_run.outs cs) e ss = place_run e (take m ss) @ place_all (chunk_run.outs cs) 0 (drop m ss)"
proof (induction m arbitrary: e ss)
  case 0
  show ?case by (simp add: place_all_start [of cs e])
next
  case (Suc m)
  then show ?case by (cases ss) simp_all
qed

lemma place_chunks_all: "place_chunks cs ss = place_all (chunk_run.outs cs) 0 ss"
proof (induction cs arbitrary: ss)
  case (Cons c cs)
  show ?case
  proof (cases "unat (mc_samplenum c)")
    case (Suc m)
    then show ?thesis using Cons place_all_run [of m cs] by (cases ss) (simp_all add: outs_Cons(4) [OF Suc] Let_def del: chunk_run.outs_simps)
  qed (use Cons in \<open>simp add: outs_Cons(3) del: chunk_run.outs_simps\<close>)
qed simp

lemma place_all_places:
  assumes "\<And>s. se_size (f s) = se_size s" and "prev = None \<or> (\<exists>p. prev = Some p \<and> e = se_offset p + se_size p)"
  shows "place_all (places prev ss) e (map f ss) = map (\<lambda>s. (f s)\<lparr>se_offset := se_offset s\<rparr>) ss"
  using assms(2)
proof (induction ss arbitrary: prev e)
  case (Cons s ss)
  have off: "(case place prev s of None \<Rightarrow> e | Some off \<Rightarrow> off) = se_offset s" using Cons.prems by (auto simp: place_def)
  show ?case using Cons.IH [of "Some s" "se_offset s + se_size s"] by (simp add: off assms(1))
qed simp

lemma time_all_run: "time_all (replicate m d @ ds) prev ss =
    (let ts = time_run (ucast d) prev (take m ss) in ts @ time_all ds (if ts = [] then prev else se_dts (last ts)) (drop m ss))"
proof (induction m arbitrary: prev ss)
  case (Suc m)
  have "time_run d p xs = [] \<longleftrightarrow> xs = []" for d p xs by (cases xs) simp_all
  then show ?case using Suc by (cases ss) (auto simp: Let_def)
qed simp

lemma time_samples_all: "time_samples es prev ss = time_all (stts_run.outs es) prev ss"
  by (induction es arbitrary: prev ss) (simp_all add: outs_Cons(1) time_all_run Let_def del: stts_run.outs_simps(2))

definition steady :: "sampleEntry list \<Rightarrow> bool" where
  "steady = successively (\<lambda>s n. se_dts s \<le> se_dts n \<and> se_dts n - se_dts s \<le> 0xFFFFFFFF)"

lemma time_all_deltas:
  assumes "steady (s # ss)"
  shows "time_all (deltas lastDelta (s # ss)) prev (map f ss) = map (\<lambda>n. (f n)\<lparr>se_dts := prev + (se_dts n - se_dts s)\<rparr>) ss"
  using assms
proof (induction ss arbitrary: s prev)
  case (Cons n ss)
  then have "steady (n # ss)" and d: "se_dts s \<le> se_dts n" "(ucast (ucast (se_dts n - se_dts s) :: u32) :: u64) = se_dts n - se_dts s"
    by (auto simp: steady_def successively_Cons small_offset)
  have e: "se_dts n - se_dts s + prev = prev + se_dts n - se_dts s" by simp
  then show ?case using Cons.IH [OF \<open>steady (n # ss)\<close>, of "prev + (se_dts n - se_dts s)"] d by (simp add: add_diff_eq e)
qed simp

lemma compose_samples_all:
  assumes "\<And>j. j < length es \<Longrightarrow> i + j < length (ctts_entrys c) \<and> ctts_entrys c ! (i + j) = es ! j"
    and "length ss \<le> length (ctts_run.outs es)"
  shows "compose_samples c es i ss = Some (map2 (\<lambda>s off. s\<lparr>se_pts := se_dts s + (if ctts_version c = 1 then scast off else ucast off)\<rparr>)
      ss (take (length ss) (ctts_run.outs es)))"
  using assms
proof (induction es arbitrary: i ss)
  case (Cons e es)
  let ?n = "unat (ct_sampleCount e)" and ?w = "if ctts_version c = 1 then scast (ct_sampleOffset e) else ucast (ct_sampleOffset e) :: u64"
  have "i < length (ctts_entrys c)" "ctts_entrys c ! i = e" using Cons.prems(1) [of 0] by auto
  then obtain off where off: "sampleOffset c (int i) = Some off" "word_of_int off = ?w"
    by (auto simp: sampleOffset_def idx_def)
  have tl: "i + 1 + j < length (ctts_entrys c) \<and> ctts_entrys c ! (i + 1 + j) = es ! j" if "j < length es" for j
    using Cons.prems(1) [of "Suc j"] that by simp
  have len: "length (drop ?n ss) \<le> length (ctts_run.outs es)" using Cons.prems(2) by (simp add: outs_Cons(2) del: ctts_run.outs_simps(2))
  have rep: "map2 f xs (take (length xs) (replicate m d @ ys)) = map (\<lambda>x. f x d) (take m xs) @ map2 f (drop m xs) (take (length xs - m) ys)"
    for f :: "sampleEntry \<Rightarrow> u32 \<Rightarrow> sampleEntry" and xs m d ys
  proof (induction m arbitrary: xs)
    case (Suc m)
    then show ?case by (cases xs) simp_all
  qed simp
  show ?case unfolding compose_samples.simps off(1) Let_def
    by (simp only: Cons.IH [OF tl len] off(2) outs_Cons(2) rep Option.bind.simps length_drop)
qed simp

lemma compose_samples_comps:
  assumes "ctts_run.outs (ctts_entrys c) = comps ss" and "length ts = length ss"
  shows "compose_samples c (ctts_entrys c) 0 ts = Some (map2 (\<lambda>t s. t\<lparr>se_pts := se_dts t +
      (if ctts_version c = 1 then scast (ucast (se_pts s - se_dts s) :: u32) else ucast (ucast (se_pts s - se_dts s) :: u32))\<rparr>) ts ss)"
proof -
  have "length ts \<le> length (ctts_run.outs (ctts_entrys c))" using assms by (simp add: comps_def)
  then have "compose_samples c (ctts_entrys c) 0 ts = Some (map2 (\<lambda>s off. s\<lparr>se_pts := se_dts s + (if ctts_version c = 1 then scast off else ucast off)\<rparr>)
      ts (take (length ts) (ctts_run.outs (ctts_entrys c))))" by (intro compose_samples_all) auto
  then show ?thesis using assms by (simp add: comps_def zip_map2 split_def)
qed

lemma advance_stays: "(\<And>e'. e' \<in> set es \<Longrightarrow> n < sc_firstChunk e') \<Longrightarrow> advance n (e # es) = e # es"
  by (cases es) (auto simp: not_le [symmetric])

lemma stsc_runs_after:
  assumes "numbered i cs" and "i + length cs < 2 ^ 32" and "e \<in> set (stsc_runs prev cs)"
  shows "(word_of_nat i :: u32) < sc_firstChunk e"
  using assms
proof (induction cs arbitrary: i prev)
  case (Cons c cs)
  then have c: "mc_chunknum c = word_of_nat i" and tl: "numbered (Suc i) cs"
    by simp_all
  have lt: "(word_of_nat i :: u32) < word_of_nat (Suc i)" using Cons.prems by (simp add: word_less_nat_alt unat_of_nat del: of_nat_Suc)
  show ?case
  proof (cases "e \<in> set (stsc_runs (Some c) cs)")
    case True
    then have "(word_of_nat (Suc i) :: u32) < sc_firstChunk e" using Cons.IH [OF tl] Cons.prems by simp
    then show ?thesis using lt by (rule order.strict_trans [rotated])
  next
    case False
    then have "sc_firstChunk e = word_of_nat (Suc i)" using Cons.prems c by (auto split: if_splits)
    then show ?thesis using lt by simp
  qed
qed simp

lemma read_chunks_runs:
  assumes "numbered i cs" and "i + length cs < 2 ^ 32" and "sc_samplesPerChunk e = mc_samplenum p"
  shows "read_chunks i (e # stsc_runs (Some p) cs) (map mc_chunkoffset cs) = Some (map (\<lambda>c. c\<lparr>mc_chunknum := mc_chunknum c + 1\<rparr>) cs)"
  using assms
proof (induction cs arbitrary: i e p)
  case (Cons c cs)
  then have c: "mc_chunknum c = word_of_nat i" and tl: "numbered (Suc i) cs"
    by simp_all
  have n: "Suc i + length cs < 2 ^ 32" using Cons.prems by simp
  have stays: "advance (word_of_nat (i + 1)) (e' # stsc_runs (Some c) cs) = e' # stsc_runs (Some c) cs" for e'
    using stsc_runs_after [OF tl n] by (intro advance_stays) simp
  show ?case
  proof (cases "mc_samplenum c = mc_samplenum p")
    case True
    then show ?thesis using Cons.IH [OF tl n, of e c] Cons.prems(3) c stays [of e] by (simp add: idx_def Let_def)
  next
    case False
    let ?e = "\<lparr>sc_firstChunk = mc_chunknum c + 1, sc_samplesPerChunk = mc_samplenum c, sc_sampleDescriptionIndex = 1\<rparr>"
    have "advance (word_of_nat (i + 1)) (e # ?e # stsc_runs (Some c) cs) = ?e # stsc_runs (Some c) cs"
      using stays [of ?e] by (simp add: c add.commute)
    then show ?thesis using Cons.IH [OF tl n, of ?e c] False c by (simp add: idx_def Let_def)
  qed
qed simp

lemma read_chunks_made:
  assumes "numbered 0 cs" and "length cs < 2 ^ 32"
  shows "read_chunks 0 (stsc_runs None cs) (map mc_chunkoffset cs) = Some (map (\<lambda>c. c\<lparr>mc_chunknum := mc_chunknum c + 1\<rparr>) cs)"
proof (cases cs)
  case (Cons c cs')
  let ?e = "\<lparr>sc_firstChunk = mc_chunknum c + 1, sc_samplesPerChunk = mc_samplenum c, sc_sampleDescriptionIndex = 1\<rparr>"
  have tl: "mc_chunknum c = 0" "numbered 1 cs'"
    using assms(1) by (simp_all add: Cons)
  have n: "1 + length cs' < 2 ^ 32" using assms(2) Cons by simp
  have "advance 1 (?e # stsc_runs (Some c) cs') = ?e # stsc_runs (Some c) cs'"
    using stsc_runs_after [OF tl(2) n] by (intro advance_stays) simp
  then show ?thesis using read_chunks_runs [OF tl(2) n, of ?e c] by (simp add: Cons idx_def Let_def tl(1))
qed simp

lemma place_chunks_made:
  "chunk_run.outs (map (\<lambda>c. c\<lparr>mc_chunknum := mc_chunknum c + 1\<rparr>) cs) = chunk_run.outs cs"
proof (induction cs)
  case (Cons c cs)
  have "chunk_out (c\<lparr>mc_chunknum := mc_chunknum c + 1\<rparr>) = chunk_out c" by (simp add: chunk_out_def)
  then show ?case using Cons by simp
qed simp

text \<open>
  The samples a track can hold: in the order of their decoding times, with steps, sizes and
  composition offsets that fit the 32 bits of their tables.
\<close>

definition table_samples :: "MP4_CODEC_TYPE \<Rightarrow> sampleEntry list \<Rightarrow> bool" where
  "table_samples cid ss \<longleftrightarrow> ss \<noteq> [] \<and> length ss * 12 \<le> 0x10000000 \<and> steady ss \<and> (\<forall>s\<in>set ss. se_size s \<le> 0xFFFFFFFF \<and>
     (if isVideo cid then - (2 ^ 31) \<le> sint (se_pts s - se_dts s) \<and> sint (se_pts s - se_dts s) < 2 ^ 31 else se_pts s = se_dts s))"

text \<open>What the demuxer makes of a sample: the times count from the first decoding time.\<close>

definition rebased :: "u64 \<Rightarrow> sampleEntry \<Rightarrow> sampleEntry" where
  "rebased start s = \<lparr>se_pts = se_pts s - start, se_dts = se_dts s - start, se_offset = se_offset s, se_size = se_size s,
     se_isKeyFrame = False, se_SampleDescriptionIndex = 0\<rparr>"

definition seen_tables :: "movstbl \<Rightarrow> movstbl" where
  "seen_tables t = t\<lparr>sb_stsc := map_option stsc_seen (sb_stsc t)\<rparr>"


lemma sint_u32_of_int: "- (2 ^ 31) \<le> k \<Longrightarrow> k < 2 ^ 31 \<Longrightarrow> sint (word_of_int k :: u32) = k"
  by (simp add: signed_of_int signed_take_bit_int_eq_self)

lemma scast_ucast_small:
  assumes "- (2 ^ 31) \<le> sint (x :: u64)" "sint x < 2 ^ 31" shows "scast (ucast x :: u32) = x"
proof -
  have "ucast x = (word_of_int (sint x) :: u32)" by (rule bit_word_eqI) (auto simp: bit_simps)
  then have "sint (ucast x :: u32) = sint x" using sint_u32_of_int [OF assms] by (simp only:)
  then have "(word_of_int (sint (ucast x :: u32)) :: u64) = word_of_int (sint x)" by (simp only:)
  then show ?thesis by simp
qed

lemma ucast_ucast_small: "0 \<le> sint (x :: u64) \<Longrightarrow> sint x < 2 ^ 31 \<Longrightarrow> ucast (ucast x :: u32) = x"
proof -
  assume a: "0 \<le> sint x" "sint x < 2 ^ 31"
  then have "uint (word_of_int (sint x) :: u64) = sint x" by (simp only: uint_word_of_int) simp
  moreover have "(word_of_int (sint x) :: u64) = x" by simp
  ultimately have "sint x = uint x" by (simp only:)
  then show ?thesis using a by (intro small_offset) (simp add: word_le_def)
qed

definition loop_tables :: "MP4_CODEC_TYPE \<Rightarrow> sampleEntry list \<Rightarrow> stbl_state \<Rightarrow> movstbl" where
  "loop_tables cid ss st = \<lparr>sb_stts = Some \<lparr>stts_entryCount = ss_sttsCount st, stts_entrys = ss_stts st\<rparr>,
     sb_ctts = (if isVideo cid then Some \<lparr>ctts_version = ss_version st, ctts_entryCount = ss_cttsCount st, ctts_entrys = ss_ctts st\<rparr> else None),
     sb_stsc = Some (make_stsc (ss_chunks st)), sb_stsz = Some (make_stsz (ss_sameSize st) ss),
     sb_stco = Some \<lparr>stco_entryCount = ss_ckn st, stco_chunkOffsetlist = map mc_chunkoffset (ss_chunks st)\<rparr>, sb_stss = None\<rparr>"

text \<open>What the state of the loop is worth at its end.\<close>

definition loop_done :: "sampleEntry list \<Rightarrow> stbl_state \<Rightarrow> bool" where
  "loop_done ss st \<longleftrightarrow> stts_says (deltas (lastSampleDelta ss) ss) st \<and> ctts_says (comps ss) st \<and> chunks_say (places None ss) st \<and>
     ss_version st = (if \<exists>s\<in>set ss. sint (se_pts s - se_dts s) < 0 then 1 else 0) \<and>
     (ss_sameSize st \<longleftrightarrow> (\<forall>s\<in>set ss. se_size s = se_size (hd ss)))"

lemma length_places: "length (places p ss) = length ss"
  by (induction ss arbitrary: p) simp_all

lemma length_says [simp]: "length (deltas d ss) = length ss" "length (comps ss) = length ss" "length (places p ss) = length ss"
  by (induction d ss rule: deltas.induct) (simp_all add: comps_def length_places)

lemma loop_lengths:
  assumes "loop_done ss st"
  shows "length (ss_stts st) \<le> length ss" "length (ss_ctts st) \<le> length ss" "length (ss_chunks st) \<le> length ss"
proof -
  have "stts_run.runs (ss_stts st)" "length (stts_run.outs (ss_stts st)) = length ss"
    "ctts_run.runs (ss_ctts st)" "length (ctts_run.outs (ss_ctts st)) = length ss"
    "chunk_run.runs (ss_chunks st)" "length (chunk_run.outs (ss_chunks st)) = length ss"
    using assms by (simp_all add: loop_done_def stts_says_def ctts_says_def chunks_say_def)
  then show "length (ss_stts st) \<le> length ss" "length (ss_ctts st) \<le> length ss" "length (ss_chunks st) \<le> length ss"
    using stts_run.length_runs [of "ss_stts st"] ctts_run.length_runs [of "ss_ctts st"] chunk_run.length_runs [of "ss_chunks st"] by simp_all
qed

lemma stbl_start_simps: "ss_version stbl_start = 0" "ss_sameSize stbl_start"
  by (simp_all add: stbl_start_def)

lemma makeStblTable_made:
  assumes "tk_samplelist track \<noteq> []" and "length (tk_samplelist track) < 2 ^ 32" and "tk_stbltable track = None"
  shows "\<exists>st. makeStblTable track = Some (track\<lparr>tk_stbltable := Some (loop_tables (tk_cid track) (tk_samplelist track) st)\<rparr>) \<and>
    loop_done (tk_samplelist track) st"
proof -
  let ?ss = "tk_samplelist track"
  have "stts_says [] stbl_start" "ctts_says [] stbl_start" "chunks_say [] stbl_start"
    by (simp_all add: stts_says_def ctts_says_def chunks_say_def stbl_start_def)
  from stbl_loop_says [OF this, of 0 ?ss None "lastSampleDelta ?ss"] assms(2)
  have "\<exists>st. stbl_loop (lastSampleDelta ?ss) None ?ss stbl_start = Some st \<and> loop_done ?ss st"
    by (simp add: loop_done_def stbl_start_simps split del: if_split cong: if_cong)
  then obtain st where st: "stbl_loop (lastSampleDelta ?ss) None ?ss stbl_start = Some st" "loop_done ?ss st" by blast
  have "length (ss_chunks st) < 2 ^ 32" "ss_ckn st = word_of_nat (length (ss_chunks st))"
    using loop_lengths(3) [OF st(2)] assms(2) st(2) by (simp_all add: loop_done_def chunks_say_def)
  then have "unat (ss_ckn st) = length (ss_chunks st)" by (simp add: unat_of_nat)
  then have "uint (ss_ckn st) = int (length (ss_chunks st))" by (simp only: uint_nat)
  then show ?thesis using st assms by (auto simp: makeStblTable_def loop_tables_def empty_stbl_def)
qed

lemma sized_samples_made:
  assumes "loop_done ss st" and "ss \<noteq> []" and "length ss < 2 ^ 32" and "\<forall>s\<in>set ss. se_size s \<le> 0xFFFFFFFF"
  shows "sized_samples (make_stsz (ss_sameSize st) ss) = Some (map (\<lambda>s. sized_sample (se_size s)) ss)"
proof -
  have n: "unat (word_of_nat (length ss) :: u32) = length ss" using assms(3) by (simp add: unat_of_nat)
  then have i: "uint (word_of_nat (length ss) :: u32) = int (length ss)" by (simp only: uint_nat)
  have fit: "ucast (ucast (se_size s) :: u32) = se_size s" if "s \<in> set ss" for s using that assms(4) by (simp add: small_offset)
  show ?thesis
  proof (cases "ss_sameSize st \<and> se_size (hd ss) \<noteq> 0")
    case True
    then have eq: "\<forall>s\<in>set ss. se_size s = se_size (hd ss)" using assms(1) by (simp add: loop_done_def)
    have f: "ucast (ucast (se_size (hd ss)) :: u32) = se_size (hd ss)" using fit assms(2) by simp
    then have "(ucast (se_size (hd ss)) :: u32) \<noteq> 0" using True by (metis unsigned_0)
    moreover have "map (\<lambda>s. sized_sample (se_size s)) ss = map (\<lambda>_. sized_sample (se_size (hd ss))) ss" using eq by simp
    ultimately show ?thesis using True n f by (simp add: sized_samples_def make_stsz_def map_replicate_const)
  next
    case False
    then show ?thesis using i fit by (auto simp: sized_samples_def make_stsz_def Let_def)
  qed
qed

lemma total_size: "length ss * k \<le> n \<Longrightarrow> \<forall>s\<in>set ss. unat (se_size s) = k \<Longrightarrow> (\<Sum>s\<leftarrow>ss. unat (se_size s)) = length ss * k"
  by (induction ss arbitrary: n) auto

lemma stsz_fits:
  assumes "loop_done ss st" and "ss \<noteq> []" and "length ss < 2 ^ 32" and "\<forall>s\<in>set ss. se_size s \<le> 0xFFFFFFFF"
    and "(\<Sum>s\<leftarrow>ss. unat (se_size s)) \<le> unat (fileSize :: u64)" and "z = make_stsz (ss_sameSize st) ss"
  shows "stsz_sampleCount z \<noteq> 0"
    and "\<not> (stsz_sampleSize z = 0 \<and> glen (stsz_entrySizelist z) < uint (stsz_sampleCount z))"
    and "\<not> (stsz_sampleSize z \<noteq> 0 \<and> ucast (stsz_sampleCount z) > fileSize div ucast (stsz_sampleSize z))"
proof -
  have n: "unat (word_of_nat (length ss) :: u32) = length ss" using assms(3) by (simp add: unat_of_nat)
  then have i: "uint (word_of_nat (length ss) :: u32) = int (length ss)" by (simp only: uint_nat)
  have "(word_of_nat (length ss) :: u32) \<noteq> 0" using n assms(2) by (metis length_0_conv unat_0)
  then show "stsz_sampleCount z \<noteq> 0" by (simp add: assms(6) make_stsz_def Let_def)
  show "\<not> (stsz_sampleSize z = 0 \<and> glen (stsz_entrySizelist z) < uint (stsz_sampleCount z))"
  proof (cases "ss_sameSize st \<and> se_size (hd ss) \<noteq> 0")
    case True
    have "ucast (ucast (se_size (hd ss)) :: u32) = se_size (hd ss)" using assms(2,4) by (simp add: small_offset)
    then have "(ucast (se_size (hd ss)) :: u32) \<noteq> 0" using True by (metis unsigned_0)
    then show ?thesis using True by (simp add: assms(6) make_stsz_def)
  qed (use i in \<open>auto simp: assms(6) make_stsz_def Let_def\<close>)
  show "\<not> (stsz_sampleSize z \<noteq> 0 \<and> ucast (stsz_sampleCount z) > fileSize div ucast (stsz_sampleSize z))"
  proof (cases "ss_sameSize st \<and> se_size (hd ss) \<noteq> 0")
    case True
    have f: "ucast (ucast (se_size (hd ss)) :: u32) = se_size (hd ss)" using assms(2,4) by (simp add: small_offset)
    have "\<forall>s\<in>set ss. unat (se_size s) = unat (se_size (hd ss))" using assms(1) True by (metis loop_done_def)
    then have "length ss * unat (se_size (hd ss)) \<le> unat fileSize" using assms(5) total_size [OF order.refl] by metis
    then have "length ss \<le> unat fileSize div unat (se_size (hd ss))" using True
      by (simp add: less_eq_div_iff_mult_less_eq unat_gt_0)
    moreover have "unat (ucast (word_of_nat (length ss) :: u32) :: u64) = length ss"
      using assms(3) by (simp add: ucast_u64_of_nat unat_of_nat)
    ultimately have "ucast (word_of_nat (length ss) :: u32) \<le> fileSize div se_size (hd ss)"
      by (simp add: word_le_nat_alt unat_div_distrib)
    then show ?thesis using True f by (simp add: assms(6) make_stsz_def not_less)
  qed (auto simp: assms(6) make_stsz_def Let_def)
qed

lemma composed:
  assumes "loop_done ss st" and "table_samples cid ss" and "isVideo cid" and "c = \<lparr>ctts_version = ss_version st, ctts_entryCount = n, ctts_entrys = ss_ctts st\<rparr>"
    and "\<And>s. s \<in> set ss \<Longrightarrow> se_dts (g s) = se_dts s - start"
  shows "compose_samples c (ctts_entrys c) 0 (map g ss) = Some (map (\<lambda>s. (g s)\<lparr>se_pts := se_pts s - start\<rparr>) ss)"
proof -
  have outs: "ctts_run.outs (ctts_entrys c) = comps ss" using assms(1,4) by (simp add: loop_done_def ctts_says_def)
  have range: "- (2 ^ 31) \<le> sint (se_pts s - se_dts s) \<and> sint (se_pts s - se_dts s) < 2 ^ 31" if "s \<in> set ss" for s
    using assms(2,3) that by (simp add: table_samples_def)
  have off: "(if ctts_version c = 1 then scast (ucast (se_pts s - se_dts s) :: u32) else ucast (ucast (se_pts s - se_dts s) :: u32)) = se_pts s - se_dts s"
    if "s \<in> set ss" for s
  proof (cases "\<exists>s\<in>set ss. sint (se_pts s - se_dts s) < 0")
    case True
    then have "ctts_version c = 1" using assms(1,4) by (simp add: loop_done_def)
    then show ?thesis using range [OF that] scast_ucast_small [of "se_pts s - se_dts s"] by simp
  next
    case False
    then have "ctts_version c \<noteq> 1" using assms(1,4) by (simp add: loop_done_def)
    moreover have "0 \<le> sint (se_pts s - se_dts s)" using False that by auto
    ultimately show ?thesis using range [OF that] ucast_ucast_small [of "se_pts s - se_dts s"] by simp
  qed
  have "map2 (\<lambda>t s. t\<lparr>se_pts := se_dts t + (if ctts_version c = 1 then scast (ucast (se_pts s - se_dts s) :: u32)
        else ucast (ucast (se_pts s - se_dts s) :: u32))\<rparr>) (map g ss) ss = map (\<lambda>s. (g s)\<lparr>se_pts := se_pts s - start\<rparr>) ss"
    by (rule nth_equalityI) (simp_all add: off assms(5) del: )
  then show ?thesis using compose_samples_comps [OF outs, of "map g ss"] by simp
qed

lemma build_track_made:
  assumes "loop_done ss st" and "table_samples cid ss" and "(\<Sum>s\<leftarrow>ss. unat (se_size s)) \<le> unat (fileSize :: u64)"
    and "tk_stbltable track = Some tbl" and "tk_elst track = None" and "tbl\<lparr>sb_stss := None\<rparr> = seen_tables (loop_tables cid ss st)"
  shows "build_track movie fileSize track = ok (track\<lparr>tk_samplelist := map (rebased (se_dts (hd ss))) ss\<rparr>)"
proof -
  have ne: "ss \<noteq> []" and len: "length ss < 2 ^ 32" and fits: "\<forall>s\<in>set ss. se_size s \<le> 0xFFFFFFFF" and steady: "steady ss"
    using assms(2) by (auto simp: table_samples_def)
  let ?cs = "ss_chunks st" and ?start = "se_dts (hd ss)"
  let ?f = "\<lambda>s. (sized_sample (se_size s))\<lparr>se_offset := se_offset s\<rparr>"
  let ?g = "\<lambda>s. (?f s)\<lparr>se_dts := se_dts s - ?start\<rparr>"
  define stsc where "stsc = stsc_seen (make_stsc ?cs)"
  define stsz where "stsz = make_stsz (ss_sameSize st) ss"
  have tbl: "sb_stsz tbl = Some stsz" "sb_stsc tbl = Some stsc"
    "sb_stco tbl = Some \<lparr>stco_entryCount = ss_ckn st, stco_chunkOffsetlist = map mc_chunkoffset ?cs\<rparr>"
    "sb_stts tbl = Some \<lparr>stts_entryCount = ss_sttsCount st, stts_entrys = ss_stts st\<rparr>"
    "sb_ctts tbl = (if isVideo cid then Some \<lparr>ctts_version = ss_version st, ctts_entryCount = ss_cttsCount st, ctts_entrys = ss_ctts st\<rparr> else None)"
    using assms(6) by (cases tbl; simp add: seen_tables_def loop_tables_def stsc_def stsz_def)+
  have cs: "chunk_run.outs ?cs = places None ss" "numbered 0 ?cs" "length ?cs < 2 ^ 32"
    using assms(1) loop_lengths(3) [OF assms(1)] len by (auto simp: loop_done_def chunks_say_def)
  have "?cs \<noteq> []" using cs(1) ne by (cases ss) auto
  have runs: "length (stsc_runs p cs) \<le> length cs" for p cs by (induction cs arbitrary: p) (auto intro: le_SucI)
  have "unat (word_of_nat (length (stsc_runs None ?cs)) :: u32) = length (stsc_runs None ?cs)"
    using runs [of None ?cs] cs(3) by (simp add: unat_of_nat)
  then have es: "stsc_entrys stsc = stsc_runs None ?cs" "unat (stsc_entryCount stsc) = length (stsc_runs None ?cs)"
    by (simp_all add: stsc_def stsc_seen_def make_stsc_def Let_def)
  have "stsc_entrys stsc \<noteq> []" using \<open>?cs \<noteq> []\<close> es(1) by (cases ?cs) auto
  moreover from this have "stsc_entryCount stsc \<noteq> 0" using es by (metis length_0_conv unat_0)
  ultimately have 1: "\<not> (stsc_entryCount stsc = 0 \<or> stsc_entrys stsc = [])" by simp
  note 2 = stsz_fits [OF assms(1) ne len fits assms(3) stsz_def]
  have 3: "read_chunks 0 (stsc_entrys stsc) (map mc_chunkoffset ?cs) = Some (map (\<lambda>c. c\<lparr>mc_chunknum := mc_chunknum c + 1\<rparr>) ?cs)"
    unfolding es(1) by (rule read_chunks_made [OF cs(2,3)])
  have 4: "sized_samples stsz = Some (map (\<lambda>s. sized_sample (se_size s)) ss)"
    unfolding stsz_def by (rule sized_samples_made [OF assms(1) ne len fits])
  have 5: "place_chunks (map (\<lambda>c. c\<lparr>mc_chunknum := mc_chunknum c + 1\<rparr>) ?cs) (map (\<lambda>s. sized_sample (se_size s)) ss) = map ?f ss"
    unfolding place_chunks_all place_chunks_made cs(1)
    by (rule place_all_places) (simp_all add: sized_sample_def)
  have "stts_run.outs (ss_stts st) = deltas (lastSampleDelta ss) ss" using assms(1) by (simp add: loop_done_def stts_says_def)
  then have "time_samples (ss_stts st) 0 (map ?f (tl ss)) = map ?g (tl ss)"
    using time_all_deltas [of "hd ss" "tl ss" "lastSampleDelta ss" 0 ?f] steady ne by (simp add: time_samples_all)
  then have 6: "(?f (hd ss))\<lparr>se_dts := 0\<rparr> # time_samples (ss_stts st) 0 (tl (map ?f ss)) = map ?g ss"
    using ne by (cases ss) (simp_all add: sized_sample_def)
  have 7: "idx (map ?f ss) 0 = Some (?f (hd ss))" using ne by (cases ss) (simp_all add: idx_def)
  have 8: "map (\<lambda>s. (?g s)\<lparr>se_pts := se_pts s - ?start\<rparr>) ss = map (rebased ?start) ss"
    by (simp add: rebased_def sized_sample_def)
  have "(case sb_ctts tbl of None \<Rightarrow> Some (map (\<lambda>s. s\<lparr>se_pts := se_dts s\<rparr>) (map ?g ss))
      | Some ctts \<Rightarrow> if ctts_entryCount ctts = 0 then Some (map (\<lambda>s. s\<lparr>se_pts := se_dts s\<rparr>) (map ?g ss))
        else compose_samples ctts (ctts_entrys ctts) 0 (map ?g ss)) = Some (map (rebased ?start) ss)"
  proof (cases "isVideo cid")
    case True
    have "ss_ctts st \<noteq> []" using assms(1) ne by (auto simp: loop_done_def ctts_says_def comps_def)
    moreover have "unat (ss_cttsCount st) = length (ss_ctts st)"
      using assms(1) loop_lengths(2) [OF assms(1)] len by (simp add: loop_done_def ctts_says_def unat_of_nat)
    ultimately have "ss_cttsCount st \<noteq> 0" by auto
    then show ?thesis using True composed [OF assms(1,2) True refl, of ?g ?start "ss_cttsCount st"] 8 by (simp add: tbl)
  next
    case False
    then have "\<forall>s\<in>set ss. se_pts s = se_dts s" using assms(2) by (simp add: table_samples_def)
    then have "map (\<lambda>s. s\<lparr>se_pts := se_dts s\<rparr>) (map ?g ss) = map (\<lambda>s. (?g s)\<lparr>se_pts := se_pts s - ?start\<rparr>) ss" by simp
    then show ?thesis using False 8 by (simp add: tbl)
  qed
  then show ?thesis
    unfolding build_track_def assms(4) option.case tbl(1-4) prod.case if_not_P [OF 1] if_not_P [OF 2(1)] if_not_P [OF 2(2)] if_not_P [OF 2(3)] assms(5)
    by (simp only: first_dts.simps movstco.simps movstts.simps 3 4 5 6 7 must_simps rbind_simps Let_def)
qed

end
