(* ===== verification/Mp4Decoders.thy ===== *)
theory Mp4Decoders
  imports Mp4Samples
begin

text \<open>
  The state of the demuxer of an MP4 file, \<open>MovDemuxer\<close> of \<open>mp4demuxer.go\<close>, and what the boxes of
  codecs, encryption and fragments do to it: the functions \<open>decode...Box\<close> of the files of \<open>go-mp4\<close>.

  A track is changed through its place in the list; \<open>currentTrack\<close> is such a place.  \<open>ReadHead\<close> goes
  on with the state it has when a decoder ends with \<open>io.EOF\<close>, so the decoders that change the state
  before such an error return the state with the error; for the others \<open>keep\<close> adds the state they
  were called with.  What another error leaves behind is not looked at.

  The lemmas: no bytes make a decoder panic, and each returns.
\<close>

record MovDemuxer =
  dm_reader :: mov_file
  dm_mdatOffset :: "u64 list"
  dm_tracks :: "mp4track list"
  dm_readSampleIdx :: "u32 list"
  dm_MajorBrand :: u32
  dm_MinorVersion :: u32
  dm_CompatibleBrands :: "u32 list"
  dm_Duration :: u32
  dm_Timescale :: u32
  dm_CreateTime :: u64
  dm_ModifyTime :: u64
  dm_isFragement :: bool
  dm_currentTrack :: "nat option"
  dm_pssh :: "PsshBox list"
  dm_moofOffset :: int
  dm_dataOffset :: u32

definition CreateMp4Demuxer :: "mov_file \<Rightarrow> MovDemuxer" where
  "CreateMp4Demuxer r = \<lparr>dm_reader = r, dm_mdatOffset = [], dm_tracks = [], dm_readSampleIdx = [], dm_MajorBrand = 0, dm_MinorVersion = 0,
     dm_CompatibleBrands = [], dm_Duration = 0, dm_Timescale = 0, dm_CreateTime = 0, dm_ModifyTime = 0, dm_isFragement = False,
     dm_currentTrack = None, dm_pssh = [], dm_moofOffset = 0, dm_dataOffset = 0\<rparr>"

definition lastTrack :: "MovDemuxer \<Rightarrow> mp4track option" where
  "lastTrack dm = (if dm_tracks dm = [] then None else Some (last (dm_tracks dm)))"

definition set_track :: "mp4track \<Rightarrow> MovDemuxer \<Rightarrow> MovDemuxer" where
  "set_track t dm = dm\<lparr>dm_tracks := butlast (dm_tracks dm) @ [t]\<rparr>"

text \<open>The current track with its place in the list.\<close>

definition currentTrack :: "MovDemuxer \<Rightarrow> (nat \<times> mp4track) option" where
  "currentTrack dm = (case dm_currentTrack dm of None \<Rightarrow> None
     | Some i \<Rightarrow> if i < length (dm_tracks dm) then Some (i, dm_tracks dm ! i) else None)"

definition put_track :: "nat \<Rightarrow> mp4track \<Rightarrow> MovDemuxer \<Rightarrow> MovDemuxer" where
  "put_track i t dm = dm\<lparr>dm_tracks := (dm_tracks dm)[i := t]\<rparr>"

definition seek :: "int \<Rightarrow> whence \<Rightarrow> mov_file \<Rightarrow> (mp4_error, int \<times> mov_file) result" where
  "seek off w f = (case file_Seek off w f of (Inl e, f) \<Rightarrow> err (Mp4Read e) | (Inr p, f) \<Rightarrow> ok (p, f))"

definition blank_box :: FullBox where "blank_box = bare_box 0 [0, 0, 0]"

text \<open>An error with the state it leaves.\<close>

type_synonym 'a step = "(mp4_error \<times> MovDemuxer, 'a) result"

definition keep :: "MovDemuxer \<Rightarrow> (mp4_error, 'a) result \<Rightarrow> 'a step" where
  "keep dm m = (case m of None \<Rightarrow> None | Some (Inl e) \<Rightarrow> err (e, dm) | Some (Inr x) \<Rightarrow> ok x)"

lemma keep_simps [simp]: "keep dm None = None" "keep dm (err e) = err (e, dm)" "keep dm (ok x) = ok x"
  by (simp_all add: keep_def)

lemma returns_keep [returns_intros]: "returns P m \<Longrightarrow> returns P (keep dm m)"
  by (cases m rule: option.exhaust; simp; rename_tac r; case_tac r; simp)

section \<open>Boxes outside a track\<close>

definition decodeFtypBox :: "u32 \<Rightarrow> MovDemuxer \<Rightarrow> (mp4_error, MovDemuxer) result" where
  "decodeFtypBox n dm = rbind (ft_Decode n (NewFileTypeBox (tag ''ftyp'')) (dm_reader dm)) (\<lambda>(ftyp, f).
     ok (dm\<lparr>dm_reader := f, dm_CompatibleBrands := ft_Compatible_brands ftyp, dm_MajorBrand := ft_Major_brand ftyp,
       dm_MinorVersion := ft_Minor_version ftyp\<rparr>))"

definition decodePsshBox :: "u32 \<Rightarrow> MovDemuxer \<Rightarrow> (mp4_error, MovDemuxer) result" where
  "decodePsshBox n dm = rbind (ps_Decode n blank_box (dm_reader dm)) (\<lambda>(pssh, f).
     ok (dm\<lparr>dm_reader := f, dm_pssh := dm_pssh dm @ [pssh]\<rparr>))"

definition decodeHdlrBox :: "u64 \<Rightarrow> MovDemuxer \<Rightarrow> (mp4_error, MovDemuxer) result" where
  "decodeHdlrBox n dm = rbind (hd_Decode n blank_box (dm_reader dm)) (\<lambda>(_, f). ok (dm\<lparr>dm_reader := f\<rparr>))"

definition decodeStsdBox :: "MovDemuxer \<Rightarrow> (mp4_error, MovDemuxer) result" where
  "decodeStsdBox dm = rbind (sd_Decode blank_box (dm_reader dm)) (\<lambda>(_, f). ok (dm\<lparr>dm_reader := f\<rparr>))"

definition decodeMfhdBox :: "MovDemuxer \<Rightarrow> (mp4_error, MovDemuxer) result" where
  "decodeMfhdBox dm = rbind (mf_Decode blank_box (dm_reader dm)) (\<lambda>(_, f). ok (dm\<lparr>dm_reader := f\<rparr>))"

definition decodeWaveBox :: "MovDemuxer \<Rightarrow> (mp4_error, MovDemuxer) result" where
  "decodeWaveBox dm = rbind (read_full 24 (dm_reader dm)) (\<lambda>(_, f). ok (dm\<lparr>dm_reader := f\<rparr>))"

section \<open>Sample entries and codec configuration\<close>

definition on_track :: "MovDemuxer \<Rightarrow> (mp4track \<Rightarrow> (mp4_error, mp4track \<times> mov_file) result) \<Rightarrow> (mp4_error, MovDemuxer) result" where
  "on_track dm dec = (case lastTrack dm of None \<Rightarrow> err ErrNoTrack
     | Some track \<Rightarrow> rbind (dec track) (\<lambda>(track, f). ok (set_track track (dm\<lparr>dm_reader := f\<rparr>))))"

definition decodeVisualSampleEntry :: "MovDemuxer \<Rightarrow> (mp4_error, MovDemuxer) result" where
  "decodeVisualSampleEntry dm = on_track dm (\<lambda>track.
     rbind (vs_Decode (NewSampleEntry []) (dm_reader dm)) (\<lambda>(entry, f).
     ok (track\<lparr>tk_width := ucast (vs_width entry), tk_height := ucast (vs_height entry)\<rparr>, f)))"

definition quickTime :: "MovDemuxer \<Rightarrow> bool" where
  "quickTime dm \<longleftrightarrow> list_ex (\<lambda>brand. Some brand = mov_tag (tag ''qt  '')) (dm_CompatibleBrands dm)"

definition decodeAudioSampleEntry :: "MovDemuxer \<Rightarrow> MovDemuxer step" where
  "decodeAudioSampleEntry dm = (case lastTrack dm of None \<Rightarrow> err (ErrNoTrack, dm)
     | Some track \<Rightarrow> rbind (keep dm (as_Decode (NewSampleEntry []) (dm_reader dm))) (\<lambda>(entry, f).
         let dm = set_track (track\<lparr>tk_chanelCount := ucast (as_channelcount entry), tk_sampleBits := ucast (as_samplesize entry),
               tk_sampleRate := as_samplerate entry\<rparr>) (dm\<lparr>dm_reader := f\<rparr>);
             more = (if quickTime dm \<and> as_version entry = 1 then 16 else if quickTime dm \<and> as_version entry = 2 then 36 else 0)
         in if more = 0 then ok dm else rbind (keep dm (read_full more f)) (\<lambda>(_, f). ok (dm\<lparr>dm_reader := f\<rparr>))))"

definition decodeFrmaBox :: "u32 \<Rightarrow> MovDemuxer \<Rightarrow> (mp4_error, MovDemuxer) result" where
  "decodeFrmaBox n dm = on_track dm (\<lambda>track.
     rbind (readBoxPayload (ucast n) BasicBoxLen (dm_reader dm)) (\<lambda>(buf, f).
     rbind (checked 4 (get_bytes 4) buf) (\<lambda>(format, _).
     let new = (\<lambda>cid x track. track\<lparr>tk_cid := cid, tk_extra := (case tk_extra track of None \<Rightarrow> Some x | Some y \<Rightarrow> Some y)\<rparr>) in
     ok (if format = tag ''avc1'' then new MP4_CODEC_H264 (H264Extra [] []) track
         else if format = tag ''hvc1'' \<or> format = tag ''hev1'' then new MP4_CODEC_H265 newh265ExtraData track
         else if format = tag ''mp4a'' then new MP4_CODEC_AAC (AacExtra []) track
         else track, f))))"

text \<open>The fields behind the version: pattern, flags and key.\<close>

definition tenc_fields :: "bytes \<Rightarrow> ((byte \<times> byte \<times> byte \<times> byte \<times> bytes) \<times> bytes) option" where
  "tenc_fields b = do {
     (vf, b) \<leftarrow> get32 b;
     let b = drop 1 b;
     (pat, b) \<leftarrow> get_byte b;
     (prot, b) \<leftarrow> get_byte b;
     (ivSize, b) \<leftarrow> get_byte b;
     (kid, b) \<leftarrow> get_bytes 16 b;
     Some ((ucast (drop_bit 24 vf), pat, prot, ivSize, kid), b)
   }"

definition decodeTencBox :: "u32 \<Rightarrow> MovDemuxer \<Rightarrow> (mp4_error, MovDemuxer) result" where
  "decodeTencBox n dm = on_track dm (\<lambda>track.
     rbind (readBoxPayload (ucast n) BasicBoxLen (dm_reader dm)) (\<lambda>(buf, f).
     rbind (checked 24 tenc_fields buf) (\<lambda>((version, pat, prot, ivSize, kid), b).
     let track = (if version \<noteq> 0 then track\<lparr>tk_defaultCryptByteBlock := drop_bit 4 pat, tk_defaultSkipByteBlock := pat AND 0x0F\<rparr> else track);
         track = track\<lparr>tk_defaultIsProtected := prot, tk_defaultPerSampleIVSize := ivSize, tk_defaultKID := kid\<rparr> in
     if prot = 1 \<and> ivSize = 0 then rbind (constant_iv b) (\<lambda>(iv, _). ok (track\<lparr>tk_defaultConstantIV := iv\<rparr>, f))
     else ok (track, f))))"

definition or_new :: "extraData \<Rightarrow> extraData option \<Rightarrow> extraData" where
  "or_new x extra = (case extra of None \<Rightarrow> x | Some y \<Rightarrow> y)"

definition decodeDopsBox :: "u32 \<Rightarrow> MovDemuxer \<Rightarrow> (mp4_error, MovDemuxer) result" where
  "decodeDopsBox n dm = on_track dm (\<lambda>track.
     rbind (ob_Decode n NewdOpsBox (dm_reader dm)) (\<lambda>(dops, f).
     let track = (if ob_InputSampleRate dops \<noteq> 0 \<and> tk_sampleRate track = 0 then track\<lparr>tk_sampleRate := ob_InputSampleRate dops\<rparr> else track);
         track = (if tk_chanelCount track = 0 then track\<lparr>tk_chanelCount := ob_OutputChannelCount dops\<rparr> else track) in
     rbind (extra_load (toOpusHead dops) (or_new (OpusExtra []) (tk_extra track))) (\<lambda>x. ok (track\<lparr>tk_extra := Some x\<rparr>, f))))"

definition decode_config :: "extraData \<Rightarrow> u32 \<Rightarrow> MovDemuxer \<Rightarrow> (mp4_error, MovDemuxer) result" where
  "decode_config new n dm = on_track dm (\<lambda>track.
     rbind (readBoxPayload (ucast n) BasicBoxLen (dm_reader dm)) (\<lambda>(buf, f).
     rbind (extra_load buf (or_new new (tk_extra track))) (\<lambda>x. ok (track\<lparr>tk_extra := Some x\<rparr>, f))))"

definition decodeAvccBox :: "u32 \<Rightarrow> MovDemuxer \<Rightarrow> (mp4_error, MovDemuxer) result" where
  "decodeAvccBox = decode_config (H264Extra [] [])"

definition decodeHvccBox :: "u32 \<Rightarrow> MovDemuxer \<Rightarrow> (mp4_error, MovDemuxer) result" where
  "decodeHvccBox = decode_config newh265ExtraData"

definition decodeEsdsBox :: "u32 \<Rightarrow> MovDemuxer \<Rightarrow> (mp4_error, MovDemuxer) result" where
  "decodeEsdsBox n dm = on_track dm (\<lambda>track.
     rbind (fb_Decode blank_box (dm_reader dm)) (\<lambda>(_, _, f).
     rbind (readBoxPayload (ucast n) FullBoxLen f) (\<lambda>(buf, f).
     rbind (decodeESDescriptor buf (tk_cid track) (tk_extra track)) (\<lambda>(vosdata, cid, extra).
     let track = track\<lparr>tk_cid := cid, tk_extra := extra\<rparr> in
     (case extra of None \<Rightarrow> ok (track, f)
      | Some x \<Rightarrow> rbind (extra_load vosdata x) (\<lambda>x. ok (track\<lparr>tk_extra := Some x\<rparr>, f)))))))"

section \<open>Fragments\<close>

text \<open>Every track with the id is changed; the last of them is the current one.\<close>

definition decodeTfhdBox :: "u32 \<Rightarrow> MovDemuxer \<Rightarrow> (mp4_error, MovDemuxer) result" where
  "decodeTfhdBox n dm = rbind (tf_Decode (word_of_int (dm_moofOffset dm)) n blank_box (dm_reader dm)) (\<lambda>(tfhd, f).
     let found = filter (\<lambda>i. tk_trackId (dm_tracks dm ! i) = tf_Track_ID tfhd) [0..<length (dm_tracks dm)] in
     ok (dm\<lparr>dm_reader := f, dm_currentTrack := (if found = [] then dm_currentTrack dm else Some (last found)),
       dm_tracks := map (\<lambda>t. if tk_trackId t = tf_Track_ID tfhd then t\<lparr>tk_defaultDuration := tf_DefaultSampleDuration tfhd,
         tk_defaultSize := tf_DefaultSampleSize tfhd, tk_baseDataOffset := tf_BaseDataOffset tfhd\<rparr> else t) (dm_tracks dm)\<rparr>))"

definition decodeTfdtBox :: "u32 \<Rightarrow> MovDemuxer \<Rightarrow> (mp4_error, MovDemuxer) result" where
  "decodeTfdtBox n dm = rbind (td_Decode n blank_box (dm_reader dm)) (\<lambda>(tfdt, f).
     let dm = dm\<lparr>dm_reader := f\<rparr> in
     ok (case currentTrack dm of None \<Rightarrow> dm
       | Some (i, track) \<Rightarrow> put_track i (track\<lparr>tk_startDts := td_BaseMediaDecodeTime tfdt\<rparr>) dm))"

text \<open>
  The loop over the entries of a run, with the data offset and the next decoding time; the signed
  offset is kept as its bits.
\<close>

fun run_samples :: "byte \<Rightarrow> mp4track \<Rightarrow> trunEntry list \<Rightarrow> u32 \<Rightarrow> u64 \<Rightarrow> sampleEntry list \<times> u32 \<times> u64" where
  "run_samples version track [] dataOffset nextDts = ([], dataOffset, nextDts)"
| "run_samples version track (e # es) dataOffset nextDts =
     (let sz = (if te_sampleSize e = 0 then tk_defaultSize track else te_sampleSize e);
          delta = (if te_sampleDuration e = 0 then tk_defaultDuration track else te_sampleDuration e);
          cts = (if version = 1 then scast (te_sampleCompositionTimeOffset e) else ucast (te_sampleCompositionTimeOffset e));
          sample = \<lparr>se_pts = nextDts + cts, se_dts = nextDts, se_offset = scast dataOffset + tk_baseDataOffset track, se_size = ucast sz,
            se_isKeyFrame = False, se_SampleDescriptionIndex = 0\<rparr>;
          (ss, off, dts) = run_samples version track es (dataOffset + sz) (nextDts + ucast delta)
      in (sample # ss, off, dts))"

definition decodeTrunBox :: "u32 \<Rightarrow> MovDemuxer \<Rightarrow> (mp4_error, MovDemuxer) result" where
  "decodeTrunBox n dm = rbind (tr_Decode (dm_dataOffset dm) n blank_box (dm_reader dm)) (\<lambda>(trun, f).
     case currentTrack dm of None \<Rightarrow> err (ErrMp4 ''current track is nil'')
     | Some (i, track) \<Rightarrow>
         let (ss, off, dts) = run_samples (fb_Version (tr_Box trun)) track (tr_EntryList trun) (tr_Dataoffset trun) (tk_startDts track) in
         ok (put_track i (track\<lparr>tk_samplelist := tk_samplelist track @ ss, tk_startDts := dts\<rparr>) (dm\<lparr>dm_reader := f, dm_dataOffset := off\<rparr>)))"

section \<open>Encryption of samples\<close>

definition decodeSencBox :: "u32 \<Rightarrow> MovDemuxer \<Rightarrow> (mp4_error, MovDemuxer) result" where
  "decodeSencBox n dm = (case currentTrack dm of None \<Rightarrow> err (ErrMp4 ''current track is nil'')
     | Some (i, track) \<Rightarrow> rbind (sc_Decode (tk_defaultPerSampleIVSize track) n blank_box (dm_reader dm)) (\<lambda>(senc, f).
         ok (put_track i (track\<lparr>tk_subSamples := tk_subSamples track @ sc_EntryList senc\<rparr>) (dm\<lparr>dm_reader := f\<rparr>))))"

definition decodeSaizBox :: "u32 \<Rightarrow> MovDemuxer \<Rightarrow> (mp4_error, MovDemuxer) result" where
  "decodeSaizBox n dm = rbind (sz_Decode n blank_box (dm_reader dm)) (\<lambda>(saiz, f).
     case currentTrack dm of None \<Rightarrow> err (ErrMp4 ''current track is nil'')
     | Some (i, track) \<Rightarrow> ok (put_track i (track\<lparr>tk_lastSaiz := Some saiz\<rparr>) (dm\<lparr>dm_reader := f\<rparr>)))"

definition add_subSample :: "nat \<Rightarrow> sencEntry \<Rightarrow> MovDemuxer \<Rightarrow> MovDemuxer" where
  "add_subSample i se dm = (let track = dm_tracks dm ! i in put_track i (track\<lparr>tk_subSamples := tk_subSamples track @ [se]\<rparr>) dm)"

text \<open>The loop over the auxiliary information of the samples, from sample \<open>k\<close> on, for track \<open>i\<close>.\<close>

primrec aux_infos :: "SaizBox \<Rightarrow> nat \<Rightarrow> nat \<Rightarrow> nat \<Rightarrow> MovDemuxer \<Rightarrow> MovDemuxer step" where
  "aux_infos saiz i k 0 dm = ok dm"
| "aux_infos saiz i k (Suc n) dm =
     rbind (must (if sz_DefaultSampleInfoSize saiz = 0 then idx (sz_SampleInfo saiz) (int k) else Some (sz_DefaultSampleInfoSize saiz))) (\<lambda>sz.
     rbind (keep dm (read_full (uint sz) (dm_reader dm))) (\<lambda>(buf, f).
     rbind (keep dm (aux_entry buf)) (\<lambda>se. aux_infos saiz i (k + 1) n (add_subSample i se (dm\<lparr>dm_reader := f\<rparr>)))))"

definition decodeSaioBox :: "u32 \<Rightarrow> MovDemuxer \<Rightarrow> MovDemuxer step" where
  "decodeSaioBox n dm = rbind (keep dm (so_Decode n blank_box (dm_reader dm))) (\<lambda>(saio, f).
     let dm = dm\<lparr>dm_reader := f\<rparr> in
     case currentTrack dm of None \<Rightarrow> err (ErrMp4 ''current track is nil'', dm)
     | Some (i, track) \<Rightarrow> (case so_Offset saio of [] \<Rightarrow> ok dm
       | off # _ \<Rightarrow> if tk_subSamples track \<noteq> [] then ok dm
           else (case tk_lastSaiz track of None \<Rightarrow> err (ErrMp4 ''mp4: saio box without a preceding saiz box'', dm)
             | Some saiz \<Rightarrow>
                 if sz_DefaultSampleInfoSize saiz = 0 \<and> glen (sz_SampleInfo saiz) < uint (sz_SampleCount saiz)
                 then err (ErrMp4 ''mp4: saiz sample info shorter than sample count'', dm)
                 else rbind (keep dm (seek 0 SeekCurrent f)) (\<lambda>(cur, f).
                   rbind (keep dm (seek (wrap64 (dm_moofOffset dm + sint off)) SeekStart f)) (\<lambda>(_, f).
                   rbind (aux_infos saiz i 0 (unat (sz_SampleCount saiz)) (dm\<lparr>dm_reader := f\<rparr>)) (\<lambda>dm.
                   rbind (keep dm (seek cur SeekStart (dm_reader dm))) (\<lambda>(_, f). ok (dm\<lparr>dm_reader := f\<rparr>))))))))"

definition decodeSgpdBox :: "u32 \<Rightarrow> MovDemuxer \<Rightarrow> (mp4_error, MovDemuxer) result" where
  "decodeSgpdBox n dm = on_track dm (\<lambda>track.
     rbind (readBoxPayload (ucast n) BasicBoxLen (dm_reader dm)) (\<lambda>(buf, f).
     rbind (sgpd_fields buf (tk_lastSeig track)) (\<lambda>seig. ok (track\<lparr>tk_lastSeig := seig\<rparr>, f))))"

section \<open>No bytes make a decoder panic\<close>

lemma returns_then: "returns (\<lambda>_. True) m \<Longrightarrow> (\<And>x. returns P (f x)) \<Longrightarrow> returns P (rbind m f)"
  by (rule returns_rbind) auto

lemma returns_then_pair: "returns (\<lambda>_. True) m \<Longrightarrow> (\<And>x y. returns P (f x y)) \<Longrightarrow> returns P (rbind m (\<lambda>(x, y). f x y))"
  by (rule returns_then) auto

lemma returns_seek [returns_intros]: "returns (\<lambda>_. True) (seek n w f)"
  by (auto simp: seek_def split: prod.split sum.split)

lemma returns_on_track: "(\<And>t. returns (\<lambda>_. True) (dec t)) \<Longrightarrow> returns (\<lambda>_. True) (on_track dm dec)"
  by (auto simp: on_track_def split: option.split intro!: returns_then_pair)

lemma returns_payload_bind:
  assumes "\<And>d f. small d \<Longrightarrow> returns P (g d f)"
  shows "returns P (rbind (readBoxPayload n k f) (\<lambda>(d, f). g d f))"
  by (rule returns_rbind [OF readBoxPayload_length]) (use assms in \<open>auto simp: small_def maxBoxPayloadSize_def\<close>)

lemma small_less: "small d \<Longrightarrow> length d < 2 ^ 62" by (simp add: small_def)

lemma returns_outer [returns_intros]:
  "returns (\<lambda>_. True) (decodeFtypBox n dm)" "returns (\<lambda>_. True) (decodePsshBox n dm)" "returns (\<lambda>_. True) (decodeHdlrBox m dm)"
  "returns (\<lambda>_. True) (decodeStsdBox dm)" "returns (\<lambda>_. True) (decodeMfhdBox dm)" "returns (\<lambda>_. True) (decodeWaveBox dm)"
proof -
  have w: "returns (\<lambda>_. True) (read_full 24 f)" for f by (rule returns_mono [OF returns_read_full]) simp_all
  show "returns (\<lambda>_. True) (decodeFtypBox n dm)" "returns (\<lambda>_. True) (decodePsshBox n dm)" "returns (\<lambda>_. True) (decodeHdlrBox m dm)"
    "returns (\<lambda>_. True) (decodeStsdBox dm)" "returns (\<lambda>_. True) (decodeMfhdBox dm)" "returns (\<lambda>_. True) (decodeWaveBox dm)"
    unfolding decodeFtypBox_def decodePsshBox_def decodeHdlrBox_def decodeStsdBox_def decodeMfhdBox_def decodeWaveBox_def
    by (rule returns_then_pair, rule returns_intros returns_ps_Decode returns_mf_Decode w, simp)+
qed

lemma must_eq_ok: "must m = ok x \<longleftrightarrow> m = Some x"
  by (cases m) simp_all

lemma ob_parts: "ob_fields dops b = Some (d, r) \<Longrightarrow> ob_ChanMapTable d = None"
  "ob_table n b = Some (t, r) \<Longrightarrow> length (ct_ChannelMapping t) \<le> n"
  by (auto simp: ob_fields_def ob_table_def get_bytes_def slice_to_def slice_of_def Option.bind_eq_Some_conv split: if_splits)

lemma ob_Decode_length:
  "returns (\<lambda>(d, f). case ob_ChanMapTable d of None \<Rightarrow> True | Some t \<Rightarrow> length (ct_ChannelMapping t) < 256) (ob_Decode n dops f)"
proof -
  have less: "unat b < 256" for b :: byte using unsigned_less [of b, where 'a = nat] by simp
  have "case ob_ChanMapTable d of None \<Rightarrow> True | Some t \<Rightarrow> length (ct_ChannelMapping t) < 256" if "ob_Decode n dops f = ok (d, g)" for d g
    using that unfolding ob_Decode_def
    by (auto simp: rbind_eq_ok checked_def must_eq_ok split: if_splits dest: ob_parts(1) intro: le_less_trans [OF ob_parts(2) less])
  then show ?thesis using returns_ob_Decode [of n dops f] returnsD by (cases "ob_Decode n dops f"; simp; rename_tac r; case_tac r; auto)
qed

lemma toOpusHead_length: "(case ob_ChanMapTable d of None \<Rightarrow> True | Some t \<Rightarrow> length (ct_ChannelMapping t) < 256) \<Longrightarrow> length (toOpusHead d) < 2 ^ 62"
  by (simp add: toOpusHead_def OpusHead_def le16_def le32_def split: option.splits)

lemma returns_samples [returns_intros]:
  "returns (\<lambda>_. True) (decodeVisualSampleEntry dm)" "returns (\<lambda>_. True) (decodeAudioSampleEntry dm)"
proof -
  show "returns (\<lambda>_. True) (decodeVisualSampleEntry dm)" unfolding decodeVisualSampleEntry_def
    by (intro returns_on_track returns_then_pair returns_entries) simp
  have m: "returns (\<lambda>_. True) (read_full 16 f)" "returns (\<lambda>_. True) (read_full 36 f)" for f
    by (rule returns_mono [OF returns_read_full]; simp)+
  show "returns (\<lambda>_. True) (decodeAudioSampleEntry dm)" unfolding decodeAudioSampleEntry_def Let_def
    by (auto split: option.split intro!: returns_then_pair [OF returns_keep] returns_entries m)
qed

lemma returns_config [returns_intros]:
  "returns (\<lambda>_. True) (decodeFrmaBox n dm)" "returns (\<lambda>_. True) (decodeTencBox n dm)" "returns (\<lambda>_. True) (decodeDopsBox n dm)"
  "returns (\<lambda>_. True) (decodeAvccBox n dm)" "returns (\<lambda>_. True) (decodeHvccBox n dm)" "returns (\<lambda>_. True) (decodeEsdsBox n dm)"
proof -
  show "returns (\<lambda>_. True) (decodeFrmaBox n dm)" unfolding decodeFrmaBox_def
    by (intro returns_on_track returns_payload_bind leaves_bind [OF leaves_checked] parses_bytes leaves_let) simp_all
  have "parses 24 tenc_fields" unfolding tenc_fields_def by (rule parses_eq, (rule parses_intros)+) simp
  then have t: "small d \<Longrightarrow> leaves (checked 24 tenc_fields d)" for d by (rule leaves_checked)
  have iv: "small b \<Longrightarrow> returns (\<lambda>_. True) (rbind (constant_iv b) (\<lambda>(iv, _). ok (F iv)))" for b F
    unfolding constant_iv_def
    by (rule leaves_bind [of "rbind (checked 1 get_byte b) (\<lambda>(n, b). checked (unat n) (get_bytes (unat n)) b)"]) (intro leaves_intros parses_intros | simp)+
  show "returns (\<lambda>_. True) (decodeTencBox n dm)" unfolding decodeTencBox_def
    by (intro returns_on_track returns_payload_bind returns_rbind [OF t]) (auto simp: Let_def intro!: iv split: prod.split)
  have x: "length d < 2 ^ 62 \<Longrightarrow> returns (\<lambda>_. True) (rbind (extra_load d y) (\<lambda>x. ok (F x)))" for d y F
    by (rule returns_then [OF returns_extra_load]) simp_all
  show "returns (\<lambda>_. True) (decodeDopsBox n dm)" unfolding decodeDopsBox_def
    by (intro returns_on_track returns_rbind [OF ob_Decode_length]) (auto simp: Let_def intro!: x toOpusHead_length split: prod.split)
  have c: "returns (\<lambda>_. True) (decode_config new n dm)" for new unfolding decode_config_def
    by (intro returns_on_track returns_payload_bind x small_less)
  then show "returns (\<lambda>_. True) (decodeAvccBox n dm)" "returns (\<lambda>_. True) (decodeHvccBox n dm)" by (simp_all add: decodeAvccBox_def decodeHvccBox_def)
  have e: "returns (\<lambda>_. True) (rbind (decodeESDescriptor d cid extra) g)" if "small d" "\<And>v c x. length v < 2 ^ 62 \<Longrightarrow> returns (\<lambda>_. True) (g (v, c, x))" for d cid extra
    and g :: "bytes \<times> MP4_CODEC_TYPE \<times> extraData option \<Rightarrow> (mp4_error, mp4track \<times> mov_file) result"
    by (rule returns_rbind [OF returns_decodeES [OF small_less [OF that(1)]]]) (use that(2) in auto)
  show "returns (\<lambda>_. True) (decodeEsdsBox n dm)" unfolding decodeEsdsBox_def
    by (intro returns_on_track) (auto simp: Let_def split: option.split intro!: returns_then [OF returns_fb_Decode] returns_payload_bind e x)
qed

lemma returns_fragments [returns_intros]:
  "returns (\<lambda>_. True) (decodeTfhdBox n dm)" "returns (\<lambda>_. True) (decodeTfdtBox n dm)" "returns (\<lambda>_. True) (decodeTrunBox n dm)"
  unfolding decodeTfhdBox_def decodeTfdtBox_def decodeTrunBox_def
  by (rule returns_then_pair, rule returns_tf_Decode returns_td_Decode returns_tr_Decode, simp add: Let_def split: option.split prod.split)+

lemma aux_infos_total:
  assumes "sz_DefaultSampleInfoSize saiz = 0 \<longrightarrow> k + n \<le> length (sz_SampleInfo saiz)"
  shows "returns (\<lambda>_. True) (aux_infos saiz i k n dm)"
  using assms
proof (induction n arbitrary: k dm)
  case (Suc n)
  obtain b where b: "(if sz_DefaultSampleInfoSize saiz = 0 then idx (sz_SampleInfo saiz) (int k) else Some (sz_DefaultSampleInfoSize saiz)) = Some b"
    using Suc.prems by (cases "sz_DefaultSampleInfoSize saiz = 0") (simp_all add: idx_def)
  have r: "returns (\<lambda>(d, f). small d) (keep dm (read_full (uint b) (dm_reader dm)))"
  proof (rule returns_keep [OF returns_mono [OF returns_read_full]])
    fix x :: "bytes \<times> mov_file" assume x: "case x of (d, f) \<Rightarrow> length d = nat (uint b)"
    have "unat b < 256" using unsigned_less [of b, where 'a = nat] by simp
    then show "case x of (d, f) \<Rightarrow> small d" using x by (auto simp: small_def)
  qed simp
  have e: "small d \<Longrightarrow> returns (\<lambda>_. True) (rbind (keep dm (aux_entry d)) (\<lambda>se. aux_infos saiz i (k + 1) n (add_subSample i se dm')))" for d dm'
    using Suc by (intro returns_then [OF returns_keep [OF returns_aux_entry]]) simp_all
  show ?case by (simp add: b) (rule returns_rbind [OF r], use e in auto)
qed simp

lemma returns_cenc [returns_intros]:
  "returns (\<lambda>_. True) (decodeSencBox n dm)" "returns (\<lambda>_. True) (decodeSaizBox n dm)" "returns (\<lambda>_. True) (decodeSgpdBox n dm)"
  "returns (\<lambda>_. True) (decodeSaioBox n dm)"
proof -
  show "returns (\<lambda>_. True) (decodeSencBox n dm)" unfolding decodeSencBox_def
    by (auto split: option.split intro!: returns_then_pair [OF returns_sc_Decode])
  show "returns (\<lambda>_. True) (decodeSaizBox n dm)" unfolding decodeSaizBox_def
    by (rule returns_then_pair [OF returns_sz_Decode]) (simp split: option.split)
  show "returns (\<lambda>_. True) (decodeSgpdBox n dm)" unfolding decodeSgpdBox_def
    by (intro returns_on_track returns_payload_bind returns_then [OF returns_sgpd]) simp_all
  have a: "returns (\<lambda>_. True) (aux_infos saiz i 0 (unat (sz_SampleCount saiz)) d)"
    if "\<not> (sz_DefaultSampleInfoSize saiz = 0 \<and> glen (sz_SampleInfo saiz) < uint (sz_SampleCount saiz))" for saiz i d
    using that by (intro aux_infos_total) (auto simp: not_less nat_le_iff simp flip: nat_uint_eq)
  show "returns (\<lambda>_. True) (decodeSaioBox n dm)" unfolding decodeSaioBox_def Let_def
    by (rule returns_then_pair [OF returns_keep [OF returns_so_Decode]])
      (auto split: option.split list.split intro!: returns_then_pair [OF returns_keep [OF returns_seek]] returns_then [OF a])
qed

end
