(* ===== verification/Mp4Demuxer.thy ===== *)
theory Mp4Demuxer
  imports Mp4Decoders
begin

text \<open>
  The demuxer of an MP4 file: \<open>mp4demuxer.go\<close>, with the boxes of headers and sample tables.

  One turn of the loop of \<open>ReadHead\<close> is \<open>read_box\<close>; an error stops the loop with the state the
  decoder left.  \<open>read_boxes n\<close> makes at most \<open>n\<close> turns.

  The lemmas: the tables written by \<open>makeStblTable\<close> are read as the samples they were made of; a
  sample is taken from the track that is first in movie time; a seek stops at a sample that can be
  decoded; no file makes the head panic.
\<close>

definition lastStbl :: "MovDemuxer \<Rightarrow> (mp4_error, mp4track \<times> movstbl) result" where
  "lastStbl dm = (case lastTrack dm of None \<Rightarrow> err ErrNoTrack
     | Some track \<Rightarrow> (case tk_stbltable track of
         None \<Rightarrow> err (ErrMp4 ''mp4: sample table box found outside of an stbl box'')
       | Some t \<Rightarrow> ok (track, t)))"

definition remainingFileSize :: "mov_file \<Rightarrow> (mp4_error, (int \<times> int) \<times> mov_file) result" where
  "remainingFileSize f = rbind (seek 0 SeekCurrent f) (\<lambda>(cur, f).
     rbind (seek 0 SeekEnd f) (\<lambda>(ende, f).
     rbind (seek cur SeekStart f) (\<lambda>(_, f). ok ((cur, ende - cur), f))))"

section \<open>The boxes of a head\<close>

definition into_stbl :: "(movstbl \<Rightarrow> 'a \<Rightarrow> movstbl) \<Rightarrow> (mov_file \<Rightarrow> (mp4_error, 'a \<times> mov_file) result) \<Rightarrow> MovDemuxer \<Rightarrow> (mp4_error, MovDemuxer) result" where
  "into_stbl put dec dm = rbind (lastStbl dm) (\<lambda>(track, t).
     rbind (dec (dm_reader dm)) (\<lambda>(v, f).
     ok (set_track (track\<lparr>tk_stbltable := Some (put t v)\<rparr>) (dm\<lparr>dm_reader := f\<rparr>))))"

definition decodeSttsBox :: "u64 \<Rightarrow> MovDemuxer \<Rightarrow> (mp4_error, MovDemuxer) result" where
  "decodeSttsBox n = into_stbl (\<lambda>t v. t\<lparr>sb_stts := Some v\<rparr>) (stts_value n)"

definition decodeCttsBox :: "u64 \<Rightarrow> MovDemuxer \<Rightarrow> (mp4_error, MovDemuxer) result" where
  "decodeCttsBox n = into_stbl (\<lambda>t v. t\<lparr>sb_ctts := Some v\<rparr>) (ctts_value n)"

definition decodeStscBox :: "u64 \<Rightarrow> MovDemuxer \<Rightarrow> (mp4_error, MovDemuxer) result" where
  "decodeStscBox n = into_stbl (\<lambda>t v. t\<lparr>sb_stsc := Some v\<rparr>) (stsc_value n)"

definition decodeStszBox :: "u64 \<Rightarrow> MovDemuxer \<Rightarrow> (mp4_error, MovDemuxer) result" where
  "decodeStszBox n = into_stbl (\<lambda>t v. t\<lparr>sb_stsz := Some v\<rparr>) (stsz_value n)"

definition decodeStcoBox :: "u64 \<Rightarrow> MovDemuxer \<Rightarrow> (mp4_error, MovDemuxer) result" where
  "decodeStcoBox n = into_stbl (\<lambda>t v. t\<lparr>sb_stco := Some v\<rparr>) (stco_value n)"

definition decodeCo64Box :: "u64 \<Rightarrow> MovDemuxer \<Rightarrow> (mp4_error, MovDemuxer) result" where
  "decodeCo64Box n = into_stbl (\<lambda>t v. t\<lparr>sb_stco := Some v\<rparr>) (co64_value n)"

definition decodeStssBox :: "u64 \<Rightarrow> MovDemuxer \<Rightarrow> (mp4_error, MovDemuxer) result" where
  "decodeStssBox n = into_stbl (\<lambda>t v. t\<lparr>sb_stss := Some v\<rparr>) (stss_value n)"

definition decodeMvhd :: "MovDemuxer \<Rightarrow> (mp4_error, MovDemuxer) result" where
  "decodeMvhd dm = rbind (mv_Decode blank_box (dm_reader dm)) (\<lambda>(mvhd, f).
     ok (dm\<lparr>dm_reader := f, dm_Duration := ucast (mv_Duration mvhd), dm_Timescale := mv_Timescale mvhd,
       dm_CreateTime := mv_Creation_time mvhd, dm_ModifyTime := mv_Modification_time mvhd\<rparr>))"

definition with_last :: "(mp4track \<Rightarrow> mp4track) \<Rightarrow> MovDemuxer \<Rightarrow> (mp4_error, MovDemuxer) result" where
  "with_last g dm = (case lastTrack dm of None \<Rightarrow> err ErrNoTrack | Some track \<Rightarrow> ok (set_track (g track) dm))"

definition decodeTkhdBox :: "MovDemuxer \<Rightarrow> (mp4_error, MovDemuxer) result" where
  "decodeTkhdBox dm = rbind (th_Decode blank_box (dm_reader dm)) (\<lambda>(tkhd, f).
     with_last (\<lambda>track. track\<lparr>tk_duration := ucast (th_Duration tkhd), tk_trackId := th_Track_ID tkhd\<rparr>) (dm\<lparr>dm_reader := f\<rparr>))"

definition decodeMdhdBox :: "MovDemuxer \<Rightarrow> (mp4_error, MovDemuxer) result" where
  "decodeMdhdBox dm = rbind (mh_Decode blank_box (dm_reader dm)) (\<lambda>(mdhd, f).
     with_last (\<lambda>track. track\<lparr>tk_timescale := mh_Timescale mdhd\<rparr>) (dm\<lparr>dm_reader := f\<rparr>))"

definition decodeSmhdBox :: "MovDemuxer \<Rightarrow> (mp4_error, MovDemuxer) result" where
  "decodeSmhdBox dm = rbind (sm_Decode blank_box (dm_reader dm)) (\<lambda>(_, f). ok (dm\<lparr>dm_reader := f\<rparr>))"

definition decodeVmhdBox :: "MovDemuxer \<Rightarrow> (mp4_error, MovDemuxer) result" where
  "decodeVmhdBox dm = rbind (vm_Decode blank_box (dm_reader dm)) (\<lambda>(_, f). ok (dm\<lparr>dm_reader := f\<rparr>))"

definition decodeFreeBox :: "u64 \<Rightarrow> MovDemuxer \<Rightarrow> (mp4_error, MovDemuxer) result" where
  "decodeFreeBox n dm = (if 8 < n then rbind (readBoxPayload n 8 (dm_reader dm)) (\<lambda>(_, f). ok (dm\<lparr>dm_reader := f\<rparr>)) else ok dm)"
definition decodeElstBox :: "u64 \<Rightarrow> MovDemuxer \<Rightarrow> (mp4_error, MovDemuxer) result" where
  "decodeElstBox n dm = (case lastTrack dm of None \<Rightarrow> err ErrNoTrack
     | Some track \<Rightarrow> rbind (elst_value n (dm_reader dm)) (\<lambda>(l, f).
         ok (set_track (track\<lparr>tk_elst := Some l\<rparr>) (dm\<lparr>dm_reader := f\<rparr>))))"

definition seek_payload :: "u64 \<Rightarrow> MovDemuxer \<Rightarrow> (mp4_error, MovDemuxer) result" where
  "seek_payload payloadLen dm = rbind (seek (sint payloadLen) SeekCurrent (dm_reader dm)) (\<lambda>(_, f). ok (dm\<lparr>dm_reader := f\<rparr>))"

definition need_track :: "bytes list" where
  "need_track = map tag [''tkhd'', ''mdhd'', ''stbl'', ''avc1'', ''hvc1'', ''hev1'', ''mp4a'', ''ulaw'', ''alaw'', ''Opus'', ''opus'', ''dOps'']"

text \<open>The boxes that only hold other boxes.\<close>

definition containers :: "bytes list" where
  "containers = map tag [''mdia'', ''minf'', ''sinf'', ''schi'', ''edts'', ''traf'']"

text \<open>A sample entry gives the codec of the track and, but for G.711, new extra data.\<close>

definition sample_entry :: "MP4_CODEC_TYPE \<Rightarrow> extraData option \<Rightarrow> MovDemuxer \<Rightarrow> MovDemuxer" where
  "sample_entry cid x dm = (case lastTrack dm of None \<Rightarrow> dm
     | Some track \<Rightarrow> set_track (track\<lparr>tk_cid := cid, tk_extra := (case x of None \<Rightarrow> tk_extra track | Some _ \<Rightarrow> x)\<rparr>) dm)"

definition entry_turn :: "bytes \<Rightarrow> u32 \<Rightarrow> MovDemuxer \<Rightarrow> MovDemuxer step option" where
  "entry_turn t n dm =
     (let video = (\<lambda>cid x. let dm = sample_entry cid (Some x) dm in keep dm (decodeVisualSampleEntry dm));
          audio = (\<lambda>cid x. decodeAudioSampleEntry (sample_entry cid x dm)) in
     if t = tag ''stsd'' then Some (keep dm (decodeStsdBox dm))
     else if t = tag ''encv'' then Some (keep dm (decodeVisualSampleEntry dm))
     else if t = tag ''frma'' then Some (keep dm (decodeFrmaBox n dm))
     else if t = tag ''tenc'' then Some (keep dm (decodeTencBox n dm))
     else if t = tag ''avc1'' then Some (video MP4_CODEC_H264 (H264Extra [] []))
     else if t = tag ''hvc1'' \<or> t = tag ''hev1'' then Some (video MP4_CODEC_H265 newh265ExtraData)
     else if t = tag ''enca'' then Some (decodeAudioSampleEntry dm)
     else if t = tag ''mp4a'' then Some (audio MP4_CODEC_AAC (Some (AacExtra [])))
     else if t = tag ''ulaw'' then Some (audio MP4_CODEC_G711U None)
     else if t = tag ''alaw'' then Some (audio MP4_CODEC_G711A None)
     else if t = tag ''Opus'' \<or> t = tag ''opus'' then Some (audio MP4_CODEC_OPUS (Some (OpusExtra [])))
     else if t = tag ''dOps'' then Some (keep dm (decodeDopsBox n dm))
     else if t = tag ''avcC'' then Some (keep dm (decodeAvccBox n dm))
     else if t = tag ''hvcC'' then Some (keep dm (decodeHvccBox n dm))
     else if t = tag ''esds'' then Some (keep dm (decodeEsdsBox n dm))
     else if t = tag ''wave'' then Some (keep dm (decodeWaveBox dm))
     else None)"

definition fragment_turn :: "bytes \<Rightarrow> u32 \<Rightarrow> MovDemuxer \<Rightarrow> MovDemuxer step option" where
  "fragment_turn t n dm =
     (if t = tag ''mfhd'' then Some (keep dm (decodeMfhdBox dm))
      else if t = tag ''tfhd'' then Some (keep dm (decodeTfhdBox n dm))
      else if t = tag ''tfdt'' then Some (keep dm (decodeTfdtBox n dm))
      else if t = tag ''trun'' then Some (keep dm (decodeTrunBox n dm))
      else if t = tag ''senc'' then Some (keep dm (decodeSencBox n dm))
      else if t = tag ''saiz'' then Some (keep dm (decodeSaizBox n dm))
      else if t = tag ''saio'' then Some (decodeSaioBox n dm)
      else if t = tag ''sgpd'' then Some (keep dm (decodeSgpdBox n dm))
      else None)"

definition box_turn :: "int \<Rightarrow> BasicBox \<Rightarrow> MovDemuxer \<Rightarrow> MovDemuxer step" where
  "box_turn hdrLen box dm = (let t = bx_Type box; n = bx_Size box; n32 = ucast n; payloadLen = n - word_of_int hdrLen in
     if t = tag ''ftyp'' then keep dm (decodeFtypBox n32 dm)
     else if t = tag ''free'' then keep dm (decodeFreeBox (ucast n32) dm)
     else if t = tag ''mdat'' then keep dm (rbind (seek 0 SeekCurrent (dm_reader dm)) (\<lambda>(p, f).
       seek_payload payloadLen (dm\<lparr>dm_reader := f, dm_mdatOffset := dm_mdatOffset dm @ [word_of_int p]\<rparr>)))
     else if t = tag ''moov'' then keep dm (rbind (remainingFileSize (dm_reader dm)) (\<lambda>((_, remain), f).
       if word_of_int remain < payloadLen then err (ErrMp4 ''incomplete mp4 file'') else ok (dm\<lparr>dm_reader := f\<rparr>)))
     else if t = tag ''mvhd'' then keep dm (decodeMvhd dm)
     else if t = tag ''pssh'' then keep dm (decodePsshBox n32 dm)
     else if t = tag ''trak'' then ok (dm\<lparr>dm_tracks := dm_tracks dm @ [new_track]\<rparr>)
     else if t = tag ''tkhd'' then keep dm (decodeTkhdBox dm)
     else if t = tag ''mdhd'' then keep dm (decodeMdhdBox dm)
     else if t = tag ''hdlr'' then keep dm (decodeHdlrBox n dm)
     else if t = tag ''vmhd'' then keep dm (decodeVmhdBox dm)
     else if t = tag ''smhd'' then keep dm (decodeSmhdBox dm)
     else if t = tag ''hmhd'' \<or> t = tag ''nmhd'' then keep dm (rbind (fb_Decode blank_box (dm_reader dm)) (\<lambda>(_, _, f). ok (dm\<lparr>dm_reader := f\<rparr>)))
     else if t = tag ''stbl'' then keep dm (with_last (\<lambda>track. track\<lparr>tk_stbltable := Some empty_stbl\<rparr>) dm)
     else if t = tag ''stts'' then keep dm (decodeSttsBox n dm)
     else if t = tag ''ctts'' then keep dm (decodeCttsBox n dm)
     else if t = tag ''stsc'' then keep dm (decodeStscBox n dm)
     else if t = tag ''stsz'' then keep dm (decodeStszBox n dm)
     else if t = tag ''stco'' then keep dm (decodeStcoBox n dm)
     else if t = tag ''co64'' then keep dm (decodeCo64Box n dm)
     else if t = tag ''stss'' then keep dm (decodeStssBox n dm)
     else if t = tag ''elst'' then keep dm (decodeElstBox n dm)
     else if t = tag ''mvex'' then ok (dm\<lparr>dm_isFragement := True\<rparr>)
     else if t = tag ''moof'' then keep dm (rbind (seek 0 SeekCurrent (dm_reader dm)) (\<lambda>(p, f).
       ok (dm\<lparr>dm_reader := f, dm_moofOffset := p - hdrLen, dm_dataOffset := n32 + 8\<rparr>)))
     else if t \<in> set containers then ok dm
     else (case entry_turn t n32 dm of Some r \<Rightarrow> r
       | None \<Rightarrow> (case fragment_turn t n32 dm of Some r \<Rightarrow> r
         | None \<Rightarrow> keep dm (seek_payload payloadLen dm))))"

definition read_box :: "MovDemuxer \<Rightarrow> MovDemuxer step" where
  "read_box dm = rbind (keep dm (bx_Decode (dm_reader dm))) (\<lambda>(hdrLen, box, f).
     rbind (keep dm (if bx_Size box = 0 then rbind (remainingFileSize f) (\<lambda>((_, remain), f). ok (word_of_int remain + word_of_int hdrLen, f))
       else ok (bx_Size box, f))) (\<lambda>(n, f).
     if n < word_of_int hdrLen then err (ErrMp4 ''mp4 Parser error'', dm)
     else if bx_Type box \<noteq> tag ''mdat'' \<and> bx_Type box \<noteq> tag ''moov'' \<and> n > 0xFFFFFFFF then err (ErrMp4 ''mp4: unexpected large box size'', dm)
     else if bx_Type box \<in> set need_track \<and> lastTrack dm = None then err (ErrNoTrack, dm)
     else box_turn hdrLen (box\<lparr>bx_Size := n\<rparr>) (dm\<lparr>dm_reader := f\<rparr>)))"

datatype head_state = Running MovDemuxer | Stopped mp4_error MovDemuxer

fun read_boxes :: "nat \<Rightarrow> MovDemuxer \<Rightarrow> head_state option" where
  "read_boxes 0 dm = Some (Running dm)"
| "read_boxes (Suc n) dm = (case read_box dm of
       None \<Rightarrow> None
     | Some (Inl (e, dm)) \<Rightarrow> Some (Stopped e dm)
     | Some (Inr dm) \<Rightarrow> read_boxes n dm)"

record TrackInfo =
  ti_Duration :: u32
  ti_TrackId :: int
  ti_Cid :: MP4_CODEC_TYPE
  ti_Height :: u32
  ti_Width :: u32
  ti_SampleRate :: u32
  ti_SampleSize :: u16
  ti_SampleCount :: u32
  ti_ChannelCount :: byte
  ti_Timescale :: u32
  ti_StartDts :: u64
  ti_EndDts :: u64

text \<open>A division by a time scale of zero panics.\<close>

definition trackEndDts :: "mp4track \<Rightarrow> u64 option" where
  "trackEndDts track = do {
     let samples = tk_samplelist track;
     s \<leftarrow> idx samples (glen samples - 1);
     let lst = se_dts s;
     let toMs = (\<lambda>v. if tk_timescale track = 0 then None else Some (v * 1000 div ucast (tk_timescale track)));
     if ucast (tk_duration track) > lst then toMs (ucast (tk_duration track))
     else do {
       delta \<leftarrow> (if glen samples > 1 then do { p \<leftarrow> idx samples (glen samples - 2); Some (lst - se_dts p) } else Some 0);
       toMs (lst + delta)
     }
   }"

definition track_info :: "mp4track \<Rightarrow> TrackInfo option" where
  "track_info track = do {
     (start, endd) \<leftarrow> (case tk_samplelist track of [] \<Rightarrow> Some (0, 0)
       | s # _ \<Rightarrow> if tk_timescale track = 0 then None else do {
           e \<leftarrow> trackEndDts track;
           Some (se_dts s * 1000 div ucast (tk_timescale track), e)
         });
     Some \<lparr>ti_Duration = tk_duration track, ti_TrackId = uint (tk_trackId track), ti_Cid = tk_cid track, ti_Height = tk_height track,
       ti_Width = tk_width track, ti_SampleRate = tk_sampleRate track, ti_SampleSize = ucast (tk_sampleBits track),
       ti_SampleCount = word_of_nat (length (tk_samplelist track)), ti_ChannelCount = tk_chanelCount track, ti_Timescale = tk_timescale track, ti_StartDts = start, ti_EndDts = endd\<rparr>
   }"

primrec track_infos :: "mp4track list \<Rightarrow> TrackInfo list option" where
  "track_infos [] = Some []"
| "track_infos (t # ts) = do { i \<leftarrow> track_info t; is \<leftarrow> track_infos ts; Some (i # is) }"

definition buildSampleList :: "MovDemuxer \<Rightarrow> (mp4_error, MovDemuxer) result" where
  "buildSampleList dm = rbind (remainingFileSize (dm_reader dm)) (\<lambda>((cur, remain), f).
     rbind (build_tracks (dm_Timescale dm) (word_of_int (cur + remain)) (dm_tracks dm)) (\<lambda>ts.
     ok (dm\<lparr>dm_reader := f, dm_tracks := ts\<rparr>)))"

text \<open>What \<open>ReadHead\<close> does when the loop has stopped.\<close>

definition head_done :: "mp4_error \<Rightarrow> MovDemuxer \<Rightarrow> (mp4_error, TrackInfo list \<times> MovDemuxer) result" where
  "head_done e dm =
     (if e \<noteq> Mp4Read EOF then err e
      else if dm_tracks dm \<noteq> [] \<and> dm_Timescale dm = 0 then err (ErrMp4 ''mp4: missing or invalid mvhd box (timescale is 0)'')
      else if list_ex (\<lambda>t. tk_timescale t = 0) (dm_tracks dm) then err (ErrMp4 ''mp4: track has no mdhd box or a zero timescale'')
      else rbind (if dm_isFragement dm then ok dm else buildSampleList dm) (\<lambda>dm.
        rbind (must (track_infos (dm_tracks dm))) (\<lambda>infos.
        ok (infos, dm\<lparr>dm_readSampleIdx := replicate (length (dm_tracks dm)) 0\<rparr>))))"

definition ReadHead :: "nat \<Rightarrow> MovDemuxer \<Rightarrow> (mp4_error, TrackInfo list \<times> MovDemuxer) result option" where
  "ReadHead n dm = (case read_boxes n dm of
       Some (Stopped e dm) \<Rightarrow> Some (head_done e dm)
     | Some (Running _) \<Rightarrow> None
     | None \<Rightarrow> Some None)"

section \<open>Samples\<close>

text \<open>The choice of \<open>ReadPacket\<close>: the track whose next sample is the first in movie time.\<close>

fun earliest :: "u32 \<Rightarrow> nat \<Rightarrow> (mp4track \<times> u32) list \<Rightarrow> (nat \<times> mp4track \<times> sampleEntry) option \<Rightarrow> (mp4_error, (nat \<times> mp4track \<times> sampleEntry) option) result" where
  "earliest movie i [] best = ok best"
| "earliest movie i ((track, k) # ts) best =
     (if int (length (tk_samplelist track)) \<le> uint k then earliest movie (i + 1) ts best
      else if tk_timescale track = 0 then err (ErrMp4 ''mp4: track has zero timescale'')
      else let s = tk_samplelist track ! unat k in (case best of
          None \<Rightarrow> earliest movie (i + 1) ts (Some (i, track, s))
        | Some (_, t, m) \<Rightarrow>
            if se_dts m * ucast movie div ucast (tk_timescale t) > se_dts s * ucast movie div ucast (tk_timescale track)
            then earliest movie (i + 1) ts (Some (i, track, s))
            else earliest movie (i + 1) ts best))"

text \<open>
  One turn of \<open>ReadPacket\<close> up to the processing of the codec: the track's number, the sample and
  its bytes.  The tracks and the list of positions have one length.
\<close>

definition read_sample :: "MovDemuxer \<Rightarrow> (mp4_error, (nat \<times> mp4track \<times> sampleEntry \<times> bytes) \<times> MovDemuxer) result" where
  "read_sample dm = (if length (dm_readSampleIdx dm) < length (dm_tracks dm) then None
     else rbind (earliest (dm_Timescale dm) 0 (zip (dm_tracks dm) (dm_readSampleIdx dm)) None) (\<lambda>best. case best of
         None \<Rightarrow> err (Mp4Read EOF)
       | Some (i, track, s) \<Rightarrow> rbind (seek (sint (se_offset s)) SeekStart (dm_reader dm)) (\<lambda>(_, f).
           if uint (se_size s) > maxBoxPayloadSize then err (ErrMp4 ''mp4: sample size exceeds limit'')
           else rbind (read_full (uint (se_size s)) f) (\<lambda>(sample, f).
             ok ((i, track, s, sample), dm\<lparr>dm_reader := f, dm_readSampleIdx := (dm_readSampleIdx dm)[i := dm_readSampleIdx dm ! i + 1]\<rparr>)))))"

record SyncSample =
  sy_Pts :: u64
  sy_Dts :: u64
  sy_Size :: u64
  sy_Offset :: u64

primrec sync_samples :: "mp4track \<Rightarrow> u32 list \<Rightarrow> (mp4_error, SyncSample list) result" where
  "sync_samples track [] = ok []"
| "sync_samples track (num # ns) =
     (if num = 0 \<or> unat num > length (tk_samplelist track) then err (ErrMp4 ''mp4: stss sample number out of range'')
      else let s = tk_samplelist track ! unat (num - 1); ts = ucast (tk_timescale track) in
        rbind (sync_samples track ns) (\<lambda>rest.
        ok (\<lparr>sy_Pts = se_pts s * 1000 div ts, sy_Dts = se_dts s * 1000 div ts, sy_Size = se_size s, sy_Offset = se_offset s\<rparr> # rest)))"

definition GetSyncTable :: "u32 \<Rightarrow> MovDemuxer \<Rightarrow> (mp4_error, SyncSample list) result" where
  "GetSyncTable trackId dm = (case filter (\<lambda>t. tk_trackId t = trackId) (dm_tracks dm) of
       [] \<Rightarrow> err (ErrMp4 ''not found track'')
     | ts \<Rightarrow> let track = last ts in (case Option.bind (tk_stbltable track) sb_stss of
         None \<Rightarrow> err (ErrMp4 ''not found stss box'')
       | Some nums \<Rightarrow> if tk_timescale track = 0 then err (ErrMp4 ''mp4: track has zero timescale'') else sync_samples track nums))"

primrec best_sync :: "int \<Rightarrow> u32 list \<Rightarrow> int \<Rightarrow> int" where
  "best_sync i [] best = best"
| "best_sync i (num # ns) best = best_sync i ns
     (if num \<noteq> 0 \<and> uint (num - 1) \<le> i \<and> uint (num - 1) > best then uint (num - 1) else best)"

definition syncSampleAtOrBefore :: "mp4track \<Rightarrow> int \<Rightarrow> int" where
  "syncSampleAtOrBefore track i = (case Option.bind (tk_stbltable track) sb_stss of
       None \<Rightarrow> i
     | Some nums \<Rightarrow> if nums = [] then i
         else let best = best_sync i nums (- 1) in if best < 0 then i else best)"

primrec first_at :: "u64 \<Rightarrow> u32 \<Rightarrow> nat \<Rightarrow> sampleEntry list \<Rightarrow> nat" where
  "first_at dts timescale j [] = j"
| "first_at dts timescale j (s # ss) = (if se_dts s * 1000 div ucast timescale \<ge> dts then j else first_at dts timescale (j + 1) ss)"

definition seek_track :: "u64 \<Rightarrow> mp4track \<Rightarrow> u32 \<Rightarrow> mp4track \<times> u32" where
  "seek_track dts track k =
     (if tk_timescale track = 0 then (track, k)
      else let i = int (first_at dts (tk_timescale track) 0 (tk_samplelist track));
               i = (if isVideo (tk_cid track) then syncSampleAtOrBefore track i else i)
        in (track\<lparr>tk_paramSetCache := []\<rparr>, word_of_int i))"

definition SeekTime :: "u64 \<Rightarrow> MovDemuxer \<Rightarrow> MovDemuxer option" where
  "SeekTime dts dm = (if length (dm_readSampleIdx dm) < length (dm_tracks dm) then None
     else let ts = map2 (seek_track dts) (dm_tracks dm) (dm_readSampleIdx dm) in
       Some (dm\<lparr>dm_tracks := map fst ts, dm_readSampleIdx := map snd ts @ drop (length ts) (dm_readSampleIdx dm)\<rparr>))"

section \<open>The tables are read into the track\<close>

definition stbl_dm :: "MovDemuxer \<Rightarrow> mp4track \<Rightarrow> movstbl \<Rightarrow> mov_file \<Rightarrow> MovDemuxer" where
  "stbl_dm dm track t f = dm\<lparr>dm_reader := f, dm_tracks := butlast (dm_tracks dm) @ [track\<lparr>tk_stbltable := Some t\<rparr>]\<rparr>"

lemma stbl_dm_sel [simp]: "dm_reader (stbl_dm dm track t f) = f" "lastTrack (stbl_dm dm track t f) = Some (track\<lparr>tk_stbltable := Some t\<rparr>)"
  "lastStbl (stbl_dm dm track t f) = ok (track\<lparr>tk_stbltable := Some t\<rparr>, t)"
  by (simp_all add: stbl_dm_def lastTrack_def lastStbl_def)

lemma into_stbl_read:
  "dec f' = ok (v, f'') \<Longrightarrow> into_stbl put dec ((stbl_dm dm track t f)\<lparr>dm_reader := f'\<rparr>) = ok (stbl_dm dm track (put t v) f'')"
  by (simp add: into_stbl_def stbl_dm_def lastStbl_def lastTrack_def set_track_def)

context box_codec
begin

lemma make_size:
  assumes "good x" and "make x = Some b" shows "10 \<le> length b \<and> length b < 2 ^ 32"
  using makes [OF assms(1)] assms(2) by auto

lemma read_box_table:
  assumes "good x" and "make x = Some b" and "ahead f (b @ r)" and "boxtype x \<notin> set need_track"
    and turn: "\<And>n utype dm. box_turn 8 \<lparr>bx_Size = n, bx_Type = boxtype x, bx_UserType = utype\<rparr> dm = keep dm (into_stbl put (decode (boxtype x) n) dm)"
  shows "read_box (stbl_dm dm track t f) = ok (stbl_dm dm track (put t (seen x)) (skip (glen b) f)) \<and> ahead (skip (glen b) f) r"
proof -
  obtain box where box: "bx_Decode f = ok (8, box, skip 8 f)" "bx_Size box = word_of_nat (length b)" "bx_Type box = boxtype x"
    "decode (bx_Type box) (bx_Size box) (skip 8 f) = ok (seen x, skip (glen b) f)" "ahead (skip (glen b) f) r"
    using box_read [OF assms(1-3)] by blast
  have len: "10 \<le> length b" "length b < 2 ^ 32" using make_size [OF assms(1,2)] by simp_all
  then have u: "unat (bx_Size box) = length b" unfolding box(2) by (intro small_u64) simp
  have "bx_Size box \<noteq> 0" "\<not> bx_Size box < 8" "\<not> 0xFFFFFFFF < bx_Size box" using len u by (auto simp: word_less_nat_alt)
  moreover have "box_turn 8 (box\<lparr>bx_Size := bx_Size box\<rparr>) ((stbl_dm dm track t f)\<lparr>dm_reader := skip 8 f\<rparr>) =
      ok (stbl_dm dm track (put t (seen x)) (skip (glen b) f))"
    using turn [of "bx_Size box" "bx_UserType box"] into_stbl_read [of "decode (bx_Type box) (bx_Size box)", OF box(4)] box(3) by (cases box) simp
  ultimately show ?thesis using box assms(4) by (simp add: read_box_def)
qed

end

lemma table_turns:
  "box_turn 8 \<lparr>bx_Size = n, bx_Type = tag ''stts'', bx_UserType = u\<rparr> dm = keep dm (decodeSttsBox n dm)"
  "box_turn 8 \<lparr>bx_Size = n, bx_Type = tag ''ctts'', bx_UserType = u\<rparr> dm = keep dm (decodeCttsBox n dm)"
  "box_turn 8 \<lparr>bx_Size = n, bx_Type = tag ''stsc'', bx_UserType = u\<rparr> dm = keep dm (decodeStscBox n dm)"
  "box_turn 8 \<lparr>bx_Size = n, bx_Type = tag ''stsz'', bx_UserType = u\<rparr> dm = keep dm (decodeStszBox n dm)"
  "box_turn 8 \<lparr>bx_Size = n, bx_Type = tag ''stco'', bx_UserType = u\<rparr> dm = keep dm (decodeStcoBox n dm)"
  "box_turn 8 \<lparr>bx_Size = n, bx_Type = tag ''co64'', bx_UserType = u\<rparr> dm = keep dm (decodeCo64Box n dm)"
  "box_turn 8 \<lparr>bx_Size = n, bx_Type = tag ''stss'', bx_UserType = u\<rparr> dm = keep dm (decodeStssBox n dm)"
  by (simp_all add: box_turn_def tag_def of_char_eq_iff)

lemma tables_no_track:
  "tag ''stts'' \<notin> set need_track" "tag ''ctts'' \<notin> set need_track" "tag ''stsc'' \<notin> set need_track" "tag ''stsz'' \<notin> set need_track"
  "tag ''stco'' \<notin> set need_track" "tag ''co64'' \<notin> set need_track" "tag ''stss'' \<notin> set need_track"
  by (simp_all add: need_track_def tag_def of_char_eq_iff)

lemma stsc_runs_le: "length (stsc_runs p cs) \<le> length cs"
  by (induction cs arbitrary: p) (auto intro: le_SucI)

lemma key_numbers_le: "length (key_numbers i ss) \<le> length ss"
  by (induction ss arbitrary: i) (auto intro: le_SucI)

text \<open>The offsets of the chunks are offsets of samples, in their order.\<close>

lemma chunk_offsets:
  "chunk_run.runs cs \<Longrightarrow> map mc_chunkoffset cs = concat (map (\<lambda>p. case p of None \<Rightarrow> [] | Some off \<Rightarrow> [off]) (chunk_run.outs cs))"
proof (induction cs)
  case (Cons c cs)
  have "concat (map (\<lambda>p. case p of None \<Rightarrow> [] | Some off \<Rightarrow> [off]) (replicate m None)) = []" for m :: nat by (induction m) simp_all
  moreover have "chunk_out c = Some (mc_chunkoffset c) # replicate (unat (mc_samplenum c) - 1) None"
  proof -
    have "chunk_out c \<noteq> []" using Cons.prems by simp
    then show ?thesis by (auto simp: chunk_out_def)
  qed
  ultimately show ?case using Cons by simp
qed simp

lemma place_offsets:
  assumes "sorted (map se_offset ss)"
  shows "sorted (concat (map (\<lambda>p. case p of None \<Rightarrow> [] | Some off \<Rightarrow> [off]) (places prev ss))) \<and>
    set (concat (map (\<lambda>p. case p of None \<Rightarrow> [] | Some off \<Rightarrow> [off]) (places prev ss))) \<subseteq> se_offset ` set ss"
  using assms
proof (induction ss arbitrary: prev)
  case (Cons s ss)
  let ?offs = "concat (map (\<lambda>p. case p of None \<Rightarrow> [] | Some off \<Rightarrow> [off]) (places (Some s) ss))"
  have ih: "sorted ?offs" "set ?offs \<subseteq> se_offset ` set ss" using Cons by simp_all
  have "\<forall>off\<in>set ?offs. se_offset s \<le> off" using ih(2) Cons.prems by auto
  moreover have "place prev s = None \<or> place prev s = Some (se_offset s)" by (auto simp: place_def split: option.split)
  ultimately show ?case using ih by (elim disjE) (auto simp del: set_concat)
qed simp

lemma stco_good_made:
  assumes "loop_done ss st" and "sorted (map se_offset ss)" and "length ss * 12 \<le> 0x10000000"
  shows "stco_good \<lparr>stco_entryCount = ss_ckn st, stco_chunkOffsetlist = map mc_chunkoffset (ss_chunks st)\<rparr>"
proof -
  let ?l = "map mc_chunkoffset (ss_chunks st)"
  have "chunk_run.runs (ss_chunks st)" "chunk_run.outs (ss_chunks st) = places None ss" using assms(1) by (simp_all add: loop_done_def chunks_say_def)
  then have "sorted ?l" using chunk_offsets place_offsets [OF assms(2)] by metis
  then have "last ?l \<le> 0xFFFFFFFF \<Longrightarrow> list_all (\<lambda>v. v \<le> 0xFFFFFFFF) ?l" if "?l \<noteq> []"
    using that by (cases ?l rule: rev_cases) (auto simp: list_all_iff sorted_append intro: order.trans)
  then have "stco_large \<lparr>stco_entryCount = ss_ckn st, stco_chunkOffsetlist = ?l\<rparr> \<or> list_all (\<lambda>v. v \<le> 0xFFFFFFFF) ?l"
    by (cases "?l = []"; cases "last ?l \<le> 0xFFFFFFFF") (simp_all add: stco_large_def not_le)
  then show ?thesis using loop_lengths(3) [OF assms(1)] assms(1,3) by (simp add: stco_good_def loop_done_def chunks_say_def)
qed

definition stbl_parts :: "MP4_CODEC_TYPE \<Rightarrow> sampleEntry list \<Rightarrow> stbl_state \<Rightarrow> bytes \<times> bytes \<times> bytes \<times> bytes \<times> bytes \<times> bytes \<Rightarrow> bool" where
  "stbl_parts cid ss st = (\<lambda>(b1, b2, b3, b4, b5, b6).
     makeStts \<lparr>stts_entryCount = ss_sttsCount st, stts_entrys = ss_stts st\<rparr> = Some b1 \<and>
     (if isVideo cid then makeCtts \<lparr>ctts_version = ss_version st, ctts_entryCount = ss_cttsCount st, ctts_entrys = ss_ctts st\<rparr> = Some b2 else b2 = []) \<and>
     makeStsc (make_stsc (ss_chunks st)) = Some b3 \<and> makeStsz (make_stsz (ss_sameSize st) ss) = Some b4 \<and>
     makeStco \<lparr>stco_entryCount = ss_ckn st, stco_chunkOffsetlist = map mc_chunkoffset (ss_chunks st)\<rparr> = Some b5 \<and>
     (if isVideo cid then stss_make (key_numbers 0 ss) = Some b6 else b6 = []))"

lemma tables_good:
  assumes "loop_done ss st" and "table_samples cid ss" and "sorted (map se_offset ss)"
  shows "stts_good \<lparr>stts_entryCount = ss_sttsCount st, stts_entrys = ss_stts st\<rparr>"
    and "ctts_good \<lparr>ctts_version = ss_version st, ctts_entryCount = ss_cttsCount st, ctts_entrys = ss_ctts st\<rparr>"
    and "stsc_good (make_stsc (ss_chunks st))"
    and "stsz_good (make_stsz (ss_sameSize st) ss)"
    and "length (key_numbers 0 ss) * 4 \<le> 0x10000000"
proof -
  have len: "length ss * 12 \<le> 0x10000000" and ne: "ss \<noteq> []" and fits: "\<forall>s\<in>set ss. se_size s \<le> 0xFFFFFFFF"
    using assms(2) by (auto simp: table_samples_def)
  note l = loop_lengths [OF assms(1)]
  show "stts_good \<lparr>stts_entryCount = ss_sttsCount st, stts_entrys = ss_stts st\<rparr>"
    using l(1) len assms(1) by (simp add: stts_good_def loop_done_def stts_says_def)
  show "ctts_good \<lparr>ctts_version = ss_version st, ctts_entryCount = ss_cttsCount st, ctts_entrys = ss_ctts st\<rparr>"
    using l(2) len assms(1) by (simp add: ctts_good_def loop_done_def ctts_says_def)
  have r: "length (stsc_runs None (ss_chunks st)) \<le> length (ss_chunks st)" by (rule stsc_runs_le)
  then have "unat (word_of_nat (length (stsc_runs None (ss_chunks st))) :: u32) = length (stsc_runs None (ss_chunks st))"
    using l(3) len by (simp add: unat_of_nat)
  then show "stsc_good (make_stsc (ss_chunks st))" using r l(3) len by (simp add: stsc_good_def make_stsc_def Let_def)
  show "stsz_good (make_stsz (ss_sameSize st) ss)"
  proof (cases "ss_sameSize st \<and> se_size (hd ss) \<noteq> 0")
    case True
    have "ucast (ucast (se_size (hd ss)) :: u32) = se_size (hd ss)" using ne fits by (simp add: small_offset)
    then have "(ucast (se_size (hd ss)) :: u32) \<noteq> 0" using True by (metis unsigned_0)
    then show ?thesis using True by (simp add: stsz_good_def make_stsz_def)
  qed (use len in \<open>auto simp: stsz_good_def make_stsz_def Let_def\<close>)
  show "length (key_numbers 0 ss) * 4 \<le> 0x10000000" using key_numbers_le [of 0 ss] len by simp
qed

lemma stbl_parts_made:
  assumes "loop_done ss st" and "table_samples cid ss" and "sorted (map se_offset ss)"
  shows "\<exists>bs. stbl_parts cid ss st bs"
proof -
  note g = tables_good [OF assms]
  have len: "length ss * 12 \<le> 0x10000000" using assms(2) by (simp add: table_samples_def)
  show ?thesis
    using stts_codec.makes [OF g(1)] ctts_codec.makes [OF g(2)] stsc_codec.makes [OF g(3)] stsz_codec.makes [OF g(4)]
      stco_codec.makes [OF stco_good_made [OF assms(1,3) len]] stss_codec.makes [OF g(5)]
    by (cases "isVideo cid") (fastforce simp: stbl_parts_def)+
qed

lemma read_boxes_step: "read_box dm = ok dm' \<Longrightarrow> read_boxes n dm' = Some (Running dm'') \<Longrightarrow> read_boxes (Suc n) dm = Some (Running dm'')"
  by simp

definition made_tables :: "MP4_CODEC_TYPE \<Rightarrow> sampleEntry list \<Rightarrow> stbl_state \<Rightarrow> movstbl" where
  "made_tables cid ss st = (seen_tables (loop_tables cid ss st))\<lparr>sb_stss := if isVideo cid then Some (key_numbers 0 ss) else None\<rparr>"

lemma tables_read:
  assumes "loop_done ss st" and "table_samples cid ss" and "sorted (map se_offset ss)"
    and parts: "stbl_parts cid ss st (b1, b2, b3, b4, b5, b6)" and "ahead f (b1 @ b2 @ b3 @ b4 @ b5 @ b6 @ r)"
  shows "\<exists>n. read_boxes n (stbl_dm dm track empty_stbl f) =
    Some (Running (stbl_dm dm track (made_tables cid ss st) (skip (glen (b1 @ b2 @ b3 @ b4 @ b5 @ b6)) f)))"
proof -
  note g = tables_good [OF assms(1-3)]
  have len: "length ss * 12 \<le> 0x10000000" using assms(2) by (simp add: table_samples_def)
  note g5 = stco_good_made [OF assms(1,3) len]
  let ?stts = "\<lparr>stts_entryCount = ss_sttsCount st, stts_entrys = ss_stts st\<rparr>"
  let ?ctts = "\<lparr>ctts_version = ss_version st, ctts_entryCount = ss_cttsCount st, ctts_entrys = ss_ctts st\<rparr>"
  let ?stco = "\<lparr>stco_entryCount = ss_ckn st, stco_chunkOffsetlist = map mc_chunkoffset (ss_chunks st)\<rparr>"
  have 1: "read_box (stbl_dm dm track t f) = ok (stbl_dm dm track (t\<lparr>sb_stts := Some ?stts\<rparr>) (skip (glen b1) f)) \<and> ahead (skip (glen b1) f) r"
    if "ahead f (b1 @ r)" for t f r
    by (rule stts_codec.read_box_table [OF g(1) _ that tables_no_track(1)])
      (use parts in \<open>simp_all add: stbl_parts_def table_turns decodeSttsBox_def\<close>)
  have 2: "read_box (stbl_dm dm track t f) = ok (stbl_dm dm track (t\<lparr>sb_ctts := Some ?ctts\<rparr>) (skip (glen b2) f)) \<and> ahead (skip (glen b2) f) r"
    if "isVideo cid" "ahead f (b2 @ r)" for t f r
    by (rule ctts_codec.read_box_table [OF g(2) _ that(2) tables_no_track(2)])
      (use parts that in \<open>simp_all add: stbl_parts_def table_turns decodeCttsBox_def\<close>)
  have 3: "read_box (stbl_dm dm track t f) = ok (stbl_dm dm track (t\<lparr>sb_stsc := Some (stsc_seen (make_stsc (ss_chunks st)))\<rparr>) (skip (glen b3) f)) \<and>
      ahead (skip (glen b3) f) r" if "ahead f (b3 @ r)" for t f r
    by (rule stsc_codec.read_box_table [OF g(3) _ that tables_no_track(3)])
      (use parts in \<open>simp_all add: stbl_parts_def table_turns decodeStscBox_def\<close>)
  have 4: "read_box (stbl_dm dm track t f) = ok (stbl_dm dm track (t\<lparr>sb_stsz := Some (make_stsz (ss_sameSize st) ss)\<rparr>) (skip (glen b4) f)) \<and>
      ahead (skip (glen b4) f) r" if "ahead f (b4 @ r)" for t f r
    by (rule stsz_codec.read_box_table [OF g(4) _ that tables_no_track(4)])
      (use parts in \<open>simp_all add: stbl_parts_def table_turns decodeStszBox_def\<close>)
  have 5: "read_box (stbl_dm dm track t f) = ok (stbl_dm dm track (t\<lparr>sb_stco := Some ?stco\<rparr>) (skip (glen b5) f)) \<and> ahead (skip (glen b5) f) r"
    if "ahead f (b5 @ r)" for t f r
    by (rule stco_codec.read_box_table [OF g5 _ that])
      (use parts tables_no_track(5,6) in \<open>auto simp: stbl_parts_def table_turns tables_not_uuid decodeStcoBox_def decodeCo64Box_def\<close>)
  have 6: "read_box (stbl_dm dm track t f) = ok (stbl_dm dm track (t\<lparr>sb_stss := Some (key_numbers 0 ss)\<rparr>) (skip (glen b6) f)) \<and> ahead (skip (glen b6) f) r"
    if "isVideo cid" "ahead f (b6 @ r)" for t f r
    by (rule stss_codec.read_box_table [OF g(5) _ that(2) tables_no_track(7)])
      (use parts that in \<open>simp_all add: stbl_parts_def table_turns decodeStssBox_def\<close>)
  show ?thesis
  proof (cases "isVideo cid")
    case True
    note s1 = 1 [OF assms(5), of empty_stbl]
    note s2 = 2 [OF True conjunct2 [OF s1]]
    note s3 = 3 [OF conjunct2 [OF s2]]
    note s4 = 4 [OF conjunct2 [OF s3]]
    note s5 = 5 [OF conjunct2 [OF s4]]
    note s6 = 6 [OF True conjunct2 [OF s5]]
    have "read_boxes (Suc (Suc (Suc (Suc (Suc (Suc 0)))))) (stbl_dm dm track empty_stbl f) =
      Some (Running (stbl_dm dm track (made_tables cid ss st) (skip (glen (b1 @ b2 @ b3 @ b4 @ b5 @ b6)) f)))"
      by (rule read_boxes_step [OF conjunct1 [OF s1]] read_boxes_step [OF conjunct1 [OF s2]] read_boxes_step [OF conjunct1 [OF s3]]
          read_boxes_step [OF conjunct1 [OF s4]] read_boxes_step [OF conjunct1 [OF s5]] read_boxes_step [OF conjunct1 [OF s6]])+
        (simp add: made_tables_def seen_tables_def loop_tables_def empty_stbl_def True add_ac)
    then show ?thesis by blast
  next
    case False
    then have e: "b2 = []" "b6 = []" using parts by (simp_all add: stbl_parts_def)
    have "ahead f (b1 @ b3 @ b4 @ b5 @ r)" using assms(5) e by simp
    note s1 = 1 [OF this, of empty_stbl]
    note s3 = 3 [OF conjunct2 [OF s1]]
    note s4 = 4 [OF conjunct2 [OF s3]]
    note s5 = 5 [OF conjunct2 [OF s4]]
    have "read_boxes (Suc (Suc (Suc (Suc 0)))) (stbl_dm dm track empty_stbl f) =
      Some (Running (stbl_dm dm track (made_tables cid ss st) (skip (glen (b1 @ b2 @ b3 @ b4 @ b5 @ b6)) f)))"
      by (rule read_boxes_step [OF conjunct1 [OF s1]] read_boxes_step [OF conjunct1 [OF s3]]
          read_boxes_step [OF conjunct1 [OF s4]] read_boxes_step [OF conjunct1 [OF s5]])+
        (simp add: made_tables_def seen_tables_def loop_tables_def empty_stbl_def False e add_ac)
    then show ?thesis by blast
  qed
qed

lemma stbl_tables_made:
  assumes "loop_done ss st" and "ss \<noteq> []" and "length ss < 2 ^ 32" and "stbl_parts (tk_cid track) ss st (b1, b2, b3, b4, b5, b6)"
    and "tk_samplelist track = ss" and "tk_stbltable track = Some (loop_tables (tk_cid track) ss st)"
  shows "stbl_tables track = Some (b1 @ b2 @ b3 @ b4 @ b5 @ b6)"
proof -
  have "stts_run.outs (ss_stts st) = deltas (lastSampleDelta ss) ss" using assms(1) by (simp add: loop_done_def stts_says_def)
  moreover have "deltas (lastSampleDelta ss) ss \<noteq> []" using assms(2) by (metis length_0_conv length_says(1))
  ultimately have "ss_stts st \<noteq> []" by auto
  moreover have "unat (ss_sttsCount st) = length (ss_stts st)"
    using loop_lengths(1) [OF assms(1)] assms(1,3) by (simp add: loop_done_def stts_says_def unat_of_nat)
  ultimately have "0 < ss_sttsCount st" by (simp add: word_less_nat_alt)
  then show ?thesis using assms(4) by (auto simp: stbl_tables_def assms(5,6) loop_tables_def made_def stbl_parts_def makeStss_def)
qed

section \<open>Every sample is read once, in the order of time\<close>

definition sample_in :: "bytes \<Rightarrow> sampleEntry \<Rightarrow> bool" where
  "sample_in file s \<longleftrightarrow> unat (se_offset s) + unat (se_size s) \<le> length file \<and> unat (se_size s) \<le> 0x10000000 \<and> se_offset s < 2 ^ 63"

definition sample_data :: "bytes \<Rightarrow> sampleEntry \<Rightarrow> bytes" where
  "sample_data file s = take (unat (se_size s)) (drop (unat (se_offset s)) file)"

definition samples_ready :: "MovDemuxer \<Rightarrow> bool" where
  "samples_ready dm \<longleftrightarrow> length (dm_readSampleIdx dm) = length (dm_tracks dm) \<and>
     (\<forall>t\<in>set (dm_tracks dm). tk_timescale t \<noteq> 0 \<and> length (tk_samplelist t) < 2 ^ 32 \<and> (\<forall>s\<in>set (tk_samplelist t). sample_in (mf_bytes (dm_reader dm)) s))"

definition left :: "MovDemuxer \<Rightarrow> nat \<Rightarrow> sampleEntry list" where
  "left dm i = drop (unat (dm_readSampleIdx dm ! i)) (tk_samplelist (dm_tracks dm ! i))"

definition movie_time :: "u32 \<Rightarrow> mp4track \<Rightarrow> sampleEntry \<Rightarrow> u64" where
  "movie_time movie t s = se_dts s * ucast movie div ucast (tk_timescale t)"

primrec candidate :: "nat \<Rightarrow> (mp4track \<times> u32) list \<Rightarrow> nat \<times> mp4track \<times> sampleEntry \<Rightarrow> bool" where
  "candidate i [] x \<longleftrightarrow> False"
| "candidate i (z # zs) x \<longleftrightarrow> (unat (snd z) < length (tk_samplelist (fst z)) \<and> x = (i, fst z, tk_samplelist (fst z) ! unat (snd z))) \<or>
     candidate (i + 1) zs x"

lemma candidate_nth: "candidate i zs (n, t, s) \<longleftrightarrow> (\<exists>j < length zs. n = i + j \<and> t = fst (zs ! j) \<and>
    unat (snd (zs ! j)) < length (tk_samplelist t) \<and> s = tk_samplelist t ! unat (snd (zs ! j)))"
proof (induction zs arbitrary: i)
  case (Cons z zs)
  show ?case unfolding candidate.simps Cons
    by (auto simp: less_Suc_eq_0_disj)
qed simp

lemma earliest_spec:
  assumes "\<forall>z\<in>set zs. tk_timescale (fst z) \<noteq> 0"
  shows "\<exists>r. earliest movie i zs best = ok r \<and>
    (case r of None \<Rightarrow> best = None \<and> (\<forall>x. \<not> candidate i zs x)
     | Some x \<Rightarrow> (best = Some x \<or> candidate i zs x) \<and>
         (\<forall>y. best = Some y \<or> candidate i zs y \<longrightarrow> movie_time movie (fst (snd x)) (snd (snd x)) \<le> movie_time movie (fst (snd y)) (snd (snd y))))"
  using assms
proof (induction zs arbitrary: i best)
  case Nil
  then show ?case by (cases best) auto
next
  case (Cons z zs)
  obtain t k where z: "z = (t, k)" by (cases z)
  let ?s = "tk_samplelist t ! unat k"
  have ih: "\<exists>r. earliest movie (i + 1) zs b = ok r \<and>
      (case r of None \<Rightarrow> b = None \<and> (\<forall>x. \<not> candidate (i + 1) zs x)
       | Some x \<Rightarrow> (b = Some x \<or> candidate (i + 1) zs x) \<and>
           (\<forall>y. b = Some y \<or> candidate (i + 1) zs y \<longrightarrow> movie_time movie (fst (snd x)) (snd (snd x)) \<le> movie_time movie (fst (snd y)) (snd (snd y))))" for b
    using Cons.prems by (intro Cons.IH) simp
  show ?case
  proof (cases "unat k < length (tk_samplelist t)")
    case False
    then have "int (length (tk_samplelist t)) \<le> uint k" by (simp only: uint_nat not_less of_nat_le_iff)
    then have e: "earliest movie i (z # zs) best = earliest movie (i + 1) zs best" by (simp add: z)
    show ?thesis unfolding e using ih [of best] False by (simp add: z cong: option.case_cong)
  next
    case True
    then have k: "\<not> int (length (tk_samplelist t)) \<le> uint k" by (simp only: uint_nat not_le of_nat_less_iff)
    have ts: "tk_timescale t \<noteq> 0" using Cons.prems by (simp add: z)
    let ?best = "case best of None \<Rightarrow> Some (i, t, ?s)
        | Some (_, u, m) \<Rightarrow> if movie_time movie u m > movie_time movie t ?s then Some (i, t, ?s) else best"
    have e: "earliest movie i (z # zs) best = earliest movie (i + 1) zs ?best"
      using k ts by (auto simp: z Let_def movie_time_def split: option.split)
    obtain r where r: "earliest movie (i + 1) zs ?best = ok r"
      "case r of None \<Rightarrow> ?best = None \<and> (\<forall>x. \<not> candidate (i + 1) zs x)
       | Some x \<Rightarrow> (?best = Some x \<or> candidate (i + 1) zs x) \<and>
           (\<forall>y. ?best = Some y \<or> candidate (i + 1) zs y \<longrightarrow> movie_time movie (fst (snd x)) (snd (snd x)) \<le> movie_time movie (fst (snd y)) (snd (snd y)))"
      using ih [of ?best] by blast
    have "?best \<noteq> None" by (auto split: option.splits)
    then obtain x where x: "r = Some x" using r(2) by (cases r) auto
    have rx: "?best = Some x \<or> candidate (i + 1) zs x"
      "\<And>y. ?best = Some y \<or> candidate (i + 1) zs y \<Longrightarrow> movie_time movie (fst (snd x)) (snd (snd x)) \<le> movie_time movie (fst (snd y)) (snd (snd y))"
      using r(2) unfolding x option.case by blast+
    obtain b where b: "?best = Some b" "b = (i, t, ?s) \<or> best = Some b" "movie_time movie (fst (snd b)) (snd (snd b)) \<le> movie_time movie t ?s"
      "\<forall>y. best = Some y \<longrightarrow> movie_time movie (fst (snd b)) (snd (snd b)) \<le> movie_time movie (fst (snd y)) (snd (snd y))"
    proof (cases best)
      case None
      show ?thesis by (rule that [of "(i, t, ?s)"]) (simp_all add: None)
    next
      case (Some p)
      obtain n u m where p: "p = (n, u, m)" by (metis prod_cases3)
      show ?thesis
      proof (cases "movie_time movie u m > movie_time movie t ?s")
        case True
        then show ?thesis by (intro that [of "(i, t, ?s)"]) (simp_all add: Some p)
      next
        case False
        then show ?thesis by (intro that [of "(n, u, m)"]) (auto simp: Some p not_less dest: leD)
      qed
    qed
    have xb: "movie_time movie (fst (snd x)) (snd (snd x)) \<le> movie_time movie (fst (snd b)) (snd (snd b))"
      by (rule rx(2)) (simp add: b(1))
    show ?thesis unfolding e r(1)
    proof (intro exI [of _ r] conjI refl, unfold x option.case, intro conjI allI impI)
      show "best = Some x \<or> candidate i (z # zs) x" using rx(1) True unfolding b(1) using b(2) by (auto simp: z)
      show "movie_time movie (fst (snd x)) (snd (snd x)) \<le> movie_time movie (fst (snd y)) (snd (snd y))"
        if y: "best = Some y \<or> candidate i (z # zs) y" for y
      proof -
        consider "best = Some y" | "y = (i, t, ?s)" | "candidate (i + 1) zs y" using y by (auto simp: z)
        then show ?thesis
        proof cases
          case 1
          then show ?thesis using b(4) xb by (blast intro: order.trans)
        next
          case 2
          then show ?thesis using order.trans [OF xb b(3)] by simp
        qed (rule rx(2), simp)
      qed
    qed
  qed
qed

text \<open>One packet: the first of what is left of some track, and no track has an earlier one.\<close>

lemma read_sample_step:
  assumes "samples_ready dm"
  shows "(read_sample dm = err (Mp4Read EOF) \<and> (\<forall>i < length (dm_tracks dm). left dm i = [])) \<or>
    (\<exists>i s dm'. i < length (dm_tracks dm) \<and> left dm i = s # left dm' i \<and> (\<forall>j. j \<noteq> i \<longrightarrow> left dm' j = left dm j) \<and>
      read_sample dm = ok ((i, dm_tracks dm ! i, s, sample_data (mf_bytes (dm_reader dm)) s), dm') \<and>
      samples_ready dm' \<and> dm_tracks dm' = dm_tracks dm \<and> mf_bytes (dm_reader dm') = mf_bytes (dm_reader dm) \<and> dm_Timescale dm' = dm_Timescale dm \<and>
      (\<forall>j < length (dm_tracks dm). left dm j \<noteq> [] \<longrightarrow>
        movie_time (dm_Timescale dm) (dm_tracks dm ! i) s \<le> movie_time (dm_Timescale dm) (dm_tracks dm ! j) (hd (left dm j))))"
proof -
  let ?zs = "zip (dm_tracks dm) (dm_readSampleIdx dm)" and ?m = "dm_Timescale dm" and ?file = "mf_bytes (dm_reader dm)"
  have len: "length (dm_readSampleIdx dm) = length (dm_tracks dm)" using assms by (simp add: samples_ready_def)
  have "\<forall>z\<in>set ?zs. tk_timescale (fst z) \<noteq> 0" using assms by (auto simp: samples_ready_def dest: set_zip_leftD)
  from earliest_spec [OF this, of ?m 0 None]
  obtain r where r: "earliest ?m 0 ?zs None = ok r" "case r of None \<Rightarrow> \<forall>x. \<not> candidate 0 ?zs x
     | Some x \<Rightarrow> candidate 0 ?zs x \<and> (\<forall>y. candidate 0 ?zs y \<longrightarrow> movie_time ?m (fst (snd x)) (snd (snd x)) \<le> movie_time ?m (fst (snd y)) (snd (snd y)))"
    by (auto split: option.splits)
  have cand: "candidate 0 ?zs (i, t, s) \<longleftrightarrow> i < length (dm_tracks dm) \<and> t = dm_tracks dm ! i \<and> left dm i \<noteq> [] \<and> s = hd (left dm i)" for i t s
    using len by (auto simp: candidate_nth left_def hd_drop_conv_nth)
  show ?thesis
  proof (cases r)
    case None
    have "left dm i = []" if "i < length (dm_tracks dm)" for i
      using r(2) cand [of i "dm_tracks dm ! i" "hd (left dm i)"] that by (auto simp: None)
    then show ?thesis using r(1) len by (simp add: read_sample_def None)
  next
    case (Some x)
    obtain i t s where x: "x = (i, t, s)" by (metis prod_cases3)
    have c: "i < length (dm_tracks dm)" "t = dm_tracks dm ! i" "left dm i \<noteq> []" "s = hd (left dm i)"
      using r(2) cand [of i t s] by (simp_all add: Some x)
    let ?k = "dm_readSampleIdx dm ! i"
    have ts: "t \<in> set (dm_tracks dm)" using c by simp
    have k: "unat ?k < length (tk_samplelist t)" "length (tk_samplelist t) < 2 ^ 32"
      using c ts assms by (auto simp: left_def samples_ready_def)
    have "s \<in> set (tk_samplelist t)" using c k by (simp add: left_def hd_drop_conv_nth)
    then have sin: "sample_in ?file s" using ts assms by (simp add: samples_ready_def)
    have off: "sint (se_offset s) = int (unat (se_offset s))"
    proof -
      have "unat (se_offset s) < 2 ^ 63" using sin by (simp add: sample_in_def word_less_nat_alt)
      then show ?thesis using sint_u64_of_nat [of "unat (se_offset s)"] by simp
    qed
    define f where "f = (dm_reader dm)\<lparr>mf_pos := int (unat (se_offset s))\<rparr>"
    have 1: "seek (sint (se_offset s)) SeekStart (dm_reader dm) = ok (int (unat (se_offset s)), f)"
      unfolding off by (simp add: seek_def file_Seek_def f_def Let_def)
    have a: "ahead f (sample_data ?file s @ drop (unat (se_size s)) (drop (unat (se_offset s)) ?file))"
      by (simp add: ahead_def f_def sample_data_def del: drop_drop)
    have "length (sample_data ?file s) = unat (se_size s)" using sin by (auto simp: sample_in_def sample_data_def min_def)
    then have n: "uint (se_size s) = glen (sample_data ?file s)" by (simp only: uint_nat)
    have 2: "read_full (uint (se_size s)) f = ok (sample_data ?file s, skip (uint (se_size s)) f)" by (rule read_full_ahead [OF a n])
    have "int (unat (se_size s)) \<le> int 0x10000000" using sin by (simp only: sample_in_def of_nat_le_iff)
    then have 3: "\<not> uint (se_size s) > maxBoxPayloadSize" by (simp only: uint_nat not_less maxBoxPayloadSize_def of_nat_numeral)
    let ?dm = "dm\<lparr>dm_reader := skip (uint (se_size s)) f, dm_readSampleIdx := (dm_readSampleIdx dm)[i := ?k + 1]\<rparr>"
    have rs: "read_sample dm = ok ((i, t, s, sample_data ?file s), ?dm)"
      using r(1) len 1 2 3 by (simp add: read_sample_def Some x)
    have "unat (?k + 1) = Suc (unat ?k)" using k by (intro unat_Suc) simp
    then have l: "left dm i = s # left ?dm i" using c len k by (auto simp: left_def Cons_nth_drop_Suc hd_drop_conv_nth)
    have "left ?dm j = left dm j" if "j \<noteq> i" for j using that by (simp add: left_def)
    moreover have "mf_bytes (dm_reader ?dm) = ?file" by (simp add: skip_def f_def)
    moreover have "samples_ready ?dm" using assms by (simp add: samples_ready_def skip_def f_def)
    moreover have "movie_time ?m (dm_tracks dm ! i) s \<le> movie_time ?m (dm_tracks dm ! j) (hd (left dm j))"
      if "j < length (dm_tracks dm)" "left dm j \<noteq> []" for j
      using r(2) cand [of j "dm_tracks dm ! j" "hd (left dm j)"] that c(2) by (auto simp: Some x)
    ultimately show ?thesis using rs l c(1,2) by (intro disjI2 exI [of _ i] exI [of _ s] exI [of _ ?dm]) simp
  qed
qed

text \<open>The samples of every track in the order of movie time.\<close>

definition tracks_sorted :: "MovDemuxer \<Rightarrow> bool" where
  "tracks_sorted dm \<longleftrightarrow> (\<forall>i < length (dm_tracks dm). sorted (map (movie_time (dm_Timescale dm) (dm_tracks dm ! i)) (left dm i)))"

section \<open>No file makes the demuxer panic\<close>

lemma returns_remaining [returns_intros]: "returns (\<lambda>_. True) (remainingFileSize f)"
  unfolding remainingFileSize_def by (rule returns_intros | fastforce)+

lemma returns_option [returns_intros]:
  "(x = None \<Longrightarrow> returns P m) \<Longrightarrow> (\<And>y. x = Some y \<Longrightarrow> returns P (f y)) \<Longrightarrow> returns P (case x of None \<Rightarrow> m | Some y \<Rightarrow> f y)"
  by (cases x) simp_all

lemma returns_bx_Decode [returns_intros]: "returns (\<lambda>_. True) (bx_Decode f)"
  unfolding bx_Decode_def Let_def by (rule returns_intros | fastforce)+

lemma returns_boxes [returns_intros]:
  "returns (\<lambda>_. True) (mv_Decode blank_box f)" "returns (\<lambda>_. True) (th_Decode blank_box f)" "returns (\<lambda>_. True) (mh_Decode blank_box f)"
  "returns (\<lambda>_. True) (sm_Decode blank_box f)" "returns (\<lambda>_. True) (vm_Decode blank_box f)" "returns (\<lambda>_. True) (elst_value n f)"
  "returns (\<lambda>_. True) (stts_value n f)" "returns (\<lambda>_. True) (ctts_value n f)" "returns (\<lambda>_. True) (stsc_value n f)"
  "returns (\<lambda>_. True) (stsz_value n f)" "returns (\<lambda>_. True) (stss_value n f)"
  using mvhd_codec.total tkhd_codec.total mdhd_codec.total smhd_codec.total vmhd_codec.total returns_elst_value
    stts_codec.total ctts_codec.total stsc_codec.total stsz_codec.total stss_codec.total
  by (simp_all add: blank_box_def)

lemma returns_stco [returns_intros]: "returns (\<lambda>_. True) (stco_value n f)" "returns (\<lambda>_. True) (co64_value n f)"
  using stco_codec.total [of "tag ''stco''" n f] stco_codec.total [of "tag ''co64''" n f] tables_not_uuid(8) by simp_all

lemma returns_tracks [returns_intros]: "returns (\<lambda>_. True) (lastStbl dm)" "returns (\<lambda>_. True) (with_last g dm)"
  by (simp_all add: lastStbl_def with_last_def split: option.split)

lemma returns_into_stbl [returns_intros]: "(\<And>f. returns (\<lambda>_. True) (dec f)) \<Longrightarrow> returns (\<lambda>_. True) (into_stbl put dec dm)"
  unfolding into_stbl_def by (rule returns_intros | assumption | fastforce)+

lemma returns_decoders [returns_intros]:
  "returns (\<lambda>_. True) (decodeMvhd dm)" "returns (\<lambda>_. True) (decodeTkhdBox dm)" "returns (\<lambda>_. True) (decodeMdhdBox dm)"
  "returns (\<lambda>_. True) (decodeSmhdBox dm)" "returns (\<lambda>_. True) (decodeVmhdBox dm)" "returns (\<lambda>_. True) (decodeFreeBox n dm)"
  "returns (\<lambda>_. True) (decodeElstBox n dm)" "returns (\<lambda>_. True) (seek_payload p dm)"
  unfolding decodeMvhd_def decodeTkhdBox_def decodeMdhdBox_def decodeSmhdBox_def decodeVmhdBox_def decodeFreeBox_def decodeElstBox_def seek_payload_def
  by (((rule returns_intros | fastforce)+)[1])+

lemma returns_table_boxes [returns_intros]:
  "returns (\<lambda>_. True) (decodeSttsBox n dm)" "returns (\<lambda>_. True) (decodeCttsBox n dm)" "returns (\<lambda>_. True) (decodeStscBox n dm)"
  "returns (\<lambda>_. True) (decodeStszBox n dm)" "returns (\<lambda>_. True) (decodeStcoBox n dm)" "returns (\<lambda>_. True) (decodeCo64Box n dm)"
  "returns (\<lambda>_. True) (decodeStssBox n dm)"
  unfolding decodeSttsBox_def decodeCttsBox_def decodeStscBox_def decodeStszBox_def decodeStcoBox_def decodeCo64Box_def decodeStssBox_def
  by (rule returns_into_stbl, rule returns_intros)+

text \<open>A turn that a tag may select.\<close>

lemma returns_turns:
  "pred_option (returns P) x \<Longrightarrow> pred_option (returns P) y \<Longrightarrow> pred_option (returns P) (if b then x else y)"
  "returns P m \<Longrightarrow> pred_option (returns P) (Some m)" "pred_option (returns P) None"
  by simp_all

lemma returns_one_of: "returns P a \<Longrightarrow> returns P b \<Longrightarrow> returns P (if c then a else b)"
  by simp

lemma returns_turn: "pred_option (returns P) x \<Longrightarrow> returns P m \<Longrightarrow> returns P (case x of Some r \<Rightarrow> r | None \<Rightarrow> m)"
  by (cases x) simp_all

lemma returns_read_box:
  "returns (\<lambda>_. True) (read_box dm)"
proof -
  note one = returns_turns returns_intros
  have e: "pred_option (returns (\<lambda>_. True)) (entry_turn t n dm)" for t n dm
    unfolding entry_turn_def Let_def by ((rule one)+)
  have g: "pred_option (returns (\<lambda>_. True)) (fragment_turn t n dm)" for t n dm
    unfolding fragment_turn_def by ((rule one)+)
  have "returns (\<lambda>_. True) (box_turn k box dm)" for k box dm
    unfolding box_turn_def Let_def by (((rule returns_one_of returns_turn e g returns_intros | fastforce)+)[1])+
  then show ?thesis unfolding read_box_def by - (rule returns_intros | assumption | fastforce)+
qed

lemma advance_ne: "es \<noteq> [] \<Longrightarrow> advance n es \<noteq> []"
  by (induction n es rule: advance.induct) simp_all

lemma read_chunks_total: "es \<noteq> [] \<Longrightarrow> \<exists>cs. read_chunks i es offs = Some cs"
proof (induction offs arbitrary: i es)
  case (Cons off offs)
  let ?es = "advance (word_of_nat (i + 1)) es"
  have ne: "?es \<noteq> []" using Cons.prems by (rule advance_ne)
  then obtain e where "idx ?es 0 = Some e" by (cases ?es) (simp_all add: idx_def)
  then show ?case using Cons.IH [OF ne, of "i + 1"] by (auto simp: Let_def)
qed simp

lemma length_place_run: "length (place_run off ss) = length ss" by (induction ss arbitrary: off) simp_all

lemma length_place_chunks: "length (place_chunks cs ss) = length ss"
  by (induction cs arbitrary: ss) (simp_all add: Let_def length_place_run)

lemma compose_total: "i + length es \<le> length (ctts_entrys c) \<Longrightarrow> \<exists>ss'. compose_samples c es i ss = Some ss'"
proof (induction es arbitrary: i ss)
  case (Cons e es)
  then have "\<exists>off. sampleOffset c (int i) = Some off" "i + 1 + length es \<le> length (ctts_entrys c)" by (simp_all add: sampleOffset_def idx_def)
  moreover obtain rest where "compose_samples c es (i + 1) (drop (unat (ct_sampleCount e)) ss) = Some rest" using Cons.IH [OF calculation(2)] by blast
  ultimately show ?case by (auto simp: Let_def)
qed simp

lemma returns_must_ex: "\<exists>y. m = Some y \<and> P y \<Longrightarrow> returns P (must m)" by auto

lemma returns_first_dts [returns_intros]: "returns (\<lambda>_. True) (first_dts movie timescale es d)"
  by (induction es arbitrary: d) simp_all

lemma sized_samples_total:
  assumes "\<not> (stsz_sampleSize z = 0 \<and> glen (stsz_entrySizelist z) < uint (stsz_sampleCount z))" and "stsz_sampleCount z \<noteq> 0"
  shows "\<exists>ss. sized_samples z = Some ss \<and> ss \<noteq> []"
proof (cases "stsz_sampleSize z = 0")
  case True
  then have "uint (stsz_sampleCount z) \<le> glen (stsz_entrySizelist z)" using assms(1) by simp
  then have "slice_to (stsz_entrySizelist z) (uint (stsz_sampleCount z)) = Some (take (unat (stsz_sampleCount z)) (stsz_entrySizelist z))"
    by (simp add: slice_to_def nat_uint_eq)
  moreover have "take (unat (stsz_sampleCount z)) (stsz_entrySizelist z) \<noteq> []"
  proof -
    have "int (unat (stsz_sampleCount z)) \<le> glen (stsz_entrySizelist z)" using \<open>uint _ \<le> _\<close> by (simp only: uint_nat)
    moreover have "0 < unat (stsz_sampleCount z)" using assms(2) by (simp add: unat_gt_0)
    ultimately have "0 < length (stsz_entrySizelist z)" by linarith
    then show ?thesis using \<open>0 < unat _\<close> by simp
  qed
  ultimately show ?thesis using True by (simp add: sized_samples_def)
next
  case False
  then show ?thesis using assms(2) by (simp add: sized_samples_def unat_eq_0)
qed

text \<open>Every table a box can hold: only the length of the lists of chunks and times is left open.\<close>

lemma returns_build_track [returns_intros]: "returns (\<lambda>t. tk_timescale t = tk_timescale track) (build_track movie fileSize track)"
proof -
  have rc: "es \<noteq> [] \<Longrightarrow> returns (\<lambda>_. True) (must (read_chunks 0 es offs))" for es offs
    using read_chunks_total by (intro returns_must_ex) blast
  have sz: "\<not> (stsz_sampleSize z = 0 \<and> glen (stsz_entrySizelist z) < uint (stsz_sampleCount z)) \<Longrightarrow> stsz_sampleCount z \<noteq> 0 \<Longrightarrow>
      returns (\<lambda>ss. ss \<noteq> []) (must (sized_samples z))" for z
    using sized_samples_total by (intro returns_must_ex) blast
  have ix: "ss \<noteq> [] \<Longrightarrow> returns (\<lambda>_. True) (must (idx (place_chunks cs ss) 0))" for cs ss
    using length_place_chunks [of cs ss] by (cases "place_chunks cs ss") (auto simp: idx_def)
  have cp: "returns (\<lambda>_. True) (must (case m of None \<Rightarrow> Some ss
      | Some ctts \<Rightarrow> if ctts_entryCount ctts = 0 then Some ss else compose_samples ctts (ctts_entrys ctts) 0 ss'))" for m ss ss'
  proof (cases m)
    case (Some c)
    obtain r where "compose_samples c (ctts_entrys c) 0 ss' = Some r" using compose_total [of 0 "ctts_entrys c" c ss'] by auto
    then show ?thesis by (simp add: Some)
  qed simp
  show ?thesis
    unfolding build_track_def Let_def
    by (rule returns_intros rc sz ix cp | assumption | fastforce)+
qed

lemma returns_build_tracks [returns_intros]:
  "returns (\<lambda>us. map tk_timescale us = map tk_timescale ts) (build_tracks movie fileSize ts)"
proof (induction ts)
  case (Cons t ts)
  then show ?case by (auto intro!: returns_rbind [OF returns_build_track] returns_rbind [OF Cons])
qed simp

lemma track_info_total: "tk_timescale t \<noteq> 0 \<Longrightarrow> \<exists>i. track_info t = Some i"
  by (cases "tk_samplelist t") (auto simp: track_info_def trackEndDts_def idx_def Let_def)

lemma track_infos_total: "\<forall>t\<in>set ts. tk_timescale t \<noteq> 0 \<Longrightarrow> \<exists>is. track_infos ts = Some is"
proof (induction ts)
  case (Cons t ts)
  then show ?case using track_info_total [of t] by auto
qed simp

lemma returns_buildSampleList:
  "returns (\<lambda>dm'. map tk_timescale (dm_tracks dm') = map tk_timescale (dm_tracks dm)) (buildSampleList dm)"
proof -
  have "returns (\<lambda>dm'. map tk_timescale (dm_tracks dm') = map tk_timescale (dm_tracks dm))
      (rbind (build_tracks m n (dm_tracks dm)) (\<lambda>ts. ok (dm\<lparr>dm_reader := f, dm_tracks := ts\<rparr>)))" for m n f
    by (rule returns_rbind [OF returns_build_tracks]) simp
  then show ?thesis unfolding buildSampleList_def by (auto intro!: returns_rbind [OF returns_remaining])
qed

lemma returns_head_done: "returns (\<lambda>_. True) (head_done e dm)"
proof -
  have i: "returns (\<lambda>_. True) (must (track_infos ts))" if "map tk_timescale ts = map tk_timescale us" "\<not> list_ex (\<lambda>t. tk_timescale t = 0) us" for ts us
  proof -
    have "\<forall>t\<in>set ts. tk_timescale t \<noteq> 0" using that by (metis (mono_tags, lifting) list_ex_iff image_iff list.set_map)
    then show ?thesis using track_infos_total by fastforce
  qed
  have b: "returns (\<lambda>dm'. map tk_timescale (dm_tracks dm') = map tk_timescale (dm_tracks dm)) (if c then ok dm else buildSampleList dm)" for c
    using returns_buildSampleList by simp
  show ?thesis unfolding head_done_def
    by (rule returns_if returns_rbind [OF b] returns_rbind [OF i] | assumption | simp)+
qed

lemma read_boxes_total:
  "\<exists>h. read_boxes n dm = Some h"
proof (induction n arbitrary: dm)
  case (Suc n)
  then show ?case using returnsD [OF returns_read_box] by (fastforce split: option.split sum.split)
qed simp

section \<open>A seek\<close>

text \<open>The time of a sample in milliseconds, as \<open>SeekTime\<close> compares it.\<close>

definition sample_ms :: "mp4track \<Rightarrow> sampleEntry \<Rightarrow> u64" where
  "sample_ms t s = se_dts s * 1000 div ucast (tk_timescale t)"

lemma first_at_spec:
  "\<exists>p. first_at dts (tk_timescale t) j ss = j + p \<and> p \<le> length ss \<and> (\<forall>q<p. sample_ms t (ss ! q) < dts) \<and>
    (p < length ss \<longrightarrow> dts \<le> sample_ms t (ss ! p))"
proof (induction ss arbitrary: j)
  case (Cons s ss)
  show ?case
  proof (cases "dts \<le> sample_ms t s")
    case True
    then show ?thesis by (intro exI [of _ 0]) (simp add: sample_ms_def)
  next
    case False
    obtain p where p: "first_at dts (tk_timescale t) (j + 1) ss = j + 1 + p" "p \<le> length ss" "\<forall>q<p. sample_ms t (ss ! q) < dts"
      "p < length ss \<longrightarrow> dts \<le> sample_ms t (ss ! p)" using Cons.IH [of "j + 1"] by blast
    have "sample_ms t ((s # ss) ! q) < dts" if "q < Suc p" for q using that p(3) False by (cases q) auto
    then show ?thesis using p False by (intro exI [of _ "Suc p"]) (simp add: sample_ms_def)
  qed
qed simp

lemma best_sync_spec:
  "best_sync i nums best = best \<and> (\<forall>n\<in>set nums. n \<noteq> 0 \<and> uint (n - 1) \<le> i \<longrightarrow> uint (n - 1) \<le> best) \<or>
   (\<exists>m\<in>set nums. m \<noteq> 0 \<and> best_sync i nums best = uint (m - 1) \<and> uint (m - 1) \<le> i \<and> best < uint (m - 1) \<and>
     (\<forall>n\<in>set nums. n \<noteq> 0 \<and> uint (n - 1) \<le> i \<longrightarrow> uint (n - 1) \<le> uint (m - 1)))"
proof (induction nums arbitrary: best)
  case (Cons num nums)
  show ?case
  proof (cases "num \<noteq> 0 \<and> uint (num - 1) \<le> i \<and> uint (num - 1) > best")
    case True
    then have e: "best_sync i (num # nums) best = best_sync i nums (uint (num - 1))" by simp
    show ?thesis unfolding e using Cons.IH [of "uint (num - 1)"] True
      by (elim disjE bexE conjE; intro disjI2) (auto intro: bexI [of _ num])
  next
    case False
    then have e: "best_sync i (num # nums) best = best_sync i nums best" by auto
    have n: "num \<noteq> 0 \<and> uint (num - 1) \<le> i \<Longrightarrow> uint (num - 1) \<le> best" using False by auto
    show ?thesis unfolding e using Cons.IH [of best] n
      by (elim disjE bexE conjE) (auto intro: order.trans)
  qed
qed simp

lemma seek_track_sync:
  assumes "tk_timescale t \<noteq> 0" and "isVideo (tk_cid t)" and "tk_stbltable t = Some tbl" and "sb_stss tbl = Some nums"
    and p: "p = first_at dts (tk_timescale t) 0 (tk_samplelist t)" and "num \<in> set nums" "num \<noteq> 0" "uint (num - 1) \<le> int p"
  shows "\<exists>m\<in>set nums. m \<noteq> 0 \<and> snd (seek_track dts t k) = m - 1 \<and> uint (m - 1) \<le> int p \<and>
    (\<forall>n\<in>set nums. n \<noteq> 0 \<and> uint (n - 1) \<le> int p \<longrightarrow> n - 1 \<le> m - 1)"
proof -
  have "\<not> (\<forall>n\<in>set nums. n \<noteq> 0 \<and> uint (n - 1) \<le> int p \<longrightarrow> uint (n - 1) \<le> - 1)"
  proof
    assume "\<forall>n\<in>set nums. n \<noteq> 0 \<and> uint (n - 1) \<le> int p \<longrightarrow> uint (n - 1) \<le> - 1"
    then have "uint (num - 1) \<le> - 1" using assms(6-8) by blast
    moreover have "0 \<le> uint (num - 1)" by simp
    ultimately show False by linarith
  qed
  then obtain m where m: "m\<in>set nums" "m \<noteq> 0" "best_sync (int p) nums (- 1) = uint (m - 1)" "uint (m - 1) \<le> int p"
    "\<forall>n\<in>set nums. n \<noteq> 0 \<and> uint (n - 1) \<le> int p \<longrightarrow> uint (n - 1) \<le> uint (m - 1)"
    using best_sync_spec [of "int p" nums "- 1"] by blast
  have "nums \<noteq> []" using m(1) by auto
  then have "syncSampleAtOrBefore t (int p) = uint (m - 1)" using m(3) by (simp add: syncSampleAtOrBefore_def assms(3,4) Let_def)
  then have "snd (seek_track dts t k) = m - 1" using assms(1,2) by (simp add: seek_track_def Let_def p [symmetric])
  then show ?thesis using m by (auto simp: word_le_def)
qed

section \<open>A file that is read forever\<close>

text \<open>
  A \<open>free\<close> box of 8 bytes and a \<open>mdat\<close> box whose 64-bit size, taken as a signed offset behind its
  header, seeks back to the \<open>free\<close> box.
\<close>

definition endless_file :: bytes where
  "endless_file = be32 8 @ tag ''free'' @ be32 1 @ tag ''mdat'' @ be64 0xFFFFFFFFFFFFFFF8"

lemma endless_free: "read_box (dm\<lparr>dm_reader := \<lparr>mf_bytes = endless_file, mf_pos = 0\<rparr>\<rparr>) =
    ok (dm\<lparr>dm_reader := \<lparr>mf_bytes = endless_file, mf_pos = 8\<rparr>\<rparr>)"
proof -
  have "bx_Decode \<lparr>mf_bytes = endless_file, mf_pos = 0\<rparr> =
      ok (8, \<lparr>bx_Size = 8, bx_Type = tag ''free'', bx_UserType = replicate 16 0\<rparr>, \<lparr>mf_bytes = endless_file, mf_pos = 8\<rparr>)" by code_simp
  moreover have "tag ''free'' \<notin> set need_track" "tag ''free'' \<noteq> tag ''ftyp''" by code_simp+
  moreover have "ucast (ucast (8 :: u64) :: u32) = (8 :: u64)" by code_simp
  ultimately show ?thesis by (simp add: read_box_def box_turn_def decodeFreeBox_def)
qed

lemma endless_mdat: "read_box (dm\<lparr>dm_reader := \<lparr>mf_bytes = endless_file, mf_pos = 8\<rparr>\<rparr>) =
    ok (dm\<lparr>dm_reader := \<lparr>mf_bytes = endless_file, mf_pos = 0\<rparr>, dm_mdatOffset := dm_mdatOffset dm @ [24]\<rparr>)"
proof -
  have "bx_Decode \<lparr>mf_bytes = endless_file, mf_pos = 8\<rparr> =
      ok (16, \<lparr>bx_Size = 0xFFFFFFFFFFFFFFF8, bx_Type = tag ''mdat'', bx_UserType = replicate 16 0\<rparr>, \<lparr>mf_bytes = endless_file, mf_pos = 24\<rparr>)" by code_simp
  moreover have "tag ''mdat'' \<notin> set need_track" "tag ''mdat'' \<noteq> tag ''ftyp''" "tag ''mdat'' \<noteq> tag ''free''" by code_simp+
  moreover have "seek 0 SeekCurrent \<lparr>mf_bytes = endless_file, mf_pos = 24\<rparr> = ok (24, \<lparr>mf_bytes = endless_file, mf_pos = 24\<rparr>)" by code_simp
  moreover have "seek (sint (0xFFFFFFFFFFFFFFF8 - 16 :: u64)) SeekCurrent \<lparr>mf_bytes = endless_file, mf_pos = 24\<rparr> =
      ok (0, \<lparr>mf_bytes = endless_file, mf_pos = 0\<rparr>)" by code_simp
  ultimately show ?thesis by (simp add: read_box_def box_turn_def seek_payload_def)
qed

lemma endless_turns: "\<exists>dm'. read_boxes n (dm\<lparr>dm_reader := \<lparr>mf_bytes = endless_file, mf_pos = 0\<rparr>\<rparr>) = Some (Running dm')"
proof (induction n arbitrary: dm rule: nat_less_induct)
  case (1 n)
  show ?case
  proof (cases "n < 2")
    case True
    then have "n = 0 \<or> n = 1" by auto
    then show ?thesis using endless_free [of dm] by auto
  next
    case False
    then obtain m where m: "n = Suc (Suc m)" by (cases n; cases "n - 1") auto
    let ?start = "\<lparr>mf_bytes = endless_file, mf_pos = 0\<rparr>" and ?seen = "dm_mdatOffset dm @ [24]"
    have "dm\<lparr>dm_reader := ?start, dm_mdatOffset := ?seen\<rparr> = (dm\<lparr>dm_mdatOffset := ?seen\<rparr>)\<lparr>dm_reader := ?start\<rparr>" by (cases dm) simp
    then have "read_boxes n (dm\<lparr>dm_reader := ?start\<rparr>) = read_boxes m ((dm\<lparr>dm_mdatOffset := ?seen\<rparr>)\<lparr>dm_reader := ?start\<rparr>)"
      by (simp only: m read_boxes.simps endless_free endless_mdat option.case sum.case)
    then show ?thesis using 1 m by simp
  qed
qed


text \<open>
  C26: A track written by \<open>makeStblTable\<close> and \<open>makeStblBox\<close> is read back by the demuxer: the boxes of
  its tables are made, the loop of \<open>ReadHead\<close> reads them in whatever stands before and behind them
  in a file, and \<open>buildSampleList\<close> makes of them the samples the track had, in their order, with their
  sizes and offsets in the file and with their times counted from the first decoding time; the
  key frames of a video track are its sync samples.
\<close>

theorem sample_tables_round_trip:
  assumes "table_samples (tk_cid track) (tk_samplelist track)" and "sorted (map se_offset (tk_samplelist track))"
    and "tk_stbltable track = None"
  shows "\<exists>made b. makeStblTable track = Some made \<and> stbl_tables made = Some b \<and>
    (\<forall>dm f r rt movie fileSize. ahead f (b @ r) \<longrightarrow> tk_elst rt = None \<longrightarrow>
      (\<Sum>s\<leftarrow>tk_samplelist track. unat (se_size s)) \<le> unat fileSize \<longrightarrow>
      (\<exists>n t. read_boxes n (stbl_dm dm rt empty_stbl f) = Some (Running (stbl_dm dm rt t (skip (glen b) f))) \<and>
        sb_stss t = (if isVideo (tk_cid track) then Some (key_numbers 0 (tk_samplelist track)) else None) \<and>
        build_track movie fileSize (rt\<lparr>tk_stbltable := Some t\<rparr>) = ok (rt\<lparr>tk_stbltable := Some t,
          tk_samplelist := map (rebased (se_dts (hd (tk_samplelist track)))) (tk_samplelist track)\<rparr>)))"
proof -
  let ?ss = "tk_samplelist track" and ?cid = "tk_cid track"
  have ne: "?ss \<noteq> []" "length ?ss < 2 ^ 32" using assms(1) by (auto simp: table_samples_def)
  obtain st where st: "makeStblTable track = Some (track\<lparr>tk_stbltable := Some (loop_tables ?cid ?ss st)\<rparr>)" "loop_done ?ss st"
    using makeStblTable_made [OF ne assms(3)] by blast
  obtain b1 b2 b3 b4 b5 b6 where parts: "stbl_parts ?cid ?ss st (b1, b2, b3, b4, b5, b6)"
    using stbl_parts_made [OF st(2) assms(1,2)] by (metis prod_cases6)
  let ?b = "b1 @ b2 @ b3 @ b4 @ b5 @ b6"
  have "stbl_tables (track\<lparr>tk_stbltable := Some (loop_tables ?cid ?ss st)\<rparr>) = Some ?b"
    using stbl_tables_made [OF st(2) ne, of "track\<lparr>tk_stbltable := Some (loop_tables ?cid ?ss st)\<rparr>"] parts by simp
  moreover have "\<exists>n t. read_boxes n (stbl_dm dm rt empty_stbl f) = Some (Running (stbl_dm dm rt t (skip (glen ?b) f))) \<and>
        sb_stss t = (if isVideo ?cid then Some (key_numbers 0 ?ss) else None) \<and>
        build_track movie fileSize (rt\<lparr>tk_stbltable := Some t\<rparr>) =
          ok (rt\<lparr>tk_stbltable := Some t, tk_samplelist := map (rebased (se_dts (hd ?ss))) ?ss\<rparr>)"
    if a: "ahead f (?b @ r)" "tk_elst rt = None" "(\<Sum>s\<leftarrow>?ss. unat (se_size s)) \<le> unat fileSize" for dm f r rt movie fileSize
  proof -
    let ?t = "made_tables ?cid ?ss st"
    have "build_track movie fileSize (rt\<lparr>tk_stbltable := Some ?t\<rparr>) =
        ok (rt\<lparr>tk_stbltable := Some ?t, tk_samplelist := map (rebased (se_dts (hd ?ss))) ?ss\<rparr>)"
      using build_track_made [OF st(2) assms(1) a(3), of "rt\<lparr>tk_stbltable := Some ?t\<rparr>" ?t movie] a(2)
      by (simp add: made_tables_def seen_tables_def loop_tables_def)
    moreover have "sb_stss ?t = (if isVideo ?cid then Some (key_numbers 0 ?ss) else None)" by (simp add: made_tables_def)
    moreover have "ahead f (b1 @ b2 @ b3 @ b4 @ b5 @ b6 @ r)" using a(1) by simp
    note tables_read [OF st(2) assms(1,2) parts this, of dm rt]
    ultimately show ?thesis by blast
  qed
  ultimately show ?thesis using st(1) by blast
qed

definition sample_track :: mp4track where
  "sample_track = new_track\<lparr>tk_cid := 1, tk_trackId := 1, tk_timescale := 1000, tk_samplelist :=
     map (\<lambda>(p, d, off, n, k). \<lparr>se_pts = p, se_dts = d, se_offset = off, se_size = n, se_isKeyFrame = k, se_SampleDescriptionIndex = 0\<rparr>)
       [(140, 100, 48, 900, True), (260, 140, 948, 120, False), (180, 180, 2000, 80, False)]\<rparr>"

theorem sample_tables_round_trip_witness:
  "\<exists>made b. makeStblTable sample_track = Some made \<and> stbl_tables made = Some b \<and>
    (\<forall>dm f r rt movie fileSize. ahead f (b @ r) \<longrightarrow> tk_elst rt = None \<longrightarrow>
      (\<Sum>s\<leftarrow>tk_samplelist sample_track. unat (se_size s)) \<le> unat fileSize \<longrightarrow>
      (\<exists>n t. read_boxes n (stbl_dm dm rt empty_stbl f) = Some (Running (stbl_dm dm rt t (skip (glen b) f))) \<and>
        sb_stss t = (if isVideo (tk_cid sample_track) then Some (key_numbers 0 (tk_samplelist sample_track)) else None) \<and>
        build_track movie fileSize (rt\<lparr>tk_stbltable := Some t\<rparr>) = ok (rt\<lparr>tk_stbltable := Some t,
          tk_samplelist := map (rebased (se_dts (hd (tk_samplelist sample_track)))) (tk_samplelist sample_track)\<rparr>)))"
  by (rule sample_tables_round_trip)
    (simp_all add: sample_track_def new_track_def table_samples_def steady_def isVideo_def MP4_CODEC_H264_def)

text \<open>
  C28: There is a file of 24 bytes that \<open>ReadHead\<close> never finishes: a \<open>mdat\<close> box whose 64-bit size is negative
  as a seek offset leads back to a box before it, so that after any number of turns the loop still
  runs.
\<close>

theorem ReadHead_never_returns:
  "\<exists>dm. read_boxes n (CreateMp4Demuxer \<lparr>mf_bytes = endless_file, mf_pos = 0\<rparr>) = Some (Running dm)"
  using endless_turns [of n "CreateMp4Demuxer \<lparr>mf_bytes = endless_file, mf_pos = 0\<rparr>"] by (simp add: CreateMp4Demuxer_def)

text \<open>
  C29: No file makes the head of an MP4 file panic, in whatever state it is read: every turn of the loop
  returns, whatever box it meets, of a header, a sample table, a codec, a fragment or an encryption,
  and so do the checks behind the loop, the building of the sample lists from whatever tables the
  file held and the summary of the tracks.
\<close>

theorem mp4_head_never_panics: "ReadHead n dm \<noteq> Some None"
proof -
  obtain h where h: "read_boxes n dm = Some h" using read_boxes_total by blast
  show ?thesis
  proof (cases h)
    case (Stopped e dm')
    then show ?thesis using h returnsD [OF returns_head_done [of e dm']] by (auto simp: ReadHead_def)
  qed (simp add: ReadHead_def h)
qed

text \<open>
  C30: After a seek a video track with sync samples stands at one of them: at the last one that does not lie
  behind the first sample at or after the time asked for.
\<close>

theorem SeekTime_stops_at_sync_sample:
  assumes "SeekTime dts dm = Some dm'" and "k < length (dm_tracks dm)" and t: "t = dm_tracks dm ! k"
    and "tk_timescale t \<noteq> 0" and "isVideo (tk_cid t)" and "tk_stbltable t = Some tbl" and "sb_stss tbl = Some nums"
    and "num \<in> set nums" "num \<noteq> 0" "uint (num - 1) \<le> int (first_at dts (tk_timescale t) 0 (tk_samplelist t))"
  shows "\<exists>p m. p \<le> length (tk_samplelist t) \<and> (\<forall>q<p. sample_ms t (tk_samplelist t ! q) < dts) \<and>
    (p < length (tk_samplelist t) \<longrightarrow> dts \<le> sample_ms t (tk_samplelist t ! p)) \<and>
    m \<in> set nums \<and> m \<noteq> 0 \<and> dm_readSampleIdx dm' ! k = m - 1 \<and> uint (m - 1) \<le> int p \<and>
    (\<forall>n\<in>set nums. n \<noteq> 0 \<and> uint (n - 1) \<le> int p \<longrightarrow> n - 1 \<le> m - 1)"
proof -
  obtain p where p: "first_at dts (tk_timescale t) 0 (tk_samplelist t) = p" "p \<le> length (tk_samplelist t)"
    "\<forall>q<p. sample_ms t (tk_samplelist t ! q) < dts" "p < length (tk_samplelist t) \<longrightarrow> dts \<le> sample_ms t (tk_samplelist t ! p)"
    using first_at_spec [of dts t 0 "tk_samplelist t"] by auto
  obtain m where m: "m \<in> set nums" "m \<noteq> 0" "snd (seek_track dts t (dm_readSampleIdx dm ! k)) = m - 1" "uint (m - 1) \<le> int p"
    "\<forall>n\<in>set nums. n \<noteq> 0 \<and> uint (n - 1) \<le> int p \<longrightarrow> n - 1 \<le> m - 1"
    using seek_track_sync [OF assms(4-7) p(1) [symmetric] assms(8,9)] assms(10) p(1) by auto
  have "dm_readSampleIdx dm' ! k = snd (seek_track dts t (dm_readSampleIdx dm ! k))"
    using assms(1,2) by (auto simp: SeekTime_def t Let_def nth_append split: if_splits)
  then show ?thesis using p m by (intro exI [of _ p] exI [of _ m]) simp
qed

definition two_tracks :: MovDemuxer where
  "two_tracks = (CreateMp4Demuxer \<lparr>mf_bytes = replicate 8 7, mf_pos = 0\<rparr>)\<lparr>dm_Timescale := 1000, dm_readSampleIdx := [0, 1], dm_tracks :=
     [new_track\<lparr>tk_timescale := 1000, tk_samplelist := [(sized_sample 2)\<lparr>se_dts := 5, se_offset := 1\<rparr>]\<rparr>,
      new_track\<lparr>tk_timescale := 500, tk_samplelist := [sized_sample 1, (sized_sample 3)\<lparr>se_dts := 2, se_offset := 4\<rparr>]\<rparr>]\<rparr>"

theorem SeekTime_stops_at_sync_sample_witness:
  "\<exists>dm'. SeekTime 150 (two_tracks\<lparr>dm_tracks := [sample_track\<lparr>tk_stbltable := Some (empty_stbl\<lparr>sb_stss := Some [1]\<rparr>)\<rparr>]\<rparr>) = Some dm' \<and>
    dm_readSampleIdx dm' ! 0 = 0"
proof -
  let ?t = "sample_track\<lparr>tk_stbltable := Some (empty_stbl\<lparr>sb_stss := Some [1]\<rparr>)\<rparr>"
  let ?dm = "two_tracks\<lparr>dm_tracks := [?t]\<rparr>"
  have "\<exists>dm'. SeekTime 150 ?dm = Some dm'" by (simp add: SeekTime_def two_tracks_def)
  then obtain dm' where dm': "SeekTime 150 ?dm = Some dm'" by blast
  have "\<exists>p m. p \<le> length (tk_samplelist ?t) \<and> (\<forall>q<p. sample_ms ?t (tk_samplelist ?t ! q) < 150) \<and>
    (p < length (tk_samplelist ?t) \<longrightarrow> 150 \<le> sample_ms ?t (tk_samplelist ?t ! p)) \<and>
    m \<in> set [1] \<and> m \<noteq> 0 \<and> dm_readSampleIdx dm' ! 0 = m - 1 \<and> uint (m - 1) \<le> int p \<and>
    (\<forall>n\<in>set [1]. n \<noteq> 0 \<and> uint (n - 1) \<le> int p \<longrightarrow> n - 1 \<le> m - 1)"
    by (rule SeekTime_stops_at_sync_sample [OF dm', where tbl = "empty_stbl\<lparr>sb_stss := Some [1]\<rparr>" and num = 1])
      (simp_all add: sample_track_def new_track_def isVideo_def MP4_CODEC_H264_def empty_stbl_def)
  then show ?thesis using dm' by auto
qed

end
