(* ===== verification/Mp4Packets.thy ===== *)
theory Mp4Packets
  imports Mp4Demuxer Aac
begin

text \<open>
  The packets of \<open>mp4demuxer.go\<close>: \<open>ReadPacket\<close> with what it makes of a sample by the codec of its track
  (\<open>processH264\<close>, \<open>processH265\<close>, the ADTS header), \<open>buildSubSample\<close>, \<open>GetMp4Info\<close> and \<open>GetExtraData\<close>.

  The samples are rewritten in place, so the functions return the buffer.  The callback \<open>OnRawSample\<close>
  is an argument: it is given the codec, the sample and the encryption data of the sample and gives
  back an error or the bytes the buffer then has.  The loop of \<open>ReadPacket\<close> is a \<open>partial_function\<close>.

  The lemmas: the loop over the units of a sample is described by the units alone, and the calls of
  \<open>ReadPacket\<close> until the end give each track what its samples become one by one.
\<close>

section \<open>Samples of video\<close>

definition H264_NAL_P_SLICE :: NAL_TYPE where "H264_NAL_P_SLICE = 1"
definition H264_NAL_SLICE_C :: NAL_TYPE where "H264_NAL_SLICE_C = 4"
definition H264_SPS_TYPE :: NAL_TYPE where "H264_SPS_TYPE = 7"
definition H264_PPS_TYPE :: NAL_TYPE where "H264_PPS_TYPE = 8"
definition H265_VPS_TYPE :: NAL_TYPE where "H265_VPS_TYPE = 32"
definition H265_SPS_TYPE :: NAL_TYPE where "H265_SPS_TYPE = 33"
definition H265_PPS_TYPE :: NAL_TYPE where "H265_PPS_TYPE = 34"

text \<open>What the loops have seen: a key frame, a slice, a parameter set.\<close>

type_synonym seen_units = "bool \<times> bool \<times> bool"

definition h264_case :: "NAL_TYPE \<Rightarrow> seen_units \<Rightarrow> seen_units" where
  "h264_case nalType = (\<lambda>(idr, vcl, spspps).
     if nalType = H264_PPS_TYPE \<or> nalType = H264_SPS_TYPE then (idr, vcl, True)
     else if nalType = H264_NAL_I_SLICE then (True, True, spspps)
     else if H264_NAL_P_SLICE \<le> nalType \<and> nalType \<le> H264_NAL_SLICE_C then (idr, True, spspps)
     else (idr, vcl, spspps))"

definition h265_case :: "NAL_TYPE \<Rightarrow> seen_units \<Rightarrow> seen_units" where
  "h265_case nalType = (\<lambda>(idr, vcl, spsppsvps).
     if nalType = H265_VPS_TYPE \<or> nalType = H265_PPS_TYPE \<or> nalType = H265_SPS_TYPE then (idr, vcl, True)
     else if H265_NAL_SLICE_BLA_W_LP \<le> nalType \<and> nalType \<le> H265_NAL_SLICE_CRA then (True, True, spsppsvps)
     else if H265_NAL_Slice_TRAIL_N \<le> nalType \<and> nalType \<le> H265_NAL_SLICE_RASL_R then (idr, True, spsppsvps)
     else (idr, vcl, spsppsvps))"

text \<open>The loop over the units; \<open>4+nalusize\<close> is a sum of 32 bits.\<close>

partial_function (option) rewrite_units :: "(bytes \<Rightarrow> NAL_TYPE option) \<Rightarrow> (NAL_TYPE \<Rightarrow> seen_units \<Rightarrow> seen_units) \<Rightarrow> bytes \<Rightarrow> seen_units \<Rightarrow> (bytes \<times> seen_units) option" where
  "rewrite_units nalu_type mark avcc seen =
     (if glen avcc < 4 then Some (avcc, seen)
      else Option.bind (get_be32 avcc) (\<lambda>nalusize.
        if uint nalusize + 4 > glen avcc then Some (avcc, seen)
        else Option.bind (nalu_type (CovertAVCCToAnnexB avcc)) (\<lambda>nalType.
          Option.bind (slice_from (CovertAVCCToAnnexB avcc) (uint (4 + nalusize))) (\<lambda>rest.
          Option.bind (rewrite_units nalu_type mark rest (mark nalType seen)) (\<lambda>(out, seen).
          Some (take (unat (4 + nalusize)) (CovertAVCCToAnnexB avcc) @ out, seen))))))"

text \<open>
  The two functions have one body.  An empty result holds the sample back; the configuration is
  only looked at when it is needed.
\<close>

definition process_sample :: "(bytes \<Rightarrow> NAL_TYPE option) \<Rightarrow> (NAL_TYPE \<Rightarrow> seen_units \<Rightarrow> seen_units) \<Rightarrow> bytes option \<Rightarrow> mp4track \<Rightarrow> bytes \<Rightarrow> (bytes \<times> mp4track) option" where
  "process_sample nalu_type mark config track avcc = do {
     (avcc, (idr, vcl, sets)) \<leftarrow> rewrite_units nalu_type mark avcc (False, False, False);
     if \<not> vcl then
       (if \<not> sets then Some (avcc, track)
        else Some ([], track\<lparr>tk_paramSetCache := tk_paramSetCache track @ avcc\<rparr>))
     else if sets then Some (avcc, track\<lparr>tk_paramSetCache := []\<rparr>)
     else if \<not> idr then Some (avcc, track)
     else if tk_paramSetCache track \<noteq> [] then Some (tk_paramSetCache track @ avcc, track\<lparr>tk_paramSetCache := []\<rparr>)
     else do { out \<leftarrow> config; Some (out @ avcc, track) }
   }"

definition processH264 :: "mp4track \<Rightarrow> bytes \<Rightarrow> bytes list \<Rightarrow> bytes list \<Rightarrow> (bytes \<times> mp4track) option" where
  "processH264 track avcc spss ppss = process_sample H264NaluType h264_case (Some (concat spss @ concat ppss)) track avcc"

text \<open>\<open>ToNalus\<close> of a nil record panics.\<close>

definition processH265 :: "mp4track \<Rightarrow> bytes \<Rightarrow> HEVCRecordConfiguration option \<Rightarrow> (bytes \<times> mp4track) option" where
  "processH265 track hvcc extra = process_sample H265NaluType h265_case (Option.bind extra ToNalus) track hvcc"

section \<open>Packets\<close>

record AVPacket =
  av_Cid :: MP4_CODEC_TYPE
  av_Data :: bytes
  av_TrackId :: int
  av_Pts :: u64
  av_Dts :: u64

record SubSamplePattern =
  sp_BytesClear :: u16
  sp_BytesProtected :: u32

record SubSample =
  sub_KID :: bytes
  sub_IV :: bytes
  sub_Patterns :: "SubSamplePattern list"
  sub_Number :: u32
  sub_CryptByteBlock :: byte
  sub_SkipByteBlock :: byte
  sub_PsshBoxes :: "PsshBox list"

text \<open>A copy into an array of 16 zero bytes.\<close>

definition array16 :: "bytes \<Rightarrow> bytes" where "array16 b = take 16 (b @ replicate 16 0)"

definition buildSubSample :: "PsshBox list \<Rightarrow> mp4track \<Rightarrow> u32 \<Rightarrow> SubSample option" where
  "buildSubSample pssh track i =
     (if uint i \<ge> glen (tk_subSamples track) then None
      else let e = tk_subSamples track ! unat i in
        Some \<lparr>sub_KID = array16 (case tk_lastSeig track of Some s \<Rightarrow> sg_KID s | None \<Rightarrow> tk_defaultKID track),
          sub_IV = array16 (if sce_iv e \<noteq> [] then sce_iv e else tk_defaultConstantIV track),
          sub_Patterns = map (\<lambda>p. \<lparr>sp_BytesClear = su_bytesOfClearData p, sp_BytesProtected = su_bytesOfProtectedData p\<rparr>) (sce_subSamples e),
          sub_Number = i,
          sub_CryptByteBlock = (case tk_lastSeig track of Some s \<Rightarrow> sg_CryptByteBlock s | None \<Rightarrow> tk_defaultCryptByteBlock track),
          sub_SkipByteBlock = (case tk_lastSeig track of Some s \<Rightarrow> sg_SkipByteBlock s | None \<Rightarrow> tk_defaultSkipByteBlock track),
          sub_PsshBoxes = pssh\<rparr>)"

type_synonym raw_callback = "MP4_CODEC_TYPE \<Rightarrow> bytes \<Rightarrow> SubSample option \<Rightarrow> mp4_error + bytes"

definition on_raw :: "raw_callback option \<Rightarrow> PsshBox list \<Rightarrow> mp4track \<Rightarrow> u32 \<Rightarrow> bytes \<Rightarrow> (mp4_error, bytes) result" where
  "on_raw raw pssh track i sample = (case raw of None \<Rightarrow> ok sample
     | Some f \<Rightarrow> Some (f (tk_cid track) sample (buildSubSample pssh track i)))"

definition packet_data :: "mp4track \<Rightarrow> bytes \<Rightarrow> (mp4_error, bytes \<times> mp4track) result" where
  "packet_data track sample =
     (if tk_cid track = MP4_CODEC_H264 then
        (case tk_extra track of Some (H264Extra spss ppss) \<Rightarrow> must (processH264 track sample spss ppss)
         | _ \<Rightarrow> err (ErrMp4 ''mp4: h264 track has no avcC extra data''))
      else if tk_cid track = MP4_CODEC_H265 then
        (case tk_extra track of Some (H265Extra hvcc) \<Rightarrow> must (processH265 track sample hvcc)
         | _ \<Rightarrow> err (ErrMp4 ''mp4: h265 track has no hvcC extra data''))
      else if tk_cid track = MP4_CODEC_AAC then
        (case tk_extra track of Some (AacExtra asc) \<Rightarrow>
           (case ConvertASCToADTS asc (glen sample + 7) of None \<Rightarrow> None
            | Some (Inl _) \<Rightarrow> err (ErrMp4 ''aac: bad AudioSpecificConfig'')
            | Some (Inr adts) \<Rightarrow> ok (ADTS_Encode adts @ sample, track))
         | _ \<Rightarrow> err (ErrMp4 ''mp4: aac track has no esds extra data''))
      else ok (sample, track))"

text \<open>
  One turn of the loop.  An error behind the reading of the sample leaves it read; before it only the
  position of the reader has changed, which every call sets anew.
\<close>

definition packet_turn :: "raw_callback option \<Rightarrow> MovDemuxer \<Rightarrow> (AVPacket \<times> MovDemuxer) step" where
  "packet_turn raw dm = rbind (keep dm (read_sample dm)) (\<lambda>((i, track, s, sample), dm').
     rbind (keep dm' (on_raw raw (dm_pssh dm) track (dm_readSampleIdx dm ! i) sample)) (\<lambda>sample.
     rbind (keep dm' (packet_data track sample)) (\<lambda>(d, track).
     ok (\<lparr>av_Cid = tk_cid track, av_Data = d, av_TrackId = uint (tk_trackId track),
       av_Pts = se_pts s * 1000 div ucast (tk_timescale track), av_Dts = se_dts s * 1000 div ucast (tk_timescale track)\<rparr>,
       put_track i track dm'))))"

partial_function (option) ReadPacket :: "raw_callback option \<Rightarrow> MovDemuxer \<Rightarrow> (AVPacket \<times> MovDemuxer) step" where
  "ReadPacket raw dm = Option.bind (packet_turn raw dm) (\<lambda>r. case r of
       Inl e \<Rightarrow> Some (Inl e)
     | Inr (p, dm) \<Rightarrow> if av_Data p \<noteq> [] then Some (Inr (p, dm)) else ReadPacket raw dm)"

record Mp4Info =
  mi_MajorBrand :: u32
  mi_MinorVersion :: u32
  mi_CompatibleBrands :: "u32 list"
  mi_Duration :: u32
  mi_Timescale :: u32
  mi_CreateTime :: u64
  mi_ModifyTime :: u64

definition GetMp4Info :: "MovDemuxer \<Rightarrow> Mp4Info" where
  "GetMp4Info dm = \<lparr>mi_MajorBrand = dm_MajorBrand dm, mi_MinorVersion = dm_MinorVersion dm, mi_CompatibleBrands = dm_CompatibleBrands dm,
     mi_Duration = dm_Duration dm, mi_Timescale = dm_Timescale dm, mi_CreateTime = dm_CreateTime dm, mi_ModifyTime = dm_ModifyTime dm\<rparr>"

text \<open>The first track with the id; writing the record of H.265 may change it.\<close>

definition GetExtraData :: "u32 \<Rightarrow> MovDemuxer \<Rightarrow> (mp4_error, bytes \<times> MovDemuxer) result" where
  "GetExtraData trackId dm =
     (case filter (\<lambda>i. tk_trackId (dm_tracks dm ! i) = trackId) [0..<length (dm_tracks dm)] of
        [] \<Rightarrow> err (ErrMp4 ''not found track'')
      | i # _ \<Rightarrow> let track = dm_tracks dm ! i in (case tk_extra track of
          None \<Rightarrow> err (ErrMp4 ''mp4: track has no codec configuration'')
        | Some x \<Rightarrow> rbind (extra_export x) (\<lambda>(x, b). ok (b, put_track i (track\<lparr>tk_extra := Some x\<rparr>) dm))))"

section \<open>What the units of a sample say\<close>

text \<open>
  A sample is a sequence of units, each behind its length in four bytes, and a tail that is no whole
  unit.  A unit is kept with what follows it: the type of an empty unit is read from there.
\<close>

definition be_number :: "bytes \<Rightarrow> nat" where "be_number b = foldl (\<lambda>v x. 256 * v + unat x) 0 b"

fun sample_units :: "bytes \<Rightarrow> (bytes \<times> bytes) list \<times> bytes" where
  "sample_units b = (let n = be_number (take 4 b) in
     if length b < 4 \<or> length b < 4 + n then ([], b)
     else let u = take n (drop 4 b); r = drop (4 + n) b; (us, t) = sample_units r in ((u, r) # us, t))"

declare sample_units.simps [simp del]

definition annexb :: "(bytes \<times> bytes) list \<times> bytes \<Rightarrow> bytes" where
  "annexb = (\<lambda>(us, t). concat (map (\<lambda>(u, _). [0, 0, 0, 1] @ u) us) @ t)"

definition first_byte :: "bytes \<times> bytes \<Rightarrow> nat" where
  "first_byte = (\<lambda>(u, r). case u @ r of [] \<Rightarrow> 0 | x # _ \<Rightarrow> unat x)"

text \<open>The types of H.264 (table 7-1 of the standard) and of H.265 (table 7-1 of that).\<close>

definition unit_is :: "MP4_CODEC_TYPE \<Rightarrow> nat set \<Rightarrow> nat set \<Rightarrow> bytes \<times> bytes \<Rightarrow> bool" where
  "unit_is cid h264 h265 u = (if cid = MP4_CODEC_H264 then first_byte u mod 32 \<in> h264 else first_byte u div 2 mod 64 \<in> h265)"

definition slice_unit :: "MP4_CODEC_TYPE \<Rightarrow> bytes \<times> bytes \<Rightarrow> bool" where "slice_unit cid = unit_is cid {1..5} ({0..9} \<union> {16..21})"
definition key_unit :: "MP4_CODEC_TYPE \<Rightarrow> bytes \<times> bytes \<Rightarrow> bool" where "key_unit cid = unit_is cid {5} {16..21}"
definition set_unit :: "MP4_CODEC_TYPE \<Rightarrow> bytes \<times> bytes \<Rightarrow> bool" where "set_unit cid = unit_is cid {7, 8} {32, 33, 34}"

text \<open>
  A sample without a slice that holds parameter sets is held back in the cache.  A sample with slices
  and sets of its own is handed out and empties the cache; a key frame without sets gets those of the
  cache, or else of the configuration, in front; every other sample is handed out as it is.
\<close>

definition video_out :: "MP4_CODEC_TYPE \<Rightarrow> bytes \<Rightarrow> bytes \<Rightarrow> bytes \<Rightarrow> bytes \<times> bytes" where
  "video_out cid config cache b = (let us = fst (sample_units b); a = annexb (sample_units b);
       slices = list_ex (slice_unit cid) us; sets = list_ex (set_unit cid) us; key = list_ex (key_unit cid) us in
     if slices \<and> sets then (a, [])
     else if slices \<and> key then (if cache = [] then (config @ a, []) else (cache @ a, []))
     else if sets then ([], cache @ a)
     else (a, cache))"

text \<open>The configuration of a track: its parameter sets behind start codes.\<close>

definition video_config :: "mp4track \<Rightarrow> bytes" where
  "video_config t = (case tk_extra t of Some (H264Extra spss ppss) \<Rightarrow> concat spss @ concat ppss
     | Some (H265Extra (Some h)) \<Rightarrow> (case ToNalus h of Some b \<Rightarrow> b | None \<Rightarrow> [])
     | _ \<Rightarrow> [])"

definition aac_front :: "mp4track \<Rightarrow> int \<Rightarrow> bytes" where
  "aac_front t n = (case tk_extra t of Some (AacExtra asc) \<Rightarrow>
       (case ConvertASCToADTS asc (n + 7) of Some (Inr h) \<Rightarrow> ADTS_Encode h | _ \<Rightarrow> [])
     | _ \<Rightarrow> [])"

definition sample_out :: "mp4track \<Rightarrow> bytes \<Rightarrow> bytes \<Rightarrow> bytes \<times> bytes" where
  "sample_out t cache b =
     (if isVideo (tk_cid t) then video_out (tk_cid t) (video_config t) cache b
      else if tk_cid t = MP4_CODEC_AAC then (aac_front t (glen b) @ b, cache)
      else (b, cache))"

primrec track_out :: "mp4track \<Rightarrow> bytes \<Rightarrow> (sampleEntry \<times> bytes) list \<Rightarrow> (sampleEntry \<times> bytes) list" where
  "track_out t cache [] = []"
| "track_out t cache (x # xs) = (fst x, fst (sample_out t cache (snd x))) # track_out t (snd (sample_out t cache (snd x))) xs"

section \<open>The loop over the units\<close>

lemma unat_byte_lt: "unat (x :: byte) < 256"
  using unsigned_less [of x, where 'a = nat] by simp

lemma be_number_get: "4 \<le> length b \<Longrightarrow> \<exists>n. get_be32 b = Some n \<and> unat n = be_number (take 4 b)"
proof -
  assume "4 \<le> length b"
  then obtain a c d e r where b: "b = a # c # d # e # r" by (cases b rule: get_be32.cases) auto
  let ?A = "push_bit 24 (ucast a) :: u32" and ?C = "push_bit 16 (ucast c) :: u32" and ?D = "push_bit 8 (ucast d) :: u32" and ?E = "ucast e :: u32"
  have "?A AND (?C OR ?D OR ?E) = 0" "?C AND (?D OR ?E) = 0" "?D AND ?E = 0"
    by (rule bit_word_eqI; auto simp: bit_simps dest: bit_imp_le_length)+
  then have "?A OR ?C OR ?D OR ?E = ?A + (?C + (?D + ?E))" by (simp add: disjunctive_add_eq_or or.assoc)
  also have "\<dots> = word_of_nat (2 ^ 24 * unat a + (2 ^ 16 * unat c + (2 ^ 8 * unat d + unat e)))"
    by (simp add: push_bit_eq_mult mult.commute)
  finally have w: "?A OR ?C OR ?D OR ?E = word_of_nat (2 ^ 24 * unat a + (2 ^ 16 * unat c + (2 ^ 8 * unat d + unat e)))" .
  have "unat a < 256" "unat c < 256" "unat d < 256" "unat e < 256" by (rule unat_byte_lt)+
  then have "2 ^ 24 * unat a + (2 ^ 16 * unat c + (2 ^ 8 * unat d + unat e)) < 2 ^ LENGTH(32)" by simp
  then have "unat (?A OR ?C OR ?D OR ?E) = 2 ^ 24 * unat a + (2 ^ 16 * unat c + (2 ^ 8 * unat d + unat e))"
    unfolding w by (simp only: unat_of_nat mod_less)
  then have "unat (?A OR ?C OR ?D OR ?E) = be_number [a, c, d, e]" by (simp add: be_number_def)
  then show ?thesis by (simp add: b)
qed

lemma naluOffset_annexb: "naluOffset ([0, 0, 0, 1] @ x) = Some (if x = [] then - 1 else 4)"
  by (simp add: naluOffset_def FindStartCode_def idx_def)

lemma nal_types:
  "H264NaluType ([0, 0, 0, 1] @ u @ r) = Some (int (first_byte (u, r) mod 32))"
  "H265NaluType ([0, 0, 0, 1] @ u @ r) = Some (int (first_byte (u, r) div 2 mod 64))"
proof -
  have "uint (x AND 0x1F) = int (unat x mod 32)" "uint (drop_bit 1 x AND 0x3F) = int (unat x div 2 mod 64)" for x :: byte
  proof -
    have "x AND 0x1F = take_bit 5 x" "drop_bit 1 x AND 0x3F = take_bit 6 (drop_bit 1 x)"
      by (simp_all add: take_bit_eq_mask mask_eq_exp_minus_1)
    then show "uint (x AND 0x1F) = int (unat x mod 32)" "uint (drop_bit 1 x AND 0x3F) = int (unat x div 2 mod 64)"
      by (simp_all only: uint_nat unsigned_take_bit_eq unat_drop_bit_eq, simp_all add: take_bit_eq_mod drop_bit_eq_div)
  qed
  then show "H264NaluType ([0, 0, 0, 1] @ u @ r) = Some (int (first_byte (u, r) mod 32))"
    "H265NaluType ([0, 0, 0, 1] @ u @ r) = Some (int (first_byte (u, r) div 2 mod 64))"
    unfolding H264NaluType_def H265NaluType_def naluOffset_annexb
    by (cases "u @ r"; simp add: first_byte_def idx_def H264_NAL_RESERVED_def)+
qed

lemma behind_unit:
  assumes "length u = n"
  shows "slice_from ([0, 0, 0, 1] @ u @ r) (int (4 + n)) = Some (r :: bytes)" and "take (4 + n) ([0, 0, 0, 1] @ u @ r) = [0, 0, 0, 1] @ (u :: bytes)"
proof -
  have len: "length ([0, 0, 0, 1] @ u) = 4 + n" using assms by simp
  have "slice_from (xs @ ys) (int (length xs)) = Some ys" "take (length xs) (xs @ ys) = xs" for xs ys :: bytes by simp_all
  from this [of "[0, 0, 0, 1] @ u" r]
  show "slice_from ([0, 0, 0, 1] @ u @ r) (int (4 + n)) = Some r" "take (4 + n) ([0, 0, 0, 1] @ u @ r) = [0, 0, 0, 1] @ u"
    unfolding len by simp_all
qed

lemma rewrite_units_run:
  assumes "\<And>u r. nt ([0, 0, 0, 1] @ u @ r) = Some (ty (u, r))" and "length b < 2 ^ 32"
  shows "rewrite_units nt mark b seen = Some (annexb (sample_units b), foldl (\<lambda>s u. mark (ty u) s) seen (fst (sample_units b)))"
  using assms(2)
proof (induction b arbitrary: seen rule: sample_units.induct)
  case (1 b)
  note len = 1(2)
  show ?case
  proof (cases "length b < 4")
    case True
    then show ?thesis by (subst rewrite_units.simps) (simp add: sample_units.simps annexb_def)
  next
    case False
    then obtain n where n: "get_be32 b = Some n" "unat n = be_number (take 4 b)" using be_number_get [of b] by auto
    then have un: "uint n = int (be_number (take 4 b))" by (simp only: uint_nat)
    show ?thesis
    proof (cases "length b < 4 + be_number (take 4 b)")
      case True
      then have "uint n + 4 > glen b" by (simp add: un)
      then show ?thesis using n False True by (subst rewrite_units.simps) (simp add: sample_units.simps annexb_def)
    next
      case fits: False
      let ?n = "be_number (take 4 b)"
      let ?u = "take ?n (drop 4 b)" and ?r = "drop (4 + ?n) b"
      have su: "sample_units b = (((?u, ?r) # fst (sample_units ?r)), snd (sample_units ?r))"
        using False fits by (subst sample_units.simps) (simp add: Let_def split: prod.split)
      have four: "unat (4 + n) = 4 + ?n" using fits len n(2) by (simp add: unat_add_lem [THEN iffD1])
      then have ufour: "uint (4 + n) = int (4 + ?n)" by (simp only: uint_nat)
      have h: "CovertAVCCToAnnexB b = [0, 0, 0, 1] @ ?u @ ?r" using False by (simp add: CovertAVCCToAnnexB_def add.commute [of 4] flip: drop_drop)
      have ul: "length ?u = ?n" using fits by simp
      have ih: "rewrite_units nt mark ?r s = Some (annexb (sample_units ?r), foldl (\<lambda>s u. mark (ty u) s) s (fst (sample_units ?r)))" for s
        using 1(1) [OF refl _ refl refl] False fits len by simp
      have "slice_from (CovertAVCCToAnnexB b) (uint (4 + n)) = Some ?r" unfolding ufour h by (rule behind_unit(1) [OF ul])
      moreover have "take (4 + ?n) (CovertAVCCToAnnexB b) = [0, 0, 0, 1] @ ?u" unfolding h by (rule behind_unit(2) [OF ul])
      moreover have "\<not> uint n + 4 > glen b" using fits by (simp add: un)
      ultimately show ?thesis using n False assms(1) [of ?u ?r]
        by (subst rewrite_units.simps) (simp add: su annexb_def ih four h split_def)
    qed
  qed
qed

lemmas nal_numbers = H264_NAL_P_SLICE_def H264_NAL_SLICE_C_def H264_SPS_TYPE_def H264_PPS_TYPE_def H265_VPS_TYPE_def H265_SPS_TYPE_def
  H265_PPS_TYPE_def H264_NAL_I_SLICE_def H265_NAL_Slice_TRAIL_N_def H265_NAL_SLICE_RASL_R_def H265_NAL_SLICE_BLA_W_LP_def H265_NAL_SLICE_CRA_def

lemma h264_seen:
  "foldl (\<lambda>s u. h264_case (int (first_byte u mod 32)) s) (idr, vcl, sets) us =
    (idr \<or> list_ex (key_unit MP4_CODEC_H264) us, vcl \<or> list_ex (slice_unit MP4_CODEC_H264) us, sets \<or> list_ex (set_unit MP4_CODEC_H264) us)"
proof (induction us arbitrary: idr vcl sets)
  case (Cons u us)
  have "h264_case (int n) (idr, vcl, sets) = (idr \<or> n = 5, vcl \<or> n \<in> {1..5}, sets \<or> n = 7 \<or> n = 8)" for n
    by (auto simp: h264_case_def nal_numbers)
  then show ?case using Cons by (auto simp: key_unit_def slice_unit_def set_unit_def unit_is_def)
qed simp

lemma h265_seen:
  "foldl (\<lambda>s u. h265_case (int (first_byte u div 2 mod 64)) s) (idr, vcl, sets) us =
    (idr \<or> list_ex (key_unit MP4_CODEC_H265) us, vcl \<or> list_ex (slice_unit MP4_CODEC_H265) us, sets \<or> list_ex (set_unit MP4_CODEC_H265) us)"
proof (induction us arbitrary: idr vcl sets)
  case (Cons u us)
  have "h265_case (int n) (idr, vcl, sets) = (idr \<or> n \<in> {16..21}, vcl \<or> n \<in> {0..9} \<union> {16..21}, sets \<or> n = 32 \<or> n = 33 \<or> n = 34)" for n
    by (auto simp: h265_case_def nal_numbers)
  then show ?case using Cons by (auto simp: key_unit_def slice_unit_def set_unit_def unit_is_def codec_ids)
qed simp

text \<open>A key frame is a slice.\<close>

lemma key_is_slice: "list_ex (key_unit cid) us \<Longrightarrow> list_ex (slice_unit cid) us"
  by (induction us) (auto simp: key_unit_def slice_unit_def unit_is_def split: if_splits)

abbreviation with_cache :: "bytes \<Rightarrow> mp4track \<Rightarrow> mp4track" where
  "with_cache c t \<equiv> t\<lparr>tk_paramSetCache := c\<rparr>"

lemma own_cache [simp]: "with_cache (tk_paramSetCache t) t = t" by simp

lemma process_sample_out:
  assumes "rewrite_units nt mark b (False, False, False) = Some (annexb (sample_units b),
      (list_ex (key_unit cid) (fst (sample_units b)), list_ex (slice_unit cid) (fst (sample_units b)), list_ex (set_unit cid) (fst (sample_units b))))"
    and "config = Some c"
  shows "process_sample nt mark config t b = Some (fst (video_out cid c (tk_paramSetCache t) b), with_cache (snd (video_out cid c (tk_paramSetCache t) b)) t)"
  using key_is_slice [of cid "fst (sample_units b)"] assms by (auto simp: process_sample_def video_out_def Let_def)

text \<open>The tracks that \<open>ReadPacket\<close> can hand out: those with the extra data of their codec.\<close>

definition playable :: "mp4track \<Rightarrow> bool" where
  "playable t \<longleftrightarrow> (case tk_extra t of
       Some (H264Extra _ _) \<Rightarrow> tk_cid t \<noteq> MP4_CODEC_H265 \<and> tk_cid t \<noteq> MP4_CODEC_AAC
     | Some (H265Extra (Some h)) \<Rightarrow> ToNalus h \<noteq> None \<and> tk_cid t \<noteq> MP4_CODEC_H264 \<and> tk_cid t \<noteq> MP4_CODEC_AAC
     | Some (AacExtra asc) \<Rightarrow> length asc \<ge> 2 \<and> \<not> isVideo (tk_cid t)
     | _ \<Rightarrow> \<not> isVideo (tk_cid t) \<and> tk_cid t \<noteq> MP4_CODEC_AAC)"

lemma packet_data_out:
  assumes "playable t" and "length b < 2 ^ 32"
  shows "packet_data t b = ok (fst (sample_out t (tk_paramSetCache t) b), with_cache (snd (sample_out t (tk_paramSetCache t) b)) t)"
proof -
  have 4: "rewrite_units H264NaluType h264_case b (False, False, False) = Some (annexb (sample_units b),
      (list_ex (key_unit MP4_CODEC_H264) (fst (sample_units b)), list_ex (slice_unit MP4_CODEC_H264) (fst (sample_units b)),
       list_ex (set_unit MP4_CODEC_H264) (fst (sample_units b))))"
    by (subst rewrite_units_run [of H264NaluType "\<lambda>u. int (first_byte u mod 32)", OF nal_types(1) assms(2)]) (simp add: h264_seen)
  have 5: "rewrite_units H265NaluType h265_case b (False, False, False) = Some (annexb (sample_units b),
      (list_ex (key_unit MP4_CODEC_H265) (fst (sample_units b)), list_ex (slice_unit MP4_CODEC_H265) (fst (sample_units b)),
       list_ex (set_unit MP4_CODEC_H265) (fst (sample_units b))))"
    by (subst rewrite_units_run [of H265NaluType "\<lambda>u. int (first_byte u div 2 mod 64)", OF nal_types(2) assms(2)]) (simp add: h265_seen)
  have aac: "\<exists>h. ConvertASCToADTS asc n = Some (Inr h)" if "length asc \<ge> 2" for asc n
    using that by (auto simp: ConvertASCToADTS_def ASC_Decode_def idx_def)
  note defs = packet_data_def sample_out_def processH264_def processH265_def video_config_def aac_front_def isVideo_def
  show ?thesis
  proof (cases "tk_extra t")
    case None
    then show ?thesis using assms(1) by (auto simp: defs playable_def)
  next
    case (Some x)
    then show ?thesis
    proof (cases x)
      case (H264Extra spss ppss)
      then show ?thesis using assms(1) by (auto simp: Some defs playable_def process_sample_out [OF 4 refl])
    next
      case (H265Extra r)
      then show ?thesis using assms(1)
        by (cases r) (auto simp: Some defs playable_def codec_ids process_sample_out [OF 5 refl])
    next
      case (AacExtra asc)
      then show ?thesis using assms(1) aac [of asc "glen b + 7"] by (auto simp: Some defs playable_def)
    next
      case (OpusExtra h)
      then show ?thesis using assms(1) by (auto simp: Some defs playable_def)
    qed
  qed
qed

section \<open>The packets of all tracks\<close>

definition polite :: "raw_callback option \<Rightarrow> bool" where
  "polite raw \<longleftrightarrow> (case raw of None \<Rightarrow> True | Some f \<Rightarrow> \<forall>cid b x. case f cid b x of Inl _ \<Rightarrow> False | Inr b' \<Rightarrow> length b' = length b)"

text \<open>A sample as the callback leaves it.\<close>

definition given :: "raw_callback option \<Rightarrow> PsshBox list \<Rightarrow> mp4track \<Rightarrow> u32 \<Rightarrow> bytes \<Rightarrow> bytes" where
  "given raw pssh t i b = (case on_raw raw pssh t i b of Some (Inr b') \<Rightarrow> b' | _ \<Rightarrow> [])"

text \<open>The samples of a track that are not read yet.\<close>

definition to_read :: "raw_callback option \<Rightarrow> MovDemuxer \<Rightarrow> nat \<Rightarrow> (sampleEntry \<times> bytes) list" where
  "to_read raw dm i = (let t = dm_tracks dm ! i in
     map (\<lambda>k. let s = tk_samplelist t ! k in (s, given raw (dm_pssh dm) t (word_of_nat k) (sample_data (mf_bytes (dm_reader dm)) s)))
       [unat (dm_readSampleIdx dm ! i)..<length (tk_samplelist t)])"

lemma given_ok: "polite raw \<Longrightarrow> on_raw raw pssh t i b = ok (given raw pssh t i b) \<and> length (given raw pssh t i b) = length b"
proof (cases raw)
  case (Some f)
  assume "polite raw"
  then have "case f (tk_cid t) b (buildSubSample pssh t i) of Inl _ \<Rightarrow> False | Inr b' \<Rightarrow> length b' = length b" by (simp add: polite_def Some)
  then show ?thesis by (auto simp: on_raw_def given_def Some split: sum.splits)
qed (simp add: on_raw_def given_def)

lemma cache_irrelevant [simp]:
  "buildSubSample pssh (with_cache c t) = buildSubSample pssh t" "on_raw raw pssh (with_cache c t) = on_raw raw pssh t"
  "given raw pssh (with_cache c t) = given raw pssh t" "sample_out (with_cache c t) = sample_out t" "playable (with_cache c t) = playable t"
  "movie_time m (with_cache c t) = movie_time m t"
proof -
  show b: "buildSubSample pssh (with_cache c t) = buildSubSample pssh t" by (simp add: fun_eq_iff buildSubSample_def Let_def cong: option.case_cong)
  then show o: "on_raw raw pssh (with_cache c t) = on_raw raw pssh t" by (simp add: fun_eq_iff on_raw_def cong: option.case_cong)
  then show "given raw pssh (with_cache c t) = given raw pssh t" by (simp add: fun_eq_iff given_def)
  have "video_config (with_cache c t) = video_config t" "aac_front (with_cache c t) = aac_front t" by (simp_all add: fun_eq_iff video_config_def aac_front_def)
  then show "sample_out (with_cache c t) = sample_out t" by (simp add: fun_eq_iff sample_out_def)
  show "playable (with_cache c t) = playable t" by (simp add: playable_def split: option.split extraData.split)
  show "movie_time m (with_cache c t) = movie_time m t" by (simp add: fun_eq_iff movie_time_def)
qed

lemma track_out_cache [simp]: "track_out (with_cache c t) d xs = track_out t d xs"
  by (induction xs arbitrary: d) simp_all

lemma upt_same: "n - k = n - k' \<Longrightarrow> [k..<n] = [k'..<n]" for k k' n :: nat
proof (cases "k < n")
  case True
  assume "n - k = n - k'"
  then have "k' = k" using True by arith
  then show ?thesis by simp
qed simp

text \<open>What a demuxer will read does not depend on the caches; reading a sample takes one from its track.\<close>

lemma to_read_left: "map fst (to_read raw dm i) = left dm i" "length (to_read raw dm i) = length (left dm i)"
proof -
  have "map (\<lambda>k. xs ! k) [k..<length xs] = drop k xs" for k and xs :: "'x list"
    by (metis drop_map map_nth drop_upt add_0)
  then show "map fst (to_read raw dm i) = left dm i" by (simp add: to_read_def left_def Let_def comp_def)
  then show "length (to_read raw dm i) = length (left dm i)" by (metis length_map)
qed

lemma read_sample_frame: "read_sample dm = ok (x, dm') \<Longrightarrow> dm_pssh dm' = dm_pssh dm"
  by (auto simp: read_sample_def rbind_eq_ok split: if_splits option.splits)

lemma read_sample_takes:
  assumes "dm_tracks dm' = dm_tracks dm" "mf_bytes (dm_reader dm') = mf_bytes (dm_reader dm)" "dm_pssh dm' = dm_pssh dm"
  shows "left dm' j = left dm j \<Longrightarrow> to_read raw dm' j = to_read raw dm j"
    and "left dm i = s # left dm' i \<Longrightarrow>
      to_read raw dm i = (s, given raw (dm_pssh dm) (dm_tracks dm ! i) (dm_readSampleIdx dm ! i) (sample_data (mf_bytes (dm_reader dm)) s)) # to_read raw dm' i"
proof -
  assume "left dm' j = left dm j"
  then have "length (left dm' j) = length (left dm j)" by simp
  then have "[unat (dm_readSampleIdx dm' ! j)..<length (tk_samplelist (dm_tracks dm ! j))] = [unat (dm_readSampleIdx dm ! j)..<length (tk_samplelist (dm_tracks dm ! j))]"
    by (intro upt_same) (simp add: left_def assms(1))
  then show "to_read raw dm' j = to_read raw dm j" by (simp add: to_read_def assms Let_def)
next
  let ?k = "unat (dm_readSampleIdx dm ! i)" and ?l = "tk_samplelist (dm_tracks dm ! i)"
  assume l: "left dm i = s # left dm' i"
  then have lt: "?k < length ?l" by (auto simp: left_def intro: ccontr)
  have "length (left dm i) = Suc (length (left dm' i))" by (simp add: l)
  then have "[Suc ?k..<length ?l] = [unat (dm_readSampleIdx dm' ! i)..<length ?l]" by (intro upt_same) (simp add: left_def assms(1))
  then have "[?k..<length ?l] = ?k # [unat (dm_readSampleIdx dm' ! i)..<length ?l]" using lt by (simp add: upt_conv_Cons)
  moreover have "?l ! ?k = s" using l lt by (simp add: left_def flip: Cons_nth_drop_Suc)
  ultimately show "to_read raw dm i = (s, given raw (dm_pssh dm) (dm_tracks dm ! i) (dm_readSampleIdx dm ! i) (sample_data (mf_bytes (dm_reader dm)) s)) # to_read raw dm' i"
    by (simp add: to_read_def assms Let_def)
qed

lemma put_cache:
  fixes c :: bytes and dm :: MovDemuxer and i :: nat
  defines "dm' \<equiv> put_track i (with_cache c (dm_tracks dm ! i)) dm"
  assumes "i < length (dm_tracks dm)"
  shows "length (dm_tracks dm') = length (dm_tracks dm)" "dm_tracks dm' ! j = (if j = i then with_cache c (dm_tracks dm ! i) else dm_tracks dm ! j)"
    "to_read raw dm' = to_read raw dm" "left dm' = left dm" "samples_ready dm' = samples_ready dm" "tracks_sorted dm' = tracks_sorted dm"
    "dm_Timescale dm' = dm_Timescale dm"
proof -
  show len: "length (dm_tracks dm') = length (dm_tracks dm)" by (simp add: dm'_def put_track_def)
  show nth: "dm_tracks dm' ! j = (if j = i then with_cache c (dm_tracks dm ! i) else dm_tracks dm ! j)" for j
    using assms(2) by (simp add: dm'_def put_track_def nth_list_update)
  have same: "dm_reader dm' = dm_reader dm" "dm_readSampleIdx dm' = dm_readSampleIdx dm" "dm_pssh dm' = dm_pssh dm"
    by (simp_all add: dm'_def put_track_def)
  show ts: "dm_Timescale dm' = dm_Timescale dm" by (simp add: dm'_def put_track_def)
  show "to_read raw dm' = to_read raw dm" by (simp add: fun_eq_iff to_read_def same nth Let_def)
  show l: "left dm' = left dm" by (simp add: fun_eq_iff left_def same nth)
  show "samples_ready dm' = samples_ready dm"
    unfolding samples_ready_def same len all_set_conv_all_nth by (simp add: nth) (metis (no_types, lifting))
  show "tracks_sorted dm' = tracks_sorted dm" 
  proof -
    have "movie_time m (dm_tracks dm' ! j) = movie_time m (dm_tracks dm ! j)" for m j by (simp add: nth)
    then show ?thesis unfolding tracks_sorted_def len l ts by (simp del: cache_irrelevant)
  qed
qed

text \<open>One turn of \<open>ReadPacket\<close>.\<close>

definition packet :: "mp4track \<Rightarrow> sampleEntry \<Rightarrow> bytes \<Rightarrow> AVPacket" where
  "packet t s d = \<lparr>av_Cid = tk_cid t, av_Data = d, av_TrackId = uint (tk_trackId t),
     av_Pts = se_pts s * 1000 div ucast (tk_timescale t), av_Dts = se_dts s * 1000 div ucast (tk_timescale t)\<rparr>"

lemma packet_turn_step:
  assumes "samples_ready dm" and "\<forall>t\<in>set (dm_tracks dm). playable t" and "polite raw"
  shows "(packet_turn raw dm = err (Mp4Read EOF, dm) \<and> (\<forall>i < length (dm_tracks dm). to_read raw dm i = [])) \<or>
    (\<exists>i s b dm'. i < length (dm_tracks dm) \<and> to_read raw dm i = (s, b) # to_read raw dm' i \<and> (\<forall>j. j \<noteq> i \<longrightarrow> to_read raw dm' j = to_read raw dm j) \<and>
      left dm i = s # left dm' i \<and> (\<forall>j. j \<noteq> i \<longrightarrow> left dm' j = left dm j) \<and>
      (let t = dm_tracks dm ! i; (d, c) = sample_out t (tk_paramSetCache t) b in
         packet_turn raw dm = ok (packet t s d, dm') \<and> dm_tracks dm' = (dm_tracks dm)[i := with_cache c t]) \<and>
      samples_ready dm' \<and> dm_Timescale dm' = dm_Timescale dm \<and>
      (\<forall>j < length (dm_tracks dm). left dm j \<noteq> [] \<longrightarrow>
        movie_time (dm_Timescale dm) (dm_tracks dm ! i) s \<le> movie_time (dm_Timescale dm) (dm_tracks dm ! j) (hd (left dm j))))"
  using read_sample_step [OF assms(1)]
proof (elim disjE exE conjE)
  assume "read_sample dm = err (Mp4Read EOF)" "\<forall>i < length (dm_tracks dm). left dm i = []"
  moreover have "to_read raw dm i = []" if "left dm i = []" for i using to_read_left(2) [of raw dm i] that by simp
  ultimately show ?thesis by (simp add: packet_turn_def)
next
  fix i s dm'
  let ?t = "dm_tracks dm ! i" and ?k = "dm_readSampleIdx dm ! i"
  let ?data = "sample_data (mf_bytes (dm_reader dm)) s"
  let ?b = "given raw (dm_pssh dm) ?t ?k ?data"
  let ?c = "snd (sample_out ?t (tk_paramSetCache ?t) ?b)"
  let ?dm = "put_track i (with_cache ?c (dm_tracks dm' ! i)) dm'"
  assume i: "i < length (dm_tracks dm)" and l: "left dm i = s # left dm' i" and o: "\<forall>j. j \<noteq> i \<longrightarrow> left dm' j = left dm j"
    and rs: "read_sample dm = ok ((i, ?t, s, ?data), dm')"
    and r: "samples_ready dm'" "dm_tracks dm' = dm_tracks dm" "mf_bytes (dm_reader dm') = mf_bytes (dm_reader dm)" "dm_Timescale dm' = dm_Timescale dm"
    and least: "\<forall>j < length (dm_tracks dm). left dm j \<noteq> [] \<longrightarrow>
        movie_time (dm_Timescale dm) ?t s \<le> movie_time (dm_Timescale dm) (dm_tracks dm ! j) (hd (left dm j))"
  have pssh: "dm_pssh dm' = dm_pssh dm" using rs by (rule read_sample_frame)
  note takes = read_sample_takes [OF r(2,3) pssh, where raw = raw]
  have i': "i < length (dm_tracks dm')" using i r(2) by simp
  note pc = put_cache [OF i', where c = "?c"]
  have "s \<in> set (tk_samplelist ?t)" using l by (metis left_def list.set_intros(1) set_drop_subset subsetD)
  moreover have "?t \<in> set (dm_tracks dm)" using i by simp
  ultimately have "sample_in (mf_bytes (dm_reader dm)) s" using assms(1) unfolding samples_ready_def by blast
  then have "length ?data < 2 ^ 32" by (simp add: sample_in_def sample_data_def min_def)
  then have len: "length ?b < 2 ^ 32" using given_ok [OF assms(3)] by simp
  have "playable ?t" using assms(2) i by simp
  then have pd: "packet_data ?t ?b = ok (fst (sample_out ?t (tk_paramSetCache ?t) ?b), with_cache ?c ?t)" using len by (rule packet_data_out)
  have turn: "packet_turn raw dm = ok (packet ?t s (fst (sample_out ?t (tk_paramSetCache ?t) ?b)), ?dm)"
    using given_ok [OF assms(3)] by (simp add: packet_turn_def rs pd packet_def r(2))
  show ?thesis
  proof (intro disjI2 exI [of _ i] exI [of _ s] exI [of _ ?b] exI [of _ ?dm] conjI i allI impI)
    show "to_read raw dm i = (s, ?b) # to_read raw ?dm i" unfolding pc(3) by (rule takes(2) [OF l])
    show "to_read raw ?dm j = to_read raw dm j" if "j \<noteq> i" for j unfolding pc(3) using o that by (intro takes(1)) simp
    show "left dm i = s # left ?dm i" "\<And>j. j \<noteq> i \<Longrightarrow> left ?dm j = left dm j" unfolding pc(4) using l o by simp_all
    show "let t = ?t; (d, c) = sample_out t (tk_paramSetCache t) ?b in
         packet_turn raw dm = ok (packet t s d, ?dm) \<and> dm_tracks ?dm = (dm_tracks dm)[i := with_cache c t]"
      using turn by (simp add: Let_def split_def put_track_def r(2))
    show "samples_ready ?dm" "dm_Timescale ?dm = dm_Timescale dm" using pc(5,7) r(1,4) by simp_all
    show "movie_time (dm_Timescale dm) ?t s \<le> movie_time (dm_Timescale dm) (dm_tracks dm ! j) (hd (left dm j))"
      if "j < length (dm_tracks dm)" "left dm j \<noteq> []" for j using least that by blast
  qed
qed

text \<open>\<open>ReadPacket\<close> again and again, until it has no packet.\<close>

primrec read_packets :: "raw_callback option \<Rightarrow> nat \<Rightarrow> MovDemuxer \<Rightarrow> (AVPacket list \<times> mp4_error option) option" where
  "read_packets raw 0 dm = Some ([], None)"
| "read_packets raw (Suc n) dm = (case ReadPacket raw dm of
       None \<Rightarrow> None
     | Some (Inl (e, _)) \<Rightarrow> Some ([], Some e)
     | Some (Inr (p, dm)) \<Rightarrow> map_option (\<lambda>(ps, e). (p # ps, e)) (read_packets raw n dm))"

text \<open>A sample of a track with what it has become: a packet, or nothing when it is empty.\<close>

type_synonym read_sample = "nat \<times> sampleEntry \<times> bytes"

definition packets_of :: "mp4track list \<Rightarrow> read_sample list \<Rightarrow> AVPacket list" where
  "packets_of ts ys = map (\<lambda>(i, s, d). packet (ts ! i) s d) (filter (\<lambda>(i, s, d). d \<noteq> []) ys)"

definition in_track :: "nat \<Rightarrow> read_sample list \<Rightarrow> (sampleEntry \<times> bytes) list" where
  "in_track i ys = map snd (filter (\<lambda>y. fst y = i) ys)"

definition time_of :: "MovDemuxer \<Rightarrow> read_sample \<Rightarrow> u64" where
  "time_of dm = (\<lambda>(i, s, _). movie_time (dm_Timescale dm) (dm_tracks dm ! i) s)"

lemma packets_of_Cons:
  "packets_of ts ((i, s, d) # ys) = (if d = [] then packets_of ts ys else packet (ts ! i) s d # packets_of ts ys)" "av_Data (packet t s d) = d"
  by (simp_all add: packets_of_def packet_def)

lemma packets_of_cache [simp]: "i < length ts \<Longrightarrow> packets_of (ts[i := with_cache c (ts ! i)]) ys = packets_of ts ys"
  by (auto simp: packets_of_def packet_def nth_list_update)

lemma read_packets_skip:
  assumes "packet_turn raw dm = ok (p, dm')" and "0 < n"
  shows "read_packets raw n dm = (if av_Data p = [] then read_packets raw n dm'
    else map_option (\<lambda>(ps, e). (p # ps, e)) (read_packets raw (n - 1) dm'))"
proof -
  obtain m where n: "n = Suc m" using assms(2) by (cases n) simp_all
  have "ReadPacket raw dm = (if av_Data p \<noteq> [] then ok (p, dm') else ReadPacket raw dm')"
    by (subst ReadPacket.simps) (simp add: assms(1))
  then show ?thesis by (simp add: n)
qed

lemma read_packets_all:
  assumes "samples_ready dm" and "\<forall>t\<in>set (dm_tracks dm). playable t" and "polite raw"
    and "(\<Sum>i < length (dm_tracks dm). length (left dm i)) = m" and "m < n"
  shows "\<exists>ys. read_packets raw n dm = Some (packets_of (dm_tracks dm) ys, Some (Mp4Read EOF)) \<and>
    (\<forall>i < length (dm_tracks dm). in_track i ys = track_out (dm_tracks dm ! i) (tk_paramSetCache (dm_tracks dm ! i)) (to_read raw dm i)) \<and>
    (\<forall>y\<in>set ys. \<exists>j < length (dm_tracks dm). \<exists>s\<in>set (left dm j). time_of dm y = movie_time (dm_Timescale dm) (dm_tracks dm ! j) s) \<and>
    (tracks_sorted dm \<longrightarrow> sorted (map (time_of dm) ys))"
  using assms
proof (induction m arbitrary: dm n rule: less_induct)
  case (less m)
  let ?N = "length (dm_tracks dm)" and ?m = "dm_Timescale dm"
  from packet_turn_step [OF less.prems(1-3)] show ?case
  proof (elim disjE exE conjE)
    assume "packet_turn raw dm = err (Mp4Read EOF, dm)" "\<forall>i < ?N. to_read raw dm i = []"
    moreover obtain k where "n = Suc k" using less.prems(5) by (cases n) simp_all
    moreover from calculation have "ReadPacket raw dm = err (Mp4Read EOF, dm)" by (subst ReadPacket.simps) simp
    ultimately show ?thesis by (intro exI [of _ "[]"]) (simp add: packets_of_def in_track_def)
  next
    fix i :: nat and s :: sampleEntry and b :: bytes and dm' :: MovDemuxer
    let ?t = "dm_tracks dm ! i"
    let ?out = "sample_out ?t (tk_paramSetCache ?t) b"
    let ?y = "(i, s, fst ?out)"
    assume i: "i < ?N" and tr: "to_read raw dm i = (s, b) # to_read raw dm' i" "\<forall>j. j \<noteq> i \<longrightarrow> to_read raw dm' j = to_read raw dm j"
      and l: "left dm i = s # left dm' i" and o: "\<forall>j. j \<noteq> i \<longrightarrow> left dm' j = left dm j"
      and turn': "let t = ?t; (d, c) = sample_out t (tk_paramSetCache t) b in
         packet_turn raw dm = ok (packet t s d, dm') \<and> dm_tracks dm' = (dm_tracks dm)[i := with_cache c t]"
      and r: "samples_ready dm'" "dm_Timescale dm' = ?m"
      and least: "\<forall>j < ?N. left dm j \<noteq> [] \<longrightarrow> movie_time ?m ?t s \<le> movie_time ?m (dm_tracks dm ! j) (hd (left dm j))"
    have turn: "packet_turn raw dm = ok (packet ?t s (fst ?out), dm')" and ts: "dm_tracks dm' = (dm_tracks dm)[i := with_cache (snd ?out) ?t]"
      using turn' by (simp_all add: Let_def split_def)
    have N: "length (dm_tracks dm') = ?N" by (simp add: ts)
    have nth: "dm_tracks dm' ! j = (if j = i then with_cache (snd ?out) ?t else dm_tracks dm ! j)" for j
      using i by (simp add: ts nth_list_update)
    have mt: "movie_time ?m (dm_tracks dm' ! j) = movie_time ?m (dm_tracks dm ! j)" for j by (simp add: nth)
    have time: "time_of dm' = time_of dm" by (simp add: fun_eq_iff time_of_def mt r(2))
    have "(\<Sum>j < ?N. length (left dm j)) = length (left dm i) + (\<Sum>j\<in>{..<?N} - {i}. length (left dm j))"
      using i by (simp add: sum.remove)
    moreover have "(\<Sum>j < ?N. length (left dm' j)) = length (left dm' i) + (\<Sum>j\<in>{..<?N} - {i}. length (left dm' j))"
      using i by (simp add: sum.remove)
    moreover have "(\<Sum>j\<in>{..<?N} - {i}. length (left dm' j)) = (\<Sum>j\<in>{..<?N} - {i}. length (left dm j))"
      using o by (intro sum.cong) auto
    ultimately have sum: "(\<Sum>j < ?N. length (left dm' j)) = m - 1" "0 < m" using less.prems(4) l by simp_all
    have play: "\<forall>t\<in>set (dm_tracks dm'). playable t"
      using less.prems(2) i by (auto simp: ts dest!: set_update_subset_insert [THEN subsetD])
    define k where "k = (if fst ?out = [] then n else n - 1)"
    have "m - 1 < n" "m - 1 < n - 1" using less.prems(5) sum(2) by arith+
    then have k: "m - 1 < k" by (simp add: k_def)
    obtain ys where ys: "read_packets raw k dm' = Some (packets_of (dm_tracks dm') ys, Some (Mp4Read EOF))"
      "\<forall>j < ?N. in_track j ys = track_out (dm_tracks dm' ! j) (tk_paramSetCache (dm_tracks dm' ! j)) (to_read raw dm' j)"
      "\<forall>y\<in>set ys. \<exists>j < ?N. \<exists>s\<in>set (left dm' j). time_of dm y = movie_time ?m (dm_tracks dm ! j) s"
      "tracks_sorted dm' \<longrightarrow> sorted (map (time_of dm) ys)"
      using less.IH [OF _ r(1) play less.prems(3) _ k] sum unfolding N time r(2) mt by auto
    have sub: "set (left dm' j) \<subseteq> set (left dm j)" for j using l o by (cases "j = i") auto
    have A: "read_packets raw n dm = Some (packets_of (dm_tracks dm) (?y # ys), Some (Mp4Read EOF))"
      using less.prems(5) ys(1) i
      by (subst read_packets_skip [OF turn]) (auto simp: k_def ts packets_of_Cons split: if_splits)
    have B: "in_track j (?y # ys) = track_out (dm_tracks dm ! j) (tk_paramSetCache (dm_tracks dm ! j)) (to_read raw dm j)" if "j < ?N" for j
      using ys(2) that tr by (auto simp: in_track_def nth)
    have C: "\<exists>j < ?N. \<exists>s\<in>set (left dm j). time_of dm y = movie_time ?m (dm_tracks dm ! j) s" if "y \<in> set (?y # ys)" for y
    proof (cases "y = ?y")
      case True
      then have "time_of dm y = movie_time ?m ?t s" by (simp add: time_of_def)
      then show ?thesis using i l by (metis list.set_intros(1))
    next
      case False
      then show ?thesis using that ys(3) sub by (metis set_ConsD subsetD)
    qed
    have D: "sorted (map (time_of dm) (?y # ys))" if srt: "tracks_sorted dm"
    proof -
      have "sorted (map (movie_time ?m (dm_tracks dm ! j)) (left dm' j))" if "j < ?N" for j
      proof -
        have "sorted (map (movie_time ?m (dm_tracks dm ! j)) (left dm j))" using srt that unfolding tracks_sorted_def by blast
        then show ?thesis by (cases "j = i") (simp_all add: l o)
      qed
      then have "tracks_sorted dm'" by (simp add: tracks_sorted_def r(2) mt N)
      moreover have "time_of dm ?y \<le> time_of dm y" if yin: "y \<in> set ys" for y
      proof -
        obtain j s' where j: "j < ?N" "s' \<in> set (left dm' j)" "time_of dm y = movie_time ?m (dm_tracks dm ! j) s'"
          using bspec [OF ys(3) yin] by blast
        have mem: "s' \<in> set (left dm j)" using sub [of j] j(2) by (rule subsetD)
        then have ne: "left dm j \<noteq> []" by auto
        have "sorted (map (movie_time ?m (dm_tracks dm ! j)) (left dm j))" using srt j(1) unfolding tracks_sorted_def by blast
        then have "movie_time ?m (dm_tracks dm ! j) (hd (left dm j)) \<le> movie_time ?m (dm_tracks dm ! j) s'"
          using mem by (cases "left dm j") auto
        moreover have "movie_time ?m ?t s \<le> movie_time ?m (dm_tracks dm ! j) (hd (left dm j))" using least j(1) ne by blast
        moreover have "time_of dm ?y = movie_time ?m ?t s" by (simp add: time_of_def)
        ultimately show ?thesis using j(3) by (metis order.trans)
      qed
      ultimately show ?thesis using ys(4) by simp
    qed
    show ?thesis using A B C D by blast
  qed
qed

lemma map_fst_track_out: "map fst (track_out t c xs) = map fst xs"
  by (induction xs arbitrary: c) simp_all

text \<open>
  C27: \<open>ReadPacket\<close> called until it has no packet.  Let the samples that are left lie inside the file below the
  limit of the reader, let every track have a time scale and the extra data of its codec, and let the
  callback (if there is one) report no error and keep the length of a sample.  Then with one call
  more than there are samples the calls end with \<open>io.EOF\<close>; every sample that is left is taken once, each
  track in the order of its list; and what a track hands out is what \<open>track_out\<close> makes of its samples one by
  one, starting from the sets it has held back, whatever is read of the other tracks in between: video
  as units behind start codes, parameter sets alone held back for the next key frame, which else gets
  those of the configuration, AAC behind an ADTS header, anything else as it is; a sample of
  which nothing is left gives no packet.  If moreover the times of each track ascend, the samples of
  all tracks are taken in the order of their times in the movie.
\<close>

theorem every_sample_is_read:
  assumes "samples_ready dm" and "\<forall>t\<in>set (dm_tracks dm). playable t" and "polite raw"
    and "(\<Sum>i < length (dm_tracks dm). length (left dm i)) < n"
  shows "\<exists>ys. read_packets raw n dm = Some (packets_of (dm_tracks dm) ys, Some (Mp4Read EOF)) \<and>
    (\<forall>i < length (dm_tracks dm). map fst (in_track i ys) = left dm i \<and>
       in_track i ys = track_out (dm_tracks dm ! i) (tk_paramSetCache (dm_tracks dm ! i)) (to_read raw dm i)) \<and>
    (tracks_sorted dm \<longrightarrow> sorted (map (time_of dm) ys))"
proof -
  obtain ys where ys: "read_packets raw n dm = Some (packets_of (dm_tracks dm) ys, Some (Mp4Read EOF))"
    "\<forall>i < length (dm_tracks dm). in_track i ys = track_out (dm_tracks dm ! i) (tk_paramSetCache (dm_tracks dm ! i)) (to_read raw dm i)"
    "tracks_sorted dm \<longrightarrow> sorted (map (time_of dm) ys)"
    using read_packets_all [OF assms(1-3) refl assms(4)] by blast
  moreover have "map fst (in_track i ys) = left dm i" if "i < length (dm_tracks dm)" for i
    using ys(2) that by (simp add: map_fst_track_out to_read_left)
  ultimately show ?thesis by blast
qed

text \<open>A track of H.264 whose first sample is a parameter set and whose second a key frame, and one of G.711.\<close>

definition packets_demo :: MovDemuxer where
  "packets_demo = (CreateMp4Demuxer \<lparr>mf_bytes = [0, 0, 0, 2, 0x67, 1, 0xD5, 0, 0, 0, 2, 0x65, 9], mf_pos = 0\<rparr>)\<lparr>dm_Timescale := 1000,
     dm_readSampleIdx := [0, 0], dm_tracks :=
     [new_track\<lparr>tk_cid := MP4_CODEC_H264, tk_extra := Some (H264Extra [] []), tk_timescale := 1000, tk_samplelist :=
        [sized_sample 6, (sized_sample 6)\<lparr>se_dts := 5, se_offset := 7\<rparr>]\<rparr>,
      new_track\<lparr>tk_cid := MP4_CODEC_G711A, tk_timescale := 500, tk_samplelist := [(sized_sample 1)\<lparr>se_dts := 2, se_offset := 6\<rparr>]\<rparr>]\<rparr>"

theorem every_sample_is_read_witness:
  "\<exists>ys. read_packets None 4 packets_demo = Some (packets_of (dm_tracks packets_demo) ys, Some (Mp4Read EOF)) \<and>
    (\<forall>i < length (dm_tracks packets_demo). map fst (in_track i ys) = left packets_demo i \<and>
       in_track i ys = track_out (dm_tracks packets_demo ! i) (tk_paramSetCache (dm_tracks packets_demo ! i)) (to_read None packets_demo i)) \<and>
    (tracks_sorted packets_demo \<longrightarrow> sorted (map (time_of packets_demo) ys))"
proof (rule every_sample_is_read)
  show "samples_ready packets_demo"
    by (simp add: packets_demo_def samples_ready_def new_track_def sample_in_def sized_sample_def CreateMp4Demuxer_def)
  show "\<forall>t\<in>set (dm_tracks packets_demo). playable t"
    by (simp add: packets_demo_def playable_def new_track_def CreateMp4Demuxer_def codec_ids isVideo_def)
  show "polite None" by (simp add: polite_def)
  show "(\<Sum>i < length (dm_tracks packets_demo). length (left packets_demo i)) < 4"
    by (simp add: packets_demo_def left_def new_track_def sized_sample_def CreateMp4Demuxer_def numeral_2_eq_2 lessThan_Suc)
qed

declare rewrite_units.simps [code] ReadPacket.simps [code]

lemma packets_demo_packets:
  "map_option (map av_Data \<circ> fst) (read_packets None 4 packets_demo) = Some [[0xD5], [0, 0, 0, 1, 0x67, 1, 0, 0, 0, 1, 0x65, 9]]"
  by code_simp

end
