(* ===== verification/Spec2Isabelle.thy ===== *)
theory Spec2Isabelle
  imports BitStream BitStreamWriter AnnexB Crc32 Aac Amf0 RtmpChunk RtmpReader Rtp RtpFu RtpH264 RtpH265 RtpMedia H264 H265 Hvcc Opus Mp3 Vp8 TsTransport Mp4Packets
begin

text \<open>
  A verification library of gomediautils, a Go library of media codecs, containers and protocols.

  \<^bold>\<open>The program.\<close>  \<open>go-codec\<close> has the bit streams and the parsers of codec headers; everything else
  stands on it.  \<open>go-mpeg2\<close> packs frames into PES packets and transport streams and takes them out
  again, \<open>go-mp4\<close> does the same with MP4 files, \<open>go-rtmp\<close> carries messages in chunks and commands in
  AMF0, \<open>go-rtsp/rtp\<close> carries frames in RTP packets.  A muxer or packer calls back with packets, a
  demuxer or unpacker with frames.  \<open>go-flv\<close>, \<open>go-mkv\<close>, \<open>go-ogg\<close>, \<open>go-es\<close>, \<open>go-wav\<close>, \<open>go-srt\<close> and
  the sessions of RTMP and RTSP are not modelled.

  \<^bold>\<open>How Go is rendered.\<close>  A sized unsigned integer is a word of its width, with its wrap-around; an
  \<open>int\<close> is an \<open>int\<close>, with the wrap-around written out where a value of 64 bits is converted.  A
  function that may panic returns an option: \<open>None\<close> is a panic (an index or a slice out of range, a
  \<open>make\<close> of a negative size, an explicit \<open>panic\<close>) and, of a \<open>partial_function\<close>, also a loop that
  never ends, so that a theorem \<open>f x = Some y\<close> says that the call returns.  An error value of the
  code is an \<open>Inl\<close> of a sum type.  A method on a pointer receiver takes the state and returns the
  new one.  A callback is a list of the events handed to it, or a function where its result steers
  the code.  Streams that several maps of the demuxer share are cells of a store.  An \<open>io.Reader\<close> is
  the bytes it will deliver and the error that follows them; the bytes a file has are a parameter
  of every theorem about reading.

  \<^bold>\<open>Shared theories.\<close>  \<open>Prelude\<close> (Go values, \<open>result\<close> and its rules, slices, big and little endian
  numbers, the collection of totality rules, the locale \<open>prefix_codec\<close>: a decoder that reads an
  encoding in front of any bytes), \<open>GoReader\<close> (readers and the functions of package \<open>io\<close>),
  \<open>Incremental\<close> (the contract of a parser that is fed in pieces).

  \<^bold>\<open>Codecs\<close> (\<open>go-codec\<close>).
  \<^item> \<open>BitStream\<close>, \<open>BitStreamWriter\<close>: all of \<open>bitstream.go\<close>.  Every read of any count on any state is
    characterised by the bits that are left; a sequence of fields is read back as written.
    \<open>BitFields\<close> has the rules by which headers are written and read field by field, \<open>BitSyntax\<close> the
    same for the syntax elements of parameter sets.
  \<^item> \<open>AnnexB\<close>: \<open>util.go\<close> and the slice header of \<open>h264.go\<close>; start codes, splitters, emulation
    prevention and its removal.  \<open>Crc32\<close>: the checksum is that of the MPEG-2 polynomial.
  \<^item> \<open>Aac\<close> (\<open>aac.go\<close>), \<open>H264\<close> (\<open>h264.go\<close>), \<open>H265\<close> and \<open>Hvcc\<close> (\<open>h265.go\<close>), \<open>Opus\<close> (\<open>opus.go\<close>):
    headers, parameter sets, configuration records and packets.  The resolution of an SPS is that
    of the standard; records are read back; the configuration record of H.265 refines three maps.

  \<^bold>\<open>MPEG-TS\<close> (\<open>go-mpeg2\<close>).
  \<^item> \<open>Pes\<close> (\<open>pes-proto.go\<close>) and \<open>TsProto\<close> (\<open>ts-proto.go\<close>): packets and tables, with their round trips
    and the totality of the decoders.
  \<^item> \<open>TsMuxer\<close> (\<open>ts-muxer.go\<close>) and \<open>TsDemuxer\<close> (\<open>ts-demuxer.go\<close>): the state machines.  Invariants:
    packets of 188 bytes; positions of the frame scanner inside its buffer, so nothing panics.
  \<^item> \<open>TsTransport\<close>: both together refine a channel that keeps one frame per stream.

  \<^bold>\<open>RTMP\<close> (\<open>go-rtmp\<close>).  \<open>Amf0\<close> (\<open>amf.go\<close>); \<open>RtmpChunk\<close> (the writer of \<open>chunk.go\<close>); \<open>RtmpReader\<close> (its
  reader, a state machine over the bytes of a connection, an instance of \<open>Incremental\<close>: cutting the
  input differently changes nothing).

  \<^bold>\<open>RTP\<close> (\<open>go-rtsp/rtp\<close>).  \<open>Rtp\<close> (\<open>rtp-hdr.go\<close>, \<open>rtp.go\<close>); \<open>RtpFu\<close> (the contract of a payload
  format with fragments), \<open>RtpH264\<close>, \<open>RtpH265\<close> (its two instances), \<open>RtpMedia\<close> (AAC, G.711, TS).

  \<^bold>\<open>MP4\<close> (\<open>go-mp4\<close>).
  \<^item> \<open>Mp4Box\<close>: box headers and the tables of samples (\<open>box.go\<close>, \<open>mp4table.go\<close>, \<open>stts-box.go\<close>,
    \<open>ctts-box.go\<close>, \<open>stsc-box.go\<close>, \<open>stsz-box.go\<close>, \<open>stco-box.go\<close>, \<open>stss-box.go\<close>); \<open>Mp4Head\<close>: the header
    boxes of movie, track and media and the edit list.  The locale \<open>box_codec\<close> is the round trip of a
    box, interpreted on every box that is both written and read.
  \<^item> \<open>Mp4Codec\<close>: the sample entries of \<open>stsd-box.go\<close>, the descriptors of \<open>esds-box.go\<close>, \<open>ftyp\<close>, \<open>hdlr\<close> and
    the extra data of a track; \<open>Mp4Fragment\<close>: the boxes of fragments and of encryption and what they do
    to the demuxer.  Their lemmas: no bytes make a decoder panic.
  \<^item> \<open>Mp4Track\<close>: the sample tables made by \<open>mp4track.go\<close>; \<open>Mp4Samples\<close>: the sample list built of the
    tables; \<open>Mp4Decoders\<close>: every other box \<open>ReadHead\<close> knows, as one function of the demuxer.
  \<^item> \<open>Mp4Demuxer\<close>: \<open>ReadHead\<close> over all boxes and seeking; \<open>Mp4Packets\<close>: \<open>ReadPacket\<close>, which picks the next
    sample of all tracks, reads it and turns it into Annex B or ADTS, and \<open>GetMp4Info\<close>.  The callback
    \<open>OnRawSample\<close> is a parameter.

  \<^bold>\<open>Loops and bounds.\<close>  A loop over bytes is a recursion over them.  Loops that may not end are
  \<open>partial_function\<close>s (\<open>skip_stuffing\<close>, \<open>add_255\<close>, \<open>predict_deltas\<close>, \<open>descriptors\<close>,
  \<open>rewrite_units\<close>, \<open>ReadPacket\<close>) or take a number of turns: \<open>read_boxes\<close>
  of \<open>ReadHead\<close>, whose loop need not end (\<open>ReadHead_never_returns\<close>), so that its theorems hold for every
  number of turns.  The decoders of H.265 are shown to return for inputs below \<open>2 ^ 29\<close> bytes: positions
  in bits then fit the 32-bit numbers the code counts with.  Lengths of fragments, packets and sections
  are bounded where the field that carries them is; each bound is a hypothesis of its theorem and has a
  witness.

  \<^bold>\<open>What is not modelled.\<close>  Dumps for people (the \<open>PrettyPrint\<close> and \<open>Dump\<close> methods), sockets, timers and
  goroutines (\<open>go-srt\<close>, the sessions), program streams, FLV, Matroska, Ogg, elementary stream readers, SDP
  and RTCP.  The clock is an argument where a header stores the time.  In MP4 the muxer
  that writes files and the index of fragmented files are not; the callback that decrypts a sample is
  the caller's.
\<close>

end
